(* ===== verification/Prelude.thy ===== *)
theory Prelude
  imports Main "HOL-Library.Word"
begin

text \<open>
  Shared vocabulary of the development: the machine integer types of the C
  sources, byte buffers as lists, the little-endian accessors of
  \<^verbatim>\<open>src/lib/archive/xz/src/common/tuklib_integer.h\<close>, and the generic lemmas on lists
  and words that the component theories use. A C buffer \<^verbatim>\<open>uint8_t *buf\<close> is a
  \<open>byte list\<close> whose length is the size of the allocated object; \<open>buf + p\<close> is the
  pair of the list and the offset \<open>p\<close>. \<open>size_t\<close> positions are natural numbers:
  they index allocated memory, so they never reach the width of the type.
\<close>

unbundle bit_operations_syntax

type_synonym byte = "8 word"
type_synonym u16 = "16 word"
type_synonym u32 = "32 word"
type_synonym u64 = "64 word"

named_theorems buf_simps \<open>reading a buffer that has just been written\<close>

section \<open>Words\<close>

lemma unat_ucast_up:
  "LENGTH('a) \<le> LENGTH('b) \<Longrightarrow> unat (ucast (w :: 'a::len word) :: 'b::len word) = unat w"
proof -
  assume le: "LENGTH('a) \<le> LENGTH('b)"
  have "unat w < 2 ^ LENGTH('a)" by (rule unsigned_less)
  also have "\<dots> \<le> 2 ^ LENGTH('b)" using le by simp
  finally show ?thesis by (simp add: unsigned_ucast_eq take_bit_nat_eq_self)
qed

lemma ucast_ucast_up:
  "LENGTH('a) \<le> LENGTH('b) \<Longrightarrow> ucast (ucast (w :: 'a::len word) :: 'b::len word) = w"
  by (rule bit_word_eqI) (auto simp: bit_simps)

lemma ucast_up_eq_0:
  "LENGTH('a) \<le> LENGTH('b) \<Longrightarrow> (ucast (w :: 'a::len word) :: 'b::len word) = 0 \<longleftrightarrow> w = 0"
  by (metis ucast_ucast_up unsigned_0)

lemma unat_add_le: "unat ((a :: 'a::len word) + b) \<le> unat a + unat b"
  by (simp add: unat_word_ariths)

lemma unat_push_bit_le: "unat (push_bit n (w :: 'a::len word)) \<le> unat w * 2 ^ n"
proof -
  have "unat (push_bit n w) = take_bit LENGTH('a) (push_bit n (unat w))"
    by (rule unsigned_push_bit_eq)
  then show ?thesis by (simp add: push_bit_eq_mult)
qed

lemma and_FF: "(x :: 'a::len word) AND 0xFF = take_bit 8 x"
  by (simp add: take_bit_eq_mask mask_eq_exp_minus_1)

lemma xor_cancel_right: "(a :: 'a::len word) XOR c = b XOR c \<longleftrightarrow> a = b"
  by (metis xor.assoc xor.right_neutral xor_self_eq)

lemma xor_cancel_left: "c XOR (a :: 'a::len word) = c XOR b \<longleftrightarrow> a = b"
  by (simp add: xor.commute [of c] xor_cancel_right)

lemma bit_unat_iff: "bit (unat w) n \<longleftrightarrow> bit w n"
  by (simp add: bit_unsigned_iff)

lemma take_bit_add_left: "take_bit n (take_bit n (x :: 'a::len word) + y) = take_bit n (x + y)"
proof transfer
  fix n :: nat and x y :: int
  let ?m = "min LENGTH('a) n"
  have "take_bit ?m (take_bit ?m x + y) = take_bit ?m (x + y)"
    by (metis take_bit_add take_bit_take_bit min.idem)
  then show "take_bit LENGTH('a) (take_bit ?m (take_bit ?m x + y)) = take_bit LENGTH('a) (take_bit ?m (x + y))"
    by simp
qed

lemma take_bit_diff_left: "take_bit n (take_bit n (x :: 'a::len word) - y) = take_bit n (x - y)"
proof transfer
  fix n :: nat and x y :: int
  let ?m = "min LENGTH('a) n"
  have "take_bit ?m (take_bit ?m x - y) = take_bit ?m (x - y)"
    by (metis take_bit_diff take_bit_take_bit min.idem)
  then show "take_bit LENGTH('a) (take_bit ?m (take_bit ?m x - y)) = take_bit LENGTH('a) (take_bit ?m (x - y))"
    by simp
qed

lemma take_bit_drop_push:
  "n + k \<le> LENGTH('a) \<Longrightarrow> take_bit n (drop_bit k (push_bit k (x :: 'a::len word))) = take_bit n x"
  by (rule bit_word_eqI) (auto simp: bit_simps)

section \<open>Words bit by bit\<close>

lemma bit_byte_ge [simp]: "8 \<le> n \<Longrightarrow> \<not> bit (b :: byte) n"
  using bit_imp_le_length [of b n] by auto

lemma bit_u32_ge [simp]: "32 \<le> n \<Longrightarrow> \<not> bit (b :: u32) n"
  using bit_imp_le_length [of b n] by auto

lemma byte_bits:
  "(a :: byte) = b \<longleftrightarrow>
    bit a 0 = bit b 0 \<and> bit a 1 = bit b 1 \<and> bit a 2 = bit b 2 \<and> bit a 3 = bit b 3
    \<and> bit a 4 = bit b 4 \<and> bit a 5 = bit b 5 \<and> bit a 6 = bit b 6 \<and> bit a 7 = bit
    b 7"
proof -
  have "(a = b) = (\<forall>n<8. bit a n = bit b n)" by (auto intro: bit_word_eqI)
  then show ?thesis by (simp add: numeral_eq_Suc All_less_Suc conj_ac)
qed

lemma u32_bits:
  "(a :: u32) = b \<longleftrightarrow>
    bit a 0 = bit b 0 \<and> bit a 1 = bit b 1 \<and> bit a 2 = bit b 2 \<and> bit a 3 = bit b 3
    \<and> bit a 4 = bit b 4 \<and> bit a 5 = bit b 5 \<and> bit a 6 = bit b 6 \<and> bit a 7 = bit
    b 7 \<and> bit a 8 = bit b 8 \<and> bit a 9 = bit b 9 \<and> bit a 10 = bit b 10 \<and> bit a
    11 = bit b 11 \<and> bit a 12 = bit b 12 \<and> bit a 13 = bit b 13 \<and> bit a 14 = bit b 14
    \<and> bit a 15 = bit b 15 \<and> bit a 16 = bit b 16 \<and> bit a 17 = bit b 17 \<and> bit a
    18 = bit b 18 \<and> bit a 19 = bit b 19 \<and> bit a 20 = bit b 20 \<and> bit a 21 = bit b 21
    \<and> bit a 22 = bit b 22 \<and> bit a 23 = bit b 23 \<and> bit a 24 = bit b 24 \<and> bit a
    25 = bit b 25 \<and> bit a 26 = bit b 26 \<and> bit a 27 = bit b 27 \<and> bit a 28 = bit b 28
    \<and> bit a 29 = bit b 29 \<and> bit a 30 = bit b 30 \<and> bit a 31 = bit b 31"
proof -
  have "(a = b) = (\<forall>n<32. bit a n = bit b n)" by (auto intro: bit_word_eqI)
  then show ?thesis by (simp add: numeral_eq_Suc All_less_Suc conj_ac)
qed

section \<open>Buffers\<close>

text \<open>The slice of \<open>n\<close> bytes at offset \<open>p\<close>, and \<^verbatim>\<open>memcpy\<close> to an offset.\<close>

definition bytes_at :: "'a list \<Rightarrow> nat \<Rightarrow> nat \<Rightarrow> 'a list" where
  "bytes_at buf p n = take n (drop p buf)"

definition memcpy :: "'a list \<Rightarrow> nat \<Rightarrow> 'a list \<Rightarrow> 'a list" where
  "memcpy dst p src = take p dst @ src @ drop (p + length src) dst"

lemma length_bytes_at [simp]: "length (bytes_at buf p n) = min n (length buf - p)"
  by (simp add: bytes_at_def)

lemma length_memcpy [simp]:
  "p + length src \<le> length dst \<Longrightarrow> length (memcpy dst p src) = length dst"
  by (simp add: memcpy_def)

lemma memcpy_Nil [simp]: "memcpy dst p [] = dst"
  by (simp add: memcpy_def)

lemma bytes_at_memcpy [buf_simps]:
  "p + length src \<le> length dst \<Longrightarrow> bytes_at (memcpy dst p src) p (length src) = src"
  by (simp add: bytes_at_def memcpy_def)

lemma take_memcpy [buf_simps]:
  "q \<le> p \<Longrightarrow> p \<le> length dst \<Longrightarrow> take q (memcpy dst p src) = take q dst"
  by (simp add: memcpy_def)

lemma take_memcpy_end:
  "p \<le> length dst \<Longrightarrow> take (p + length src) (memcpy dst p src) = take p dst @ src"
  by (simp add: memcpy_def)

lemma drop_memcpy_end:
  "p + length src \<le> length dst \<Longrightarrow>
   drop (p + length src) (memcpy dst p src) = drop (p + length src) dst"
  by (simp add: memcpy_def)

lemma bytes_at_append:
  "bytes_at buf p m @ bytes_at buf (p + m) n = bytes_at buf p (m + n)"
  by (simp add: bytes_at_def take_add add.commute)

lemma bytes_at_0 [simp]: "bytes_at buf p 0 = []"
  by (simp add: bytes_at_def)

lemma bytes_at_Suc: "p < length buf \<Longrightarrow> bytes_at buf p (Suc n) = buf ! p # bytes_at buf (Suc p) n"
  by (simp add: bytes_at_def Cons_nth_drop_Suc [symmetric])

lemma nth_bytes_at: "i < n \<Longrightarrow> p + i < length buf \<Longrightarrow> bytes_at buf p n ! i = buf ! (p + i)"
  by (simp add: bytes_at_def)

lemma memcpy_single: "p < length dst \<Longrightarrow> memcpy dst p [x] = dst[p := x]"
  by (simp add: memcpy_def upd_conv_take_nth_drop)

lemma memcpy_Cons:
  "p < length dst \<Longrightarrow> memcpy dst p (x # xs) = memcpy (dst[p := x]) (Suc p) xs"
  by (simp add: memcpy_def upd_conv_take_nth_drop take_Suc_conv_app_nth add.commute)

lemma memcpy_append:
  "p + length xs \<le> length dst \<Longrightarrow> memcpy dst p (xs @ ys) = memcpy (memcpy dst p xs) (p + length xs) ys"
  by (simp add: memcpy_def ac_simps)

section \<open>Little-endian accessors\<close>

definition read32le :: "byte list \<Rightarrow> nat \<Rightarrow> u32" where
  "read32le buf p =
     (ucast (buf ! p) OR push_bit 8 (ucast (buf ! (p + 1)))
      OR push_bit 16 (ucast (buf ! (p + 2))) OR push_bit 24 (ucast (buf ! (p + 3))))"

definition write32le :: "byte list \<Rightarrow> nat \<Rightarrow> u32 \<Rightarrow> byte list" where
  "write32le buf p num =
     buf[p := ucast num, p + 1 := ucast (drop_bit 8 num),
         p + 2 := ucast (drop_bit 16 num), p + 3 := ucast (drop_bit 24 num)]"

text \<open>The four bytes a 32-bit number is stored as.\<close>

definition bytes32le :: "u32 \<Rightarrow> byte list" where
  "bytes32le num =
     [ucast num, ucast (drop_bit 8 num), ucast (drop_bit 16 num), ucast (drop_bit 24 num)]"

lemma length_bytes32le [simp]: "length (bytes32le num) = 4"
  by (simp add: bytes32le_def)

lemma length_write32le [simp]: "length (write32le buf p num) = length buf"
  by (simp add: write32le_def)

lemma word32_of_bytes:
  "(ucast (ucast (x :: u32) :: byte) :: u32)
     OR push_bit 8 (ucast (ucast (drop_bit 8 x) :: byte))
     OR push_bit 16 (ucast (ucast (drop_bit 16 x) :: byte))
     OR push_bit 24 (ucast (ucast (drop_bit 24 x) :: byte)) = x"
proof (rule bit_word_eqI)
  fix n assume "n < LENGTH(32)"
  then consider "n < 8" | "8 \<le> n" "n < 16" | "16 \<le> n" "n < 24" | "24 \<le> n" "n < 32"
    by fastforce
  then show "bit ((ucast (ucast x :: byte) :: u32)
     OR push_bit 8 (ucast (ucast (drop_bit 8 x) :: byte))
     OR push_bit 16 (ucast (ucast (drop_bit 16 x) :: byte))
     OR push_bit 24 (ucast (ucast (drop_bit 24 x) :: byte))) n = bit x n"
    by cases (auto simp: bit_simps)
qed

lemma read32le_write32le [buf_simps]:
  "p + 4 \<le> length buf \<Longrightarrow> read32le (write32le buf p num) p = num"
  by (simp add: read32le_def write32le_def word32_of_bytes)

lemma write32le_memcpy: "p + 4 \<le> length buf \<Longrightarrow> write32le buf p num = memcpy buf p (bytes32le num)"
  by (simp add: write32le_def bytes32le_def memcpy_Cons numeral_eq_Suc)

lemma read32le_bytes:
  "bytes_at buf p 4 = bytes32le num \<Longrightarrow> read32le buf p = num"
proof -
  assume eq: "bytes_at buf p 4 = bytes32le num"
  have "length (bytes_at buf p 4) = 4"
    by (simp only: eq length_bytes32le)
  then have len: "p + 4 \<le> length buf"
    by (simp add: min_def split: if_splits)
  have "buf ! (p + i) = bytes32le num ! i" if "i < 4" for i
    using nth_bytes_at [of i 4 p buf] that len eq by simp
  from this [of 0] this [of 1] this [of 2] this [of 3] show ?thesis
    by (simp add: read32le_def bytes32le_def word32_of_bytes)
qed

lemma bytes32le_join:
  "bytes32le (ucast a OR push_bit 8 (ucast b) OR push_bit 16 (ucast c) OR push_bit 24 (ucast d))
     = [a, b, c, d :: byte]"
  by (auto simp: bytes32le_def bit_eq_iff bit_simps dest: bit_imp_le_length)

lemma word32_bytes_eq_iff:
  fixes a b c d a' b' c' d' :: byte
  shows "(ucast a OR push_bit 8 (ucast b) OR push_bit 16 (ucast c) OR push_bit 24 (ucast d) :: u32)
     = ucast a' OR push_bit 8 (ucast b') OR push_bit 16 (ucast c') OR push_bit 24 (ucast d')
   \<longleftrightarrow> a = a' \<and> b = b' \<and> c = c' \<and> d = d'"
proof
  let ?w = "\<lambda>a b c d. ucast (a :: byte) OR push_bit 8 (ucast (b :: byte))
     OR push_bit 16 (ucast (c :: byte)) OR push_bit 24 (ucast (d :: byte)) :: u32"
  assume "?w a b c d = ?w a' b' c' d'"
  then have "bytes32le (?w a b c d) = bytes32le (?w a' b' c' d')" by (rule arg_cong)
  then show "a = a' \<and> b = b' \<and> c = c' \<and> d = d'" by (simp add: bytes32le_join)
qed simp

end
