(* ===== verification/Lzma_Base.thy ===== *)
theory Lzma_Base
  imports Prelude
begin

text \<open>
  The parts of liblzma that every coder shares: the return codes and actions of
  \<^verbatim>\<open>api/lzma/base.h\<close>, the constants of \<^verbatim>\<open>api/lzma/vli.h\<close>, the buffer copy
  \<open>lzma_bufcpy\<close> and the public entry point \<open>lzma_code\<close> of \<^verbatim>\<open>common/common.c\<close>
  (all under \<^verbatim>\<open>src/lib/archive/xz/src/liblzma\<close>). A coder is a function of its own state and of the
  input and output buffers with their positions; \<open>lzma_code\<close> drives one coder and is
  modelled over an arbitrary one.
\<close>

section \<open>Return codes, actions and check types\<close>

datatype lzma_ret =
    LZMA_OK
  | LZMA_STREAM_END
  | LZMA_NO_CHECK
  | LZMA_UNSUPPORTED_CHECK
  | LZMA_GET_CHECK
  | LZMA_MEM_ERROR
  | LZMA_MEMLIMIT_ERROR
  | LZMA_FORMAT_ERROR
  | LZMA_OPTIONS_ERROR
  | LZMA_DATA_ERROR
  | LZMA_BUF_ERROR
  | LZMA_PROG_ERROR
  | LZMA_SEEK_NEEDED
  | LZMA_TIMED_OUT
  | LZMA_INDEX_DETECTED

datatype lzma_action =
    LZMA_RUN
  | LZMA_SYNC_FLUSH
  | LZMA_FULL_FLUSH
  | LZMA_FINISH
  | LZMA_FULL_BARRIER

section \<open>Variable-length integer constants\<close>

type_synonym lzma_vli = u64

definition LZMA_VLI_MAX :: lzma_vli where
  "LZMA_VLI_MAX = 0x7FFFFFFFFFFFFFFF"

definition LZMA_VLI_UNKNOWN :: lzma_vli where
  "LZMA_VLI_UNKNOWN = 0xFFFFFFFFFFFFFFFF"

definition LZMA_VLI_BYTES_MAX :: nat where
  "LZMA_VLI_BYTES_MAX = 9"

definition lzma_vli_is_valid :: "lzma_vli \<Rightarrow> bool" where
  "lzma_vli_is_valid vli \<longleftrightarrow> vli \<le> LZMA_VLI_MAX \<or> vli = LZMA_VLI_UNKNOWN"

section \<open>Copying between buffers\<close>

text \<open>
  The result is the number of bytes copied, the new input position, the new output
  buffer and the new output position.
\<close>

definition lzma_bufcpy ::
  "byte list \<Rightarrow> nat \<Rightarrow> nat \<Rightarrow> byte list \<Rightarrow> nat \<Rightarrow> nat \<Rightarrow> nat \<times> nat \<times> byte list \<times> nat" where
  "lzma_bufcpy inb in_pos in_size out out_pos out_size =
     (let in_avail = in_size - in_pos;
          out_avail = out_size - out_pos;
          copy_size = min in_avail out_avail;
          out = (if copy_size > 0 then memcpy out out_pos (bytes_at inb in_pos copy_size) else out)
      in (copy_size, in_pos + copy_size, out, out_pos + copy_size))"

section \<open>The public coding loop\<close>

datatype lzma_sequence =
    ISEQ_RUN
  | ISEQ_SYNC_FLUSH
  | ISEQ_FULL_FLUSH
  | ISEQ_FINISH
  | ISEQ_FULL_BARRIER
  | ISEQ_END
  | ISEQ_ERROR

text \<open>
  A coder function of the chain: its state, the input buffer (from \<open>next_in\<close>), its
  position and size, the output buffer (from \<open>next_out\<close>), its position and size, and the
  action; it returns the code, the new state, the input position, the output buffer and
  the output position.
\<close>

type_synonym 'c lzma_code_function =
  "'c \<Rightarrow> byte list \<Rightarrow> nat \<Rightarrow> nat \<Rightarrow> byte list \<Rightarrow> nat \<Rightarrow> nat \<Rightarrow> lzma_action
   \<Rightarrow> lzma_ret \<times> 'c \<times> nat \<times> byte list \<times> nat"

text \<open>
  \<open>next\<close> holds the coder state together with its function; \<open>None\<close> is
  \<open>LZMA_NEXT_CODER_INIT\<close>, whose \<open>code\<close> is the null pointer.
\<close>

record 'c lzma_internal =
  next_coder :: "('c \<times> 'c lzma_code_function) option"
  sequence :: lzma_sequence
  internal_avail_in :: nat
  supported_actions :: "lzma_action \<Rightarrow> bool"
  allow_buf_error :: bool

text \<open>
  \<open>next_in\<close> and \<open>next_out\<close> point into buffers whose used parts have been skipped: the
  record keeps the bytes from the pointer on, \<open>None\<close> being the null pointer. The reserved
  members of \<open>lzma_stream\<close> are summarised by whether all of them are zero. The bytes
  written so far are kept in \<open>produced\<close>, since \<open>next_out\<close> moves past them.
\<close>

record 'c lzma_stream =
  next_in :: "byte list option"
  avail_in :: nat
  total_in :: u64
  next_out :: "byte list option"
  avail_out :: nat
  total_out :: u64
  internal :: "'c lzma_internal option"
  reserved_zero :: bool
  produced :: "byte list"

text \<open>
  \<open>alloc_ok\<close> says whether the allocator returns memory. A fresh \<open>lzma_internal\<close> has
  uninitialised \<open>avail_in\<close>, which \<open>garbage\<close> stands for: it is read only after
  \<open>lzma_code\<close> has set it.
\<close>

definition lzma_strm_init :: "bool \<Rightarrow> nat \<Rightarrow> 'c lzma_stream option
    \<Rightarrow> lzma_ret \<times> 'c lzma_stream option" where
  "lzma_strm_init alloc_ok garbage strm =
     (case strm of None \<Rightarrow> (LZMA_PROG_ERROR, None)
      | Some s \<Rightarrow>
        (case internal s of
           None \<Rightarrow>
             if \<not> alloc_ok then (LZMA_MEM_ERROR, Some s)
             else (LZMA_OK, Some (s\<lparr>internal := Some \<lparr>next_coder = None, sequence = ISEQ_RUN,
                     internal_avail_in = garbage, supported_actions = (\<lambda>_. False),
                     allow_buf_error = False\<rparr>, total_in := 0, total_out := 0\<rparr>))
         | Some i \<Rightarrow>
             (LZMA_OK, Some (s\<lparr>internal := Some (i\<lparr>supported_actions := (\<lambda>_. False),
                     sequence := ISEQ_RUN, allow_buf_error := False\<rparr>),
                     total_in := 0, total_out := 0\<rparr>))))"

text \<open>The switch on the sequence: the action must fit the call before it.\<close>

definition same_action :: "lzma_action \<Rightarrow> lzma_action \<Rightarrow> lzma_sequence \<Rightarrow> nat \<Rightarrow> nat
    \<Rightarrow> lzma_ret + lzma_sequence" where
  "same_action want action sq saved now =
     (if action \<noteq> want \<or> saved \<noteq> now then Inl LZMA_PROG_ERROR else Inr sq)"

definition lzma_code_sequence :: "lzma_sequence \<Rightarrow> lzma_action \<Rightarrow> nat \<Rightarrow> nat
    \<Rightarrow> lzma_ret + lzma_sequence" where
  "lzma_code_sequence sq action saved now =
     (case sq of
        ISEQ_RUN \<Rightarrow>
          Inr (case action of
                 LZMA_RUN \<Rightarrow> ISEQ_RUN
               | LZMA_SYNC_FLUSH \<Rightarrow> ISEQ_SYNC_FLUSH
               | LZMA_FULL_FLUSH \<Rightarrow> ISEQ_FULL_FLUSH
               | LZMA_FINISH \<Rightarrow> ISEQ_FINISH
               | LZMA_FULL_BARRIER \<Rightarrow> ISEQ_FULL_BARRIER)
      | ISEQ_SYNC_FLUSH \<Rightarrow> same_action LZMA_SYNC_FLUSH action ISEQ_SYNC_FLUSH saved now
      | ISEQ_FULL_FLUSH \<Rightarrow> same_action LZMA_FULL_FLUSH action ISEQ_FULL_FLUSH saved now
      | ISEQ_FINISH \<Rightarrow> same_action LZMA_FINISH action ISEQ_FINISH saved now
      | ISEQ_FULL_BARRIER \<Rightarrow> same_action LZMA_FULL_BARRIER action ISEQ_FULL_BARRIER saved now
      | ISEQ_END \<Rightarrow> Inl LZMA_STREAM_END
      | ISEQ_ERROR \<Rightarrow> Inl LZMA_PROG_ERROR)"

text \<open>
  The switch on the coder's return code: the code given to the application, the new
  sequence and the new \<open>allow_buf_error\<close>.
\<close>

definition lzma_code_result :: "lzma_ret \<Rightarrow> nat \<Rightarrow> nat \<Rightarrow> lzma_sequence \<Rightarrow> bool
    \<Rightarrow> lzma_ret \<times> lzma_sequence \<times> bool" where
  "lzma_code_result ret in_pos out_pos sq allow =
     (case ret of
        LZMA_OK \<Rightarrow>
          if out_pos = 0 \<and> in_pos = 0 then
            (if allow then (LZMA_BUF_ERROR, sq, allow) else (LZMA_OK, sq, True))
          else (LZMA_OK, sq, False)
      | LZMA_TIMED_OUT \<Rightarrow> (LZMA_OK, sq, False)
      | LZMA_SEEK_NEEDED \<Rightarrow>
          (LZMA_SEEK_NEEDED, if sq = ISEQ_FINISH then ISEQ_RUN else sq, False)
      | LZMA_STREAM_END \<Rightarrow>
          (LZMA_STREAM_END,
           if sq = ISEQ_SYNC_FLUSH \<or> sq = ISEQ_FULL_FLUSH \<or> sq = ISEQ_FULL_BARRIER
           then ISEQ_RUN else ISEQ_END, False)
      | LZMA_NO_CHECK \<Rightarrow> (LZMA_NO_CHECK, sq, False)
      | LZMA_UNSUPPORTED_CHECK \<Rightarrow> (LZMA_UNSUPPORTED_CHECK, sq, False)
      | LZMA_GET_CHECK \<Rightarrow> (LZMA_GET_CHECK, sq, False)
      | LZMA_MEMLIMIT_ERROR \<Rightarrow> (LZMA_MEMLIMIT_ERROR, sq, False)
      | _ \<Rightarrow> (ret, ISEQ_ERROR, allow))"

definition buffer_of :: "byte list option \<Rightarrow> byte list" where
  "buffer_of b = (case b of None \<Rightarrow> [] | Some xs \<Rightarrow> xs)"

text \<open>Moving \<open>next_in\<close> and \<open>next_out\<close> past what the coder used.\<close>

definition advance_in :: "nat \<Rightarrow> 'c lzma_stream \<Rightarrow> 'c lzma_stream" where
  "advance_in in_pos s =
     (if in_pos > 0
      then s\<lparr>next_in := map_option (drop in_pos) (next_in s), avail_in := avail_in s - in_pos,
             total_in := total_in s + of_nat in_pos\<rparr>
      else s)"

definition advance_out :: "nat \<Rightarrow> 'c lzma_stream \<Rightarrow> 'c lzma_stream" where
  "advance_out out_pos s =
     (if out_pos > 0
      then s\<lparr>next_out := map_option (drop out_pos) (next_out s),
             avail_out := avail_out s - out_pos, total_out := total_out s + of_nat out_pos,
             produced := produced s @ take out_pos (buffer_of (next_out s))\<rparr>
      else s)"

text \<open>The call of the coder and what follows it, once the checks have passed.\<close>

definition lzma_code_run :: "'c lzma_stream \<Rightarrow> 'c lzma_internal \<Rightarrow> 'c \<Rightarrow> 'c lzma_code_function
    \<Rightarrow> lzma_sequence \<Rightarrow> lzma_action \<Rightarrow> lzma_ret \<times> 'c lzma_stream" where
  "lzma_code_run s i coder code sq action =
     (case code coder (buffer_of (next_in s)) 0 (avail_in s)
                      (buffer_of (next_out s)) 0 (avail_out s) action of
        (ret, coder', in_pos, out, out_pos) \<Rightarrow>
          (let s1 = advance_out out_pos
                      (advance_in in_pos (s\<lparr>next_out := map_option (\<lambda>_. out) (next_out s)\<rparr>))
           in case lzma_code_result ret in_pos out_pos sq (allow_buf_error i) of
                (ret', sq', allow') \<Rightarrow>
                  (ret', s1\<lparr>internal := Some (i\<lparr>next_coder := Some (coder', code), sequence := sq',
                            internal_avail_in := avail_in s1, allow_buf_error := allow'\<rparr>)\<rparr>)))"

definition lzma_code :: "'c lzma_stream \<Rightarrow> lzma_action \<Rightarrow> lzma_ret \<times> 'c lzma_stream" where
  "lzma_code s action =
     (if (next_in s = None \<and> avail_in s \<noteq> 0) \<or> (next_out s = None \<and> avail_out s \<noteq> 0)
      then (LZMA_PROG_ERROR, s)
      else case internal s of
        None \<Rightarrow> (LZMA_PROG_ERROR, s)
      | Some i \<Rightarrow>
        (case next_coder i of
           None \<Rightarrow> (LZMA_PROG_ERROR, s)
         | Some (coder, code) \<Rightarrow>
           if \<not> supported_actions i action then (LZMA_PROG_ERROR, s)
           else if \<not> reserved_zero s then (LZMA_OPTIONS_ERROR, s)
           else case lzma_code_sequence (sequence i) action (internal_avail_in i) (avail_in s) of
                  Inl ret \<Rightarrow> (ret, s)
                | Inr sq \<Rightarrow> lzma_code_run s i coder code sq action))"

definition lzma_end :: "'c lzma_stream option \<Rightarrow> 'c lzma_stream option" where
  "lzma_end strm =
     (case strm of None \<Rightarrow> None
      | Some s \<Rightarrow> Some (if internal s \<noteq> None then s\<lparr>internal := None\<rparr> else s))"

section \<open>The contract between a coder and its caller\<close>

text \<open>
  \<open>io_ok\<close>: positions and sizes a caller may pass. \<open>io_step\<close>: what a coder may do with
  them: positions only grow and stay within the sizes, and the output buffer is written
  between \<open>out_pos\<close> and \<open>out_size\<close> only.
\<close>

definition io_ok :: "byte list \<Rightarrow> nat \<Rightarrow> nat \<Rightarrow> byte list \<Rightarrow> nat \<Rightarrow> nat \<Rightarrow> bool" where
  "io_ok inb in_pos in_size out out_pos out_size \<longleftrightarrow>
     in_pos \<le> in_size \<and> in_size \<le> length inb \<and> out_pos \<le> out_size \<and> out_size \<le> length out"

definition io_step :: "nat \<Rightarrow> nat \<Rightarrow> byte list \<Rightarrow> nat \<Rightarrow> nat \<Rightarrow> nat \<Rightarrow> byte list \<Rightarrow> nat \<Rightarrow> bool" where
  "io_step in_pos in_size out out_pos out_size in_pos' out' out_pos' \<longleftrightarrow>
     in_pos \<le> in_pos' \<and> in_pos' \<le> in_size \<and> out_pos \<le> out_pos' \<and> out_pos' \<le> out_size
     \<and> length out' = length out \<and> take out_pos out' = take out_pos out
     \<and> drop out_size out' = drop out_size out"

lemma io_stepI:
  "in_pos \<le> in_pos' \<Longrightarrow> in_pos' \<le> in_size \<Longrightarrow> out_pos \<le> out_pos' \<Longrightarrow> out_pos' \<le> out_size \<Longrightarrow>
   length out' = length out \<Longrightarrow> take out_pos out' = take out_pos out \<Longrightarrow>
   drop out_size out' = drop out_size out \<Longrightarrow>
   io_step in_pos in_size out out_pos out_size in_pos' out' out_pos'"
  by (simp add: io_step_def)

lemma io_step_trans:
  assumes "io_step ip is out op os ip1 out1 op1" and "io_step ip1 is out1 op1 os ip2 out2 op2"
  shows "io_step ip is out op os ip2 out2 op2"
proof -
  have "take op (take op1 out2) = take op (take op1 out1)" using assms(2) by (simp add: io_step_def)
  then have "take op out2 = take op out1" using assms(1) by (simp add: io_step_def min_def)
  with assms show ?thesis by (auto simp: io_step_def)
qed

lemma io_step_refl: "ip \<le> is \<Longrightarrow> op \<le> os \<Longrightarrow> io_step ip is out op os ip out op"
  by (simp add: io_step_def)

lemma io_step_memcpy:
  assumes "ip \<le> ip'" and "ip' \<le> is" and "op + length bs \<le> os" and "os \<le> length out"
  shows "io_step ip is out op os ip' (memcpy out op bs) (op + length bs)"
  using assms by (auto simp: io_step_def take_memcpy) (simp add: memcpy_def)

lemma io_step_ok:
  "io_ok inb ip is out op os \<Longrightarrow> io_step ip is out op os ip' out' op' \<Longrightarrow>
   io_ok inb ip' is out' op' os"
  by (simp add: io_ok_def io_step_def)

text \<open>
  A filter that lets the next coder run and then rewrites what it has written keeps the
  contract. \<open>enc\<close> are the rewritten bytes.
\<close>

lemma io_step_filter:
  assumes "io_step ip is out op os ip' out' op'" and "op' \<le> os" and "os \<le> length out"
    and "length enc = op' - op"
  shows "io_step ip is out op os ip' (memcpy out' op enc) op'"
proof -
  have "op \<le> op'" "ip \<le> ip'" "ip' \<le> is" "length out' = length out"
    using assms(1) by (simp_all add: io_step_def)
  then have "io_step ip' is out' op os ip' (memcpy out' op enc) (op + length enc)"
    using assms by (intro io_step_memcpy) auto
  with assms show ?thesis by (auto simp: io_step_def)
qed

lemma lzma_bufcpy_step:
  assumes "io_ok inb in_pos in_size out out_pos out_size"
    and "lzma_bufcpy inb in_pos in_size out out_pos out_size = (n, in_pos', out', out_pos')"
  shows "io_step in_pos in_size out out_pos out_size in_pos' out' out_pos'
    \<and> n = min (in_size - in_pos) (out_size - out_pos) \<and> in_pos' = in_pos + n \<and> out_pos' = out_pos + n
    \<and> bytes_at out' out_pos n = bytes_at inb in_pos n"
proof -
  define k where "k = min (in_size - in_pos) (out_size - out_pos)"
  define bs where "bs = bytes_at inb in_pos k"
  have bounds: "in_pos + k \<le> in_size" "out_pos + k \<le> out_size" "out_size \<le> length out"
    "in_size \<le> length inb"
    using assms(1) by (auto simp: io_ok_def k_def)
  then have len: "length bs = k" by (simp add: bs_def)
  have res: "n = k" "in_pos' = in_pos + k" "out_pos' = out_pos + k" "out' = memcpy out out_pos bs"
    using assms(2) by (auto simp: lzma_bufcpy_def Let_def k_def bs_def)
  have "io_step in_pos in_size out out_pos out_size (in_pos + k) (memcpy out out_pos bs) (out_pos + length bs)"
    using bounds len by (intro io_step_memcpy) simp_all
  moreover have "bytes_at (memcpy out out_pos bs) out_pos (length bs) = bs"
    using bounds len by (intro bytes_at_memcpy) simp
  ultimately show ?thesis
    by (simp add: res len) (simp add: k_def bs_def)
qed

text \<open>
  A stream whose pointers cover the available sizes and whose coder is \<open>code\<close> in a state
  that satisfies its invariant.
\<close>

definition strm_ok :: "'c lzma_code_function \<Rightarrow> ('c \<Rightarrow> bool) \<Rightarrow> 'c lzma_stream \<Rightarrow> bool" where
  "strm_ok code cinv s \<longleftrightarrow>
     avail_in s \<le> length (buffer_of (next_in s)) \<and> avail_out s \<le> length (buffer_of (next_out s))
     \<and> (\<forall>i. internal s = Some i \<longrightarrow> (\<exists>c. next_coder i = Some (c, code) \<and> cinv c))"

text \<open>What one call used of the input and of the output space.\<close>

definition consumed :: "'c lzma_stream \<Rightarrow> 'c lzma_stream \<Rightarrow> nat" where
  "consumed s s' = avail_in s - avail_in s'"

definition written :: "'c lzma_stream \<Rightarrow> 'c lzma_stream \<Rightarrow> nat" where
  "written s s' = avail_out s - avail_out s'"

text \<open>The books of a stream balance over a call.\<close>

definition strm_accounts :: "'c lzma_stream \<Rightarrow> 'c lzma_stream \<Rightarrow> bool" where
  "strm_accounts s s' \<longleftrightarrow>
     avail_in s' \<le> avail_in s \<and> avail_out s' \<le> avail_out s
     \<and> buffer_of (next_in s') = drop (consumed s s') (buffer_of (next_in s))
     \<and> total_in s' = total_in s + of_nat (consumed s s')
     \<and> total_out s' = total_out s + of_nat (written s s')
     \<and> (\<exists>w. produced s' = produced s @ w \<and> length w = written s s')"

lemma buffer_of_simps [simp]: "buffer_of None = []" "buffer_of (Some xs) = xs"
  by (simp_all add: buffer_of_def)

lemma buffer_of_map_drop: "buffer_of (map_option (drop n) b) = drop n (buffer_of b)"
  by (cases b) simp_all

lemma lzma_code_sequence_Inl:
  "lzma_code_sequence sq action saved now = Inl ret \<Longrightarrow> ret = LZMA_PROG_ERROR \<or> ret = LZMA_STREAM_END"
  by (auto simp: lzma_code_sequence_def same_action_def split: lzma_sequence.splits if_splits)

text \<open>A call either is refused and changes nothing, or runs the coder.\<close>

lemma lzma_code_cases:
  assumes "lzma_code s action = (ret, s')"
  obtains (refused) "s' = s" and "ret \<in> {LZMA_PROG_ERROR, LZMA_OPTIONS_ERROR, LZMA_STREAM_END}"
  | (run) i c code sq where "internal s = Some i" and "next_coder i = Some (c, code)"
      and "lzma_code_sequence (sequence i) action (internal_avail_in i) (avail_in s) = Inr sq"
      and "lzma_code_run s i c code sq action = (ret, s')"
      and "next_in s = None \<longrightarrow> avail_in s = 0" and "next_out s = None \<longrightarrow> avail_out s = 0"
proof (cases "(next_in s = None \<and> avail_in s \<noteq> 0) \<or> (next_out s = None \<and> avail_out s \<noteq> 0)")
  case True
  with assms show ?thesis by (intro refused) (auto simp: lzma_code_def)
next
  case ptr: False
  show ?thesis
  proof (cases "internal s")
    case None
    with assms ptr show ?thesis by (intro refused) (auto simp: lzma_code_def)
  next
    case (Some i)
    show ?thesis
    proof (cases "next_coder i")
      case None
      with assms ptr Some show ?thesis by (intro refused) (auto simp: lzma_code_def)
    next
      case nc: (Some cc)
      obtain c code where cc: "cc = (c, code)" by (cases cc)
      show ?thesis
      proof (cases "lzma_code_sequence (sequence i) action (internal_avail_in i) (avail_in s)")
        case (Inl r)
        with assms ptr Some nc cc lzma_code_sequence_Inl [OF Inl] show ?thesis
          by (intro refused) (auto simp: lzma_code_def split: if_splits)
      next
        case (Inr sq)
        with assms ptr Some nc cc show ?thesis
          by (cases "supported_actions i action \<and> reserved_zero s")
            (auto simp: lzma_code_def split: if_splits intro: refused run)
      qed
    qed
  qed
qed

text \<open>What \<open>lzma_code_run\<close> leaves behind, in terms of the coder's result.\<close>

lemma lzma_code_run_result:
  assumes "lzma_code_run s i c code sq action = (ret, s')"
  obtains r c' ip out op sq' al' s1 where
    "code c (buffer_of (next_in s)) 0 (avail_in s) (buffer_of (next_out s)) 0 (avail_out s) action
       = (r, c', ip, out, op)"
    and "lzma_code_result r ip op sq (allow_buf_error i) = (ret, sq', al')"
    and "s1 = advance_out op (advance_in ip (s\<lparr>next_out := map_option (\<lambda>_. out) (next_out s)\<rparr>))"
    and "s' = s1\<lparr>internal := Some (i\<lparr>next_coder := Some (c', code), sequence := sq',
               internal_avail_in := avail_in s1, allow_buf_error := al'\<rparr>)\<rparr>"
proof -
  obtain r c' ip out op where step:
    "code c (buffer_of (next_in s)) 0 (avail_in s) (buffer_of (next_out s)) 0 (avail_out s) action
       = (r, c', ip, out, op)"
    by (metis prod_cases5)
  obtain r' sq' al' where "lzma_code_result r ip op sq (allow_buf_error i) = (r', sq', al')"
    by (metis prod_cases3)
  with assms step that show ?thesis by (simp add: lzma_code_run_def Let_def)
qed

lemma advance_simps:
  "avail_in (advance_in n s) = avail_in s - n" "avail_out (advance_in n s) = avail_out s"
  "avail_out (advance_out n s) = avail_out s - n" "avail_in (advance_out n s) = avail_in s"
  "buffer_of (next_in (advance_in n s)) = drop n (buffer_of (next_in s))"
  "next_out (advance_in n s) = next_out s" "next_in (advance_out n s) = next_in s"
  "buffer_of (next_out (advance_out n s)) = drop n (buffer_of (next_out s))"
  "total_in (advance_in n s) = total_in s + of_nat n" "total_in (advance_out n s) = total_in s"
  "total_out (advance_out n s) = total_out s + of_nat n" "total_out (advance_in n s) = total_out s"
  "produced (advance_out n s) = produced s @ take n (buffer_of (next_out s))"
  "produced (advance_in n s) = produced s"
  "reserved_zero (advance_out n s) = reserved_zero s" "reserved_zero (advance_in n s) = reserved_zero s"
  by (auto simp: advance_in_def advance_out_def buffer_of_map_drop)

locale lzma_coder =
  fixes code :: "'c lzma_code_function" and cinv :: "'c \<Rightarrow> bool"
  assumes code_step:
    "cinv c \<Longrightarrow> io_ok inb in_pos in_size out out_pos out_size \<Longrightarrow>
     code c inb in_pos in_size out out_pos out_size action = (ret, c', in_pos', out', out_pos') \<Longrightarrow>
     cinv c' \<and> io_step in_pos in_size out out_pos out_size in_pos' out' out_pos'"
begin

lemma lzma_code_run_ok:
  assumes "strm_ok code cinv s" and "internal s = Some i" and "next_coder i = Some (c, code)"
    and "lzma_code_run s i c code sq action = (ret, s')"
  shows "strm_ok code cinv s' \<and> strm_accounts s s'"
proof -
  from assms(1-3) have inv: "cinv c"
    and ok: "io_ok (buffer_of (next_in s)) 0 (avail_in s) (buffer_of (next_out s)) 0 (avail_out s)"
    by (auto simp: strm_ok_def io_ok_def)
  from assms(4) show ?thesis
  proof (rule lzma_code_run_result)
    fix r c' ip out op sq' al' s1
    assume step: "code c (buffer_of (next_in s)) 0 (avail_in s) (buffer_of (next_out s)) 0 (avail_out s) action
        = (r, c', ip, out, op)"
      and s1: "s1 = advance_out op (advance_in ip (s\<lparr>next_out := map_option (\<lambda>_. out) (next_out s)\<rparr>))"
      and s': "s' = s1\<lparr>internal := Some (i\<lparr>next_coder := Some (c', code), sequence := sq',
               internal_avail_in := avail_in s1, allow_buf_error := al'\<rparr>)\<rparr>"
    note c' = code_step [OF inv ok step]
    have "buffer_of (map_option (\<lambda>_. out) (next_out s)) = out"
      using c' by (cases "next_out s") (auto simp: io_step_def)
    with c' ok show ?thesis
      by (auto simp: s' s1 advance_simps strm_ok_def strm_accounts_def consumed_def written_def
          io_step_def io_ok_def)
  qed
qed

lemma lzma_code_run_no_progress:
  assumes "strm_ok code cinv s" and "internal s = Some i" and "next_coder i = Some (c, code)"
    and "lzma_code_run s i c code sq action = (LZMA_OK, s')"
    and "consumed s s' = 0" and "written s s' = 0"
    and "\<And>c inb ip is out op os a. cinv c \<Longrightarrow> fst (code c inb ip is out op os a) \<noteq> LZMA_TIMED_OUT"
  shows "\<exists>i'. internal s' = Some i' \<and> \<not> allow_buf_error i \<and> allow_buf_error i'"
proof -
  from assms(1-3) have inv: "cinv c"
    and ok: "io_ok (buffer_of (next_in s)) 0 (avail_in s) (buffer_of (next_out s)) 0 (avail_out s)"
    by (auto simp: strm_ok_def io_ok_def)
  from assms(4) show ?thesis
  proof (rule lzma_code_run_result)
    fix r c' ip out op sq' al' s1
    assume step: "code c (buffer_of (next_in s)) 0 (avail_in s) (buffer_of (next_out s)) 0 (avail_out s) action
        = (r, c', ip, out, op)"
      and res: "lzma_code_result r ip op sq (allow_buf_error i) = (LZMA_OK, sq', al')"
      and s1: "s1 = advance_out op (advance_in ip (s\<lparr>next_out := map_option (\<lambda>_. out) (next_out s)\<rparr>))"
      and s': "s' = s1\<lparr>internal := Some (i\<lparr>next_coder := Some (c', code), sequence := sq',
               internal_avail_in := avail_in s1, allow_buf_error := al'\<rparr>)\<rparr>"
    from code_step [OF inv ok step] assms(5,6) have "ip = 0" "op = 0"
      by (auto simp: s' s1 consumed_def written_def advance_simps io_step_def)
    moreover have "r \<noteq> LZMA_TIMED_OUT" using assms(7) [OF inv] step by (metis fst_conv)
    ultimately show ?thesis
      using res by (auto simp: s' lzma_code_result_def split: lzma_ret.splits if_splits)
  qed
qed

text \<open>The second call without progress cannot answer \<open>LZMA_OK\<close> again.\<close>

lemma lzma_code_two_calls:
  assumes "strm_ok code cinv s" and "lzma_code s action = (LZMA_OK, s1)"
    and "strm_ok code cinv s1'" and "internal s1' = internal s1"
    and "lzma_code s1' action' = (LZMA_OK, s2)"
    and "\<And>c inb ip is out op os a. cinv c \<Longrightarrow> fst (code c inb ip is out op os a) \<noteq> LZMA_TIMED_OUT"
  shows "consumed s s1 > 0 \<or> written s s1 > 0 \<or> consumed s1' s2 > 0 \<or> written s1' s2 > 0"
proof (rule ccontr)
  assume none: "\<not> ?thesis"
  from assms(2) obtain i1 where "internal s1 = Some i1" "allow_buf_error i1"
  proof (cases rule: lzma_code_cases)
    case (run i c code' sq)
    with assms(1) have "code' = code" by (auto simp: strm_ok_def)
    with run assms(1,6) none lzma_code_run_no_progress [of s i c sq action s1] that show ?thesis
      by auto
  qed simp
  moreover from assms(5) have "\<exists>i. internal s1' = Some i \<and> \<not> allow_buf_error i"
  proof (cases rule: lzma_code_cases)
    case (run i c code' sq)
    with assms(3) have "code' = code" by (auto simp: strm_ok_def)
    with run assms(3,6) none lzma_code_run_no_progress [of s1' i c sq action' s2] show ?thesis
      by auto
  qed simp
  ultimately show False using assms(4) by simp
qed

lemma lzma_code_ok:
  assumes "strm_ok code cinv s" and "lzma_code s action = (ret, s')"
  shows "strm_ok code cinv s' \<and> strm_accounts s s'"
  using assms(2)
proof (cases rule: lzma_code_cases)
  case refused
  with assms(1) show ?thesis by (simp add: strm_accounts_def consumed_def written_def)
next
  case (run i c code' sq)
  with assms(1) have "code' = code" by (auto simp: strm_ok_def)
  with run assms(1) lzma_code_run_ok show ?thesis by blast
qed

end

section \<open>Properties of the public coding loop\<close>

lemma lzma_code_stopped:
  assumes "internal s = Some i" and "sequence i = ISEQ_ERROR \<or> sequence i = ISEQ_END"
  shows "snd (lzma_code s action) = s
    \<and> fst (lzma_code s action) \<in> {LZMA_PROG_ERROR, LZMA_OPTIONS_ERROR}
        \<union> (if sequence i = ISEQ_END then {LZMA_STREAM_END} else {})"
  using assms by (auto simp: lzma_code_def lzma_code_sequence_def split: option.splits)

lemma lzma_code_result_fatal:
  "lzma_code_result r ip op sq al = (ret, sq', al') \<Longrightarrow>
   ret \<in> {LZMA_MEM_ERROR, LZMA_FORMAT_ERROR, LZMA_DATA_ERROR} \<Longrightarrow> sq' = ISEQ_ERROR"
  by (auto simp: lzma_code_result_def split: lzma_ret.splits if_splits)

text \<open>
  C40: A fatal error is final. Once \<open>lzma_code\<close> has reported a memory, format or data
  error, every later call on the stream, with any action and whatever the application
  does with the buffers in between, is refused without running the coder or changing the
  stream.
\<close>

theorem lzma_code_fatal_error_final:
  assumes "lzma_code s action = (ret, s')"
    and "ret \<in> {LZMA_MEM_ERROR, LZMA_FORMAT_ERROR, LZMA_DATA_ERROR}"
    and "internal s2 = internal s'"
  shows "lzma_code s2 action2 \<in> {(LZMA_PROG_ERROR, s2), (LZMA_OPTIONS_ERROR, s2)}"
proof -
  from assms(1) obtain i' where "internal s' = Some i'" "sequence i' = ISEQ_ERROR"
  proof (cases rule: lzma_code_cases)
    case refused
    with assms(2) show ?thesis by auto
  next
    case (run i c code sq)
    from run(4) show ?thesis
      by (rule lzma_code_run_result) (use assms(2) lzma_code_result_fatal that in auto)
  qed
  with assms(3) lzma_code_stopped [of s2 i' action2] show ?thesis
    by (cases "lzma_code s2 action2") auto
qed

theorem lzma_code_fatal_error_final_witness:
  "let s = \<lparr>next_in = Some [1], avail_in = 1, total_in = 0, next_out = None, avail_out = 0, total_out = 0,
        internal = Some \<lparr>next_coder = Some ((), \<lambda>c inb ip is out op os a. (LZMA_DATA_ERROR, c, Suc ip, out, op)),
          sequence = ISEQ_RUN, internal_avail_in = 0, supported_actions = (\<lambda>_. True),
          allow_buf_error = False\<rparr>, reserved_zero = True, produced = []\<rparr>;
       s' = snd (lzma_code s LZMA_RUN)
   in fst (lzma_code s LZMA_RUN) = LZMA_DATA_ERROR
      \<and> lzma_code s' LZMA_FINISH \<in> {(LZMA_PROG_ERROR, s'), (LZMA_OPTIONS_ERROR, s')}"
proof -
  let ?s = "\<lparr>next_in = Some [1], avail_in = 1, total_in = 0, next_out = None, avail_out = 0, total_out = 0,
        internal = Some \<lparr>next_coder = Some ((), \<lambda>c inb ip is out op os a. (LZMA_DATA_ERROR, c, Suc ip, out, op)),
          sequence = ISEQ_RUN, internal_avail_in = 0, supported_actions = (\<lambda>_. True),
          allow_buf_error = False\<rparr>, reserved_zero = True, produced = []\<rparr> :: unit lzma_stream"
  have r: "lzma_code ?s LZMA_RUN = (LZMA_DATA_ERROR, snd (lzma_code ?s LZMA_RUN))"
    by (simp add: lzma_code_def lzma_code_sequence_def lzma_code_run_def lzma_code_result_def Let_def)
  have "fst (lzma_code ?s LZMA_RUN) = LZMA_DATA_ERROR" by (subst r) (rule fst_conv)
  moreover have "lzma_code (snd (lzma_code ?s LZMA_RUN)) LZMA_FINISH
      \<in> {(LZMA_PROG_ERROR, snd (lzma_code ?s LZMA_RUN)), (LZMA_OPTIONS_ERROR, snd (lzma_code ?s LZMA_RUN))}"
    by (rule lzma_code_fatal_error_final [OF r _ refl]) simp
  ultimately show ?thesis unfolding Let_def by (rule conjI)
qed

end
