(* ===== verification/Lzma_Rc.thy ===== *)
theory Lzma_Rc
  imports Lzma_Base
begin

text \<open>
  What the range encoder and the range decoder of LZMA share (\<^verbatim>\<open>rangecoder/range_common.h\<close> of
  liblzma): the constants and the probabilities, with the bounds that the updates keep. A
  pointer to a probability is an address in a store of probabilities, which encoder and
  decoder change as they go. The interval coder at the end is the specification of both: it
  computes with unbounded numbers, has no carries and no buffers.
\<close>

section \<open>Constants and probabilities\<close>

definition RC_SHIFT_BITS :: nat where "RC_SHIFT_BITS = 8"
definition RC_TOP_VALUE :: u32 where "RC_TOP_VALUE = push_bit 24 1"
definition RC_BIT_MODEL_TOTAL_BITS :: nat where "RC_BIT_MODEL_TOTAL_BITS = 11"
definition RC_BIT_MODEL_TOTAL :: u32 where "RC_BIT_MODEL_TOTAL = push_bit 11 1"
definition RC_MOVE_BITS :: nat where "RC_MOVE_BITS = 5"
definition RC_BIT_MODEL_OFFSET :: u32 where "RC_BIT_MODEL_OFFSET = push_bit 5 1 - 1 - RC_BIT_MODEL_TOTAL"
definition RC_SYMBOLS_MAX :: nat where "RC_SYMBOLS_MAX = 53"

type_synonym probability = u16
type_synonym prob_store = "nat \<Rightarrow> probability"

definition bit_reset :: "nat \<Rightarrow> prob_store \<Rightarrow> prob_store" where
  "bit_reset prob m = m(prob := ucast (drop_bit 1 RC_BIT_MODEL_TOTAL))"

definition bittree_reset :: "nat \<Rightarrow> nat \<Rightarrow> prob_store \<Rightarrow> prob_store" where
  "bittree_reset probs bit_levels m = fold (\<lambda>bt_i. bit_reset (probs + bt_i)) [0..<2 ^ bit_levels] m"

text \<open>The updates of a probability, computed on 32 bits and stored in 16.\<close>

definition prob_update_0 :: "probability \<Rightarrow> probability" where
  "prob_update_0 prob = prob + ucast (drop_bit RC_MOVE_BITS (RC_BIT_MODEL_TOTAL - ucast prob))"

definition prob_update_1 :: "probability \<Rightarrow> probability" where
  "prob_update_1 prob = prob - drop_bit RC_MOVE_BITS prob"

section \<open>The interval coder\<close>

text \<open>
  A coder has narrowed the numbers of \<open>digits + 4\<close> bytes down to those from \<open>base\<close> on, as many
  as \<open>width\<close>. An item is a bit with the address of its probability, or a bit without one.
\<close>

datatype item = Bit nat bool | Direct bool

record interval =
  base :: nat
  width :: nat
  digits :: nat
  store :: prob_store

definition start :: "prob_store \<Rightarrow> interval" where
  "start m = \<lparr>base = 0, width = 2 ^ 32 - 1, digits = 1, store = m\<rparr>"

definition widen :: "interval \<Rightarrow> interval" where
  "widen s = (if width s < 2 ^ 24 then s\<lparr>base := 256 * base s, width := 256 * width s, digits := digits s + 1\<rparr> else s)"

definition bound :: "interval \<Rightarrow> nat \<Rightarrow> nat" where
  "bound s a = (width s div 2 ^ 11) * unat (store s a)"

fun narrow :: "item \<Rightarrow> interval \<Rightarrow> interval" where
  "narrow (Bit a b) s =
     (if b then s\<lparr>base := base s + bound s a, width := width s - bound s a, store := (store s)(a := prob_update_1 (store s a))\<rparr>
      else s\<lparr>width := bound s a, store := (store s)(a := prob_update_0 (store s a))\<rparr>)"
| "narrow (Direct b) s =
     (let w = width s div 2 in if b then s\<lparr>base := base s + w, width := w\<rparr> else s\<lparr>width := w\<rparr>)"

definition code_item :: "item \<Rightarrow> interval \<Rightarrow> interval" where
  "code_item it s = narrow it (widen s)"

definition code_items :: "item list \<Rightarrow> interval \<Rightarrow> interval" where
  "code_items = fold code_item"

text \<open>Every probability stays between 31 and 2017, so that no bit is impossible.\<close>

definition probs_ok :: "prob_store \<Rightarrow> bool" where
  "probs_ok m \<longleftrightarrow> (\<forall>a. 31 \<le> unat (m a) \<and> unat (m a) \<le> 2017)"

definition interval_ok :: "interval \<Rightarrow> bool" where
  "interval_ok s \<longleftrightarrow> probs_ok (store s) \<and> 2 ^ 16 \<le> width s \<and> width s < 2 ^ 32 \<and> 1 \<le> digits s
     \<and> base s + width s \<le> 2 ^ 32 * 256 ^ (digits s - 1)"

lemma unat_drop_bit: "unat (drop_bit n (w :: 'a::len word)) = unat w div 2 ^ n"
  by (subst unat_drop_bit_eq) (rule drop_bit_eq_div)

lemma prob_range:
  fixes x :: nat assumes "31 \<le> x" "x \<le> 2017"
  shows "31 \<le> x + (2048 - x) div 32 \<and> x + (2048 - x) div 32 \<le> 2017"
    and "31 \<le> x - x div 32 \<and> x - x div 32 \<le> 2017"
proof -
  have "32 * ((2048 - x) div 32) \<le> 2048 - x" "32 * (x div 32) \<le> x" by simp_all
  then show "31 \<le> x + (2048 - x) div 32 \<and> x + (2048 - x) div 32 \<le> 2017" "31 \<le> x - x div 32 \<and> x - x div 32 \<le> 2017"
    using assms by linarith+
qed

lemma unat_prob_update_0:
  assumes "unat p \<le> 2048" shows "unat (prob_update_0 p) = unat p + (2048 - unat p) div 32"
proof -
  have u: "unat (ucast p :: u32) = unat p" by (simp add: unat_ucast_up)
  have "(ucast p :: u32) \<le> 2048" using assms by (simp add: word_le_nat_alt u)
  then have "unat (2048 - ucast p :: u32) = 2048 - unat p" by (simp add: unat_sub u)
  then have d: "unat (drop_bit 5 (2048 - ucast p :: u32)) = (2048 - unat p) div 32"
    by (simp only: unat_drop_bit) simp
  then have "unat (ucast (drop_bit 5 (2048 - ucast p :: u32)) :: u16) = (2048 - unat p) div 32"
    by (simp add: unsigned_ucast_eq take_bit_nat_eq_self)
  then show ?thesis using assms unfolding prob_update_0_def
    by (subst unat_add_lem [THEN iffD1]) (simp_all add: RC_MOVE_BITS_def RC_BIT_MODEL_TOTAL_def)
qed

lemma unat_prob_update_1: "unat (prob_update_1 p) = unat p - unat p div 32"
proof -
  have d: "unat (drop_bit 5 p) = unat p div 32" by (simp only: unat_drop_bit) simp
  then have "drop_bit 5 p \<le> p" by (simp only: word_le_nat_alt div_le_dividend)
  then show ?thesis unfolding prob_update_1_def RC_MOVE_BITS_def by (simp only: unat_sub d)
qed

lemma probs_ok_update:
  assumes "probs_ok m"
  shows "probs_ok (m(a := prob_update_0 (m a)))" "probs_ok (m(a := prob_update_1 (m a)))"
proof -
  have b: "31 \<le> unat (m a)" "unat (m a) \<le> 2017" using assms by (auto simp: probs_ok_def)
  then show "probs_ok (m(a := prob_update_0 (m a)))" "probs_ok (m(a := prob_update_1 (m a)))"
    using assms prob_range [OF b] by (simp_all add: probs_ok_def unat_prob_update_0 unat_prob_update_1)
qed

lemma widen_ok: "interval_ok s \<Longrightarrow> interval_ok (widen s) \<and> 2 ^ 24 \<le> width (widen s)"
  by (cases "digits s") (auto simp: interval_ok_def widen_def)

lemma bound_bounds:
  assumes "probs_ok (store s)" "2 ^ 24 \<le> width s"
  shows "2 ^ 16 \<le> bound s a" "bound s a + 2 ^ 16 \<le> width s"
proof -
  let ?q = "width s div 2 ^ 11" and ?p = "unat (store s a)"
  have p: "31 \<le> ?p" "?p \<le> 2017" using assms(1) by (auto simp: probs_ok_def)
  have q: "2 ^ 13 \<le> ?q" using div_le_mono [OF assms(2), of "2 ^ 11"] by simp
  have "2 ^ 13 * 31 \<le> ?q * ?p" using mult_le_mono [OF q p(1)] .
  then show "2 ^ 16 \<le> bound s a" by (simp add: bound_def)
  have "?q * ?p \<le> ?q * 2017" using p(2) by simp
  moreover have "?q * 2017 + 2 ^ 13 * 31 \<le> ?q * 2048" using q by simp
  moreover have "?q * 2048 \<le> width s" using div_times_less_eq_dividend [of "width s" "2 ^ 11"] by simp
  ultimately have "?q * ?p + 2 ^ 13 * 31 \<le> width s" by linarith
  then show "bound s a + 2 ^ 16 \<le> width s" by (simp add: bound_def)
qed

lemma bound_code:
  assumes "unat r = width s" "probs_ok (store s)" "2 ^ 24 \<le> width s"
  shows "unat (drop_bit 11 r * (ucast (store s a) :: u32)) = bound s a"
    and "unat (ucast (store s a) * drop_bit 11 r :: u32) = bound s a"
proof -
  have "unat r < 2 ^ LENGTH(32)" by (rule unsigned_less)
  then have "bound s a < 2 ^ 32" using bound_bounds(2) [OF assms(2,3), of a] assms(1) by simp
  moreover have "unat (drop_bit 11 r) = width s div 2 ^ 11" "unat (ucast (store s a) :: u32) = unat (store s a)"
    using assms(1) by (simp_all only: unat_drop_bit) (simp add: unat_ucast_up)
  ultimately have "unat (drop_bit 11 r) * unat (ucast (store s a) :: u32) = bound s a" "bound s a < 2 ^ LENGTH(32)"
    by (simp_all only: bound_def) simp
  then show "unat (drop_bit 11 r * (ucast (store s a) :: u32)) = bound s a"
    by (metis unat_mult_lem)
  then show "unat (ucast (store s a) * drop_bit 11 r :: u32) = bound s a" by (simp only: mult.commute)
qed

text \<open>A step stays within the interval it starts from and keeps it well-formed.\<close>

lemma narrow_ok:
  assumes "interval_ok s" "2 ^ 24 \<le> width s"
  shows "interval_ok (narrow it s)" "digits (narrow it s) = digits s"
    and "base s \<le> base (narrow it s)" "base (narrow it s) + width (narrow it s) \<le> base s + width s"
proof -
  have p: "probs_ok (store s)" using assms(1) by (simp add: interval_ok_def)
  note b = bound_bounds [OF p assms(2)]
  have w: "2 ^ 16 \<le> width s div 2" "2 * (width s div 2) \<le> width s" using assms(2) by simp_all
  show "base s \<le> base (narrow it s)" "digits (narrow it s) = digits s" by (cases it; simp add: Let_def)+
  show n: "base (narrow it s) + width (narrow it s) \<le> base s + width s"
    using b [of "case it of Bit a _ \<Rightarrow> a | _ \<Rightarrow> 0"] w by (cases it) (auto simp: Let_def)
  have "2 ^ 16 \<le> width (narrow it s) \<and> width (narrow it s) \<le> width s"
    using b [of "case it of Bit a _ \<Rightarrow> a | _ \<Rightarrow> 0"] w by (cases it) (auto simp: Let_def)
  moreover have "probs_ok (store (narrow it s))"
    using p by (cases it) (auto simp: Let_def intro: probs_ok_update)
  ultimately show "interval_ok (narrow it s)"
    using n assms(1) \<open>digits (narrow it s) = digits s\<close> by (auto simp: interval_ok_def)
qed

lemma code_item_ok: "interval_ok s \<Longrightarrow> interval_ok (code_item it s)"
  using widen_ok narrow_ok(1) by (simp add: code_item_def)

lemma code_items_ok: "interval_ok s \<Longrightarrow> interval_ok (code_items its s)"
  by (induction its arbitrary: s) (simp_all add: code_items_def code_item_ok)

lemma start_ok: "probs_ok m \<Longrightarrow> interval_ok (start m)"
  by (simp add: interval_ok_def start_def)

text \<open>A number of \<open>k\<close> bytes lies in an interval when its leading bytes do.\<close>

definition inside :: "interval \<Rightarrow> nat \<Rightarrow> nat \<Rightarrow> bool" where
  "inside s v k \<longleftrightarrow> digits s + 4 \<le> k
     \<and> base s * 256 ^ (k - (digits s + 4)) \<le> v \<and> v < (base s + width s) * 256 ^ (k - (digits s + 4))"

lemma inside_widen: "inside (widen s) v k \<Longrightarrow> inside s v k"
proof -
  assume i: "inside (widen s) v k"
  show ?thesis
  proof (cases "width s < 2 ^ 24")
    case True
    then have k: "digits s + 5 \<le> k" using i by (simp add: inside_def widen_def)
    then have "k - (digits s + 4) = Suc (k - (digits s + 5))" by simp
    then show ?thesis using i True k by (simp add: inside_def widen_def algebra_simps)
  qed (use i in \<open>simp add: widen_def\<close>)
qed

lemma inside_narrow:
  assumes "interval_ok s" "2 ^ 24 \<le> width s" "inside (narrow it s) v k" shows "inside s v k"
proof -
  let ?c = "256 ^ (k - (digits s + 4)) :: nat"
  have d: "digits (narrow it s) = digits s" using narrow_ok(2) [OF assms(1,2)] .
  have "base s * ?c \<le> base (narrow it s) * ?c" using narrow_ok(3) [OF assms(1,2)] by (rule mult_le_mono1)
  also have "\<dots> \<le> v" using assms(3) by (simp add: inside_def d)
  finally have 1: "base s * ?c \<le> v" .
  have "v < (base (narrow it s) + width (narrow it s)) * ?c" using assms(3) by (simp add: inside_def d)
  also have "\<dots> \<le> (base s + width s) * ?c" using narrow_ok(4) [OF assms(1,2)] by (rule mult_le_mono1)
  finally show ?thesis using 1 assms(3) by (simp add: inside_def d)
qed

lemma inside_code_items:
  "interval_ok s \<Longrightarrow> inside (code_items its s) v k \<Longrightarrow> inside s v k"
proof (induction its arbitrary: s)
  case (Cons it its)
  have w: "interval_ok (widen s)" "2 ^ 24 \<le> width (widen s)" using widen_ok Cons.prems(1) by auto
  have "inside (code_item it s) v k"
    using Cons.IH [OF code_item_ok] Cons.prems by (simp add: code_items_def)
  then have "inside (widen s) v k" using inside_narrow [OF w] by (simp add: code_item_def)
  then show ?case by (rule inside_widen)
qed (simp add: code_items_def)

section \<open>Symbols as items\<close>

text \<open>The bits of a symbol, from the highest or from the lowest, with the nodes of the tree they go through.\<close>

fun tree_items :: "nat \<Rightarrow> nat \<Rightarrow> u32 \<Rightarrow> u32 \<Rightarrow> item list" where
  "tree_items probs 0 symbol model_index = []"
| "tree_items probs (Suc n) symbol model_index =
     Bit (probs + unat model_index) (bit symbol n) # tree_items probs n symbol (push_bit 1 model_index + of_bool (bit symbol n))"

fun reverse_items :: "nat \<Rightarrow> nat \<Rightarrow> u32 \<Rightarrow> u32 \<Rightarrow> item list" where
  "reverse_items probs 0 symbol model_index = []"
| "reverse_items probs (Suc n) symbol model_index =
     Bit (probs + unat model_index) (bit symbol 0)
       # reverse_items probs n (drop_bit 1 symbol) (push_bit 1 model_index + of_bool (bit symbol 0))"

fun direct_items :: "nat \<Rightarrow> u32 \<Rightarrow> item list" where
  "direct_items 0 v = []"
| "direct_items (Suc n) v = Direct (bit v n) # direct_items n v"

section \<open>Bytes as digits\<close>

definition be :: "byte list \<Rightarrow> nat" where
  "be bs = foldl (\<lambda>v b. v * 256 + unat b) 0 bs"

lemma be_Nil [simp]: "be [] = 0"
  by (simp add: be_def)

lemma be_snoc [simp]: "be (bs @ [b]) = be bs * 256 + unat b"
  by (simp add: be_def)

lemma be_append: "be (xs @ ys) = be xs * 256 ^ length ys + be ys"
  by (induction ys rule: rev_induct) (simp_all flip: append_assoc add: algebra_simps)

lemma unat_byte_less: "unat (b :: byte) < 256"
  using unsigned_less [of b] by simp

lemma be_less: "be bs < 256 ^ length bs"
proof (induction bs rule: rev_induct)
  case (snoc b bs)
  have "v * 256 + unat b < 256 * p" if "v < p" for v p :: nat
    using that unat_byte_less [of b] by linarith
  then show ?case using snoc by simp
qed simp

lemma be_take:
  assumes "k \<le> length bs" shows "be (take k bs) = be bs div 256 ^ (length bs - k)"
proof -
  have "be bs = be (take k bs) * 256 ^ (length bs - k) + be (drop k bs)"
    using be_append [of "take k bs" "drop k bs"] by simp
  moreover have "be (drop k bs) < 256 ^ (length bs - k)" using be_less [of "drop k bs"] by simp
  ultimately show ?thesis by simp
qed

end
