(* ===== verification/Lzma_Rc_Encoder.thy ===== *)
theory Lzma_Rc_Encoder
  imports Lzma_Rc "HOL-Library.Monad_Syntax"
begin

text \<open>
  The range encoder of LZMA (\<^verbatim>\<open>rangecoder/range_encoder.h\<close> of liblzma). It queues symbols and
  writes them out in as many pieces as the output buffers ask for; bytes that a carry may
  still change are held back.
\<close>

section \<open>The encoder\<close>

datatype rc_symbol = RC_BIT_0 | RC_BIT_1 | RC_DIRECT_0 | RC_DIRECT_1 | RC_FLUSH

text \<open>The enumerators by their numbers; a symbol is stored as a number of this range.\<close>

definition rc_symbol_of :: "u32 \<Rightarrow> rc_symbol option" where
  "rc_symbol_of v = (if v = 0 then Some RC_BIT_0 else if v = 1 then Some RC_BIT_1 else if v = 2 then Some RC_DIRECT_0
     else if v = 3 then Some RC_DIRECT_1 else if v = 4 then Some RC_FLUSH else None)"

record lzma_range_encoder =
  rc_low :: u64
  rc_cache_size :: u64
  rc_range :: u32
  rc_cache :: byte
  rc_out_total :: u64
  rc_count :: nat
  rc_pos :: nat
  rc_symbols :: "rc_symbol list"
  rc_probs :: "nat list"

definition rc_reset :: "lzma_range_encoder \<Rightarrow> lzma_range_encoder" where
  "rc_reset rc = rc\<lparr>rc_low := 0, rc_cache_size := 1, rc_range := 0xFFFFFFFF, rc_cache := 0,
     rc_out_total := 0, rc_count := 0, rc_pos := 0\<rparr>"

definition rc_forget :: "lzma_range_encoder \<Rightarrow> lzma_range_encoder option" where
  "rc_forget rc = (if rc_pos rc = 0 then Some (rc\<lparr>rc_count := 0\<rparr>) else None)"

text \<open>Storing a symbol, and with it an address, needs room in the arrays.\<close>

definition rc_store :: "lzma_range_encoder \<Rightarrow> u32 \<Rightarrow> nat option \<Rightarrow> lzma_range_encoder option" where
  "rc_store rc v prob =
     (if RC_SYMBOLS_MAX \<le> rc_count rc then None
      else map_option (\<lambda>v. rc\<lparr>rc_symbols := (rc_symbols rc)[rc_count rc := v],
             rc_probs := (case prob of None \<Rightarrow> rc_probs rc | Some p \<Rightarrow> (rc_probs rc)[rc_count rc := p]),
             rc_count := rc_count rc + 1\<rparr>) (rc_symbol_of v))"

definition rc_bit :: "lzma_range_encoder \<Rightarrow> nat \<Rightarrow> u32 \<Rightarrow> lzma_range_encoder option" where
  "rc_bit rc prob b = rc_store rc b (Some prob)"

text \<open>
  The loops over the bits of a symbol count down from \<open>bit_count\<close>, which is at least one
  and at most the width of the symbol.
\<close>

fun rc_bittree_loop :: "lzma_range_encoder \<Rightarrow> nat \<Rightarrow> nat \<Rightarrow> u32 \<Rightarrow> u32 \<Rightarrow> lzma_range_encoder option" where
  "rc_bittree_loop rc probs 0 symbol model_index = Some rc"
| "rc_bittree_loop rc probs (Suc bit_count) symbol model_index =
     (let bit = drop_bit bit_count symbol AND 1 in do {
        rc \<leftarrow> rc_bit rc (probs + unat model_index) bit;
        rc_bittree_loop rc probs bit_count symbol (push_bit 1 model_index + bit) })"

definition rc_bittree :: "lzma_range_encoder \<Rightarrow> nat \<Rightarrow> nat \<Rightarrow> u32 \<Rightarrow> lzma_range_encoder option" where
  "rc_bittree rc probs bit_count symbol =
     (if bit_count = 0 \<or> 32 < bit_count then None else rc_bittree_loop rc probs bit_count symbol 1)"

fun rc_bittree_reverse_loop :: "lzma_range_encoder \<Rightarrow> nat \<Rightarrow> nat \<Rightarrow> u32 \<Rightarrow> u32 \<Rightarrow> lzma_range_encoder option" where
  "rc_bittree_reverse_loop rc probs 0 symbol model_index = Some rc"
| "rc_bittree_reverse_loop rc probs (Suc bit_count) symbol model_index =
     (let bit = symbol AND 1 in do {
        rc \<leftarrow> rc_bit rc (probs + unat model_index) bit;
        rc_bittree_reverse_loop rc probs bit_count (drop_bit 1 symbol) (push_bit 1 model_index + bit) })"

definition rc_bittree_reverse :: "lzma_range_encoder \<Rightarrow> nat \<Rightarrow> nat \<Rightarrow> u32 \<Rightarrow> lzma_range_encoder option" where
  "rc_bittree_reverse rc probs bit_count symbol =
     (if bit_count = 0 \<or> 32 < bit_count then None else rc_bittree_reverse_loop rc probs bit_count symbol 1)"

fun rc_direct_loop :: "lzma_range_encoder \<Rightarrow> u32 \<Rightarrow> nat \<Rightarrow> lzma_range_encoder option" where
  "rc_direct_loop rc v 0 = Some rc"
| "rc_direct_loop rc v (Suc bit_count) = do {
     rc \<leftarrow> rc_store rc (2 + (drop_bit bit_count v AND 1)) None;
     rc_direct_loop rc v bit_count }"

definition rc_direct :: "lzma_range_encoder \<Rightarrow> u32 \<Rightarrow> nat \<Rightarrow> lzma_range_encoder option" where
  "rc_direct rc v bit_count = (if bit_count = 0 \<or> 32 < bit_count then None else rc_direct_loop rc v bit_count)"

fun rc_flush_loop :: "nat \<Rightarrow> lzma_range_encoder \<Rightarrow> lzma_range_encoder option" where
  "rc_flush_loop 0 rc = Some rc"
| "rc_flush_loop (Suc i) rc = do { rc \<leftarrow> rc_store rc 4 None; rc_flush_loop i rc }"

definition rc_flush :: "lzma_range_encoder \<Rightarrow> lzma_range_encoder option" where
  "rc_flush rc = rc_flush_loop 5 rc"

text \<open>
  \<open>rc_shift_low\<close> holds back the byte \<open>cache\<close> and the bytes 0xFF behind it, as a carry may
  still change them; it returns true when the output buffer is full, in the middle of the
  bytes it writes.
\<close>

function shift_low_loop :: "lzma_range_encoder \<Rightarrow> byte list \<Rightarrow> nat \<Rightarrow> nat \<Rightarrow> bool \<times> lzma_range_encoder \<times> byte list \<times> nat" where
  "shift_low_loop rc out out_pos out_size =
     (if out_pos = out_size then (True, rc, out, out_pos)
      else let out = out[out_pos := rc_cache rc + ucast (drop_bit 32 (rc_low rc))];
               rc = rc\<lparr>rc_out_total := rc_out_total rc + 1, rc_cache := 0xFF, rc_cache_size := rc_cache_size rc - 1\<rparr>
           in if rc_cache_size rc \<noteq> 0 then shift_low_loop rc out (out_pos + 1) out_size
              else (False, rc, out, out_pos + 1))"
  by pat_completeness auto
termination
proof (relation "measure (\<lambda>(rc, out, out_pos, out_size). unat (rc_cache_size rc - 1))", goal_cases)
  case (2 rc out out_pos out_size x xa)
  have "unat (w - 1) < unat w" if "w \<noteq> 0" for w :: u64
    using that by (metis add.commute diff_add_cancel measure_unat)
  from this [of "rc_cache_size rc - 1"] show ?case using 2 by simp
qed simp

declare shift_low_loop.simps [simp del]

definition rc_shift_low :: "lzma_range_encoder \<Rightarrow> byte list \<Rightarrow> nat \<Rightarrow> nat \<Rightarrow> bool \<times> lzma_range_encoder \<times> byte list \<times> nat" where
  "rc_shift_low rc out out_pos out_size =
     (let (full, rc, out, out_pos) =
        (if (ucast (rc_low rc) :: u32) < 0xFF000000 \<or> (ucast (drop_bit 32 (rc_low rc)) :: u32) \<noteq> 0
         then case shift_low_loop rc out out_pos out_size of (full, rc, out, out_pos) \<Rightarrow>
                (full, if full then rc else rc\<lparr>rc_cache := ucast (drop_bit 24 (rc_low rc) AND 0xFF)\<rparr>, out, out_pos)
         else (False, rc, out, out_pos))
      in if full then (True, rc, out, out_pos)
         else (False, rc\<lparr>rc_cache_size := rc_cache_size rc + 1, rc_low := push_bit RC_SHIFT_BITS (rc_low rc AND 0x00FFFFFF)\<rparr>,
               out, out_pos))"

text \<open>The symbols other than \<open>RC_FLUSH\<close>.\<close>

definition rc_encode_symbol :: "rc_symbol \<Rightarrow> nat \<Rightarrow> lzma_range_encoder \<Rightarrow> prob_store \<Rightarrow> lzma_range_encoder \<times> prob_store" where
  "rc_encode_symbol v p rc m = (case v of
       RC_BIT_0 \<Rightarrow>
         let prob = m p in
         (rc\<lparr>rc_range := drop_bit RC_BIT_MODEL_TOTAL_BITS (rc_range rc) * ucast prob\<rparr>, m(p := prob_update_0 prob))
     | RC_BIT_1 \<Rightarrow>
         let prob = m p; bound = ucast prob * drop_bit RC_BIT_MODEL_TOTAL_BITS (rc_range rc) in
         (rc\<lparr>rc_low := rc_low rc + ucast bound, rc_range := rc_range rc - bound\<rparr>, m(p := prob_update_1 prob))
     | RC_DIRECT_0 \<Rightarrow> (rc\<lparr>rc_range := drop_bit 1 (rc_range rc)\<rparr>, m)
     | RC_DIRECT_1 \<Rightarrow>
         let r = drop_bit 1 (rc_range rc) in (rc\<lparr>rc_range := r, rc_low := rc_low rc + ucast r\<rparr>, m)
     | RC_FLUSH \<Rightarrow> (rc, m))"

text \<open>Each step of the loop starts with a range of more than 24 bits.\<close>

definition encode_normalize :: "lzma_range_encoder \<Rightarrow> byte list \<Rightarrow> nat \<Rightarrow> nat \<Rightarrow> bool \<times> lzma_range_encoder \<times> byte list \<times> nat" where
  "encode_normalize rc out out_pos out_size =
     (if rc_range rc < RC_TOP_VALUE
      then case rc_shift_low rc out out_pos out_size of (full, rc, out, out_pos) \<Rightarrow>
             (full, if full then rc else rc\<lparr>rc_range := push_bit RC_SHIFT_BITS (rc_range rc)\<rparr>, out, out_pos)
      else (False, rc, out, out_pos))"

text \<open>The last five bytes; the encoder is reset behind them.\<close>

function flush_out :: "lzma_range_encoder \<Rightarrow> byte list \<Rightarrow> nat \<Rightarrow> nat \<Rightarrow> bool \<times> lzma_range_encoder \<times> byte list \<times> nat" where
  "flush_out rc out out_pos out_size =
     (case rc_shift_low rc out out_pos out_size of
        (True, rc, out, out_pos) \<Rightarrow> (True, rc, out, out_pos)
      | (False, rc, out, out_pos) \<Rightarrow>
          let rc = rc\<lparr>rc_pos := rc_pos rc + 1\<rparr>
          in if rc_pos rc < rc_count rc then flush_out rc out out_pos out_size
             else (False, rc_reset rc, out, out_pos))"
  by pat_completeness auto

lemma shift_low_loop_fields:
  "shift_low_loop rc out out_pos out_size = (full, rc', out', out_pos') \<Longrightarrow>
     rc_pos rc' = rc_pos rc \<and> rc_count rc' = rc_count rc \<and> rc_symbols rc' = rc_symbols rc \<and> rc_probs rc' = rc_probs rc
     \<and> rc_range rc' = rc_range rc \<and> rc_low rc' = rc_low rc"
proof (induction rc out out_pos out_size rule: shift_low_loop.induct)
  case (1 rc out out_pos out_size)
  note step = shift_low_loop.simps [of rc out out_pos out_size]
  show ?case using "1.prems" "1.IH" unfolding step by (auto simp: Let_def split: if_splits)
qed

lemma rc_shift_low_fields:
  "rc_shift_low rc out out_pos out_size = (full, rc', out', out_pos') \<Longrightarrow>
     rc_pos rc' = rc_pos rc \<and> rc_count rc' = rc_count rc \<and> rc_symbols rc' = rc_symbols rc \<and> rc_probs rc' = rc_probs rc
     \<and> rc_range rc' = rc_range rc"
  by (auto simp: rc_shift_low_def Let_def split: if_splits prod.splits dest: shift_low_loop_fields)

lemma encode_normalize_fields:
  "encode_normalize rc out out_pos out_size = (full, rc', out', out_pos') \<Longrightarrow>
     rc_pos rc' = rc_pos rc \<and> rc_count rc' = rc_count rc \<and> rc_symbols rc' = rc_symbols rc \<and> rc_probs rc' = rc_probs rc"
  by (auto simp: encode_normalize_def split: if_splits prod.splits dest: rc_shift_low_fields)

termination flush_out
  by (relation "measure (\<lambda>(rc, out, out_pos, out_size). rc_count rc - rc_pos rc)")
    (auto dest!: rc_shift_low_fields [OF sym])

declare flush_out.simps [simp del]

function rc_encode ::
    "lzma_range_encoder \<Rightarrow> prob_store \<Rightarrow> byte list \<Rightarrow> nat \<Rightarrow> nat
      \<Rightarrow> bool \<times> lzma_range_encoder \<times> prob_store \<times> byte list \<times> nat" where
  "rc_encode rc m out out_pos out_size =
     (if \<not> rc_pos rc < rc_count rc then (False, rc\<lparr>rc_count := 0, rc_pos := 0\<rparr>, m, out, out_pos)
      else case encode_normalize rc out out_pos out_size of
        (True, rc, out, out_pos) \<Rightarrow> (True, rc, m, out, out_pos)
      | (False, rc, out, out_pos) \<Rightarrow>
          if rc_symbols rc ! rc_pos rc = RC_FLUSH
          then case flush_out (rc\<lparr>rc_range := 0xFFFFFFFF\<rparr>) out out_pos out_size of
                 (full, rc, out, out_pos) \<Rightarrow> (full, rc, m, out, out_pos)
          else case rc_encode_symbol (rc_symbols rc ! rc_pos rc) (rc_probs rc ! rc_pos rc) rc m of
                 (rc, m) \<Rightarrow> rc_encode (rc\<lparr>rc_pos := rc_pos rc + 1\<rparr>) m out out_pos out_size)"
  by pat_completeness auto

lemma rc_encode_symbol_fields:
  "rc_encode_symbol v p rc m = (rc', m') \<Longrightarrow>
     rc_pos rc' = rc_pos rc \<and> rc_count rc' = rc_count rc \<and> rc_symbols rc' = rc_symbols rc \<and> rc_probs rc' = rc_probs rc
     \<and> rc_cache rc' = rc_cache rc \<and> rc_cache_size rc' = rc_cache_size rc"
  by (auto simp: rc_encode_symbol_def Let_def split: rc_symbol.splits)

termination rc_encode
  by (relation "measure (\<lambda>(rc, m, out, out_pos, out_size). rc_count rc - rc_pos rc)")
    (auto dest!: encode_normalize_fields [OF sym] rc_encode_symbol_fields [OF sym])

declare rc_encode.simps [simp del]

section \<open>The number that is being written\<close>

text \<open>
  The bytes written so far, the bytes held back and \<open>low\<close> are one number. The carry of \<open>low\<close>
  goes into the bytes held back; while they are being written it is already in the bytes
  in front of them.
\<close>

definition carry :: "lzma_range_encoder \<Rightarrow> nat" where
  "carry rc = unat (rc_low rc) div 2 ^ 32"

definition held :: "lzma_range_encoder \<Rightarrow> nat" where
  "held rc = (unat (rc_cache rc) * 256 ^ (unat (rc_cache_size rc) - 1) + (256 ^ (unat (rc_cache_size rc) - 1) - 1) + carry rc)
     mod 256 ^ unat (rc_cache_size rc)"

definition rc_value :: "byte list \<Rightarrow> lzma_range_encoder \<Rightarrow> nat" where
  "rc_value E rc = (be E * 256 ^ unat (rc_cache_size rc) + held rc) * 2 ^ 32 + unat (rc_low rc) mod 2 ^ 32"

definition emitting :: "lzma_range_encoder \<Rightarrow> bool" where
  "emitting rc \<longleftrightarrow> unat (rc_low rc) mod 2 ^ 32 < 0xFF000000 \<or> carry rc \<noteq> 0"

lemma emitting_code:
  "(ucast (rc_low rc) :: u32) < 0xFF000000 \<or> (ucast (drop_bit 32 (rc_low rc)) :: u32) \<noteq> 0 \<longleftrightarrow> emitting rc"
proof -
  have 1: "unat (ucast (rc_low rc) :: u32) = unat (rc_low rc) mod 2 ^ 32"
    by (simp add: unsigned_ucast_eq take_bit_eq_mod)
  have "unat (rc_low rc) < 2 ^ LENGTH(64)" by (rule unsigned_less)
  then have "unat (rc_low rc) div 2 ^ 32 < 2 ^ 32" by (simp add: less_mult_imp_div_less)
  then have "unat (ucast (drop_bit 32 (rc_low rc)) :: u32) = carry rc"
    by (simp add: unsigned_ucast_eq unat_drop_bit carry_def take_bit_nat_eq_self)
  then have "(ucast (drop_bit 32 (rc_low rc)) :: u32) = 0 \<longleftrightarrow> carry rc = 0" by (metis unat_eq_zero)
  then show ?thesis by (simp add: emitting_def word_less_nat_alt 1)
qed

lemma emitted_byte:
  assumes "carry rc \<le> 1"
  shows "unat (rc_cache rc + ucast (drop_bit 32 (rc_low rc))) = (unat (rc_cache rc) + carry rc) mod 256"
proof -
  have "unat (ucast (drop_bit 32 (rc_low rc)) :: byte) = carry rc"
    using assms by (simp add: unsigned_ucast_eq unat_drop_bit carry_def take_bit_nat_eq_self)
  then show ?thesis by (simp add: unat_word_ariths)
qed

lemma digit_below: "(x :: nat) < 256 \<Longrightarrow> 0 < q \<Longrightarrow> x * q + (q - 1) < 256 * q"
proof -
  assume "x < 256" "0 < q"
  then have "(x + 1) * q \<le> 256 * q" by (intro mult_le_mono1) simp
  then show ?thesis using \<open>0 < q\<close> by (simp only: distrib_right mult_1)
qed

lemma held_split:
  assumes "rc_cache_size rc \<noteq> 0" "rc_cache_size rc \<noteq> 1" "carry rc \<le> 1"
  shows "held rc = (unat (rc_cache rc) + carry rc) mod 256 * 256 ^ (unat (rc_cache_size rc) - 1)
     + held (rc\<lparr>rc_out_total := t, rc_cache := 0xFF, rc_cache_size := rc_cache_size rc - 1\<rparr>)"
proof -
  have "unat (rc_cache_size rc) \<noteq> 0" "unat (rc_cache_size rc) \<noteq> 1"
    using assms(1,2) by (simp_all add: word_unat_eq_iff)
  then obtain c where c: "unat (rc_cache_size rc) = Suc (Suc c)" by (metis One_nat_def old.nat.exhaust)
  have m: "unat (rc_cache_size rc - 1) = Suc c" using c assms(1) by (simp add: unat_minus_one)
  let ?p = "256 ^ c :: nat"
  have p: "0 < ?p" by simp
  have w: "unat (rc_cache rc) < 256" by (rule unat_byte_less)
  show ?thesis
  proof (cases "carry rc = 0")
    case True
    have "unat (rc_cache rc) * (256 * ?p) + (256 * ?p - 1) < 256 * (256 * ?p)" using digit_below [OF w, of "256 * ?p"] p
      by (simp only: nat_0_less_mult_iff) simp
    then show ?thesis using True p w by (simp add: held_def c m carry_def)
  next
    case False
    then have 1: "carry rc = 1" using assms(3) by simp
    have "unat (rc_cache rc) * (256 * ?p) + (256 * ?p - 1) + 1 = (unat (rc_cache rc) + 1) * (256 * ?p)"
      using p by (simp add: algebra_simps)
    moreover have "256 ^ Suc (Suc c) = 256 * (256 * ?p)" by simp
    ultimately have "held rc = (unat (rc_cache rc) + 1) mod 256 * (256 * ?p)"
      using 1 unfolding held_def c by (simp only: diff_Suc_1 power_Suc mod_mult_mult2)
    moreover have "255 * ?p + (?p - 1) + 1 = 256 * ?p" using p by simp
    then have "held (rc\<lparr>rc_out_total := t, rc_cache := 0xFF, rc_cache_size := rc_cache_size rc - 1\<rparr>) = 0"
      using 1 by (simp add: held_def m carry_def)
    ultimately show ?thesis by (simp add: 1 c)
  qed
qed

lemma shift_low_loop_value:
  assumes "shift_low_loop rc out out_pos out_size = (full, rc', out', out_pos')" "carry rc \<le> 1" "rc_cache_size rc \<noteq> 0"
    "out_pos \<le> out_size" "out_size \<le> length out"
  shows "\<exists>bs. out' = memcpy out out_pos bs \<and> out_pos' = out_pos + length bs \<and> out_pos' \<le> out_size
     \<and> (if full then rc_cache_size rc' \<noteq> 0 \<and> length bs + unat (rc_cache_size rc') = unat (rc_cache_size rc)
            \<and> rc_value (E @ bs) rc' = rc_value E rc
        else rc_cache_size rc' = 0 \<and> length bs = unat (rc_cache_size rc)
            \<and> be (E @ bs) * 2 ^ 32 + unat (rc_low rc) mod 2 ^ 32 = rc_value E rc)"
  using assms
proof (induction rc out out_pos out_size arbitrary: E rule: shift_low_loop.induct)
  case (1 rc out out_pos out_size)
  let ?b = "rc_cache rc + ucast (drop_bit 32 (rc_low rc))"
  let ?rc = "rc\<lparr>rc_out_total := rc_out_total rc + 1, rc_cache := 0xFF, rc_cache_size := rc_cache_size rc - 1\<rparr>"
  note step = shift_low_loop.simps [of rc out out_pos out_size]
  note byte = emitted_byte [OF "1.prems"(2)]
  show ?case
  proof (cases "out_pos = out_size")
    case True
    then show ?thesis using "1.prems" unfolding step by (intro exI [of _ "[]"]) simp
  next
    case False
    show ?thesis
    proof (cases "rc_cache_size ?rc = 0")
      case True
      then have c: "unat (rc_cache_size rc) = 1" by (simp add: eq_iff_diff_eq_0 [symmetric])
      have "rc_value E rc = be (E @ [?b]) * 2 ^ 32 + unat (rc_low rc) mod 2 ^ 32"
        using byte by (simp add: rc_value_def held_def c)
      then show ?thesis using "1.prems" False True c unfolding step
        by (intro exI [of _ "[?b]"]) (auto simp: Let_def memcpy_single)
    next
      case more: False
      have "carry ?rc \<le> 1" using "1.prems"(2) by (simp add: carry_def)
      moreover have "shift_low_loop ?rc (out[out_pos := ?b]) (out_pos + 1) out_size = (full, rc', out', out_pos')"
        using "1.prems"(1) False more unfolding step by (simp add: Let_def)
      ultimately obtain bs where bs: "out' = memcpy (out[out_pos := ?b]) (out_pos + 1) bs" "out_pos' = out_pos + 1 + length bs"
          "out_pos' \<le> out_size"
        and v: "if full then rc_cache_size rc' \<noteq> 0 \<and> length bs + unat (rc_cache_size rc') = unat (rc_cache_size ?rc)
              \<and> rc_value ((E @ [?b]) @ bs) rc' = rc_value (E @ [?b]) ?rc
            else rc_cache_size rc' = 0 \<and> length bs = unat (rc_cache_size ?rc)
              \<and> be ((E @ [?b]) @ bs) * 2 ^ 32 + unat (rc_low ?rc) mod 2 ^ 32 = rc_value (E @ [?b]) ?rc"
        using "1.IH" [OF False refl refl more, of "E @ [?b]"] "1.prems" False more by auto
      have c: "unat (rc_cache_size rc) = Suc (unat (rc_cache_size rc - 1))"
        using unat_gt_0 [of "rc_cache_size rc"] "1.prems"(3) by (simp add: unat_minus_one)
      have "held rc = unat ?b * 256 ^ unat (rc_cache_size rc - 1) + held ?rc"
        using held_split [OF "1.prems"(3) _ "1.prems"(2), of "rc_out_total rc + 1"] more byte by (simp add: c)
      then have "rc_value E rc = rc_value (E @ [?b]) ?rc"
        by (simp add: rc_value_def c algebra_simps)
      then show ?thesis using bs v c "1.prems"(4,5) False
        by (intro exI [of _ "?b # bs"]) (auto simp: memcpy_Cons)
    qed
  qed
qed

lemma low_shifted: "unat (push_bit 8 (w AND 0x00FFFFFF) :: u64) = unat w mod 2 ^ 24 * 256"
proof -
  have "(0x00FFFFFF :: u64) = mask 24" by (simp add: mask_eq_exp_minus_1)
  then have "unat (w AND 0x00FFFFFF) = unat w mod 2 ^ 24"
    by (simp only: take_bit_eq_mask [symmetric] unsigned_take_bit_eq) (simp add: take_bit_eq_mod)
  moreover have "unat w mod 2 ^ 24 * 256 < (2 :: nat) ^ 64"
    using mod_less_divisor [of "2 ^ 24" "unat w"] by (simp del: mod_less_divisor)
  ultimately show ?thesis
    by (subst unsigned_push_bit_eq, subst push_bit_eq_mult) (simp add: take_bit_nat_eq_self)
qed

lemma low_cached: "unat (ucast (drop_bit 24 w AND 0xFF) :: byte) = unat (w :: u64) mod 2 ^ 32 div 2 ^ 24"
proof -
  have "unat (ucast (drop_bit 24 w AND 0xFF) :: byte) = unat w div 2 ^ 24 mod 256"
    by (simp only: and_FF unsigned_ucast_eq unsigned_take_bit_eq unat_drop_bit) (simp add: take_bit_eq_mod)
  also have "\<dots> = unat w mod 2 ^ 32 div 2 ^ 24"
    using div_mult2_eq [of "unat w" "2 ^ 24" 256] mod_mult2_eq [of "unat w" "2 ^ 24" 256] by simp
  finally show ?thesis .
qed

lemma rc_shift_low_value:
  assumes "rc_shift_low rc out out_pos out_size = (full, rc', out', out_pos')" "carry rc \<le> 1" "rc_cache_size rc \<noteq> 0"
    "unat (rc_cache_size rc) + 1 < 2 ^ 64" "out_pos \<le> out_size" "out_size \<le> length out"
  shows "\<exists>bs. out' = memcpy out out_pos bs \<and> out_pos' = out_pos + length bs \<and> out_pos' \<le> out_size \<and> rc_cache_size rc' \<noteq> 0
     \<and> (if full then length bs + unat (rc_cache_size rc') = unat (rc_cache_size rc) \<and> rc_value (E @ bs) rc' = rc_value E rc
            \<and> rc_low rc' = rc_low rc \<and> emitting rc
        else length bs + unat (rc_cache_size rc') = unat (rc_cache_size rc) + 1 \<and> rc_value (E @ bs) rc' = 256 * rc_value E rc
            \<and> unat (rc_low rc') = unat (rc_low rc) mod 2 ^ 24 * 256
            \<and> unat (rc_cache rc') = (if emitting rc then unat (rc_low rc) mod 2 ^ 32 div 2 ^ 24 else unat (rc_cache rc))
            \<and> (emitting rc \<longrightarrow> rc_cache_size rc' = 1))"
proof -
  let ?l = "unat (rc_low rc)"
  have l: "?l mod 2 ^ 24 * 256 < 2 ^ 32"
    using mod_less_divisor [of "2 ^ 24" ?l] by (simp del: mod_less_divisor)
  have q: "?l mod 2 ^ 32 = ?l mod 2 ^ 32 div 2 ^ 24 * 2 ^ 24 + ?l mod 2 ^ 24"
    using div_mult_mod_eq [of "?l mod 2 ^ 32" "2 ^ 24"] by (simp add: mod_mod_cancel)
  show ?thesis
  proof (cases "emitting rc")
    case True
    obtain f r o1 p where lp: "shift_low_loop rc out out_pos out_size = (f, r, o1, p)" by (metis prod_cases4)
    obtain bs where bs: "o1 = memcpy out out_pos bs" "p = out_pos + length bs" "p \<le> out_size"
      and v: "if f then rc_cache_size r \<noteq> 0 \<and> length bs + unat (rc_cache_size r) = unat (rc_cache_size rc)
            \<and> rc_value (E @ bs) r = rc_value E rc
        else rc_cache_size r = 0 \<and> length bs = unat (rc_cache_size rc)
            \<and> be (E @ bs) * 2 ^ 32 + unat (rc_low rc) mod 2 ^ 32 = rc_value E rc"
      using shift_low_loop_value [OF lp assms(2,3,5,6)] by blast
    have low: "rc_low r = rc_low rc" using shift_low_loop_fields [OF lp] by simp
    show ?thesis
    proof (cases f)
      case True
      then show ?thesis using assms(1) lp bs v low \<open>emitting rc\<close>
        by (intro exI [of _ bs]) (simp add: rc_shift_low_def emitting_code)
    next
      case False
      then have r: "full = False" "out' = o1" "out_pos' = p"
        "rc' = r\<lparr>rc_cache := ucast (drop_bit 24 (rc_low rc) AND 0xFF), rc_cache_size := 1, rc_low := push_bit 8 (rc_low rc AND 0x00FFFFFF)\<rparr>"
        using assms(1) lp low \<open>emitting rc\<close> v by (auto simp: rc_shift_low_def emitting_code RC_SHIFT_BITS_def)
      let ?c = "?l mod 2 ^ 32 div 2 ^ 24"
      have "rc_cache rc' = ucast (drop_bit 24 (rc_low rc) AND 0xFF)" "rc_low rc' = push_bit 8 (rc_low rc AND 0x00FFFFFF)"
        "rc_cache_size rc' = 1" by (simp_all add: r(4))
      then have u: "unat (rc_cache rc') = ?c" "unat (rc_low rc') = ?l mod 2 ^ 24 * 256" "rc_cache_size rc' = 1"
        by (simp_all only: low_cached low_shifted)
      then have "carry rc' = 0" using l by (simp add: carry_def)
      moreover have "?c < 256" using less_mult_imp_div_less [of "?l mod 2 ^ 32" 256 "2 ^ 24"] by simp
      ultimately have "rc_value (E @ bs) rc' = (be (E @ bs) * 256 + ?c) * 2 ^ 32 + ?l mod 2 ^ 24 * 256"
        using l by (simp add: rc_value_def held_def u)
      also have "\<dots> = 256 * (be (E @ bs) * 2 ^ 32 + ?l mod 2 ^ 32)" using q by simp
      finally have "rc_value (E @ bs) rc' = 256 * rc_value E rc" using v False by simp
      then show ?thesis using r(1-3) u bs v False \<open>emitting rc\<close> by (intro exI [of _ bs]) simp
    qed
  next
    case False
    then have r: "full = False" "out' = out" "out_pos' = out_pos"
      "rc' = rc\<lparr>rc_cache_size := rc_cache_size rc + 1, rc_low := push_bit 8 (rc_low rc AND 0x00FFFFFF)\<rparr>"
      using assms(1) by (auto simp: rc_shift_low_def emitting_code RC_SHIFT_BITS_def)
    have z: "carry rc = 0" "\<not> ?l mod 2 ^ 32 < 0xFF000000" using False by (simp_all add: emitting_def)
    have "?l mod 2 ^ 32 div 2 ^ 24 = 0xFF"
      using z(2) mod_less_divisor [of "2 ^ 32" ?l] by (intro div_nat_eqI) (simp_all del: mod_less_divisor)
    then have lm: "?l mod 2 ^ 32 = 0xFF * 2 ^ 24 + ?l mod 2 ^ 24" using q by simp
    obtain c where c: "unat (rc_cache_size rc) = Suc c" using assms(3) by (metis not0_implies_Suc unat_eq_zero)
    have "rc_low rc' = push_bit 8 (rc_low rc AND 0x00FFFFFF)" by (simp add: r(4))
    then have "unat (rc_low rc') = ?l mod 2 ^ 24 * 256" by (simp only: low_shifted)
    then have u: "unat (rc_cache_size rc') = Suc (Suc c)" "unat (rc_low rc') = ?l mod 2 ^ 24 * 256" "rc_cache rc' = rc_cache rc"
      using c assms(4) by (simp_all add: r(4) unat_word_ariths)
    have z': "carry rc' = 0" using l u by (simp add: carry_def)
    let ?h = "unat (rc_cache rc) * 256 ^ c + (256 ^ c - 1)" and ?h' = "unat (rc_cache rc) * 256 ^ Suc c + (256 ^ Suc c - 1)"
    have h: "held rc = ?h" "held rc' = ?h'"
      using digit_below [OF unat_byte_less, of "256 ^ c" "rc_cache rc"] digit_below [OF unat_byte_less, of "256 ^ Suc c" "rc_cache rc"]
      by (simp_all add: held_def u c z z')
    have "x * (256 * p) + (256 * p - 1) = 256 * (x * p + (p - 1)) + 255" if "0 < p" for x p :: nat
      using that by (cases p) (simp_all add: distrib_left)
    from this [of "256 ^ c" "unat (rc_cache rc)"] have "held rc' = 256 * held rc + 255"
      unfolding h by (simp only: power_Suc zero_less_power zero_less_numeral)
    moreover have "be E * 256 ^ Suc (Suc c) = 256 * (be E * 256 ^ Suc c)" by simp
    moreover have "(256 * B + (256 * h + 255)) * 2 ^ 32 + a * 256 = 256 * ((B + h) * 2 ^ 32 + (0xFF * 2 ^ 24 + a))" for B h a :: nat
      by simp
    ultimately have "rc_value E rc' = 256 * rc_value E rc"
      unfolding rc_value_def u c lm mod_less [OF l] by (simp only:)
    then show ?thesis using r(1-3) u c False assms(5)
      by (intro exI [of _ "[]"]) (auto simp: word_unat_eq_iff)
  qed
qed

section \<open>The encoder is an interval coder\<close>

text \<open>
  There is always room for the carry: if the byte held back is 0xFF, none comes any more,
  unless the bytes are just being written and the carry is in front of them.
\<close>

definition headroom :: "lzma_range_encoder \<Rightarrow> bool" where
  "headroom rc \<longleftrightarrow> unat (rc_low rc) + unat (rc_range rc) \<le> 2 ^ 33
     \<and> (rc_cache rc = 0xFF \<longrightarrow> unat (rc_low rc) + unat (rc_range rc) \<le> 2 ^ 32 \<or> unat (rc_range rc) < 2 ^ 24 \<and> emitting rc)"

definition encodes :: "byte list \<Rightarrow> lzma_range_encoder \<Rightarrow> prob_store \<Rightarrow> interval \<Rightarrow> bool" where
  "encodes E rc m s \<longleftrightarrow> rc_value E rc = base s \<and> unat (rc_range rc) = width s \<and> length E + unat (rc_cache_size rc) = digits s
     \<and> m = store s \<and> rc_cache_size rc \<noteq> 0 \<and> headroom rc"

lemma rc_value_other [simp]:
  "rc_value E (rc\<lparr>rc_range := r\<rparr>) = rc_value E rc" "rc_value E (rc\<lparr>rc_pos := n\<rparr>) = rc_value E rc"
  by (simp_all add: rc_value_def held_def carry_def)

text \<open>A completed shift keeps room for the carry.\<close>

lemma headroom_shift:
  fixes l r :: nat
  assumes "l + r \<le> 2 ^ 33" "r < 2 ^ 24"
  shows "l mod 2 ^ 24 * 256 + 256 * r \<le> 2 ^ 33"
    and "l mod 2 ^ 32 div 2 ^ 24 = 255 \<Longrightarrow> l div 2 ^ 32 \<noteq> 0 \<or> l + r \<le> 2 ^ 32 \<Longrightarrow> l mod 2 ^ 24 * 256 + 256 * r \<le> 2 ^ 32"
proof -
  have "l mod 2 ^ 24 < 2 ^ 24" by simp
  then show "l mod 2 ^ 24 * 256 + 256 * r \<le> 2 ^ 33" using assms(2) by simp
  have q: "l mod 2 ^ 32 = l mod 2 ^ 32 div 2 ^ 24 * 2 ^ 24 + l mod 2 ^ 24"
    using div_mult_mod_eq [of "l mod 2 ^ 32" "2 ^ 24"] by (simp add: mod_mod_cancel)
  define hi lo where "hi = l div 2 ^ 32" and "lo = l mod 2 ^ 32"
  have d: "l = hi * 2 ^ 32 + lo" unfolding hi_def lo_def by simp
  assume c: "l mod 2 ^ 32 div 2 ^ 24 = 255" and h: "l div 2 ^ 32 \<noteq> 0 \<or> l + r \<le> 2 ^ 32"
  have "lo + r \<le> 2 ^ 32" using h assms(1) d unfolding hi_def [symmetric] by (cases hi) simp_all
  then have "255 * 2 ^ 24 + l mod 2 ^ 24 + r \<le> 2 ^ 32" using q unfolding c lo_def by linarith
  then show "l mod 2 ^ 24 * 256 + 256 * r \<le> 2 ^ 32" by simp
qed

lemma encodes_cong:
  "rc_low rc' = rc_low rc \<Longrightarrow> rc_cache_size rc' = rc_cache_size rc \<Longrightarrow> rc_range rc' = rc_range rc \<Longrightarrow> rc_cache rc' = rc_cache rc
   \<Longrightarrow> encodes E rc' m s = encodes E rc m s"
  by (simp add: encodes_def headroom_def emitting_def carry_def rc_value_def held_def)

lemma encodes_carry:
  assumes "encodes E rc m s" "interval_ok s" shows "carry rc \<le> 1"
proof -
  have "unat (rc_low rc) < 2 ^ 33" using assms by (auto simp: encodes_def headroom_def interval_ok_def)
  then show ?thesis using less_mult_imp_div_less [of "unat (rc_low rc)" 2 "2 ^ 32"] by (simp add: carry_def)
qed

lemma encode_normalize_encodes:
  assumes "encode_normalize rc out out_pos out_size = (full, rc', out', out_pos')" "encodes E rc m s" "interval_ok s"
    "unat (rc_cache_size rc) + 1 < 2 ^ 64" "out_pos \<le> out_size" "out_size \<le> length out"
  shows "\<exists>bs. out' = memcpy out out_pos bs \<and> out_pos' = out_pos + length bs \<and> out_pos' \<le> out_size
     \<and> encodes (E @ bs) rc' m (if full then s else widen s)"
proof (cases "width s < 2 ^ 24")
  case False
  then have "\<not> rc_range rc < RC_TOP_VALUE" using assms(2) by (simp add: RC_TOP_VALUE_def word_less_nat_alt encodes_def)
  then show ?thesis using assms False by (intro exI [of _ "[]"]) (auto simp: encode_normalize_def widen_def)
next
  case True
  let ?l = "unat (rc_low rc)" and ?r = "unat (rc_range rc)"
  have r: "?r = width s" using assms(2) by (simp add: encodes_def)
  then have top: "rc_range rc < RC_TOP_VALUE" using True by (simp add: RC_TOP_VALUE_def word_less_nat_alt)
  obtain r' where sh: "rc_shift_low rc out out_pos out_size = (full, r', out', out_pos')"
    and rc': "rc' = (if full then r' else r'\<lparr>rc_range := push_bit 8 (rc_range rc)\<rparr>)"
    using assms(1) top by (auto simp: encode_normalize_def RC_SHIFT_BITS_def split: prod.splits dest: rc_shift_low_fields)
  have "rc_cache_size rc \<noteq> 0" using assms(2) by (simp add: encodes_def)
  from rc_shift_low_value [OF sh encodes_carry [OF assms(2,3)] this assms(4-6), of E] obtain bs where
    bs: "out' = memcpy out out_pos bs" "out_pos' = out_pos + length bs" "out_pos' \<le> out_size" "rc_cache_size r' \<noteq> 0"
    and v: "if full then length bs + unat (rc_cache_size r') = unat (rc_cache_size rc) \<and> rc_value (E @ bs) r' = rc_value E rc
            \<and> rc_low r' = rc_low rc \<and> emitting rc
        else length bs + unat (rc_cache_size r') = unat (rc_cache_size rc) + 1 \<and> rc_value (E @ bs) r' = 256 * rc_value E rc
            \<and> unat (rc_low r') = ?l mod 2 ^ 24 * 256
            \<and> unat (rc_cache r') = (if emitting rc then ?l mod 2 ^ 32 div 2 ^ 24 else unat (rc_cache rc))
            \<and> (emitting rc \<longrightarrow> rc_cache_size r' = 1)" by blast
  have rr: "rc_range r' = rc_range rc" using rc_shift_low_fields [OF sh] by simp
  have "encodes (E @ bs) rc' m (if full then s else widen s)"
  proof (cases full)
    case True
    then show ?thesis using v bs(4) rc' rr r assms(2) \<open>width s < 2 ^ 24\<close>
      by (auto simp: encodes_def headroom_def emitting_def carry_def)
  next
    case False
    have p: "unat (push_bit 8 (rc_range rc)) = 256 * width s"
      using True r by (subst unsigned_push_bit_eq, subst push_bit_eq_mult) (simp add: take_bit_nat_eq_self)
    have hr: "?l + width s \<le> 2 ^ 33" "rc_cache rc = 0xFF \<Longrightarrow> \<not> emitting rc \<Longrightarrow> ?l + width s \<le> 2 ^ 32"
      using assms(2) by (auto simp: encodes_def headroom_def)
    have low: "unat (rc_low rc') = ?l mod 2 ^ 24 * 256" "unat (rc_range rc') = 256 * width s"
      using v False rc' p by simp_all
    have "?l mod 2 ^ 32 div 2 ^ 24 = 255 \<and> (?l div 2 ^ 32 \<noteq> 0 \<or> ?l + width s \<le> 2 ^ 32)" if "rc_cache rc' = 0xFF"
    proof (cases "emitting rc")
      case em: True
      have c: "?l mod 2 ^ 32 div 2 ^ 24 = 255" using v False rc' that em by simp
      then have "255 * 2 ^ 24 \<le> ?l mod 2 ^ 32" by (metis div_times_less_eq_dividend)
      then show ?thesis using em c by (simp add: emitting_def carry_def)
    next
      case em: False
      then have z: "carry rc = 0" "\<not> ?l mod 2 ^ 32 < 0xFF000000" by (simp_all add: emitting_def)
      have "?l mod 2 ^ 32 div 2 ^ 24 = 255"
        using z(2) mod_less_divisor [of "2 ^ 32" ?l] by (intro div_nat_eqI) (simp_all del: mod_less_divisor)
      moreover have "rc_cache rc = 0xFF" using v False rc' that em by (simp add: word_unat_eq_iff)
      ultimately show ?thesis using hr(2) em by simp
    qed
    then have "headroom rc'"
      using headroom_shift [OF hr(1) True] unfolding headroom_def low by blast
    then show ?thesis using v bs(4) rc' False assms(2) True low
      by (simp add: encodes_def widen_def)
  qed
  then show ?thesis using bs by blast
qed

text \<open>Away from a shift the carry is still to be added.\<close>

lemma rc_value_plain:
  assumes "carry rc \<le> 1" "rc_cache rc = 0xFF \<Longrightarrow> carry rc = 0" "rc_cache_size rc \<noteq> 0"
  shows "rc_value E rc = (be E * 256 ^ unat (rc_cache_size rc) + unat (rc_cache rc) * 256 ^ (unat (rc_cache_size rc) - 1)
     + (256 ^ (unat (rc_cache_size rc) - 1) - 1)) * 2 ^ 32 + unat (rc_low rc)"
proof -
  obtain c where c: "unat (rc_cache_size rc) = Suc c" using assms(3) by (metis not0_implies_Suc unat_eq_zero)
  let ?x = "unat (rc_cache rc)" and ?q = "256 ^ c :: nat"
  have "?x * ?q + (?q - 1) + carry rc < 256 * ?q"
  proof (cases "carry rc = 0")
    case True
    then show ?thesis using digit_below [OF unat_byte_less, of ?q] by simp
  next
    case False
    then have "carry rc = 1" "rc_cache rc \<noteq> 0xFF" using assms(1,2) by auto
    then have "?x + 1 < 256" using unat_byte_less [of "rc_cache rc"] by (auto simp: word_unat_eq_iff)
    then have "(?x + 1) * ?q < 256 * ?q" by (intro mult_strict_right_mono) auto
    then show ?thesis using \<open>carry rc = 1\<close> by simp
  qed
  then have h: "held rc = ?x * ?q + (?q - 1) + carry rc" by (simp add: held_def c)
  have "unat (rc_low rc) = carry rc * 2 ^ 32 + unat (rc_low rc) mod 2 ^ 32" by (simp add: carry_def)
  then have "rc_value E rc = (be E * 256 ^ Suc c + ?x * ?q + (?q - 1)) * 2 ^ 32 + unat (rc_low rc)"
    unfolding rc_value_def h c by (simp only: distrib_right)
  then show ?thesis by (simp add: c)
qed

definition item_of :: "rc_symbol \<Rightarrow> nat \<Rightarrow> item" where
  "item_of v p = (case v of RC_BIT_0 \<Rightarrow> Bit p False | RC_BIT_1 \<Rightarrow> Bit p True | RC_DIRECT_0 \<Rightarrow> Direct False | _ \<Rightarrow> Direct True)"

lemma encodes_add_low:
  assumes "encodes E rc m s" "interval_ok s" "2 ^ 24 \<le> width s" "b + w \<le> width s" "unat x = b" "unat y = w" "0 < w"
    "rc' = rc\<lparr>rc_low := rc_low rc + x, rc_range := y\<rparr>" "width s' = w" "base s' = base s + b" "digits s' = digits s"
  shows "encodes E rc' (store s') s'"
proof -
  have hr: "unat (rc_low rc) + width s \<le> 2 ^ 33" "rc_cache rc = 0xFF \<Longrightarrow> unat (rc_low rc) + width s \<le> 2 ^ 32"
    using assms(1,3) by (auto simp: encodes_def headroom_def)
  have low: "unat (rc_low rc') = unat (rc_low rc) + b"
    using hr(1) assms(4,5,8) by (simp add: unat_word_ariths)
  have "unat (rc_low rc') < 2 ^ 33" using hr(1) assms(4,7) low by linarith
  then have "carry rc' \<le> 1" using less_mult_imp_div_less [of "unat (rc_low rc')" 2 "2 ^ 32"] by (simp add: carry_def)
  moreover have "carry rc' = 0" if "rc_cache rc' = 0xFF"
  proof -
    have "unat (rc_low rc') < 2 ^ 32" using hr(2) that assms(4,7,8) low by simp
    then show ?thesis by (simp add: carry_def)
  qed
  moreover have "carry rc = 0" if "rc_cache rc = 0xFF"
  proof -
    have "unat (rc_low rc) < 2 ^ 32" using hr(2) that assms(3) by simp
    then show ?thesis by (simp add: carry_def)
  qed
  ultimately have "rc_value E rc' = rc_value E rc + b"
    using rc_value_plain [OF encodes_carry [OF assms(1,2)], of E] rc_value_plain [of rc' E] assms(1,8) low
    by (simp add: encodes_def)
  moreover have "headroom rc'" using hr assms(4,6,8) low by (auto simp: headroom_def)
  ultimately show ?thesis using assms by (simp add: encodes_def)
qed

lemma rc_encode_symbol_encodes:
  assumes "rc_encode_symbol v p rc m = (rc', m')" "v \<noteq> RC_FLUSH" "encodes E rc m s" "interval_ok s" "2 ^ 24 \<le> width s"
  shows "encodes E rc' m' (narrow (item_of v p) s)"
proof -
  have r: "unat (rc_range rc) = width s" and m: "m = store s" using assms(3) by (simp_all add: encodes_def)
  have ok: "probs_ok (store s)" using assms(4) by (simp add: interval_ok_def)
  note b = bound_bounds [OF ok assms(5), of p] and bc = bound_code [OF r ok assms(5), of p]
  let ?x = "ucast (store s p) * drop_bit 11 (rc_range rc) :: u32"
  define y where "y = drop_bit 1 (rc_range rc)"
  have h: "unat y = width s div 2" unfolding y_def using r by (simp only: unat_drop_bit) simp
  have "?x \<le> rc_range rc" using bc(2) b r by (simp only: word_le_nat_alt)
  then have sub: "unat (rc_range rc - ?x) = width s - bound s p" using bc(2) r by (simp only: unat_sub)
  have up: "unat (ucast w :: u64) = unat w" for w :: u32 by (simp add: unat_ucast_up)
  let ?s = "narrow (item_of v p) s"
  have "encodes E rc' (store ?s) ?s"
  proof (cases v)
    case RC_BIT_0
    then have "rc' = rc\<lparr>rc_low := rc_low rc + 0, rc_range := drop_bit 11 (rc_range rc) * ucast (store s p)\<rparr>"
      using assms(1) m by (auto simp: rc_encode_symbol_def RC_BIT_MODEL_TOTAL_BITS_def Let_def)
    then show ?thesis
      using b RC_BIT_0 by (intro encodes_add_low [OF assms(3-5) _ _ bc(1), of 0 0]) (simp_all add: item_of_def)
  next
    case RC_BIT_1
    then have "rc' = rc\<lparr>rc_low := rc_low rc + ucast ?x, rc_range := rc_range rc - ?x\<rparr>"
      using assms(1) m by (auto simp: rc_encode_symbol_def RC_BIT_MODEL_TOTAL_BITS_def Let_def)
    then show ?thesis
      using b RC_BIT_1 by (intro encodes_add_low [OF assms(3-5) _ _ sub, of "bound s p" "ucast ?x"]) (simp_all add: item_of_def bc(2) up)
  next
    case RC_DIRECT_0
    then have "rc' = rc\<lparr>rc_low := rc_low rc + 0, rc_range := y\<rparr>"
      using assms(1) by (auto simp: rc_encode_symbol_def y_def)
    then show ?thesis
      using RC_DIRECT_0 assms(5) by (intro encodes_add_low [OF assms(3-5) _ _ h, of 0 0]) (simp_all add: item_of_def)
  next
    case RC_DIRECT_1
    then have "rc' = rc\<lparr>rc_low := rc_low rc + ucast y, rc_range := y\<rparr>"
      using assms(1) by (auto simp: rc_encode_symbol_def Let_def y_def)
    then show ?thesis
      using RC_DIRECT_1 assms(5)
      by (intro encodes_add_low [OF assms(3-5) _ _ h, of "width s div 2" "ucast y"]) (simp_all add: item_of_def Let_def up h)
  qed (use assms(2) in simp)
  moreover have "m' = store ?s"
    using assms(1,2) m by (cases v) (auto simp: rc_encode_symbol_def item_of_def Let_def)
  ultimately show ?thesis by simp
qed

section \<open>Flushing\<close>

text \<open>After \<open>j\<close> of the five shifts.\<close>

definition flushing :: "nat \<Rightarrow> byte list \<Rightarrow> lzma_range_encoder \<Rightarrow> interval \<Rightarrow> bool" where
  "flushing j E rc s \<longleftrightarrow> rc_value E rc = base s * 256 ^ j \<and> length E + unat (rc_cache_size rc) = digits s + j
     \<and> rc_cache_size rc \<noteq> 0 \<and> carry rc \<le> 1 \<and> (0 < j \<longrightarrow> unat (rc_low rc) < 2 ^ 32) \<and> 256 ^ j dvd unat (rc_low rc)
     \<and> (j = 5 \<longrightarrow> rc_cache rc = 0 \<and> rc_cache_size rc = 1)"

lemma flushing_step:
  assumes "rc_shift_low rc out out_pos out_size = (full, rc', out', out_pos')" "flushing j E rc s" "j < 5"
    "digits s + 6 < 2 ^ 64" "out_pos \<le> out_size" "out_size \<le> length out"
  shows "\<exists>bs. out' = memcpy out out_pos bs \<and> out_pos' = out_pos + length bs \<and> out_pos' \<le> out_size
     \<and> flushing (if full then j else j + 1) (E @ bs) rc' s"
proof -
  let ?l = "unat (rc_low rc)"
  have f: "rc_value E rc = base s * 256 ^ j" "length E + unat (rc_cache_size rc) = digits s + j" "rc_cache_size rc \<noteq> 0"
    "carry rc \<le> 1" "0 < j \<Longrightarrow> ?l < 2 ^ 32" "256 ^ j dvd ?l"
    using assms(2) by (auto simp: flushing_def)
  have "unat (rc_cache_size rc) + 1 < 2 ^ 64" using f(2) assms(3,4) by linarith
  from rc_shift_low_value [OF assms(1) f(4,3) this assms(5,6), of E] obtain bs where
    bs: "out' = memcpy out out_pos bs" "out_pos' = out_pos + length bs" "out_pos' \<le> out_size" "rc_cache_size rc' \<noteq> 0"
    and v: "if full then length bs + unat (rc_cache_size rc') = unat (rc_cache_size rc) \<and> rc_value (E @ bs) rc' = rc_value E rc
            \<and> rc_low rc' = rc_low rc \<and> emitting rc
        else length bs + unat (rc_cache_size rc') = unat (rc_cache_size rc) + 1 \<and> rc_value (E @ bs) rc' = 256 * rc_value E rc
            \<and> unat (rc_low rc') = ?l mod 2 ^ 24 * 256
            \<and> unat (rc_cache rc') = (if emitting rc then ?l mod 2 ^ 32 div 2 ^ 24 else unat (rc_cache rc))
            \<and> (emitting rc \<longrightarrow> rc_cache_size rc' = 1)" by blast
  have "flushing (if full then j else j + 1) (E @ bs) rc' s"
  proof (cases full)
    case True
    then show ?thesis using v f bs(4) assms(3) by (simp add: flushing_def carry_def)
  next
    case False
    have l: "?l mod 2 ^ 24 * 256 < 2 ^ 32"
      using mod_less_divisor [of "2 ^ 24" ?l] by (simp del: mod_less_divisor)
    have zero: "?l = 0" if "j = 4"
      using that f(5,6) by (auto dest: dvd_imp_le)
    have "256 ^ (j + 1) dvd ?l mod 2 ^ 24 * 256"
    proof (cases "j = 4")
      case False
      then have "j \<le> 3" using assms(3) by simp
      then have "(256 :: nat) ^ j dvd 2 ^ 24" using le_imp_power_dvd [of j 3 "256 :: nat"] by simp
      then have "256 ^ j dvd ?l mod 2 ^ 24" using f(6) by (simp add: dvd_mod_iff)
      then show ?thesis by (simp add: mult.commute mult_dvd_mono)
    qed (use zero in simp)
    moreover have "rc_cache rc' = 0 \<and> rc_cache_size rc' = 1" if "j = 4"
    proof -
      have "emitting rc" using zero [OF that] by (simp add: emitting_def)
      then show ?thesis using v False zero [OF that] by (simp add: word_unat_eq_iff)
    qed
    ultimately show ?thesis using v False f l bs(4) assms(3) by (auto simp: flushing_def carry_def)
  qed
  then show ?thesis using bs by blast
qed

lemma flushing_done:
  assumes "flushing 5 E rc s" shows "be E = base s" "length E = digits s + 4"
proof -
  have f: "rc_value E rc = base s * 256 ^ 5" "length E + unat (rc_cache_size rc) = digits s + 5"
    "unat (rc_low rc) < 2 ^ 32" "256 ^ 5 dvd unat (rc_low rc)" "rc_cache rc = 0" "rc_cache_size rc = 1"
    using assms by (auto simp: flushing_def)
  have "unat (rc_low rc) = 0" using f(3,4) by (auto dest: dvd_imp_le)
  then have "rc_value E rc = be E * 256 * 2 ^ 32" by (simp add: rc_value_def held_def carry_def f)
  then show "be E = base s" using f(1) by simp
  show "length E = digits s + 4" using f(2,6) by simp
qed

lemma flush_out_flushes:
  assumes "flush_out rc out out_pos out_size = (full, rc', out', out_pos')" "flushing j E rc s" "j < 5"
    "rc_count rc = rc_pos rc + (5 - j)" "digits s + 6 < 2 ^ 64" "out_pos \<le> out_size" "out_size \<le> length out"
  shows "\<exists>bs. out' = memcpy out out_pos bs \<and> out_pos' = out_pos + length bs \<and> out_pos' \<le> out_size
     \<and> (if full then (\<exists>j'<5. flushing j' (E @ bs) rc' s \<and> rc_count rc' = rc_count rc \<and> rc_count rc = rc_pos rc' + (5 - j')
            \<and> j \<le> j' \<and> rc_symbols rc' = rc_symbols rc \<and> rc_probs rc' = rc_probs rc \<and> rc_range rc' = rc_range rc)
        else be (E @ bs) = base s \<and> length (E @ bs) = digits s + 4 \<and> rc_count rc' = 0 \<and> rc_pos rc' = 0)"
  using assms
proof (induction rc out out_pos out_size arbitrary: j E rule: flush_out.induct)
  case (1 rc out out_pos out_size)
  obtain f r o1 p where sh: "rc_shift_low rc out out_pos out_size = (f, r, o1, p)" by (metis prod_cases4)
  obtain bs where bs: "o1 = memcpy out out_pos bs" "p = out_pos + length bs" "p \<le> out_size"
    and fl: "flushing (if f then j else j + 1) (E @ bs) r s"
    using flushing_step [OF sh "1.prems"(2,3,5-7)] by blast
  note fields = rc_shift_low_fields [OF sh]
  have len: "out_size \<le> length o1" using bs "1.prems"(7) by simp
  show ?case
  proof (cases f)
    case True
    then show ?thesis using "1.prems" sh bs fl fields
      by (subst (asm) flush_out.simps) (intro exI [of _ bs], auto)
  next
    case False
    let ?r = "r\<lparr>rc_pos := rc_pos r + 1\<rparr>"
    have fl': "flushing (j + 1) (E @ bs) ?r s" using fl False by (simp add: flushing_def carry_def)
    show ?thesis
    proof (cases "j = 4")
      case True
      then have "full = False \<and> rc' = rc_reset ?r \<and> out' = o1 \<and> out_pos' = p"
        using "1.prems"(1,4) sh False fields by (subst (asm) flush_out.simps) simp
      moreover have "be (E @ bs) = base s" "length (E @ bs) = digits s + 4"
        using flushing_done [of "E @ bs" ?r s] fl' True by simp_all
      ultimately show ?thesis using bs by (intro exI [of _ bs]) (simp add: rc_reset_def)
    next
      case less: False
      then have lt: "rc_pos ?r < rc_count ?r" and cnt: "rc_count ?r = rc_pos ?r + (5 - (j + 1))" and j: "j + 1 < 5"
        using "1.prems"(3,4) fields by simp_all
      have run: "flush_out ?r o1 p out_size = (full, rc', out', out_pos')"
        using "1.prems"(1) sh False lt by (subst (asm) flush_out.simps) simp
      have f0: "f = False" using False by simp
      from "1.IH" [OF sh [symmetric] f0 refl refl refl lt run fl' j cnt "1.prems"(5) bs(3) len] obtain cs where
        cs: "out' = memcpy o1 p cs" "out_pos' = p + length cs" "out_pos' \<le> out_size"
        and res: "if full then (\<exists>j'<5. flushing j' ((E @ bs) @ cs) rc' s \<and> rc_count rc' = rc_count ?r \<and> rc_count ?r = rc_pos rc' + (5 - j')
            \<and> j + 1 \<le> j' \<and> rc_symbols rc' = rc_symbols ?r \<and> rc_probs rc' = rc_probs ?r \<and> rc_range rc' = rc_range ?r)
        else be ((E @ bs) @ cs) = base s \<and> length ((E @ bs) @ cs) = digits s + 4 \<and> rc_count rc' = 0 \<and> rc_pos rc' = 0" by blast
      have "out' = memcpy out out_pos (bs @ cs)" using cs bs "1.prems"(6,7) by (simp add: memcpy_append)
      then show ?thesis using cs bs res fields by (intro exI [of _ "bs @ cs"]) (auto split: if_splits)
    qed
  qed
qed

section \<open>The queue of symbols\<close>

definition pending :: "lzma_range_encoder \<Rightarrow> (rc_symbol \<times> nat) list" where
  "pending rc = map (\<lambda>i. (rc_symbols rc ! i, rc_probs rc ! i)) [rc_pos rc..<rc_count rc]"

definition queue_ok :: "lzma_range_encoder \<Rightarrow> bool" where
  "queue_ok rc \<longleftrightarrow> length (rc_symbols rc) = RC_SYMBOLS_MAX \<and> length (rc_probs rc) = RC_SYMBOLS_MAX \<and> rc_pos rc \<le> rc_count rc"

lemma pending_Cons:
  "rc_pos rc < rc_count rc \<Longrightarrow> pending rc = (rc_symbols rc ! rc_pos rc, rc_probs rc ! rc_pos rc) # pending (rc\<lparr>rc_pos := rc_pos rc + 1\<rparr>)"
  by (simp add: pending_def upt_rec [of "rc_pos rc"])

lemma pending_cong:
  "rc_pos rc' = rc_pos rc \<Longrightarrow> rc_count rc' = rc_count rc \<Longrightarrow> rc_symbols rc' = rc_symbols rc \<Longrightarrow> rc_probs rc' = rc_probs rc
   \<Longrightarrow> pending rc' = pending rc"
  by (simp add: pending_def)

lemma length_pending [simp]: "length (pending rc) = rc_count rc - rc_pos rc"
  by (simp add: pending_def)

text \<open>
  The items of a coder: those that are in the interval and those that are in the queue,
  with the five flushes behind them once they have been asked for.
\<close>

definition items_of :: "(rc_symbol \<times> nat) list \<Rightarrow> item list" where
  "items_of ps = map (\<lambda>(v, p). item_of v p) ps"

definition flushes :: "nat \<Rightarrow> (rc_symbol \<times> nat) list \<Rightarrow> bool" where
  "flushes n qs \<longleftrightarrow> map fst qs = replicate n RC_FLUSH"

definition coding :: "byte list \<Rightarrow> lzma_range_encoder \<Rightarrow> prob_store \<Rightarrow> interval \<Rightarrow> item list \<Rightarrow> bool \<Rightarrow> bool" where
  "coding E rc m s its fl \<longleftrightarrow> queue_ok rc \<and>
     (\<exists>coded ps qs. its = coded @ items_of ps \<and> pending rc = ps @ qs \<and> (\<forall>(v, p)\<in>set ps. v \<noteq> RC_FLUSH)
        \<and> flushes (if fl then 5 else 0) qs \<and> encodes E rc m (code_items coded s))"

lemma codingI:
  "queue_ok rc \<Longrightarrow> its = coded @ items_of ps \<Longrightarrow> pending rc = ps @ qs \<Longrightarrow> \<forall>(v, p)\<in>set ps. v \<noteq> RC_FLUSH
   \<Longrightarrow> flushes (if fl then 5 else 0) qs \<Longrightarrow> encodes E rc m (code_items coded s) \<Longrightarrow> coding E rc m s its fl"
  unfolding coding_def by blast

definition finishing :: "byte list \<Rightarrow> lzma_range_encoder \<Rightarrow> prob_store \<Rightarrow> interval \<Rightarrow> item list \<Rightarrow> bool" where
  "finishing E rc m s its \<longleftrightarrow> queue_ok rc \<and> m = store (code_items its s) \<and> rc_range rc = 0xFFFFFFFF \<and>
     (\<exists>j<5. flushes (5 - j) (pending rc) \<and> flushing j E rc (widen (code_items its s)))"

definition finished :: "byte list \<Rightarrow> lzma_range_encoder \<Rightarrow> prob_store \<Rightarrow> interval \<Rightarrow> item list \<Rightarrow> bool" where
  "finished E rc m s its \<longleftrightarrow> m = store (code_items its s) \<and> rc_count rc = 0 \<and> rc_pos rc = 0
     \<and> be E = base (widen (code_items its s)) \<and> length E = digits (widen (code_items its s)) + 4"

lemma store_widen [simp]: "store (widen s) = store s"
  by (simp add: widen_def)

lemma digits_code_items: "digits (code_items its s) \<le> digits s + length its"
proof (induction its arbitrary: s)
  case (Cons it its)
  have "digits (code_item it s) \<le> digits s + 1"
    by (cases it) (simp_all add: code_item_def widen_def Let_def)
  then show ?case using Cons.IH [of "code_item it s"] by (simp add: code_items_def)
qed (simp add: code_items_def)

lemma flush_out_finishes:
  assumes "flush_out (rc\<lparr>rc_range := 0xFFFFFFFF\<rparr>) out out_pos out_size = (full, rc', out', out_pos')"
    "flushing j E rc (widen (code_items its s))" "j < 5" "flushes (5 - j) (pending rc)" "queue_ok rc"
    "digits s + length its + 7 < 2 ^ 64" "out_pos \<le> out_size" "out_size \<le> length out" "m = store (code_items its s)"
  shows "\<exists>bs. out' = memcpy out out_pos bs \<and> out_pos' = out_pos + length bs \<and> out_pos' \<le> out_size
     \<and> (if full then finishing (E @ bs) rc' m s its else finished (E @ bs) rc' m s its)"
proof -
  let ?rc = "rc\<lparr>rc_range := 0xFFFFFFFF\<rparr>" and ?s = "widen (code_items its s)"
  have len: "length (pending rc) = 5 - j" using assms(4) unfolding flushes_def by (metis length_map length_replicate)
  have cnt: "rc_count ?rc = rc_pos ?rc + (5 - j)" using len assms(3,5) by (simp add: queue_ok_def)
  have fl: "flushing j E ?rc ?s" using assms(2) by (simp add: flushing_def carry_def)
  have dg: "digits ?s + 6 < 2 ^ 64" using digits_code_items [of its s] assms(6) by (simp add: widen_def)
  from flush_out_flushes [OF assms(1) fl assms(3) cnt dg assms(7,8)] obtain bs where
    bs: "out' = memcpy out out_pos bs" "out_pos' = out_pos + length bs" "out_pos' \<le> out_size"
    and r: "if full then (\<exists>j'<5. flushing j' (E @ bs) rc' ?s \<and> rc_count rc' = rc_count ?rc \<and> rc_count ?rc = rc_pos rc' + (5 - j')
            \<and> j \<le> j' \<and> rc_symbols rc' = rc_symbols ?rc \<and> rc_probs rc' = rc_probs ?rc \<and> rc_range rc' = rc_range ?rc)
        else be (E @ bs) = base ?s \<and> length (E @ bs) = digits ?s + 4 \<and> rc_count rc' = 0 \<and> rc_pos rc' = 0" by blast
  have "flushes (5 - j') (pending rc')"
    if j': "rc_count rc' = rc_count rc" "rc_count rc = rc_pos rc' + (5 - j')" "j \<le> j'" "j' < 5"
      "rc_symbols rc' = rc_symbols rc" "rc_probs rc' = rc_probs rc" for j'
  proof -
    have "rc_pos rc' = rc_pos rc + (j' - j)" using j' cnt by simp
    then have "pending rc' = drop (j' - j) (pending rc)" using j'(1,5,6) by (simp add: pending_def drop_map)
    then show ?thesis using assms(4) j'(3,4) by (simp add: flushes_def drop_map [symmetric])
  qed
  note fl' = this
  have "if full then finishing (E @ bs) rc' m s its else finished (E @ bs) rc' m s its"
  proof (cases full)
    case True
    then obtain j' where "j' < 5" "flushing j' (E @ bs) rc' ?s" "rc_count rc' = rc_count rc" "rc_count rc = rc_pos rc' + (5 - j')"
      "j \<le> j'" "rc_symbols rc' = rc_symbols rc" "rc_probs rc' = rc_probs rc" "rc_range rc' = 0xFFFFFFFF" using r by auto
    then have "finishing (E @ bs) rc' m s its"
      using fl' [of j'] assms(5,9) unfolding finishing_def queue_ok_def by auto
    then show ?thesis using True by simp
  qed (use r assms(9) in \<open>simp add: finished_def\<close>)
  then show ?thesis using bs by blast
qed

lemma rc_encode_coding:
  assumes "rc_encode rc m out out_pos out_size = (full, rc', m', out', out_pos')" "coding E rc m s its fl" "interval_ok s"
    "digits s + length its + 7 < 2 ^ 64" "out_pos \<le> out_size" "out_size \<le> length out"
  shows "\<exists>bs. out' = memcpy out out_pos bs \<and> out_pos' = out_pos + length bs \<and> out_pos' \<le> out_size
     \<and> (if full then coding (E @ bs) rc' m' s its fl \<or> fl \<and> finishing (E @ bs) rc' m' s its
        else if fl then finished (E @ bs) rc' m' s its else coding (E @ bs) rc' m' s its fl \<and> pending rc' = [])"
  using assms
proof (induction rc m out out_pos out_size arbitrary: E rule: rc_encode.induct)
  case (1 rc m out out_pos out_size)
  obtain coded ps qs where q: "queue_ok rc" "its = coded @ items_of ps" "pending rc = ps @ qs" "\<forall>(v, p)\<in>set ps. v \<noteq> RC_FLUSH"
    "flushes (if fl then 5 else 0) qs" and en: "encodes E rc m (code_items coded s)"
    using "1.prems"(2) unfolding coding_def by blast
  let ?s = "code_items coded s"
  have ok: "interval_ok ?s" using code_items_ok "1.prems"(3) .
  have dg: "digits ?s \<le> digits s + length its" using digits_code_items [of coded s] q(2) by simp
  then have cs: "unat (rc_cache_size rc) + 1 < 2 ^ 64" using en "1.prems"(4) by (simp add: encodes_def)
  show ?case
  proof (cases "rc_pos rc < rc_count rc")
    case False
    then have "pending rc = []" by (simp add: pending_def)
    then have e: "ps = []" "\<not> fl" using q(3,5) by (auto simp: flushes_def)
    have r: "full = False" "rc' = rc\<lparr>rc_count := 0, rc_pos := 0\<rparr>" "m' = m" "out' = out" "out_pos' = out_pos"
      using "1.prems"(1) False by (simp_all add: rc_encode.simps [of rc])
    have "encodes E rc' m' ?s" using en encodes_cong [of rc' rc] r(2,3) by simp
    moreover have "pending rc' = []" "queue_ok rc'" using r(2) q(1) by (simp_all add: pending_def queue_ok_def)
    ultimately have "coding E rc' m' s its fl" "pending rc' = []" using q(2,5) e unfolding coding_def
      by (auto simp: items_of_def flushes_def)
    then show ?thesis using r "1.prems"(5) e by (intro exI [of _ "[]"]) simp
  next
    case lt: True
    obtain f r o1 p where nm: "encode_normalize rc out out_pos out_size = (f, r, o1, p)" by (metis prod_cases4)
    note fields = encode_normalize_fields [OF nm]
    have pr: "pending r = pending rc" using fields by (intro pending_cong) simp_all
    from encode_normalize_encodes [OF nm en ok cs "1.prems"(5,6)] obtain bs where
      bs: "o1 = memcpy out out_pos bs" "p = out_pos + length bs" "p \<le> out_size"
      and en': "encodes (E @ bs) r m (if f then ?s else widen ?s)" by blast
    have len: "out_size \<le> length o1" using bs "1.prems"(6) by simp
    have qr: "queue_ok r" using q(1) fields by (simp add: queue_ok_def)
    show ?thesis
    proof (cases f)
      case True
      then have "full = True" "rc' = r" "m' = m" "out' = o1" "out_pos' = p"
        using "1.prems"(1) lt nm by (simp_all add: rc_encode.simps [of rc])
      moreover have "coding (E @ bs) r m s its fl"
        using codingI [OF qr q(2) trans [OF pr q(3)] q(4,5)] en' unfolding if_P [OF True] .
      ultimately show ?thesis using bs by (intro exI [of _ bs]) simp
    next
      case nf: False
      have w: "interval_ok (widen ?s)" "2 ^ 24 \<le> width (widen ?s)" using widen_ok [OF ok] by auto
      show ?thesis
      proof (cases ps)
        case Nil
        then have fl: "fl" "flushes 5 (pending r)" "coded = its"
          using q lt pr by (auto simp: flushes_def pending_def items_of_def split: if_splits)
        then have "map fst (pending r) = replicate 5 RC_FLUSH" by (simp add: flushes_def)
        then have "rc_symbols r ! rc_pos r = RC_FLUSH"
          using pending_Cons [of r] fields lt by (simp add: numeral_eq_Suc)
        then have fo: "flush_out (r\<lparr>rc_range := 0xFFFFFFFF\<rparr>) o1 p out_size = (full, rc', out', out_pos')" "m' = m"
          using "1.prems"(1) lt nm nf by (auto simp: rc_encode.simps [of rc] split: prod.splits)
        have "flushing 0 (E @ bs) r (widen (code_items its s))"
          using en' nf fl(3) encodes_carry [of "E @ bs" r m "widen ?s"] w(1) by (simp add: flushing_def encodes_def)
        moreover have "m = store (code_items its s)" using en fl(3) by (simp add: encodes_def)
        ultimately obtain cs where "out' = memcpy o1 p cs" "out_pos' = p + length cs" "out_pos' \<le> out_size"
          "if full then finishing ((E @ bs) @ cs) rc' m s its else finished ((E @ bs) @ cs) rc' m s its"
          using flush_out_finishes [OF fo(1), of 0 "E @ bs" its s m] fl(2) qr "1.prems"(4) bs(3) len by auto
        then show ?thesis using bs fl(1) fo(2) "1.prems"(5,6)
          by (intro exI [of _ "bs @ cs"]) (simp add: memcpy_append split: if_splits)
      next
        case (Cons vp ps')
        obtain v pp where vp: "vp = (v, pp)" by (cases vp)
        have head: "rc_symbols r ! rc_pos r = v" "rc_probs r ! rc_pos r = pp" "pending (r\<lparr>rc_pos := rc_pos r + 1\<rparr>) = ps' @ qs"
          using pending_Cons [of r] fields lt pr q(3) Cons vp by auto
        have v: "v \<noteq> RC_FLUSH" using q(4) Cons vp by auto
        obtain r2 m2 where es: "rc_encode_symbol v pp r m = (r2, m2)" by fastforce
        let ?r = "r2\<lparr>rc_pos := rc_pos r2 + 1\<rparr>"
        note f2 = rc_encode_symbol_fields [OF es]
        have "encodes (E @ bs) r2 m2 (narrow (item_of v pp) (widen ?s))"
          using rc_encode_symbol_encodes [OF es v] en' nf w by simp
        moreover have "narrow (item_of v pp) (widen ?s) = code_items (coded @ [item_of v pp]) s"
          by (simp add: code_items_def code_item_def)
        ultimately have en2: "encodes (E @ bs) ?r m2 (code_items (coded @ [item_of v pp]) s)"
          using encodes_cong [of ?r r2] by simp
        have q1: "pending ?r = ps' @ qs" using head(3) f2 by (simp add: pending_def)
        have q2: "queue_ok ?r" using qr f2 fields lt by (simp add: queue_ok_def)
        have q3: "its = (coded @ [item_of v pp]) @ items_of ps'" using q(2) Cons vp by (simp add: items_of_def)
        have q4: "\<forall>(v, p)\<in>set ps'. v \<noteq> RC_FLUSH" using q(4) Cons by simp
        have cd: "coding (E @ bs) ?r m2 s its fl" by (rule codingI [OF q2 q3 q1 q4 q(5) en2])
        have run: "rc_encode ?r m2 o1 p out_size = (full, rc', m', out', out_pos')"
          using "1.prems"(1) lt nm nf head es v by (simp add: rc_encode.simps [of rc])
        have f0: "f = False" using nf by simp
        have hs: "rc_symbols r ! rc_pos r \<noteq> RC_FLUSH" using head v by simp
        have es': "(r2, m2) = rc_encode_symbol (rc_symbols r ! rc_pos r) (rc_probs r ! rc_pos r) r m" using es head by simp
        from "1.IH" [OF _ nm [symmetric] f0 refl refl hs es' run cd "1.prems"(3,4) bs(3) len] lt obtain cs where
          cs: "out' = memcpy o1 p cs" "out_pos' = p + length cs" "out_pos' \<le> out_size"
          and res: "if full then coding ((E @ bs) @ cs) rc' m' s its fl \<or> fl \<and> finishing ((E @ bs) @ cs) rc' m' s its
           else if fl then finished ((E @ bs) @ cs) rc' m' s its else coding ((E @ bs) @ cs) rc' m' s its fl \<and> pending rc' = []"
          by blast
        have "out' = memcpy out out_pos (bs @ cs) \<and> out_pos' = out_pos + length (bs @ cs) \<and> out_pos' \<le> out_size"
          using cs bs "1.prems"(5,6) by (simp add: memcpy_append)
        then show ?thesis using res unfolding append_assoc by blast
      qed
    qed
  qed
qed

lemma rc_encode_finishing:
  assumes "rc_encode rc m out out_pos out_size = (full, rc', m', out', out_pos')" "finishing E rc m s its"
    "digits s + length its + 7 < 2 ^ 64" "out_pos \<le> out_size" "out_size \<le> length out"
  shows "\<exists>bs. out' = memcpy out out_pos bs \<and> out_pos' = out_pos + length bs \<and> out_pos' \<le> out_size
     \<and> (if full then finishing (E @ bs) rc' m' s its else finished (E @ bs) rc' m' s its)"
proof -
  obtain j where j: "j < 5" "flushes (5 - j) (pending rc)" "flushing j E rc (widen (code_items its s))"
    and f: "queue_ok rc" "m = store (code_items its s)" "rc_range rc = 0xFFFFFFFF"
    using assms(2) unfolding finishing_def by blast
  have "length (pending rc) = 5 - j" using j(2) unfolding flushes_def by (metis length_map length_replicate)
  then have lt: "rc_pos rc < rc_count rc" using j(1) by simp
  obtain k where "5 - j = Suc k" using j(1) by (metis Suc_diff_Suc)
  then have sym: "rc_symbols rc ! rc_pos rc = RC_FLUSH"
    using j(2) pending_Cons [OF lt] by (simp add: flushes_def)
  have "encode_normalize rc out out_pos out_size = (False, rc, out, out_pos)"
    using f(3) by (simp add: encode_normalize_def RC_TOP_VALUE_def)
  then have fo: "flush_out (rc\<lparr>rc_range := 0xFFFFFFFF\<rparr>) out out_pos out_size = (full, rc', out', out_pos')" and m: "m' = m"
    using assms(1) lt sym by (auto simp: rc_encode.simps [of rc] split: prod.splits)
  show ?thesis unfolding m by (rule flush_out_finishes [OF fo j(3,1,2) f(1) assms(3-5) f(2)])
qed

text \<open>What putting symbols into the queue does.\<close>

definition queues :: "lzma_range_encoder \<Rightarrow> (rc_symbol \<times> nat) list \<Rightarrow> lzma_range_encoder \<Rightarrow> bool" where
  "queues rc ps rc' \<longleftrightarrow> pending rc' = pending rc @ ps \<and> queue_ok rc' \<and> (\<forall>E m s. encodes E rc' m s = encodes E rc m s)"

lemma queues_trans: "queues rc ps rc1 \<Longrightarrow> queues rc1 qs rc2 \<Longrightarrow> queues rc (ps @ qs) rc2"
  by (simp add: queues_def)

lemma rc_store_queues:
  assumes "rc_store rc v prob = Some rc'" "queue_ok rc"
  shows "\<exists>sym p. rc_symbol_of v = Some sym \<and> queues rc [(sym, p)] rc' \<and> (\<forall>a. prob = Some a \<longrightarrow> p = a)"
proof -
  obtain sym where sym: "rc_symbol_of v = Some sym" and lt: "rc_count rc < RC_SYMBOLS_MAX"
    and rc': "rc' = rc\<lparr>rc_symbols := (rc_symbols rc)[rc_count rc := sym],
       rc_probs := (case prob of None \<Rightarrow> rc_probs rc | Some p \<Rightarrow> (rc_probs rc)[rc_count rc := p]), rc_count := rc_count rc + 1\<rparr>"
    using assms(1) by (auto simp: rc_store_def split: if_splits)
  have q: "length (rc_symbols rc) = RC_SYMBOLS_MAX" "length (rc_probs rc) = RC_SYMBOLS_MAX" "rc_pos rc \<le> rc_count rc"
    using assms(2) by (simp_all add: queue_ok_def)
  let ?p = "rc_probs rc' ! rc_count rc"
  have "pending rc' = pending rc @ [(sym, ?p)]"
    using q lt unfolding pending_def rc' by (auto split: option.splits)
  moreover have "queue_ok rc'" using q rc' by (simp add: queue_ok_def split: option.splits)
  moreover have "encodes E rc' m s = encodes E rc m s" for E m s by (rule encodes_cong) (simp_all add: rc')
  ultimately have "queues rc [(sym, ?p)] rc'" by (simp add: queues_def)
  moreover have "?p = a" if "prob = Some a" for a using that rc' q lt by simp
  ultimately show ?thesis using sym by blast
qed

lemma coding_queues:
  assumes "coding E rc m s its False" "queues rc ps rc'" "\<forall>(v, p)\<in>set ps. v \<noteq> RC_FLUSH"
  shows "coding E rc' m s (its @ items_of ps) False"
proof -
  obtain coded ps0 qs where c: "its = coded @ items_of ps0" "pending rc = ps0 @ qs" "\<forall>(v, p)\<in>set ps0. v \<noteq> RC_FLUSH"
    "flushes 0 qs" "encodes E rc m (code_items coded s)"
    using assms(1) unfolding coding_def by auto
  have "qs = []" using c(4) by (simp add: flushes_def)
  then have "pending rc' = (ps0 @ ps) @ []" using c(2) assms(2) by (simp add: queues_def)
  moreover have "its @ items_of ps = coded @ items_of (ps0 @ ps)" using c(1) by (simp add: items_of_def)
  ultimately show ?thesis
    using assms(2,3) c(3,5) by (intro codingI [where coded = coded and ps = "ps0 @ ps" and qs = "[]"]) (auto simp: queues_def flushes_def)
qed

section \<open>What the callers put into the queue\<close>

lemma and_1_of_bool: "drop_bit n (x :: u32) AND 1 = of_bool (bit x n)"
  by (simp add: bit_iff_odd_drop_bit and_one_eq mod_2_eq_odd)

definition plain :: "(rc_symbol \<times> nat) list \<Rightarrow> bool" where
  "plain ps \<longleftrightarrow> (\<forall>(v, p)\<in>set ps. v \<noteq> RC_FLUSH)"

lemma rc_bit_queues:
  assumes "rc_bit rc p (of_bool b) = Some rc'" "queue_ok rc"
  shows "\<exists>ps. queues rc ps rc' \<and> plain ps \<and> items_of ps = [Bit p b]"
  using rc_store_queues [OF assms(1) [unfolded rc_bit_def] assms(2)]
  by (cases b) (auto simp: rc_symbol_of_def plain_def items_of_def item_of_def)

lemma rc_bittree_queues:
  "rc_bittree_loop rc probs n symbol mi = Some rc' \<Longrightarrow> queue_ok rc
   \<Longrightarrow> \<exists>ps. queues rc ps rc' \<and> plain ps \<and> items_of ps = tree_items probs n symbol mi"
proof (induction n arbitrary: rc mi)
  case 0
  then show ?case by (intro exI [of _ "[]"]) (simp add: queues_def plain_def items_of_def)
next
  case (Suc n)
  obtain rc1 where 1: "rc_bit rc (probs + unat mi) (of_bool (bit symbol n)) = Some rc1"
    and 2: "rc_bittree_loop rc1 probs n symbol (push_bit 1 mi + of_bool (bit symbol n)) = Some rc'"
    using Suc.prems(1) by (auto simp: Let_def and_1_of_bool bind_eq_Some_conv)
  obtain ps where ps: "queues rc ps rc1" "plain ps" "items_of ps = [Bit (probs + unat mi) (bit symbol n)]"
    using rc_bit_queues [OF 1 Suc.prems(2)] by blast
  moreover obtain qs where "queues rc1 qs rc'" "plain qs"
    "items_of qs = tree_items probs n symbol (push_bit 1 mi + of_bool (bit symbol n))"
    using Suc.IH [OF 2] ps(1) by (auto simp: queues_def)
  ultimately show ?case
    by (intro exI [of _ "ps @ qs"]) (auto simp: items_of_def plain_def intro: queues_trans)
qed

lemma rc_bittree_reverse_queues:
  "rc_bittree_reverse_loop rc probs n symbol mi = Some rc' \<Longrightarrow> queue_ok rc
   \<Longrightarrow> \<exists>ps. queues rc ps rc' \<and> plain ps \<and> items_of ps = reverse_items probs n symbol mi"
proof (induction n arbitrary: rc mi symbol)
  case 0
  then show ?case by (intro exI [of _ "[]"]) (simp add: queues_def plain_def items_of_def)
next
  case (Suc n)
  obtain rc1 where 1: "rc_bit rc (probs + unat mi) (of_bool (bit symbol 0)) = Some rc1"
    and 2: "rc_bittree_reverse_loop rc1 probs n (drop_bit 1 symbol) (push_bit 1 mi + of_bool (bit symbol 0)) = Some rc'"
    using Suc.prems(1) and_1_of_bool [of 0 symbol] by (auto simp: Let_def bind_eq_Some_conv)
  obtain ps where ps: "queues rc ps rc1" "plain ps" "items_of ps = [Bit (probs + unat mi) (bit symbol 0)]"
    using rc_bit_queues [OF 1 Suc.prems(2)] by blast
  moreover obtain qs where "queues rc1 qs rc'" "plain qs"
    "items_of qs = reverse_items probs n (drop_bit 1 symbol) (push_bit 1 mi + of_bool (bit symbol 0))"
    using Suc.IH [OF 2] ps(1) by (auto simp: queues_def)
  ultimately show ?case
    by (intro exI [of _ "ps @ qs"]) (auto simp: items_of_def plain_def intro: queues_trans)
qed

lemma rc_direct_queues:
  "rc_direct_loop rc v n = Some rc' \<Longrightarrow> queue_ok rc
   \<Longrightarrow> \<exists>ps. queues rc ps rc' \<and> plain ps \<and> items_of ps = direct_items n v"
proof (induction n arbitrary: rc)
  case 0
  then show ?case by (intro exI [of _ "[]"]) (simp add: queues_def plain_def items_of_def)
next
  case (Suc n)
  obtain rc1 where 1: "rc_store rc (2 + of_bool (bit v n)) None = Some rc1" and 2: "rc_direct_loop rc1 v n = Some rc'"
    using Suc.prems(1) by (auto simp: and_1_of_bool bind_eq_Some_conv)
  obtain ps where ps: "queues rc ps rc1" "plain ps" "items_of ps = [Direct (bit v n)]"
    using rc_store_queues [OF 1 Suc.prems(2)]
    by (cases "bit v n") (auto simp: rc_symbol_of_def plain_def items_of_def item_of_def)
  moreover obtain qs where "queues rc1 qs rc'" "plain qs" "items_of qs = direct_items n v"
    using Suc.IH [OF 2] ps(1) by (auto simp: queues_def)
  ultimately show ?case
    by (intro exI [of _ "ps @ qs"]) (auto simp: items_of_def plain_def intro: queues_trans)
qed

lemma rc_flush_queues:
  "rc_flush_loop n rc = Some rc' \<Longrightarrow> queue_ok rc \<Longrightarrow> \<exists>qs. queues rc qs rc' \<and> flushes n qs"
proof (induction n arbitrary: rc)
  case 0
  then show ?case by (intro exI [of _ "[]"]) (simp add: queues_def flushes_def)
next
  case (Suc n)
  obtain rc1 where 1: "rc_store rc 4 None = Some rc1" and 2: "rc_flush_loop n rc1 = Some rc'"
    using Suc.prems(1) by (auto simp: bind_eq_Some_conv)
  obtain p where p: "queues rc [(RC_FLUSH, p)] rc1"
    using rc_store_queues [OF 1 Suc.prems(2)] by (auto simp: rc_symbol_of_def)
  moreover obtain qs where "queues rc1 qs rc'" "flushes n qs" using Suc.IH [OF 2] p by (auto simp: queues_def)
  ultimately show ?case
    using queues_trans by (intro exI [of _ "(RC_FLUSH, p) # qs"]) (fastforce simp: flushes_def)
qed

lemma coding_flush:
  assumes "coding E rc m s its False" "rc_flush rc = Some rc'" shows "coding E rc' m s its True"
proof -
  obtain coded ps where c: "queue_ok rc" "its = coded @ items_of ps" "pending rc = ps" "\<forall>(v, p)\<in>set ps. v \<noteq> RC_FLUSH"
    "encodes E rc m (code_items coded s)"
    using assms(1) unfolding coding_def by (auto simp: flushes_def)
  obtain qs where "queues rc qs rc'" "flushes 5 qs" using rc_flush_queues assms(2) c(1) by (metis rc_flush_def)
  then show ?thesis using c by (intro codingI [where coded = coded and ps = ps and qs = qs]) (auto simp: queues_def)
qed

section \<open>Runs of the encoder\<close>

text \<open>
  A run of the encoder from its reset on: symbols are put into the queue and calls of
  \<open>rc_encode\<close> write to output buffers, in any order and with buffers of any size. The run
  keeps the items that were put into the queue, whether the flush was, and all bytes that
  were written.
\<close>

inductive rc_run :: "prob_store \<Rightarrow> item list \<Rightarrow> bool \<Rightarrow> byte list \<Rightarrow> lzma_range_encoder \<Rightarrow> prob_store \<Rightarrow> bool" for m0 where
  run_reset: "length (rc_symbols rc) = RC_SYMBOLS_MAX \<Longrightarrow> length (rc_probs rc) = RC_SYMBOLS_MAX
      \<Longrightarrow> rc_run m0 [] False [] (rc_reset rc) m0"
| run_bit: "rc_run m0 its False E rc m \<Longrightarrow> rc_bit rc p (of_bool b) = Some rc' \<Longrightarrow> rc_run m0 (its @ [Bit p b]) False E rc' m"
| run_bittree: "rc_run m0 its False E rc m \<Longrightarrow> rc_bittree rc probs n symbol = Some rc'
      \<Longrightarrow> rc_run m0 (its @ tree_items probs n symbol 1) False E rc' m"
| run_reverse: "rc_run m0 its False E rc m \<Longrightarrow> rc_bittree_reverse rc probs n symbol = Some rc'
      \<Longrightarrow> rc_run m0 (its @ reverse_items probs n symbol 1) False E rc' m"
| run_direct: "rc_run m0 its False E rc m \<Longrightarrow> rc_direct rc v n = Some rc'
      \<Longrightarrow> rc_run m0 (its @ direct_items n v) False E rc' m"
| run_flush: "rc_run m0 its False E rc m \<Longrightarrow> rc_flush rc = Some rc' \<Longrightarrow> rc_run m0 its True E rc' m"
| run_encode: "rc_run m0 its fl E rc m \<Longrightarrow> out_pos \<le> out_size \<Longrightarrow> out_size \<le> length out
      \<Longrightarrow> rc_encode rc m out out_pos out_size = (full, rc', m', out', out_pos')
      \<Longrightarrow> rc_run m0 its fl (E @ bytes_at out' out_pos (out_pos' - out_pos)) rc' m'"

lemma coding_start:
  assumes "length (rc_symbols rc) = RC_SYMBOLS_MAX" "length (rc_probs rc) = RC_SYMBOLS_MAX"
  shows "coding [] (rc_reset rc) m0 (start m0) [] False"
proof -
  have "encodes [] (rc_reset rc) m0 (start m0)"
    by (simp add: encodes_def rc_reset_def start_def rc_value_def held_def carry_def headroom_def)
  then show ?thesis using assms
    by (intro codingI [where coded = "[]" and ps = "[]" and qs = "[]"])
      (simp_all add: rc_reset_def queue_ok_def pending_def items_of_def flushes_def code_items_def)
qed

lemma coding_queue_ok: "coding E rc m s its fl \<Longrightarrow> queue_ok rc"
  by (simp add: coding_def)

lemma rc_run_coding:
  assumes "rc_run m0 its fl E rc m" "probs_ok m0" "length its + 8 < 2 ^ 64"
  shows "coding E rc m (start m0) its fl \<or> fl \<and> (finishing E rc m (start m0) its \<or> finished E rc m (start m0) its)"
  using assms
proof (induction rule: rc_run.induct)
  case (run_reset rc)
  then show ?case using coding_start by simp
next
  case (run_bit its E rc m p b rc')
  then have c: "coding E rc m (start m0) its False" by simp
  obtain ps where "queues rc ps rc'" "plain ps" "items_of ps = [Bit p b]"
    using rc_bit_queues [OF run_bit.hyps(2) coding_queue_ok [OF c]] by blast
  then show ?case using coding_queues [OF c, of ps rc'] by (simp add: plain_def)
next
  case (run_bittree its E rc m probs n symbol rc')
  then have c: "coding E rc m (start m0) its False" by simp
  have l: "rc_bittree_loop rc probs n symbol 1 = Some rc'" using run_bittree.hyps(2) by (simp add: rc_bittree_def split: if_splits)
  obtain ps where "queues rc ps rc'" "plain ps" "items_of ps = tree_items probs n symbol 1"
    using rc_bittree_queues [OF l coding_queue_ok [OF c]] by blast
  then show ?case using coding_queues [OF c, of ps rc'] by (simp add: plain_def)
next
  case (run_reverse its E rc m probs n symbol rc')
  then have c: "coding E rc m (start m0) its False" by simp
  have l: "rc_bittree_reverse_loop rc probs n symbol 1 = Some rc'" using run_reverse.hyps(2) by (simp add: rc_bittree_reverse_def split: if_splits)
  obtain ps where "queues rc ps rc'" "plain ps" "items_of ps = reverse_items probs n symbol 1"
    using rc_bittree_reverse_queues [OF l coding_queue_ok [OF c]] by blast
  then show ?case using coding_queues [OF c, of ps rc'] by (simp add: plain_def)
next
  case (run_direct its E rc m v n rc')
  then have c: "coding E rc m (start m0) its False" by simp
  have l: "rc_direct_loop rc v n = Some rc'" using run_direct.hyps(2) by (simp add: rc_direct_def split: if_splits)
  obtain ps where "queues rc ps rc'" "plain ps" "items_of ps = direct_items n v"
    using rc_direct_queues [OF l coding_queue_ok [OF c]] by blast
  then show ?case using coding_queues [OF c, of ps rc'] by (simp add: plain_def)
next
  case (run_flush its E rc m rc')
  then show ?case using coding_flush by auto
next
  case (run_encode its fl E rc m out_pos out_size out full rc' m' out' out_pos')
  have d: "digits (start m0) + length its + 7 < 2 ^ 64" using run_encode.prems(2) by (simp add: start_def)
  have written: "bytes_at out' out_pos (out_pos' - out_pos) = bs"
    if "out' = memcpy out out_pos bs" "out_pos' = out_pos + length bs" "out_pos' \<le> out_size" for bs
    using that run_encode.hyps(3) by (simp add: bytes_at_memcpy)
  from run_encode.IH [OF run_encode.prems] consider "coding E rc m (start m0) its fl" | "fl" "finishing E rc m (start m0) its"
    | "fl" "finished E rc m (start m0) its" by blast
  then show ?case
  proof cases
    case 1
    then show ?thesis
      using rc_encode_coding [OF run_encode.hyps(4) 1 start_ok [OF run_encode.prems(1)] d run_encode.hyps(2,3)] written
      by (metis (no_types, lifting))
  next
    case 2
    then show ?thesis using rc_encode_finishing [OF run_encode.hyps(4) 2(2) d run_encode.hyps(2,3)] written
      by (metis (no_types, lifting))
  next
    case 3
    then have "rc' = rc\<lparr>rc_count := 0, rc_pos := 0\<rparr>" "m' = m" "out_pos' = out_pos"
      using run_encode.hyps(4) by (auto simp: rc_encode.simps [of rc] finished_def)
    then show ?thesis using 3 by (simp add: finished_def)
  qed
qed

end
