(* ===== verification/Lzma_Rc_Decoder.thy ===== *)
theory Lzma_Rc_Decoder
  imports Lzma_Rc "HOL-Library.Monad_Syntax"
begin

text \<open>
  The range decoder of LZMA (\<^verbatim>\<open>rangecoder/range_decoder.h\<close> of liblzma): bits, bit trees and
  direct bits, in the plain and in the branchless form. The macros work on the decoder, the
  store of probabilities and the position in the input, here one state that is passed along.
  A result \<open>None\<close> says that a byte is needed and the input has ended: the resumable macros
  leave the decoder loop there, with the state unchanged, and the fast ones may be used
  only where it cannot happen.
\<close>

section \<open>The decoder\<close>

record lzma_range_decoder =
  rd_range :: u32
  rd_code :: u32
  init_bytes_left :: u32

definition rd_reset :: "lzma_range_decoder \<Rightarrow> lzma_range_decoder" where
  "rd_reset rc = rc\<lparr>rd_range := 0xFFFFFFFF, rd_code := 0, init_bytes_left := 5\<rparr>"

definition rc_is_finished :: "lzma_range_decoder \<Rightarrow> bool" where
  "rc_is_finished rc \<longleftrightarrow> rd_code rc = 0"

function rc_read_init :: "lzma_range_decoder \<Rightarrow> byte list \<Rightarrow> nat \<Rightarrow> nat \<Rightarrow> lzma_ret \<times> lzma_range_decoder \<times> nat" where
  "rc_read_init rc inb in_pos in_size =
     (if \<not> init_bytes_left rc > 0 then (LZMA_STREAM_END, rc, in_pos)
      else if in_pos = in_size then (LZMA_OK, rc, in_pos)
      else if init_bytes_left rc = 5 \<and> inb ! in_pos \<noteq> 0 then (LZMA_DATA_ERROR, rc, in_pos)
      else rc_read_init (rc\<lparr>rd_code := push_bit 8 (rd_code rc) OR ucast (inb ! in_pos),
             init_bytes_left := init_bytes_left rc - 1\<rparr>) inb (in_pos + 1) in_size)"
  by pat_completeness auto
termination
proof (relation "measure (\<lambda>(rc, inb, in_pos, in_size). unat (init_bytes_left rc))", goal_cases)
  case (2 rc inb in_pos in_size)
  have "unat (w - 1) < unat w" if "w \<noteq> 0" for w :: u32
    using that by (metis add.commute diff_add_cancel measure_unat)
  then show ?case using 2 by (simp add: word_gt_0)
qed simp

type_synonym rc_state = "lzma_range_decoder \<times> prob_store \<times> nat"

text \<open>A macro is used with the input and its size at hand.\<close>

type_synonym 'a rc_macro = "byte list \<Rightarrow> nat \<Rightarrow> rc_state \<Rightarrow> ('a \<times> rc_state) option"

definition rc_normalize :: "unit rc_macro" where
  "rc_normalize inb in_size s = (case s of (rc, m, in_pos) \<Rightarrow>
     if rd_range rc < RC_TOP_VALUE
     then if in_pos = in_size then None
          else Some ((), rc\<lparr>rd_range := push_bit RC_SHIFT_BITS (rd_range rc),
                 rd_code := push_bit RC_SHIFT_BITS (rd_code rc) OR ucast (inb ! in_pos)\<rparr>, m, in_pos + 1)
     else Some ((), s))"

definition rc_update_0 :: "u32 \<Rightarrow> nat \<Rightarrow> lzma_range_decoder \<Rightarrow> prob_store \<Rightarrow> lzma_range_decoder \<times> prob_store" where
  "rc_update_0 rc_bound prob rc m = (rc\<lparr>rd_range := rc_bound\<rparr>, m(prob := prob_update_0 (m prob)))"

definition rc_update_1 :: "u32 \<Rightarrow> nat \<Rightarrow> lzma_range_decoder \<Rightarrow> prob_store \<Rightarrow> lzma_range_decoder \<times> prob_store" where
  "rc_update_1 rc_bound prob rc m =
     (rc\<lparr>rd_range := rd_range rc - rc_bound, rd_code := rd_code rc - rc_bound\<rparr>, m(prob := prob_update_1 (m prob)))"

text \<open>One bit with its probability: \<open>rc_if_0\<close> with the two updates, whatever is done in the branches.\<close>

definition rc_bit_last :: "nat \<Rightarrow> bool rc_macro" where
  "rc_bit_last prob inb in_size s = do {
     (_, rc, m, in_pos) \<leftarrow> rc_normalize inb in_size s;
     let rc_bound = drop_bit RC_BIT_MODEL_TOTAL_BITS (rd_range rc) * ucast (m prob);
     if rd_code rc < rc_bound
     then case rc_update_0 rc_bound prob rc m of (rc, m) \<Rightarrow> Some (False, rc, m, in_pos)
     else case rc_update_1 rc_bound prob rc m of (rc, m) \<Rightarrow> Some (True, rc, m, in_pos) }"

text \<open>The branchless form, with the masks of the source.\<close>

definition rc_c_bit :: "nat \<Rightarrow> bool rc_macro" where
  "rc_c_bit prob inb in_size s = do {
     (_, rc, m, in_pos) \<leftarrow> rc_normalize inb in_size s;
     let p = m prob;
     let rc_bound = drop_bit RC_BIT_MODEL_TOTAL_BITS (rd_range rc) * ucast p;
     let bit = (if rc_bound \<le> rd_code rc then 1 else 0);
     let rc_mask = 0 - bit;
     let range = rd_range rc AND rc_mask;
     let rc_bound = (rc_bound XOR rc_mask) - rc_mask;
     let range = range + rc_bound;
     let rc_bound = rc_bound AND rc_mask;
     let code = rd_code rc + rc_bound;
     let rc_mask = NOT rc_mask AND RC_BIT_MODEL_OFFSET;
     Some (bit = 1, rc\<lparr>rd_range := range, rd_code := code\<rparr>,
       m(prob := ucast (ucast p - drop_bit RC_MOVE_BITS (ucast p + rc_mask))), in_pos) }"

section \<open>Bit trees\<close>



text \<open>\<open>rc_bit\<close> appends the bit to the symbol; the trees of 3, 6 and 8 bits repeat it.\<close>

definition rc_bit_decode :: "nat \<Rightarrow> u32 \<Rightarrow> u32 rc_macro" where
  "rc_bit_decode prob symbol inb in_size s = do {
     (b, s) \<leftarrow> rc_bit_last prob inb in_size s;
     Some (if b then push_bit 1 symbol + 1 else push_bit 1 symbol, s) }"

fun rc_bittree_bits :: "nat \<Rightarrow> nat \<Rightarrow> u32 \<Rightarrow> u32 rc_macro" where
  "rc_bittree_bits probs 0 symbol inb in_size s = Some (symbol, s)"
| "rc_bittree_bits probs (Suc n) symbol inb in_size s = do {
     (symbol, s) \<leftarrow> rc_bit_decode (probs + unat symbol) symbol inb in_size s;
     rc_bittree_bits probs n symbol inb in_size s }"

definition rc_bittree3 :: "nat \<Rightarrow> u32 \<Rightarrow> u32 rc_macro" where
  "rc_bittree3 probs final_add inb in_size s = do {
     (symbol, s) \<leftarrow> rc_bittree_bits probs 3 1 inb in_size s; Some (symbol + final_add, s) }"

definition rc_bittree6 :: "nat \<Rightarrow> u32 \<Rightarrow> u32 rc_macro" where
  "rc_bittree6 probs final_add inb in_size s = do {
     (symbol, s) \<leftarrow> rc_bittree_bits probs 6 1 inb in_size s; Some (symbol + final_add, s) }"

definition rc_bittree8 :: "nat \<Rightarrow> u32 \<Rightarrow> u32 rc_macro" where
  "rc_bittree8 probs final_add inb in_size s = do {
     (symbol, s) \<leftarrow> rc_bittree_bits probs 8 1 inb in_size s; Some (symbol + final_add, s) }"

text \<open>The reverse tree of four bits.\<close>

definition rc_rev_bit :: "nat \<Rightarrow> u32 \<Rightarrow> u32 \<Rightarrow> u32 rc_macro" where
  "rc_rev_bit probs v symbol inb in_size s = do {
     (b, s) \<leftarrow> rc_bit_last (probs + unat (symbol + v)) inb in_size s;
     Some (if b then symbol + v else symbol, s) }"

definition rc_bittree_rev4 :: "nat \<Rightarrow> u32 rc_macro" where
  "rc_bittree_rev4 probs inb in_size s = do {
     (symbol, s) \<leftarrow> rc_rev_bit probs 1 0 inb in_size s;
     (symbol, s) \<leftarrow> rc_rev_bit probs 2 symbol inb in_size s;
     (symbol, s) \<leftarrow> rc_rev_bit probs 4 symbol inb in_size s;
     rc_rev_bit probs 8 symbol inb in_size s }"

text \<open>One bit of a reverse tree of variable size, and the loop of the distances over it.\<close>

definition rc_bit_add_if_1 :: "nat \<Rightarrow> u32 \<Rightarrow> u32 \<Rightarrow> u32 \<Rightarrow> (u32 \<times> u32) rc_macro" where
  "rc_bit_add_if_1 probs symbol dest v inb in_size s = do {
     (b, s) \<leftarrow> rc_bit_last (probs + unat symbol) inb in_size s;
     Some (if b then (push_bit 1 symbol + 1, dest + v) else (push_bit 1 symbol, dest), s) }"

fun rc_reverse_bits :: "nat \<Rightarrow> nat \<Rightarrow> u32 \<Rightarrow> u32 \<Rightarrow> u32 \<Rightarrow> u32 rc_macro" where
  "rc_reverse_bits probs 0 symbol offset dest inb in_size s = Some (dest, s)"
| "rc_reverse_bits probs (Suc limit) symbol offset dest inb in_size s = do {
     ((symbol, dest), s) \<leftarrow> rc_bit_add_if_1 probs symbol dest offset inb in_size s;
     rc_reverse_bits probs limit symbol (push_bit 1 offset) dest inb in_size s }"

text \<open>Matched literals: the bits of the match byte choose the half of the tree as long as they agree.\<close>

fun rc_matched_bits :: "nat \<Rightarrow> nat \<Rightarrow> u32 \<Rightarrow> u32 \<Rightarrow> u32 \<Rightarrow> u32 rc_macro" where
  "rc_matched_bits probs 0 t_match_byte t_offset symbol inb in_size s = Some (symbol, s)"
| "rc_matched_bits probs (Suc n) t_match_byte t_offset symbol inb in_size s =
     (let t_match_byte = push_bit 1 t_match_byte;
          t_match_bit = t_match_byte AND t_offset;
          t_subcoder_index = t_offset + t_match_bit + symbol in do {
        (b, s) \<leftarrow> rc_bit_last (probs + unat t_subcoder_index) inb in_size s;
        (let symbol = (if b then push_bit 1 symbol + 1 else push_bit 1 symbol);
             t_offset = (if b then t_offset AND t_match_bit else t_offset AND NOT t_match_bit)
         in rc_matched_bits probs n t_match_byte t_offset symbol inb in_size s) })"

definition rc_matched_literal :: "nat \<Rightarrow> byte \<Rightarrow> u32 rc_macro" where
  "rc_matched_literal probs match_byte = rc_matched_bits probs 8 (ucast match_byte) 0x100 1"

section \<open>Direct bits\<close>

fun rc_direct_decode :: "nat \<Rightarrow> u32 \<Rightarrow> u32 rc_macro" where
  "rc_direct_decode 0 dest inb in_size s = Some (dest, s)"
| "rc_direct_decode (Suc count_var) dest inb in_size s = do {
     (_, rc, m, in_pos) \<leftarrow> rc_normalize inb in_size s;
     let range = drop_bit 1 (rd_range rc);
     let code = rd_code rc - range;
     let rc_bound = 0 - drop_bit 31 code;
     let code = code + (range AND rc_bound);
     let dest = push_bit 1 dest + (rc_bound + 1);
     rc_direct_decode count_var dest inb in_size (rc\<lparr>rd_range := range, rd_code := code\<rparr>, m, in_pos) }"

declare rc_read_init.simps [simp del]

section \<open>The decoder follows the interval coder\<close>

text \<open>
  The stream \<open>bs\<close> lies in the input from \<open>p0\<close> on. The decoder may keep its probabilities at
  other addresses than the encoder, \<open>\<pi>\<close> of them.
\<close>

definition stream_at :: "byte list \<Rightarrow> nat \<Rightarrow> nat \<Rightarrow> byte list \<Rightarrow> bool" where
  "stream_at inb in_size p0 bs \<longleftrightarrow> p0 + length bs \<le> in_size \<and> in_size \<le> length inb \<and> bytes_at inb p0 (length bs) = bs"

definition follows :: "(nat \<Rightarrow> nat) \<Rightarrow> nat \<Rightarrow> byte list \<Rightarrow> rc_state \<Rightarrow> interval \<Rightarrow> bool" where
  "follows \<pi> p0 bs st s \<longleftrightarrow> (case st of (rc, m, in_pos) \<Rightarrow>
     in_pos = p0 + (digits s + 4) \<and> unat (rd_code rc) + base s = be (take (digits s + 4) bs) \<and> unat (rd_range rc) = width s
     \<and> (\<forall>a. m (\<pi> a) = store s a))"

lemma stream_nth:
  assumes "stream_at inb in_size p0 bs" "i < length bs" shows "inb ! (p0 + i) = bs ! i" "p0 + i < in_size"
proof -
  have s: "bytes_at inb p0 (length bs) = bs" "p0 + i < length inb" using assms by (simp_all add: stream_at_def)
  show "inb ! (p0 + i) = bs ! i" using nth_bytes_at [OF assms(2) s(2)] unfolding s(1) by (rule sym)
  show "p0 + i < in_size" using assms by (simp add: stream_at_def)
qed

lemma inside_leading:
  assumes "inside s (be bs) (length bs)"
  shows "digits s + 4 \<le> length bs" "base s \<le> be (take (digits s + 4) bs)" "be (take (digits s + 4) bs) < base s + width s"
proof -
  show k: "digits s + 4 \<le> length bs" using assms by (simp add: inside_def)
  let ?c = "256 ^ (length bs - (digits s + 4)) :: nat"
  have "be (take (digits s + 4) bs) = be bs div ?c" using be_take [OF k] .
  moreover have "base s * ?c \<le> be bs" "be bs < (base s + width s) * ?c" using assms by (simp_all add: inside_def)
  ultimately show "base s \<le> be (take (digits s + 4) bs)" "be (take (digits s + 4) bs) < base s + width s"
    by (simp_all add: less_eq_div_iff_mult_less_eq less_mult_imp_div_less)
qed

lemma unat_shift_in:
  assumes "unat (w :: u32) < 2 ^ 24" shows "unat (push_bit 8 w OR ucast (b :: byte)) = unat w * 256 + unat b"
proof -
  have "push_bit 8 w OR ucast b = push_bit 8 w + ucast b"
    by (rule disjunctive_add [symmetric]) (auto simp: bit_simps dest: bit_imp_le_length)
  moreover have "unat (push_bit 8 w) = unat w * 256"
    using assms by (subst unsigned_push_bit_eq, subst push_bit_eq_mult) (simp add: take_bit_nat_eq_self)
  moreover have "unat (ucast b :: u32) = unat b" by (simp add: unat_ucast_up)
  moreover have "unat w * 256 + unat b < 2 ^ LENGTH(32)" using assms unat_byte_less [of b] by simp
  ultimately show ?thesis by (metis unat_add_lem)
qed

lemma rc_normalize_follows:
  assumes "follows \<pi> p0 bs st s" "stream_at inb in_size p0 bs" "interval_ok s" "inside (widen s) (be bs) (length bs)"
  obtains st' where "rc_normalize inb in_size st = Some ((), st')" "follows \<pi> p0 bs st' (widen s)"
proof -
  obtain rc m in_pos where st: "st = (rc, m, in_pos)" by (cases st)
  have f: "in_pos = p0 + (digits s + 4)" "unat (rd_code rc) + base s = be (take (digits s + 4) bs)" "unat (rd_range rc) = width s"
    "\<And>a. m (\<pi> a) = store s a"
    using assms(1) st by (simp_all add: follows_def)
  show thesis
  proof (cases "width s < 2 ^ 24")
    case False
    then have "rc_normalize inb in_size st = Some ((), st)" using st f(3)
      by (simp add: rc_normalize_def RC_TOP_VALUE_def word_less_nat_alt)
    then show thesis using that assms(1) False by (simp add: widen_def)
  next
    case True
    let ?k = "digits s + 4"
    have lt: "?k < length bs" using inside_leading(1) [OF assms(4)] True by (simp add: widen_def)
    note n = stream_nth [OF assms(2) lt]
    have "be (take ?k bs) < base s + width s" using inside_leading(3) [OF inside_widen [OF assms(4)]] .
    then have code: "unat (rd_code rc) < 2 ^ 24" using f(2) True by linarith
    let ?rc = "rc\<lparr>rd_range := push_bit 8 (rd_range rc), rd_code := push_bit 8 (rd_code rc) OR ucast (inb ! in_pos)\<rparr>"
    have "rc_normalize inb in_size st = Some ((), ?rc, m, in_pos + 1)"
      using st f(1,3) True n(2) by (simp add: rc_normalize_def RC_TOP_VALUE_def RC_SHIFT_BITS_def word_less_nat_alt)
    moreover have "unat (push_bit 8 (rd_range rc)) = 256 * width s"
      using True f(3) by (subst unsigned_push_bit_eq, subst push_bit_eq_mult) (simp add: take_bit_nat_eq_self)
    moreover have "take (Suc ?k) bs = take ?k bs @ [bs ! ?k]" using lt by (rule take_Suc_conv_app_nth)
    then have "unat (push_bit 8 (rd_code rc) OR ucast (inb ! in_pos)) + 256 * base s = be (take (Suc ?k) bs)"
      using unat_shift_in [OF code, of "inb ! in_pos"] f(1,2) n(1) by (simp del: take_Suc_conv_app_nth)
    ultimately show thesis using that [of "(?rc, m, in_pos + 1)"] True f by (simp add: follows_def widen_def)
  qed
qed

lemma rc_bit_last_follows:
  assumes "follows \<pi> p0 bs st s" "stream_at inb in_size p0 bs" "interval_ok s" "inj \<pi>"
    "inside (code_item (Bit a b) s) (be bs) (length bs)"
  obtains st' where "rc_bit_last (\<pi> a) inb in_size st = Some (b, st')" "follows \<pi> p0 bs st' (code_item (Bit a b) s)"
proof -
  let ?s = "widen s" and ?n = "narrow (Bit a b) (widen s)"
  have w: "interval_ok ?s" "2 ^ 24 \<le> width ?s" using widen_ok [OF assms(3)] by auto
  have ok: "probs_ok (store ?s)" using w(1) by (simp only: interval_ok_def)
  have inn: "inside ?n (be bs) (length bs)" using assms(5) by (simp only: code_item_def)
  obtain st1 where 1: "rc_normalize inb in_size st = Some ((), st1)" "follows \<pi> p0 bs st1 ?s"
    using rc_normalize_follows [OF assms(1-3) inside_narrow [OF w inn]] .
  obtain rc m in_pos where st1: "st1 = (rc, m, in_pos)" by (cases st1)
  have f: "in_pos = p0 + (digits ?s + 4)" "unat (rd_code rc) + base ?s = be (take (digits ?s + 4) bs)" "unat (rd_range rc) = width ?s"
    "\<And>a. m (\<pi> a) = store ?s a"
    using 1(2) st1 by (simp_all add: follows_def)
  let ?x = "drop_bit 11 (rd_range rc) * ucast (m (\<pi> a)) :: u32"
  have x: "unat ?x = bound ?s a" using bound_code(1) [OF f(3) ok w(2), of a] by (simp only: f(4))
  have d: "digits ?n = digits ?s" using narrow_ok(2) [OF w] .
  have lead: "base ?n \<le> be (take (digits ?s + 4) bs)" "be (take (digits ?s + 4) bs) < base ?n + width ?n"
    using inside_leading [OF inn] unfolding d by simp_all
  have st: "(m(\<pi> a := v)) (\<pi> c) = ((store ?s)(a := v)) c" for v c
    using assms(4) f(4) by (simp add: inj_eq)
  show thesis
  proof (cases b)
    case False
    then have lt: "unat (rd_code rc) < bound ?s a" using lead f(2) by simp
    have "rc_bit_last (\<pi> a) inb in_size st = Some (b, rc\<lparr>rd_range := ?x\<rparr>, m(\<pi> a := prob_update_0 (m (\<pi> a))), in_pos)"
      using False 1(1) st1 lt by (simp only: rc_bit_last_def rc_update_0_def RC_BIT_MODEL_TOTAL_BITS_def word_less_nat_alt x
        bind.bind_lunit case_prod_conv Let_def if_True)
    moreover have "follows \<pi> p0 bs (rc\<lparr>rd_range := ?x\<rparr>, m(\<pi> a := prob_update_0 (m (\<pi> a))), in_pos) ?n"
      using f x st False by (simp add: follows_def)
    ultimately show thesis using that by (simp only: code_item_def)
  next
    case True
    then have le: "bound ?s a \<le> unat (rd_code rc)" using lead f(2) by simp
    have "?x \<le> rd_code rc" using le x by (simp only: word_le_nat_alt)
    then have c: "unat (rd_code rc - ?x) = unat (rd_code rc) - bound ?s a" using x by (simp only: unat_sub)
    have "?x \<le> rd_range rc" using bound_bounds(2) [OF ok w(2), of a] f(3) x by (simp only: word_le_nat_alt)
    then have r: "unat (rd_range rc - ?x) = width ?s - bound ?s a" using x f(3) by (simp only: unat_sub)
    let ?rc = "rc\<lparr>rd_range := rd_range rc - ?x, rd_code := rd_code rc - ?x\<rparr>"
    have "rc_bit_last (\<pi> a) inb in_size st = Some (b, ?rc, m(\<pi> a := prob_update_1 (m (\<pi> a))), in_pos)"
      using True 1(1) st1 le by (simp only: rc_bit_last_def rc_update_1_def RC_BIT_MODEL_TOTAL_BITS_def word_less_nat_alt x
        bind.bind_lunit case_prod_conv Let_def not_less [symmetric] if_False)
    moreover have "follows \<pi> p0 bs (?rc, m(\<pi> a := prob_update_1 (m (\<pi> a))), in_pos) ?n"
      using f c r le st True by (simp add: follows_def)
    ultimately show thesis using that by (simp only: code_item_def)
  qed
qed

section \<open>Sequences of bits\<close>

lemma code_items_Cons: "code_items (it # its) s = code_items its (code_item it s)"
  by (simp add: code_items_def)

lemma inside_first:
  "interval_ok s \<Longrightarrow> inside (code_items (it # its) s) v k \<Longrightarrow> inside (code_item it s) v k"
  unfolding code_items_Cons using inside_code_items code_item_ok by blast

definition fixes_items :: "(nat \<Rightarrow> nat) \<Rightarrow> item list \<Rightarrow> bool" where
  "fixes_items \<pi> its \<longleftrightarrow> (\<forall>a b. Bit a b \<in> set its \<longrightarrow> \<pi> a = a)"

lemma take_bit_top: "take_bit (Suc n) (v :: u32) = push_bit n (of_bool (bit v n)) + take_bit n v"
proof -
  have "push_bit n (of_bool (bit v n)) + take_bit n v = push_bit n (of_bool (bit v n)) OR take_bit n v"
    by (rule disjunctive_add) (auto simp: bit_simps)
  also have "\<dots> = take_bit (Suc n) v"
    by (rule bit_word_eqI) (auto simp: bit_simps bit_1_iff less_Suc_eq)
  finally show ?thesis by simp
qed

lemma take_bit_step: "push_bit n (push_bit 1 x + of_bool (bit v n)) + take_bit n v = push_bit (Suc n) x + take_bit (Suc n) (v :: u32)"
  by (simp add: take_bit_top push_bit_add push_bit_eq_mult algebra_simps)

lemma rc_bittree_bits_follows:
  assumes "follows \<pi> p0 bs st s" "stream_at inb in_size p0 bs" "interval_ok s" "inj \<pi>"
    "fixes_items \<pi> (tree_items probs n v symbol)" "inside (code_items (tree_items probs n v symbol) s) (be bs) (length bs)"
  shows "\<exists>st'. rc_bittree_bits probs n symbol inb in_size st = Some (push_bit n symbol + take_bit n v, st')
     \<and> follows \<pi> p0 bs st' (code_items (tree_items probs n v symbol) s)"
  using assms
proof (induction n arbitrary: symbol st s)
  case 0
  then show ?case by (simp add: code_items_def)
next
  case (Suc n)
  let ?b = "bit v n" and ?a = "probs + unat symbol"
  let ?sym = "push_bit 1 symbol + of_bool ?b"
  obtain st1 where 1: "rc_bit_last (\<pi> ?a) inb in_size st = Some (?b, st1)" "follows \<pi> p0 bs st1 (code_item (Bit ?a ?b) s)"
    using rc_bit_last_follows [OF Suc.prems(1-4) inside_first [OF Suc.prems(3) Suc.prems(6) [unfolded tree_items.simps]]] .
  have "\<pi> ?a = ?a" using Suc.prems(5) by (auto simp: fixes_items_def)
  then have "rc_bit_decode ?a symbol inb in_size st = Some (?sym, st1)" using 1(1) by (simp add: rc_bit_decode_def)
  moreover have "fixes_items \<pi> (tree_items probs n v ?sym)" using Suc.prems(5) by (simp add: fixes_items_def)
  then obtain st2 where "rc_bittree_bits probs n ?sym inb in_size st1 = Some (push_bit n ?sym + take_bit n v, st2)"
      "follows \<pi> p0 bs st2 (code_items (tree_items probs n v ?sym) (code_item (Bit ?a ?b) s))"
    using Suc.IH [OF 1(2) Suc.prems(2) code_item_ok [OF Suc.prems(3)] Suc.prems(4), of ?sym] Suc.prems(6)
    unfolding tree_items.simps code_items_Cons by blast
  ultimately show ?case
    unfolding tree_items.simps code_items_Cons rc_bittree_bits.simps take_bit_step [symmetric] by simp
qed

lemma rc_reverse_bits_follows:
  assumes "follows \<pi> p0 bs st s" "stream_at inb in_size p0 bs" "interval_ok s" "inj \<pi>"
    "fixes_items \<pi> (reverse_items probs n v symbol)" "inside (code_items (reverse_items probs n v symbol) s) (be bs) (length bs)"
  shows "\<exists>st'. rc_reverse_bits probs n symbol offset dest inb in_size st = Some (dest + offset * take_bit n v, st')
     \<and> follows \<pi> p0 bs st' (code_items (reverse_items probs n v symbol) s)"
  using assms
proof (induction n arbitrary: symbol offset dest v st s)
  case 0
  then show ?case by (simp add: code_items_def)
next
  case (Suc n)
  let ?b = "bit v 0" and ?a = "probs + unat symbol"
  let ?sym = "push_bit 1 symbol + of_bool ?b" and ?d = "dest + offset * of_bool ?b"
  obtain st1 where 1: "rc_bit_last (\<pi> ?a) inb in_size st = Some (?b, st1)" "follows \<pi> p0 bs st1 (code_item (Bit ?a ?b) s)"
    using rc_bit_last_follows [OF Suc.prems(1-4) inside_first [OF Suc.prems(3) Suc.prems(6) [unfolded reverse_items.simps]]] .
  have "\<pi> ?a = ?a" using Suc.prems(5) by (auto simp: fixes_items_def)
  then have step: "rc_bit_add_if_1 probs symbol dest offset inb in_size st = Some ((?sym, ?d), st1)"
    using 1(1) by (simp add: rc_bit_add_if_1_def)
  have "fixes_items \<pi> (reverse_items probs n (drop_bit 1 v) ?sym)" using Suc.prems(5) by (simp add: fixes_items_def)
  then obtain st2 where 2: "rc_reverse_bits probs n ?sym (push_bit 1 offset) ?d inb in_size st1
      = Some (?d + push_bit 1 offset * take_bit n (drop_bit 1 v), st2)"
      "follows \<pi> p0 bs st2 (code_items (reverse_items probs n (drop_bit 1 v) ?sym) (code_item (Bit ?a ?b) s))"
    using Suc.IH [OF 1(2) Suc.prems(2) code_item_ok [OF Suc.prems(3)] Suc.prems(4), where symbol = ?sym and v = "drop_bit 1 v"
        and offset = "push_bit 1 offset" and dest = ?d] Suc.prems(6)
    unfolding reverse_items.simps code_items_Cons by blast
  have "take_bit (Suc n) v = of_bool ?b + 2 * take_bit n (drop_bit 1 v)"
    by (simp add: take_bit_Suc drop_bit_Suc bit_0 mod_2_eq_odd)
  then have "dest + offset * take_bit (Suc n) v = ?d + push_bit 1 offset * take_bit n (drop_bit 1 v)"
    by (simp add: push_bit_eq_mult algebra_simps)
  then show ?case using step 2 by (simp add: code_items_Cons)
qed

lemma direct_trick:
  fixes code range :: u32
  assumes "unat range < 2 ^ 31" "if b then unat range \<le> unat code \<and> unat code < 2 * unat range else unat code < unat range"
  shows "0 - drop_bit 31 (code - range) + 1 = of_bool b"
    and "unat (code - range + (range AND (0 - drop_bit 31 (code - range)))) = (if b then unat code - unat range else unat code)"
proof -
  have "drop_bit 31 (code - range) = of_bool (\<not> b)"
  proof (cases b)
    case True
    then have "unat (code - range) = unat code - unat range" using assms(2) by (simp add: unat_sub word_le_nat_alt)
    then have "unat (drop_bit 31 (code - range)) = 0"
      using assms True by (simp only: unat_drop_bit if_True) (intro div_less, linarith)
    then show ?thesis using True by (simp only: unat_eq_zero) simp
  next
    case False
    have u: "unat (code - range) = 2 ^ 32 + unat code - unat range"
      using False assms by (simp add: unat_word_ariths word_less_nat_alt unat_sub_if')
    then have "unat (drop_bit 31 (code - range)) = 1"
      using assms False by (simp only: unat_drop_bit u) (intro div_nat_eqI; simp)
    then show ?thesis using False by (simp only: word_unat_eq_iff) simp
  qed
  then show "0 - drop_bit 31 (code - range) + 1 = of_bool b"
    "unat (code - range + (range AND (0 - drop_bit 31 (code - range)))) = (if b then unat code - unat range else unat code)"
    using assms(2) by (cases b; simp add: unat_sub word_le_nat_alt)+
qed

lemma rc_direct_decode_follows:
  assumes "follows \<pi> p0 bs st s" "stream_at inb in_size p0 bs" "interval_ok s"
    "inside (code_items (direct_items n v) s) (be bs) (length bs)"
  shows "\<exists>st'. rc_direct_decode n dest inb in_size st = Some (push_bit n dest + take_bit n v, st')
     \<and> follows \<pi> p0 bs st' (code_items (direct_items n v) s)"
  using assms
proof (induction n arbitrary: dest st s)
  case 0
  then show ?case by (simp add: code_items_def)
next
  case (Suc n)
  let ?b = "bit v n" and ?s = "widen s"
  let ?n = "narrow (Direct ?b) ?s"
  have w: "interval_ok ?s" "2 ^ 24 \<le> width ?s" using widen_ok [OF Suc.prems(3)] by auto
  have inn: "inside ?n (be bs) (length bs)"
    using inside_first [OF Suc.prems(3) Suc.prems(4) [unfolded direct_items.simps]] by (simp only: code_item_def)
  obtain st1 where 1: "rc_normalize inb in_size st = Some ((), st1)" "follows \<pi> p0 bs st1 ?s"
    using rc_normalize_follows [OF Suc.prems(1-3) inside_narrow [OF w inn]] .
  obtain rc m in_pos where st1: "st1 = (rc, m, in_pos)" by (cases st1)
  have f: "in_pos = p0 + (digits ?s + 4)" "unat (rd_code rc) + base ?s = be (take (digits ?s + 4) bs)" "unat (rd_range rc) = width ?s"
    "\<And>a. m (\<pi> a) = store ?s a"
    using 1(2) st1 by (simp_all add: follows_def)
  have d: "digits ?n = digits ?s" using narrow_ok(2) [OF w] .
  have lead: "base ?n \<le> be (take (digits ?s + 4) bs)" "be (take (digits ?s + 4) bs) < base ?n + width ?n"
    using inside_leading [OF inn] unfolding d by simp_all
  define range where "range = drop_bit 1 (rd_range rc)"
  have r: "unat range = width ?s div 2" unfolding range_def using f(3) by (simp only: unat_drop_bit) simp
  moreover have "width ?s < 2 ^ 32" using w(1) by (simp add: interval_ok_def)
  ultimately have r31: "unat range < 2 ^ 31" by simp
  have c: "if ?b then unat range \<le> unat (rd_code rc) \<and> unat (rd_code rc) < 2 * unat range else unat (rd_code rc) < unat range"
    using lead f(2) r by (auto simp: Let_def split: if_splits)
  note t = direct_trick [OF r31 c]
  let ?code = "rd_code rc - range + (range AND (0 - drop_bit 31 (rd_code rc - range)))"
  let ?st = "(rc\<lparr>rd_range := range, rd_code := ?code\<rparr>, m, in_pos)" and ?d = "push_bit 1 dest + of_bool ?b"
  have step: "rc_direct_decode (Suc n) dest inb in_size st = rc_direct_decode n ?d inb in_size ?st"
    using 1(1) st1 t(1) by (simp only: rc_direct_decode.simps range_def [symmetric] Let_def bind.bind_lunit case_prod_conv)
  have "follows \<pi> p0 bs ?st ?n" using f t(2) r c by (auto simp: follows_def Let_def)
  then have "follows \<pi> p0 bs ?st (code_item (Direct ?b) s)" by (simp only: code_item_def)
  then obtain st' where "rc_direct_decode n ?d inb in_size ?st = Some (push_bit n ?d + take_bit n v, st')"
    "follows \<pi> p0 bs st' (code_items (direct_items n v) (code_item (Direct ?b) s))"
    using Suc.IH [OF _ Suc.prems(2) code_item_ok [OF Suc.prems(3)], of _ _ ?d] Suc.prems(4)
    unfolding direct_items.simps code_items_Cons by blast
  then show ?case unfolding step direct_items.simps code_items_Cons take_bit_step [symmetric] by blast
qed

section \<open>Starting to decode\<close>

lemma be_leading_zero: "bs \<noteq> [] \<Longrightarrow> bs ! 0 = 0 \<Longrightarrow> be bs = be (tl bs)"
  using be_append [of "[hd bs]" "tl bs"] by (cases bs) (simp_all add: be_def)

lemma rc_read_init_reads:
  assumes "stream_at inb in_size p0 bs" "5 \<le> length bs" "bs ! 0 = 0"
  shows "k \<le> 5 \<Longrightarrow> init_bytes_left rc = of_nat k \<Longrightarrow> unat (rd_code rc) = be (take (5 - k) bs) \<Longrightarrow>
     \<exists>rc'. rc_read_init rc inb (p0 + (5 - k)) in_size = (LZMA_STREAM_END, rc', p0 + 5)
       \<and> unat (rd_code rc') = be (take 5 bs) \<and> rd_range rc' = rd_range rc"
proof (induction k arbitrary: rc)
  case 0
  then show ?case by (simp add: rc_read_init.simps)
next
  case (Suc k)
  have lt: "5 - Suc k < length bs" using assms(2) Suc.prems(1) by simp
  note n = stream_nth [OF assms(1) lt]
  have "be (take (5 - Suc k) bs) < 2 ^ 24"
  proof (cases "k = 4")
    case False
    then have "be (take (5 - Suc k) bs) = be (tl (take (5 - Suc k) bs))"
      using assms(2,3) Suc.prems(1) by (intro be_leading_zero) auto
    also have "\<dots> < 256 ^ length (tl (take (5 - Suc k) bs))" by (rule be_less)
    also have "\<dots> \<le> (256 :: nat) ^ 3" using Suc.prems(1) by (intro power_increasing) simp_all
    finally show ?thesis by simp
  qed simp
  then have c: "unat (rd_code rc) < 2 ^ 24" using Suc.prems(3) by simp
  let ?rc = "rc\<lparr>rd_code := push_bit 8 (rd_code rc) OR ucast (bs ! (5 - Suc k)), init_bytes_left := init_bytes_left rc - 1\<rparr>"
  have "of_nat (Suc k) \<noteq> (0 :: u32)" using Suc.prems(1) by (simp add: word_unat_eq_iff unat_of_nat del: of_nat_Suc)
  moreover have "k = 4" if "of_nat (Suc k) = (5 :: u32)"
    using that Suc.prems(1) by (simp add: word_unat_eq_iff unat_of_nat del: of_nat_Suc)
  moreover have "5 - k = Suc (4 - k)" using Suc.prems(1) by simp
  ultimately have step: "rc_read_init rc inb (p0 + (5 - Suc k)) in_size = rc_read_init ?rc inb (p0 + (5 - k)) in_size"
    using n assms(3) Suc.prems(2) by (subst rc_read_init.simps) (auto simp: word_gt_0)
  have "5 - k = Suc (5 - Suc k)" using Suc.prems(1) by simp
  then have "take (5 - k) bs = take (5 - Suc k) bs @ [bs ! (5 - Suc k)]" by (simp only: take_Suc_conv_app_nth [OF lt])
  then have "unat (rd_code ?rc) = be (take (5 - k) bs)" using unat_shift_in [OF c] Suc.prems(3) by simp
  then show ?case using Suc.IH [of ?rc] Suc.prems(1,2) unfolding step by simp
qed

lemma rc_read_init_follows:
  assumes "stream_at inb in_size p0 bs" "5 \<le> length bs" "bs ! 0 = 0" "\<forall>a. m (\<pi> a) = m0 a"
  obtains rc' where "rc_read_init (rd_reset rc) inb p0 in_size = (LZMA_STREAM_END, rc', p0 + 5)" "follows \<pi> p0 bs (rc', m, p0 + 5) (start m0)"
proof -
  obtain rc' where "rc_read_init (rd_reset rc) inb p0 in_size = (LZMA_STREAM_END, rc', p0 + 5)"
    "unat (rd_code rc') = be (take 5 bs)" "rd_range rc' = 0xFFFFFFFF"
    using rc_read_init_reads [OF assms(1-3), of 5 "rd_reset rc"] by (auto simp: rd_reset_def)
  then show thesis using that assms(4) by (simp add: follows_def start_def)
qed

section \<open>The branchless form\<close>

lemma ucast_diff_16: "(ucast (a - b :: u32) :: u16) = ucast a - ucast b"
proof transfer
  fix a b :: int
  show "take_bit LENGTH(16) (take_bit LENGTH(32) (a - b)) = take_bit LENGTH(16) (take_bit LENGTH(32) a - take_bit LENGTH(32) b)"
    by (simp add: take_bit_diff take_bit_take_bit flip: take_bit_diff [of 16 "take_bit 32 a"])
qed

lemma prob_update_0_branchless:
  assumes "unat p \<le> 2048"
  shows "ucast (ucast p - drop_bit 5 (ucast p + RC_BIT_MODEL_OFFSET) :: u32) = prob_update_0 p"
proof -
  let ?D = "drop_bit 5 (ucast p + RC_BIT_MODEL_OFFSET) :: u32" and ?E = "drop_bit 5 (2048 - ucast p) :: u32"
  have u: "unat (ucast p :: u32) = unat p" by (simp add: unat_ucast_up)
  have "(ucast p :: u32) \<le> 2048" using assms by (simp add: word_le_nat_alt u)
  then have "unat (2048 - ucast p :: u32) = 2048 - unat p" by (simp add: unat_sub u)
  then have e: "unat ?E = (2048 - unat p) div 32" by (simp only: unat_drop_bit) simp
  have o: "RC_BIT_MODEL_OFFSET = 4294965279" by (simp add: RC_BIT_MODEL_OFFSET_def RC_BIT_MODEL_TOTAL_def)
  have "(unat ?D + unat ?E) mod 2 ^ 16 = 0"
  proof (cases "unat p < 2017")
    case True
    have "unat (ucast p + RC_BIT_MODEL_OFFSET) = 2 ^ 32 - (2017 - unat p)"
      unfolding o using True by (simp add: unat_word_ariths u)
    then have "unat ?D = (2 ^ 32 - (2017 - unat p)) div 32" by (simp only: unat_drop_bit) simp
    moreover have "(2 ^ 32 - (2017 - x)) div 32 = 2 ^ 27 - (2048 - x) div 32" if "x < 2017" for x :: nat
    proof -
      define q where "q = (2048 - x) div 32"
      have "32 * q \<le> 2048 - x" "2048 - x < 32 * q + 32" unfolding q_def using div_mult_mod_eq [of "2048 - x" 32] by simp_all
      then show ?thesis unfolding q_def [symmetric] using that by (intro div_nat_eqI) simp_all
    qed
    ultimately have "unat ?D + unat ?E = 2 ^ 27" using e True by simp
    then show ?thesis by simp
  next
    case False
    have "unat (ucast p + RC_BIT_MODEL_OFFSET) = unat p - 2017"
    proof -
      obtain d where "unat p = 2017 + d" using False by (metis le_Suc_ex not_less)
      then show ?thesis unfolding o using assms by (simp add: unat_word_ariths u)
    qed
    then have "unat ?D = (unat p - 2017) div 32" by (simp only: unat_drop_bit) simp
    then show ?thesis using e False assms by simp
  qed
  then have "(ucast ?D + ucast ?E :: u16) = 0"
    by (simp add: word_unat_eq_iff unat_word_ariths unsigned_ucast_eq take_bit_eq_mod mod_add_eq)
  then have "- (ucast ?D :: u16) = ucast ?E" by (simp add: minus_unique)
  then show ?thesis unfolding prob_update_0_def RC_MOVE_BITS_def RC_BIT_MODEL_TOTAL_def ucast_diff_16
    by (simp add: ucast_ucast_up)
qed

lemma prob_update_1_branchless: "ucast (ucast p - drop_bit 5 (ucast p) :: u32) = prob_update_1 p"
proof -
  have "(ucast (drop_bit 5 (ucast p :: u32)) :: u16) = drop_bit 5 p"
    by (rule bit_word_eqI) (auto simp: bit_simps)
  then show ?thesis unfolding ucast_diff_16 by (simp add: prob_update_1_def RC_MOVE_BITS_def ucast_ucast_up)
qed

text \<open>The branchless macro does the same as the plain one, for every probability that can occur.\<close>

lemma rc_c_bit_equals:
  assumes "unat (m prob) \<le> 2048"
  shows "rc_c_bit prob inb in_size (rc, m, in_pos) = rc_bit_last prob inb in_size (rc, m, in_pos)"
proof (cases "rc_normalize inb in_size (rc, m, in_pos)")
  case (Some u)
  then obtain rc1 in_pos1 where 1: "rc_normalize inb in_size (rc, m, in_pos) = Some ((), rc1, m, in_pos1)"
    by (auto simp: rc_normalize_def split: if_splits)
  let ?b = "drop_bit RC_BIT_MODEL_TOTAL_BITS (rd_range rc1) * ucast (m prob) :: u32"
  have "NOT ?b + 1 = - ?b" by (rule minus_eq_not_plus_1 [symmetric])
  then show ?thesis
    using prob_update_0_branchless [OF assms] prob_update_1_branchless [of "m prob"]
    by (simp add: rc_c_bit_def rc_bit_last_def 1 Let_def rc_update_0_def rc_update_1_def RC_MOVE_BITS_def flip: not_le)
qed (simp add: rc_c_bit_def rc_bit_last_def)

end
