(* ===== verification/Lzma_Rc_Roundtrip.thy ===== *)
theory Lzma_Rc_Roundtrip
  imports Lzma_Rc_Encoder Lzma_Rc_Decoder
begin

text \<open>
  The range decoder of LZMA gives back what the range encoder was given, whatever the sizes
  of the buffers the encoder wrote to. The four lowest bits of a distance are a special
  case: the encoder and the decoder number the nodes of their tree differently, so that the
  two keep the probabilities of these nodes in different places of the array.
\<close>

section \<open>The nodes of the tree of alignment bits\<close>

definition align_index :: "nat list" where
  "align_index = [0, 1, 2, 3, 4, 6, 5, 7, 8, 12, 10, 14, 9, 13, 11, 15]"

definition align_addr :: "nat \<Rightarrow> nat \<Rightarrow> nat" where
  "align_addr al a = (if al \<le> a \<and> a < al + 16 then al + align_index ! (a - al) else a)"

lemma align_index_below: "i < 16 \<Longrightarrow> align_index ! i < 16"
proof -
  assume "i < 16"
  then have "align_index ! i \<in> set align_index" by (intro nth_mem) (simp add: align_index_def)
  then show ?thesis by (auto simp: align_index_def)
qed

lemma inj_align_addr: "inj (align_addr al)"
proof (rule injI)
  fix a b assume eq: "align_addr al a = align_addr al b"
  have below: "align_addr al c = al + align_index ! (c - al)" "al + align_index ! (c - al) < al + 16" if "al \<le> c" "c < al + 16" for c
    using that align_index_below [of "c - al"] by (simp_all add: align_addr_def)
  have out: "align_addr al c = c" if "\<not> (al \<le> c \<and> c < al + 16)" for c using that by (auto simp: align_addr_def)
  have dist: "distinct align_index" by (simp add: align_index_def)
  show "a = b"
  proof (cases "al \<le> a \<and> a < al + 16"; cases "al \<le> b \<and> b < al + 16")
    assume i: "al \<le> a \<and> a < al + 16" "al \<le> b \<and> b < al + 16"
    then have "align_index ! (a - al) = align_index ! (b - al)" using eq below [of a] below [of b] by simp
    moreover have "a - al < length align_index" "b - al < length align_index" using i by (auto simp: align_index_def)
    ultimately have "a - al = b - al" using dist nth_eq_iff_index_eq by blast
    then show ?thesis using i by (metis le_add_diff_inverse)
  next
    assume "al \<le> a \<and> a < al + 16" "\<not> (al \<le> b \<and> b < al + 16)"
    then show ?thesis using eq below [of a] out [of b] by simp
  next
    assume "\<not> (al \<le> a \<and> a < al + 16)" "al \<le> b \<and> b < al + 16"
    then show ?thesis using eq below [of b] out [of a] by simp
  qed (use eq out in simp)
qed

lemma rc_rev_bit_follows:
  assumes "follows \<pi> p0 bs st s" "stream_at inb in_size p0 bs" "interval_ok s" "inj \<pi>"
    "inside (code_items (Bit a b # its) s) (be bs) (length bs)" "\<pi> a = probs + unat (symbol + v)"
  obtains st' where "rc_rev_bit probs v symbol inb in_size st = Some (if b then symbol + v else symbol, st')"
    "follows \<pi> p0 bs st' (code_item (Bit a b) s)"
proof -
  obtain st' where "rc_bit_last (\<pi> a) inb in_size st = Some (b, st')" "follows \<pi> p0 bs st' (code_item (Bit a b) s)"
    using rc_bit_last_follows [OF assms(1-4) inside_first [OF assms(3,5)]] .
  then show thesis using that assms(6) by (simp add: rc_rev_bit_def)
qed

lemma align_items:
  "reverse_items al 4 v 1 = [Bit (al + 1) (bit v 0), Bit (al + 2 + of_bool (bit v 0)) (bit v 1),
     Bit (al + 4 + 2 * of_bool (bit v 0) + of_bool (bit v 1)) (bit v 2),
     Bit (al + 8 + 4 * of_bool (bit v 0) + 2 * of_bool (bit v 1) + of_bool (bit v 2)) (bit v 3)]" (is "_ = ?its")
proof -
  have b: "bit v (Suc (Suc 0)) = bit v 2" "bit v (Suc (Suc (Suc 0))) = bit v 3"
    by (simp_all add: numeral_2_eq_2 numeral_3_eq_3)
  then have "reverse_items al (Suc (Suc (Suc (Suc 0)))) v 1 = ?its"
    by (cases "bit v 0"; cases "bit v 1"; cases "bit v 2"; simp add: bit_drop_bit_eq b)
  moreover have "reverse_items al 4 v 1 = reverse_items al (Suc (Suc (Suc (Suc 0)))) v 1"
    by (rule arg_cong [where f = "\<lambda>n. reverse_items al n v 1"]) simp
  ultimately show ?thesis by (rule trans [rotated])
qed

lemma take_bit_4: "take_bit 4 (v :: u32) = of_bool (bit v 0) + 2 * of_bool (bit v 1) + 4 * of_bool (bit v 2) + 8 * of_bool (bit v 3)"
proof -
  have "take_bit (Suc (Suc (Suc (Suc 0)))) v = push_bit 3 (of_bool (bit v 3)) + (push_bit 2 (of_bool (bit v 2))
     + (push_bit 1 (of_bool (bit v 1)) + push_bit 0 (of_bool (bit v 0))))"
    unfolding take_bit_top by (simp add: numeral_3_eq_3 numeral_2_eq_2)
  also have "\<dots> = of_bool (bit v 0) + 2 * of_bool (bit v 1) + 4 * of_bool (bit v 2) + 8 * of_bool (bit v 3)"
    by (simp add: push_bit_eq_mult)
  finally have t: "take_bit (Suc (Suc (Suc (Suc 0)))) v = of_bool (bit v 0) + 2 * of_bool (bit v 1) + 4 * of_bool (bit v 2) + 8 * of_bool (bit v 3)" .
  have four: "4 = Suc (Suc (Suc (Suc 0)))" by simp
  show ?thesis by (subst four) (rule t)
qed

lemma rc_bittree_rev4_follows:
  assumes "follows (align_addr al) p0 bs st s" "stream_at inb in_size p0 bs" "interval_ok s"
    "inside (code_items (reverse_items al 4 v 1) s) (be bs) (length bs)"
  shows "\<exists>st'. rc_bittree_rev4 al inb in_size st = Some (take_bit 4 v, st')
     \<and> follows (align_addr al) p0 bs st' (code_items (reverse_items al 4 v 1) s)"
proof -
  let ?b0 = "bit v 0" and ?b1 = "bit v 1" and ?b2 = "bit v 2" and ?b3 = "bit v 3"
  let ?i0 = "Bit (al + 1) ?b0" and ?i1 = "Bit (al + 2 + of_bool ?b0) ?b1" and ?i2 = "Bit (al + 4 + 2 * of_bool ?b0 + of_bool ?b1) ?b2"
    and ?i3 = "Bit (al + 8 + 4 * of_bool ?b0 + 2 * of_bool ?b1 + of_bool ?b2) ?b3"
  let ?m0 = "if ?b0 then 0 + 1 else 0 :: u32"
  let ?m1 = "if ?b1 then ?m0 + 2 else ?m0"
  let ?m2 = "if ?b2 then ?m1 + 4 else ?m1"
  have a0: "align_addr al (al + 1) = al + unat (0 + 1 :: u32)"
    and a1: "align_addr al (al + 2 + of_bool ?b0) = al + unat (?m0 + 2)"
    and a2: "align_addr al (al + 4 + 2 * of_bool ?b0 + of_bool ?b1) = al + unat (?m1 + 4)"
    and a3: "align_addr al (al + 8 + 4 * of_bool ?b0 + 2 * of_bool ?b1 + of_bool ?b2) = al + unat (?m2 + 8)"
    by (cases ?b0; cases ?b1; cases ?b2; simp add: align_addr_def align_index_def)+
  note ins = assms(4) [unfolded align_items]
  obtain st0 where 0: "rc_rev_bit al 1 0 inb in_size st = Some (?m0, st0)" "follows (align_addr al) p0 bs st0 (code_item ?i0 s)"
    using rc_rev_bit_follows [OF assms(1-3) inj_align_addr ins a0] .
  note s0 = code_item_ok [OF assms(3), where it = ?i0] and ins0 = ins [unfolded code_items_Cons [where it = ?i0]]
  obtain st1 where 1: "rc_rev_bit al 2 ?m0 inb in_size st0 = Some (?m1, st1)" "follows (align_addr al) p0 bs st1 (code_item ?i1 (code_item ?i0 s))"
    using rc_rev_bit_follows [OF 0(2) assms(2) s0 inj_align_addr ins0 a1] .
  note s1 = code_item_ok [OF s0, where it = ?i1] and ins1 = ins0 [unfolded code_items_Cons [where it = ?i1]]
  obtain st2 where 2: "rc_rev_bit al 4 ?m1 inb in_size st1 = Some (?m2, st2)"
      "follows (align_addr al) p0 bs st2 (code_item ?i2 (code_item ?i1 (code_item ?i0 s)))"
    using rc_rev_bit_follows [OF 1(2) assms(2) s1 inj_align_addr ins1 a2] .
  note s2 = code_item_ok [OF s1, where it = ?i2] and ins2 = ins1 [unfolded code_items_Cons [where it = ?i2]]
  obtain st3 where 3: "rc_rev_bit al 8 ?m2 inb in_size st2 = Some (if ?b3 then ?m2 + 8 else ?m2, st3)"
      "follows (align_addr al) p0 bs st3 (code_item ?i3 (code_item ?i2 (code_item ?i1 (code_item ?i0 s))))"
    using rc_rev_bit_follows [OF 2(2) assms(2) s2 inj_align_addr ins2 a3] .
  have "(if ?b3 then ?m2 + 8 else ?m2) = take_bit 4 v" by (simp add: take_bit_4)
  then show ?thesis using 0(1) 1(1) 2(1) 3 unfolding align_items
    by (simp add: rc_bittree_rev4_def code_items_def)
qed

section \<open>The round trip\<close>

text \<open>
  A coded value, with what the encoder queues for it and how the decoder reads it: a bit, a
  tree, a reverse tree, the alignment bits in the tree at \<open>al\<close>, and direct bits.
\<close>

datatype coded = CBit nat bool | CTree nat nat u32 | CReverse nat nat u32 | CAlign u32 | CDirect nat u32

fun coded_items :: "nat \<Rightarrow> coded \<Rightarrow> item list" where
  "coded_items al (CBit p b) = [Bit p b]"
| "coded_items al (CTree probs n v) = tree_items probs n v 1"
| "coded_items al (CReverse probs n v) = reverse_items probs n v 1"
| "coded_items al (CAlign v) = reverse_items al 4 v 1"
| "coded_items al (CDirect n v) = direct_items n v"

fun decode_coded :: "nat \<Rightarrow> coded \<Rightarrow> coded rc_macro" where
  "decode_coded al (CBit p _) inb in_size s = do { (b, s) \<leftarrow> rc_bit_last p inb in_size s; Some (CBit p b, s) }"
| "decode_coded al (CTree probs n _) inb in_size s = do {
     (v, s) \<leftarrow> rc_bittree_bits probs n 1 inb in_size s; Some (CTree probs n (v - push_bit n 1), s) }"
| "decode_coded al (CReverse probs n _) inb in_size s = do {
     (v, s) \<leftarrow> rc_reverse_bits probs n 1 1 0 inb in_size s; Some (CReverse probs n v, s) }"
| "decode_coded al (CAlign _) inb in_size s = do { (v, s) \<leftarrow> rc_bittree_rev4 al inb in_size s; Some (CAlign v, s) }"
| "decode_coded al (CDirect n _) inb in_size s = do { (v, s) \<leftarrow> rc_direct_decode n 0 inb in_size s; Some (CDirect n v, s) }"

fun decode_all :: "nat \<Rightarrow> coded list \<Rightarrow> coded list rc_macro" where
  "decode_all al [] inb in_size s = Some ([], s)"
| "decode_all al (c # cs) inb in_size s = do {
     (v, s) \<leftarrow> decode_coded al c inb in_size s;
     (vs, s) \<leftarrow> decode_all al cs inb in_size s;
     Some (v # vs, s) }"

text \<open>A value fits its bits, and only the alignment bits use the nodes at \<open>al\<close>.\<close>

definition avoids :: "nat \<Rightarrow> item list \<Rightarrow> bool" where
  "avoids al its \<longleftrightarrow> list_all (\<lambda>it. case it of Bit a b \<Rightarrow> a < al \<or> al + 16 \<le> a | Direct b \<Rightarrow> True) its"

fun coded_ok :: "nat \<Rightarrow> coded \<Rightarrow> bool" where
  "coded_ok al (CBit p b) \<longleftrightarrow> avoids al [Bit p b]"
| "coded_ok al (CTree probs n v) \<longleftrightarrow> take_bit n v = v \<and> avoids al (tree_items probs n v 1)"
| "coded_ok al (CReverse probs n v) \<longleftrightarrow> take_bit n v = v \<and> avoids al (reverse_items probs n v 1)"
| "coded_ok al (CAlign v) \<longleftrightarrow> take_bit 4 v = v"
| "coded_ok al (CDirect n v) \<longleftrightarrow> take_bit n v = v"

lemma align_addr_fixes: "avoids al its \<Longrightarrow> fixes_items (align_addr al) its"
  by (fastforce simp: avoids_def list_all_iff fixes_items_def align_addr_def)

lemma decode_coded_follows:
  assumes "follows (align_addr al) p0 bs st s" "stream_at inb in_size p0 bs" "interval_ok s" "coded_ok al c"
    "inside (code_items (coded_items al c) s) (be bs) (length bs)"
  shows "\<exists>st'. decode_coded al c inb in_size st = Some (c, st') \<and> follows (align_addr al) p0 bs st' (code_items (coded_items al c) s)"
proof (cases c)
  case (CBit p b)
  have "align_addr al p = p" using assms(4) CBit by (auto simp: avoids_def align_addr_def)
  moreover obtain st' where "rc_bit_last (align_addr al p) inb in_size st = Some (b, st')" "follows (align_addr al) p0 bs st' (code_item (Bit p b) s)"
    using rc_bit_last_follows [OF assms(1-3) inj_align_addr, of p b] assms(5) CBit by (auto simp: code_items_def)
  ultimately show ?thesis using CBit by (simp add: code_items_def)
next
  case (CTree probs n v)
  have "fixes_items (align_addr al) (tree_items probs n v 1)" using assms(4) CTree by (intro align_addr_fixes) auto
  then show ?thesis using rc_bittree_bits_follows [OF assms(1-3) inj_align_addr, of probs n v 1] assms(4,5) CTree by auto
next
  case (CReverse probs n v)
  have "fixes_items (align_addr al) (reverse_items probs n v 1)" using assms(4) CReverse by (intro align_addr_fixes) auto
  then show ?thesis
    using rc_reverse_bits_follows [OF assms(1-3) inj_align_addr, of probs n v 1 1 0] assms(4,5) CReverse by auto
next
  case (CAlign v)
  then show ?thesis using rc_bittree_rev4_follows [OF assms(1-3), of v] assms(4,5) by auto
next
  case (CDirect n v)
  then show ?thesis using rc_direct_decode_follows [OF assms(1-3), of n v 0] assms(4,5) by auto
qed

lemma code_items_append: "code_items (xs @ ys) s = code_items ys (code_items xs s)"
  by (simp add: code_items_def)

lemma decode_all_follows:
  assumes "follows (align_addr al) p0 bs st s" "stream_at inb in_size p0 bs" "interval_ok s" "\<forall>c\<in>set cs. coded_ok al c"
    "inside (code_items (concat (map (coded_items al) cs)) s) (be bs) (length bs)"
  shows "\<exists>st'. decode_all al cs inb in_size st = Some (cs, st')
     \<and> follows (align_addr al) p0 bs st' (code_items (concat (map (coded_items al) cs)) s)"
  using assms
proof (induction cs arbitrary: st s)
  case Nil
  then show ?case by (simp add: code_items_def)
next
  case (Cons c cs)
  let ?s = "code_items (coded_items al c) s"
  have ok: "interval_ok ?s" using code_items_ok Cons.prems(3) .
  have i: "inside (code_items (concat (map (coded_items al) cs)) ?s) (be bs) (length bs)"
    using Cons.prems(5) by (simp add: code_items_append)
  obtain st1 where 1: "decode_coded al c inb in_size st = Some (c, st1)" "follows (align_addr al) p0 bs st1 ?s"
    using decode_coded_follows [OF Cons.prems(1-3) _ inside_code_items [OF ok i]] Cons.prems(4) by auto
  from Cons.IH [OF 1(2) Cons.prems(2) ok _ i] Cons.prems(4) show ?case
    using 1(1) by (auto simp: code_items_append)
qed

lemma finished_stream:
  assumes "finished E rc m (start m0) its" "probs_ok m0"
  shows "inside (widen (code_items its (start m0))) (be E) (length E)" "5 \<le> length E" "E ! 0 = 0"
proof -
  let ?s = "widen (code_items its (start m0))"
  have ok: "interval_ok ?s" using widen_ok code_items_ok start_ok [OF assms(2)] by blast
  have e: "be E = base ?s" "length E = digits ?s + 4" using assms(1) by (simp_all add: finished_def)
  have w: "0 < width ?s" "1 \<le> digits ?s" "base ?s + width ?s \<le> 2 ^ 32 * 256 ^ (digits ?s - 1)" using ok by (auto simp: interval_ok_def)
  show "inside ?s (be E) (length E)" using e w(1) by (simp add: inside_def)
  show "5 \<le> length E" using e(2) w(2) by simp
  have "(2 :: nat) ^ 32 * 256 ^ (digits ?s - 1) = 256 ^ (length E - 1)"
  proof -
    have "length E - 1 = 4 + (digits ?s - 1)" using e(2) w(2) by simp
    then show ?thesis by (simp only: power_add) simp
  qed
  then have "be E < 256 ^ (length E - 1)" using e(1) w by linarith
  then have "be (take 1 E) = 0" using be_take [of 1 E] \<open>5 \<le> length E\<close> by (simp add: div_less)
  moreover have "take 1 E = [E ! 0]" using \<open>5 \<le> length E\<close> by (cases E) auto
  ultimately show "E ! 0 = 0" by (simp add: be_def word_unat_eq_iff)
qed

text \<open>
  C7: The range coder loses nothing. Whatever sequence of bits, trees, reverse trees,
  alignment bits and direct bits is put into the encoder, and however the calls of
  \<open>rc_encode\<close> cut the output into buffers, the decoder that starts on the bytes written
  with the same probabilities reads the same values, and is then, after one more
  normalization, at the end of the bytes with the code zero that \<open>rc_is_finished\<close> asks for.
\<close>

theorem range_coder_roundtrip:
  assumes "rc_run m0 (concat (map (coded_items al) cs)) True E rc m" "rc_count rc = 0"
    and "probs_ok m0" "length (concat (map (coded_items al) cs)) + 8 < 2 ^ 64"
    and "\<forall>c\<in>set cs. coded_ok al c" "\<forall>a. md (align_addr al a) = m0 a"
    and "stream_at inb in_size p0 E"
  shows "\<exists>rc1 st st'. rc_read_init (rd_reset rc0) inb p0 in_size = (LZMA_STREAM_END, rc1, p0 + 5)
     \<and> decode_all al cs inb in_size (rc1, md, p0 + 5) = Some (cs, st)
     \<and> rc_normalize inb in_size st = Some ((), st')
     \<and> rc_is_finished (fst st') \<and> snd (snd st') = p0 + length E
     \<and> (\<forall>a. fst (snd st') (align_addr al a) = m a)"
proof -
  let ?its = "concat (map (coded_items al) cs)"
  let ?s = "code_items ?its (start m0)"
  have "pending rc = []" using assms(2) by (simp add: pending_def)
  then have "finished E rc m (start m0) ?its"
    using rc_run_coding [OF assms(1,3,4)] by (auto simp: coding_def finishing_def flushes_def)
  note fin = this and fs = finished_stream [OF this assms(3)]
  have ok: "interval_ok ?s" using code_items_ok start_ok assms(3) by blast
  obtain rc1 where 1: "rc_read_init (rd_reset rc0) inb p0 in_size = (LZMA_STREAM_END, rc1, p0 + 5)"
    "follows (align_addr al) p0 E (rc1, md, p0 + 5) (start m0)"
    using rc_read_init_follows [where m = md and \<pi> = "align_addr al", OF assms(7) fs(2,3) assms(6)] .
  obtain st where 2: "decode_all al cs inb in_size (rc1, md, p0 + 5) = Some (cs, st)" "follows (align_addr al) p0 E st ?s"
    using decode_all_follows [OF 1(2) assms(7) start_ok [OF assms(3)] assms(5) inside_widen [OF fs(1)]] by blast
  obtain st' where 3: "rc_normalize inb in_size st = Some ((), st')" "follows (align_addr al) p0 E st' (widen ?s)"
    using rc_normalize_follows [OF 2(2) assms(7) ok fs(1)] .
  have "be E = base (widen ?s)" "length E = digits (widen ?s) + 4" "m = store ?s" using fin by (simp_all add: finished_def)
  then have "rc_is_finished (fst st') \<and> snd (snd st') = p0 + length E \<and> (\<forall>a. fst (snd st') (align_addr al a) = m a)"
    using 3(2) by (cases st') (simp add: follows_def rc_is_finished_def word_unat_eq_iff)
  then show ?thesis using 1(1) 2(1) 3(1) by blast
qed

definition example_coded :: "coded list" where
  "example_coded = [CBit 16 True, CTree 20 3 5, CReverse 30 2 1, CAlign 6, CDirect 3 5]"

definition example_rc :: lzma_range_encoder where
  "example_rc = \<lparr>rc_low = 0, rc_cache_size = 1, rc_range = 0xFFFFFFFF, rc_cache = 0, rc_out_total = 0, rc_count = 0, rc_pos = 0,
     rc_symbols = replicate 53 RC_FLUSH, rc_probs = replicate 53 0\<rparr>"

definition example_queue :: "lzma_range_encoder option" where
  "example_queue = do {
     rc \<leftarrow> rc_bit (rc_reset example_rc) 16 1; rc \<leftarrow> rc_bittree rc 20 3 5; rc \<leftarrow> rc_bittree_reverse rc 30 2 1;
     rc \<leftarrow> rc_bittree_reverse rc 0 4 6; rc \<leftarrow> rc_direct rc 5 3; rc_flush rc }"

definition example_first where
  "example_first = rc_encode (the example_queue) (\<lambda>_. 1024) (replicate 3 0) 0 3"

definition example_second where
  "example_second = (case example_first of (full, rc, m, out, out_pos) \<Rightarrow> rc_encode rc m (replicate 8 0) 0 8)"

lemma example_queue_run: "rc_run (\<lambda>_. 1024) (concat (map (coded_items 0) example_coded)) True [] (the example_queue) (\<lambda>_. 1024)"
proof -
  have "example_queue \<noteq> None" by code_simp
  then obtain q where q: "example_queue = Some q" by auto
  obtain r1 r2 r3 r4 r5 where r: "rc_bit (rc_reset example_rc) 16 (of_bool True) = Some r1" "rc_bittree r1 20 3 5 = Some r2"
    "rc_bittree_reverse r2 30 2 1 = Some r3" "rc_bittree_reverse r3 0 4 6 = Some r4" "rc_direct r4 5 3 = Some r5" "rc_flush r5 = Some q"
    using q by (auto simp: example_queue_def bind_eq_Some_conv)
  have "rc_run (\<lambda>_. 1024) [] False [] (rc_reset example_rc) (\<lambda>_. 1024)"
    by (rule run_reset) (simp_all add: example_rc_def RC_SYMBOLS_MAX_def)
  from run_flush [OF run_direct [OF run_reverse [OF run_reverse [OF run_bittree [OF run_bit [OF this r(1)] r(2)] r(3)] r(4)] r(5)] r(6)]
  show ?thesis by (simp add: q example_coded_def)
qed

lemma example_run:
  "\<exists>rc m. rc_run (\<lambda>_. 1024) (concat (map (coded_items 0) example_coded)) True [0, 217, 167, 252, 0, 0] rc m \<and> rc_count rc = 0"
proof -
  obtain f1 c1 m1 o1 p1 where 1: "rc_encode (the example_queue) (\<lambda>_. 1024) (replicate 3 0) 0 3 = (f1, c1, m1, o1, p1)" by (metis prod_cases5)
  then have e1: "example_first = (f1, c1, m1, o1, p1)" by (simp add: example_first_def)
  obtain f2 c2 m2 o2 p2 where 2: "rc_encode c1 m1 (replicate 8 0) 0 8 = (f2, c2, m2, o2, p2)" by (metis prod_cases5)
  then have e2: "example_second = (f2, c2, m2, o2, p2)" by (simp add: example_second_def e1)
  have "(case example_first of (f, c, m, out, p) \<Rightarrow> bytes_at out 0 p) = [0, 217, 167]"
    "(case example_second of (f, c, m, out, p) \<Rightarrow> (bytes_at out 0 p, rc_count c)) = ([252, 0, 0], 0)" by code_simp+
  then have b: "bytes_at o1 0 (p1 - 0) = [0, 217, 167]" "bytes_at o2 0 (p2 - 0) = [252, 0, 0]" "rc_count c2 = 0"
    by (simp_all add: e1 e2)
  show ?thesis using run_encode [OF run_encode [OF example_queue_run _ _ 1] _ _ 2] b by auto
qed

lemma example_length: "length (concat (map (coded_items 0) example_coded)) = 13"
  by code_simp

theorem range_coder_roundtrip_witness:
  "\<exists>rc1 st. rc_read_init (rd_reset \<lparr>rd_range = 0, rd_code = 0, init_bytes_left = 0\<rparr>) [0, 217, 167, 252, 0, 0] 0 6 = (LZMA_STREAM_END, rc1, 5)
     \<and> decode_all 0 example_coded [0, 217, 167, 252, 0, 0] 6 (rc1, \<lambda>_. 1024, 5) = Some (example_coded, st)"
proof -
  obtain rc m where r: "rc_run (\<lambda>_. 1024) (concat (map (coded_items 0) example_coded)) True [0, 217, 167, 252, 0, 0] rc m" "rc_count rc = 0"
    using example_run by blast
  have c: "\<forall>c\<in>set example_coded. coded_ok 0 c"
    by code_simp
  have i: "stream_at [0, 217, 167, 252, 0, 0] 6 0 [0, 217, 167, 252, 0, 0]" by (simp add: stream_at_def bytes_at_def)
  have p: "probs_ok (\<lambda>_. 1024)" by (simp add: probs_ok_def)
  have l: "length (concat (map (coded_items 0) example_coded)) + 8 < 2 ^ 64"
    using example_length by simp
  have a: "\<forall>a. (\<lambda>_. 1024 :: u16) (align_addr 0 a) = (\<lambda>_. 1024) a" by simp
  from range_coder_roundtrip [OF r p l c, where md = "\<lambda>_. 1024", OF a i, of "\<lparr>rd_range = 0, rd_code = 0, init_bytes_left = 0\<rparr>"]
  show ?thesis unfolding add_0 by blast
qed

end
