(* ===== verification/Lzma_Common.thy ===== *)
theory Lzma_Common
  imports Lzma_Rc
begin

text \<open>
  What the LZMA encoder and the LZMA decoder share (\<^verbatim>\<open>lzma/lzma_common.h\<close> of liblzma): the states,
  the choice of a literal coder, the ranges of lengths and distances, and the arrays of
  probabilities, which both keep under the same names. A probability is an address in one
  store; the arrays lie in it one behind the other. The slot of a distance, which the encoder
  takes from a table (\<^verbatim>\<open>lzma/fastpos.h\<close>), is here too, with the table as its generator writes it.
\<close>

section \<open>Constants and states\<close>

definition LZMA_LCLP_MAX :: nat where "LZMA_LCLP_MAX = 4"
definition LZMA_PB_MAX :: nat where "LZMA_PB_MAX = 4"
definition POS_STATES_MAX :: nat where "POS_STATES_MAX = 2 ^ LZMA_PB_MAX"
definition STATES :: nat where "STATES = 12"
definition LIT_STATES :: nat where "LIT_STATES = 7"
definition LITERAL_CODER_SIZE :: nat where "LITERAL_CODER_SIZE = 0x300"
definition LITERAL_CODERS_MAX :: nat where "LITERAL_CODERS_MAX = 2 ^ LZMA_LCLP_MAX"
definition MATCH_LEN_MIN :: u32 where "MATCH_LEN_MIN = 2"
definition LEN_LOW_BITS :: nat where "LEN_LOW_BITS = 3"
definition LEN_LOW_SYMBOLS :: u32 where "LEN_LOW_SYMBOLS = push_bit 3 1"
definition LEN_MID_BITS :: nat where "LEN_MID_BITS = 3"
definition LEN_MID_SYMBOLS :: u32 where "LEN_MID_SYMBOLS = push_bit 3 1"
definition LEN_HIGH_BITS :: nat where "LEN_HIGH_BITS = 8"
definition LEN_HIGH_SYMBOLS :: u32 where "LEN_HIGH_SYMBOLS = push_bit 8 1"
definition LEN_SYMBOLS :: u32 where "LEN_SYMBOLS = LEN_LOW_SYMBOLS + LEN_MID_SYMBOLS + LEN_HIGH_SYMBOLS"
definition MATCH_LEN_MAX :: u32 where "MATCH_LEN_MAX = MATCH_LEN_MIN + LEN_SYMBOLS - 1"
definition DIST_STATES :: u32 where "DIST_STATES = 4"
definition DIST_SLOT_BITS :: nat where "DIST_SLOT_BITS = 6"
definition DIST_SLOTS :: u32 where "DIST_SLOTS = push_bit 6 1"
definition DIST_MODEL_START :: u32 where "DIST_MODEL_START = 4"
definition DIST_MODEL_END :: u32 where "DIST_MODEL_END = 14"
definition FULL_DISTANCES :: nat where "FULL_DISTANCES = 2 ^ 7"
definition ALIGN_BITS :: nat where "ALIGN_BITS = 4"
definition ALIGN_SIZE :: u32 where "ALIGN_SIZE = push_bit 4 1"
definition ALIGN_MASK :: u32 where "ALIGN_MASK = ALIGN_SIZE - 1"
definition REPS :: u32 where "REPS = 4"

lemmas lzma_consts = LZMA_LCLP_MAX_def LZMA_PB_MAX_def POS_STATES_MAX_def STATES_def LIT_STATES_def LITERAL_CODER_SIZE_def
  LITERAL_CODERS_MAX_def MATCH_LEN_MIN_def LEN_LOW_BITS_def LEN_LOW_SYMBOLS_def LEN_MID_BITS_def LEN_MID_SYMBOLS_def
  LEN_HIGH_BITS_def LEN_HIGH_SYMBOLS_def LEN_SYMBOLS_def MATCH_LEN_MAX_def DIST_STATES_def DIST_SLOT_BITS_def DIST_SLOTS_def
  DIST_MODEL_START_def DIST_MODEL_END_def FULL_DISTANCES_def ALIGN_BITS_def ALIGN_SIZE_def ALIGN_MASK_def REPS_def

text \<open>The options of the literal and position bits.\<close>

record lclppb =
  opt_lc :: u32
  opt_lp :: u32
  opt_pb :: u32

definition is_lclppb_valid :: "lclppb \<Rightarrow> bool" where
  "is_lclppb_valid options \<longleftrightarrow> unat (opt_lc options) \<le> LZMA_LCLP_MAX \<and> unat (opt_lp options) \<le> LZMA_LCLP_MAX
     \<and> unat (opt_lc options + opt_lp options) \<le> LZMA_LCLP_MAX \<and> unat (opt_pb options) \<le> LZMA_PB_MAX"

text \<open>The states are numbers, as the code computes with them.\<close>

type_synonym lzma_lzma_state = nat

definition STATE_LIT_LIT :: lzma_lzma_state where "STATE_LIT_LIT = 0"
definition STATE_SHORTREP_LIT_LIT :: lzma_lzma_state where "STATE_SHORTREP_LIT_LIT = 3"
definition STATE_LIT_MATCH :: lzma_lzma_state where "STATE_LIT_MATCH = 7"
definition STATE_LIT_LONGREP :: lzma_lzma_state where "STATE_LIT_LONGREP = 8"
definition STATE_LIT_SHORTREP :: lzma_lzma_state where "STATE_LIT_SHORTREP = 9"
definition STATE_NONLIT_MATCH :: lzma_lzma_state where "STATE_NONLIT_MATCH = 10"
definition STATE_NONLIT_REP :: lzma_lzma_state where "STATE_NONLIT_REP = 11"

lemmas state_consts = STATE_LIT_LIT_def STATE_SHORTREP_LIT_LIT_def STATE_LIT_MATCH_def STATE_LIT_LONGREP_def
  STATE_LIT_SHORTREP_def STATE_NONLIT_MATCH_def STATE_NONLIT_REP_def

definition update_literal :: "lzma_lzma_state \<Rightarrow> lzma_lzma_state" where
  "update_literal state = (if state \<le> STATE_SHORTREP_LIT_LIT then STATE_LIT_LIT
     else if state \<le> STATE_LIT_SHORTREP then state - 3 else state - 6)"

definition update_literal_normal :: "lzma_lzma_state \<Rightarrow> lzma_lzma_state" where
  "update_literal_normal state = (if state \<le> STATE_SHORTREP_LIT_LIT then STATE_LIT_LIT else state - 3)"

definition update_literal_matched :: "lzma_lzma_state \<Rightarrow> lzma_lzma_state" where
  "update_literal_matched state = (if state \<le> STATE_LIT_SHORTREP then state - 3 else state - 6)"

definition update_match :: "lzma_lzma_state \<Rightarrow> lzma_lzma_state" where
  "update_match state = (if state < LIT_STATES then STATE_LIT_MATCH else STATE_NONLIT_MATCH)"

definition update_long_rep :: "lzma_lzma_state \<Rightarrow> lzma_lzma_state" where
  "update_long_rep state = (if state < LIT_STATES then STATE_LIT_LONGREP else STATE_NONLIT_REP)"

definition update_short_rep :: "lzma_lzma_state \<Rightarrow> lzma_lzma_state" where
  "update_short_rep state = (if state < LIT_STATES then STATE_LIT_SHORTREP else STATE_NONLIT_REP)"

definition is_literal_state :: "lzma_lzma_state \<Rightarrow> bool" where
  "is_literal_state state \<longleftrightarrow> state < LIT_STATES"

lemmas state_defs = state_consts update_literal_def update_literal_normal_def update_literal_matched_def update_match_def
  update_long_rep_def update_short_rep_def is_literal_state_def STATES_def LIT_STATES_def

text \<open>
  The updates stay among the twelve states and tell literals from the rest; the two special
  forms of \<open>update_literal\<close> agree with it where they are used.
\<close>

lemma update_states:
  assumes "state < STATES"
  shows "update_literal_normal state < STATES" "update_literal_matched state < STATES" "update_match state < STATES"
    "update_long_rep state < STATES" "update_short_rep state < STATES"
    "is_literal_state state \<Longrightarrow> update_literal_normal state = update_literal state"
    "\<not> is_literal_state state \<Longrightarrow> update_literal_matched state = update_literal state"
    "is_literal_state (update_literal state)" "\<not> is_literal_state (update_match state)"
    "\<not> is_literal_state (update_long_rep state)" "\<not> is_literal_state (update_short_rep state)"
  using assms by (auto simp: state_defs)

section \<open>The arrays of probabilities\<close>

definition a_literal :: nat where "a_literal = 0"
definition a_is_match :: "lzma_lzma_state \<Rightarrow> nat \<Rightarrow> nat" where "a_is_match state pos_state = 12288 + 16 * state + pos_state"
definition a_is_rep :: "lzma_lzma_state \<Rightarrow> nat" where "a_is_rep state = 12480 + state"
definition a_is_rep0 :: "lzma_lzma_state \<Rightarrow> nat" where "a_is_rep0 state = 12492 + state"
definition a_is_rep1 :: "lzma_lzma_state \<Rightarrow> nat" where "a_is_rep1 state = 12504 + state"
definition a_is_rep2 :: "lzma_lzma_state \<Rightarrow> nat" where "a_is_rep2 state = 12516 + state"
definition a_is_rep0_long :: "lzma_lzma_state \<Rightarrow> nat \<Rightarrow> nat" where "a_is_rep0_long state pos_state = 12528 + 16 * state + pos_state"
definition a_dist_slot :: "nat \<Rightarrow> nat" where "a_dist_slot dist_state = 12720 + 64 * dist_state"
definition a_dist_special :: nat where "a_dist_special = 12976"
definition a_dist_align :: nat where "a_dist_align = 13090"
definition a_match_len :: nat where "a_match_len = 13106"
definition a_rep_len :: nat where "a_rep_len = 13620"

text \<open>The fields of a length coder.\<close>

definition len_choice :: "nat \<Rightarrow> nat" where "len_choice ld = ld"
definition len_choice2 :: "nat \<Rightarrow> nat" where "len_choice2 ld = ld + 1"
definition len_low :: "nat \<Rightarrow> nat \<Rightarrow> nat" where "len_low ld pos_state = ld + 2 + 8 * pos_state"
definition len_mid :: "nat \<Rightarrow> nat \<Rightarrow> nat" where "len_mid ld pos_state = ld + 130 + 8 * pos_state"
definition len_high :: "nat \<Rightarrow> nat" where "len_high ld = ld + 258"

lemmas probs_at = a_literal_def a_is_match_def a_is_rep_def a_is_rep0_def a_is_rep1_def a_is_rep2_def a_is_rep0_long_def
  a_dist_slot_def a_dist_special_def a_dist_align_def a_match_len_def a_rep_len_def len_choice_def len_choice2_def len_low_def
  len_mid_def len_high_def

definition literal_mask_calc :: "nat \<Rightarrow> nat \<Rightarrow> u32" where
  "literal_mask_calc lc lp = push_bit lp 0x100 - drop_bit lc 0x100"

text \<open>The macro works on the type of the position, 32 bits in the encoder and 64 in the decoder.\<close>

definition literal_subcoder :: "nat \<Rightarrow> nat \<Rightarrow> u32 \<Rightarrow> 'a::len word \<Rightarrow> byte \<Rightarrow> nat" where
  "literal_subcoder probs lc literal_mask pos prev_byte =
     probs + unat (3 * push_bit lc ((push_bit 8 pos + ucast prev_byte) AND ucast literal_mask))"

definition literal_init :: "nat \<Rightarrow> nat \<Rightarrow> nat \<Rightarrow> prob_store \<Rightarrow> prob_store" where
  "literal_init probs lc lp m = fold (\<lambda>i. bit_reset (probs + i)) [0..<LITERAL_CODER_SIZE * 2 ^ (lc + lp)] m"

definition get_dist_state :: "u32 \<Rightarrow> u32" where
  "get_dist_state len = (if len < DIST_STATES + MATCH_LEN_MIN then len - MATCH_LEN_MIN else DIST_STATES - 1)"

section \<open>The slot of a distance\<close>

definition FASTPOS_BITS :: nat where "FASTPOS_BITS = 13"

text \<open>The table of slots, written by the loops of its generator.\<close>

fun fill_slot :: "nat \<Rightarrow> byte \<Rightarrow> nat \<Rightarrow> byte list \<Rightarrow> nat \<times> byte list" where
  "fill_slot 0 slot c tbl = (c, tbl)"
| "fill_slot (Suc k) slot c tbl = fill_slot k slot (c + 1) (tbl[c := slot])"

fun fill_slots :: "nat \<Rightarrow> nat \<Rightarrow> nat \<Rightarrow> byte list \<Rightarrow> nat \<times> byte list" where
  "fill_slots 0 slot c tbl = (c, tbl)"
| "fill_slots (Suc n) slot c tbl =
     (case fill_slot (2 ^ (slot div 2 - 1)) (of_nat slot) c tbl of (c, tbl) \<Rightarrow> fill_slots n (slot + 1) c tbl)"

definition lzma_fastpos :: "byte list" where
  "lzma_fastpos = snd (fill_slots (2 * FASTPOS_BITS - 2) 2 2 ((replicate (2 ^ FASTPOS_BITS) 0)[1 := 1]))"

definition fastpos_shift :: "nat \<Rightarrow> nat \<Rightarrow> nat" where
  "fastpos_shift extra n = extra + n * (FASTPOS_BITS - 1)"

definition fastpos_limit :: "nat \<Rightarrow> nat \<Rightarrow> u32" where
  "fastpos_limit extra n = push_bit (FASTPOS_BITS + fastpos_shift extra n) 1"

definition fastpos_result :: "u32 \<Rightarrow> nat \<Rightarrow> nat \<Rightarrow> u32" where
  "fastpos_result dist extra n =
     ucast (lzma_fastpos ! unat (drop_bit (fastpos_shift extra n) dist)) + 2 * of_nat (fastpos_shift extra n)"

definition get_dist_slot :: "u32 \<Rightarrow> u32" where
  "get_dist_slot dist =
     (if dist < fastpos_limit 0 0 then ucast (lzma_fastpos ! unat dist)
      else if dist < fastpos_limit 0 1 then fastpos_result dist 0 1
      else fastpos_result dist 0 2)"

text \<open>
  A distance below two is its own slot. For a larger one the slot gives its two highest
  bits and says how many bits are below them.
\<close>

definition slot_base :: "nat \<Rightarrow> nat" where
  "slot_base s = (2 + s mod 2) * 2 ^ (s div 2 - 1)"

definition in_slot :: "nat \<Rightarrow> nat \<Rightarrow> bool" where
  "in_slot d s \<longleftrightarrow> (if s < 2 then d = s else slot_base s \<le> d \<and> d < slot_base s + 2 ^ (s div 2 - 1))"

lemma slot_base_next: "2 \<le> s \<Longrightarrow> slot_base s + 2 ^ (s div 2 - 1) = slot_base (s + 1)"
proof -
  assume s: "2 \<le> s"
  then obtain k where k: "s div 2 = Suc k" by (cases "s div 2") auto
  show ?thesis
  proof (cases "even s")
    case True
    then have "s mod 2 = 0" "(s + 1) mod 2 = 1" "(s + 1) div 2 = Suc k" using k by presburger+
    then show ?thesis using k by (simp add: slot_base_def)
  next
    case False
    then have "s mod 2 = 1" "(s + 1) mod 2 = 0" "(s + 1) div 2 = Suc (Suc k)" using k by presburger+
    then show ?thesis using k by (simp add: slot_base_def)
  qed
qed

lemma fill_slot_fills:
  assumes "fill_slot k slot c tbl = (c', tbl')" "c + k \<le> length tbl"
  shows "c' = c + k \<and> length tbl' = length tbl \<and> (\<forall>i. tbl' ! i = (if c \<le> i \<and> i < c + k then slot else tbl ! i))"
  using assms
proof (induction k arbitrary: c tbl)
  case (Suc k)
  have "c' = c + 1 + k \<and> length tbl' = length (tbl[c := slot])
      \<and> (\<forall>i. tbl' ! i = (if c + 1 \<le> i \<and> i < c + 1 + k then slot else tbl[c := slot] ! i))"
    using Suc.prems by (intro Suc.IH) simp_all
  then show ?case using Suc.prems(2) by (auto simp: nth_list_update)
qed auto

lemma slot_base_mono: "2 \<le> s \<Longrightarrow> s \<le> t \<Longrightarrow> slot_base s \<le> slot_base t"
proof (induction "t - s" arbitrary: t)
  case (Suc k)
  then have "slot_base s \<le> slot_base (t - 1)" by simp
  also have "\<dots> \<le> slot_base (t - 1 + 1)" using slot_base_next [of "t - 1"] Suc.hyps(2) Suc.prems by linarith
  also have "t - 1 + 1 = t" using Suc.hyps(2) by simp
  finally show ?case .
qed simp

lemma fill_slots_fills:
  assumes "fill_slots n s (slot_base s) tbl = (c', tbl')" "2 \<le> s" "slot_base (s + n) \<le> length tbl"
  shows "length tbl' = length tbl \<and> (\<forall>i. i < slot_base s \<longrightarrow> tbl' ! i = tbl ! i)
     \<and> (\<forall>i. i < slot_base (s + n) \<longrightarrow> slot_base s \<le> i \<longrightarrow> (\<exists>t. s \<le> t \<and> t < s + n \<and> in_slot i t \<and> tbl' ! i = of_nat t))"
  using assms
proof (induction n arbitrary: s tbl)
  case (Suc n)
  let ?k = "2 ^ (s div 2 - 1)"
  obtain c1 tbl1 where 1: "fill_slot ?k (of_nat s) (slot_base s) tbl = (c1, tbl1)" by (metis prod.exhaust)
  note base = slot_base_next [OF Suc.prems(2)]
  have "slot_base s + ?k \<le> length tbl"
    using slot_base_mono [of "s + 1" "s + Suc n"] Suc.prems(2,3) unfolding base by simp
  note f = fill_slot_fills [OF 1 this]
  have "fill_slots n (s + 1) (slot_base (s + 1)) tbl1 = (c', tbl')" using Suc.prems(1) 1 f base by simp
  moreover have "slot_base (s + 1 + n) \<le> length tbl1" "2 \<le> s + 1" using f Suc.prems(2,3) by simp_all
  ultimately have "length tbl' = length tbl1 \<and> (\<forall>i. i < slot_base (s + 1) \<longrightarrow> tbl' ! i = tbl1 ! i)
     \<and> (\<forall>i. i < slot_base (s + 1 + n) \<longrightarrow> slot_base (s + 1) \<le> i \<longrightarrow> (\<exists>t. s + 1 \<le> t \<and> t < s + 1 + n \<and> in_slot i t \<and> tbl' ! i = of_nat t))"
    by (intro Suc.IH)
  then have h: "length tbl' = length tbl1" "\<And>i. i < slot_base (s + 1) \<Longrightarrow> tbl' ! i = tbl1 ! i"
    "\<And>i. i < slot_base (s + 1 + n) \<Longrightarrow> slot_base (s + 1) \<le> i \<Longrightarrow> \<exists>t. s + 1 \<le> t \<and> t < s + 1 + n \<and> in_slot i t \<and> tbl' ! i = of_nat t"
    by blast+
  have k: "length tbl1 = length tbl" "tbl1 ! i = (if slot_base s \<le> i \<and> i < slot_base (s + 1) then of_nat s else tbl ! i)" for i
    using f base by simp_all
  have sl: "in_slot i s" if "slot_base s \<le> i" "i < slot_base (s + 1)" for i
    using that base Suc.prems(2) by (simp add: in_slot_def)
  show ?case
  proof (intro conjI allI impI)
    show "length tbl' = length tbl" using h(1) k(1) by simp
    fix i
    have "slot_base s \<le> slot_base (s + 1)" using base by linarith
    then show "tbl' ! i = tbl ! i" if "i < slot_base s" using that h(2) k(2) by simp
    assume i: "i < slot_base (s + Suc n)" "slot_base s \<le> i"
    show "\<exists>t. s \<le> t \<and> t < s + Suc n \<and> in_slot i t \<and> tbl' ! i = of_nat t"
    proof (cases "i < slot_base (s + 1)")
      case True
      then show ?thesis using sl i(2) h(2) k(2) by (intro exI [of _ s]) simp
    next
      case False
      then obtain t where "s + 1 \<le> t" "t < s + 1 + n" "in_slot i t" "tbl' ! i = of_nat t" using h(3) i(1) by (auto simp: not_less)
      then show ?thesis by (intro exI [of _ t]) simp
    qed
  qed
qed auto

lemma lzma_fastpos_slots:
  assumes "i < 2 ^ 13"
  shows "\<exists>t<26. in_slot i t \<and> lzma_fastpos ! i = of_nat t \<and> (2 \<le> i \<longrightarrow> 2 \<le> t)"
proof -
  let ?tbl = "(replicate (2 ^ 13) 0)[1 := 1] :: byte list"
  obtain c' tbl' where 1: "fill_slots 24 2 (slot_base 2) ?tbl = (c', tbl')" by (metis prod.exhaust)
  have sb: "slot_base 2 = 2" "slot_base 26 = 2 ^ 13" by (simp_all add: slot_base_def)
  then have t: "lzma_fastpos = tbl'" using 1 by (simp add: lzma_fastpos_def FASTPOS_BITS_def)
  have f: "length tbl' = length ?tbl \<and> (\<forall>i. i < slot_base 2 \<longrightarrow> tbl' ! i = ?tbl ! i)
     \<and> (\<forall>i. i < slot_base (2 + 24) \<longrightarrow> slot_base 2 \<le> i \<longrightarrow> (\<exists>t. 2 \<le> t \<and> t < 2 + 24 \<and> in_slot i t \<and> tbl' ! i = of_nat t))"
    using fill_slots_fills [OF 1] sb by simp
  show ?thesis
  proof (cases "i < 2")
    case True
    then have "tbl' ! i = ?tbl ! i" using f sb by simp
    moreover have "i = 0 \<or> i = 1" using True by auto
    then have "?tbl ! i = of_nat i" by auto
    ultimately show ?thesis using True t by (intro exI [of _ i]) (simp add: in_slot_def)
  next
    case False
    then have "\<exists>t. 2 \<le> t \<and> t < 2 + 24 \<and> in_slot i t \<and> tbl' ! i = of_nat t" using f assms sb by simp
    then show ?thesis using t by auto
  qed
qed

lemma in_slot_shift:
  assumes "in_slot (d div 2 ^ k) t" "2 \<le> t" shows "in_slot d (t + 2 * k)"
proof -
  have e: "(t + 2 * k) mod 2 = t mod 2" "(t + 2 * k) div 2 - 1 = (t div 2 - 1) + k" using assms(2) by auto
  have "slot_base t \<le> d div 2 ^ k" "d div 2 ^ k < slot_base t + 2 ^ (t div 2 - 1)" using assms by (simp_all add: in_slot_def)
  then have "slot_base t * 2 ^ k \<le> d" "d < (slot_base t + 2 ^ (t div 2 - 1)) * 2 ^ k"
    by (simp_all add: less_eq_div_iff_mult_less_eq div_less_iff_less_mult)
  then show ?thesis using assms(2) unfolding in_slot_def slot_base_def e by (simp add: power_add algebra_simps)
qed

lemma get_dist_slot_correct:
  shows "in_slot (unat dist) (unat (get_dist_slot dist))" and "unat (get_dist_slot dist) < 64"
proof -
  have small: "unat (ucast (lzma_fastpos ! i) :: u32) < 26 \<and> in_slot i (unat (ucast (lzma_fastpos ! i) :: u32))
      \<and> (2 \<le> i \<longrightarrow> 2 \<le> unat (ucast (lzma_fastpos ! i) :: u32))" if i: "i < 2 ^ 13" for i
  proof -
    obtain t where t: "t < 26" "in_slot i t" "lzma_fastpos ! i = of_nat t" "2 \<le> i \<longrightarrow> 2 \<le> t" using lzma_fastpos_slots [OF i] by blast
    have "unat (ucast (of_nat t :: byte) :: u32) = t" using t(1) by (simp add: unat_ucast_up unat_of_nat)
    then show ?thesis using t by simp
  qed
  have big: "in_slot (unat dist) (unat (fastpos_result dist 0 n)) \<and> unat (fastpos_result dist 0 n) < 64"
    if n: "unat dist div 2 ^ (12 * n) < 2 ^ 13" "2 \<le> unat dist div 2 ^ (12 * n)" "n \<le> 1 \<or> n = 2 \<and> unat dist div 2 ^ (12 * n) < 2 ^ 8" for n
  proof -
    have i: "unat (drop_bit (n * 12) dist) = unat dist div 2 ^ (12 * n)" by (simp only: unat_drop_bit mult.commute)
    define t where "t = unat (ucast (lzma_fastpos ! (unat dist div 2 ^ (12 * n))) :: u32)"
    have t: "t < 26" "in_slot (unat dist div 2 ^ (12 * n)) t" "2 \<le> t" using small [OF n(1)] n(2) by (simp_all add: t_def)
    have "t < 16" if "n = 2"
    proof (rule ccontr)
      assume "\<not> t < 16"
      then have "slot_base 16 \<le> slot_base t" by (intro slot_base_mono) simp_all
      moreover have "slot_base t < 2 ^ 8" using t n(3) that by (auto simp: in_slot_def)
      ultimately show False by (simp add: slot_base_def)
    qed
    then have b: "t + 24 * n < 64" using t(1) n(3) by auto
    have "unat (fastpos_result dist 0 n) = (t + unat (2 * of_nat (n * 12) :: u32)) mod 2 ^ 32"
      by (simp add: fastpos_result_def fastpos_shift_def FASTPOS_BITS_def i unat_word_ariths t_def)
    also have "unat (2 * of_nat (n * 12) :: u32) = 24 * n" using n(3) by (cases n) auto
    finally have "unat (fastpos_result dist 0 n) = t + 24 * n" using b by simp
    then show ?thesis using b in_slot_shift [OF t(2,3)] by (simp add: mult.assoc [symmetric])
  qed
  have lim: "fastpos_limit 0 0 = 2 ^ 13" "fastpos_limit 0 (Suc 0) = 2 ^ 25"
    by (simp_all add: fastpos_limit_def fastpos_shift_def FASTPOS_BITS_def)
  have u: "unat dist < 2 ^ 32" using unsigned_less [of dist] by simp
  consider "unat dist < 2 ^ 13" | "\<not> unat dist < 2 ^ 13" "unat dist < 2 ^ 25" | "\<not> unat dist < 2 ^ 25" by blast
  then have "in_slot (unat dist) (unat (get_dist_slot dist)) \<and> unat (get_dist_slot dist) < 64"
  proof cases
    case 1
    then show ?thesis using small [OF 1] by (simp add: get_dist_slot_def lim word_less_nat_alt)
  next
    case 2
    then show ?thesis using big [of 1] by (simp add: get_dist_slot_def lim word_less_nat_alt)
  next
    case 3
    then show ?thesis using big [of 2] u by (simp add: get_dist_slot_def lim word_less_nat_alt)
  qed
  then show "in_slot (unat dist) (unat (get_dist_slot dist))" "unat (get_dist_slot dist) < 64" by simp_all
qed

text \<open>The base and the number of the lower bits, as both coders compute them from the slot.\<close>

lemma dist_footer:
  assumes "in_slot (unat dist) (unat slot)" "unat slot < 64" "DIST_MODEL_START \<le> slot"
  shows "unat (drop_bit 1 slot - 1) = unat slot div 2 - 1" "unat slot div 2 - 1 \<le> 30" "1 \<le> unat slot div 2 - 1"
    "unat (push_bit (unat slot div 2 - 1) (2 OR (slot AND 1))) = slot_base (unat slot)"
    "2 + (slot AND 1) = 2 OR (slot AND 1)"
    "unat (dist - push_bit (unat slot div 2 - 1) (2 OR (slot AND 1))) < 2 ^ (unat slot div 2 - 1)"
proof -
  let ?f = "unat slot div 2 - 1"
  have s: "4 \<le> unat slot" using assms(3) by (simp add: DIST_MODEL_START_def word_le_nat_alt)
  show f: "?f \<le> 30" "1 \<le> ?f" using s assms(2) by auto
  have "unat (drop_bit 1 slot) = unat slot div 2" by (simp only: unat_drop_bit) simp
  then show "unat (drop_bit 1 slot - 1) = ?f" using s by (simp add: unat_sub word_le_nat_alt)
  show e: "2 + (slot AND 1) = 2 OR (slot AND 1)"
    by (rule disjunctive_add) (auto simp: bit_simps)
  have one: "unat (slot AND 1) = unat slot mod 2" by (simp add: and_one_eq unat_mod)
  have "unat (2 OR (slot AND 1)) = 2 + unat slot mod 2"
    unfolding e [symmetric] by (simp add: unat_word_ariths one)
  moreover have "(2 + unat slot mod 2) * 2 ^ ?f < 2 ^ 32"
  proof -
    have "(2 + unat slot mod 2) * 2 ^ ?f \<le> 3 * 2 ^ ?f" by (intro mult_le_mono) auto
    also have "\<dots> \<le> 3 * 2 ^ 30" using f(1) by (intro mult_le_mono power_increasing) auto
    finally show ?thesis by simp
  qed
  ultimately show b: "unat (push_bit ?f (2 OR (slot AND 1))) = slot_base (unat slot)"
    by (subst unsigned_push_bit_eq, subst push_bit_eq_mult) (simp add: slot_base_def take_bit_nat_eq_self)
  have "slot_base (unat slot) \<le> unat dist" "unat dist < slot_base (unat slot) + 2 ^ ?f"
    using assms(1) s by (simp_all add: in_slot_def)
  then show "unat (dist - push_bit ?f (2 OR (slot AND 1))) < 2 ^ ?f"
    unfolding unat_sub [unfolded word_le_nat_alt, OF \<open>slot_base (unat slot) \<le> unat dist\<close> [folded b]] b by linarith
qed

section \<open>The coder of a literal\<close>

lemma and_le_right_nat: "(x :: nat) AND y \<le> y"
proof -
  have "int (x AND y) \<le> int y" unfolding of_nat_and_eq by (rule AND_upper2) simp
  then show ?thesis by simp
qed

lemma and_take_bit_nat:
  fixes x y :: nat assumes "y < 2 ^ n" shows "x AND y = take_bit n x AND y"
proof -
  have "x AND y < 2 ^ n" using assms and_le_right_nat le_less_trans by blast
  then have "x AND y = take_bit n (x AND y)" by (simp only: take_bit_nat_eq_self)
  also have "\<dots> = take_bit n x AND take_bit n y" by (rule take_bit_and)
  also have "take_bit n y = y" using assms by (rule take_bit_nat_eq_self)
  finally show ?thesis .
qed

lemma literal_subcoder_nat:
  fixes pos :: "'a::len word"
  assumes "unat literal_mask < 2 ^ 12" "lc \<le> 4" "18 \<le> LENGTH('a)"
  shows "literal_subcoder probs lc literal_mask pos b
     = probs + 3 * 2 ^ lc * ((unat pos mod 16 * 256 + unat b) AND unat literal_mask)"
proof -
  define L where "L = LENGTH('a)"
  define N where "N = (unat pos mod 16 * 256 + unat b) AND unat literal_mask"
  have p: "(2 :: nat) ^ 18 \<le> 2 ^ L" using assms(3) by (intro power_increasing) (simp_all add: L_def)
  have b: "unat b < 256" by (rule unat_byte_less)
  have m: "unat (ucast literal_mask :: 'a word) = unat literal_mask"
    using assms(1) p by (simp add: unsigned_ucast_eq take_bit_nat_eq_self L_def)
  have ub: "unat (ucast b :: 'a word) = unat b"
    using b p by (simp add: unsigned_ucast_eq take_bit_nat_eq_self L_def)
  have pu: "unat (push_bit 8 pos) = (unat pos * 256) mod 2 ^ L"
    by (subst unsigned_push_bit_eq, subst push_bit_eq_mult) (simp add: take_bit_eq_mod L_def)
  have "unat (push_bit 8 pos + ucast b) mod 2 ^ 12 = unat pos mod 16 * 256 + unat b"
  proof -
    have d: "(2 :: nat) ^ 12 dvd 2 ^ L" using assms(3) by (intro le_imp_power_dvd) (simp add: L_def)
    have "unat (push_bit 8 pos + ucast b) mod 2 ^ 12 = (unat pos * 256 + unat b) mod 2 ^ 12"
      unfolding unat_word_ariths pu ub L_def [symmetric] mod_mod_cancel [OF d] by (metis d mod_add_left_eq mod_mod_cancel)
    also have "unat pos * 256 + unat b = (unat pos mod 16 * 256 + unat b) + unat pos div 16 * 2 ^ 12"
    proof -
      have "x * 256 + y = (r * 256 + y) + q * 2 ^ 12" if "q * 16 + r = x" for x y q r :: nat using that by auto
      from this [OF div_mult_mod_eq] show ?thesis .
    qed
    also have "\<dots> mod 2 ^ 12 = (unat pos mod 16 * 256 + unat b) mod 2 ^ 12" by (rule mod_mult_self1)
    finally show ?thesis using b by simp
  qed
  then have t: "take_bit 12 (unat (push_bit 8 pos + ucast b)) = unat pos mod 16 * 256 + unat b" by (simp add: take_bit_eq_mod)
  have "unat ((push_bit 8 pos + ucast b) AND ucast literal_mask) = unat (push_bit 8 pos + ucast b) AND unat literal_mask"
    by (simp only: unsigned_and_eq m)
  also have "\<dots> = N" unfolding N_def t [symmetric] by (rule and_take_bit_nat [OF assms(1)])
  finally have n: "unat ((push_bit 8 pos + ucast b) AND ucast literal_mask) = N" .
  have N: "N < 2 ^ 12" unfolding N_def using assms(1) and_le_right_nat le_less_trans by blast
  have le: "3 * (2 ^ lc * N) < 2 ^ L"
  proof -
    have "2 ^ lc * N \<le> 2 ^ 4 * N" using assms(2) by (intro mult_le_mono1 power_increasing) simp_all
    then have "3 * (2 ^ lc * N) \<le> 48 * N" by simp
    also have "\<dots> < 2 ^ 18" using N by simp
    finally show ?thesis using p by (rule less_le_trans)
  qed
  have "unat (push_bit lc ((push_bit 8 pos + ucast b) AND ucast literal_mask)) = 2 ^ lc * N"
    using le by (subst unsigned_push_bit_eq, subst push_bit_eq_mult) (simp add: n take_bit_nat_eq_self L_def mult.commute)
  moreover have "take_bit LENGTH('a) (3 :: nat) = 3" 
    by (rule take_bit_nat_eq_self, rule less_le_trans [OF _ p [unfolded L_def]]) simp
  then have "unat (3 * w) = 3 * unat w" if "3 * unat w < 2 ^ L" for w :: "'a word"
    using that by (simp add: unat_word_ariths L_def)
  ultimately have "unat (3 * push_bit lc ((push_bit 8 pos + ucast b) AND ucast literal_mask)) = 3 * (2 ^ lc * N)"
    using le by metis
  then show ?thesis by (simp add: literal_subcoder_def N_def mult.assoc)
qed

text \<open>With valid options every node of a literal coder lies in the array of literals.\<close>

lemma literal_mask_bits:
  assumes "lc + lp \<le> 4"
  shows "unat (literal_mask_calc lc lp) < 2 ^ 12" "2 ^ lc * unat (literal_mask_calc lc lp) + 2 ^ 8 \<le> 2 ^ 12"
proof -
  have "lc \<in> {0, 1, 2, 3, 4}" "lp \<in> {0, 1, 2, 3, 4}" using assms by auto
  then show "unat (literal_mask_calc lc lp) < 2 ^ 12" "2 ^ lc * unat (literal_mask_calc lc lp) + 2 ^ 8 \<le> 2 ^ 12"
    using assms by (auto simp: literal_mask_calc_def)
qed

lemma literal_subcoder_below:
  fixes pos :: "'a::len word"
  assumes "lc + lp \<le> 4" "18 \<le> LENGTH('a)"
  shows "literal_subcoder a_literal lc (literal_mask_calc lc lp) pos b + 0x300 \<le> 12288"
proof -
  let ?m = "unat (literal_mask_calc lc lp)"
  have "2 ^ lc * ((unat pos mod 16 * 256 + unat b) AND ?m) \<le> 2 ^ lc * ?m" by (intro mult_le_mono2) (simp add: and_le_right_nat)
  then have "2 ^ lc * ((unat pos mod 16 * 256 + unat b) AND ?m) + 2 ^ 8 \<le> 2 ^ 12" using literal_mask_bits(2) [OF assms(1)] by linarith
  then show ?thesis
    using literal_subcoder_nat [OF literal_mask_bits(1) [OF assms(1)] _ assms(2), where lc = lc and pos = pos and probs = a_literal and b = b] assms
    by (simp add: a_literal_def mult.assoc)
qed

end
