(* ===== verification/Lzma_Encoder.thy ===== *)
theory Lzma_Encoder
  imports Lzma_Common Lzma_Rc_Encoder
begin

text \<open>
  The LZMA encoder (\<^verbatim>\<open>lzma/lzma_encoder.c\<close> of liblzma) as far as it turns literals and matches
  into bits for the range encoder, with the prices it keeps for the search of good matches
  (\<^verbatim>\<open>rangecoder/price.h\<close>). Which literal or match is coded next is decided elsewhere. A result
  \<open>None\<close> stands for a violated assertion or an access outside an array.
\<close>

section \<open>Prices\<close>

definition RC_MOVE_REDUCING_BITS :: nat where "RC_MOVE_REDUCING_BITS = 4"

definition lzma_rc_prices :: "byte list" where
  "lzma_rc_prices = [
     128, 103,  91,  84,  78,  73,  69,  66,  63,  61,  58,  56,  54,  52,  51,  49,
      48,  46,  45,  44,  43,  42,  41,  40,  39,  38,  37,  36,  35,  34,  34,  33,
      32,  31,  31,  30,  29,  29,  28,  28,  27,  26,  26,  25,  25,  24,  24,  23,
      23,  22,  22,  22,  21,  21,  20,  20,  19,  19,  19,  18,  18,  17,  17,  17,
      16,  16,  16,  15,  15,  15,  14,  14,  14,  13,  13,  13,  12,  12,  12,  11,
      11,  11,  11,  10,  10,  10,  10,   9,   9,   9,   9,   8,   8,   8,   8,   7,
       7,   7,   7,   6,   6,   6,   6,   5,   5,   5,   5,   5,   4,   4,   4,   4,
       3,   3,   3,   3,   3,   2,   2,   2,   2,   2,   2,   1,   1,   1,   1,   1]"

definition rc_bit_price :: "probability \<Rightarrow> u32 \<Rightarrow> u32" where
  "rc_bit_price prob b =
     ucast (lzma_rc_prices ! unat (drop_bit RC_MOVE_REDUCING_BITS (ucast prob XOR ((0 - b) AND (RC_BIT_MODEL_TOTAL - 1)))))"

definition rc_bit_0_price :: "probability \<Rightarrow> u32" where
  "rc_bit_0_price prob = ucast (lzma_rc_prices ! unat (drop_bit RC_MOVE_REDUCING_BITS prob))"

definition rc_bit_1_price :: "probability \<Rightarrow> u32" where
  "rc_bit_1_price prob =
     ucast (lzma_rc_prices ! unat (drop_bit RC_MOVE_REDUCING_BITS (ucast prob XOR (RC_BIT_MODEL_TOTAL - 1))))"

text \<open>The loop ends at the root of the tree, whose index is one; it would not end from zero.\<close>

function bittree_price_loop :: "nat \<Rightarrow> u32 \<Rightarrow> u32 \<Rightarrow> prob_store \<Rightarrow> u32 option" where
  "bittree_price_loop probs symbol price m =
     (let b = symbol AND 1;
          symbol' = drop_bit 1 symbol;
          price = price + rc_bit_price (m (probs + unat symbol')) b
      in if symbol' = 0 then None else if symbol' \<noteq> 1 then bittree_price_loop probs symbol' price m else Some price)"
  by pat_completeness auto
termination
proof (relation "measure (\<lambda>(probs, symbol, price, m). unat symbol)", goal_cases)
  case (2 probs symbol price m b symbol' price')
  have "unat (drop_bit 1 symbol) = unat symbol div 2" by (simp only: unat_drop_bit) simp
  moreover have "unat (drop_bit 1 symbol) \<noteq> 0" using 2 by (simp only: unat_eq_zero) simp
  ultimately show ?case using 2 by simp
qed simp

definition rc_bittree_price :: "nat \<Rightarrow> nat \<Rightarrow> u32 \<Rightarrow> prob_store \<Rightarrow> u32 option" where
  "rc_bittree_price probs bit_levels symbol m = bittree_price_loop probs (symbol + push_bit bit_levels 1) 0 m"

declare bittree_price_loop.simps [simp del]

section \<open>The state of the encoder\<close>

text \<open>The probabilities of the length encoders are in the store of the encoder, at their own addresses.\<close>

record lzma_length_encoder =
  le_prices :: "u32 list list"
  le_table_size :: u32
  le_counters :: "u32 list"

record lzma_lzma1_encoder =
  e_rc :: lzma_range_encoder
  e_uncomp_size :: u64
  e_state :: lzma_lzma_state
  e_reps :: "u32 list"
  e_fast_mode :: bool
  e_pos_mask :: u32
  e_literal_context_bits :: nat
  e_literal_mask :: u32
  e_probs :: prob_store
  e_match_len :: lzma_length_encoder
  e_rep_len :: lzma_length_encoder
  e_match_price_count :: u32
  e_align_price_count :: u32

text \<open>The window of the match finder: the bytes up to \<open>read_pos - read_ahead\<close> are encoded.\<close>

record lzma_mf =
  mf_buffer :: "byte list"
  mf_read_pos :: nat
  mf_read_ahead :: nat

text \<open>The byte that lies \<open>k\<close> bytes before the next one to be encoded.\<close>

definition mf_byte :: "lzma_mf \<Rightarrow> nat \<Rightarrow> byte option" where
  "mf_byte mf k =
     (if mf_read_ahead mf + k \<le> mf_read_pos mf \<and> mf_read_pos mf - mf_read_ahead mf - k < length (mf_buffer mf)
      then Some (mf_buffer mf ! (mf_read_pos mf - mf_read_ahead mf - k)) else None)"

section \<open>Literals\<close>

fun literal_matched_loop :: "nat \<Rightarrow> lzma_range_encoder \<Rightarrow> nat \<Rightarrow> u32 \<Rightarrow> u32 \<Rightarrow> u32 \<Rightarrow> lzma_range_encoder option" where
  "literal_matched_loop 0 rc subcoder match_byte offset symbol = None"
| "literal_matched_loop (Suc fuel) rc subcoder match_byte offset symbol =
     (let match_byte = push_bit 1 match_byte;
          match_bit = match_byte AND offset;
          subcoder_index = offset + match_bit + drop_bit 8 symbol;
          b = drop_bit 7 symbol AND 1 in do {
        rc \<leftarrow> rc_bit rc (subcoder + unat subcoder_index) b;
        (let symbol = push_bit 1 symbol;
             offset = offset AND NOT (match_byte XOR symbol)
         in if symbol < push_bit 16 1 then literal_matched_loop fuel rc subcoder match_byte offset symbol else Some rc) })"

text \<open>The loop runs once for each bit of a byte.\<close>

definition literal_matched :: "lzma_range_encoder \<Rightarrow> nat \<Rightarrow> u32 \<Rightarrow> u32 \<Rightarrow> lzma_range_encoder option" where
  "literal_matched rc subcoder match_byte symbol = literal_matched_loop 8 rc subcoder match_byte 0x100 (symbol + push_bit 8 1)"

definition literal_encode :: "lzma_lzma1_encoder \<Rightarrow> lzma_mf \<Rightarrow> u32 \<Rightarrow> lzma_lzma1_encoder option" where
  "literal_encode coder mf position = do {
     cur_byte \<leftarrow> mf_byte mf 0;
     prev_byte \<leftarrow> mf_byte mf 1;
     let subcoder = literal_subcoder a_literal (e_literal_context_bits coder) (e_literal_mask coder) position prev_byte;
     if is_literal_state (e_state coder)
     then do {
       rc \<leftarrow> rc_bittree (e_rc coder) subcoder 8 (ucast cur_byte);
       Some (coder\<lparr>e_state := update_literal_normal (e_state coder), e_rc := rc\<rparr>) }
     else do {
       match_byte \<leftarrow> mf_byte mf (unat (e_reps coder ! 0) + 1);
       rc \<leftarrow> literal_matched (e_rc coder) subcoder (ucast match_byte) (ucast cur_byte);
       Some (coder\<lparr>e_state := update_literal_matched (e_state coder), e_rc := rc\<rparr>) } }"

section \<open>Lengths\<close>

definition length_price :: "nat \<Rightarrow> nat \<Rightarrow> prob_store \<Rightarrow> nat \<Rightarrow> u32 option" where
  "length_price ld pos_state m i =
     (let a0 = rc_bit_0_price (m (len_choice ld));
          a1 = rc_bit_1_price (m (len_choice ld));
          b0 = a1 + rc_bit_0_price (m (len_choice2 ld));
          b1 = a1 + rc_bit_1_price (m (len_choice2 ld))
      in if i < unat LEN_LOW_SYMBOLS
         then map_option ((+) a0) (rc_bittree_price (len_low ld pos_state) LEN_LOW_BITS (of_nat i) m)
         else if i < unat (LEN_LOW_SYMBOLS + LEN_MID_SYMBOLS)
         then map_option ((+) b0) (rc_bittree_price (len_mid ld pos_state) LEN_MID_BITS (of_nat i - LEN_LOW_SYMBOLS) m)
         else map_option ((+) b1)
           (rc_bittree_price (len_high ld) LEN_HIGH_BITS (of_nat i - LEN_LOW_SYMBOLS - LEN_MID_SYMBOLS) m))"

fun update_prices :: "nat \<Rightarrow> nat \<Rightarrow> prob_store \<Rightarrow> nat \<Rightarrow> nat \<Rightarrow> u32 list \<Rightarrow> u32 list option" where
  "update_prices ld pos_state m i 0 prices = Some prices"
| "update_prices ld pos_state m i (Suc left) prices =
     (if i < length prices
      then do { p \<leftarrow> length_price ld pos_state m i; update_prices ld pos_state m (i + 1) left (prices[i := p]) }
      else None)"

definition length_update_prices :: "nat \<Rightarrow> nat \<Rightarrow> prob_store \<Rightarrow> lzma_length_encoder \<Rightarrow> lzma_length_encoder option" where
  "length_update_prices ld pos_state m lenc =
     (if pos_state < length (le_counters lenc) \<and> pos_state < length (le_prices lenc)
      then do {
        prices \<leftarrow> update_prices ld pos_state m 0 (unat (le_table_size lenc)) (le_prices lenc ! pos_state);
        Some (lenc\<lparr>le_counters := (le_counters lenc)[pos_state := le_table_size lenc],
               le_prices := (le_prices lenc)[pos_state := prices]\<rparr>) }
      else None)"

definition length_bits :: "lzma_range_encoder \<Rightarrow> nat \<Rightarrow> nat \<Rightarrow> u32 \<Rightarrow> lzma_range_encoder option" where
  "length_bits rc ld pos_state len =
     (let len = len - MATCH_LEN_MIN
      in if len < LEN_LOW_SYMBOLS
         then do {
           rc \<leftarrow> rc_bit rc (len_choice ld) 0;
           rc_bittree rc (len_low ld pos_state) LEN_LOW_BITS len }
         else do {
           rc \<leftarrow> rc_bit rc (len_choice ld) 1;
           (let len = len - LEN_LOW_SYMBOLS
            in if len < LEN_MID_SYMBOLS
               then do {
                 rc \<leftarrow> rc_bit rc (len_choice2 ld) 0;
                 rc_bittree rc (len_mid ld pos_state) LEN_MID_BITS len }
               else do {
                 rc \<leftarrow> rc_bit rc (len_choice2 ld) 1;
                 rc_bittree rc (len_high ld) LEN_HIGH_BITS (len - LEN_MID_SYMBOLS) }) })"

definition length_encode ::
    "lzma_range_encoder \<Rightarrow> nat \<Rightarrow> lzma_length_encoder \<Rightarrow> prob_store \<Rightarrow> nat \<Rightarrow> u32 \<Rightarrow> bool
     \<Rightarrow> (lzma_range_encoder \<times> lzma_length_encoder) option" where
  "length_encode rc ld lenc m pos_state len fast_mode =
     (if len \<le> MATCH_LEN_MAX
      then do {
        rc \<leftarrow> length_bits rc ld pos_state len;
        if \<not> fast_mode
        then if pos_state < length (le_counters lenc)
             then (let counter = le_counters lenc ! pos_state - 1;
                       lenc = lenc\<lparr>le_counters := (le_counters lenc)[pos_state := counter]\<rparr>
                   in if counter = 0 then map_option (Pair rc) (length_update_prices ld pos_state m lenc) else Some (rc, lenc))
             else None
        else Some (rc, lenc) }
      else None)"

section \<open>Matches\<close>

definition dist_bits :: "lzma_range_encoder \<Rightarrow> u32 \<Rightarrow> u32 \<Rightarrow> u32 \<Rightarrow> (lzma_range_encoder \<times> u32) option" where
  "dist_bits rc align_price_count distance len =
     (let dist_slot = get_dist_slot distance;
          dist_state = get_dist_state len in do {
        rc \<leftarrow> rc_bittree rc (a_dist_slot (unat dist_state)) DIST_SLOT_BITS dist_slot;
        if dist_slot \<ge> DIST_MODEL_START
        then (let footer_bits = drop_bit 1 dist_slot - 1;
                  base = push_bit (unat footer_bits) (2 OR (dist_slot AND 1));
                  dist_reduced = distance - base
              in if dist_slot < DIST_MODEL_END
                 then map_option (\<lambda>rc. (rc, align_price_count))
                   (rc_bittree_reverse rc (a_dist_special + unat base - unat dist_slot - 1) (unat footer_bits) dist_reduced)
                 else do {
                   rc \<leftarrow> rc_direct rc (drop_bit ALIGN_BITS dist_reduced) (unat footer_bits - ALIGN_BITS);
                   rc \<leftarrow> rc_bittree_reverse rc a_dist_align ALIGN_BITS (dist_reduced AND ALIGN_MASK);
                   Some (rc, align_price_count + 1) })
        else Some (rc, align_price_count) })"

definition match_encode :: "lzma_lzma1_encoder \<Rightarrow> nat \<Rightarrow> u32 \<Rightarrow> u32 \<Rightarrow> lzma_lzma1_encoder option" where
  "match_encode coder pos_state distance len = do {
     let coder = coder\<lparr>e_state := update_match (e_state coder)\<rparr>;
     (rc, lenc) \<leftarrow> length_encode (e_rc coder) a_match_len (e_match_len coder) (e_probs coder) pos_state len (e_fast_mode coder);
     (rc, count) \<leftarrow> dist_bits rc (e_align_price_count coder) distance len;
     Some (coder\<lparr>e_rc := rc, e_match_len := lenc, e_align_price_count := count,
       e_reps := [distance, e_reps coder ! 0, e_reps coder ! 1, e_reps coder ! 2],
       e_match_price_count := e_match_price_count coder + 1\<rparr>) }"

definition rep_bits :: "lzma_range_encoder \<Rightarrow> lzma_lzma_state \<Rightarrow> nat \<Rightarrow> u32 \<Rightarrow> u32 \<Rightarrow> lzma_range_encoder option" where
  "rep_bits rc state pos_state rep len =
     (if rep = 0
      then do {
        rc \<leftarrow> rc_bit rc (a_is_rep0 state) 0;
        rc_bit rc (a_is_rep0_long state pos_state) (if len \<noteq> 1 then 1 else 0) }
      else do {
        rc \<leftarrow> rc_bit rc (a_is_rep0 state) 1;
        if rep = 1 then rc_bit rc (a_is_rep1 state) 0
        else do {
          rc \<leftarrow> rc_bit rc (a_is_rep1 state) 1;
          rc_bit rc (a_is_rep2 state) (rep - 2) } })"

text \<open>The distance of a repeated match moves to the front.\<close>

definition rep_reps :: "u32 list \<Rightarrow> u32 \<Rightarrow> u32 list" where
  "rep_reps reps rep =
     (if rep = 0 then reps
      else let distance = reps ! unat rep;
               reps = (if rep = 1 then reps
                       else let reps = (if rep = 3 then reps[3 := reps ! 2] else reps) in reps[2 := reps ! 1]);
               reps = reps[1 := reps ! 0]
           in reps[0 := distance])"

definition rep_match :: "lzma_lzma1_encoder \<Rightarrow> nat \<Rightarrow> u32 \<Rightarrow> u32 \<Rightarrow> lzma_lzma1_encoder option" where
  "rep_match coder pos_state rep len = do {
     rc \<leftarrow> rep_bits (e_rc coder) (e_state coder) pos_state rep len;
     let coder = coder\<lparr>e_rc := rc, e_reps := rep_reps (e_reps coder) rep\<rparr>;
     if len = 1 then Some (coder\<lparr>e_state := update_short_rep (e_state coder)\<rparr>)
     else do {
       (rc, lenc) \<leftarrow> length_encode rc a_rep_len (e_rep_len coder) (e_probs coder) pos_state len (e_fast_mode coder);
       Some (coder\<lparr>e_rc := rc, e_rep_len := lenc, e_state := update_long_rep (e_state coder)\<rparr>) } }"

definition UINT32_MAX :: u32 where "UINT32_MAX = 0xFFFFFFFF"

definition encode_symbol :: "lzma_lzma1_encoder \<Rightarrow> lzma_mf \<Rightarrow> u32 \<Rightarrow> u32 \<Rightarrow> u32 \<Rightarrow> (lzma_lzma1_encoder \<times> lzma_mf) option" where
  "encode_symbol coder mf back_res len position =
     (let pos_state = unat (position AND e_pos_mask coder);
          is_match = a_is_match (e_state coder) pos_state in do {
        coder \<leftarrow>
          (if back_res = UINT32_MAX
           then if len = 1
                then do { rc \<leftarrow> rc_bit (e_rc coder) is_match 0; literal_encode (coder\<lparr>e_rc := rc\<rparr>) mf position }
                else None
           else do {
             rc \<leftarrow> rc_bit (e_rc coder) is_match 1;
             if back_res < REPS
             then do {
               rc \<leftarrow> rc_bit rc (a_is_rep (e_state coder)) 1;
               rep_match (coder\<lparr>e_rc := rc\<rparr>) pos_state back_res len }
             else do {
               rc \<leftarrow> rc_bit rc (a_is_rep (e_state coder)) 0;
               match_encode (coder\<lparr>e_rc := rc\<rparr>) pos_state (back_res - REPS) len } });
        if unat len \<le> mf_read_ahead mf then Some (coder, mf\<lparr>mf_read_ahead := mf_read_ahead mf - unat len\<rparr>) else None })"

text \<open>
  The first symbol of a stream is always a literal; \<open>encode_init\<close> codes it, after the match
  finder has skipped one byte, and starts the count of bytes.
\<close>

definition encode_first :: "lzma_lzma1_encoder \<Rightarrow> lzma_mf \<Rightarrow> lzma_lzma1_encoder option" where
  "encode_first coder mf =
     (if mf_buffer mf = [] then None
      else do {
        rc \<leftarrow> rc_bit (e_rc coder) (a_is_match 0 0) 0;
        rc \<leftarrow> rc_bittree rc (a_literal + 0) 8 (ucast (mf_buffer mf ! 0));
        Some (coder\<lparr>e_rc := rc, e_uncomp_size := e_uncomp_size coder + 1\<rparr>) })"

definition encode_eopm :: "lzma_lzma1_encoder \<Rightarrow> u32 \<Rightarrow> lzma_lzma1_encoder option" where
  "encode_eopm coder position =
     (let pos_state = unat (position AND e_pos_mask coder) in do {
        rc \<leftarrow> rc_bit (e_rc coder) (a_is_match (e_state coder) pos_state) 1;
        rc \<leftarrow> rc_bit rc (a_is_rep (e_state coder)) 0;
        match_encode (coder\<lparr>e_rc := rc\<rparr>) pos_state UINT32_MAX MATCH_LEN_MIN })"

section \<open>The bits of a symbol\<close>

text \<open>
  What the bits of a symbol are, for the encoder and for the decoder. The function \<open>look\<close>
  gives the byte that lies so many bytes before the next one to be coded.
\<close>

fun matched_items :: "nat \<Rightarrow> nat \<Rightarrow> u32 \<Rightarrow> u32 \<Rightarrow> u32 \<Rightarrow> u32 \<Rightarrow> item list" where
  "matched_items probs 0 match_byte offset symbol v = []"
| "matched_items probs (Suc n) match_byte offset symbol v =
     (let match_byte = push_bit 1 match_byte;
          match_bit = match_byte AND offset;
          b = bit v n
      in Bit (probs + unat (offset + match_bit + symbol)) b
         # matched_items probs n match_byte (if b then offset AND match_bit else offset AND NOT match_bit)
             (push_bit 1 symbol + of_bool b) v)"

definition literal_items :: "lzma_lzma_state \<Rightarrow> nat \<Rightarrow> byte \<Rightarrow> byte \<Rightarrow> item list" where
  "literal_items state subcoder match_byte cur_byte =
     (if is_literal_state state then tree_items subcoder 8 (ucast cur_byte) 1
      else matched_items subcoder 8 (ucast match_byte) 0x100 1 (ucast cur_byte))"

definition len_items :: "nat \<Rightarrow> nat \<Rightarrow> u32 \<Rightarrow> item list" where
  "len_items ld pos_state len =
     (let len = len - 2
      in if len < 8 then Bit (len_choice ld) False # tree_items (len_low ld pos_state) 3 len 1
         else if len - 8 < 8 then Bit (len_choice ld) True # Bit (len_choice2 ld) False # tree_items (len_mid ld pos_state) 3 (len - 8) 1
         else Bit (len_choice ld) True # Bit (len_choice2 ld) True # tree_items (len_high ld) 8 (len - 8 - 8) 1)"

definition slot_items :: "u32 \<Rightarrow> u32 \<Rightarrow> item list" where
  "slot_items slot dist =
     (if slot < 4 then []
      else let k = unat slot div 2 - 1;
               base = push_bit k (2 OR (slot AND 1));
               low = dist - base
           in if slot < 14 then reverse_items (a_dist_special + unat base - unat slot - 1) k low 1
              else direct_items (k - 4) (drop_bit 4 low) @ reverse_items a_dist_align 4 (low AND 15) 1)"

definition dist_items :: "u32 \<Rightarrow> u32 \<Rightarrow> item list" where
  "dist_items dist len =
     tree_items (a_dist_slot (unat (get_dist_state len))) 6 (get_dist_slot dist) 1 @ slot_items (get_dist_slot dist) dist"

definition rep_items :: "lzma_lzma_state \<Rightarrow> nat \<Rightarrow> u32 \<Rightarrow> u32 \<Rightarrow> item list" where
  "rep_items state pos_state rep len =
     (if rep = 0 then [Bit (a_is_rep0 state) False, Bit (a_is_rep0_long state pos_state) (len \<noteq> 1)]
      else if rep = 1 then [Bit (a_is_rep0 state) True, Bit (a_is_rep1 state) False]
      else [Bit (a_is_rep0 state) True, Bit (a_is_rep1 state) True, Bit (a_is_rep2 state) (rep = 3)])
     @ (if len = 1 then [] else len_items a_rep_len pos_state len)"

definition symbol_items ::
    "nat \<Rightarrow> u32 \<Rightarrow> u32 \<Rightarrow> lzma_lzma_state \<Rightarrow> u32 list \<Rightarrow> u32 \<Rightarrow> (nat \<Rightarrow> byte) \<Rightarrow> u32 \<Rightarrow> u32 \<Rightarrow> item list" where
  "symbol_items lc literal_mask pos_mask state reps position look back_res len =
     (let pos_state = unat (position AND pos_mask);
          is_match = Bit (a_is_match state pos_state)
      in if back_res = UINT32_MAX
         then is_match False # literal_items state (literal_subcoder a_literal lc literal_mask position (look 1))
                (look (unat (reps ! 0) + 1)) (look 0)
         else if back_res < 4 then is_match True # Bit (a_is_rep state) True # rep_items state pos_state back_res len
         else is_match True # Bit (a_is_rep state) False # len_items a_match_len pos_state len @ dist_items (back_res - 4) len)"

definition symbol_state :: "lzma_lzma_state \<Rightarrow> u32 \<Rightarrow> u32 \<Rightarrow> lzma_lzma_state" where
  "symbol_state state back_res len =
     (if back_res = UINT32_MAX then if is_literal_state state then update_literal_normal state else update_literal_matched state
      else if back_res < 4 then if len = 1 then update_short_rep state else update_long_rep state
      else update_match state)"

definition symbol_reps :: "u32 list \<Rightarrow> u32 \<Rightarrow> u32 list" where
  "symbol_reps reps back_res =
     (if back_res = UINT32_MAX then reps else if back_res < 4 then rep_reps reps back_res
      else [back_res - 4, reps ! 0, reps ! 1, reps ! 2])"

section \<open>The encoder queues the bits of its symbols\<close>

lemma run_bit_0: "rc_run m0 its False E rc m \<Longrightarrow> rc_bit rc p 0 = Some rc' \<Longrightarrow> rc_run m0 (its @ [Bit p False]) False E rc' m"
  using run_bit [of m0 its E rc m p False rc'] by simp

lemma run_bit_1: "rc_run m0 its False E rc m \<Longrightarrow> rc_bit rc p 1 = Some rc' \<Longrightarrow> rc_run m0 (its @ [Bit p True]) False E rc' m"
  using run_bit [of m0 its E rc m p True rc'] by simp

lemma bit_256: "bit (0x100 :: u32) i \<longleftrightarrow> i = 8"
  using bit_exp_iff [where ?'a = u32, of 8 i] by auto

text \<open>The offset is \<open>0x100\<close> as long as the bits of the literal are those of the match byte, and then zero.\<close>

lemma and_256: "(0x100 :: u32) AND y = (if bit y 8 then 0x100 else 0)"
proof (rule bit_word_eqI)
  fix i
  show "bit (0x100 AND y) i = bit (if bit y 8 then 0x100 else 0 :: u32) i"
    by (cases "bit y 8") (auto simp only: bit_and_iff bit_256 if_True if_False bit_0_eq bot_apply bot_bool_def)
qed

lemma matched_offset:
  fixes match_byte offset symbol :: u32
  assumes "offset = 0 \<or> offset = 0x100" "b = bit symbol 8"
  shows "offset AND NOT (match_byte XOR symbol) = (if b then offset AND (match_byte AND offset) else offset AND NOT (match_byte AND offset))"
  using assms(1)
proof
  assume o: "offset = 0x100"
  have "bit (0x100 :: u32) 8" "bit (NOT w) 8 \<longleftrightarrow> \<not> bit w 8" for w :: u32
    by (simp_all only: bit_256 bit_not_iff) simp
  then show ?thesis unfolding o and_256 assms(2) bit_and_iff bit_xor_iff by (cases "bit symbol 8"; cases "bit match_byte 8") (simp_all only: simp_thms if_True if_False bit_and_iff bit_xor_iff)
qed simp

lemma bit_marked_byte:
  fixes v :: u32 assumes "unat v < 256"
  shows "bit (v + 0x100) i \<longleftrightarrow> bit v i \<or> i = 8" and "bit v i \<Longrightarrow> i < 8"
proof -
  have "take_bit 8 v = v" using assms by (simp add: word_unat_eq_iff unsigned_take_bit_eq take_bit_nat_eq_self)
  then show lt: "bit v i \<Longrightarrow> i < 8" for i by (metis bit_take_bit_iff)
  have "v + 0x100 = v OR 0x100" by (rule disjunctive_add) (use lt bit_256 in auto)
  then show "bit (v + 0x100) i \<longleftrightarrow> bit v i \<or> i = 8" by (simp only: bit_or_iff bit_256)
qed

lemma drop_bit_step: "drop_bit n (w :: u32) = push_bit 1 (drop_bit (Suc n) w) + of_bool (bit w n)"
proof -
  have "x = push_bit 1 (drop_bit 1 x) + of_bool (odd x)" for x :: u32
    by (metis drop_bit_eq_div push_bit_eq_mult power_one_right mod_2_eq_odd div_mult_mod_eq)
  from this [of "drop_bit n w"] show ?thesis by (simp add: bit_iff_odd_drop_bit)
qed

lemma marked_symbol:
  fixes v :: u32 assumes "unat v < 256" "n \<le> 7"
  shows "drop_bit 8 (push_bit (7 - n) (v + 0x100)) = drop_bit (Suc n) (v + 0x100)"
    "drop_bit 7 (push_bit (7 - n) (v + 0x100)) AND 1 = of_bool (bit v n)"
    "push_bit 1 (push_bit (7 - n) (v + 0x100)) = push_bit (8 - n) (v + 0x100)"
    "bit (push_bit (8 - n) (v + 0x100)) 8 = bit v n"
    "push_bit (8 - n) (v + 0x100) < push_bit 16 1 \<longleftrightarrow> n \<noteq> 0"
    "drop_bit n (v + 0x100) = push_bit 1 (drop_bit (Suc n) (v + 0x100)) + of_bool (bit v n)"
proof -
  note b = bit_marked_byte [OF assms(1)]
  have n: "bit (v + 0x100) n = bit v n" using b(1) [of n] assms(2) by auto
  have lt: "bit (v + 0x100) i \<Longrightarrow> i \<le> 8" for i using b by (auto simp: le_less)
  show "drop_bit 8 (push_bit (7 - n) (v + 0x100)) = drop_bit (Suc n) (v + 0x100)"
  proof (rule bit_word_eqI)
    fix i assume "i < LENGTH(32)"
    have e: "8 + i - (7 - n) = Suc n + i" using assms(2) by simp
    show "bit (drop_bit 8 (push_bit (7 - n) (v + 0x100))) i = bit (drop_bit (Suc n) (v + 0x100)) i"
      using lt [of "Suc n + i"] assms(2) by (auto simp: bit_drop_bit_eq bit_push_bit_iff e)
  qed
  show "drop_bit 7 (push_bit (7 - n) (v + 0x100)) AND 1 = of_bool (bit v n)"
    unfolding and_1_of_bool using n assms(2) by (simp add: bit_push_bit_iff)
  show "push_bit 1 (push_bit (7 - n) (v + 0x100)) = push_bit (8 - n) (v + 0x100)"
    unfolding push_bit_push_bit using assms(2) by (intro arg_cong [where f = "\<lambda>k. push_bit k (v + 0x100)"]) simp
  show "bit (push_bit (8 - n) (v + 0x100)) 8 = bit v n" using n assms(2) by (simp add: bit_push_bit_iff)
  show "drop_bit n (v + 0x100) = push_bit 1 (drop_bit (Suc n) (v + 0x100)) + of_bool (bit v n)"
    unfolding drop_bit_step [of n] n ..
  have "unat (v + 0x100) = unat v + 256" using assms(1) by (simp add: unat_word_ariths)
  moreover have "(unat v + 256) * 2 ^ (8 - n) < 2 ^ 32"
  proof -
    have "(unat v + 256) * 2 ^ (8 - n) \<le> 512 * 2 ^ 8" using assms(1) by (intro mult_le_mono power_increasing) simp_all
    then show ?thesis by simp
  qed
  ultimately have u: "unat (push_bit (8 - n) (v + 0x100)) = (unat v + 256) * 2 ^ (8 - n)"
    by (subst unsigned_push_bit_eq, subst push_bit_eq_mult) (simp add: take_bit_nat_eq_self)
  have "(unat v + 256) * 2 ^ (8 - n) < 2 ^ 16 \<longleftrightarrow> n \<noteq> 0"
  proof (cases "n = 0")
    case False
    then have "(unat v + 256) * 2 ^ (8 - n) \<le> 511 * 2 ^ 7" using assms(1) by (intro mult_le_mono power_increasing) auto
    then show ?thesis using False by simp
  qed simp
  then show "push_bit (8 - n) (v + 0x100) < push_bit 16 1 \<longleftrightarrow> n \<noteq> 0" by (simp add: word_less_nat_alt u)
qed

lemma rc_run_matched_loop:
  fixes v :: u32
  assumes "unat v < 256"
  shows "rc_run m0 its False E rc m \<Longrightarrow> n \<le> 7 \<Longrightarrow> offset = 0 \<or> offset = 0x100
    \<Longrightarrow> literal_matched_loop (Suc n) rc sub mb offset (push_bit (7 - n) (v + 0x100)) = Some rc'
    \<Longrightarrow> rc_run m0 (its @ matched_items sub (Suc n) mb offset (drop_bit (Suc n) (v + 0x100)) v) False E rc' m"
proof (induction n arbitrary: its rc mb offset)
  case 0
  note k = marked_symbol [OF assms 0(2)]
  obtain rc1 where "rc_bit rc (sub + unat (offset + (push_bit 1 mb AND offset) + drop_bit (Suc 0) (v + 0x100))) (of_bool (bit v 0)) = Some rc1" "rc' = rc1"
    using 0(4) by (simp only: literal_matched_loop.simps Let_def k matched_offset [OF 0(3) k(4) [symmetric]]) (auto simp: bind_eq_Some_conv)
  then show ?case using run_bit [OF 0(1)] by (simp add: Let_def)
next
  case (Suc n)
  note k = marked_symbol [OF assms Suc.prems(2)]
  let ?b = "bit v (Suc n)" and ?mb = "push_bit 1 mb"
  let ?i = "Bit (sub + unat (offset + (?mb AND offset) + drop_bit (Suc (Suc n)) (v + 0x100))) ?b"
    and ?o = "if ?b then offset AND (?mb AND offset) else offset AND NOT (?mb AND offset)"
  obtain rc1 where 1: "rc_bit rc (sub + unat (offset + (?mb AND offset) + drop_bit (Suc (Suc n)) (v + 0x100))) (of_bool ?b) = Some rc1"
      "literal_matched_loop (Suc n) rc1 sub ?mb ?o (push_bit (8 - Suc n) (v + 0x100)) = Some rc'"
    using Suc.prems(4)
    by (simp only: literal_matched_loop.simps(2) [of "Suc n"] Let_def k matched_offset [OF Suc.prems(3) k(4) [symmetric]]) (auto simp: bind_eq_Some_conv)
  have e: "8 - Suc n = 7 - n" and n: "n \<le> 7" using Suc.prems(2) by simp_all
  have o: "?o = 0 \<or> ?o = 0x100" using Suc.prems(3) by (auto simp: and_256)
  have "rc_run m0 ((its @ [?i]) @ matched_items sub (Suc n) ?mb ?o (drop_bit (Suc n) (v + 0x100)) v) False E rc' m"
    by (rule Suc.IH [OF run_bit [OF Suc.prems(1) 1(1)] n o 1(2) [unfolded e]])
  then show ?case
    unfolding matched_items.simps(2) [of _ "Suc n"] Let_def k(6) [symmetric] append_assoc append_Cons append_Nil .
qed

lemma rc_run_length:
  assumes "rc_run m0 its False E rc m" "length_encode rc ld lenc probs pos_state len fast_mode = Some (rc', lenc')"
  shows "rc_run m0 (its @ len_items ld pos_state len) False E rc' m"
proof -
  have b: "length_bits rc ld pos_state len = Some rc'"
    using assms(2) by (auto simp: length_encode_def Let_def bind_eq_Some_conv split: if_splits)
  note c = LEN_LOW_SYMBOLS_def LEN_MID_SYMBOLS_def MATCH_LEN_MIN_def LEN_LOW_BITS_def LEN_MID_BITS_def LEN_HIGH_BITS_def
  show ?thesis
    using b run_bittree [OF run_bit_0 [OF assms(1)]] run_bittree [OF run_bit_0 [OF run_bit_1 [OF assms(1)]]]
      run_bittree [OF run_bit_1 [OF run_bit_1 [OF assms(1)]]]
    by (auto simp: length_bits_def len_items_def Let_def bind_eq_Some_conv c split: if_splits)
qed

lemma rc_run_dist:
  assumes "rc_run m0 its False E rc m" "dist_bits rc count dist len = Some (rc', count')"
  shows "rc_run m0 (its @ dist_items dist len) False E rc' m"
proof -
  let ?slot = "get_dist_slot dist"
  obtain rc1 where 1: "rc_bittree rc (a_dist_slot (unat (get_dist_state len))) 6 ?slot = Some rc1"
    using assms(2) by (auto simp: dist_bits_def Let_def bind_eq_Some_conv DIST_SLOT_BITS_def)
  note r = run_bittree [OF assms(1) 1]
  show ?thesis
  proof (cases "?slot < 4")
    case True
    then show ?thesis using assms(2) 1 r
      by (auto simp: dist_bits_def dist_items_def slot_items_def Let_def DIST_SLOT_BITS_def DIST_MODEL_START_def not_less [symmetric])
  next
    case False
    then have f: "unat (drop_bit 1 ?slot - 1) = unat ?slot div 2 - 1"
      using dist_footer(1) [OF get_dist_slot_correct] by (simp add: DIST_MODEL_START_def not_less)
    note f = f [unfolded One_nat_def]
    show ?thesis
    proof (cases "?slot < 14")
      case True
      then show ?thesis using assms(2) 1 False run_reverse [OF r]
        by (auto simp: dist_bits_def dist_items_def slot_items_def Let_def DIST_SLOT_BITS_def DIST_MODEL_START_def DIST_MODEL_END_def
          not_less [symmetric] f)
    next
      case ns: False
      then show ?thesis using assms(2) 1 False run_reverse [OF run_direct [OF r]]
        by (auto simp: dist_bits_def dist_items_def slot_items_def Let_def DIST_SLOT_BITS_def DIST_MODEL_START_def DIST_MODEL_END_def
          ALIGN_BITS_def ALIGN_MASK_def ALIGN_SIZE_def not_less [symmetric] f bind_eq_Some_conv)
    qed
  qed
qed

lemma rc_run_literal:
  assumes "rc_run m0 its False E (e_rc coder) m" "literal_encode coder mf position = Some coder'"
  shows "rc_run m0 (its @ literal_items (e_state coder)
      (literal_subcoder a_literal (e_literal_context_bits coder) (e_literal_mask coder) position (the (mf_byte mf 1)))
      (the (mf_byte mf (unat (e_reps coder ! 0) + 1))) (the (mf_byte mf 0))) False E (e_rc coder') m"
    and "coder' = coder\<lparr>e_rc := e_rc coder', e_state := symbol_state (e_state coder) UINT32_MAX 1\<rparr>"
proof -
  obtain cur prev where b: "mf_byte mf 0 = Some cur" "mf_byte mf 1 = Some prev"
    using assms(2) by (auto simp: literal_encode_def bind_eq_Some_conv)
  let ?sub = "literal_subcoder a_literal (e_literal_context_bits coder) (e_literal_mask coder) position prev"
  have "unat (ucast cur :: u32) < 256" using unat_byte_less [of cur] by (simp add: unat_ucast_up)
  note loop = rc_run_matched_loop [OF this assms(1), of 7 "0x100"]
  have one: "drop_bit 8 (ucast cur + 0x100 :: u32) = 1"
  proof -
    have "unat (ucast cur + 0x100 :: u32) = unat cur + 256" using unat_byte_less [of cur] by (simp add: unat_word_ariths unat_ucast_up)
    then have "unat (drop_bit 8 (ucast cur + 0x100 :: u32)) = 1" using unat_byte_less [of cur] by (simp only: unat_drop_bit) simp
    then show ?thesis by (simp only: word_unat_eq_iff) simp
  qed
  have "rc_run m0 (its @ literal_items (e_state coder) ?sub (the (mf_byte mf (unat (e_reps coder ! 0) + 1))) cur) False E (e_rc coder') m
      \<and> coder' = coder\<lparr>e_rc := e_rc coder', e_state := symbol_state (e_state coder) UINT32_MAX 1\<rparr>"
  proof (cases "is_literal_state (e_state coder)")
    case True
    then show ?thesis using assms(2) b run_bittree [OF assms(1)]
      by (auto simp: literal_encode_def literal_items_def symbol_state_def bind_eq_Some_conv)
  next
    case False
    then obtain mb rc' where m: "mf_byte mf (unat (e_reps coder ! 0) + 1) = Some mb"
        "literal_matched (e_rc coder) ?sub (ucast mb) (ucast cur) = Some rc'"
        "coder' = coder\<lparr>e_state := update_literal_matched (e_state coder), e_rc := rc'\<rparr>"
      using assms(2) b by (auto simp: literal_encode_def bind_eq_Some_conv)
    have "literal_matched_loop (Suc 7) (e_rc coder) ?sub (ucast mb) 0x100 (push_bit (7 - 7) (ucast cur + 0x100)) = Some rc'"
      using m(2) by (simp add: literal_matched_def)
    then have "rc_run m0 (its @ matched_items ?sub 8 (ucast mb) 0x100 1 (ucast cur)) False E rc' m"
      using loop [of ?sub "ucast mb" rc'] one by simp
    then show ?thesis using False m by (simp add: literal_items_def symbol_state_def)
  qed
  then show "rc_run m0 (its @ literal_items (e_state coder)
      (literal_subcoder a_literal (e_literal_context_bits coder) (e_literal_mask coder) position (the (mf_byte mf 1)))
      (the (mf_byte mf (unat (e_reps coder ! 0) + 1))) (the (mf_byte mf 0))) False E (e_rc coder') m"
    "coder' = coder\<lparr>e_rc := e_rc coder', e_state := symbol_state (e_state coder) UINT32_MAX 1\<rparr>"
    using b by simp_all
qed

lemma rc_run_rep_bits:
  assumes "rc_run m0 its False E rc m" "rep_bits rc state pos_state rep len = Some rc'" "rep < 4"
  shows "rc_run m0 (its @ (if rep = 0 then [Bit (a_is_rep0 state) False, Bit (a_is_rep0_long state pos_state) (len \<noteq> 1)]
      else if rep = 1 then [Bit (a_is_rep0 state) True, Bit (a_is_rep1 state) False]
      else [Bit (a_is_rep0 state) True, Bit (a_is_rep1 state) True, Bit (a_is_rep2 state) (rep = 3)])) False E rc' m"
proof -
  have "rep = 0 \<or> rep = 1 \<or> rep = 2 \<or> rep = 3"
    using assms(3) by (auto simp: word_less_nat_alt word_unat_eq_iff)
  moreover have "(if len \<noteq> 1 then 1 else 0 :: u32) = of_bool (len \<noteq> 1)" by simp
  ultimately show ?thesis using assms(2)
      run_bit [OF run_bit_0 [OF assms(1)]] run_bit_0 [OF run_bit_1 [OF assms(1)]]
      run_bit_0 [OF run_bit_1 [OF run_bit_1 [OF assms(1)]]] run_bit_1 [OF run_bit_1 [OF run_bit_1 [OF assms(1)]]]
    by (auto simp: rep_bits_def bind_eq_Some_conv)
qed

text \<open>What coding a symbol leaves in the encoder.\<close>

definition after_symbol :: "lzma_lzma1_encoder \<Rightarrow> u32 \<Rightarrow> u32 \<Rightarrow> lzma_lzma1_encoder \<Rightarrow> bool" where
  "after_symbol coder back_res len coder' \<longleftrightarrow>
     e_state coder' = symbol_state (e_state coder) back_res len \<and> e_reps coder' = symbol_reps (e_reps coder) back_res
     \<and> e_literal_context_bits coder' = e_literal_context_bits coder \<and> e_literal_mask coder' = e_literal_mask coder
     \<and> e_pos_mask coder' = e_pos_mask coder \<and> e_probs coder' = e_probs coder \<and> e_uncomp_size coder' = e_uncomp_size coder
     \<and> e_fast_mode coder' = e_fast_mode coder"

lemma rc_run_match:
  assumes "rc_run m0 its False E (e_rc coder) m" "match_encode coder pos_state dist len = Some coder'"
  shows "rc_run m0 (its @ len_items a_match_len pos_state len @ dist_items dist len) False E (e_rc coder') m"
    and "e_state coder' = update_match (e_state coder)" "e_reps coder' = [dist, e_reps coder ! 0, e_reps coder ! 1, e_reps coder ! 2]"
proof -
  obtain rc lenc rc' count where 1: "length_encode (e_rc coder) a_match_len (e_match_len coder) (e_probs coder) pos_state len (e_fast_mode coder) = Some (rc, lenc)"
      "dist_bits rc (e_align_price_count coder) dist len = Some (rc', count)" "e_rc coder' = rc'"
    using assms(2) by (auto simp: match_encode_def bind_eq_Some_conv)
  show "rc_run m0 (its @ len_items a_match_len pos_state len @ dist_items dist len) False E (e_rc coder') m"
    using rc_run_dist [OF rc_run_length [OF assms(1) 1(1)] 1(2)] 1(3) by simp
  show "e_state coder' = update_match (e_state coder)" "e_reps coder' = [dist, e_reps coder ! 0, e_reps coder ! 1, e_reps coder ! 2]"
    using assms(2) by (auto simp: match_encode_def bind_eq_Some_conv)
qed

lemma rc_run_rep_match:
  assumes "rc_run m0 its False E (e_rc coder) m" "rep_match coder pos_state rep len = Some coder'" "rep < 4"
  shows "rc_run m0 (its @ rep_items (e_state coder) pos_state rep len) False E (e_rc coder') m"
    and "after_symbol coder rep len coder'"
proof -
  obtain rc where 1: "rep_bits (e_rc coder) (e_state coder) pos_state rep len = Some rc"
    using assms(2) by (auto simp: rep_match_def bind_eq_Some_conv)
  note r = rc_run_rep_bits [OF assms(1) 1 assms(3)]
  show "rc_run m0 (its @ rep_items (e_state coder) pos_state rep len) False E (e_rc coder') m"
    using assms(2) 1 r rc_run_length [OF r]
    by (auto simp: rep_match_def rep_items_def bind_eq_Some_conv simp del: append_assoc simp flip: append_assoc split: if_splits)
  have "rep \<noteq> UINT32_MAX" using assms(3) by (auto simp: UINT32_MAX_def)
  then show "after_symbol coder rep len coder'"
    using assms(2,3) by (auto simp: rep_match_def after_symbol_def symbol_state_def symbol_reps_def bind_eq_Some_conv split: if_splits)
qed

lemma encode_symbol_run:
  assumes "rc_run m0 its False E (e_rc coder) m" "encode_symbol coder mf back_res len position = Some (coder', mf')"
  shows "rc_run m0 (its @ symbol_items (e_literal_context_bits coder) (e_literal_mask coder) (e_pos_mask coder) (e_state coder) (e_reps coder)
      position (\<lambda>k. the (mf_byte mf k)) back_res len) False E (e_rc coder') m"
    and "after_symbol coder back_res len coder'" "mf' = mf\<lparr>mf_read_ahead := mf_read_ahead mf - unat len\<rparr>" "unat len \<le> mf_read_ahead mf"
proof -
  let ?ps = "unat (position AND e_pos_mask coder)"
  let ?im = "a_is_match (e_state coder) ?ps"
  show "mf' = mf\<lparr>mf_read_ahead := mf_read_ahead mf - unat len\<rparr>" "unat len \<le> mf_read_ahead mf"
    using assms(2) by (auto simp: encode_symbol_def Let_def bind_eq_Some_conv split: if_splits)
  have "rc_run m0 (its @ symbol_items (e_literal_context_bits coder) (e_literal_mask coder) (e_pos_mask coder) (e_state coder) (e_reps coder)
      position (\<lambda>k. the (mf_byte mf k)) back_res len) False E (e_rc coder') m \<and> after_symbol coder back_res len coder'"
  proof (cases "back_res = UINT32_MAX")
    case True
    then obtain rc where 1: "rc_bit (e_rc coder) ?im 0 = Some rc" "literal_encode (coder\<lparr>e_rc := rc\<rparr>) mf position = Some coder'" "len = 1"
      using assms(2) by (auto simp: encode_symbol_def Let_def bind_eq_Some_conv split: if_splits)
    have "rc_run m0 (its @ [Bit ?im False]) False E (e_rc (coder\<lparr>e_rc := rc\<rparr>)) m" using run_bit_0 [OF assms(1) 1(1)] by simp
    note l = rc_run_literal [OF this 1(2)]
    have "after_symbol coder back_res len coder'"
      by (subst l(2)) (simp add: after_symbol_def symbol_reps_def symbol_state_def True 1(3))
    then show ?thesis using l(1) True by (simp add: symbol_items_def Let_def)
  next
    case False
    then obtain rc where 1: "rc_bit (e_rc coder) ?im 1 = Some rc"
      using assms(2) by (auto simp: encode_symbol_def Let_def bind_eq_Some_conv)
    show ?thesis
    proof (cases "back_res < 4")
      case True
      then obtain rc2 where 2: "rc_bit rc (a_is_rep (e_state coder)) 1 = Some rc2" "rep_match (coder\<lparr>e_rc := rc2\<rparr>) ?ps back_res len = Some coder'"
        using assms(2) False 1 by (auto simp: encode_symbol_def Let_def bind_eq_Some_conv REPS_def split: if_splits)
      have "rc_run m0 ((its @ [Bit ?im True]) @ [Bit (a_is_rep (e_state coder)) True]) False E (e_rc (coder\<lparr>e_rc := rc2\<rparr>)) m"
        using run_bit_1 [OF run_bit_1 [OF assms(1) 1] 2(1)] by simp
      from rc_run_rep_match [OF this 2(2) True] True False show ?thesis
        by (simp add: symbol_items_def Let_def after_symbol_def)
    next
      case nr: False
      then obtain rc2 where 2: "rc_bit rc (a_is_rep (e_state coder)) 0 = Some rc2" "match_encode (coder\<lparr>e_rc := rc2\<rparr>) ?ps (back_res - 4) len = Some coder'"
        using assms(2) False 1 by (auto simp: encode_symbol_def Let_def bind_eq_Some_conv REPS_def split: if_splits)
      have "rc_run m0 ((its @ [Bit ?im True]) @ [Bit (a_is_rep (e_state coder)) False]) False E (e_rc (coder\<lparr>e_rc := rc2\<rparr>)) m"
        using run_bit_0 [OF run_bit_1 [OF assms(1) 1] 2(1)] by simp
      note r = rc_run_match [OF this 2(2)]
      have "after_symbol coder back_res len coder'" using r(2,3) 2(2) nr False
        by (auto simp: after_symbol_def symbol_state_def symbol_reps_def match_encode_def bind_eq_Some_conv)
      then show ?thesis using r(1) nr False by (simp add: symbol_items_def Let_def)
    qed
  qed
  then show "rc_run m0 (its @ symbol_items (e_literal_context_bits coder) (e_literal_mask coder) (e_pos_mask coder) (e_state coder) (e_reps coder)
      position (\<lambda>k. the (mf_byte mf k)) back_res len) False E (e_rc coder') m" "after_symbol coder back_res len coder'" by simp_all
qed

end
