(* ===== verification/Lzma_Lz_Dict.thy ===== *)
theory Lzma_Lz_Dict
  imports Lzma_Base "HOL-Library.Monad_Syntax"
begin

text \<open>
  The dictionary of the LZ decoders (\<^verbatim>\<open>lz/lz_decoder.h\<close> of liblzma): a buffer that holds the
  most recent output, with a margin of \<open>LZ_DICT_REPEAT_MAX\<close> bytes at its start and another
  behind the oldest byte, so that a copy never wraps around. The specification is the list
  of all bytes since the last reset; the operations are shown to append to it and to read
  from its end, and never to leave the buffer or to copy overlapping memory. Of the three variants of \<open>dict_repeat\<close> the one that uses
  \<^verbatim>\<open>memcpy\<close> is modelled (\<^verbatim>\<open>LZMA_LZ_DECODER_CONFIG\<close> is 1); the loop over bytes and the SSE2 loop, which
  stores up to 32 bytes more than it has to, are not.
\<close>

section \<open>The dictionary\<close>

definition LZ_DICT_REPEAT_MAX :: nat where "LZ_DICT_REPEAT_MAX = 288"
definition LZ_DICT_INIT_POS :: nat where "LZ_DICT_INIT_POS = 2 * LZ_DICT_REPEAT_MAX"

record lzma_dict =
  dict_buf :: "byte list"
  dict_pos :: nat
  dict_full :: nat
  dict_limit :: nat
  dict_size :: nat
  has_wrapped :: bool
  need_reset :: bool

text \<open>Where a distance is found in the buffer; the dictionary is read at an index below its size only.\<close>

definition dict_index :: "lzma_dict \<Rightarrow> nat \<Rightarrow> nat" where
  "dict_index dict distance =
     (if distance < dict_pos dict then dict_pos dict - distance - 1
      else dict_pos dict + (dict_size dict - LZ_DICT_REPEAT_MAX) - distance - 1)"

definition dict_get :: "lzma_dict \<Rightarrow> nat \<Rightarrow> byte option" where
  "dict_get dict distance =
     (let i = dict_index dict distance in if i < length (dict_buf dict) then Some (dict_buf dict ! i) else None)"

definition dict_get0 :: "lzma_dict \<Rightarrow> byte option" where
  "dict_get0 dict = (if 0 < dict_pos dict \<and> dict_pos dict - 1 < length (dict_buf dict) then Some (dict_buf dict ! (dict_pos dict - 1)) else None)"

definition dict_is_empty :: "lzma_dict \<Rightarrow> bool" where
  "dict_is_empty dict \<longleftrightarrow> dict_full dict = 0"

definition dict_is_distance_valid :: "lzma_dict \<Rightarrow> nat \<Rightarrow> bool" where
  "dict_is_distance_valid dict distance \<longleftrightarrow> dict_full dict > distance"

definition dict_update_full :: "lzma_dict \<Rightarrow> lzma_dict" where
  "dict_update_full dict = (if has_wrapped dict then dict else dict\<lparr>dict_full := dict_pos dict - LZ_DICT_INIT_POS\<rparr>)"

text \<open>
  \<open>dict_repeat\<close> copies byte by byte where source and target overlap, and with \<^verbatim>\<open>memcpy\<close>
  otherwise, which is undefined for overlapping memory. The result is \<open>None\<close> where the
  code would be undefined, and otherwise tells whether bytes are left to be copied.
\<close>

fun copy_bytes :: "byte list \<Rightarrow> nat \<Rightarrow> nat \<Rightarrow> nat \<Rightarrow> byte list option" where
  "copy_bytes buf pos back 0 = Some buf"
| "copy_bytes buf pos back (Suc left) =
     (if pos < length buf \<and> back < length buf then copy_bytes (buf[pos := buf ! back]) (pos + 1) (back + 1) left else None)"

definition memcpy_within :: "byte list \<Rightarrow> nat \<Rightarrow> nat \<Rightarrow> nat \<Rightarrow> byte list option" where
  "memcpy_within buf pos back left =
     (if pos + left \<le> length buf \<and> back + left \<le> length buf \<and> (left = 0 \<or> back + left \<le> pos \<or> pos + left \<le> back)
      then Some (memcpy buf pos (bytes_at buf back left)) else None)"

definition dict_repeat :: "lzma_dict \<Rightarrow> nat \<Rightarrow> nat \<Rightarrow> (bool \<times> lzma_dict \<times> nat) option" where
  "dict_repeat dict distance len =
     (let dict_avail = dict_limit dict - dict_pos dict;
          left = min dict_avail len;
          back = dict_index dict distance in do {
        buf \<leftarrow> (if distance < left then copy_bytes (dict_buf dict) (dict_pos dict) back left
                else memcpy_within (dict_buf dict) (dict_pos dict) back left);
        Some (len - left \<noteq> 0, dict_update_full (dict\<lparr>dict_buf := buf, dict_pos := dict_pos dict + left\<rparr>), len - left) })"

definition dict_put :: "lzma_dict \<Rightarrow> byte \<Rightarrow> lzma_dict option" where
  "dict_put dict b =
     (if dict_pos dict < length (dict_buf dict)
      then Some (dict_update_full (dict\<lparr>dict_buf := (dict_buf dict)[dict_pos dict := b], dict_pos := dict_pos dict + 1\<rparr>))
      else None)"

definition dict_put_safe :: "lzma_dict \<Rightarrow> byte \<Rightarrow> (bool \<times> lzma_dict) option" where
  "dict_put_safe dict b =
     (if dict_pos dict = dict_limit dict then Some (True, dict) else map_option (Pair False) (dict_put dict b))"

definition dict_write ::
    "lzma_dict \<Rightarrow> byte list \<Rightarrow> nat \<Rightarrow> nat \<Rightarrow> nat \<Rightarrow> lzma_dict \<times> nat \<times> nat" where
  "dict_write dict inb in_pos in_size left =
     (let in_size = (if in_size - in_pos > left then in_pos + left else in_size);
          (copied, in_pos, buf, pos) = lzma_bufcpy inb in_pos in_size (dict_buf dict) (dict_pos dict) (dict_limit dict)
      in (dict_update_full (dict\<lparr>dict_buf := buf, dict_pos := pos\<rparr>), in_pos, left - copied))"

definition dict_reset :: "lzma_dict \<Rightarrow> lzma_dict" where
  "dict_reset dict = dict\<lparr>need_reset := True\<rparr>"

text \<open>The reset and the wrap of the dictionary (\<^verbatim>\<open>lz/lz_decoder.c\<close>), and the limit that each round sets.\<close>

definition lz_decoder_reset :: "lzma_dict \<Rightarrow> lzma_dict" where
  "lz_decoder_reset dict = dict\<lparr>dict_pos := LZ_DICT_INIT_POS, dict_full := 0,
     dict_buf := (dict_buf dict)[LZ_DICT_INIT_POS - 1 := 0], has_wrapped := False, need_reset := False\<rparr>"

definition dict_wrap :: "lzma_dict \<Rightarrow> lzma_dict" where
  "dict_wrap dict =
     (if dict_pos dict = dict_size dict
      then dict\<lparr>dict_pos := LZ_DICT_REPEAT_MAX, has_wrapped := True,
             dict_buf := memcpy (dict_buf dict) 0 (bytes_at (dict_buf dict) (dict_size dict - LZ_DICT_REPEAT_MAX) LZ_DICT_REPEAT_MAX)\<rparr>
      else dict)"

definition dict_allow :: "nat \<Rightarrow> lzma_dict \<Rightarrow> lzma_dict" where
  "dict_allow out_left dict = dict\<lparr>dict_limit := dict_pos dict + min out_left (dict_size dict - dict_pos dict)\<rparr>"

section \<open>The bytes behind a dictionary\<close>

text \<open>
  \<open>H\<close> is the output since the last reset, newest byte last; a copy takes its bytes one at a
  time. After a wrap the start of the buffer repeats its end, until the end is written again.
\<close>

definition back_byte :: "byte list \<Rightarrow> nat \<Rightarrow> byte" where
  "back_byte H distance = H ! (length H - 1 - distance)"

fun repeat_bytes :: "byte list \<Rightarrow> nat \<Rightarrow> nat \<Rightarrow> byte list" where
  "repeat_bytes H distance 0 = H"
| "repeat_bytes H distance (Suc n) = repeat_bytes (H @ [back_byte H distance]) distance n"

definition dict_ok :: "lzma_dict \<Rightarrow> byte list \<Rightarrow> bool" where
  "dict_ok dict H \<longleftrightarrow>
     length (dict_buf dict) = dict_size dict \<and> LZ_DICT_INIT_POS + LZ_DICT_REPEAT_MAX \<le> dict_size dict
     \<and> dict_pos dict \<le> dict_limit dict \<and> dict_limit dict \<le> dict_size dict
     \<and> (if has_wrapped dict
        then LZ_DICT_REPEAT_MAX \<le> dict_pos dict \<and> dict_full dict = dict_size dict - LZ_DICT_INIT_POS \<and> dict_full dict \<le> length H
        else LZ_DICT_INIT_POS + length H = dict_pos dict \<and> dict_full dict = length H)
     \<and> (\<forall>k<dict_full dict. dict_buf dict ! dict_index dict k = back_byte H k)
     \<and> (has_wrapped dict \<longrightarrow> (\<forall>i<LZ_DICT_REPEAT_MAX. dict_pos dict \<le> dict_size dict - LZ_DICT_REPEAT_MAX + i \<longrightarrow>
          dict_buf dict ! (dict_size dict - LZ_DICT_REPEAT_MAX + i) = dict_buf dict ! i))
     \<and> (H = [] \<longrightarrow> dict_buf dict ! (dict_pos dict - 1) = 0)"

lemmas dict_consts = LZ_DICT_INIT_POS_def LZ_DICT_REPEAT_MAX_def

lemma dict_index_less:
  assumes "dict_ok dict H" "k < dict_full dict" shows "dict_index dict k < dict_size dict"
  using assms by (auto simp: dict_ok_def dict_index_def dict_consts split: if_splits)

text \<open>Writing a byte at the position keeps every other byte that can be read.\<close>

lemma dict_put_ok:
  assumes "dict_ok dict H" "dict_pos dict < dict_limit dict"
  shows "\<exists>dict'. dict_put dict b = Some dict' \<and> dict_ok dict' (H @ [b]) \<and> dict_pos dict' = dict_pos dict + 1
     \<and> dict_limit dict' = dict_limit dict \<and> dict_size dict' = dict_size dict \<and> has_wrapped dict' = has_wrapped dict
     \<and> need_reset dict' = need_reset dict"
proof -
  let ?d = "dict_update_full (dict\<lparr>dict_buf := (dict_buf dict)[dict_pos dict := b], dict_pos := dict_pos dict + 1\<rparr>)"
  have ok: "length (dict_buf dict) = dict_size dict" "LZ_DICT_INIT_POS + LZ_DICT_REPEAT_MAX \<le> dict_size dict" "dict_limit dict \<le> dict_size dict"
    "\<And>k. k < dict_full dict \<Longrightarrow> dict_buf dict ! dict_index dict k = back_byte H k"
    using assms(1) by (simp_all add: dict_ok_def)
  have "dict_buf ?d ! dict_index ?d k = back_byte (H @ [b]) k" if "k < dict_full ?d" for k
  proof (cases k)
    case 0
    then show ?thesis using ok(1,3) assms(2) by (simp add: dict_update_full_def dict_index_def back_byte_def)
  next
    case (Suc j)
    have j: "j < dict_full dict" using that Suc assms(1)
      by (auto simp: dict_update_full_def dict_ok_def dict_consts split: if_splits)
    have "dict_index ?d k = dict_index dict j" "dict_index dict j \<noteq> dict_pos dict"
      using Suc j assms(1) by (auto simp: dict_update_full_def dict_index_def dict_ok_def dict_consts split: if_splits)
    moreover have "j < length H" using j assms(1) by (auto simp: dict_ok_def split: if_splits)
    then have "back_byte (H @ [b]) k = back_byte H j" using Suc by (auto simp: back_byte_def nth_append)
    ultimately show ?thesis using ok(4) [OF j] by (simp add: dict_update_full_def)
  qed
  then have "dict_ok ?d (H @ [b])"
    using assms unfolding dict_ok_def by (auto simp: dict_update_full_def dict_consts)
  then show ?thesis using ok(1,3) assms(2) by (auto simp: dict_put_def dict_update_full_def)
qed

lemma dict_get_ok:
  assumes "dict_ok dict H" "k < dict_full dict" shows "dict_get dict k = Some (back_byte H k)"
  using assms dict_index_less [OF assms] by (simp add: dict_get_def dict_ok_def)

lemma dict_get0_ok:
  assumes "dict_ok dict H" shows "dict_get0 dict = Some (if H = [] then 0 else last H)"
proof (cases "H = []")
  case True
  then show ?thesis using assms by (auto simp: dict_get0_def dict_ok_def dict_consts split: if_splits)
next
  case False
  then have f: "0 < dict_full dict" using assms by (auto simp: dict_ok_def dict_consts split: if_splits)
  then have "dict_buf dict ! dict_index dict 0 = back_byte H 0" using assms by (simp add: dict_ok_def)
  moreover have "0 < dict_pos dict" using assms by (auto simp: dict_ok_def dict_consts split: if_splits)
  ultimately show ?thesis using assms False
    by (auto simp: dict_get0_def dict_ok_def dict_index_def back_byte_def last_conv_nth)
qed

lemma dict_full_bound: "dict_ok dict H \<Longrightarrow> dict_full dict \<le> length H"
  by (auto simp: dict_ok_def split: if_splits)

section \<open>Repeating bytes\<close>

lemma repeat_bytes_length [simp]: "length (repeat_bytes H d n) = length H + n"
  by (induction n arbitrary: H) simp_all

text \<open>The copy byte by byte is a sequence of \<open>dict_put\<close>.\<close>

fun put_bytes :: "lzma_dict \<Rightarrow> nat \<Rightarrow> nat \<Rightarrow> lzma_dict option" where
  "put_bytes dict distance 0 = Some dict"
| "put_bytes dict distance (Suc n) = do {
     b \<leftarrow> dict_get dict distance; dict \<leftarrow> dict_put dict b; put_bytes dict distance n }"

lemma put_bytes_ok:
  assumes "dict_ok dict H" "distance < dict_full dict" "dict_pos dict + n \<le> dict_limit dict"
  shows "\<exists>dict'. put_bytes dict distance n = Some dict' \<and> dict_ok dict' (repeat_bytes H distance n) \<and> dict_pos dict' = dict_pos dict + n
     \<and> dict_limit dict' = dict_limit dict \<and> dict_size dict' = dict_size dict \<and> has_wrapped dict' = has_wrapped dict
     \<and> need_reset dict' = need_reset dict"
  using assms
proof (induction n arbitrary: dict H)
  case (Suc n)
  let ?b = "back_byte H distance"
  obtain d where d: "dict_put dict ?b = Some d" "dict_ok d (H @ [?b])" "dict_pos d = dict_pos dict + 1"
    "dict_limit d = dict_limit dict" "dict_size d = dict_size dict" "has_wrapped d = has_wrapped dict" "need_reset d = need_reset dict"
    using dict_put_ok [OF Suc.prems(1)] Suc.prems(3) by force
  have "dict_full dict \<le> dict_full d"
    using Suc.prems(1) d(2,5,6) by (auto simp: dict_ok_def split: if_splits)
  then have "distance < dict_full d" using Suc.prems(2) by simp
  from Suc.IH [OF d(2) this] obtain dict' where "put_bytes d distance n = Some dict'" "dict_ok dict' (repeat_bytes (H @ [?b]) distance n)"
    "dict_pos dict' = dict_pos d + n" "dict_limit dict' = dict_limit d" "dict_size dict' = dict_size d" "has_wrapped dict' = has_wrapped d"
    "need_reset dict' = need_reset d"
    using d(3,4) Suc.prems(3) by auto
  then show ?case using d dict_get_ok [OF Suc.prems(1,2)] by simp
qed simp

text \<open>
  A copy may read on at the end of the buffer where its bytes are also at the start; its
  length is bounded by the margin.
\<close>

definition copy_from :: "lzma_dict \<Rightarrow> nat \<Rightarrow> nat \<Rightarrow> nat \<Rightarrow> bool" where
  "copy_from dict distance src n \<longleftrightarrow> src = dict_index dict distance \<and> n \<le> LZ_DICT_REPEAT_MAX
     \<or> has_wrapped dict \<and> distance < dict_pos dict \<and> src = dict_index dict distance + (dict_size dict - LZ_DICT_REPEAT_MAX)
       \<and> dict_index dict distance + n \<le> LZ_DICT_REPEAT_MAX \<and> dict_pos dict \<le> src"

lemma copy_from_reads:
  assumes "dict_ok dict H" "distance < dict_full dict" "copy_from dict distance src (Suc n)"
  shows "src < dict_size dict" "dict_buf dict ! src = back_byte H distance"
proof -
  have g: "dict_buf dict ! dict_index dict distance = back_byte H distance" using assms(1,2) by (simp add: dict_ok_def)
  have "src < dict_size dict \<and> dict_buf dict ! src = dict_buf dict ! dict_index dict distance"
    using assms(3) unfolding copy_from_def
  proof
    assume w: "has_wrapped dict \<and> distance < dict_pos dict \<and> src = dict_index dict distance + (dict_size dict - LZ_DICT_REPEAT_MAX)
       \<and> dict_index dict distance + Suc n \<le> LZ_DICT_REPEAT_MAX \<and> dict_pos dict \<le> src"
    then have i: "dict_index dict distance < LZ_DICT_REPEAT_MAX" "src = dict_size dict - LZ_DICT_REPEAT_MAX + dict_index dict distance" by auto
    have "dict_pos dict \<le> dict_size dict - LZ_DICT_REPEAT_MAX + dict_index dict distance" using w i(2) by simp
    then have "dict_buf dict ! src = dict_buf dict ! dict_index dict distance"
      using w i assms(1) unfolding dict_ok_def i(2) by blast
    moreover have "LZ_DICT_REPEAT_MAX \<le> dict_size dict" using assms(1) by (simp add: dict_ok_def)
    ultimately show ?thesis using i by simp
  qed (use dict_index_less [OF assms(1,2)] in simp)
  then show "src < dict_size dict" "dict_buf dict ! src = back_byte H distance" using g by simp_all
qed

lemma copy_from_step:
  assumes "dict_ok dict H" "distance < dict_full dict" "copy_from dict distance src (Suc n)" "dict_pos d = dict_pos dict + 1"
    "dict_size d = dict_size dict" "has_wrapped d = has_wrapped dict"
  shows "copy_from d distance (src + 1) n"
  using assms by (auto simp: copy_from_def dict_index_def dict_ok_def dict_consts split: if_splits)

lemma copy_bytes_puts:
  assumes "dict_ok dict H" "distance < dict_full dict" "dict_pos dict + n \<le> dict_limit dict" "copy_from dict distance src n"
  shows "copy_bytes (dict_buf dict) (dict_pos dict) src n = map_option dict_buf (put_bytes dict distance n)"
  using assms
proof (induction n arbitrary: dict H src)
  case (Suc n)
  let ?b = "back_byte H distance"
  obtain d where d: "dict_put dict ?b = Some d" "dict_ok d (H @ [?b])" "dict_pos d = dict_pos dict + 1"
    "dict_limit d = dict_limit dict" "dict_size d = dict_size dict" "has_wrapped d = has_wrapped dict"
    using dict_put_ok [OF Suc.prems(1)] Suc.prems(3) by force
  have buf: "dict_buf d = (dict_buf dict)[dict_pos dict := ?b]"
    using d(1) by (auto simp: dict_put_def dict_update_full_def split: if_splits)
  have "dict_full dict \<le> dict_full d"
    using Suc.prems(1) d(2,5,6) by (auto simp: dict_ok_def split: if_splits)
  then have f: "distance < dict_full d" using Suc.prems(2) by simp
  have "copy_bytes (dict_buf d) (dict_pos d) (src + 1) n = map_option dict_buf (put_bytes d distance n)"
    using Suc.IH [OF d(2) f _ copy_from_step [OF Suc.prems(1,2,4) d(3,5,6)]] d(3,4) Suc.prems(3) by simp
  moreover have "dict_pos dict < length (dict_buf dict)" "length (dict_buf dict) = dict_size dict"
    using Suc.prems(1,3) by (auto simp: dict_ok_def)
  ultimately show ?case
    using copy_from_reads [OF Suc.prems(1,2,4)] d(1,3) dict_get_ok [OF Suc.prems(1,2)] by (simp add: buf)
qed simp

lemma copy_bytes_memcpy:
  assumes "pos + n \<le> length buf" "src + n \<le> length buf" "n = 0 \<or> src + n \<le> pos \<or> pos + n \<le> src"
  shows "copy_bytes buf pos src n = Some (memcpy buf pos (bytes_at buf src n))"
  using assms
proof (induction n arbitrary: buf pos src)
  case (Suc n)
  have "copy_bytes (buf[pos := buf ! src]) (pos + 1) (src + 1) n
      = Some (memcpy (buf[pos := buf ! src]) (pos + 1) (bytes_at (buf[pos := buf ! src]) (src + 1) n))"
    using Suc.prems by (intro Suc.IH) auto
  moreover have "bytes_at (buf[pos := buf ! src]) (src + 1) n = bytes_at buf (src + 1) n"
  proof (rule nth_equalityI)
    fix i assume "i < length (bytes_at (buf[pos := buf ! src]) (src + 1) n)"
    then have "i < n" by simp
    moreover from this have "src + 1 + i \<noteq> pos" using Suc.prems(3) by auto
    ultimately show "bytes_at (buf[pos := buf ! src]) (src + 1) n ! i = bytes_at buf (src + 1) n ! i"
      using Suc.prems(2) by (simp add: nth_bytes_at)
  qed simp
  ultimately show ?case using Suc.prems by (simp add: bytes_at_Suc memcpy_Cons)
qed simp

lemma put_bytes_record:
  assumes "dict_ok dict H" "dict_ok d K" "dict_pos d = dict_pos dict + n" "dict_limit d = dict_limit dict"
    "dict_size d = dict_size dict" "has_wrapped d = has_wrapped dict" "need_reset d = need_reset dict"
  shows "dict_update_full (dict\<lparr>dict_buf := dict_buf d, dict_pos := dict_pos dict + n\<rparr>) = d"
  using assms by (cases dict; cases d) (auto simp: dict_update_full_def dict_ok_def split: if_splits)

text \<open>The source of a copy that \<open>dict_repeat\<close> gives to \<^verbatim>\<open>memcpy\<close> does not meet its target.\<close>

lemma dict_index_apart:
  assumes "dict_ok dict H" "distance < dict_full dict" "n \<le> distance" "n \<le> LZ_DICT_REPEAT_MAX" "dict_pos dict + n \<le> dict_limit dict"
  shows "dict_index dict distance + n \<le> dict_size dict"
    "dict_index dict distance + n \<le> dict_pos dict \<or> dict_pos dict + n \<le> dict_index dict distance"
  using assms by (auto simp: dict_index_def dict_ok_def dict_consts split: if_splits)

lemma dict_full_grows:
  assumes "dict_ok dict H" "dict_ok dict' (H @ K)" "dict_size dict' = dict_size dict" "has_wrapped dict' = has_wrapped dict"
  shows "dict_full dict \<le> dict_full dict'"
  using assms by (auto simp: dict_ok_def split: if_splits)

lemma dict_repeat_ok:
  assumes "dict_ok dict H" "dict_is_distance_valid dict distance" "len \<le> LZ_DICT_REPEAT_MAX"
  shows "\<exists>dict' left. dict_repeat dict distance len = Some (left < len, dict', len - left)
     \<and> left = min (dict_limit dict - dict_pos dict) len \<and> dict_ok dict' (repeat_bytes H distance left)
     \<and> dict_pos dict' = dict_pos dict + left \<and> dict_limit dict' = dict_limit dict \<and> dict_size dict' = dict_size dict
     \<and> has_wrapped dict' = has_wrapped dict"
proof -
  define n where "n = min (dict_limit dict - dict_pos dict) len"
  have valid: "distance < dict_full dict" using assms(2) by (simp add: dict_is_distance_valid_def)
  have n: "n \<le> LZ_DICT_REPEAT_MAX" "dict_pos dict + n \<le> dict_limit dict" "n \<le> len"
    using assms(1,3) by (auto simp: n_def dict_ok_def)
  obtain d where d: "put_bytes dict distance n = Some d" "dict_ok d (repeat_bytes H distance n)" "dict_pos d = dict_pos dict + n"
    "dict_limit d = dict_limit dict" "dict_size d = dict_size dict" "has_wrapped d = has_wrapped dict" "need_reset d = need_reset dict"
    using put_bytes_ok [OF assms(1) valid n(2)] by auto
  have copied: "copy_bytes (dict_buf dict) (dict_pos dict) (dict_index dict distance) n = Some (dict_buf d)"
    using copy_bytes_puts [OF assms(1) valid n(2)] n(1) d(1) by (simp add: copy_from_def)
  have size: "dict_pos dict + n \<le> length (dict_buf dict)" "length (dict_buf dict) = dict_size dict"
    using assms(1) n(2) by (auto simp: dict_ok_def)
  have "memcpy_within (dict_buf dict) (dict_pos dict) (dict_index dict distance) n = Some (dict_buf d)" if "\<not> distance < n"
    using that copied copy_bytes_memcpy [of "dict_pos dict" n "dict_buf dict" "dict_index dict distance"] size
      dict_index_apart [OF assms(1) valid _ n(1,2)] by (auto simp: memcpy_within_def)
  then have "dict_repeat dict distance len = Some (len - n \<noteq> 0, d, len - n)"
    unfolding dict_repeat_def Let_def n_def [symmetric]
    using copied put_bytes_record [OF assms(1) d(2-7)] by simp
  then show ?thesis using d n(3) by (intro exI [of _ d] exI [of _ n]) (auto simp: n_def)
qed

text \<open>
  C10: For a dictionary that stands for the output \<open>H\<close> and a distance the code accepts,
  \<open>dict_repeat\<close> never reads or writes outside its buffer and never hands overlapping memory to
  \<^verbatim>\<open>memcpy\<close>; it copies as many of the requested bytes as the write limit allows, and the
  dictionary then stands for \<open>H\<close> followed by these bytes, each taken \<open>distance\<close> bytes back
  from the end of the output at that moment, whether or not the copy overlaps itself and
  whether or not the buffer has wrapped.
\<close>

theorem dict_repeat_refines:
  assumes "dict_ok dict H" "dict_is_distance_valid dict distance" "len \<le> LZ_DICT_REPEAT_MAX"
  shows "\<exists>dict' left. dict_repeat dict distance len = Some (left < len, dict', len - left)
     \<and> left = min (dict_limit dict - dict_pos dict) len \<and> dict_ok dict' (repeat_bytes H distance left)
     \<and> dict_pos dict' = dict_pos dict + left \<and> dict_limit dict' = dict_limit dict \<and> dict_size dict' = dict_size dict"
  using dict_repeat_ok [OF assms] by blast

definition example_dict :: lzma_dict where
  "example_dict = lz_decoder_reset \<lparr>dict_buf = replicate 900 7, dict_pos = 0, dict_full = 0, dict_limit = 581, dict_size = 900,
     has_wrapped = False, need_reset = False\<rparr>"

lemma example_dict_ok:
  "\<exists>dict. dict_put example_dict 1 \<bind> (\<lambda>dict. dict_put dict 2) = Some dict \<and> dict_ok dict [1, 2] \<and> dict_full dict = 2
     \<and> dict_pos dict = 578 \<and> dict_limit dict = 581"
proof -
  have ok: "dict_ok example_dict []" "dict_pos example_dict = 576" "dict_limit example_dict = 581" "\<not> has_wrapped example_dict"
    by (simp_all add: example_dict_def lz_decoder_reset_def dict_ok_def dict_consts)
  obtain d where d: "dict_put example_dict 1 = Some d" "dict_ok d [1]" "dict_pos d = 577" "dict_limit d = 581" "\<not> has_wrapped d"
    using dict_put_ok [OF ok(1), of 1] ok by auto
  obtain e where e: "dict_put d 2 = Some e" "dict_ok e [1, 2]" "dict_pos e = 578" "dict_limit e = 581" "\<not> has_wrapped e"
    using dict_put_ok [OF d(2), of 2] d by auto
  have "dict_full e = 2" using e(2,5) by (simp add: dict_ok_def)
  then show ?thesis using d e by simp
qed

theorem dict_repeat_refines_witness:
  "\<exists>dict dict'. dict_put example_dict 1 \<bind> (\<lambda>dict. dict_put dict 2) = Some dict
     \<and> dict_repeat dict 1 5 = Some (True, dict', 2) \<and> dict_ok dict' [1, 2, 1, 2, 1]"
proof -
  obtain d where d: "dict_put example_dict 1 \<bind> (\<lambda>dict. dict_put dict 2) = Some d" "dict_ok d [1, 2]" "dict_full d = 2"
    "dict_pos d = 578" "dict_limit d = 581" using example_dict_ok by blast
  have "dict_is_distance_valid d 1" "(5 :: nat) \<le> LZ_DICT_REPEAT_MAX" using d(3) by (simp_all add: dict_is_distance_valid_def dict_consts)
  from dict_repeat_refines [OF d(2) this] d(4,5)
  obtain d' where "dict_repeat d 1 5 = Some (True, d', 2)" "dict_ok d' (repeat_bytes [1, 2] 1 3)" by auto
  moreover have "repeat_bytes [1, 2] 1 3 = [1, 2, 1, 2, 1]" by (simp add: numeral_3_eq_3 back_byte_def)
  ultimately show ?thesis using d(1) by auto
qed

end
