(* ===== verification/Lzma_Decoder.thy ===== *)
theory Lzma_Decoder
  imports Lzma_Common Lzma_Rc_Decoder Lzma_Lz_Dict
begin

text \<open>
  The LZMA decoder (\<^verbatim>\<open>lzma/lzma_decoder.c\<close> of liblzma): the function \<open>lzma_decode\<close> with its fast
  mode, which decodes whole symbols while there is plenty of input, and its resumable mode,
  which can stop before every bit and continue in a later call. A label of the resumable
  mode is a value of \<open>sequence\<close>, and what the code does from one label to the next is one step.
  The variables \<open>probs\<close>, \<open>symbol\<close>, \<open>limit\<close>, \<open>offset\<close> and \<open>len\<close> are forgotten where no label that can
  follow reads them, and so is the label after an error, where the code leaves the one it saved
  last: no call follows an error. A result \<open>None\<close> stands for an access outside a buffer, and for a
  loop that does not end.
\<close>

section \<open>The state of the decoder\<close>

datatype sequence =
  SEQ_NORMALIZE | SEQ_IS_MATCH | SEQ_LITERAL | SEQ_LITERAL_MATCHED | SEQ_LITERAL_WRITE | SEQ_IS_REP
| SEQ_MATCH_LEN_CHOICE | SEQ_MATCH_LEN_CHOICE2 | SEQ_MATCH_LEN_BITTREE | SEQ_DIST_SLOT | SEQ_DIST_MODEL
| SEQ_DIRECT | SEQ_ALIGN | SEQ_EOPM | SEQ_IS_REP0 | SEQ_SHORTREP | SEQ_IS_REP0_LONG | SEQ_IS_REP1 | SEQ_IS_REP2
| SEQ_REP_LEN_CHOICE | SEQ_REP_LEN_CHOICE2 | SEQ_REP_LEN_BITTREE | SEQ_COPY

record lzma_lzma1_decoder =
  d_store :: prob_store
  d_rc :: lzma_range_decoder
  d_state :: lzma_lzma_state
  d_rep0 :: u32
  d_rep1 :: u32
  d_rep2 :: u32
  d_rep3 :: u32
  d_pos_mask :: u32
  d_literal_context_bits :: nat
  d_literal_mask :: u32
  d_uncompressed_size :: lzma_vli
  d_allow_eopm :: bool
  d_sequence :: sequence
  d_probs :: nat
  d_symbol :: u32
  d_limit :: u32
  d_offset :: u32
  d_len :: u32

text \<open>The local variables of \<open>lzma_decode\<close>: copies of the fields above, the dictionary, the position in the input and a flag.\<close>

record lzma_vars = lzma_lzma1_decoder +
  v_dict :: lzma_dict
  v_in_pos :: nat
  v_eopm_is_valid :: bool

text \<open>The decoder goes on at a label, at the top of its loop, or leaves the loop with a result.\<close>

datatype outcome = Go lzma_vars | Loop lzma_vars | Stop lzma_ret lzma_vars

definition LZMA_IN_REQUIRED :: nat where "LZMA_IN_REQUIRED = 20"

definition rc_use :: "'a rc_macro \<Rightarrow> byte list \<Rightarrow> nat \<Rightarrow> lzma_vars \<Rightarrow> ('a \<times> lzma_vars) option" where
  "rc_use mac inb in_size v =
     (case mac inb in_size (d_rc v, d_store v, v_in_pos v) of
        None \<Rightarrow> None
      | Some (x, rc, m, in_pos) \<Rightarrow> Some (x, v\<lparr>d_rc := rc, d_store := m, v_in_pos := in_pos\<rparr>))"

definition forget :: "lzma_vars \<Rightarrow> lzma_vars" where
  "forget v = v\<lparr>d_probs := 0, d_symbol := 0, d_limit := 0, d_offset := 0, d_len := 0\<rparr>"

text \<open>A symbol is complete; the next label is that of the next symbol.\<close>

definition settle :: "lzma_vars \<Rightarrow> lzma_vars" where
  "settle v = (forget v)\<lparr>d_sequence := SEQ_IS_MATCH\<rparr>"

definition pos_state :: "lzma_vars \<Rightarrow> nat" where
  "pos_state v = unat ((of_nat (dict_pos (v_dict v)) :: u64) AND ucast (d_pos_mask v))"

definition literal_probs :: "lzma_vars \<Rightarrow> byte \<Rightarrow> nat" where
  "literal_probs v prev_byte =
     literal_subcoder a_literal (d_literal_context_bits v) (d_literal_mask v) (of_nat (dict_pos (v_dict v)) :: u64) prev_byte"

text \<open>A distance has been decoded: it is the end marker, or it must lie in the dictionary.\<close>

definition corrupt :: "lzma_vars \<Rightarrow> outcome" where
  "corrupt v = Stop LZMA_DATA_ERROR (settle v)"

definition eopm :: "lzma_vars \<Rightarrow> outcome" where
  "eopm v = (if \<not> v_eopm_is_valid v then corrupt v else Go ((forget v)\<lparr>d_sequence := SEQ_EOPM\<rparr>))"

section \<open>The fast mode\<close>

definition len_decode_fast :: "nat \<Rightarrow> nat \<Rightarrow> u32 rc_macro" where
  "len_decode_fast ld ps inb in_size s = do {
     (choice, s) \<leftarrow> rc_bit_last (len_choice ld) inb in_size s;
     if \<not> choice then rc_bittree3 (len_low ld ps) (MATCH_LEN_MIN - LEN_LOW_SYMBOLS) inb in_size s
     else do {
       (choice2, s) \<leftarrow> rc_bit_last (len_choice2 ld) inb in_size s;
       if \<not> choice2 then rc_bittree3 (len_mid ld ps) (MATCH_LEN_MIN + LEN_LOW_SYMBOLS - LEN_MID_SYMBOLS) inb in_size s
       else rc_bittree8 (len_high ld) (MATCH_LEN_MIN + LEN_LOW_SYMBOLS + LEN_MID_SYMBOLS - LEN_HIGH_SYMBOLS) inb in_size s } }"

text \<open>A distance, and whether it can be the end marker: only those with direct bits are compared with it.\<close>

definition dist_decode_fast :: "u32 \<Rightarrow> (bool \<times> u32) rc_macro" where
  "dist_decode_fast len inb in_size s = do {
     (symbol, s) \<leftarrow> rc_bittree6 (a_dist_slot (unat (get_dist_state len))) (- DIST_SLOTS) inb in_size s;
     if symbol < DIST_MODEL_START then Some ((False, symbol), s)
     else let limit = drop_bit 1 symbol - 1;
              rep0 = 2 + (symbol AND 1)
          in if symbol < DIST_MODEL_END
             then let rep0 = push_bit (unat limit) rep0 in do {
                    (rep0, s) \<leftarrow> rc_reverse_bits (a_dist_special + unat rep0 - unat symbol - 1) (unat limit) 1 1 rep0 inb in_size s;
                    Some ((False, rep0), s) }
             else let limit = limit - of_nat ALIGN_BITS in do {
                    (rep0, s) \<leftarrow> rc_direct_decode (unat limit) rep0 inb in_size s;
                    (symbol, s) \<leftarrow> rc_bittree_rev4 a_dist_align inb in_size s;
                    Some ((True, push_bit ALIGN_BITS rep0 + symbol), s) } }"

text \<open>Repeating a match; the copy may have to wait for more room.\<close>

definition copy_match :: "u32 \<Rightarrow> lzma_vars \<Rightarrow> outcome option" where
  "copy_match len v = do {
     (again, dict, left) \<leftarrow> dict_repeat (v_dict v) (unat (d_rep0 v)) (unat len);
     let v = (forget v)\<lparr>v_dict := dict, d_len := of_nat left\<rparr>;
     if again then Some (Stop LZMA_OK (v\<lparr>d_sequence := SEQ_COPY\<rparr>)) else Some (Loop (settle v)) }"

definition fast_literal :: "byte list \<Rightarrow> nat \<Rightarrow> lzma_vars \<Rightarrow> outcome option" where
  "fast_literal inb in_size v = do {
     prev_byte \<leftarrow> dict_get0 (v_dict v);
     let probs = literal_probs v prev_byte;
     (symbol, v) \<leftarrow>
       (if is_literal_state (d_state v)
        then rc_use (rc_bittree8 probs 0) inb in_size (v\<lparr>d_state := update_literal_normal (d_state v)\<rparr>)
        else do {
          match_byte \<leftarrow> dict_get (v_dict v) (unat (d_rep0 v));
          rc_use (rc_matched_literal probs match_byte) inb in_size (v\<lparr>d_state := update_literal_matched (d_state v)\<rparr>) });
     dict \<leftarrow> dict_put (v_dict v) (ucast symbol);
     Some (Loop (settle (v\<lparr>v_dict := dict\<rparr>))) }"

definition fast_match :: "byte list \<Rightarrow> nat \<Rightarrow> lzma_vars \<Rightarrow> outcome option" where
  "fast_match inb in_size v = do {
     let v = v\<lparr>d_state := update_match (d_state v), d_rep3 := d_rep2 v, d_rep2 := d_rep1 v, d_rep1 := d_rep0 v\<rparr>;
     (len, v) \<leftarrow> rc_use (len_decode_fast a_match_len (pos_state v)) inb in_size v;
     ((marker, rep0), v) \<leftarrow> rc_use (dist_decode_fast len) inb in_size v;
     let v = v\<lparr>d_rep0 := rep0\<rparr>;
     if marker \<and> rep0 = 0xFFFFFFFF then Some (eopm v)
     else if \<not> dict_is_distance_valid (v_dict v) (unat rep0) then Some (corrupt v)
     else copy_match len v }"

text \<open>The distance of a repeated match moves to the front.\<close>

definition use_rep1 :: "lzma_vars \<Rightarrow> lzma_vars" where
  "use_rep1 v = v\<lparr>d_rep1 := d_rep0 v, d_rep0 := d_rep1 v\<rparr>"

definition use_rep2 :: "lzma_vars \<Rightarrow> lzma_vars" where
  "use_rep2 v = v\<lparr>d_rep2 := d_rep1 v, d_rep1 := d_rep0 v, d_rep0 := d_rep2 v\<rparr>"

definition use_rep3 :: "lzma_vars \<Rightarrow> lzma_vars" where
  "use_rep3 v = v\<lparr>d_rep3 := d_rep2 v, d_rep2 := d_rep1 v, d_rep1 := d_rep0 v, d_rep0 := d_rep3 v\<rparr>"

definition fast_long_rep :: "byte list \<Rightarrow> nat \<Rightarrow> lzma_vars \<Rightarrow> outcome option" where
  "fast_long_rep inb in_size v = do {
     (len, v) \<leftarrow> rc_use (len_decode_fast a_rep_len (pos_state v)) inb in_size (v\<lparr>d_state := update_long_rep (d_state v)\<rparr>);
     copy_match len v }"

definition fast_rep :: "byte list \<Rightarrow> nat \<Rightarrow> lzma_vars \<Rightarrow> outcome option" where
  "fast_rep inb in_size v =
     (if \<not> dict_is_distance_valid (v_dict v) 0 then Some (corrupt v)
      else do {
        (is_rep0, v) \<leftarrow> rc_use (rc_bit_last (a_is_rep0 (d_state v))) inb in_size v;
        if \<not> is_rep0
        then do {
          (is_rep0_long, v) \<leftarrow> rc_use (rc_bit_last (a_is_rep0_long (d_state v) (pos_state v))) inb in_size v;
          if \<not> is_rep0_long
          then do {
            b \<leftarrow> dict_get (v_dict v) (unat (d_rep0 v));
            dict \<leftarrow> dict_put (v_dict v) b;
            Some (Loop (settle (v\<lparr>d_state := update_short_rep (d_state v), v_dict := dict\<rparr>))) }
          else fast_long_rep inb in_size v }
        else do {
          (is_rep1, v) \<leftarrow> rc_use (rc_bit_last (a_is_rep1 (d_state v))) inb in_size v;
          if \<not> is_rep1 then fast_long_rep inb in_size (use_rep1 v)
          else do {
            (is_rep2, v) \<leftarrow> rc_use (rc_bit_last (a_is_rep2 (d_state v))) inb in_size v;
            if \<not> is_rep2 then fast_long_rep inb in_size (use_rep2 v)
            else fast_long_rep inb in_size (use_rep3 v) } } })"

definition fast_symbol :: "byte list \<Rightarrow> nat \<Rightarrow> lzma_vars \<Rightarrow> outcome option" where
  "fast_symbol inb in_size v = do {
     (is_match, v) \<leftarrow> rc_use (rc_bit_last (a_is_match (d_state v) (pos_state v))) inb in_size v;
     if \<not> is_match then fast_literal inb in_size v
     else do {
       (is_rep, v) \<leftarrow> rc_use (rc_bit_last (a_is_rep (d_state v))) inb in_size v;
       if \<not> is_rep then fast_match inb in_size v else fast_rep inb in_size v } }"

section \<open>The resumable mode\<close>

text \<open>Without the byte a macro needs, the decoder stops at its label.\<close>

definition safe :: "'a rc_macro \<Rightarrow> byte list \<Rightarrow> nat \<Rightarrow> lzma_vars \<Rightarrow> ('a \<Rightarrow> lzma_vars \<Rightarrow> outcome option) \<Rightarrow> outcome option" where
  "safe mac inb in_size v k = (case rc_use mac inb in_size v of None \<Rightarrow> Some (Stop LZMA_OK v) | Some (x, v) \<Rightarrow> k x v)"

definition go :: "sequence \<Rightarrow> lzma_vars \<Rightarrow> outcome option" where
  "go seq v = Some (Go (v\<lparr>d_sequence := seq\<rparr>))"

text \<open>One bit appended to \<open>symbol\<close>.\<close>

definition with_bit :: "bool \<Rightarrow> u32 \<Rightarrow> u32" where
  "with_bit b symbol = (if b then push_bit 1 symbol + 1 else push_bit 1 symbol)"

definition slow_is_match :: "bool \<Rightarrow> byte list \<Rightarrow> nat \<Rightarrow> lzma_vars \<Rightarrow> outcome option" where
  "slow_is_match might_finish_without_eopm inb in_size v =
     (let decode = (\<lambda>v. safe (rc_bit_last (a_is_match (d_state v) (pos_state v))) inb in_size (v\<lparr>d_sequence := SEQ_IS_MATCH\<rparr>) (\<lambda>is_match v.
        if \<not> is_match
        then do {
          prev_byte \<leftarrow> dict_get0 (v_dict v);
          let v = v\<lparr>d_probs := literal_probs v prev_byte, d_symbol := 1\<rparr>;
          if is_literal_state (d_state v) then go SEQ_LITERAL (v\<lparr>d_state := update_literal_normal (d_state v)\<rparr>)
          else do {
            match_byte \<leftarrow> dict_get (v_dict v) (unat (d_rep0 v));
            go SEQ_LITERAL_MATCHED (v\<lparr>d_state := update_literal_matched (d_state v),
              d_len := push_bit 1 (ucast match_byte), d_offset := 0x100\<rparr>) } }
        else go SEQ_IS_REP v))
      in if might_finish_without_eopm \<and> dict_pos (v_dict v) = dict_limit (v_dict v)
         then safe rc_normalize inb in_size (v\<lparr>d_sequence := SEQ_NORMALIZE\<rparr>) (\<lambda>_ v.
           if rc_is_finished (d_rc v) then Some (Stop LZMA_STREAM_END (settle v))
           else if \<not> d_allow_eopm v then Some (corrupt v)
           else decode (v\<lparr>v_eopm_is_valid := True\<rparr>))
         else decode v)"

definition slow_literal :: "byte list \<Rightarrow> nat \<Rightarrow> lzma_vars \<Rightarrow> outcome option" where
  "slow_literal inb in_size v = safe (rc_bit_last (d_probs v + unat (d_symbol v))) inb in_size v (\<lambda>b v.
     let v = v\<lparr>d_symbol := with_bit b (d_symbol v)\<rparr>
     in if d_symbol v < push_bit 8 1 then go SEQ_LITERAL v else go SEQ_LITERAL_WRITE v)"

definition slow_literal_matched :: "byte list \<Rightarrow> nat \<Rightarrow> lzma_vars \<Rightarrow> outcome option" where
  "slow_literal_matched inb in_size v =
     (let match_bit = d_len v AND d_offset v;
          subcoder_index = d_offset v + match_bit + d_symbol v
      in safe (rc_bit_last (d_probs v + unat subcoder_index)) inb in_size v (\<lambda>b v.
        let v = v\<lparr>d_symbol := with_bit b (d_symbol v),
                  d_offset := (if b then d_offset v AND match_bit else d_offset v AND NOT match_bit),
                  d_len := push_bit 1 (d_len v)\<rparr>
        in if d_symbol v < push_bit 8 1 then go SEQ_LITERAL_MATCHED v else go SEQ_LITERAL_WRITE v))"

definition slow_put :: "byte \<Rightarrow> lzma_vars \<Rightarrow> outcome option" where
  "slow_put b v = do {
     (full, dict) \<leftarrow> dict_put_safe (v_dict v) b;
     if full then Some (Stop LZMA_OK v) else Some (Loop (settle (v\<lparr>v_dict := dict\<rparr>))) }"

definition slow_is_rep :: "byte list \<Rightarrow> nat \<Rightarrow> lzma_vars \<Rightarrow> outcome option" where
  "slow_is_rep inb in_size v = safe (rc_bit_last (a_is_rep (d_state v))) inb in_size v (\<lambda>is_rep v.
     if \<not> is_rep
     then go SEQ_MATCH_LEN_CHOICE (v\<lparr>d_state := update_match (d_state v), d_rep3 := d_rep2 v, d_rep2 := d_rep1 v, d_rep1 := d_rep0 v\<rparr>)
     else if \<not> dict_is_distance_valid (v_dict v) 0 then Some (corrupt v)
     else go SEQ_IS_REP0 v)"

definition slow_choice :: "nat \<Rightarrow> sequence \<Rightarrow> sequence \<Rightarrow> byte list \<Rightarrow> nat \<Rightarrow> lzma_vars \<Rightarrow> outcome option" where
  "slow_choice ld seq_CHOICE2 seq_BITTREE inb in_size v = safe (rc_bit_last (len_choice ld)) inb in_size v (\<lambda>choice v.
     if \<not> choice
     then go seq_BITTREE (v\<lparr>d_probs := len_low ld (pos_state v), d_limit := LEN_LOW_SYMBOLS, d_len := MATCH_LEN_MIN, d_symbol := 1\<rparr>)
     else go seq_CHOICE2 v)"

definition slow_choice2 :: "nat \<Rightarrow> sequence \<Rightarrow> byte list \<Rightarrow> nat \<Rightarrow> lzma_vars \<Rightarrow> outcome option" where
  "slow_choice2 ld seq_BITTREE inb in_size v = safe (rc_bit_last (len_choice2 ld)) inb in_size v (\<lambda>choice2 v.
     if \<not> choice2
     then go seq_BITTREE (v\<lparr>d_probs := len_mid ld (pos_state v), d_limit := LEN_MID_SYMBOLS,
            d_len := MATCH_LEN_MIN + LEN_LOW_SYMBOLS, d_symbol := 1\<rparr>)
     else go seq_BITTREE (v\<lparr>d_probs := len_high ld, d_limit := LEN_HIGH_SYMBOLS,
            d_len := MATCH_LEN_MIN + LEN_LOW_SYMBOLS + LEN_MID_SYMBOLS, d_symbol := 1\<rparr>))"

definition slow_len_bittree ::
    "sequence \<Rightarrow> (lzma_vars \<Rightarrow> outcome option) \<Rightarrow> byte list \<Rightarrow> nat \<Rightarrow> lzma_vars \<Rightarrow> outcome option" where
  "slow_len_bittree seq_BITTREE k inb in_size v = safe (rc_bit_last (d_probs v + unat (d_symbol v))) inb in_size v (\<lambda>b v.
     let v = v\<lparr>d_symbol := with_bit b (d_symbol v)\<rparr>
     in if d_symbol v < d_limit v then go seq_BITTREE v
        else k (v\<lparr>d_len := d_len v + (d_symbol v - d_limit v)\<rparr>))"

definition go_copy :: "lzma_vars \<Rightarrow> outcome option" where
  "go_copy v = go SEQ_COPY ((forget v)\<lparr>d_len := d_len v\<rparr>)"

definition check_distance :: "lzma_vars \<Rightarrow> outcome option" where
  "check_distance v = (if \<not> dict_is_distance_valid (v_dict v) (unat (d_rep0 v)) then Some (corrupt v) else go_copy v)"

definition slow_dist_slot :: "byte list \<Rightarrow> nat \<Rightarrow> lzma_vars \<Rightarrow> outcome option" where
  "slow_dist_slot inb in_size v = safe (rc_bit_last (d_probs v + unat (d_symbol v))) inb in_size v (\<lambda>b v.
     let v = v\<lparr>d_symbol := with_bit b (d_symbol v)\<rparr>
     in if d_symbol v < DIST_SLOTS then go SEQ_DIST_SLOT v
        else let symbol = d_symbol v - DIST_SLOTS
             in if symbol < DIST_MODEL_START then check_distance (v\<lparr>d_symbol := symbol, d_rep0 := symbol\<rparr>)
                else let limit = drop_bit 1 symbol - 1;
                         rep0 = 2 + (symbol AND 1)
                     in if symbol < DIST_MODEL_END
                        then let rep0 = push_bit (unat limit) rep0
                             in go SEQ_DIST_MODEL (v\<lparr>d_limit := limit, d_rep0 := rep0,
                                  d_probs := a_dist_special + unat rep0 - unat symbol - 1, d_symbol := 1, d_offset := 0\<rparr>)
                        else go SEQ_DIRECT (v\<lparr>d_limit := limit - of_nat ALIGN_BITS, d_rep0 := rep0, d_symbol := symbol\<rparr>))"

definition slow_dist_model :: "byte list \<Rightarrow> nat \<Rightarrow> lzma_vars \<Rightarrow> outcome option" where
  "slow_dist_model inb in_size v = safe (rc_bit_last (d_probs v + unat (d_symbol v))) inb in_size v (\<lambda>b v.
     let v = v\<lparr>d_symbol := with_bit b (d_symbol v),
               d_rep0 := (if b then d_rep0 v + push_bit (unat (d_offset v)) 1 else d_rep0 v),
               d_offset := d_offset v + 1\<rparr>
     in if d_offset v < d_limit v then go SEQ_DIST_MODEL v else check_distance v)"

definition slow_direct :: "byte list \<Rightarrow> nat \<Rightarrow> lzma_vars \<Rightarrow> outcome option" where
  "slow_direct inb in_size v = safe (rc_direct_decode 1 (d_rep0 v)) inb in_size v (\<lambda>rep0 v.
     let v = v\<lparr>d_rep0 := rep0, d_limit := d_limit v - 1\<rparr>
     in if d_limit v > 0 then go SEQ_DIRECT v
        else go SEQ_ALIGN (v\<lparr>d_rep0 := push_bit ALIGN_BITS (d_rep0 v), d_symbol := 0, d_offset := 1\<rparr>))"

definition slow_align :: "byte list \<Rightarrow> nat \<Rightarrow> lzma_vars \<Rightarrow> outcome option" where
  "slow_align inb in_size v = safe (rc_bit_last (a_dist_align + unat (d_offset v + d_symbol v))) inb in_size v (\<lambda>b v.
     let v = v\<lparr>d_symbol := (if b then d_symbol v + d_offset v else d_symbol v), d_offset := push_bit 1 (d_offset v)\<rparr>
     in if d_offset v < ALIGN_SIZE then go SEQ_ALIGN v
        else let v = v\<lparr>d_rep0 := d_rep0 v + d_symbol v\<rparr>
             in if d_rep0 v = 0xFFFFFFFF then Some (eopm v) else check_distance v)"

definition slow_eopm :: "byte list \<Rightarrow> nat \<Rightarrow> lzma_vars \<Rightarrow> outcome option" where
  "slow_eopm inb in_size v = safe rc_normalize inb in_size v (\<lambda>_ v.
     if rc_is_finished (d_rc v) then Some (Stop LZMA_STREAM_END (settle v)) else Some (corrupt v))"

definition slow_is_rep0 :: "byte list \<Rightarrow> nat \<Rightarrow> lzma_vars \<Rightarrow> outcome option" where
  "slow_is_rep0 inb in_size v = safe (rc_bit_last (a_is_rep0 (d_state v))) inb in_size v (\<lambda>is_rep0 v.
     if \<not> is_rep0 then go SEQ_IS_REP0_LONG v else go SEQ_IS_REP1 v)"

definition go_rep_len :: "lzma_vars \<Rightarrow> outcome option" where
  "go_rep_len v = go SEQ_REP_LEN_CHOICE (v\<lparr>d_state := update_long_rep (d_state v)\<rparr>)"

definition slow_is_rep0_long :: "byte list \<Rightarrow> nat \<Rightarrow> lzma_vars \<Rightarrow> outcome option" where
  "slow_is_rep0_long inb in_size v = safe (rc_bit_last (a_is_rep0_long (d_state v) (pos_state v))) inb in_size v (\<lambda>is_rep0_long v.
     if \<not> is_rep0_long then go SEQ_SHORTREP (v\<lparr>d_state := update_short_rep (d_state v)\<rparr>) else go_rep_len v)"

definition slow_is_rep1 :: "byte list \<Rightarrow> nat \<Rightarrow> lzma_vars \<Rightarrow> outcome option" where
  "slow_is_rep1 inb in_size v = safe (rc_bit_last (a_is_rep1 (d_state v))) inb in_size v (\<lambda>is_rep1 v.
     if \<not> is_rep1 then go_rep_len (use_rep1 v) else go SEQ_IS_REP2 v)"

definition slow_is_rep2 :: "byte list \<Rightarrow> nat \<Rightarrow> lzma_vars \<Rightarrow> outcome option" where
  "slow_is_rep2 inb in_size v = safe (rc_bit_last (a_is_rep2 (d_state v))) inb in_size v (\<lambda>is_rep2 v.
     go_rep_len (if \<not> is_rep2 then use_rep2 v else use_rep3 v))"

definition to_dist_slot :: "lzma_vars \<Rightarrow> outcome option" where
  "to_dist_slot v = go SEQ_DIST_SLOT (v\<lparr>d_probs := a_dist_slot (unat (get_dist_state (d_len v))), d_symbol := 1\<rparr>)"

definition slow_step :: "bool \<Rightarrow> byte list \<Rightarrow> nat \<Rightarrow> lzma_vars \<Rightarrow> outcome option" where
  "slow_step might_finish inb in_size v = (case d_sequence v of
     SEQ_NORMALIZE \<Rightarrow> slow_is_match might_finish inb in_size v
   | SEQ_IS_MATCH \<Rightarrow> slow_is_match might_finish inb in_size v
   | SEQ_LITERAL \<Rightarrow> slow_literal inb in_size v
   | SEQ_LITERAL_MATCHED \<Rightarrow> slow_literal_matched inb in_size v
   | SEQ_LITERAL_WRITE \<Rightarrow> slow_put (ucast (d_symbol v)) v
   | SEQ_IS_REP \<Rightarrow> slow_is_rep inb in_size v
   | SEQ_MATCH_LEN_CHOICE \<Rightarrow> slow_choice a_match_len SEQ_MATCH_LEN_CHOICE2 SEQ_MATCH_LEN_BITTREE inb in_size v
   | SEQ_MATCH_LEN_CHOICE2 \<Rightarrow> slow_choice2 a_match_len SEQ_MATCH_LEN_BITTREE inb in_size v
   | SEQ_MATCH_LEN_BITTREE \<Rightarrow> slow_len_bittree SEQ_MATCH_LEN_BITTREE to_dist_slot inb in_size v
   | SEQ_DIST_SLOT \<Rightarrow> slow_dist_slot inb in_size v
   | SEQ_DIST_MODEL \<Rightarrow> slow_dist_model inb in_size v
   | SEQ_DIRECT \<Rightarrow> slow_direct inb in_size v
   | SEQ_ALIGN \<Rightarrow> slow_align inb in_size v
   | SEQ_EOPM \<Rightarrow> slow_eopm inb in_size v
   | SEQ_IS_REP0 \<Rightarrow> slow_is_rep0 inb in_size v
   | SEQ_SHORTREP \<Rightarrow> dict_get (v_dict v) (unat (d_rep0 v)) \<bind> (\<lambda>b. slow_put b v)
   | SEQ_IS_REP0_LONG \<Rightarrow> slow_is_rep0_long inb in_size v
   | SEQ_IS_REP1 \<Rightarrow> slow_is_rep1 inb in_size v
   | SEQ_IS_REP2 \<Rightarrow> slow_is_rep2 inb in_size v
   | SEQ_REP_LEN_CHOICE \<Rightarrow> slow_choice a_rep_len SEQ_REP_LEN_CHOICE2 SEQ_REP_LEN_BITTREE inb in_size v
   | SEQ_REP_LEN_CHOICE2 \<Rightarrow> slow_choice2 a_rep_len SEQ_REP_LEN_BITTREE inb in_size v
   | SEQ_REP_LEN_BITTREE \<Rightarrow> slow_len_bittree SEQ_REP_LEN_BITTREE go_copy inb in_size v
   | SEQ_COPY \<Rightarrow> copy_match (d_len v) v)"

section \<open>The loop and the function around it\<close>

text \<open>
  At the top of the loop the fast mode is taken while the input left is long enough for every
  symbol and the dictionary has room; a call starts at the label it was left at.
\<close>

partial_function (option) decode_loop ::
    "bool \<Rightarrow> nat \<Rightarrow> byte list \<Rightarrow> nat \<Rightarrow> bool \<Rightarrow> lzma_vars \<Rightarrow> (lzma_ret \<times> lzma_vars) option" where
  "decode_loop might_finish fast_end inb in_size fresh v =
     Option.bind
       (if fresh \<and> v_in_pos v < fast_end \<and> dict_pos (v_dict v) \<noteq> dict_limit (v_dict v) then fast_symbol inb in_size v
        else slow_step might_finish inb in_size v)
       (\<lambda>r. case r of
          Go v \<Rightarrow> decode_loop might_finish fast_end inb in_size False v
        | Loop v \<Rightarrow> decode_loop might_finish fast_end inb in_size True v
        | Stop ret v \<Rightarrow> Some (ret, v))"

text \<open>The function, built with \<^verbatim>\<open>HAVE_SMALL\<close>, where there is no fast mode, or without.\<close>

definition lzma_decode_built ::
    "bool \<Rightarrow> byte list \<Rightarrow> nat \<Rightarrow> lzma_lzma1_decoder \<Rightarrow> lzma_dict \<Rightarrow> nat \<Rightarrow> (lzma_ret \<times> lzma_lzma1_decoder \<times> lzma_dict \<times> nat) option" where
  "lzma_decode_built have_small inb in_size coder dictptr in_pos =
     (case rc_read_init (d_rc coder) inb in_pos in_size of (ret, rc, in_pos) \<Rightarrow>
        if ret \<noteq> LZMA_STREAM_END then Some (ret, coder\<lparr>d_rc := rc\<rparr>, dictptr, in_pos)
        else let known = (d_uncompressed_size coder \<noteq> LZMA_VLI_UNKNOWN);
                 might_finish = (known \<and> unat (d_uncompressed_size coder) \<le> dict_limit dictptr - dict_pos dictptr);
                 dict = (if might_finish then dictptr\<lparr>dict_limit := dict_pos dictptr + unat (d_uncompressed_size coder)\<rparr> else dictptr);
                 fast_end = (if have_small then 0 else if in_size - in_pos \<le> LZMA_IN_REQUIRED then in_pos else in_size - LZMA_IN_REQUIRED)
             in do {
               (ret, v) \<leftarrow> decode_loop might_finish fast_end inb in_size False
                 (lzma_lzma1_decoder.extend (coder\<lparr>d_rc := rc\<rparr>) (lzma_vars.fields dict in_pos (\<not> known)));
               let coder = lzma_lzma1_decoder.truncate v;
               let size = (if known then d_uncompressed_size coder - of_nat (dict_pos (v_dict v) - dict_pos dictptr)
                           else d_uncompressed_size coder);
               let ret = (if known \<and> size = 0 \<and> ret = LZMA_OK \<and> d_sequence coder \<in> {SEQ_LITERAL_WRITE, SEQ_SHORTREP, SEQ_COPY}
                          then LZMA_DATA_ERROR else ret);
               let coder = coder\<lparr>d_uncompressed_size := size\<rparr>;
               Some (ret, if ret = LZMA_STREAM_END then coder\<lparr>d_rc := rd_reset (d_rc coder), d_sequence := SEQ_IS_MATCH\<rparr> else coder,
                     (v_dict v)\<lparr>dict_limit := dict_limit dictptr\<rparr>, v_in_pos v) })"

definition lzma_decode ::
    "byte list \<Rightarrow> nat \<Rightarrow> lzma_lzma1_decoder \<Rightarrow> lzma_dict \<Rightarrow> nat \<Rightarrow> (lzma_ret \<times> lzma_lzma1_decoder \<times> lzma_dict \<times> nat) option" where
  "lzma_decode = lzma_decode_built False"

definition lzma_decoder_uncompressed :: "lzma_lzma1_decoder \<Rightarrow> lzma_vli \<Rightarrow> bool \<Rightarrow> lzma_lzma1_decoder" where
  "lzma_decoder_uncompressed coder uncompressed_size allow_eopm =
     coder\<lparr>d_uncompressed_size := uncompressed_size, d_allow_eopm := allow_eopm\<rparr>"

text \<open>The reset of the probabilities, in the order of the code; the two length decoders are reset side by side.\<close>

definition reset_states :: "nat \<Rightarrow> prob_store \<Rightarrow> prob_store" where
  "reset_states pos_mask m = fold (\<lambda>i m.
     (bit_reset (a_is_rep2 i) \<circ> bit_reset (a_is_rep1 i) \<circ> bit_reset (a_is_rep0 i) \<circ> bit_reset (a_is_rep i))
       (fold (\<lambda>j m. bit_reset (a_is_rep0_long i j) (bit_reset (a_is_match i j) m)) [0..<pos_mask + 1] m)) [0..<STATES] m"

definition reset_dists :: "prob_store \<Rightarrow> prob_store" where
  "reset_dists m = bittree_reset a_dist_align ALIGN_BITS
     (fold (\<lambda>i. bit_reset (a_dist_special + i)) [0..<FULL_DISTANCES - unat DIST_MODEL_END]
       (fold (\<lambda>i. bittree_reset (a_dist_slot i) DIST_SLOT_BITS) [0..<unat DIST_STATES] m))"

definition reset_lens :: "nat \<Rightarrow> prob_store \<Rightarrow> prob_store" where
  "reset_lens num_pos_states m =
     (bittree_reset (len_high a_rep_len) LEN_HIGH_BITS \<circ> bittree_reset (len_high a_match_len) LEN_HIGH_BITS)
       (fold (\<lambda>ps. bittree_reset (len_mid a_rep_len ps) LEN_MID_BITS \<circ> bittree_reset (len_low a_rep_len ps) LEN_LOW_BITS
                \<circ> bittree_reset (len_mid a_match_len ps) LEN_MID_BITS \<circ> bittree_reset (len_low a_match_len ps) LEN_LOW_BITS)
          [0..<num_pos_states]
          ((bit_reset (len_choice2 a_rep_len) \<circ> bit_reset (len_choice a_rep_len)
            \<circ> bit_reset (len_choice2 a_match_len) \<circ> bit_reset (len_choice a_match_len)) m))"

definition lzma_decoder_reset :: "lzma_lzma1_decoder \<Rightarrow> lclppb \<Rightarrow> lzma_lzma1_decoder" where
  "lzma_decoder_reset coder options =
     (let lc = unat (opt_lc options); lp = unat (opt_lp options); pos_mask = push_bit (unat (opt_pb options)) 1 - 1
      in coder\<lparr>d_pos_mask := pos_mask,
           d_store := reset_lens (2 ^ unat (opt_pb options)) (reset_dists (reset_states (unat pos_mask)
             (literal_init a_literal lc lp (d_store coder)))),
           d_literal_context_bits := lc, d_literal_mask := literal_mask_calc lc lp,
           d_state := STATE_LIT_LIT, d_rep0 := 0, d_rep1 := 0, d_rep2 := 0, d_rep3 := 0,
           d_rc := rd_reset (d_rc coder), d_sequence := SEQ_IS_MATCH, d_probs := 0, d_symbol := 0, d_limit := 0, d_offset := 0, d_len := 0\<rparr>)"

text \<open>The three options in one byte; \<open>None\<close> is the result true, after which the options are not used.\<close>

definition lzma_lzma_lclppb_decode :: "byte \<Rightarrow> lclppb option" where
  "lzma_lzma_lclppb_decode b =
     (if unat b > (4 * 5 + 4) * 9 + 8 then None
      else let pb = unat b div (9 * 5); b = unat b - pb * 9 * 5; lp = b div 9; lc = b - lp * 9
           in if lc + lp > LZMA_LCLP_MAX then None else Some \<lparr>opt_lc = of_nat lc, opt_lp = of_nat lp, opt_pb = of_nat pb\<rparr>)"

definition lzma_lzma_lclppb_encode :: "lclppb \<Rightarrow> byte option" where
  "lzma_lzma_lclppb_encode options =
     (if \<not> is_lclppb_valid options then None
      else Some (ucast ((opt_pb options * 5 + opt_lp options) * 9 + opt_lc options)))"

end
