(* ===== verification/Lzma_Decoder_Modes.thy ===== *)
theory Lzma_Decoder_Modes
  imports Lzma_Decoder
begin

text \<open>
  The two modes of the LZMA decoder do the same: what the fast mode does with a symbol is what
  the steps of the resumable mode do with it, one after the other.
\<close>

section \<open>Chains of steps\<close>

inductive steps :: "bool \<Rightarrow> byte list \<Rightarrow> nat \<Rightarrow> lzma_vars \<Rightarrow> outcome \<Rightarrow> bool" for mf inb in_size where
  steps_one: "slow_step mf inb in_size v = Some r \<Longrightarrow> steps mf inb in_size v r"
| steps_more: "slow_step mf inb in_size v = Some (Go w) \<Longrightarrow> steps mf inb in_size w r \<Longrightarrow> steps mf inb in_size v r"

lemma steps_trans: "steps mf inb in_size v r \<Longrightarrow> r = Go w \<Longrightarrow> steps mf inb in_size w r' \<Longrightarrow> steps mf inb in_size v r'"
  by (induction rule: steps.induct) (auto intro: steps.intros)

text \<open>What a macro changes of the variables.\<close>

definition put_rc :: "rc_state \<Rightarrow> lzma_vars \<Rightarrow> lzma_vars" where
  "put_rc s v = (case s of (rc, m, in_pos) \<Rightarrow> v\<lparr>d_rc := rc, d_store := m, v_in_pos := in_pos\<rparr>)"

definition rc_of :: "lzma_vars \<Rightarrow> rc_state" where
  "rc_of v = (d_rc v, d_store v, v_in_pos v)"

lemma rc_use_Some: "rc_use mac inb in_size v = Some (x, w) \<longleftrightarrow> (\<exists>s. mac inb in_size (rc_of v) = Some (x, s) \<and> w = put_rc s v)"
  by (auto simp: rc_use_def rc_of_def put_rc_def split: option.splits prod.splits)

lemma rc_of_put [simp]: "rc_of (put_rc s v) = s" "put_rc s (put_rc t v) = put_rc s v"
  by (simp_all add: rc_of_def put_rc_def split: prod.splits)

lemma put_rc_fields [simp]:
  "d_state (put_rc s v) = d_state v" "d_rep0 (put_rc s v) = d_rep0 v" "d_rep1 (put_rc s v) = d_rep1 v"
  "d_rep2 (put_rc s v) = d_rep2 v" "d_rep3 (put_rc s v) = d_rep3 v" "d_pos_mask (put_rc s v) = d_pos_mask v"
  "d_literal_context_bits (put_rc s v) = d_literal_context_bits v" "d_literal_mask (put_rc s v) = d_literal_mask v"
  "d_uncompressed_size (put_rc s v) = d_uncompressed_size v" "d_allow_eopm (put_rc s v) = d_allow_eopm v"
  "d_sequence (put_rc s v) = d_sequence v" "d_probs (put_rc s v) = d_probs v" "d_symbol (put_rc s v) = d_symbol v"
  "d_limit (put_rc s v) = d_limit v" "d_offset (put_rc s v) = d_offset v" "d_len (put_rc s v) = d_len v"
  "v_dict (put_rc s v) = v_dict v" "v_eopm_is_valid (put_rc s v) = v_eopm_is_valid v"
  by (simp_all add: put_rc_def split: prod.splits)

lemma pos_state_put [simp]: "pos_state (put_rc s v) = pos_state v" "literal_probs (put_rc s v) b = literal_probs v b"
  by (simp_all add: pos_state_def literal_probs_def)

lemma rc_of_updates [simp]:
  "rc_of (v\<lparr>d_symbol := x\<rparr>) = rc_of v" "rc_of (v\<lparr>d_sequence := q\<rparr>) = rc_of v" "rc_of (v\<lparr>d_len := x\<rparr>) = rc_of v"
  "rc_of (v\<lparr>d_offset := x\<rparr>) = rc_of v" "rc_of (v\<lparr>d_limit := x\<rparr>) = rc_of v" "rc_of (v\<lparr>d_probs := a\<rparr>) = rc_of v"
  "rc_of (v\<lparr>d_state := t\<rparr>) = rc_of v" "rc_of (v\<lparr>d_rep0 := x\<rparr>) = rc_of v" "rc_of (v\<lparr>d_rep1 := x\<rparr>) = rc_of v"
  "rc_of (v\<lparr>d_rep2 := x\<rparr>) = rc_of v" "rc_of (v\<lparr>d_rep3 := x\<rparr>) = rc_of v"
  by (simp_all add: rc_of_def)

lemma put_rc_updates:
  "put_rc s (v\<lparr>d_symbol := x\<rparr>) = (put_rc s v)\<lparr>d_symbol := x\<rparr>" "put_rc s (v\<lparr>d_sequence := q\<rparr>) = (put_rc s v)\<lparr>d_sequence := q\<rparr>"
  "put_rc s (v\<lparr>d_len := x\<rparr>) = (put_rc s v)\<lparr>d_len := x\<rparr>" "put_rc s (v\<lparr>d_offset := x\<rparr>) = (put_rc s v)\<lparr>d_offset := x\<rparr>"
  "put_rc s (v\<lparr>d_limit := x\<rparr>) = (put_rc s v)\<lparr>d_limit := x\<rparr>" "put_rc s (v\<lparr>d_probs := a\<rparr>) = (put_rc s v)\<lparr>d_probs := a\<rparr>"
  "put_rc s (v\<lparr>d_state := t\<rparr>) = (put_rc s v)\<lparr>d_state := t\<rparr>" "put_rc s (v\<lparr>d_rep0 := x\<rparr>) = (put_rc s v)\<lparr>d_rep0 := x\<rparr>"
  "put_rc s (v\<lparr>d_rep1 := x\<rparr>) = (put_rc s v)\<lparr>d_rep1 := x\<rparr>" "put_rc s (v\<lparr>d_rep2 := x\<rparr>) = (put_rc s v)\<lparr>d_rep2 := x\<rparr>"
  "put_rc s (v\<lparr>d_rep3 := x\<rparr>) = (put_rc s v)\<lparr>d_rep3 := x\<rparr>"
  by (simp_all add: put_rc_def split: prod.splits)

lemma keep_sequence [simp]: "d_sequence v = q \<Longrightarrow> v\<lparr>d_sequence := q\<rparr> = v"
  by auto

lemma safe_unfold:
  "safe mac inb in_size v k = (case mac inb in_size (rc_of v) of None \<Rightarrow> Some (Stop LZMA_OK v) | Some (x, s) \<Rightarrow> k x (put_rc s v))"
  by (auto simp: safe_def rc_use_def rc_of_def put_rc_def split: option.splits prod.splits)

section \<open>Trees\<close>

lemma unat_u32_less: "unat (w :: u32) < 2 ^ 32"
proof -
  have "unat w < 2 ^ LENGTH(32)" by (rule unsigned_less)
  then show ?thesis by simp
qed

lemma unat_with_bit:
  assumes "unat symbol < 2 ^ 31" shows "unat (with_bit b symbol) = 2 * unat symbol + of_bool b"
proof -
  have "unat (push_bit 1 symbol) = 2 * unat symbol"
    using assms by (subst unsigned_push_bit_eq, subst push_bit_eq_mult) (simp add: take_bit_nat_eq_self)
  then show ?thesis using assms by (auto simp: with_bit_def unat_word_ariths)
qed

lemma rc_bit_decode_with: "rc_bit_decode a symbol inb in_size s = do { (b, s) \<leftarrow> rc_bit_last a inb in_size s; Some (with_bit b symbol, s) }"
  by (simp add: rc_bit_decode_def with_bit_def)

text \<open>A label that decodes the next bit of a tree is left when the symbol has reached the size of the tree.\<close>

lemma bittree_steps:
  assumes label: "\<And>u. d_sequence u = seq \<Longrightarrow> d_limit u = d_limit v \<Longrightarrow> slow_step mf inb in_size u
      = safe (rc_bit_last (d_probs u + unat (d_symbol u))) inb in_size u (\<lambda>b u.
          let u = u\<lparr>d_symbol := with_bit b (d_symbol u)\<rparr> in if d_symbol u < full then go seq u else k u)"
    and v: "d_sequence v = seq" "2 ^ j \<le> unat (d_symbol v)" "unat (d_symbol v) < 2 ^ (j + 1)" "unat full = 2 ^ (j + Suc n)" "j + Suc n \<le> 31"
    and bits: "rc_bittree_bits (d_probs v) (Suc n) (d_symbol v) inb in_size (rc_of v) = Some (symbol, s)"
    and k: "k ((put_rc s v)\<lparr>d_symbol := symbol\<rparr>) = Some r"
  shows "steps mf inb in_size v r"
  using v bits k label
proof (induction n arbitrary: j v)
  case 0
  obtain b s1 where 1: "rc_bit_last (d_probs v + unat (d_symbol v)) inb in_size (rc_of v) = Some (b, s1)"
      "symbol = with_bit b (d_symbol v)" "s = s1"
    using 0(6) by (auto simp: rc_bit_decode_with bind_eq_Some_conv)
  have "unat (d_symbol v) < 2 ^ 31" using less_le_trans [OF 0(3) power_increasing [of "j + 1" 31]] 0(5) by simp
  then have "\<not> symbol < full" using unat_with_bit [of "d_symbol v" b] 0(2,4) 1(2) by (simp add: word_less_nat_alt)
  then have "slow_step mf inb in_size v = Some r"
    using 0(8) [OF 0(1)] 0(7) 1 by (simp add: Let_def safe_unfold)
  then show ?case by (rule steps_one)
next
  case (Suc n)
  obtain b s1 where 1: "rc_bit_last (d_probs v + unat (d_symbol v)) inb in_size (rc_of v) = Some (b, s1)"
      "rc_bittree_bits (d_probs v) (Suc n) (with_bit b (d_symbol v)) inb in_size s1 = Some (symbol, s)"
    using Suc.prems(6) by (auto simp: rc_bit_decode_with bind_eq_Some_conv)
  let ?w = "(put_rc s1 v)\<lparr>d_symbol := with_bit b (d_symbol v), d_sequence := seq\<rparr>"
  have lt: "unat (d_symbol v) < 2 ^ 31" using less_le_trans [OF Suc.prems(3) power_increasing [of "j + 1" 31]] Suc.prems(5) by simp
  note u = unat_with_bit [OF lt, of b]
  have "2 * unat (d_symbol v) + of_bool b < 2 ^ (j + 2)" using Suc.prems(3) by (cases b) auto
  also have "\<dots> \<le> 2 ^ (j + Suc (Suc n))" by (intro power_increasing) simp_all
  finally have "with_bit b (d_symbol v) < full" using u Suc.prems(4) by (simp add: word_less_nat_alt)
  then have "slow_step mf inb in_size v = Some (Go ?w)"
    using Suc.prems(8) [OF Suc.prems(1)] 1(1) by (simp add: Let_def go_def safe_unfold)
  moreover have "steps mf inb in_size ?w r"
  proof (rule Suc.IH [of ?w "j + 1"])
    show "2 ^ (j + 1) \<le> unat (d_symbol ?w)" "unat (d_symbol ?w) < 2 ^ (j + 1 + 1)" using u Suc.prems(2,3) by auto
    show "unat full = 2 ^ (j + 1 + Suc n)" "j + 1 + Suc n \<le> 31" using Suc.prems(4,5) by simp_all
    show "rc_bittree_bits (d_probs ?w) (Suc n) (d_symbol ?w) inb in_size (rc_of ?w) = Some (symbol, s)" using 1(2) by simp
    show "k ((put_rc s ?w)\<lparr>d_symbol := symbol\<rparr>) = Some r" using Suc.prems(1,7) by (simp add: put_rc_updates)
  qed (use Suc.prems(8) in simp_all)
  ultimately show ?case by (rule steps_more)
qed

text \<open>The bits of a literal whose match byte is known.\<close>

lemma matched_steps:
  assumes "d_sequence v = SEQ_LITERAL_MATCHED" "2 ^ j \<le> unat (d_symbol v)" "unat (d_symbol v) < 2 ^ (j + 1)" "j + Suc n = 8"
    and "d_len v = push_bit 1 mb"
    and "rc_matched_bits (d_probs v) (Suc n) mb (d_offset v) (d_symbol v) inb in_size (rc_of v) = Some (symbol, s)"
  shows "\<exists>offset len. steps mf inb in_size v (Go ((put_rc s v)\<lparr>d_symbol := symbol, d_offset := offset, d_len := len, d_sequence := SEQ_LITERAL_WRITE\<rparr>))"
  using assms
proof (induction n arbitrary: j v mb)
  case 0
  let ?mb = "push_bit 1 mb AND d_offset v"
  obtain b where 1: "rc_bit_last (d_probs v + unat (d_offset v + ?mb + d_symbol v)) inb in_size (rc_of v) = Some (b, s)"
      "symbol = with_bit b (d_symbol v)"
    using 0(6) by (auto simp: Let_def bind_eq_Some_conv with_bit_def)
  have "unat (d_symbol v) < 2 ^ 31" using less_le_trans [OF 0(3) power_increasing [of "j + 1" 31]] 0(4) by simp
  moreover have "j = 7" using 0(4) by simp
  ultimately have "\<not> symbol < push_bit 8 1" using unat_with_bit [of "d_symbol v" b] 0(2) 1(2) by (simp add: word_less_nat_alt)
  then have "slow_step mf inb in_size v = Some (Go ((put_rc s v)\<lparr>d_symbol := symbol,
      d_offset := (if b then d_offset v AND ?mb else d_offset v AND NOT ?mb), d_len := push_bit 1 (d_len v), d_sequence := SEQ_LITERAL_WRITE\<rparr>))"
    using 0(1,5) 1 by (simp add: slow_step_def slow_literal_matched_def safe_unfold Let_def go_def)
  then show ?case using steps_one by blast
next
  case (Suc n)
  let ?mb = "push_bit 1 mb AND d_offset v"
  obtain b s1 where 1: "rc_bit_last (d_probs v + unat (d_offset v + ?mb + d_symbol v)) inb in_size (rc_of v) = Some (b, s1)"
      "rc_matched_bits (d_probs v) (Suc n) (push_bit 1 mb) (if b then d_offset v AND ?mb else d_offset v AND NOT ?mb)
         (with_bit b (d_symbol v)) inb in_size s1 = Some (symbol, s)"
    using Suc.prems(6) unfolding rc_matched_bits.simps(2) [of _ "Suc n"]
    by (auto simp: Let_def bind_eq_Some_conv with_bit_def simp del: rc_matched_bits.simps split: if_splits)
  let ?w = "(put_rc s1 v)\<lparr>d_symbol := with_bit b (d_symbol v),
      d_offset := (if b then d_offset v AND ?mb else d_offset v AND NOT ?mb), d_len := push_bit 1 (d_len v)\<rparr>"
  have lt: "unat (d_symbol v) < 2 ^ 31" using less_le_trans [OF Suc.prems(3) power_increasing [of "j + 1" 31]] Suc.prems(4) by simp
  note u = unat_with_bit [OF lt, of b]
  have "2 * unat (d_symbol v) + of_bool b < 2 ^ (j + 2)" using Suc.prems(3) by (cases b) auto
  also have "\<dots> \<le> 2 ^ 8" using Suc.prems(4) by (intro power_increasing) simp_all
  finally have "with_bit b (d_symbol v) < push_bit 8 1" using u by (simp add: word_less_nat_alt)
  then have "slow_step mf inb in_size v = Some (Go ?w)"
    using Suc.prems(1,5) 1 by (simp add: slow_step_def slow_literal_matched_def safe_unfold Let_def go_def)
  moreover have "\<exists>offset len. steps mf inb in_size ?w (Go ((put_rc s ?w)\<lparr>d_symbol := symbol, d_offset := offset, d_len := len, d_sequence := SEQ_LITERAL_WRITE\<rparr>))"
  proof (rule Suc.IH [of ?w "j + 1" "push_bit 1 mb"])
    show "2 ^ (j + 1) \<le> unat (d_symbol ?w)" "unat (d_symbol ?w) < 2 ^ (j + 1 + 1)" using u Suc.prems(2,3) by auto
    show "rc_matched_bits (d_probs ?w) (Suc n) (push_bit 1 mb) (d_offset ?w) (d_symbol ?w) inb in_size (rc_of ?w) = Some (symbol, s)"
      using 1(2) by (simp del: rc_matched_bits.simps)
  qed (use Suc.prems in simp_all)
  ultimately show ?case using steps_more by (fastforce simp: put_rc_updates)
qed

text \<open>The lower bits of a distance.\<close>

lemma forget_updates [simp]:
  "forget (v\<lparr>d_symbol := x\<rparr>) = forget v" "forget (v\<lparr>d_offset := x\<rparr>) = forget v" "forget (v\<lparr>d_limit := x\<rparr>) = forget v"
  "forget (v\<lparr>d_probs := a\<rparr>) = forget v" "forget (v\<lparr>d_len := x\<rparr>) = forget v"
  "forget (v\<lparr>d_sequence := q\<rparr>) = (forget v)\<lparr>d_sequence := q\<rparr>" "forget (v\<lparr>d_rep0 := x\<rparr>) = (forget v)\<lparr>d_rep0 := x\<rparr>"
  "forget (v\<lparr>d_state := t\<rparr>) = (forget v)\<lparr>d_state := t\<rparr>" "forget (v\<lparr>v_dict := d\<rparr>) = (forget v)\<lparr>v_dict := d\<rparr>"
  "forget (forget v) = forget v"
  by (simp_all add: forget_def)

lemma check_distance_updates [simp]:
  "check_distance (v\<lparr>d_symbol := x\<rparr>) = check_distance v" "check_distance (v\<lparr>d_offset := x\<rparr>) = check_distance v"
  "check_distance (v\<lparr>d_limit := x\<rparr>) = check_distance v" "check_distance (v\<lparr>d_probs := a\<rparr>) = check_distance v"
  "check_distance (v\<lparr>d_sequence := q\<rparr>) = check_distance v"
  by (simp_all add: check_distance_def corrupt_def settle_def go_copy_def go_def)

lemma rep0_inner:
  "v\<lparr>d_symbol := x, d_rep0 := z\<rparr> = v\<lparr>d_rep0 := z, d_symbol := x\<rparr>" "v\<lparr>d_offset := x, d_rep0 := z\<rparr> = v\<lparr>d_rep0 := z, d_offset := x\<rparr>"
  "v\<lparr>d_sequence := q, d_rep0 := z\<rparr> = v\<lparr>d_rep0 := z, d_sequence := q\<rparr>" "v\<lparr>d_limit := x, d_rep0 := z\<rparr> = v\<lparr>d_rep0 := z, d_limit := x\<rparr>" "v\<lparr>d_probs := a, d_rep0 := z\<rparr> = v\<lparr>d_rep0 := z, d_probs := a\<rparr>"
  "v\<lparr>d_len := x, d_rep0 := z\<rparr> = v\<lparr>d_rep0 := z, d_len := x\<rparr>"
  for v :: lzma_vars
  by simp_all

lemma eopm_updates [simp]:
  "eopm (v\<lparr>d_symbol := x\<rparr>) = eopm v" "eopm (v\<lparr>d_offset := x\<rparr>) = eopm v"
  "eopm (v\<lparr>d_limit := x\<rparr>) = eopm v" "eopm (v\<lparr>d_probs := a\<rparr>) = eopm v" "eopm (v\<lparr>d_sequence := q\<rparr>) = eopm v" "eopm (v\<lparr>d_len := x\<rparr>) = eopm v"
  by (simp_all add: eopm_def corrupt_def settle_def)

lemma dist_model_steps:
  assumes "d_sequence v = SEQ_DIST_MODEL" "unat (d_limit v) = unat (d_offset v) + Suc n"
    and "rc_reverse_bits (d_probs v) (Suc n) (d_symbol v) (push_bit (unat (d_offset v)) 1) (d_rep0 v) inb in_size (rc_of v) = Some (dest, s)"
    and "check_distance ((put_rc s v)\<lparr>d_rep0 := dest\<rparr>) = Some r"
  shows "steps mf inb in_size v r"
  using assms
proof (induction n arbitrary: v)
  case 0
  obtain b where 1: "rc_bit_last (d_probs v + unat (d_symbol v)) inb in_size (rc_of v) = Some (b, s)"
      "dest = (if b then d_rep0 v + push_bit (unat (d_offset v)) 1 else d_rep0 v)"
    using 0(3) by (auto simp: rc_bit_add_if_1_def bind_eq_Some_conv split: if_splits)
  have "unat (d_offset v) + 1 < 2 ^ 32" using 0(2) unat_u32_less [of "d_limit v"] by simp
  then have "unat (d_offset v + 1) = unat (d_offset v) + 1" by (simp add: unat_word_ariths)
  then have "\<not> d_offset v + 1 < d_limit v" using 0(2) by (simp add: word_less_nat_alt)
  then have "slow_step mf inb in_size v = Some r"
    using 0(1,4) 1 by (simp add: slow_step_def slow_dist_model_def safe_unfold Let_def rep0_inner split: if_splits)
  then show ?case by (rule steps_one)
next
  case (Suc n)
  obtain b s1 where 1: "rc_bit_last (d_probs v + unat (d_symbol v)) inb in_size (rc_of v) = Some (b, s1)"
      "rc_reverse_bits (d_probs v) (Suc n) (with_bit b (d_symbol v)) (push_bit 1 (push_bit (unat (d_offset v)) 1))
         (if b then d_rep0 v + push_bit (unat (d_offset v)) 1 else d_rep0 v) inb in_size s1 = Some (dest, s)"
    using Suc.prems(3) unfolding rc_reverse_bits.simps(2) [of _ "Suc n"]
    by (auto simp: rc_bit_add_if_1_def bind_eq_Some_conv with_bit_def simp del: rc_reverse_bits.simps split: if_splits)
  let ?w = "(put_rc s1 v)\<lparr>d_symbol := with_bit b (d_symbol v),
      d_rep0 := (if b then d_rep0 v + push_bit (unat (d_offset v)) 1 else d_rep0 v), d_offset := d_offset v + 1\<rparr>"
  have "unat (d_offset v) + 1 < 2 ^ 32" using Suc.prems(2) unat_u32_less [of "d_limit v"] by simp
  then have o: "unat (d_offset v + 1) = unat (d_offset v) + 1" by (simp add: unat_word_ariths)
  then have "d_offset v + 1 < d_limit v" using Suc.prems(2) by (simp add: word_less_nat_alt)
  then have "slow_step mf inb in_size v = Some (Go ?w)"
    using Suc.prems(1) 1 by (simp add: slow_step_def slow_dist_model_def safe_unfold Let_def go_def)
  moreover have "steps mf inb in_size ?w r"
  proof (rule Suc.IH [of ?w])
    have "push_bit 1 (push_bit (unat (d_offset v)) 1) = (push_bit (unat (d_offset v + 1)) 1 :: u32)"
      unfolding o push_bit_push_bit by (subst add.commute) (rule refl)
    then show "rc_reverse_bits (d_probs ?w) (Suc n) (d_symbol ?w) (push_bit (unat (d_offset ?w)) 1) (d_rep0 ?w) inb in_size (rc_of ?w) = Some (dest, s)"
      using 1(2) by (simp del: rc_reverse_bits.simps)
    show "check_distance ((put_rc s ?w)\<lparr>d_rep0 := dest\<rparr>) = Some r"
      using Suc.prems(4) by (simp add: put_rc_updates rep0_inner)
  qed (use Suc.prems(1,2) o in simp_all)
  ultimately show ?case by (rule steps_more)
qed

lemma rc_direct_decode_Suc:
  "rc_direct_decode (Suc n) dest inb in_size s = do { (dest, s) \<leftarrow> rc_direct_decode 1 dest inb in_size s; rc_direct_decode n dest inb in_size s }"
  by (cases "rc_normalize inb in_size s") (auto simp: Let_def)

lemma direct_steps:
  assumes "d_sequence v = SEQ_DIRECT" "unat (d_limit v) = Suc n"
    and "rc_direct_decode (Suc n) (d_rep0 v) inb in_size (rc_of v) = Some (dest, s)"
  shows "steps mf inb in_size v (Go ((put_rc s v)\<lparr>d_rep0 := push_bit 4 dest, d_limit := 0, d_symbol := 0, d_offset := 1, d_sequence := SEQ_ALIGN\<rparr>))"
  using assms
proof (induction n arbitrary: v)
  case 0
  then have l: "d_limit v = 1" by (simp add: word_unat_eq_iff)
  have "rc_direct_decode 1 (d_rep0 v) inb in_size (rc_of v) = Some (dest, s)" using 0(3) by simp
  then have "slow_step mf inb in_size v = Some (Go ((put_rc s v)\<lparr>d_rep0 := push_bit 4 dest, d_limit := 0, d_symbol := 0, d_offset := 1, d_sequence := SEQ_ALIGN\<rparr>))"
    using 0(1) l by (simp add: slow_step_def slow_direct_def safe_unfold Let_def go_def ALIGN_BITS_def del: rc_direct_decode.simps One_nat_def)
  then show ?case by (rule steps_one)
next
  case (Suc n)
  obtain d1 s1 where 1: "rc_direct_decode 1 (d_rep0 v) inb in_size (rc_of v) = Some (d1, s1)"
      "rc_direct_decode (Suc n) d1 inb in_size s1 = Some (dest, s)"
    using Suc.prems(3) unfolding rc_direct_decode_Suc [of "Suc n"] by (auto simp: bind_eq_Some_conv simp del: rc_direct_decode.simps)
  let ?w = "(put_rc s1 v)\<lparr>d_rep0 := d1, d_limit := d_limit v - 1\<rparr>"
  have l: "unat (d_limit v - 1) = Suc n" using Suc.prems(2) by (simp add: unat_sub word_le_nat_alt)
  then have "d_limit v - 1 > 0" by (simp add: word_less_nat_alt)
  then have "slow_step mf inb in_size v = Some (Go ?w)"
    using Suc.prems(1) 1(1) by (simp add: slow_step_def slow_direct_def safe_unfold Let_def go_def del: rc_direct_decode.simps One_nat_def)
  moreover have "steps mf inb in_size ?w (Go ((put_rc s ?w)\<lparr>d_rep0 := push_bit 4 dest, d_limit := 0, d_symbol := 0, d_offset := 1, d_sequence := SEQ_ALIGN\<rparr>))"
    using Suc.prems(1) l 1(2) by (intro Suc.IH) (simp_all del: rc_direct_decode.simps)
  ultimately show ?case using steps_more by (fastforce simp: put_rc_updates)
qed

lemma align_step:
  assumes "d_sequence v = SEQ_ALIGN" "rc_rev_bit a_dist_align (d_offset v) (d_symbol v) inb in_size (rc_of v) = Some (symbol, s)"
  shows "slow_step mf inb in_size v =
    (let w = (put_rc s v)\<lparr>d_symbol := symbol, d_offset := push_bit 1 (d_offset v)\<rparr>
     in if push_bit 1 (d_offset v) < 16 then Some (Go w)
        else let w = w\<lparr>d_rep0 := d_rep0 v + symbol\<rparr> in if d_rep0 w = 0xFFFFFFFF then Some (eopm w) else check_distance w)"
proof -
  obtain b where b: "rc_bit_last (a_dist_align + unat (d_symbol v + d_offset v)) inb in_size (rc_of v) = Some (b, s)"
      "symbol = (if b then d_symbol v + d_offset v else d_symbol v)"
    using assms(2) by (auto simp: rc_rev_bit_def bind_eq_Some_conv)
  from b(1) have "rc_bit_last (a_dist_align + unat (d_offset v + d_symbol v)) inb in_size (rc_of v) = Some (b, s)"
    by (simp only: add.commute [of "d_symbol v"])
  then show ?thesis using assms(1) b(2) by (simp add: slow_step_def slow_align_def safe_unfold Let_def go_def ALIGN_SIZE_def)
qed

lemma align_steps:
  assumes "d_sequence v = SEQ_ALIGN" "d_symbol v = 0" "d_offset v = 1"
    and "rc_bittree_rev4 a_dist_align inb in_size (rc_of v) = Some (symbol, s)"
    and "(let w = (put_rc s v)\<lparr>d_rep0 := d_rep0 v + symbol\<rparr>
          in if d_rep0 w = 0xFFFFFFFF then Some (eopm w) else check_distance w) = Some r"
  shows "steps mf inb in_size v r"
proof -
  obtain y1 s1 y2 s2 y3 s3 where b: "rc_rev_bit a_dist_align 1 0 inb in_size (rc_of v) = Some (y1, s1)"
      "rc_rev_bit a_dist_align 2 y1 inb in_size s1 = Some (y2, s2)" "rc_rev_bit a_dist_align 4 y2 inb in_size s2 = Some (y3, s3)"
      "rc_rev_bit a_dist_align 8 y3 inb in_size s3 = Some (symbol, s)"
    using assms(4) by (auto simp: rc_bittree_rev4_def bind_eq_Some_conv)
  let ?w1 = "(put_rc s1 v)\<lparr>d_symbol := y1, d_offset := 2\<rparr>" and ?w2 = "(put_rc s2 v)\<lparr>d_symbol := y2, d_offset := 4\<rparr>"
    and ?w3 = "(put_rc s3 v)\<lparr>d_symbol := y3, d_offset := 8\<rparr>"
  have "slow_step mf inb in_size v = Some (Go ?w1)"
    using align_step [OF assms(1), of inb in_size y1 s1 mf] b(1) assms(2,3) by (simp add: Let_def)
  moreover have "slow_step mf inb in_size ?w1 = Some (Go ?w2)"
    using align_step [of ?w1 inb in_size y2 s2 mf] b(2) assms(1) by (simp add: Let_def put_rc_updates)
  moreover have "slow_step mf inb in_size ?w2 = Some (Go ?w3)"
    using align_step [of ?w2 inb in_size y3 s3 mf] b(3) assms(1) by (simp add: Let_def put_rc_updates)
  moreover have "slow_step mf inb in_size ?w3 = Some r"
    using align_step [of ?w3 inb in_size symbol s mf] b(4) assms(1,5) by (simp add: Let_def put_rc_updates rep0_inner split: if_splits)
  ultimately show ?thesis by (blast intro: steps.intros)
qed

section \<open>Lengths and distances\<close>

lemma rc_bittree_use:
  "rc_bittree3 probs a inb in_size s = Some (y, t) \<longleftrightarrow> (\<exists>z. rc_bittree_bits probs 3 1 inb in_size s = Some (z, t) \<and> y = z + a)"
  "rc_bittree6 probs a inb in_size s = Some (y, t) \<longleftrightarrow> (\<exists>z. rc_bittree_bits probs 6 1 inb in_size s = Some (z, t) \<and> y = z + a)"
  "rc_bittree8 probs a inb in_size s = Some (y, t) \<longleftrightarrow> (\<exists>z. rc_bittree_bits probs 8 1 inb in_size s = Some (z, t) \<and> y = z + a)"
  by (cases t; force simp: rc_bittree3_def rc_bittree6_def rc_bittree8_def bind_eq_Some_conv)+

text \<open>The three labels of a length, for matches and for repeated matches.\<close>

definition len_labels :: "bool \<Rightarrow> byte list \<Rightarrow> nat \<Rightarrow> nat \<Rightarrow> sequence \<Rightarrow> sequence \<Rightarrow> sequence \<Rightarrow> (lzma_vars \<Rightarrow> outcome option) \<Rightarrow> bool" where
  "len_labels mf inb in_size ld C C2 BT k \<longleftrightarrow>
     (\<forall>u. d_sequence u = C \<longrightarrow> slow_step mf inb in_size u = slow_choice ld C2 BT inb in_size u)
   \<and> (\<forall>u. d_sequence u = C2 \<longrightarrow> slow_step mf inb in_size u = slow_choice2 ld BT inb in_size u)
   \<and> (\<forall>u. d_sequence u = BT \<longrightarrow> slow_step mf inb in_size u = slow_len_bittree BT k inb in_size u)"

lemma len_labels_match: "len_labels mf inb in_size a_match_len SEQ_MATCH_LEN_CHOICE SEQ_MATCH_LEN_CHOICE2 SEQ_MATCH_LEN_BITTREE to_dist_slot"
  and len_labels_rep: "len_labels mf inb in_size a_rep_len SEQ_REP_LEN_CHOICE SEQ_REP_LEN_CHOICE2 SEQ_REP_LEN_BITTREE go_copy"
  by (simp_all add: len_labels_def slow_step_def)

lemma len_bittree_steps:
  assumes "len_labels mf inb in_size ld C C2 BT k" "d_sequence v = BT" "d_symbol v = 1" "unat (d_limit v) = 2 ^ Suc n" "Suc n \<le> 8"
    and "rc_bittree_bits (d_probs v) (Suc n) 1 inb in_size (rc_of v) = Some (z, s)"
    and "k ((put_rc s v)\<lparr>d_symbol := z, d_len := d_len v + (z - d_limit v)\<rparr>) = Some r"
  shows "steps mf inb in_size v r"
proof (rule bittree_steps [where j = 0 and n = n and full = "d_limit v" and seq = BT and symbol = z and s = s
      and k = "\<lambda>u. k (u\<lparr>d_len := d_len u + (d_symbol u - d_limit u)\<rparr>)"])
  fix u :: lzma_vars assume "d_sequence u = BT" "d_limit u = d_limit v"
  then show "slow_step mf inb in_size u = safe (rc_bit_last (d_probs u + unat (d_symbol u))) inb in_size u (\<lambda>b u.
      let u = u\<lparr>d_symbol := with_bit b (d_symbol u)\<rparr> in if d_symbol u < d_limit v then go BT u
      else k (u\<lparr>d_len := d_len u + (d_symbol u - d_limit u)\<rparr>))"
    using assms(1) by (simp add: len_labels_def slow_len_bittree_def safe_unfold Let_def split: option.splits)
qed (use assms in simp_all)

text \<open>Two ways to write the variables after a length has been decoded.\<close>

lemma len_vars:
  "(put_rc s ((put_rc s1 v)\<lparr>d_probs := a, d_limit := l, d_len := n, d_symbol := 1, d_sequence := q\<rparr>))\<lparr>d_symbol := z, d_len := len\<rparr>
   = (put_rc s v)\<lparr>d_probs := a, d_symbol := z, d_limit := l, d_len := len, d_sequence := q\<rparr>"
  "(put_rc s (v\<lparr>d_sequence := q'\<rparr>))\<lparr>d_probs := a, d_symbol := z, d_limit := l, d_len := len, d_sequence := q\<rparr>
   = (put_rc s v)\<lparr>d_probs := a, d_symbol := z, d_limit := l, d_len := len, d_sequence := q\<rparr>"
  by (cases v; simp add: put_rc_def split: prod.splits)+

lemma len_steps:
  assumes labels: "len_labels mf inb in_size ld C C2 BT k" and v: "d_sequence v = C"
    and "len_decode_fast ld (pos_state v) inb in_size (rc_of v) = Some (len, s)"
  obtains probs symbol limit where
    "\<And>r. k ((put_rc s v)\<lparr>d_probs := probs, d_symbol := symbol, d_limit := limit, d_len := len, d_sequence := BT\<rparr>) = Some r \<Longrightarrow> steps mf inb in_size v r"
proof -
  note c = MATCH_LEN_MIN_def LEN_LOW_SYMBOLS_def LEN_MID_SYMBOLS_def LEN_HIGH_SYMBOLS_def
  have 8: "8 = Suc 7" "3 = Suc 2" by simp_all
  obtain choice s1 where 1: "rc_bit_last (len_choice ld) inb in_size (rc_of v) = Some (choice, s1)"
    using assms(3) by (auto simp: len_decode_fast_def bind_eq_Some_conv)
  have step: "slow_step mf inb in_size v = slow_choice ld C2 BT inb in_size v" using labels v by (simp add: len_labels_def)
  show thesis
  proof (cases choice)
    case False
    then obtain z where z: "rc_bittree_bits (len_low ld (pos_state v)) 3 1 inb in_size s1 = Some (z, s)" "len = z + (2 - 8)"
      using assms(3) 1 by (auto simp: len_decode_fast_def rc_bittree_use c)
    let ?w = "(put_rc s1 v)\<lparr>d_probs := len_low ld (pos_state v), d_limit := 8, d_len := 2, d_symbol := 1, d_sequence := BT\<rparr>"
    have go: "slow_step mf inb in_size v = Some (Go ?w)" using step 1 False by (simp add: slow_choice_def safe_unfold go_def c)
    have "steps mf inb in_size v r"
      if "k ((put_rc s v)\<lparr>d_probs := len_low ld (pos_state v), d_symbol := z, d_limit := 8, d_len := len, d_sequence := BT\<rparr>) = Some r" for r
    proof (rule steps_more [OF go], rule len_bittree_steps [OF labels, where n = 2])
      show "rc_bittree_bits (d_probs ?w) (Suc 2) 1 inb in_size (rc_of ?w) = Some (z, s)" using z(1) unfolding 8 by simp
      show "k ((put_rc s ?w)\<lparr>d_symbol := z, d_len := d_len ?w + (z - d_limit ?w)\<rparr>) = Some r"
        using that z(2) unfolding len_vars by (simp add: add.commute)
    qed simp_all
    then show thesis by (rule that)
  next
    case True
    then obtain choice2 s2 where 2: "rc_bit_last (len_choice2 ld) inb in_size s1 = Some (choice2, s2)"
      using assms(3) 1 by (auto simp: len_decode_fast_def bind_eq_Some_conv)
    let ?u = "(put_rc s1 v)\<lparr>d_sequence := C2\<rparr>"
    have go1: "slow_step mf inb in_size v = Some (Go ?u)" using step 1 True by (simp add: slow_choice_def safe_unfold go_def)
    have step2: "slow_step mf inb in_size ?u = slow_choice2 ld BT inb in_size ?u" using labels by (simp add: len_labels_def)
    have ps: "pos_state ?u = pos_state v" by (simp add: pos_state_def)
    show thesis
    proof (cases choice2)
      case False
      then obtain z where z: "rc_bittree_bits (len_mid ld (pos_state v)) 3 1 inb in_size s2 = Some (z, s)" "len = z + (2 + 8 - 8)"
        using assms(3) 1 2 True by (auto simp: len_decode_fast_def rc_bittree_use c)
      let ?w = "(put_rc s2 ?u)\<lparr>d_probs := len_mid ld (pos_state v), d_limit := 8, d_len := 10, d_symbol := 1, d_sequence := BT\<rparr>"
      have go2: "slow_step mf inb in_size ?u = Some (Go ?w)" using step2 2 False ps by (simp add: slow_choice2_def safe_unfold go_def c)
      have "steps mf inb in_size v r"
        if "k ((put_rc s v)\<lparr>d_probs := len_mid ld (pos_state v), d_symbol := z, d_limit := 8, d_len := len, d_sequence := BT\<rparr>) = Some r" for r
      proof (rule steps_more [OF go1], rule steps_more [OF go2], rule len_bittree_steps [OF labels, where n = 2])
        show "rc_bittree_bits (d_probs ?w) (Suc 2) 1 inb in_size (rc_of ?w) = Some (z, s)" using z(1) unfolding 8 by simp
        show "k ((put_rc s ?w)\<lparr>d_symbol := z, d_len := d_len ?w + (z - d_limit ?w)\<rparr>) = Some r"
          using that z(2) unfolding len_vars by (simp add: add.commute)
      qed simp_all
      then show thesis by (rule that)
    next
      case c2: True
      then obtain z where z: "rc_bittree_bits (len_high ld) 8 1 inb in_size s2 = Some (z, s)" "len = z + (2 + 8 + 8 - 256)"
        using assms(3) 1 2 True by (auto simp: len_decode_fast_def rc_bittree_use c)
      let ?w = "(put_rc s2 ?u)\<lparr>d_probs := len_high ld, d_limit := 256, d_len := 18, d_symbol := 1, d_sequence := BT\<rparr>"
      have go2: "slow_step mf inb in_size ?u = Some (Go ?w)" using step2 2 c2 by (simp add: slow_choice2_def safe_unfold go_def c)
      have "steps mf inb in_size v r"
        if "k ((put_rc s v)\<lparr>d_probs := len_high ld, d_symbol := z, d_limit := 256, d_len := len, d_sequence := BT\<rparr>) = Some r" for r
      proof (rule steps_more [OF go1], rule steps_more [OF go2], rule len_bittree_steps [OF labels, where n = 7])
        show "rc_bittree_bits (d_probs ?w) (Suc 7) 1 inb in_size (rc_of ?w) = Some (z, s)" using z(1) unfolding 8 by simp
        show "k ((put_rc s ?w)\<lparr>d_symbol := z, d_len := d_len ?w + (z - d_limit ?w)\<rparr>) = Some r"
          using that z(2) unfolding len_vars by (simp add: add.commute)
      qed simp_all
      then show thesis by (rule that)
    qed
  qed
qed

lemma slot_limits:
  fixes y :: u32
  shows "4 \<le> y \<Longrightarrow> \<exists>n. unat (drop_bit 1 y - 1) = Suc n" and "14 \<le> y \<Longrightarrow> \<exists>n. unat (drop_bit 1 y - 1 - 4) = Suc n"
proof -
  have d: "unat (drop_bit 1 y) = unat y div 2" by (simp only: unat_drop_bit) simp
  have 1: "unat (drop_bit 1 y - 1) = unat y div 2 - 1" if "4 \<le> y"
    using that d by (simp add: unat_sub word_le_nat_alt)
  show "\<exists>n. unat (drop_bit 1 y - 1) = Suc n" if "4 \<le> y"
    using 1 [OF that] that by (intro exI [of _ "unat y div 2 - 2"]) (simp add: word_le_nat_alt)
  assume y: "14 \<le> y"
  then have "4 \<le> y" using le_trans [of "unat (4 :: u32)" "unat (14 :: u32)" "unat y"] by (simp add: word_le_nat_alt)
  note d1 = 1 [OF this]
  have "unat (drop_bit 1 y - 1 - 4) = unat y div 2 - 1 - 4"
    using y d1 by (subst unat_sub) (simp_all add: word_le_nat_alt)
  then show "\<exists>n. unat (drop_bit 1 y - 1 - 4) = Suc n"
    using y by (intro exI [of _ "unat y div 2 - 6"]) (simp add: word_le_nat_alt)
qed

lemma dist_steps:
  assumes v: "d_sequence v = SEQ_DIST_SLOT" "d_probs v = a_dist_slot (unat (get_dist_state len))" "d_symbol v = 1"
    and "dist_decode_fast len inb in_size (rc_of v) = Some ((marker, rep0), s)"
    and r: "(if marker \<and> rep0 = 0xFFFFFFFF then Some (eopm ((put_rc s v)\<lparr>d_rep0 := rep0\<rparr>))
        else check_distance ((put_rc s v)\<lparr>d_rep0 := rep0\<rparr>)) = Some r"
  shows "steps mf inb in_size v r"
proof -
  let ?k = "\<lambda>u. let symbol = d_symbol u - DIST_SLOTS
             in if symbol < DIST_MODEL_START then check_distance (u\<lparr>d_symbol := symbol, d_rep0 := symbol\<rparr>)
                else let limit = drop_bit 1 symbol - 1;
                         rep0 = 2 + (symbol AND 1)
                     in if symbol < DIST_MODEL_END
                        then let rep0 = push_bit (unat limit) rep0
                             in go SEQ_DIST_MODEL (u\<lparr>d_limit := limit, d_rep0 := rep0,
                                  d_probs := a_dist_special + unat rep0 - unat symbol - 1, d_symbol := 1, d_offset := 0\<rparr>)
                        else go SEQ_DIRECT (u\<lparr>d_limit := limit - of_nat ALIGN_BITS, d_rep0 := rep0, d_symbol := symbol\<rparr>)"
  note c = DIST_MODEL_START_def DIST_MODEL_END_def DIST_SLOTS_def ALIGN_BITS_def
  obtain z s1 where z: "rc_bittree_bits (a_dist_slot (unat (get_dist_state len))) 6 1 inb in_size (rc_of v) = Some (z, s1)"
    using assms(4) by (auto simp: dist_decode_fast_def rc_bittree_use bind_eq_Some_conv)
  have slot: "steps mf inb in_size v q" if "?k ((put_rc s1 v)\<lparr>d_symbol := z\<rparr>) = Some q" for q
  proof (rule bittree_steps [where j = 0 and n = 5 and full = DIST_SLOTS and seq = SEQ_DIST_SLOT and symbol = z and s = s1 and k = ?k])
    have six: "Suc 5 = 6" by simp
    show "rc_bittree_bits (d_probs v) (Suc 5) (d_symbol v) inb in_size (rc_of v) = Some (z, s1)" unfolding six v(2,3) by (rule z)
  qed (use that v in \<open>simp_all add: slow_step_def slow_dist_slot_def c\<close>)
  define y where "y = z - 64"
  have y: "z + - DIST_SLOTS = y" "z - DIST_SLOTS = y" by (simp_all add: y_def c)
  have f: "(if y < 4 then Some ((False, y), s1)
       else if y < 14
            then do { (rep0, s) \<leftarrow> rc_reverse_bits (a_dist_special + unat (push_bit (unat (drop_bit 1 y - 1)) (2 + (y AND 1))) - unat y - 1)
                   (unat (drop_bit 1 y - 1)) 1 1 (push_bit (unat (drop_bit 1 y - 1)) (2 + (y AND 1))) inb in_size s1; Some ((False, rep0), s) }
            else do { (rep0, s) \<leftarrow> rc_direct_decode (unat (drop_bit 1 y - 1 - 4)) (2 + (y AND 1)) inb in_size s1;
                   (symbol, s) \<leftarrow> rc_bittree_rev4 a_dist_align inb in_size s; Some ((True, push_bit 4 rep0 + symbol), s) }) = Some ((marker, rep0), s)"
    using assms(4) z by (simp only: dist_decode_fast_def rc_bittree6_def bind.bind_lunit case_prod_conv y Let_def DIST_MODEL_START_def DIST_MODEL_END_def ALIGN_BITS_def of_nat_numeral)
  have kz: "?k ((put_rc s1 v)\<lparr>d_symbol := z\<rparr>) = (if y < 4 then check_distance ((put_rc s1 v)\<lparr>d_rep0 := y\<rparr>)
      else if y < 14 then go SEQ_DIST_MODEL ((put_rc s1 v)\<lparr>d_symbol := z, d_limit := drop_bit 1 y - 1, d_rep0 := push_bit (unat (drop_bit 1 y - 1)) (2 + (y AND 1)),
        d_probs := a_dist_special + unat (push_bit (unat (drop_bit 1 y - 1)) (2 + (y AND 1))) - unat y - 1, d_symbol := 1, d_offset := 0\<rparr>)
      else go SEQ_DIRECT ((put_rc s1 v)\<lparr>d_symbol := z, d_limit := drop_bit 1 y - 1 - 4, d_rep0 := 2 + (y AND 1), d_symbol := y\<rparr>))"
    by (simp add: Let_def c y_def [symmetric] rep0_inner)
  consider "y < 4" | "\<not> y < 4" "y < 14" | "\<not> y < 4" "\<not> y < 14" by blast
  then show ?thesis
  proof cases
    case 1
    then have "marker = False" "rep0 = y" "s = s1" using f by simp_all
    then show ?thesis using slot [of r, unfolded kz] r 1 by simp
  next
    case 2
    define b where "b = push_bit (unat (drop_bit 1 y - 1)) (2 + (y AND 1))"
    obtain n where n: "unat (drop_bit 1 y - 1) = Suc n" using slot_limits(1) [of y] 2(1) by (auto simp: not_less)
    have "do { (rep0, s) \<leftarrow> rc_reverse_bits (a_dist_special + unat b - unat y - 1) (Suc n) 1 1 b inb in_size s1; Some ((False, rep0), s) }
        = Some ((marker, rep0), s)"
      using f 2 unfolding b_def [symmetric] unfolding n by (simp only: if_False if_True)
    then have m: "marker = False" "rc_reverse_bits (a_dist_special + unat b - unat y - 1) (Suc n) 1 1 b inb in_size s1 = Some (rep0, s)"
      by (auto simp: bind_eq_Some_conv simp del: rc_reverse_bits.simps)
    let ?w = "(put_rc s1 v)\<lparr>d_symbol := z, d_limit := drop_bit 1 y - 1, d_rep0 := b,
      d_probs := a_dist_special + unat b - unat y - 1, d_symbol := 1, d_offset := 0, d_sequence := SEQ_DIST_MODEL\<rparr>"
    have "?k ((put_rc s1 v)\<lparr>d_symbol := z\<rparr>) = Some (Go ?w)"
      unfolding kz using 2 by (simp only: b_def [symmetric] if_True if_False go_def)
    moreover have "steps mf inb in_size ?w r"
    proof (rule dist_model_steps [where n = n])
      show "rc_reverse_bits (d_probs ?w) (Suc n) (d_symbol ?w) (push_bit (unat (d_offset ?w)) 1) (d_rep0 ?w) inb in_size (rc_of ?w) = Some (rep0, s)"
        using m(2) by (simp del: rc_reverse_bits.simps)
      show "check_distance ((put_rc s ?w)\<lparr>d_rep0 := rep0\<rparr>) = Some r"
        using r m(1) by (simp add: put_rc_updates rep0_inner)
    qed (use n in simp_all)
    ultimately show ?thesis using steps_trans [OF slot refl] by blast
  next
    case 3
    obtain n where n: "unat (drop_bit 1 y - 1 - 4) = Suc n" using slot_limits(2) [of y] 3(2) by (auto simp: not_less)
    obtain d1 s2 y2 where m: "marker = True" "rc_direct_decode (Suc n) (2 + (y AND 1)) inb in_size s1 = Some (d1, s2)"
        "rc_bittree_rev4 a_dist_align inb in_size s2 = Some (y2, s)" "rep0 = push_bit 4 d1 + y2"
      using f 3 unfolding n by (auto simp: bind_eq_Some_conv simp del: rc_direct_decode.simps)
    let ?w = "(put_rc s1 v)\<lparr>d_symbol := z, d_limit := drop_bit 1 y - 1 - 4, d_rep0 := 2 + (y AND 1), d_symbol := y, d_sequence := SEQ_DIRECT\<rparr>"
    let ?u = "(put_rc s2 ?w)\<lparr>d_rep0 := push_bit 4 d1, d_limit := 0, d_symbol := 0, d_offset := 1, d_sequence := SEQ_ALIGN\<rparr>"
    have "?k ((put_rc s1 v)\<lparr>d_symbol := z\<rparr>) = Some (Go ?w)"
      unfolding kz using 3 by (simp only: if_False go_def)
    moreover have "steps mf inb in_size ?w (Go ?u)" using m(2) n by (intro direct_steps) simp_all
    moreover have "steps mf inb in_size ?u r"
      using m(1,3,4) r by (intro align_steps [where symbol = y2 and s = s]) (simp_all add: Let_def put_rc_updates rep0_inner split: if_splits)
    ultimately show ?thesis using steps_trans [OF slot refl] steps_trans by blast
  qed
qed

section \<open>Symbols\<close>

lemma settle_updates [simp]:
  "settle (v\<lparr>d_symbol := x\<rparr>) = settle v" "settle (v\<lparr>d_offset := x\<rparr>) = settle v" "settle (v\<lparr>d_limit := x\<rparr>) = settle v"
  "settle (v\<lparr>d_probs := a\<rparr>) = settle v" "settle (v\<lparr>d_len := x\<rparr>) = settle v" "settle (v\<lparr>d_sequence := q\<rparr>) = settle v"
  "settle (v\<lparr>d_rep0 := x\<rparr>) = (settle v)\<lparr>d_rep0 := x\<rparr>" "settle (v\<lparr>d_state := t\<rparr>) = (settle v)\<lparr>d_state := t\<rparr>"
  "settle (v\<lparr>v_dict := d\<rparr>) = (settle v)\<lparr>v_dict := d\<rparr>" "settle (forget v) = settle v"
  by (simp_all add: settle_def forget_def)

lemma put_steps:
  assumes "d_sequence v = SEQ_LITERAL_WRITE" "dict_put (v_dict v) (ucast (d_symbol v)) = Some dict" "dict_pos (v_dict v) \<noteq> dict_limit (v_dict v)"
  shows "steps mf inb in_size v (Loop (settle (v\<lparr>v_dict := dict\<rparr>)))"
  using assms by (intro steps_one) (simp add: slow_step_def slow_put_def dict_put_safe_def)

lemma eight: "(8 :: nat) = Suc 7"
  by simp

lemma normal_literal_steps:
  assumes "dict_get0 (v_dict v) = Some prev" "d_sequence v = SEQ_IS_MATCH" "dict_pos (v_dict v) \<noteq> dict_limit (v_dict v)" "is_literal_state (d_state v)"
    and "rc_bit_last (a_is_match (d_state v) (pos_state v)) inb in_size (rc_of v) = Some (False, s)"
    and "rc_bittree_bits (literal_probs v prev) 8 1 inb in_size s = Some (symbol, s1)" "dict_put (v_dict v) (ucast symbol) = Some dict"
  shows "steps mf inb in_size v (Loop (settle ((put_rc s1 v)\<lparr>d_state := update_literal_normal (d_state v), v_dict := dict\<rparr>)))"
    (is "steps mf inb in_size v ?r")
proof -
  let ?w = "(put_rc s v)\<lparr>d_probs := literal_probs v prev, d_symbol := 1, d_state := update_literal_normal (d_state v), d_sequence := SEQ_LITERAL\<rparr>"
  let ?u = "(put_rc s1 ?w)\<lparr>d_symbol := symbol, d_sequence := SEQ_LITERAL_WRITE\<rparr>"
  have 1: "slow_step mf inb in_size v = Some (Go ?w)"
    using assms(1-5) by (simp add: slow_step_def slow_is_match_def Let_def safe_unfold go_def)
  have 2: "steps mf inb in_size ?w (Go ?u)"
  proof (rule bittree_steps [where seq = SEQ_LITERAL and j = 0 and n = 7 and full = "push_bit 8 1" and symbol = symbol and s = s1 and k = "go SEQ_LITERAL_WRITE"])
    show "rc_bittree_bits (d_probs ?w) (Suc 7) (d_symbol ?w) inb in_size (rc_of ?w) = Some (symbol, s1)"
      unfolding eight [symmetric] using assms(6) by simp
  qed (simp_all add: slow_step_def slow_literal_def go_def)
  have 3: "steps mf inb in_size ?u ?r"
    using put_steps [of ?u dict mf inb in_size] assms(3,7) by (simp add: put_rc_updates)
  show ?thesis by (rule steps_more [OF 1 steps_trans [OF 2 refl 3]])
qed

lemma matched_literal_steps:
  assumes "dict_get0 (v_dict v) = Some prev" "d_sequence v = SEQ_IS_MATCH" "dict_pos (v_dict v) \<noteq> dict_limit (v_dict v)" "\<not> is_literal_state (d_state v)"
    and "rc_bit_last (a_is_match (d_state v) (pos_state v)) inb in_size (rc_of v) = Some (False, s)"
    and "rc_matched_bits (literal_probs v prev) 8 (ucast mb) 0x100 1 inb in_size s = Some (symbol, s1)" "dict_put (v_dict v) (ucast symbol) = Some dict"
    and "dict_get (v_dict v) (unat (d_rep0 v)) = Some mb"
  shows "steps mf inb in_size v (Loop (settle ((put_rc s1 v)\<lparr>d_state := update_literal_matched (d_state v), v_dict := dict\<rparr>)))"
    (is "steps mf inb in_size v ?r")
proof -
  let ?w = "(put_rc s v)\<lparr>d_probs := literal_probs v prev, d_symbol := 1, d_state := update_literal_matched (d_state v),
    d_len := push_bit 1 (ucast mb), d_offset := 0x100, d_sequence := SEQ_LITERAL_MATCHED\<rparr>"
  have 1: "slow_step mf inb in_size v = Some (Go ?w)"
    using assms(1-5,8) by (simp add: slow_step_def slow_is_match_def Let_def safe_unfold go_def)
  have "rc_matched_bits (d_probs ?w) (Suc 7) (ucast mb) (d_offset ?w) (d_symbol ?w) inb in_size (rc_of ?w) = Some (symbol, s1)"
    unfolding eight [symmetric] using assms(6) by simp
  then have "\<exists>o' l'. steps mf inb in_size ?w (Go ((put_rc s1 ?w)\<lparr>d_symbol := symbol, d_offset := o', d_len := l', d_sequence := SEQ_LITERAL_WRITE\<rparr>))"
    by (intro matched_steps [where j = 0 and n = 7 and mb = "ucast mb"]) simp_all
  then obtain o' l' where 2: "steps mf inb in_size ?w (Go ((put_rc s1 ?w)\<lparr>d_symbol := symbol, d_offset := o', d_len := l', d_sequence := SEQ_LITERAL_WRITE\<rparr>))"
    (is "steps mf inb in_size ?w (Go ?u)")
    by blast
  have 3: "steps mf inb in_size ?u ?r"
    using put_steps [of ?u dict mf inb in_size] assms(3,7) by (simp add: put_rc_updates)
  show ?thesis by (rule steps_more [OF 1 steps_trans [OF 2 refl 3]])
qed

lemma literal_steps:
  assumes f: "fast_literal inb in_size (put_rc s v) = Some r" and v: "d_sequence v = SEQ_IS_MATCH" "dict_pos (v_dict v) \<noteq> dict_limit (v_dict v)"
    and is_match: "rc_bit_last (a_is_match (d_state v) (pos_state v)) inb in_size (rc_of v) = Some (False, s)"
  shows "steps mf inb in_size v r"
proof (cases "is_literal_state (d_state v)")
  case True
  with f obtain prev symbol s1 dict where "dict_get0 (v_dict v) = Some prev"
      "rc_bittree_bits (literal_probs v prev) 8 1 inb in_size s = Some (symbol, s1)" "dict_put (v_dict v) (ucast symbol) = Some dict"
      "r = Loop (settle ((put_rc s1 v)\<lparr>d_state := update_literal_normal (d_state v), v_dict := dict\<rparr>))"
    by (auto simp: fast_literal_def bind_eq_Some_conv rc_use_Some rc_bittree_use put_rc_updates)
  then show ?thesis using normal_literal_steps [OF _ v True is_match] by simp
next
  case False
  with f obtain prev mb symbol s1 dict where "dict_get0 (v_dict v) = Some prev" "dict_get (v_dict v) (unat (d_rep0 v)) = Some mb"
      "rc_matched_bits (literal_probs v prev) 8 (ucast mb) 0x100 1 inb in_size s = Some (symbol, s1)" "dict_put (v_dict v) (ucast symbol) = Some dict"
      "r = Loop (settle ((put_rc s1 v)\<lparr>d_state := update_literal_matched (d_state v), v_dict := dict\<rparr>))"
    by (auto simp: fast_literal_def bind_eq_Some_conv rc_use_Some rc_matched_literal_def put_rc_updates)
  then show ?thesis using matched_literal_steps [OF _ v False is_match] by simp
qed

lemma copy_steps:
  assumes "d_sequence v = SEQ_COPY" "copy_match (d_len v) v = Some r"
  shows "steps mf inb in_size v r"
  using assms by (intro steps_one) (simp add: slow_step_def)

lemma copy_match_updates [simp]:
  "copy_match n (v\<lparr>d_symbol := x\<rparr>) = copy_match n v" "copy_match n (v\<lparr>d_probs := a\<rparr>) = copy_match n v" "copy_match n (v\<lparr>d_limit := x\<rparr>) = copy_match n v"
  "copy_match n (v\<lparr>d_offset := x\<rparr>) = copy_match n v" "copy_match n (v\<lparr>d_len := x\<rparr>) = copy_match n v" "copy_match n (v\<lparr>d_sequence := q\<rparr>) = copy_match n v"
  "copy_match n (forget v) = copy_match n v"
  by (auto simp: copy_match_def forget_def settle_def Let_def intro!: arg_cong [where f = "Option.bind _"] ext split: prod.splits)

text \<open>A distance and the match it belongs to.\<close>

lemma distance_steps:
  assumes v: "d_sequence v = SEQ_DIST_SLOT" "d_probs v = a_dist_slot (unat (get_dist_state (d_len v)))" "d_symbol v = 1"
    and d: "dist_decode_fast (d_len v) inb in_size (rc_of v) = Some ((marker, dist), s)"
    and r: "(if marker \<and> dist = 0xFFFFFFFF then Some (eopm ((put_rc s v)\<lparr>d_rep0 := dist\<rparr>))
        else if \<not> dict_is_distance_valid (v_dict v) (unat dist) then Some (corrupt ((put_rc s v)\<lparr>d_rep0 := dist\<rparr>))
        else copy_match (d_len v) ((put_rc s v)\<lparr>d_rep0 := dist\<rparr>)) = Some r"
  shows "steps mf inb in_size v r"
proof (cases "(marker \<and> dist = 0xFFFFFFFF) \<or> \<not> dict_is_distance_valid (v_dict v) (unat dist)")
  case True
  then show ?thesis using r by (intro dist_steps [OF v d]) (auto simp: check_distance_def split: if_splits)
next
  case False
  let ?u = "(forget ((put_rc s v)\<lparr>d_rep0 := dist\<rparr>))\<lparr>d_len := d_len v, d_sequence := SEQ_COPY\<rparr>"
  have 1: "steps mf inb in_size v (Go ?u)"
    using False by (intro dist_steps [OF v d]) (auto simp: check_distance_def go_copy_def go_def simp del: forget_updates)
  have "copy_match (d_len ?u) ?u = Some r" using r False by (simp del: forget_updates split: if_splits)
  then show ?thesis by (intro steps_trans [OF 1 refl] copy_steps) simp_all
qed

lemma match_step:
  assumes "d_sequence v = SEQ_IS_MATCH" "dict_pos (v_dict v) \<noteq> dict_limit (v_dict v)"
    and "rc_bit_last (a_is_match (d_state v) (pos_state v)) inb in_size (rc_of v) = Some (True, s)"
  shows "slow_step mf inb in_size v = Some (Go ((put_rc s v)\<lparr>d_sequence := SEQ_IS_REP\<rparr>))"
  using assms by (simp add: slow_step_def slow_is_match_def Let_def safe_unfold go_def)

lemma match_steps:
  assumes f: "fast_match inb in_size (put_rc s v) = Some r"
    and is_rep: "rc_bit_last (a_is_rep (d_state v)) inb in_size (rc_of v) = Some (False, s)"
  shows "steps mf inb in_size (v\<lparr>d_sequence := SEQ_IS_REP\<rparr>) r"
proof -
  let ?m = "\<lambda>u. u\<lparr>d_state := update_match (d_state v), d_rep3 := d_rep2 v, d_rep2 := d_rep1 v, d_rep1 := d_rep0 v\<rparr>"
  let ?w = "(?m (put_rc s v))\<lparr>d_sequence := SEQ_MATCH_LEN_CHOICE\<rparr>"
  obtain len s1 marker rep0 s2 where l: "len_decode_fast a_match_len (pos_state v) inb in_size s = Some (len, s1)"
      and d: "dist_decode_fast len inb in_size s1 = Some ((marker, rep0), s2)"
      and r: "(if marker \<and> rep0 = 0xFFFFFFFF then Some (eopm ((?m (put_rc s2 v))\<lparr>d_rep0 := rep0\<rparr>))
        else if \<not> dict_is_distance_valid (v_dict v) (unat rep0) then Some (corrupt ((?m (put_rc s2 v))\<lparr>d_rep0 := rep0\<rparr>))
        else copy_match len ((?m (put_rc s2 v))\<lparr>d_rep0 := rep0\<rparr>)) = Some r"
    using f by (auto simp: fast_match_def bind_eq_Some_conv rc_use_Some put_rc_updates pos_state_def Let_def cong: if_cong)
  have 1: "slow_step mf inb in_size (v\<lparr>d_sequence := SEQ_IS_REP\<rparr>) = Some (Go ?w)"
    using is_rep by (simp add: slow_step_def slow_is_rep_def safe_unfold go_def put_rc_updates)
  have l': "len_decode_fast a_match_len (pos_state ?w) inb in_size (rc_of ?w) = Some (len, s1)" using l by (simp add: pos_state_def)
  obtain probs symbol limit where 2: "\<And>r. to_dist_slot ((put_rc s1 ?w)\<lparr>d_probs := probs, d_symbol := symbol,
      d_limit := limit, d_len := len, d_sequence := SEQ_MATCH_LEN_BITTREE\<rparr>) = Some r \<Longrightarrow> steps mf inb in_size ?w r"
    by (rule len_steps [OF len_labels_match [of mf] _ l']) (simp, rule that, blast)
  let ?u = "(?m (put_rc s1 v))\<lparr>d_limit := limit, d_len := len, d_probs := a_dist_slot (unat (get_dist_state len)), d_symbol := 1, d_sequence := SEQ_DIST_SLOT\<rparr>"
  have 3: "steps mf inb in_size ?w (Go ?u)" by (rule 2) (simp add: to_dist_slot_def go_def put_rc_updates)
  have 4: "steps mf inb in_size ?u r"
    using d r by (intro distance_steps [where marker = marker and dist = rep0 and s = s2]) (auto simp: put_rc_updates rep0_inner corrupt_def split: if_splits)
  show ?thesis by (rule steps_more [OF 1 steps_trans [OF 3 refl 4]])
qed

lemma long_rep_steps:
  assumes f: "fast_long_rep inb in_size v = Some r" and w: "w = v\<lparr>d_state := update_long_rep (d_state v), d_sequence := SEQ_REP_LEN_CHOICE\<rparr>"
  shows "steps mf inb in_size w r"
proof -
  let ?m = "\<lambda>u. u\<lparr>d_state := update_long_rep (d_state v)\<rparr>"
  obtain len s where l: "len_decode_fast a_rep_len (pos_state v) inb in_size (rc_of v) = Some (len, s)"
      and r: "copy_match len (?m (put_rc s v)) = Some r"
    using f by (auto simp: fast_long_rep_def bind_eq_Some_conv rc_use_Some put_rc_updates pos_state_def)
  have l': "len_decode_fast a_rep_len (pos_state w) inb in_size (rc_of w) = Some (len, s)" using l w by (simp add: pos_state_def)
  obtain probs symbol limit where 1: "\<And>r. go_copy ((put_rc s w)\<lparr>d_probs := probs, d_symbol := symbol,
      d_limit := limit, d_len := len, d_sequence := SEQ_REP_LEN_BITTREE\<rparr>) = Some r \<Longrightarrow> steps mf inb in_size w r"
    by (rule len_steps [OF len_labels_rep [of mf] _ l']) (simp add: w, rule that, blast)
  let ?u = "(forget (?m (put_rc s v)))\<lparr>d_len := len, d_sequence := SEQ_COPY\<rparr>"
  have 2: "steps mf inb in_size w (Go ?u)" by (rule 1) (simp add: go_copy_def go_def w put_rc_updates)
  have "copy_match (d_len ?u) ?u = Some r" using r by (simp del: forget_updates)
  then show ?thesis by (intro steps_trans [OF 2 refl] copy_steps) simp_all
qed

text \<open>The bits that say which distance is repeated.\<close>

lemma put_step:
  assumes "dict_put (v_dict v) b = Some dict" "dict_pos (v_dict v) \<noteq> dict_limit (v_dict v)"
  shows "slow_put b v = Some (Loop (settle (v\<lparr>v_dict := dict\<rparr>)))"
  using assms by (simp add: slow_put_def dict_put_safe_def)

lemma short_rep_steps:
  assumes "d_sequence v = SEQ_SHORTREP" "dict_get (v_dict v) (unat (d_rep0 v)) = Some b" "dict_put (v_dict v) b = Some dict"
    and "dict_pos (v_dict v) \<noteq> dict_limit (v_dict v)"
  shows "steps mf inb in_size v (Loop (settle (v\<lparr>v_dict := dict\<rparr>)))"
  using assms by (intro steps_one) (simp add: slow_step_def put_step)

lemma rep0_long_steps:
  assumes room: "dict_pos (v_dict v) \<noteq> dict_limit (v_dict v)"
    and b: "rc_bit_last (a_is_rep0_long (d_state v) (pos_state v)) inb in_size (rc_of v) = Some (is_long, s)"
    and r: "(if \<not> is_long then do {
            b \<leftarrow> dict_get (v_dict v) (unat (d_rep0 v));
            dict \<leftarrow> dict_put (v_dict v) b;
            Some (Loop (settle ((put_rc s v)\<lparr>d_state := update_short_rep (d_state v), v_dict := dict\<rparr>))) }
          else fast_long_rep inb in_size (put_rc s v)) = Some r"
  shows "steps mf inb in_size (v\<lparr>d_sequence := SEQ_IS_REP0_LONG\<rparr>) r"
proof (cases is_long)
  case True
  let ?w = "(put_rc s v)\<lparr>d_state := update_long_rep (d_state v), d_sequence := SEQ_REP_LEN_CHOICE\<rparr>"
  have "slow_step mf inb in_size (v\<lparr>d_sequence := SEQ_IS_REP0_LONG\<rparr>) = Some (Go ?w)"
    using b True by (simp add: slow_step_def slow_is_rep0_long_def safe_unfold go_rep_len_def go_def pos_state_def put_rc_updates)
  moreover have "steps mf inb in_size ?w r" using r True by (intro long_rep_steps [of _ _ "put_rc s v"]) simp_all
  ultimately show ?thesis by (rule steps_more)
next
  case False
  let ?w = "(put_rc s v)\<lparr>d_state := update_short_rep (d_state v), d_sequence := SEQ_SHORTREP\<rparr>"
  have "slow_step mf inb in_size (v\<lparr>d_sequence := SEQ_IS_REP0_LONG\<rparr>) = Some (Go ?w)"
    using b False by (simp add: slow_step_def slow_is_rep0_long_def safe_unfold go_def pos_state_def put_rc_updates)
  moreover obtain c dict where "dict_get (v_dict v) (unat (d_rep0 v)) = Some c" "dict_put (v_dict v) c = Some dict"
      "r = Loop (settle ((put_rc s v)\<lparr>d_state := update_short_rep (d_state v), v_dict := dict\<rparr>))"
    using r False by (auto simp: bind_eq_Some_conv)
  then have "steps mf inb in_size ?w r" using short_rep_steps [of ?w c dict mf inb in_size] room by simp
  ultimately show ?thesis by (rule steps_more)
qed

lemma go_rep_len_steps:
  assumes "slow_step mf inb in_size v = go_rep_len (u\<lparr>d_sequence := q\<rparr>)" "fast_long_rep inb in_size u = Some r"
  shows "steps mf inb in_size v r"
proof -
  let ?w = "u\<lparr>d_state := update_long_rep (d_state u), d_sequence := SEQ_REP_LEN_CHOICE\<rparr>"
  have "slow_step mf inb in_size v = Some (Go ?w)" using assms(1) by (simp add: go_rep_len_def go_def)
  moreover have "steps mf inb in_size ?w r" using assms(2) by (rule long_rep_steps) simp
  ultimately show ?thesis by (rule steps_more)
qed

lemma use_rep_sequence:
  "use_rep1 (v\<lparr>d_sequence := q\<rparr>) = (use_rep1 v)\<lparr>d_sequence := q\<rparr>" "use_rep2 (v\<lparr>d_sequence := q\<rparr>) = (use_rep2 v)\<lparr>d_sequence := q\<rparr>"
  "use_rep3 (v\<lparr>d_sequence := q\<rparr>) = (use_rep3 v)\<lparr>d_sequence := q\<rparr>"
  by (simp_all add: use_rep1_def use_rep2_def use_rep3_def)

lemma rep12_steps:
  assumes b: "rc_bit_last (a_is_rep1 (d_state v)) inb in_size (rc_of v) = Some (is_rep1, s)"
    and r: "(if \<not> is_rep1 then fast_long_rep inb in_size (use_rep1 (put_rc s v))
          else do {
            (is_rep2, w) \<leftarrow> rc_use (rc_bit_last (a_is_rep2 (d_state v))) inb in_size (put_rc s v);
            if \<not> is_rep2 then fast_long_rep inb in_size (use_rep2 w) else fast_long_rep inb in_size (use_rep3 w) }) = Some r"
  shows "steps mf inb in_size (v\<lparr>d_sequence := SEQ_IS_REP1\<rparr>) r"
proof (cases is_rep1)
  case False
  then have "slow_step mf inb in_size (v\<lparr>d_sequence := SEQ_IS_REP1\<rparr>) = go_rep_len ((use_rep1 (put_rc s v))\<lparr>d_sequence := SEQ_IS_REP1\<rparr>)"
    using b by (simp add: slow_step_def slow_is_rep1_def safe_unfold put_rc_updates use_rep_sequence)
  moreover have "fast_long_rep inb in_size (use_rep1 (put_rc s v)) = Some r" using r False by simp
  ultimately show ?thesis by (rule go_rep_len_steps)
next
  case True
  then obtain is_rep2 w where w: "rc_use (rc_bit_last (a_is_rep2 (d_state v))) inb in_size (put_rc s v) = Some (is_rep2, w)"
      "fast_long_rep inb in_size (if is_rep2 then use_rep3 w else use_rep2 w) = Some r"
    using r by (cases "rc_use (rc_bit_last (a_is_rep2 (d_state v))) inb in_size (put_rc s v)") (auto split: if_splits)
  then obtain t where 2: "rc_bit_last (a_is_rep2 (d_state v)) inb in_size s = Some (is_rep2, t)"
      "fast_long_rep inb in_size (if is_rep2 then use_rep3 (put_rc t v) else use_rep2 (put_rc t v)) = Some r"
    unfolding rc_use_Some by auto
  have 1: "slow_step mf inb in_size (v\<lparr>d_sequence := SEQ_IS_REP1\<rparr>) = Some (Go ((put_rc s v)\<lparr>d_sequence := SEQ_IS_REP2\<rparr>))"
    using b True by (simp add: slow_step_def slow_is_rep1_def safe_unfold go_def put_rc_updates)
  have "slow_step mf inb in_size ((put_rc s v)\<lparr>d_sequence := SEQ_IS_REP2\<rparr>)
      = go_rep_len ((if is_rep2 then use_rep3 (put_rc t v) else use_rep2 (put_rc t v))\<lparr>d_sequence := SEQ_IS_REP2\<rparr>)"
    using 2(1) by (cases is_rep2) (simp_all add: slow_step_def slow_is_rep2_def safe_unfold put_rc_updates use_rep_sequence)
  then show ?thesis using 2(2) by (rule steps_more [OF 1 go_rep_len_steps])
qed

lemma rep_steps:
  assumes f: "fast_rep inb in_size (put_rc s v) = Some r" and v: "dict_pos (v_dict v) \<noteq> dict_limit (v_dict v)"
    and is_rep: "rc_bit_last (a_is_rep (d_state v)) inb in_size (rc_of v) = Some (True, s)"
  shows "steps mf inb in_size (v\<lparr>d_sequence := SEQ_IS_REP\<rparr>) r"
proof (cases "dict_is_distance_valid (v_dict v) 0")
  case False
  then have "r = corrupt (put_rc s v)" using f by (simp add: fast_rep_def)
  then show ?thesis using is_rep False by (intro steps_one) (simp add: slow_step_def slow_is_rep_def safe_unfold put_rc_updates corrupt_def)
next
  case True
  obtain is_rep0 s1 where 1: "rc_bit_last (a_is_rep0 (d_state v)) inb in_size s = Some (is_rep0, s1)"
    using f True by (auto simp: fast_rep_def bind_eq_Some_conv rc_use_Some)
  let ?w = "(put_rc s1 v)\<lparr>d_sequence := if is_rep0 then SEQ_IS_REP1 else SEQ_IS_REP0_LONG\<rparr>"
  have s1: "slow_step mf inb in_size (v\<lparr>d_sequence := SEQ_IS_REP\<rparr>) = Some (Go ((put_rc s v)\<lparr>d_sequence := SEQ_IS_REP0\<rparr>))"
    using is_rep True by (simp add: slow_step_def slow_is_rep_def safe_unfold go_def put_rc_updates)
  have s2: "slow_step mf inb in_size ((put_rc s v)\<lparr>d_sequence := SEQ_IS_REP0\<rparr>) = Some (Go ?w)"
    using 1 by (simp add: slow_step_def slow_is_rep0_def safe_unfold go_def put_rc_updates)
  have "steps mf inb in_size ?w r"
  proof (cases is_rep0)
    case r0: True
    obtain is_rep1 t where 2: "rc_bit_last (a_is_rep1 (d_state v)) inb in_size s1 = Some (is_rep1, t)"
        "(if \<not> is_rep1 then fast_long_rep inb in_size (use_rep1 (put_rc t v))
          else do {
            (is_rep2, w) \<leftarrow> rc_use (rc_bit_last (a_is_rep2 (d_state v))) inb in_size (put_rc t v);
            if \<not> is_rep2 then fast_long_rep inb in_size (use_rep2 w) else fast_long_rep inb in_size (use_rep3 w) }) = Some r"
      using f True 1 r0 by (auto simp: fast_rep_def bind_eq_Some_conv [where f = "rc_use a b c d" for a b c d] rc_use_Some cong: if_cong)
    then show ?thesis using rep12_steps [of "put_rc s1 v" inb in_size is_rep1 t r mf] r0 by (simp cong: if_cong)
  next
    case r0: False
    obtain is_long t where 2: "rc_bit_last (a_is_rep0_long (d_state v) (pos_state v)) inb in_size s1 = Some (is_long, t)"
        "(if \<not> is_long then do {
            b \<leftarrow> dict_get (v_dict v) (unat (d_rep0 v));
            dict \<leftarrow> dict_put (v_dict v) b;
            Some (Loop (settle ((put_rc t v)\<lparr>d_state := update_short_rep (d_state v), v_dict := dict\<rparr>))) }
          else fast_long_rep inb in_size (put_rc t v)) = Some r"
      using f True 1 r0 by (auto simp: fast_rep_def bind_eq_Some_conv [where f = "rc_use a b c d" for a b c d] rc_use_Some cong: if_cong)
    then show ?thesis using rep0_long_steps [of "put_rc s1 v" inb in_size is_long t r mf] v r0 by (simp cong: if_cong)
  qed
  then show ?thesis by (rule steps_more [OF s1 steps_more [OF s2]])
qed

text \<open>What the fast mode does with a symbol is what the steps of the resumable mode do with it.\<close>

lemma fast_symbol_steps:
  assumes "fast_symbol inb in_size v = Some r" "d_sequence v = SEQ_IS_MATCH" "dict_pos (v_dict v) \<noteq> dict_limit (v_dict v)"
  shows "steps might_finish inb in_size v r"
proof -
  obtain is_match s where m: "rc_bit_last (a_is_match (d_state v) (pos_state v)) inb in_size (rc_of v) = Some (is_match, s)"
    using assms(1) by (auto simp: fast_symbol_def bind_eq_Some_conv rc_use_Some)
  show ?thesis
  proof (cases is_match)
    case False
    then have "fast_literal inb in_size (put_rc s v) = Some r" using assms(1) m by (auto simp: fast_symbol_def bind_eq_Some_conv rc_use_Some)
    then show ?thesis using assms(2,3) m False by (intro literal_steps) simp_all
  next
    case True
    let ?w = "(put_rc s v)\<lparr>d_sequence := SEQ_IS_REP\<rparr>"
    have 1: "slow_step might_finish inb in_size v = Some (Go ?w)" using assms(2,3) m True by (intro match_step) simp_all
    obtain is_rep t where t: "rc_bit_last (a_is_rep (d_state v)) inb in_size s = Some (is_rep, t)"
      using assms(1) m True by (auto simp: fast_symbol_def bind_eq_Some_conv rc_use_Some)
    then have f: "(if is_rep then fast_rep else fast_match) inb in_size (put_rc t v) = Some r"
      using assms(1) m True by (auto simp: fast_symbol_def bind_eq_Some_conv rc_use_Some)
    have "steps might_finish inb in_size ?w r"
    proof (cases is_rep)
      case True
      then show ?thesis using f t assms(3) by (intro rep_steps [where s = t]) simp_all
    next
      case False
      then show ?thesis using f t by (intro match_steps [where s = t]) simp_all
    qed
    then show ?thesis by (rule steps_more [OF 1])
  qed
qed

section \<open>The loop\<close>

lemma settle_sequence [simp]: "d_sequence (settle v) = SEQ_IS_MATCH"
  by (simp add: settle_def)

lemma copy_match_loop: "copy_match len v = Some (Loop w) \<Longrightarrow> d_sequence w = SEQ_IS_MATCH"
  by (auto simp: copy_match_def Let_def bind_eq_Some_conv split: if_splits)

lemma no_loop [simp]:
  "go q v \<noteq> Some (Loop w)" "check_distance v \<noteq> Some (Loop w)" "go_rep_len v \<noteq> Some (Loop w)" "eopm v \<noteq> Loop w" "corrupt v \<noteq> Loop w"
  "go_copy v \<noteq> Some (Loop w)" "to_dist_slot v \<noteq> Some (Loop w)"
  by (simp_all add: go_def check_distance_def corrupt_def go_copy_def go_rep_len_def eopm_def to_dist_slot_def)

lemma bind_loop: "m \<bind> f = Some (Loop w) \<Longrightarrow> (\<And>x. f x = Some (Loop w) \<Longrightarrow> P) \<Longrightarrow> P"
  and safe_loop: "safe mac inb in_size v k = Some (Loop w) \<Longrightarrow> (\<And>x u. k x u = Some (Loop w) \<Longrightarrow> P) \<Longrightarrow> P"
  by (auto simp: bind_eq_Some_conv safe_def split: option.splits)

lemma fast_long_rep_loop: "fast_long_rep inb in_size v = Some (Loop w) \<Longrightarrow> d_sequence w = SEQ_IS_MATCH"
  unfolding fast_long_rep_def by (erule bind_loop) (auto intro: copy_match_loop split: prod.splits)

lemma fast_match_loop: "fast_match inb in_size v = Some (Loop w) \<Longrightarrow> d_sequence w = SEQ_IS_MATCH"
  unfolding fast_match_def Let_def by (auto intro: copy_match_loop split: prod.splits if_splits elim!: bind_loop)

lemma fast_rep_loop: "fast_rep inb in_size v = Some (Loop w) \<Longrightarrow> d_sequence w = SEQ_IS_MATCH"
  unfolding fast_rep_def by (auto split: prod.splits if_splits elim!: bind_loop) (erule fast_long_rep_loop)+

lemma fast_literal_loop: "fast_literal inb in_size v = Some (Loop w) \<Longrightarrow> d_sequence w = SEQ_IS_MATCH"
  unfolding fast_literal_def Let_def by (auto split: prod.splits elim!: bind_loop)

lemma fast_loop: "fast_symbol inb in_size v = Some (Loop w) \<Longrightarrow> d_sequence w = SEQ_IS_MATCH"
  unfolding fast_symbol_def
  by (auto split: prod.splits if_splits elim!: bind_loop) (erule fast_literal_loop fast_match_loop fast_rep_loop)+

lemma slow_put_loop: "slow_put b v = Some (Loop w) \<Longrightarrow> d_sequence w = SEQ_IS_MATCH"
  unfolding slow_put_def by (auto split: prod.splits if_splits elim!: bind_loop)

lemma slow_is_match_loop: "slow_is_match mf inb in_size v \<noteq> Some (Loop w)"
  unfolding slow_is_match_def Let_def by (auto split: if_splits elim!: bind_loop safe_loop)

lemma slow_loop: "slow_step mf inb in_size v = Some (Loop w) \<Longrightarrow> d_sequence w = SEQ_IS_MATCH"
  by (cases "d_sequence v")
    (auto simp: slow_step_def slow_is_match_loop slow_literal_def slow_literal_matched_def slow_is_rep_def slow_choice_def slow_choice2_def
      slow_len_bittree_def slow_dist_slot_def slow_dist_model_def slow_direct_def slow_align_def slow_eopm_def slow_is_rep0_def slow_is_rep0_long_def
      slow_is_rep1_def slow_is_rep2_def Let_def
      intro: copy_match_loop slow_put_loop elim!: bind_loop safe_loop split: if_splits)

lemmas loop_sequence = fast_loop slow_loop

text \<open>Without the fast mode a chain of steps does not change what the loop returns.\<close>

definition continue :: "bool \<Rightarrow> nat \<Rightarrow> byte list \<Rightarrow> nat \<Rightarrow> outcome \<Rightarrow> (lzma_ret \<times> lzma_vars) option" where
  "continue mf fast_end inb in_size r = (case r of
     Go v \<Rightarrow> decode_loop mf fast_end inb in_size False v
   | Loop v \<Rightarrow> decode_loop mf fast_end inb in_size True v
   | Stop ret v \<Rightarrow> Some (ret, v))"

lemma decode_loop_continue:
  "decode_loop mf fast_end inb in_size fresh v =
     (if fresh \<and> v_in_pos v < fast_end \<and> dict_pos (v_dict v) \<noteq> dict_limit (v_dict v) then fast_symbol inb in_size v
      else slow_step mf inb in_size v) \<bind> continue mf fast_end inb in_size"
  by (subst decode_loop.simps) (simp add: continue_def [abs_def])

lemma decode_loop_slow: "decode_loop mf 0 inb in_size fresh v = slow_step mf inb in_size v \<bind> continue mf 0 inb in_size"
  by (subst decode_loop_continue) simp

lemma decode_loop_steps: "steps mf inb in_size v r \<Longrightarrow> decode_loop mf 0 inb in_size fresh v = continue mf 0 inb in_size r"
proof (induction arbitrary: fresh rule: steps.induct)
  case (steps_one v r)
  then show ?case by (simp add: decode_loop_slow)
next
  case (steps_more v w r)
  then show ?case by (subst decode_loop_slow) (simp add: continue_def [of _ _ _ _ "Go w"])
qed

lemma decode_loop_modes:
  assumes "decode_loop mf fast_end inb in_size fresh v = Some out" "fresh \<longrightarrow> d_sequence v = SEQ_IS_MATCH"
  shows "decode_loop mf 0 inb in_size fresh' v = Some out"
proof -
  have "(fresh \<longrightarrow> d_sequence v = SEQ_IS_MATCH) \<longrightarrow> (\<forall>fresh'. decode_loop mf 0 inb in_size fresh' v = Some out)"
  proof (rule decode_loop.raw_induct [OF _ assms(1), where P = "\<lambda>mf fe inb n fresh v out.
      (fresh \<longrightarrow> d_sequence v = SEQ_IS_MATCH) \<longrightarrow> (\<forall>fresh'. decode_loop mf 0 inb n fresh' v = Some out)"], intro impI allI)
    fix rec mf fe inb n fresh v out fresh'
    assume IH: "\<And>mf fe inb n fresh v out. rec mf fe inb n fresh v = Some out \<Longrightarrow>
        (fresh \<longrightarrow> d_sequence v = SEQ_IS_MATCH) \<longrightarrow> (\<forall>fresh'. decode_loop mf 0 inb n fresh' v = Some out)"
      and run: "(if fresh \<and> v_in_pos v < fe \<and> dict_pos (v_dict v) \<noteq> dict_limit (v_dict v) then fast_symbol inb n v else slow_step mf inb n v)
        \<bind> (\<lambda>r. case r of Go v \<Rightarrow> rec mf fe inb n False v | Loop v \<Rightarrow> rec mf fe inb n True v | Stop ret v \<Rightarrow> Some (ret, v)) = Some out"
      and fresh: "fresh \<longrightarrow> d_sequence v = SEQ_IS_MATCH"
    obtain r where r: "(if fresh \<and> v_in_pos v < fe \<and> dict_pos (v_dict v) \<noteq> dict_limit (v_dict v) then fast_symbol inb n v else slow_step mf inb n v) = Some r"
        "(case r of Go v \<Rightarrow> rec mf fe inb n False v | Loop v \<Rightarrow> rec mf fe inb n True v | Stop ret v \<Rightarrow> Some (ret, v)) = Some out"
      using run by (auto simp: bind_eq_Some_conv)
    have "steps mf inb n v r"
      using r(1) fresh by (auto split: if_splits intro: fast_symbol_steps steps_one)
    moreover have "d_sequence w = SEQ_IS_MATCH" if "r = Loop w" for w
      using r(1) that by (auto split: if_splits dest: loop_sequence)
    then have "continue mf 0 inb n r = Some out" using r(2) IH by (auto simp: continue_def split: outcome.splits)
    ultimately show "decode_loop mf 0 inb n fresh' v = Some out" by (simp add: decode_loop_steps)
  qed
  then show ?thesis using assms(2) by blast
qed

end
