(* ===== verification/Lzma_Decoder_Input.thy ===== *)
theory Lzma_Decoder_Input
  imports Lzma_Decoder_Modes
begin

text \<open>
  How much input the macros of the range decoder read. Every bit narrows the range by a bounded factor
  and every byte read widens it by 256, so that a symbol of at most 22 bits with probabilities and
  26 direct bits reads at most \<open>LZMA_IN_REQUIRED\<close> bytes, which is what the fast mode relies on.
\<close>

section \<open>The range after a bit\<close>

definition RANGE_MIN :: nat where "RANGE_MIN = 31 * 2 ^ 13"

definition rc_ok :: "rc_state \<Rightarrow> bool" where
  "rc_ok s \<longleftrightarrow> (case s of (rc, m, in_pos) \<Rightarrow> probs_ok m \<and> RANGE_MIN \<le> unat (rd_range rc))"

definition rc_range :: "rc_state \<Rightarrow> nat" where "rc_range s = (case s of (rc, m, in_pos) \<Rightarrow> unat (rd_range rc))"

definition rc_pos :: "rc_state \<Rightarrow> nat" where "rc_pos s = (case s of (rc, m, in_pos) \<Rightarrow> in_pos)"

lemma rc_normalize_cases:
  assumes "rc_ok s"
  obtains (stuck) "rc_normalize inb n s = None" "rc_pos s = n" "rc_range s < 2 ^ 24"
  | (wide) "rc_normalize inb n s = Some ((), s)" "2 ^ 24 \<le> rc_range s"
  | (narrow) s' where "rc_normalize inb n s = Some ((), s')" "rc_ok s'" "rc_range s' = 256 * rc_range s" "rc_range s < 2 ^ 24"
      "2 ^ 24 \<le> rc_range s'" "rc_pos s' = rc_pos s + 1" "rc_pos s \<noteq> n"
proof -
  obtain rc m in_pos where s: "s = (rc, m, in_pos)" by (cases s)
  have ok: "probs_ok m" "RANGE_MIN \<le> unat (rd_range rc)" using assms s by (simp_all add: rc_ok_def)
  have u: "unat (push_bit 8 (rd_range rc)) = 256 * unat (rd_range rc)" if "unat (rd_range rc) < 2 ^ 24"
    using that by (subst unsigned_push_bit_eq, subst push_bit_eq_mult) (simp add: take_bit_nat_eq_self)
  consider "2 ^ 24 \<le> unat (rd_range rc)" | "unat (rd_range rc) < 2 ^ 24" "in_pos = n" | "unat (rd_range rc) < 2 ^ 24" "in_pos \<noteq> n" by linarith
  then show thesis
  proof cases
    case 1
    then show thesis using wide s by (simp add: rc_normalize_def rc_range_def RC_TOP_VALUE_def word_less_nat_alt)
  next
    case 2
    then show thesis using stuck s by (simp add: rc_normalize_def rc_range_def rc_pos_def RC_TOP_VALUE_def word_less_nat_alt)
  next
    case 3
    show thesis
    proof (rule narrow)
      show "rc_normalize inb n s = Some ((), rc\<lparr>rd_range := push_bit RC_SHIFT_BITS (rd_range rc),
          rd_code := push_bit RC_SHIFT_BITS (rd_code rc) OR ucast (inb ! in_pos)\<rparr>, m, in_pos + 1)"
        using 3 s by (simp add: rc_normalize_def RC_TOP_VALUE_def word_less_nat_alt)
    qed (use 3 s ok u in \<open>simp_all add: rc_ok_def rc_range_def rc_pos_def RC_SHIFT_BITS_def RANGE_MIN_def\<close>)
  qed
qed

definition RANGE_TOP :: nat where "RANGE_TOP = 2 ^ 24"
definition BIT_NUM :: nat where "BIT_NUM = 31 * (2 ^ 13 - 1)"
definition BIT_DEN :: nat where "BIT_DEN = 2 ^ 24"
definition DIRECT_NUM :: nat where "DIRECT_NUM = 2 ^ 24 - 1"
definition DIRECT_DEN :: nat where "DIRECT_DEN = 2 ^ 25"

text \<open>The factors by which a bit with a probability and a direct bit narrow the range.\<close>

lemma bit_factors:
  fixes w p :: nat
  assumes "2 ^ 24 \<le> w" "31 \<le> p" "p \<le> 2017"
  defines "b \<equiv> w div 2 ^ 11 * p"
  shows "RANGE_MIN \<le> b" "RANGE_MIN \<le> w - b" "b < w" "w - b < w"
    and "BIT_NUM * w \<le> BIT_DEN * b" "BIT_NUM * w \<le> BIT_DEN * (w - b)"
proof -
  define q where "q = w div 2 ^ 11"
  have "q * 2048 + w mod 2048 = w" "w mod 2048 < 2048" by (simp_all add: q_def)
  moreover have "2 ^ 13 \<le> q" using div_le_mono [OF assms(1), of "2 ^ 11"] by (simp add: q_def)
  ultimately have q: "q * 2048 \<le> w" "w \<le> q * 2048 + 2047" "2 ^ 13 \<le> q" by linarith+
  have b: "q * 31 \<le> b" "b \<le> q * 2017" unfolding b_def q_def [symmetric] using assms(2,3) by simp_all
  show "RANGE_MIN \<le> b" "RANGE_MIN \<le> w - b" "b < w" "w - b < w" using q b by (simp_all add: RANGE_MIN_def)
  show "BIT_NUM * w \<le> BIT_DEN * b" using q b by (simp add: BIT_NUM_def BIT_DEN_def)
  have "q * 2048 - q * 2017 \<le> w - b" using q b by linarith
  then show "BIT_NUM * w \<le> BIT_DEN * (w - b)" using q by (simp add: BIT_NUM_def BIT_DEN_def)
qed

lemma direct_factors:
  fixes w :: nat
  assumes "2 ^ 24 \<le> w"
  shows "RANGE_MIN \<le> w div 2" "w div 2 < w" "DIRECT_NUM * w \<le> DIRECT_DEN * (w div 2)"
  using assms by (simp_all add: RANGE_MIN_def DIRECT_NUM_def DIRECT_DEN_def)

section \<open>Counting bytes\<close>

text \<open>
  From position \<open>p0\<close> on, \<open>p\<close> bits with probabilities and \<open>d\<close> direct bits have been decoded, at most
  \<open>LZMA_IN_REQUIRED\<close> bytes have been read, and the range shows how many.
\<close>

definition spent :: "nat \<Rightarrow> nat \<Rightarrow> nat \<Rightarrow> rc_state \<Rightarrow> bool" where
  "spent p d p0 s \<longleftrightarrow> rc_ok s \<and> p0 \<le> rc_pos s \<and> rc_pos s \<le> p0 + LZMA_IN_REQUIRED
     \<and> RANGE_MIN * 256 ^ (rc_pos s - p0) * BIT_NUM ^ p * DIRECT_NUM ^ d \<le> rc_range s * BIT_DEN ^ p * DIRECT_DEN ^ d"

text \<open>After so many bits another one does not need a byte more.\<close>

definition affordable :: "nat \<Rightarrow> nat \<Rightarrow> bool" where
  "affordable p d \<longleftrightarrow> RANGE_TOP * BIT_DEN ^ p * DIRECT_DEN ^ d \<le> RANGE_MIN * 256 ^ LZMA_IN_REQUIRED * BIT_NUM ^ p * DIRECT_NUM ^ d"

lemma affordable_21_26: "affordable 21 26"
proof -
  have "2 ^ 100 * 53689674 \<le> BIT_NUM ^ 7" "(2 ^ 24 - 13) * 2 ^ 288 \<le> DIRECT_NUM ^ 13"
    by (simp_all add: BIT_NUM_def DIRECT_NUM_def)
  then have "(2 ^ 100 * 53689674) ^ 3 \<le> (BIT_NUM ^ 7) ^ 3" "((2 ^ 24 - 13) * 2 ^ 288) ^ 2 \<le> (DIRECT_NUM ^ 13) ^ 2"
    by (intro power_mono; simp)+
  then have "(2 ^ 100 * 53689674) ^ 3 \<le> BIT_NUM ^ 21" "((2 ^ 24 - 13) * 2 ^ 288) ^ 2 \<le> DIRECT_NUM ^ 26"
    unfolding power_mult [symmetric] by simp_all
  then have "RANGE_MIN * 256 ^ 20 * (2 ^ 100 * 53689674) ^ 3 * ((2 ^ 24 - 13) * 2 ^ 288) ^ 2 \<le> RANGE_MIN * 256 ^ 20 * BIT_NUM ^ 21 * DIRECT_NUM ^ 26"
    by (intro mult_le_mono) simp_all
  moreover have "RANGE_TOP * BIT_DEN ^ 21 * DIRECT_DEN ^ 26 \<le> RANGE_MIN * 256 ^ 20 * (2 ^ 100 * 53689674) ^ 3 * ((2 ^ 24 - 13) * 2 ^ 288) ^ 2"
    by (simp add: RANGE_TOP_def RANGE_MIN_def BIT_DEN_def DIRECT_DEN_def)
  ultimately show ?thesis unfolding affordable_def LZMA_IN_REQUIRED_def by (rule le_trans [rotated])
qed

lemma affordable_22_0: "affordable 22 0"
  by (simp add: affordable_def RANGE_MIN_def LZMA_IN_REQUIRED_def RANGE_TOP_def BIT_DEN_def BIT_NUM_def)

lemma factors_ok: "0 < BIT_DEN" "0 < DIRECT_DEN" "BIT_NUM \<le> BIT_DEN" "DIRECT_NUM \<le> DIRECT_DEN"
  by (simp_all add: BIT_NUM_def BIT_DEN_def DIRECT_NUM_def DIRECT_DEN_def)

lemma affordable_Suc: "affordable (Suc p) d \<Longrightarrow> affordable p d" "affordable p (Suc d) \<Longrightarrow> affordable p d"
proof -
  have scale: "x \<le> y" if "x * l \<le> y * k" "k \<le> l" "0 < l" for x y k l :: nat
    using le_trans [OF that(1) mult_le_mono2 [OF that(2)]] that(3) by (simp only: mult_le_cancel2)
  show "affordable p d" if "affordable (Suc p) d"
    using that factors_ok unfolding affordable_def by - (rule scale [of _ BIT_DEN _ BIT_NUM], simp_all only: power_Suc mult_ac)
  show "affordable p d" if "affordable p (Suc d)"
    using that factors_ok unfolding affordable_def by - (rule scale [of _ DIRECT_DEN _ DIRECT_NUM], simp_all only: power_Suc mult_ac)
qed

lemma affordable_le: "affordable p d \<Longrightarrow> p' \<le> p \<Longrightarrow> d' \<le> d \<Longrightarrow> affordable p' d'"
proof -
  have 1: "affordable p' d" if "p' \<le> p" "affordable p d" for p p' d
    using that by (induction rule: inc_induct) (assumption, rule affordable_Suc)
  have 2: "affordable p d'" if "d' \<le> d" "affordable p d" for p d' d
    using that by (induction rule: inc_induct) (assumption, rule affordable_Suc)
  show "affordable p d \<Longrightarrow> p' \<le> p \<Longrightarrow> d' \<le> d \<Longrightarrow> affordable p' d'" by (rule 2 [OF _ 1])
qed

lemma spent_normalize:
  assumes "spent p d p0 s" "affordable p d" "p0 + LZMA_IN_REQUIRED \<le> n"
  obtains s' where "rc_normalize inb n s = Some ((), s')" "spent p d p0 s'" "2 ^ 24 \<le> rc_range s'"
proof -
  have ok: "rc_ok s" "p0 \<le> rc_pos s" "rc_pos s \<le> p0 + LZMA_IN_REQUIRED" using assms(1) by (simp_all add: spent_def)
  let ?k = "BIT_NUM ^ p * DIRECT_NUM ^ d :: nat" and ?l = "BIT_DEN ^ p * DIRECT_DEN ^ d :: nat"
  have e: "RANGE_MIN * 256 ^ (rc_pos s - p0) * ?k \<le> rc_range s * ?l" using assms(1) unfolding spent_def by (simp only: mult.assoc)
  have a: "RANGE_TOP * ?l \<le> RANGE_MIN * 256 ^ LZMA_IN_REQUIRED * ?k" using assms(2) unfolding affordable_def by (simp only: mult.assoc)
  have l: "0 < ?l" by (simp add: factors_ok)
  have less: "rc_pos s < p0 + LZMA_IN_REQUIRED" if "rc_range s < 2 ^ 24"
  proof (rule ccontr)
    assume "\<not> ?thesis"
    then have eq: "rc_pos s - p0 = LZMA_IN_REQUIRED" using ok by simp
    have "RANGE_TOP * ?l \<le> rc_range s * ?l" using a e unfolding eq by (rule le_trans)
    then show False using that l by (simp only: mult_le_cancel2) (simp add: RANGE_TOP_def)
  qed
  from ok(1) show thesis
  proof (cases rule: rc_normalize_cases [where inb = inb and n = n])
    case stuck
    then show thesis using less assms(3) by simp
  next
    case wide
    then show thesis using that assms(1) by blast
  next
    case (narrow s')
    have "rc_pos s' - p0 = Suc (rc_pos s - p0)" using narrow ok by simp
    then have "RANGE_MIN * 256 ^ (rc_pos s' - p0) * ?k = 256 * (RANGE_MIN * 256 ^ (rc_pos s - p0) * ?k)" by simp
    also have "\<dots> \<le> 256 * (rc_range s * ?l)" using e by (rule mult_le_mono2)
    also have "\<dots> = rc_range s' * ?l" using narrow by simp
    finally have "spent p d p0 s'" using narrow ok less unfolding spent_def by (simp only: mult.assoc) simp
    then show thesis using that narrow by blast
  qed
qed

text \<open>What a bit does to the range.\<close>

lemma rc_bit_last_range:
  assumes "rc_normalize inb n s = Some ((), s1)" "rc_ok s1" "2 ^ 24 \<le> rc_range s1"
  obtains b s' where "rc_bit_last a inb n s = Some (b, s')" "rc_ok s'" "rc_pos s' = rc_pos s1" "rc_range s' < rc_range s1"
    "BIT_NUM * rc_range s1 \<le> BIT_DEN * rc_range s'"
proof -
  obtain rc m in_pos where s1: "s1 = (rc, m, in_pos)" by (cases s1)
  have ok: "probs_ok m" "2 ^ 24 \<le> unat (rd_range rc)" using assms(2,3) s1 by (simp_all add: rc_ok_def rc_range_def)
  then have p: "31 \<le> unat (m a)" "unat (m a) \<le> 2017" by (simp_all add: probs_ok_def)
  let ?b = "drop_bit 11 (rd_range rc) * ucast (m a) :: u32"
  have b: "unat ?b = unat (rd_range rc) div 2 ^ 11 * unat (m a)"
    using bound_code(1) [of "rd_range rc" "\<lparr>base = 0, width = unat (rd_range rc), digits = 1, store = m\<rparr>" a] ok by (simp add: bound_def)
  note f = bit_factors [OF ok(2) p, folded b]
  have sub: "unat (rd_range rc - ?b) = unat (rd_range rc) - unat ?b" using f(3) by (simp add: unat_sub word_le_nat_alt)
  show thesis
  proof (cases "rd_code rc < ?b")
    case True
    show thesis
      by (rule that [of False "(rc\<lparr>rd_range := ?b\<rparr>, m(a := prob_update_0 (m a)), in_pos)"])
        (use assms(1) s1 True f probs_ok_update [OF ok(1)] in \<open>simp_all add: rc_bit_last_def RC_BIT_MODEL_TOTAL_BITS_def rc_update_0_def rc_ok_def rc_pos_def rc_range_def\<close>)
  next
    case False
    show thesis
      by (rule that [of True "(rc\<lparr>rd_range := rd_range rc - ?b, rd_code := rd_code rc - ?b\<rparr>, m(a := prob_update_1 (m a)), in_pos)"])
        (use assms(1) s1 False f sub probs_ok_update [OF ok(1)] in \<open>simp_all add: rc_bit_last_def RC_BIT_MODEL_TOTAL_BITS_def rc_update_1_def rc_ok_def rc_pos_def rc_range_def Let_def\<close>)
  qed
qed

text \<open>The same for one direct bit.\<close>

lemma rc_direct_range:
  assumes "rc_normalize inb n s = Some ((), s1)" "rc_ok s1" "2 ^ 24 \<le> rc_range s1"
  obtains dest' s' where "\<And>k. rc_direct_decode (Suc k) dest inb n s = rc_direct_decode k dest' inb n s'" "rc_ok s'" "rc_pos s' = rc_pos s1"
    "rc_range s' < rc_range s1" "DIRECT_NUM * rc_range s1 \<le> DIRECT_DEN * rc_range s'"
proof -
  obtain rc m in_pos where s1: "s1 = (rc, m, in_pos)" by (cases s1)
  have ok: "probs_ok m" "2 ^ 24 \<le> unat (rd_range rc)" using assms(2,3) s1 by (simp_all add: rc_ok_def rc_range_def)
  define range where "range = drop_bit 1 (rd_range rc)"
  have h: "unat range = unat (rd_range rc) div 2" by (simp only: range_def unat_drop_bit) simp
  note f = direct_factors [OF ok(2), folded h]
  let ?bound = "0 - drop_bit 31 (rd_code rc - range)"
  show thesis
  proof (rule that)
    show "rc_direct_decode (Suc k) dest inb n s = rc_direct_decode k (push_bit 1 dest + (?bound + 1)) inb n
        (rc\<lparr>rd_range := range, rd_code := rd_code rc - range + (range AND ?bound)\<rparr>, m, in_pos)" for k
      using assms(1) s1 by (simp only: rc_direct_decode.simps range_def [symmetric] Let_def bind.bind_lunit case_prod_conv)
  qed (use f ok s1 in \<open>simp_all add: rc_ok_def rc_pos_def rc_range_def\<close>)
qed

section \<open>The macros of a symbol\<close>

lemma scale_spent:
  fixes x r r' l k num den :: nat
  assumes "x \<le> r * l" "num * r \<le> den * r'" shows "x * num \<le> r' * (den * l)"
proof -
  have "x * num \<le> r * l * num" using assms(1) by (rule mult_le_mono1)
  also have "\<dots> = num * r * l" by (simp only: mult_ac)
  also have "\<dots> \<le> den * r' * l" using assms(2) by (rule mult_le_mono1)
  finally show ?thesis by (simp only: mult_ac)
qed

lemma spent_bit:
  assumes "spent p d p0 s" "affordable p d" "p0 + LZMA_IN_REQUIRED \<le> n"
  obtains b s' where "rc_bit_last a inb n s = Some (b, s')" "spent (Suc p) d p0 s'"
proof -
  obtain s1 where s1: "rc_normalize inb n s = Some ((), s1)" "spent p d p0 s1" "2 ^ 24 \<le> rc_range s1"
    using spent_normalize [OF assms] .
  obtain b s' where b: "rc_bit_last a inb n s = Some (b, s')" "rc_ok s'" "rc_pos s' = rc_pos s1" "BIT_NUM * rc_range s1 \<le> BIT_DEN * rc_range s'"
    using rc_bit_last_range [OF s1(1) _ s1(3)] s1(2) unfolding spent_def by metis
  have "RANGE_MIN * 256 ^ (rc_pos s1 - p0) * BIT_NUM ^ p * DIRECT_NUM ^ d \<le> rc_range s1 * (BIT_DEN ^ p * DIRECT_DEN ^ d)"
    using s1(2) unfolding spent_def by (simp only: mult.assoc)
  then have "RANGE_MIN * 256 ^ (rc_pos s1 - p0) * BIT_NUM ^ p * DIRECT_NUM ^ d * BIT_NUM \<le> rc_range s' * (BIT_DEN * (BIT_DEN ^ p * DIRECT_DEN ^ d))"
    using b(4) by (rule scale_spent)
  then have "spent (Suc p) d p0 s'" using s1(2) b(2,3) unfolding spent_def by (simp only: power_Suc mult_ac)
  then show thesis using that b(1) by blast
qed

lemma spent_more:
  assumes "spent p d p0 s" "p \<le> p'" shows "spent p' d p0 s"
  using assms(2,1)
proof (induction p' rule: dec_induct)
  case (step p')
  then have "RANGE_MIN * 256 ^ (rc_pos s - p0) * BIT_NUM ^ p' * DIRECT_NUM ^ d \<le> rc_range s * (BIT_DEN ^ p' * DIRECT_DEN ^ d)"
    unfolding spent_def by (simp only: mult.assoc)
  then have "RANGE_MIN * 256 ^ (rc_pos s - p0) * BIT_NUM ^ p' * DIRECT_NUM ^ d * BIT_NUM \<le> rc_range s * (BIT_DEN * (BIT_DEN ^ p' * DIRECT_DEN ^ d))"
    by (rule scale_spent) (simp only: factors_ok mult_le_mono1)
  then show ?case using step unfolding spent_def by (simp only: power_Suc mult_ac)
qed simp

lemma spent_direct1:
  assumes "spent p d p0 s" "affordable p d" "p0 + LZMA_IN_REQUIRED \<le> n"
  obtains dest' s' where "\<And>k. rc_direct_decode (Suc k) dest inb n s = rc_direct_decode k dest' inb n s'" "spent p (Suc d) p0 s'"
proof -
  obtain s1 where s1: "rc_normalize inb n s = Some ((), s1)" "spent p d p0 s1" "2 ^ 24 \<le> rc_range s1"
    using spent_normalize [OF assms] .
  obtain dest' s' where b: "\<And>k. rc_direct_decode (Suc k) dest inb n s = rc_direct_decode k dest' inb n s'" "rc_ok s'" "rc_pos s' = rc_pos s1"
      "DIRECT_NUM * rc_range s1 \<le> DIRECT_DEN * rc_range s'"
    using rc_direct_range [OF s1(1) _ s1(3)] s1(2) unfolding spent_def by metis
  have "RANGE_MIN * 256 ^ (rc_pos s1 - p0) * BIT_NUM ^ p * DIRECT_NUM ^ d \<le> rc_range s1 * (BIT_DEN ^ p * DIRECT_DEN ^ d)"
    using s1(2) unfolding spent_def by (simp only: mult.assoc)
  then have "RANGE_MIN * 256 ^ (rc_pos s1 - p0) * BIT_NUM ^ p * DIRECT_NUM ^ d * DIRECT_NUM \<le> rc_range s' * (DIRECT_DEN * (BIT_DEN ^ p * DIRECT_DEN ^ d))"
    using b(4) by (rule scale_spent)
  then have "spent p (Suc d) p0 s'" using s1(2) b(2,3) unfolding spent_def by (simp only: power_Suc mult_ac)
  then show thesis using that b(1) by blast
qed

lemma spent_direct:
  assumes "spent p d p0 s" "affordable p (d + k)" "p0 + LZMA_IN_REQUIRED \<le> n"
  shows "\<exists>dest' s'. rc_direct_decode k dest inb n s = Some (dest', s') \<and> spent p (d + k) p0 s'"
  using assms
proof (induction k arbitrary: d dest s)
  case (Suc k)
  have a: "affordable p d" using affordable_le [OF Suc.prems(2)] by simp
  obtain dest1 s1 where 1: "\<And>k. rc_direct_decode (Suc k) dest inb n s = rc_direct_decode k dest1 inb n s1" "spent p (Suc d) p0 s1"
    using spent_direct1 [OF Suc.prems(1) a Suc.prems(3), where dest = dest and inb = inb] by blast
  then show ?case using Suc.IH [OF 1(2), of dest1] Suc.prems(2,3) unfolding 1(1) by simp
qed simp

lemma spent_bittree:
  assumes "spent p d p0 s" "affordable (p + k) d" "p0 + LZMA_IN_REQUIRED \<le> n"
  shows "\<exists>symbol' s'. rc_bittree_bits probs (Suc k) symbol inb n s = Some (symbol', s') \<and> spent (p + Suc k) d p0 s'"
  using assms
proof (induction k arbitrary: p symbol s)
  case 0
  then obtain b s' where "rc_bit_last (probs + unat symbol) inb n s = Some (b, s')" "spent (Suc p) d p0 s'"
    using spent_bit by (metis add.right_neutral)
  then show ?case by (simp add: rc_bit_decode_with)
next
  case (Suc k)
  have "affordable p d" using affordable_le [OF Suc.prems(2)] by simp
  then obtain b s1 where b: "rc_bit_last (probs + unat symbol) inb n s = Some (b, s1)" "spent (Suc p) d p0 s1"
    using spent_bit Suc.prems by metis
  then show ?case using Suc.IH [OF b(2), of "with_bit b symbol"] Suc.prems(2,3)
    unfolding rc_bittree_bits.simps(2) [of _ "Suc k"] by (simp add: rc_bit_decode_with del: rc_bittree_bits.simps)
qed

lemma spent_matched:
  assumes "spent p d p0 s" "affordable (p + k) d" "p0 + LZMA_IN_REQUIRED \<le> n"
  shows "\<exists>symbol' s'. rc_matched_bits probs (Suc k) mb offset symbol inb n s = Some (symbol', s') \<and> spent (p + Suc k) d p0 s'"
  using assms
proof (induction k arbitrary: p mb offset symbol s)
  case 0
  let ?a = "probs + unat (offset + (push_bit 1 mb AND offset) + symbol)"
  obtain b s' where "rc_bit_last ?a inb n s = Some (b, s')" "spent (Suc p) d p0 s'" using spent_bit [OF 0(1) 0(2) [simplified] 0(3)] .
  then show ?case by (simp add: Let_def)
next
  case (Suc k)
  let ?a = "probs + unat (offset + (push_bit 1 mb AND offset) + symbol)"
  have "affordable p d" using affordable_le [OF Suc.prems(2)] by simp
  then obtain b s1 where b: "rc_bit_last ?a inb n s = Some (b, s1)" "spent (Suc p) d p0 s1"
    using spent_bit [OF Suc.prems(1) _ Suc.prems(3)] by metis
  show ?case using Suc.IH [OF b(2)] Suc.prems(2,3) b(1)
    unfolding rc_matched_bits.simps(2) [of _ "Suc k"] by (simp add: Let_def del: rc_matched_bits.simps)
qed

lemma spent_reverse:
  assumes "spent p d p0 s" "affordable (p + k) d" "p0 + LZMA_IN_REQUIRED \<le> n"
  shows "\<exists>dest' s'. rc_reverse_bits probs (Suc k) symbol offset dest inb n s = Some (dest', s') \<and> spent (p + Suc k) d p0 s'"
  using assms
proof (induction k arbitrary: p symbol offset dest s)
  case 0
  obtain b s' where "rc_bit_last (probs + unat symbol) inb n s = Some (b, s')" "spent (Suc p) d p0 s'" using spent_bit [OF 0(1) 0(2) [simplified] 0(3)] .
  then show ?case by (cases b) (simp_all add: rc_bit_add_if_1_def)
next
  case (Suc k)
  have "affordable p d" using affordable_le [OF Suc.prems(2)] by simp
  then obtain b s1 where b: "rc_bit_last (probs + unat symbol) inb n s = Some (b, s1)" "spent (Suc p) d p0 s1"
    using spent_bit [OF Suc.prems(1) _ Suc.prems(3)] by metis
  show ?case using Suc.IH [OF b(2)] Suc.prems(2,3) b(1)
    unfolding rc_reverse_bits.simps(2) [of _ "Suc k"] by (cases b) (simp_all add: rc_bit_add_if_1_def del: rc_reverse_bits.simps)
qed

lemma spent_rev_bit:
  assumes "spent p d p0 s" "affordable p d" "p0 + LZMA_IN_REQUIRED \<le> n"
  obtains symbol' s' where "rc_rev_bit probs w symbol inb n s = Some (symbol', s')" "spent (Suc p) d p0 s'"
proof -
  obtain b s' where "rc_bit_last (probs + unat (symbol + w)) inb n s = Some (b, s')" "spent (Suc p) d p0 s'" using spent_bit [OF assms] .
  then show thesis using that by (simp add: rc_rev_bit_def)
qed

lemma spent_rev4:
  assumes "spent p d p0 s" "affordable (p + 3) d" "p0 + LZMA_IN_REQUIRED \<le> n"
  shows "\<exists>symbol' s'. rc_bittree_rev4 probs inb n s = Some (symbol', s') \<and> spent (p + 4) d p0 s'"
proof -
  have a: "affordable p d" "affordable (Suc p) d" "affordable (Suc (Suc p)) d" "affordable (Suc (Suc (Suc p))) d"
    using affordable_le [OF assms(2)] by simp_all
  obtain x1 s1 where 1: "rc_rev_bit probs 1 0 inb n s = Some (x1, s1)" "spent (Suc p) d p0 s1" using spent_rev_bit [OF assms(1) a(1) assms(3)] .
  obtain x2 s2 where 2: "rc_rev_bit probs 2 x1 inb n s1 = Some (x2, s2)" "spent (Suc (Suc p)) d p0 s2" using spent_rev_bit [OF 1(2) a(2) assms(3)] .
  obtain x3 s3 where 3: "rc_rev_bit probs 4 x2 inb n s2 = Some (x3, s3)" "spent (Suc (Suc (Suc p))) d p0 s3" using spent_rev_bit [OF 2(2) a(3) assms(3)] .
  obtain x4 s4 where 4: "rc_rev_bit probs 8 x3 inb n s3 = Some (x4, s4)" "spent (Suc (Suc (Suc (Suc p)))) d p0 s4" using spent_rev_bit [OF 3(2) a(4) assms(3)] .
  show ?thesis using 1 2 3 4 by (simp add: rc_bittree_rev4_def numeral_eq_Suc)
qed

section \<open>Lengths and distances\<close>

lemma bittree_symbol:
  assumes "rc_bittree_bits probs k symbol inb n s = Some (symbol', s')" "2 ^ j \<le> unat symbol" "unat symbol < 2 ^ (j + 1)" "j + k \<le> 30"
  shows "2 ^ (j + k) \<le> unat symbol' \<and> unat symbol' < 2 ^ (j + k + 1)"
  using assms
proof (induction k arbitrary: symbol s j)
  case (Suc k)
  then obtain b s1 where b: "rc_bittree_bits probs k (with_bit b symbol) inb n s1 = Some (symbol', s')"
    by (auto simp: rc_bit_decode_with bind_eq_Some_conv)
  have "(2 :: nat) ^ (j + 1) \<le> 2 ^ 31" using Suc.prems(4) by (intro power_increasing) simp_all
  then have "unat symbol < 2 ^ 31" using Suc.prems(3) by linarith
  then have "unat (with_bit b symbol) = 2 * unat symbol + of_bool b" by (rule unat_with_bit)
  then have "2 ^ (j + 1) \<le> unat (with_bit b symbol)" "unat (with_bit b symbol) < 2 ^ (j + 1 + 1)" using Suc.prems(2,3) by auto
  from Suc.IH [OF b this] Suc.prems(4) show ?case by simp
qed simp

lemma bittree_symbol1:
  assumes "rc_bittree_bits probs k 1 inb n s = Some (symbol', s')" "k \<le> 30"
  shows "2 ^ k \<le> unat symbol'" "unat symbol' < 2 ^ (k + 1)"
  using bittree_symbol [OF assms(1), of 0] assms(2) by simp_all

lemma len_decode_bound:
  assumes "len_decode_fast ld ps inb n s = Some (len, s')" shows "unat len \<le> 273"
proof -
  have three: "unat (z + (2 - 8) :: u32) \<le> 9" "unat (z + (2 + 8 - 8) :: u32) \<le> 17" if "8 \<le> unat z" "unat z < 16" for z :: u32
  proof -
    have "unat (z - 8) = unat z - 8" using that by (simp add: unat_sub word_le_nat_alt)
    moreover have "z + (2 - 8) = (z - 8) + 2" "z + (2 + 8 - 8) = (z - 8) + 10" by simp_all
    ultimately show "unat (z + (2 - 8) :: u32) \<le> 9" "unat (z + (2 + 8 - 8) :: u32) \<le> 17"
      using that by (simp_all only: unat_word_ariths) simp_all
  qed
  have eight: "unat (z + (2 + 8 + 8 - 256) :: u32) \<le> 273" if "256 \<le> unat z" "unat z < 512" for z :: u32
  proof -
    have "unat (z - 256) = unat z - 256" using that by (simp add: unat_sub word_le_nat_alt)
    moreover have "z + (2 + 8 + 8 - 256) = (z - 256) + 18" by simp
    ultimately show ?thesis using that by (simp_all only: unat_word_ariths) simp_all
  qed
  consider z t p where "rc_bittree_bits p 3 1 inb n t = Some (z, s')" "len = z + (2 - 8) \<or> len = z + (2 + 8 - 8)"
    | z t p where "rc_bittree_bits p 8 1 inb n t = Some (z, s')" "len = z + (2 + 8 + 8 - 256)"
    using assms
    by (auto simp: len_decode_fast_def bind_eq_Some_conv rc_bittree3_def rc_bittree8_def MATCH_LEN_MIN_def LEN_LOW_SYMBOLS_def LEN_MID_SYMBOLS_def LEN_HIGH_SYMBOLS_def
        split: if_splits)
  then show ?thesis
  proof cases
    case 1
    then show ?thesis using three [of z] bittree_symbol1 [OF 1(1)] by auto
  next
    case 2
    then show ?thesis using eight [of z] bittree_symbol1 [OF 2(1)] by auto
  qed
qed

lemma spent_tree:
  assumes "spent p d p0 s" "affordable (p + k) d" "p0 + LZMA_IN_REQUIRED \<le> n" "j = Suc k" "p + j \<le> q"
  shows "\<exists>symbol' s'. rc_bittree_bits probs j symbol inb n s = Some (symbol', s') \<and> spent q d p0 s'"
  using spent_bittree [OF assms(1-3), of probs symbol inb] spent_more [OF _ assms(5)] assms(4) by metis

lemma spent_len:
  assumes "spent p d p0 s" "affordable (p + 9) d" "p0 + LZMA_IN_REQUIRED \<le> n"
  shows "\<exists>len s'. len_decode_fast ld ps inb n s = Some (len, s') \<and> spent (p + 10) d p0 s'"
proof -
  note a = affordable_le [OF assms(2)]
  have a0: "affordable p d" "affordable (Suc p) d" "affordable (Suc p + 2) d" "affordable (Suc (Suc p) + 2) d" "affordable (Suc (Suc p) + 7) d" by (rule a; simp)+
  obtain choice s1 where 1: "rc_bit_last (len_choice ld) inb n s = Some (choice, s1)" "spent (Suc p) d p0 s1"
    using spent_bit [OF assms(1) a0(1) assms(3)] .
  obtain choice2 s2 where 2: "rc_bit_last (len_choice2 ld) inb n s1 = Some (choice2, s2)" "spent (Suc (Suc p)) d p0 s2"
    using spent_bit [OF 1(2) a0(2) assms(3)] .
  obtain x t where x: "rc_bittree_bits (len_low ld ps) 3 1 inb n s1 = Some (x, t)" "spent (p + 10) d p0 t"
    using spent_tree [OF 1(2) a0(3) assms(3), of 3 "p + 10"] by (simp del: rc_bittree_bits.simps) blast
  obtain y u where y: "rc_bittree_bits (len_mid ld ps) 3 1 inb n s2 = Some (y, u)" "spent (p + 10) d p0 u"
    using spent_tree [OF 2(2) a0(4) assms(3), of 3 "p + 10"] by (simp del: rc_bittree_bits.simps) blast
  obtain z w where z: "rc_bittree_bits (len_high ld) 8 1 inb n s2 = Some (z, w)" "spent (p + 10) d p0 w"
    using spent_tree [OF 2(2) a0(5) assms(3), of 8 "p + 10"] by (simp del: rc_bittree_bits.simps) blast
  show ?thesis using 1(1) 2(1) x y z by (simp add: len_decode_fast_def rc_bittree3_def rc_bittree8_def del: split_paired_Ex)
qed

lemma slot_bits:
  fixes y :: u32
  assumes "unat y < 64"
  shows "4 \<le> unat y \<Longrightarrow> unat y < 14 \<Longrightarrow> \<exists>k\<le>4. unat (drop_bit 1 y - 1) = Suc k" and "14 \<le> unat y \<Longrightarrow> unat (drop_bit 1 y - 1 - 4) \<le> 26"
proof -
  have d: "unat (drop_bit 1 y) = unat y div 2" by (simp only: unat_drop_bit) simp
  have 1: "unat (drop_bit 1 y - 1) = unat y div 2 - 1" if "4 \<le> unat y" using that d by (simp add: unat_sub word_le_nat_alt)
  show "\<exists>k\<le>4. unat (drop_bit 1 y - 1) = Suc k" if "4 \<le> unat y" "unat y < 14"
    using 1 that by (intro exI [of _ "unat y div 2 - 2"]) auto
  show "unat (drop_bit 1 y - 1 - 4) \<le> 26" if "14 \<le> unat y"
    using that 1 assms by (subst unat_sub) (simp_all add: word_le_nat_alt)
qed

lemma spent_dist:
  assumes "spent p 0 p0 s" "p \<le> 12" "p0 + LZMA_IN_REQUIRED \<le> n"
  shows "\<exists>x s'. dist_decode_fast len inb n s = Some (x, s') \<and> rc_pos s' \<le> p0 + LZMA_IN_REQUIRED"
proof -
  have s12: "spent 12 0 p0 s" using spent_more [OF assms(1,2)] .
  have a: "affordable (12 + 5) 0" by (rule affordable_le [OF affordable_22_0]) simp_all
  obtain z s1 where z: "rc_bittree_bits (a_dist_slot (unat (get_dist_state len))) 6 1 inb n s = Some (z, s1)" "spent 18 0 p0 s1"
    using spent_tree [OF s12 a assms(3), of 6 18] by (simp del: rc_bittree_bits.simps) blast
  define y where "y = z - 64"
  have uz: "64 \<le> unat z" "unat z < 128" using bittree_symbol1 [OF z(1)] by simp_all
  then have y64: "unat y < 64" unfolding y_def by (simp add: unat_sub word_le_nat_alt)
  have y: "z + - DIST_SLOTS = y" by (simp add: y_def DIST_SLOTS_def)
  note f = dist_decode_fast_def rc_bittree6_def bind.bind_lunit case_prod_conv y z(1) Let_def DIST_MODEL_START_def DIST_MODEL_END_def ALIGN_BITS_def of_nat_numeral
  consider "unat y < 4" | "4 \<le> unat y" "unat y < 14" | "14 \<le> unat y" by linarith
  then show ?thesis
  proof cases
    case 1
    then have "dist_decode_fast len inb n s = Some ((False, y), s1)" by (simp only: f) (simp add: word_less_nat_alt)
    then show ?thesis using z(2) by (simp add: spent_def del: split_paired_Ex)
  next
    case 2
    obtain k where k: "k \<le> 4" "unat (drop_bit 1 y - 1) = Suc k" using slot_bits(1) [OF y64 2] by blast
    have c: "(y < 4) = False" "(y < 14) = True" using 2 by (simp_all add: word_less_nat_alt)
    have "affordable (18 + k) 0" by (rule affordable_le [OF affordable_22_0]) (use k in simp_all)
    from spent_reverse [OF z(2) this assms(3)] obtain x s' where
      "rc_reverse_bits (a_dist_special + unat (push_bit (Suc k) (2 + (y AND 1))) - unat y - 1) (Suc k) 1 1 (push_bit (Suc k) (2 + (y AND 1))) inb n s1 = Some (x, s')"
      "spent (18 + Suc k) 0 p0 s'" by blast
    then show ?thesis by (simp only: f c if_True if_False k(2)) (simp add: spent_def del: split_paired_Ex)
  next
    case 3
    have c: "(y < 4) = False" "(y < 14) = False" using 3 by (simp_all add: word_less_nat_alt)
    have "affordable 18 (0 + unat (drop_bit 1 y - 1 - 4))"
      by (rule affordable_le [OF affordable_21_26]) (use slot_bits(2) [OF y64 3] in simp_all)
    from spent_direct [OF z(2) this assms(3)] obtain x s2 where
      x: "rc_direct_decode (unat (drop_bit 1 y - 1 - 4)) (2 + (y AND 1)) inb n s1 = Some (x, s2)" "spent 18 (0 + unat (drop_bit 1 y - 1 - 4)) p0 s2" by blast
    have "affordable (18 + 3) (0 + unat (drop_bit 1 y - 1 - 4))"
      by (rule affordable_le [OF affordable_21_26]) (use slot_bits(2) [OF y64 3] in simp_all)
    from spent_rev4 [OF x(2) this assms(3)] obtain w s3 where
      "rc_bittree_rev4 a_dist_align inb n s2 = Some (w, s3)" "spent (18 + 4) (0 + unat (drop_bit 1 y - 1 - 4)) p0 s3" by blast
    then show ?thesis using x(1) by (simp only: f c if_False) (simp add: spent_def del: split_paired_Ex)
  qed
qed

end
