(* ===== verification/Lzma_Decoder_Safe.thy ===== *)
theory Lzma_Decoder_Safe
  imports Lzma_Decoder_Input
begin

text \<open>
  The LZMA decoder on input of any kind. From a decoder and a dictionary in order, a call comes to an
  end, stays within its buffers, and leaves both in order for the next call; it stops only where
  the input or the room is used up, at the end of the data, or with an error.
\<close>

section \<open>Decoders in order\<close>

text \<open>A distance that was used before, or none yet.\<close>

definition near :: "lzma_dict \<Rightarrow> u32 \<Rightarrow> bool" where
  "near dict rep \<longleftrightarrow> rep = 0 \<or> unat rep < dict_full dict"

definition eopm_allowed :: "lzma_vars \<Rightarrow> bool" where
  "eopm_allowed v \<longleftrightarrow> d_uncompressed_size v = LZMA_VLI_UNKNOWN \<or> d_allow_eopm v"

definition len_ok :: "lzma_vars \<Rightarrow> bool" where
  "len_ok v \<longleftrightarrow> d_symbol v < d_limit v \<and> unat (d_limit v) \<le> 256 \<and> unat (d_len v) \<le> 18"

text \<open>What a label needs of the variables.\<close>

definition seq_ok :: "lzma_vars \<Rightarrow> bool" where
  "seq_ok v \<longleftrightarrow>
     (let literal = near (v_dict v) (d_rep0 v) \<and> (is_literal_state (d_state v) \<or> unat (d_rep0 v) < dict_full (v_dict v));
          dist = (unat (d_len v) \<le> 273);
          rep = (unat (d_rep0 v) < dict_full (v_dict v))
      in case d_sequence v of
        SEQ_NORMALIZE \<Rightarrow> literal | SEQ_IS_MATCH \<Rightarrow> literal
      | SEQ_LITERAL \<Rightarrow> literal | SEQ_LITERAL_MATCHED \<Rightarrow> literal | SEQ_LITERAL_WRITE \<Rightarrow> literal
      | SEQ_IS_REP \<Rightarrow> near (v_dict v) (d_rep0 v)
      | SEQ_MATCH_LEN_CHOICE \<Rightarrow> True | SEQ_MATCH_LEN_CHOICE2 \<Rightarrow> True | SEQ_MATCH_LEN_BITTREE \<Rightarrow> len_ok v
      | SEQ_DIST_SLOT \<Rightarrow> dist | SEQ_DIST_MODEL \<Rightarrow> dist | SEQ_DIRECT \<Rightarrow> dist | SEQ_ALIGN \<Rightarrow> dist
      | SEQ_EOPM \<Rightarrow> eopm_allowed v
      | SEQ_IS_REP0 \<Rightarrow> rep | SEQ_SHORTREP \<Rightarrow> rep | SEQ_IS_REP0_LONG \<Rightarrow> rep | SEQ_IS_REP1 \<Rightarrow> rep | SEQ_IS_REP2 \<Rightarrow> rep
      | SEQ_REP_LEN_CHOICE \<Rightarrow> rep | SEQ_REP_LEN_CHOICE2 \<Rightarrow> rep | SEQ_REP_LEN_BITTREE \<Rightarrow> rep \<and> len_ok v
      | SEQ_COPY \<Rightarrow> rep \<and> dist)"

definition vars_ok :: "nat \<Rightarrow> byte list \<Rightarrow> lzma_vars \<Rightarrow> bool" where
  "vars_ok in_size H v \<longleftrightarrow> dict_ok (v_dict v) H \<and> rc_ok (rc_of v) \<and> rc_pos (rc_of v) \<le> in_size
     \<and> near (v_dict v) (d_rep1 v) \<and> near (v_dict v) (d_rep2 v) \<and> near (v_dict v) (d_rep3 v)
     \<and> (v_eopm_is_valid v \<longrightarrow> eopm_allowed v) \<and> seq_ok v"

text \<open>Every step uses input, narrows the range, or completes a symbol.\<close>

definition writing :: "sequence \<Rightarrow> nat" where
  "writing seq = (if seq \<in> {SEQ_LITERAL_WRITE, SEQ_SHORTREP, SEQ_COPY} then 1 else 0)"

definition left_over :: "nat \<Rightarrow> lzma_vars \<Rightarrow> nat \<times> nat \<times> nat" where
  "left_over in_size v = (in_size - rc_pos (rc_of v), rc_range (rc_of v), writing (d_sequence v))"

definition less_left :: "((nat \<times> nat \<times> nat) \<times> (nat \<times> nat \<times> nat)) set" where
  "less_left = less_than <*lex*> less_than <*lex*> less_than"

lemma wf_less_left: "wf less_left"
  by (auto simp: less_left_def)

text \<open>The outcome of a step from \<open>v\<close>, where \<open>H\<close> is the output so far.\<close>

definition same_setup :: "byte list \<Rightarrow> lzma_vars \<Rightarrow> lzma_vars \<Rightarrow> bool" where
  "same_setup K w v \<longleftrightarrow> dict_pos (v_dict w) = dict_pos (v_dict v) + length K \<and> dict_limit (v_dict w) = dict_limit (v_dict v)
     \<and> dict_size (v_dict w) = dict_size (v_dict v) \<and> d_uncompressed_size w = d_uncompressed_size v \<and> d_allow_eopm w = d_allow_eopm v \<and> rc_pos (rc_of v) \<le> rc_pos (rc_of w)"

definition stop_ok :: "nat \<Rightarrow> byte list \<Rightarrow> lzma_ret \<Rightarrow> lzma_vars \<Rightarrow> bool" where
  "stop_ok in_size H ret w \<longleftrightarrow> dict_ok (v_dict w) H \<and> rc_pos (rc_of w) \<le> in_size \<and> ret \<in> {LZMA_OK, LZMA_STREAM_END, LZMA_DATA_ERROR}
     \<and> (ret = LZMA_OK \<longrightarrow> vars_ok in_size H w \<and> (rc_pos (rc_of w) = in_size
          \<or> dict_pos (v_dict w) = dict_limit (v_dict w) \<and> d_sequence w \<in> {SEQ_LITERAL_WRITE, SEQ_SHORTREP, SEQ_COPY}))
     \<and> (ret = LZMA_STREAM_END \<longrightarrow> rc_is_finished (d_rc w) \<and> d_sequence w = SEQ_IS_MATCH \<and> (vars_ok in_size H w \<or> eopm_allowed w))"

definition good :: "nat \<Rightarrow> byte list \<Rightarrow> lzma_vars \<Rightarrow> outcome option \<Rightarrow> bool" where
  "good in_size H v ro \<longleftrightarrow> (\<exists>K. case ro of
     None \<Rightarrow> False
   | Some (Go w) \<Rightarrow> vars_ok in_size (H @ K) w \<and> (left_over in_size w, left_over in_size v) \<in> less_left \<and> same_setup K w v
   | Some (Loop w) \<Rightarrow> vars_ok in_size (H @ K) w \<and> (left_over in_size w, left_over in_size v) \<in> less_left \<and> same_setup K w v
   | Some (Stop ret w) \<Rightarrow> stop_ok in_size (H @ K) ret w \<and> same_setup K w v)"

section \<open>Bits\<close>

definition advance :: "nat \<Rightarrow> rc_state \<Rightarrow> rc_state \<Rightarrow> bool" where
  "advance in_size s s' \<longleftrightarrow> rc_ok s' \<and> rc_pos s' \<le> in_size \<and> rc_pos s \<le> rc_pos s' \<and> (rc_pos s < rc_pos s' \<or> rc_range s' < rc_range s)"

lemma normalize_advances:
  assumes "rc_ok s" "rc_pos s \<le> n"
  obtains (stuck) "rc_normalize inb n s = None" "rc_pos s = n"
  | (ready) s' where "rc_normalize inb n s = Some ((), s')" "rc_ok s'" "2 ^ 24 \<le> rc_range s'" "rc_pos s \<le> rc_pos s'" "rc_pos s' \<le> n"
      "rc_pos s < rc_pos s' \<or> s' = s"
  using assms(1)
proof (cases rule: rc_normalize_cases [where inb = inb and n = n])
  case stuck
  then show thesis using that by blast
next
  case wide
  then show thesis using that assms by blast
next
  case (narrow s')
  then show thesis using that assms by auto
qed

lemma safe_bit:
  assumes "rc_ok (rc_of v)" "rc_pos (rc_of v) \<le> n"
    and "rc_pos (rc_of v) = n \<Longrightarrow> P (Some (Stop LZMA_OK v))" "\<And>b s. rc_ok s \<Longrightarrow> rc_pos s \<le> n \<Longrightarrow> advance n (rc_of v) s \<Longrightarrow> P (k b (put_rc s v))"
  shows "P (safe (rc_bit_last a) inb n v k)"
  using assms(1,2)
proof (cases rule: normalize_advances [where inb = inb])
  case stuck
  then show ?thesis using assms(3) by (simp add: safe_unfold rc_bit_last_def)
next
  case (ready s1)
  from ready(1-3) obtain b s' where "rc_bit_last a inb n (rc_of v) = Some (b, s')" "rc_ok s'" "rc_pos s' = rc_pos s1" "rc_range s' < rc_range s1"
    by (rule rc_bit_last_range)
  then show ?thesis using assms(4) [of s' b] ready by (auto simp: safe_unfold advance_def)
qed

lemma safe_direct:
  assumes "rc_ok (rc_of v)" "rc_pos (rc_of v) \<le> n"
    and "rc_pos (rc_of v) = n \<Longrightarrow> P (Some (Stop LZMA_OK v))" "\<And>b s. rc_ok s \<Longrightarrow> rc_pos s \<le> n \<Longrightarrow> advance n (rc_of v) s \<Longrightarrow> P (k b (put_rc s v))"
  shows "P (safe (rc_direct_decode 1 x) inb n v k)"
  using assms(1,2)
proof (cases rule: normalize_advances [where inb = inb])
  case stuck
  then show ?thesis using assms(3) by (simp add: safe_unfold)
next
  case (ready s1)
  obtain d s' where d: "\<And>k. rc_direct_decode (Suc k) x inb n (rc_of v) = rc_direct_decode k d inb n s'"
      "rc_ok s'" "rc_pos s' = rc_pos s1" "rc_range s' < rc_range s1"
    using rc_direct_range [OF ready(1-3), where dest = x] by blast
  then show ?thesis using assms(4) [of s' d] ready d(1) [of 0] by (auto simp: safe_unfold advance_def)
qed

lemma safe_normalize:
  assumes "rc_ok (rc_of v)" "rc_pos (rc_of v) \<le> n"
    and "rc_pos (rc_of v) = n \<Longrightarrow> P (Some (Stop LZMA_OK v))"
      "\<And>s. rc_ok s \<Longrightarrow> rc_pos (rc_of v) \<le> rc_pos s \<Longrightarrow> rc_pos s \<le> n \<Longrightarrow> rc_pos (rc_of v) < rc_pos s \<or> s = rc_of v \<Longrightarrow> P (k () (put_rc s v))"
  shows "P (safe rc_normalize inb n v k)"
  using assms(1,2)
proof (cases rule: normalize_advances [where inb = inb])
  case stuck
  then show ?thesis using assms(3) by (simp add: safe_unfold)
next
  case (ready s1)
  then show ?thesis using assms(4) [of s1] by (simp add: safe_unfold)
qed

section \<open>Steps\<close>

lemma good_stuck: "vars_ok n H v \<Longrightarrow> rc_pos (rc_of v) = n \<Longrightarrow> good n H v (Some (Stop LZMA_OK v))"
  by (simp add: good_def stop_ok_def same_setup_def vars_ok_def)

lemma good_stuck_at: "vars_ok n H w \<Longrightarrow> rc_pos (rc_of w) = n \<Longrightarrow> same_setup [] w v \<Longrightarrow> good n H v (Some (Stop LZMA_OK w))"
  by (simp add: good_def stop_ok_def vars_ok_def) (intro exI [of _ "[]"], simp)

lemma good_go:
  assumes "vars_ok n H (u\<lparr>d_sequence := q\<rparr>)" "advance n (rc_of v) (rc_of u)"
    "d_uncompressed_size u = d_uncompressed_size v" "d_allow_eopm u = d_allow_eopm v" "v_dict u = v_dict v"
  shows "good n H v (go q u)"
  using assms by (auto simp: good_def go_def same_setup_def advance_def left_over_def less_left_def intro!: exI [of _ "[]"])

lemma good_stop_error:
  assumes "dict_ok (v_dict u) H" "rc_pos (rc_of v) \<le> rc_pos (rc_of u)" "rc_pos (rc_of u) \<le> n"
    "d_uncompressed_size u = d_uncompressed_size v" "d_allow_eopm u = d_allow_eopm v" "v_dict u = v_dict v"
  shows "good n H v (Some (corrupt u))"
  using assms by (auto simp: good_def corrupt_def stop_ok_def settle_def forget_def same_setup_def intro!: exI [of _ "[]"])

lemma good_corrupt:
  assumes "dict_ok (v_dict u) H" "advance n (rc_of v) (rc_of u)"
    "d_uncompressed_size u = d_uncompressed_size v" "d_allow_eopm u = d_allow_eopm v" "v_dict u = v_dict v"
  shows "good n H v (Some (corrupt u))"
  using assms by (intro good_stop_error) (simp_all add: advance_def)

lemma eopm_allowed_updates [simp]:
  "eopm_allowed (put_rc s v) = eopm_allowed v"
  "eopm_allowed (v\<lparr>d_symbol := x\<rparr>) = eopm_allowed v" "eopm_allowed (v\<lparr>d_sequence := q\<rparr>) = eopm_allowed v" "eopm_allowed (v\<lparr>d_len := x\<rparr>) = eopm_allowed v"
  "eopm_allowed (v\<lparr>d_offset := x\<rparr>) = eopm_allowed v" "eopm_allowed (v\<lparr>d_limit := x\<rparr>) = eopm_allowed v" "eopm_allowed (v\<lparr>d_probs := a\<rparr>) = eopm_allowed v"
  "eopm_allowed (v\<lparr>d_state := t\<rparr>) = eopm_allowed v" "eopm_allowed (v\<lparr>d_rep0 := x\<rparr>) = eopm_allowed v" "eopm_allowed (v\<lparr>d_rep1 := x\<rparr>) = eopm_allowed v"
  "eopm_allowed (v\<lparr>d_rep2 := x\<rparr>) = eopm_allowed v" "eopm_allowed (v\<lparr>d_rep3 := x\<rparr>) = eopm_allowed v" "eopm_allowed (v\<lparr>v_dict := d\<rparr>) = eopm_allowed v"
  "eopm_allowed (v\<lparr>v_eopm_is_valid := e\<rparr>) = eopm_allowed v" "eopm_allowed (forget v) = eopm_allowed v"
  by (simp_all add: eopm_allowed_def forget_def)

lemmas ok_defs = vars_ok_def seq_ok_def Let_def

lemma rc_of_other [simp]: "rc_of (v\<lparr>v_dict := d\<rparr>) = rc_of v" "rc_of (v\<lparr>v_eopm_is_valid := e\<rparr>) = rc_of v"
  by (simp_all add: rc_of_def)

lemma slow_literal_good:
  assumes "vars_ok n H v" "d_sequence v = SEQ_LITERAL" shows "good n H v (slow_literal inb n v)"
  unfolding slow_literal_def by (rule safe_bit [where P = "good n H v"]) (use assms in \<open>auto simp: ok_defs intro!: good_go good_stuck\<close>)

lemma slow_literal_matched_good:
  assumes "vars_ok n H v" "d_sequence v = SEQ_LITERAL_MATCHED" shows "good n H v (slow_literal_matched inb n v)"
  unfolding slow_literal_matched_def Let_def by (rule safe_bit [where P = "good n H v"]) (use assms in \<open>auto simp: ok_defs intro!: good_go good_stuck\<close>)

lemma near_full: "near d r \<Longrightarrow> unat x < dict_full d \<Longrightarrow> unat r < dict_full d"
  and near_pos: "near d r \<Longrightarrow> 0 < dict_full d \<Longrightarrow> unat r < dict_full d"
  and near_less: "unat r < dict_full d \<Longrightarrow> near d r"
  by (auto simp: near_def)

lemma slow_is_rep_good:
  assumes "vars_ok n H v" "d_sequence v = SEQ_IS_REP" shows "good n H v (slow_is_rep inb n v)"
  unfolding slow_is_rep_def dict_is_distance_valid_def
  by (rule safe_bit [where P = "good n H v"]) (use assms in \<open>auto simp: ok_defs near_pos intro!: good_go good_stuck good_corrupt\<close>)

lemma slow_choice_good:
  assumes "vars_ok n H v" "d_sequence v = C"
    and "(C, C2, BT) = (SEQ_MATCH_LEN_CHOICE, SEQ_MATCH_LEN_CHOICE2, SEQ_MATCH_LEN_BITTREE) \<or> (C, C2, BT) = (SEQ_REP_LEN_CHOICE, SEQ_REP_LEN_CHOICE2, SEQ_REP_LEN_BITTREE)"
  shows "good n H v (slow_choice ld C2 BT inb n v)"
  unfolding slow_choice_def
  by (rule safe_bit [where P = "good n H v"])
    (use assms in \<open>auto simp: ok_defs len_ok_def LEN_LOW_SYMBOLS_def MATCH_LEN_MIN_def intro!: good_go good_stuck\<close>)

lemma slow_choice2_good:
  assumes "vars_ok n H v" "d_sequence v = C2" "(C2, BT) = (SEQ_MATCH_LEN_CHOICE2, SEQ_MATCH_LEN_BITTREE) \<or> (C2, BT) = (SEQ_REP_LEN_CHOICE2, SEQ_REP_LEN_BITTREE)"
  shows "good n H v (slow_choice2 ld BT inb n v)"
  unfolding slow_choice2_def
  by (rule safe_bit [where P = "good n H v"]) (use assms in \<open>auto simp: ok_defs len_ok_def LEN_LOW_SYMBOLS_def LEN_MID_SYMBOLS_def LEN_HIGH_SYMBOLS_def MATCH_LEN_MIN_def intro!: good_go good_stuck\<close>)

lemma slow_direct_good:
  assumes "vars_ok n H v" "d_sequence v = SEQ_DIRECT" shows "good n H v (slow_direct inb n v)"
  unfolding slow_direct_def by (rule safe_direct [where P = "good n H v"]) (use assms in \<open>auto simp: ok_defs intro!: good_go good_stuck\<close>)

lemma slow_is_rep0_good:
  assumes "vars_ok n H v" "d_sequence v = SEQ_IS_REP0" shows "good n H v (slow_is_rep0 inb n v)"
  unfolding slow_is_rep0_def by (rule safe_bit [where P = "good n H v"]) (use assms in \<open>auto simp: ok_defs intro!: good_go good_stuck\<close>)

lemma slow_is_rep0_long_good:
  assumes "vars_ok n H v" "d_sequence v = SEQ_IS_REP0_LONG" shows "good n H v (slow_is_rep0_long inb n v)"
  unfolding slow_is_rep0_long_def go_rep_len_def by (rule safe_bit [where P = "good n H v"]) (use assms in \<open>auto simp: ok_defs intro!: good_go good_stuck\<close>)

lemma slow_is_rep1_good:
  assumes "vars_ok n H v" "d_sequence v = SEQ_IS_REP1" shows "good n H v (slow_is_rep1 inb n v)"
proof -
  have "unat (d_rep0 v) < dict_full (v_dict v)" "unat (d_rep1 v) < dict_full (v_dict v)"
    using assms near_full by (auto simp: vars_ok_def seq_ok_def Let_def)
  then show ?thesis unfolding slow_is_rep1_def go_rep_len_def
    by - (rule safe_bit [where P = "good n H v"], use assms in \<open>auto simp: ok_defs use_rep1_def near_less intro!: good_go good_stuck\<close>)
qed

lemma slow_is_rep2_good:
  assumes "vars_ok n H v" "d_sequence v = SEQ_IS_REP2" shows "good n H v (slow_is_rep2 inb n v)"
proof -
  have "unat (d_rep0 v) < dict_full (v_dict v)" "unat (d_rep1 v) < dict_full (v_dict v)" "unat (d_rep2 v) < dict_full (v_dict v)" "unat (d_rep3 v) < dict_full (v_dict v)"
    using assms near_full by (auto simp: vars_ok_def seq_ok_def Let_def)
  then show ?thesis unfolding slow_is_rep2_def go_rep_len_def
    by - (rule safe_bit [where P = "good n H v"], use assms in \<open>auto simp: ok_defs use_rep2_def use_rep3_def near_less intro!: good_go good_stuck\<close>)
qed

lemma forget_fields [simp]:
  "rc_of (forget v) = rc_of v" "v_dict (forget v) = v_dict v" "d_state (forget v) = d_state v" "d_rep0 (forget v) = d_rep0 v" "d_rep1 (forget v) = d_rep1 v"
  "d_rep2 (forget v) = d_rep2 v" "d_rep3 (forget v) = d_rep3 v" "d_uncompressed_size (forget v) = d_uncompressed_size v"
  "d_allow_eopm (forget v) = d_allow_eopm v" "v_eopm_is_valid (forget v) = v_eopm_is_valid v" "d_sequence (forget v) = d_sequence v" "d_rc (forget v) = d_rc v"
  by (simp_all add: forget_def rc_of_def)

lemma len_step:
  assumes "len_ok v" "\<not> with_bit b (d_symbol v) < d_limit v" shows "unat (d_len v + (with_bit b (d_symbol v) - d_limit v)) \<le> 273"
proof -
  have l: "unat (d_symbol v) < unat (d_limit v)" "unat (d_limit v) \<le> 256" "unat (d_len v) \<le> 18"
    using assms(1) by (simp_all add: len_ok_def word_less_nat_alt)
  then have w: "unat (with_bit b (d_symbol v)) = 2 * unat (d_symbol v) + of_bool b" by (intro unat_with_bit) simp
  have "unat (with_bit b (d_symbol v) - d_limit v) = unat (with_bit b (d_symbol v)) - unat (d_limit v)"
    using assms(2) by (simp add: unat_sub not_less)
  moreover have "of_bool b \<le> (1 :: nat)" by simp
  then have "unat (with_bit b (d_symbol v)) - unat (d_limit v) \<le> 255" using w l by linarith
  ultimately show ?thesis using l(3) by (simp add: unat_word_ariths)
qed

lemma slow_match_bittree_good:
  assumes "vars_ok n H v" "d_sequence v = SEQ_MATCH_LEN_BITTREE" shows "good n H v (slow_len_bittree SEQ_MATCH_LEN_BITTREE to_dist_slot inb n v)"
proof -
  have l: "len_ok v" using assms by (simp add: vars_ok_def seq_ok_def Let_def)
  show ?thesis unfolding slow_len_bittree_def to_dist_slot_def
    by (rule safe_bit [where P = "good n H v"])
      (use assms len_step [OF l] in \<open>auto simp: ok_defs len_ok_def intro!: good_go good_stuck\<close>)
qed

lemma slow_rep_bittree_good:
  assumes "vars_ok n H v" "d_sequence v = SEQ_REP_LEN_BITTREE" shows "good n H v (slow_len_bittree SEQ_REP_LEN_BITTREE go_copy inb n v)"
proof -
  have l: "len_ok v" using assms by (simp add: vars_ok_def seq_ok_def Let_def)
  show ?thesis unfolding slow_len_bittree_def go_copy_def
    by (rule safe_bit [where P = "good n H v"])
      (use assms len_step [OF l] in \<open>auto simp: ok_defs len_ok_def intro!: good_go good_stuck\<close>)
qed

text \<open>A distance has been decoded.\<close>

lemma good_check_distance:
  assumes "vars_ok n H (u\<lparr>d_sequence := SEQ_DIST_SLOT\<rparr>)" "advance n (rc_of v) (rc_of u)"
    "d_uncompressed_size u = d_uncompressed_size v" "d_allow_eopm u = d_allow_eopm v" "v_dict u = v_dict v"
  shows "good n H v (check_distance u)"
  using assms unfolding check_distance_def go_copy_def dict_is_distance_valid_def
  by (auto simp: ok_defs intro!: good_go good_corrupt)

lemma good_eopm:
  assumes "vars_ok n H (u\<lparr>d_sequence := SEQ_DIST_SLOT\<rparr>)" "advance n (rc_of v) (rc_of u)"
    "d_uncompressed_size u = d_uncompressed_size v" "d_allow_eopm u = d_allow_eopm v" "v_dict u = v_dict v"
  shows "good n H v (Some (eopm u))"
proof (cases "v_eopm_is_valid u")
  case True
  then have "Some (eopm u) = go SEQ_EOPM (forget u)" by (simp add: eopm_def go_def)
  then show ?thesis using assms True by (auto simp: ok_defs intro!: good_go)
next
  case False
  then show ?thesis using assms by (auto simp: eopm_def vars_ok_def intro!: good_corrupt)
qed

lemma slow_dist_slot_good:
  assumes "vars_ok n H v" "d_sequence v = SEQ_DIST_SLOT" shows "good n H v (slow_dist_slot inb n v)"
  unfolding slow_dist_slot_def Let_def
  by (rule safe_bit [where P = "good n H v"]) (use assms in \<open>auto simp: ok_defs intro!: good_go good_stuck good_check_distance\<close>)

lemma slow_dist_model_good:
  assumes "vars_ok n H v" "d_sequence v = SEQ_DIST_MODEL" shows "good n H v (slow_dist_model inb n v)"
  unfolding slow_dist_model_def Let_def
  by (rule safe_bit [where P = "good n H v"]) (use assms in \<open>auto simp: ok_defs intro!: good_go good_stuck good_check_distance\<close>)

lemma slow_align_good:
  assumes "vars_ok n H v" "d_sequence v = SEQ_ALIGN" shows "good n H v (slow_align inb n v)"
  unfolding slow_align_def Let_def
  by (rule safe_bit [where P = "good n H v"]) (use assms in \<open>auto simp: ok_defs intro!: good_go good_stuck good_check_distance good_eopm\<close>)

lemma slow_eopm_good:
  assumes "vars_ok n H v" "d_sequence v = SEQ_EOPM" shows "good n H v (slow_eopm inb n v)"
  unfolding slow_eopm_def
proof (rule safe_normalize [where P = "good n H v"])
  fix s assume s: "rc_ok s" "rc_pos (rc_of v) \<le> rc_pos s" "rc_pos s \<le> n"
  have "good n H v (Some (Stop LZMA_STREAM_END (settle (put_rc s v))))" if "rc_is_finished (d_rc (put_rc s v))"
    using assms s that by (auto simp: good_def stop_ok_def same_setup_def settle_def vars_ok_def seq_ok_def intro!: exI [of _ "[]"])
  then show "good n H v (if rc_is_finished (d_rc (put_rc s v)) then Some (Stop LZMA_STREAM_END (settle (put_rc s v))) else Some (corrupt (put_rc s v)))"
    using assms s by (auto simp: vars_ok_def intro!: good_stop_error)
qed (use assms in \<open>auto simp: vars_ok_def intro: good_stuck\<close>)

text \<open>A byte or a match is written.\<close>

lemma near_grows: "near d r \<Longrightarrow> dict_full d \<le> dict_full d' \<Longrightarrow> near d' r"
  by (auto simp: near_def)

lemma good_written:
  assumes "vars_ok n H v" "writing (d_sequence v) = 1" "d_sequence v = SEQ_LITERAL_WRITE \<or> unat (d_rep0 v) < dict_full (v_dict v)"
    and d: "dict_ok d (H @ K)" "dict_full (v_dict v) \<le> dict_full d" "dict_limit d = dict_limit (v_dict v)" "dict_pos d = dict_pos (v_dict v) + length K"
      "dict_size d = dict_size (v_dict v)"
  shows "good n H v (Some (Loop (settle (v\<lparr>v_dict := d\<rparr>))))"
proof -
  have "near (v_dict v) (d_rep0 v) \<and> (is_literal_state (d_state v) \<or> unat (d_rep0 v) < dict_full (v_dict v))"
    using assms(1,3) near_less by (auto simp: vars_ok_def seq_ok_def Let_def)
  then have "vars_ok n (H @ K) (settle (v\<lparr>v_dict := d\<rparr>))"
    using assms near_grows by (auto simp: ok_defs settle_def)
  moreover have "(left_over n (settle (v\<lparr>v_dict := d\<rparr>)), left_over n v) \<in> less_left"
    using assms(2) by (auto simp: left_over_def less_left_def settle_def writing_def)
  ultimately show ?thesis using d(3-5) unfolding good_def by (intro exI [of _ K]) (simp add: same_setup_def settle_def)
qed

lemma slow_put_good:
  assumes v: "vars_ok n H v" and q: "d_sequence v = SEQ_LITERAL_WRITE \<or> d_sequence v = SEQ_SHORTREP"
  shows "good n H v (slow_put b v)"
proof (cases "dict_pos (v_dict v) = dict_limit (v_dict v)")
  case True
  then have "stop_ok n H LZMA_OK v" using v q by (auto simp: stop_ok_def vars_ok_def)
  then show ?thesis using True by (auto simp: slow_put_def dict_put_safe_def good_def same_setup_def intro!: exI [of _ "[]"])
next
  case False
  have ok: "dict_ok (v_dict v) H" using v by (simp add: vars_ok_def)
  then have "dict_pos (v_dict v) < dict_limit (v_dict v)" using False by (auto simp: dict_ok_def)
  then obtain d where d: "dict_put (v_dict v) b = Some d" "dict_ok d (H @ [b])" "dict_limit d = dict_limit (v_dict v)"
      "dict_size d = dict_size (v_dict v)" "has_wrapped d = has_wrapped (v_dict v)" "dict_pos d = dict_pos (v_dict v) + 1"
    using dict_put_ok [OF ok] by blast
  have "dict_full (v_dict v) \<le> dict_full d" by (rule dict_full_grows [OF ok d(2,4,5)])
  then have "good n H v (Some (Loop (settle (v\<lparr>v_dict := d\<rparr>))))"
    using v q d by (intro good_written [where K = "[b]"]) (auto simp: writing_def vars_ok_def seq_ok_def Let_def)
  then show ?thesis using d(1) False by (simp add: slow_put_def dict_put_safe_def)
qed

lemma repeat_bytes_prefix: "\<exists>K. repeat_bytes H distance n = H @ K \<and> length K = n"
proof (induction n arbitrary: H)
  case (Suc n)
  obtain K where "repeat_bytes (H @ [back_byte H distance]) distance n = (H @ [back_byte H distance]) @ K" "length K = n" using Suc by blast
  then show ?case by (intro exI [of _ "back_byte H distance # K"]) simp
qed simp

text \<open>A match can be copied wherever it can be checked; \<open>u\<close> has the distance and \<open>len\<close> is the length.\<close>

lemma copy_match_total:
  assumes ok: "dict_ok (v_dict u) H" and len: "unat len \<le> 273" and valid: "unat (d_rep0 u) < dict_full (v_dict u)"
  obtains d left K where "dict_repeat (v_dict u) (unat (d_rep0 u)) (unat len) = Some (left \<noteq> 0, d, left)" "left \<le> unat len" "dict_ok d (H @ K)"
    "dict_full (v_dict u) \<le> dict_full d" "dict_limit d = dict_limit (v_dict u)" "left \<noteq> 0 \<longrightarrow> dict_pos d = dict_limit d"
    "dict_pos d = dict_pos (v_dict u) + length K" "dict_size d = dict_size (v_dict u)"
proof -
  have "dict_is_distance_valid (v_dict u) (unat (d_rep0 u))" "unat len \<le> LZ_DICT_REPEAT_MAX"
    using valid len by (simp_all add: dict_is_distance_valid_def LZ_DICT_REPEAT_MAX_def)
  from dict_repeat_ok [OF ok this] obtain d m where d: "dict_repeat (v_dict u) (unat (d_rep0 u)) (unat len) = Some (m < unat len, d, unat len - m)"
      "m = min (dict_limit (v_dict u) - dict_pos (v_dict u)) (unat len)" "dict_ok d (repeat_bytes H (unat (d_rep0 u)) m)"
      "dict_pos d = dict_pos (v_dict u) + m" "dict_limit d = dict_limit (v_dict u)" "dict_size d = dict_size (v_dict u)" "has_wrapped d = has_wrapped (v_dict u)"
    by blast
  obtain K where K: "repeat_bytes H (unat (d_rep0 u)) m = H @ K" "length K = m" using repeat_bytes_prefix by blast
  have "dict_pos (v_dict u) \<le> dict_limit (v_dict u)" using ok by (simp add: dict_ok_def)
  then have "dict_pos d = dict_limit d" if "m < unat len" using d(2,4,5) that by auto
  moreover have "m < unat len \<longleftrightarrow> unat len - m \<noteq> 0" by auto
  ultimately show thesis
    using that [of "unat len - m" d K] d(1,3,4,5,6) K dict_full_grows [OF ok d(3) [unfolded K(1)] d(6,7)] by simp
qed

lemma copy_match_good:
  assumes v: "vars_ok n H v" "d_sequence v = SEQ_COPY" shows "good n H v (copy_match (d_len v) v)"
proof -
  have c: "dict_ok (v_dict v) H" "unat (d_len v) \<le> 273" "unat (d_rep0 v) < dict_full (v_dict v)"
    using v by (simp_all add: vars_ok_def seq_ok_def Let_def)
  obtain d left K where d: "dict_repeat (v_dict v) (unat (d_rep0 v)) (unat (d_len v)) = Some (left \<noteq> 0, d, left)" "left \<le> unat (d_len v)" "dict_ok d (H @ K)"
      "dict_full (v_dict v) \<le> dict_full d" "dict_limit d = dict_limit (v_dict v)" "left \<noteq> 0 \<longrightarrow> dict_pos d = dict_limit d"
      "dict_pos d = dict_pos (v_dict v) + length K" "dict_size d = dict_size (v_dict v)"
    using copy_match_total [OF c] .
  show ?thesis
  proof (cases "left = 0")
    case True
    then have "copy_match (d_len v) v = Some (Loop (settle (v\<lparr>v_dict := d\<rparr>)))" using d(1) by (simp add: copy_match_def Let_def)
    moreover have "good n H v (Some (Loop (settle (v\<lparr>v_dict := d\<rparr>))))"
      using v c(3) d(3-5,7,8) by (intro good_written) (auto simp: writing_def)
    ultimately show ?thesis by simp
  next
    case False
    let ?w = "(forget v)\<lparr>v_dict := d, d_len := of_nat left, d_sequence := SEQ_COPY\<rparr>"
    have "unat (of_nat left :: u32) = left" using d(2) c(2) by (simp add: unat_of_nat)
    then have "vars_ok n (H @ K) ?w" using v d(2-4) c near_grows by (auto simp: ok_defs)
    then have "stop_ok n (H @ K) LZMA_OK ?w" using d(5,6) False by (auto simp: stop_ok_def vars_ok_def)
    then have "good n H v (Some (Stop LZMA_OK ?w))" unfolding good_def using d(5,7,8) by (intro exI [of _ K]) (simp add: same_setup_def)
    then show ?thesis using d(1) False by (simp add: copy_match_def Let_def)
  qed
qed

text \<open>The first bit of a symbol.\<close>

definition first_bit :: "byte list \<Rightarrow> nat \<Rightarrow> lzma_vars \<Rightarrow> outcome option" where
  "first_bit inb in_size v = safe (rc_bit_last (a_is_match (d_state v) (pos_state v))) inb in_size (v\<lparr>d_sequence := SEQ_IS_MATCH\<rparr>) (\<lambda>is_match v.
        if \<not> is_match
        then do {
          prev_byte \<leftarrow> dict_get0 (v_dict v);
          let v = v\<lparr>d_probs := literal_probs v prev_byte, d_symbol := 1\<rparr>;
          if is_literal_state (d_state v) then go SEQ_LITERAL (v\<lparr>d_state := update_literal_normal (d_state v)\<rparr>)
          else do {
            match_byte \<leftarrow> dict_get (v_dict v) (unat (d_rep0 v));
            go SEQ_LITERAL_MATCHED (v\<lparr>d_state := update_literal_matched (d_state v),
              d_len := push_bit 1 (ucast match_byte), d_offset := 0x100\<rparr>) } }
        else go SEQ_IS_REP v)"

lemma slow_is_match_first:
  "slow_is_match mf inb in_size v = (if mf \<and> dict_pos (v_dict v) = dict_limit (v_dict v)
     then safe rc_normalize inb in_size (v\<lparr>d_sequence := SEQ_NORMALIZE\<rparr>) (\<lambda>_ v.
       if rc_is_finished (d_rc v) then Some (Stop LZMA_STREAM_END (settle v))
       else if \<not> d_allow_eopm v then Some (corrupt v) else first_bit inb in_size (v\<lparr>v_eopm_is_valid := True\<rparr>))
     else first_bit inb in_size v)"
  unfolding slow_is_match_def first_bit_def Let_def by (rule refl)

text \<open>It may follow a byte that was read on the way.\<close>

definition started :: "nat \<Rightarrow> lzma_vars \<Rightarrow> lzma_vars \<Rightarrow> bool" where
  "started n v u \<longleftrightarrow> same_setup [] u v \<and> v_dict u = v_dict v \<and> (rc_pos (rc_of v) < rc_pos (rc_of u) \<or> rc_of u = rc_of v)"

lemma good_go_started:
  assumes "started n v u" "advance n (rc_of u) s" "rc_of w = s" "vars_ok n H (w\<lparr>d_sequence := q\<rparr>)"
    "d_uncompressed_size w = d_uncompressed_size u" "d_allow_eopm w = d_allow_eopm u" "v_dict w = v_dict u"
  shows "good n H v (go q w)"
  using assms by (intro good_go) (auto simp: started_def same_setup_def advance_def)

lemma first_bit_good:
  assumes u: "vars_ok n H (u\<lparr>d_sequence := SEQ_IS_MATCH\<rparr>)" "started n v u"
  shows "good n H v (first_bit inb n u)"
  unfolding first_bit_def
proof (rule safe_bit [where P = "good n H v"])
  assume "rc_pos (rc_of (u\<lparr>d_sequence := SEQ_IS_MATCH\<rparr>)) = n"
  then show "good n H v (Some (Stop LZMA_OK (u\<lparr>d_sequence := SEQ_IS_MATCH\<rparr>)))"
    using u by (intro good_stuck_at) (simp_all add: same_setup_def started_def)
next
  have lit: "dict_ok (v_dict u) H" "is_literal_state (d_state u) \<or> unat (d_rep0 u) < dict_full (v_dict u)"
    using u by (auto simp: vars_ok_def seq_ok_def Let_def)
  note get0 = dict_get0_ok [OF lit(1)] and get = dict_get_ok [OF lit(1)]
  have normal: "is_literal_state (update_literal_normal t)" if "is_literal_state t" for t
    using that by (auto simp: state_defs)
  fix b s assume s: "rc_ok s" "rc_pos s \<le> n" "advance n (rc_of (u\<lparr>d_sequence := SEQ_IS_MATCH\<rparr>)) s"
  let ?u = "(put_rc s u)\<lparr>d_sequence := SEQ_IS_MATCH\<rparr>"
  have a: "advance n (rc_of u) s" using s(3) by simp
  note go = good_go_started [OF u(2) a]
  have lv: "good n H v (go SEQ_LITERAL (?u\<lparr>d_probs := p, d_symbol := 1, d_state := update_literal_normal (d_state u)\<rparr>))"
    if "is_literal_state (d_state u)" for p
    using u(1) s(1,2) normal that by (intro go) (simp_all add: ok_defs)
  have lm: "good n H v (go SEQ_LITERAL_MATCHED (?u\<lparr>d_probs := p, d_symbol := 1, d_state := update_literal_matched (d_state u), d_len := x, d_offset := 0x100\<rparr>))"
    if "unat (d_rep0 u) < dict_full (v_dict u)" for p x
    using u(1) s(1,2) that by (intro go) (simp_all add: ok_defs)
  have ir: "good n H v (go SEQ_IS_REP ?u)"
    using u(1) s(1,2) by (intro go) (simp_all add: ok_defs)
  show "good n H v (if \<not> b
      then do {
        prev_byte \<leftarrow> dict_get0 (v_dict (put_rc s (u\<lparr>d_sequence := SEQ_IS_MATCH\<rparr>)));
        let v = (put_rc s (u\<lparr>d_sequence := SEQ_IS_MATCH\<rparr>))\<lparr>d_probs := literal_probs (put_rc s (u\<lparr>d_sequence := SEQ_IS_MATCH\<rparr>)) prev_byte, d_symbol := 1\<rparr>;
        if is_literal_state (d_state v) then go SEQ_LITERAL (v\<lparr>d_state := update_literal_normal (d_state v)\<rparr>)
        else do {
          match_byte \<leftarrow> dict_get (v_dict v) (unat (d_rep0 v));
          go SEQ_LITERAL_MATCHED (v\<lparr>d_state := update_literal_matched (d_state v),
            d_len := push_bit 1 (ucast match_byte), d_offset := 0x100\<rparr>) } }
      else go SEQ_IS_REP (put_rc s (u\<lparr>d_sequence := SEQ_IS_MATCH\<rparr>)))"
    using lit(2) lv lm ir get0 get by (cases "is_literal_state (d_state u)") (simp_all add: put_rc_updates Let_def)
qed (use u in \<open>simp_all add: vars_ok_def\<close>)

lemma slow_is_match_good:
  assumes v: "vars_ok n H v" and q: "d_sequence v = SEQ_NORMALIZE \<or> d_sequence v = SEQ_IS_MATCH" shows "good n H v (slow_is_match mf inb n v)"
proof -
  have lit: "near (v_dict v) (d_rep0 v) \<and> (is_literal_state (d_state v) \<or> unat (d_rep0 v) < dict_full (v_dict v))"
    using v q by (auto simp: vars_ok_def seq_ok_def Let_def)
  let ?v = "v\<lparr>d_sequence := SEQ_NORMALIZE\<rparr>"
  have direct: "good n H v (first_bit inb n v)"
    using v lit by (intro first_bit_good) (simp_all add: started_def same_setup_def ok_defs)
  have "good n H v (safe rc_normalize inb n ?v (\<lambda>_ v.
       if rc_is_finished (d_rc v) then Some (Stop LZMA_STREAM_END (settle v))
       else if \<not> d_allow_eopm v then Some (corrupt v) else first_bit inb n (v\<lparr>v_eopm_is_valid := True\<rparr>)))"
  proof (rule safe_normalize [where P = "good n H v"])
    assume "rc_pos (rc_of ?v) = n"
    then show "good n H v (Some (Stop LZMA_OK ?v))" using v lit by (intro good_stuck_at) (simp_all add: same_setup_def ok_defs)
  next
    fix s assume s: "rc_ok s" "rc_pos (rc_of ?v) \<le> rc_pos s" "rc_pos s \<le> n" "rc_pos (rc_of ?v) < rc_pos s \<or> s = rc_of ?v"
    let ?w = "put_rc s ?v"
    have "vars_ok n H (settle ?w)" using v lit s by (simp add: ok_defs settle_def)
    then have "good n H v (Some (Stop LZMA_STREAM_END (settle ?w)))" if "rc_is_finished (d_rc ?w)"
      using that s unfolding good_def by (intro exI [of _ "[]"]) (simp add: stop_ok_def same_setup_def settle_def vars_ok_def)
    moreover have "good n H v (Some (corrupt ?w))" using v s by (intro good_stop_error) (simp_all add: vars_ok_def)
    moreover have "good n H v (first_bit inb n (?w\<lparr>v_eopm_is_valid := True\<rparr>))" if "d_allow_eopm ?w"
      using v lit s that by (intro first_bit_good) (simp_all add: ok_defs started_def same_setup_def eopm_allowed_def)
    ultimately show "good n H v (if rc_is_finished (d_rc ?w) then Some (Stop LZMA_STREAM_END (settle ?w))
       else if \<not> d_allow_eopm ?w then Some (corrupt ?w) else first_bit inb n (?w\<lparr>v_eopm_is_valid := True\<rparr>))" by simp
  qed (use v in \<open>simp_all add: vars_ok_def\<close>)
  then show ?thesis using direct by (simp add: slow_is_match_first)
qed

lemma slow_step_good: "vars_ok n H v \<Longrightarrow> good n H v (slow_step mf inb n v)"
proof (cases "d_sequence v = SEQ_SHORTREP")
  case True
  moreover assume v: "vars_ok n H v"
  ultimately obtain b where "dict_get (v_dict v) (unat (d_rep0 v)) = Some b"
    using dict_get_ok [of "v_dict v" H] by (auto simp: vars_ok_def seq_ok_def Let_def)
  then show ?thesis using v True by (simp add: slow_step_def slow_put_good)
next
  case False
  moreover assume "vars_ok n H v"
  ultimately show ?thesis
    by (cases "d_sequence v")
      (simp_all add: slow_step_def slow_is_match_good slow_literal_good slow_literal_matched_good slow_put_good slow_is_rep_good slow_choice_good slow_choice2_good
        slow_match_bittree_good slow_rep_bittree_good slow_dist_slot_good slow_dist_model_good slow_direct_good slow_align_good slow_eopm_good slow_is_rep0_good
        slow_is_rep0_long_good slow_is_rep1_good slow_is_rep2_good copy_match_good)
qed

section \<open>The fast mode\<close>

lemma step_good_trans:
  assumes "good n H v (Some (Go w))" "\<And>K. vars_ok n (H @ K) w \<Longrightarrow> good n (H @ K) w ro"
  shows "good n H v ro"
proof -
  obtain K where K: "vars_ok n (H @ K) w" "(left_over n w, left_over n v) \<in> less_left" "same_setup K w v" using assms(1) by (auto simp: good_def)
  have tr: "(left_over n u, left_over n v) \<in> less_left" if "(left_over n u, left_over n w) \<in> less_left" for u
    using that K(2) trans_less_than unfolding less_left_def by (meson trans_lex_prod transD)
  have st: "same_setup (K @ L) u v" if "same_setup L u w" for L u using that K(3) by (simp add: same_setup_def)
  obtain L where "case ro of None \<Rightarrow> False
     | Some (Go u) \<Rightarrow> vars_ok n ((H @ K) @ L) u \<and> (left_over n u, left_over n w) \<in> less_left \<and> same_setup L u w
     | Some (Loop u) \<Rightarrow> vars_ok n ((H @ K) @ L) u \<and> (left_over n u, left_over n w) \<in> less_left \<and> same_setup L u w
     | Some (Stop ret u) \<Rightarrow> stop_ok n ((H @ K) @ L) ret u \<and> same_setup L u w"
    using assms(2) [OF K(1)] unfolding good_def by blast
  then show ?thesis unfolding good_def
    by (intro exI [of _ "K @ L"]) (simp add: tr st split: option.splits outcome.splits)
qed

lemma steps_good: "steps mf inb n v r \<Longrightarrow> vars_ok n H v \<Longrightarrow> good n H v (Some r)"
proof (induction arbitrary: H rule: steps.induct)
  case (steps_one v r)
  then show ?case using slow_step_good [of n H v mf inb] by simp
next
  case (steps_more v w r)
  have "good n H v (Some (Go w))" using slow_step_good [OF steps_more.prems, of mf inb] steps_more.hyps by simp
  then show ?case by (rule step_good_trans) (rule steps_more.IH)
qed

text \<open>With \<open>LZMA_IN_REQUIRED\<close> bytes at hand the fast mode decodes every symbol, and reads no more of them.\<close>

fun outcome_vars :: "outcome \<Rightarrow> lzma_vars" where
  "outcome_vars (Go v) = v"
| "outcome_vars (Loop v) = v"
| "outcome_vars (Stop ret v) = v"

definition served :: "nat \<Rightarrow> outcome option \<Rightarrow> bool" where
  "served p0 ro \<longleftrightarrow> (\<exists>r. ro = Some r \<and> rc_pos (rc_of (outcome_vars r)) \<le> p0 + LZMA_IN_REQUIRED)"

lemma spent_start: "rc_ok s \<Longrightarrow> spent 0 0 (rc_pos s) s"
  by (cases s) (simp add: spent_def rc_ok_def rc_range_def)

lemma spent_pos: "spent p d p0 s \<Longrightarrow> rc_pos s \<le> p0 + LZMA_IN_REQUIRED"
  by (simp add: spent_def)

lemma settle_rc [simp]: "rc_of (settle v) = rc_of v"
  by (simp add: settle_def)

lemma rc_use_map: "rc_use mac inb n v = map_option (\<lambda>(x, s). (x, put_rc s v)) (mac inb n (rc_of v))"
  by (simp add: rc_use_def rc_of_def put_rc_def split: option.splits prod.splits)

lemma copy_match_served:
  assumes "dict_ok (v_dict u) H" "unat len \<le> 273" "unat (d_rep0 u) < dict_full (v_dict u)" "rc_pos (rc_of u) \<le> p0 + LZMA_IN_REQUIRED"
  shows "served p0 (copy_match len u)"
proof -
  obtain d left where "dict_repeat (v_dict u) (unat (d_rep0 u)) (unat len) = Some (left \<noteq> 0, d, left)"
    using copy_match_total [OF assms(1-3)] by metis
  then show ?thesis using assms(4) by (simp add: copy_match_def Let_def served_def)
qed

lemma fast_literal_served:
  assumes s: "spent 1 0 p0 s" "p0 + LZMA_IN_REQUIRED \<le> n"
    and v: "dict_ok (v_dict v) H" "is_literal_state (d_state v) \<or> unat (d_rep0 v) < dict_full (v_dict v)" "dict_pos (v_dict v) < dict_limit (v_dict v)"
  shows "served p0 (fast_literal inb n (put_rc s v))"
proof -
  have a: "affordable (1 + 7) 0" by (rule affordable_le [OF affordable_22_0]) simp_all
  obtain prev where prev: "dict_get0 (v_dict v) = Some prev" using dict_get0_ok [OF v(1)] by blast
  have put: "\<exists>d. dict_put (v_dict v) b = Some d" for b using dict_put_ok [OF v(1,3)] by blast
  show ?thesis
  proof (cases "is_literal_state (d_state v)")
    case True
    obtain x t where x: "rc_bittree_bits (literal_probs v prev) (Suc 7) 1 inb n s = Some (x, t)" "spent (1 + Suc 7) 0 p0 t"
      using spent_bittree [OF s(1) a s(2)] by blast
    obtain d where d: "dict_put (v_dict v) (ucast x) = Some d" using put by blast
    have "fast_literal inb n (put_rc s v) = Some (Loop (settle ((put_rc t v)\<lparr>d_state := update_literal_normal (d_state v), v_dict := d\<rparr>)))"
      using True prev x(1) d unfolding eight [symmetric]
      by (simp add: fast_literal_def rc_bittree8_def rc_use_map put_rc_updates)
    then show ?thesis using spent_pos [OF x(2)] by (simp add: served_def)
  next
    case False
    then obtain mb where mb: "dict_get (v_dict v) (unat (d_rep0 v)) = Some mb" using dict_get_ok [OF v(1)] v(2) by blast
    obtain x t where x: "rc_matched_bits (literal_probs v prev) (Suc 7) (ucast mb) 0x100 1 inb n s = Some (x, t)" "spent (1 + Suc 7) 0 p0 t"
      using spent_matched [OF s(1) a s(2)] by blast
    obtain d where d: "dict_put (v_dict v) (ucast x) = Some d" using put by blast
    have "fast_literal inb n (put_rc s v) = Some (Loop (settle ((put_rc t v)\<lparr>d_state := update_literal_matched (d_state v), v_dict := d\<rparr>)))"
      using False prev mb x(1) d unfolding eight [symmetric]
      by (simp add: fast_literal_def rc_matched_literal_def rc_use_map put_rc_updates)
    then show ?thesis using spent_pos [OF x(2)] by (simp add: served_def)
  qed
qed

lemma fast_match_served:
  assumes s: "spent 2 0 p0 s" "p0 + LZMA_IN_REQUIRED \<le> n" and v: "dict_ok (v_dict v) H"
  shows "served p0 (fast_match inb n (put_rc s v))"
proof -
  let ?v = "(put_rc s v)\<lparr>d_state := update_match (d_state v), d_rep3 := d_rep2 v, d_rep2 := d_rep1 v, d_rep1 := d_rep0 v\<rparr>"
  have "affordable (2 + 9) 0" by (rule affordable_le [OF affordable_22_0]) simp_all
  from spent_len [OF s(1) this s(2)] obtain len t where len: "len_decode_fast a_match_len (pos_state ?v) inb n s = Some (len, t)" "spent (2 + 10) 0 p0 t" by blast
  obtain marker rep0 w where d: "dist_decode_fast len inb n t = Some ((marker, rep0), w)" "rc_pos w \<le> p0 + LZMA_IN_REQUIRED"
    using spent_dist [OF len(2) _ s(2), of len inb] by auto
  let ?w = "(put_rc w ?v)\<lparr>d_rep0 := rep0\<rparr>"
  have "fast_match inb n (put_rc s v) = (if marker \<and> rep0 = 0xFFFFFFFF then Some (eopm ?w)
      else if \<not> dict_is_distance_valid (v_dict v) (unat rep0) then Some (corrupt ?w) else copy_match len ?w)"
    using len(1) d(1) by (simp add: fast_match_def Let_def rc_use_map)
  moreover have "served p0 (Some (eopm ?w))" "served p0 (Some (corrupt ?w))" using d(2) by (simp_all add: served_def eopm_def corrupt_def)
  moreover have "served p0 (copy_match len ?w)" if "dict_is_distance_valid (v_dict v) (unat rep0)"
    using that v d(2) len_decode_bound [OF len(1)] by (intro copy_match_served) (simp_all add: dict_is_distance_valid_def)
  ultimately show ?thesis by metis
qed

lemma fast_long_rep_served:
  assumes s: "spent p 0 p0 (rc_of u)" "p \<le> 5" "p0 + LZMA_IN_REQUIRED \<le> n" and u: "dict_ok (v_dict u) H" "unat (d_rep0 u) < dict_full (v_dict u)"
  shows "served p0 (fast_long_rep inb n u)"
proof -
  have "affordable (p + 9) 0" by (rule affordable_le [OF affordable_22_0]) (use s(2) in simp_all)
  from spent_len [OF s(1) this s(3)] obtain len t where len: "len_decode_fast a_rep_len (pos_state u) inb n (rc_of u) = Some (len, t)" "spent (p + 10) 0 p0 t" by blast
  have "fast_long_rep inb n u = copy_match len ((put_rc t u)\<lparr>d_state := update_long_rep (d_state u)\<rparr>)"
    using len(1) by (simp add: fast_long_rep_def rc_use_map pos_state_def put_rc_updates)
  then show ?thesis using u len_decode_bound [OF len(1)] spent_pos [OF len(2)] by (simp add: copy_match_served)
qed

lemma spent_bit5:
  assumes "spent p 0 p0 s" "p0 + LZMA_IN_REQUIRED \<le> n" "q = Suc p" "p \<le> 5"
  shows "\<exists>b t. rc_bit_last a inb n s = Some (b, t) \<and> spent q 0 p0 t"
proof -
  have "affordable p 0" by (rule affordable_le [OF affordable_22_0]) (use assms(4) in simp_all)
  from assms(1) this assms(2) obtain b t where "rc_bit_last a inb n s = Some (b, t)" "spent (Suc p) 0 p0 t" by (rule spent_bit)
  then show ?thesis using assms(3) by blast
qed

lemma fast_rep_served:
  assumes s: "spent 2 0 p0 s" "p0 + LZMA_IN_REQUIRED \<le> n" and v: "dict_ok (v_dict v) H" "dict_pos (v_dict v) < dict_limit (v_dict v)"
    and near: "near (v_dict v) (d_rep0 v)" "near (v_dict v) (d_rep1 v)" "near (v_dict v) (d_rep2 v)" "near (v_dict v) (d_rep3 v)"
  shows "served p0 (fast_rep inb n (put_rc s v))"
proof (cases "0 < dict_full (v_dict v)")
  case False
  then show ?thesis using spent_pos [OF s(1)] by (simp add: fast_rep_def dict_is_distance_valid_def served_def corrupt_def)
next
  case True
  note full = near [THEN near_pos [OF _ True]]
  obtain b0 t where 0: "rc_bit_last (a_is_rep0 (d_state v)) inb n s = Some (b0, t)" "spent 3 0 p0 t"
    using spent_bit5 [OF s(1,2), of 3 "a_is_rep0 (d_state v)" inb] by auto
  obtain b1 t1 where 1: "rc_bit_last (a_is_rep1 (d_state v)) inb n t = Some (b1, t1)" "spent 4 0 p0 t1"
    using spent_bit5 [OF 0(2) s(2), of 4 "a_is_rep1 (d_state v)" inb] by auto
  obtain b2 t2 where 2: "rc_bit_last (a_is_rep2 (d_state v)) inb n t1 = Some (b2, t2)" "spent 5 0 p0 t2"
    using spent_bit5 [OF 1(2) s(2), of 5 "a_is_rep2 (d_state v)" inb] by auto
  obtain bl tl where l: "rc_bit_last (a_is_rep0_long (d_state v) (pos_state v)) inb n t = Some (bl, tl)" "spent 4 0 p0 tl"
    using spent_bit5 [OF 0(2) s(2), of 4 "a_is_rep0_long (d_state v) (pos_state v)" inb] by auto
  obtain c d where c: "dict_get (v_dict v) (unat (d_rep0 v)) = Some c" "dict_put (v_dict v) c = Some d"
    using dict_get_ok [OF v(1) full(1)] dict_put_ok [OF v] by blast
  let ?short = "Some (Loop (settle ((put_rc tl v)\<lparr>d_state := update_short_rep (d_state v), v_dict := d\<rparr>)))"
  have "fast_rep inb n (put_rc s v) = (if \<not> b0 then if \<not> bl then ?short else fast_long_rep inb n (put_rc tl v)
      else if \<not> b1 then fast_long_rep inb n (use_rep1 (put_rc t1 v))
      else if \<not> b2 then fast_long_rep inb n (use_rep2 (put_rc t2 v)) else fast_long_rep inb n (use_rep3 (put_rc t2 v)))"
    using True 0(1) 1(1) 2(1) l(1) c by (simp add: fast_rep_def dict_is_distance_valid_def rc_use_map)
  moreover have "served p0 ?short" using spent_pos [OF l(2)] by (simp add: served_def)
  moreover have "served p0 (fast_long_rep inb n (put_rc tl v))" using l(2) s(2) v(1) full by (intro fast_long_rep_served [where p = 4]) simp_all
  moreover have "served p0 (fast_long_rep inb n (use_rep1 (put_rc t1 v)))"
    using 1(2) s(2) v(1) full by (intro fast_long_rep_served [where p = 4]) (simp_all add: use_rep1_def)
  moreover have "served p0 (fast_long_rep inb n (use_rep2 (put_rc t2 v)))" "served p0 (fast_long_rep inb n (use_rep3 (put_rc t2 v)))"
    using 2(2) s(2) v(1) full by (intro fast_long_rep_served [where p = 5]; simp add: use_rep2_def use_rep3_def)+
  ultimately show ?thesis by simp
qed

lemma fast_symbol_served:
  assumes v: "vars_ok n H v" "d_sequence v = SEQ_IS_MATCH" "dict_pos (v_dict v) \<noteq> dict_limit (v_dict v)" and p0: "rc_pos (rc_of v) + LZMA_IN_REQUIRED \<le> n"
  shows "served (rc_pos (rc_of v)) (fast_symbol inb n v)"
proof -
  let ?p0 = "rc_pos (rc_of v)"
  have ok: "dict_ok (v_dict v) H" "rc_ok (rc_of v)" "is_literal_state (d_state v) \<or> unat (d_rep0 v) < dict_full (v_dict v)"
      "near (v_dict v) (d_rep0 v)" "near (v_dict v) (d_rep1 v)" "near (v_dict v) (d_rep2 v)" "near (v_dict v) (d_rep3 v)"
    using v by (simp_all add: vars_ok_def seq_ok_def Let_def)
  have room: "dict_pos (v_dict v) < dict_limit (v_dict v)" using v(3) ok(1) by (simp add: dict_ok_def)
  obtain b s where b: "rc_bit_last (a_is_match (d_state v) (pos_state v)) inb n (rc_of v) = Some (b, s)" "spent 1 0 ?p0 s"
    using spent_bit5 [OF spent_start [OF ok(2)] p0, of 1 "a_is_match (d_state v) (pos_state v)" inb] by auto
  obtain c t where c: "rc_bit_last (a_is_rep (d_state v)) inb n s = Some (c, t)" "spent 2 0 ?p0 t"
    using spent_bit5 [OF b(2) p0, of 2 "a_is_rep (d_state v)" inb] by auto
  have "fast_symbol inb n v = (if \<not> b then fast_literal inb n (put_rc s v) else if \<not> c then fast_match inb n (put_rc t v) else fast_rep inb n (put_rc t v))"
    using b(1) c(1) by (simp add: fast_symbol_def rc_use_map)
  then show ?thesis
    using fast_literal_served [OF b(2) p0 ok(1,3) room] fast_match_served [OF c(2) p0 ok(1)] fast_rep_served [OF c(2) p0 ok(1) room ok(4-7)] by simp
qed

section \<open>The loop\<close>

text \<open>The fast mode is entered only where enough input is left.\<close>

definition fast_end_ok :: "nat \<Rightarrow> nat \<Rightarrow> lzma_vars \<Rightarrow> bool" where
  "fast_end_ok n fast_end v \<longleftrightarrow> fast_end + LZMA_IN_REQUIRED \<le> n \<or> fast_end \<le> rc_pos (rc_of v)"

lemma loop_step_good:
  assumes v: "vars_ok n H v" "fresh \<longrightarrow> d_sequence v = SEQ_IS_MATCH" "fast_end_ok n fast_end v"
  shows "\<exists>r. (if fresh \<and> v_in_pos v < fast_end \<and> dict_pos (v_dict v) \<noteq> dict_limit (v_dict v) then fast_symbol inb n v else slow_step mf inb n v) = Some r
     \<and> good n H v (Some r) \<and> (\<forall>w. r = Loop w \<longrightarrow> d_sequence w = SEQ_IS_MATCH)"
proof (cases "fresh \<and> v_in_pos v < fast_end \<and> dict_pos (v_dict v) \<noteq> dict_limit (v_dict v)")
  case True
  have "rc_pos (rc_of v) < fast_end" using True by (simp add: rc_pos_def rc_of_def)
  then have "rc_pos (rc_of v) + LZMA_IN_REQUIRED \<le> n" using v(3) by (simp add: fast_end_ok_def)
  then have "served (rc_pos (rc_of v)) (fast_symbol inb n v)" using v(1,2) True by (intro fast_symbol_served) simp_all
  then obtain r where r: "fast_symbol inb n v = Some r" by (auto simp: served_def)
  then have "steps mf inb n v r" using v(2) True by (intro fast_symbol_steps) simp_all
  then have "good n H v (Some r)" using v(1) by (rule steps_good)
  then show ?thesis using True r loop_sequence(1) by auto
next
  case False
  have "good n H v (slow_step mf inb n v)" using v(1) by (rule slow_step_good)
  moreover from this obtain r where "slow_step mf inb n v = Some r" by (cases "slow_step mf inb n v") (simp_all add: good_def)
  ultimately show ?thesis using False loop_sequence(2) by auto
qed

lemma same_setup_trans: "same_setup K w v \<Longrightarrow> same_setup L u w \<Longrightarrow> same_setup (K @ L) u v"
  by (simp add: same_setup_def)

lemma decode_loop_total:
  assumes "vars_ok n H v" "fresh \<longrightarrow> d_sequence v = SEQ_IS_MATCH" "fast_end_ok n fast_end v"
  shows "\<exists>ret w K. decode_loop mf fast_end inb n fresh v = Some (ret, w) \<and> stop_ok n (H @ K) ret w \<and> same_setup K w v"
  using assms
proof (induction "left_over n v" arbitrary: v H fresh rule: wf_induct_rule [OF wf_less_left])
  case less: 1
  obtain r where r: "(if fresh \<and> v_in_pos v < fast_end \<and> dict_pos (v_dict v) \<noteq> dict_limit (v_dict v) then fast_symbol inb n v else slow_step mf inb n v) = Some r"
      "good n H v (Some r)" "\<And>w. r = Loop w \<Longrightarrow> d_sequence w = SEQ_IS_MATCH"
    using loop_step_good [OF less.prems] by blast
  have cont: "\<exists>ret w K. decode_loop mf fast_end inb n f u = Some (ret, w) \<and> stop_ok n (H @ K) ret w \<and> same_setup K w v"
    if "vars_ok n (H @ K) u" "(left_over n u, left_over n v) \<in> less_left" "same_setup K u v" "f \<longrightarrow> d_sequence u = SEQ_IS_MATCH" for u K f
  proof -
    have "fast_end_ok n fast_end u" using less.prems(3) that(3) by (auto simp: fast_end_ok_def same_setup_def)
    from less.hyps [OF that(2,1,4) this] obtain ret w L where "decode_loop mf fast_end inb n f u = Some (ret, w)" "stop_ok n ((H @ K) @ L) ret w" "same_setup L w u"
      by blast
    then show ?thesis using same_setup_trans [OF that(3)] by auto
  qed
  have "decode_loop mf fast_end inb n fresh v = continue mf fast_end inb n r" by (simp add: decode_loop_continue r(1))
  then show ?case using r(2,3) cont by (cases r) (auto simp: good_def continue_def)
qed

section \<open>A call\<close>

lemma rc_read_init_safe:
  assumes "rc_read_init rc inb p n = (ret, rc', p')" "p \<le> n"
  shows "rd_range rc' = rd_range rc \<and> p \<le> p' \<and> p' \<le> n \<and> ret \<in> {LZMA_OK, LZMA_STREAM_END, LZMA_DATA_ERROR} \<and> (ret = LZMA_OK \<longrightarrow> p' = n)"
  using assms
proof (induction rc inb p n arbitrary: ret rc' p' rule: rc_read_init.induct)
  case (1 rc inb p n)
  let ?rc = "rc\<lparr>rd_code := push_bit 8 (rd_code rc) OR ucast (inb ! p), init_bytes_left := init_bytes_left rc - 1\<rparr>"
  show ?case
  proof (cases "init_bytes_left rc > 0 \<and> p \<noteq> n \<and> \<not> (init_bytes_left rc = 5 \<and> inb ! p \<noteq> 0)")
    case True
    then have "rc_read_init rc inb p n = rc_read_init ?rc inb (p + 1) n" by (subst rc_read_init.simps) auto
    then have "rc_read_init ?rc inb (p + 1) n = (ret, rc', p')" using "1.prems"(1) by simp
    from "1.IH" [OF _ _ _ this] True "1.prems"(2) show ?thesis by simp
  next
    case False
    have "rc_read_init rc inb p n = (if \<not> init_bytes_left rc > 0 then (LZMA_STREAM_END, rc, p) else if p = n then (LZMA_OK, rc, p) else (LZMA_DATA_ERROR, rc, p))"
      using False by (subst rc_read_init.simps) auto
    then show ?thesis using "1.prems" by (auto split: if_splits)
  qed
qed

text \<open>A decoder between two calls, with the dictionary and the output \<open>H\<close> it stands for.\<close>

definition coder_ok :: "byte list \<Rightarrow> lzma_lzma1_decoder \<Rightarrow> lzma_dict \<Rightarrow> bool" where
  "coder_ok H coder dict \<longleftrightarrow> vars_ok 0 H (lzma_lzma1_decoder.extend coder (lzma_vars.fields dict 0 False))"

lemma vars_ok_coder:
  "vars_ok n H v \<longleftrightarrow> coder_ok H (lzma_lzma1_decoder.truncate v) (v_dict v) \<and> v_in_pos v \<le> n \<and> (v_eopm_is_valid v \<longrightarrow> eopm_allowed v)"
  by (cases v) (auto simp: coder_ok_def lzma_lzma1_decoder.defs lzma_vars.defs vars_ok_def seq_ok_def len_ok_def eopm_allowed_def rc_of_def rc_pos_def rc_ok_def Let_def
      split: sequence.splits)

lemmas coder_defs = lzma_lzma1_decoder.defs lzma_vars.defs

lemma coder_ok_dict: "coder_ok H coder dict \<Longrightarrow> dict_ok dict H"
  by (simp add: coder_ok_def coder_defs vars_ok_def)

lemma dict_ok_limit:
  assumes "dict_ok dict H" "dict_pos dict \<le> l" "l \<le> dict_size dict"
  shows "dict_ok (dict\<lparr>dict_limit := l\<rparr>) H"
proof -
  have "dict_index (dict\<lparr>dict_limit := l\<rparr>) k = dict_index dict k" for k by (simp add: dict_index_def)
  then show ?thesis using assms unfolding dict_ok_def by auto
qed

lemma coder_ok_limit:
  assumes "coder_ok H coder dict" "rd_range rc = rd_range (d_rc coder)" "dict_pos dict \<le> l" "l \<le> dict_size dict"
  shows "coder_ok H (coder\<lparr>d_rc := rc\<rparr>) (dict\<lparr>dict_limit := l\<rparr>)"
proof -
  have "dict_ok (dict\<lparr>dict_limit := l\<rparr>) H" using coder_ok_dict [OF assms(1)] assms(3,4) by (rule dict_ok_limit)
  then show ?thesis using assms(1,2)
    by (simp add: coder_ok_def coder_defs vars_ok_def seq_ok_def near_def len_ok_def eopm_allowed_def rc_of_def rc_pos_def rc_ok_def Let_def split: sequence.splits)
qed


text \<open>A call that gets past the first five bytes is a run of the loop from the variables it starts with.\<close>

definition start_vars :: "lzma_lzma1_decoder \<Rightarrow> lzma_range_decoder \<Rightarrow> lzma_dict \<Rightarrow> nat \<Rightarrow> lzma_vars" where
  "start_vars coder rc dict in_pos =
     lzma_lzma1_decoder.extend (coder\<lparr>d_rc := rc\<rparr>)
       (lzma_vars.fields dict in_pos (\<not> d_uncompressed_size coder \<noteq> LZMA_VLI_UNKNOWN))"

lemma start_vars_ok:
  assumes "coder_ok H (coder\<lparr>d_rc := rc\<rparr>) dict" "in_pos \<le> n"
  shows "vars_ok n H (start_vars coder rc dict in_pos)"
proof -
  have "lzma_lzma1_decoder.truncate (start_vars coder rc dict in_pos) = coder\<lparr>d_rc := rc\<rparr>"
    "v_dict (start_vars coder rc dict in_pos) = dict" "v_in_pos (start_vars coder rc dict in_pos) = in_pos"
    "v_eopm_is_valid (start_vars coder rc dict in_pos) \<longrightarrow> eopm_allowed (start_vars coder rc dict in_pos)"
    by (cases coder, simp add: start_vars_def coder_defs eopm_allowed_def)+
  then show ?thesis using assms by (simp add: vars_ok_coder)
qed

lemma start_vars_simps [simp]:
  "v_dict (start_vars coder rc dict in_pos) = dict" "v_in_pos (start_vars coder rc dict in_pos) = in_pos"
  "rc_pos (rc_of (start_vars coder rc dict in_pos)) = in_pos"
  "d_uncompressed_size (start_vars coder rc dict in_pos) = d_uncompressed_size coder"
  "d_allow_eopm (start_vars coder rc dict in_pos) = d_allow_eopm coder"
  by (simp_all add: start_vars_def coder_defs rc_of_def rc_pos_def)

lemma dict_limit_fits: "dict_ok dict H \<Longrightarrow> dict_pos dict \<le> dict_limit dict \<and> dict_limit dict \<le> dict_size dict"
  by (simp add: dict_ok_def)

text \<open>The room of the dictionary is cut to the data that are left, if all of them fit.\<close>

definition cut_limit :: "lzma_lzma1_decoder \<Rightarrow> lzma_dict \<Rightarrow> bool \<times> lzma_dict" where
  "cut_limit coder dict =
     (let might_finish = (d_uncompressed_size coder \<noteq> LZMA_VLI_UNKNOWN \<and> unat (d_uncompressed_size coder) \<le> dict_limit dict - dict_pos dict)
      in (might_finish, if might_finish then dict\<lparr>dict_limit := dict_pos dict + unat (d_uncompressed_size coder)\<rparr> else dict))"


lemma cut_limit_ok:
  assumes "coder_ok H coder dict" "rd_range rc = rd_range (d_rc coder)" "cut_limit coder dict = (mf, dict')"
  shows "coder_ok H (coder\<lparr>d_rc := rc\<rparr>) dict'"
proof -
  note d = dict_limit_fits [OF coder_ok_dict [OF assms(1)]]
  have "dict' = dict\<lparr>dict_limit := (if mf then dict_pos dict + unat (d_uncompressed_size coder) else dict_limit dict)\<rparr>"
    using assms(3) by (auto simp: cut_limit_def Let_def)
  moreover have "mf \<Longrightarrow> dict_pos dict + unat (d_uncompressed_size coder) \<le> dict_size dict"
    using d assms(3) by (auto simp: cut_limit_def Let_def)
  ultimately show ?thesis using coder_ok_limit [OF assms(1,2)] d by simp
qed

lemma loop_from_start:
  assumes "coder_ok H coder dict" "rd_range rc = rd_range (d_rc coder)" "cut_limit coder dict = (mf, dict')" "in_pos \<le> n"
    and "fast_end + LZMA_IN_REQUIRED \<le> n \<or> fast_end \<le> in_pos"
  shows "\<exists>ret w K. decode_loop mf fast_end inb n False (start_vars coder rc dict' in_pos) = Some (ret, w)
    \<and> stop_ok n (H @ K) ret w \<and> same_setup K w (start_vars coder rc dict' in_pos)"
  using start_vars_ok [OF cut_limit_ok [OF assms(1-3)] assms(4)] assms(5)
  by (intro decode_loop_total) (simp_all add: fast_end_ok_def)

text \<open>How the function ends after its loop.\<close>

definition wind_up :: "lzma_lzma1_decoder \<Rightarrow> lzma_dict \<Rightarrow> lzma_ret \<times> lzma_vars \<Rightarrow> lzma_ret \<times> lzma_lzma1_decoder \<times> lzma_dict \<times> nat" where
  "wind_up coder0 dictptr rv =
     (let (ret, v) = rv;
          known = (d_uncompressed_size coder0 \<noteq> LZMA_VLI_UNKNOWN);
          coder = lzma_lzma1_decoder.truncate v;
          size = (if known then d_uncompressed_size coder - of_nat (dict_pos (v_dict v) - dict_pos dictptr) else d_uncompressed_size coder);
          ret = (if known \<and> size = 0 \<and> ret = LZMA_OK \<and> d_sequence coder \<in> {SEQ_LITERAL_WRITE, SEQ_SHORTREP, SEQ_COPY} then LZMA_DATA_ERROR else ret);
          coder = coder\<lparr>d_uncompressed_size := size\<rparr>
      in (ret, if ret = LZMA_STREAM_END then coder\<lparr>d_rc := rd_reset (d_rc coder), d_sequence := SEQ_IS_MATCH\<rparr> else coder,
          (v_dict v)\<lparr>dict_limit := dict_limit dictptr\<rparr>, v_in_pos v))"

lemma lzma_decode_built_unfold:
  assumes "rc_read_init (d_rc coder) inb in_pos n = (ret, rc, p)" "cut_limit coder dict = (mf, dict')"
  shows "lzma_decode_built small inb n coder dict in_pos =
    (if ret \<noteq> LZMA_STREAM_END then Some (ret, coder\<lparr>d_rc := rc\<rparr>, dict, p)
     else map_option (wind_up coder dict)
       (decode_loop mf (if small then 0 else if n - p \<le> LZMA_IN_REQUIRED then p else n - LZMA_IN_REQUIRED) inb n False (start_vars coder rc dict' p)))"
proof -
  let ?fe = "if small then 0 else if n - p \<le> LZMA_IN_REQUIRED then p else n - LZMA_IN_REQUIRED"
  have "mf = (d_uncompressed_size coder \<noteq> LZMA_VLI_UNKNOWN \<and> unat (d_uncompressed_size coder) \<le> dict_limit dict - dict_pos dict)"
    "dict' = (if mf then dict\<lparr>dict_limit := dict_pos dict + unat (d_uncompressed_size coder)\<rparr> else dict)"
    using assms(2) by (auto simp: cut_limit_def Let_def)
  then show ?thesis
    by (cases "decode_loop mf ?fe inb n False (start_vars coder rc dict' p)")
      (simp_all add: lzma_decode_built_def assms(1) Let_def wind_up_def start_vars_def cong: if_cong split: prod.split)
qed


section \<open>Resetting\<close>

lemma probs_ok_fold: "probs_ok m \<Longrightarrow> (\<And>x m. probs_ok m \<Longrightarrow> probs_ok (f x m)) \<Longrightarrow> probs_ok (fold f xs m)"
  by (induction xs arbitrary: m) simp_all

lemma probs_ok_bit_reset: "probs_ok m \<Longrightarrow> probs_ok (bit_reset a m)"
  by (simp add: probs_ok_def bit_reset_def RC_BIT_MODEL_TOTAL_def)

lemma probs_ok_bittree_reset: "probs_ok m \<Longrightarrow> probs_ok (bittree_reset a bits m)"
  unfolding bittree_reset_def by (rule probs_ok_fold) (simp_all add: probs_ok_bit_reset)

lemma probs_ok_literal_init: "probs_ok m \<Longrightarrow> probs_ok (literal_init a lc lp m)"
  unfolding literal_init_def Let_def by (intro probs_ok_fold) (simp_all add: probs_ok_bit_reset)

lemma probs_ok_reset:
  "probs_ok m \<Longrightarrow> probs_ok (reset_states k m)" "probs_ok m \<Longrightarrow> probs_ok (reset_dists m)" "probs_ok m \<Longrightarrow> probs_ok (reset_lens k m)"
  unfolding reset_states_def reset_dists_def reset_lens_def comp_def
  by (intro probs_ok_fold probs_ok_bit_reset probs_ok_bittree_reset; simp)+

lemma lzma_decoder_reset_ok:
  assumes "dict_ok dict H" "probs_ok (d_store coder)"
  shows "coder_ok H (lzma_decoder_reset coder options) dict"
  using assms probs_ok_reset probs_ok_literal_init
  by (simp add: coder_ok_def coder_defs lzma_decoder_reset_def vars_ok_def seq_ok_def near_def is_literal_state_def rc_of_def rc_pos_def rc_ok_def
    rd_reset_def RANGE_MIN_def Let_def eopm_allowed_def STATE_LIT_LIT_def LIT_STATES_def)

lemma lzma_decoder_uncompressed_ok:
  assumes "coder_ok H coder dict" "d_sequence coder = SEQ_IS_MATCH"
  shows "coder_ok H (lzma_decoder_uncompressed coder u allow) dict"
  using assms by (simp add: coder_ok_def coder_defs lzma_decoder_uncompressed_def vars_ok_def seq_ok_def near_def rc_of_def rc_pos_def rc_ok_def Let_def)

section \<open>Every call\<close>

lemma fast_end_fits:
  assumes "p \<le> n" "fe = (if small then 0 else if n - p \<le> LZMA_IN_REQUIRED then p else n - LZMA_IN_REQUIRED)"
  shows "fe + LZMA_IN_REQUIRED \<le> n \<or> fe \<le> p"
  using assms by (auto split: if_splits)



text \<open>
  C9: The fast mode of the LZMA decoder changes nothing. From a decoder in order the function built
  with its fast mode, which decodes whole symbols with unrolled loops while twenty bytes of
  input are left, and the function built with \<^verbatim>\<open>HAVE_SMALL\<close>, which takes bit after bit and can
  stop before each of them, return the same result, decoder, dictionary and position on any input.
\<close>

theorem lzma_decode_modes_agree:
  assumes "coder_ok H coder dict" and "in_pos \<le> in_size"
  shows "lzma_decode_built True inb in_size coder dict in_pos = lzma_decode_built False inb in_size coder dict in_pos"
proof -
  obtain ret rc p where i: "rc_read_init (d_rc coder) inb in_pos in_size = (ret, rc, p)" by (metis prod_cases3)
  obtain mf dict1 where c: "cut_limit coder dict = (mf, dict1)" by fastforce
  note init = rc_read_init_safe [OF i assms(2)]
  let ?fe = "if False then 0 else if in_size - p \<le> LZMA_IN_REQUIRED then p else in_size - LZMA_IN_REQUIRED"
  have p: "p \<le> in_size" "rd_range rc = rd_range (d_rc coder)" using init by simp_all
  obtain out where out: "decode_loop mf ?fe inb in_size False (start_vars coder rc dict1 p) = Some out"
    using loop_from_start [OF assms(1) p(2) c p(1) fast_end_fits [OF p(1) refl, where small = False]] by blast
  then have "decode_loop mf 0 inb in_size False (start_vars coder rc dict1 p) = Some out" by (rule decode_loop_modes) simp
  then show ?thesis using out by (simp add: lzma_decode_built_unfold [OF i c])
qed

text \<open>
  Twenty bytes of input are enough for any symbol. In the fast mode, which does not look whether
  there is input, a decoder in order at the start of a symbol with room in the dictionary decodes the
  symbol completely, whatever the bytes and the probabilities are, and reads at most
  \<open>LZMA_IN_REQUIRED\<close> bytes more than the input position it starts from.
\<close>

theorem fast_symbol_reads_within:
  assumes "vars_ok in_size H v" and "d_sequence v = SEQ_IS_MATCH" and "dict_pos (v_dict v) \<noteq> dict_limit (v_dict v)"
    and "v_in_pos v + LZMA_IN_REQUIRED \<le> in_size"
  shows "\<exists>r. fast_symbol inb in_size v = Some r \<and> v_in_pos (outcome_vars r) \<le> v_in_pos v + LZMA_IN_REQUIRED"
  using fast_symbol_served [OF assms(1-3), of inb] assms(4) by (auto simp: served_def rc_of_def rc_pos_def)

text \<open>A decoder after its reset, over an empty dictionary.\<close>

definition example_decoder :: lzma_lzma1_decoder where
  "example_decoder = lzma_decoder_uncompressed (lzma_decoder_reset
     \<lparr>d_store = (\<lambda>_. 1024), d_rc = \<lparr>rd_range = 0, rd_code = 0, init_bytes_left = 0\<rparr>, d_state = STATE_LIT_LIT, d_rep0 = 0, d_rep1 = 0, d_rep2 = 0,
       d_rep3 = 0, d_pos_mask = 0, d_literal_context_bits = 0, d_literal_mask = 0, d_uncompressed_size = 0, d_allow_eopm = False,
       d_sequence = SEQ_IS_MATCH, d_probs = 0, d_symbol = 0, d_limit = 0, d_offset = 0, d_len = 0\<rparr>
     \<lparr>opt_lc = 3, opt_lp = 0, opt_pb = 2\<rparr>) LZMA_VLI_UNKNOWN False"

lemma example_decoder_ok: "coder_ok [] example_decoder example_dict"
proof -
  have "dict_ok example_dict []" by (simp add: example_dict_def lz_decoder_reset_def dict_ok_def dict_consts)
  then show ?thesis unfolding example_decoder_def
    by (intro lzma_decoder_uncompressed_ok lzma_decoder_reset_ok) (simp_all add: probs_ok_def lzma_decoder_reset_def Let_def)
qed


theorem lzma_decode_modes_agree_witness:
  "lzma_decode_built True (0 # replicate 29 170) 30 example_decoder example_dict 0
     = lzma_decode_built False (0 # replicate 29 170) 30 example_decoder example_dict 0"
  by (rule lzma_decode_modes_agree [OF example_decoder_ok]) simp

theorem fast_symbol_reads_within_witness:
  "\<exists>r. fast_symbol (replicate 20 170) 20 (start_vars example_decoder (rd_reset (d_rc example_decoder)) example_dict 0) = Some r
    \<and> v_in_pos (outcome_vars r) \<le> 20"
proof -
  let ?v = "start_vars example_decoder (rd_reset (d_rc example_decoder)) example_dict 0"
  have "coder_ok [] (example_decoder\<lparr>d_rc := rd_reset (d_rc example_decoder)\<rparr>) (example_dict\<lparr>dict_limit := dict_limit example_dict\<rparr>)"
    by (intro coder_ok_limit [OF example_decoder_ok])
      (simp_all add: example_decoder_def lzma_decoder_uncompressed_def lzma_decoder_reset_def rd_reset_def example_dict_def lz_decoder_reset_def dict_consts Let_def)
  then have "vars_ok 20 [] ?v" by (intro start_vars_ok) simp_all
  moreover have "d_sequence ?v = SEQ_IS_MATCH" "dict_pos (v_dict ?v) \<noteq> dict_limit (v_dict ?v)" "v_in_pos ?v + LZMA_IN_REQUIRED \<le> 20"
    by (simp_all add: start_vars_def coder_defs example_decoder_def lzma_decoder_uncompressed_def lzma_decoder_reset_def example_dict_def
      lz_decoder_reset_def dict_consts LZMA_IN_REQUIRED_def Let_def)
  ultimately show ?thesis using fast_symbol_reads_within [of 20 "[]" ?v "replicate 20 170"] by (simp add: LZMA_IN_REQUIRED_def)
qed

end
