(* ===== verification/Lzma_Vli.thy ===== *)
theory Lzma_Vli
  imports Lzma_Base
begin

text \<open>
  Variable-length integers of the .xz format: \<^verbatim>\<open>common/vli_size.c\<close>,
  \<^verbatim>\<open>common/vli_encoder.c\<close> and \<^verbatim>\<open>common/vli_decoder.c\<close>, in both the single-call mode
  (\<open>vli_pos\<close> is the null pointer, \<open>None\<close>) and the resumable multi-call mode.
  \<open>vli_bytes\<close> is the abstract encoding; the encoder writes exactly these bytes, the
  decoder accepts exactly these bytes, however the buffers are cut into calls.
\<close>

section \<open>Arithmetic of seven-bit groups\<close>

lemma unat_drop_7: "unat (drop_bit 7 (v :: lzma_vli)) = unat v div 128"
  by (simp add: unat_drop_bit_eq) (simp add: drop_bit_eq_div)

lemma drop_7_less: "drop_bit 7 (v :: lzma_vli) \<noteq> 0 \<Longrightarrow> unat (drop_bit 7 v) < unat v"
  by (cases "v = 0") (auto simp: unat_drop_7 unat_gt_0)

lemma drop_7_eq_0_iff: "drop_bit 7 (v :: lzma_vli) = 0 \<longleftrightarrow> v < 0x80"
  by (simp add: word_less_nat_alt unat_drop_7 flip: unat_eq_0) (simp add: div_eq_0_iff)

lemma ge_80_drop_7_less: "v \<ge> (0x80 :: lzma_vli) \<Longrightarrow> unat (drop_bit 7 v) < unat v"
  using drop_7_eq_0_iff [of v] by (auto intro: drop_7_less)

section \<open>The operations\<close>

function vli_size_loop :: "lzma_vli \<Rightarrow> nat \<Rightarrow> nat" where
  "vli_size_loop vli i =
     (let vli = drop_bit 7 vli; i = Suc i in if vli \<noteq> 0 then vli_size_loop vli i else i)"
  by pat_completeness auto

termination
  by (relation "measure (\<lambda>(v, i). unat v)") (auto intro: drop_7_less)

definition lzma_vli_size :: "lzma_vli \<Rightarrow> nat" where
  "lzma_vli_size vli = (if vli > LZMA_VLI_MAX then 0 else vli_size_loop vli 0)"

text \<open>The loop of the encoder; \<open>single\<close> records that \<open>vli_pos\<close> was the null pointer.\<close>

function vli_encode_loop :: "bool \<Rightarrow> lzma_vli \<Rightarrow> nat \<Rightarrow> byte list \<Rightarrow> nat \<Rightarrow> nat
    \<Rightarrow> lzma_ret \<times> nat \<times> byte list \<times> nat" where
  "vli_encode_loop single vli vli_pos out out_pos out_size =
     (if vli \<ge> 0x80 then
        let vli_pos = Suc vli_pos;
            out = out[out_pos := ucast vli OR 0x80];
            vli = drop_bit 7 vli;
            out_pos = Suc out_pos
        in if out_pos = out_size
           then (if single then LZMA_PROG_ERROR else LZMA_OK, vli_pos, out, out_pos)
           else vli_encode_loop single vli vli_pos out out_pos out_size
      else (if single then LZMA_OK else LZMA_STREAM_END,
            Suc vli_pos, out[out_pos := ucast vli], Suc out_pos))"
  by pat_completeness auto
termination
  by (relation "measure (\<lambda>(s, v, p, out, op, os). unat v)") (auto intro: ge_80_drop_7_less)

definition lzma_vli_encode :: "lzma_vli \<Rightarrow> nat option \<Rightarrow> byte list \<Rightarrow> nat \<Rightarrow> nat
    \<Rightarrow> lzma_ret \<times> nat option \<times> byte list \<times> nat" where
  "lzma_vli_encode vli vli_pos out out_pos out_size =
     (if out_pos \<ge> out_size
      then (if vli_pos = None then LZMA_PROG_ERROR else LZMA_BUF_ERROR, vli_pos, out, out_pos)
      else let single = (vli_pos = None); pos = (case vli_pos of None \<Rightarrow> 0 | Some n \<Rightarrow> n)
           in if pos \<ge> LZMA_VLI_BYTES_MAX \<or> vli > LZMA_VLI_MAX
              then (LZMA_PROG_ERROR, vli_pos, out, out_pos)
              else case vli_encode_loop single (drop_bit (pos * 7) vli) pos out out_pos out_size of
                     (ret, pos', out', out_pos') \<Rightarrow>
                       (ret, if single then None else Some pos', out', out_pos'))"

text \<open>
  The loop of the decoder: the value so far, the number of bytes of it and the input
  position; the result has the code and all three.
\<close>

function vli_decode_loop :: "bool \<Rightarrow> lzma_vli \<Rightarrow> nat \<Rightarrow> byte list \<Rightarrow> nat \<Rightarrow> nat
    \<Rightarrow> lzma_ret \<times> lzma_vli \<times> nat \<times> nat" where
  "vli_decode_loop single vli vli_pos inb in_pos in_size =
     (let byte = inb ! in_pos;
          in_pos = Suc in_pos;
          vli = vli + push_bit (vli_pos * 7) (ucast (byte AND 0x7F));
          vli_pos = Suc vli_pos
      in if byte AND 0x80 = 0 then
           (if byte = 0 \<and> vli_pos > 1 then (LZMA_DATA_ERROR, vli, vli_pos, in_pos)
            else (if single then LZMA_OK else LZMA_STREAM_END, vli, vli_pos, in_pos))
         else if vli_pos = LZMA_VLI_BYTES_MAX then (LZMA_DATA_ERROR, vli, vli_pos, in_pos)
         else if in_pos < in_size then vli_decode_loop single vli vli_pos inb in_pos in_size
         else (if single then LZMA_DATA_ERROR else LZMA_OK, vli, vli_pos, in_pos))"
  by pat_completeness auto
termination
  by (relation "measure (\<lambda>(s, v, p, inb, ip, is). is - ip)") auto

text \<open>
  \<open>vli\<close> is the content of \<open>*vli\<close> at entry, which matters only when a multi-call
  decoding continues.
\<close>

definition lzma_vli_decode :: "lzma_vli \<Rightarrow> nat option \<Rightarrow> byte list \<Rightarrow> nat \<Rightarrow> nat
    \<Rightarrow> lzma_ret \<times> lzma_vli \<times> nat option \<times> nat" where
  "lzma_vli_decode vli vli_pos inb in_pos in_size =
     (case vli_pos of
        None \<Rightarrow>
          (if in_pos \<ge> in_size then (LZMA_DATA_ERROR, 0, None, in_pos)
           else case vli_decode_loop True 0 0 inb in_pos in_size of
                  (ret, v, p, in_pos') \<Rightarrow> (ret, v, None, in_pos'))
      | Some pos \<Rightarrow>
          (let vli = (if pos = 0 then 0 else vli)
           in if pos \<ge> LZMA_VLI_BYTES_MAX \<or> drop_bit (pos * 7) vli \<noteq> 0
              then (LZMA_PROG_ERROR, vli, Some pos, in_pos)
              else if in_pos \<ge> in_size then (LZMA_BUF_ERROR, vli, Some pos, in_pos)
              else case vli_decode_loop False vli pos inb in_pos in_size of
                     (ret, v, p, in_pos') \<Rightarrow> (ret, v, Some p, in_pos')))"

declare vli_size_loop.simps [simp del]
  vli_encode_loop.simps [simp del]
  vli_decode_loop.simps [simp del]

section \<open>The abstract encoding\<close>

function vli_bytes :: "lzma_vli \<Rightarrow> byte list" where
  "vli_bytes vli = (if vli \<ge> 0x80 then (ucast vli OR 0x80) # vli_bytes (drop_bit 7 vli)
                    else [ucast vli])"
  by pat_completeness auto
termination
  by (relation "measure unat") (auto intro: ge_80_drop_7_less)

declare vli_bytes.simps [simp del]

lemma vli_bytes_not_Nil [simp]: "vli_bytes v \<noteq> []"
  by (subst vli_bytes.simps) simp

lemma vli_bytes_ge: "v \<ge> 0x80 \<Longrightarrow> vli_bytes v = (ucast v OR 0x80) # vli_bytes (drop_bit 7 v)"
  by (subst vli_bytes.simps) simp

lemma vli_bytes_less: "v < 0x80 \<Longrightarrow> vli_bytes v = [ucast v]"
  by (subst vli_bytes.simps) (simp add: not_le)

lemma length_vli_bytes_le:
  "unat v < 2 ^ (7 * n) \<Longrightarrow> 0 < n \<Longrightarrow> length (vli_bytes v) \<le> n"
proof (induction v arbitrary: n rule: vli_bytes.induct)
  case (1 v)
  show ?case
  proof (cases "v \<ge> 0x80")
    case True
    then have "128 \<le> unat v" by (simp add: word_le_nat_alt)
    with "1.prems" have n: "n \<noteq> 1" by (cases "n = 1") simp_all
    with "1.prems" obtain m where m: "n = Suc m" "0 < m" by (cases n) auto
    have "unat (drop_bit 7 v) < 2 ^ (7 * m)"
      using "1.prems" m by (simp add: unat_drop_7 less_mult_imp_div_less power_add mult.commute)
    with "1.IH" [OF True _ m(2)] True m show ?thesis by (simp add: vli_bytes_ge)
  next
    case False
    with "1.prems" show ?thesis by (simp add: vli_bytes_less)
  qed
qed

lemma VLI_MAX_iff: "v \<le> LZMA_VLI_MAX \<longleftrightarrow> unat v < 2 ^ 63"
  by (simp add: LZMA_VLI_MAX_def word_le_nat_alt) linarith

lemma length_vli_bytes_9: "v \<le> LZMA_VLI_MAX \<Longrightarrow> length (vli_bytes v) \<le> 9"
  using length_vli_bytes_le [of v 9] by (simp add: VLI_MAX_iff)

lemma vli_size_loop_eq: "vli_size_loop v i = i + length (vli_bytes v)"
proof (induction v arbitrary: i rule: vli_bytes.induct)
  case (1 v)
  show ?case
  proof (cases "v \<ge> 0x80")
    case True
    then have "drop_bit 7 v \<noteq> 0" by (simp add: drop_7_eq_0_iff)
    with "1.IH" [OF True, of "Suc i"] True show ?thesis
      by (subst vli_size_loop.simps) (simp add: vli_bytes_ge)
  next
    case False
    then have "drop_bit 7 v = 0" by (simp add: drop_7_eq_0_iff not_le)
    with False show ?thesis
      by (subst vli_size_loop.simps) (simp add: vli_bytes_less not_le)
  qed
qed

lemma lzma_vli_size_eq: "v \<le> LZMA_VLI_MAX \<Longrightarrow> lzma_vli_size v = length (vli_bytes v)"
  by (simp add: lzma_vli_size_def vli_size_loop_eq not_less)

section \<open>The encoder writes the abstract encoding\<close>

lemma vli_encode_loop_last:
  "v < 0x80 \<Longrightarrow> vli_encode_loop single v pos out out_pos out_size =
     (if single then LZMA_OK else LZMA_STREAM_END, Suc pos, out[out_pos := ucast v], Suc out_pos)"
  by (subst vli_encode_loop.simps) (metis not_le)

lemma vli_encode_loop_eq:
  "out_pos < out_size \<Longrightarrow> out_size \<le> length out \<Longrightarrow>
   vli_encode_loop single v pos out out_pos out_size =
     (let bs = vli_bytes v; n = min (length bs) (out_size - out_pos)
      in (if length bs \<le> out_size - out_pos then (if single then LZMA_OK else LZMA_STREAM_END)
          else (if single then LZMA_PROG_ERROR else LZMA_OK),
          pos + n, memcpy out out_pos (take n bs), out_pos + n))"
proof (induction single v pos out out_pos out_size rule: vli_encode_loop.induct)
  case (1 single v pos out out_pos out_size)
  show ?case
  proof (cases "v \<ge> 0x80")
    case False
    with "1.prems" show ?thesis
      by (simp add: vli_encode_loop_last vli_bytes_less not_le Let_def min_def memcpy_single Suc_le_eq)
  next
    case True
    show ?thesis
    proof (cases "Suc out_pos = out_size")
      case eq: True
      then have d: "out_size - out_pos = 1" by simp
      have "\<not> length (vli_bytes v) \<le> 1"
        using True by (simp add: vli_bytes_ge Suc_le_eq)
      with True eq d "1.prems" show ?thesis
        by (subst vli_encode_loop.simps) (simp add: vli_bytes_ge Let_def memcpy_single min_def)
    next
      case False
      with "1.prems" have lt: "Suc out_pos < out_size" by simp
      let ?n = "min (length (vli_bytes (drop_bit 7 v))) (out_size - Suc out_pos)"
      have n: "min (Suc (length (vli_bytes (drop_bit 7 v)))) (out_size - out_pos) = Suc ?n"
        using lt by simp
      from "1.IH" [OF True refl refl refl refl False] lt "1.prems" True show ?thesis
        by (subst vli_encode_loop.simps)
          (simp add: vli_bytes_ge Let_def n memcpy_Cons False less_imp_neq Suc_le_eq Suc_diff_Suc
             flip: Suc_diff_Suc)
    qed
  qed
qed

section \<open>The decoder accepts exactly the abstract encoding\<close>

lemma and_80_iff: "(b :: byte) AND 0x80 = 0 \<longleftrightarrow> unat b < 128"
proof -
  have "b AND 0x80 = 0 \<longleftrightarrow> \<not> bit b 7"
    using and_exp_eq_0_iff_not_bit [of b 7] by simp
  also have "bit b 7 \<longleftrightarrow> odd (unat b div 128)"
    using bit_iff_odd [of "unat b" 7] by (simp add: bit_unat_iff)
  also have "odd (unat b div 128) \<longleftrightarrow> 128 \<le> unat b"
  proof (cases "unat b < 128")
    case False
    then have "unat b div 128 = 1"
      using unsigned_less [of b, where ?'a = nat] by (intro div_nat_eqI) simp_all
    with False show ?thesis by simp
  qed simp
  finally show ?thesis by (simp only: not_le)
qed

lemma unat_and_7F: "unat ((b :: byte) AND 0x7F) = unat b mod 128"
proof -
  have "(b AND 0x7F) = take_bit 7 b"
    by (simp add: take_bit_eq_mask mask_numeral)
  then show ?thesis by (simp add: unsigned_take_bit_eq) (simp add: take_bit_eq_mod)
qed

lemma or_80_eq:
  assumes "unat (b :: byte) \<ge> 128" and "unat v mod 128 = unat b mod 128"
  shows "ucast (v :: lzma_vli) OR 0x80 = b"
proof (rule bit_word_eqI)
  fix n assume n: "n < LENGTH(8)"
  have b7: "bit b 7" using assms(1) and_80_iff [of b] and_exp_eq_0_iff_not_bit [of b 7] by simp
  have low: "bit v n = bit b n" if "n < 7"
  proof -
    have "take_bit 7 (unat v) = take_bit 7 (unat b)"
      using assms(2) by (simp add: take_bit_eq_mod)
    then have "bit (take_bit 7 (unat v)) n = bit (take_bit 7 (unat b)) n" by simp
    with that show ?thesis by (simp add: bit_take_bit_iff bit_unsigned_iff)
  qed
  have "bit (0x80 :: byte) n \<longleftrightarrow> n = 7"
    using bit_exp_iff [of 7 n, where ?'a = byte] n by auto
  with n b7 low show "bit (ucast v OR 0x80 :: byte) n = bit b n"
    by (cases "n = 7") (auto simp: bit_or_iff bit_unsigned_iff)
qed

text \<open>
  The decoder's loop succeeds exactly on an encoding: from \<open>pos\<close> bytes already read it
  adds the value whose encoding it has just consumed.
\<close>

lemma vli_decode_loop_Some:
  assumes "vli_decode_loop single acc pos inb in_pos in_size =
      (if single then LZMA_OK else LZMA_STREAM_END, v, pos', in_pos')"
    and "pos < LZMA_VLI_BYTES_MAX" and "in_pos < in_size" and "in_size \<le> length inb"
  shows "\<exists>w. v = acc + push_bit (pos * 7) w
      \<and> bytes_at inb in_pos (length (vli_bytes w)) = vli_bytes w
      \<and> pos' = pos + length (vli_bytes w) \<and> in_pos' = in_pos + length (vli_bytes w)
      \<and> pos' \<le> LZMA_VLI_BYTES_MAX \<and> in_pos' \<le> in_size
      \<and> unat w < 2 ^ (7 * (pos' - pos)) \<and> (0 < pos \<longrightarrow> w \<noteq> 0)"
  using assms
proof (induction single acc pos inb in_pos in_size arbitrary: v pos' in_pos'
    rule: vli_decode_loop.induct)
  case (1 single acc pos inb in_pos in_size)
  let ?b = "inb ! in_pos"
  let ?acc = "acc + push_bit (pos * 7) (ucast (?b AND 0x7F))"
  show ?case
  proof (cases "?b AND 0x80 = 0")
    case True
    then have b: "unat ?b < 128" by (simp add: and_80_iff)
    then have eq: "?b AND 0x7F = ?b" by (simp add: word_unat_eq_iff unat_and_7F)
    have lt: "(ucast ?b :: lzma_vli) < 0x80"
      using b by (simp add: word_less_nat_alt unat_ucast_up)
    from "1.prems" True have "v = ?acc" "pos' = Suc pos" "in_pos' = Suc in_pos"
      "0 < pos \<longrightarrow> ?b \<noteq> 0"
      by (subst (asm) vli_decode_loop.simps, auto simp: Let_def split: if_splits)+
    with "1.prems" b lt eq show ?thesis
      by (intro exI [of _ "ucast ?b"]) (simp add: vli_bytes_less bytes_at_Suc ucast_ucast_up ucast_up_eq_0 unat_ucast_up)
  next
    case False
    let ?rec = "vli_decode_loop single ?acc (Suc pos) inb (Suc in_pos) in_size"
    have unfold: "vli_decode_loop single acc pos inb in_pos in_size =
      (if Suc pos = LZMA_VLI_BYTES_MAX then (LZMA_DATA_ERROR, ?acc, Suc pos, Suc in_pos)
       else if Suc in_pos < in_size then ?rec
       else (if single then LZMA_DATA_ERROR else LZMA_OK, ?acc, Suc pos, Suc in_pos))"
      using False by (subst vli_decode_loop.simps) (simp add: Let_def)
    with "1.prems" have more: "Suc pos \<noteq> LZMA_VLI_BYTES_MAX" "Suc in_pos < in_size"
      by (auto split: if_splits)
    with "1.prems" unfold obtain w where w: "v = ?acc + push_bit (Suc pos * 7) w"
        "bytes_at inb (Suc in_pos) (length (vli_bytes w)) = vli_bytes w"
        "pos' = Suc pos + length (vli_bytes w)" "in_pos' = Suc in_pos + length (vli_bytes w)"
        "pos' \<le> LZMA_VLI_BYTES_MAX" "in_pos' \<le> in_size"
        "unat w < 2 ^ (7 * (pos' - Suc pos))" "w \<noteq> 0"
      using "1.IH" [OF refl refl refl refl False more] by auto
    let ?w = "ucast (?b AND 0x7F) + push_bit 7 w :: lzma_vli"
    have b: "unat ?b \<ge> 128" using False by (simp add: and_80_iff not_less)
    have k: "pos' - pos = Suc (pos' - Suc pos)" "pos' - Suc pos \<le> 8"
      using w(3,5) by (simp_all add: LZMA_VLI_BYTES_MAX_def)
    have "unat w < 2 ^ (7 * 8)"
      using w(7) k(2) by (meson less_le_trans mult_le_mono2 one_le_numeral power_increasing)
    then have uw: "unat ?w = unat ?b mod 128 + 128 * unat w"
      by (simp add: unat_word_ariths unat_ucast_up unat_and_7F push_bit_eq_mult)
    have "unat w \<ge> 1" using \<open>w \<noteq> 0\<close> by (simp add: unat_gt_0 Suc_le_eq)
    with uw have ge: "?w \<ge> 0x80" by (simp add: word_le_nat_alt)
    have dr: "drop_bit 7 ?w = w"
      by (simp only: word_unat_eq_iff unat_drop_7 uw)
    have hd: "ucast ?w OR 0x80 = ?b"
      by (rule or_80_eq [OF b]) (simp only: uw, simp)
    have enc: "vli_bytes ?w = ?b # vli_bytes w"
      by (simp only: vli_bytes_ge [OF ge] dr hd)
    have "unat ?w < 2 ^ (7 * (pos' - pos))"
      using w(7) unfolding uw k(1) by (simp add: power_add)
    moreover have "v = acc + push_bit (pos * 7) ?w"
      by (simp add: w(1) push_bit_add add.assoc add.commute)
    ultimately show ?thesis
      using w "1.prems" ge by (intro exI [of _ ?w]) (auto simp: enc bytes_at_Suc)
  qed
qed

lemma or_80_and_7F: "((x :: byte) OR 0x80) AND 0x7F = x AND 0x7F"
  by (simp add: bit.conj_disj_distrib2)

lemma seven_bit_join:
  "ucast ((ucast (w :: lzma_vli) OR 0x80 :: byte) AND 0x7F) + push_bit 7 (drop_bit 7 w) = w"
proof -
  have "unat w mod 128 + 128 * (unat w div 128) = unat w" by simp
  moreover have "unat (ucast w :: byte) mod 128 = unat w mod 128"
    by (simp add: unsigned_ucast_eq take_bit_eq_mod mod_mod_cancel)
  moreover have "unat w < 2 ^ 64"
    using unsigned_less [of w, where ?'a = nat] by simp
  ultimately show ?thesis
    by (simp add: word_unat_eq_iff unat_word_ariths unat_ucast_up or_80_and_7F unat_and_7F
        push_bit_eq_mult unat_drop_7)
qed

lemma or_80_and_80: "((x :: byte) OR 0x80) AND 0x80 \<noteq> 0"
  using and_exp_eq_0_iff_not_bit [of "x OR 0x80" 7] by (simp add: bit_or_iff)

lemma small_and_80: "w < (0x80 :: lzma_vli) \<Longrightarrow> (ucast w :: byte) AND 0x80 = 0"
  by (simp add: and_80_iff word_less_nat_alt unsigned_ucast_eq take_bit_eq_mod)

lemma small_and_7F: "w < (0x80 :: lzma_vli) \<Longrightarrow> ucast ((ucast w :: byte) AND 0x7F) = w"
  by (simp add: word_unat_eq_iff unat_ucast_up unat_and_7F word_less_nat_alt unsigned_ucast_eq
      take_bit_eq_mod)

lemma vli_decode_loop_bytes:
  assumes "bytes_at inb in_pos (length (vli_bytes w)) = vli_bytes w"
    and "pos + length (vli_bytes w) \<le> LZMA_VLI_BYTES_MAX" and "0 < pos \<longrightarrow> w \<noteq> 0"
    and "in_pos + length (vli_bytes w) \<le> in_size" and "in_size \<le> length inb"
  shows "vli_decode_loop single acc pos inb in_pos in_size =
     (if single then LZMA_OK else LZMA_STREAM_END, acc + push_bit (pos * 7) w,
      pos + length (vli_bytes w), in_pos + length (vli_bytes w))"
  using assms
proof (induction w arbitrary: acc pos in_pos rule: vli_bytes.induct)
  case (1 w)
  show ?case
  proof (cases "w \<ge> 0x80")
    case True
    note enc = vli_bytes_ge [OF True]
    from "1.prems" have b: "inb ! in_pos = ucast w OR 0x80"
      and rest: "bytes_at inb (Suc in_pos) (length (vli_bytes (drop_bit 7 w))) = vli_bytes (drop_bit 7 w)"
      by (auto simp: enc bytes_at_Suc)
    have nz: "drop_bit 7 w \<noteq> 0" using True by (simp add: drop_7_eq_0_iff)
    have len: "0 < length (vli_bytes (drop_bit 7 w))" by simp
    let ?acc = "acc + push_bit (pos * 7) (ucast ((ucast w OR 0x80 :: byte) AND 0x7F))"
    have "vli_decode_loop single acc pos inb in_pos in_size =
        vli_decode_loop single ?acc (Suc pos) inb (Suc in_pos) in_size"
      using "1.prems" len by (subst vli_decode_loop.simps)
        (auto simp: Let_def b or_80_and_80 enc simp del: length_greater_0_conv)
    also have "\<dots> = (if single then LZMA_OK else LZMA_STREAM_END,
        ?acc + push_bit (Suc pos * 7) (drop_bit 7 w),
        Suc pos + length (vli_bytes (drop_bit 7 w)), Suc in_pos + length (vli_bytes (drop_bit 7 w)))"
      by (rule "1.IH" [OF True rest]) (use "1.prems" nz in \<open>auto simp: enc\<close>)
    also have "?acc + push_bit (Suc pos * 7) (drop_bit 7 w) = acc + push_bit (pos * 7) w"
      by (subst (3) seven_bit_join [symmetric])
        (simp add: push_bit_add add.assoc add.commute)
    finally show ?thesis by (simp add: enc)
  next
    case False
    then have lt: "w < 0x80" by simp
    with "1.prems" have b: "inb ! in_pos = ucast w"
      by (auto simp: vli_bytes_less bytes_at_Suc)
    have z: "(ucast w :: byte) = 0 \<longleftrightarrow> w = 0"
      using small_and_7F [OF lt] by (metis and_zero_eq unsigned_0 zero_and_eq)
    from "1.prems" lt show ?thesis
      by (subst vli_decode_loop.simps)
        (auto simp: Let_def b vli_bytes_less small_and_80 small_and_7F z)
  qed
qed

lemma vli_decode_loop_split:
  "in_pos < mid \<Longrightarrow> mid \<le> in_size \<Longrightarrow>
   vli_decode_loop False acc pos inb in_pos in_size =
     (case vli_decode_loop False acc pos inb in_pos mid of
        (ret, v, p, ip) \<Rightarrow> if ret = LZMA_OK \<and> ip < in_size
                         then vli_decode_loop False v p inb ip in_size else (ret, v, p, ip))"
proof (induction False acc pos inb in_pos mid rule: vli_decode_loop.induct)
  case (1 acc pos inb in_pos mid)
  let ?v = "acc + push_bit (pos * 7) (ucast (inb ! in_pos AND 0x7F))"
  note here = vli_decode_loop.simps [of False acc pos inb in_pos, unfolded Let_def]
  consider (stop) "inb ! in_pos AND 0x80 = 0 \<or> Suc pos = LZMA_VLI_BYTES_MAX"
    | (more) "inb ! in_pos AND 0x80 \<noteq> 0" "Suc pos \<noteq> LZMA_VLI_BYTES_MAX" "Suc in_pos < mid"
    | (pause) "inb ! in_pos AND 0x80 \<noteq> 0" "Suc pos \<noteq> LZMA_VLI_BYTES_MAX" "Suc in_pos = mid"
    using "1.prems"(1) by linarith
  then show ?case
  proof cases
    case stop
    then show ?thesis unfolding here [of in_size] here [of mid] by (elim disjE) simp_all
  next
    case more
    then have "Suc in_pos < in_size" using "1.prems"(2) by simp
    with more "1.hyps" [OF refl refl refl refl] "1.prems"(2) show ?thesis
      unfolding here [of in_size] here [of mid] by simp
  next
    case pause
    then show ?thesis using "1.prems"(2) unfolding here [of in_size] here [of mid] by simp
  qed
qed

lemma drop_bit_eq_0_iff_unat: "drop_bit n (v :: lzma_vli) = 0 \<longleftrightarrow> unat v < 2 ^ n"
proof -
  have "drop_bit n v = 0 \<longleftrightarrow> unat v div 2 ^ n = 0"
    by (metis drop_bit_eq_div unat_drop_bit_eq unat_eq_0)
  then show ?thesis by (simp add: div_eq_0_iff)
qed

lemma unat_add_seven_bits:
  assumes "unat (acc :: lzma_vli) < 2 ^ (7 * pos)" and "pos < 9"
  shows "unat (acc + push_bit (pos * 7) (ucast ((b :: byte) AND 0x7F))) < 2 ^ (7 * Suc pos)"
proof -
  let ?m = "unat b mod 128"
  have "?m * 2 ^ (7 * pos) \<le> 127 * 2 ^ (7 * pos)" by (rule mult_le_mono1) simp
  with assms(1) have "unat acc + ?m * 2 ^ (7 * pos) < 128 * 2 ^ (7 * pos)" by linarith
  then have lt: "unat acc + ?m * 2 ^ (7 * pos) < 2 ^ (7 * Suc pos)"
    by (simp add: power_add)
  have "unat (acc + push_bit (pos * 7) (ucast (b AND 0x7F))) \<le>
      unat acc + unat (ucast (b AND 0x7F) :: lzma_vli) * 2 ^ (pos * 7)"
    by (rule le_trans [OF unat_add_le add_left_mono [OF unat_push_bit_le]])
  also have "\<dots> = unat acc + ?m * 2 ^ (7 * pos)"
    by (simp add: unat_ucast_up unat_and_7F mult.commute)
  finally have "unat (acc + push_bit (pos * 7) (ucast (b AND 0x7F))) \<le> unat acc + ?m * 2 ^ (7 * pos)" .
  with lt show ?thesis by linarith
qed

lemma vli_decode_loop_partial:
  "vli_decode_loop False acc pos inb in_pos in_size = (LZMA_OK, v, p, ip) \<Longrightarrow>
   pos < 9 \<Longrightarrow> unat acc < 2 ^ (7 * pos) \<Longrightarrow> in_pos < in_size \<Longrightarrow>
   p < 9 \<and> 0 < p \<and> unat v < 2 ^ (7 * p) \<and> ip = in_size"
proof (induction False acc pos inb in_pos in_size rule: vli_decode_loop.induct)
  case (1 acc pos inb in_pos in_size)
  note bound = unat_add_seven_bits [OF "1.prems"(3,2), of "inb ! in_pos"]
  show ?case
    using "1.prems" "1.hyps" [OF refl refl refl refl] bound
    by (subst (asm) vli_decode_loop.simps)
      (auto simp: Let_def LZMA_VLI_BYTES_MAX_def split: if_splits)
qed

lemma vli_bytes_drop:
  "k < length (vli_bytes v) \<Longrightarrow> vli_bytes (drop_bit (k * 7) v) = drop k (vli_bytes v)"
proof (induction k arbitrary: v)
  case (Suc k)
  have ge: "v \<ge> 0x80"
    using Suc.prems by (cases "v \<ge> 0x80") (auto simp: vli_bytes_less not_le)
  with Suc.prems have "k < length (vli_bytes (drop_bit 7 v))" by (simp add: vli_bytes_ge)
  from Suc.IH [OF this] show ?case by (simp add: vli_bytes_ge [OF ge] add.commute)
qed simp

section \<open>Correctness of the variable-length integers\<close>

text \<open>
  C34: Variable-length integers round-trip. For every value up to \<open>LZMA_VLI_MAX\<close> and an output
  buffer with room, the single-call encoder writes exactly \<open>lzma_vli_size\<close> bytes (one to
  nine) at \<open>out_pos\<close> and nothing else, and the single-call decoder reads the value back
  from them and stops right after them.
\<close>

theorem lzma_vli_roundtrip:
  assumes "vli \<le> LZMA_VLI_MAX" and "out_pos + lzma_vli_size vli \<le> out_size"
    and "out_size \<le> length out"
  shows "\<exists>out'. lzma_vli_encode vli None out out_pos out_size =
            (LZMA_OK, None, out', out_pos + lzma_vli_size vli)
      \<and> length out' = length out
      \<and> take out_pos out' = take out_pos out
      \<and> drop (out_pos + lzma_vli_size vli) out' = drop (out_pos + lzma_vli_size vli) out
      \<and> lzma_vli_decode junk None out' out_pos out_size =
            (LZMA_OK, vli, None, out_pos + lzma_vli_size vli)
      \<and> 1 \<le> lzma_vli_size vli \<and> lzma_vli_size vli \<le> 9"
proof -
  let ?n = "length (vli_bytes vli)"
  have sz: "lzma_vli_size vli = ?n" and n9: "?n \<le> 9" and n1: "1 \<le> ?n"
    using assms(1) by (simp_all add: lzma_vli_size_eq length_vli_bytes_9 Suc_le_eq)
  let ?out = "memcpy out out_pos (vli_bytes vli)"
  have pos: "out_pos < out_size" using assms(2) n1 unfolding sz by linarith
  have enc: "lzma_vli_encode vli None out out_pos out_size = (LZMA_OK, None, ?out, out_pos + ?n)"
    using assms pos by (simp add: lzma_vli_encode_def sz vli_encode_loop_eq LZMA_VLI_BYTES_MAX_def
        Let_def not_less)
  have "vli_decode_loop True 0 0 ?out out_pos out_size = (LZMA_OK, vli, ?n, out_pos + ?n)"
    using vli_decode_loop_bytes [of ?out out_pos vli 0 out_size True 0] assms n9
    by (simp add: sz LZMA_VLI_BYTES_MAX_def bytes_at_memcpy)
  with pos have dec: "lzma_vli_decode junk None ?out out_pos out_size = (LZMA_OK, vli, None, out_pos + ?n)"
    by (simp add: lzma_vli_decode_def)
  from enc dec n1 n9 assms show ?thesis
    by (intro exI [of _ ?out]) (simp add: sz take_memcpy drop_memcpy_end)
qed

theorem lzma_vli_roundtrip_witness:
  "\<exists>out'. lzma_vli_encode 300 None (replicate 4 0) 1 4 = (LZMA_OK, None, out', 1 + lzma_vli_size 300)
     \<and> lzma_vli_decode 7 None out' 1 4 = (LZMA_OK, 300, None, 1 + lzma_vli_size 300)"
proof -
  have "lzma_vli_size 300 = 2" by code_simp
  then show ?thesis
    using lzma_vli_roundtrip [of 300 1 4 "replicate 4 0" 7] by (auto simp: LZMA_VLI_MAX_def)
qed

text \<open>
  Only the shortest encoding is accepted. Whatever bytes the single-call decoder accepts,
  the value is in range, the bytes read are as many as \<open>lzma_vli_size\<close> says, and the
  encoder produces exactly those bytes for it: no value has two accepted encodings.
\<close>

theorem lzma_vli_decode_canonical:
  assumes "lzma_vli_decode junk None inb in_pos in_size = (LZMA_OK, v, vp, in_pos')"
    and "in_size \<le> length inb"
  shows "v \<le> LZMA_VLI_MAX \<and> in_pos' = in_pos + lzma_vli_size v \<and> in_pos' \<le> in_size
      \<and> (\<forall>out. length out = lzma_vli_size v \<longrightarrow>
           lzma_vli_encode v None out 0 (length out) =
             (LZMA_OK, None, bytes_at inb in_pos (lzma_vli_size v), lzma_vli_size v))"
proof -
  from assms obtain p where loop: "vli_decode_loop True 0 0 inb in_pos in_size = (LZMA_OK, v, p, in_pos')"
    and lt: "in_pos < in_size"
    by (auto simp: lzma_vli_decode_def split: if_splits prod.splits)
  with assms(2) vli_decode_loop_Some [of True 0 0 inb in_pos in_size v p in_pos']
  have w: "bytes_at inb in_pos (length (vli_bytes v)) = vli_bytes v"
      "p = length (vli_bytes v)" "in_pos' = in_pos + length (vli_bytes v)"
      "p \<le> 9" "in_pos' \<le> in_size" "unat v < 2 ^ (7 * p)"
    by (auto simp: LZMA_VLI_BYTES_MAX_def)
  have "(2::nat) ^ (7 * p) \<le> 2 ^ 63" using w(4) by (intro power_increasing) auto
  with w(6) have max: "v \<le> LZMA_VLI_MAX" by (simp add: VLI_MAX_iff)
  have n1: "1 \<le> length (vli_bytes v)" by (simp add: Suc_le_eq)
  have "lzma_vli_encode v None out 0 (length out) = (LZMA_OK, None, vli_bytes v, length out)"
    if "length out = length (vli_bytes v)" for out
    using that max n1 by (auto simp: lzma_vli_encode_def vli_encode_loop_eq LZMA_VLI_BYTES_MAX_def
        Let_def not_less memcpy_def)
  with w max show ?thesis by (simp add: lzma_vli_size_eq)
qed

theorem lzma_vli_decode_canonical_witness:
  "lzma_vli_decode 7 None [172, 2, 5] 0 3 = (LZMA_OK, 300, None, 2)
   \<and> lzma_vli_encode 300 None [0, 0] 0 2 = (LZMA_OK, None, [172, 2], 2)"
proof -
  have dec: "lzma_vli_decode 7 None [172, 2, 5] 0 3 = (LZMA_OK, 300, None, 2)"
    and size: "lzma_vli_size 300 = 2" by code_simp+
  with lzma_vli_decode_canonical [OF dec] show ?thesis by (auto simp: bytes_at_def)
qed

text \<open>
  Decoding can be interrupted anywhere. Running the multi-call decoder on the first part
  of the input and, while it asks for more, again on the rest gives the same code, value,
  counter and position as one call on the whole input, for every starting state.
\<close>

theorem lzma_vli_decode_resume:
  assumes "in_pos < mid" and "mid < in_size"
  shows "lzma_vli_decode vli (Some pos) inb in_pos in_size =
      (case lzma_vli_decode vli (Some pos) inb in_pos mid of
         (ret, v, p, ip) \<Rightarrow> if ret = LZMA_OK then lzma_vli_decode v p inb ip in_size
                          else (ret, v, p, ip))"
proof -
  let ?vli = "if pos = 0 then 0 else vli"
  show ?thesis
  proof (cases "pos \<ge> 9 \<or> drop_bit (pos * 7) ?vli \<noteq> 0")
    case True
    then show ?thesis by (auto simp: lzma_vli_decode_def LZMA_VLI_BYTES_MAX_def Let_def)
  next
    case False
    then have b: "unat ?vli < 2 ^ (7 * pos)" "pos < 9"
      by (auto simp: drop_bit_eq_0_iff_unat mult.commute)
    obtain ret v p ip where loop: "vli_decode_loop False ?vli pos inb in_pos mid = (ret, v, p, ip)"
      by (metis prod_cases4)
    show ?thesis
    proof (cases "ret = LZMA_OK")
      case ok: True
      with vli_decode_loop_partial [of ?vli pos inb in_pos mid v p ip] loop b assms(1)
      have pv: "p < 9" "0 < p" "unat v < 2 ^ (7 * p)" "ip = mid" by auto
      then have "drop_bit (p * 7) v = 0" by (simp add: drop_bit_eq_0_iff_unat mult.commute)
      with False loop ok pv assms show ?thesis
        using vli_decode_loop_split [of in_pos mid in_size ?vli pos inb]
        by (simp add: lzma_vli_decode_def LZMA_VLI_BYTES_MAX_def Let_def not_le)
    next
      case nok: False
      with False loop assms show ?thesis
        using vli_decode_loop_split [of in_pos mid in_size ?vli pos inb]
        by (simp add: lzma_vli_decode_def LZMA_VLI_BYTES_MAX_def Let_def not_le)
    qed
  qed
qed

theorem lzma_vli_decode_resume_witness:
  "lzma_vli_decode 0 (Some 0) [172, 2, 5] 0 3 =
     (case lzma_vli_decode 0 (Some 0) [172, 2, 5] 0 1 of
        (ret, v, p, ip) \<Rightarrow> if ret = LZMA_OK then lzma_vli_decode v p [172, 2, 5] ip 3
                         else (ret, v, p, ip))"
  by (rule lzma_vli_decode_resume) simp_all

lemma length_vli_bytes_shifted:
  assumes "vli \<le> LZMA_VLI_MAX" and "pos < 9"
  shows "pos + length (vli_bytes (drop_bit (pos * 7) vli)) \<le> 9"
proof -
  have "unat vli < 2 ^ (7 * (9 - pos)) * 2 ^ (pos * 7)"
  proof -
    have "7 * (9 - pos) + pos * 7 = 63" using assms(2) by simp
    with assms(1) show ?thesis by (simp only: VLI_MAX_iff flip: power_add)
  qed
  then have "unat (drop_bit (pos * 7) vli) < 2 ^ (7 * (9 - pos))"
    by (simp add: less_mult_imp_div_less unat_drop_bit_eq drop_bit_nat_def)
  from length_vli_bytes_le [OF this] assms(2) show ?thesis by simp
qed

text \<open>
  Encoding can be interrupted anywhere. Running the multi-call encoder into the first part
  of the output and, while it asks for more room, again into the rest gives the same code,
  counter, buffer and position as one call with the whole room.
\<close>

theorem lzma_vli_encode_resume:
  assumes "out_pos < mid" and "mid < out_size" and "out_size \<le> length out"
  shows "lzma_vli_encode vli (Some pos) out out_pos out_size =
      (case lzma_vli_encode vli (Some pos) out out_pos mid of
         (ret, p, o', op) \<Rightarrow> if ret = LZMA_OK then lzma_vli_encode vli p o' op out_size
                           else (ret, p, o', op))"
proof (cases "pos \<ge> 9 \<or> vli > LZMA_VLI_MAX")
  case True
  with assms show ?thesis by (auto simp: lzma_vli_encode_def LZMA_VLI_BYTES_MAX_def Let_def)
next
  case False
  let ?bs = "vli_bytes (drop_bit (pos * 7) vli)"
  have len: "pos + length ?bs \<le> 9" using False by (intro length_vli_bytes_shifted) auto
  obtain n m where nm: "mid = out_pos + n" "out_size = out_pos + (n + m)" "0 < n" "0 < m"
    using assms by (metis add.assoc less_imp_add_positive)
  show ?thesis
  proof (cases "length ?bs \<le> n")
    case True
    with nm assms(3) False show ?thesis
      by (auto simp: lzma_vli_encode_def LZMA_VLI_BYTES_MAX_def Let_def vli_encode_loop_eq)
  next
    case part: False
    then have n: "n < length ?bs" by simp
    have shift: "vli_bytes (drop_bit ((pos + n) * 7) vli) = drop n ?bs"
      using vli_bytes_drop [OF n] by (simp add: algebra_simps)
    have mem: "memcpy (memcpy out out_pos (take n ?bs)) (out_pos + n) (take k (drop n ?bs))
        = memcpy out out_pos (take (n + k) ?bs)" if "k \<le> m" for k
      using memcpy_append [of out_pos "take n ?bs" out "take k (drop n ?bs)"] n nm assms(3) that
      by (simp add: take_add)
    let ?k = "min (length ?bs - n) m"
    have split: "min (length ?bs) (n + m) = n + ?k" using n by simp
    from mem [of ?k] nm assms(3) False part n len shift show ?thesis
      by (auto simp: lzma_vli_encode_def LZMA_VLI_BYTES_MAX_def Let_def vli_encode_loop_eq
          split add.assoc)
  qed
qed

theorem lzma_vli_encode_resume_witness:
  "lzma_vli_encode 300 (Some 0) [0, 0, 0] 0 3 =
     (case lzma_vli_encode 300 (Some 0) [0, 0, 0] 0 1 of
        (ret, p, o', op) \<Rightarrow> if ret = LZMA_OK then lzma_vli_encode 300 p o' op 3
                          else (ret, p, o', op))"
  by (rule lzma_vli_encode_resume) simp_all

end
