(* ===== verification/Lzma_Crc.thy ===== *)
theory Lzma_Crc
  imports Lzma_Base
begin

text \<open>
  The cyclic redundancy checks of liblzma: the table generators
  \<^verbatim>\<open>check/crc32_tablegen.c\<close> and \<^verbatim>\<open>check/crc64_tablegen.c\<close>, the slice-by-eight CRC32 of
  \<^verbatim>\<open>check/crc32_fast.c\<close>, the slice-by-four CRC64 of \<^verbatim>\<open>check/crc64_fast.c\<close> and the
  byte-wise CRC32 of \<^verbatim>\<open>check/crc32_small.c\<close>, all on little-endian machines. They are
  compared with the bit-by-bit definition of a reflected CRC. The architecture specific
  versions (carry-less multiplication, ARM64 CRC instructions) that \<open>lzma_crc32\<close> may
  select at run time are not modelled.
\<close>

section \<open>Table generation\<close>

text \<open>The inner loop of the generators: \<open>n\<close> steps of the shift register.\<close>

primrec crc_shift :: "'a::len word \<Rightarrow> nat \<Rightarrow> 'a word \<Rightarrow> 'a word" where
  "crc_shift poly 0 r = r"
| "crc_shift poly (Suc i) r =
     crc_shift poly i (if r AND 1 \<noteq> 0 then drop_bit 1 r XOR poly else drop_bit 1 r)"

definition poly32 :: u32 where
  "poly32 = 0xEDB88320"

definition poly64 :: u64 where
  "poly64 = 0xC96C5795D7870F42"

text \<open>Entry \<open>b\<close> of row \<open>s\<close> as \<open>init_crc32_table\<close> and \<open>init_crc64_table\<close> compute it.\<close>

primrec crc32_table :: "nat \<Rightarrow> byte \<Rightarrow> u32" where
  "crc32_table 0 b = crc_shift poly32 8 (ucast b)"
| "crc32_table (Suc s) b = crc_shift poly32 8 (crc32_table s b)"

primrec crc64_table :: "nat \<Rightarrow> byte \<Rightarrow> u64" where
  "crc64_table 0 b = crc_shift poly64 8 (ucast b)"
| "crc64_table (Suc s) b = crc_shift poly64 8 (crc64_table s b)"

section \<open>The lookup macros\<close>

text \<open>The macros \<open>A\<close>, \<open>B\<close>, \<open>C\<close>, \<open>D\<close> and \<open>S8\<close>, \<open>S32\<close> of \<^verbatim>\<open>check/crc_common.h\<close>.\<close>

definition crc_A :: "'a::len word \<Rightarrow> byte" where "crc_A x = ucast (x AND 0xFF)"
definition crc_B :: "'a::len word \<Rightarrow> byte" where "crc_B x = ucast (drop_bit 8 x AND 0xFF)"
definition crc_C :: "'a::len word \<Rightarrow> byte" where "crc_C x = ucast (drop_bit 16 x AND 0xFF)"
definition crc_D :: "u32 \<Rightarrow> byte" where "crc_D x = ucast (drop_bit 24 x)"
definition crc_S8 :: "'a::len word \<Rightarrow> 'a word" where "crc_S8 x = drop_bit 8 x"
definition crc_S32 :: "u64 \<Rightarrow> u64" where "crc_S32 x = drop_bit 32 x"

section \<open>CRC32\<close>

text \<open>One byte with the first row of the table.\<close>

definition crc32_byte :: "byte \<Rightarrow> u32 \<Rightarrow> u32" where
  "crc32_byte b crc = crc32_table 0 (b XOR crc_A crc) XOR crc_S8 crc"

text \<open>
  The alignment loop: \<open>addr\<close> is the address of the first byte of the list. The rest of
  the bytes and the register are returned.
\<close>

fun crc32_align :: "nat \<Rightarrow> byte list \<Rightarrow> u32 \<Rightarrow> byte list \<times> u32" where
  "crc32_align addr [] crc = ([], crc)"
| "crc32_align addr (b # buf) crc =
     (if addr mod 8 \<noteq> 0 then crc32_align (Suc addr) buf (crc32_byte b crc) else (b # buf, crc))"

text \<open>One round of slice-by-eight over the two words \<open>w1\<close> and \<open>w2\<close>.\<close>

definition crc32_slice8_round :: "u32 \<Rightarrow> u32 \<Rightarrow> u32 \<Rightarrow> u32" where
  "crc32_slice8_round w1 w2 crc =
     (let crc = crc XOR w1;
          crc = crc32_table 7 (crc_A crc) XOR crc32_table 6 (crc_B crc)
                XOR crc32_table 5 (crc_C crc) XOR crc32_table 4 (crc_D crc);
          tmp = w2
      in crc32_table 3 (crc_A tmp) XOR crc32_table 2 (crc_B tmp) XOR crc
         XOR crc32_table 1 (crc_C tmp) XOR crc32_table 0 (crc_D tmp))"

text \<open>The loop up to \<open>limit\<close>: as long as eight bytes are left.\<close>

function crc32_slice8 :: "byte list \<Rightarrow> u32 \<Rightarrow> byte list \<times> u32" where
  "crc32_slice8 buf crc =
     (if length buf \<ge> 8
      then crc32_slice8 (drop 8 buf)
             (crc32_slice8_round (read32le buf 0) (read32le (drop 4 buf) 0) crc)
      else (buf, crc))"
  by pat_completeness auto
termination
  by (relation "measure (\<lambda>(buf, crc). length buf)") auto

declare crc32_slice8.simps [simp del]

definition lzma_crc32_generic :: "nat \<Rightarrow> byte list \<Rightarrow> u32 \<Rightarrow> u32" where
  "lzma_crc32_generic addr buf crc =
     (let crc = NOT crc;
          (buf, crc) =
            (if length buf > 8
             then case crc32_align addr buf crc of (buf, crc) \<Rightarrow> crc32_slice8 buf crc
             else (buf, crc));
          crc = fold crc32_byte buf crc
      in NOT crc)"

text \<open>\<open>lzma_crc32\<close> where no architecture specific version is built in.\<close>

definition lzma_crc32 :: "nat \<Rightarrow> byte list \<Rightarrow> u32 \<Rightarrow> u32" where
  "lzma_crc32 addr buf crc = lzma_crc32_generic addr buf crc"

text \<open>\<open>lzma_crc32\<close> of \<^verbatim>\<open>check/crc32_small.c\<close>, which is built instead when \<open>HAVE_SMALL\<close> is set.\<close>

definition lzma_crc32_small :: "byte list \<Rightarrow> u32 \<Rightarrow> u32" where
  "lzma_crc32_small buf crc =
     NOT (fold (\<lambda>b crc. crc32_table 0 (b XOR ucast (crc AND 0xFF)) XOR drop_bit 8 crc) buf (NOT crc))"

section \<open>CRC64\<close>

definition crc64_byte :: "byte \<Rightarrow> u64 \<Rightarrow> u64" where
  "crc64_byte b crc = crc64_table 0 (b XOR crc_A crc) XOR crc_S8 crc"

fun crc64_align :: "nat \<Rightarrow> byte list \<Rightarrow> u64 \<Rightarrow> byte list \<times> u64" where
  "crc64_align addr [] crc = ([], crc)"
| "crc64_align addr (b # buf) crc =
     (if addr mod 4 \<noteq> 0 then crc64_align (Suc addr) buf (crc64_byte b crc) else (b # buf, crc))"

definition crc64_slice4_round :: "u32 \<Rightarrow> u64 \<Rightarrow> u64" where
  "crc64_slice4_round w crc =
     (let tmp = ucast crc XOR w
      in crc64_table 3 (crc_A tmp) XOR crc64_table 2 (crc_B tmp) XOR crc_S32 crc
         XOR crc64_table 1 (crc_C tmp) XOR crc64_table 0 (crc_D tmp))"

function crc64_slice4 :: "byte list \<Rightarrow> u64 \<Rightarrow> byte list \<times> u64" where
  "crc64_slice4 buf crc =
     (if length buf \<ge> 4
      then crc64_slice4 (drop 4 buf) (crc64_slice4_round (read32le buf 0) crc)
      else (buf, crc))"
  by pat_completeness auto
termination
  by (relation "measure (\<lambda>(buf, crc). length buf)") auto

declare crc64_slice4.simps [simp del]

definition lzma_crc64_generic :: "nat \<Rightarrow> byte list \<Rightarrow> u64 \<Rightarrow> u64" where
  "lzma_crc64_generic addr buf crc =
     (let crc = NOT crc;
          (buf, crc) =
            (if length buf > 4
             then case crc64_align addr buf crc of (buf, crc) \<Rightarrow> crc64_slice4 buf crc
             else (buf, crc));
          crc = fold crc64_byte buf crc
      in NOT crc)"

definition lzma_crc64 :: "nat \<Rightarrow> byte list \<Rightarrow> u64 \<Rightarrow> u64" where
  "lzma_crc64 addr buf crc = lzma_crc64_generic addr buf crc"

section \<open>The reference: a reflected CRC bit by bit\<close>

definition crc_ref_byte :: "'a::len word \<Rightarrow> byte \<Rightarrow> 'a word \<Rightarrow> 'a word" where
  "crc_ref_byte poly b crc = crc_shift poly 8 (crc XOR ucast b)"

definition crc_ref :: "'a::len word \<Rightarrow> byte list \<Rightarrow> 'a word \<Rightarrow> 'a word" where
  "crc_ref poly buf crc = NOT (fold (crc_ref_byte poly) buf (NOT crc))"

section \<open>The shift register is linear\<close>

lemma and_1_iff: "(r :: 'a::len word) AND 1 \<noteq> 0 \<longleftrightarrow> bit r 0"
  using and_exp_eq_0_iff_not_bit [of r 0] by simp

lemma crc_shift_Suc:
  "crc_shift poly (Suc i) r = crc_shift poly i (drop_bit 1 r XOR (if bit r 0 then poly else 0))"
  by (simp only: crc_shift.simps and_1_iff) simp

lemma crc_shift_xor: "crc_shift poly n (a XOR b) = crc_shift poly n a XOR crc_shift poly n b"
proof (induction n arbitrary: a b)
  case (Suc n)
  have "drop_bit 1 (a XOR b) XOR (if bit (a XOR b) 0 then poly else 0) =
      (drop_bit 1 a XOR (if bit a 0 then poly else 0)) XOR (drop_bit 1 b XOR (if bit b 0 then poly else 0))"
    by (rule bit_word_eqI) (auto simp: bit_simps)
  then show ?case by (simp only: crc_shift_Suc Suc)
qed simp

lemma crc_shift_0 [simp]: "crc_shift poly n 0 = 0"
  using crc_shift_xor [of poly n 0 0] by simp

lemma crc_shift_add: "crc_shift poly (m + n) r = crc_shift poly n (crc_shift poly m r)"
  by (induction m arbitrary: r) simp_all

text \<open>As long as the low bits are zero the register only shifts.\<close>

lemma crc_shift_low_zero:
  "(\<forall>i<n. \<not> bit r i) \<Longrightarrow> crc_shift poly n r = drop_bit n r"
proof (induction n arbitrary: r)
  case (Suc n)
  have "\<forall>i<n. \<not> bit (drop_bit 1 r) i" using Suc.prems by (auto simp: bit_drop_bit_eq)
  with Suc show ?case by (simp del: crc_shift.simps add: crc_shift_Suc)
qed simp

lemma crc_shift_push_bit:
  assumes "drop_bit m (push_bit m r) = r"
  shows "crc_shift poly (m + n) (push_bit m r) = crc_shift poly n r"
proof -
  have "crc_shift poly m (push_bit m r) = drop_bit m (push_bit m r)"
    by (rule crc_shift_low_zero) (auto simp: bit_simps)
  with assms show ?thesis by (simp add: crc_shift_add)
qed

lemma crc_shift_split:
  "crc_shift poly n r = crc_shift poly n (take_bit n r) XOR drop_bit n r"
proof -
  have "r = take_bit n r XOR push_bit n (drop_bit n r)"
    by (rule bit_word_eqI) (auto simp: bit_simps)
  then have "crc_shift poly n r =
      crc_shift poly n (take_bit n r) XOR crc_shift poly n (push_bit n (drop_bit n r))"
    by (metis crc_shift_xor)
  also have "crc_shift poly n (push_bit n (drop_bit n r)) = drop_bit n (push_bit n (drop_bit n r))"
    by (rule crc_shift_low_zero) (auto simp: bit_simps)
  also have "drop_bit n (push_bit n (drop_bit n r)) = drop_bit n r"
    by (rule bit_word_eqI) (auto simp: bit_simps dest: bit_imp_le_length)
  finally show ?thesis .
qed

lemma crc32_table_eq: "crc32_table s b = crc_shift poly32 (8 * Suc s) (ucast b)"
  by (induction s) (simp_all add: crc_shift_add [symmetric] add.commute del: crc_shift.simps)

lemma crc64_table_eq: "crc64_table s b = crc_shift poly64 (8 * Suc s) (ucast b)"
  by (induction s) (simp_all add: crc_shift_add [symmetric] add.commute del: crc_shift.simps)

lemma crc_A_eq: "crc_A x = ucast x"
  by (rule bit_word_eqI) (auto simp: crc_A_def and_FF bit_simps)

lemma crc_B_eq: "crc_B x = ucast (drop_bit 8 x)"
  by (rule bit_word_eqI) (auto simp: crc_B_def and_FF bit_simps)

lemma crc_C_eq: "crc_C x = ucast (drop_bit 16 x)"
  by (rule bit_word_eqI) (auto simp: crc_C_def and_FF bit_simps)

lemmas crc_bytes = crc_A_eq crc_B_eq crc_C_eq crc_D_def

lemma crc_byte_lookup:
  assumes "8 \<le> LENGTH('a::len)"
  shows "crc_shift poly 8 (ucast (b XOR crc_A crc)) XOR crc_S8 crc = crc_ref_byte poly b (crc :: 'a word)"
proof -
  have "take_bit 8 (crc XOR ucast b) = ucast (b XOR crc_A crc)"
    using assms by (intro bit_word_eqI) (auto simp: bit_simps crc_A_eq dest: bit_imp_le_length)
  moreover have "drop_bit 8 (crc XOR ucast b) = crc_S8 crc"
    by (rule bit_word_eqI) (auto simp: bit_simps crc_S8_def dest: bit_imp_le_length)
  ultimately show ?thesis
    using crc_shift_split [of poly 8 "crc XOR ucast b"] by (simp add: crc_ref_byte_def)
qed

lemma crc32_byte_eq: "crc32_byte = crc_ref_byte poly32"
  by (intro ext) (simp add: crc32_byte_def crc_byte_lookup)

lemma crc64_byte_eq: "crc64_byte = crc_ref_byte poly64"
  by (intro ext) (simp add: crc64_byte_def crc_byte_lookup)

section \<open>Slicing\<close>

text \<open>The four bytes of a word, read as the register sees them.\<close>

definition word_of_4 :: "byte \<Rightarrow> byte \<Rightarrow> byte \<Rightarrow> byte \<Rightarrow> 'a::len word" where
  "word_of_4 b0 b1 b2 b3 =
     ucast b0 XOR push_bit 8 (ucast b1) XOR push_bit 16 (ucast b2) XOR push_bit 24 (ucast b3)"

lemma crc_shift_byte_at:
  assumes "m + 8 \<le> LENGTH('a::len)"
  shows "crc_shift poly (m + n) (push_bit m (ucast (b :: byte))) = crc_shift (poly :: 'a word) n (ucast b)"
proof (rule crc_shift_push_bit, rule bit_word_eqI)
  fix i assume "i < LENGTH('a)"
  show "bit (drop_bit m (push_bit m (ucast b :: 'a word))) i = bit (ucast b :: 'a word) i"
    using assms by (auto simp: bit_simps dest: bit_imp_le_length)
qed

lemma crc_shift_word_of_4:
  assumes "32 \<le> LENGTH('a::len)"
  shows "crc_shift poly (32 + n) (word_of_4 b0 b1 b2 b3) =
    crc_shift poly (32 + n) (ucast b0) XOR crc_shift poly (24 + n) (ucast b1)
    XOR crc_shift poly (16 + n) (ucast b2) XOR crc_shift (poly :: 'a word) (8 + n) (ucast b3)"
  using assms crc_shift_byte_at [of 8 poly "24 + n" b1] crc_shift_byte_at [of 16 poly "16 + n" b2]
    crc_shift_byte_at [of 24 poly "8 + n" b3]
  by (simp add: word_of_4_def crc_shift_xor del: crc_shift.simps)

lemma crc_ref_4:
  assumes "32 \<le> LENGTH('a::len)"
  shows "fold (crc_ref_byte poly) [b0, b1, b2, b3] crc =
    crc_shift poly 32 (crc XOR word_of_4 b0 b1 b2 b3 :: 'a word)"
  using crc_shift_word_of_4 [OF assms, of poly 0 b0 b1 b2 b3]
  by (simp add: crc_ref_byte_def crc_shift_xor ac_simps flip: crc_shift_add del: crc_shift.simps)

lemma bit_word_of_4:
  "n < 32 \<Longrightarrow> bit (word_of_4 b0 b1 b2 b3 :: u32) n =
     (if n < 8 then bit b0 n else if n < 16 then bit b1 (n - 8)
      else if n < 24 then bit b2 (n - 16) else bit b3 (n - 24))"
  by (auto simp: word_of_4_def bit_simps dest: bit_imp_le_length)

lemma word32_of_4: "word_of_4 (crc_A x) (crc_B x) (crc_C x) (crc_D x) = (x :: u32)"
  by (rule bit_word_eqI) (auto simp: bit_word_of_4 crc_bytes bit_simps)

lemma bit_read32le:
  "n < 32 \<Longrightarrow> bit (read32le buf p) n =
     (if n < 8 then bit (buf ! p) n else if n < 16 then bit (buf ! (p + 1)) (n - 8)
      else if n < 24 then bit (buf ! (p + 2)) (n - 16) else bit (buf ! (p + 3)) (n - 24))"
  by (auto simp: read32le_def bit_simps dest: bit_imp_le_length)

lemma read32le_word_of_4:
  "read32le buf 0 = word_of_4 (buf ! 0) (buf ! 1) (buf ! 2) (buf ! 3)"
  by (rule bit_word_eqI) (auto simp: bit_read32le bit_word_of_4 numeral_2_eq_2)

lemma crc32_lookup_4:
  "crc32_table (3 + s) (crc_A x) XOR crc32_table (2 + s) (crc_B x)
     XOR crc32_table (1 + s) (crc_C x) XOR crc32_table s (crc_D x) = crc_shift poly32 (32 + 8 * s) x"
  using crc_shift_word_of_4 [of poly32 "8 * s" "crc_A x" "crc_B x" "crc_C x" "crc_D x"]
  by (simp add: word32_of_4 crc32_table_eq add.commute del: crc_shift.simps)

lemma crc32_lookup_8:
  "crc32_table 7 (crc_A x) XOR crc32_table 6 (crc_B x) XOR crc32_table 5 (crc_C x)
     XOR crc32_table 4 (crc_D x) = crc_shift poly32 64 x"
  using crc32_lookup_4 [of 4 x] by (simp del: crc_shift.simps crc32_table.simps)

lemma crc32_lookup_low:
  "crc32_table 3 (crc_A x) XOR crc32_table 2 (crc_B x) XOR crc32_table 1 (crc_C x)
     XOR crc32_table 0 (crc_D x) = crc_shift poly32 32 x"
  using crc32_lookup_4 [of 0 x]
  by (simp add: numeral_2_eq_2 del: crc_shift.simps crc32_table.simps)

lemma crc64_lookup_low:
  "crc64_table 3 (crc_A (x :: u32)) XOR crc64_table 2 (crc_B x) XOR crc64_table 1 (crc_C x)
     XOR crc64_table 0 (crc_D x) = crc_shift poly64 32 (ucast x)"
proof -
  have "word_of_4 (crc_A x) (crc_B x) (crc_C x) (crc_D x) = (ucast x :: u64)"
    by (rule bit_word_eqI) (auto simp: word_of_4_def crc_bytes bit_simps dest: bit_imp_le_length)
  with crc_shift_word_of_4 [of poly64 0 "crc_A x" "crc_B x" "crc_C x" "crc_D x"] show ?thesis
    by (simp add: crc64_table_eq numeral_2_eq_2 del: crc_shift.simps crc64_table.simps)
qed

lemma take_8_nth: "8 \<le> length buf \<Longrightarrow> take 8 buf = map (nth buf) [0, 1, 2, 3, 4, 5, 6, 7]"
  by (rule nth_equalityI) (auto simp: less_Suc_eq numeral_eq_Suc nth_Cons')

lemma take_4_nth: "4 \<le> length buf \<Longrightarrow> take 4 buf = map (nth buf) [0, 1, 2, 3]"
  by (rule nth_equalityI) (auto simp: less_Suc_eq numeral_eq_Suc nth_Cons')

lemma crc32_slice8_round_eq:
  assumes "8 \<le> length buf"
  shows "crc32_slice8_round (read32le buf 0) (read32le (drop 4 buf) 0) crc =
    fold (crc_ref_byte poly32) (take 8 buf) crc"
proof -
  let ?w1 = "read32le buf 0" and ?w2 = "read32le (drop 4 buf) 0"
  have r: "fold (crc_ref_byte poly32) [b0, b1, b2, b3] c =
      crc_shift poly32 32 (c XOR word_of_4 b0 b1 b2 b3)" for b0 b1 b2 b3 c
    by (rule crc_ref_4) simp
  have w2: "?w2 = word_of_4 (buf ! 4) (buf ! 5) (buf ! 6) (buf ! 7)"
    using assms by (simp add: read32le_word_of_4)
  have "crc32_slice8_round ?w1 ?w2 crc =
      crc_shift poly32 64 (crc XOR ?w1) XOR crc_shift poly32 32 ?w2"
    by (simp only: crc32_slice8_round_def Let_def crc32_lookup_8 [symmetric]
        crc32_lookup_low [symmetric]) (simp only: ac_simps)
  also have "\<dots> = crc_shift poly32 32 (crc_shift poly32 32 (crc XOR ?w1) XOR ?w2)"
    using crc_shift_add [of poly32 32 32] by (simp add: crc_shift_xor del: crc_shift.simps)
  also have "\<dots> = fold (crc_ref_byte poly32) [buf ! 4, buf ! 5, buf ! 6, buf ! 7]
      (fold (crc_ref_byte poly32) [buf ! 0, buf ! 1, buf ! 2, buf ! 3] crc)"
    by (simp only: r read32le_word_of_4 [of buf] w2)
  finally show ?thesis using assms by (simp add: take_8_nth)
qed

lemma crc64_slice4_round_eq:
  assumes "4 \<le> length buf"
  shows "crc64_slice4_round (read32le buf 0) crc = fold (crc_ref_byte poly64) (take 4 buf) crc"
proof -
  let ?w = "word_of_4 (buf ! 0) (buf ! 1) (buf ! 2) (buf ! 3) :: u64"
  let ?tmp = "ucast crc XOR read32le buf 0"
  have tmp: "ucast ?tmp = take_bit 32 (crc XOR ?w)"
  proof (rule bit_word_eqI)
    fix n assume "n < LENGTH(64)"
    show "bit (ucast ?tmp :: u64) n = bit (take_bit 32 (crc XOR ?w)) n"
      by (cases "n < 32")
        (auto simp: bit_read32le word_of_4_def bit_simps numeral_2_eq_2 dest: bit_imp_le_length)
  qed
  have "drop_bit 32 (crc XOR ?w) = drop_bit 32 crc"
    by (rule bit_word_eqI) (auto simp: word_of_4_def bit_simps dest: bit_imp_le_length)
  then have "crc_shift poly64 32 (crc XOR ?w) = crc_shift poly64 32 (ucast ?tmp) XOR crc_S32 crc"
    by (subst crc_shift_split) (simp only: tmp crc_S32_def)
  also have "\<dots> = crc64_slice4_round (read32le buf 0) crc"
    by (simp only: crc64_slice4_round_def Let_def crc64_lookup_low [symmetric]) (simp only: ac_simps)
  finally show ?thesis
    using assms crc_ref_4 [of poly64 "buf ! 0" "buf ! 1" "buf ! 2" "buf ! 3" crc]
    by (simp add: take_4_nth del: crc_shift.simps)
qed

lemma crc32_align_eq:
  "crc32_align addr buf crc = (rest, crc') \<Longrightarrow>
   fold (crc_ref_byte poly32) rest crc' = fold (crc_ref_byte poly32) buf crc"
  by (induction addr buf crc rule: crc32_align.induct) (auto simp: crc32_byte_eq split: if_splits)

lemma crc64_align_eq:
  "crc64_align addr buf crc = (rest, crc') \<Longrightarrow>
   fold (crc_ref_byte poly64) rest crc' = fold (crc_ref_byte poly64) buf crc"
  by (induction addr buf crc rule: crc64_align.induct) (auto simp: crc64_byte_eq split: if_splits)

lemma fold_take_drop: "fold f (drop n xs) (fold f (take n xs) a) = fold f xs a"
  by (metis append_take_drop_id comp_apply fold_append)

lemma crc32_slice8_eq:
  "crc32_slice8 buf crc = (rest, crc') \<Longrightarrow>
   fold (crc_ref_byte poly32) rest crc' = fold (crc_ref_byte poly32) buf crc"
proof (induction buf crc rule: crc32_slice8.induct)
  case (1 buf crc)
  then show ?case
    by (subst (asm) (2) crc32_slice8.simps)
      (auto simp: crc32_slice8_round_eq fold_take_drop split: if_splits)
qed

lemma crc64_slice4_eq:
  "crc64_slice4 buf crc = (rest, crc') \<Longrightarrow>
   fold (crc_ref_byte poly64) rest crc' = fold (crc_ref_byte poly64) buf crc"
proof (induction buf crc rule: crc64_slice4.induct)
  case (1 buf crc)
  then show ?case
    by (subst (asm) (2) crc64_slice4.simps)
      (auto simp: crc64_slice4_round_eq fold_take_drop split: if_splits)
qed

section \<open>Correctness of the checks\<close>

lemma lzma_crc32_generic_eq: "lzma_crc32_generic addr buf crc = crc_ref poly32 buf crc"
  by (auto simp: lzma_crc32_generic_def crc_ref_def Let_def crc32_byte_eq crc32_slice8_eq
      crc32_align_eq split: prod.splits)

lemma lzma_crc64_generic_eq: "lzma_crc64_generic addr buf crc = crc_ref poly64 buf crc"
  by (auto simp: lzma_crc64_generic_def crc_ref_def Let_def crc64_byte_eq crc64_slice4_eq
      crc64_align_eq split: prod.splits)

text \<open>
  A checksum that can be fed piece by piece: what the check states, the index hash and
  the archive readers rely on.
\<close>

locale checksum =
  fixes update :: "byte list \<Rightarrow> 'w \<Rightarrow> 'w"
  assumes update_Nil: "update [] c = c"
    and update_append: "update (xs @ ys) c = update ys (update xs c)"
begin

lemma update_concat: "fold update xss c = update (concat xss) c"
  by (induction xss arbitrary: c) (simp_all add: update_Nil update_append)

lemma update_take_drop: "update (drop n xs) (update (take n xs) c) = update xs c"
  by (metis append_take_drop_id update_append)

end

lemma crc_ref_append: "crc_ref poly (xs @ ys) c = crc_ref poly ys (crc_ref poly xs c)"
  by (simp add: crc_ref_def)

interpretation crc32: checksum "lzma_crc32 addr"
  by unfold_locales
    (simp_all add: lzma_crc32_def lzma_crc32_generic_eq crc_ref_append, simp add: crc_ref_def)

interpretation crc64: checksum "lzma_crc64 addr"
  by unfold_locales
    (simp_all add: lzma_crc64_def lzma_crc64_generic_eq crc_ref_append, simp add: crc_ref_def)

text \<open>
  The register never forgets: with the top bit of the polynomial set, a shift can be
  undone, so two registers that differ stay different.
\<close>

lemma crc_step_inj:
  assumes "bit (poly :: 'a::len word) (LENGTH('a) - 1)"
    and "drop_bit 1 a XOR (if bit a 0 then poly else 0) =
      drop_bit 1 b XOR (if bit b 0 then poly else 0)"
  shows "a = b"
proof (rule bit_word_eqI)
  fix n assume n: "n < LENGTH('a)"
  have top: "bit (drop_bit 1 x XOR (if bit x 0 then poly else 0)) (LENGTH('a) - 1) = bit x 0"
    for x :: "'a word"
    using assms(1) by (auto simp: bit_simps dest: bit_imp_le_length)
  from top [of a] top [of b] assms(2) have low: "bit a 0 = bit b 0" by simp
  with assms(2) have "drop_bit 1 a = drop_bit 1 b" by (simp only: xor_cancel_right)
  then have "bit a (Suc m) = bit b (Suc m)" for m
    by (metis bit_drop_bit_eq comp_apply plus_1_eq_Suc)
  with low show "bit a n = bit b n" by (cases n) auto
qed

lemma crc_shift_inj:
  assumes "bit (poly :: 'a::len word) (LENGTH('a) - 1)"
  shows "crc_shift poly n a = crc_shift poly n b \<Longrightarrow> a = b"
proof (induction n arbitrary: a b)
  case (Suc n)
  then show ?case
    using crc_step_inj [OF assms] unfolding crc_shift_Suc by blast
qed simp

lemma fold_crc_ref_inj:
  assumes "bit (poly :: 'a::len word) (LENGTH('a) - 1)"
  shows "fold (crc_ref_byte poly) ys a = fold (crc_ref_byte poly) ys b \<Longrightarrow> a = b"
proof (induction ys arbitrary: a b)
  case (Cons y ys)
  from Cons.prems have "crc_ref_byte poly y a = crc_ref_byte poly y b"
    by (simp add: Cons.IH)
  then have "a XOR ucast y = b XOR ucast y"
    unfolding crc_ref_byte_def by (rule crc_shift_inj [OF assms])
  then show ?case by (simp only: xor_cancel_right)
qed simp

lemma crc_ref_byte_differs:
  assumes "bit (poly :: 'a::len word) (LENGTH('a) - 1)" and "8 \<le> LENGTH('a)" and "b \<noteq> b'"
  shows "crc_ref poly (xs @ b # ys) c \<noteq> crc_ref poly (xs @ b' # ys) c"
proof
  let ?r = "fold (crc_ref_byte poly) xs (NOT c)"
  assume "crc_ref poly (xs @ b # ys) c = crc_ref poly (xs @ b' # ys) c"
  then have "fold (crc_ref_byte poly) ys (crc_ref_byte poly b ?r) =
      fold (crc_ref_byte poly) ys (crc_ref_byte poly b' ?r)"
    by (simp add: crc_ref_def)
  then have "crc_ref_byte poly b ?r = crc_ref_byte poly b' ?r"
    by (rule fold_crc_ref_inj [OF assms(1)])
  then have "?r XOR ucast b = ?r XOR ucast b'"
    unfolding crc_ref_byte_def by (rule crc_shift_inj [OF assms(1)])
  then have "(ucast b :: 'a word) = ucast b'" by (simp only: xor_cancel_left)
  then show False using assms(2,3) ucast_ucast_up [of b, where ?'b = 'a]
    ucast_ucast_up [of b', where ?'b = 'a] by simp
qed

text \<open>
  C35: Feeding a message to the slice-by-eight CRC32 in pieces of any sizes, stored at any
  addresses, gives the bit-by-bit CRC32 of the whole message; so does the byte-wise
  version of the small build.
\<close>

theorem lzma_crc32_equivalence:
  "fold (\<lambda>(addr, piece). lzma_crc32 addr piece) pieces crc =
     crc_ref poly32 (concat (map snd pieces)) crc
   \<and> lzma_crc32_small buf crc = crc_ref poly32 buf crc"
proof
  show "fold (\<lambda>(addr, piece). lzma_crc32 addr piece) pieces crc =
      crc_ref poly32 (concat (map snd pieces)) crc"
    by (induction pieces arbitrary: crc)
      (auto simp: crc_ref_append lzma_crc32_def lzma_crc32_generic_eq, simp add: crc_ref_def)
  have "(\<lambda>b c. crc32_table 0 (b XOR ucast (c AND 0xFF)) XOR drop_bit 8 c) = crc_ref_byte poly32"
    by (simp only: crc32_byte_eq [symmetric]) (intro ext, simp only: crc32_byte_def crc_A_def crc_S8_def)
  then show "lzma_crc32_small buf crc = crc_ref poly32 buf crc"
    by (simp only: lzma_crc32_small_def crc_ref_def)
qed

text \<open>
  The same for the slice-by-four CRC64.
\<close>

theorem lzma_crc64_equivalence:
  "fold (\<lambda>(addr, piece). lzma_crc64 addr piece) pieces crc =
     crc_ref poly64 (concat (map snd pieces)) crc"
  by (induction pieces arbitrary: crc)
    (auto simp: crc_ref_append lzma_crc64_def lzma_crc64_generic_eq, simp add: crc_ref_def)

text \<open>
  Both checks notice every change of a single byte, wherever it is in the message.
\<close>

theorem lzma_crc_detects_byte_change:
  assumes "b \<noteq> b'"
  shows "lzma_crc32 addr (xs @ b # ys) c \<noteq> lzma_crc32 addr (xs @ b' # ys) c
     \<and> lzma_crc64 addr (xs @ b # ys) d \<noteq> lzma_crc64 addr (xs @ b' # ys) d"
  using assms crc_ref_byte_differs [of poly32 b b' xs ys c] crc_ref_byte_differs [of poly64 b b' xs ys d]
  by (simp add: lzma_crc32_def lzma_crc64_def lzma_crc32_generic_eq lzma_crc64_generic_eq
      poly32_def poly64_def)

theorem lzma_crc_detects_byte_change_witness:
  "lzma_crc32 3 ([1, 2] @ 7 # [9]) 0 \<noteq> lzma_crc32 3 ([1, 2] @ 8 # [9]) 0"
  using lzma_crc_detects_byte_change [of 7 8 3 "[1, 2]" "[9]" 0 0] by simp

end
