(* ===== verification/Lzma_Stream_Flags.thy ===== *)
theory Lzma_Stream_Flags
  imports Lzma_Crc
begin

text \<open>
  Stream Header and Stream Footer of .xz files: \<^verbatim>\<open>common/stream_flags_common.c\<close> and
  \<^verbatim>\<open>.h\<close>, \<^verbatim>\<open>common/stream_flags_encoder.c\<close> and \<^verbatim>\<open>common/stream_flags_decoder.c\<close>. The
  functions work on a buffer of \<open>LZMA_STREAM_HEADER_SIZE\<close> bytes. Addresses passed to
  \<open>lzma_crc32\<close> are the offsets in that buffer; its result does not depend on them.
\<close>

section \<open>Data\<close>

definition LZMA_CHECK_ID_MAX :: u32 where
  "LZMA_CHECK_ID_MAX = 15"

definition LZMA_STREAM_HEADER_SIZE :: nat where
  "LZMA_STREAM_HEADER_SIZE = 12"

definition LZMA_STREAM_FLAGS_SIZE :: nat where
  "LZMA_STREAM_FLAGS_SIZE = 2"

definition LZMA_BACKWARD_SIZE_MIN :: lzma_vli where
  "LZMA_BACKWARD_SIZE_MIN = 4"

definition LZMA_BACKWARD_SIZE_MAX :: lzma_vli where
  "LZMA_BACKWARD_SIZE_MAX = push_bit 34 1"

record lzma_stream_flags =
  sf_version :: u32
  backward_size :: lzma_vli
  sf_check :: u32

definition lzma_header_magic :: "byte list" where
  "lzma_header_magic = [0xFD, 0x37, 0x7A, 0x58, 0x5A, 0x00]"

definition lzma_footer_magic :: "byte list" where
  "lzma_footer_magic = [0x59, 0x5A]"

definition is_backward_size_valid :: "lzma_stream_flags \<Rightarrow> bool" where
  "is_backward_size_valid options \<longleftrightarrow>
     backward_size options \<ge> LZMA_BACKWARD_SIZE_MIN
     \<and> backward_size options \<le> LZMA_BACKWARD_SIZE_MAX
     \<and> backward_size options AND 3 = 0"

section \<open>Operations\<close>

definition lzma_stream_flags_compare :: "lzma_stream_flags \<Rightarrow> lzma_stream_flags \<Rightarrow> lzma_ret" where
  "lzma_stream_flags_compare a b =
     (if sf_version a \<noteq> 0 \<or> sf_version b \<noteq> 0 then LZMA_OPTIONS_ERROR
      else if sf_check a > LZMA_CHECK_ID_MAX \<or> sf_check b > LZMA_CHECK_ID_MAX then LZMA_PROG_ERROR
      else if sf_check a \<noteq> sf_check b then LZMA_DATA_ERROR
      else if backward_size a \<noteq> LZMA_VLI_UNKNOWN \<and> backward_size b \<noteq> LZMA_VLI_UNKNOWN then
        (if \<not> is_backward_size_valid a \<or> \<not> is_backward_size_valid b then LZMA_PROG_ERROR
         else if backward_size a \<noteq> backward_size b then LZMA_DATA_ERROR
         else LZMA_OK)
      else LZMA_OK)"

text \<open>The encoder's helper: whether it failed, and the buffer with the two bytes at \<open>p\<close>.\<close>

definition stream_flags_encode :: "lzma_stream_flags \<Rightarrow> byte list \<Rightarrow> nat \<Rightarrow> bool \<times> byte list" where
  "stream_flags_encode options out p =
     (if sf_check options > LZMA_CHECK_ID_MAX then (True, out)
      else (False, out[p := 0x00, p + 1 := ucast (sf_check options)]))"

definition lzma_stream_header_encode :: "lzma_stream_flags \<Rightarrow> byte list \<Rightarrow> lzma_ret \<times> byte list" where
  "lzma_stream_header_encode options out =
     (if sf_version options \<noteq> 0 then (LZMA_OPTIONS_ERROR, out)
      else let out = memcpy out 0 lzma_header_magic
           in case stream_flags_encode options out (length lzma_header_magic) of
                (True, out) \<Rightarrow> (LZMA_PROG_ERROR, out)
              | (False, out) \<Rightarrow>
                  (let crc = lzma_crc32 (length lzma_header_magic)
                               (bytes_at out (length lzma_header_magic) LZMA_STREAM_FLAGS_SIZE) 0
                   in (LZMA_OK,
                       write32le out (length lzma_header_magic + LZMA_STREAM_FLAGS_SIZE) crc)))"

definition lzma_stream_footer_encode :: "lzma_stream_flags \<Rightarrow> byte list \<Rightarrow> lzma_ret \<times> byte list" where
  "lzma_stream_footer_encode options out =
     (if sf_version options \<noteq> 0 then (LZMA_OPTIONS_ERROR, out)
      else if \<not> is_backward_size_valid options then (LZMA_PROG_ERROR, out)
      else let out = write32le out 4 (ucast (backward_size options div 4 - 1))
           in case stream_flags_encode options out (2 * 4) of
                (True, out) \<Rightarrow> (LZMA_PROG_ERROR, out)
              | (False, out) \<Rightarrow>
                  (let crc = lzma_crc32 4 (bytes_at out 4 (4 + LZMA_STREAM_FLAGS_SIZE)) 0;
                       out = write32le out 0 crc
                   in (LZMA_OK, memcpy out (2 * 4 + LZMA_STREAM_FLAGS_SIZE) lzma_footer_magic)))"

definition stream_flags_decode :: "lzma_stream_flags \<Rightarrow> byte list \<Rightarrow> nat \<Rightarrow> bool \<times> lzma_stream_flags" where
  "stream_flags_decode options inb p =
     (if inb ! p \<noteq> 0x00 \<or> inb ! (p + 1) AND 0xF0 \<noteq> 0 then (True, options)
      else (False, options\<lparr>sf_version := 0, sf_check := ucast (inb ! (p + 1) AND 0x0F)\<rparr>))"

definition lzma_stream_header_decode :: "lzma_stream_flags \<Rightarrow> byte list \<Rightarrow> lzma_ret \<times> lzma_stream_flags" where
  "lzma_stream_header_decode options inb =
     (if bytes_at inb 0 (length lzma_header_magic) \<noteq> lzma_header_magic then (LZMA_FORMAT_ERROR, options)
      else let crc = lzma_crc32 (length lzma_header_magic)
                       (bytes_at inb (length lzma_header_magic) LZMA_STREAM_FLAGS_SIZE) 0
           in if crc \<noteq> read32le inb (length lzma_header_magic + LZMA_STREAM_FLAGS_SIZE)
              then (LZMA_DATA_ERROR, options)
              else case stream_flags_decode options inb (length lzma_header_magic) of
                     (True, options) \<Rightarrow> (LZMA_OPTIONS_ERROR, options)
                   | (False, options) \<Rightarrow> (LZMA_OK, options\<lparr>backward_size := LZMA_VLI_UNKNOWN\<rparr>))"

definition lzma_stream_footer_decode :: "lzma_stream_flags \<Rightarrow> byte list \<Rightarrow> lzma_ret \<times> lzma_stream_flags" where
  "lzma_stream_footer_decode options inb =
     (if bytes_at inb (4 * 2 + LZMA_STREAM_FLAGS_SIZE) (length lzma_footer_magic) \<noteq> lzma_footer_magic
      then (LZMA_FORMAT_ERROR, options)
      else let crc = lzma_crc32 4 (bytes_at inb 4 (4 + LZMA_STREAM_FLAGS_SIZE)) 0
           in if crc \<noteq> read32le inb 0 then (LZMA_DATA_ERROR, options)
              else case stream_flags_decode options inb (4 * 2) of
                     (True, options) \<Rightarrow> (LZMA_OPTIONS_ERROR, options)
                   | (False, options) \<Rightarrow>
                       (LZMA_OK, options\<lparr>backward_size := (ucast (read32le inb 4) + 1) * 4\<rparr>))"

lemmas stream_flags_consts =
  LZMA_CHECK_ID_MAX_def LZMA_STREAM_HEADER_SIZE_def LZMA_STREAM_FLAGS_SIZE_def
  LZMA_BACKWARD_SIZE_MIN_def LZMA_BACKWARD_SIZE_MAX_def lzma_header_magic_def lzma_footer_magic_def

section \<open>Correctness\<close>

lemma list_12:
  "length xs = 12 \<Longrightarrow>
   \<exists>a b c d e f g h i j k l. xs = [a, b, c, d, e, f, g, h, i, j, k, l]"
  by (auto simp: numeral_eq_Suc length_Suc_conv)

lemma check_id_nibble:
  assumes "(c :: u32) \<le> LZMA_CHECK_ID_MAX"
  shows "(ucast c :: byte) AND 0xF0 = 0 \<and> ucast ((ucast c :: byte) AND 0x0F) = c"
proof -
  define k where "k = unat c"
  have "k \<le> 15" using assms by (simp add: k_def stream_flags_consts word_le_nat_alt)
  then have "k = 0 \<or> k = 1 \<or> k = 2 \<or> k = 3 \<or> k = 4 \<or> k = 5 \<or> k = 6 \<or> k = 7 \<or> k = 8
      \<or> k = 9 \<or> k = 10 \<or> k = 11 \<or> k = 12 \<or> k = 13 \<or> k = 14 \<or> k = 15"
    by presburger
  moreover have "c = of_nat k" by (simp add: k_def)
  ultimately show ?thesis by (elim disjE) simp_all
qed

lemma backward_size_join:
  assumes "is_backward_size_valid options"
  shows "((ucast (ucast (backward_size options div 4 - 1) :: u32) :: lzma_vli) + 1) * 4
     = backward_size options"
proof -
  let ?b = "backward_size options"
  have b: "4 \<le> unat ?b" "unat ?b \<le> 2 ^ 34"
    using assms by (simp_all add: is_backward_size_valid_def stream_flags_consts word_le_nat_alt)
  have "take_bit 2 ?b = 0"
    using assms by (simp add: is_backward_size_valid_def take_bit_eq_mask mask_eq_exp_minus_1)
  then have "unat ?b mod 4 = 0"
    by (metis unsigned_0 unsigned_take_bit_eq take_bit_eq_mod power2_eq_square mult_2 numeral_Bit0)
  then obtain q where q: "unat ?b = 4 * q" by auto
  let ?x = "?b div 4 - 1"
  have "1 \<le> q" "q \<le> 2 ^ 32" using q b by simp_all
  then have ux: "unat ?x = q - 1"
    by (simp add: unat_sub_if' unat_div_distrib q)
  then have "unat (ucast (ucast ?x :: u32) :: lzma_vli) = q - 1"
    using \<open>1 \<le> q\<close> \<open>q \<le> 2 ^ 32\<close> by (simp add: unsigned_ucast_eq unsigned_take_bit_eq take_bit_nat_eq_self)
  then show ?thesis
    using \<open>1 \<le> q\<close> \<open>q \<le> 2 ^ 32\<close> by (simp add: word_unat_eq_iff unat_word_ariths q)
qed

lemma lzma_stream_header_roundtrip:
  assumes "sf_version options = 0" and "sf_check options \<le> LZMA_CHECK_ID_MAX"
    and "length out = LZMA_STREAM_HEADER_SIZE"
  shows "\<exists>out'. lzma_stream_header_encode options out = (LZMA_OK, out')
      \<and> length out' = LZMA_STREAM_HEADER_SIZE
      \<and> lzma_stream_header_decode junk out' =
          (LZMA_OK, junk\<lparr>sf_version := 0, sf_check := sf_check options, backward_size := LZMA_VLI_UNKNOWN\<rparr>)"
proof -
  obtain a b c d e f g h i j k l where out: "out = [a, b, c, d, e, f, g, h, i, j, k, l]"
    using list_12 [of out] assms(3) by (auto simp: stream_flags_consts)
  note nib = check_id_nibble [OF assms(2)]
  from assms(1,2) nib show ?thesis
    by (simp add: out lzma_stream_header_encode_def lzma_stream_header_decode_def
        stream_flags_encode_def stream_flags_decode_def lzma_header_magic_def
        LZMA_STREAM_FLAGS_SIZE_def LZMA_STREAM_HEADER_SIZE_def memcpy_def bytes_at_def
        write32le_def read32le_def word32_of_bytes not_less Let_def)
qed

lemma lzma_stream_footer_roundtrip:
  assumes "sf_version options = 0" and "sf_check options \<le> LZMA_CHECK_ID_MAX"
    and "is_backward_size_valid options" and "length out = LZMA_STREAM_HEADER_SIZE"
  shows "\<exists>out'. lzma_stream_footer_encode options out = (LZMA_OK, out')
      \<and> length out' = LZMA_STREAM_HEADER_SIZE
      \<and> lzma_stream_footer_decode junk out' =
          (LZMA_OK, junk\<lparr>sf_version := 0, sf_check := sf_check options,
                         backward_size := backward_size options\<rparr>)"
proof -
  obtain a b c d e f g h i j k l where out: "out = [a, b, c, d, e, f, g, h, i, j, k, l]"
    using list_12 [of out] assms(4) by (auto simp: stream_flags_consts)
  note nib = check_id_nibble [OF assms(2)]
  from assms(1,2,3) nib backward_size_join [OF assms(3)] show ?thesis
    by (simp add: out lzma_stream_footer_encode_def lzma_stream_footer_decode_def
        stream_flags_encode_def stream_flags_decode_def lzma_footer_magic_def
        LZMA_STREAM_FLAGS_SIZE_def LZMA_STREAM_HEADER_SIZE_def memcpy_def bytes_at_def
        write32le_def read32le_def word32_of_bytes not_less Let_def)
qed

text \<open>The check noticed a changed byte: the form the decoders use it in.\<close>

lemma crc32_changed:
  "b \<noteq> b' \<Longrightarrow> lzma_crc32 addr (xs @ b # ys) 0 \<noteq> lzma_crc32 addr (xs @ b' # ys) 0"
  using crc_ref_byte_differs [of poly32 b b' xs ys 0]
  by (simp add: lzma_crc32_def lzma_crc32_generic_eq poly32_def)

lemma below_12:
  "i < 12 \<Longrightarrow> i = 0 \<or> i = 1 \<or> i = 2 \<or> i = 3 \<or> i = 4 \<or> i = 5 \<or> i = 6 \<or> i = 7 \<or> i = 8 \<or> i = 9
     \<or> i = 10 \<or> i = (11::nat)"
  by presburger

lemma lzma_stream_header_detects_corruption:
  assumes "lzma_stream_header_decode options inb = (LZMA_OK, flags)"
    and "length inb = LZMA_STREAM_HEADER_SIZE" and "i < LZMA_STREAM_HEADER_SIZE" and "b \<noteq> inb ! i"
  shows "fst (lzma_stream_header_decode options (inb[i := b])) \<in> {LZMA_FORMAT_ERROR, LZMA_DATA_ERROR}"
proof -
  obtain m0 m1 m2 m3 m4 m5 f0 f1 c0 c1 c2 c3
    where inb: "inb = [m0, m1, m2, m3, m4, m5, f0, f1, c0, c1, c2, c3]"
    using list_12 [of inb] assms(2) by (auto simp: stream_flags_consts)
  have ok: "[m0, m1, m2, m3, m4, m5] = lzma_header_magic"
      "lzma_crc32 (length lzma_header_magic) [f0, f1] 0 = ucast c0 OR push_bit 8 (ucast c1) OR push_bit 16 (ucast c2) OR push_bit 24 (ucast c3)"
    using assms(1) by (auto simp: inb lzma_stream_header_decode_def lzma_header_magic_def
        LZMA_STREAM_FLAGS_SIZE_def bytes_at_def read32le_def Let_def split: if_splits)
  have "i = 0 \<or> i = 1 \<or> i = 2 \<or> i = 3 \<or> i = 4 \<or> i = 5 \<or> i = 6 \<or> i = 7 \<or> i = 8 \<or> i = 9
     \<or> i = 10 \<or> i = 11"
    using below_12 assms(3) unfolding LZMA_STREAM_HEADER_SIZE_def .
  then show ?thesis
    using assms(4) ok crc32_changed [of b f0 "length lzma_header_magic" "[]" "[f1]"]
      crc32_changed [of b f1 "length lzma_header_magic" "[f0]" "[]"]
    by (elim disjE)
      (simp_all add: inb lzma_stream_header_decode_def lzma_header_magic_def
        LZMA_STREAM_FLAGS_SIZE_def bytes_at_def read32le_def Let_def word32_bytes_eq_iff)
qed

lemma lzma_stream_footer_detects_corruption:
  assumes "lzma_stream_footer_decode options inb = (LZMA_OK, flags)"
    and "length inb = LZMA_STREAM_HEADER_SIZE" and "i < LZMA_STREAM_HEADER_SIZE" and "b \<noteq> inb ! i"
  shows "fst (lzma_stream_footer_decode options (inb[i := b])) \<in> {LZMA_FORMAT_ERROR, LZMA_DATA_ERROR}"
proof -
  obtain c0 c1 c2 c3 b0 b1 b2 b3 f0 f1 m0 m1
    where inb: "inb = [c0, c1, c2, c3, b0, b1, b2, b3, f0, f1, m0, m1]"
    using list_12 [of inb] assms(2) by (auto simp: stream_flags_consts)
  have ok: "[m0, m1] = lzma_footer_magic"
      "lzma_crc32 4 [b0, b1, b2, b3, f0, f1] 0 = ucast c0 OR push_bit 8 (ucast c1) OR push_bit 16 (ucast c2) OR push_bit 24 (ucast c3)"
    using assms(1) by (auto simp: inb lzma_stream_footer_decode_def lzma_footer_magic_def
        LZMA_STREAM_FLAGS_SIZE_def bytes_at_def read32le_def Let_def split: if_splits)
  have "i = 0 \<or> i = 1 \<or> i = 2 \<or> i = 3 \<or> i = 4 \<or> i = 5 \<or> i = 6 \<or> i = 7 \<or> i = 8 \<or> i = 9
     \<or> i = 10 \<or> i = 11"
    using below_12 assms(3) unfolding LZMA_STREAM_HEADER_SIZE_def .
  then show ?thesis
    using assms(4) ok crc32_changed [of b b0 4 "[]" "[b1, b2, b3, f0, f1]"]
      crc32_changed [of b b1 4 "[b0]" "[b2, b3, f0, f1]"]
      crc32_changed [of b b2 4 "[b0, b1]" "[b3, f0, f1]"]
      crc32_changed [of b b3 4 "[b0, b1, b2]" "[f0, f1]"]
      crc32_changed [of b f0 4 "[b0, b1, b2, b3]" "[f1]"]
      crc32_changed [of b f1 4 "[b0, b1, b2, b3, f0]" "[]"]
    by (elim disjE)
      (simp_all add: inb lzma_stream_footer_decode_def lzma_footer_magic_def
        LZMA_STREAM_FLAGS_SIZE_def bytes_at_def read32le_def Let_def word32_bytes_eq_iff)
qed

section \<open>Properties\<close>

text \<open>
  The Stream Header and the Stream Footer round-trip. For supported options both
  encoders fill their twelve bytes, the header decoder returns the check ID with an unknown
  Backward Size, the footer decoder returns the check ID and the Backward Size, and
  \<open>lzma_stream_flags_compare\<close> accepts the pair. Unsupported options are refused by both
  encoders, the version first, and leave no valid header.
\<close>

theorem lzma_stream_flags_roundtrip:
  assumes "sf_version options = 0" and "sf_check options \<le> LZMA_CHECK_ID_MAX"
    and "is_backward_size_valid options"
    and "length h0 = LZMA_STREAM_HEADER_SIZE" and "length ft = LZMA_STREAM_HEADER_SIZE"
  shows "\<exists>h1 ft' a b.
      lzma_stream_header_encode options h0 = (LZMA_OK, h1) \<and> length h1 = LZMA_STREAM_HEADER_SIZE
      \<and> lzma_stream_footer_encode options ft = (LZMA_OK, ft') \<and> length ft' = LZMA_STREAM_HEADER_SIZE
      \<and> lzma_stream_header_decode junk h1 = (LZMA_OK, a)
      \<and> lzma_stream_footer_decode junk ft' = (LZMA_OK, b)
      \<and> sf_check a = sf_check options \<and> backward_size a = LZMA_VLI_UNKNOWN
      \<and> sf_check b = sf_check options \<and> backward_size b = backward_size options
      \<and> lzma_stream_flags_compare a b = LZMA_OK"
proof -
  obtain h1 where h: "lzma_stream_header_encode options h0 = (LZMA_OK, h1)"
      "length h1 = LZMA_STREAM_HEADER_SIZE"
      "lzma_stream_header_decode junk h1 =
          (LZMA_OK, junk\<lparr>sf_version := 0, sf_check := sf_check options, backward_size := LZMA_VLI_UNKNOWN\<rparr>)"
    using lzma_stream_header_roundtrip [OF assms(1,2,4), of junk] by blast
  obtain ft' where f: "lzma_stream_footer_encode options ft = (LZMA_OK, ft')"
      "length ft' = LZMA_STREAM_HEADER_SIZE"
      "lzma_stream_footer_decode junk ft' =
          (LZMA_OK, junk\<lparr>sf_version := 0, sf_check := sf_check options,
                         backward_size := backward_size options\<rparr>)"
    using lzma_stream_footer_roundtrip [OF assms(1,2,3,5), of junk] by blast
  let ?a = "junk\<lparr>sf_version := 0, sf_check := sf_check options, backward_size := LZMA_VLI_UNKNOWN\<rparr>"
  and ?b = "junk\<lparr>sf_version := 0, sf_check := sf_check options, backward_size := backward_size options\<rparr>"
  have "lzma_stream_flags_compare ?a ?b = LZMA_OK"
    using assms(2) by (simp add: lzma_stream_flags_compare_def not_less)
  with h f show ?thesis by (intro exI [of _ h1] exI [of _ ft'] exI [of _ ?a] exI [of _ ?b]) simp
qed

theorem lzma_stream_flags_roundtrip_witness:
  "\<exists>h1. lzma_stream_header_encode \<lparr>sf_version = 0, backward_size = 8, sf_check = 4\<rparr> (replicate 12 0)
       = (LZMA_OK, h1) \<and> length h1 = 12"
  using lzma_stream_flags_roundtrip
    [of "\<lparr>sf_version = 0, backward_size = 8, sf_check = 4\<rparr>" "replicate 12 0" "replicate 12 0"
      "\<lparr>sf_version = 0, backward_size = 0, sf_check = 0\<rparr>"]
  by (auto simp: stream_flags_consts is_backward_size_valid_def LZMA_BACKWARD_SIZE_MIN_def
      LZMA_BACKWARD_SIZE_MAX_def LZMA_CHECK_ID_MAX_def)

text \<open>
  C36: A damaged header or footer is not accepted. When a header (footer) decodes
  successfully, the same bytes with any one byte changed are refused by the header (footer)
  decoder with a format or a data error.
\<close>

theorem lzma_stream_flags_detect_corruption:
  assumes "length inb = LZMA_STREAM_HEADER_SIZE" and "i < LZMA_STREAM_HEADER_SIZE" and "b \<noteq> inb ! i"
  shows "(fst (lzma_stream_header_decode options inb) = LZMA_OK \<longrightarrow>
           fst (lzma_stream_header_decode options (inb[i := b])) \<in> {LZMA_FORMAT_ERROR, LZMA_DATA_ERROR})
    \<and> (fst (lzma_stream_footer_decode options inb) = LZMA_OK \<longrightarrow>
           fst (lzma_stream_footer_decode options (inb[i := b])) \<in> {LZMA_FORMAT_ERROR, LZMA_DATA_ERROR})"
  using lzma_stream_header_detects_corruption [OF _ assms]
    lzma_stream_footer_detects_corruption [OF _ assms]
  by (metis prod.collapse)

theorem lzma_stream_flags_detect_corruption_witness:
  "\<exists>inb. fst (lzma_stream_header_decode \<lparr>sf_version = 0, backward_size = 0, sf_check = 0\<rparr> inb) = LZMA_OK
     \<and> fst (lzma_stream_header_decode \<lparr>sf_version = 0, backward_size = 0, sf_check = 0\<rparr>
          (inb[7 := inb ! 7 + 1])) \<in> {LZMA_FORMAT_ERROR, LZMA_DATA_ERROR}"
proof -
  let ?o = "\<lparr>sf_version = 0, backward_size = 0, sf_check = 0\<rparr> :: lzma_stream_flags"
  obtain inb where inb: "length inb = LZMA_STREAM_HEADER_SIZE"
      "fst (lzma_stream_header_decode ?o inb) = LZMA_OK"
    using lzma_stream_header_roundtrip [of ?o "replicate 12 0" ?o]
    by (auto simp: stream_flags_consts LZMA_CHECK_ID_MAX_def)
  with lzma_stream_flags_detect_corruption [OF inb(1), of 7 "inb ! 7 + 1" ?o] show ?thesis
    by (auto simp: stream_flags_consts)
qed

end
