(* ===== verification/Lzma_Delta.thy ===== *)
theory Lzma_Delta
  imports Lzma_Base
begin

text \<open>
  The delta filter of liblzma: \<^verbatim>\<open>delta/delta_common.c\<close>, \<^verbatim>\<open>delta/delta_encoder.c\<close> and
  \<^verbatim>\<open>delta/delta_decoder.c\<close>. The coder state keeps a ring of the last 256 bytes, written
  downwards. The encoder is related to its mathematical description (each byte minus
  the byte \<open>distance\<close> positions before it) and the decoder is its inverse, also when the
  data arrives in pieces.
\<close>

section \<open>State and options\<close>

definition LZMA_DELTA_TYPE_BYTE :: u32 where "LZMA_DELTA_TYPE_BYTE = 0"
definition LZMA_DELTA_DIST_MIN :: u32 where "LZMA_DELTA_DIST_MIN = 1"
definition LZMA_DELTA_DIST_MAX :: u32 where "LZMA_DELTA_DIST_MAX = 256"

record lzma_options_delta =
  delta_type :: u32
  dist :: u32

record 'n lzma_delta_coder =
  delta_next :: "('n \<times> 'n lzma_code_function) option"
  distance :: nat
  pos :: byte
  history :: "byte list"

text \<open>The size of \<open>lzma_delta_coder\<close> with 64-bit pointers.\<close>

definition sizeof_lzma_delta_coder :: u64 where
  "sizeof_lzma_delta_coder = 352"

definition UINT64_MAX :: u64 where
  "UINT64_MAX = 0xFFFFFFFFFFFFFFFF"

definition lzma_delta_coder_memusage :: "lzma_options_delta option \<Rightarrow> u64" where
  "lzma_delta_coder_memusage options =
     (case options of
        None \<Rightarrow> UINT64_MAX
      | Some opt \<Rightarrow>
          if delta_type opt \<noteq> LZMA_DELTA_TYPE_BYTE \<or> dist opt < LZMA_DELTA_DIST_MIN
             \<or> dist opt > LZMA_DELTA_DIST_MAX
          then UINT64_MAX else sizeof_lzma_delta_coder)"

text \<open>
  \<open>lzma_delta_coder_init\<close>: \<open>coder\<close> is the coder already allocated in \<open>next\<close>, if any,
  \<open>fresh\<close> the memory the allocator returns otherwise (\<open>None\<close> when it fails), and
  \<open>next_init\<close> the initialisation of the rest of the chain. The result has the code and
  the coder now in \<open>next\<close>.
\<close>

definition lzma_delta_coder_init ::
  "'n lzma_delta_coder option \<Rightarrow> 'n lzma_delta_coder option \<Rightarrow> lzma_options_delta option
   \<Rightarrow> (('n \<times> 'n lzma_code_function) option \<Rightarrow> lzma_ret \<times> ('n \<times> 'n lzma_code_function) option)
   \<Rightarrow> lzma_ret \<times> 'n lzma_delta_coder option" where
  "lzma_delta_coder_init coder fresh options next_init =
     (case (case coder of None \<Rightarrow> map_option (\<lambda>c. c\<lparr>delta_next := None\<rparr>) fresh | Some c \<Rightarrow> Some c) of
        None \<Rightarrow> (LZMA_MEM_ERROR, None)
      | Some c \<Rightarrow>
          if lzma_delta_coder_memusage options = UINT64_MAX then (LZMA_OPTIONS_ERROR, Some c)
          else let c = c\<lparr>distance := unat (dist (the options)), pos := 0,
                         history := replicate 256 0\<rparr>
               in case next_init (delta_next c) of
                    (ret, nx) \<Rightarrow> (ret, Some (c\<lparr>delta_next := nx\<rparr>)))"

section \<open>The filter loops\<close>

text \<open>
  One iteration of the loops: the byte \<open>distance\<close> positions back, and the coder with
  \<open>x\<close> stored in the ring and the position moved.
\<close>

definition delta_tap :: "'n lzma_delta_coder \<Rightarrow> byte" where
  "delta_tap coder = history coder ! ((distance coder + unat (pos coder)) mod 256)"

definition delta_push :: "'n lzma_delta_coder \<Rightarrow> byte \<Rightarrow> 'n lzma_delta_coder" where
  "delta_push coder x =
     coder\<lparr>history := (history coder)[unat (pos coder) := x], pos := pos coder - 1\<rparr>"

text \<open>
  \<open>copy_and_encode\<close> reads \<open>in[0..size)\<close> and returns what it writes to \<open>out[0..size)\<close>;
  \<open>encode_in_place\<close> and \<open>decode_buffer\<close> overwrite the buffer they are given.
\<close>

fun copy_and_encode :: "'n lzma_delta_coder \<Rightarrow> byte list \<Rightarrow> 'n lzma_delta_coder \<times> byte list" where
  "copy_and_encode coder [] = (coder, [])"
| "copy_and_encode coder (x # inb) =
     (let tmp = delta_tap coder;
          coder = delta_push coder x
      in case copy_and_encode coder inb of (coder, out) \<Rightarrow> (coder, (x - tmp) # out))"

fun encode_in_place :: "'n lzma_delta_coder \<Rightarrow> byte list \<Rightarrow> 'n lzma_delta_coder \<times> byte list" where
  "encode_in_place coder [] = (coder, [])"
| "encode_in_place coder (x # buffer) =
     (let tmp = delta_tap coder;
          coder = delta_push coder x
      in case encode_in_place coder buffer of (coder, buffer) \<Rightarrow> (coder, (x - tmp) # buffer))"

fun decode_buffer :: "'n lzma_delta_coder \<Rightarrow> byte list \<Rightarrow> 'n lzma_delta_coder \<times> byte list" where
  "decode_buffer coder [] = (coder, [])"
| "decode_buffer coder (x # buffer) =
     (let x = x + delta_tap coder;
          coder = delta_push coder x
      in case decode_buffer coder buffer of (coder, buffer) \<Rightarrow> (coder, x # buffer))"

section \<open>The coder functions\<close>

definition delta_encode :: "'n lzma_delta_coder lzma_code_function" where
  "delta_encode coder inb in_pos in_size out out_pos out_size action =
     (case delta_next coder of
        None \<Rightarrow>
          (let in_avail = in_size - in_pos;
               out_avail = out_size - out_pos;
               size = min in_avail out_avail;
               (coder, out) =
                 (if size > 0
                  then case copy_and_encode coder (bytes_at inb in_pos size) of
                         (coder, enc) \<Rightarrow> (coder, memcpy out out_pos enc)
                  else (coder, out));
               in_pos = in_pos + size;
               out_pos = out_pos + size
           in (if action \<noteq> LZMA_RUN \<and> in_pos = in_size then LZMA_STREAM_END else LZMA_OK,
               coder, in_pos, out, out_pos))
      | Some (nc, code) \<Rightarrow>
          (let out_start = out_pos
           in case code nc inb in_pos in_size out out_pos out_size action of
                (ret, nc, in_pos, out, out_pos) \<Rightarrow>
                  (let coder = coder\<lparr>delta_next := Some (nc, code)\<rparr>;
                       size = out_pos - out_start;
                       (coder, out) =
                         (if size > 0
                          then case encode_in_place coder (bytes_at out out_start size) of
                                 (coder, enc) \<Rightarrow> (coder, memcpy out out_start enc)
                          else (coder, out))
                   in (ret, coder, in_pos, out, out_pos))))"

text \<open>The decoder always has a next coder (the assertion of the source).\<close>

definition delta_decode :: "'n lzma_delta_coder lzma_code_function" where
  "delta_decode coder inb in_pos in_size out out_pos out_size action =
     (case delta_next coder of
        None \<Rightarrow> (LZMA_PROG_ERROR, coder, in_pos, out, out_pos)
      | Some (nc, code) \<Rightarrow>
          (let out_start = out_pos
           in case code nc inb in_pos in_size out out_pos out_size action of
                (ret, nc, in_pos, out, out_pos) \<Rightarrow>
                  (let coder = coder\<lparr>delta_next := Some (nc, code)\<rparr>;
                       size = out_pos - out_start;
                       (coder, out) =
                         (if size > 0
                          then case decode_buffer coder (bytes_at out out_start size) of
                                 (coder, dec) \<Rightarrow> (coder, memcpy out out_start dec)
                          else (coder, out))
                   in (ret, coder, in_pos, out, out_pos))))"

section \<open>Filter properties\<close>

definition lzma_delta_props_encode :: "lzma_options_delta option \<Rightarrow> byte list \<Rightarrow> nat \<Rightarrow> lzma_ret \<times> byte list" where
  "lzma_delta_props_encode options out p =
     (if lzma_delta_coder_memusage options = UINT64_MAX then (LZMA_PROG_ERROR, out)
      else (LZMA_OK, out[p := ucast (dist (the options) - LZMA_DELTA_DIST_MIN)]))"

text \<open>\<open>alloc_ok\<close> says whether the allocator returns memory for the options.\<close>

definition lzma_delta_props_decode :: "bool \<Rightarrow> byte list \<Rightarrow> lzma_ret \<times> lzma_options_delta option" where
  "lzma_delta_props_decode alloc_ok props =
     (if length props \<noteq> 1 then (LZMA_OPTIONS_ERROR, None)
      else if \<not> alloc_ok then (LZMA_MEM_ERROR, None)
      else (LZMA_OK, Some \<lparr>delta_type = LZMA_DELTA_TYPE_BYTE, dist = ucast (props ! 0) + 1\<rparr>))"

section \<open>The decoder undoes the encoder\<close>

lemma encode_in_place_eq: "encode_in_place coder xs = copy_and_encode coder xs"
  by (induction coder xs rule: encode_in_place.induct) (simp_all add: Let_def)

lemma length_copy_and_encode: "copy_and_encode coder xs = (coder', ys) \<Longrightarrow> length ys = length xs"
  by (induction coder xs arbitrary: ys rule: copy_and_encode.induct)
    (auto simp: Let_def split: prod.splits)

lemma length_decode_buffer: "decode_buffer coder xs = (coder', ys) \<Longrightarrow> length ys = length xs"
  by (induction coder xs arbitrary: ys rule: decode_buffer.induct)
    (auto simp: Let_def split: prod.splits)

text \<open>Two coders whose rings agree; the chains behind them may differ.\<close>

definition same_ring :: "'n lzma_delta_coder \<Rightarrow> 'm lzma_delta_coder \<Rightarrow> bool" where
  "same_ring e d \<longleftrightarrow> distance e = distance d \<and> pos e = pos d \<and> history e = history d"

lemma same_ring_tap: "same_ring e d \<Longrightarrow> delta_tap e = delta_tap d"
  by (simp add: same_ring_def delta_tap_def)

lemma same_ring_push: "same_ring e d \<Longrightarrow> same_ring (delta_push e x) (delta_push d x)"
  by (simp add: same_ring_def delta_push_def)

lemma decode_encode:
  "same_ring e d \<Longrightarrow> copy_and_encode e xs = (e', ys) \<Longrightarrow>
   \<exists>d'. decode_buffer d ys = (d', xs) \<and> same_ring e' d'"
proof (induction e xs arbitrary: d ys rule: copy_and_encode.induct)
  case (2 e x xs)
  obtain e1 ys1 where rec: "copy_and_encode (delta_push e x) xs = (e1, ys1)" by fastforce
  from 2 rec have ys: "ys = (x - delta_tap e) # ys1" and e1: "e1 = e'" by (auto simp: Let_def)
  from "2.IH" [OF refl refl same_ring_push [OF "2.prems"(1)]] rec
  obtain d' where "decode_buffer (delta_push d x) ys1 = (d', xs)" "same_ring e' d'"
    unfolding e1 by blast
  with same_ring_tap [OF "2.prems"(1)] show ?case by (simp add: ys Let_def)
qed simp

section \<open>The ring holds the last 256 bytes\<close>

definition past_byte :: "nat \<Rightarrow> byte list \<Rightarrow> byte" where
  "past_byte k past = (if k \<le> length past then past ! (length past - k) else 0)"

definition ring_ok :: "'n lzma_delta_coder \<Rightarrow> byte list \<Rightarrow> bool" where
  "ring_ok coder past \<longleftrightarrow> length (history coder) = 256
     \<and> (\<forall>k. 1 \<le> k \<longrightarrow> k \<le> 256 \<longrightarrow>
          history coder ! ((k + unat (pos coder)) mod 256) = past_byte k past)"

lemma ring_ok_init: "pos coder = 0 \<Longrightarrow> history coder = replicate 256 0 \<Longrightarrow> ring_ok coder []"
  by (simp add: ring_ok_def past_byte_def)

lemma ring_ok_tap:
  "ring_ok coder past \<Longrightarrow> 1 \<le> distance coder \<Longrightarrow> distance coder \<le> 256 \<Longrightarrow>
   delta_tap coder = past_byte (distance coder) past"
  by (simp add: ring_ok_def delta_tap_def)

lemma unat_dec_byte: "unat ((p :: byte) - 1) = (unat p + 255) mod 256"
proof -
  have "p - 1 = p + 255" by simp
  then show ?thesis by (simp only: unat_word_ariths) simp
qed

lemma ring_ok_push:
  assumes "ring_ok coder past"
  shows "ring_ok (delta_push coder x) (past @ [x])"
proof -
  let ?p = "unat (pos coder)"
  have p: "?p < 256" using unsigned_less [of "pos coder", where ?'a = nat] by simp
  have "history (delta_push coder x) ! ((k + (?p + 255) mod 256) mod 256) = past_byte k (past @ [x])"
    if k: "1 \<le> k" "k \<le> 256" for k
  proof -
    from k obtain j where j: "k = Suc j" "j \<le> 255" by (cases k) auto
    have sum: "Suc j + (?p + 255) = j + ?p + 256" by simp
    have "(Suc j + (?p + 255) mod 256) mod 256 = (Suc j + (?p + 255)) mod 256"
      by (rule mod_add_right_eq)
    also have "\<dots> = (j + ?p) mod 256" unfolding sum by (rule mod_add_self2)
    finally have idx: "(k + (?p + 255) mod 256) mod 256 = (j + ?p) mod 256" by (simp add: j)
    show ?thesis
    proof (cases "j = 0")
      case True
      with p j assms show ?thesis
        unfolding idx by (simp add: delta_push_def ring_ok_def past_byte_def)
    next
      case False
      then have "(j + ?p) mod 256 \<noteq> ?p"
        using j p by (cases "j + ?p < 256") (auto simp: le_mod_geq)
      moreover have "history coder ! ((j + ?p) mod 256) = past_byte j past"
        using False j assms by (simp add: ring_ok_def)
      ultimately show ?thesis
        using False j unfolding idx by (auto simp: delta_push_def past_byte_def nth_append)
    qed
  qed
  with assms show ?thesis
    by (simp add: ring_ok_def delta_push_def unat_dec_byte)
qed

text \<open>The mathematical description of the filter, after the bytes \<open>past\<close>.\<close>

definition delta_spec :: "nat \<Rightarrow> byte list \<Rightarrow> byte list \<Rightarrow> byte list" where
  "delta_spec d past xs =
     map (\<lambda>i. xs ! i - past_byte d (past @ take i xs)) [0..<length xs]"

lemma delta_spec_Cons: "delta_spec d past (x # xs) = (x - past_byte d past) # delta_spec d (past @ [x]) xs"
  by (rule nth_equalityI) (auto simp: delta_spec_def nth_Cons split: nat.splits simp del: upt_Suc)

lemma distance_push [simp]: "distance (delta_push coder x) = distance coder"
  by (simp add: delta_push_def)

lemma copy_and_encode_spec:
  "ring_ok coder past \<Longrightarrow> 1 \<le> distance coder \<Longrightarrow> distance coder \<le> 256 \<Longrightarrow>
   snd (copy_and_encode coder xs) = delta_spec (distance coder) past xs"
proof (induction coder xs arbitrary: past rule: copy_and_encode.induct)
  case (1 coder)
  show ?case by (simp add: delta_spec_def)
next
  case (2 coder x xs)
  from "2.IH" [OF refl refl ring_ok_push [OF "2.prems"(1)]] "2.prems"(2,3)
  have "snd (copy_and_encode (delta_push coder x) xs) = delta_spec (distance coder) (past @ [x]) xs"
    by simp
  with ring_ok_tap [OF "2.prems"] show ?case
    by (auto simp: delta_spec_Cons Let_def split: prod.splits)
qed

section \<open>The coder contract\<close>

lemma delta_next_push [simp]: "delta_next (delta_push coder x) = delta_next coder"
  by (simp add: delta_push_def)

lemma delta_next_copy_and_encode: "delta_next (fst (copy_and_encode coder xs)) = delta_next coder"
  by (induction coder xs rule: copy_and_encode.induct) (auto simp: Let_def split: prod.splits)

lemma delta_next_decode_buffer: "delta_next (fst (decode_buffer coder xs)) = delta_next coder"
  by (induction coder xs rule: decode_buffer.induct) (auto simp: Let_def split: prod.splits)

lemma delta_encode_copy_step:
  assumes "delta_next c = None" and "io_ok inb ip is out op os"
    and "delta_encode c inb ip is out op os action = (ret, c', ip', out', op')"
  shows "delta_next c' = None \<and> io_step ip is out op os ip' out' op'"
proof -
  define k where "k = min (is - ip) (os - op)"
  obtain c1 enc where enc: "copy_and_encode c (bytes_at inb ip k) = (c1, enc)" by fastforce
  have bounds: "ip + k \<le> is" "op + k \<le> os" "os \<le> length out" "is \<le> length inb"
    using assms(2) by (auto simp: io_ok_def k_def)
  have len: "length enc = k" using length_copy_and_encode [OF enc] bounds by simp
  have nx: "delta_next c1 = None"
    using delta_next_copy_and_encode [of c "bytes_at inb ip k"] enc assms(1) by simp
  show ?thesis
  proof (cases "k = 0")
    case True
    then have "\<not> (ip < is \<and> op < os)" by (auto simp: k_def)
    with True assms(1,3) have "c' = c" "ip' = ip" "op' = op" "out' = out"
      by (auto simp: delta_encode_def Let_def k_def [symmetric])
    with assms(1) bounds show ?thesis by (auto intro: io_step_refl)
  next
    case False
    then have "ip < is \<and> op < os" by (auto simp: k_def)
    with assms(1,3) enc [unfolded k_def]
    have "c' = c1" "ip' = ip + k" "op' = op + k" "out' = memcpy out op enc"
      by (auto simp: delta_encode_def Let_def k_def)
    with io_step_memcpy [of ip "ip + k" "is" op enc os out] bounds len nx show ?thesis by simp
  qed
qed

interpretation delta_copy: lzma_coder delta_encode "\<lambda>c. delta_next c = None"
  by unfold_locales (rule delta_encode_copy_step)

text \<open>A delta coder whose next coder is \<open>code\<close> in a state that satisfies its invariant.\<close>

definition delta_chained :: "'c lzma_code_function \<Rightarrow> ('c \<Rightarrow> bool) \<Rightarrow> 'c lzma_delta_coder \<Rightarrow> bool" where
  "delta_chained code cinv d \<longleftrightarrow> (\<exists>c. delta_next d = Some (c, code) \<and> cinv c)"

context lzma_coder
begin

abbreviation chained :: "'c lzma_delta_coder \<Rightarrow> bool" where
  "chained \<equiv> delta_chained code cinv"

lemma delta_decode_step:
  assumes "chained d" and ok: "io_ok inb ip is out op os"
    and dec: "delta_decode d inb ip is out op os action = (ret, d', ip', out', op')"
  shows "chained d' \<and> io_step ip is out op os ip' out' op'"
proof -
  from assms(1) obtain c where c: "delta_next d = Some (c, code)" "cinv c"
    by (auto simp: delta_chained_def)
  obtain r c1 ip1 out1 op1 where run: "code c inb ip is out op os action = (r, c1, ip1, out1, op1)"
    by (metis prod_cases5)
  note step = code_step [OF c(2) ok run]
  let ?d = "d\<lparr>delta_next := Some (c1, code)\<rparr>" and ?n = "op1 - op"
  obtain d2 dd where db: "decode_buffer ?d (bytes_at out1 op ?n) = (d2, dd)" by fastforce
  have "length dd = ?n"
    using length_decode_buffer [OF db] step ok by (auto simp: io_step_def io_ok_def)
  with step ok have filt: "io_step ip is out op os ip1 (memcpy out1 op dd) op1"
    by (intro io_step_filter) (auto simp: io_ok_def io_step_def)
  have "chained d2"
    using delta_next_decode_buffer [of ?d "bytes_at out1 op ?n"] db step by (simp add: delta_chained_def)
  moreover have "chained ?d" using step by (simp add: delta_chained_def)
  ultimately show ?thesis
    using dec c(1) run db step filt
    by (cases "op1 - op > 0") (auto simp: delta_decode_def Let_def)
qed

lemma delta_encode_chained_step:
  assumes "chained d" and ok: "io_ok inb ip is out op os"
    and enc: "delta_encode d inb ip is out op os action = (ret, d', ip', out', op')"
  shows "chained d' \<and> io_step ip is out op os ip' out' op'"
proof -
  from assms(1) obtain c where c: "delta_next d = Some (c, code)" "cinv c"
    by (auto simp: delta_chained_def)
  obtain r c1 ip1 out1 op1 where run: "code c inb ip is out op os action = (r, c1, ip1, out1, op1)"
    by (metis prod_cases5)
  note step = code_step [OF c(2) ok run]
  let ?d = "d\<lparr>delta_next := Some (c1, code)\<rparr>" and ?n = "op1 - op"
  obtain d2 ee where eb: "copy_and_encode ?d (bytes_at out1 op ?n) = (d2, ee)" by fastforce
  have "length ee = ?n"
    using length_copy_and_encode [OF eb] step ok by (auto simp: io_step_def io_ok_def)
  with step ok have filt: "io_step ip is out op os ip1 (memcpy out1 op ee) op1"
    by (intro io_step_filter) (auto simp: io_ok_def io_step_def)
  have "chained d2"
    using delta_next_copy_and_encode [of ?d "bytes_at out1 op ?n"] eb step by (simp add: delta_chained_def)
  moreover have "chained ?d" using step by (simp add: delta_chained_def)
  ultimately show ?thesis
    using enc c(1) run eb step filt
    by (cases "op1 - op > 0") (auto simp: delta_encode_def Let_def encode_in_place_eq)
qed

lemma delta_decode_coder: "lzma_coder delta_decode chained"
  by unfold_locales (rule delta_decode_step)

lemma delta_encode_coder: "lzma_coder delta_encode chained"
  by unfold_locales (rule delta_encode_chained_step)

end

section \<open>Properties of the filter\<close>

text \<open>The loops applied to data that arrives in pieces.\<close>

fun run_pieces :: "('s \<Rightarrow> byte list \<Rightarrow> 's \<times> byte list) \<Rightarrow> 's \<Rightarrow> byte list list \<Rightarrow> byte list" where
  "run_pieces f s [] = []"
| "run_pieces f s (xs # xss) = (case f s xs of (s', ys) \<Rightarrow> ys @ run_pieces f s' xss)"

lemma copy_and_encode_append:
  "copy_and_encode c (xs @ ys) =
     (case copy_and_encode c xs of (c1, us) \<Rightarrow>
        (case copy_and_encode c1 ys of (c2, vs) \<Rightarrow> (c2, us @ vs)))"
  by (induction c xs rule: copy_and_encode.induct) (auto simp: Let_def split: prod.splits)

lemma decode_buffer_append:
  "decode_buffer c (xs @ ys) =
     (case decode_buffer c xs of (c1, us) \<Rightarrow>
        (case decode_buffer c1 ys of (c2, vs) \<Rightarrow> (c2, us @ vs)))"
  by (induction c xs rule: decode_buffer.induct) (auto simp: Let_def split: prod.splits)

lemma run_pieces_encode: "run_pieces copy_and_encode c xss = snd (copy_and_encode c (concat xss))"
  by (induction xss arbitrary: c) (auto simp: copy_and_encode_append split: prod.splits)

lemma run_pieces_decode: "run_pieces decode_buffer c xss = snd (decode_buffer c (concat xss))"
  by (induction xss arbitrary: c) (auto simp: decode_buffer_append split: prod.splits)

lemma one_le_u32: "1 \<le> (x :: u32) \<longleftrightarrow> x \<noteq> 0"
  by (simp add: word_le_nat_alt Suc_le_eq unat_gt_0)

lemma memusage_valid:
  "lzma_delta_coder_memusage (Some opt) \<noteq> UINT64_MAX \<longleftrightarrow>
     delta_type opt = 0 \<and> 1 \<le> dist opt \<and> dist opt \<le> 256"
  by (auto simp: lzma_delta_coder_memusage_def sizeof_lzma_delta_coder_def UINT64_MAX_def
      LZMA_DELTA_TYPE_BYTE_def LZMA_DELTA_DIST_MIN_def LZMA_DELTA_DIST_MAX_def one_le_u32)

lemma lzma_delta_coder_init_ok:
  assumes "lzma_delta_coder_init old fresh (Some opt) init = (LZMA_OK, Some c)"
  shows "distance c = unat (dist opt)" and "pos c = 0" and "history c = replicate 256 0"
    and "1 \<le> distance c" and "distance c \<le> 256"
proof -
  let ?m = "case old of None \<Rightarrow> map_option (\<lambda>c. c\<lparr>delta_next := None\<rparr>) fresh | Some c \<Rightarrow> Some c"
  have valid: "lzma_delta_coder_memusage (Some opt) \<noteq> UINT64_MAX"
    using assms by (cases ?m) (auto simp: lzma_delta_coder_init_def split: if_splits)
  then show d: "distance c = unat (dist opt)" and "pos c = 0" and "history c = replicate 256 0"
    using assms by (cases ?m; auto simp: lzma_delta_coder_init_def Let_def split: prod.splits)+
  from valid show "1 \<le> distance c" "distance c \<le> 256"
    unfolding d memusage_valid by (simp_all add: word_le_nat_alt)
qed

text \<open>
  The delta encoder computes the delta of its whole input. A coder initialised with
  valid options turns input that arrives in any pieces into the bytes of the input minus
  the byte \<open>dist\<close> positions earlier (zero before the start), modulo 256, and the in-place
  loop used in a filter chain computes the same.
\<close>

theorem delta_encoder_computes_delta:
  assumes "lzma_delta_coder_init old fresh (Some opt) init = (LZMA_OK, Some c)"
  shows "run_pieces copy_and_encode c xss = delta_spec (unat (dist opt)) [] (concat xss)
    \<and> run_pieces encode_in_place c xss = delta_spec (unat (dist opt)) [] (concat xss)"
proof -
  note i = lzma_delta_coder_init_ok [OF assms]
  have eq: "encode_in_place = copy_and_encode" by (intro ext) (rule encode_in_place_eq)
  show ?thesis
    using copy_and_encode_spec [OF ring_ok_init [OF i(2,3)] i(4,5), of "concat xss"] i(1)
    by (simp add: run_pieces_encode eq)
qed

theorem delta_encoder_computes_delta_witness:
  "run_pieces copy_and_encode
     (the (snd (lzma_delta_coder_init None
        (Some \<lparr>delta_next = None, distance = 0, pos = 7, history = []\<rparr> :: unit lzma_delta_coder option)
        (Some \<lparr>delta_type = 0, dist = 2\<rparr>) (\<lambda>_. (LZMA_OK, None)))))
     [[1, 2, 3], [], [10]] = [1, 2, 2, 8]"
proof -
  let ?c = "\<lparr>delta_next = None, distance = 2, pos = 0, history = replicate 256 0\<rparr> :: unit lzma_delta_coder"
  have init: "lzma_delta_coder_init None
        (Some \<lparr>delta_next = None, distance = 0, pos = 7, history = []\<rparr> :: unit lzma_delta_coder option)
        (Some \<lparr>delta_type = 0, dist = 2\<rparr>) (\<lambda>_. (LZMA_OK, None)) = (LZMA_OK, Some ?c)"
    by (simp add: lzma_delta_coder_init_def lzma_delta_coder_memusage_def UINT64_MAX_def
        sizeof_lzma_delta_coder_def LZMA_DELTA_TYPE_BYTE_def LZMA_DELTA_DIST_MIN_def
        LZMA_DELTA_DIST_MAX_def)
  show ?thesis
    using delta_encoder_computes_delta [OF init, of "[[1, 2, 3], [], [10]]"]
    by (simp add: init delta_spec_def past_byte_def upt_rec)
qed

text \<open>
  C37: The delta decoder restores what the encoder was given. With both coders initialised
  from the same options, whatever pieces the encoder read its input in and whatever pieces
  the decoder receives the encoded bytes in, the decoder's output is the original input.
\<close>

theorem delta_decoder_restores_input:
  assumes "lzma_delta_coder_init old fresh (Some opt) init = (LZMA_OK, Some e)"
    and "lzma_delta_coder_init old' fresh' (Some opt) init' = (LZMA_OK, Some d)"
    and "concat yss = run_pieces copy_and_encode e xss"
  shows "run_pieces decode_buffer d yss = concat xss"
proof -
  from lzma_delta_coder_init_ok [OF assms(1)] lzma_delta_coder_init_ok [OF assms(2)]
  have same: "same_ring e d" by (simp add: same_ring_def)
  obtain e' ys where enc: "copy_and_encode e (concat xss) = (e', ys)" by fastforce
  with assms(3) have "concat yss = ys" by (simp add: run_pieces_encode)
  with decode_encode [OF same enc] show ?thesis by (auto simp: run_pieces_decode)
qed

theorem delta_decoder_restores_input_witness:
  "let m = Some (Some \<lparr>delta_next = None, distance = 0, pos = 7, history = []\<rparr> :: unit lzma_delta_coder option);
       c = the (snd (lzma_delta_coder_init None (the m) (Some \<lparr>delta_type = 0, dist = 1\<rparr>) (\<lambda>_. (LZMA_OK, None))))
   in run_pieces decode_buffer c [[5], [1, 255]] = [5, 6, 5]"
proof -
  let ?c = "\<lparr>delta_next = None, distance = 1, pos = 0, history = replicate 256 0\<rparr> :: unit lzma_delta_coder"
  have init: "lzma_delta_coder_init None
        (Some \<lparr>delta_next = None, distance = 0, pos = 7, history = []\<rparr> :: unit lzma_delta_coder option)
        (Some \<lparr>delta_type = 0, dist = 1\<rparr>) (\<lambda>_. (LZMA_OK, None)) = (LZMA_OK, Some ?c)"
    by (simp add: lzma_delta_coder_init_def lzma_delta_coder_memusage_def UINT64_MAX_def
        sizeof_lzma_delta_coder_def LZMA_DELTA_TYPE_BYTE_def LZMA_DELTA_DIST_MIN_def
        LZMA_DELTA_DIST_MAX_def)
  have "run_pieces copy_and_encode ?c [[5, 6], [5]] = [5, 1, 255]"
    by (simp add: Let_def delta_tap_def delta_push_def nth_list_update unsigned_minus_1_eq_mask
        mask_eq_exp_minus_1)
  then show ?thesis
    using delta_decoder_restores_input [OF init init, of "[[5], [1, 255]]" "[[5, 6], [5]]"]
    by (simp add: init)
qed

text \<open>
  The delta filter keeps the coder contract of its chain. If the next coder moves its
  positions forward within the sizes and writes only between them, so do \<open>delta_encode\<close>
  and \<open>delta_decode\<close> on top of it, and the next coder stays in the chain.
\<close>

theorem delta_filter_keeps_contract:
  assumes "lzma_coder code cinv"
  shows "lzma_coder delta_encode (delta_chained code cinv)
    \<and> lzma_coder delta_decode (delta_chained code cinv)"
  using lzma_coder.delta_encode_coder [OF assms] lzma_coder.delta_decode_coder [OF assms] by blast

theorem delta_filter_keeps_contract_witness:
  "lzma_coder delta_decode
     (delta_chained delta_encode (\<lambda>c :: unit lzma_delta_coder. delta_next c = None))
   \<and> delta_chained delta_encode (\<lambda>c :: unit lzma_delta_coder. delta_next c = None)
       \<lparr>delta_next = Some (\<lparr>delta_next = None, distance = 1, pos = 0, history = replicate 256 0\<rparr>,
          delta_encode), distance = 1, pos = 0, history = replicate 256 0\<rparr>"
  using delta_filter_keeps_contract [OF delta_copy.lzma_coder_axioms [where ?'a = unit]]
  by (simp add: delta_chained_def)

text \<open>
  The delta properties round-trip. Valid options are encoded in one byte and decoded
  from it unchanged; options that the filter does not accept are refused with the program
  error and leave the buffer as it was.
\<close>

theorem lzma_delta_props_roundtrip:
  assumes "p < length out"
  shows "if delta_type opt = 0 \<and> 1 \<le> dist opt \<and> dist opt \<le> 256
    then \<exists>out'. lzma_delta_props_encode (Some opt) out p = (LZMA_OK, out')
           \<and> length out' = length out \<and> (\<forall>q. q \<noteq> p \<longrightarrow> out' ! q = out ! q)
           \<and> lzma_delta_props_decode True [out' ! p] = (LZMA_OK, Some opt)
    else lzma_delta_props_encode (Some opt) out p = (LZMA_PROG_ERROR, out)"
proof (cases "lzma_delta_coder_memusage (Some opt) = UINT64_MAX")
  case True
  then show ?thesis
    using memusage_valid [of opt] by (auto simp: lzma_delta_props_encode_def)
next
  case False
  then have v: "delta_type opt = 0" "1 \<le> dist opt" "dist opt \<le> 256" by (simp_all add: memusage_valid)
  have "unat (dist opt - 1) < 256"
    using v(2,3) by (simp add: unat_sub word_le_nat_alt)
  then have "(ucast (ucast (dist opt - 1) :: byte) :: u32) = dist opt - 1"
    by (intro word_unat_eq_iff [THEN iffD2]) (simp add: unsigned_ucast_eq unsigned_take_bit_eq take_bit_nat_eq_self)
  with v False assms show ?thesis
    by (auto simp: lzma_delta_props_encode_def lzma_delta_props_decode_def LZMA_DELTA_TYPE_BYTE_def
        LZMA_DELTA_DIST_MIN_def)
qed

theorem lzma_delta_props_roundtrip_witness:
  "\<exists>out'. lzma_delta_props_encode (Some \<lparr>delta_type = 0, dist = 256\<rparr>) [9, 9] 1 = (LZMA_OK, out')
     \<and> lzma_delta_props_decode True [out' ! 1] = (LZMA_OK, Some \<lparr>delta_type = 0, dist = 256\<rparr>)"
  using lzma_delta_props_roundtrip [of 1 "[9, 9]" "\<lparr>delta_type = 0, dist = 256\<rparr>"] by auto

end
