(* ===== verification/Lzma_Simple.thy ===== *)
theory Lzma_Simple
  imports Lzma_Base
begin

text \<open>
  The branch/call/jump filters of \<^verbatim>\<open>simple/\<close> whose loop looks at one fixed-size block at a
  time: ARM, ARM64, PowerPC and SPARC (four bytes), and ARM-Thumb, whose four-byte
  instructions start at every second byte. A filter function gets its own state, the
  32-bit position of the buffer, the direction and the buffer \<open>buffer[0..size)\<close>; it returns
  the number of bytes it has filtered, its state and the buffer. Encoding turns relative
  branch targets into absolute ones and decoding turns them back.
\<close>

type_synonym 's filter_function = "'s \<Rightarrow> u32 \<Rightarrow> bool \<Rightarrow> byte list \<Rightarrow> nat \<times> 's \<times> byte list"

section \<open>The block loop\<close>

text \<open>
  The loop \<open>for (i = 0; i < size; i += k)\<close> over \<open>size & ~(k - 1)\<close> bytes: \<open>pc\<close> is
  \<open>now_pos + i\<close>, \<open>instr\<close> the body on the bytes \<open>buffer[i..i+k)\<close>. The value returned is the
  final \<open>i\<close>.
\<close>

function bcj_blocks :: "nat \<Rightarrow> (u32 \<Rightarrow> byte list \<Rightarrow> byte list) \<Rightarrow> u32 \<Rightarrow> byte list \<Rightarrow> nat \<times> byte list" where
  "bcj_blocks k instr pc buffer =
     (if 0 < k \<and> k \<le> length buffer
      then case bcj_blocks k instr (pc + of_nat k) (drop k buffer) of
             (i, rest) \<Rightarrow> (k + i, instr pc (take k buffer) @ rest)
      else (0, buffer))"
  by pat_completeness auto
termination
  by (relation "measure (\<lambda>(k, instr, pc, buffer). length buffer)") auto

declare bcj_blocks.simps [simp del]

section \<open>ARM\<close>

definition arm_instr :: "bool \<Rightarrow> u32 \<Rightarrow> byte list \<Rightarrow> byte list" where
  "arm_instr is_encoder pc b =
     (if b ! 3 = 0xEB
      then let src = push_bit 16 (ucast (b ! 2)) OR push_bit 8 (ucast (b ! 1)) OR ucast (b ! 0);
               src = push_bit 2 src;
               dest = (if is_encoder then pc + 8 + src else src - (pc + 8));
               dest = drop_bit 2 dest
           in b[2 := ucast (drop_bit 16 dest), 1 := ucast (drop_bit 8 dest), 0 := ucast dest]
      else b)"

definition arm_code :: "'s filter_function" where
  "arm_code simple now_pos is_encoder buffer =
     (case bcj_blocks 4 (arm_instr is_encoder) now_pos buffer of
        (i, buffer) \<Rightarrow> (i, simple, buffer))"

section \<open>PowerPC\<close>

definition powerpc_instr :: "bool \<Rightarrow> u32 \<Rightarrow> byte list \<Rightarrow> byte list" where
  "powerpc_instr is_encoder pc b =
     (if drop_bit 2 (b ! 0) = 0x12 \<and> b ! 3 AND 3 = 1
      then let src = push_bit 24 (ucast (b ! 0) AND 3) OR push_bit 16 (ucast (b ! 1))
                     OR push_bit 8 (ucast (b ! 2)) OR (ucast (b ! 3) AND NOT 3);
               dest = (if is_encoder then pc + src else src - pc)
           in b[0 := ucast (0x48 OR (drop_bit 24 dest AND 3)), 1 := ucast (drop_bit 16 dest),
                2 := ucast (drop_bit 8 dest), 3 := (b ! 3 AND 3) OR ucast dest]
      else b)"

definition powerpc_code :: "'s filter_function" where
  "powerpc_code simple now_pos is_encoder buffer =
     (case bcj_blocks 4 (powerpc_instr is_encoder) now_pos buffer of
        (i, buffer) \<Rightarrow> (i, simple, buffer))"

section \<open>SPARC\<close>

definition sparc_instr :: "bool \<Rightarrow> u32 \<Rightarrow> byte list \<Rightarrow> byte list" where
  "sparc_instr is_encoder pc b =
     (if (b ! 0 = 0x40 \<and> b ! 1 AND 0xC0 = 0) \<or> (b ! 0 = 0x7F \<and> b ! 1 AND 0xC0 = 0xC0)
      then let src = push_bit 24 (ucast (b ! 0)) OR push_bit 16 (ucast (b ! 1))
                     OR push_bit 8 (ucast (b ! 2)) OR ucast (b ! 3);
               src = push_bit 2 src;
               dest = (if is_encoder then pc + src else src - pc);
               dest = drop_bit 2 dest;
               dest = (push_bit 22 (0 - (drop_bit 22 dest AND 1)) AND 0x3FFFFFFF)
                      OR (dest AND 0x3FFFFF) OR 0x40000000
           in b[0 := ucast (drop_bit 24 dest), 1 := ucast (drop_bit 16 dest),
                2 := ucast (drop_bit 8 dest), 3 := ucast dest]
      else b)"

definition sparc_code :: "'s filter_function" where
  "sparc_code simple now_pos is_encoder buffer =
     (case bcj_blocks 4 (sparc_instr is_encoder) now_pos buffer of
        (i, buffer) \<Rightarrow> (i, simple, buffer))"

section \<open>ARM64\<close>

definition arm64_instr :: "bool \<Rightarrow> u32 \<Rightarrow> byte list \<Rightarrow> byte list" where
  "arm64_instr is_encoder pc b =
     (let instr = read32le b 0
      in if drop_bit 26 instr = 0x25
         then let src = instr;
                  instr = 0x94000000;
                  pc = drop_bit 2 pc;
                  pc = (if is_encoder then pc else 0 - pc);
                  instr = instr OR ((src + pc) AND 0x03FFFFFF)
              in write32le b 0 instr
         else if instr AND 0x9F000000 = 0x90000000
         then let src = (drop_bit 29 instr AND 3) OR (drop_bit 3 instr AND 0x001FFFFC)
              in if (src + 0x00020000) AND 0x001C0000 \<noteq> 0 then b
                 else let instr = instr AND 0x9000001F;
                          pc = drop_bit 12 pc;
                          pc = (if is_encoder then pc else 0 - pc);
                          dest = src + pc;
                          instr = instr OR push_bit 29 (dest AND 3);
                          instr = instr OR push_bit 3 (dest AND 0x0003FFFC);
                          instr = instr OR ((0 - (dest AND 0x00020000)) AND 0x00E00000)
                      in write32le b 0 instr
         else b)"

definition arm64_code :: "'s filter_function" where
  "arm64_code simple now_pos is_encoder buffer =
     (case bcj_blocks 4 (arm64_instr is_encoder) now_pos buffer of
        (i, buffer) \<Rightarrow> (i, simple, buffer))"

text \<open>The entry points for one buffer, with the start offset rounded down.\<close>

definition lzma_bcj_arm64_encode :: "u32 \<Rightarrow> byte list \<Rightarrow> nat \<times> byte list" where
  "lzma_bcj_arm64_encode start_offset buf =
     (case arm64_code () (start_offset AND NOT 3) True buf of (i, _, buf) \<Rightarrow> (i, buf))"

definition lzma_bcj_arm64_decode :: "u32 \<Rightarrow> byte list \<Rightarrow> nat \<times> byte list" where
  "lzma_bcj_arm64_decode start_offset buf =
     (case arm64_code () (start_offset AND NOT 3) False buf of (i, _, buf) \<Rightarrow> (i, buf))"

section \<open>ARM-Thumb\<close>

text \<open>
  The loop advances by two bytes, or by four past an instruction it has converted; \<open>pc\<close>
  is \<open>now_pos + i\<close>. It ends when fewer than four bytes are left.
\<close>

fun armthumb_loop :: "bool \<Rightarrow> u32 \<Rightarrow> byte list \<Rightarrow> nat \<times> byte list" where
  "armthumb_loop is_encoder pc (b0 # b1 # b2 # b3 # buffer) =
     (if b1 AND 0xF8 = 0xF0 \<and> b3 AND 0xF8 = 0xF8
      then let src = push_bit 19 (ucast b1 AND 7) OR push_bit 11 (ucast b0)
                     OR push_bit 8 (ucast b3 AND 7) OR ucast b2;
               src = push_bit 1 src;
               dest = (if is_encoder then pc + 4 + src else src - (pc + 4));
               dest = drop_bit 1 dest
           in case armthumb_loop is_encoder (pc + 4) buffer of
                (i, rest) \<Rightarrow> (4 + i, ucast (drop_bit 11 dest)
                   # ucast (0xF0 OR (drop_bit 19 dest AND 7)) # ucast dest
                   # ucast (0xF8 OR (drop_bit 8 dest AND 7)) # rest)
      else case armthumb_loop is_encoder (pc + 2) (b2 # b3 # buffer) of
             (i, rest) \<Rightarrow> (2 + i, b0 # b1 # rest))"
| "armthumb_loop is_encoder pc buffer = (0, buffer)"

definition armthumb_code :: "'s filter_function" where
  "armthumb_code simple now_pos is_encoder buffer =
     (case armthumb_loop is_encoder now_pos buffer of (i, buffer) \<Rightarrow> (i, simple, buffer))"

section \<open>The block loop undoes itself\<close>

locale bcj_block =
  fixes k :: nat and instr :: "bool \<Rightarrow> u32 \<Rightarrow> byte list \<Rightarrow> byte list"
  assumes k_pos: "0 < k" and k_dvd: "k dvd 2 ^ 32"
    and instr_length: "length b = k \<Longrightarrow> length (instr e pc b) = k"
    and instr_inverse: "length b = k \<Longrightarrow> k dvd unat pc \<Longrightarrow> instr (\<not> e) pc (instr e pc b) = b"
begin

lemma blocks_short: "length buffer < k \<Longrightarrow> bcj_blocks k f pc buffer = (0, buffer)"
  by (subst bcj_blocks.simps) simp

lemma blocks_step:
  "length b = k \<Longrightarrow> bcj_blocks k f pc (b @ rest) =
     (case bcj_blocks k f (pc + of_nat k) rest of (i, rest') \<Rightarrow> (k + i, f pc b @ rest'))"
  using k_pos by (subst bcj_blocks.simps) simp

text \<open>Induction over a buffer by blocks.\<close>

lemma block_induct [case_names short step]:
  assumes "\<And>pc buffer. length buffer < k \<Longrightarrow> P pc buffer"
    and "\<And>pc b rest. length b = k \<Longrightarrow> P (pc + of_nat k) rest \<Longrightarrow> P pc (b @ rest)"
  shows "P (pc :: u32) (buffer :: byte list)"
proof (induction "length buffer" arbitrary: pc buffer rule: less_induct)
  case less
  show ?case
  proof (cases "length buffer < k")
    case False
    then have "P (pc + of_nat k) (drop k buffer)" using k_pos by (intro less) simp
    with False assms(2) [of "take k buffer" pc "drop k buffer"] show ?thesis by simp
  qed (rule assms(1))
qed

lemma blocks_result:
  "bcj_blocks k (instr e) pc buffer = (i, buffer') \<Longrightarrow>
   i = length buffer div k * k \<and> length buffer' = length buffer \<and> drop i buffer' = drop i buffer"
proof (induction pc buffer arbitrary: i buffer' rule: block_induct)
  case (short pc buffer)
  then show ?case by (simp add: blocks_short)
next
  case (step pc b rest)
  obtain j rest' where rec: "bcj_blocks k (instr e) (pc + of_nat k) rest = (j, rest')" by fastforce
  with step have "i = k + j" "buffer' = instr e pc b @ rest'" by (simp_all add: blocks_step)
  with step.IH [OF rec] step(1) instr_length [OF step(1)] k_pos show ?case
    by (auto simp: div_add_self1)
qed

lemma aligned_next: "k dvd unat (pc :: u32) \<Longrightarrow> k dvd unat (pc + of_nat k)"
  using k_dvd by (simp add: unat_word_ariths unsigned_of_nat take_bit_eq_mod dvd_mod)

lemma blocks_roundtrip:
  "k dvd unat pc \<Longrightarrow> bcj_blocks k (instr e) pc buffer = (i, buffer') \<Longrightarrow>
   bcj_blocks k (instr (\<not> e)) pc buffer' = (i, buffer)"
proof (induction pc buffer arbitrary: i buffer' rule: block_induct)
  case (short pc buffer)
  then show ?case by (auto simp: blocks_short)
next
  case (step pc b rest)
  obtain j rest' where rec: "bcj_blocks k (instr e) (pc + of_nat k) rest = (j, rest')" by fastforce
  with step have "i = k + j" "buffer' = instr e pc b @ rest'" by (simp_all add: blocks_step)
  with step.IH [OF aligned_next [OF step.prems(1)] rec] step(1) instr_length [OF step(1)]
    instr_inverse [OF step(1) step.prems(1)] show ?case
    by (simp add: blocks_step)
qed

text \<open>A buffer can be filtered in two calls, the second at the position where the first stopped.\<close>

lemma blocks_append:
  "length xs mod k = 0 \<Longrightarrow> bcj_blocks k f pc (xs @ ys) =
     (case bcj_blocks k f pc xs of (i, xs') \<Rightarrow>
        (case bcj_blocks k f (pc + of_nat i) ys of (j, ys') \<Rightarrow> (i + j, xs' @ ys')))"
proof (induction pc xs rule: block_induct)
  case (short pc xs)
  with k_pos show ?case by (simp add: blocks_short split: prod.splits)
next
  case (step pc b rest)
  from step(1) step.prems have "length rest mod k = 0" by simp
  from step.IH [OF this] show ?case
    by (simp add: blocks_step [OF step(1)] add.assoc split: prod.splits)
qed

end

section \<open>Instructions as words\<close>

lemma list_4: "length b = 4 \<Longrightarrow> \<exists>b0 b1 b2 b3. b = [b0, b1, b2, b3]"
  by (auto simp: numeral_eq_Suc length_Suc_conv)

lemma dvd_4_push:
  assumes "4 dvd unat (pc :: u32)"
  obtains q where "pc = push_bit 2 q"
proof -
  from assms obtain q where q: "unat pc = 4 * q" by (auto simp: dvd_def)
  have "pc = of_nat (unat pc)" by simp
  then have "pc = push_bit 2 (of_nat q)" by (simp only: q) (simp add: push_bit_eq_mult mult.commute)
  with that show thesis .
qed

lemma push_bit_add_word: "push_bit n (a :: 'a::len word) + push_bit n b = push_bit n (a + b)"
  by (simp add: push_bit_eq_mult algebra_simps)

lemma push_bit_diff_word: "push_bit n (a :: 'a::len word) - push_bit n b = push_bit n (a - b)"
  by (simp add: push_bit_eq_mult algebra_simps)

text \<open>The three low bytes of a word.\<close>

definition join24 :: "byte \<Rightarrow> byte \<Rightarrow> byte \<Rightarrow> u32" where
  "join24 b2 b1 b0 = push_bit 16 (ucast b2) OR push_bit 8 (ucast b1) OR ucast b0"

lemma join24_bytes:
  "join24 (ucast (drop_bit 16 x)) (ucast (drop_bit 8 x)) (ucast x) = take_bit 24 (x :: u32)"
proof (rule bit_word_eqI)
  fix n assume "n < LENGTH(32)"
  consider "n < 8" | "8 \<le> n" "n < 16" | "16 \<le> n" "n < 24" | "24 \<le> n" by linarith
  then show "bit (join24 (ucast (drop_bit 16 x)) (ucast (drop_bit 8 x)) (ucast x)) n = bit (take_bit 24 x) n"
    by cases (auto simp: join24_def bit_simps dest: bit_imp_le_length)
qed

lemma bytes_join24:
  "ucast (drop_bit 16 (join24 b2 b1 b0)) = b2" "ucast (drop_bit 8 (join24 b2 b1 b0)) = b1"
  "ucast (join24 b2 b1 b0) = b0"
  by (rule bit_word_eqI, auto simp: join24_def bit_simps dest: bit_imp_le_length)+

lemma take_bit_join24 [simp]: "take_bit 24 (join24 b2 b1 b0) = join24 b2 b1 b0"
  using join24_bytes [of "join24 b2 b1 b0"] by (simp add: bytes_join24)

lemma ucast_take_24:
  "ucast (drop_bit 16 (take_bit 24 (x :: u32))) = (ucast (drop_bit 16 x) :: byte)"
  "ucast (drop_bit 8 (take_bit 24 x)) = (ucast (drop_bit 8 x) :: byte)"
  "ucast (take_bit 24 x) = (ucast x :: byte)"
  by (rule bit_word_eqI, auto simp: bit_simps)+

text \<open>Adding a base to the 24-bit field and subtracting it again, in either order.\<close>

lemma field_undo:
  assumes "n + k \<le> LENGTH('a)" and "take_bit n s = (s :: 'a::len word)"
  shows "take_bit n (drop_bit k (push_bit k (take_bit n (drop_bit k (push_bit k p + push_bit k s))) - push_bit k p)) = s"
    and "take_bit n (drop_bit k (push_bit k p + push_bit k (take_bit n (drop_bit k (push_bit k s - push_bit k p))))) = s"
  using assms
  by (simp_all add: push_bit_add_word push_bit_diff_word take_bit_drop_push take_bit_diff_left
      add.commute [of p] take_bit_add_left)

definition arm_field :: "bool \<Rightarrow> u32 \<Rightarrow> u32 \<Rightarrow> u32" where
  "arm_field e pc s = take_bit 24 (drop_bit 2 (if e then pc + 8 + push_bit 2 s else push_bit 2 s - (pc + 8)))"

lemma arm_instr_4:
  "arm_instr e pc [b0, b1, b2, b3] =
     (if b3 = 0xEB
      then let d = arm_field e pc (join24 b2 b1 b0) in [ucast d, ucast (drop_bit 8 d), ucast (drop_bit 16 d), b3]
      else [b0, b1, b2, b3])"
  unfolding arm_instr_def arm_field_def Let_def ucast_take_24
  by (simp add: join24_def numeral_eq_Suc)

lemma arm_field_undo:
  assumes "4 dvd unat pc" and "take_bit 24 s = s"
  shows "arm_field (\<not> e) pc (arm_field e pc s) = s"
proof -
  from assms(1) obtain q where q: "pc = push_bit 2 q" by (rule dvd_4_push)
  have q8: "push_bit 2 q + 8 = push_bit 2 (q + 2)" by (simp add: push_bit_eq_mult algebra_simps)
  show ?thesis
    using field_undo [of 24 2 s "q + 2"] assms(2) by (cases e) (simp_all add: arm_field_def q q8)
qed

interpretation arm: bcj_block 4 arm_instr
proof
  fix b :: "byte list" and pc :: u32 and e :: bool
  assume len: "length b = 4"
  then show "length (arm_instr e pc b) = 4" by (simp add: arm_instr_def Let_def)
  assume al: "4 dvd unat pc"
  from len obtain b0 b1 b2 b3 where b: "b = [b0, b1, b2, b3]" using list_4 by blast
  let ?d = "arm_field e pc (join24 b2 b1 b0)"
  have "take_bit 24 ?d = ?d" by (simp add: arm_field_def)
  then show "arm_instr (\<not> e) pc (arm_instr e pc b) = b"
    using arm_field_undo [OF al take_bit_join24, of e b2 b1 b0]
    by (simp add: b arm_instr_4 Let_def join24_bytes bytes_join24)
qed simp_all

section \<open>PowerPC words\<close>

definition pjoin :: "byte \<Rightarrow> byte \<Rightarrow> byte \<Rightarrow> byte \<Rightarrow> u32" where
  "pjoin b0 b1 b2 b3 = push_bit 24 (ucast b0 AND 3) OR push_bit 16 (ucast b1)
                     OR push_bit 8 (ucast b2) OR (ucast b3 AND NOT 3)"

definition powerpc_field :: "bool \<Rightarrow> u32 \<Rightarrow> u32 \<Rightarrow> u32" where
  "powerpc_field e pc s = take_bit 26 (if e then pc + s else s - pc)"

lemma pjoin_bytes:
  assumes "take_bit 26 d = d" and "take_bit 2 d = (0 :: u32)"
  shows "pjoin (ucast (0x48 OR (drop_bit 24 d AND 3))) (ucast (drop_bit 16 d)) (ucast (drop_bit 8 d))
           (1 OR ucast d) = d"
  using assms by (simp add: u32_bits pjoin_def bit_simps)

lemma pjoin_bits: "take_bit 26 (pjoin b0 b1 b2 b3) = pjoin b0 b1 b2 b3" "take_bit 2 (pjoin b0 b1 b2 b3) = 0"
  by (simp_all add: u32_bits pjoin_def bit_simps)

lemma bytes_pjoin:
  assumes "drop_bit 2 b0 = 0x12" and "b3 AND 3 = 1"
  shows "ucast (0x48 OR (drop_bit 24 (pjoin b0 b1 b2 b3) AND 3)) = b0"
    and "ucast (drop_bit 16 (pjoin b0 b1 b2 b3)) = b1"
    and "ucast (drop_bit 8 (pjoin b0 b1 b2 b3)) = b2"
    and "1 OR ucast (pjoin b0 b1 b2 b3) = b3"
  using assms by (simp_all add: byte_bits pjoin_def bit_simps)

lemma powerpc_take_26:
  "ucast (0x48 OR (drop_bit 24 (take_bit 26 (x :: u32)) AND 3)) = (ucast (0x48 OR (drop_bit 24 x AND 3)) :: byte)"
  "ucast (drop_bit 16 (take_bit 26 x)) = (ucast (drop_bit 16 x) :: byte)"
  "ucast (drop_bit 8 (take_bit 26 x)) = (ucast (drop_bit 8 x) :: byte)"
  "ucast (take_bit 26 x) = (ucast x :: byte)"
  by (simp_all add: byte_bits bit_simps)

lemma powerpc_instr_4:
  "powerpc_instr e pc [b0, b1, b2, b3] =
     (if drop_bit 2 b0 = 0x12 \<and> b3 AND 3 = 1
      then let d = powerpc_field e pc (pjoin b0 b1 b2 b3)
           in [ucast (0x48 OR (drop_bit 24 d AND 3)), ucast (drop_bit 16 d), ucast (drop_bit 8 d),
               1 OR ucast d]
      else [b0, b1, b2, b3])"
  unfolding powerpc_instr_def powerpc_field_def Let_def powerpc_take_26
  by (simp add: pjoin_def numeral_eq_Suc)

lemma powerpc_field_undo:
  "take_bit 26 s = s \<Longrightarrow> powerpc_field (\<not> e) pc (powerpc_field e pc s) = s"
  by (cases e) (simp_all add: powerpc_field_def take_bit_diff_left add.commute [of pc] take_bit_add_left)

lemma powerpc_field_aligned:
  assumes "4 dvd unat pc" and "take_bit 2 s = 0"
  shows "take_bit 2 (powerpc_field e pc s) = 0"
proof -
  from assms(1) obtain q where q: "pc = push_bit 2 q" by (rule dvd_4_push)
  have s: "s = push_bit 2 (drop_bit 2 s)"
    using assms(2) by (metis bits_ident add.right_neutral)
  have "take_bit 2 (push_bit 2 (x :: u32)) = 0" for x by (simp add: u32_bits bit_simps)
  then show ?thesis
    unfolding powerpc_field_def q by (subst s, subst s) (simp add: push_bit_add_word push_bit_diff_word)
qed

lemma powerpc_cond:
  "drop_bit 2 (ucast (0x48 OR (x AND 3 :: u32)) :: byte) = 0x12"
  "take_bit 2 (d :: u32) = 0 \<Longrightarrow> (1 OR ucast d) AND 3 = (1 :: byte)"
  by (simp_all add: byte_bits u32_bits bit_simps)

interpretation powerpc: bcj_block 4 powerpc_instr
proof
  fix b :: "byte list" and pc :: u32 and e :: bool
  assume len: "length b = 4"
  then show "length (powerpc_instr e pc b) = 4" by (simp add: powerpc_instr_def Let_def)
  assume al: "4 dvd unat pc"
  from len obtain b0 b1 b2 b3 where b: "b = [b0, b1, b2, b3]" using list_4 by blast
  let ?s = "pjoin b0 b1 b2 b3" and ?d = "powerpc_field e pc (pjoin b0 b1 b2 b3)"
  have d: "take_bit 26 ?d = ?d" "take_bit 2 ?d = 0"
    using powerpc_field_aligned [OF al pjoin_bits(2)] by (simp_all add: powerpc_field_def)
  show "powerpc_instr (\<not> e) pc (powerpc_instr e pc b) = b"
  proof (cases "drop_bit 2 b0 = 0x12 \<and> b3 AND 3 = 1")
    case True
    then show ?thesis
      using powerpc_field_undo [OF pjoin_bits(1), of e pc b0 b1 b2 b3] bytes_pjoin [of b0 b3 b1 b2]
        powerpc_cond(2) [OF d(2)]
      by (simp only: b powerpc_instr_4 Let_def if_True powerpc_cond(1) pjoin_bytes [OF d] simp_thms)
  next
    case False
    then show ?thesis by (simp only: b powerpc_instr_4 if_False)
  qed
qed simp_all

section \<open>SPARC words\<close>

definition join32be :: "byte \<Rightarrow> byte \<Rightarrow> byte \<Rightarrow> byte \<Rightarrow> u32" where
  "join32be b0 b1 b2 b3 = push_bit 24 (ucast b0) OR push_bit 16 (ucast b1) OR push_bit 8 (ucast b2) OR ucast b3"

lemma join32be_bytes:
  "join32be (ucast (drop_bit 24 x)) (ucast (drop_bit 16 x)) (ucast (drop_bit 8 x)) (ucast x) = x"
  by (simp add: u32_bits join32be_def bit_simps)

lemma bytes_join32be:
  "ucast (drop_bit 24 (join32be b0 b1 b2 b3)) = b0" "ucast (drop_bit 16 (join32be b0 b1 b2 b3)) = b1"
  "ucast (drop_bit 8 (join32be b0 b1 b2 b3)) = b2" "ucast (join32be b0 b1 b2 b3) = b3"
  by (simp_all add: byte_bits join32be_def bit_simps)

text \<open>The 23-bit signed field of a call, extended to the instruction word.\<close>

definition sparc_word :: "u32 \<Rightarrow> u32" where
  "sparc_word d = (push_bit 22 (0 - (drop_bit 22 d AND 1)) AND 0x3FFFFFFF) OR (d AND 0x3FFFFF) OR 0x40000000"

definition sparc_call :: "u32 \<Rightarrow> bool" where
  "sparc_call w \<longleftrightarrow> \<not> bit w 31 \<and> bit w 30 \<and>
     bit w 29 = bit w 22 \<and> bit w 28 = bit w 22 \<and> bit w 27 = bit w 22 \<and> bit w 26 = bit w 22
     \<and> bit w 25 = bit w 22 \<and> bit w 24 = bit w 22 \<and> bit w 23 = bit w 22"

lemma drop_and_1: "drop_bit n (d :: u32) AND 1 = of_bool (bit d n)"
  by (rule bit_word_eqI) (auto simp: bit_simps)

lemma sparc_word_cases:
  "sparc_word d = (if bit d 22 then 0x7FC00000 else 0x40000000) OR take_bit 22 d"
  unfolding sparc_word_def drop_and_1
  by (cases "bit d 22") (simp_all add: u32_bits bit_simps)

lemma sparc_call_word: "sparc_call (sparc_word d)"
  unfolding sparc_word_cases by (cases "bit d 22") (simp_all add: sparc_call_def bit_simps)

lemma sparc_word_take: "sparc_word (take_bit 23 d) = sparc_word d"
  unfolding sparc_word_cases by (simp add: bit_simps)

lemma take_sparc_word: "take_bit 23 (sparc_word d) = take_bit 23 d"
  unfolding sparc_word_cases by (cases "bit d 22") (simp_all add: u32_bits bit_simps)

lemma sparc_word_call: "sparc_call w \<Longrightarrow> sparc_word w = w"
  unfolding sparc_word_cases by (cases "bit w 22") (simp_all add: sparc_call_def u32_bits bit_simps)

lemma sparc_call_bytes:
  "sparc_call (join32be b0 b1 b2 b3) \<longleftrightarrow>
     (b0 = 0x40 \<and> b1 AND 0xC0 = 0) \<or> (b0 = 0x7F \<and> b1 AND 0xC0 = 0xC0)"
  by (auto simp: sparc_call_def join32be_def byte_bits bit_simps)

definition sparc_field :: "bool \<Rightarrow> u32 \<Rightarrow> u32 \<Rightarrow> u32" where
  "sparc_field e pc w = drop_bit 2 (if e then pc + push_bit 2 w else push_bit 2 w - pc)"

lemma list_4_simps:
  "[b0, b1, b2, b3] ! 0 = b0" "[b0, b1, b2, b3] ! 1 = b1" "[b0, b1, b2, b3] ! 2 = b2" "[b0, b1, b2, b3] ! 3 = b3"
  "[b0, b1, b2, b3][0 := x0, 1 := x1, 2 := x2, 3 := x3] = [x0, x1, x2, x3]"
  by simp_all

lemma sparc_instr_4:
  "sparc_instr e pc [b0, b1, b2, b3] =
     (let w = join32be b0 b1 b2 b3
      in if sparc_call w
         then let d = sparc_word (sparc_field e pc w)
              in [ucast (drop_bit 24 d), ucast (drop_bit 16 d), ucast (drop_bit 8 d), ucast d]
         else [b0, b1, b2, b3])"
  unfolding sparc_instr_def Let_def sparc_call_bytes list_4_simps
  unfolding sparc_word_def sparc_field_def join32be_def ..

lemma sparc_field_undo:
  assumes "4 dvd unat pc"
  shows "take_bit 23 (sparc_field (\<not> e) pc (sparc_word (sparc_field e pc w))) = take_bit 23 w"
proof -
  from assms obtain q where q: "pc = push_bit 2 q" by (rule dvd_4_push)
  have enc: "take_bit 23 (sparc_field True pc x) = take_bit 23 (x + q)"
   and dec: "take_bit 23 (sparc_field False pc x) = take_bit 23 (x - q)" for x
    by (simp_all add: sparc_field_def q push_bit_add_word push_bit_diff_word take_bit_drop_push add.commute)
  show ?thesis
  proof (cases e)
    case True
    have "take_bit 23 (sparc_word (sparc_field True pc w) - q) = take_bit 23 (w + q - q)"
      by (metis take_bit_diff_left take_sparc_word enc)
    with True show ?thesis by (simp add: dec)
  next
    case False
    have "take_bit 23 (sparc_word (sparc_field False pc w) + q) = take_bit 23 (w - q + q)"
      by (metis take_bit_add_left take_sparc_word dec)
    with False show ?thesis by (simp add: enc)
  qed
qed

interpretation sparc: bcj_block 4 sparc_instr
proof
  fix b :: "byte list" and pc :: u32 and e :: bool
  assume len: "length b = 4"
  then show "length (sparc_instr e pc b) = 4" by (simp add: sparc_instr_def Let_def)
  assume al: "4 dvd unat pc"
  from len obtain b0 b1 b2 b3 where b: "b = [b0, b1, b2, b3]" using list_4 by blast
  let ?w = "join32be b0 b1 b2 b3"
  let ?d = "sparc_word (sparc_field e pc ?w)"
  show "sparc_instr (\<not> e) pc (sparc_instr e pc b) = b"
  proof (cases "sparc_call ?w")
    case True
    have "sparc_word (sparc_field (\<not> e) pc ?d) = sparc_word (take_bit 23 ?w)"
      using sparc_field_undo [OF al, of e ?w] by (metis sparc_word_take)
    then have "sparc_word (sparc_field (\<not> e) pc ?d) = ?w"
      using sparc_word_call [OF True] by (simp add: sparc_word_take)
    with True show ?thesis
      by (simp only: b sparc_instr_4 Let_def if_True join32be_bytes sparc_call_word bytes_join32be)
  next
    case False
    then show ?thesis by (simp only: b sparc_instr_4 Let_def if_False)
  qed
qed simp_all

section \<open>ARM64 words\<close>

definition adrp_src :: "u32 \<Rightarrow> u32" where
  "adrp_src w = (drop_bit 29 w AND 3) OR (drop_bit 3 w AND 0x001FFFFC)"

definition adrp_word :: "u32 \<Rightarrow> u32 \<Rightarrow> u32" where
  "adrp_word w d = (w AND 0x9000001F) OR push_bit 29 (d AND 3) OR push_bit 3 (d AND 0x0003FFFC)
     OR ((0 - (d AND 0x00020000)) AND 0x00E00000)"

definition arm64_word :: "bool \<Rightarrow> u32 \<Rightarrow> u32 \<Rightarrow> u32" where
  "arm64_word e pc w =
     (if drop_bit 26 w = 0x25 then 0x94000000 OR ((w + (if e then drop_bit 2 pc else 0 - drop_bit 2 pc)) AND 0x03FFFFFF)
      else if w AND 0x9F000000 = 0x90000000 \<and> (adrp_src w + 0x00020000) AND 0x001C0000 = 0
      then adrp_word w (adrp_src w + (if e then drop_bit 12 pc else 0 - drop_bit 12 pc))
      else w)"

lemma bl_word:
  "drop_bit 26 (0x94000000 OR (x AND 0x03FFFFFF)) = (0x25 :: u32)"
  "take_bit 26 (0x94000000 OR (x AND 0x03FFFFFF)) = take_bit 26 (x :: u32)"
  "drop_bit 26 w = 0x25 \<Longrightarrow> 0x94000000 OR (w AND 0x03FFFFFF) = (w :: u32)"
  by (simp_all add: u32_bits bit_simps)

lemma and_3FFFFFF: "(x :: u32) AND 0x03FFFFFF = take_bit 26 x"
  by (simp add: u32_bits bit_simps)

lemma neg_bit_17: "0 - (d AND 0x00020000) = (if bit d 17 then 0xFFFE0000 else (0 :: u32))"
proof -
  have "d AND 0x00020000 = (if bit d 17 then 0x00020000 else 0)" by (simp add: u32_bits bit_simps)
  then show ?thesis by simp
qed

lemma adrp_word_cases:
  "adrp_word w d = (w AND 0x9000001F) OR push_bit 29 (d AND 3) OR push_bit 3 (d AND 0x0003FFFC)
     OR (if bit d 17 then 0x00E00000 else 0)"
  unfolding adrp_word_def neg_bit_17 by (cases "bit d 17") simp_all

lemma adrp_word_src:
  "take_bit 18 (adrp_src (adrp_word w d)) = take_bit 18 d"
  "adrp_word w d AND 0x9F000000 = w AND 0x90000000"
  "take_bit 18 d = take_bit 18 d' \<Longrightarrow> adrp_word (adrp_word w d'') d = adrp_word w d'"
  unfolding adrp_src_def adrp_word_cases
  by (simp_all add: u32_bits bit_simps)

lemma adrp_src_21: "take_bit 21 (adrp_src w) = adrp_src w"
  by (simp add: u32_bits adrp_src_def bit_simps)

text \<open>The range test: the source is the sign extension of its low 18 bits.\<close>

definition adrp_near :: "u32 \<Rightarrow> bool" where
  "adrp_near s \<longleftrightarrow> bit s 18 = bit s 17 \<and> bit s 19 = bit s 17 \<and> bit s 20 = bit s 17"

lemma adrp_range:
  assumes "take_bit 21 s = (s :: u32)"
  shows "(s + 0x00020000) AND 0x001C0000 = 0 \<longleftrightarrow> adrp_near s"
proof -
  let ?h = "drop_bit 17 s"
  have s: "unat s < 2 ^ 21" using assms unsigned_take_bit_eq [of 21 s, where ?'a = nat]
    by (metis take_bit_nat_less_exp)
  have "unat (s + 0x00020000) = unat s + 2 ^ 17" using s by (simp add: unat_word_ariths)
  then have "unat (drop_bit 17 (s + 0x00020000)) = unat (?h + 1)"
    using s by (simp add: unat_drop_bit_eq unat_word_ariths drop_bit_eq_div)
  then have d: "drop_bit 17 (s + 0x00020000) = ?h + 1" by (simp add: word_unat_eq_iff)
  have "(s + 0x00020000) AND 0x001C0000 = 0 \<longleftrightarrow> drop_bit 17 (s + 0x00020000) AND 0xE = 0"
    by (simp add: u32_bits bit_simps)
  moreover have "unat ?h < 16" using s by (simp only: unat_drop_bit_eq drop_bit_eq_div [of _ "unat s"]) simp
  then have "unat ?h \<in> set [0..<16]" by simp
  then have "(?h + 1) AND 0xE = 0 \<longleftrightarrow> bit ?h 1 = bit ?h 0 \<and> bit ?h 2 = bit ?h 0 \<and> bit ?h 3 = bit ?h 0"
  proof -
    define k where "k = unat ?h"
    have h: "?h = of_nat k" by (simp add: k_def)
    have "k = 0 \<or> k = 1 \<or> k = 2 \<or> k = 3 \<or> k = 4 \<or> k = 5 \<or> k = 6 \<or> k = 7 \<or> k = 8 \<or> k = 9
        \<or> k = 10 \<or> k = 11 \<or> k = 12 \<or> k = 13 \<or> k = 14 \<or> k = 15"
      using \<open>unat ?h < 16\<close> unfolding k_def by presburger
    then show ?thesis unfolding h by (elim disjE) simp_all
  qed
  ultimately show ?thesis by (simp only: d) (simp add: adrp_near_def bit_drop_bit_eq)
qed

lemma adrp_near_word: "adrp_near (adrp_src (adrp_word w d))"
  unfolding adrp_near_def adrp_src_def adrp_word_cases by (cases "bit d 17") (simp_all add: bit_simps)

lemma adrp_word_id:
  assumes "w AND 0x9F000000 = 0x90000000" and "adrp_near (adrp_src w)"
  shows "adrp_word w (adrp_src w) = w"
  using assms unfolding adrp_near_def adrp_src_def adrp_word_cases
  by (simp add: u32_bits bit_simps)

lemma adrp_not_bl: "w AND 0x9F000000 = 0x90000000 \<Longrightarrow> drop_bit 26 w \<noteq> (0x25 :: u32)"
  by (simp add: u32_bits bit_simps)

lemma adrp_word_undo:
  assumes "w AND 0x9F000000 = 0x90000000" and "adrp_near (adrp_src w)"
  shows "adrp_word (adrp_word w (adrp_src w + p)) (adrp_src (adrp_word w (adrp_src w + p)) - p) = w"
proof -
  let ?w = "adrp_word w (adrp_src w + p)"
  have "take_bit 18 (adrp_src ?w - p) = take_bit 18 (adrp_src w + p - p)"
    by (metis take_bit_diff_left adrp_word_src(1))
  then have "take_bit 18 (adrp_src ?w - p) = take_bit 18 (adrp_src w)" by simp
  from adrp_word_src(3) [OF this] adrp_word_id [OF assms] show ?thesis by simp
qed

definition displ :: "bool \<Rightarrow> u32 \<Rightarrow> u32" where
  "displ e x = (if e then x else 0 - x)"

lemma displ_not: "x + displ (\<not> e) p = x - displ e p"
  by (simp add: displ_def)

lemma arm64_word_bl:
  "drop_bit 26 w = 0x25 \<Longrightarrow>
   arm64_word e pc w = 0x94000000 OR ((w + displ e (drop_bit 2 pc)) AND 0x03FFFFFF)"
  by (simp add: arm64_word_def displ_def)

lemma arm64_word_adrp:
  "w AND 0x9F000000 = 0x90000000 \<Longrightarrow> adrp_near (adrp_src w) \<Longrightarrow>
   arm64_word e pc w = adrp_word w (adrp_src w + displ e (drop_bit 12 pc))"
  by (simp add: arm64_word_def displ_def adrp_not_bl adrp_range adrp_src_21)

lemma arm64_word_other:
  "drop_bit 26 w \<noteq> 0x25 \<Longrightarrow> \<not> (w AND 0x9F000000 = 0x90000000 \<and> adrp_near (adrp_src w)) \<Longrightarrow>
   arm64_word e pc w = w"
  by (auto simp: arm64_word_def adrp_range adrp_src_21)

lemma bl_word_undo:
  assumes "drop_bit 26 w = 0x25"
  shows "0x94000000 OR (((0x94000000 OR ((w + p) AND 0x03FFFFFF)) - p) AND 0x03FFFFFF) = (w :: u32)"
proof -
  let ?w = "0x94000000 OR ((w + p) AND 0x03FFFFFF)"
  have "take_bit 26 (?w - p) = take_bit 26 (take_bit 26 ?w - p)" by (simp only: take_bit_diff_left)
  also have "\<dots> = take_bit 26 (w + p - p)" by (simp only: bl_word(2) take_bit_diff_left)
  finally have "(?w - p) AND 0x03FFFFFF = w AND 0x03FFFFFF" by (simp only: and_3FFFFFF add_diff_cancel)
  then show ?thesis by (simp only: bl_word(3) [OF assms])
qed

lemma adrp_word_keeps:
  assumes "w AND 0x9F000000 = 0x90000000"
  shows "adrp_word w d AND 0x9F000000 = 0x90000000"
  using assms unfolding adrp_word_src(2) by (simp add: u32_bits bit_simps)

lemma arm64_word_undo: "arm64_word (\<not> e) pc (arm64_word e pc w) = w"
proof -
  consider (bl) "drop_bit 26 w = 0x25"
    | (adrp) "w AND 0x9F000000 = 0x90000000" "adrp_near (adrp_src w)"
    | (other) "drop_bit 26 w \<noteq> 0x25" "\<not> (w AND 0x9F000000 = 0x90000000 \<and> adrp_near (adrp_src w))"
    by blast
  then show ?thesis
  proof cases
    case bl
    then show ?thesis
      by (simp only: arm64_word_bl bl_word(1) displ_not bl_word_undo)
  next
    case adrp
    then show ?thesis
      by (simp only: arm64_word_adrp adrp_word_keeps adrp_near_word displ_not adrp_word_undo)
  next
    case other
    show ?thesis by (simp only: arm64_word_other [OF other])
  qed
qed

lemma write32le_4: "length b = 4 \<Longrightarrow> length (write32le b 0 x) = 4 \<and> read32le (write32le b 0 x) 0 = x
    \<and> write32le (write32le b 0 y) 0 x = write32le b 0 x \<and> write32le b 0 (read32le b 0) = b"
proof -
  assume "length b = 4"
  then obtain b0 b1 b2 b3 where b: "b = [b0, b1, b2, b3]" using list_4 by blast
  have "ucast (b0 :: byte) OR push_bit 8 (ucast b1) OR push_bit 16 (ucast b2) OR push_bit 24 (ucast b3) = (r :: u32) \<Longrightarrow>
     ucast r = b0 \<and> ucast (drop_bit 8 r) = b1 \<and> ucast (drop_bit 16 r) = b2 \<and> ucast (drop_bit 24 r) = b3" for r
    by (auto simp: byte_bits bit_simps)
  then show ?thesis
    by (simp add: b write32le_def read32le_def word32_of_bytes)
qed

lemma arm64_instr_word:
  assumes "length b = 4"
  shows "arm64_instr e pc b = write32le b 0 (arm64_word e pc (read32le b 0))"
  using write32le_4 [OF assms]
  by (simp add: arm64_instr_def Let_def arm64_word_def adrp_word_def adrp_src_def or.assoc)

interpretation arm64: bcj_block 4 arm64_instr
proof
  fix b :: "byte list" and pc :: u32 and e :: bool
  assume len: "length b = 4"
  note w = write32le_4 [OF len]
  from w show l: "length (arm64_instr e pc b) = 4" by (simp add: arm64_instr_word [OF len])
  show "arm64_instr (\<not> e) pc (arm64_instr e pc b) = b"
    using w by (simp add: arm64_instr_word [OF l] arm64_word_undo) (simp add: arm64_instr_word [OF len] arm64_word_undo)
qed simp_all

section \<open>ARM-Thumb words\<close>

lemma take_bit_take_bit_self: "take_bit n (take_bit n (x :: 'a::len word)) = take_bit n x"
  by simp

definition thumb_join :: "byte \<Rightarrow> byte \<Rightarrow> byte \<Rightarrow> byte \<Rightarrow> u32" where
  "thumb_join b0 b1 b2 b3 = push_bit 19 (ucast b1 AND 7) OR push_bit 11 (ucast b0)
     OR push_bit 8 (ucast b3 AND 7) OR ucast b2"

definition thumb_bytes :: "u32 \<Rightarrow> byte list" where
  "thumb_bytes d = [ucast (drop_bit 11 d), ucast (0xF0 OR (drop_bit 19 d AND 7)), ucast d,
     ucast (0xF8 OR (drop_bit 8 d AND 7))]"

definition thumb_field :: "bool \<Rightarrow> u32 \<Rightarrow> u32 \<Rightarrow> u32" where
  "thumb_field e pc s =
     take_bit 22 (drop_bit 1 (if e then pc + 4 + push_bit 1 s else push_bit 1 s - (pc + 4)))"

definition thumb_call :: "byte \<Rightarrow> byte \<Rightarrow> bool" where
  "thumb_call b1 b3 \<longleftrightarrow> b1 AND 0xF8 = 0xF0 \<and> b3 AND 0xF8 = 0xF8"

lemma thumb_bytes_take: "thumb_bytes (take_bit 22 x) = thumb_bytes x"
  by (simp add: thumb_bytes_def byte_bits bit_simps)

lemma armthumb_call:
  "thumb_call b1 b3 \<Longrightarrow> armthumb_loop e pc (b0 # b1 # b2 # b3 # rest) =
     (case armthumb_loop e (pc + 4) rest of
        (i, rest') \<Rightarrow> (4 + i, thumb_bytes (thumb_field e pc (thumb_join b0 b1 b2 b3)) @ rest'))"
  unfolding thumb_field_def thumb_bytes_take
  by (simp only: armthumb_loop.simps(1) thumb_call_def if_True Let_def thumb_join_def thumb_bytes_def
      append_Cons append_Nil simp_thms)

lemma armthumb_skip:
  "\<not> thumb_call b1 b3 \<Longrightarrow> armthumb_loop e pc (b0 # b1 # b2 # b3 # rest) =
     (case armthumb_loop e (pc + 2) (b2 # b3 # rest) of (i, rest') \<Rightarrow> (2 + i, b0 # b1 # rest'))"
  by (simp only: armthumb_loop.simps(1) thumb_call_def if_False)

lemma thumb_join_22: "take_bit 22 (thumb_join b0 b1 b2 b3) = thumb_join b0 b1 b2 b3"
  by (simp add: u32_bits thumb_join_def bit_simps)

lemma thumb_bytes_join: "thumb_call b1 b3 \<Longrightarrow> thumb_bytes (thumb_join b0 b1 b2 b3) = [b0, b1, b2, b3]"
  by (simp add: thumb_call_def byte_bits thumb_bytes_def thumb_join_def bit_simps)

lemma thumb_bytes_cases:
  assumes "take_bit 22 d = d"
  obtains c0 c1 c2 c3 where "thumb_bytes d = [c0, c1, c2, c3]" "thumb_call c1 c3"
    "thumb_join c0 c1 c2 c3 = d"
proof
  show "thumb_bytes d = [ucast (drop_bit 11 d), ucast (0xF0 OR (drop_bit 19 d AND 7)), ucast d,
     ucast (0xF8 OR (drop_bit 8 d AND 7))]" by (simp add: thumb_bytes_def)
  show "thumb_call (ucast (0xF0 OR (drop_bit 19 d AND 7))) (ucast (0xF8 OR (drop_bit 8 d AND 7)))"
    by (simp add: thumb_call_def byte_bits bit_simps)
  show "thumb_join (ucast (drop_bit 11 d)) (ucast (0xF0 OR (drop_bit 19 d AND 7))) (ucast d)
      (ucast (0xF8 OR (drop_bit 8 d AND 7))) = d"
    using assms by (simp add: u32_bits thumb_join_def bit_simps)
qed

lemma thumb_field_undo:
  assumes "2 dvd unat pc" and "take_bit 22 s = s"
  shows "thumb_field (\<not> e) pc (thumb_field e pc s) = s"
proof -
  from assms(1) obtain q where q: "unat pc = 2 * q" by (auto simp: dvd_def)
  have "pc = of_nat (unat pc)" by simp
  then have "pc = push_bit 1 (of_nat q)" by (simp only: q) (simp add: push_bit_eq_mult mult.commute)
  then have "pc + 4 = push_bit 1 (of_nat q + 2)" by (simp add: push_bit_eq_mult algebra_simps)
  then show ?thesis
    using field_undo [of 22 1 s "of_nat q + 2"] assms(2) by (cases e) (simp_all add: thumb_field_def)
qed

text \<open>
  The second byte of a position keeps the bits the test looks at, whether an instruction
  that starts there is converted or not.
\<close>

lemma armthumb_second:
  assumes "armthumb_loop e pc (x # y # zs) = (i, out)"
  obtains x' y' zs' where "out = x' # y' # zs'" "y' AND 0xF8 = y AND 0xF8"
proof (cases "\<exists>z3 z4 rest. zs = z3 # z4 # rest")
  case True
  then obtain z3 z4 rest where zs: "zs = z3 # z4 # rest" by blast
  show ?thesis
  proof (cases "thumb_call y z4")
    case True
    let ?d = "thumb_field e pc (thumb_join x y z3 z4)"
    have "take_bit 22 ?d = ?d" unfolding thumb_field_def by (rule take_bit_take_bit_self)
    then obtain c0 c1 c2 c3 where c: "thumb_bytes ?d = [c0, c1, c2, c3]" "thumb_call c1 c3"
      by (rule thumb_bytes_cases)
    with assms that [of c0 c1] True show ?thesis
      by (auto simp: zs armthumb_call [OF True] thumb_call_def simp del: armthumb_loop.simps split: prod.splits)
  next
    case False
    with assms that [of x y] show ?thesis
      by (auto simp: zs armthumb_skip [OF False] simp del: armthumb_loop.simps split: prod.splits)
  qed
next
  case False
  then have "armthumb_loop e pc (x # y # zs) = (0, x # y # zs)"
    by (cases zs; cases "tl zs") auto
  with assms that [of x y zs] show ?thesis by simp
qed

lemma thumb_call_second: "y' AND 0xF8 = y AND 0xF8 \<Longrightarrow> thumb_call b y' = thumb_call b y"
  by (simp add: thumb_call_def)

lemma even_next: "2 dvd unat (pc :: u32) \<Longrightarrow> 2 dvd unat (pc + 2) \<and> 2 dvd unat (pc + 4)"
  by (simp add: unat_word_ariths dvd_mod)

declare armthumb_loop.simps [simp del]

lemma armthumb_short: "length buffer < 4 \<Longrightarrow> armthumb_loop e pc buffer = (0, buffer)"
  by (cases "(e, pc, buffer)" rule: armthumb_loop.cases) (simp_all add: armthumb_loop.simps)

text \<open>Induction along the loop.\<close>

lemma thumb_induct [case_names call skip short]:
  assumes call: "\<And>pc b0 b1 b2 b3 rest. thumb_call b1 b3 \<Longrightarrow> P (pc + 4) rest \<Longrightarrow> P pc (b0 # b1 # b2 # b3 # rest)"
    and skip: "\<And>pc b0 b1 b2 b3 rest. \<not> thumb_call b1 b3 \<Longrightarrow> P (pc + 2) (b2 # b3 # rest)
                 \<Longrightarrow> P pc (b0 # b1 # b2 # b3 # rest)"
    and short: "\<And>pc buffer. length buffer < 4 \<Longrightarrow> P pc buffer"
  shows "P (pc :: u32) (buffer :: byte list)"
proof (induction "length buffer" arbitrary: pc buffer rule: less_induct)
  case less
  show ?case
  proof (cases "length buffer < 4")
    case False
    then obtain b0 b1 b2 b3 rest where b: "buffer = b0 # b1 # b2 # b3 # rest"
      by (auto simp: numeral_eq_Suc not_less Suc_le_length_iff)
    have "P (pc + 4) rest" "P (pc + 2) (b2 # b3 # rest)" by (rule less, simp add: b)+
    then show ?thesis unfolding b by (cases "thumb_call b1 b3") (simp_all add: call skip)
  qed (rule short)
qed

lemma armthumb_result:
  "armthumb_loop e pc buffer = (i, out) \<Longrightarrow>
   length out = length buffer \<and> i \<le> length buffer \<and> length buffer < i + 4 \<and> drop i out = drop i buffer"
proof (induction pc buffer arbitrary: i out rule: thumb_induct)
  case (call pc b0 b1 b2 b3 rest)
  obtain j rest' where rec: "armthumb_loop e (pc + 4) rest = (j, rest')" by fastforce
  with call.prems have "i = 4 + j" "out = thumb_bytes (thumb_field e pc (thumb_join b0 b1 b2 b3)) @ rest'"
    by (simp_all add: armthumb_call [OF call(1)])
  with call.IH [OF rec] show ?case by (simp add: thumb_bytes_def drop_Cons')
next
  case (skip pc b0 b1 b2 b3 rest)
  obtain j rest' where rec: "armthumb_loop e (pc + 2) (b2 # b3 # rest) = (j, rest')" by fastforce
  with skip.prems have "i = 2 + j" "out = b0 # b1 # rest'"
    by (simp_all add: armthumb_skip [OF skip(1)])
  with skip.IH [OF rec] show ?case by simp
next
  case (short pc buffer)
  then show ?case by (simp add: armthumb_short)
qed

lemma armthumb_roundtrip:
  "2 dvd unat pc \<Longrightarrow> armthumb_loop e pc buffer = (i, out) \<Longrightarrow> armthumb_loop (\<not> e) pc out = (i, buffer)"
proof (induction pc buffer arbitrary: i out rule: thumb_induct)
  case (call pc b0 b1 b2 b3 rest)
  obtain j rest' where rec: "armthumb_loop e (pc + 4) rest = (j, rest')" by fastforce
  let ?d = "thumb_field e pc (thumb_join b0 b1 b2 b3)"
  from call.prems(2) have i: "i = 4 + j" and out: "out = thumb_bytes ?d @ rest'"
    by (simp_all add: armthumb_call [OF call(1)] rec)
  have "take_bit 22 ?d = ?d" unfolding thumb_field_def by (rule take_bit_take_bit_self)
  then obtain c0 c1 c2 c3 where c: "thumb_bytes ?d = [c0, c1, c2, c3]" "thumb_call c1 c3"
    "thumb_join c0 c1 c2 c3 = ?d" by (rule thumb_bytes_cases)
  have "armthumb_loop (\<not> e) (pc + 4) rest' = (j, rest)"
    by (rule call.IH [OF conjunct2 [OF even_next [OF call.prems(1)]] rec])
  then show ?case
    using thumb_field_undo [OF call.prems(1) thumb_join_22, of e b0 b1 b2 b3] thumb_bytes_join [OF call(1)]
    by (simp only: out c(1) append_Cons append_Nil armthumb_call [OF c(2)] c(3) i prod.case)
next
  case (skip pc b0 b1 b2 b3 rest)
  obtain j rest' where rec: "armthumb_loop e (pc + 2) (b2 # b3 # rest) = (j, rest')" by fastforce
  from skip.prems(2) have i: "i = 2 + j" and out: "out = b0 # b1 # rest'"
    by (simp_all add: armthumb_skip [OF skip(1)] rec)
  from rec obtain c2 c3 cs where c: "rest' = c2 # c3 # cs" "c3 AND 0xF8 = b3 AND 0xF8"
    by (rule armthumb_second)
  have "\<not> thumb_call b1 c3" using skip(1) thumb_call_second [OF c(2), of b1] by simp
  moreover have "armthumb_loop (\<not> e) (pc + 2) (c2 # c3 # cs) = (j, b2 # b3 # rest)"
    by (rule skip.IH [OF conjunct1 [OF even_next [OF skip.prems(1)]] rec [unfolded c(1)]])
  ultimately show ?case by (simp only: out c(1) i armthumb_skip prod.case not_False_eq_True)
next
  case (short pc buffer)
  then have "armthumb_loop e pc buffer = (0, buffer)" by (simp add: armthumb_short)
  with short show ?case by (simp add: armthumb_short)
qed

section \<open>The filter contract\<close>

text \<open>
  What \<^verbatim>\<open>simple_coder.c\<close> relies on: a filter keeps the size of the buffer, reports how many
  bytes it has filtered, leaves the bytes after them alone and leaves fewer than
  \<open>unfiltered_max\<close> of them.
\<close>

locale simple_filter =
  fixes flt :: "'s filter_function" and unfiltered_max :: nat
  assumes filter_result:
    "flt s now_pos e buffer = (i, s', buffer') \<Longrightarrow>
     i \<le> length buffer \<and> length buffer' = length buffer \<and> drop i buffer' = drop i buffer
     \<and> length buffer < i + unfiltered_max"

context bcj_block
begin

lemma blocks_simple_filter:
  "simple_filter (\<lambda>s now_pos e buffer. case bcj_blocks k (instr e) now_pos buffer of (i, b) \<Rightarrow> (i, s, b)) k"
proof
  fix s s' :: 'z and now_pos e buffer i buffer'
  assume "(case bcj_blocks k (instr e) now_pos buffer of (i, b) \<Rightarrow> (i, s, b)) = (i, s', buffer')"
  then have "bcj_blocks k (instr e) now_pos buffer = (i, buffer')" by (auto split: prod.splits)
  note r = blocks_result [OF this]
  have "length buffer = length buffer div k * k + length buffer mod k" by simp
  with r k_pos mod_less_divisor [OF k_pos, of "length buffer"]
  show "i \<le> length buffer \<and> length buffer' = length buffer \<and> drop i buffer' = drop i buffer
     \<and> length buffer < i + k"
    by (metis add_less_cancel_left le_add1)
qed

end

interpretation arm_f: simple_filter arm_code 4
  using arm.blocks_simple_filter unfolding arm_code_def [abs_def] .

interpretation powerpc_f: simple_filter powerpc_code 4
  using powerpc.blocks_simple_filter unfolding powerpc_code_def [abs_def] .

interpretation sparc_f: simple_filter sparc_code 4
  using sparc.blocks_simple_filter unfolding sparc_code_def [abs_def] .

interpretation arm64_f: simple_filter arm64_code 4
  using arm64.blocks_simple_filter unfolding arm64_code_def [abs_def] .

interpretation armthumb_f: simple_filter armthumb_code 4
  by unfold_locales (auto simp: armthumb_code_def dest: armthumb_result split: prod.splits)

section \<open>Properties\<close>

text \<open>
  The ARM, ARM-Thumb, ARM64, PowerPC and SPARC filters are invertible. On a buffer at
  an aligned position, converting in one direction and then in the other gives the
  original buffer, whatever bytes it holds, and both directions stop at the same place.
\<close>

theorem simple_filters_invertible:
  assumes "flt \<in> {arm_code, armthumb_code, arm64_code, powerpc_code, sparc_code}"
    and "4 dvd unat now_pos" and "flt s now_pos is_encoder buffer = (i, s', buffer')"
  shows "flt s now_pos (\<not> is_encoder) buffer' = (i, s', buffer)"
  using assms arm.blocks_roundtrip [OF assms(2)] arm64.blocks_roundtrip [OF assms(2)]
    powerpc.blocks_roundtrip [OF assms(2)] sparc.blocks_roundtrip [OF assms(2)]
    armthumb_roundtrip [OF dvd_trans [OF _ assms(2)]]
  by (auto simp: arm_code_def armthumb_code_def arm64_code_def powerpc_code_def sparc_code_def
      split: prod.splits)

theorem simple_filters_invertible_witness:
  "arm_code () 8 False (snd (snd (arm_code () 8 True [1, 2, 3, 0xEB, 7]))) = (4, (), [1, 2, 3, 0xEB, 7])"
proof -
  have "fst (arm_code () 8 True [1, 2, 3, 0xEB, 7]) = 4" by code_simp
  then show ?thesis
    using simple_filters_invertible [of arm_code 8 "()" True "[1, 2, 3, 0xEB, 7]"
        "fst (arm_code () 8 True [1, 2, 3, 0xEB, 7])" "()" "snd (snd (arm_code () 8 True [1, 2, 3, 0xEB, 7]))"]
    by (simp add: prod_eq_iff)
qed

text \<open>
  The ARM64 entry points for whole buffers undo each other for every start offset.
\<close>

theorem lzma_bcj_arm64_roundtrip:
  assumes "lzma_bcj_arm64_encode start_offset buf = (i, buf')"
  shows "lzma_bcj_arm64_decode start_offset buf' = (i, buf) \<and> i = length buf div 4 * 4"
proof -
  have "4 dvd unat (start_offset AND NOT 3)"
  proof -
    have "take_bit 2 (start_offset AND NOT 3) = 0" by (simp add: u32_bits bit_simps)
    then have "take_bit 2 (unat (start_offset AND NOT 3)) = 0"
      using unsigned_take_bit_eq [of 2 "start_offset AND NOT 3", where ?'a = nat] by simp
    then show ?thesis by (simp add: take_bit_eq_mod mod_eq_0_iff_dvd)
  qed
  from arm64.blocks_roundtrip [OF this, of True] arm64.blocks_result [of True "start_offset AND NOT 3" buf] assms
  show ?thesis
    by (auto simp: lzma_bcj_arm64_encode_def lzma_bcj_arm64_decode_def arm64_code_def split: prod.splits)
qed

theorem lzma_bcj_arm64_roundtrip_witness:
  "let r = lzma_bcj_arm64_encode 7 [1, 2, 3, 0x94, 9, 9]
   in lzma_bcj_arm64_decode 7 (snd r) = (fst r, [1, 2, 3, 0x94, 9, 9])"
  using lzma_bcj_arm64_roundtrip [of 7 "[1, 2, 3, 0x94, 9, 9]"] by (simp add: Let_def prod_eq_iff)
end
