(* ===== verification/Lzma_Simple_Coder.thy ===== *)
theory Lzma_Simple_Coder
  imports Lzma_Simple
begin

text \<open>
  The coder around the branch/call/jump filters, \<^verbatim>\<open>simple/simple_coder.c\<close>, with the options
  of \<^verbatim>\<open>simple/simple_encoder.c\<close> and \<^verbatim>\<open>simple/simple_decoder.c\<close>. The coder lets the next coder
  fill the output (or its own small buffer), filters what is there, and keeps the bytes
  that the filter could not look at yet. The filter, its state and the next coder are
  parameters, as the function pointers are in the source.
\<close>

section \<open>State\<close>

record ('n, 's) lzma_simple_coder =
  sc_next :: "('n \<times> 'n lzma_code_function) option"
  sc_end_was_reached :: bool
  sc_is_encoder :: bool
  sc_filter :: "'s filter_function"
  sc_simple :: 's
  sc_now_pos :: u32
  sc_allocated :: nat
  sc_pos :: nat
  sc_filtered :: nat
  sc_size :: nat
  sc_buffer :: "byte list"

record lzma_options_bcj =
  start_offset :: u32

text \<open>
  \<open>lzma_simple_coder_init\<close>: \<open>old\<close> is the coder already in \<open>next\<close>; \<open>mem\<close> is the
  allocation of the coder with the contents the memory happens to have (\<open>None\<close> when it
  fails) and \<open>simple_mem\<close> that of the filter-specific state. \<open>next_init\<close> initialises the rest
  of the chain.
\<close>

definition lzma_simple_coder_init ::
  "('n, 's) lzma_simple_coder option \<Rightarrow> ('n, 's) lzma_simple_coder option \<Rightarrow> 's option
   \<Rightarrow> lzma_options_bcj option \<Rightarrow> 's filter_function \<Rightarrow> nat \<Rightarrow> u32 \<Rightarrow> bool
   \<Rightarrow> (('n \<times> 'n lzma_code_function) option \<Rightarrow> lzma_ret \<times> ('n \<times> 'n lzma_code_function) option)
   \<Rightarrow> lzma_ret \<times> ('n, 's) lzma_simple_coder option" where
  "lzma_simple_coder_init old mem simple_mem options flt unfiltered_max alignment is_encoder next_init =
     (let alloc =
        (case old of Some c \<Rightarrow> Inr c
         | None \<Rightarrow> (case mem of None \<Rightarrow> Inl None
            | Some c \<Rightarrow> let c = c\<lparr>sc_next := None, sc_filter := flt, sc_allocated := 2 * unfiltered_max\<rparr>
                        in (case simple_mem of None \<Rightarrow> Inl (Some c) | Some s \<Rightarrow> Inr (c\<lparr>sc_simple := s\<rparr>))))
      in case alloc of Inl c \<Rightarrow> (LZMA_MEM_ERROR, c)
         | Inr c \<Rightarrow>
           (let now_pos = (case options of None \<Rightarrow> 0 | Some opt \<Rightarrow> start_offset opt);
                c = c\<lparr>sc_now_pos := now_pos\<rparr>
            in if options \<noteq> None \<and> now_pos AND (alignment - 1) \<noteq> 0 then (LZMA_OPTIONS_ERROR, Some c)
               else let c = c\<lparr>sc_is_encoder := is_encoder, sc_end_was_reached := False, sc_pos := 0,
                              sc_filtered := 0, sc_size := 0\<rparr>
                    in case next_init (sc_next c) of
                         (ret, nx) \<Rightarrow> (ret, Some (c\<lparr>sc_next := nx\<rparr>))))"

text \<open>
  The initialisation functions of the filters; \<open>simple\<close> is the null pointer for them, a
  value of type \<open>unit\<close> here.
\<close>

type_synonym 'n bcj_init =
  "('n, unit) lzma_simple_coder option \<Rightarrow> ('n, unit) lzma_simple_coder option \<Rightarrow> lzma_options_bcj option
   \<Rightarrow> (('n \<times> 'n lzma_code_function) option \<Rightarrow> lzma_ret \<times> ('n \<times> 'n lzma_code_function) option)
   \<Rightarrow> lzma_ret \<times> ('n, unit) lzma_simple_coder option"

definition arm_coder_init :: "bool \<Rightarrow> 'n bcj_init" where
  "arm_coder_init is_encoder old mem options next_init =
     lzma_simple_coder_init old mem (Some ()) options arm_code 4 4 is_encoder next_init"

definition lzma_simple_arm_encoder_init :: "'n bcj_init" where
  "lzma_simple_arm_encoder_init = arm_coder_init True"

definition lzma_simple_arm_decoder_init :: "'n bcj_init" where
  "lzma_simple_arm_decoder_init = arm_coder_init False"

definition armthumb_coder_init :: "bool \<Rightarrow> 'n bcj_init" where
  "armthumb_coder_init is_encoder old mem options next_init =
     lzma_simple_coder_init old mem (Some ()) options armthumb_code 4 2 is_encoder next_init"

definition lzma_simple_armthumb_encoder_init :: "'n bcj_init" where
  "lzma_simple_armthumb_encoder_init = armthumb_coder_init True"

definition lzma_simple_armthumb_decoder_init :: "'n bcj_init" where
  "lzma_simple_armthumb_decoder_init = armthumb_coder_init False"

definition arm64_coder_init :: "bool \<Rightarrow> 'n bcj_init" where
  "arm64_coder_init is_encoder old mem options next_init =
     lzma_simple_coder_init old mem (Some ()) options arm64_code 4 4 is_encoder next_init"

definition lzma_simple_arm64_encoder_init :: "'n bcj_init" where
  "lzma_simple_arm64_encoder_init = arm64_coder_init True"

definition lzma_simple_arm64_decoder_init :: "'n bcj_init" where
  "lzma_simple_arm64_decoder_init = arm64_coder_init False"

definition powerpc_coder_init :: "bool \<Rightarrow> 'n bcj_init" where
  "powerpc_coder_init is_encoder old mem options next_init =
     lzma_simple_coder_init old mem (Some ()) options powerpc_code 4 4 is_encoder next_init"

definition lzma_simple_powerpc_encoder_init :: "'n bcj_init" where
  "lzma_simple_powerpc_encoder_init = powerpc_coder_init True"

definition lzma_simple_powerpc_decoder_init :: "'n bcj_init" where
  "lzma_simple_powerpc_decoder_init = powerpc_coder_init False"

definition sparc_coder_init :: "bool \<Rightarrow> 'n bcj_init" where
  "sparc_coder_init is_encoder old mem options next_init =
     lzma_simple_coder_init old mem (Some ()) options sparc_code 4 4 is_encoder next_init"

definition lzma_simple_sparc_encoder_init :: "'n bcj_init" where
  "lzma_simple_sparc_encoder_init = sparc_coder_init True"

definition lzma_simple_sparc_decoder_init :: "'n bcj_init" where
  "lzma_simple_sparc_decoder_init = sparc_coder_init False"

section \<open>The coder function\<close>

definition copy_or_code :: "('n, 's) lzma_simple_coder lzma_code_function" where
  "copy_or_code coder inb in_pos in_size out out_pos out_size action =
     (case sc_next coder of
        None \<Rightarrow>
          (case lzma_bufcpy inb in_pos in_size out out_pos out_size of
             (_, in_pos, out, out_pos) \<Rightarrow>
               (LZMA_OK,
                if sc_is_encoder coder \<and> action = LZMA_FINISH \<and> in_pos = in_size
                then coder\<lparr>sc_end_was_reached := True\<rparr> else coder,
                in_pos, out, out_pos))
      | Some (nc, code) \<Rightarrow>
          (case code nc inb in_pos in_size out out_pos out_size action of
             (ret, nc, in_pos, out, out_pos) \<Rightarrow>
               (let coder = coder\<lparr>sc_next := Some (nc, code)\<rparr>
                in if ret = LZMA_STREAM_END
                   then (LZMA_OK, coder\<lparr>sc_end_was_reached := True\<rparr>, in_pos, out, out_pos)
                   else if ret \<noteq> LZMA_OK then (ret, coder, in_pos, out, out_pos)
                   else (LZMA_OK, coder, in_pos, out, out_pos))))"

text \<open>\<open>call_filter\<close> on the bytes \<open>buffer[0..size)\<close>.\<close>

definition call_filter :: "('n, 's) lzma_simple_coder \<Rightarrow> byte list \<Rightarrow> nat \<times> ('n, 's) lzma_simple_coder \<times> byte list" where
  "call_filter coder buffer =
     (case sc_filter coder (sc_simple coder) (sc_now_pos coder) (sc_is_encoder coder) buffer of
        (filtered, simple, buffer) \<Rightarrow>
          (filtered, coder\<lparr>sc_simple := simple, sc_now_pos := sc_now_pos coder + of_nat filtered\<rparr>, buffer))"

text \<open>The last part of \<open>simple_code\<close>: filling, filtering and flushing the coder's own buffer.\<close>

definition simple_code_buffered :: "('n, 's) lzma_simple_coder lzma_code_function" where
  "simple_code_buffered coder inb in_pos in_size out out_pos out_size action =
     (let finish = (\<lambda>coder in_pos out out_pos.
            (if sc_end_was_reached coder \<and> sc_pos coder = sc_size coder then LZMA_STREAM_END else LZMA_OK,
             coder, in_pos, out, out_pos))
      in if sc_size coder > 0
         then case copy_or_code coder inb in_pos in_size (sc_buffer coder) (sc_size coder)
                     (sc_allocated coder) action of
                (ret, coder, in_pos, buffer, sz) \<Rightarrow>
                  (let coder = coder\<lparr>sc_buffer := buffer, sc_size := sz\<rparr>
                   in if ret \<noteq> LZMA_OK then (ret, coder, in_pos, out, out_pos)
                      else case call_filter coder (bytes_at buffer 0 sz) of
                             (filtered, coder, bs) \<Rightarrow>
                               (let coder = coder\<lparr>sc_buffer := memcpy buffer 0 bs,
                                      sc_filtered := (if sc_end_was_reached coder then sz else filtered)\<rparr>
                                in case lzma_bufcpy (sc_buffer coder) (sc_pos coder) (sc_filtered coder)
                                          out out_pos out_size of
                                     (_, p, out, out_pos) \<Rightarrow> finish (coder\<lparr>sc_pos := p\<rparr>) in_pos out out_pos))
         else finish coder in_pos out out_pos)"

text \<open>
  The middle part: flushing the unfiltered bytes to \<open>out\<close>, filling \<open>out\<close> and filtering it
  there, or moving the unfiltered bytes to the start of the coder's buffer.
\<close>

definition simple_code_direct :: "('n, 's) lzma_simple_coder lzma_code_function" where
  "simple_code_direct coder inb in_pos in_size out out_pos out_size action =
     (let out_avail = out_size - out_pos;
          buf_avail = sc_size coder - sc_pos coder
      in if out_avail > buf_avail \<or> buf_avail = 0
         then let out_start = out_pos;
                  out = (if buf_avail > 0
                         then memcpy out out_pos (bytes_at (sc_buffer coder) (sc_pos coder) buf_avail) else out);
                  out_pos = out_pos + buf_avail
              in case copy_or_code coder inb in_pos in_size out out_pos out_size action of
                   (ret, coder, in_pos, out, out_pos) \<Rightarrow>
                     if ret \<noteq> LZMA_OK then (ret, coder, in_pos, out, out_pos)
                     else let size = out_pos - out_start;
                              (filtered, coder, out) =
                                (if size = 0 then (0, coder, out)
                                 else case call_filter coder (bytes_at out out_start size) of
                                        (filtered, coder, bs) \<Rightarrow> (filtered, coder, memcpy out out_start bs));
                              unfiltered = size - filtered;
                              coder = coder\<lparr>sc_pos := 0, sc_size := unfiltered\<rparr>;
                              (coder, out_pos) =
                                (if sc_end_was_reached coder then (coder\<lparr>sc_size := 0\<rparr>, out_pos)
                                 else if unfiltered > 0
                                 then let out_pos = out_pos - unfiltered
                                      in (coder\<lparr>sc_buffer := memcpy (sc_buffer coder) 0
                                             (bytes_at out out_pos unfiltered)\<rparr>, out_pos)
                                 else (coder, out_pos))
                          in simple_code_buffered coder inb in_pos in_size out out_pos out_size action
         else let coder =
                (if sc_pos coder > 0
                 then coder\<lparr>sc_buffer := memcpy (sc_buffer coder) 0
                              (bytes_at (sc_buffer coder) (sc_pos coder) buf_avail),
                            sc_size := sc_size coder - sc_pos coder, sc_pos := 0\<rparr>
                 else coder)
              in simple_code_buffered coder inb in_pos in_size out out_pos out_size action)"

definition simple_code :: "('n, 's) lzma_simple_coder lzma_code_function" where
  "simple_code coder inb in_pos in_size out out_pos out_size action =
     (if action = LZMA_SYNC_FLUSH then (LZMA_OPTIONS_ERROR, coder, in_pos, out, out_pos)
      else if sc_pos coder < sc_filtered coder
      then case lzma_bufcpy (sc_buffer coder) (sc_pos coder) (sc_filtered coder) out out_pos out_size of
             (_, p, out, out_pos) \<Rightarrow>
               (let coder = coder\<lparr>sc_pos := p\<rparr>
                in if sc_pos coder < sc_filtered coder then (LZMA_OK, coder, in_pos, out, out_pos)
                   else if sc_end_was_reached coder then (LZMA_STREAM_END, coder, in_pos, out, out_pos)
                   else simple_code_direct (coder\<lparr>sc_filtered := 0\<rparr>) inb in_pos in_size out out_pos
                          out_size action)
      else simple_code_direct (coder\<lparr>sc_filtered := 0\<rparr>) inb in_pos in_size out out_pos out_size action)"

section \<open>Filter properties\<close>

definition lzma_simple_props_size :: "lzma_options_bcj option \<Rightarrow> lzma_ret \<times> u32" where
  "lzma_simple_props_size options =
     (LZMA_OK, case options of None \<Rightarrow> 0 | Some opt \<Rightarrow> if start_offset opt = 0 then 0 else 4)"

definition lzma_simple_props_encode :: "lzma_options_bcj option \<Rightarrow> byte list \<Rightarrow> nat \<Rightarrow> lzma_ret \<times> byte list" where
  "lzma_simple_props_encode options out p =
     (case options of None \<Rightarrow> (LZMA_OK, out)
      | Some opt \<Rightarrow> if start_offset opt = 0 then (LZMA_OK, out)
                    else (LZMA_OK, write32le out p (start_offset opt)))"

text \<open>The result has the options left in \<open>*options\<close>, which is \<open>NULL\<close> before the call.\<close>

definition lzma_simple_props_decode :: "bool \<Rightarrow> byte list \<Rightarrow> lzma_ret \<times> lzma_options_bcj option" where
  "lzma_simple_props_decode alloc_ok props =
     (if length props = 0 then (LZMA_OK, None)
      else if length props \<noteq> 4 then (LZMA_OPTIONS_ERROR, None)
      else if \<not> alloc_ok then (LZMA_MEM_ERROR, None)
      else let opt = \<lparr>start_offset = read32le props 0\<rparr>
           in (LZMA_OK, if start_offset opt = 0 then None else Some opt))"

section \<open>The coder contract\<close>

definition simple_inv :: "'n lzma_code_function \<Rightarrow> ('n \<Rightarrow> bool) \<Rightarrow> 's filter_function \<Rightarrow> nat
    \<Rightarrow> ('n, 's) lzma_simple_coder \<Rightarrow> bool" where
  "simple_inv code cinv flt unfiltered_max c \<longleftrightarrow>
     (case sc_next c of None \<Rightarrow> True | Some (nc, f) \<Rightarrow> f = code \<and> cinv nc)
     \<and> sc_filter c = flt \<and> sc_allocated c = 2 * unfiltered_max \<and> length (sc_buffer c) = sc_allocated c
     \<and> sc_pos c \<le> sc_size c \<and> sc_size c \<le> sc_allocated c \<and> sc_filtered c \<le> sc_size c"

lemma simple_inv_update:
  "simple_inv code cinv flt m (c\<lparr>sc_simple := x\<rparr>) = simple_inv code cinv flt m c"
  "simple_inv code cinv flt m (c\<lparr>sc_now_pos := y\<rparr>) = simple_inv code cinv flt m c"
  "simple_inv code cinv flt m (c\<lparr>sc_end_was_reached := z\<rparr>) = simple_inv code cinv flt m c"
  by (simp_all add: simple_inv_def)

lemma call_filter_result:
  assumes "simple_filter flt m" and "sc_filter c = flt" and "call_filter c bs = (n, c', bs')"
  shows "n \<le> length bs \<and> length bs' = length bs \<and> length bs < n + m
    \<and> (\<exists>s p. c' = c\<lparr>sc_simple := s, sc_now_pos := p\<rparr>)"
  using assms(3) simple_filter.filter_result [OF assms(1)] unfolding call_filter_def assms(2)
  by (fastforce split: prod.splits)

context lzma_coder
begin

lemma copy_or_code_step:
  assumes inv: "simple_inv code cinv flt m c" and ok: "io_ok inb ip is out op os"
    and run: "copy_or_code c inb ip is out op os action = (ret, c', ip', out', op')"
  shows "simple_inv code cinv flt m c' \<and> io_step ip is out op os ip' out' op'
    \<and> (\<exists>nx e. c' = c\<lparr>sc_next := nx, sc_end_was_reached := e\<rparr>)"
proof (cases "sc_next c")
  case None
  obtain n ip1 out1 op1 where cp: "lzma_bufcpy inb ip is out op os = (n, ip1, out1, op1)"
    by (metis prod_cases4)
  from run None cp have c': "c' = c\<lparr>sc_next := sc_next c, sc_end_was_reached :=
        (if sc_is_encoder c \<and> action = LZMA_FINISH \<and> ip' = is then True else sc_end_was_reached c)\<rparr>"
      and pos: "ip' = ip1" "out' = out1" "op' = op1"
    by (auto simp: copy_or_code_def)
  have "simple_inv code cinv flt m c'" using inv unfolding c' by (simp add: simple_inv_def)
  moreover have "\<exists>nx e. c' = c\<lparr>sc_next := nx, sc_end_was_reached := e\<rparr>" by (intro exI) (rule c')
  moreover have "io_step ip is out op os ip' out' op'" using lzma_bufcpy_step [OF ok cp] unfolding pos ..
  ultimately show ?thesis by (intro conjI)
next
  case (Some cc)
  obtain nc f where cc: "cc = (nc, f)" by fastforce
  with inv Some have f: "f = code" and nc: "cinv nc" by (auto simp: simple_inv_def)
  obtain r nc' ip1 out1 op1 where cd: "code nc inb ip is out op os action = (r, nc', ip1, out1, op1)"
    by (metis prod_cases5)
  note step = code_step [OF nc ok cd]
  from run Some cc f cd have c': "c' = c\<lparr>sc_next := Some (nc', code), sc_end_was_reached :=
        (if r = LZMA_STREAM_END then True else sc_end_was_reached c)\<rparr>"
      and pos: "ip' = ip1" "out' = out1" "op' = op1"
    by (auto simp: copy_or_code_def Let_def split: if_splits)
  have "simple_inv code cinv flt m c'" using inv step unfolding c' by (simp add: simple_inv_def)
  moreover have "\<exists>nx e. c' = c\<lparr>sc_next := nx, sc_end_was_reached := e\<rparr>" by (intro exI) (rule c')
  moreover have "io_step ip is out op os ip' out' op'" using step unfolding pos ..
  ultimately show ?thesis by (intro conjI)
qed

lemma simple_code_buffered_step:
  assumes flt: "simple_filter flt m" and inv: "simple_inv code cinv flt m c"
    and ok: "io_ok inb ip is out op os" and pos: "sc_pos c = 0"
    and run: "simple_code_buffered c inb ip is out op os action = (ret, c', ip', out', op')"
  shows "simple_inv code cinv flt m c' \<and> io_step ip is out op os ip' out' op'"
proof (cases "sc_size c > 0")
  case False
  with run have "c' = c" "ip' = ip" "out' = out" "op' = op"
    by (auto simp: simple_code_buffered_def Let_def)
  with inv ok show ?thesis by (auto simp: io_ok_def intro: io_step_refl)
next
  case True
  obtain r c1 ip1 buf sz where cc:
    "copy_or_code c inb ip is (sc_buffer c) (sc_size c) (sc_allocated c) action = (r, c1, ip1, buf, sz)"
    by (metis prod_cases5)
  have bufok: "io_ok inb ip is (sc_buffer c) (sc_size c) (sc_allocated c)"
    using inv ok by (auto simp: io_ok_def simple_inv_def)
  from copy_or_code_step [OF inv bufok cc] obtain nx e where inv1: "simple_inv code cinv flt m c1"
    and st: "io_step ip is (sc_buffer c) (sc_size c) (sc_allocated c) ip1 buf sz"
    and c1: "c1 = c\<lparr>sc_next := nx, sc_end_was_reached := e\<rparr>" by (elim conjE exE)
  let ?c = "c1\<lparr>sc_buffer := buf, sc_size := sz\<rparr>"
  have sz: "sc_size c \<le> sz" "sz \<le> sc_allocated c" "length buf = sc_allocated c" "ip \<le> ip1" "ip1 \<le> is"
    using st inv by (auto simp: io_step_def simple_inv_def)
  have inv2: "simple_inv code cinv flt m ?c"
    using inv1 sz inv unfolding c1 simple_inv_def by simp
  show ?thesis
  proof (cases "r = LZMA_OK")
    case False
    with run True cc have "c' = ?c" "ip' = ip1" "out' = out" "op' = op"
      by (auto simp: simple_code_buffered_def Let_def)
    with inv2 ok sz show ?thesis by (auto simp: io_step_def io_ok_def)
  next
    case OK: True
    obtain n c2 bs where cf: "call_filter ?c (bytes_at buf 0 sz) = (n, c2, bs)" by (metis prod_cases3)
    have "sc_filter ?c = flt" using inv2 by (simp add: simple_inv_def)
    from call_filter_result [OF flt this cf] sz obtain s p
      where n: "n \<le> sz" and bs: "length bs = sz" and c2: "c2 = ?c\<lparr>sc_simple := s, sc_now_pos := p\<rparr>"
      by auto
    let ?f = "if sc_end_was_reached c2 then sz else n"
    let ?c3 = "c2\<lparr>sc_buffer := memcpy buf 0 bs, sc_filtered := ?f\<rparr>"
    obtain k q out1 op1 where cp: "lzma_bufcpy (sc_buffer ?c3) (sc_pos ?c3) (sc_filtered ?c3) out op os = (k, q, out1, op1)"
      by (metis prod_cases4)
    have pos3: "sc_pos ?c3 = 0" using pos by (simp add: c1 c2)
    have io3: "io_ok (sc_buffer ?c3) (sc_pos ?c3) (sc_filtered ?c3) out op os"
      unfolding pos3 using n bs sz ok by (auto simp: io_ok_def)
    note st3 = lzma_bufcpy_step [OF io3 cp]
    have "(ret, c', ip', out', op') =
        (if sc_end_was_reached (?c3\<lparr>sc_pos := q\<rparr>) \<and> sc_pos (?c3\<lparr>sc_pos := q\<rparr>) = sc_size (?c3\<lparr>sc_pos := q\<rparr>)
           then LZMA_STREAM_END else LZMA_OK, ?c3\<lparr>sc_pos := q\<rparr>, ip1, out1, op1)"
      unfolding run [symmetric]
      by (simp only: simple_code_buffered_def Let_def True if_True cc prod.case OK cf cp simp_thms if_False)
    then have res: "c' = ?c3\<lparr>sc_pos := q\<rparr>" "ip' = ip1" "out' = out1" "op' = op1" by simp_all
    have f: "?f \<le> sz" using n by simp
    then have "q \<le> sz" using st3 by (simp add: io_step_def)
    with inv2 n bs sz f have "simple_inv code cinv flt m (?c3\<lparr>sc_pos := q\<rparr>)"
      unfolding c2 simple_inv_def by simp
    moreover have "io_step ip is out op os ip1 out1 op1"
      using st3 sz by (auto simp: io_step_def)
    ultimately show ?thesis unfolding res by blast
  qed
qed


text \<open>The direct part, when the output has room: what it leaves for the buffered part.\<close>

lemma simple_code_direct_fill:
  assumes flt: "simple_filter flt m" and inv: "simple_inv code cinv flt m c"
    and ok: "io_ok inb ip is out op os" and filtered: "sc_filtered c = 0"
    and room: "os - op > sc_size c - sc_pos c \<or> sc_size c - sc_pos c = 0"
    and run: "simple_code_direct c inb ip is out op os action = (ret, c', ip', out', op')"
  shows "simple_inv code cinv flt m c' \<and> io_step ip is out op os ip' out' op'"
proof -
  define ba where "ba = sc_size c - sc_pos c"
  define out0 where "out0 = (if ba > 0 then memcpy out op (bytes_at (sc_buffer c) (sc_pos c) ba) else out)"
  have lens: "sc_pos c + ba \<le> length (sc_buffer c)" "op + ba \<le> os" "os \<le> length out" "is \<le> length inb" "ip \<le> is"
    using inv ok room by (auto simp: ba_def simple_inv_def io_ok_def)
  have st0: "io_step ip is out op os ip out0 (op + ba)"
  proof (cases "ba > 0")
    case True
    have "io_step ip is out op os ip (memcpy out op (bytes_at (sc_buffer c) (sc_pos c) ba))
        (op + length (bytes_at (sc_buffer c) (sc_pos c) ba))"
      using lens by (intro io_step_memcpy) simp_all
    with True lens show ?thesis by (simp add: out0_def)
  next
    case False
    with lens show ?thesis by (simp add: out0_def io_step_refl)
  qed
  have ok0: "io_ok inb ip is out0 (op + ba) os" by (rule io_step_ok [OF ok st0])
  obtain r c1 ip1 out1 op1 where cc: "copy_or_code c inb ip is out0 (op + ba) os action = (r, c1, ip1, out1, op1)"
    by (metis prod_cases5)
  from copy_or_code_step [OF inv ok0 cc] obtain nx e where inv1: "simple_inv code cinv flt m c1"
    and st: "io_step ip is out0 (op + ba) os ip1 out1 op1"
    and c1: "c1 = c\<lparr>sc_next := nx, sc_end_was_reached := e\<rparr>" by (elim conjE exE)
  note st1 = io_step_trans [OF st0 st]
  have b1: "op + ba \<le> op1" "op1 \<le> os" "length out1 = length out" "os \<le> length out1"
    using st st0 lens by (auto simp: io_step_def)
  show ?thesis
  proof (cases "r = LZMA_OK")
    case False
    have "(ret, c', ip', out', op') = (r, c1, ip1, out1, op1)"
      unfolding run [symmetric]
      using room False by (simp add: simple_code_direct_def Let_def ba_def [symmetric] out0_def [symmetric] cc)
    with inv1 st1 show ?thesis by simp
  next
    case OK: True
    define sz where "sz = op1 - op"
    define r2 where "r2 = (if sz = 0 then (0, c1, out1)
        else case call_filter c1 (bytes_at out1 op sz) of (n, c, bs) \<Rightarrow> (n, c, memcpy out1 op bs))"
    obtain n c2 out2 where r2: "r2 = (n, c2, out2)" by (metis prod_cases3)
    have "n \<le> sz \<and> sz - n \<le> m \<and> length out2 = length out1
        \<and> io_step ip is out op os ip1 out2 op1 \<and> (\<exists>s p. c2 = c1\<lparr>sc_simple := s, sc_now_pos := p\<rparr>)"
    proof (cases "sz = 0")
      case True
      then have eq: "n = 0" "c2 = c1" "out2 = out1" using r2 by (simp_all add: r2_def)
      have "c1 = c1\<lparr>sc_simple := sc_simple c1, sc_now_pos := sc_now_pos c1\<rparr>" by simp
      then have "\<exists>s p. c1 = c1\<lparr>sc_simple := s, sc_now_pos := p\<rparr>" by blast
      with st1 True show ?thesis by (simp add: eq)
    next
      case False
      obtain n' c2' bs where cf: "call_filter c1 (bytes_at out1 op sz) = (n', c2', bs)" by (metis prod_cases3)
      have eq: "n = n'" "c2 = c2'" "out2 = memcpy out1 op bs" using r2 False by (simp_all add: r2_def cf)
      have "sc_filter c1 = flt" using inv1 by (simp add: simple_inv_def)
      from call_filter_result [OF flt this cf] b1 have "n' \<le> sz" "length bs = sz" "sz < n' + m"
        "\<exists>s p. c2' = c1\<lparr>sc_simple := s, sc_now_pos := p\<rparr>"
        by (simp_all add: sz_def)
      with b1 io_step_filter [OF st1 b1(2) lens(3), of bs] show ?thesis
        by (simp add: eq sz_def)
    qed
    then obtain s p where n: "n \<le> sz" "sz - n \<le> m" and len2: "length out2 = length out1"
      and st2: "io_step ip is out op os ip1 out2 op1"
      and c2: "c2 = c1\<lparr>sc_simple := s, sc_now_pos := p\<rparr>" by blast
    define c3 where "c3 = c2\<lparr>sc_pos := 0, sc_size := sz - n\<rparr>"
    define r4 where "r4 = (if sc_end_was_reached c3 then (c3\<lparr>sc_size := 0\<rparr>, op1)
         else if sz - n > 0
         then (c3\<lparr>sc_buffer := memcpy (sc_buffer c3) 0 (bytes_at out2 (op1 - (sz - n)) (sz - n))\<rparr>, op1 - (sz - n))
         else (c3, op1))"
    obtain c4 op4 where r4: "r4 = (c4, op4)" by fastforce
    have "simple_inv code cinv flt m c4 \<and> sc_pos c4 = 0 \<and> op \<le> op4 \<and> op4 \<le> op1"
    proof -
      have inv3: "simple_inv code cinv flt m c3"
        using inv1 n filtered unfolding c3_def c2 c1 simple_inv_def by simp
      with n b1 have "length (bytes_at out2 (op1 - (sz - n)) (sz - n)) = sz - n" by (simp add: sz_def len2)
      with inv3 n b1 r4 filtered show ?thesis
        by (auto simp: r4_def c3_def c2 c1 simple_inv_def sz_def split: if_splits)
    qed
    then have inv4: "simple_inv code cinv flt m c4" "sc_pos c4 = 0" and op4: "op \<le> op4" "op4 \<le> op1" by blast+
    have st4: "io_step ip is out op os ip1 out2 op4" using st2 op4 by (simp add: io_step_def)
    have "simple_code_buffered c4 inb ip1 is out2 op4 os action = (ret, c', ip', out', op')"
    proof -
      have room': "(os - op > ba \<or> ba = 0) = True" using room by (simp add: ba_def)
      show ?thesis
        unfolding run [symmetric]
        by (simp only: simple_code_direct_def Let_def ba_def [symmetric] room' if_True
            out0_def [symmetric] cc prod.case OK simp_thms if_False sz_def [symmetric] r2_def [symmetric] r2
            c3_def [symmetric] r4_def [symmetric] r4)
    qed
    from simple_code_buffered_step [OF flt inv4(1) io_step_ok [OF ok st4] inv4(2) this] io_step_trans [OF st4]
    show ?thesis by blast
  qed
qed

lemma simple_code_direct_step:
  assumes flt: "simple_filter flt m" and inv: "simple_inv code cinv flt m c"
    and ok: "io_ok inb ip is out op os" and filtered: "sc_filtered c = 0"
    and run: "simple_code_direct c inb ip is out op os action = (ret, c', ip', out', op')"
  shows "simple_inv code cinv flt m c' \<and> io_step ip is out op os ip' out' op'"
proof (cases "os - op > sc_size c - sc_pos c \<or> sc_size c - sc_pos c = 0")
  case True
  from simple_code_direct_fill [OF flt inv ok filtered this run] show ?thesis .
next
  case False
  define ba where "ba = sc_size c - sc_pos c"
  define c1 where "c1 = (if sc_pos c > 0
       then c\<lparr>sc_buffer := memcpy (sc_buffer c) 0 (bytes_at (sc_buffer c) (sc_pos c) ba),
              sc_size := ba, sc_pos := 0\<rparr> else c)"
  have "simple_code_buffered c1 inb ip is out op os action = (ret, c', ip', out', op')"
    unfolding run [symmetric]
    using False by (simp only: simple_code_direct_def Let_def ba_def [symmetric] c1_def [symmetric] if_False simp_thms)
  moreover have "simple_inv code cinv flt m c1 \<and> sc_pos c1 = 0"
    using inv filtered by (auto simp: c1_def ba_def simple_inv_def)
  ultimately show ?thesis using simple_code_buffered_step [OF flt _ ok] by blast
qed

lemma simple_code_step:
  assumes flt: "simple_filter flt m" and inv: "simple_inv code cinv flt m c"
    and ok: "io_ok inb ip is out op os"
    and run: "simple_code c inb ip is out op os action = (ret, c', ip', out', op')"
  shows "simple_inv code cinv flt m c' \<and> io_step ip is out op os ip' out' op'"
proof -
  have zero: "simple_inv code cinv flt m (d\<lparr>sc_filtered := 0\<rparr>)" if "simple_inv code cinv flt m d" for d
    using that by (simp add: simple_inv_def)
  consider (sync) "action = LZMA_SYNC_FLUSH"
    | (flush) "action \<noteq> LZMA_SYNC_FLUSH" "sc_pos c < sc_filtered c"
    | (direct) "action \<noteq> LZMA_SYNC_FLUSH" "\<not> sc_pos c < sc_filtered c" by blast
  then show ?thesis
  proof cases
    case sync
    with run have "c' = c" "ip' = ip" "out' = out" "op' = op" by (simp_all add: simple_code_def)
    with inv ok show ?thesis by (simp add: io_ok_def io_step_refl)
  next
    case direct
    with run have "simple_code_direct (c\<lparr>sc_filtered := 0\<rparr>) inb ip is out op os action = (ret, c', ip', out', op')"
      by (simp add: simple_code_def)
    from simple_code_direct_step [OF flt zero [OF inv] ok _ this] show ?thesis by simp
  next
    case flush
    obtain k q out1 op1 where cp:
      "lzma_bufcpy (sc_buffer c) (sc_pos c) (sc_filtered c) out op os = (k, q, out1, op1)" by (metis prod_cases4)
    have "io_ok (sc_buffer c) (sc_pos c) (sc_filtered c) out op os"
      using flush inv ok by (auto simp: io_ok_def simple_inv_def)
    note st = lzma_bufcpy_step [OF this cp]
    let ?c = "c\<lparr>sc_pos := q\<rparr>"
    have q: "q \<le> sc_filtered c" using st by (simp add: io_step_def)
    then have inv1: "simple_inv code cinv flt m ?c" using inv by (simp add: simple_inv_def)
    have st1: "io_step ip is out op os ip out1 op1" using st ok by (auto simp: io_step_def io_ok_def)
    show ?thesis
    proof (cases "q < sc_filtered c \<or> sc_end_was_reached c")
      case True
      with run flush cp have "c' = ?c" "ip' = ip" "out' = out1" "op' = op1"
        by (auto simp: simple_code_def Let_def split: if_splits)
      with inv1 st1 show ?thesis by simp
    next
      case False
      with run flush cp have "simple_code_direct (?c\<lparr>sc_filtered := 0\<rparr>) inb ip is out1 op1 os action
          = (ret, c', ip', out', op')" by (simp add: simple_code_def Let_def)
      from simple_code_direct_step [OF flt zero [OF inv1] io_step_ok [OF ok st1] _ this] io_step_trans [OF st1]
      show ?thesis by simp
    qed
  qed
qed

lemma simple_code_coder: "simple_filter flt m \<Longrightarrow> lzma_coder simple_code (simple_inv code cinv flt m)"
  by unfold_locales (rule simple_code_step)

end

section \<open>Properties\<close>

text \<open>
  C38: The filter coder keeps the coder contract and stays inside its buffers. On top of any
  next coder that keeps the contract, or with none, and with any of the ARM, ARM-Thumb,
  ARM64, PowerPC and SPARC filters, every call of \<open>simple_code\<close> moves the positions forward
  within the sizes, writes \<open>out\<close> only between them, and keeps \<open>pos\<close>, \<open>filtered\<close> and \<open>size\<close>
  within the \<open>allocated\<close> bytes of its own buffer, also when the bytes left unfiltered are
  copied back to it.
\<close>

theorem simple_code_keeps_contract:
  assumes "lzma_coder code cinv"
    and "flt \<in> {arm_code, armthumb_code, arm64_code, powerpc_code, sparc_code}"
  shows "lzma_coder simple_code (simple_inv code cinv flt 4)"
  using assms(2) lzma_coder.simple_code_coder [OF assms(1)] arm_f.simple_filter_axioms
    armthumb_f.simple_filter_axioms arm64_f.simple_filter_axioms powerpc_f.simple_filter_axioms
    sparc_f.simple_filter_axioms
  by blast

text \<open>A coder that copies its input, used as the last coder of a chain in the examples.\<close>

definition copy_code :: "unit lzma_code_function" where
  "copy_code c inb in_pos in_size out out_pos out_size action =
     (case lzma_bufcpy inb in_pos in_size out out_pos out_size of
        (_, in_pos, out, out_pos) \<Rightarrow> (LZMA_OK, c, in_pos, out, out_pos))"

interpretation copy: lzma_coder copy_code "\<lambda>_. True"
  by unfold_locales (auto simp: copy_code_def dest: lzma_bufcpy_step split: prod.splits)

theorem simple_code_keeps_contract_witness:
  "lzma_coder simple_code (simple_inv copy_code (\<lambda>_. True) (arm_code :: unit filter_function) 4)"
  by (rule simple_code_keeps_contract [OF copy.lzma_coder_axioms]) simp

text \<open>
  Initialising a filter coder that had not been allocated either fails, or leaves an empty coder
  in the state the coder function relies on, positioned at the start offset of the
  options, which is a multiple of the alignment (a power of two); an unaligned offset is
  refused.
\<close>

theorem lzma_simple_coder_init_establishes:
  assumes "lzma_simple_coder_init None (Some mem) (Some s) options flt m alignment is_encoder next_init = (ret, Some c)"
    and "length (sc_buffer mem) = 2 * m"
    and "\<And>nx r nc f. next_init nx = (r, Some (nc, f)) \<Longrightarrow> f = code \<and> cinv nc"
  shows "(case options of None \<Rightarrow> sc_now_pos c = 0
          | Some opt \<Rightarrow> sc_now_pos c = start_offset opt
              \<and> (start_offset opt AND (alignment - 1) \<noteq> 0 \<longrightarrow> ret = LZMA_OPTIONS_ERROR))
    \<and> (ret \<noteq> LZMA_OPTIONS_ERROR \<longrightarrow>
         simple_inv code cinv flt m c \<and> sc_size c = 0 \<and> sc_simple c = s \<and> sc_is_encoder c = is_encoder
         \<and> \<not> sc_end_was_reached c)"
  using assms
  by (auto simp: lzma_simple_coder_init_def Let_def simple_inv_def dest: assms(3)
      split: option.splits if_splits prod.splits)

theorem lzma_simple_coder_init_establishes_witness:
  "let mem = \<lparr>sc_next = None, sc_end_was_reached = True, sc_is_encoder = True, sc_filter = arm_code,
         sc_simple = (), sc_now_pos = 1, sc_allocated = 0, sc_pos = 9, sc_filtered = 9, sc_size = 9,
         sc_buffer = replicate 8 7\<rparr>;
       r = lzma_simple_coder_init None (Some mem) (Some ()) (Some \<lparr>start_offset = 4096\<rparr>) arm_code 4 4 False
         (\<lambda>_. (LZMA_OK, Some ((), copy_code)))
   in fst r = LZMA_OK \<and> simple_inv copy_code (\<lambda>_. True) arm_code 4 (the (snd r))"
proof -
  let ?mem = "\<lparr>sc_next = None, sc_end_was_reached = True, sc_is_encoder = True, sc_filter = arm_code,
         sc_simple = (), sc_now_pos = 1, sc_allocated = 0, sc_pos = 9, sc_filtered = 9, sc_size = 9,
         sc_buffer = replicate 8 7\<rparr> :: (unit, unit) lzma_simple_coder"
  let ?r = "lzma_simple_coder_init None (Some ?mem) (Some ()) (Some \<lparr>start_offset = 4096\<rparr>) arm_code 4 4 False
         (\<lambda>_. (LZMA_OK, Some ((), copy_code)))"
  have r: "?r = (LZMA_OK, Some (the (snd ?r)))"
    by (simp add: lzma_simple_coder_init_def Let_def)
  from lzma_simple_coder_init_establishes [OF r, of copy_code "\<lambda>_. True"]
  have "simple_inv copy_code (\<lambda>_. True) arm_code 4 (the (snd ?r))" by simp
  moreover have "fst ?r = LZMA_OK" by (subst r) (rule fst_conv)
  ultimately show ?thesis unfolding Let_def by blast
qed

text \<open>
  The properties of a BCJ filter round-trip. The size announced is the number of bytes
  written; decoding them gives back the options, where a start offset of zero and the
  absence of options are the same.
\<close>

theorem lzma_simple_props_roundtrip:
  assumes "lzma_simple_props_size options = (LZMA_OK, n)" and "p + unat n \<le> length out"
  shows "\<exists>out'. lzma_simple_props_encode options out p = (LZMA_OK, out')
    \<and> length out' = length out \<and> take p out' = take p out \<and> drop (p + unat n) out' = drop (p + unat n) out
    \<and> lzma_simple_props_decode True (bytes_at out' p (unat n)) =
        (LZMA_OK, case options of None \<Rightarrow> None | Some opt \<Rightarrow> if start_offset opt = 0 then None else Some opt)"
proof (cases "case options of None \<Rightarrow> True | Some opt \<Rightarrow> start_offset opt = 0")
  case True
  with assms show ?thesis
    by (auto simp: lzma_simple_props_size_def lzma_simple_props_encode_def lzma_simple_props_decode_def
        bytes_at_def split: option.splits)
next
  case False
  then obtain opt where opt: "options = Some opt" "start_offset opt \<noteq> 0" by (auto split: option.splits)
  with assms have n: "unat n = 4" and p: "p + 4 \<le> length out" by (auto simp: lzma_simple_props_size_def)
  let ?bs = "bytes32le (start_offset opt)"
  have w: "write32le out p (start_offset opt) = memcpy out p ?bs" and len: "length ?bs = 4"
    using write32le_memcpy [of p out "start_offset opt"] p by (simp_all add: bytes32le_def)
  have "bytes_at (memcpy out p ?bs) p 4 = ?bs" using bytes_at_memcpy [of p ?bs out] p len by simp
  moreover have "read32le ?bs 0 = start_offset opt" by (simp add: bytes32le_def read32le_def word32_of_bytes)
  ultimately show ?thesis
    using opt p len n
    by (auto simp: lzma_simple_props_encode_def lzma_simple_props_decode_def w take_memcpy memcpy_def)
qed

theorem lzma_simple_props_roundtrip_witness:
  "\<exists>out'. lzma_simple_props_encode (Some \<lparr>start_offset = 4096\<rparr>) (replicate 6 0) 1 = (LZMA_OK, out')
     \<and> lzma_simple_props_decode True (bytes_at out' 1 4) = (LZMA_OK, Some \<lparr>start_offset = 4096\<rparr>)"
  using lzma_simple_props_roundtrip [of "Some \<lparr>start_offset = 4096\<rparr>" 4 1 "replicate 6 0"]
  by (auto simp: lzma_simple_props_size_def)

end
