(* ===== verification/Lzma_X86.thy ===== *)
theory Lzma_X86
  imports Lzma_Simple
begin

text \<open>
  The x86 branch filter, \<^verbatim>\<open>simple/x86.c\<close>. It converts the operands of CALL and JMP
  instructions; the state remembers the opcode bytes seen among the last bytes, because a
  byte that looks like an opcode may lie inside another operand. The conversion itself is a
  \<open>while (true)\<close> loop. The development shows that the loop ends, that no shift is by the
  whole width of the word, and that decoding undoes encoding.
\<close>

section \<open>The filter\<close>

definition Test86MSByte :: "byte \<Rightarrow> bool" where
  "Test86MSByte b \<longleftrightarrow> b = 0 \<or> b = 0xFF"

record lzma_simple_x86 =
  prev_mask :: u32
  prev_pos :: u32

definition MASK_TO_BIT_NUMBER :: "nat list" where
  "MASK_TO_BIT_NUMBER = [0, 1, 2, 2, 3]"

text \<open>The loop that ages the mask by \<open>offset\<close> positions.\<close>

primrec x86_age :: "nat \<Rightarrow> u32 \<Rightarrow> u32" where
  "x86_age 0 pmask = pmask"
| "x86_age (Suc n) pmask = x86_age n (push_bit 1 (pmask AND 0x77))"

text \<open>
  The conversion loop; \<open>p\<close> is \<open>now_pos + buffer_pos + 5\<close>. \<open>None\<close> stands for a loop that
  does not end and for the shift \<open>1U << 32\<close>, which C leaves undefined.
\<close>

partial_function (option) x86_convert :: "bool \<Rightarrow> u32 \<Rightarrow> u32 \<Rightarrow> u32 \<Rightarrow> u32 option" where
  "x86_convert is_encoder p pmask src =
     (let dest = (if is_encoder then src + p else src - p)
      in if pmask = 0 then Some dest
         else let i = MASK_TO_BIT_NUMBER ! unat (drop_bit 1 pmask);
                  b = ucast (drop_bit (24 - i * 8) dest)
              in if \<not> Test86MSByte b then Some dest
                 else if i = 0 then None
                 else x86_convert is_encoder p pmask (dest XOR (push_bit (32 - i * 8) 1 - 1)))"

text \<open>
  The main loop on the bytes from \<open>buffer_pos\<close> on, as long as there are five of them; \<open>pc\<close>
  is \<open>now_pos + buffer_pos\<close>. It returns how far it got, the pmask, the position of the last
  opcode and the bytes.
\<close>

fun x86_loop :: "bool \<Rightarrow> u32 \<Rightarrow> u32 \<Rightarrow> u32 \<Rightarrow> byte list \<Rightarrow> (nat \<times> u32 \<times> u32 \<times> byte list) option" where
  "x86_loop is_encoder pc pmask ppos (b0 # b1 # b2 # b3 # b4 # rest) =
     (if b0 \<noteq> 0xE8 \<and> b0 \<noteq> 0xE9
      then map_option (\<lambda>(n, pmask, ppos, out). (Suc n, pmask, ppos, b0 # out))
             (x86_loop is_encoder (pc + 1) pmask ppos (b1 # b2 # b3 # b4 # rest))
      else let offset = pc - ppos;
               pmask = (if offset > 5 then 0 else x86_age (unat offset) pmask)
           in if Test86MSByte b4 \<and> drop_bit 1 pmask \<le> 4 \<and> drop_bit 1 pmask \<noteq> 3
              then let src = push_bit 24 (ucast b4) OR push_bit 16 (ucast b3) OR push_bit 8 (ucast b2) OR ucast b1
                   in case x86_convert is_encoder (pc + 5) pmask src of
                        None \<Rightarrow> None
                      | Some dest \<Rightarrow>
                          map_option (\<lambda>(n, pmask, ppos, out).
                              (5 + n, pmask, ppos, b0 # ucast dest # ucast (drop_bit 8 dest)
                                 # ucast (drop_bit 16 dest) # ucast (NOT ((drop_bit 24 dest AND 1) - 1)) # out))
                            (x86_loop is_encoder (pc + 5) 0 pc rest)
              else let pmask = pmask OR 1;
                       pmask = (if Test86MSByte b4 then pmask OR 0x10 else pmask)
                   in map_option (\<lambda>(n, pmask, ppos, out). (Suc n, pmask, ppos, b0 # out))
                        (x86_loop is_encoder (pc + 1) pmask pc (b1 # b2 # b3 # b4 # rest)))"
| "x86_loop is_encoder pc pmask ppos buffer = Some (0, pmask, ppos, buffer)"

definition x86_code :: "lzma_simple_x86 \<Rightarrow> u32 \<Rightarrow> bool \<Rightarrow> byte list
    \<Rightarrow> (nat \<times> lzma_simple_x86 \<times> byte list) option" where
  "x86_code simple now_pos is_encoder buffer =
     (if length buffer < 5 then Some (0, simple, buffer)
      else let ppos = (if now_pos - prev_pos simple > 5 then now_pos - 5 else prev_pos simple)
           in map_option (\<lambda>(n, pmask, ppos, out). (n, \<lparr>prev_mask = pmask, prev_pos = ppos\<rparr>, out))
                (x86_loop is_encoder now_pos (prev_mask simple) ppos buffer))"

text \<open>The state a coder starts with, and the entry points for one buffer.\<close>

definition x86_initial :: lzma_simple_x86 where
  "x86_initial = \<lparr>prev_mask = 0, prev_pos = - 5\<rparr>"

definition lzma_bcj_x86_encode :: "u32 \<Rightarrow> byte list \<Rightarrow> (nat \<times> byte list) option" where
  "lzma_bcj_x86_encode start_offset buf =
     map_option (\<lambda>(n, _, buf). (n, buf)) (x86_code x86_initial start_offset True buf)"

definition lzma_bcj_x86_decode :: "u32 \<Rightarrow> byte list \<Rightarrow> (nat \<times> byte list) option" where
  "lzma_bcj_x86_decode start_offset buf =
     map_option (\<lambda>(n, _, buf). (n, buf)) (x86_code x86_initial start_offset False buf)"

section \<open>The conversion loop\<close>

text \<open>The byte of an operand that must not change its kind, and the low bits below it.\<close>

definition op_byte :: "nat \<Rightarrow> u32 \<Rightarrow> byte" where
  "op_byte i x = ucast (drop_bit (24 - i * 8) x)"

definition low_mask :: "nat \<Rightarrow> u32" where
  "low_mask i = push_bit (32 - i * 8) 1 - 1"

lemma low_mask_eq: "1 \<le> i \<Longrightarrow> low_mask i = mask (32 - i * 8)"
  by (simp add: low_mask_def mask_eq_decr_exp push_bit_eq_mult)

lemma Test86MSByte_not: "Test86MSByte (NOT b) = Test86MSByte b"
  unfolding Test86MSByte_def by (simp add: byte_bits bit_simps) blast

lemma op_byte_cong:
  assumes "1 \<le> i" "i \<le> 3" and "take_bit (32 - i * 8) x = take_bit (32 - i * 8) y"
  shows "op_byte i x = op_byte i y"
proof -
  have "bit x n = bit y n" if "n < 32 - i * 8" for n
    using that arg_cong [OF assms(3), of "\<lambda>w. bit w n"] by (simp add: bit_take_bit_iff)
  with assms(1,2) show ?thesis unfolding op_byte_def by (intro bit_word_eqI) (auto simp: bit_simps)
qed

lemma take_bit_xor_low:
  "1 \<le> i \<Longrightarrow> take_bit (32 - i * 8) (x XOR low_mask i) = take_bit (32 - i * 8) (NOT x)"
  by (rule bit_word_eqI) (auto simp: low_mask_eq bit_simps)

lemma op_byte_not: "op_byte i (NOT x) = NOT (op_byte i x)" if "i \<le> 3"
  unfolding op_byte_def using that by (intro bit_word_eqI) (auto simp: bit_simps)

text \<open>The mask values under which an operand is converted.\<close>

definition x86_mask_ok :: "u32 \<Rightarrow> nat \<Rightarrow> bool" where
  "x86_mask_ok m i \<longleftrightarrow> (m = 0 \<and> i = 0) \<or> (m = 2 \<and> i = 1) \<or> (m = 4 \<and> i = 2) \<or> (m = 8 \<and> i = 3)"

lemma x86_mask_ok_cases:
  "x86_mask_ok m i \<Longrightarrow> m \<noteq> 0 \<Longrightarrow> 1 \<le> i \<and> i \<le> 3 \<and> MASK_TO_BIT_NUMBER ! unat (drop_bit 1 m) = i"
  by (auto simp: x86_mask_ok_def MASK_TO_BIT_NUMBER_def)

text \<open>The encoder's loop in closed form: one more round, at most.\<close>

definition x86_result :: "u32 \<Rightarrow> u32 \<Rightarrow> nat \<Rightarrow> u32 \<Rightarrow> u32" where
  "x86_result p m i src =
     (if m \<noteq> 0 \<and> Test86MSByte (op_byte i (src + p)) then ((src + p) XOR low_mask i) + p else src + p)"

lemma op_byte_second:
  assumes "1 \<le> i" "i \<le> 3"
  shows "op_byte i (((src + p) XOR low_mask i) + p) = NOT (op_byte i src)"
proof -
  let ?k = "32 - i * 8" and ?d = "src + p"
  have "take_bit ?k ((?d XOR low_mask i) + p) = take_bit ?k (take_bit ?k (?d XOR low_mask i) + p)"
    by (simp only: take_bit_add_left)
  also have "\<dots> = take_bit ?k (NOT ?d + p)"
    by (simp only: take_bit_add_left take_bit_xor_low [OF assms(1)])
  also have "NOT ?d + p = NOT src" by (simp add: not_eq_complement)
  finally have "op_byte i ((?d XOR low_mask i) + p) = op_byte i (NOT src)" by (rule op_byte_cong [OF assms])
  then show ?thesis by (simp only: op_byte_not [OF assms(2)])
qed

lemma x86_convert_unfold:
  "x86_convert e p m src =
     (let dest = src + displ e p
      in if m = 0 then Some dest
         else let i = MASK_TO_BIT_NUMBER ! unat (drop_bit 1 m)
              in if \<not> Test86MSByte (op_byte i dest) then Some dest
                 else if i = 0 then None else x86_convert e p m (dest XOR low_mask i))"
  by (subst x86_convert.simps) (simp add: displ_def op_byte_def low_mask_def Let_def)

lemma x86_convert_result:
  assumes "x86_mask_ok m i" and "m \<noteq> 0 \<Longrightarrow> \<not> Test86MSByte (op_byte i src)"
  shows "x86_convert e p m src = Some (x86_result (displ e p) m i src)"
proof (cases "m = 0")
  case True
  then show ?thesis by (subst x86_convert_unfold) (simp add: x86_result_def)
next
  case False
  let ?p = "displ e p"
  note i = x86_mask_ok_cases [OF assms(1) False]
  have "\<not> Test86MSByte (op_byte i (((src + ?p) XOR low_mask i) + ?p))"
    using assms(2) [OF False] i by (simp add: op_byte_second Test86MSByte_not)
  then have "x86_convert e p m ((src + ?p) XOR low_mask i) = Some (((src + ?p) XOR low_mask i) + ?p)"
    using i False by (subst x86_convert_unfold) (simp add: Let_def)
  with i False show ?thesis
    by (subst x86_convert_unfold) (auto simp: x86_result_def Let_def)
qed

text \<open>What is written back: the low 25 bits, sign-extended.\<close>

definition x86_signed :: "u32 \<Rightarrow> u32" where
  "x86_signed d = (if bit d 24 then 0xFF000000 else 0) OR take_bit 24 d"

lemma x86_signed_take: "take_bit 25 d = take_bit 25 d' \<Longrightarrow> x86_signed d = x86_signed d'"
proof -
  assume a: "take_bit 25 d = take_bit 25 d'"
  have "bit d n = bit d' n" if "n < 25" for n
    using that arg_cong [OF a, of "\<lambda>w. bit w n"] by (simp add: bit_take_bit_iff)
  then show ?thesis unfolding x86_signed_def by (intro bit_word_eqI) (auto simp: bit_simps)
qed

lemma take_x86_signed: "take_bit 25 (x86_signed d) = take_bit 25 d"
  unfolding x86_signed_def by (cases "bit d 24") (simp_all add: u32_bits bit_simps)

lemma x86_signed_id: "Test86MSByte (ucast (drop_bit 24 d)) \<Longrightarrow> x86_signed d = d"
  unfolding x86_signed_def Test86MSByte_def by (auto simp: byte_bits u32_bits bit_simps)

lemma x86_signed_ms: "Test86MSByte (ucast (drop_bit 24 (x86_signed d)))"
  unfolding x86_signed_def Test86MSByte_def by (auto simp: byte_bits bit_simps)

lemma op_byte_25:
  assumes "1 \<le> i" "i \<le> 3" and "take_bit 25 x = take_bit 25 y"
  shows "op_byte i x = op_byte i y"
proof (rule op_byte_cong [OF assms(1,2)])
  have "take_bit (32 - i * 8) (take_bit 25 x) = take_bit (32 - i * 8) (take_bit 25 y)" by (simp add: assms(3))
  then show "take_bit (32 - i * 8) x = take_bit (32 - i * 8) y" using assms(1) by (simp add: min_absorb1)
qed

text \<open>Converting back gives the operand again.\<close>

lemma x86_result_kind:
  assumes "x86_mask_ok m i" and "m \<noteq> 0" and "\<not> Test86MSByte (op_byte i src)"
  shows "\<not> Test86MSByte (op_byte i (x86_result p m i src))"
  using assms(2,3) x86_mask_ok_cases [OF assms(1,2)]
  by (auto simp: x86_result_def op_byte_second Test86MSByte_not)

lemma take_bit_25_xor_low:
  assumes "take_bit 25 x = take_bit 25 y"
  shows "take_bit 25 (x XOR z) = take_bit 25 (y XOR (z :: u32))"
proof -
  have "bit x n = bit y n" if "n < 25" for n
    using that arg_cong [OF assms, of "\<lambda>w. bit w n"] by (simp add: bit_take_bit_iff)
  then show ?thesis by (intro bit_word_eqI) (auto simp: bit_simps)
qed

lemma take_bit_25_diff:
  assumes "take_bit 25 x = take_bit 25 y"
  shows "take_bit 25 (x + z) = take_bit 25 (y + (z :: u32))"
  by (metis assms take_bit_add_left)

lemma x86_result_undo_take:
  assumes m: "x86_mask_ok m i" and kind: "m \<noteq> 0 \<Longrightarrow> \<not> Test86MSByte (op_byte i src)"
    and y: "take_bit 25 y = take_bit 25 (x86_result p m i src)"
  shows "take_bit 25 (x86_result (- p) m i y) = take_bit 25 src"
proof (cases "m \<noteq> 0 \<and> Test86MSByte (op_byte i (src + p))")
  case False
  then have "x86_result p m i src = src + p" by (auto simp: x86_result_def)
  then have "take_bit 25 (y + - p) = take_bit 25 src"
    using take_bit_25_diff [OF y, of "- p"] by simp
  moreover have "m \<noteq> 0 \<Longrightarrow> \<not> Test86MSByte (op_byte i (y + - p))"
    using kind op_byte_25 [OF _ _ calculation] x86_mask_ok_cases [OF m] by simp
  ultimately show ?thesis by (auto simp: x86_result_def)
next
  case True
  then have m0: "m \<noteq> 0" and ts: "Test86MSByte (op_byte i (src + p))" by blast+
  note i = x86_mask_ok_cases [OF m m0]
  let ?d = "src + p" and ?x = "(src + p) XOR low_mask i"
  have yp: "take_bit 25 (y + - p) = take_bit 25 ?x"
    using take_bit_25_diff [OF y, of "- p"] True by (simp add: x86_result_def)
  have "op_byte i ?x = NOT (op_byte i ?d)"
    using op_byte_cong [OF _ _ take_bit_xor_low [of i ?d]] op_byte_not [of i ?d] i by simp
  then have "Test86MSByte (op_byte i (y + - p))"
    using op_byte_25 [OF _ _ yp, of i] i ts by (simp add: Test86MSByte_not)
  then have r: "x86_result (- p) m i y = ((y + - p) XOR low_mask i) + - p"
    using m0 by (simp add: x86_result_def)
  have "take_bit 25 ((y + - p) XOR low_mask i) = take_bit 25 (?x XOR low_mask i)"
    by (rule take_bit_25_xor_low [OF yp])
  also have "?x XOR low_mask i = ?d" by (simp add: xor.assoc)
  finally have "take_bit 25 (((y + - p) XOR low_mask i) + - p) = take_bit 25 (?d + - p)"
    by (rule take_bit_25_diff)
  then show ?thesis by (simp add: r)
qed

lemma x86_result_undo:
  assumes m: "x86_mask_ok m i" and ms: "Test86MSByte (ucast (drop_bit 24 src))"
    and kind: "m \<noteq> 0 \<Longrightarrow> \<not> Test86MSByte (op_byte i src)"
  shows "x86_signed (x86_result (- p) m i (x86_signed (x86_result p m i src))) = src"
    and "m \<noteq> 0 \<Longrightarrow> \<not> Test86MSByte (op_byte i (x86_signed (x86_result p m i src)))"
proof -
  have "take_bit 25 (x86_result (- p) m i (x86_signed (x86_result p m i src))) = take_bit 25 src"
    by (rule x86_result_undo_take [OF m kind take_x86_signed])
  from x86_signed_take [OF this] x86_signed_id [OF ms]
  show "x86_signed (x86_result (- p) m i (x86_signed (x86_result p m i src))) = src" by simp
  assume m0: "m \<noteq> 0"
  show "\<not> Test86MSByte (op_byte i (x86_signed (x86_result p m i src)))"
    using x86_result_kind [OF m m0 kind [OF m0], of p] x86_mask_ok_cases [OF m m0]
      op_byte_25 [OF _ _ take_x86_signed [of "x86_result p m i src"], of i] by simp
qed

section \<open>The mask of recent opcodes\<close>

definition age1 :: "u32 \<Rightarrow> u32" where
  "age1 m = push_bit 1 (m AND 0x77)"

lemma x86_age_Suc: "x86_age (Suc n) m = age1 (x86_age n m)"
  by (induction n arbitrary: m) (simp_all only: x86_age.simps age1_def)

lemma bit_age1: "bit (age1 m) n \<longleftrightarrow> 1 \<le> n \<and> n < 32 \<and> bit m (n - 1) \<and> bit (0x77 :: u32) (n - 1)"
  unfolding age1_def bit_push_bit_iff bit_and_iff possible_bit_word by simp

definition mask8 :: "u32 \<Rightarrow> bool" where
  "mask8 m \<longleftrightarrow> take_bit 8 m = m"

lemma mask8_age1: "mask8 m \<Longrightarrow> mask8 (age1 m)"
  by (simp add: mask8_def u32_bits bit_simps bit_age1)

lemma x86_age_4:
  assumes "mask8 m"
  shows "x86_age 4 m = 0"
proof -
  have "(4 :: nat) = Suc (Suc (Suc (Suc 0)))" by simp
  then have "x86_age 4 m = age1 (age1 (age1 (age1 m)))" by (simp only: x86_age_Suc x86_age.simps(1))
  with assms show ?thesis by (simp add: mask8_def u32_bits bit_simps bit_age1)
qed

lemma age1_0 [simp]: "age1 0 = 0"
  by (simp add: age1_def)

lemma x86_age_ge_4: "mask8 m \<Longrightarrow> 4 \<le> n \<Longrightarrow> x86_age n m = 0"
proof (induction n)
  case (Suc n)
  show ?case
  proof (cases "n = 3")
    case True
    then have "Suc n = 4" by simp
    with x86_age_4 [OF Suc.prems(1)] show ?thesis by (simp only:)
  next
    case False
    with Suc have "x86_age n m = 0" by simp
    then show ?thesis by (simp only: x86_age_Suc age1_0)
  qed
qed simp

lemma x86_age_0: "x86_age n 0 = 0"
  by (induction n) simp_all

text \<open>The mask as the loop sees it at a position \<open>off\<close> bytes after the last opcode.\<close>

definition aged :: "u32 \<Rightarrow> u32 \<Rightarrow> u32" where
  "aged pm off = (if off > 5 then 0 else x86_age (unat off) pm)"

lemma aged_eq: "mask8 pm \<Longrightarrow> aged pm off = x86_age (unat off) pm"
  by (auto simp: aged_def word_less_nat_alt x86_age_ge_4)

lemma aged_Suc:
  assumes "mask8 pm" and "unat off + 1 < 2 ^ 32"
  shows "aged pm (off + 1) = age1 (aged pm off)"
proof -
  have "unat (off + 1) = Suc (unat off)" using assms(2) by (simp add: unat_word_ariths)
  then show ?thesis by (simp only: aged_eq [OF assms(1)] x86_age_Suc)
qed

text \<open>
  What the mask says of the bytes to come: an opcode \<open>j\<close> bytes back whose fifth byte is not
  marked has a fifth byte that is not 0x00 or 0xFF.
\<close>

definition x86_inv :: "u32 \<Rightarrow> byte list \<Rightarrow> bool" where
  "x86_inv m xs \<longleftrightarrow> m AND NOT 0xEE = 0
     \<and> (bit m 1 \<and> \<not> bit m 5 \<and> 3 < length xs \<longrightarrow> \<not> Test86MSByte (xs ! 3))
     \<and> (bit m 2 \<and> \<not> bit m 6 \<and> 2 < length xs \<longrightarrow> \<not> Test86MSByte (xs ! 2))
     \<and> (bit m 3 \<and> \<not> bit m 7 \<and> 1 < length xs \<longrightarrow> \<not> Test86MSByte (xs ! 1))"

lemma x86_inv_0: "x86_inv 0 xs"
  by (simp add: x86_inv_def)

lemma age1_bits:
  "bit (age1 m) (Suc 0) = bit m 0" "bit (age1 m) 2 = bit m (Suc 0)" "bit (age1 m) 3 = bit m 2"
  "bit (age1 m) 5 = bit m 4" "bit (age1 m) 6 = bit m 5" "bit (age1 m) 7 = bit m 6"
  "age1 m AND NOT 0xEE = 0"
  by (simp_all add: bit_age1) (simp add: u32_bits bit_simps bit_age1)

lemma age1_mask: "age1 m AND - 239 = 0"
  using age1_bits(7) [of m] by simp

lemma x86_inv_plain: "x86_inv m (b # xs) \<Longrightarrow> x86_inv (age1 m) xs"
proof -
  assume a: "x86_inv m (b # xs)"
  then have "m AND NOT 0xEE = 0" by (simp add: x86_inv_def)
  then have "\<not> bit m 0" "\<not> bit m 4" by (simp_all add: u32_bits bit_simps)
  with a show ?thesis
    by (simp add: x86_inv_def age1_bits age1_mask)
qed

text \<open>The mask after an opcode that is left alone.\<close>

definition skipped :: "u32 \<Rightarrow> byte \<Rightarrow> u32" where
  "skipped m b4 = (if Test86MSByte b4 then (m OR 1) OR 0x10 else m OR 1)"

lemma skipped_bits:
  "bit (age1 (skipped m b)) (Suc 0)" "bit (age1 (skipped m b)) 5 = (bit m 4 \<or> Test86MSByte b)"
  "bit (age1 (skipped m b)) 2 = bit m (Suc 0)" "bit (age1 (skipped m b)) 3 = bit m 2"
  "bit (age1 (skipped m b)) 6 = bit m 5" "bit (age1 (skipped m b)) 7 = bit m 6"
  by (simp_all add: bit_age1 skipped_def bit_simps)

lemma x86_inv_skip:
  "x86_inv m (b0 # b1 # b2 # b3 # b4 # rest) \<Longrightarrow> x86_inv (age1 (skipped m b4)) (b1 # b2 # b3 # b4 # rest)"
  by (simp add: x86_inv_def skipped_bits age1_mask)

lemma mask8_skipped: "m AND NOT 0xEE = 0 \<Longrightarrow> mask8 (skipped m b)"
  by (simp add: mask8_def skipped_def u32_bits bit_simps)

text \<open>The guard of the conversion.\<close>

lemma x86_guard:
  assumes "m AND NOT 0xEE = 0"
  shows "drop_bit 1 m \<le> 4 \<and> drop_bit 1 m \<noteq> 3 \<longleftrightarrow> (\<exists>i. x86_mask_ok m i)"
proof
  assume g: "drop_bit 1 m \<le> 4 \<and> drop_bit 1 m \<noteq> 3"
  define k where "k = unat (drop_bit 1 m)"
  have d: "drop_bit 1 m = of_nat k" by (simp add: k_def)
  have "\<not> bit m 0" using assms by (simp add: u32_bits bit_simps)
  then have "take_bit 1 m = 0" by (simp add: bit_0 even_iff_mod_2_eq_zero)
  then have m: "m = push_bit 1 (drop_bit 1 m)" using bits_ident [of 1 m] by (simp only: add_0_right)
  have "k \<le> 4" using g by (simp add: k_def word_le_nat_alt)
  moreover have "k \<noteq> 3" using g d by auto
  ultimately have "k = 0 \<or> k = 1 \<or> k = 2 \<or> k = 4" by presburger
  then have "x86_mask_ok (push_bit 1 (of_nat k)) (MASK_TO_BIT_NUMBER ! k)"
    by (elim disjE) (simp_all add: x86_mask_ok_def MASK_TO_BIT_NUMBER_def)
  moreover have "m = push_bit 1 (of_nat k)" using m d by simp
  ultimately show "\<exists>i. x86_mask_ok m i" by blast
qed (auto simp: x86_mask_ok_def)

section \<open>The main loop\<close>

definition x86_op :: "byte \<Rightarrow> bool" where
  "x86_op b \<longleftrightarrow> b = 0xE8 \<or> b = 0xE9"

definition x86_bytes :: "u32 \<Rightarrow> byte list" where
  "x86_bytes w = [ucast w, ucast (drop_bit 8 w), ucast (drop_bit 16 w), ucast (drop_bit 24 w)]"

lemma x86_bytes_signed:
  "x86_bytes (x86_signed d) =
     [ucast d, ucast (drop_bit 8 d), ucast (drop_bit 16 d), ucast (NOT ((drop_bit 24 d AND 1) - 1))]"
  unfolding drop_and_1 x86_bytes_def x86_signed_def
  by (cases "bit d 24") (simp_all add: byte_bits bit_simps)

lemma x86_bytes_join: "x86_bytes (join32be b4 b3 b2 b1) = [b1, b2, b3, b4]"
  by (simp add: x86_bytes_def bytes_join32be)

lemma x86_loop_plain:
  "\<not> x86_op b0 \<Longrightarrow> x86_loop e pc pm pp (b0 # b1 # b2 # b3 # b4 # rest) =
     map_option (\<lambda>(n, pm, pp, out). (Suc n, pm, pp, b0 # out)) (x86_loop e (pc + 1) pm pp (b1 # b2 # b3 # b4 # rest))"
  by (simp only: x86_loop.simps(1) x86_op_def de_Morgan_disj simp_thms if_True)

lemma x86_loop_skip:
  "x86_op b0 \<Longrightarrow> \<not> (Test86MSByte b4 \<and> drop_bit 1 (aged pm (pc - pp)) \<le> 4 \<and> drop_bit 1 (aged pm (pc - pp)) \<noteq> 3) \<Longrightarrow>
   x86_loop e pc pm pp (b0 # b1 # b2 # b3 # b4 # rest) =
     map_option (\<lambda>(n, pm, pp, out). (Suc n, pm, pp, b0 # out))
       (x86_loop e (pc + 1) (skipped (aged pm (pc - pp)) b4) pc (b1 # b2 # b3 # b4 # rest))"
  unfolding x86_loop.simps(1) x86_op_def Let_def aged_def [symmetric] skipped_def [symmetric]
  by (simp only: if_False) auto

lemma x86_loop_convert:
  "x86_op b0 \<Longrightarrow> Test86MSByte b4 \<and> drop_bit 1 (aged pm (pc - pp)) \<le> 4 \<and> drop_bit 1 (aged pm (pc - pp)) \<noteq> 3 \<Longrightarrow>
   x86_convert e (pc + 5) (aged pm (pc - pp)) (join32be b4 b3 b2 b1) = Some dest \<Longrightarrow>
   x86_loop e pc pm pp (b0 # b1 # b2 # b3 # b4 # rest) =
     map_option (\<lambda>(n, pm, pp, out). (5 + n, pm, pp, b0 # x86_bytes (x86_signed dest) @ out))
       (x86_loop e (pc + 5) 0 pc rest)"
  unfolding x86_loop.simps(1) x86_op_def Let_def aged_def [symmetric] join32be_def [symmetric] x86_bytes_signed
  by (simp only: if_True) auto

declare x86_loop.simps [simp del]

lemma x86_loop_short: "length xs < 5 \<Longrightarrow> x86_loop e pc pm pp xs = Some (0, pm, pp, xs)"
  by (cases "(e, pc, pm, pp, xs)" rule: x86_loop.cases) (simp_all add: x86_loop.simps)

text \<open>
  What a run of the loop guarantees: it returns, keeps the bytes it did not look at and
  the first byte, does not change the kind of a byte the mask still refers to, leaves a
  state for the bytes that follow, and running it in the other direction on its output
  gives the input.
\<close>

definition same_kind :: "u32 \<Rightarrow> byte list \<Rightarrow> byte list \<Rightarrow> bool" where
  "same_kind m xs ys \<longleftrightarrow>
     (bit m 1 \<and> 3 < length xs \<longrightarrow> Test86MSByte (ys ! 3) = Test86MSByte (xs ! 3))
     \<and> (bit m 2 \<and> 2 < length xs \<longrightarrow> Test86MSByte (ys ! 2) = Test86MSByte (xs ! 2))
     \<and> (bit m 3 \<and> 1 < length xs \<longrightarrow> Test86MSByte (ys ! 1) = Test86MSByte (xs ! 1))"

definition x86_run_ok :: "bool \<Rightarrow> u32 \<Rightarrow> u32 \<Rightarrow> u32 \<Rightarrow> byte list \<Rightarrow> nat \<Rightarrow> u32 \<Rightarrow> u32 \<Rightarrow> byte list \<Rightarrow> bool" where
  "x86_run_ok e pc pm pp xs n pm' pp' out \<longleftrightarrow>
     x86_loop e pc pm pp xs = Some (n, pm', pp', out)
     \<and> x86_loop (\<not> e) pc pm pp out = Some (n, pm', pp', xs)
     \<and> length out = length xs \<and> n \<le> length xs \<and> length xs < n + 5 \<and> drop n out = drop n xs
     \<and> take 1 out = take 1 xs \<and> same_kind (aged pm (pc - pp)) xs out
     \<and> mask8 pm' \<and> x86_inv (aged pm' (pc + of_nat n - pp')) (drop n xs)
     \<and> (4 \<le> length xs \<or> aged pm (pc - pp) = 0 \<longrightarrow>
          4 \<le> length (drop n xs) \<or> aged pm' (pc + of_nat n - pp') = 0)"

lemma x86_run_short:
  "length xs < 5 \<Longrightarrow> mask8 pm \<Longrightarrow> x86_inv (aged pm (pc - pp)) xs \<Longrightarrow> x86_run_ok e pc pm pp xs 0 pm pp xs"
  by (simp add: x86_run_ok_def x86_loop_short same_kind_def)

lemma list_4_ge: "4 \<le> length xs \<Longrightarrow> \<exists>a b c d ys. xs = a # b # c # d # ys"
  by (auto simp: numeral_eq_Suc Suc_le_length_iff)

lemma x86_run_plain:
  assumes op: "\<not> x86_op b0" and m: "mask8 pm" and nowrap: "unat (pc - pp) + 1 < 2 ^ 32"
    and run: "x86_run_ok e (pc + 1) pm pp (b1 # b2 # b3 # b4 # rest) n pm' pp' out"
  shows "x86_run_ok e pc pm pp (b0 # b1 # b2 # b3 # b4 # rest) (Suc n) pm' pp' (b0 # out)"
proof -
  from run have "length out = length (b1 # b2 # b3 # b4 # rest)" by (simp add: x86_run_ok_def)
  then obtain c1 c2 c3 c4 cs where out: "out = c1 # c2 # c3 # c4 # cs"
    using list_4_ge [of out] by auto
  from run have c1: "c1 = b1" by (simp add: x86_run_ok_def out)
  have "aged pm (pc + 1 - pp) = age1 (aged pm (pc - pp))"
    using aged_Suc [OF m nowrap] by (simp add: algebra_simps)
  with run c1 have kind: "same_kind (aged pm (pc - pp)) (b0 # b1 # b2 # b3 # b4 # rest) (b0 # out)"
    by (simp add: x86_run_ok_def same_kind_def age1_bits out)
  have pos: "pc + 1 + of_nat n - pp' = pc + of_nat (Suc n) - pp'" by simp
  from run kind show ?thesis
    unfolding x86_run_ok_def out c1 x86_loop_plain [OF op] pos by simp
qed

lemma x86_run_skip:
  assumes op: "x86_op b0"
    and guard: "\<not> (Test86MSByte b4 \<and> drop_bit 1 (aged pm (pc - pp)) \<le> 4 \<and> drop_bit 1 (aged pm (pc - pp)) \<noteq> 3)"
    and m: "mask8 (skipped (aged pm (pc - pp)) b4)"
    and run: "x86_run_ok e (pc + 1) (skipped (aged pm (pc - pp)) b4) pc (b1 # b2 # b3 # b4 # rest) n pm' pp' out"
  shows "x86_run_ok e pc pm pp (b0 # b1 # b2 # b3 # b4 # rest) (Suc n) pm' pp' (b0 # out)"
proof -
  let ?m = "aged pm (pc - pp)"
  from run have "length out = length (b1 # b2 # b3 # b4 # rest)" by (simp add: x86_run_ok_def)
  then obtain c1 c2 c3 c4 cs where out: "out = c1 # c2 # c3 # c4 # cs"
    using list_4_ge [of out] by auto
  from run have c1: "c1 = b1" by (simp add: x86_run_ok_def out)
  have "aged (skipped ?m b4) (pc + 1 - pc) = age1 (skipped ?m b4)"
    using aged_Suc [OF m, of 0] by (simp add: aged_def)
  with run have kind1: "same_kind (age1 (skipped ?m b4)) (b1 # b2 # b3 # b4 # rest) out"
    by (simp add: x86_run_ok_def)
  then have c4: "Test86MSByte c4 = Test86MSByte b4"
    by (simp add: same_kind_def skipped_bits out)
  from kind1 c1 have kind: "same_kind ?m (b0 # b1 # b2 # b3 # b4 # rest) (b0 # out)"
    by (simp add: same_kind_def skipped_bits out)
  have sk: "skipped ?m c4 = skipped ?m b4" by (simp add: skipped_def c4)
  have guard': "\<not> (Test86MSByte c4 \<and> drop_bit 1 ?m \<le> 4 \<and> drop_bit 1 ?m \<noteq> 3)" using guard c4 by simp
  have pos: "pc + 1 + of_nat n - pp' = pc + of_nat (Suc n) - pp'" by simp
  from run kind show ?thesis
    unfolding x86_run_ok_def out c1 x86_loop_skip [OF op guard] x86_loop_skip [OF op guard'] sk pos by simp
qed

lemma displ_neg: "displ (\<not> e) p = - displ e p"
  by (simp add: displ_def)

lemma op_byte_join: "op_byte (Suc 0) (join32be b4 b3 b2 b1) = b3" "op_byte 2 (join32be b4 b3 b2 b1) = b2"
  "op_byte 3 (join32be b4 b3 b2 b1) = b1"
  by (simp_all add: op_byte_def bytes_join32be)

lemma x86_inv_kind:
  assumes "x86_inv m (b0 # b1 # b2 # b3 # b4 # rest)" and "x86_mask_ok m i" and "m \<noteq> 0"
  shows "\<not> Test86MSByte (op_byte i (join32be b4 b3 b2 b1))"
  using assms by (auto simp: x86_mask_ok_def x86_inv_def op_byte_join)

lemma join32be_x86_bytes:
  "x86_bytes w = [c1, c2, c3, c4] \<Longrightarrow> join32be c4 c3 c2 c1 = w"
  using join32be_bytes [of w] by (auto simp: x86_bytes_def)

lemma x86_run_convert:
  assumes op: "x86_op b0" and ms: "Test86MSByte b4"
    and mok: "x86_mask_ok (aged pm (pc - pp)) i"
    and inv: "x86_inv (aged pm (pc - pp)) (b0 # b1 # b2 # b3 # b4 # rest)"
    and run: "x86_run_ok e (pc + 5) 0 pc rest n pm' pp' out"
  shows "\<exists>bs. length bs = 4 \<and> x86_run_ok e pc pm pp (b0 # b1 # b2 # b3 # b4 # rest) (5 + n) pm' pp' (b0 # bs @ out)"
proof -
  let ?m = "aged pm (pc - pp)" and ?s = "join32be b4 b3 b2 b1" and ?p = "displ e (pc + 5)"
  let ?w = "x86_signed (x86_result ?p ?m i ?s)"
  note kind = x86_inv_kind [OF inv mok]
  have ms': "Test86MSByte (ucast (drop_bit 24 ?s))" using ms by (simp add: bytes_join32be)
  have undo1: "x86_signed (x86_result (- ?p) ?m i ?w) = ?s"
    by (rule x86_result_undo(1) [OF mok ms']) (rule kind)
  have undo2: "\<not> Test86MSByte (op_byte i ?w)" if "?m \<noteq> 0"
    by (rule x86_result_undo(2) [OF mok ms' _ that]) (rule kind)
  obtain c1 c2 c3 c4 where bs: "x86_bytes ?w = [c1, c2, c3, c4]" by (simp add: x86_bytes_def)
  have w: "join32be c4 c3 c2 c1 = ?w" using bs by (rule join32be_x86_bytes)
  have c4: "Test86MSByte c4" using x86_signed_ms [of "x86_result ?p ?m i ?s"] bs by (simp add: x86_bytes_def)
  have m: "?m AND NOT 0xEE = 0" using inv by (simp add: x86_inv_def)
  have guard: "drop_bit 1 ?m \<le> 4 \<and> drop_bit 1 ?m \<noteq> 3" using x86_guard [OF m] mok by blast
  have fwd: "x86_loop e pc pm pp (b0 # b1 # b2 # b3 # b4 # rest) = Some (5 + n, pm', pp', b0 # x86_bytes ?w @ out)"
    using run ms guard
    by (subst x86_loop_convert [OF op _ x86_convert_result [OF mok kind]]) (simp_all add: x86_run_ok_def)
  have bb: "x86_bytes (x86_signed (x86_result (- ?p) ?m i ?w)) = [b1, b2, b3, b4]"
    by (simp only: undo1 x86_bytes_join)
  have conv: "x86_convert (\<not> e) (pc + 5) ?m (join32be c4 c3 c2 c1) = Some (x86_result (- ?p) ?m i ?w)"
    unfolding w displ_neg [symmetric] by (rule x86_convert_result [OF mok undo2])
  have run': "x86_loop (\<not> e) (pc + 5) 0 pc out = Some (n, pm', pp', rest)"
    using run by (simp add: x86_run_ok_def)
  have bwd: "x86_loop (\<not> e) pc pm pp (b0 # x86_bytes ?w @ out) = Some (5 + n, pm', pp', b0 # b1 # b2 # b3 # b4 # rest)"
    unfolding bs append_Cons append_Nil x86_loop_convert [OF op conjI [OF c4 guard] conv] bb run' by simp
  have len: "length (x86_bytes ?w) = 4" by (simp add: x86_bytes_def)
  have "same_kind ?m (b0 # b1 # b2 # b3 # b4 # rest) (b0 # x86_bytes ?w @ out)"
  proof (cases "?m = 0")
    case False
    from kind [OF False] undo2 [OF False] mok False show ?thesis
      unfolding w [symmetric] by (auto simp: x86_bytes_join x86_mask_ok_def same_kind_def op_byte_join)
  qed (simp add: same_kind_def)
  moreover have "pc + 5 + of_nat n - pp' = pc + of_nat (5 + n) - pp'" by simp
  ultimately have "x86_run_ok e pc pm pp (b0 # b1 # b2 # b3 # b4 # rest) (5 + n) pm' pp' (b0 # x86_bytes ?w @ out)"
    using run fwd bwd len unfolding x86_run_ok_def bs by (auto simp: drop_Cons' add.assoc aged_def x86_age_0)
  with len show ?thesis by blast
qed

lemma x86_loop_run:
  "mask8 pm \<Longrightarrow> unat (pc - pp) + length xs < 2 ^ 32 \<Longrightarrow> x86_inv (aged pm (pc - pp)) xs \<Longrightarrow>
   \<exists>n pm' pp' out. x86_run_ok e pc pm pp xs n pm' pp' out"
proof (induction "length xs" arbitrary: pc pm pp xs rule: less_induct)
  case less
  show ?case
  proof (cases "length xs < 5")
    case True
    with x86_run_short less.prems show ?thesis by blast
  next
    case False
    then obtain b0 b1 b2 b3 b4 rest where xs: "xs = b0 # b1 # b2 # b3 # b4 # rest"
      by (auto simp: numeral_eq_Suc not_less Suc_le_length_iff)
    let ?m = "aged pm (pc - pp)"
    note inv = less.prems(3) [unfolded xs]
    have m: "?m AND NOT 0xEE = 0" using inv by (simp add: x86_inv_def)
    consider (plain) "\<not> x86_op b0" | (conv) i where "x86_op b0" "Test86MSByte b4" "x86_mask_ok ?m i"
      | (skip) "x86_op b0" "\<not> (Test86MSByte b4 \<and> drop_bit 1 ?m \<le> 4 \<and> drop_bit 1 ?m \<noteq> 3)"
      using x86_guard [OF m] by blast
    then show ?thesis
    proof cases
      case plain
      have nowrap: "unat (pc - pp) + 1 < 2 ^ 32" using less.prems(2) by (simp add: xs)
      have eq: "pc + 1 - pp = pc - pp + 1" by simp
      have "unat (pc + 1 - pp) = unat (pc - pp) + 1" unfolding eq using nowrap by (simp add: unat_word_ariths)
      then have "unat (pc + 1 - pp) + length (b1 # b2 # b3 # b4 # rest) < 2 ^ 32" using less.prems(2) by (simp add: xs)
      moreover have "x86_inv (aged pm (pc + 1 - pp)) (b1 # b2 # b3 # b4 # rest)"
        unfolding eq aged_Suc [OF less.prems(1) nowrap] by (rule x86_inv_plain [OF inv])
      ultimately have "\<exists>n pm' pp' out. x86_run_ok e (pc + 1) pm pp (b1 # b2 # b3 # b4 # rest) n pm' pp' out"
        by (intro less.hyps less.prems(1)) (simp_all add: xs)
      with x86_run_plain [OF plain less.prems(1) nowrap] show ?thesis unfolding xs by blast
    next
      case (conv i)
      have "\<exists>n pm' pp' out. x86_run_ok e (pc + 5) 0 pc rest n pm' pp' out"
        using less.prems(2) by (intro less.hyps) (simp_all add: xs mask8_def aged_def x86_inv_0 x86_age_0)
      with x86_run_convert [OF conv inv] show ?thesis unfolding xs by blast
    next
      case skip
      have m8: "mask8 (skipped ?m b4)" by (rule mask8_skipped [OF m])
      have eq: "pc + 1 - pc = (0 :: u32) + 1" by simp
      have a0: "aged (skipped ?m b4) 0 = skipped ?m b4" by (simp add: aged_def)
      have "unat (pc + 1 - pc) + length (b1 # b2 # b3 # b4 # rest) < 2 ^ 32" using less.prems(2) by (simp add: xs)
      moreover have "x86_inv (aged (skipped ?m b4) (pc + 1 - pc)) (b1 # b2 # b3 # b4 # rest)"
        unfolding eq using aged_Suc [OF m8, of 0] x86_inv_skip [OF inv] by (simp add: a0)
      ultimately have "\<exists>n pm' pp' out. x86_run_ok e (pc + 1) (skipped ?m b4) pc (b1 # b2 # b3 # b4 # rest) n pm' pp' out"
        by (intro less.hyps m8) (simp_all add: xs)
      with x86_run_skip [OF skip m8] show ?thesis unfolding xs by blast
    qed
  qed
qed

section \<open>Properties of the filter\<close>

text \<open>
  The states a coder can be in when the bytes \<open>xs\<close> at position \<open>now_pos\<close> come next: the
  initial state, and those left by earlier calls.
\<close>

definition x86_ready :: "lzma_simple_x86 \<Rightarrow> u32 \<Rightarrow> byte list \<Rightarrow> bool" where
  "x86_ready s now_pos xs \<longleftrightarrow>
     mask8 (prev_mask s) \<and> x86_inv (aged (prev_mask s) (now_pos - prev_pos s)) xs
     \<and> (4 \<le> length xs \<or> aged (prev_mask s) (now_pos - prev_pos s) = 0)"

lemma x86_inv_append: "4 \<le> length xs \<Longrightarrow> x86_inv m xs \<Longrightarrow> x86_inv m (xs @ ys)"
  by (auto simp: x86_inv_def nth_append)

lemma x86_ready_append: "x86_ready s now_pos xs \<Longrightarrow> x86_ready s now_pos (xs @ ys)"
  by (auto simp: x86_ready_def x86_inv_append x86_inv_0)

lemma x86_ready_initial: "x86_ready x86_initial now_pos xs"
  by (simp add: x86_ready_def x86_initial_def mask8_def aged_def x86_age_0 x86_inv_0)

lemma x86_code_run:
  assumes "x86_ready s now_pos buffer" and "length buffer < 2 ^ 32 - 5"
  obtains n s' out where "x86_code s now_pos e buffer = Some (n, s', out)"
    "x86_code s now_pos (\<not> e) out = Some (n, s', buffer)"
    "length out = length buffer" "n \<le> length buffer" "length buffer < n + 5" "drop n out = drop n buffer"
    "x86_ready s' (now_pos + of_nat n) (drop n buffer)"
proof (cases "length buffer < 5")
  case True
  then show ?thesis using assms(1) by (intro that [of 0 s buffer]) (simp_all add: x86_code_def)
next
  case False
  let ?pp = "if now_pos - prev_pos s > 5 then now_pos - 5 else prev_pos s"
  have m8: "mask8 (prev_mask s)" using assms(1) by (simp add: x86_ready_def)
  have same: "aged (prev_mask s) (now_pos - ?pp) = aged (prev_mask s) (now_pos - prev_pos s)"
    using x86_age_ge_4 [OF m8, of 5] by (auto simp: aged_def)
  have "unat (now_pos - ?pp) \<le> 5" by (auto simp: word_less_nat_alt not_less)
  then have "unat (now_pos - ?pp) + length buffer < 2 ^ 32" using assms(2) by simp
  moreover have "x86_inv (aged (prev_mask s) (now_pos - ?pp)) buffer"
    using assms(1) unfolding same by (simp add: x86_ready_def)
  ultimately obtain n pm' pp' out where run: "x86_run_ok e now_pos (prev_mask s) ?pp buffer n pm' pp' out"
    using x86_loop_run [OF m8] by blast
  show ?thesis
  proof (rule that [of n "\<lparr>prev_mask = pm', prev_pos = pp'\<rparr>" out])
    show "x86_code s now_pos e buffer = Some (n, \<lparr>prev_mask = pm', prev_pos = pp'\<rparr>, out)"
      "x86_code s now_pos (\<not> e) out = Some (n, \<lparr>prev_mask = pm', prev_pos = pp'\<rparr>, buffer)"
      using run False by (simp_all only: x86_run_ok_def x86_code_def Let_def) simp_all
    show "x86_ready \<lparr>prev_mask = pm', prev_pos = pp'\<rparr> (now_pos + of_nat n) (drop n buffer)"
      using run False by (auto simp: x86_run_ok_def x86_ready_def)
  qed (use run in \<open>simp_all add: x86_run_ok_def\<close>)
qed

text \<open>
  The x86 filter always returns. From every state that a coder can be in, on every
  buffer below four gigabytes, the conversion loop ends without an undefined shift; at
  most four bytes stay unfiltered, they are left as they are, and the state is again one
  from which the filter can go on, whatever data follows them.
\<close>

theorem x86_code_returns:
  assumes "x86_ready s now_pos buffer" and "length buffer < 2 ^ 32 - 5"
  shows "\<exists>n s' out. x86_code s now_pos is_encoder buffer = Some (n, s', out)
    \<and> length out = length buffer \<and> n \<le> length buffer \<and> length buffer < n + 5 \<and> drop n out = drop n buffer
    \<and> x86_ready s' (now_pos + of_nat n) (drop n buffer @ following)"
  by (rule x86_code_run [OF assms, of is_encoder]) (use x86_ready_append in blast)

theorem x86_code_returns_witness:
  "\<exists>n s' out. x86_code x86_initial 0 True [0xE8, 1, 0xE8, 0, 0, 9, 0xFF] = Some (n, s', out) \<and> n \<le> 7 \<and> 7 < n + 5"
  using x86_code_returns [OF x86_ready_initial, of "[0xE8, 1, 0xE8, 0, 0, 9, 0xFF]" 0 True "[]"] by auto

text \<open>
  C39: The x86 filter is invertible. From every state that a coder can be in, what one
  direction makes of a buffer the other direction turns back, and both leave the same
  state and filter the same number of bytes; so the coder can go on with the next buffer.
\<close>

theorem x86_code_invertible:
  assumes "x86_ready s now_pos buffer" and "length buffer < 2 ^ 32 - 5"
    and "x86_code s now_pos is_encoder buffer = Some (n, s', out)"
  shows "x86_code s now_pos (\<not> is_encoder) out = Some (n, s', buffer)"
  by (rule x86_code_run [OF assms(1,2), of is_encoder]) (use assms(3) in simp)

theorem x86_code_invertible_witness:
  "x86_code x86_initial 7 False (snd (snd (the (x86_code x86_initial 7 True [0xE8, 1, 2, 3, 0, 9, 0xFF]))))
     = Some (5, \<lparr>prev_mask = 0, prev_pos = 7\<rparr>, [0xE8, 1, 2, 3, 0, 9, 0xFF])"
proof -
  have r: "x86_code x86_initial 7 True [0xE8, 1, 2, 3, 0, 9, 0xFF] =
      Some (5, \<lparr>prev_mask = 0, prev_pos = 7\<rparr>, snd (snd (the (x86_code x86_initial 7 True [0xE8, 1, 2, 3, 0, 9, 0xFF]))))"
    by (simp add: x86_code_def x86_initial_def x86_loop.simps x86_convert.simps [where pmask = 0] x86_age_0
        Test86MSByte_def)
  show ?thesis
    using x86_code_invertible [OF x86_ready_initial _ r] by simp
qed

text \<open>
  The x86 entry points for whole buffers undo each other, for every start offset.
\<close>

theorem lzma_bcj_x86_roundtrip:
  assumes "length buf < 2 ^ 32 - 5"
  shows "\<exists>n buf'. lzma_bcj_x86_encode start_offset buf = Some (n, buf')
    \<and> lzma_bcj_x86_decode start_offset buf' = Some (n, buf) \<and> length buf' = length buf"
  by (rule x86_code_run [of x86_initial start_offset buf True, OF x86_ready_initial assms])
    (auto simp: lzma_bcj_x86_encode_def lzma_bcj_x86_decode_def)

theorem lzma_bcj_x86_roundtrip_witness:
  "\<exists>n buf'. lzma_bcj_x86_encode 0xFFFFFFFB [0xE9, 1, 2, 3, 0xFF, 0xE8] = Some (n, buf')
    \<and> lzma_bcj_x86_decode 0xFFFFFFFB buf' = Some (n, [0xE9, 1, 2, 3, 0xFF, 0xE8])"
  using lzma_bcj_x86_roundtrip [of "[0xE9, 1, 2, 3, 0xFF, 0xE8]" "0xFFFFFFFB"] by auto

end
