(* ===== verification/Lzma_Check.thy ===== *)
theory Lzma_Check
  imports Lzma_Crc
begin

text \<open>
  The integrity checks: \<^verbatim>\<open>check/check.c\<close> with the dispatch on the Check ID, and the SHA-256 of
  \<^verbatim>\<open>check/sha256.c\<close>. The transform of the source keeps the working variables in an array whose
  indices rotate and the message schedule in a ring of sixteen words; it is shown to be the
  compression function of FIPS 180-4, and the whole computation, fed in any pieces, to be
  the SHA-256 of the message.
\<close>

section \<open>State\<close>

text \<open>
  The check state. The members of the union \<open>state\<close> are separate fields here: the code
  only reads the member that belongs to the Check ID in use. \<open>buffer\<close> is the union of the
  64 bytes, which the source also reads and writes as big-endian words.
\<close>

record lzma_check_state =
  check_buffer :: "byte list"
  state_crc32 :: u32
  state_crc64 :: u64
  sha_state :: "u32 list"
  sha_size :: u64

definition LZMA_CHECK_NONE :: u32 where "LZMA_CHECK_NONE = 0"
definition LZMA_CHECK_CRC32 :: u32 where "LZMA_CHECK_CRC32 = 1"
definition LZMA_CHECK_CRC64 :: u32 where "LZMA_CHECK_CRC64 = 4"
definition LZMA_CHECK_SHA256 :: u32 where "LZMA_CHECK_SHA256 = 10"
definition LZMA_CHECK_BEST :: u32 where "LZMA_CHECK_BEST = LZMA_CHECK_SHA256"
definition UINT32_MAX :: u32 where "UINT32_MAX = 0xFFFFFFFF"

definition lzma_check_is_supported :: "u32 \<Rightarrow> bool" where
  "lzma_check_is_supported type =
     (if type > 15 then False
      else [True, True, False, False, True, False, False, False, False, False, True,
            False, False, False, False, False] ! unat type)"

definition lzma_check_size :: "u32 \<Rightarrow> u32" where
  "lzma_check_size type =
     (if type > 15 then UINT32_MAX
      else [0, 4, 4, 4, 8, 8, 8, 16, 16, 16, 32, 32, 32, 64, 64, 64] ! unat type)"

section \<open>SHA-256\<close>

definition rotr_32 :: "u32 \<Rightarrow> nat \<Rightarrow> u32" where
  "rotr_32 num amount = drop_bit amount num OR push_bit (32 - amount) num"

definition sha_Ch :: "u32 \<Rightarrow> u32 \<Rightarrow> u32 \<Rightarrow> u32" where
  "sha_Ch x y z = z XOR (x AND (y XOR z))"

definition sha_Maj :: "u32 \<Rightarrow> u32 \<Rightarrow> u32 \<Rightarrow> u32" where
  "sha_Maj x y z = (x AND (y XOR z)) + (y AND z)"

definition sha_S0 :: "u32 \<Rightarrow> u32" where
  "sha_S0 x = rotr_32 (x XOR rotr_32 (x XOR rotr_32 x 9) 11) 2"

definition sha_S1 :: "u32 \<Rightarrow> u32" where
  "sha_S1 x = rotr_32 (x XOR rotr_32 (x XOR rotr_32 x 14) 5) 6"

definition sha_s0 :: "u32 \<Rightarrow> u32" where
  "sha_s0 x = rotr_32 (x XOR rotr_32 x 11) 7 XOR drop_bit 3 x"

definition sha_s1 :: "u32 \<Rightarrow> u32" where
  "sha_s1 x = rotr_32 (x XOR rotr_32 x 2) 17 XOR drop_bit 10 x"

definition SHA256_K :: "u32 list" where
  "SHA256_K = [
     0x428A2F98, 0x71374491, 0xB5C0FBCF, 0xE9B5DBA5,
     0x3956C25B, 0x59F111F1, 0x923F82A4, 0xAB1C5ED5,
     0xD807AA98, 0x12835B01, 0x243185BE, 0x550C7DC3,
     0x72BE5D74, 0x80DEB1FE, 0x9BDC06A7, 0xC19BF174,
     0xE49B69C1, 0xEFBE4786, 0x0FC19DC6, 0x240CA1CC,
     0x2DE92C6F, 0x4A7484AA, 0x5CB0A9DC, 0x76F988DA,
     0x983E5152, 0xA831C66D, 0xB00327C8, 0xBF597FC7,
     0xC6E00BF3, 0xD5A79147, 0x06CA6351, 0x14292967,
     0x27B70A85, 0x2E1B2138, 0x4D2C6DFC, 0x53380D13,
     0x650A7354, 0x766A0ABB, 0x81C2C92E, 0x92722C85,
     0xA2BFE8A1, 0xA81A664B, 0xC24B8B70, 0xC76C51A3,
     0xD192E819, 0xD6990624, 0xF40E3585, 0x106AA070,
     0x19A4C116, 0x1E376C08, 0x2748774C, 0x34B0BCB5,
     0x391C0CB3, 0x4ED8AA4A, 0x5B9CCA4F, 0x682E6FF3,
     0x748F82EE, 0x78A5636F, 0x84C87814, 0x8CC70208,
     0x90BEFFFA, 0xA4506CEB, 0xBEF9A3F7, 0xC67178F2]"

text \<open>
  \<open>T[(k - i) & 7]\<close> and \<open>W[(i - k) & 15]\<close> for \<open>i < 16\<close>: the subtractions do not go below
  zero once a multiple of the modulus is added.
\<close>

definition sha_T :: "nat \<Rightarrow> nat \<Rightarrow> nat" where
  "sha_T k i = (k + 16 - i) mod 8"

definition sha_W :: "nat \<Rightarrow> nat \<Rightarrow> nat" where
  "sha_W i k = (i + 16 - k) mod 16"

definition sha_R :: "nat \<Rightarrow> nat \<Rightarrow> u32 \<Rightarrow> u32 list \<Rightarrow> u32 list" where
  "sha_R i j blk T =
     (let T = T[sha_T 7 i := T ! sha_T 7 i + (sha_S1 (T ! sha_T 4 i)
                  + sha_Ch (T ! sha_T 4 i) (T ! sha_T 5 i) (T ! sha_T 6 i) + SHA256_K ! (i + j) + blk)];
          T = T[sha_T 3 i := T ! sha_T 3 i + T ! sha_T 7 i]
      in T[sha_T 7 i := T ! sha_T 7 i
             + (sha_S0 (T ! sha_T 0 i) + sha_Maj (T ! sha_T 0 i) (T ! sha_T 1 i) (T ! sha_T 2 i))])"

definition read32be :: "byte list \<Rightarrow> nat \<Rightarrow> u32" where
  "read32be buf p = push_bit 24 (ucast (buf ! p)) OR push_bit 16 (ucast (buf ! (p + 1)))
     OR push_bit 8 (ucast (buf ! (p + 2))) OR ucast (buf ! (p + 3))"

definition sha_R0 :: "byte list \<Rightarrow> nat \<Rightarrow> u32 list \<times> u32 list \<Rightarrow> u32 list \<times> u32 list" where
  "sha_R0 data i TW =
     (case TW of (T, W) \<Rightarrow>
        (let W = W[i := read32be data (4 * i)] in (sha_R i 0 (W ! i) T, W)))"

definition sha_R2 :: "nat \<Rightarrow> nat \<Rightarrow> u32 list \<times> u32 list \<Rightarrow> u32 list \<times> u32 list" where
  "sha_R2 j i TW =
     (case TW of (T, W) \<Rightarrow>
        (let W = W[i := W ! i + (sha_s1 (W ! sha_W i 2) + W ! sha_W i 7 + sha_s0 (W ! sha_W i 15))]
         in (sha_R i j (W ! i) T, W)))"

text \<open>\<open>data\<close> are the 64 bytes of the buffer; \<open>W\<close> is uninitialised before the first sixteen rounds.\<close>

definition transform :: "u32 list \<Rightarrow> byte list \<Rightarrow> u32 list" where
  "transform state data =
     (let TW = fold (sha_R0 data) [0..<16] (state, replicate 16 0);
          TW = fold (\<lambda>j. fold (sha_R2 j) [0..<16]) [16, 32, 48] TW
      in map2 (+) state (map (\<lambda>k. fst TW ! sha_T k 0) [0..<8]))"

definition process :: "lzma_check_state \<Rightarrow> lzma_check_state" where
  "process check = check\<lparr>sha_state := transform (sha_state check) (check_buffer check)\<rparr>"

definition lzma_sha256_init :: "lzma_check_state \<Rightarrow> lzma_check_state" where
  "lzma_sha256_init check =
     check\<lparr>sha_state := [0x6A09E667, 0xBB67AE85, 0x3C6EF372, 0xA54FF53A,
                         0x510E527F, 0x9B05688C, 0x1F83D9AB, 0x5BE0CD19],
           sha_size := 0\<rparr>"

lemma and_3F: "(x :: u64) AND 0x3F = take_bit 6 x"
  by (simp add: take_bit_eq_mask mask_eq_exp_minus_1)

lemma unat_and_3F: "unat ((x :: u64) AND 0x3F) = unat x mod 64"
  unfolding and_3F by (simp add: unsigned_take_bit_eq) (simp add: take_bit_eq_mod)

function lzma_sha256_update :: "byte list \<Rightarrow> lzma_check_state \<Rightarrow> lzma_check_state" where
  "lzma_sha256_update buf check =
     (if buf = [] then check
      else let copy_start = unat (sha_size check AND 0x3F);
               copy_size = min (64 - copy_start) (length buf);
               check = check\<lparr>check_buffer := memcpy (check_buffer check) copy_start (take copy_size buf),
                             sha_size := sha_size check + of_nat copy_size\<rparr>;
               check = (if sha_size check AND 0x3F = 0 then process check else check)
           in lzma_sha256_update (drop copy_size buf) check)"
  by pat_completeness auto
termination
proof (relation "measure (\<lambda>(buf, check). length buf)", goal_cases)
  case (2 buf check x xa xb xc)
  have "x < 64" unfolding 2 unat_and_3F by simp
  with 2 show ?case by (auto simp: min_def)
qed simp

declare lzma_sha256_update.simps [simp del]

text \<open>
  The padding loop of \<open>lzma_sha256_finish\<close>, which is entered with \<open>pos \<le> 64\<close>; the bound in
  the first test only makes the function total.
\<close>

function sha_pad_loop :: "nat \<Rightarrow> lzma_check_state \<Rightarrow> lzma_check_state" where
  "sha_pad_loop p check =
     (if p = 64 - 8 \<or> p > 64 then check
      else let (check, p) = (if p = 64 then (process check, 0) else (check, p))
           in sha_pad_loop (Suc p) (check\<lparr>check_buffer := (check_buffer check)[p := 0]\<rparr>))"
  by pat_completeness auto
termination
  by (relation "measure (\<lambda>(p, check). if p \<le> 56 then 56 - p else 128 - p)") (auto split: if_splits)

declare sha_pad_loop.simps [simp del]

definition bytes32be :: "u32 \<Rightarrow> byte list" where
  "bytes32be w = [ucast (drop_bit 24 w), ucast (drop_bit 16 w), ucast (drop_bit 8 w), ucast w]"

definition bytes64be :: "u64 \<Rightarrow> byte list" where
  "bytes64be w = [ucast (drop_bit 56 w), ucast (drop_bit 48 w), ucast (drop_bit 40 w), ucast (drop_bit 32 w),
     ucast (drop_bit 24 w), ucast (drop_bit 16 w), ucast (drop_bit 8 w), ucast w]"

definition lzma_sha256_finish :: "lzma_check_state \<Rightarrow> lzma_check_state" where
  "lzma_sha256_finish check =
     (let p = unat (sha_size check AND 0x3F);
          check = check\<lparr>check_buffer := (check_buffer check)[p := 0x80]\<rparr>;
          check = sha_pad_loop (Suc p) check;
          check = check\<lparr>sha_size := sha_size check * 8\<rparr>;
          check = check\<lparr>check_buffer := memcpy (check_buffer check) (64 - 8) (bytes64be (sha_size check))\<rparr>;
          check = process check
      in check\<lparr>check_buffer :=
           fold (\<lambda>i b. memcpy b (4 * i) (bytes32be (sha_state check ! i))) [0..<8] (check_buffer check)\<rparr>)"

section \<open>The dispatch on the Check ID\<close>

definition lzma_check_init :: "u32 \<Rightarrow> lzma_check_state \<Rightarrow> lzma_check_state" where
  "lzma_check_init type check =
     (if type = LZMA_CHECK_NONE then check
      else if type = LZMA_CHECK_CRC32 then check\<lparr>state_crc32 := 0\<rparr>
      else if type = LZMA_CHECK_CRC64 then check\<lparr>state_crc64 := 0\<rparr>
      else if type = LZMA_CHECK_SHA256 then lzma_sha256_init check
      else check)"

text \<open>\<open>addr\<close> is the address of \<open>buf\<close>, which the CRC functions align on.\<close>

definition lzma_check_update :: "u32 \<Rightarrow> nat \<Rightarrow> byte list \<Rightarrow> lzma_check_state \<Rightarrow> lzma_check_state" where
  "lzma_check_update type addr buf check =
     (if type = LZMA_CHECK_CRC32 then check\<lparr>state_crc32 := lzma_crc32 addr buf (state_crc32 check)\<rparr>
      else if type = LZMA_CHECK_CRC64 then check\<lparr>state_crc64 := lzma_crc64 addr buf (state_crc64 check)\<rparr>
      else if type = LZMA_CHECK_SHA256 then lzma_sha256_update buf check
      else check)"

definition bytes64le :: "u64 \<Rightarrow> byte list" where
  "bytes64le w = [ucast w, ucast (drop_bit 8 w), ucast (drop_bit 16 w), ucast (drop_bit 24 w),
     ucast (drop_bit 32 w), ucast (drop_bit 40 w), ucast (drop_bit 48 w), ucast (drop_bit 56 w)]"

definition lzma_check_finish :: "u32 \<Rightarrow> lzma_check_state \<Rightarrow> lzma_check_state" where
  "lzma_check_finish type check =
     (if type = LZMA_CHECK_CRC32
      then check\<lparr>check_buffer := memcpy (check_buffer check) 0 (bytes32le (state_crc32 check))\<rparr>
      else if type = LZMA_CHECK_CRC64
      then check\<lparr>check_buffer := memcpy (check_buffer check) 0 (bytes64le (state_crc64 check))\<rparr>
      else if type = LZMA_CHECK_SHA256 then lzma_sha256_finish check
      else check)"

section \<open>The compression function of FIPS 180-4\<close>

definition fips_round :: "u32 \<Rightarrow> u32 \<Rightarrow> u32 list \<Rightarrow> u32 list" where
  "fips_round k w s =
     (let a = s ! 0; b = s ! 1; c = s ! 2; d = s ! 3; e = s ! 4; f = s ! 5; g = s ! 6; h = s ! 7;
          t1 = h + (rotr_32 e 6 XOR rotr_32 e 11 XOR rotr_32 e 25) + ((e AND f) XOR (NOT e AND g)) + k + w;
          t2 = (rotr_32 a 2 XOR rotr_32 a 13 XOR rotr_32 a 22) + ((a AND b) XOR (a AND c) XOR (b AND c))
      in [t1 + t2, a, b, c, d + t1, e, f, g])"

fun fips_W :: "byte list \<Rightarrow> nat \<Rightarrow> u32" where
  "fips_W block t =
     (if t < 16 then read32be block (4 * t)
      else (rotr_32 (fips_W block (t - 2)) 17 XOR rotr_32 (fips_W block (t - 2)) 19
              XOR drop_bit 10 (fips_W block (t - 2)))
           + fips_W block (t - 7)
           + (rotr_32 (fips_W block (t - 15)) 7 XOR rotr_32 (fips_W block (t - 15)) 18
              XOR drop_bit 3 (fips_W block (t - 15)))
           + fips_W block (t - 16))"

declare fips_W.simps [simp del]

definition fips_compress :: "u32 list \<Rightarrow> byte list \<Rightarrow> u32 list" where
  "fips_compress s block = map2 (+) s (fold (\<lambda>t. fips_round (SHA256_K ! t) (fips_W block t)) [0..<64] s)"

text \<open>The message padded to whole blocks, and the hash.\<close>

definition fips_pad :: "byte list \<Rightarrow> byte list" where
  "fips_pad m = m @ [0x80] @ replicate ((119 - length m mod 64) mod 64) 0 @ bytes64be (of_nat (8 * length m))"

function fips_blocks :: "u32 list \<Rightarrow> byte list \<Rightarrow> u32 list" where
  "fips_blocks s m = (if length m < 64 then s else fips_blocks (fips_compress s (take 64 m)) (drop 64 m))"
  by pat_completeness auto
termination
  by (relation "measure (\<lambda>(s, m). length m)") auto

declare fips_blocks.simps [simp del]

definition sha256_spec :: "byte list \<Rightarrow> byte list" where
  "sha256_spec m =
     concat (map bytes32be (fips_blocks [0x6A09E667, 0xBB67AE85, 0x3C6EF372, 0xA54FF53A,
               0x510E527F, 0x9B05688C, 0x1F83D9AB, 0x5BE0CD19] (fips_pad m)))"

section \<open>The transform is the compression function\<close>

lemma bit_rotr_32: "amount < 32 \<Longrightarrow> 0 < amount \<Longrightarrow> n < 32 \<Longrightarrow>
    bit (rotr_32 x amount) n \<longleftrightarrow> bit x ((n + amount) mod 32)"
  by (cases "n + amount < 32") (auto simp: rotr_32_def bit_simps mod_if add.commute dest: bit_imp_le_length)

lemma rotr_32_xor: "0 < n \<Longrightarrow> n < 32 \<Longrightarrow> rotr_32 (x XOR y) n = rotr_32 x n XOR rotr_32 y n"
  by (rule bit_word_eqI) (simp add: bit_rotr_32 bit_xor_iff)

lemma rotr_32_rotr_32:
  "0 < m \<Longrightarrow> 0 < n \<Longrightarrow> m + n < 32 \<Longrightarrow> rotr_32 (rotr_32 x m) n = rotr_32 x (m + n)"
proof (rule bit_word_eqI)
  fix k assume mn: "0 < m" "0 < n" "m + n < 32" and k: "k < LENGTH(32)"
  have "((k + n) mod 32 + m) mod 32 = (k + n + m) mod 32" by (rule mod_add_left_eq)
  then have "((k + n) mod 32 + m) mod 32 = (k + (m + n)) mod 32" by (simp only: ac_simps)
  with mn k show "bit (rotr_32 (rotr_32 x m) n) k = bit (rotr_32 x (m + n)) k" by (simp add: bit_rotr_32)
qed

lemma sha_Sigma:
  "sha_S0 x = rotr_32 x 2 XOR rotr_32 x 13 XOR rotr_32 x 22"
  "sha_S1 x = rotr_32 x 6 XOR rotr_32 x 11 XOR rotr_32 x 25"
  "sha_s0 x = rotr_32 x 7 XOR rotr_32 x 18 XOR drop_bit 3 x"
  "sha_s1 x = rotr_32 x 17 XOR rotr_32 x 19 XOR drop_bit 10 x"
  by (simp_all add: sha_S0_def sha_S1_def sha_s0_def sha_s1_def rotr_32_xor rotr_32_rotr_32 xor.assoc)

lemma sha_Ch_eq: "sha_Ch x y z = (x AND y) XOR (NOT x AND z)"
  by (rule bit_word_eqI) (auto simp: sha_Ch_def bit_simps)

lemma sha_Maj_eq: "sha_Maj x y z = (x AND y) XOR (x AND z) XOR (y AND z)"
proof -
  have "(x AND (y XOR z)) AND (y AND z) = 0" by (rule bit_word_eqI) (auto simp: bit_simps)
  then have "sha_Maj x y z = (x AND (y XOR z)) OR (y AND z)"
    unfolding sha_Maj_def by (rule disjunctive_add_eq_or)
  also have "\<dots> = (x AND y) XOR (x AND z) XOR (y AND z)" by (rule bit_word_eqI) (auto simp: bit_simps)
  finally show ?thesis .
qed

text \<open>The working variables in their order at round \<open>n\<close>, and one round.\<close>

definition sha_view :: "nat \<Rightarrow> u32 list \<Rightarrow> u32 list" where
  "sha_view n T = map (\<lambda>k. T ! sha_T k (n mod 16)) [0..<8]"

lemma list_8: "length T = 8 \<Longrightarrow> \<exists>a b c d e f g h. T = [a, b, c, d, e, f, g, h]"
  by (auto simp: numeral_eq_Suc length_Suc_conv)

lemma below_16: "(i :: nat) < 16 \<Longrightarrow> i \<in> {0, 1, 2, 3, 4, 5, 6, 7, 8, 9, 10, 11, 12, 13, 14, 15}"
  unfolding insert_iff empty_iff by presburger

lemma sha_R_view:
  assumes "length T = 8" and "i < 16"
  shows "sha_view (Suc i) (sha_R i j blk T) = fips_round (SHA256_K ! (i + j)) blk (sha_view i T)"
proof -
  obtain a b c d e f g h where T: "T = [a, b, c, d, e, f, g, h]" using list_8 [OF assms(1)] by blast
  from below_16 [OF assms(2)] show ?thesis
    unfolding T
    by (elim insertE emptyE; simp only:)
      (simp_all add: sha_view_def sha_R_def fips_round_def Let_def sha_T_def upt_rec sha_Sigma sha_Ch_eq
        sha_Maj_eq add.assoc)
qed

lemma length_sha_R [simp]: "length (sha_R i j blk T) = length T"
  by (simp add: sha_R_def Let_def)

text \<open>The state of the loop before round \<open>n\<close> of the 64.\<close>

definition sha_step :: "byte list \<Rightarrow> nat \<Rightarrow> u32 list \<times> u32 list \<Rightarrow> u32 list \<times> u32 list" where
  "sha_step data n = (if n < 16 then sha_R0 data n else sha_R2 (n div 16 * 16) (n mod 16))"

definition sha_ring :: "byte list \<Rightarrow> nat \<Rightarrow> u32 list \<Rightarrow> bool" where
  "sha_ring data n W \<longleftrightarrow> length W = 16 \<and> (\<forall>t. t < n \<and> n \<le> t + 16 \<longrightarrow> W ! (t mod 16) = fips_W data t)"

lemma sha_ring_write:
  assumes "sha_ring data n W" and "w = fips_W data n"
  shows "sha_ring data (Suc n) (W[n mod 16 := w])"
proof -
  have "W[n mod 16 := w] ! (t mod 16) = fips_W data t" if t: "t < Suc n" "Suc n \<le> t + 16" for t
  proof (cases "t = n")
    case True
    with assms show ?thesis by (simp add: sha_ring_def)
  next
    case False
    then have lt: "t < n" "n < t + 16" using t by simp_all
    have "t mod 16 \<noteq> n mod 16"
    proof
      assume "t mod 16 = n mod 16"
      then have "(n - t) mod 16 = 0" using lt(1) by (metis less_imp_le mod_eq_dvd_iff_nat mod_eq_0_iff_dvd)
      with lt show False by simp
    qed
    with assms(1) lt show ?thesis by (simp add: sha_ring_def)
  qed
  with assms(1) show ?thesis by (simp add: sha_ring_def)
qed

lemma sha_ring_read:
  assumes "sha_ring data n W" and "16 \<le> n" and "1 \<le> k" and "k \<le> 15"
  shows "W ! sha_W (n mod 16) k = fips_W data (n - k)"
proof -
  have "sha_W (n mod 16) k = (n - k) mod 16"
  proof -
    have n: "n = n div 16 * 16 + n mod 16" by simp
    have "n - k = (n div 16 - 1) * 16 + (n mod 16 + 16 - k)"
      using assms(2,4) by (subst (1) n) (simp add: diff_mult_distrib)
    then show ?thesis by (simp add: sha_W_def)
  qed
  with assms show ?thesis by (simp add: sha_ring_def)
qed

lemma sha_ring_read_0:
  "sha_ring data n W \<Longrightarrow> 16 \<le> n \<Longrightarrow> W ! (n mod 16) = fips_W data (n - 16)"
  by (auto simp: sha_ring_def le_mod_geq)

lemma sha_step_ok:
  assumes "sha_ring data n W" and "length T = 8" and "n < 64" and "sha_step data n (T, W) = (T', W')"
  shows "sha_ring data (Suc n) W' \<and> length T' = 8
    \<and> sha_view (Suc n) T' = fips_round (SHA256_K ! n) (fips_W data n) (sha_view n T)"
proof -
  have W': "W' = W[n mod 16 := fips_W data n]" and T': "T' = sha_R (n mod 16) (n div 16 * 16) (fips_W data n) T"
    if "n < 16"
    using that assms by (auto simp: sha_step_def sha_R0_def Let_def fips_W.simps sha_ring_def)
  have "W' = W[n mod 16 := fips_W data n] \<and> T' = sha_R (n mod 16) (n div 16 * 16) (fips_W data n) T"
  proof (cases "n < 16")
    case True
    with W' T' show ?thesis by blast
  next
    case False
    then have n16: "16 \<le> n" by simp
    have w: "W ! (n mod 16) + (sha_s1 (W ! sha_W (n mod 16) 2) + W ! sha_W (n mod 16) 7 + sha_s0 (W ! sha_W (n mod 16) 15))
        = fips_W data n"
      using n16 sha_ring_read [OF assms(1) n16, of 2] sha_ring_read [OF assms(1) n16, of 7]
        sha_ring_read [OF assms(1) n16, of 15] sha_ring_read_0 [OF assms(1) n16]
      by (subst fips_W.simps [of data n]) (simp add: sha_Sigma add.commute add.left_commute)
    show ?thesis
      using assms(1,4) False by (auto simp: sha_step_def sha_R2_def Let_def w sha_ring_def)
  qed
  moreover have "sha_view (Suc n) X = sha_view (Suc (n mod 16)) X" for X
    by (simp add: sha_view_def mod_Suc_eq)
  moreover have "sha_view n T = sha_view (n mod 16) T" by (simp add: sha_view_def)
  moreover have "n mod 16 + n div 16 * 16 = n" by simp
  ultimately show ?thesis
    using sha_ring_write [OF assms(1) refl] sha_R_view [OF assms(2), of "n mod 16" "n div 16 * 16" "fips_W data n"] assms(2)
    by simp
qed

lemma sha_fold_ok:
  assumes "length s = 8" and "n \<le> 64"
  shows "sha_ring data n (snd (fold (sha_step data) [0..<n] (s, replicate 16 0)))
    \<and> length (fst (fold (sha_step data) [0..<n] (s, replicate 16 0))) = 8
    \<and> sha_view n (fst (fold (sha_step data) [0..<n] (s, replicate 16 0)))
        = fold (\<lambda>t. fips_round (SHA256_K ! t) (fips_W data t)) [0..<n] s"
  using assms(2)
proof (induction n)
  case 0
  obtain a b c d e f g h where "s = [a, b, c, d, e, f, g, h]" using list_8 [OF assms(1)] by blast
  then show ?case by (simp add: sha_ring_def sha_view_def sha_T_def upt_rec)
next
  case (Suc n)
  obtain T W where TW: "fold (sha_step data) [0..<n] (s, replicate 16 0) = (T, W)" by fastforce
  obtain T' W' where TW': "sha_step data n (T, W) = (T', W')" by fastforce
  from Suc TW have "sha_ring data n W" "length T = 8"
      "sha_view n T = fold (\<lambda>t. fips_round (SHA256_K ! t) (fips_W data t)) [0..<n] s"
    by simp_all
  with sha_step_ok [OF _ _ _ TW'] Suc.prems show ?case by (simp add: TW TW')
qed

lemma sha_R2_steps:
  assumes "j = 16 * q" and "1 \<le> q"
  shows "fold (sha_R2 j) [0..<16] = fold (sha_step data) [j..<j + 16]"
proof -
  have "[j..<j + 16] = map (\<lambda>i. i + j) [0..<16]" by (simp add: map_add_upt add.commute)
  moreover have "sha_step data (i + j) = sha_R2 j i" if "i \<in> set [0..<16]" for i
    using that assms by (auto simp: sha_step_def mult.commute)
  ultimately show ?thesis by (simp add: fold_map comp_def) (intro ext fold_cong; simp)
qed

lemma upt_append_upt: "i \<le> j \<Longrightarrow> j \<le> k \<Longrightarrow> [i..<j] @ [j..<k] = [i..<k]"
  by (metis le_Suc_ex upt_add_eq_append)

lemma transform_eq:
  assumes "length s = 8"
  shows "transform s data = fips_compress s data"
proof -
  let ?TW0 = "(s, replicate 16 0)"
  have "fold (sha_R0 data) [0..<16] = fold (sha_step data) [0..<16]"
    by (intro ext fold_cong) (auto simp: sha_step_def)
  then have "fold (\<lambda>j. fold (sha_R2 j) [0..<16]) [16, 32, 48] (fold (sha_R0 data) [0..<16] ?TW0)
      = fold (sha_step data) ([0..<16] @ [16..<32] @ [32..<48] @ [48..<64]) ?TW0"
    using sha_R2_steps [of 16 1 data] sha_R2_steps [of 32 2 data] sha_R2_steps [of 48 3 data] by simp
  also have "[0..<16] @ [16..<32] @ [32..<48] @ [48..<64] = [0..<64 :: nat]"
    by (simp only: upt_append_upt order.refl numeral_le_iff le_num_simps semiring_norm zero_le_numeral)
  finally show ?thesis
    using sha_fold_ok [OF assms, of 64 data]
    by (simp add: transform_def fips_compress_def sha_view_def Let_def)
qed

section \<open>The hash of a message in pieces\<close>

abbreviation sha_H0 :: "u32 list" where
  "sha_H0 \<equiv> [0x6A09E667, 0xBB67AE85, 0x3C6EF372, 0xA54FF53A, 0x510E527F, 0x9B05688C, 0x1F83D9AB, 0x5BE0CD19]"

lemma fips_blocks_append:
  "64 dvd length xs \<Longrightarrow> fips_blocks s (xs @ ys) = fips_blocks (fips_blocks s xs) ys"
proof (induction s xs rule: fips_blocks.induct)
  case (1 s xs)
  show ?case
  proof (cases "length xs < 64")
    case True
    with 1 have "xs = []" by (auto dest: dvd_imp_le)
    then show ?thesis by (simp add: fips_blocks.simps [of s "[]"])
  next
    case False
    then have "64 dvd length (drop 64 xs)" using 1(2) by (simp add: dvd_diff_nat)
    with 1(1) False show ?thesis
      by (simp add: fips_blocks.simps [of s "xs @ ys"] fips_blocks.simps [of s xs])
  qed
qed

lemma fips_blocks_one: "length xs = 64 \<Longrightarrow> fips_blocks s xs = fips_compress s xs"
  by (subst fips_blocks.simps) (simp add: fips_blocks.simps [of _ "[]"])

lemma length_fips_round [simp]: "length (fips_round k w s) = 8"
  by (simp add: fips_round_def Let_def)

lemma length_fips_compress: "length s = 8 \<Longrightarrow> length (fips_compress s b) = 8"
proof -
  have "length (fold (\<lambda>t. fips_round (SHA256_K ! t) (fips_W b t)) ts s) = 8" if "length s = 8" for s ts
    using that by (induction ts arbitrary: s) simp_all
  then show "length s = 8 \<Longrightarrow> length (fips_compress s b) = 8" by (simp add: fips_compress_def)
qed

lemma length_fips_blocks: "length s = 8 \<Longrightarrow> length (fips_blocks s m) = 8"
  by (induction s m rule: fips_blocks.induct) (subst fips_blocks.simps, simp add: length_fips_compress)

text \<open>
  The state after the message \<open>m\<close>: whole blocks \<open>done\<close> have been compressed and the first
  \<open>p\<close> bytes of the buffer hold the rest.
\<close>

definition sha_holds :: "lzma_check_state \<Rightarrow> byte list \<Rightarrow> nat \<Rightarrow> bool" where
  "sha_holds check m p \<longleftrightarrow> length (check_buffer check) = 64 \<and> p \<le> 64
     \<and> (\<exists>blocks. m = blocks @ take p (check_buffer check) \<and> 64 dvd length blocks
          \<and> sha_state check = fips_blocks sha_H0 blocks)"

lemma sha_holds_append:
  assumes "sha_holds check m p" and "p + length xs \<le> 64"
  shows "sha_holds (check\<lparr>check_buffer := memcpy (check_buffer check) p xs\<rparr>) (m @ xs) (p + length xs)"
proof -
  have "take (p + length xs) (memcpy (check_buffer check) p xs) = take p (check_buffer check) @ xs"
    using assms by (cases xs) (auto simp: sha_holds_def memcpy_def min_def)
  with assms show ?thesis by (auto simp: sha_holds_def)
qed

lemma sha_holds_process:
  assumes "sha_holds check m 64"
  shows "sha_holds (process check) m 0"
proof -
  from assms obtain blocks where b: "m = blocks @ take 64 (check_buffer check)" "64 dvd length blocks"
    "sha_state check = fips_blocks sha_H0 blocks" and len: "length (check_buffer check) = 64"
    by (auto simp: sha_holds_def)
  have "length (sha_state check) = 8" by (simp add: b(3) length_fips_blocks)
  then have "sha_state (process check) = fips_blocks sha_H0 m"
    using b len by (simp add: process_def transform_eq fips_blocks_append fips_blocks_one)
  moreover have "check_buffer (process check) = check_buffer check" by (simp add: process_def)
  moreover have "64 dvd length m" using b len by simp
  ultimately show ?thesis using len by (auto simp: sha_holds_def)
qed

lemma sha_holds_mod: "sha_holds check m p \<Longrightarrow> length m mod 64 = p mod 64"
  by (auto simp: sha_holds_def mod_add_left_eq min_def elim!: dvdE)

lemma sha_holds_size [simp]: "sha_holds (check\<lparr>sha_size := n\<rparr>) m p = sha_holds check m p"
  by (simp add: sha_holds_def)

definition sha_after :: "lzma_check_state \<Rightarrow> byte list \<Rightarrow> bool" where
  "sha_after check m \<longleftrightarrow> sha_holds check m (length m mod 64) \<and> sha_size check = of_nat (length m)"

lemma sha_after_init: "length (check_buffer check) = 64 \<Longrightarrow> sha_after (lzma_sha256_init check) []"
  by (simp add: sha_after_def sha_holds_def lzma_sha256_init_def fips_blocks.simps [of _ "[]"])

lemma sha_size_mod: "unat (of_nat n AND 0x3F :: u64) = n mod 64"
proof -
  have "unat (of_nat n :: u64) = n mod 2 ^ 64" by (simp add: unsigned_of_nat take_bit_eq_mod)
  then show ?thesis by (simp add: unat_and_3F mod_mod_cancel)
qed

lemma sha_after_update: "sha_after check m \<Longrightarrow> sha_after (lzma_sha256_update buf check) (m @ buf)"
proof (induction buf check arbitrary: m rule: lzma_sha256_update.induct)
  case (1 buf check)
  show ?case
  proof (cases "buf = []")
    case True
    with 1(2) show ?thesis by (simp add: lzma_sha256_update.simps)
  next
    case False
    define cs where "cs = length m mod 64"
    define k where "k = min (64 - cs) (length buf)"
    define c1 where "c1 = check\<lparr>check_buffer := memcpy (check_buffer check) cs (take k buf),
                             sha_size := of_nat (length m) + of_nat k\<rparr>"
    define c2 where "c2 = (if sha_size c1 AND 0x3F = 0 then process c1 else c1)"
    have size: "sha_size check = of_nat (length m)" and holds: "sha_holds check m cs"
      using 1(2) by (simp_all add: sha_after_def cs_def)
    have step: "lzma_sha256_update buf check = lzma_sha256_update (drop k buf) c2"
      using False by (subst lzma_sha256_update.simps)
        (simp only: Let_def size sha_size_mod cs_def [symmetric] k_def [symmetric] c1_def [symmetric]
          c2_def [symmetric] if_False)
    have len: "length (take k buf) = k" by (simp add: k_def)
    have bound: "cs + length (take k buf) \<le> 64" by (simp add: k_def cs_def less_imp_le)
    have c1: "sha_holds c1 (m @ take k buf) (cs + k)" "sha_size c1 = of_nat (length (m @ take k buf))"
      using sha_holds_append [OF holds, of "take k buf"] bound len by (simp_all add: c1_def)
    have "sha_size c1 AND 0x3F = 0 \<longleftrightarrow> (cs + k) mod 64 = 0"
      using sha_size_mod [of "length (m @ take k buf)"] sha_holds_mod [OF c1(1)] c1(2)
      by (metis unsigned_0 unsigned_eq_0_iff)
    moreover have "cs < 64" "cs + k \<le> 64" "0 < k" using False by (simp_all add: cs_def k_def)
    moreover have "length (m @ take k buf) mod 64 = (cs + k) mod 64" by (rule sha_holds_mod [OF c1(1)])
    ultimately have "sha_after c2 (m @ take k buf)"
      using c1 sha_holds_process [of c1]
      by (cases "cs + k = 64") (auto simp: c2_def sha_after_def process_def)
    then have "sha_after (lzma_sha256_update (drop k buf) c2) ((m @ take k buf) @ drop k buf)"
      using 1(1) [OF False refl refl refl refl, of "m @ take k buf"]
      by (simp only: size sha_size_mod cs_def [symmetric] k_def [symmetric] c1_def [symmetric] c2_def [symmetric])
    then show ?thesis by (simp add: step)
  qed
qed

lemma sha_holds_byte:
  assumes "sha_holds check m p" and "p < 64"
  shows "sha_holds (check\<lparr>check_buffer := (check_buffer check)[p := b]\<rparr>) (m @ [b]) (Suc p)"
  using sha_holds_append [OF assms(1), of "[b]"] assms by (simp add: memcpy_single sha_holds_def)

text \<open>One turn of the padding loop.\<close>

lemma sha_pad_loop_step:
  assumes "sha_holds check m p" and "1 \<le> p" and "p \<le> 64" and "p \<noteq> 56"
  obtains q c2 where "sha_pad_loop p check = sha_pad_loop (Suc q) c2" "sha_holds c2 (m @ [0]) (Suc q)"
    "sha_size c2 = sha_size check" "q = (if p = 64 then 0 else p)"
proof -
  define c1 where "c1 = (if p = 64 then process check else check)"
  define q where "q = (if p = 64 then 0 else p)"
  define c2 where "c2 = c1\<lparr>check_buffer := (check_buffer c1)[q := 0]\<rparr>"
  have "sha_pad_loop p check = sha_pad_loop (Suc q) c2"
    using assms(3,4) by (subst sha_pad_loop.simps) (simp add: c1_def q_def c2_def)
  moreover have "sha_holds c1 m q" using assms(1) sha_holds_process [of check m] by (auto simp: c1_def q_def)
  then have "sha_holds c2 (m @ [0]) (Suc q)"
    using sha_holds_byte [of c1 m q 0] assms(3) by (auto simp: c2_def q_def)
  moreover have "sha_size c2 = sha_size check" by (simp add: c2_def c1_def process_def)
  ultimately show thesis using that q_def by blast
qed

definition pad_count :: "nat \<Rightarrow> nat" where
  "pad_count p = (if p \<le> 56 then 56 - p else 120 - p)"

lemma sha_pad_loop_holds:
  "sha_holds check m p \<Longrightarrow> 1 \<le> p \<Longrightarrow> p \<le> 64 \<Longrightarrow>
   sha_holds (sha_pad_loop p check) (m @ replicate (pad_count p) 0) 56
   \<and> sha_size (sha_pad_loop p check) = sha_size check"
proof (induction "pad_count p" arbitrary: p check m)
  case 0
  then have "p = 56" by (simp add: pad_count_def split: if_splits)
  with 0 show ?case by (subst (1 2) sha_pad_loop.simps) (simp add: pad_count_def)
next
  case (Suc n)
  then have "p \<noteq> 56" by (auto simp: pad_count_def)
  from sha_pad_loop_step [OF Suc.prems this] obtain q c2 where
    step: "sha_pad_loop p check = sha_pad_loop (Suc q) c2" and h: "sha_holds c2 (m @ [0]) (Suc q)"
    and size: "sha_size c2 = sha_size check" and q: "q = (if p = 64 then 0 else p)" by blast
  have n: "n = pad_count (Suc q)" using Suc(2) Suc.prems \<open>p \<noteq> 56\<close> by (auto simp: pad_count_def q split: if_splits)
  have "Suc q \<le> 64" using Suc.prems by (simp add: q)
  from Suc(1) [OF n h _ this] have "sha_holds (sha_pad_loop (Suc q) c2) ((m @ [0]) @ replicate n 0) 56
      \<and> sha_size (sha_pad_loop (Suc q) c2) = sha_size c2" by (simp add: n)
  moreover have "pad_count p = Suc n" using Suc(2) by simp
  ultimately show ?case by (simp add: step size)
qed

lemma length_bytes32be: "length (bytes32be w) = 4"
  by (simp add: bytes32be_def)

lemma fold_memcpy_words:
  assumes "4 * length ws \<le> length b"
  shows "fold (\<lambda>i b. memcpy b (4 * i) (bytes32be (ws ! i))) [0..<length ws] b
    = concat (map bytes32be ws) @ drop (4 * length ws) b"
  using assms
proof (induction ws rule: rev_induct)
  case (snoc w ws)
  have len: "length (concat (map bytes32be ws)) = 4 * length ws"
    by (induction ws) (simp_all add: bytes32be_def)
  have "fold (\<lambda>i b. memcpy b (4 * i) (bytes32be ((ws @ [w]) ! i))) [0..<length ws] b
      = fold (\<lambda>i b. memcpy b (4 * i) (bytes32be (ws ! i))) [0..<length ws] b"
    by (intro fold_cong) (auto simp: nth_append)
  with snoc len show ?case
    by (simp add: memcpy_def length_bytes32be add.commute)
qed simp

lemma lzma_sha256_finish_spec:
  assumes "sha_after check m"
  shows "take 32 (check_buffer (lzma_sha256_finish check)) = sha256_spec m"
proof -
  define r where "r = length m mod 64"
  have size: "sha_size check = of_nat (length m)" and holds: "sha_holds check m r" and r: "r < 64"
    using assms by (simp_all add: sha_after_def r_def)
  define c1 where "c1 = check\<lparr>check_buffer := (check_buffer check)[r := 0x80]\<rparr>"
  define c2 where "c2 = sha_pad_loop (Suc r) c1"
  define c3 where "c3 = c2\<lparr>sha_size := sha_size c2 * 8\<rparr>"
  define c4 where "c4 = c3\<lparr>check_buffer := memcpy (check_buffer c3) (64 - 8) (bytes64be (sha_size c3))\<rparr>"
  define c5 where "c5 = process c4"
  have "sha_holds c1 (m @ [0x80]) (Suc r)" unfolding c1_def by (rule sha_holds_byte [OF holds r])
  from sha_pad_loop_holds [OF this] r
  have c2: "sha_holds c2 ((m @ [0x80]) @ replicate (pad_count (Suc r)) 0) 56"
    and "sha_size c2 = sha_size c1" by (simp_all add: c2_def)
  then have size3: "sha_size c3 = of_nat (8 * length m)" by (simp add: c3_def c1_def size mult.commute)
  have z: "pad_count (Suc r) = (119 - length m mod 64) mod 64"
    using r unfolding r_def [symmetric] pad_count_def by (cases "r \<le> 55") (simp_all add: le_mod_geq)
  have len: "length (bytes64be w) = 8" for w by (simp add: bytes64be_def)
  have "sha_holds c3 ((m @ [0x80]) @ replicate ((119 - length m mod 64) mod 64) 0) 56"
    using c2 unfolding z by (simp add: c3_def)
  from sha_holds_append [OF this, of "bytes64be (of_nat (8 * length m))"]
  have "sha_holds c4 (fips_pad m) 64" by (simp add: len c4_def size3 fips_pad_def)
  from sha_holds_process [OF this] have c5: "sha_state c5 = fips_blocks sha_H0 (fips_pad m)"
      "length (check_buffer c5) = 64"
    by (auto simp: sha_holds_def c5_def)
  have "length (sha_state c5) = 8" by (simp add: c5 length_fips_blocks)
  moreover have "length (concat (map bytes32be ws)) = 4 * length ws" for ws
    by (induction ws) (simp_all add: bytes32be_def)
  moreover have "lzma_sha256_finish check = c5\<lparr>check_buffer :=
      fold (\<lambda>i b. memcpy b (4 * i) (bytes32be (sha_state c5 ! i))) [0..<8] (check_buffer c5)\<rparr>"
    unfolding lzma_sha256_finish_def Let_def size sha_size_mod r_def [symmetric] c1_def [symmetric]
      c2_def [symmetric] c3_def [symmetric] c4_def [symmetric] c5_def [symmetric] ..
  ultimately show ?thesis
    using fold_memcpy_words [of "sha_state c5" "check_buffer c5"] c5 by (simp add: sha256_spec_def)
qed

section \<open>Properties\<close>

text \<open>The value of a supported check, from the reference definitions.\<close>

definition check_spec :: "u32 \<Rightarrow> byte list \<Rightarrow> byte list" where
  "check_spec type m =
     (if type = LZMA_CHECK_CRC32 then bytes32le (crc_ref poly32 m 0)
      else if type = LZMA_CHECK_CRC64 then bytes64le (crc_ref poly64 m 0)
      else if type = LZMA_CHECK_SHA256 then sha256_spec m
      else [])"

lemma sha_after_pieces: "sha_after check m \<Longrightarrow> sha_after (fold lzma_sha256_update pieces check) (m @ concat pieces)"
proof (induction pieces arbitrary: check m)
  case (Cons a pieces)
  from Cons.IH [OF sha_after_update [OF Cons.prems, of a]] show ?case by simp
qed simp

lemmas check_ids = LZMA_CHECK_NONE_def LZMA_CHECK_CRC32_def LZMA_CHECK_CRC64_def LZMA_CHECK_SHA256_def

lemma check_pieces_crc32:
  "state_crc32 (fold (\<lambda>(addr, piece). lzma_check_update LZMA_CHECK_CRC32 addr piece) pieces check)
     = crc_ref poly32 (concat (map snd pieces)) (state_crc32 check)
   \<and> check_buffer (fold (\<lambda>(addr, piece). lzma_check_update LZMA_CHECK_CRC32 addr piece) pieces check) = check_buffer check"
proof (induction pieces arbitrary: check)
  case Nil
  then show ?case by (simp add: crc_ref_def)
next
  case (Cons p pieces)
  then show ?case
    by (cases p) (simp add: lzma_check_update_def check_ids crc_ref_append lzma_crc32_def lzma_crc32_generic_eq)
qed

lemma check_pieces_crc64:
  "state_crc64 (fold (\<lambda>(addr, piece). lzma_check_update LZMA_CHECK_CRC64 addr piece) pieces check)
     = crc_ref poly64 (concat (map snd pieces)) (state_crc64 check)
   \<and> check_buffer (fold (\<lambda>(addr, piece). lzma_check_update LZMA_CHECK_CRC64 addr piece) pieces check) = check_buffer check"
proof (induction pieces arbitrary: check)
  case Nil
  then show ?case by (simp add: crc_ref_def)
next
  case (Cons p pieces)
  then show ?case
    by (cases p) (simp add: lzma_check_update_def check_ids crc_ref_append lzma_crc64_def lzma_crc64_generic_eq)
qed

lemma check_pieces_sha256:
  "fold (\<lambda>(addr, piece). lzma_check_update LZMA_CHECK_SHA256 addr piece) pieces check
     = fold lzma_sha256_update (map snd pieces) check"
  by (induction pieces arbitrary: check) (auto simp: lzma_check_update_def check_ids)

text \<open>
  C33: The integrity checks compute what they are named after. For each of CRC32, CRC64 and
  SHA-256, initialising a check, feeding it a message in any pieces at any addresses and
  finishing it leaves in the first \<open>lzma_check_size\<close> bytes of the buffer the check of the
  whole message: the bitwise CRC in little-endian order, or the SHA-256 of FIPS 180-4.
\<close>

theorem lzma_check_computes:
  assumes "type \<in> {LZMA_CHECK_CRC32, LZMA_CHECK_CRC64, LZMA_CHECK_SHA256}"
    and "length (check_buffer check) = 64"
  shows "take (unat (lzma_check_size type)) (check_buffer (lzma_check_finish type
      (fold (\<lambda>(addr, piece). lzma_check_update type addr piece) pieces (lzma_check_init type check))))
    = check_spec type (concat (map snd pieces)) \<and> lzma_check_is_supported type"
proof -
  consider "type = LZMA_CHECK_CRC32" | "type = LZMA_CHECK_CRC64" | "type = LZMA_CHECK_SHA256"
    using assms(1) by blast
  then show ?thesis
  proof cases
    case 1
    have "length (bytes32le w) = 4" for w by (simp add: bytes32le_def)
    with check_pieces_crc32 [of pieces "lzma_check_init LZMA_CHECK_CRC32 check"] assms(2) 1 show ?thesis
      by (simp add: lzma_check_finish_def check_spec_def lzma_check_init_def lzma_check_size_def
          lzma_check_is_supported_def check_ids memcpy_def)
  next
    case 2
    have "length (bytes64le w) = 8" for w by (simp add: bytes64le_def)
    with check_pieces_crc64 [of pieces "lzma_check_init LZMA_CHECK_CRC64 check"] assms(2) 2 show ?thesis
      by (simp add: lzma_check_finish_def check_spec_def lzma_check_init_def lzma_check_size_def
          lzma_check_is_supported_def check_ids memcpy_def)
  next
    case 3
    from sha_after_pieces [OF sha_after_init [OF assms(2)], of "map snd pieces"]
    have "sha_after (fold lzma_sha256_update (map snd pieces) (lzma_sha256_init check)) (concat (map snd pieces))"
      by simp
    from lzma_sha256_finish_spec [OF this] 3 check_pieces_sha256 [of pieces "lzma_sha256_init check"] show ?thesis
      by (simp add: lzma_check_finish_def check_spec_def lzma_check_init_def lzma_check_size_def
          lzma_check_is_supported_def check_ids)
  qed
qed

theorem lzma_check_computes_witness:
  "let check = \<lparr>check_buffer = replicate 64 7, state_crc32 = 1, state_crc64 = 2, sha_state = [], sha_size = 5\<rparr>
   in take 32 (check_buffer (lzma_check_finish LZMA_CHECK_SHA256 (fold (\<lambda>(addr, piece).
        lzma_check_update LZMA_CHECK_SHA256 addr piece) [(3, [0x61]), (8, [0x62, 0x63])]
        (lzma_check_init LZMA_CHECK_SHA256 check)))) = sha256_spec [0x61, 0x62, 0x63]"
  using lzma_check_computes [of LZMA_CHECK_SHA256 "\<lparr>check_buffer = replicate 64 7, state_crc32 = 1,
      state_crc64 = 2, sha_state = [], sha_size = 5\<rparr>" "[(3, [0x61]), (8, [0x62, 0x63])]"]
  by (simp add: check_spec_def lzma_check_size_def check_ids)

end
