(* ===== verification/Bela_Base.thy ===== *)
theory Bela_Base
  imports Prelude "HOL-Library.Monad_Syntax"
begin

text \<open>
  Vocabulary of the C++ part of the program. A \<^verbatim>\<open>wchar_t\<close> is a 16-bit code unit, a
  \<^verbatim>\<open>std::wstring_view\<close> the list of its code units and a \<^verbatim>\<open>std::string_view\<close> a list of bytes;
  the functions that are templates over the character type are modelled over an arbitrary
  word length. A read outside a buffer, or a signed overflow, is undefined behaviour in
  C++: the operations that can get there return \<open>None\<close> in that case, and a result \<open>Some x\<close>
  says that the code is defined on that input and computes \<open>x\<close>.
\<close>

type_synonym wchar = "16 word"
type_synonym wstr = "wchar list"

text \<open>String literals of the sources, at the width of the character type.\<close>

definition lit :: "string \<Rightarrow> 'a::len word list" where
  "lit s = map of_char s"

definition ch :: "char \<Rightarrow> 'a::len word" where
  "ch c = of_char c"

lemma lit_simps [simp]: "lit [] = []" "lit (c # s) = ch c # lit s"
  by (simp_all add: lit_def ch_def)

lemma length_lit [simp]: "length (lit s) = length s"
  by (simp add: lit_def)

section \<open>Searching\<close>

text \<open>\<^verbatim>\<open>find\<close> and \<^verbatim>\<open>find_first_of\<close> of a string view from a position; \<open>npos\<close> is \<open>None\<close>.\<close>

function find_from :: "('a \<Rightarrow> bool) \<Rightarrow> 'a list \<Rightarrow> nat \<Rightarrow> nat option" where
  "find_from P s i = (if i < length s then if P (s ! i) then Some i else find_from P s (Suc i) else None)"
  by pat_completeness auto
termination
  by (relation "measure (\<lambda>(P, s, i). length s - i)") auto

declare find_from.simps [simp del]

lemma find_from_drop:
  "find_from P s i = (if i < length s \<and> (\<exists>x\<in>set (drop i s). P x)
     then Some (i + length (takeWhile (\<lambda>x. \<not> P x) (drop i s))) else None)"
proof (induction P s i rule: find_from.induct)
  case (1 P s i)
  show ?case
  proof (cases "i < length s")
    case True
    then have "drop i s = s ! i # drop (Suc i) s" by (simp add: Cons_nth_drop_Suc)
    note d = this
    show ?thesis
    proof (cases "P (s ! i)")
      case True
      with d \<open>i < length s\<close> show ?thesis by (simp add: find_from.simps [of P s i])
    next
      case False
      with \<open>i < length s\<close> have "find_from P s i = find_from P s (Suc i)" by (simp add: find_from.simps [of P s i])
      also have "\<dots> = (if Suc i < length s \<and> (\<exists>x\<in>set (drop (Suc i) s). P x)
         then Some (Suc i + length (takeWhile (\<lambda>x. \<not> P x) (drop (Suc i) s))) else None)"
        using 1 \<open>i < length s\<close> False by blast
      finally show ?thesis using d False \<open>i < length s\<close> by (cases "Suc i < length s") simp_all
    qed
  qed (simp add: find_from.simps)
qed

lemma find_from_None_iff: "find_from P s i = None \<longleftrightarrow> (\<forall>x\<in>set (drop i s). \<not> P x)"
  by (auto simp: find_from_drop)

lemma find_from_SomeD:
  assumes "find_from P s i = Some j"
  shows "i \<le> j \<and> j < length s \<and> P (s ! j) \<and> (\<forall>x\<in>set (take (j - i) (drop i s)). \<not> P x)"
  using assms
proof (induction P s i rule: find_from.induct)
  case (1 P s i)
  show ?case
  proof (cases "i < length s \<and> \<not> P (s ! i)")
    case True
    have "find_from P s (Suc i) = Some j" using "1.prems" True by (simp add: find_from.simps [of P s i])
    with 1 True have IH: "Suc i \<le> j \<and> j < length s \<and> P (s ! j) \<and> (\<forall>x\<in>set (take (j - Suc i) (drop (Suc i) s)). \<not> P x)"
      by blast
    then have "j - i = Suc (j - Suc i)" by arith
    moreover have "drop i s = s ! i # drop (Suc i) s" using True by (simp add: Cons_nth_drop_Suc)
    ultimately have "take (j - i) (drop i s) = s ! i # take (j - Suc i) (drop (Suc i) s)" by simp
    with IH True show ?thesis by simp
  next
    case False
    with "1.prems" show ?thesis by (subst (asm) find_from.simps) (auto split: if_splits)
  qed
qed

lemma find_from_first:
  assumes "\<forall>x\<in>set xs. \<not> P x" and "P y"
  shows "find_from P (xs @ y # ys) 0 = Some (length xs)"
  using assms by (auto simp: find_from_drop takeWhile_append2)

end
