(* ===== verification/Bela_Codecvt.thy ===== *)
theory Bela_Codecvt
  imports Bela_Base
begin

text \<open>
  The conversions between UTF-8 and UTF-16 of \<^verbatim>\<open>vendor/bela/include/bela/codecvt.hpp\<close>. Text
  that is well formed survives the way to UTF-8 and back. The decoder checks neither the
  continuation bytes nor that an encoding is the shortest one; what that means for path
  names is stated in the theory of paths.
\<close>

section \<open>The conversions\<close>

definition trailing_bytes_from_utf8 :: "byte \<Rightarrow> nat" where
  "trailing_bytes_from_utf8 b =
     (replicate 192 0 @ replicate 32 1 @ replicate 16 2 @ replicate 8 3 @ replicate 4 4 @ replicate 4 5) ! unat b"

definition offset_from_utf8 :: "u32 list" where
  "offset_from_utf8 = [0x00000000, 0x00003080, 0x000E2080, 0x03C82080, 0xFA082080, 0x82082080]"

definition decode_rune :: "byte list \<Rightarrow> nat \<Rightarrow> u32" where
  "decode_rune it nbytes =
     fold (\<lambda>b ch. push_bit 6 (ch + ucast b)) (take nbytes it) 0 + ucast (it ! nbytes) - offset_from_utf8 ! nbytes"

text \<open>From UTF-8 to UTF-16.\<close>

function encode_into_16 :: "byte list \<Rightarrow> wstr" where
  "encode_into_16 it =
     (if it = [] then []
      else let nb = trailing_bytes_from_utf8 (it ! 0) in
        if nb \<ge> length it then []
        else let rune = decode_rune it nb; rest = encode_into_16 (drop (nb + 1) it) in
          if rune \<le> 0xFFFF then
            (if rune \<ge> 0xD800 \<and> rune \<le> 0xDBFF then 0xFFFD # rest else ucast rune # rest)
          else if rune > 0x10FFFF then 0xFFFD # rest
          else let rune = rune - 0x10000
               in ucast (drop_bit 10 rune + 0xD800) # ucast ((rune AND 0x3FF) + 0xDC00) # rest)"
  by pat_completeness auto
termination
  by (relation "measure length") auto

text \<open>The bytes of one code point; nothing for values beyond U+10FFFF.\<close>

definition rune_bytes :: "u32 \<Rightarrow> byte list" where
  "rune_bytes rune =
     (if rune \<le> 0x7F then [ucast rune]
      else if rune \<le> 0x7FF then [ucast (0xC0 OR (drop_bit 6 rune AND 0x1F)), ucast (0x80 OR (rune AND 0x3F))]
      else if rune \<le> 0xFFFF
      then [ucast (0xE0 OR (drop_bit 12 rune AND 0x0F)), ucast (0x80 OR (drop_bit 6 rune AND 0x3F)),
            ucast (0x80 OR (rune AND 0x3F))]
      else if rune \<le> 0x10FFFF
      then [ucast (0xF0 OR (drop_bit 18 rune AND 0x07)), ucast (0x80 OR (drop_bit 12 rune AND 0x3F)),
            ucast (0x80 OR (drop_bit 6 rune AND 0x3F)), ucast (0x80 OR (rune AND 0x3F))]
      else [])"

text \<open>From UTF-16 to UTF-8; an unpaired high surrogate ends the conversion.\<close>

fun encode_into_8 :: "wstr \<Rightarrow> byte list" where
  "encode_into_8 [] = []"
| "encode_into_8 (c # it) =
     (if c \<ge> 0xD800 \<and> c \<le> 0xDBFF then
        (case it of
           [] \<Rightarrow> []
         | c2 # it' \<Rightarrow>
             if c2 < 0xDC00 \<or> c2 > 0xDFFF then []
             else rune_bytes (push_bit 10 (ucast c - 0xD800) + (ucast c2 - 0xDC00) + 0x10000) @ encode_into_8 it')
      else rune_bytes (ucast c) @ encode_into_8 it)"

declare encode_into_16.simps [simp del]

section \<open>One code point\<close>

lemma disjoint_add: "(a :: u32) AND b = 0 \<Longrightarrow> a OR b = a + b"
  by (simp add: disjunctive_add_eq_or)

lemma and_masks:
  "(x :: u32) AND 0x1F = take_bit 5 x" "x AND 0x0F = take_bit 4 x" "x AND 0x07 = take_bit 3 x"
  "x AND 0x3F = take_bit 6 x" "x AND 0x3FF = take_bit 10 x"
  by (simp_all add: take_bit_eq_mask mask_eq_exp_minus_1)

lemma u32_disjoint: "(\<And>n. n < 32 \<Longrightarrow> \<not> (bit a n \<and> bit b n)) \<Longrightarrow> (a :: u32) AND b = 0"
  by (rule bit_word_eqI) (simp add: bit_and_iff)

lemma tagged_byte:
  "ucast (ucast (0xC0 OR take_bit 5 (x :: u32)) :: byte) = 0xC0 + take_bit 5 x"
  "ucast (ucast (0xE0 OR take_bit 4 x) :: byte) = 0xE0 + take_bit 4 x"
  "ucast (ucast (0xF0 OR take_bit 3 x) :: byte) = 0xF0 + take_bit 3 x"
  "ucast (ucast (0x80 OR take_bit 6 x) :: byte) = 0x80 + take_bit 6 x"
proof -
  have "0xC0 AND take_bit 5 x = 0" "0xE0 AND take_bit 4 x = 0" "0xF0 AND take_bit 3 x = 0"
    "0x80 AND take_bit 6 x = 0"
    by (simp_all add: u32_bits bit_simps)
  note add = this [THEN disjoint_add]
  show "ucast (ucast (0xC0 OR take_bit 5 x) :: byte) = 0xC0 + take_bit 5 x"
    by (simp add: u32_bits bit_simps flip: add)
  show "ucast (ucast (0xE0 OR take_bit 4 x) :: byte) = 0xE0 + take_bit 4 x"
    by (simp add: u32_bits bit_simps flip: add)
  show "ucast (ucast (0xF0 OR take_bit 3 x) :: byte) = 0xF0 + take_bit 3 x"
    by (simp add: u32_bits bit_simps flip: add)
  show "ucast (ucast (0x80 OR take_bit 6 x) :: byte) = 0x80 + take_bit 6 x"
    by (simp add: u32_bits bit_simps flip: add)
qed

lemma six_bit_join:
  "push_bit 6 (take_bit a (drop_bit (n + 6) x)) + take_bit 6 (drop_bit n (x :: u32)) = take_bit (a + 6) (drop_bit n x)"
proof -
  have "push_bit 6 (take_bit a (drop_bit (n + 6) x)) AND take_bit 6 (drop_bit n x) = 0"
    by (rule u32_disjoint) (auto simp: bit_simps)
  from disjoint_add [OF this, symmetric] show ?thesis
    by simp (rule bit_word_eqI, auto simp: bit_simps add.commute add.left_commute dest: bit_imp_le_length)
qed

lemma take_bit_small: "unat (x :: u32) < 2 ^ n \<Longrightarrow> take_bit n x = x"
  by (simp add: word_unat_eq_iff unsigned_take_bit_eq take_bit_nat_eq_self)

lemma trailing_bytes:
  "b < 0xC0 \<Longrightarrow> trailing_bytes_from_utf8 b = 0"
  "0xC0 \<le> b \<Longrightarrow> b < 0xE0 \<Longrightarrow> trailing_bytes_from_utf8 b = 1"
  "0xE0 \<le> b \<Longrightarrow> b < 0xF0 \<Longrightarrow> trailing_bytes_from_utf8 b = 2"
  "0xF0 \<le> b \<Longrightarrow> b < 0xF8 \<Longrightarrow> trailing_bytes_from_utf8 b = 3"
  by (auto simp: trailing_bytes_from_utf8_def nth_append word_le_nat_alt word_less_nat_alt)

lemma lead_byte_range:
  "0xC0 \<le> (ucast (0xC0 OR take_bit 5 (x :: u32)) :: byte) \<and> (ucast (0xC0 OR take_bit 5 x) :: byte) < 0xE0"
  "0xE0 \<le> (ucast (0xE0 OR take_bit 4 x) :: byte) \<and> (ucast (0xE0 OR take_bit 4 x) :: byte) < 0xF0"
  "0xF0 \<le> (ucast (0xF0 OR take_bit 3 x) :: byte) \<and> (ucast (0xF0 OR take_bit 3 x) :: byte) < 0xF8"
proof -
  have u: "unat (b :: byte) = unat (ucast b :: u32)" for b by (simp add: unat_ucast_up)
  have t: "unat (take_bit k x) < 2 ^ k" for k
    by (simp add: unsigned_take_bit_eq take_bit_nat_less_exp)
  have "unat (0xC0 + take_bit 5 x) = 0xC0 + unat (take_bit 5 x)"
    "unat (0xE0 + take_bit 4 x) = 0xE0 + unat (take_bit 4 x)"
    "unat (0xF0 + take_bit 3 x) = 0xF0 + unat (take_bit 3 x)"
    using t [of 5] t [of 4] t [of 3] by (simp_all add: unat_word_ariths)
  then show "0xC0 \<le> (ucast (0xC0 OR take_bit 5 x) :: byte) \<and> (ucast (0xC0 OR take_bit 5 x) :: byte) < 0xE0"
    "0xE0 \<le> (ucast (0xE0 OR take_bit 4 x) :: byte) \<and> (ucast (0xE0 OR take_bit 4 x) :: byte) < 0xF0"
    "0xF0 \<le> (ucast (0xF0 OR take_bit 3 x) :: byte) \<and> (ucast (0xF0 OR take_bit 3 x) :: byte) < 0xF8"
    using t [of 5] t [of 4] t [of 3]
    by (simp_all add: word_le_nat_alt word_less_nat_alt u tagged_byte del: unsigned_ucast_eq)
qed

text \<open>A code point is decoded from its bytes, and the right number of them is used.\<close>

lemma decode_rune_bytes:
  assumes "rune \<le> 0x10FFFF"
  shows "\<exists>nb. length (rune_bytes rune) = Suc nb \<and> trailing_bytes_from_utf8 (rune_bytes rune ! 0) = nb
    \<and> decode_rune (rune_bytes rune @ rest) nb = rune"
proof -
  have join: "push_bit 6 (push_bit 6 (take_bit 4 (drop_bit 12 rune)) + take_bit 6 (drop_bit 6 rune)) + take_bit 6 rune
      = take_bit 16 rune"
    "push_bit 6 (push_bit 6 (push_bit 6 (take_bit 3 (drop_bit 18 rune)) + take_bit 6 (drop_bit 12 rune))
        + take_bit 6 (drop_bit 6 rune)) + take_bit 6 rune = take_bit 21 rune"
    "push_bit 6 (take_bit 5 (drop_bit 6 rune)) + take_bit 6 rune = take_bit 11 rune"
    using six_bit_join [of 4 6 rune] six_bit_join [of 10 0 rune] six_bit_join [of 3 12 rune]
      six_bit_join [of 9 6 rune] six_bit_join [of 15 0 rune] six_bit_join [of 5 0 rune]
    by simp_all
  consider "rune \<le> 0x7F" | "\<not> rune \<le> 0x7F" "rune \<le> 0x7FF" | "\<not> rune \<le> 0x7FF" "rune \<le> 0xFFFF"
    | "\<not> rune \<le> 0xFFFF"
    by blast
  then show ?thesis
  proof cases
    case 1
    have "take_bit 8 rune = rune" using 1 by (intro take_bit_small) (simp add: word_le_nat_alt)
    moreover have "ucast (ucast rune :: byte) = take_bit 8 rune" by (rule bit_word_eqI) (auto simp: bit_simps)
    ultimately have u: "ucast (ucast rune :: byte) = rune" by simp
    then have "unat (ucast rune :: byte) = unat rune"
      using unat_ucast_up [of "ucast rune :: byte", where 'b = 32] by simp
    then have "(ucast rune :: byte) < 0xC0" using 1 by (simp add: word_less_nat_alt word_le_nat_alt)
    with 1 u show ?thesis
      by (simp add: rune_bytes_def trailing_bytes(1) decode_rune_def offset_from_utf8_def)
  next
    case 2
    then have "take_bit 11 rune = rune" by (intro take_bit_small) (simp add: word_le_nat_alt)
    with 2 join(3) show ?thesis
      by (simp add: rune_bytes_def and_masks trailing_bytes(2) lead_byte_range decode_rune_def tagged_byte
          offset_from_utf8_def push_bit_add)
  next
    case 3
    then have "take_bit 16 rune = rune" by (intro take_bit_small) (simp add: word_le_nat_alt)
    moreover have "\<not> rune \<le> 0x7F" using 3 by (simp add: word_le_nat_alt)
    ultimately show ?thesis using 3 join(1)
      by (simp add: rune_bytes_def and_masks trailing_bytes(3) lead_byte_range decode_rune_def tagged_byte
          offset_from_utf8_def push_bit_add add.assoc)
  next
    case 4
    then have "take_bit 21 rune = rune" using assms by (intro take_bit_small) (simp add: word_le_nat_alt)
    moreover have "\<not> rune \<le> 0x7F" "\<not> rune \<le> 0x7FF" using 4 by (simp_all add: word_le_nat_alt)
    ultimately show ?thesis using 4 assms join(2)
      by (simp add: rune_bytes_def and_masks trailing_bytes(4) lead_byte_range decode_rune_def tagged_byte
          offset_from_utf8_def push_bit_add add.assoc)
  qed
qed

section \<open>Whole strings\<close>

text \<open>The UTF-16 form of one code point, as \<open>encode_into_16\<close> writes it.\<close>

definition rune_units :: "u32 \<Rightarrow> wstr" where
  "rune_units rune =
     (if rune \<le> 0xFFFF then (if rune \<ge> 0xD800 \<and> rune \<le> 0xDBFF then [0xFFFD] else [ucast rune])
      else if rune > 0x10FFFF then [0xFFFD]
      else [ucast (drop_bit 10 (rune - 0x10000) + 0xD800), ucast (((rune - 0x10000) AND 0x3FF) + 0xDC00)])"

lemma encode_into_16_step:
  "it \<noteq> [] \<Longrightarrow> nb = trailing_bytes_from_utf8 (it ! 0) \<Longrightarrow> nb < length it \<Longrightarrow>
     encode_into_16 it = rune_units (decode_rune it nb) @ encode_into_16 (drop (nb + 1) it)"
  by (subst encode_into_16.simps) (simp add: rune_units_def Let_def)

lemma encode_into_16_rune:
  assumes "rune \<le> 0x10FFFF"
  shows "encode_into_16 (rune_bytes rune @ rest) = rune_units rune @ encode_into_16 rest"
proof -
  obtain nb where nb: "length (rune_bytes rune) = Suc nb" "trailing_bytes_from_utf8 (rune_bytes rune ! 0) = nb"
      "decode_rune (rune_bytes rune @ rest) nb = rune"
    using decode_rune_bytes [OF assms] by blast
  from nb(1) have "rune_bytes rune \<noteq> []" by auto
  with nb encode_into_16_step [of "rune_bytes rune @ rest" nb] show ?thesis by (simp add: nth_append)
qed

text \<open>Every high surrogate is followed by a low one.\<close>

fun paired :: "wstr \<Rightarrow> bool" where
  "paired [] = True"
| "paired (c # it) =
     (if c \<ge> 0xD800 \<and> c \<le> 0xDBFF
      then (case it of [] \<Rightarrow> False | c2 # it' \<Rightarrow> c2 \<ge> 0xDC00 \<and> c2 \<le> 0xDFFF \<and> paired it')
      else paired it)"

lemma rune_units_bmp:
  assumes "\<not> (c \<ge> 0xD800 \<and> c \<le> 0xDBFF)"
  shows "rune_units (ucast (c :: wchar)) = [c] \<and> (ucast c :: u32) \<le> 0x10FFFF"
proof -
  have u: "unat (ucast c :: u32) = unat c" by (simp add: unat_ucast_up)
  have "unat c < 2 ^ LENGTH(16)" by (rule unsigned_less)
  then have "(ucast c :: u32) \<le> 0xFFFF" by (simp add: word_le_nat_alt u del: unsigned_ucast_eq)
  moreover have "\<not> ((ucast c :: u32) \<ge> 0xD800 \<and> (ucast c :: u32) \<le> 0xDBFF)"
    using assms by (simp add: word_le_nat_alt u del: unsigned_ucast_eq)
  moreover have "(ucast (ucast c :: u32) :: wchar) = c" by (rule ucast_ucast_up) simp
  ultimately show ?thesis
    using order_trans [of "ucast c :: u32" "0xFFFF" "0x10FFFF"] by (auto simp: rune_units_def)
qed

lemma rune_units_pair:
  fixes c c2 :: wchar
  assumes "c \<ge> 0xD800" "c \<le> 0xDBFF" "c2 \<ge> 0xDC00" "c2 \<le> 0xDFFF"
  defines "rune \<equiv> push_bit 10 (ucast c - 0xD800) + (ucast c2 - 0xDC00) + 0x10000 :: u32"
  shows "rune_units rune = [c, c2] \<and> rune \<le> 0x10FFFF"
proof -
  define h where "h = unat c - 0xD800"
  define l where "l = unat c2 - 0xDC00"
  have hl: "h < 1024" "l < 1024" "unat c = 0xD800 + h" "unat c2 = 0xDC00 + l"
    using assms(1-4) by (simp_all add: h_def l_def word_le_nat_alt)
  have c: "ucast c = (of_nat (0xD800 + h) :: u32)" "ucast c2 = (of_nat (0xDC00 + l) :: u32)"
    using hl(3,4) by (metis of_nat_unat)+
  have rn: "rune = of_nat (1024 * h + l + 0x10000)"
    unfolding rune_def c by (simp add: push_bit_eq_mult algebra_simps)
  then have r: "unat rune = 1024 * h + l + 0x10000"
    unfolding rn unat_of_nat using hl by (intro mod_less) simp
  define q where "q = rune - 0x10000"
  have "q = of_nat (1024 * h + l)" by (simp add: q_def rn)
  then have q: "unat q = 1024 * h + l" unfolding unat_of_nat [symmetric] using hl unat_of_nat [of "1024 * h + l", where 'a = 32] by simp
  have "unat (drop_bit 10 q + 0xD800) = unat c"
    using hl by (simp add: unat_word_ariths unat_drop_bit_eq q) (simp add: drop_bit_eq_div)
  moreover have "unat ((q AND 0x3FF) + 0xDC00) = unat c2"
    using hl by (simp add: unat_word_ariths and_masks unsigned_take_bit_eq q) (simp add: take_bit_eq_mod)
  ultimately have units: "ucast (drop_bit 10 q + 0xD800) = c" "ucast ((q AND 0x3FF) + 0xDC00) = c2"
    by (metis of_nat_unat ucast_id)+
  have "\<not> rune \<le> 0xFFFF" "rune \<le> 0x10FFFF" using r hl by (simp_all add: word_le_nat_alt)
  with units show ?thesis by (simp add: rune_units_def q_def not_less)
qed

text \<open>Well formed text is a sequence of code points.\<close>

lemma paired_runes:
  assumes "paired s"
  shows "\<exists>rs. encode_into_8 s = concat (map rune_bytes rs) \<and> s = concat (map rune_units rs) \<and> (\<forall>r\<in>set rs. r \<le> 0x10FFFF)"
  using assms
proof (induction s rule: encode_into_8.induct)
  case 1
  then show ?case by (intro exI [of _ "[]"]) simp
next
  case (2 c it)
  show ?case
  proof (cases "c \<ge> 0xD800 \<and> c \<le> 0xDBFF")
    case True
    with "2.prems" obtain c2 it' where it: "it = c2 # it'" "c2 \<ge> 0xDC00" "c2 \<le> 0xDFFF" "paired it'"
      by (auto split: list.splits)
    moreover have c2: "\<not> (c2 < 0xDC00 \<or> c2 > 0xDFFF)" using it by (simp add: not_less)
    moreover obtain rs where
      "encode_into_8 it' = concat (map rune_bytes rs)" "it' = concat (map rune_units rs)" "\<forall>r\<in>set rs. r \<le> 0x10FFFF"
      using "2.IH"(1) [OF True it(1) c2 it(4)] by blast
    ultimately show ?thesis using True rune_units_pair [of c c2]
      by (intro exI [of _ "(push_bit 10 (ucast c - 0xD800) + (ucast c2 - 0xDC00) + 0x10000) # rs"]) simp
  next
    case False
    then have "encode_into_8 (c # it) = rune_bytes (ucast c) @ encode_into_8 it" by auto
    moreover obtain rs where
      "encode_into_8 it = concat (map rune_bytes rs)" "it = concat (map rune_units rs)" "\<forall>r\<in>set rs. r \<le> 0x10FFFF"
      using 2 False by auto
    ultimately show ?thesis using rune_units_bmp [OF False] by (intro exI [of _ "ucast c # rs"]) simp
  qed
qed

lemma encode_into_16_runes:
  "\<forall>r\<in>set rs. r \<le> 0x10FFFF \<Longrightarrow> encode_into_16 (concat (map rune_bytes rs)) = concat (map rune_units rs)"
  by (induction rs) (simp_all add: encode_into_16_rune encode_into_16.simps [of "[]"])

lemma encode_into_8_inverse: "paired s \<Longrightarrow> encode_into_16 (encode_into_8 s) = s"
  using paired_runes encode_into_16_runes by metis

text \<open>
  C30: Text that is well formed UTF-16 keeps every code unit on the way to UTF-8 and back.
\<close>

theorem utf_roundtrip:
  assumes "paired s"
  shows "encode_into_16 (encode_into_8 s) = s"
  using assms by (rule encode_into_8_inverse)

theorem utf_roundtrip_witness:
  "encode_into_16 (encode_into_8 [0x68, 0x20AC, 0xD83D, 0xDE00]) = [0x68, 0x20AC, 0xD83D, 0xDE00]
   \<and> encode_into_8 [0x68, 0x20AC, 0xD83D, 0xDE00] = [0x68, 0xE2, 0x82, 0xAC, 0xF0, 0x9F, 0x98, 0x80]"
proof
  show "encode_into_16 (encode_into_8 [0x68, 0x20AC, 0xD83D, 0xDE00]) = [0x68, 0x20AC, 0xD83D, 0xDE00]"
    by (rule utf_roundtrip) simp
  show "encode_into_8 [0x68, 0x20AC, 0xD83D, 0xDE00] = [0x68, 0xE2, 0x82, 0xAC, 0xF0, 0x9F, 0x98, 0x80]"
    by code_simp
qed

text \<open>Text in ASCII is copied unit by unit.\<close>

lemma encode_into_16_ascii: "\<forall>b\<in>set s. b < 0x80 \<Longrightarrow> encode_into_16 s = map ucast s"
proof (induction s)
  case (Cons b s)
  have "unat (ucast b :: u32) = unat b" by (simp add: unat_ucast_up)
  then have r: "(ucast b :: u32) \<le> 0x7F" using Cons.prems by (simp add: word_le_nat_alt word_less_nat_alt del: unsigned_ucast_eq)
  then have "rune_bytes (ucast b) = [b]" by (simp add: rune_bytes_def ucast_ucast_up)
  moreover have "rune_units (ucast b) = [ucast b]"
  proof -
    have "(ucast b :: u32) \<le> 0xFFFF" "\<not> (ucast b :: u32) \<ge> 0xD800"
      using r by (simp_all add: word_le_nat_alt del: unsigned_ucast_eq)
    moreover have "(ucast (ucast b :: u32) :: wchar) = ucast b" by (rule bit_word_eqI) (auto simp: bit_simps)
    ultimately show ?thesis by (simp add: rune_units_def)
  qed
  moreover have "(ucast b :: u32) \<le> 0x10FFFF" using r by (simp add: word_le_nat_alt del: unsigned_ucast_eq)
  ultimately show ?case using Cons encode_into_16_rune [of "ucast b" s] by simp
qed (simp add: encode_into_16.simps)

text \<open>An overlong encoding is accepted: the dots and the slash of \<open>../\<close> in two bytes each.\<close>

lemma encode_into_16_overlong: "encode_into_16 [0xC0, 0xAE, 0xC0, 0xAE, 0xC0, 0xAF] = lit ''../''"
  by code_simp

end
