(* ===== verification/Bela_Path.thy ===== *)
theory Bela_Path
  imports Bela_Codecvt
begin

text \<open>
  Path names: the splitting and joining of \<^verbatim>\<open>vendor/bela/src/belawin/path.cc\<close>, the string
  splitting it shares with \<^verbatim>\<open>bela/str_split_narrow.hpp\<close>, and the sanitizing of the member
  names of archives in \<^verbatim>\<open>lib/archive/ced.cc\<close>. The functions that are templates over the
  character type are modelled at an arbitrary word length. The main theorems say when
  the place a member is extracted to lies below the destination.
\<close>

section \<open>Splitting\<close>

definition is_sep :: "'a::len word \<Rightarrow> bool" where
  "is_sep c \<longleftrightarrow> c = ch (CHR 0x5C) \<or> c = ch CHR ''/''"

definition dot :: "'a::len word list" where "dot = lit ''.''"
definition dotdot :: "'a::len word list" where "dotdot = lit ''..''"

text \<open>
  \<open>StrSplit\<close> of a text by a delimiter of one character, from a position: the iterator takes
  the text up to the next delimiter, and the rest of the text when there is none.
\<close>

function str_split :: "('a \<Rightarrow> bool) \<Rightarrow> 'a list \<Rightarrow> nat \<Rightarrow> 'a list list" where
  "str_split P text pos =
     (case find_from P text pos of
        None \<Rightarrow> [drop pos text]
      | Some d \<Rightarrow> take (d - pos) (drop pos text) # str_split P text (Suc d))"
  by pat_completeness auto
termination
  by (relation "measure (\<lambda>(P, text, pos). length text - pos)") (auto dest!: find_from_SomeD)

declare str_split.simps [simp del]

definition StrSplit_SkipEmpty :: "('a \<Rightarrow> bool) \<Rightarrow> 'a list \<Rightarrow> 'a list list" where
  "StrSplit_SkipEmpty P text = filter (\<lambda>p. p \<noteq> []) (str_split P text 0)"

text \<open>The loop of \<open>SplitPathInternal\<close>; the result says whether a \<open>..\<close> left the path.\<close>

function SplitPathInternal :: "'a::len word list \<Rightarrow> nat \<Rightarrow> 'a word list list \<Rightarrow> bool \<times> 'a word list list" where
  "SplitPathInternal sv first output =
     (if first < length sv then
        let second = find_from is_sep sv first;
            s = (case second of None \<Rightarrow> drop first sv | Some d \<Rightarrow> take (d - first) (drop first sv));
            step = (if second = Some first then Inr output
                    else if s = dotdot then (if output = [] then Inl () else Inr (butlast output))
                    else if s \<noteq> dot then Inr (output @ [s]) else Inr output)
        in case step of
             Inl _ \<Rightarrow> (False, output)
           | Inr output \<Rightarrow> (case second of None \<Rightarrow> (True, output) | Some d \<Rightarrow> SplitPathInternal sv (Suc d) output)
      else (True, output))"
  by pat_completeness auto
termination
  by (relation "measure (\<lambda>(sv, first, output). length sv - first)") (auto dest!: find_from_SomeD [OF sym])

declare SplitPathInternal.simps [simp del]

definition SplitPath :: "'a::len word list \<Rightarrow> 'a word list list" where
  "SplitPath sv = (case SplitPathInternal sv 0 [] of (ok, pv) \<Rightarrow> if ok then pv else [])"

section \<open>Joining\<close>

definition ascii_isalpha :: "wchar \<Rightarrow> bool" where
  "ascii_isalpha c \<longleftrightarrow> (c \<ge> 65 \<and> c \<le> 90) \<or> (c \<ge> 97 \<and> c \<le> 122)"

definition colon :: wchar where "colon = ch CHR '':''"
definition backslash :: wchar where "backslash = ch (CHR 0x5C)"

text \<open>The end of the share name, from the first character behind the separator.\<close>

definition share_end :: "wstr \<Rightarrow> nat \<Rightarrow> nat" where
  "share_end p n = (case find_from is_sep p n of None \<Rightarrow> length p | Some m \<Rightarrow> m)"

definition PathRootLen :: "wstr \<Rightarrow> nat" where
  "PathRootLen p =
     (let l = length p in
      if l < 2 then 0
      else if p ! 1 = colon \<and> ascii_isalpha (p ! 0) then 2
      else if l \<ge> 6 \<and> is_sep (p ! 0) \<and> is_sep (p ! 1) \<and> \<not> is_sep (p ! 2)
              \<and> (p ! 2 = ch CHR ''.'' \<or> p ! 2 = ch CHR ''?'') \<and> is_sep (p ! 3)
      then if p ! 5 = colon \<and> ascii_isalpha (p ! 4) then 6 else 4
      else if l \<ge> 5 \<and> is_sep (p ! 0) \<and> is_sep (p ! 1) \<and> \<not> is_sep (p ! 2) \<and> p ! 2 \<noteq> ch CHR ''.''
      then (case find_from is_sep (take (l - 1) p) 3 of
              None \<Rightarrow> 0
            | Some n \<Rightarrow> if is_sep (p ! Suc n) \<or> p ! Suc n = ch CHR ''.'' then 0 else share_end p (Suc n))
      else 0)"

definition join_pieces :: "wstr \<Rightarrow> wstr list \<Rightarrow> wstr" where
  "join_pieces root pv = foldl (\<lambda>s p. (if s \<noteq> [] then s @ [backslash] else s) @ p) root pv"

fun split_all :: "wstr list \<Rightarrow> wstr list \<Rightarrow> wstr list option" where
  "split_all [] pv = Some pv"
| "split_all (p # pieces) pv =
     (case SplitPathInternal p 0 pv of (ok, pv) \<Rightarrow> if ok then split_all pieces pv else None)"

definition parth_cat_pieces :: "wstr \<Rightarrow> wstr list \<Rightarrow> wstr" where
  "parth_cat_pieces p0 pieces =
     (let n = PathRootLen p0; root = take n p0; p0 = drop n p0;
          pv = snd (SplitPathInternal p0 0 [])
      in case split_all pieces pv of None \<Rightarrow> lit ''.'' | Some pv \<Rightarrow> join_pieces root pv)"

definition PathCat :: "wstr list \<Rightarrow> wstr" where
  "PathCat pieces = (case pieces of [] \<Rightarrow> [] | p # ps \<Rightarrow> parth_cat_pieces p ps)"

section \<open>Parts of a path\<close>

definition BaseName :: "wstr \<Rightarrow> wstr" where
  "BaseName name =
     (if name = [] then lit ''.''
      else if length name = 2 \<and> name ! 1 = colon then lit ''.''
      else let name = (if length name > 2 \<and> name ! 1 = colon then drop 2 name else name);
               name = hd name # rev (dropWhile is_sep (rev (tl name)))
           in if length name = 1 \<and> is_sep (name ! 0) then lit ''.''
              else rev (takeWhile (\<lambda>c. \<not> is_sep c) (rev name)))"

definition DirName :: "wstr \<Rightarrow> wstr" where
  "DirName path =
     (if path = [] then lit ''.''
      else let r = dropWhile is_sep (rev path)
           in if r = [] then lit ''/''
              else let r = dropWhile (\<lambda>c. \<not> is_sep c) r
                   in if r = [] then lit ''.''
                      else let r = dropWhile is_sep r in if r = [] then lit ''/'' else rev r)"

section \<open>Sanitizing member names\<close>

definition IsDangerousPath :: "wstr \<Rightarrow> bool" where
  "IsDangerousPath p \<longleftrightarrow>
     (\<exists>d\<in>set [lit '':$i30:$bitmap'', lit ''$mft'']. length d \<le> length p \<and> drop (length p - length d) p = d)"

text \<open>
  Names that are not known to be UTF-8 are converted with a detected code page of the
  operating system, the parameter \<open>codepage\<close>.
\<close>

definition encode_into_native :: "(byte list \<Rightarrow> wstr) \<Rightarrow> byte list \<Rightarrow> bool \<Rightarrow> wstr" where
  "encode_into_native codepage filename always_utf8 =
     (if always_utf8 then encode_into_16 filename else codepage filename)"

definition JoinSanitizePath :: "(byte list \<Rightarrow> wstr) \<Rightarrow> wstr \<Rightarrow> byte list \<Rightarrow> bool \<Rightarrow> wstr option" where
  "JoinSanitizePath codepage root child_path always_utf8 =
     (let fileName = encode_into_native codepage child_path always_utf8;
          path = PathCat [root, fileName]
      in if IsDangerousPath path then None
         else if length path \<le> length root then None
         else if take (length root) path \<noteq> root then None
         else if \<not> (root \<noteq> [] \<and> last root = ch CHR ''/'') \<and> \<not> is_sep (path ! length root) then None
         else Some path)"

text \<open>The depth is unbounded here; the \<^verbatim>\<open>int\<close> of the code has room for two thousand million components.\<close>

fun harmful_loop :: "byte list list \<Rightarrow> int \<Rightarrow> bool" where
  "harmful_loop [] entries \<longleftrightarrow> entries \<le> 0"
| "harmful_loop (p # paths) entries \<longleftrightarrow>
     (if p = dot then harmful_loop paths entries
      else if p \<noteq> dotdot then harmful_loop paths (entries + 1)
      else if entries - 1 < 0 then True else harmful_loop paths (entries - 1))"

definition is_harmful_path :: "byte list \<Rightarrow> bool" where
  "is_harmful_path child_path = harmful_loop (StrSplit_SkipEmpty is_sep child_path) 0"

definition excludeChars :: wstr where
  "excludeChars = [13, 10] @ lit ''<>:'' @ [34] @ lit ''|*?''"

text \<open>The replacements are all of one character for one character.\<close>

definition replace_char :: "wchar \<Rightarrow> wchar" where
  "replace_char c =
     (if c = 13 then ch CHR ''-''
      else if c \<in> set ([10] @ lit ''<>:'' @ [34] @ lit ''|?'') then ch CHR ''_''
      else c)"

text \<open>
  \<^verbatim>\<open>operator/\<close> of \<^verbatim>\<open>std::filesystem::path\<close> on Windows: the end of the root name, whether a
  path is absolute, and appending a path that may have a root of its own.
\<close>

definition root_name_end :: "wstr \<Rightarrow> nat" where
  "root_name_end p =
     (let l = length p in
      if l < 2 then 0
      else if ascii_isalpha (p ! 0) \<and> p ! 1 = colon then 2
      else if \<not> is_sep (p ! 0) then 0
      else if l \<ge> 4 \<and> is_sep (p ! 3) \<and> (l = 4 \<or> \<not> is_sep (p ! 4))
              \<and> (is_sep (p ! 1) \<and> (p ! 2 = ch CHR ''?'' \<or> p ! 2 = ch CHR ''.'')
                 \<or> p ! 1 = ch CHR ''?'' \<and> p ! 2 = ch CHR ''?'') then 3
      else if l \<ge> 3 \<and> is_sep (p ! 1) \<and> \<not> is_sep (p ! 2) then share_end p 3
      else 0)"

definition path_is_absolute :: "wstr \<Rightarrow> bool" where
  "path_is_absolute p \<longleftrightarrow>
     (let n = root_name_end p in
      if n = 2 \<and> p ! 1 = colon then length p \<ge> 3 \<and> is_sep (p ! 2) else n > 0)"

definition path_append :: "wstr \<Rightarrow> wstr \<Rightarrow> wstr" where
  "path_append root p =
     (let n = root_name_end root; m = root_name_end p in
      if path_is_absolute p then p
      else if m > 0 \<and> take m p \<noteq> take n root then p
      else let text = (if m < length p \<and> is_sep (p ! m) then take n root
                       else if n = length root then (if n \<ge> 3 then root @ [backslash] else root)
                       else if \<not> is_sep (last root) then root @ [backslash] else root)
           in text @ drop m p)"

text \<open>
  \<^verbatim>\<open>filename()\<close> and \<^verbatim>\<open>parent_path()\<close>: the parent never loses the root name or the separators
  behind it.
\<close>

definition path_filename :: "wstr \<Rightarrow> wstr" where
  "path_filename p = rev (takeWhile (\<lambda>c. \<not> is_sep c) (rev p))"

definition root_path_end :: "wstr \<Rightarrow> nat" where
  "root_path_end p = root_name_end p + length (takeWhile is_sep (drop (root_name_end p) p))"

definition path_parent :: "wstr \<Rightarrow> wstr" where
  "path_parent p =
     (let n = root_path_end p
      in take n p @ rev (dropWhile is_sep (dropWhile (\<lambda>c. \<not> is_sep c) (rev (drop n p)))))"

definition JoinSanitizeFsPath :: "(byte list \<Rightarrow> wstr) \<Rightarrow> wstr \<Rightarrow> byte list \<Rightarrow> bool \<Rightarrow> (wstr \<times> wstr) option" where
  "JoinSanitizeFsPath codepage root child_path always_utf8 =
     (if is_harmful_path child_path then None
      else let encoded_path = encode_into_native codepage child_path always_utf8;
               encoded_path = (if \<exists>c\<in>set encoded_path. c \<in> set excludeChars
                               then map replace_char encoded_path else encoded_path)
           in Some (path_append root encoded_path, encoded_path))"

section \<open>The components of a path\<close>

text \<open>The components are what separators leave of a name, empty ones dropped.\<close>

fun split_on :: "('a \<Rightarrow> bool) \<Rightarrow> 'a list \<Rightarrow> 'a list list" where
  "split_on P [] = [[]]"
| "split_on P (c # s) = (if P c then [] # split_on P s else (c # hd (split_on P s)) # tl (split_on P s))"

definition components :: "'a::len word list \<Rightarrow> 'a word list list" where
  "components s = filter (\<lambda>p. p \<noteq> []) (split_on is_sep s)"

lemma split_on_not_Nil [simp]: "split_on P s \<noteq> []"
  by (cases s) simp_all

lemma split_on_no_sep: "\<forall>c\<in>set s. \<not> P c \<Longrightarrow> split_on P s = [s]"
  by (induction s) simp_all

lemma split_on_append: "P c \<Longrightarrow> split_on P (xs @ c # ys) = split_on P xs @ split_on P ys"
  by (induction xs) simp_all

lemma str_split_eq: "pos \<le> length s \<Longrightarrow> str_split P s pos = split_on P (drop pos s)"
proof (induction P s pos rule: str_split.induct)
  case (1 P s pos)
  show ?case
  proof (cases "find_from P s pos")
    case None
    then have "split_on P (drop pos s) = [drop pos s]" by (intro split_on_no_sep) (simp add: find_from_None_iff)
    with None show ?thesis by (subst str_split.simps) simp
  next
    case (Some d)
    note d = find_from_SomeD [OF Some]
    have "drop pos s = take (d - pos) (drop pos s) @ s ! d # drop (Suc d) s"
      using d by (metis Cons_nth_drop_Suc append_take_drop_id drop_drop le_add_diff_inverse2 add.commute)
    moreover have "split_on P (take (d - pos) (drop pos s)) = [take (d - pos) (drop pos s)]"
      using d by (intro split_on_no_sep) blast
    ultimately have "split_on P (drop pos s) = take (d - pos) (drop pos s) # split_on P (drop (Suc d) s)"
      using d split_on_append [of P "s ! d" "take (d - pos) (drop pos s)" "drop (Suc d) s"] by simp
    with "1.IH" [OF Some] d Some show ?thesis by (subst str_split.simps) simp
  qed
qed

lemma StrSplit_components: "StrSplit_SkipEmpty is_sep text = components text"
  by (simp add: StrSplit_SkipEmpty_def components_def str_split_eq)

lemma components_append_sep: "is_sep c \<Longrightarrow> components (xs @ c # ys) = components xs @ components ys"
  by (simp add: components_def split_on_append)

lemma components_Nil [simp]: "components [] = []"
  by (simp add: components_def)

lemma components_Cons_sep: "is_sep c \<Longrightarrow> components (c # ys) = components ys"
  using components_append_sep [of c "[]" ys] by simp

lemma components_no_sep: "\<forall>c\<in>set s. \<not> is_sep c \<Longrightarrow> components s = (if s = [] then [] else [s])"
  by (simp add: components_def split_on_no_sep)

lemma split_on_parts: "p \<in> set (split_on P s) \<Longrightarrow> c \<in> set p \<Longrightarrow> \<not> P c"
proof (induction s arbitrary: p)
  case (Cons a s)
  obtain h t where "split_on P s = h # t" by (cases "split_on P s") simp_all
  with Cons.prems Cons.IH [of h] Cons.IH [of p] show ?case by (auto split: if_splits)
qed simp

lemma components_parts: "p \<in> set (components s) \<Longrightarrow> p \<noteq> [] \<and> (\<forall>c\<in>set p. \<not> is_sep c)"
  by (auto simp: components_def dest: split_on_parts)

section \<open>Lexical resolution\<close>

text \<open>
  Walking the components from a place given by its own components; \<open>None\<close> when a \<open>..\<close> would
  leave the place the walk started from.
\<close>

fun resolve :: "'a::len word list list \<Rightarrow> 'a word list list \<Rightarrow> 'a word list list option" where
  "resolve [] st = Some st"
| "resolve (p # ps) st =
     (if p = dot then resolve ps st
      else if p = dotdot then (if st = [] then None else resolve ps (butlast st))
      else resolve ps (st @ [p]))"

lemma dot_not_dotdot [simp]: "dot \<noteq> dotdot" "dotdot \<noteq> dot"
  by (simp_all add: dot_def dotdot_def)

text \<open>\<open>SplitPathInternal\<close> walks the components.\<close>

lemma split_at_sep:
  assumes "find_from is_sep sv i = Some d"
  shows "components (drop i sv) = components (take (d - i) (drop i sv)) @ components (drop (Suc d) sv)"
    and "components (take (d - i) (drop i sv)) = (if d = i then [] else [take (d - i) (drop i sv)])"
    and "i \<le> d" and "d < length sv"
proof -
  note d = find_from_SomeD [OF assms]
  show "i \<le> d" "d < length sv" using d by simp_all
  have "drop i sv = take (d - i) (drop i sv) @ sv ! d # drop (Suc d) sv"
    using d by (metis Cons_nth_drop_Suc append_take_drop_id drop_drop le_add_diff_inverse2 add.commute)
  then show "components (drop i sv) = components (take (d - i) (drop i sv)) @ components (drop (Suc d) sv)"
    using d components_append_sep [of "sv ! d" "take (d - i) (drop i sv)" "drop (Suc d) sv"] by metis
  have "take (d - i) (drop i sv) = [] \<longleftrightarrow> d = i" using d by auto
  then show "components (take (d - i) (drop i sv)) = (if d = i then [] else [take (d - i) (drop i sv)])"
    using d by (subst components_no_sep) auto
qed

lemma SplitPathInternal_step:
  assumes "find_from is_sep sv i = Some d"
  shows "SplitPathInternal sv i out =
     (let s = take (d - i) (drop i sv) in
      if d = i \<or> s = dot then SplitPathInternal sv (Suc d) out
      else if s = dotdot then if out = [] then (False, out) else SplitPathInternal sv (Suc d) (butlast out)
      else SplitPathInternal sv (Suc d) (out @ [s]))"
proof -
  have "i < length sv" using find_from_SomeD [OF assms] by simp
  then show ?thesis by (subst SplitPathInternal.simps) (auto simp: Let_def assms)
qed

lemma SplitPathInternal_last:
  assumes "find_from is_sep sv i = None" and "i < length sv"
  shows "SplitPathInternal sv i out =
     (let s = drop i sv in
      if s = dot then (True, out)
      else if s = dotdot then if out = [] then (False, out) else (True, butlast out)
      else (True, out @ [s]))"
  using assms by (subst SplitPathInternal.simps) (auto simp: Let_def)

lemma SplitPathInternal_resolve:
  "i \<le> length sv \<Longrightarrow>
     (case resolve (components (drop i sv)) out of
        None \<Rightarrow> \<not> fst (SplitPathInternal sv i out)
      | Some st \<Rightarrow> SplitPathInternal sv i out = (True, st))"
proof (induction "length sv - i" arbitrary: i out rule: less_induct)
  case less
  show ?case
  proof (cases "find_from is_sep sv i")
    case None
    show ?thesis
    proof (cases "i < length sv")
      case True
      then have "components (drop i sv) = [drop i sv]" using None by (simp add: components_no_sep find_from_None_iff)
      then show ?thesis by (simp add: SplitPathInternal_last [OF None True] Let_def)
    next
      case False
      with less.prems show ?thesis by (simp add: SplitPathInternal.simps)
    qed
  next
    case (Some d)
    note d = split_at_sep [OF Some]
    have IH: "case resolve (components (drop (Suc d) sv)) o' of
            None \<Rightarrow> \<not> fst (SplitPathInternal sv (Suc d) o')
          | Some st \<Rightarrow> SplitPathInternal sv (Suc d) o' = (True, st)" for o'
      using d(3,4) by (intro less.hyps) auto
    let ?s = "take (d - i) (drop i sv)"
    consider "d = i" | "d \<noteq> i" "?s = dot" | "d \<noteq> i" "?s = dotdot" "out = []" | "d \<noteq> i" "?s = dotdot" "out \<noteq> []"
      | "d \<noteq> i" "?s \<noteq> dot" "?s \<noteq> dotdot"
      by blast
    then show ?thesis unfolding d(1,2) SplitPathInternal_step [OF Some] Let_def
      by cases (use IH [of out] IH [of "butlast out"] IH [of "out @ [?s]"] in \<open>simp_all del: drop_drop\<close>)
  qed
qed

lemma resolve_parts:
  assumes "resolve ps st = Some st'" and "\<forall>p\<in>set st. p \<noteq> dot \<and> p \<noteq> dotdot \<and> Q p" and "\<forall>p\<in>set ps. Q p"
  shows "\<forall>p\<in>set st'. p \<noteq> dot \<and> p \<noteq> dotdot \<and> Q p"
  using assms
proof (induction ps arbitrary: st)
  case (Cons p ps)
  consider "p = dot" | "p = dotdot" | "p \<noteq> dot" "p \<noteq> dotdot" by blast
  then show ?case
  proof cases
    case 1
    with Cons.prems show ?thesis by (intro Cons.IH [of st]) simp_all
  next
    case 2
    with Cons.prems have "st \<noteq> []" by (cases st) simp_all
    with 2 Cons.prems show ?thesis
      by (intro Cons.IH [of "butlast st"]) (simp_all, blast dest: in_set_butlastD)
  next
    case 3
    with Cons.prems show ?thesis by (intro Cons.IH [of "st @ [p]"]) auto
  qed
qed simp

section \<open>Joined paths\<close>

text \<open>Components joined by backslashes are found again.\<close>

definition plain :: "wstr \<Rightarrow> bool" where
  "plain p \<longleftrightarrow> p \<noteq> [] \<and> (\<forall>c\<in>set p. \<not> is_sep c)"

lemma is_sep_backslash [simp]: "is_sep backslash"
  by (simp add: is_sep_def backslash_def)

lemma join_pieces_eq:
  "join_pieces root pv =
     (if root = [] then (case pv of [] \<Rightarrow> [] | p # ps \<Rightarrow> join_pieces p ps)
      else root @ concat (map (\<lambda>p. backslash # p) pv))"
proof -
  have *: "foldl (\<lambda>s p. (if s \<noteq> [] then s @ [backslash] else s) @ p) r ps = r @ concat (map (\<lambda>p. backslash # p) ps)"
    if "r \<noteq> []" for r ps
    using that by (induction ps arbitrary: r) auto
  show ?thesis by (cases pv) (auto simp: join_pieces_def *)
qed

lemma components_concat: "\<forall>p\<in>set pv. plain p \<Longrightarrow> components (concat (map (\<lambda>p. backslash # p) pv)) = pv"
proof (induction pv rule: rev_induct)
  case (snoc p pv)
  have "components (concat (map (\<lambda>p. backslash # p) pv) @ backslash # p) = pv @ components p"
    using snoc by (subst components_append_sep) simp_all
  moreover have "components p = [p]" using snoc.prems by (auto simp: plain_def components_no_sep)
  ultimately show ?case by simp
qed simp

text \<open>What follows the root name of a joined path has the pieces as its components.\<close>

lemma components_join_pieces:
  assumes "\<forall>p\<in>set pv. plain p"
  shows "components (drop (length root) (join_pieces root pv)) = pv \<and> take (length root) (join_pieces root pv) = root"
proof (cases "root = []")
  case False
  then show ?thesis using components_concat [OF assms] by (simp add: join_pieces_eq)
next
  case True
  show ?thesis
  proof (cases pv)
    case (Cons p ps)
    with assms have p: "p \<noteq> []" "components p = [p]" "\<forall>q\<in>set ps. plain q" by (auto simp: plain_def components_no_sep)
    have "components (p @ concat (map (\<lambda>p. backslash # p) ps)) = p # ps"
    proof (cases ps)
      case (Cons q qs)
      with p components_concat [of ps] components_append_sep [of backslash p "q @ concat (map (\<lambda>p. backslash # p) qs)"]
      show ?thesis by (simp add: components_Cons_sep)
    qed (simp add: p)
    then show ?thesis using True Cons p(1) by (simp add: join_pieces_eq [of "[]"] join_pieces_eq [of p])
  qed (simp add: True join_pieces_eq)
qed

lemma split_all_resolve: "split_all pieces pv = resolve (concat (map components pieces)) pv"
proof (induction pieces arbitrary: pv)
  case (Cons p pieces)
  have app: "resolve (as @ bs) st = Option.bind (resolve as st) (resolve bs)" for as bs and st :: "wstr list"
    by (induction as arbitrary: st) simp_all
  show ?case
    using SplitPathInternal_resolve [of 0 p pv]
    by (cases "SplitPathInternal p 0 pv") (auto simp: app Cons.IH split: option.splits)
qed simp

lemma PathRootLen_le: "PathRootLen p \<le> length p"
proof -
  have "share_end p n \<le> length p" for n
    by (auto simp: share_end_def split: option.splits dest: find_from_SomeD)
  then show ?thesis by (auto simp: PathRootLen_def Let_def split: option.splits)
qed

text \<open>A component that names a file or directory.\<close>

definition proper :: "wstr \<Rightarrow> bool" where
  "proper p \<longleftrightarrow> p \<noteq> dot \<and> p \<noteq> dotdot \<and> plain p"

lemma resolve_proper:
  assumes "resolve (concat (map components pieces)) st = Some st'" and "\<forall>p\<in>set st. proper p"
  shows "\<forall>p\<in>set st'. proper p"
  using resolve_parts [OF assms(1), of plain] assms(2) components_parts
  by (fastforce simp: proper_def plain_def)

lemma SplitPathInternal_fail: "i \<le> length sv \<Longrightarrow> \<not> fst (SplitPathInternal sv i out) \<Longrightarrow> snd (SplitPathInternal sv i out) = []"
proof (induction "length sv - i" arbitrary: i out rule: less_induct)
  case less
  show ?case
  proof (cases "find_from is_sep sv i")
    case None
    show ?thesis
    proof (cases "i < length sv")
      case True
      with less.prems show ?thesis by (auto simp: SplitPathInternal_last [OF None True] Let_def split: if_splits)
    next
      case False
      then have "SplitPathInternal sv i out = (True, out)" by (subst SplitPathInternal.simps) simp
      with less.prems show ?thesis by simp
    qed
  next
    case (Some d)
    note d = split_at_sep(3,4) [OF Some]
    have IH: "\<not> fst (SplitPathInternal sv (Suc d) o') \<Longrightarrow> snd (SplitPathInternal sv (Suc d) o') = []" for o'
      using d by (intro less.hyps) auto
    with less.prems show ?thesis unfolding SplitPathInternal_step [OF Some] Let_def by (auto split: if_splits)
  qed
qed

lemma PathCat_cases:
  obtains "PathCat [root, f] = lit ''.''"
  | pv where "PathCat [root, f] = join_pieces (take (PathRootLen root) root) pv" and "\<forall>p\<in>set pv. proper p"
proof -
  define r where "r = drop (PathRootLen root) root"
  define pv0 where "pv0 = snd (SplitPathInternal r 0 [])"
  have "\<forall>p\<in>set pv0. proper p"
  proof (cases "resolve (components r) []")
    case None
    with SplitPathInternal_resolve [of 0 r "[]"] SplitPathInternal_fail [of 0 r "[]"] show ?thesis
      by (simp add: pv0_def)
  next
    case (Some st)
    with SplitPathInternal_resolve [of 0 r "[]"] resolve_proper [of "[r]" "[]" st] show ?thesis
      by (simp add: pv0_def)
  qed
  moreover have cat: "PathCat [root, f] = (case resolve (components f) pv0 of None \<Rightarrow> lit ''.''
      | Some pv \<Rightarrow> join_pieces (take (PathRootLen root) root) pv)"
    by (simp add: PathCat_def parth_cat_pieces_def Let_def split_all_resolve pv0_def r_def del: split_all.simps)
  ultimately show ?thesis
    using that resolve_proper [of "[f]" pv0] by (cases "resolve (components f) pv0") auto
qed

lemma components_suffix:
  assumes "s = xs @ ys" and "xs = [] \<or> is_sep (last xs) \<or> ys = [] \<or> is_sep (hd ys)"
  shows "set (components ys) \<subseteq> set (components s)"
proof -
  consider "xs = []" | "xs \<noteq> []" "is_sep (last xs)" | "ys = []" | c t where "ys = c # t" "is_sep c"
    using assms(2) by (cases ys) auto
  then show ?thesis
  proof cases
    case 2
    then obtain zs c where "xs = zs @ [c]" "is_sep c" by (metis append_butlast_last_id)
    with assms(1) components_append_sep [of c zs ys] show ?thesis by simp
  next
    case 4
    with assms(1) components_append_sep [of c xs t] show ?thesis by (simp add: components_Cons_sep)
  qed (simp_all add: assms(1))
qed

text \<open>
  C1: A path that \<open>JoinSanitizePath\<close> returns lies below the root: it is the root followed by
  a separated rest, and no component of the rest is \<open>.\<close> or \<open>..\<close>, whatever bytes the member
  name has and however the code page turns them into characters.
\<close>

theorem JoinSanitizePath_below_root:
  assumes "JoinSanitizePath codepage root child_path always_utf8 = Some path"
  shows "\<exists>rest. path = root @ rest \<and> rest \<noteq> [] \<and> (is_sep (hd rest) \<or> is_sep (last root))
    \<and> (\<forall>p\<in>set (components rest). p \<noteq> dot \<and> p \<noteq> dotdot)"
proof -
  define f where "f = encode_into_native codepage child_path always_utf8"
  have path: "path = PathCat [root, f]" and long: "length root < length path" and pre: "take (length root) path = root"
    and sep: "root \<noteq> [] \<and> last root = ch CHR ''/'' \<or> is_sep (path ! length root)"
    using assms by (auto simp: JoinSanitizePath_def Let_def f_def split: if_splits)
  define rest where "rest = drop (length root) path"
  have split: "path = root @ rest" using pre unfolding rest_def by (metis append_take_drop_id)
  have ne: "rest \<noteq> []" using long by (simp add: rest_def)
  have hd: "is_sep (hd rest) \<or> root \<noteq> [] \<and> is_sep (last root)"
    using sep long by (auto simp: rest_def hd_drop_conv_nth is_sep_def)
  have "\<forall>p\<in>set (components rest). p \<noteq> dot \<and> p \<noteq> dotdot"
  proof (rule PathCat_cases [of root f])
    assume "PathCat [root, f] = lit ''.''"
    with path long have "root = []" "path = lit ''.''" by simp_all
    with hd split show ?thesis by (auto simp: is_sep_def ch_def)
  next
    fix pv assume join: "PathCat [root, f] = join_pieces (take (PathRootLen root) root) pv" and pv: "\<forall>p\<in>set pv. proper p"
    let ?n = "PathRootLen root"
    have n: "?n \<le> length root" by (rule PathRootLen_le)
    have "\<forall>p\<in>set pv. plain p" using pv by (simp add: proper_def)
    from components_join_pieces [OF this, of "take ?n root"] have R: "components (drop ?n path) = pv"
      using n by (simp add: path join min_absorb2)
    have "drop ?n path = drop ?n root @ rest" using n by (simp add: split)
    moreover have "drop ?n root = [] \<or> is_sep (last (drop ?n root)) \<or> rest = [] \<or> is_sep (hd rest)"
      using hd by (cases "drop ?n root = []") (auto simp: last_drop)
    ultimately have "set (components rest) \<subseteq> set pv" using components_suffix R by metis
    with pv show ?thesis by (auto simp: proper_def)
  qed
  with split ne hd show ?thesis by blast
qed

theorem JoinSanitizePath_below_root_witness:
  "\<exists>rest. lit ''C:'' @ [backslash] @ lit ''dest'' @ [backslash] @ lit ''b'' = lit ''C:'' @ [backslash] @ lit ''dest'' @ rest
     \<and> (\<forall>p\<in>set (components rest). p \<noteq> dot \<and> p \<noteq> dotdot)"
proof -
  have "JoinSanitizePath (\<lambda>b. map ucast b) (lit ''C:'' @ [backslash] @ lit ''dest'') (lit ''a/../b'') True
      = Some (lit ''C:'' @ [backslash] @ lit ''dest'' @ [backslash] @ lit ''b'')"
    by code_simp
  from JoinSanitizePath_below_root [OF this] show ?thesis by auto
qed

section \<open>Harmful names\<close>

lemma harmful_loop_resolve:
  "harmful_loop ps (int (length st)) \<longleftrightarrow> (case resolve ps st of None \<Rightarrow> True | Some st' \<Rightarrow> st' = [])"
proof (induction ps arbitrary: st)
  case (Cons p ps)
  show ?case
  proof (cases "p = dotdot \<and> st \<noteq> []")
    case True
    then have "harmful_loop (p # ps) (int (length st)) = harmful_loop ps (int (length st) - 1)"
      by (cases st) simp_all
    also have "int (length st) - 1 = int (length (butlast st))" using True by (cases st) simp_all
    also note Cons.IH [of "butlast st"]
    finally show ?thesis using True by simp
  next
    case False
    with Cons.IH [of st] Cons.IH [of "st @ [p]"] show ?thesis by (cases "p = dot") (simp_all add: add.commute)
  qed
qed simp

text \<open>
  C16: \<open>is_harmful_path\<close> refuses a member name exactly when walking its components would at
  some point leave the place the walk started from, or would end there.
\<close>

theorem is_harmful_path_resolves:
  "is_harmful_path child_path \<longleftrightarrow>
     (case resolve (components child_path) [] of None \<Rightarrow> True | Some st \<Rightarrow> st = [])"
  using harmful_loop_resolve [of "components child_path" "[]"]
  by (simp add: is_harmful_path_def StrSplit_components)

subsection \<open>Components and their encoding\<close>

lemma rune_bytes_ascii: "c < 0x80 \<Longrightarrow> rune_bytes (ucast (c :: wchar)) = [ucast c]"
proof -
  assume "c < 0x80"
  moreover have "unat (ucast c :: u32) = unat c" by (simp add: unat_ucast_up)
  ultimately have "(ucast c :: u32) \<le> 0x7F" by (simp add: word_le_nat_alt word_less_nat_alt del: unsigned_ucast_eq)
  moreover have "(ucast (ucast c :: u32) :: byte) = ucast c" by (rule bit_word_eqI) (auto simp: bit_simps)
  ultimately show ?thesis by (simp add: rune_bytes_def)
qed

lemma high_byte: "bit (b :: byte) 7 \<Longrightarrow> \<not> is_sep b \<and> b \<noteq> ch CHR ''.''"
  by (auto simp: is_sep_def ch_def)

lemma rune_bytes_high: "\<not> rune \<le> 0x7F \<Longrightarrow> b \<in> set (rune_bytes rune) \<Longrightarrow> bit b 7"
  by (auto simp: rune_bytes_def bit_simps split: if_splits)

lemma encode_into_8_append:
  "paired xs \<Longrightarrow> encode_into_8 (xs @ ys) = encode_into_8 xs @ encode_into_8 ys"
proof (induction xs rule: encode_into_8.induct)
  case (2 c it)
  show ?case
  proof (cases "c \<ge> 0xD800 \<and> c \<le> 0xDBFF")
    case True
    with "2.prems" obtain c2 it' where it: "it = c2 # it'" "c2 \<ge> 0xDC00" "c2 \<le> 0xDFFF" "paired it'"
      by (auto split: list.splits)
    moreover from this have "\<not> (c2 < 0xDC00 \<or> c2 > 0xDFFF)" by (simp add: not_less)
    ultimately show ?thesis using True 2 by simp
  next
    case False
    then have "encode_into_8 (c # zs) = rune_bytes (ucast c) @ encode_into_8 zs" for zs by auto
    with 2 False show ?thesis by auto
  qed
qed simp

lemma paired_split:
  "c < 0x80 \<Longrightarrow> paired (xs @ c # ys) \<Longrightarrow> paired xs \<and> paired ys"
proof (induction xs rule: paired.induct)
  case 1
  have "\<not> c \<ge> 0xD800" using "1.prems"(1) by (simp add: word_le_nat_alt word_less_nat_alt)
  with "1.prems"(2) show ?case by simp
next
  case (2 a it)
  show ?case
  proof (cases "a \<ge> 0xD800 \<and> a \<le> 0xDBFF")
    case True
    have c: "\<not> c \<ge> 0xDC00" using "2.prems"(1) by (simp add: word_le_nat_alt word_less_nat_alt)
    show ?thesis
    proof (cases it)
      case Nil
      with "2.prems"(2) True c show ?thesis by simp
    next
      case (Cons b it')
      with "2.IH"(1) [OF True Cons] "2.prems" True show ?thesis by simp
    qed
  next
    case False
    then have "paired (a # zs) = paired zs" for zs by auto
    with "2.IH"(2) [OF False] "2.prems" show ?thesis by simp
  qed
qed

lemma is_sep_ascii: "is_sep (c :: wchar) \<Longrightarrow> c < 0x80"
  by (auto simp: is_sep_def ch_def)

lemma is_sep_ucast: "c < 0x80 \<Longrightarrow> is_sep (ucast (c :: wchar) :: byte) \<longleftrightarrow> is_sep c"
proof -
  assume "c < 0x80"
  then have "unat (ucast c :: byte) = unat c"
    by (simp add: word_less_nat_alt unsigned_ucast_eq take_bit_eq_mod nat_mod_distrib)
  then show ?thesis
    by (simp add: is_sep_def ch_def word_unat_eq_iff [of "ucast c"] word_unat_eq_iff [of c] del: unsigned_ucast_eq)
qed

lemma encode_into_8_no_sep:
  assumes "paired w" and "\<forall>c\<in>set w. \<not> is_sep c" and b: "b \<in> set (encode_into_8 w)"
  shows "\<not> is_sep b"
proof -
  obtain rs where rs: "encode_into_8 w = concat (map rune_bytes rs)" "w = concat (map rune_units rs)"
    using paired_runes [OF assms(1)] by blast
  with b obtain r where r: "r \<in> set rs" "b \<in> set (rune_bytes r)" by auto
  show ?thesis
  proof (cases "r \<le> 0x7F")
    case True
    have u: "unat (ucast r :: wchar) = unat r"
      using True by (simp add: word_le_nat_alt unsigned_ucast_eq take_bit_eq_mod nat_mod_distrib)
    from True have "\<not> 0xD800 \<le> r" "r \<le> 0xFFFF" by (simp_all add: word_le_nat_alt)
    then have "rune_units r = [ucast r]" by (simp add: rune_units_def)
    then have "ucast r \<in> set w" using r(1) rs(2) by force
    with assms(2) have "\<not> is_sep (ucast r :: wchar)" by blast
    moreover have "(ucast r :: wchar) < 0x80" using True by (simp add: word_le_nat_alt word_less_nat_alt u del: unsigned_ucast_eq)
    moreover have "b = ucast (ucast r :: wchar)"
    proof -
      have "b = ucast r" using r(2) True by (simp add: rune_bytes_def)
      also have "\<dots> = ucast (ucast r :: wchar)" by (rule bit_word_eqI) (auto simp: bit_simps)
      finally show ?thesis .
    qed
    ultimately show ?thesis using is_sep_ucast by metis
  next
    case False
    from high_byte rune_bytes_high [OF False r(2)] show ?thesis by blast
  qed
qed

lemma sep_cases:
  obtains "\<forall>c\<in>set w. \<not> is_sep c" | xs c ys where "w = xs @ c # ys" and "is_sep c" and "\<forall>c\<in>set xs. \<not> is_sep c"
  using split_list_first_prop [of w is_sep] by blast

lemma encode_into_8_inject: "paired v \<Longrightarrow> paired w \<Longrightarrow> encode_into_8 v = encode_into_8 w \<longleftrightarrow> v = w"
  using encode_into_8_inverse by metis

lemma encode_into_8_ascii: "c < 0x80 \<Longrightarrow> encode_into_8 (c # ys) = ucast c # encode_into_8 ys"
proof -
  assume c: "c < 0x80"
  then have "\<not> (c \<ge> 0xD800 \<and> c \<le> 0xDBFF)" by (simp add: word_le_nat_alt word_less_nat_alt)
  then have "encode_into_8 (c # ys) = rune_bytes (ucast c) @ encode_into_8 ys" by auto
  then show ?thesis by (simp only: rune_bytes_ascii [OF c] append.simps)
qed

lemma components_encode:
  "paired w \<Longrightarrow> components (encode_into_8 w) = map encode_into_8 (components w) \<and> (\<forall>p\<in>set (components w). paired p)"
proof (induction "length w" arbitrary: w rule: less_induct)
  case less
  show ?case
  proof (rule sep_cases [of w])
    assume no: "\<forall>c\<in>set w. \<not> is_sep c"
    then have "components (encode_into_8 w) = (if encode_into_8 w = [] then [] else [encode_into_8 w])"
      using encode_into_8_no_sep [OF less.prems no] by (simp add: components_no_sep)
    moreover have "encode_into_8 w = [] \<longleftrightarrow> w = []" using encode_into_8_inject [OF less.prems, of "[]"] by simp
    ultimately show ?thesis using less.prems components_no_sep [OF no] by (cases "w = []") (simp_all del: encode_into_8.simps)
  next
    fix xs c ys assume w: "w = xs @ c # ys" and c: "is_sep c"
    note c80 = is_sep_ascii [OF c]
    from paired_split [OF c80, of xs ys] less.prems [unfolded w] have p: "paired xs" "paired ys" by blast+
    have "encode_into_8 w = encode_into_8 xs @ ucast c # encode_into_8 ys"
      by (simp only: w encode_into_8_append [OF p(1)] encode_into_8_ascii [OF c80])
    then have "components (encode_into_8 w) = components (encode_into_8 xs) @ components (encode_into_8 ys)"
      using c is_sep_ucast [OF c80] by (simp add: components_append_sep)
    moreover have "components w = components xs @ components ys" using c by (simp add: w components_append_sep)
    moreover have "length xs < length w" "length ys < length w" by (simp_all add: w)
    note less.hyps [OF this(1) p(1)] less.hyps [OF this(2) p(2)]
    ultimately show ?thesis by (simp only: map_append ball_Un set_append) blast
  qed
qed

lemma resolve_map:
  assumes "\<forall>p\<in>set ps. (f p = dot \<longleftrightarrow> p = dot) \<and> (f p = dotdot \<longleftrightarrow> p = dotdot)"
  shows "resolve (map f ps) (map f st) = map_option (map f) (resolve ps st)"
  using assms
proof (induction ps arbitrary: st)
  case (Cons p ps)
  then have IH: "resolve (map f ps) (map f st') = map_option (map f) (resolve ps st')" for st' by simp
  from IH [of st] IH [of "butlast st"] IH [of "st @ [p]"] Cons.prems show ?case
    by (auto simp: map_butlast)
qed simp

lemma resolve_encode:
  assumes "paired w"
  shows "resolve (components (encode_into_8 w)) [] = map_option (map encode_into_8) (resolve (components w) [])"
proof -
  have dots: "encode_into_8 dot = dot" "encode_into_8 dotdot = dotdot" "paired dot" "paired dotdot"
    by (code_simp, code_simp, code_simp, code_simp)
  have "(encode_into_8 p = dot \<longleftrightarrow> p = dot) \<and> (encode_into_8 p = dotdot \<longleftrightarrow> p = dotdot)" if "p \<in> set (components w)" for p
    using encode_into_8_inject dots components_encode [OF assms] that by metis
  then show ?thesis
    using components_encode [OF assms] resolve_map [of "components w" encode_into_8 "[]"] by simp
qed

subsection \<open>Replaced characters\<close>

lemma split_on_map: "(\<And>c. P (f c) \<longleftrightarrow> Q c) \<Longrightarrow> split_on P (map f s) = map (map f) (split_on Q s)"
  by (induction s) (simp_all add: hd_map map_tl)

lemma components_map: "(\<And>c. is_sep (f c) \<longleftrightarrow> is_sep c) \<Longrightarrow> components (map f s) = map (map f) (components s)"
  by (simp add: components_def split_on_map [of is_sep f is_sep] filter_map comp_def)

lemma replace_char_sep: "is_sep (replace_char c) \<longleftrightarrow> is_sep c"
  by (auto simp: replace_char_def is_sep_def ch_def)

lemma replace_char_dots: "map replace_char p = dot \<longleftrightarrow> p = dot" "map replace_char p = dotdot \<longleftrightarrow> p = dotdot"
proof -
  have "replace_char c = ch CHR ''.'' \<longleftrightarrow> c = ch CHR ''.''" for c by (auto simp: replace_char_def ch_def)
  then show "map replace_char p = dot \<longleftrightarrow> p = dot" "map replace_char p = dotdot \<longleftrightarrow> p = dotdot"
    by (auto simp: dot_def dotdot_def)
qed

lemma replace_char_colon: "replace_char c \<noteq> colon"
  by (simp add: replace_char_def colon_def ch_def)

lemma replace_char_excluded: "c \<notin> set excludeChars \<Longrightarrow> replace_char c = c"
  by (auto simp: replace_char_def excludeChars_def)

lemma JoinSanitizeFsPath_eq:
  "JoinSanitizeFsPath codepage root child_path always_utf8 =
     (if is_harmful_path child_path then None
      else let e = map replace_char (encode_into_native codepage child_path always_utf8) in Some (path_append root e, e))"
proof -
  have "map replace_char e = e" if "\<not> (\<exists>c\<in>set e. c \<in> set excludeChars)" for e
    using that by (intro map_idI) (blast intro: replace_char_excluded)
  then show ?thesis by (simp add: JoinSanitizeFsPath_def Let_def)
qed

lemma root_name_end_relative: "colon \<notin> set p \<Longrightarrow> p = [] \<or> \<not> is_sep (hd p) \<Longrightarrow> root_name_end p = 0"
  by (cases p; cases "tl p") (auto simp: root_name_end_def Let_def nth_Cons' split: if_splits)

lemma root_name_end_cases:
  "root_name_end p = 0 \<or> root_name_end p = 2 \<and> p ! 1 = colon \<or> root_name_end p \<ge> 3"
proof -
  have "share_end p 3 \<ge> 3" if "length p \<ge> 3"
    using that by (auto simp: share_end_def split: option.splits dest: find_from_SomeD)
  then show ?thesis unfolding root_name_end_def Let_def by simp
qed

lemma absolute_root_name:
  assumes "path_is_absolute p" and "root_name_end p = length p"
  shows "length p \<ge> 3"
  using root_name_end_cases [of p] assms by (auto simp: path_is_absolute_def Let_def)

lemma path_append_relative:
  assumes root: "path_is_absolute root" and p: "colon \<notin> set p" "p \<noteq> []" "\<not> is_sep (hd p)"
  shows "\<exists>rest. path_append root p = root @ rest \<and> (rest = p \<and> is_sep (last root) \<or> rest = backslash # p)"
proof -
  have m: "root_name_end p = 0" using root_name_end_relative p by blast
  then have "\<not> path_is_absolute p" by (simp add: path_is_absolute_def)
  moreover have "\<not> is_sep (p ! 0)" using p by (simp add: hd_conv_nth)
  ultimately have "path_append root p = (if root_name_end root = length root then root @ [backslash]
      else if \<not> is_sep (last root) then root @ [backslash] else root) @ p"
    using m absolute_root_name [OF root] by (simp add: path_append_def Let_def)
  then show ?thesis by (cases "root_name_end root = length root"; cases "is_sep (last root)") simp_all
qed

lemma JoinSanitizeFsPath_rest:
  assumes w: "paired w" "w \<noteq> []" "\<not> is_sep (hd w)" and root: "path_is_absolute root"
    and out: "JoinSanitizeFsPath codepage root (encode_into_8 w) True = Some (path, encoded)"
  shows "\<exists>rest st. path = root @ rest \<and> (is_sep (last root) \<or> is_sep (hd rest))
    \<and> resolve (components rest) [] = Some st \<and> st \<noteq> []"
proof -
  have e: "encode_into_native codepage (encode_into_8 w) True = w"
    using w(1) by (simp add: encode_into_native_def encode_into_8_inverse)
  have harm: "\<not> is_harmful_path (encode_into_8 w)" and path: "path = path_append root (map replace_char w)"
    using out by (auto simp: JoinSanitizeFsPath_eq e Let_def split: if_splits)
  from harm obtain st where st: "resolve (components w) [] = Some st" "st \<noteq> []"
    using harmful_loop_resolve [of "components (encode_into_8 w)" "[]"] resolve_encode [OF w(1)]
    by (auto simp: is_harmful_path_def StrSplit_components split: option.splits)
  have hd: "\<not> is_sep (hd (map replace_char w))" using w by (simp add: hd_map replace_char_sep)
  have "colon \<notin> set (map replace_char w)" using replace_char_colon [symmetric] by auto
  from path_append_relative [OF root this _ hd] w(2) path obtain rest where
    rest: "path = root @ rest" "rest = map replace_char w \<and> is_sep (last root) \<or> rest = backslash # map replace_char w"
    by auto
  then have "components rest = map (map replace_char) (components w)"
    using components_map [of replace_char w] by (auto simp: replace_char_sep components_Cons_sep)
  then have "resolve (components rest) [] = Some (map (map replace_char) st)"
    using resolve_map [of "components w" "map replace_char" "[]"] st(1) by (simp add: replace_char_dots)
  then show ?thesis using rest st(2) by auto
qed

text \<open>
  C17: A member whose name is taken as UTF-8 (every tar member, and a zip member that is marked
  so), is well formed and has no leading separator is extracted below an absolute destination:
  the place is the destination followed by a separated rest, and walking the components of
  the rest never leaves the destination and does not end there. Names in another code page are
  not covered: they are tested for harm before they are decoded.
\<close>

theorem JoinSanitizeFsPath_below_root:
  assumes w: "paired w" "w \<noteq> []" "\<not> is_sep (hd w)" and root: "path_is_absolute root"
    and out: "JoinSanitizeFsPath codepage root (encode_into_8 w) True = Some (path, encoded)"
  shows "\<exists>rest st. path = root @ rest \<and> (is_sep (last root) \<or> is_sep (hd rest))
    \<and> resolve (components rest) [] = Some st \<and> st \<noteq> []"
  using JoinSanitizeFsPath_rest [OF assms] .

theorem JoinSanitizeFsPath_below_root_witness:
  "\<exists>rest st. lit ''C:'' @ [backslash] @ lit ''dest'' @ [backslash] @ lit ''a/../b_c'' = (lit ''C:'' @ [backslash] @ lit ''dest'') @ rest
    \<and> resolve (components rest) [] = Some st \<and> st \<noteq> []"
proof -
  have "JoinSanitizeFsPath (\<lambda>b. map ucast b) (lit ''C:'' @ [backslash] @ lit ''dest'') (encode_into_8 (lit ''a/../b?c'')) True
      = Some (lit ''C:'' @ [backslash] @ lit ''dest'' @ [backslash] @ lit ''a/../b_c'', lit ''a/../b_c'')"
    by code_simp
  moreover have "paired (lit ''a/../b?c'')" "lit ''a/../b?c'' \<noteq> ([] :: wstr)" "\<not> is_sep (hd (lit ''a/../b?c'') :: wchar)"
    "path_is_absolute (lit ''C:'' @ [backslash] @ lit ''dest'')"
    by code_simp+
  ultimately show ?thesis using JoinSanitizeFsPath_below_root by blast
qed

text \<open>
  The two hypotheses are needed: a name with a leading separator is taken from the root of
  the drive, and two dots in an overlong encoding pass the test on the bytes and leave the
  destination once they are decoded.
\<close>

lemma JoinSanitizeFsPath_utf8:
  "JoinSanitizeFsPath codepage root child_path True = JoinSanitizeFsPath (\<lambda>b. []) root child_path True"
  by (simp add: JoinSanitizeFsPath_def encode_into_native_def)

lemma JoinSanitizeFsPath_leading_separator:
  "JoinSanitizeFsPath codepage (lit ''C:'' @ [backslash] @ lit ''dest'') (lit ''/windows/x'') True
     = Some (lit ''C:/windows/x'', lit ''/windows/x'')"
  unfolding JoinSanitizeFsPath_utf8 [of codepage] by code_simp

lemma JoinSanitizeFsPath_overlong:
  "JoinSanitizeFsPath codepage (lit ''C:'' @ [backslash] @ lit ''dest'') ([0xC0, 0xAE, 0xC0, 0xAE] @ lit ''/x'') True
     = Some (lit ''C:'' @ [backslash] @ lit ''dest'' @ [backslash] @ lit ''../x'', lit ''../x'')"
  unfolding JoinSanitizeFsPath_utf8 [of codepage] by code_simp

section \<open>Places below a destination\<close>

text \<open>
  A place that is reached from the components of the destination without leaving it; the
  destination itself is such a place, as are the parents of places strictly below it.
\<close>

definition within :: "wstr \<Rightarrow> wstr \<Rightarrow> bool" where
  "within root p \<longleftrightarrow> (\<exists>cs st. components p = components root @ cs \<and> resolve cs [] = Some st)"

definition strictly_within :: "wstr \<Rightarrow> wstr \<Rightarrow> bool" where
  "strictly_within root p \<longleftrightarrow> (\<exists>cs st. components p = components root @ cs \<and> resolve cs [] = Some st \<and> st \<noteq> [])"

lemma strictly_within_within [intro]: "strictly_within root p \<Longrightarrow> within root p"
  by (auto simp: strictly_within_def within_def)

lemma within_self [simp]: "within root root"
  by (simp add: within_def)

lemma resolve_prefix: "resolve (xs @ ys) st = Some st' \<Longrightarrow> \<exists>st''. resolve xs st = Some st''"
  by (induction xs st rule: resolve.induct) (auto split: if_splits)

lemma components_append:
  assumes "a = [] \<or> b = [] \<or> is_sep (last a) \<or> is_sep (hd b)"
  shows "components (a @ b) = components a @ components b"
proof (cases "a = [] \<or> b = []")
  case False
  show ?thesis
  proof (cases "is_sep (last a)")
    case True
    with False have "a = butlast a @ [last a]" by simp
    then obtain a' c where a: "a = a' @ [c]" "is_sep c" using True by metis
    have "components a = components a'" using components_append_sep [OF a(2), of a' "[]"] a(1) by simp
    then show ?thesis using components_append_sep [OF a(2), of a' b] a(1) by simp
  next
    case hd: False
    then obtain c b' where b: "b = c # b'" "is_sep c" using assms False by (cases b) auto
    then show ?thesis by (simp add: components_append_sep components_Cons_sep)
  qed
qed auto

lemma JoinSanitizeFsPath_within:
  assumes "paired w" "w \<noteq> []" "\<not> is_sep (hd w)" and "path_is_absolute root"
    and "JoinSanitizeFsPath codepage root (encode_into_8 w) True = Some (path, encoded)"
  shows "strictly_within root path" and "\<exists>rest. path = root @ rest"
proof -
  obtain rest st where r: "path = root @ rest" "is_sep (last root) \<or> is_sep (hd rest)" "resolve (components rest) [] = Some st" "st \<noteq> []"
    using JoinSanitizeFsPath_rest [OF assms] by blast
  then show "\<exists>rest. path = root @ rest" by blast
  have "components path = components root @ components rest"
    unfolding r(1) using r(2) by (intro components_append) auto
  then show "strictly_within root path" using r by (auto simp: strictly_within_def)
qed

text \<open>The parent of a path has its components, or all but the last.\<close>

lemma components_parent_relative:
  "let x = rev (dropWhile is_sep (dropWhile (\<lambda>c. \<not> is_sep c) (rev q)))
   in components q = components x \<or> (\<exists>c. components q = components x @ [c])"
proof -
  define r where "r = dropWhile (\<lambda>c. \<not> is_sep c) (rev q)"
  define n where "n = rev (takeWhile (\<lambda>c. \<not> is_sep c) (rev q))"
  define x where "x = rev (dropWhile is_sep r)"
  define m where "m = rev (takeWhile is_sep r)"
  have r: "rev r = x @ m" by (simp add: x_def m_def rev_append [symmetric])
  have q: "q = rev r @ n"
    by (metis n_def r_def rev_append rev_rev_ident takeWhile_dropWhile_id)
  have n: "components n = [] \<or> (\<exists>c. components n = [c])"
  proof -
    have "\<forall>c\<in>set n. \<not> is_sep c" by (auto simp: n_def dest: set_takeWhileD)
    from components_no_sep [OF this] show ?thesis by simp
  qed
  have "r = [] \<or> is_sep (hd r)" unfolding r_def using hd_dropWhile [of "\<lambda>c. \<not> is_sep c" "rev q"] by blast
  then have "components q = components (rev r) @ components n"
    unfolding q by (intro components_append) (auto simp: last_rev)
  moreover have "components (rev r) = components x"
  proof -
    have m: "\<forall>c\<in>set m. is_sep c" by (auto simp: m_def dest: set_takeWhileD)
    have "components m = []" using m by (induction m) (auto simp: components_Cons_sep)
    moreover have "components (x @ m) = components x @ components m"
      using m by (intro components_append) (cases m, auto)
    ultimately show ?thesis using r by simp
  qed
  ultimately show ?thesis using n by (auto simp: x_def r_def Let_def)
qed

lemma root_name_end_sep:
  assumes "root_name_end p \<ge> 3" and "root_name_end p < length p"
  shows "is_sep (p ! root_name_end p)"
proof -
  have "is_sep (p ! share_end p 3)" if "share_end p 3 < length p"
    using that by (auto simp: share_end_def split: option.splits dest: find_from_SomeD)
  moreover have "root_name_end p \<in> {0, 2} \<or> root_name_end p = 3 \<and> is_sep (p ! 3) \<or> root_name_end p = share_end p 3"
    by (simp add: root_name_end_def Let_def)
  ultimately show ?thesis using assms by auto
qed

lemma components_path_parent:
  assumes "root_name_end p = 2 \<Longrightarrow> 2 < length p \<Longrightarrow> is_sep (p ! 2)"
  shows "components p = components (path_parent p) \<or> (\<exists>c. components p = components (path_parent p) @ [c])"
proof -
  define n where "n = root_path_end p"
  define k where "k = root_name_end p"
  define x where "x = rev (dropWhile is_sep (dropWhile (\<lambda>c. \<not> is_sep c) (rev (drop n p))))"
  have A: "take n p = [] \<or> is_sep (last (take n p)) \<or> drop n p = []"
  proof (cases "drop k p = [] \<or> \<not> is_sep (hd (drop k p))")
    case True
    then have n: "n = k" by (cases "drop k p") (auto simp: n_def k_def root_path_end_def)
    show ?thesis
    proof (cases "k < length p")
      case less: True
      then have "\<not> is_sep (p ! k)" using True by (simp add: hd_drop_conv_nth)
      then show ?thesis using root_name_end_cases [of p] root_name_end_sep [of p] assms less n by (auto simp: k_def)
    qed (simp add: n)
  next
    case False
    define l where "l = takeWhile is_sep (drop k p)"
    have "l \<noteq> []" using False by (cases "drop k p") (auto simp: l_def)
    moreover have "take n p = take k p @ l"
      by (simp add: n_def root_path_end_def k_def [symmetric] l_def take_add takeWhile_eq_take [symmetric])
    moreover have "is_sep (last l)" using \<open>l \<noteq> []\<close> unfolding l_def by (metis last_in_set set_takeWhileD)
    ultimately show ?thesis by simp
  qed
  then have "components (take n p @ drop n p) = components (take n p) @ components (drop n p)"
    "components (take n p @ x) = components (take n p) @ components x"
    by (intro components_append; auto simp: x_def)+
  moreover have "path_parent p = take n p @ x" by (simp add: path_parent_def n_def x_def Let_def)
  ultimately show ?thesis using components_parent_relative [of "drop n p"] by (auto simp: x_def Let_def)
qed

lemma root_name_end_two: "root_name_end p = 2 \<Longrightarrow> ascii_isalpha (p ! 0) \<and> p ! 1 = colon"
proof (rule ccontr)
  assume two: "root_name_end p = 2" and no: "\<not> (ascii_isalpha (p ! 0) \<and> p ! 1 = colon)"
  have "root_name_end p \<in> {0, 3} \<or> 3 \<le> length p \<and> root_name_end p = share_end p 3"
    using no by (simp add: root_name_end_def Let_def) blast
  moreover have "share_end p 3 \<noteq> 2" if "3 \<le> length p"
    using that by (auto simp: share_end_def split: option.splits dest: find_from_SomeD)
  ultimately show False using two by auto
qed

lemma absolute_drive:
  assumes "path_is_absolute root" and "root_name_end (root @ rest) = 2"
  shows "is_sep ((root @ rest) ! 2)"
proof -
  have l: "length root \<ge> 2"
  proof (rule ccontr)
    assume "\<not> length root \<ge> 2"
    then have "root_name_end root = 0" by (simp add: root_name_end_def Let_def)
    then show False using assms(1) by (simp add: path_is_absolute_def Let_def)
  qed
  have d: "ascii_isalpha (root ! 0)" "root ! 1 = colon" using root_name_end_two [OF assms(2)] l by (auto simp: nth_append split: if_splits)
  then have "root_name_end root = 2" using l by (simp add: root_name_end_def Let_def)
  then have "length root \<ge> 3 \<and> is_sep (root ! 2)" using assms(1) d(2) by (simp add: path_is_absolute_def Let_def)
  then show ?thesis by (simp add: nth_append)
qed

lemma within_parent:
  assumes "strictly_within root (root @ rest)" and "path_is_absolute root"
  shows "within root (path_parent (root @ rest))"
proof -
  obtain cs st where c: "components (root @ rest) = components root @ cs" "resolve cs [] = Some st" "st \<noteq> []"
    using assms(1) by (auto simp: strictly_within_def)
  have "components (root @ rest) = components (path_parent (root @ rest))
      \<or> (\<exists>c. components (root @ rest) = components (path_parent (root @ rest)) @ [c])"
    using absolute_drive [OF assms(2)] by (intro components_path_parent) auto
  then show ?thesis
  proof
    assume "\<exists>d. components (root @ rest) = components (path_parent (root @ rest)) @ [d]"
    then obtain d where d: "components root @ cs = components (path_parent (root @ rest)) @ [d]" using c(1) by metis
    have "cs \<noteq> []" using c by auto
    then have "cs = butlast cs @ [last cs]" by simp
    with d have "components (path_parent (root @ rest)) = components root @ butlast cs"
      by (metis append_assoc butlast_snoc)
    moreover have "\<exists>st. resolve (butlast cs) [] = Some st"
      using resolve_prefix [of "butlast cs" "[last cs]"] \<open>cs = butlast cs @ [last cs]\<close> c(2) by metis
    ultimately show ?thesis by (auto simp: within_def)
  qed (use c within_def in metis)
qed

end
