(* ===== verification/Bela_Semver.thy ===== *)
theory Bela_Semver
  imports Bela_Base
begin

text \<open>
  Version numbers: \<^verbatim>\<open>vendor/bela/include/bela/semver.hpp\<close>, instantiated at \<^verbatim>\<open>wchar_t\<close> as the
  package manager uses it. Parsing, printing and comparison are modelled with the places
  where the code leaves its buffers. The printed form of a version is shown to be parsed
  back, and the comparison to be the lexicographic order, both under the exact conditions
  the code needs.
\<close>

section \<open>Data\<close>

datatype prerelease = pre_alpha | pre_beta | pre_rc | pre_none

record version =
  major :: u32
  minor :: u32
  patch :: u32
  build :: u32
  prerelease_type :: prerelease
  prerelease_number :: u32

definition version_default :: version where
  "version_default = \<lparr>major = 0, minor = 0, patch = 0, build = 0,
     prerelease_type = pre_none, prerelease_number = 0\<rparr>"

definition prerelease_id :: "prerelease \<Rightarrow> nat" where
  "prerelease_id t = (case t of pre_alpha \<Rightarrow> 0 | pre_beta \<Rightarrow> 1 | pre_rc \<Rightarrow> 2 | pre_none \<Rightarrow> 3)"

definition Alpha :: wstr where "Alpha = lit ''-alpha''"
definition Beta :: wstr where "Beta = lit ''-beta''"
definition RC :: wstr where "RC = lit ''-rc''"

definition to_lower :: "wchar \<Rightarrow> wchar" where
  "to_lower c = (if c \<ge> 65 \<and> c \<le> 90 then c + 32 else c)"

definition is_digit :: "wchar \<Rightarrow> bool" where
  "is_digit c \<longleftrightarrow> c \<ge> 48 \<and> c \<le> 57"

definition to_digit :: "wchar \<Rightarrow> byte" where
  "to_digit c = ucast (c - 48)"

text \<open>\<open>detail::length\<close> of a number and of a pre-release tag.\<close>

definition length_number :: "u32 \<Rightarrow> nat" where
  "length_number x =
     (if x < 10 then 1 else if x < 100 then 2 else if x < 1000 then 3 else if x < 10000 then 4
      else if x < 100000 then 5 else if x < 10000000 then 6 else if x < 10000000 then 7
      else if x < 100000000 then 8 else if x < 1000000000 then 9 else 10)"

definition length_prerelease :: "prerelease \<Rightarrow> nat" where
  "length_prerelease t = (case t of pre_alpha \<Rightarrow> 5 | pre_beta \<Rightarrow> 4 | pre_rc \<Rightarrow> 2 | pre_none \<Rightarrow> 0)"

section \<open>Parsing\<close>

text \<open>
  A pointer into the string is its offset, the null pointer is \<open>None\<close>, and \<open>last\<close> is the
  length of the string.
\<close>

function equals :: "wstr \<Rightarrow> nat \<Rightarrow> wstr \<Rightarrow> nat \<Rightarrow> bool" where
  "equals s first str i =
     (if first \<noteq> length s \<and> i < length str then
        if first \<ge> length s \<or> to_lower (s ! first) \<noteq> to_lower (str ! i) then False
        else equals s (Suc first) str (Suc i)
      else True)"
  by pat_completeness auto
termination
  by (relation "measure (\<lambda>(s, first, str, i). length str - i)") auto

declare equals.simps [simp del]

text \<open>The digit loop accumulates in an \<^verbatim>\<open>int64_t\<close>.\<close>

function digits_loop :: "wstr \<Rightarrow> nat \<Rightarrow> nat \<Rightarrow> (nat \<times> nat) option" where
  "digits_loop s first t =
     (if first < length s \<and> is_digit (s ! first) then
        let t = t * 10 + unat (to_digit (s ! first))
        in if t \<ge> 2 ^ 63 then None else digits_loop s (Suc first) t
      else Some (first, t))"
  by pat_completeness auto
termination
  by (relation "measure (\<lambda>(s, first, t). length s - first)") auto

declare digits_loop.simps [simp del]

definition from_chars_number :: "wstr \<Rightarrow> nat \<Rightarrow> u32 \<Rightarrow> (nat option \<times> u32) option" where
  "from_chars_number s first d =
     (if first < length s \<and> is_digit (s ! first) then do {
        (first, t) \<leftarrow> digits_loop s first 0;
        if t \<le> 0xFFFFFFFF then Some (Some first, of_nat t) else Some (None, d)
      } else Some (None, d))"

definition from_chars_prerelease :: "wstr \<Rightarrow> nat \<Rightarrow> prerelease \<Rightarrow> nat option \<times> prerelease" where
  "from_chars_prerelease s first p =
     (if equals s first Alpha 0 then (Some (first + length Alpha), pre_alpha)
      else if equals s first Beta 0 then (Some (first + length Beta), pre_beta)
      else if equals s first RC 0 then (Some (first + length RC), pre_rc)
      else (None, p))"

text \<open>\<open>first != last && first != nullptr && *first == d\<close>; the last test reads the string.\<close>

definition check_delimiter :: "wstr \<Rightarrow> nat option \<Rightarrow> wchar \<Rightarrow> bool option" where
  "check_delimiter s first d =
     (case first of
        None \<Rightarrow> Some False
      | Some i \<Rightarrow> if i = length s then Some False else if i < length s then Some (s ! i = d) else None)"

text \<open>The optional pre-release part, entered with \<open>next\<close> after the numbers.\<close>

definition from_chars_tail :: "wstr \<Rightarrow> nat option \<Rightarrow> version \<Rightarrow> (bool \<times> version) option" where
  "from_chars_tail s next v = do {
     dash \<leftarrow> check_delimiter s next (ch CHR ''-'');
     if dash then do {
       let (next, t) = from_chars_prerelease s (the next) (prerelease_type v);
       let v = v\<lparr>prerelease_type := t\<rparr>;
       if next = Some (length s) then Some (True, v\<lparr>prerelease_number := 0\<rparr>)
       else do {
         dot \<leftarrow> check_delimiter s next (ch CHR ''.'');
         if dot then do {
           (next, n) \<leftarrow> from_chars_number s (Suc (the next)) (prerelease_number v);
           let v = v\<lparr>prerelease_number := n\<rparr>;
           Some (next = Some (length s), v)
         } else Some (False, v)
       }
     } else Some (False, v)
   }"

text \<open>The patch and build numbers, after the second dot.\<close>

definition from_chars_patch :: "wstr \<Rightarrow> nat \<Rightarrow> version \<Rightarrow> (bool \<times> version) option" where
  "from_chars_patch s first v = do {
     (next, n) \<leftarrow> from_chars_number s first (patch v);
     let v = v\<lparr>patch := n\<rparr>;
     if next = Some (length s) then Some (True, v\<lparr>prerelease_type := pre_none, prerelease_number := 0\<rparr>)
     else do {
       dot \<leftarrow> check_delimiter s next (ch CHR ''.'');
       if dot then do {
         (next, n) \<leftarrow> from_chars_number s (Suc (the next)) (build v);
         let v = v\<lparr>build := n\<rparr>;
         if next = Some (length s) then Some (True, v) else from_chars_tail s next v
       } else from_chars_tail s next v
     }
   }"

definition from_chars :: "wstr \<Rightarrow> version \<Rightarrow> (bool \<times> version) option" where
  "from_chars s v =
     (if length s < 1 then Some (False, v)
      else do {
        (next, n) \<leftarrow> from_chars_number s 0 (major v);
        let v = v\<lparr>major := n\<rparr>;
        dot \<leftarrow> check_delimiter s next (ch CHR ''.'');
        if dot then do {
          (next, n) \<leftarrow> from_chars_number s (Suc (the next)) (minor v);
          let v = v\<lparr>minor := n\<rparr>;
          dot \<leftarrow> check_delimiter s next (ch CHR ''.'');
          if dot then from_chars_patch s (Suc (the next)) v else from_chars_tail s next v
        } else Some (False, v)
      })"

definition version_prefix :: "wchar \<Rightarrow> bool" where
  "version_prefix c \<longleftrightarrow> c = ch CHR ''v'' \<or> c = ch CHR ''V''"

definition from_string_noexcept :: "wstr \<Rightarrow> version \<Rightarrow> (bool \<times> version) option" where
  "from_string_noexcept str v =
     (let str = (if str \<noteq> [] \<and> version_prefix (str ! 0) then drop 1 str else str);
          str = (case find_from (\<lambda>c. c = ch CHR ''/'') str 0 of None \<Rightarrow> str | Some p \<Rightarrow> drop (p + 1) str)
      in from_chars str v)"

text \<open>The constructor from a string ignores whether the parse succeeded.\<close>

definition make_version :: "wstr \<Rightarrow> version option" where
  "make_version str = map_option snd (from_string_noexcept str version_default)"

text \<open>For evaluation the bounds are compared as integers.\<close>

lemma digits_loop_code [code]:
  "digits_loop s first t =
     (if first < length s \<and> is_digit (s ! first) then
        let t = t * 10 + unat (to_digit (s ! first))
        in if int t \<ge> 0x8000000000000000 then None else digits_loop s (Suc first) t
      else Some (first, t))"
proof -
  have "int n \<ge> 0x8000000000000000 \<longleftrightarrow> n \<ge> 2 ^ 63" for n by simp
  then show ?thesis by (subst digits_loop.simps) (simp only:)
qed

lemma from_chars_number_code [code]:
  "from_chars_number s first d =
     (if first < length s \<and> is_digit (s ! first) then do {
        (first, t) \<leftarrow> digits_loop s first 0;
        if int t \<le> 0xFFFFFFFF then Some (Some first, of_nat t) else Some (None, d)
      } else Some (None, d))"
  by (simp add: from_chars_number_def)

section \<open>Printing\<close>

text \<open>The text is written from the end of the buffer; \<open>*(--str) = c\<close> needs a position above zero.\<close>

definition put_back :: "wchar \<Rightarrow> wstr \<times> nat \<Rightarrow> (wstr \<times> nat) option" where
  "put_back c bp = (case bp of (buf, p) \<Rightarrow> if p = 0 then None else Some (buf[p - 1 := c], p - 1))"

function to_chars_digits :: "u32 \<Rightarrow> wstr \<times> nat \<Rightarrow> (wstr \<times> nat) option" where
  "to_chars_digits x bp = do {
     bp \<leftarrow> put_back (ucast (48 + x mod 10)) bp;
     let x = x div 10;
     if x \<noteq> 0 then to_chars_digits x bp else Some bp
   }"
  by pat_completeness auto
termination
  by (relation "measure (\<lambda>(x, bp). unat x)")
    (auto simp: unat_div unat_gt_0 intro!: div_less_dividend)

declare to_chars_digits.simps [simp del]

definition to_chars_number :: "u32 \<Rightarrow> bool \<Rightarrow> wstr \<times> nat \<Rightarrow> (wstr \<times> nat) option" where
  "to_chars_number x dot bp = do {
     bp \<leftarrow> to_chars_digits x bp;
     if dot then put_back (ch CHR ''.'') bp else Some bp
   }"

definition prerelease_text :: "prerelease \<Rightarrow> wstr" where
  "prerelease_text t = (case t of pre_alpha \<Rightarrow> Alpha | pre_beta \<Rightarrow> Beta | pre_rc \<Rightarrow> RC | pre_none \<Rightarrow> [])"

primrec put_back_all :: "wstr \<Rightarrow> wstr \<times> nat \<Rightarrow> (wstr \<times> nat) option" where
  "put_back_all [] bp = Some bp"
| "put_back_all (c # cs) bp = do { bp \<leftarrow> put_back c bp; put_back_all cs bp }"

definition to_chars_prerelease :: "prerelease \<Rightarrow> wstr \<times> nat \<Rightarrow> (wstr \<times> nat) option" where
  "to_chars_prerelease t bp = put_back_all (rev (prerelease_text t)) bp"

text \<open>The result is the buffer, or \<open>Inl ()\<close> for \<^verbatim>\<open>value_too_large\<close>.\<close>

definition to_chars :: "version \<Rightarrow> wstr \<Rightarrow> nat \<Rightarrow> (unit + wstr) option" where
  "to_chars v buf len =
     (if length buf < len then Some (Inl ())
      else do {
        bp \<leftarrow> (if prerelease_type v \<noteq> pre_none then do {
                 bp \<leftarrow> (if prerelease_number v \<noteq> 0 then to_chars_number (prerelease_number v) True (buf, len)
                        else Some (buf, len));
                 to_chars_prerelease (prerelease_type v) bp
               } else Some (buf, len));
        bp \<leftarrow> (if build v \<noteq> 0 then to_chars_number (build v) True bp else Some bp);
        bp \<leftarrow> to_chars_number (patch v) True bp;
        bp \<leftarrow> to_chars_number (minor v) True bp;
        bp \<leftarrow> to_chars_number (major v) False bp;
        Some (Inr (fst bp))
      })"

definition string_length :: "version \<Rightarrow> nat" where
  "string_length v =
     length_number (major v) + length_number (minor v) + length_number (patch v) + 2
     + (if build v \<noteq> 0 then length_number (build v) + 1 else 0)
     + (if prerelease_type v \<noteq> pre_none
        then length_prerelease (prerelease_type v) + 1
             + (if prerelease_number v \<noteq> 0 then length_number (prerelease_number v) + 1 else 0)
        else 0)"

definition make_string_version :: "version \<Rightarrow> wstr option" where
  "make_string_version v = do {
     r \<leftarrow> to_chars v (replicate (string_length v) 0) (string_length v);
     Some (case r of Inl _ \<Rightarrow> [] | Inr str \<Rightarrow> str)
   }"

section \<open>Comparison\<close>

text \<open>The differences are taken in \<^verbatim>\<open>uint32_t\<close> and returned as \<^verbatim>\<open>int\<close>.\<close>

definition compare :: "version \<Rightarrow> version \<Rightarrow> int" where
  "compare v other =
     (if major v \<noteq> major other then sint (major v - major other)
      else if minor v \<noteq> minor other then sint (minor v - minor other)
      else if patch v \<noteq> patch other then sint (patch v - patch other)
      else if build v \<noteq> build other then sint (build v - build other)
      else if prerelease_type v \<noteq> prerelease_type other
      then int (prerelease_id (prerelease_type v)) - int (prerelease_id (prerelease_type other))
      else if prerelease_number v \<noteq> prerelease_number other
      then sint (prerelease_number v - prerelease_number other)
      else 0)"

definition version_eq :: "version \<Rightarrow> version \<Rightarrow> bool" where
  "version_eq lhs rhs \<longleftrightarrow> compare lhs rhs = 0"

definition version_gt :: "version \<Rightarrow> version \<Rightarrow> bool" where
  "version_gt lhs rhs \<longleftrightarrow> compare lhs rhs > 0"

definition version_lt :: "version \<Rightarrow> version \<Rightarrow> bool" where
  "version_lt lhs rhs \<longleftrightarrow> compare lhs rhs < 0"

section \<open>The text of a version\<close>

fun dec :: "nat \<Rightarrow> wstr" where
  "dec n = (if n < 10 then [of_nat (48 + n)] else dec (n div 10) @ [of_nat (48 + n mod 10)])"

declare dec.simps [simp del]

definition version_text :: "version \<Rightarrow> wstr" where
  "version_text v =
     dec (unat (major v)) @ lit ''.'' @ dec (unat (minor v)) @ lit ''.'' @ dec (unat (patch v))
     @ (if build v \<noteq> 0 then lit ''.'' @ dec (unat (build v)) else [])
     @ (if prerelease_type v \<noteq> pre_none
        then prerelease_text (prerelease_type v)
             @ (if prerelease_number v \<noteq> 0 then lit ''.'' @ dec (unat (prerelease_number v)) else [])
        else [])"

lemma dec_not_Nil [simp]: "dec n \<noteq> []"
  by (subst dec.simps) simp

lemma length_dec_le_iff: "0 < k \<Longrightarrow> length (dec n) \<le> k \<longleftrightarrow> n < 10 ^ k"
proof (induction n arbitrary: k rule: dec.induct)
  case (1 n)
  show ?case
  proof (cases "n < 10")
    case True
    moreover have "(10 :: nat) \<le> 10 ^ k" using power_increasing [of 1 k "10 :: nat"] "1.prems" by simp
    ultimately show ?thesis using "1.prems" by (simp add: dec.simps [of n])
  next
    case False
    from "1.prems" obtain j where k: "k = Suc j" by (cases k) auto
    show ?thesis
    proof (cases "j = 0")
      case True
      with False k show ?thesis by (simp add: dec.simps [of n] Suc_le_eq)
    next
      case j: False
      with "1.IH" [OF False, of j] False k show ?thesis
        by (simp add: dec.simps [of n] div_less_iff_less_mult mult.commute)
    qed
  qed
qed

text \<open>
  The numbers whose length the code gets wrong: the sixth bound of \<open>detail::length\<close> is
  written \<^verbatim>\<open>1000'0000\<close>, so seven digits are counted as six.
\<close>

definition seven_digits :: "u32 \<Rightarrow> bool" where
  "seven_digits x \<longleftrightarrow> 1000000 \<le> x \<and> x < 10000000"

lemma length_number_eq:
  "length (dec (unat x)) = length_number x + (if seven_digits x then 1 else 0)"
proof -
  let ?n = "unat x"
  have "?n < 2 ^ LENGTH(32)" by (rule unsigned_less)
  then have max: "?n < 10 ^ Suc 9" by simp
  have small: "length_number x = Suc k" if "10 ^ k \<le> ?n" "?n < 10 ^ Suc k" "0 < k" "k \<noteq> 6" "k < 10" for k
  proof -
    have "k = 1 \<or> k = 2 \<or> k = 3 \<or> k = 4 \<or> k = 5 \<or> k = 7 \<or> k = 8 \<or> k = 9" using that(3-5) by arith
    with that(1,2) show ?thesis
      by (elim disjE) (simp_all add: length_number_def word_less_nat_alt)
  qed
  show ?thesis
  proof (cases "?n < 10")
    case True
    then show ?thesis
      by (simp add: dec.simps [of ?n] length_number_def seven_digits_def word_less_nat_alt word_le_nat_alt)
  next
    case False
    define k where "k = length (dec ?n) - 1"
    have "\<not> length (dec ?n) \<le> 1" using False length_dec_le_iff [of 1 ?n] by simp
    then have k: "length (dec ?n) = Suc k" "0 < k" by (simp_all add: k_def)
    then have range: "10 ^ k \<le> ?n" "?n < 10 ^ Suc k"
      using length_dec_le_iff [of k ?n] length_dec_le_iff [of "Suc k" ?n] by simp_all
    have "k < 10"
      using range(1) max power_increasing_iff [of "10 :: nat" "Suc 9" k] by (simp del: power_Suc)
    show ?thesis
    proof (cases "k = 6")
      case True
      with k range show ?thesis
        by (simp add: length_number_def seven_digits_def word_less_nat_alt word_le_nat_alt)
    next
      case False
      have "\<not> seven_digits x"
      proof
        assume "seven_digits x"
        then have "10 ^ 6 \<le> ?n" "?n < 10 ^ 7" by (simp_all add: seven_digits_def word_less_nat_alt word_le_nat_alt)
        with length_dec_le_iff [of 6 ?n] length_dec_le_iff [of 7 ?n] k False show False by simp
      qed
      with small [OF range k(2) False \<open>k < 10\<close>] k show ?thesis by simp
    qed
  qed
qed

section \<open>Printing writes the text\<close>

lemma put_back_all_append:
  "put_back_all (xs @ ys) bp = do { bp \<leftarrow> put_back_all xs bp; put_back_all ys bp }"
  by (induction xs arbitrary: bp) (simp_all add: bind_assoc)

lemma put_back_all_eq:
  "p \<le> length buf \<Longrightarrow> put_back_all cs (buf, p) =
     (if length cs \<le> p then Some (memcpy buf (p - length cs) (rev cs), p - length cs) else None)"
proof (induction cs arbitrary: buf p)
  case (Cons c cs)
  show ?case
  proof (cases "length (c # cs) \<le> p")
    case True
    then obtain q where p: "p = Suc q" "length cs \<le> q" by (cases p) auto
    with Cons.prems have q: "q < length buf" by simp
    have "memcpy (buf[q := c]) (q - length cs) (rev cs) = memcpy buf (q - length cs) (rev cs @ [c])"
      using p q by (simp add: memcpy_def take_update_swap drop_update_swap [symmetric]
          Cons_nth_drop_Suc [symmetric] list_update_beyond)
    with p q Cons.IH [of q "buf[q := c]"] show ?thesis by (simp add: put_back_def)
  next
    case False
    with Cons show ?thesis by (cases p) (auto simp: put_back_def)
  qed
qed simp

lemma to_chars_digits_eq: "to_chars_digits x bp = put_back_all (rev (dec (unat x))) bp"
proof (induction x bp rule: to_chars_digits.induct)
  case (1 x bp)
  have c: "(ucast (48 + x mod 10) :: wchar) = of_nat (48 + unat x mod 10)"
  proof -
    have "unat (48 + x mod 10) = 48 + unat x mod 10"
      by (simp add: unat_word_ariths unat_mod)
    then show ?thesis by (metis of_nat_unat)
  qed
  have d: "unat (x div 10) = unat x div 10" by (simp add: unat_div)
  have z: "x div 10 \<noteq> 0 \<longleftrightarrow> \<not> unat x < 10" by (simp add: d div_eq_0_iff flip: unat_eq_0)
  show ?case
  proof (cases "x div 10 = 0")
    case True
    then have "unat x < 10" using z by simp
    with True show ?thesis
      by (simp only: to_chars_digits.simps [of x] dec.simps [of "unat x"] c Let_def if_True if_False simp_thms) simp
  next
    case False
    then have *: "dec (unat x) = dec (unat (x div 10)) @ [of_nat (48 + unat x mod 10)]"
      using z by (simp add: dec.simps [of "unat x"] d)
    have "to_chars_digits x bp = put_back (of_nat (48 + unat x mod 10)) bp \<bind> to_chars_digits (x div 10)"
      using False by (simp only: to_chars_digits.simps [of x] c Let_def not_False_eq_True if_True)
    also have "\<dots> = put_back (of_nat (48 + unat x mod 10)) bp \<bind> put_back_all (rev (dec (unat (x div 10))))"
      using "1.IH" False c by (cases "put_back (of_nat (48 + unat x mod 10)) bp") auto
    finally show ?thesis by (simp add: *)
  qed
qed

lemma to_chars_number_eq:
  "to_chars_number x dot bp = put_back_all (rev ((if dot then lit ''.'' else []) @ dec (unat x))) bp"
  by (simp add: to_chars_number_def to_chars_digits_eq put_back_all_append)

lemma to_chars_eq:
  "len \<le> length buf \<Longrightarrow>
     to_chars v buf len = do { bp \<leftarrow> put_back_all (rev (version_text v)) (buf, len); Some (Inr (fst bp)) }"
  by (cases "build v = 0"; cases "prerelease_type v = pre_none"; cases "prerelease_number v = 0")
    (simp_all add: to_chars_def to_chars_number_eq to_chars_prerelease_def version_text_def
      put_back_all_append bind_assoc)

section \<open>Parsing reads the text\<close>

lemma drop_Cons: "drop i s = c # rest \<Longrightarrow> i < length s \<and> s ! i = c \<and> drop (Suc i) s = rest"
  by (metis Cons_nth_drop_Suc drop_all list.inject not_less list.distinct(1))

lemma drop_append_shift:
  "drop i s = xs @ rest \<Longrightarrow> i \<le> length s \<Longrightarrow> drop (i + length xs) s = rest \<and> i + length xs \<le> length s"
proof -
  assume d: "drop i s = xs @ rest" and i: "i \<le> length s"
  have "length s - i = length xs + length rest" using arg_cong [OF d, of length] by simp
  with i have "i + length xs \<le> length s" by linarith
  moreover have "drop (i + length xs) s = drop (length xs) (drop i s)" by (simp add: add.commute)
  ultimately show ?thesis by (simp add: d)
qed

lemma drop_Nil_end: "drop i s = [] \<Longrightarrow> i \<le> length s \<Longrightarrow> i = length s"
  by simp

definition no_digit :: "wstr \<Rightarrow> bool" where
  "no_digit s \<longleftrightarrow> (case s of [] \<Rightarrow> True | c # _ \<Rightarrow> \<not> is_digit c)"

lemma digit_chars:
  assumes "n < 10"
  shows "is_digit (48 + of_nat n) \<and> unat (to_digit (48 + of_nat n)) = n"
proof -
  have "n \<in> {0, 1, 2, 3, 4, 5, 6, 7, 8, 9}" using assms by auto
  then show ?thesis by (auto simp: is_digit_def to_digit_def)
qed

lemma digits_loop_append:
  assumes "drop i s = ds @ rest" and "i \<le> length s" and "\<forall>c\<in>set ds. is_digit c"
    and "foldl (\<lambda>t c. t * 10 + unat (to_digit c)) t ds < 2 ^ 63"
  shows "digits_loop s i t = digits_loop s (i + length ds) (foldl (\<lambda>t c. t * 10 + unat (to_digit c)) t ds)"
  using assms
proof (induction ds arbitrary: i t)
  case (Cons c ds)
  have c: "i < length s" "s ! i = c" "drop (Suc i) s = ds @ rest"
    using drop_Cons [of i s c "ds @ rest"] Cons.prems(1) by simp_all
  let ?t = "t * 10 + unat (to_digit c)"
  have mono: "u \<le> foldl (\<lambda>t c. t * 10 + unat (to_digit c)) u cs" for u :: nat and cs :: wstr
  proof (induction cs arbitrary: u)
    case (Cons a cs)
    have "u \<le> u * 10 + unat (to_digit a)" by simp
    also have "\<dots> \<le> foldl (\<lambda>t c. t * 10 + unat (to_digit c)) (u * 10 + unat (to_digit a)) cs" by (rule Cons.IH)
    finally show ?case by simp
  qed simp
  have "?t < 2 ^ 63" using mono [of ?t ds] Cons.prems(4) by simp
  then have "digits_loop s i t = digits_loop s (Suc i) ?t"
    using c Cons.prems(3) by (subst digits_loop.simps) (simp add: Let_def)
  with Cons.IH [of "Suc i" ?t] c Cons.prems show ?case by simp
qed simp

lemma dec_digits: "c \<in> set (dec n) \<Longrightarrow> is_digit c"
  by (induction n rule: dec.induct) (subst (asm) (2) dec.simps, auto simp: digit_chars split: if_splits)

lemma dec_value: "foldl (\<lambda>t c. t * 10 + unat (to_digit c)) 0 (dec n) = n"
proof (induction n rule: dec.induct)
  case (1 n)
  then show ?case by (subst dec.simps) (simp add: digit_chars)
qed

lemma from_chars_number_dec:
  assumes "drop i s = dec n @ rest" and "i \<le> length s" and "no_digit rest" and "n \<le> 0xFFFFFFFF"
  shows "from_chars_number s i d = Some (Some (i + length (dec n)), of_nat n)"
proof -
  obtain c cs where dn: "dec n = c # cs" by (cases "dec n") simp_all
  have c: "i < length s" "s ! i = c" using drop_Cons [of i s c "cs @ rest"] assms(1) dn by simp_all
  have "is_digit c" using dec_digits [of c n] dn by simp
  note rest = drop_append_shift [OF assms(1,2)]
  have "digits_loop s i 0 = digits_loop s (i + length (dec n)) n"
    using digits_loop_append [OF assms(1,2), of 0] dec_digits [of _ n] assms(4) by (simp add: dec_value)
  also have "\<dots> = Some (i + length (dec n), n)"
  proof (cases rest)
    case Nil
    with rest show ?thesis by (subst digits_loop.simps) simp
  next
    case (Cons a as)
    with rest drop_Cons [of "i + length (dec n)" s a as] assms(3) show ?thesis
      by (subst digits_loop.simps) (simp add: no_digit_def)
  qed
  finally show ?thesis using c \<open>is_digit c\<close> assms(4) by (simp add: from_chars_number_def)
qed

lemma check_delimiter_Cons: "drop i s = c # rest \<Longrightarrow> check_delimiter s (Some i) d = Some (c = d)"
  by (auto simp: check_delimiter_def dest: drop_Cons)

lemma equals_zip:
  "first \<le> length s \<Longrightarrow> equals s first str i \<longleftrightarrow>
     list_all (\<lambda>(a, b). to_lower a = to_lower b) (zip (drop first s) (drop i str))"
proof (induction s first str i rule: equals.induct)
  case (1 s first str i)
  show ?case
  proof (cases "first \<noteq> length s \<and> i < length str")
    case True
    with 1 have "drop first s = s ! first # drop (Suc first) s" "drop i str = str ! i # drop (Suc i) str"
      by (simp_all add: Cons_nth_drop_Suc)
    with 1 True show ?thesis by (subst equals.simps) auto
  qed (subst equals.simps, auto)
qed

lemma from_chars_prerelease_text:
  assumes "drop i s = prerelease_text t @ rest" and "i \<le> length s" and "t \<noteq> pre_none"
  shows "from_chars_prerelease s i p = (Some (i + length (prerelease_text t)), t)"
  using assms
  by (cases t) (simp_all add: from_chars_prerelease_def equals_zip prerelease_text_def Alpha_def Beta_def RC_def
      ch_def to_lower_def)

definition prerelease_suffix :: "prerelease \<Rightarrow> u32 \<Rightarrow> wstr" where
  "prerelease_suffix t n =
     (if t = pre_none then [] else prerelease_text t @ (if n \<noteq> 0 then lit ''.'' @ dec (unat n) else []))"

lemma unat_u32_max: "unat (n :: u32) \<le> 0xFFFFFFFF"
proof -
  have "unat n < 2 ^ LENGTH(32)" by (rule unsigned_less)
  then show ?thesis by simp
qed

lemma dash_char: "t \<noteq> pre_none \<Longrightarrow> \<exists>cs. prerelease_text t = ch CHR ''-'' # cs"
  by (cases t) (simp_all add: prerelease_text_def Alpha_def Beta_def RC_def)

lemma from_chars_tail_text:
  assumes "drop i s = prerelease_suffix t n" and "i \<le> length s" and t: "t \<noteq> pre_none"
  shows "from_chars_tail s (Some i) v = Some (True, v\<lparr>prerelease_type := t, prerelease_number := n\<rparr>)"
proof -
  define rest where "rest = (if n \<noteq> 0 then lit ''.'' @ dec (unat n) else [])"
  have d: "drop i s = prerelease_text t @ rest" using assms(1) t by (simp add: prerelease_suffix_def rest_def)
  obtain cs where cs: "prerelease_text t = ch CHR ''-'' # cs" using dash_char [OF t] by blast
  have dash: "check_delimiter s (Some i) (ch CHR ''-'') = Some True"
    using check_delimiter_Cons [of i s "ch CHR ''-''" "cs @ rest"] d cs by simp
  let ?j = "i + length (prerelease_text t)"
  note j = drop_append_shift [OF d assms(2)]
  show ?thesis
  proof (cases "n = 0")
    case True
    with j have "?j = length s" by (simp add: rest_def)
    with True show ?thesis by (simp add: from_chars_tail_def dash from_chars_prerelease_text [OF d assms(2) t])
  next
    case False
    with j have r: "drop ?j s = ch CHR ''.'' # dec (unat n)" by (simp add: rest_def)
    note num = from_chars_number_dec [of "Suc ?j" s "unat n" "[]" "prerelease_number v"]
    have e: "?j < length s" "drop (Suc ?j) s = dec (unat n) @ []" using drop_Cons [OF r] by simp_all
    have "length s - Suc ?j = length (dec (unat n))" by (metis e(2) length_drop append_Nil2)
    with e have "length s = Suc ?j + length (dec (unat n))" by linarith
    then show ?thesis
      using e num check_delimiter_Cons [OF r, of "ch CHR ''.''"] unat_u32_max [of n]
      by (simp add: from_chars_tail_def dash from_chars_prerelease_text [OF d assms(2) t] no_digit_def)
  qed
qed

lemma no_digit_lit [simp]: "no_digit (ch CHR ''.'' # xs)" "no_digit []"
  by (simp_all add: no_digit_def is_digit_def ch_def)

lemma no_digit_suffix: "no_digit (prerelease_suffix t n)"
  by (cases t) (simp_all add: prerelease_suffix_def prerelease_text_def Alpha_def Beta_def RC_def no_digit_def
      is_digit_def ch_def)

lemma dot_not_dash: "(ch CHR ''-'' :: wchar) \<noteq> ch CHR ''.''"
  by (simp add: ch_def)

text \<open>A number followed by more text.\<close>

lemma from_chars_field:
  assumes "drop i s = dec (unat x) @ rest" and "i \<le> length s" and "no_digit rest"
  obtains j where "from_chars_number s i d = Some (Some j, x)" and "drop j s = rest" and "j \<le> length s"
proof (rule that)
  show "from_chars_number s i d = Some (Some (i + length (dec (unat x))), x)"
    using from_chars_number_dec [OF assms unat_u32_max, of d] by simp
qed (use drop_append_shift [OF assms(1,2)] in simp_all)

lemma from_chars_patch_text:
  assumes d: "drop i s = dec (unat x) @ (if y \<noteq> 0 then lit ''.'' @ dec (unat y) else []) @ prerelease_suffix t n"
    and i: "i \<le> length s" and v: "build v = 0" "prerelease_type v = pre_none" "prerelease_number v = 0"
    and n: "t = pre_none \<longrightarrow> n = 0"
  shows "from_chars_patch s i v =
     Some (True, v\<lparr>patch := x, build := y, prerelease_type := t, prerelease_number := n\<rparr>)"
proof -
  let ?rest = "(if y \<noteq> 0 then lit ''.'' @ dec (unat y) else []) @ prerelease_suffix t n"
  have "no_digit ?rest" using no_digit_suffix [of t n] by simp
  with d i obtain j where j: "from_chars_number s i (patch v) = Some (Some j, x)" "drop j s = ?rest" "j \<le> length s"
    by (rule from_chars_field)
  show ?thesis
  proof (cases "y = 0")
    case True
    show ?thesis
    proof (cases "t = pre_none")
      case none: True
      with j True have "j = length s" by (simp add: prerelease_suffix_def)
      with j v n none True show ?thesis by (simp add: from_chars_patch_def)
    next
      case t: False
      obtain cs where cs: "prerelease_text t = ch CHR ''-'' # cs" using dash_char [OF t] by blast
      have suffix: "drop j s = prerelease_suffix t n" using j True by simp
      then have "j < length s" "check_delimiter s (Some j) (ch CHR ''.'') = Some False"
        using check_delimiter_Cons [of j s "ch CHR ''-''"] t cs dot_not_dash
        by (auto simp: prerelease_suffix_def dest: drop_Cons)
      with j True v from_chars_tail_text [OF suffix j(3) t] show ?thesis by (simp add: from_chars_patch_def)
    qed
  next
    case y: False
    with j have dot: "drop j s = ch CHR ''.'' # dec (unat y) @ prerelease_suffix t n" by simp
    note dd = drop_Cons [OF dot]
    from dd have "Suc j \<le> length s" by simp
    with dd obtain k where k: "from_chars_number s (Suc j) (build v) = Some (Some k, y)"
        "drop k s = prerelease_suffix t n" "k \<le> length s"
      using from_chars_field [of "Suc j" s y "prerelease_suffix t n"] no_digit_suffix [of t n] by metis
    have "j \<noteq> length s" using dd by simp
    note step = j(1) check_delimiter_Cons [OF dot] k(1) \<open>j \<noteq> length s\<close>
    show ?thesis
    proof (cases "t = pre_none")
      case True
      with k have "k = length s" by (simp add: prerelease_suffix_def)
      with step True n v show ?thesis by (simp add: from_chars_patch_def)
    next
      case t: False
      obtain cs where "prerelease_text t = ch CHR ''-'' # cs" using dash_char [OF t] by blast
      with k t have "k \<noteq> length s" by (auto simp: prerelease_suffix_def)
      with step t from_chars_tail_text [OF k(2,3) t] show ?thesis by (simp add: from_chars_patch_def)
    qed
  qed
qed

lemma from_chars_text:
  assumes "prerelease_type v = pre_none \<longrightarrow> prerelease_number v = 0"
  shows "from_chars (version_text v) version_default = Some (True, v)"
proof -
  let ?s = "version_text v"
  let ?p = "dec (unat (patch v)) @ (if build v \<noteq> 0 then lit ''.'' @ dec (unat (build v)) else [])
     @ prerelease_suffix (prerelease_type v) (prerelease_number v)"
  have "drop 0 ?s = dec (unat (major v)) @ (ch CHR ''.'' # dec (unat (minor v)) @ ch CHR ''.'' # ?p)"
    by (simp add: version_text_def prerelease_suffix_def)
  then obtain i where i: "from_chars_number ?s 0 (major version_default) = Some (Some i, major v)"
      "drop i ?s = ch CHR ''.'' # dec (unat (minor v)) @ ch CHR ''.'' # ?p"
    by (rule from_chars_field) simp_all
  note di = drop_Cons [OF i(2)]
  then obtain j where j: "from_chars_number ?s (Suc i) (minor version_default) = Some (Some j, minor v)"
      "drop j ?s = ch CHR ''.'' # ?p"
    using from_chars_field [of "Suc i" ?s "minor v" "ch CHR ''.'' # ?p" "minor version_default"]
    by (metis Suc_leI no_digit_lit(1))
  note dj = drop_Cons [OF j(2)]
  have "\<not> length ?s < 1" using dj by auto
  with i j check_delimiter_Cons [OF i(2)] check_delimiter_Cons [OF j(2)]
    from_chars_patch_text [of "Suc j" ?s "patch v" "build v" "prerelease_type v" "prerelease_number v"
      "version_default\<lparr>major := major v, minor := minor v\<rparr>"] dj assms
  show ?thesis by (simp add: from_chars_def version_default_def)
qed

lemma version_text_chars:
  "version_text v \<noteq> [] \<and> \<not> version_prefix (version_text v ! 0) \<and> ch CHR ''/'' \<notin> set (version_text v)"
proof -
  obtain c cs where m: "dec (unat (major v)) = c # cs" by (cases "dec (unat (major v))") simp_all
  have "is_digit c" using dec_digits [of c "unat (major v)"] m by simp
  then have "\<not> version_prefix c" by (auto simp: is_digit_def version_prefix_def ch_def)
  moreover have "\<not> is_digit (ch CHR ''/'')" by (simp add: is_digit_def ch_def)
  then have "ch CHR ''/'' \<notin> set (dec n)" for n using dec_digits by blast
  moreover have "ch CHR ''/'' \<notin> set (prerelease_text t)" for t
    by (cases t) (simp_all add: prerelease_text_def Alpha_def Beta_def RC_def ch_def)
  moreover have "(ch CHR ''/'' :: wchar) \<noteq> ch CHR ''.''" by (simp add: ch_def)
  ultimately have "ch CHR ''/'' \<notin> set (version_text v)" by (simp add: version_text_def)
  with \<open>\<not> version_prefix c\<close> show ?thesis by (simp add: version_text_def m) blast
qed

lemma make_version_text:
  "prerelease_type v = pre_none \<longrightarrow> prerelease_number v = 0 \<Longrightarrow>
   from_string_noexcept (version_text v) version_default = Some (True, v)"
proof -
  have "find_from (\<lambda>c. c = ch CHR ''/'') (version_text v) 0 = None"
    using version_text_chars [of v] by (auto simp: find_from_None_iff)
  then show "prerelease_type v = pre_none \<longrightarrow> prerelease_number v = 0 \<Longrightarrow> ?thesis"
    using version_text_chars [of v] from_chars_text [of v] by (simp add: from_string_noexcept_def)
qed

text \<open>The printed components.\<close>

definition printed_numbers :: "version \<Rightarrow> u32 list" where
  "printed_numbers v = [major v, minor v, patch v]
     @ (if build v \<noteq> 0 then [build v] else [])
     @ (if prerelease_type v \<noteq> pre_none \<and> prerelease_number v \<noteq> 0 then [prerelease_number v] else [])"

lemma length_version_text:
  "length (version_text v) = string_length v + length (filter seven_digits (printed_numbers v))"
proof -
  have "length (prerelease_text t) = length_prerelease t + (if t \<noteq> pre_none then 1 else 0)" for t
    by (cases t) (simp_all add: prerelease_text_def length_prerelease_def Alpha_def Beta_def RC_def)
  then show ?thesis
    by (simp add: version_text_def string_length_def printed_numbers_def length_number_eq)
qed

lemma make_string_version_eq:
  "make_string_version v = (if \<exists>x\<in>set (printed_numbers v). seven_digits x then None else Some (version_text v))"
proof (cases "\<exists>x\<in>set (printed_numbers v). seven_digits x")
  case True
  then have "filter seven_digits (printed_numbers v) \<noteq> []" by (auto simp: filter_empty_conv)
  then have "string_length v < length (version_text v)" by (simp add: length_version_text)
  with True show ?thesis by (simp add: make_string_version_def to_chars_eq put_back_all_eq)
next
  case False
  then have "filter seven_digits (printed_numbers v) = []" by (auto simp: filter_empty_conv)
  then have "length (version_text v) = string_length v" by (simp add: length_version_text)
  with False show ?thesis by (simp add: make_string_version_def to_chars_eq put_back_all_eq memcpy_def)
qed

section \<open>Round trip\<close>

text \<open>
  C14: Printing a version and parsing the text gives the version back, with success
  reported, for every version in normal form (no pre-release number without a pre-release
  tag) none of whose printed numbers has seven digits.
\<close>

theorem semver_roundtrip:
  assumes "prerelease_type v = pre_none \<longrightarrow> prerelease_number v = 0"
    and "\<forall>x\<in>set (printed_numbers v). \<not> seven_digits x"
  shows "\<exists>s. make_string_version v = Some s \<and> from_string_noexcept s version_default = Some (True, v)
    \<and> make_version s = Some v"
  using assms make_version_text [of v] by (auto simp: make_string_version_eq make_version_def)

theorem semver_roundtrip_witness:
  "\<exists>s. make_string_version \<lparr>major = 12, minor = 0, patch = 7, build = 3, prerelease_type = pre_rc, prerelease_number = 2\<rparr>
      = Some s \<and> s = lit ''12.0.7.3-rc.2''
    \<and> make_version s = Some \<lparr>major = 12, minor = 0, patch = 7, build = 3, prerelease_type = pre_rc, prerelease_number = 2\<rparr>"
proof -
  let ?v = "\<lparr>major = 12, minor = 0, patch = 7, build = 3, prerelease_type = pre_rc, prerelease_number = 2\<rparr> :: version"
  have "\<exists>s. make_string_version ?v = Some s \<and> from_string_noexcept s version_default = Some (True, ?v)
      \<and> make_version s = Some ?v"
    by (rule semver_roundtrip) (simp_all add: printed_numbers_def seven_digits_def)
  moreover have "make_string_version ?v = Some (lit ''12.0.7.3-rc.2'')" by code_simp
  ultimately show ?thesis by auto
qed

text \<open>
  C31: The buffer of \<open>make_string_version\<close> and the text it prints. The size \<open>string_length\<close> gives
  the buffer is the length of the text less one for every printed number of seven digits. So
  without such a number the size is exact and the result is the whole text, and with one the
  buffer is too small and \<open>to_chars\<close> writes in front of it.
\<close>

theorem make_string_version_stays_in_buffer:
  "string_length v = length (version_text v) - length (filter (\<lambda>x. 1000000 \<le> x \<and> x < 10000000) (printed_numbers v))
    \<and> length (filter (\<lambda>x. 1000000 \<le> x \<and> x < 10000000) (printed_numbers v)) \<le> length (version_text v)
    \<and> make_string_version v = (if \<exists>x\<in>set (printed_numbers v). 1000000 \<le> x \<and> x < 10000000 then None else Some (version_text v))"
proof -
  have f: "seven_digits = (\<lambda>x. 1000000 \<le> x \<and> x < 10000000)" by (auto simp: seven_digits_def)
  show ?thesis using length_version_text [of v] make_string_version_eq [of v] by (auto simp: f)
qed

theorem make_string_version_stays_in_buffer_witness:
  "make_string_version (version_default\<lparr>major := 1234567\<rparr>) = None
   \<and> make_string_version (version_default\<lparr>major := 123456\<rparr>) = Some (lit ''123456.0.0'')
   \<and> string_length (version_default\<lparr>major := 1234567\<rparr>) = 10"
proof -
  have "printed_numbers (version_default\<lparr>major := 1234567\<rparr>) = [1234567, 0, 0]"
    "printed_numbers (version_default\<lparr>major := 123456\<rparr>) = [123456, 0, 0]"
    "version_text (version_default\<lparr>major := 123456\<rparr>) = lit ''123456.0.0''"
    "length (version_text (version_default\<lparr>major := 1234567\<rparr>)) = 11"
    by (simp_all add: printed_numbers_def version_text_def version_default_def dec.simps ch_def)
  then show ?thesis
    using make_string_version_stays_in_buffer [of "version_default\<lparr>major := 1234567\<rparr>"]
      make_string_version_stays_in_buffer [of "version_default\<lparr>major := 123456\<rparr>"] by simp
qed

section \<open>The order on versions\<close>

definition version_key :: "version \<Rightarrow> nat list" where
  "version_key v = [unat (major v), unat (minor v), unat (patch v), unat (build v),
     prerelease_id (prerelease_type v), unat (prerelease_number v)]"

text \<open>Every component is in the non-negative range of \<^verbatim>\<open>int\<close>.\<close>

definition version_small :: "version \<Rightarrow> bool" where
  "version_small v \<longleftrightarrow> (\<forall>n\<in>set (version_key v). n < 2 ^ 31)"

lemma prerelease_id_inject [simp]: "prerelease_id t = prerelease_id t' \<longleftrightarrow> t = t'"
  by (cases t; cases t') (simp_all add: prerelease_id_def)

lemma version_key_inject: "version_key v = version_key w \<longleftrightarrow> v = w"
  by (cases v; cases w) (simp add: version_key_def word_unat_eq_iff)

lemma sint_diff_small:
  assumes "unat x < 2 ^ 31" and "unat y < 2 ^ 31"
  shows "sint (x - y :: u32) = int (unat x) - int (unat y)"
proof -
  have "sint (x - y) = signed_take_bit 31 (take_bit 32 (uint x - uint y))"
    by (simp add: sint_uint uint_word_ariths take_bit_eq_mod)
  also have "\<dots> = signed_take_bit 31 (uint x - uint y)" by (simp add: signed_take_bit_take_bit)
  also have "\<dots> = uint x - uint y"
  proof (rule signed_take_bit_int_eq_self)
    have "int (unat x) < 2 ^ 31" "int (unat y) < 2 ^ 31" using assms by (simp_all only: of_nat_less_numeral_power_cancel_iff)
    then show "- (2 ^ 31) \<le> uint x - uint y" "uint x - uint y < 2 ^ 31"
      using uint_ge_0 [of x] uint_ge_0 [of y] unfolding uint_nat by linarith+
  qed
  finally show ?thesis unfolding uint_nat .
qed

fun key_diff :: "nat list \<Rightarrow> nat list \<Rightarrow> int" where
  "key_diff (x # xs) (y # ys) = (if x \<noteq> y then int x - int y else key_diff xs ys)"
| "key_diff _ _ = 0"

lemma key_diff_lexordp:
  "length xs = length ys \<Longrightarrow>
     (key_diff xs ys < 0 \<longleftrightarrow> ord_class.lexordp xs ys) \<and> (key_diff xs ys > 0 \<longleftrightarrow> ord_class.lexordp ys xs)
     \<and> (key_diff xs ys = 0 \<longleftrightarrow> xs = ys)"
  by (induction xs ys rule: list_induct2) auto

lemma compare_key_diff:
  assumes "version_small v" and "version_small w"
  shows "compare v w = key_diff (version_key v) (version_key w)"
proof -
  from assms have small: "unat (major v) < 2 ^ 31" "unat (major w) < 2 ^ 31" "unat (minor v) < 2 ^ 31"
      "unat (minor w) < 2 ^ 31" "unat (patch v) < 2 ^ 31" "unat (patch w) < 2 ^ 31"
      "unat (build v) < 2 ^ 31" "unat (build w) < 2 ^ 31"
      "unat (prerelease_number v) < 2 ^ 31" "unat (prerelease_number w) < 2 ^ 31"
    by (simp_all add: version_small_def version_key_def)
  show ?thesis
    by (simp add: compare_def sint_diff_small [OF small(1,2)] sint_diff_small [OF small(3,4)]
        sint_diff_small [OF small(5,6)] sint_diff_small [OF small(7,8)] sint_diff_small [OF small(9,10)]
        version_key_def word_unat_eq_iff)
qed

lemma length_version_key [simp]: "length (version_key v) = 6"
  by (simp add: version_key_def)

lemma compare_key:
  assumes "version_small v" and "version_small w"
  shows "(version_lt v w \<longleftrightarrow> ord_class.lexordp (version_key v) (version_key w))
    \<and> (version_gt v w \<longleftrightarrow> ord_class.lexordp (version_key w) (version_key v)) \<and> (version_eq v w \<longleftrightarrow> v = w)"
  using key_diff_lexordp [of "version_key v" "version_key w"]
  by (simp add: version_lt_def version_gt_def version_eq_def compare_key_diff [OF assms] version_key_inject)

text \<open>
  C15: On versions whose components are below two to the 31, the comparison operators are the
  lexicographic order of the components, a pre-release tag ordered before the release and
  \<open>alpha\<close> before \<open>beta\<close> before \<open>rc\<close>; two versions compare equal only when they are the same.
\<close>

theorem semver_compare_order:
  assumes "version_small v" and "version_small w"
  shows "(version_lt v w \<longleftrightarrow> ord_class.lexordp (version_key v) (version_key w))
    \<and> (version_gt v w \<longleftrightarrow> version_lt w v) \<and> (version_eq v w \<longleftrightarrow> v = w)
    \<and> (version_lt v w \<or> version_eq v w \<or> version_gt v w)"
  using compare_key [OF assms] compare_key [OF assms(2,1)]
  by (auto simp: version_lt_def version_eq_def version_gt_def)

theorem semver_compare_order_witness:
  "version_lt (version_default\<lparr>major := 1, prerelease_type := pre_beta\<rparr>) (version_default\<lparr>major := 1\<rparr>)"
proof -
  have "version_small (version_default\<lparr>major := 1, prerelease_type := pre_beta\<rparr>)"
    "version_small (version_default\<lparr>major := 1\<rparr>)"
    by (simp_all add: version_small_def version_key_def version_default_def prerelease_id_def)
  from semver_compare_order [OF this] show ?thesis
    by (simp add: version_key_def version_default_def prerelease_id_def)
qed

text \<open>Beyond that range the difference changes sign and the newer version is the smaller one.\<close>

lemma semver_compare_wraps:
  "version_lt (version_default\<lparr>major := 3000000000\<rparr>) (version_default\<lparr>major := 1\<rparr>)"
  by (simp add: version_lt_def compare_def version_default_def)

text \<open>An incomplete pre-release tag makes \<open>from_chars\<close> read behind the end of the string.\<close>

lemma semver_prerelease_overread: "make_version (lit ''1.0-a'') = None"
  by (simp add: make_version_def from_string_noexcept_def find_from.simps version_prefix_def from_chars_def
      from_chars_number_def digits_loop.simps is_digit_def to_digit_def check_delimiter_def from_chars_tail_def
      from_chars_prerelease_def equals_zip Alpha_def to_lower_def ch_def version_default_def Let_def)

end
