(* ===== verification/Baulk_Package.thy ===== *)
theory Baulk_Package
  imports Bela_Path Bela_Semver
begin

text \<open>
  Package metadata: the JSON getters of \<^verbatim>\<open>include/baulk/json_utils.hpp\<close>, the package records of
  \<^verbatim>\<open>tools/baulk/baulk.hpp\<close>, the readers of bucket and lock files in \<^verbatim>\<open>tools/baulk/metadata.cc\<close>,
  \<^verbatim>\<open>bucket.cc\<close> and \<^verbatim>\<open>pkg.cc\<close>, the choice among the buckets, the choice of the download address
  in \<^verbatim>\<open>lib/net/speed.cc\<close> and the comparison of hashes in \<^verbatim>\<open>lib/misc/hash.cc\<close>. A result of
  \<open>None\<close> stands for an exception that no caller catches or for a read outside a string.
\<close>

section \<open>Text\<close>

definition ascii_tolower :: "wchar \<Rightarrow> wchar" where
  "ascii_tolower c = (if c \<ge> 65 \<and> c \<le> 90 then c + 32 else c)"

definition ascii_toupper :: "wchar \<Rightarrow> wchar" where
  "ascii_toupper c = (if c \<ge> 97 \<and> c \<le> 122 then c - 32 else c)"

definition EqualsIgnoreCase :: "wstr \<Rightarrow> wstr \<Rightarrow> bool" where
  "EqualsIgnoreCase piece1 piece2 \<longleftrightarrow>
     length piece1 = length piece2 \<and> (\<forall>(c, d)\<in>set (zip piece1 piece2). ascii_tolower c = ascii_tolower d)"

definition EndsWithIgnoreCase :: "wstr \<Rightarrow> wstr \<Rightarrow> bool" where
  "EndsWithIgnoreCase text suffix \<longleftrightarrow>
     length text \<ge> length suffix \<and> EqualsIgnoreCase (drop (length text - length suffix) text) suffix"

definition FromSlash :: "wstr \<Rightarrow> wstr" where
  "FromSlash s = map (\<lambda>c. if c = ch CHR ''/'' then backslash else c) s"

section \<open>JSON values\<close>

datatype json = JNull | JBoolean bool | JInteger int | JFloat | JString "byte list"
  | JArray "json list" | JObject "(byte list \<times> json) list"

fun json_find :: "json \<Rightarrow> byte list \<Rightarrow> json option" where
  "json_find (JObject members) key = map_of members key"
| "json_find _ key = None"

text \<open>\<open>get<std::string_view>()\<close> throws when the value is not a string.\<close>

fun json_string :: "json \<Rightarrow> byte list option" where
  "json_string (JString s) = Some s"
| "json_string _ = None"

fun json_strings :: "json list \<Rightarrow> byte list list option" where
  "json_strings [] = Some []"
| "json_strings (j # os) = do { s \<leftarrow> json_string j; ss \<leftarrow> json_strings os; Some (s # ss) }"

definition jget :: "json \<Rightarrow> byte list \<Rightarrow> wstr \<Rightarrow> wstr" where
  "jget obj key dv = (case json_find obj key of Some (JString s) \<Rightarrow> encode_into_16 s | _ \<Rightarrow> dv)"

definition get_strings_checked :: "json \<Rightarrow> byte list \<Rightarrow> wstr list \<Rightarrow> (bool \<times> wstr list) option" where
  "get_strings_checked obj name v =
     (case json_find obj name of
        Some (JString s) \<Rightarrow> Some (True, v @ [encode_into_16 s])
      | Some (JArray os) \<Rightarrow> do { ss \<leftarrow> json_strings os; Some (True, v @ map encode_into_16 ss) }
      | _ \<Rightarrow> Some (False, v))"

definition get_as_integer :: "json \<Rightarrow> byte list \<Rightarrow> u32 \<Rightarrow> u32" where
  "get_as_integer obj name dv = (case json_find obj name of Some (JInteger i) \<Rightarrow> word_of_int i | _ \<Rightarrow> dv)"

text \<open>The paths are text or links; \<open>mk\<close> is the constructor that \<open>emplace_back\<close> calls.\<close>

definition get_paths_checked :: "(wstr \<Rightarrow> 'a) \<Rightarrow> json \<Rightarrow> byte list \<Rightarrow> 'a list \<Rightarrow> (bool \<times> 'a list) option" where
  "get_paths_checked mk obj name paths =
     (case json_find obj name of
        None \<Rightarrow> Some (False, paths)
      | Some (JString s) \<Rightarrow> Some (True, paths @ [mk (FromSlash (encode_into_16 s))])
      | Some (JArray os) \<Rightarrow> do {
          ss \<leftarrow> json_strings os;
          Some (True, paths @ map (\<lambda>s. mk (FromSlash (encode_into_16 s))) ss) }
      | Some _ \<Rightarrow> Some (True, paths))"

definition subview :: "json \<Rightarrow> byte list \<Rightarrow> json option" where
  "subview obj name = (case json_find obj name of Some (JObject m) \<Rightarrow> Some (JObject m) | _ \<Rightarrow> None)"

section \<open>Buckets and packages\<close>

datatype BucketObserveMode = Github | Git
datatype BucketVariant = Native | Scoop

record Bucket =
  bucket_description :: wstr
  bucket_name :: wstr
  bucket_url :: wstr
  bucket_weights :: int
  bucket_mode :: BucketObserveMode
  bucket_variant :: BucketVariant

record LinkMeta =
  link_path :: wstr
  link_alias :: wstr

definition make_LinkMeta :: "wstr \<Rightarrow> LinkMeta" where
  "make_LinkMeta sv =
     (case find_from (\<lambda>c. c = ch CHR ''@'') sv 0 of
        Some pos \<Rightarrow> \<lparr>link_path = take pos sv, link_alias = drop (pos + 1) sv\<rparr>
      | None \<Rightarrow> \<lparr>link_path = sv, link_alias = BaseName sv\<rparr>)"

record PackageEnv =
  category :: wstr
  env_paths :: "wstr list"
  env_includes :: "wstr list"
  libs :: "wstr list"
  envs :: "wstr list"
  dependencies :: "wstr list"
  mkdirs :: "wstr list"

definition PackageEnv_empty :: "PackageEnv \<Rightarrow> bool" where
  "PackageEnv_empty e \<longleftrightarrow> env_paths e = [] \<and> env_includes e = [] \<and> libs e = [] \<and> envs e = [] \<and> dependencies e = []"

definition MaskNone :: u32 where "MaskNone = 0"
definition MaskCompatibilityMode :: u32 where "MaskCompatibilityMode = 1"

record Package =
  pkg_name :: wstr
  description :: wstr
  pkg_version :: wstr
  bucket :: wstr
  extension :: wstr
  homepage :: wstr
  pkg_notes :: wstr
  license :: wstr
  hash :: wstr
  urls :: "wstr list"
  forceDeletes :: "wstr list"
  suggest :: "wstr list"
  links :: "LinkMeta list"
  launchers :: "LinkMeta list"
  venv :: PackageEnv
  weights :: int
  variant :: BucketVariant
  pkg_mask :: u32

definition PackageEnv_default :: PackageEnv where
  "PackageEnv_default = \<lparr>category = [], env_paths = [], env_includes = [], libs = [], envs = [], dependencies = [], mkdirs = []\<rparr>"

definition Package_default :: Package where
  "Package_default = \<lparr>pkg_name = [], description = [], pkg_version = [], bucket = [], extension = [], homepage = [],
     pkg_notes = [], license = [], hash = [], urls = [], forceDeletes = [], suggest = [], links = [], launchers = [],
     venv = PackageEnv_default, weights = 0, variant = Native, pkg_mask = MaskNone\<rparr>"

section \<open>Reading package metadata\<close>

text \<open>
  What the readers take from their surroundings: the parser for files, the directories of
  the installation, the architecture the program is compiled for and the loaded buckets.
\<close>

record host =
  parse_json_file :: "wstr \<Rightarrow> json option"
  AppBuckets :: wstr
  AppLocks :: wstr
  host_architecture :: "byte list"
  LoadedBuckets :: "Bucket list"

datatype meta_error = ErrJsonFile | ErrNotYetPort | ErrPackageNotYetPorted

definition PackageMetaJoinNative :: "host \<Rightarrow> Bucket \<Rightarrow> wstr \<Rightarrow> wstr" where
  "PackageMetaJoinNative h b pkgName =
     AppBuckets h @ [backslash] @ bucket_name b @ [backslash] @ lit ''bucket'' @ [backslash] @ pkgName @ lit ''.json''"

definition getArchURL :: "json \<Rightarrow> json \<Rightarrow> byte list \<Rightarrow> Package \<Rightarrow> (bool \<times> Package) option" where
  "getArchURL jv jv' arch pkg =
     (case subview jv' arch of
        None \<Rightarrow> Some (False, pkg)
      | Some av \<Rightarrow> do {
          let pkg = pkg\<lparr>urls := urls pkg @ [jget av (lit ''url'') []], hash := jget av (lit ''hash'') []\<rparr>;
          (_, ls) \<leftarrow> get_paths_checked make_LinkMeta jv (lit ''links'') (links pkg);
          (_, la) \<leftarrow> get_paths_checked make_LinkMeta jv (lit ''launchers'') (launchers pkg);
          Some (True, pkg\<lparr>links := ls, launchers := la\<rparr>) })"

text \<open>The action of \<open>bela::finally\<close> runs on every way out of \<open>resolveNativeURL\<close>.\<close>

definition resolve_links :: "json \<Rightarrow> Package \<Rightarrow> Package option" where
  "resolve_links jv pkg = do {
     (_, ls) \<leftarrow> (if links pkg = [] then get_paths_checked make_LinkMeta jv (lit ''links'') [] else Some (False, links pkg));
     (_, la) \<leftarrow> (if launchers pkg = [] then get_paths_checked make_LinkMeta jv (lit ''launchers'') []
                else Some (False, launchers pkg));
     Some (pkg\<lparr>links := ls, launchers := la\<rparr>) }"

definition resolveNativeURL :: "host \<Rightarrow> Package \<Rightarrow> json \<Rightarrow> Package option" where
  "resolveNativeURL h pkg jv = do {
     pkg \<leftarrow> (case subview jv (lit ''architecture'') of
        None \<Rightarrow> Some pkg
      | Some sv \<Rightarrow> do {
          (found, pkg) \<leftarrow> getArchURL jv sv (host_architecture h) pkg;
          if found then Some pkg
          else do {
            (found, pkg) \<leftarrow> (if host_architecture h = lit ''arm64'' then getArchURL jv sv (lit ''64bit'') pkg
                            else Some (False, pkg));
            if found then Some pkg else map_option snd (getArchURL jv sv (lit ''32bit'') pkg) } });
     resolve_links jv pkg }"

definition read_venv :: "json \<Rightarrow> PackageEnv \<Rightarrow> PackageEnv option" where
  "read_venv sv e = do {
     let c = jget sv (lit ''category'') [];
     (_, ps) \<leftarrow> get_paths_checked id sv (lit ''path'') (env_paths e);
     (_, is') \<leftarrow> get_paths_checked id sv (lit ''include'') (env_includes e);
     (_, ls) \<leftarrow> get_paths_checked id sv (lit ''lib'') (libs e);
     (_, ms) \<leftarrow> get_paths_checked id sv (lit ''mkdir'') (mkdirs e);
     (_, es) \<leftarrow> get_strings_checked sv (lit ''env'') (envs e);
     (_, ds) \<leftarrow> get_strings_checked sv (lit ''dependencies'') (dependencies e);
     Some (e\<lparr>category := c, env_paths := ps, env_includes := is', libs := ls, mkdirs := ms, envs := es, dependencies := ds\<rparr>) }"

definition PackageMetaNative :: "host \<Rightarrow> Bucket \<Rightarrow> wstr \<Rightarrow> (meta_error + Package) option" where
  "PackageMetaNative h b pkgName =
     (case parse_json_file h (PackageMetaJoinNative h b pkgName) of
        None \<Rightarrow> Some (Inl ErrJsonFile)
      | Some jv \<Rightarrow> do {
          let pkg = Package_default\<lparr>pkg_name := pkgName, description := jget jv (lit ''description'') [],
            pkg_version := jget jv (lit ''version'') [], bucket := bucket_name b,
            extension := map ascii_tolower (jget jv (lit ''extension'') (lit ''auto'')),
            homepage := jget jv (lit ''homepage'') [], pkg_notes := jget jv (lit ''notes'') [],
            license := jget jv (lit ''license'') []\<rparr>;
          (_, sg) \<leftarrow> get_strings_checked jv (lit ''suggest'') (suggest pkg);
          (_, fd) \<leftarrow> get_paths_checked id jv (lit ''force_delete'') (forceDeletes pkg);
          pkg \<leftarrow> resolveNativeURL h (pkg\<lparr>suggest := sg, forceDeletes := fd\<rparr>) jv;
          if urls pkg = [] then Some (Inl ErrNotYetPort)
          else case subview jv (lit ''venv'') of
                 None \<Rightarrow> Some (Inr pkg)
               | Some sv \<Rightarrow> do { e \<leftarrow> read_venv sv (venv pkg); Some (Inr (pkg\<lparr>venv := e\<rparr>)) } })"

definition PackageMetaScoop :: "host \<Rightarrow> Bucket \<Rightarrow> wstr \<Rightarrow> (meta_error + Package) option" where
  "PackageMetaScoop h b pkgName =
     (case parse_json_file h (PackageMetaJoinNative h b pkgName) of
        None \<Rightarrow> Some (Inl ErrJsonFile)
      | Some jv \<Rightarrow> do {
          let pkg = Package_default\<lparr>pkg_name := pkgName, description := jget jv (lit ''description'') [],
            pkg_version := jget jv (lit ''version'') [], bucket := bucket_name b,
            extension := lit ''auto'', homepage := jget jv (lit ''homepage'') [],
            pkg_notes := jget jv (lit ''notes'') [], license := jget jv (lit ''license'') [], variant := Scoop\<rparr>;
          (_, la) \<leftarrow> get_paths_checked make_LinkMeta jv (lit ''bin'') (launchers pkg);
          let pkg = pkg\<lparr>launchers := la\<rparr>;
          let from = (\<lambda>av. pkg\<lparr>urls := urls pkg @ [jget av (lit ''url'') []], hash := jget av (lit ''hash'') []\<rparr>);
          Some (Inr (case subview jv (lit ''architecture'') of
             None \<Rightarrow> from jv
           | Some sv \<Rightarrow> (case subview sv (host_architecture h) of
               Some av \<Rightarrow> from av
             | None \<Rightarrow> (case subview sv (lit ''32bit'') of Some av \<Rightarrow> from av | None \<Rightarrow> from jv)))) })"

definition PackageMeta :: "host \<Rightarrow> Bucket \<Rightarrow> wstr \<Rightarrow> (meta_error + Package) option" where
  "PackageMeta h b pkgName =
     (case bucket_variant b of Native \<Rightarrow> PackageMetaNative h b pkgName | Scoop \<Rightarrow> PackageMetaScoop h b pkgName)"

section \<open>Installed packages\<close>

definition BucketWeights :: "host \<Rightarrow> wstr \<Rightarrow> int" where
  "BucketWeights h b =
     (case find (\<lambda>b'. EqualsIgnoreCase (bucket_name b') b) (LoadedBuckets h) of
        Some b' \<Rightarrow> bucket_weights b' | None \<Rightarrow> 0)"

definition lock_file :: "host \<Rightarrow> wstr \<Rightarrow> wstr" where
  "lock_file h pkgName = AppLocks h @ [backslash] @ pkgName @ lit ''.json''"

definition PackageLocalMeta :: "host \<Rightarrow> wstr \<Rightarrow> (meta_error + Package) option" where
  "PackageLocalMeta h pkgName =
     (case parse_json_file h (lock_file h pkgName) of
        None \<Rightarrow> Some (Inl ErrJsonFile)
      | Some jv \<Rightarrow> do {
          let pkg = Package_default\<lparr>pkg_name := pkgName, pkg_version := jget jv (lit ''version'') [],
            bucket := jget jv (lit ''bucket'') [], pkg_mask := get_as_integer jv (lit ''mask'') MaskNone\<rparr>;
          (_, fd) \<leftarrow> get_paths_checked id jv (lit ''force_delete'') (forceDeletes pkg);
          let pkg = pkg\<lparr>forceDeletes := fd\<rparr>;
          let pkg = (case subview jv (lit ''venv'') of
              None \<Rightarrow> pkg
            | Some sv \<Rightarrow> pkg\<lparr>venv := (venv pkg)\<lparr>category := jget sv (lit ''category'') []\<rparr>\<rparr>);
          Some (Inr (pkg\<lparr>weights := BucketWeights h (bucket pkg)\<rparr>)) })"

text \<open>The value \<open>PackageLocalMetaWrite\<close> dumps into the lock file; \<open>date\<close> is the time of the write.\<close>

definition AddArray :: "byte list \<Rightarrow> wstr list \<Rightarrow> (byte list \<times> json) list" where
  "AddArray name av = (if av = [] then [] else [(name, JArray (map (JString \<circ> encode_into_8) av))])"

definition PackageVenvJson :: "PackageEnv \<Rightarrow> json" where
  "PackageVenvJson e = JObject (
     (if category e = [] then [] else [(lit ''category'', JString (encode_into_8 (category e)))])
     @ AddArray (lit ''path'') (env_paths e) @ AddArray (lit ''include'') (env_includes e)
     @ AddArray (lit ''lib'') (libs e) @ AddArray (lit ''env'') (envs e)
     @ AddArray (lit ''dependencies'') (dependencies e))"

definition PackageLocalMetaJson :: "byte list \<Rightarrow> Package \<Rightarrow> json" where
  "PackageLocalMetaJson date pkg = JObject (
     [(lit ''version'', JString (encode_into_8 (pkg_version pkg))), (lit ''bucket'', JString (encode_into_8 (bucket pkg))),
      (lit ''date'', JString date), (lit ''mask'', JInteger (uint (pkg_mask pkg)))]
     @ AddArray (lit ''force_delete'') (forceDeletes pkg)
     @ (if PackageEnv_empty (venv pkg) then [] else [(lit ''venv'', PackageVenvJson (venv pkg))]))"

section \<open>Choosing a package\<close>

text \<open>The loop of \<open>PackageMetaEx\<close>: the version and the package kept so far and the number found.\<close>

fun meta_ex_loop :: "host \<Rightarrow> wstr \<Rightarrow> Bucket list \<Rightarrow> version \<Rightarrow> Package \<Rightarrow> nat \<Rightarrow> (Package \<times> nat) option" where
  "meta_ex_loop h pkgName [] pkgVersion pkg pkgSame = Some (pkg, pkgSame)"
| "meta_ex_loop h pkgName (b # bs) pkgVersion pkg pkgSame = do {
     r \<leftarrow> PackageMeta h b pkgName;
     case r of
       Inl _ \<Rightarrow> meta_ex_loop h pkgName bs pkgVersion pkg pkgSame
     | Inr pkgN \<Rightarrow> do {
         let pkgN = pkgN\<lparr>bucket := bucket_name b, weights := bucket_weights b\<rparr>;
         newVersion \<leftarrow> make_version (pkg_version pkgN);
         if version_gt newVersion pkgVersion \<or> version_eq newVersion pkgVersion \<and> weights pkg < weights pkgN
         then meta_ex_loop h pkgName bs newVersion pkgN (Suc pkgSame)
         else meta_ex_loop h pkgName bs pkgVersion pkg (Suc pkgSame) } }"

definition PackageMetaEx :: "host \<Rightarrow> wstr \<Rightarrow> (meta_error + Package) option" where
  "PackageMetaEx h pkgName = do {
     (pkg, pkgSame) \<leftarrow> meta_ex_loop h pkgName (LoadedBuckets h) version_default Package_default 0;
     Some (if pkgSame = 0 then Inl ErrPackageNotYetPorted else Inr pkg) }"

fun updatable_loop ::
  "host \<Rightarrow> wstr \<Rightarrow> Bucket list \<Rightarrow> version \<Rightarrow> int \<Rightarrow> Package option \<Rightarrow> Package option option" where
  "updatable_loop h pkgName [] pkgVersion w pkg = Some pkg"
| "updatable_loop h pkgName (b # bs) pkgVersion w pkg = do {
     r \<leftarrow> PackageMeta h b pkgName;
     case r of
       Inl _ \<Rightarrow> updatable_loop h pkgName bs pkgVersion w pkg
     | Inr pkgN \<Rightarrow> do {
         let pkgN = pkgN\<lparr>bucket := bucket_name b, weights := bucket_weights b\<rparr>;
         newVersion \<leftarrow> make_version (pkg_version pkgN);
         if version_gt newVersion pkgVersion \<or> version_eq newVersion pkgVersion \<and> w < weights pkgN
         then updatable_loop h pkgName bs newVersion (weights pkgN) (Some pkgN)
         else updatable_loop h pkgName bs pkgVersion w pkg } }"

text \<open>The package to update to, when there is one.\<close>

definition PackageUpdatableMeta :: "host \<Rightarrow> Package \<Rightarrow> Package option option" where
  "PackageUpdatableMeta h pkgLocal = do {
     pkgVersion \<leftarrow> make_version (pkg_version pkgLocal);
     updatable_loop h (pkg_name pkgLocal) (LoadedBuckets h) pkgVersion (weights pkgLocal) None }"

definition PackageIsUpdatable :: "host \<Rightarrow> wstr \<Rightarrow> Package option option" where
  "PackageIsUpdatable h pkgName = do {
     r \<leftarrow> PackageLocalMeta h pkgName;
     case r of Inl _ \<Rightarrow> Some None | Inr localMeta \<Rightarrow> PackageUpdatableMeta h localMeta }"

section \<open>The download address\<close>

definition MaximumTime :: "64 word" where "MaximumTime = 0xFFFFFFFFFFFFFFFF"

text \<open>
  The second round keeps the position of every address whose response time is below
  \<open>elapsed\<close>, which stays \<open>MaximumTime\<close>. The parameter is \<open>UrlResponseTime\<close>.
\<close>

definition BestUrlInternal :: "(wstr \<Rightarrow> 64 word) \<Rightarrow> wstr list \<Rightarrow> wstr \<Rightarrow> wstr" where
  "BestUrlInternal responseTime us loc =
     (case us of
        [] \<Rightarrow> []
      | [u] \<Rightarrow> u
      | _ \<Rightarrow> (let suffix = lit ''#'' @ loc in
              case find (\<lambda>u. EndsWithIgnoreCase u suffix) us of
                Some u \<Rightarrow> take (length u - length suffix) u
              | None \<Rightarrow> us ! foldl (\<lambda>pos i. if responseTime (us ! i) < MaximumTime then i else pos) 0 [0..<length us]))"

definition BestUrl :: "(wstr \<Rightarrow> 64 word) \<Rightarrow> wstr list \<Rightarrow> wstr \<Rightarrow> wstr" where
  "BestUrl responseTime us loc =
     (let url = BestUrlInternal responseTime us loc in
      case find_from (\<lambda>c. c = ch CHR ''#'') url 0 of Some pos \<Rightarrow> take pos url | None \<Rightarrow> url)"

definition url_path_name :: "wstr \<Rightarrow> wstr" where
  "url_path_name urlpath = (let pv = SplitPath urlpath in if pv = [] then lit ''index.html'' else last pv)"

section \<open>Hashes\<close>

datatype hash_t = SHA224 | SHA256 | SHA384 | SHA512 | SHA3 | SHA3_224 | SHA3_256 | SHA3_384 | SHA3_512 | BLAKE3

definition hnmaps :: "(wstr \<times> hash_t) list" where
  "hnmaps = [(lit ''BLAKE3'', BLAKE3), (lit ''SHA224'', SHA224), (lit ''SHA256'', SHA256), (lit ''SHA384'', SHA384),
     (lit ''SHA512'', SHA512), (lit ''SHA3-224'', SHA3_224), (lit ''SHA3-256'', SHA3_256), (lit ''SHA3-384'', SHA3_384),
     (lit ''SHA3-512'', SHA3_512), (lit ''SHA3'', SHA3)]"

datatype hash_error = ErrUnsupportedMethod wstr | ErrFileHash | ErrChecksumMismatch wstr wstr

text \<open>\<open>fileHash\<close> is the hash of the file by a method, \<open>None\<close> when it cannot be read.\<close>

definition HashEqual :: "(hash_t \<Rightarrow> wstr option) \<Rightarrow> wstr \<Rightarrow> hash_error + unit" where
  "HashEqual fileHash hash_value =
     (let (method, val) =
        (case find_from (\<lambda>c. c = colon) hash_value 0 of
           None \<Rightarrow> (Inr SHA256, hash_value)
         | Some pos \<Rightarrow>
             (let prefix = map ascii_toupper (take pos hash_value) in
              (case map_of hnmaps prefix of None \<Rightarrow> Inl (ErrUnsupportedMethod prefix) | Some m \<Rightarrow> Inr m,
               drop (pos + 1) hash_value)))
      in case method of
           Inl e \<Rightarrow> Inl e
         | Inr m \<Rightarrow> (case fileHash m of
             None \<Rightarrow> Inl ErrFileHash
           | Some ha \<Rightarrow> if EndsWithIgnoreCase ha val then Inr () else Inl (ErrChecksumMismatch val ha)))"

section \<open>The package that is chosen\<close>

text \<open>
  The abstract choice: a package is ranked by its version and then by the weight of its
  bucket, and the first package that beats what is kept replaces it.
\<close>

fun beats :: "version \<times> int \<Rightarrow> version \<times> int \<Rightarrow> bool" where
  "beats (v, w) (v', w') \<longleftrightarrow> version_gt v v' \<or> version_eq v v' \<and> w' < w"

text \<open>The choice of a best offer, by any ranking.\<close>

fun pick :: "('r \<Rightarrow> 'r \<Rightarrow> bool) \<Rightarrow> 'r \<Rightarrow> 'p option \<Rightarrow> ('r \<times> 'p) list \<Rightarrow> 'p option" where
  "pick better r kept [] = kept"
| "pick better r kept (c # cs) =
     (if better (fst c) r then pick better (fst c) (Some (snd c)) cs else pick better r kept cs)"

text \<open>
  What the choice relies on: a strict ranking that is total up to equal ranks on the ranks
  that are valid. The packages are ranked by their version, so the comparison of versions
  provides it.
\<close>

locale ranking =
  fixes better :: "'r \<Rightarrow> 'r \<Rightarrow> bool" and valid :: "'r \<Rightarrow> bool"
  assumes better_irrefl: "\<not> better r r"
    and better_trans: "\<lbrakk>valid a; valid b; valid c; \<not> better a b; better c b\<rbrakk> \<Longrightarrow> \<not> better a c"
begin

lemma pick_spec:
  assumes "\<forall>c\<in>set cs. valid (fst c)" and "valid r"
  shows "(pick better r kept cs = kept \<and> (\<forall>c\<in>set cs. \<not> better (fst c) r))
    \<or> (\<exists>c\<in>set cs. pick better r kept cs = Some (snd c) \<and> better (fst c) r \<and> (\<forall>d\<in>set cs. \<not> better (fst d) (fst c)))"
  using assms
proof (induction cs arbitrary: r kept)
  case (Cons a cs)
  show ?case
  proof (cases "better (fst a) r")
    case True
    from Cons.IH [of "fst a" "Some (snd a)"] Cons.prems consider
        "pick better (fst a) (Some (snd a)) cs = Some (snd a)" "\<forall>c\<in>set cs. \<not> better (fst c) (fst a)"
      | c where "c \<in> set cs" "pick better (fst a) (Some (snd a)) cs = Some (snd c)" "better (fst c) (fst a)"
          "\<forall>d\<in>set cs. \<not> better (fst d) (fst c)"
      by auto
    then show ?thesis
    proof cases
      case 1
      with True better_irrefl show ?thesis by (intro disjI2 bexI [of _ a]) simp_all
    next
      case 2
      have "\<not> better (fst a) (fst c)"
        using better_trans [of "fst a" "fst a" "fst c"] better_irrefl Cons.prems 2 by simp
      moreover have "better (fst c) r"
        using better_trans [of r "fst a" "fst c"] better_trans [of "fst c" r "fst a"] Cons.prems 2 True by auto
      ultimately show ?thesis using True 2 by (intro disjI2 bexI [of _ c]) simp_all
    qed
  next
    case False
    from Cons.IH [of r kept] Cons.prems consider
        "pick better r kept cs = kept" "\<forall>c\<in>set cs. \<not> better (fst c) r"
      | c where "c \<in> set cs" "pick better r kept cs = Some (snd c)" "better (fst c) r" "\<forall>d\<in>set cs. \<not> better (fst d) (fst c)"
      by auto
    then show ?thesis
    proof cases
      case 1
      with False show ?thesis by simp
    next
      case 2
      then have "\<not> better (fst a) (fst c)" using better_trans [of "fst a" r "fst c"] Cons.prems False by simp
      with 2 False show ?thesis by (intro disjI2 bexI [of _ c]) simp_all
    qed
  qed
qed simp

end

text \<open>What the buckets offer, in their order.\<close>

fun candidates :: "host \<Rightarrow> wstr \<Rightarrow> Bucket list \<Rightarrow> ((version \<times> int) \<times> Package) list option" where
  "candidates h pkgName [] = Some []"
| "candidates h pkgName (b # bs) = do {
     r \<leftarrow> PackageMeta h b pkgName;
     case r of
       Inl _ \<Rightarrow> candidates h pkgName bs
     | Inr p \<Rightarrow> do {
         v \<leftarrow> make_version (pkg_version p);
         cs \<leftarrow> candidates h pkgName bs;
         Some (((v, bucket_weights b), p\<lparr>bucket := bucket_name b, weights := bucket_weights b\<rparr>) # cs) } }"

lemma beats_irrefl [simp]: "\<not> beats r r"
  by (cases r) (simp add: version_gt_def compare_def)

lemma version_small_default: "version_small version_default"
  by (simp add: version_small_def version_key_def version_default_def prerelease_id_def)

lemma beats_key:
  assumes "version_small v" and "version_small v'"
  shows "beats (v, w) (v', w') \<longleftrightarrow>
    ord_class.lexordp (version_key v') (version_key v) \<or> version_key v = version_key v' \<and> w' < w"
  using compare_key [OF assms] by (simp add: version_key_inject)

text \<open>On small versions the ranks are linearly preordered.\<close>

lemma beats_trans:
  assumes "version_small (fst a)" "version_small (fst b)" "version_small (fst c)"
    and "\<not> beats a b" and "beats c b"
  shows "\<not> beats a c"
proof -
  obtain va wa vb wb vc wc where r: "a = (va, wa)" "b = (vb, wb)" "c = (vc, wc)" by (cases a; cases b; cases c)
  note k = beats_key [of va vb wa wb] beats_key [of vc vb wc wb] beats_key [of va vc wa wc]
  show ?thesis
    using assms lexordp_trans [of "version_key vb" "version_key vc" "version_key va"]
    by (auto simp: r k simp del: beats.simps)
qed

interpretation rank: ranking beats "\<lambda>r. version_small (fst r)"
  by unfold_locales (simp, rule beats_trans)

lemma weights_default: "weights Package_default = 0"
  by (simp add: Package_default_def)

text \<open>Both loops implement the abstract choice.\<close>

lemma meta_ex_loop_pick:
  "meta_ex_loop h pkgName bs v pkg n = map_option
     (\<lambda>cs. (case pick beats (v, weights pkg) None cs of None \<Rightarrow> pkg | Some p \<Rightarrow> p, n + length cs)) (candidates h pkgName bs)"
proof (induction bs arbitrary: v pkg n)
  case (Cons b bs)
  have *: "(case pick beats r (Some p) cs of None \<Rightarrow> q | Some p' \<Rightarrow> p') = (case pick beats r None cs of None \<Rightarrow> p | Some p' \<Rightarrow> p')"
    for r cs and p q :: Package
  proof -
    have "pick beats r (Some p) cs = (case pick beats r None cs of None \<Rightarrow> Some p | Some p' \<Rightarrow> Some p')" for r p
    proof (induction cs arbitrary: r p)
      case (Cons c cs)
      from Cons.IH [of "fst c" "snd c"] Cons.IH [of r p] show ?case by (cases "beats (fst c) r") (simp_all split: option.split)
    qed simp
    then show ?thesis by (simp split: option.split)
  qed
  from Cons show ?case
    by (auto simp: Let_def option.map_comp comp_def bind_eq_None_conv * split: sum.split option.split bind_splits)
qed simp

lemma updatable_loop_pick:
  "updatable_loop h pkgName bs v w kept = map_option (pick beats (v, w) kept) (candidates h pkgName bs)"
proof (induction bs arbitrary: v w kept)
  case (Cons b bs)
  then show ?case
    by (auto simp: Let_def option.map_comp comp_def bind_eq_None_conv split: sum.split option.split bind_splits)
qed simp

text \<open>
  C11: \<open>PackageMetaEx\<close> answers with the best package that the loaded buckets offer under the
  name: no other has a newer version, or the same version in a bucket of greater weight. It
  answers that the package is not ported when no bucket offers it. When no offer is newer than
  0.0.0 or has that version in a bucket of positive weight the answer is an empty package. This
  holds when every loaded bucket that has the package gives a manifest and a version that can
  be processed (\<open>candidates\<close> is defined), and all parts of the versions are below \<open>2 ^ 31\<close>, the
  range in which the comparison of versions is an order.
\<close>

theorem PackageMetaEx_best:
  assumes offers: "candidates h pkgName (LoadedBuckets h) = Some cs" and small: "\<forall>c\<in>set cs. version_small (fst (fst c))"
  shows "\<exists>r. PackageMetaEx h pkgName = Some r \<and>
    (if cs = [] then r = Inl ErrPackageNotYetPorted
     else if \<exists>c\<in>set cs. beats (fst c) (version_default, 0)
     then \<exists>c\<in>set cs. r = Inr (snd c) \<and> (\<forall>d\<in>set cs. \<not> beats (fst d) (fst c))
     else r = Inr Package_default)"
proof -
  have "PackageMetaEx h pkgName = Some (if cs = [] then Inl ErrPackageNotYetPorted
      else Inr (case pick beats (version_default, 0) None cs of None \<Rightarrow> Package_default | Some p \<Rightarrow> p))"
    by (simp add: PackageMetaEx_def meta_ex_loop_pick offers weights_default)
  moreover have "(pick beats (version_default, 0) None cs = None \<and> (\<forall>c\<in>set cs. \<not> beats (fst c) (version_default, 0)))
    \<or> (\<exists>c\<in>set cs. pick beats (version_default, 0) None cs = Some (snd c) \<and> beats (fst c) (version_default, 0)
         \<and> (\<forall>d\<in>set cs. \<not> beats (fst d) (fst c)))"
    using rank.pick_spec [OF small, of "(version_default, 0)" None] version_small_default by simp
  ultimately show ?thesis by (elim disjE bexE conjE; simp del: beats.simps; blast)
qed

text \<open>
  \<open>PackageUpdatableMeta\<close> finds an update exactly when some loaded bucket offers a package
  that beats the installed one in version or in weight, and the update is the best offer.
\<close>

theorem PackageUpdatableMeta_best:
  assumes offers: "candidates h (pkg_name pkgLocal) (LoadedBuckets h) = Some cs"
    and small: "\<forall>c\<in>set cs. version_small (fst (fst c))"
    and inst: "make_version (pkg_version pkgLocal) = Some v" "version_small v"
  shows "\<exists>r. PackageUpdatableMeta h pkgLocal = Some r \<and>
    (case r of
       None \<Rightarrow> \<forall>c\<in>set cs. \<not> beats (fst c) (v, weights pkgLocal)
     | Some p \<Rightarrow> \<exists>c\<in>set cs. p = snd c \<and> beats (fst c) (v, weights pkgLocal) \<and> (\<forall>d\<in>set cs. \<not> beats (fst d) (fst c)))"
proof -
  have r: "PackageUpdatableMeta h pkgLocal = Some (pick beats (v, weights pkgLocal) None cs)"
    by (simp add: PackageUpdatableMeta_def updatable_loop_pick offers inst(1))
  have "version_small (fst (v, weights pkgLocal))" using inst(2) by simp
  from rank.pick_spec [OF small this, of None] show ?thesis unfolding r by (elim disjE bexE conjE; simp del: beats.simps; blast)
qed


text \<open>A host with two buckets that both offer a package, the second in a newer version.\<close>

definition example_meta :: "string \<Rightarrow> json" where
  "example_meta v = JObject [(lit ''version'', JString (lit v)), (lit ''architecture'', JObject [(lit ''64bit'',
     JObject [(lit ''url'', JString (lit ''https://x/y.zip'')), (lit ''hash'', JString (lit ''SHA256:00''))])])]"

definition example_bucket :: "string \<Rightarrow> int \<Rightarrow> Bucket" where
  "example_bucket n w = \<lparr>bucket_description = [], bucket_name = lit n, bucket_url = [], bucket_weights = w,
     bucket_mode = Github, bucket_variant = Native\<rparr>"

definition example_host :: "string \<Rightarrow> string \<Rightarrow> host" where
  "example_host v w = \<lparr>parse_json_file = (\<lambda>f.
       if f = lit ''B'' @ [backslash] @ lit ''a'' @ [backslash] @ lit ''bucket'' @ [backslash] @ lit ''p.json'' then Some (example_meta v)
       else if f = lit ''B'' @ [backslash] @ lit ''b'' @ [backslash] @ lit ''bucket'' @ [backslash] @ lit ''p.json'' then Some (example_meta w)
       else None),
     AppBuckets = lit ''B'', AppLocks = lit ''L'', host_architecture = lit ''64bit'',
     LoadedBuckets = [example_bucket ''a'' 100, example_bucket ''b'' 50]\<rparr>"

definition example_package :: "string \<Rightarrow> string \<Rightarrow> int \<Rightarrow> Package" where
  "example_package v b w = Package_default\<lparr>pkg_name := lit ''p'', pkg_version := lit v, bucket := lit b, extension := lit ''auto'',
     hash := lit ''SHA256:00'', urls := [lit ''https://x/y.zip''], weights := w\<rparr>"

lemma example_candidates:
  "candidates (example_host ''1.2.0'' ''1.3.0-beta'') (lit ''p'') (LoadedBuckets (example_host ''1.2.0'' ''1.3.0-beta'')) =
     Some [((version_default\<lparr>major := 1, minor := 2\<rparr>, 100), example_package ''1.2.0'' ''a'' 100),
           ((version_default\<lparr>major := 1, minor := 3, prerelease_type := pre_beta\<rparr>, 50), example_package ''1.3.0-beta'' ''b'' 50)]"
  by code_simp

lemma example_small:
  "version_small (version_default\<lparr>major := 1, minor := 2\<rparr>)"
  "version_small (version_default\<lparr>major := 1, minor := 3, prerelease_type := pre_beta\<rparr>)"
  by (simp_all add: version_small_def version_key_def version_default_def prerelease_id_def)

theorem PackageMetaEx_best_witness:
  "PackageMetaEx (example_host ''1.2.0'' ''1.3.0-beta'') (lit ''p'') = Some (Inr (example_package ''1.3.0-beta'' ''b'' 50))"
  using PackageMetaEx_best [OF example_candidates] example_small
  by (auto simp: version_gt_def version_eq_def compare_def version_default_def)

theorem PackageUpdatableMeta_best_witness:
  "PackageUpdatableMeta (example_host ''1.2.0'' ''1.3.0-beta'') (example_package ''1.2.0'' ''a'' 100)
     = Some (Some (example_package ''1.3.0-beta'' ''b'' 50))"
proof -
  have n: "pkg_name (example_package ''1.2.0'' ''a'' 100) = lit ''p''" by code_simp
  have v: "make_version (pkg_version (example_package ''1.2.0'' ''a'' 100)) = Some (version_default\<lparr>major := 1, minor := 2\<rparr>)"
    by code_simp
  have w: "weights (example_package ''1.2.0'' ''a'' 100) = 100" by code_simp
  show ?thesis
    using PackageUpdatableMeta_best [OF example_candidates [folded n] _ v example_small(1)] example_small
    by (auto simp: version_gt_def version_eq_def compare_def version_default_def w split: option.splits)
qed

text \<open>An offer of version 0.0.0 in a bucket without weight is found, and an empty package returned.\<close>

lemma PackageMetaEx_empty_package:
  "PackageMetaEx ((example_host ''0.0.0'' ''0.0.0'')\<lparr>LoadedBuckets := [example_bucket ''a'' 0]\<rparr>) (lit ''p'') = Some (Inr Package_default)"
  by code_simp

section \<open>Lock files\<close>

lemma json_strings_encoded:
  "\<forall>p\<in>set ps. paired p \<Longrightarrow>
     \<exists>ss. json_strings (map (JString \<circ> encode_into_8) ps) = Some ss \<and> map encode_into_16 ss = ps"
  by (induction ps) (auto simp: encode_into_8_inverse)

lemma map_of_AddArray: "map_of (AddArray name av) key = (if key = name \<and> av \<noteq> [] then Some (JArray (map (JString \<circ> encode_into_8) av)) else None)"
  by (simp add: AddArray_def)

lemma map_of_when: "map_of (if b then [] else [(k, v)]) key = (if key = k \<and> \<not> b then Some v else None)"
  by simp

lemma lock_keys:
  "(lit ''version'' :: byte list) \<noteq> lit ''bucket''" "(lit ''version'' :: byte list) \<noteq> lit ''date''"
  "(lit ''mask'' :: byte list) \<noteq> lit ''version''" "(lit ''mask'' :: byte list) \<noteq> lit ''bucket''"
  "(lit ''mask'' :: byte list) \<noteq> lit ''date''" "(lit ''bucket'' :: byte list) \<noteq> lit ''version''"
  "(lit ''force_delete'' :: byte list) \<noteq> lit ''version''" "(lit ''force_delete'' :: byte list) \<noteq> lit ''bucket''"
  "(lit ''force_delete'' :: byte list) \<noteq> lit ''date''" "(lit ''force_delete'' :: byte list) \<noteq> lit ''mask''"
  "(lit ''force_delete'' :: byte list) \<noteq> lit ''venv''" "(lit ''venv'' :: byte list) \<noteq> lit ''force_delete''"
  "(lit ''venv'' :: byte list) \<noteq> lit ''version''" "(lit ''venv'' :: byte list) \<noteq> lit ''bucket''"
  "(lit ''venv'' :: byte list) \<noteq> lit ''date''" "(lit ''venv'' :: byte list) \<noteq> lit ''mask''"
  "(lit ''category'' :: byte list) \<noteq> lit ''path''" "(lit ''category'' :: byte list) \<noteq> lit ''include''"
  "(lit ''category'' :: byte list) \<noteq> lit ''lib''" "(lit ''category'' :: byte list) \<noteq> lit ''env''"
  "(lit ''category'' :: byte list) \<noteq> lit ''dependencies''"
  by (simp_all add: ch_def)

lemma lock_file_fields:
  fixes pkg :: Package and date
  defines "jv \<equiv> PackageLocalMetaJson date pkg"
  shows "json_find jv (lit ''version'') = Some (JString (encode_into_8 (pkg_version pkg)))"
    "json_find jv (lit ''bucket'') = Some (JString (encode_into_8 (bucket pkg)))"
    "json_find jv (lit ''mask'') = Some (JInteger (uint (pkg_mask pkg)))"
    "json_find jv (lit ''force_delete'') = (if forceDeletes pkg = [] then None else Some (JArray (map (JString \<circ> encode_into_8) (forceDeletes pkg))))"
    "json_find jv (lit ''venv'') = (if PackageEnv_empty (venv pkg) then None else Some (PackageVenvJson (venv pkg)))"
  unfolding jv_def PackageLocalMetaJson_def json_find.simps
  by (simp_all only: map_of_append map_add_def map_of_AddArray map_of_when map_of.simps append.simps fst_conv snd_conv fun_upd_apply
      lock_keys if_False if_True simp_thms option.case if_cancel)
    auto

lemma venv_category:
  "json_find (PackageVenvJson e) (lit ''category'') = (if category e = [] then None else Some (JString (encode_into_8 (category e))))"
  unfolding PackageVenvJson_def json_find.simps
  by (simp only: map_of_append map_add_def map_of_AddArray map_of_when lock_keys simp_thms if_False option.case) simp

lemma PackageLocalMeta_written:
  assumes lock: "parse_json_file h (lock_file h (pkg_name pkg)) = Some (PackageLocalMetaJson date pkg)"
    and pr: "paired (pkg_version pkg)" "paired (bucket pkg)" "\<forall>p\<in>set (forceDeletes pkg). paired p" "paired (category (venv pkg))"
  shows "PackageLocalMeta h (pkg_name pkg) = Some (Inr (Package_default\<lparr>pkg_name := pkg_name pkg,
    pkg_version := pkg_version pkg, bucket := bucket pkg, pkg_mask := pkg_mask pkg,
    forceDeletes := map FromSlash (forceDeletes pkg), weights := BucketWeights h (bucket pkg),
    venv := PackageEnv_default\<lparr>category := if PackageEnv_empty (venv pkg) then [] else category (venv pkg)\<rparr>\<rparr>))"
proof -
  let ?j = "PackageLocalMetaJson date pkg"
  note find = lock_file_fields [of date pkg]
  have v: "jget ?j (lit ''version'') [] = pkg_version pkg" "jget ?j (lit ''bucket'') [] = bucket pkg"
    by (simp_all only: jget_def find option.case json.case encode_into_8_inverse pr)
  have m: "get_as_integer ?j (lit ''mask'') MaskNone = pkg_mask pkg"
    by (simp only: get_as_integer_def find option.case json.case word_of_int_uint)
  obtain ss where ss: "json_strings (map (JString \<circ> encode_into_8) (forceDeletes pkg)) = Some ss" "map encode_into_16 ss = forceDeletes pkg"
    using json_strings_encoded [OF pr(3)] by blast
  then have "map (\<lambda>s. id (FromSlash (encode_into_16 s))) ss = map FromSlash (forceDeletes pkg)"
    by (metis (no_types, lifting) id_apply list.map_comp map_eq_conv comp_apply)
  with ss have f: "\<exists>b. get_paths_checked id ?j (lit ''force_delete'') [] = Some (b, map FromSlash (forceDeletes pkg))"
    by (intro exI [of _ "forceDeletes pkg \<noteq> []"]; cases "forceDeletes pkg = []") (simp_all add: get_paths_checked_def find del: lit_simps)
  have "PackageEnv_empty (venv pkg) \<Longrightarrow> subview ?j (lit ''venv'') = None"
    "\<not> PackageEnv_empty (venv pkg) \<Longrightarrow> subview ?j (lit ''venv'') = Some (PackageVenvJson (venv pkg))"
    by (simp_all add: subview_def find PackageVenvJson_def del: lit_simps)
  moreover have "jget (PackageVenvJson (venv pkg)) (lit ''category'') [] = category (venv pkg)"
    using pr(4) by (simp add: jget_def venv_category encode_into_8_inverse del: lit_simps)
  ultimately show ?thesis using f
    by (cases "PackageEnv_empty (venv pkg)") (auto simp: PackageLocalMeta_def lock v m Package_default_def PackageEnv_default_def simp del: lit_simps)
qed

text \<open>
  What \<open>PackageLocalMetaWrite\<close> records of an installed package \<open>PackageLocalMeta\<close> reads
  again: the version, the bucket, the mask, the directories to delete, with slashes turned into
  backslashes, and the category of a virtual environment that has paths, variables or
  dependencies. The weight is the one of the recorded bucket.
\<close>

theorem PackageLocalMeta_roundtrip:
  assumes lock: "parse_json_file h (lock_file h (pkg_name pkg)) = Some (PackageLocalMetaJson date pkg)"
    and pr: "paired (pkg_version pkg)" "paired (bucket pkg)" "\<forall>p\<in>set (forceDeletes pkg). paired p" "paired (category (venv pkg))"
  shows "PackageLocalMeta h (pkg_name pkg) = Some (Inr (Package_default\<lparr>pkg_name := pkg_name pkg,
    pkg_version := pkg_version pkg, bucket := bucket pkg, pkg_mask := pkg_mask pkg,
    forceDeletes := map FromSlash (forceDeletes pkg), weights := BucketWeights h (bucket pkg),
    venv := PackageEnv_default\<lparr>category := if PackageEnv_empty (venv pkg) then [] else category (venv pkg)\<rparr>\<rparr>))"
  using assms by (rule PackageLocalMeta_written)

definition example_installed :: Package where
  "example_installed = (example_package ''1.2.0'' ''a'' 100)\<lparr>pkg_mask := 1, forceDeletes := [lit ''x/y''],
     venv := PackageEnv_default\<lparr>category := lit ''c'', envs := [lit ''A=B'']\<rparr>\<rparr>"

theorem PackageLocalMeta_roundtrip_witness:
  "PackageLocalMeta ((example_host ''1.2.0'' ''1.3.0'')\<lparr>parse_json_file := \<lambda>_. Some (PackageLocalMetaJson [] example_installed)\<rparr>) (lit ''p'') =
     Some (Inr (Package_default\<lparr>pkg_name := lit ''p'', pkg_version := lit ''1.2.0'', bucket := lit ''a'', pkg_mask := 1,
       forceDeletes := [lit ''x'' @ backslash # lit ''y''], weights := 100, venv := PackageEnv_default\<lparr>category := lit ''c''\<rparr>\<rparr>))"
proof -
  let ?h = "(example_host ''1.2.0'' ''1.3.0'')\<lparr>parse_json_file := \<lambda>_. Some (PackageLocalMetaJson [] example_installed)\<rparr>"
  have f: "pkg_name example_installed = lit ''p''" "pkg_version example_installed = lit ''1.2.0''" "bucket example_installed = lit ''a''"
    "pkg_mask example_installed = 1" "forceDeletes example_installed = [lit ''x/y'']" "category (venv example_installed) = lit ''c''"
    "PackageEnv_empty (venv example_installed) = False"
    by (simp_all add: example_installed_def example_package_def PackageEnv_default_def PackageEnv_empty_def)
  have p: "paired (lit ''1.2.0'')" "paired (lit ''a'')" "paired (lit ''x/y'')" "paired (lit ''c'')" by code_simp+
  have w: "BucketWeights ?h (lit ''a'') = 100" "FromSlash (lit ''x/y'') = lit ''x'' @ backslash # lit ''y''" by code_simp+
  show ?thesis
    using PackageLocalMeta_roundtrip [of ?h example_installed "[]"] by (simp add: f p w del: lit_simps)
qed

section \<open>Comparing hashes\<close>

lemma EqualsIgnoreCase_map: "EqualsIgnoreCase s t \<longleftrightarrow> map ascii_tolower s = map ascii_tolower t"
proof (induction s arbitrary: t)
  case (Cons a s)
  then show ?case by (cases t) (auto simp: EqualsIgnoreCase_def)
qed (auto simp: EqualsIgnoreCase_def)

text \<open>
  \<open>HashEqual\<close> with a digest in full length under the name of its method, in upper or lower
  case, accepts exactly the files with that digest, compared without case, and reports both
  digests for another file; a digest without a name is taken for SHA-256.
\<close>

theorem HashEqual_compares:
  assumes "colon \<notin> set method" and "map_of hnmaps (map ascii_toupper method) = Some m"
    and "fileHash m = Some ha" and "length val = length ha"
  shows "HashEqual fileHash (method @ colon # val) =
      (if map ascii_tolower ha = map ascii_tolower val then Inr () else Inl (ErrChecksumMismatch val ha))
    \<and> (m = SHA256 \<longrightarrow> colon \<notin> set val \<longrightarrow> HashEqual fileHash val = HashEqual fileHash (method @ colon # val))"
proof -
  have "find_from (\<lambda>c. c = colon) (method @ colon # val) 0 = Some (length method)"
    using assms(1) by (intro find_from_first) auto
  moreover have "EndsWithIgnoreCase ha val \<longleftrightarrow> map ascii_tolower ha = map ascii_tolower val"
    using assms(4) by (simp add: EndsWithIgnoreCase_def EqualsIgnoreCase_map)
  moreover have "colon \<notin> set val \<Longrightarrow> find_from (\<lambda>c. c = colon) val 0 = None" by (auto simp: find_from_None_iff)
  ultimately show ?thesis using assms(2-4) by (auto simp: HashEqual_def Let_def)
qed

theorem HashEqual_compares_witness:
  "HashEqual (\<lambda>m. if m = SHA384 then Some (lit ''0a1b'') else None) (lit ''sha384:0A1B'') = Inr ()
   \<and> HashEqual (\<lambda>m. if m = SHA384 then Some (lit ''0a1b'') else None) (lit ''sha384:0A1C'')
       = Inl (ErrChecksumMismatch (lit ''0A1C'') (lit ''0a1b''))"
proof -
  let ?f = "\<lambda>m. if m = SHA384 then Some (lit ''0a1b'') else None"
  have h: "colon \<notin> set (lit ''sha384'')" "map_of hnmaps (map ascii_toupper (lit ''sha384'')) = Some SHA384" "?f SHA384 = Some (lit ''0a1b'')"
    by code_simp+
  have l: "length (lit ''0A1B'' :: wstr) = length (lit ''0a1b'' :: wstr)" "length (lit ''0A1C'' :: wstr) = length (lit ''0a1b'' :: wstr)"
    by code_simp+
  have e: "map ascii_tolower (lit ''0a1b'') = map ascii_tolower (lit ''0A1B'')" "map ascii_tolower (lit ''0a1b'') \<noteq> map ascii_tolower (lit ''0A1C'')"
    by code_simp+
  have t: "lit ''sha384'' @ colon # lit ''0A1B'' = lit ''sha384:0A1B''" "lit ''sha384'' @ colon # lit ''0A1C'' = lit ''sha384:0A1C''"
    by (simp_all add: colon_def)
  from HashEqual_compares [of "lit ''sha384''" SHA384 ?f, OF h l(1)] HashEqual_compares [of "lit ''sha384''" SHA384 ?f, OF h l(2)] e
  show ?thesis unfolding t by presburger
qed

text \<open>
  The comparison is with the end of the digest only: the name of a method with nothing
  behind it, or with the last digits of a digest, accepts files it should refuse.
\<close>

lemma HashEqual_empty_digest:
  assumes "fileHash SHA256 = Some ha"
  shows "HashEqual fileHash (lit ''SHA256:'') = Inr ()"
proof -
  have "HashEqual fileHash (lit ''SHA256'' @ colon # []) = Inr ()"
  proof -
    have f: "find_from (\<lambda>c. c = colon) (lit ''SHA256'' @ colon # []) 0 = Some (length (lit ''SHA256'' :: wstr))"
      by (intro find_from_first) (auto simp: colon_def ch_def)
    have m: "map_of hnmaps (map ascii_toupper (lit ''SHA256'')) = Some SHA256" by code_simp
    show ?thesis using assms m unfolding HashEqual_def f by (simp add: EndsWithIgnoreCase_def EqualsIgnoreCase_def)
  qed
  then show ?thesis by (simp add: colon_def)
qed

section \<open>Choosing a download address\<close>

text \<open>Among several addresses that respond the last one is taken, however slow it is.\<close>

lemma BestUrl_last:
  assumes "length us \<ge> 2" and "\<forall>u\<in>set us. ch CHR ''#'' \<notin> set u" and "responseTime (last us) < MaximumTime"
  shows "BestUrl responseTime us loc = last us"
proof -
  have "us \<noteq> []" using assms(1) by auto
  have n: "[0..<length us] = [0..<length us - 1] @ [length us - 1]" using assms(1) by (cases "length us") simp_all
  have hash: "ascii_tolower c = ascii_tolower (ch CHR ''#'') \<Longrightarrow> c = ch CHR ''#''" for c
  proof (cases "c \<ge> 65 \<and> c \<le> 90")
    case True
    assume "ascii_tolower c = ascii_tolower (ch CHR ''#'')"
    with True have "c + 32 = 35" by (simp add: ascii_tolower_def ch_def)
    then have "c = 35 - 32" by (simp only: eq_diff_eq)
    with True show ?thesis by simp
  qed (auto simp: ascii_tolower_def ch_def)
  have "\<not> EndsWithIgnoreCase u (lit ''#'' @ loc)" if "u \<in> set us" for u
  proof
    assume "EndsWithIgnoreCase u (lit ''#'' @ loc)"
    then have "map ascii_tolower (drop (length u - Suc (length loc)) u) = ascii_tolower (ch CHR ''#'') # map ascii_tolower loc"
      by (simp add: EndsWithIgnoreCase_def EqualsIgnoreCase_map)
    then obtain c cs where "drop (length u - Suc (length loc)) u = c # cs" "ascii_tolower c = ascii_tolower (ch CHR ''#'')"
      by (auto simp: map_eq_Cons_conv)
    with hash have "ch CHR ''#'' \<in> set u" by (metis in_set_dropD list.set_intros(1))
    with assms(2) that show False by blast
  qed
  then have "find (\<lambda>u. EndsWithIgnoreCase u (lit ''#'' @ loc)) us = None" by (simp add: find_None_iff)
  moreover have "us ! foldl (\<lambda>pos i. if responseTime (us ! i) < MaximumTime then i else pos) 0 [0..<length us] = last us"
    using assms(3) by (simp add: n last_conv_nth [OF \<open>us \<noteq> []\<close>])
  moreover obtain a b cs where "us = a # b # cs" using assms(1) by (cases us; cases "tl us") auto
  ultimately have "BestUrlInternal responseTime us loc = last us" unfolding BestUrlInternal_def Let_def by (simp del: lit_simps)
  moreover have "find_from (\<lambda>c. c = ch CHR ''#'') (last us) 0 = None"
    using assms(2) \<open>us \<noteq> []\<close> by (auto simp: find_from_None_iff)
  ultimately show ?thesis by (simp add: BestUrl_def)
qed

end
