(* ===== verification/Baulk_Install.thy ===== *)
theory Baulk_Install
  imports Baulk_Package "HOL-Library.AList"
begin

text \<open>
  Installing a package: \<^verbatim>\<open>tools/baulk/pkg.cc\<close> with the parts of \<^verbatim>\<open>extractor.cc\<close>,
  \<^verbatim>\<open>lib/misc/fs.cc\<close> and \<^verbatim>\<open>lib/archive/archive.cc\<close> it runs through, over a disk on which any
  operation may fail. The theorems say that no failure loses the installed package, what
  flattening keeps, and which archives are expanded.
\<close>

section \<open>The disk\<close>

datatype tree = File "byte list" | Folder "(wstr \<times> tree) list"

text \<open>
  The disk maps the paths the program names to what is there, the JSON files are kept
  apart, and \<open>faults\<close> says which of the operations to come fail for reasons of their own.
\<close>

record world =
  disk :: "wstr \<Rightarrow> tree option"
  json_files :: "wstr \<Rightarrow> json option"
  faults :: "bool list"

definition attempt :: "world \<Rightarrow> bool \<times> world" where
  "attempt w = (case faults w of [] \<Rightarrow> (True, w) | f # fs \<Rightarrow> (\<not> f, w\<lparr>faults := fs\<rparr>))"

definition fs_exists :: "world \<Rightarrow> wstr \<Rightarrow> bool" where
  "fs_exists w p \<longleftrightarrow> disk w p \<noteq> None"

fun is_folder :: "tree \<Rightarrow> bool" where
  "is_folder (Folder _) = True"
| "is_folder (File _) = False"

text \<open>A rename does not replace what is at the new path when a directory is involved.\<close>

definition may_replace :: "tree \<Rightarrow> tree option \<Rightarrow> bool" where
  "may_replace t dst = (case dst of None \<Rightarrow> True | Some t' \<Rightarrow> \<not> is_folder t \<and> \<not> is_folder t')"

definition fs_rename :: "wstr \<Rightarrow> wstr \<Rightarrow> world \<Rightarrow> bool \<times> world" where
  "fs_rename old_p new_p w =
     (let (ok, w) = attempt w in
      case disk w old_p of
        Some t \<Rightarrow> if ok \<and> may_replace t (disk w new_p)
                  then (True, w\<lparr>disk := (disk w)(old_p := None, new_p := Some t)\<rparr>) else (False, w)
      | None \<Rightarrow> (False, w))"

text \<open>Removing a directory is one step here: it is gone, or it is as it was. The system may also stop half way.\<close>

definition fs_remove_all :: "wstr \<Rightarrow> world \<Rightarrow> bool \<times> world" where
  "fs_remove_all p w = (let (ok, w) = attempt w in if ok then (True, w\<lparr>disk := (disk w)(p := None)\<rparr>) else (False, w))"

text \<open>\<open>create_directories\<close> answers whether it made a directory.\<close>

definition fs_create_directories :: "wstr \<Rightarrow> world \<Rightarrow> bool \<times> world" where
  "fs_create_directories p w =
     (let (ok, w) = attempt w in
      if ok \<and> disk w p = None then (True, w\<lparr>disk := (disk w)(p := Some (Folder []))\<rparr>) else (False, w))"

text \<open>Copying a file into a directory, and moving it there.\<close>

definition fs_copy_into :: "wstr \<Rightarrow> wstr \<Rightarrow> wstr \<Rightarrow> world \<Rightarrow> bool \<times> world" where
  "fs_copy_into src dir name w =
     (let (ok, w) = attempt w in
      case (disk w src, disk w dir) of
        (Some (File b), Some (Folder es)) \<Rightarrow>
          if ok then (True, w\<lparr>disk := (disk w)(dir := Some (Folder (AList.update name (File b) es)))\<rparr>) else (False, w)
      | _ \<Rightarrow> (False, w))"

definition fs_move_into :: "wstr \<Rightarrow> wstr \<Rightarrow> wstr \<Rightarrow> world \<Rightarrow> bool \<times> world" where
  "fs_move_into src dir name w =
     (let (ok, w) = attempt w in
      case (disk w src, disk w dir) of
        (Some t, Some (Folder es)) \<Rightarrow>
          if ok \<and> src \<noteq> dir \<and> may_replace t (map_of es name)
          then (True, w\<lparr>disk := (disk w)(src := None, dir := Some (Folder (AList.update name t es)))\<rparr>) else (False, w)
      | _ \<Rightarrow> (False, w))"

section \<open>Names\<close>

definition is_dot_or_separator :: "wchar \<Rightarrow> bool" where
  "is_dot_or_separator c \<longleftrightarrow> is_sep c \<or> c = ch CHR ''.''"

definition archive_extensions :: "wstr list" where
  "archive_extensions = [lit ''.tar.gz'', lit ''.tar.bz2'', lit ''.tar.xz'', lit ''.tar.zst'', lit ''.tar.zstd'',
     lit ''.tar.br'', lit ''.tar.lz4'']"

definition PathStripExtension :: "wstr \<Rightarrow> wstr" where
  "PathStripExtension p =
     (if p = [] then lit ''.''
      else let p = hd p # rev (dropWhile is_dot_or_separator (rev (tl p)))
           in case find (EndsWithIgnoreCase p) archive_extensions of
                Some e \<Rightarrow> take (length p - length e) p
              | None \<Rightarrow> (case dropWhile (\<lambda>c. \<not> is_dot_or_separator c) (rev p) of
                  [] \<Rightarrow> p
                | c # front \<Rightarrow> if c = ch CHR ''.'' then rev front else p))"

text \<open>The first of a hundred names that is free.\<close>

definition make_unqiue_extracted_destination :: "world \<Rightarrow> wstr \<Rightarrow> wstr option" where
  "make_unqiue_extracted_destination w archive_file =
     (let parent_path = path_parent archive_file;
          strict_folder = PathStripExtension (path_filename archive_file);
          d = path_append parent_path strict_folder
      in if \<not> fs_exists w d then Some d
         else find (\<lambda>d. \<not> fs_exists w d)
                (map (\<lambda>i. path_append parent_path (strict_folder @ lit ''-('' @ dec i @ lit '')'')) [1..<100]))"

section \<open>Flattening\<close>

text \<open>
  A directory whose only entry is another directory, not named \<open>bin\<close>, is a wrapper.
  \<open>flattened_internal\<close> follows wrappers twenty times at most; the result is the way down.
\<close>

definition wrapped :: "tree \<Rightarrow> (wstr \<times> tree) option" where
  "wrapped t = (case t of
     Folder [(name, t')] \<Rightarrow> if is_folder t' \<and> \<not> EqualsIgnoreCase name (lit ''bin'') then Some (name, t') else None
   | _ \<Rightarrow> None)"

fun flattened_loop :: "nat \<Rightarrow> tree \<Rightarrow> wstr list option" where
  "flattened_loop 0 current = None"
| "flattened_loop (Suc i) current =
     (case wrapped current of None \<Rightarrow> Some [] | Some (name, t) \<Rightarrow> map_option ((#) name) (flattened_loop i t))"

definition flattened_internal :: "tree \<Rightarrow> wstr list option" where
  "flattened_internal d = (if is_folder d then flattened_loop 20 d else None)"

fun tree_at :: "tree \<Rightarrow> wstr list \<Rightarrow> tree option" where
  "tree_at t [] = Some t"
| "tree_at (Folder es) (n # ns) = Option.bind (map_of es n) (\<lambda>t. tree_at t ns)"
| "tree_at (File b) (n # ns) = None"

fun tree_remove :: "tree \<Rightarrow> wstr list \<Rightarrow> tree" where
  "tree_remove t [] = t"
| "tree_remove (Folder es) [n] = Folder (AList.delete n es)"
| "tree_remove (Folder es) (n # ns) =
     (case map_of es n of None \<Rightarrow> Folder es | Some t \<Rightarrow> Folder (AList.update n (tree_remove t ns) es))"
| "tree_remove (File b) ns = File b"

text \<open>Moving a directory below \<open>d\<close> to a path of its own.\<close>

definition fs_move_out :: "wstr \<Rightarrow> wstr list \<Rightarrow> wstr \<Rightarrow> world \<Rightarrow> bool \<times> world" where
  "fs_move_out d ns new_p w =
     (let (ok, w) = attempt w in
      case disk w d of
        Some t \<Rightarrow> (case tree_at t ns of
            Some t' \<Rightarrow> if ok \<and> may_replace t' (disk w new_p)
                       then (True, w\<lparr>disk := (disk w)(d := Some (tree_remove t ns), new_p := Some t')\<rparr>) else (False, w)
          | None \<Rightarrow> (False, w))
      | None \<Rightarrow> (False, w))"

definition flatten_temporary :: "wstr \<Rightarrow> nat \<Rightarrow> wstr" where
  "flatten_temporary d pid = path_append (path_parent d) (path_filename d @ lit ''.'' @ dec pid @ lit ''.new'')"

definition MakeFlattened :: "nat \<Rightarrow> wstr \<Rightarrow> world \<Rightarrow> bool \<times> world" where
  "MakeFlattened pid d w =
     (case Option.bind (disk w d) flattened_internal of
        None \<Rightarrow> (False, w)
      | Some [] \<Rightarrow> (True, w)
      | Some ns \<Rightarrow>
          (let (_, w) = fs_move_out d ns (flatten_temporary d pid) w;
               (ok, w) = fs_remove_all d w
           in if \<not> ok then (False, w)
              else let (_, w) = fs_rename (flatten_temporary d pid) d w in (True, w)))"

section \<open>Extracting\<close>

datatype extract_method = extract_exe | extract_msi | extract_zip | extract_7z | extract_tar | extract_auto

definition resolve_extract_handle :: "wstr \<Rightarrow> extract_method option" where
  "resolve_extract_handle ext = map_of [(lit ''exe'', extract_exe), (lit ''msi'', extract_msi), (lit ''zip'', extract_zip),
     (lit ''7z'', extract_7z), (lit ''tar'', extract_tar), (lit ''auto'', extract_auto)] ext"

datatype extract_result = Extracted | NoOverlayArchive | ExtractFailed

text \<open>
  What installing takes from its surroundings: the readers of the archive formats, the
  digests, the network, the link farm and the settings of the installation. An archive
  reader turns the bytes of an archive into the result and the directory it leaves; that it
  keeps to this directory is part of the parameter. \<open>NewLinks\<close> of \<^verbatim>\<open>pkg.cc\<close> and \<^verbatim>\<open>launcher.cc\<close>
  makes the directories the package asks for and replaces its links and launchers; these are
  outside of the disk modelled here, so only its answer is a parameter.
\<close>

record services =
  svc_host :: host
  svc_Extract :: "extract_method \<Rightarrow> byte list \<Rightarrow> extract_result \<times> tree"
  svc_digest :: "hash_t \<Rightarrow> byte list \<Rightarrow> wstr"
  svc_WinGet :: "nat \<Rightarrow> wstr \<Rightarrow> (wstr \<times> byte list) option"
  svc_NewLinks :: "Package \<Rightarrow> bool"
  svc_responseTime :: "wstr \<Rightarrow> 64 word"
  svc_locale :: wstr
  svc_frozen :: "wstr \<Rightarrow> bool"
  svc_force :: bool
  svc_date :: "byte list"
  svc_pid :: nat
  AppPackages :: wstr
  AppTemp :: wstr

definition world_host :: "services \<Rightarrow> world \<Rightarrow> host" where
  "world_host s w = (svc_host s)\<lparr>parse_json_file := json_files w\<rparr>"

definition run_extract_exe :: "wstr \<Rightarrow> wstr \<Rightarrow> world \<Rightarrow> extract_result \<times> world" where
  "run_extract_exe archive_file destination w =
     (let (_, w) = fs_remove_all destination w;
          (_, w) = fs_create_directories destination w;
          (ok, w) = fs_move_into archive_file destination (path_filename archive_file) w
      in (if ok then Extracted else ExtractFailed, w))"

definition run_extract :: "services \<Rightarrow> extract_method \<Rightarrow> wstr \<Rightarrow> wstr \<Rightarrow> world \<Rightarrow> extract_result \<times> world" where
  "run_extract s fn archive_file destination w =
     (if fn = extract_exe then run_extract_exe archive_file destination w
      else case disk w archive_file of
        Some (File b) \<Rightarrow>
          (let (r, t) = svc_Extract s fn b; w = w\<lparr>disk := (disk w)(destination := Some t)\<rparr>
           in if r = Extracted \<and> fn \<noteq> extract_msi
              then (let (ok, w) = MakeFlattened (svc_pid s) destination w in (if ok then Extracted else ExtractFailed, w))
              else (r, w))
      | _ \<Rightarrow> (ExtractFailed, w))"

section \<open>Expanding\<close>

definition PackageLocalMetaWrite :: "services \<Rightarrow> Package \<Rightarrow> world \<Rightarrow> bool \<times> world" where
  "PackageLocalMetaWrite s pkg w =
     (let (ok, w) = attempt w in
      if ok then (True, w\<lparr>json_files := (json_files w)(lock_file (svc_host s) (pkg_name pkg) := Some (PackageLocalMetaJson (svc_date s) pkg))\<rparr>)
      else (False, w))"

definition package_root :: "services \<Rightarrow> Package \<Rightarrow> wstr" where
  "package_root s pkg = path_append (AppPackages s) (pkg_name pkg)"

definition out_path :: "services \<Rightarrow> Package \<Rightarrow> wstr" where
  "out_path s pkg = path_append (AppPackages s) (pkg_name pkg @ lit ''.out'')"

definition expand_fallback_exe :: "services \<Rightarrow> Package \<Rightarrow> wstr \<Rightarrow> world \<Rightarrow> bool \<times> world" where
  "expand_fallback_exe s pkg archive_file w =
     (let pkgRoot = package_root s pkg;
          oldPath = out_path s pkg;
          exefile = pkg_name pkg @ lit ''.exe'';
          (ok, w) = (if fs_exists w pkgRoot then fs_rename pkgRoot oldPath w else (True, w))
      in if \<not> ok then (False, w)
         else let (ok, w) = fs_create_directories pkgRoot w
         in if \<not> ok then (False, snd (fs_rename oldPath pkgRoot w))
         else let (ok, w) = fs_copy_into archive_file pkgRoot exefile w
         in if \<not> ok then (False, snd (fs_rename oldPath pkgRoot w))
         else let pkgCopy = pkg\<lparr>links := links pkg @ [\<lparr>link_path = exefile, link_alias = exefile\<rparr>],
                      pkg_mask := pkg_mask pkg OR MaskCompatibilityMode\<rparr>;
                  (ok, w) = PackageLocalMetaWrite s pkgCopy w
         in if \<not> ok then (False, w)
         else let (_, w) = fs_remove_all oldPath w in (svc_NewLinks s pkgCopy, w))"

text \<open>Putting the extracted directory in the place of the package.\<close>

definition replace_package :: "wstr \<Rightarrow> wstr \<Rightarrow> world \<Rightarrow> bool \<times> world" where
  "replace_package pkgRoot destination w =
     (let installed = fs_exists w pkgRoot; oldPath = pkgRoot @ lit ''.old'';
          (ok, w) = (if installed then fs_rename pkgRoot oldPath w else (True, w))
      in if \<not> ok then (False, w)
         else let (ok, w) = fs_rename destination pkgRoot w
         in if \<not> ok then (False, if installed then snd (fs_rename oldPath pkgRoot w) else w)
         else (True, if installed then snd (fs_remove_all oldPath w) else w))"

definition Expand :: "services \<Rightarrow> Package \<Rightarrow> wstr \<Rightarrow> world \<Rightarrow> bool \<times> world" where
  "Expand s pkg archive_file w =
     (case resolve_extract_handle (extension pkg) of
        None \<Rightarrow> (False, w)
      | Some fn \<Rightarrow>
          (case make_unqiue_extracted_destination w archive_file of
             None \<Rightarrow> (False, w)
           | Some destination \<Rightarrow>
               (let (r, w) = run_extract s fn archive_file destination w in
                case r of
                  NoOverlayArchive \<Rightarrow> expand_fallback_exe s pkg archive_file w
                | ExtractFailed \<Rightarrow> (False, w)
                | Extracted \<Rightarrow>
                    (let (ok, w) = replace_package (package_root s pkg) destination w
                     in if \<not> ok then (False, w)
                        else let (ok, w) = PackageLocalMetaWrite s pkg w
                        in if \<not> ok then (False, w) else (svc_NewLinks s pkg, w)))))"

section \<open>Installing\<close>

definition FileHash :: "services \<Rightarrow> world \<Rightarrow> wstr \<Rightarrow> hash_t \<Rightarrow> wstr option" where
  "FileHash s w p m = (case disk w p of Some (File b) \<Rightarrow> Some (svc_digest s m b) | _ \<Rightarrow> None)"

definition PackageCached :: "services \<Rightarrow> world \<Rightarrow> wstr \<Rightarrow> wstr \<Rightarrow> wstr \<Rightarrow> wstr option" where
  "PackageCached s w downloads filename h =
     (let archive_file = path_append downloads filename in
      if \<not> fs_exists w archive_file then None
      else case HashEqual (FileHash s w archive_file) h of Inl _ \<Rightarrow> None | Inr _ \<Rightarrow> Some archive_file)"

text \<open>
  The four rounds of the download loop from round \<open>i\<close> on. A round overwrites
  \<open>archive_file\<close>, with nothing when the download fails.
\<close>

fun download_loop :: "services \<Rightarrow> Package \<Rightarrow> wstr \<Rightarrow> nat \<Rightarrow> nat \<Rightarrow> wstr option \<Rightarrow> world \<Rightarrow> wstr option \<times> world" where
  "download_loop s pkg url i 0 archive_file w = (archive_file, w)"
| "download_loop s pkg url i (Suc n) archive_file w =
     (case svc_WinGet s i url of
        None \<Rightarrow> download_loop s pkg url (Suc i) n None w
      | Some (p, b) \<Rightarrow>
          (let w = w\<lparr>disk := (disk w)(p := Some (File b))\<rparr> in
           if hash pkg = [] then (Some p, w)
           else case HashEqual (FileHash s w p) (hash pkg) of
                  Inr _ \<Rightarrow> (Some p, w)
                | Inl _ \<Rightarrow> download_loop s pkg url (Suc i) n (Some p) w))"

definition MakeDirectories :: "wstr \<Rightarrow> world \<Rightarrow> bool \<times> world" where
  "MakeDirectories p w = (if fs_exists w p then (True, w) else fs_create_directories p w)"

definition install_download :: "services \<Rightarrow> Package \<Rightarrow> world \<Rightarrow> bool \<times> world" where
  "install_download s pkg w =
     (let url = BestUrl (svc_responseTime s) (urls pkg) (svc_locale s) in
      if url = [] then (False, w)
      else let downloads = AppTemp s; filename = url_path_name url
      in case (if hash pkg = [] then None else PackageCached s w downloads filename (hash pkg)) of
           Some archive_file \<Rightarrow> Expand s pkg archive_file w
         | None \<Rightarrow>
             (let (ok, w) = MakeDirectories downloads w
              in if \<not> ok then (False, w)
                 else let (archive_file, w) = download_loop s pkg url 0 4 None w
                 in case archive_file of None \<Rightarrow> (False, w) | Some p \<Rightarrow> Expand s pkg p w))"

text \<open>\<open>None\<close> when the lock file throws or a version is read behind its end.\<close>

definition Install :: "services \<Rightarrow> Package \<Rightarrow> world \<Rightarrow> (bool \<times> world) option" where
  "Install s pkg w = do {
     r \<leftarrow> PackageLocalMeta (world_host s w) (pkg_name pkg);
     case r of
       Inl _ \<Rightarrow> Some (install_download s pkg w)
     | Inr pkgLocal \<Rightarrow> do {
         pkgVersion \<leftarrow> make_version (pkg_version pkg);
         localVersion \<leftarrow> make_version (pkg_version pkgLocal);
         if version_lt pkgVersion localVersion \<or> version_eq pkgVersion localVersion \<and> weights pkg \<le> weights pkgLocal
         then Some (if pkg_mask pkgLocal AND MaskCompatibilityMode \<noteq> 0 then True else svc_NewLinks s pkg, w)
         else if svc_frozen s (pkg_name pkg) \<and> \<not> svc_force s then Some (True, w)
         else Some (install_download s pkg w) } }"

section \<open>Operations on the disk\<close>

lemma attempt_disk [simp]: "attempt w = (ok, w') \<Longrightarrow> disk w' = disk w \<and> json_files w' = json_files w"
  by (auto simp: attempt_def split: list.splits)

lemma attempt_no_faults: "faults w = [] \<Longrightarrow> attempt w = (True, w)"
  by (simp add: attempt_def)

lemma fs_rename_cases:
  assumes "fs_rename a b w = (ok, w')"
  shows "json_files w' = json_files w \<and>
    (if ok then \<exists>t. disk w a = Some t \<and> may_replace t (disk w b) \<and> disk w' = (disk w)(a := None, b := Some t) else disk w' = disk w)"
  using assms by (auto simp: fs_rename_def split: prod.splits option.splits if_splits dest!: attempt_disk)

lemma fs_remove_all_cases:
  assumes "fs_remove_all p w = (ok, w')"
  shows "json_files w' = json_files w \<and> disk w' = (if ok then (disk w)(p := None) else disk w)"
  using assms by (auto simp: fs_remove_all_def split: prod.splits if_splits dest!: attempt_disk)

lemma fs_create_directories_cases:
  assumes "fs_create_directories p w = (ok, w')"
  shows "json_files w' = json_files w \<and>
    (if ok then disk w p = None \<and> disk w' = (disk w)(p := Some (Folder [])) else disk w' = disk w)"
  using assms by (auto simp: fs_create_directories_def split: prod.splits if_splits dest!: attempt_disk)

lemma fs_copy_into_cases:
  assumes "fs_copy_into src dir name w = (ok, w')"
  shows "json_files w' = json_files w \<and>
    (if ok then \<exists>b es. disk w src = Some (File b) \<and> disk w dir = Some (Folder es)
       \<and> disk w' = (disk w)(dir := Some (Folder (AList.update name (File b) es))) else disk w' = disk w)"
  using assms by (auto simp: fs_copy_into_def split: prod.splits option.splits tree.splits if_splits dest!: attempt_disk)

lemma fs_move_into_cases:
  assumes "fs_move_into src dir name w = (ok, w')"
  shows "json_files w' = json_files w \<and> (\<forall>p. p \<noteq> src \<longrightarrow> p \<noteq> dir \<longrightarrow> disk w' p = disk w p)"
  using assms by (auto simp: fs_move_into_def split: prod.splits option.splits tree.splits if_splits dest!: attempt_disk)

lemma fs_move_out_cases:
  assumes "fs_move_out d ns q w = (ok, w')"
  shows "json_files w' = json_files w \<and> (\<forall>p. p \<noteq> d \<longrightarrow> p \<noteq> q \<longrightarrow> disk w' p = disk w p)"
  using assms by (auto simp: fs_move_out_def split: prod.splits option.splits if_splits dest!: attempt_disk)

section \<open>Flattening keeps the files\<close>

text \<open>A directory below a row of wrappers, and that every directory is one below all of its wrappers.\<close>

definition wrap :: "wstr list \<Rightarrow> tree \<Rightarrow> tree" where
  "wrap ns t = foldr (\<lambda>n u. Folder [(n, u)]) ns t"

lemma wrap_simps [simp]: "wrap [] t = t" "wrap (n # ns) t = Folder [(n, wrap ns t)]"
  by (simp_all add: wrap_def)

lemma is_folder_wrap: "is_folder t \<Longrightarrow> is_folder (wrap ns t)"
  by (cases ns) simp_all

lemma tree_at_wrap [simp]: "tree_at (wrap ns t) ns = Some t"
  by (induction ns) simp_all

lemma wrapped_None_iff:
  "wrapped t = None \<longleftrightarrow> (\<forall>n es. t = Folder [(n, Folder es)] \<longrightarrow> EqualsIgnoreCase n (lit ''bin''))"
proof (cases t)
  case (Folder xs)
  consider "xs = []" | n u where "xs = [(n, u)]" | x y zs where "xs = x # y # zs" by (cases xs; cases "tl xs") auto
  then show ?thesis
  proof cases
    case 2
    then show ?thesis using Folder by (cases u) (simp_all add: wrapped_def)
  qed (simp_all add: Folder wrapped_def)
qed (simp add: wrapped_def)

lemma wrapped_wrap:
  "is_folder t \<Longrightarrow> \<not> EqualsIgnoreCase n (lit ''bin'') \<Longrightarrow> wrapped (wrap (n # ns) t) = Some (n, wrap ns t)"
  by (simp add: wrapped_def is_folder_wrap)

lemma flattened_loop_wrap:
  assumes "is_folder t" and "wrapped t = None"
  shows "\<forall>n\<in>set ns. \<not> EqualsIgnoreCase n (lit ''bin'') \<Longrightarrow> flattened_loop k (wrap ns t) = (if length ns < k then Some ns else None)"
proof (induction ns arbitrary: k)
  case Nil
  then show ?case using assms(2) by (cases k) simp_all
next
  case (Cons n ns)
  then have "wrapped (wrap (n # ns) t) = Some (n, wrap ns t)" using wrapped_wrap assms(1) by simp
  then show ?case using Cons by (cases k) (simp_all del: wrap_simps)
qed

lemma unwrap_folder:
  assumes "is_folder t"
  shows "\<exists>ns t'. t = wrap ns t' \<and> is_folder t' \<and> wrapped t' = None \<and> (\<forall>n\<in>set ns. \<not> EqualsIgnoreCase n (lit ''bin''))"
  using assms
proof (induction t rule: measure_induct_rule [of size])
  case (less t)
  show ?case
  proof (cases "wrapped t")
    case None
    then show ?thesis using less.prems by (intro exI [of _ "[]"] exI [of _ t]) simp
  next
    case (Some nu)
    obtain n u where nu: "nu = (n, u)" by (cases nu)
    have t: "t = Folder [(n, u)]" "is_folder u" "\<not> EqualsIgnoreCase n (lit ''bin'')"
      using Some nu by (auto simp: wrapped_def split: tree.splits list.splits if_splits)
    then obtain ns t' where "u = wrap ns t'" "is_folder t'" "wrapped t' = None" "\<forall>n\<in>set ns. \<not> EqualsIgnoreCase n (lit ''bin'')"
      using less.IH [of u] by auto
    then show ?thesis using t by (intro exI [of _ "n # ns"] exI [of _ t']) simp
  qed
qed

lemma MakeFlattened_wrap:
  assumes "faults w = []" and "disk w d = Some (wrap ns t)" and "is_folder t" and "wrapped t = None"
    and "\<forall>n\<in>set ns. \<not> EqualsIgnoreCase n (lit ''bin'')"
    and free: "flatten_temporary d pid \<noteq> d" "disk w (flatten_temporary d pid) = None"
  shows "MakeFlattened pid d w = (if length ns < 20 then (True, w\<lparr>disk := (disk w)(d := Some t)\<rparr>) else (False, w))"
proof -
  let ?q = "flatten_temporary d pid"
  have f: "flattened_internal (wrap ns t) = (if length ns < 20 then Some ns else None)"
    using flattened_loop_wrap [OF assms(3,4,5)] is_folder_wrap [OF assms(3)] by (simp add: flattened_internal_def)
  show ?thesis
  proof (cases "length ns < 20 \<and> ns \<noteq> []")
    case True
    then obtain n ms where ns: "ns = n # ms" by (cases ns) auto
    have a: "attempt v = (True, v)" if "faults v = []" for v using that by (rule attempt_no_faults)
    have "fs_move_out d ns ?q w = (True, w\<lparr>disk := (disk w)(d := Some (tree_remove (wrap ns t) ns), ?q := Some t)\<rparr>)"
      using assms(1,2) free by (simp add: fs_move_out_def a may_replace_def)
    moreover have "((disk w)(d := x, ?q := Some t, d := None, ?q := None, d := Some t)) = (disk w)(d := Some t)" for x
      using free by (auto simp: fun_eq_iff)
    ultimately show ?thesis
      using f True assms(1,2) free ns by (simp add: MakeFlattened_def fs_remove_all_def fs_rename_def a may_replace_def del: wrap_simps)
  next
    case False
    have "w = w\<lparr>disk := (disk w)(d := Some (wrap ns t))\<rparr>" using assms(2) by (cases w) auto
    then show ?thesis using f False assms(2) by (auto simp: MakeFlattened_def)
  qed
qed

text \<open>
  C29: What flattening a directory does when no operation fails. Every directory is some
  inner directory below a row of wrappers, each of them a directory with this one entry that is
  not named \<open>bin\<close>, where the inner directory does not itself have a single directory other than
  \<open>bin\<close> as its only entry. With fewer than twenty wrappers \<open>MakeFlattened\<close> succeeds and
  afterwards the directory is exactly the inner directory, all names and files below it as they
  were; with more it fails. Nothing else on the disk changes.
\<close>

theorem MakeFlattened_keeps_files:
  assumes "faults w = []" and "disk w d = Some (Folder es)"
    and "flatten_temporary d pid \<noteq> d" and "disk w (flatten_temporary d pid) = None"
  shows "\<exists>ns inner. Folder es = foldr (\<lambda>n u. Folder [(n, u)]) ns (Folder inner)
    \<and> (\<forall>n\<in>set ns. \<not> EqualsIgnoreCase n (lit ''bin''))
    \<and> (\<forall>n es'. inner = [(n, Folder es')] \<longrightarrow> EqualsIgnoreCase n (lit ''bin''))
    \<and> MakeFlattened pid d w = (if length ns < 20 then (True, w\<lparr>disk := (disk w)(d := Some (Folder inner))\<rparr>) else (False, w))"
proof -
  obtain ns t where t: "Folder es = wrap ns t" "is_folder t" "wrapped t = None" "\<forall>n\<in>set ns. \<not> EqualsIgnoreCase n (lit ''bin'')"
    using unwrap_folder [of "Folder es"] by auto
  then obtain inner where "t = Folder inner" by (cases t) auto
  then show ?thesis
    using t MakeFlattened_wrap [OF assms(1) assms(2) [unfolded t(1)] t(2-4) assms(3,4)] wrapped_None_iff [of t] unfolding wrap_def by blast
qed

definition wrapped_world :: "bool list \<Rightarrow> world" where
  "wrapped_world fs = \<lparr>disk = (\<lambda>p. if p = lit ''T/x'' then Some (Folder [(lit ''x-1'', Folder [(lit ''a'', File [1])])]) else None),
     json_files = (\<lambda>_. None), faults = fs\<rparr>"

theorem MakeFlattened_keeps_files_witness:
  "MakeFlattened 7 (lit ''T/x'') (wrapped_world []) =
     (True, (wrapped_world [])\<lparr>disk := (disk (wrapped_world []))(lit ''T/x'' := Some (Folder [(lit ''a'', File [1])]))\<rparr>)"
proof -
  have h: "faults (wrapped_world []) = []" by code_simp
  have d: "disk (wrapped_world []) (lit ''T/x'') = Some (Folder [(lit ''x-1'', Folder [(lit ''a'', File [1])])])" by code_simp
  have q: "flatten_temporary (lit ''T/x'') 7 \<noteq> lit ''T/x''" "disk (wrapped_world []) (flatten_temporary (lit ''T/x'') 7) = None"
    by code_simp+
  have b: "\<not> EqualsIgnoreCase (lit ''x-1'') (lit ''bin'')" by code_simp
  obtain ns inner where n: "Folder [(lit ''x-1'', Folder [(lit ''a'', File [1])])] = foldr (\<lambda>n u. Folder [(n, u)]) ns (Folder inner)"
    "\<forall>n es'. inner = [(n, Folder es')] \<longrightarrow> EqualsIgnoreCase n (lit ''bin'')"
    "MakeFlattened 7 (lit ''T/x'') (wrapped_world []) =
      (if length ns < 20 then (True, (wrapped_world [])\<lparr>disk := (disk (wrapped_world []))(lit ''T/x'' := Some (Folder inner))\<rparr>) else (False, wrapped_world []))"
    using MakeFlattened_keeps_files [OF h d q] by blast
  have "ns = [lit ''x-1''] \<and> inner = [(lit ''a'', File [1])]"
  proof (cases ns)
    case Nil
    then have "inner = [(lit ''x-1'', Folder [(lit ''a'', File [1])])]" using n(1) by simp
    then show ?thesis using n(2) b by blast
  next
    case (Cons m ms)
    then show ?thesis using n(1) by (cases ms; cases "tl ms") auto
  qed
  then show ?thesis using n(3) by simp
qed

text \<open>
  The result of the first rename is not looked at: when it fails the extracted files are
  deleted and success is reported.
\<close>

lemma MakeFlattened_ignores_rename:
  "fst (MakeFlattened 7 (lit ''T/x'') (wrapped_world [True]))
   \<and> disk (snd (MakeFlattened 7 (lit ''T/x'') (wrapped_world [True]))) (lit ''T/x'') = None"
  by code_simp

section \<open>An installed package is never lost\<close>

definition old_path :: "services \<Rightarrow> Package \<Rightarrow> wstr" where
  "old_path s pkg = package_root s pkg @ lit ''.old''"

text \<open>
  The archive, the directory it is extracted to and the temporary name of flattening are
  apart from the package and its two temporary names.
\<close>

definition apart :: "services \<Rightarrow> Package \<Rightarrow> wstr \<Rightarrow> world \<Rightarrow> bool" where
  "apart s pkg archive_file w \<longleftrightarrow>
     package_root s pkg \<noteq> out_path s pkg \<and>
     (\<forall>p\<in>set [package_root s pkg, old_path s pkg, out_path s pkg]. archive_file \<noteq> p \<and>
        (case make_unqiue_extracted_destination w archive_file of
           None \<Rightarrow> True | Some d \<Rightarrow> d \<noteq> p \<and> flatten_temporary d (svc_pid s) \<noteq> p))"

lemma replace_package_cases:
  assumes "replace_package r d w = (ok, w')" and "d \<noteq> r" and "d \<noteq> r @ lit ''.old''"
  shows "json_files w' = json_files w \<and>
    (if ok then disk w d \<noteq> None \<and> disk w' r = disk w d
     else disk w r \<noteq> None \<longrightarrow> disk w' r = disk w r \<or> disk w' (r @ lit ''.old'') = disk w r)"
proof (cases "disk w r")
  case None
  obtain ok1 w1 where r1: "fs_rename d r w = (ok1, w1)" by (cases "fs_rename d r w")
  with None assms(1) have "ok = ok1" "w' = w1" by (simp_all add: replace_package_def fs_exists_def Let_def split: if_splits)
  with fs_rename_cases [OF r1] None assms(2) show ?thesis by (auto split: if_splits)
next
  case (Some t)
  let ?o = "r @ lit ''.old''"
  obtain ok1 w1 where r1: "fs_rename r ?o w = (ok1, w1)" by (cases "fs_rename r ?o w")
  obtain ok2 w2 where r2: "fs_rename d r w1 = (ok2, w2)" by (cases "fs_rename d r w1")
  obtain ok3 w3 where r3: "fs_rename ?o r w2 = (ok3, w3)" by (cases "fs_rename ?o r w2")
  obtain ok4 w4 where r4: "fs_remove_all ?o w2 = (ok4, w4)" by (cases "fs_remove_all ?o w2")
  have "(ok, w') = (if \<not> ok1 then (False, w1) else if \<not> ok2 then (False, w3) else (True, w4))"
    using assms(1) Some by (simp add: replace_package_def fs_exists_def r1 r2 r3 r4 Let_def del: lit_simps split: if_splits)
  then show ?thesis
    using fs_rename_cases [OF r1] fs_rename_cases [OF r2] fs_rename_cases [OF r3] fs_remove_all_cases [OF r4] Some assms(2,3)
    by (auto split: if_splits)
qed

lemma MakeFlattened_frame:
  assumes "MakeFlattened pid d w = (ok, w')" and p: "p \<noteq> d" "p \<noteq> flatten_temporary d pid"
  shows "disk w' p = disk w p \<and> json_files w' = json_files w"
proof (cases "\<exists>n ms. Option.bind (disk w d) flattened_internal = Some (n # ms)")
  case False
  with assms(1) show ?thesis by (auto simp: MakeFlattened_def split: option.splits list.splits)
next
  case True
  then obtain n ms where ns: "Option.bind (disk w d) flattened_internal = Some (n # ms)" by blast
  let ?q = "flatten_temporary d pid"
  obtain ok1 w1 where r1: "fs_move_out d (n # ms) ?q w = (ok1, w1)" by (cases "fs_move_out d (n # ms) ?q w")
  obtain ok2 w2 where r2: "fs_remove_all d w1 = (ok2, w2)" by (cases "fs_remove_all d w1")
  obtain ok3 w3 where r3: "fs_rename ?q d w2 = (ok3, w3)" by (cases "fs_rename ?q d w2")
  have "w' = (if ok2 then w3 else w2)"
    using assms(1) by (simp add: MakeFlattened_def ns r1 r2 r3 split: if_splits)
  then show ?thesis
    using fs_move_out_cases [OF r1] fs_remove_all_cases [OF r2] fs_rename_cases [OF r3] p by (auto split: if_splits)
qed

lemma run_extract_frame:
  assumes "run_extract s fn a d w = (r, w')" and p: "p \<noteq> a" "p \<noteq> d" "p \<noteq> flatten_temporary d (svc_pid s)"
  shows "disk w' p = disk w p \<and> json_files w' = json_files w"
proof (cases "fn = extract_exe")
  case True
  obtain ok1 w1 where r1: "fs_remove_all d w = (ok1, w1)" by (cases "fs_remove_all d w")
  obtain ok2 w2 where r2: "fs_create_directories d w1 = (ok2, w2)" by (cases "fs_create_directories d w1")
  obtain ok3 w3 where r3: "fs_move_into a d (path_filename a) w2 = (ok3, w3)" by (cases "fs_move_into a d (path_filename a) w2")
  have "w' = w3" using assms(1) True by (simp add: run_extract_def run_extract_exe_def r1 r2 r3)
  then show ?thesis
    using fs_remove_all_cases [OF r1] fs_create_directories_cases [OF r2] fs_move_into_cases [OF r3] p
    by (auto split: if_splits)
next
  case False
  show ?thesis
  proof (cases "\<exists>b. disk w a = Some (File b)")
    case True
    then obtain b where b: "disk w a = Some (File b)" by blast
    obtain r1 t where e: "svc_Extract s fn b = (r1, t)" by (cases "svc_Extract s fn b")
    obtain ok2 w2 where m: "MakeFlattened (svc_pid s) d (w\<lparr>disk := (disk w)(d := Some t)\<rparr>) = (ok2, w2)"
      by (cases "MakeFlattened (svc_pid s) d (w\<lparr>disk := (disk w)(d := Some t)\<rparr>)")
    have "w' = (if r1 = Extracted \<and> fn \<noteq> extract_msi then w2 else w\<lparr>disk := (disk w)(d := Some t)\<rparr>)"
      using assms(1) False by (auto simp: run_extract_def b e m Let_def split: if_splits)
    then show ?thesis using MakeFlattened_frame [OF m] p by auto
  next
    case b: False
    with False assms(1) have "w' = w" by (auto simp: run_extract_def split: option.splits tree.splits)
    then show ?thesis by simp
  qed
qed

lemma PackageLocalMetaWrite_cases:
  assumes "PackageLocalMetaWrite s pkg w = (ok, w')"
  shows "disk w' = disk w \<and> (ok \<longrightarrow> json_files w' (lock_file (svc_host s) (pkg_name pkg)) = Some (PackageLocalMetaJson (svc_date s) pkg))"
  using assms by (auto simp: PackageLocalMetaWrite_def split: prod.splits if_splits dest!: attempt_disk)

text \<open>The package a fallback installation records.\<close>

definition exe_package :: "Package \<Rightarrow> Package" where
  "exe_package pkg = pkg\<lparr>links := links pkg @ [\<lparr>link_path = pkg_name pkg @ lit ''.exe'', link_alias = pkg_name pkg @ lit ''.exe''\<rparr>],
     pkg_mask := pkg_mask pkg OR MaskCompatibilityMode\<rparr>"

lemma expand_fallback_exe_runs:
  assumes "expand_fallback_exe s pkg a w = (ok, w')"
  obtains ok1 w1 ok2 w2 ok3 w3 ok4 w4 ok5 w5 ok6 w6 ok7 w7 where
    "(if fs_exists w (package_root s pkg) then fs_rename (package_root s pkg) (out_path s pkg) w else (True, w)) = (ok1, w1)"
    "fs_create_directories (package_root s pkg) w1 = (ok2, w2)"
    "fs_copy_into a (package_root s pkg) (pkg_name pkg @ lit ''.exe'') w2 = (ok3, w3)"
    "PackageLocalMetaWrite s (exe_package pkg) w3 = (ok4, w4)"
    "fs_remove_all (out_path s pkg) w4 = (ok5, w5)"
    "fs_rename (out_path s pkg) (package_root s pkg) w2 = (ok6, w6)"
    "fs_rename (out_path s pkg) (package_root s pkg) w3 = (ok7, w7)"
    "(ok, w') = (if \<not> ok1 then (False, w1) else if \<not> ok2 then (False, w6) else if \<not> ok3 then (False, w7)
      else if \<not> ok4 then (False, w4) else (svc_NewLinks s (exe_package pkg), w5))"
proof -
  let ?r = "package_root s pkg" and ?o = "out_path s pkg" and ?e = "pkg_name pkg @ lit ''.exe''"
  obtain ok1 w1 where r1: "(if fs_exists w ?r then fs_rename ?r ?o w else (True, w)) = (ok1, w1)"
    by (cases "if fs_exists w ?r then fs_rename ?r ?o w else (True, w)")
  obtain ok2 w2 where r2: "fs_create_directories ?r w1 = (ok2, w2)" by (cases "fs_create_directories ?r w1")
  obtain ok3 w3 where r3: "fs_copy_into a ?r ?e w2 = (ok3, w3)" by (cases "fs_copy_into a ?r ?e w2")
  obtain ok4 w4 where r4: "PackageLocalMetaWrite s (exe_package pkg) w3 = (ok4, w4)"
    by (cases "PackageLocalMetaWrite s (exe_package pkg) w3")
  obtain ok5 w5 where r5: "fs_remove_all ?o w4 = (ok5, w5)" by (cases "fs_remove_all ?o w4")
  obtain ok6 w6 where r6: "fs_rename ?o ?r w2 = (ok6, w6)" by (cases "fs_rename ?o ?r w2")
  obtain ok7 w7 where r7: "fs_rename ?o ?r w3 = (ok7, w7)" by (cases "fs_rename ?o ?r w3")
  have "(ok, w') = (if \<not> ok1 then (False, w1) else if \<not> ok2 then (False, w6) else if \<not> ok3 then (False, w7)
      else if \<not> ok4 then (False, w4) else (svc_NewLinks s (exe_package pkg), w5))"
    using assms r4 by (simp add: expand_fallback_exe_def r1 r2 r3 r5 r6 r7 Let_def exe_package_def del: lit_simps split: if_splits)
  with r1 r2 r3 r4 r5 r6 r7 show ?thesis by (rule that)
qed

lemma expand_fallback_exe_cases:
  assumes "expand_fallback_exe s pkg a w = (ok, w')" and "package_root s pkg \<noteq> out_path s pkg"
    and "a \<noteq> package_root s pkg" and "a \<noteq> out_path s pkg" and "disk w (package_root s pkg) = Some t"
  shows "disk w' (package_root s pkg) = Some t \<or> disk w' (out_path s pkg) = Some t
      \<or> (\<exists>b. disk w a = Some (File b) \<and> disk w' (package_root s pkg) = Some (Folder [(pkg_name pkg @ lit ''.exe'', File b)]))"
  using assms(1)
proof (rule expand_fallback_exe_runs)
  fix ok1 w1 ok2 w2 ok3 w3 ok4 w4 ok5 w5 ok6 w6 ok7 w7
  let ?r = "package_root s pkg" and ?o = "out_path s pkg" and ?e = "pkg_name pkg @ lit ''.exe''"
  assume r1: "(if fs_exists w ?r then fs_rename ?r ?o w else (True, w)) = (ok1, w1)"
    and r2: "fs_create_directories ?r w1 = (ok2, w2)" and r3: "fs_copy_into a ?r ?e w2 = (ok3, w3)"
    and r4: "PackageLocalMetaWrite s (exe_package pkg) w3 = (ok4, w4)" and r5: "fs_remove_all ?o w4 = (ok5, w5)"
    and r6: "fs_rename ?o ?r w2 = (ok6, w6)" and r7: "fs_rename ?o ?r w3 = (ok7, w7)"
    and run: "(ok, w') = (if \<not> ok1 then (False, w1) else if \<not> ok2 then (False, w6) else if \<not> ok3 then (False, w7)
      else if \<not> ok4 then (False, w4) else (svc_NewLinks s (exe_package pkg), w5))"
  have "if ok1 then disk w1 = (disk w)(?r := None, ?o := Some t) else disk w1 = disk w"
    using r1 fs_rename_cases [of ?r ?o w ok1 w1] assms(5) by (auto simp: fs_exists_def split: if_splits)
  with run fs_create_directories_cases [OF r2] fs_copy_into_cases [OF r3] PackageLocalMetaWrite_cases [OF r4]
    fs_remove_all_cases [OF r5] fs_rename_cases [OF r6] fs_rename_cases [OF r7] assms(2-5)
  show ?thesis by (auto split: if_splits)
qed

lemma expand_fallback_exe_lock:
  assumes "expand_fallback_exe s pkg a w = (True, w')"
  shows "json_files w' (lock_file (svc_host s) (pkg_name pkg)) = Some (PackageLocalMetaJson (svc_date s) (exe_package pkg))"
  using assms
proof (rule expand_fallback_exe_runs)
  fix ok1 w1 ok2 w2 ok3 w3 ok4 w4 ok5 w5 ok6 w6 ok7 w7
  assume r4: "PackageLocalMetaWrite s (exe_package pkg) w3 = (ok4, w4)" and r5: "fs_remove_all (out_path s pkg) w4 = (ok5, w5)"
    and run: "(True, w') = (if \<not> ok1 then (False, w1) else if \<not> ok2 then (False, w6) else if \<not> ok3 then (False, w7)
      else if \<not> ok4 then (False, w4) else (svc_NewLinks s (exe_package pkg), w5))"
  have "pkg_name (exe_package pkg) = pkg_name pkg" by (simp add: exe_package_def)
  with run PackageLocalMetaWrite_cases [OF r4] fs_remove_all_cases [OF r5] show ?thesis by (simp split: if_splits)
qed

lemma run_extract_no_overlay:
  assumes "run_extract s fn a d w = (NoOverlayArchive, w')" and "disk w d = None"
  shows "disk w' a = disk w a"
proof -
  from assms(1) obtain b where b: "disk w a = Some (File b)" "fn \<noteq> extract_exe"
    by (auto simp: run_extract_def run_extract_exe_def split: prod.splits if_splits option.splits tree.splits)
  with assms show ?thesis
    by (auto simp: run_extract_def Let_def split: prod.splits if_splits)
qed

lemma unique_destination_free: "make_unqiue_extracted_destination w a = Some d \<Longrightarrow> disk w d = None"
  by (auto simp: make_unqiue_extracted_destination_def fs_exists_def Let_def find_Some_iff split: if_splits)

lemma Expand_runs:
  assumes "Expand s pkg a w = (ok, w')" and "resolve_extract_handle (extension pkg) = Some fn"
    and "make_unqiue_extracted_destination w a = Some d" and "run_extract s fn a d w = (r, w1)"
    and "replace_package (package_root s pkg) d w1 = (ok2, w2)" and "PackageLocalMetaWrite s pkg w2 = (ok3, w3)"
  shows "(ok, w') = (case r of
      NoOverlayArchive \<Rightarrow> expand_fallback_exe s pkg a w1
    | ExtractFailed \<Rightarrow> (False, w1)
    | Extracted \<Rightarrow> if \<not> ok2 then (False, w2) else if \<not> ok3 then (False, w3) else (svc_NewLinks s pkg, w3))"
  using assms by (cases r) (auto simp: Expand_def split: if_splits)

text \<open>
  C2: Expanding an archive over an installed package never loses it, whatever operation on
  the disk fails: afterwards the package is in its place, or under one of the two names it
  is moved to, or the new package is in its place, which is what the archive was extracted
  to or the archive itself as an executable.
\<close>

theorem Expand_never_loses_package:
  assumes apart: "apart s pkg a w" and inst: "disk w (package_root s pkg) = Some t" and run: "Expand s pkg a w = (ok, w')"
  shows "disk w' (package_root s pkg) = Some t \<or> disk w' (old_path s pkg) = Some t \<or> disk w' (out_path s pkg) = Some t
    \<or> (\<exists>fn d w1. resolve_extract_handle (extension pkg) = Some fn \<and> make_unqiue_extracted_destination w a = Some d
         \<and> run_extract s fn a d w = (Extracted, w1) \<and> disk w1 d \<noteq> None \<and> disk w' (package_root s pkg) = disk w1 d)
    \<or> (\<exists>b. disk w a = Some (File b) \<and> disk w' (package_root s pkg) = Some (Folder [(pkg_name pkg @ lit ''.exe'', File b)]))"
proof (cases "resolve_extract_handle (extension pkg) = None \<or> make_unqiue_extracted_destination w a = None")
  case True
  with run inst show ?thesis by (auto simp: Expand_def split: option.splits)
next
  case False
  then obtain fn d where fn: "resolve_extract_handle (extension pkg) = Some fn" and d: "make_unqiue_extracted_destination w a = Some d"
    by auto
  let ?r = "package_root s pkg"
  obtain r w1 where x: "run_extract s fn a d w = (r, w1)" by (cases "run_extract s fn a d w")
  obtain ok2 w2 where y: "replace_package ?r d w1 = (ok2, w2)" by (cases "replace_package ?r d w1")
  obtain ok3 w3 where z: "PackageLocalMetaWrite s pkg w2 = (ok3, w3)" by (cases "PackageLocalMetaWrite s pkg w2")
  from apart d have ap: "?r \<noteq> out_path s pkg" "a \<noteq> ?r" "a \<noteq> out_path s pkg" "d \<noteq> ?r" "d \<noteq> old_path s pkg"
    "?r \<noteq> flatten_temporary d (svc_pid s)"
    by (auto simp: apart_def)
  have w1: "disk w1 ?r = Some t" using run_extract_frame [OF x, of ?r] ap inst by metis
  note res = Expand_runs [OF run fn d x y z]
  show ?thesis
  proof (cases r)
    case NoOverlayArchive
    with res have "expand_fallback_exe s pkg a w1 = (ok, w')" by simp
    from expand_fallback_exe_cases [OF this ap(1-3)] w1 run_extract_no_overlay [of s fn a d w w1] unique_destination_free [OF d]
      x NoOverlayArchive show ?thesis by auto
  next
    case Extracted
    then have "disk w' = disk w2" using res PackageLocalMetaWrite_cases [OF z] by (auto split: if_splits)
    moreover from replace_package_cases [OF y] ap w1 have
      "if ok2 then disk w1 d \<noteq> None \<and> disk w2 ?r = disk w1 d else disk w2 ?r = Some t \<or> disk w2 (old_path s pkg) = Some t"
      by (auto simp: old_path_def split: if_splits)
    ultimately show ?thesis using x fn d Extracted by (auto split: if_splits)
  next
    case ExtractFailed
    with res w1 show ?thesis by simp
  qed
qed

text \<open>A package archive in the download directory over an installed package.\<close>

definition example_services :: services where
  "example_services = \<lparr>svc_host = example_host ''1.2.0'' ''1.3.0'',
     svc_Extract = (\<lambda>fn b. (Extracted, Folder [(lit ''p-2'', Folder [(lit ''p.exe'', File b)])])),
     svc_digest = (\<lambda>m b. map ucast b), svc_WinGet = (\<lambda>i u. Some (lit ''T/y.zip'', [48, 48])), svc_NewLinks = (\<lambda>p. True),
     svc_responseTime = (\<lambda>u. 0), svc_locale = [], svc_frozen = (\<lambda>p. False), svc_force = False, svc_date = [], svc_pid = 7,
     AppPackages = lit ''P'', AppTemp = lit ''T''\<rparr>"

definition example_world :: "bool list \<Rightarrow> world" where
  "example_world fs = \<lparr>disk = (\<lambda>p. if p = lit ''T'' then Some (Folder []) else if p = lit ''T/y.zip'' then Some (File [48, 48])
       else if p = lit ''P'' @ [backslash] @ lit ''p'' then Some (Folder [(lit ''p.exe'', File [1])]) else None),
     json_files = (\<lambda>_. None), faults = fs\<rparr>"

theorem Expand_never_loses_package_witness:
  "\<exists>ok w'. Expand example_services (example_package ''2.0.0'' ''a'' 100) (lit ''T/y.zip'') (example_world [False, False, False, False, True, True]) = (ok, w')
    \<and> \<not> ok \<and> disk w' (old_path example_services (example_package ''2.0.0'' ''a'' 100)) = Some (Folder [(lit ''p.exe'', File [1])])"
proof -
  let ?s = example_services and ?p = "example_package ''2.0.0'' ''a'' 100" and ?a = "lit ''T/y.zip''"
    and ?w = "example_world [False, False, False, False, True, True]"
  have ap: "apart ?s ?p ?a ?w" by code_simp
  have i: "disk ?w (package_root ?s ?p) = Some (Folder [(lit ''p.exe'', File [1])])" by code_simp
  obtain ok w' where e: "Expand ?s ?p ?a ?w = (ok, w')" by (cases "Expand ?s ?p ?a ?w")
  have "\<not> fst (Expand ?s ?p ?a ?w)" "disk (snd (Expand ?s ?p ?a ?w)) (package_root ?s ?p) = None"
    "disk (snd (Expand ?s ?p ?a ?w)) (out_path ?s ?p) = None" by code_simp+
  with Expand_never_loses_package [OF ap i e] e show ?thesis by auto
qed

text \<open>
  A failed copy of a lone executable leaves an empty directory in the place of the
  package, and the package under the other name, from where the next attempt cannot move
  it away again.
\<close>

lemma expand_fallback_exe_not_restored:
  "disk (snd (expand_fallback_exe example_services (example_package ''2.0.0'' ''a'' 100) (lit ''T/y.zip'') (example_world [False, False, True])))
     (package_root example_services (example_package ''2.0.0'' ''a'' 100)) = Some (Folder [])"
  "fst (expand_fallback_exe example_services (example_package ''2.0.0'' ''a'' 100) (lit ''T/y.zip'')
     (snd (expand_fallback_exe example_services (example_package ''2.0.0'' ''a'' 100) (lit ''T/y.zip'') (example_world [False, False, True])))) = False"
  by code_simp+

section \<open>Installing\<close>

lemma world_host_simps [simp]:
  "parse_json_file (world_host s w) = json_files w" "lock_file (world_host s w) = lock_file (svc_host s)"
  "BucketWeights (world_host s w) = BucketWeights (svc_host s)"
  by (simp_all add: world_host_def lock_file_def BucketWeights_def fun_eq_iff)

lemma Expand_True:
  assumes "Expand s pkg a w = (True, w')"
  shows "\<exists>p. p \<in> {pkg, exe_package pkg} \<and>
    json_files w' (lock_file (svc_host s) (pkg_name pkg)) = Some (PackageLocalMetaJson (svc_date s) p)"
proof -
  obtain fn where fn: "resolve_extract_handle (extension pkg) = Some fn" using assms by (auto simp: Expand_def split: option.splits)
  obtain d where d: "make_unqiue_extracted_destination w a = Some d" using assms fn by (auto simp: Expand_def split: option.splits)
  obtain r w1 where x: "run_extract s fn a d w = (r, w1)" by (cases "run_extract s fn a d w")
  obtain ok2 w2 where y: "replace_package (package_root s pkg) d w1 = (ok2, w2)" by (cases "replace_package (package_root s pkg) d w1")
  obtain ok3 w3 where z: "PackageLocalMetaWrite s pkg w2 = (ok3, w3)" by (cases "PackageLocalMetaWrite s pkg w2")
  note res = Expand_runs [OF assms fn d x y z]
  show ?thesis
  proof (cases r)
    case Extracted
    with res PackageLocalMetaWrite_cases [OF z] show ?thesis by (auto split: if_splits)
  next
    case NoOverlayArchive
    with res expand_fallback_exe_lock [of s pkg a w1 w'] show ?thesis by (intro exI [of _ "exe_package pkg"]) simp
  qed (use res in simp)
qed

lemma install_download_lock:
  assumes "install_download s pkg w = (True, w')"
  shows "\<exists>p. p \<in> {pkg, exe_package pkg} \<and>
    json_files w' (lock_file (svc_host s) (pkg_name pkg)) = Some (PackageLocalMetaJson (svc_date s) p)"
proof -
  have "\<exists>a v. Expand s pkg a v = (True, w')"
    using assms by (auto simp: install_download_def Let_def split: if_splits option.splits prod.splits)
  then show ?thesis using Expand_True by blast
qed

text \<open>The text fields that are recorded are well formed.\<close>

definition recordable :: "Package \<Rightarrow> bool" where
  "recordable pkg \<longleftrightarrow> paired (pkg_version pkg) \<and> paired (bucket pkg) \<and> (\<forall>p\<in>set (forceDeletes pkg). paired p)
     \<and> paired (category (venv pkg))"

lemma Install_changes:
  assumes inst: "Install s pkg w = Some (ok, w')" and "w' \<noteq> w"
  shows "install_download s pkg w = (ok, w')"
proof -
  obtain r where r: "PackageLocalMeta (world_host s w) (pkg_name pkg) = Some r" using inst by (auto simp: Install_def bind_eq_Some_conv)
  show ?thesis
  proof (cases r)
    case (Inl e)
    with inst r show ?thesis by (simp add: Install_def)
  next
    case (Inr q)
    with inst r obtain v iv where "make_version (pkg_version pkg) = Some v" "make_version (pkg_version q) = Some iv"
      by (auto simp: Install_def bind_eq_Some_conv)
    with inst r Inr assms(2) show ?thesis by (auto simp: Install_def split: if_splits)
  qed
qed

text \<open>
  When \<open>Install\<close> has reported success, installing the same package again neither downloads nor
  expands anything: the package directories and the lock files stay. (The links are made once
  more, outside of this disk.)
\<close>

theorem Install_again:
  assumes inst: "Install s pkg w = Some (True, w')"
    and "recordable pkg" and v: "make_version (pkg_version pkg) = Some v" and "weights pkg \<le> BucketWeights (svc_host s) (bucket pkg)"
  shows "\<exists>ok. Install s pkg w' = Some (ok, w')"
proof (cases "w' = w")
  case True
  then show ?thesis using inst by blast
next
  case False
  then have "install_download s pkg w = (True, w')"
    using inst Install_changes by blast
  then obtain p where p: "p \<in> {pkg, exe_package pkg}"
      "json_files w' (lock_file (svc_host s) (pkg_name pkg)) = Some (PackageLocalMetaJson (svc_date s) p)"
    using install_download_lock by blast
  then have f: "pkg_name p = pkg_name pkg" "pkg_version p = pkg_version pkg" "bucket p = bucket pkg" "recordable p"
    using assms(2) by (auto simp: exe_package_def recordable_def)
  from f(4) PackageLocalMeta_written [of "world_host s w'" p "svc_date s"] p(2) f(1)
  obtain q where q: "PackageLocalMeta (world_host s w') (pkg_name pkg) = Some (Inr q)" "pkg_version q = pkg_version pkg"
      "weights q = BucketWeights (svc_host s) (bucket pkg)"
    by (auto simp: recordable_def f)
  have "version_eq v v" by (simp add: version_eq_def compare_def)
  with q v assms(4) show ?thesis by (simp add: Install_def)
qed

text \<open>
  The download loop ends with an archive of the right digest as soon as one of its four
  rounds brings one.
\<close>

theorem download_loop_finds_match:
  assumes "hash pkg \<noteq> []" and "i < 4" and "svc_WinGet s i url = Some (p, b)"
    and "HashEqual (\<lambda>m. Some (svc_digest s m b)) (hash pkg) = Inr ()"
  shows "\<exists>q w'. download_loop s pkg url 0 4 None w = (Some q, w') \<and> HashEqual (FileHash s w' q) (hash pkg) = Inr ()"
proof -
  have "\<exists>q w'. download_loop s pkg url j n a w = (Some q, w') \<and> HashEqual (FileHash s w' q) (hash pkg) = Inr ()"
    if "j \<le> i" "i < j + n" for j n a w
    using that
  proof (induction n arbitrary: j a w)
    case (Suc n)
    show ?case
    proof (cases "j = i")
      case True
      have "FileHash s (w\<lparr>disk := (disk w)(p := Some (File b))\<rparr>) p = (\<lambda>m. Some (svc_digest s m b))"
        by (simp add: FileHash_def fun_eq_iff)
      with True assms show ?thesis by simp
    next
      case False
      with Suc.prems have "Suc j \<le> i" "i < Suc j + n" by simp_all
      with Suc.IH show ?thesis using assms(1) by (auto simp: Let_def split: option.splits sum.splits)
    qed
  qed simp
  from this [of 0 4] assms(2) show ?thesis by simp
qed

theorem download_loop_finds_match_witness:
  "\<exists>q w'. download_loop (example_services\<lparr>svc_WinGet := \<lambda>i u. if i = 2 then Some (lit ''T/y.zip'', [48, 48]) else None\<rparr>)
      (example_package ''2.0.0'' ''a'' 100) (lit ''u'') 0 4 None (example_world []) = (Some q, w')"
proof -
  let ?s = "example_services\<lparr>svc_WinGet := \<lambda>i u. if i = 2 then Some (lit ''T/y.zip'', [48, 48]) else None\<rparr>"
    and ?p = "example_package ''2.0.0'' ''a'' 100"
  have h: "hash ?p \<noteq> []" "(2 :: nat) < 4" "svc_WinGet ?s 2 (lit ''u'') = Some (lit ''T/y.zip'', [48, 48])"
    "HashEqual (\<lambda>m. Some (svc_digest ?s m [48, 48])) (hash ?p) = Inr ()"
    by code_simp+
  from download_loop_finds_match [OF h] show ?thesis by blast
qed

theorem Install_again_witness:
  "\<exists>w' ok. Install example_services (example_package ''2.0.0'' ''a'' 100) (example_world []) = Some (True, w')
     \<and> disk w' (lit ''P'' @ [backslash] @ lit ''p'') = Some (Folder [(lit ''p.exe'', File [48, 48])])
     \<and> Install example_services (example_package ''2.0.0'' ''a'' 100) w' = Some (ok, w')"
proof -
  let ?s = example_services and ?p = "example_package ''2.0.0'' ''a'' 100" and ?w = "example_world []"
  have "Install ?s ?p ?w \<noteq> None" "fst (the (Install ?s ?p ?w))"
    "disk (snd (the (Install ?s ?p ?w))) (lit ''P'' @ [backslash] @ lit ''p'') = Some (Folder [(lit ''p.exe'', File [48, 48])])"
    by code_simp+
  then obtain w' where i: "Install ?s ?p ?w = Some (True, w')"
      "disk w' (lit ''P'' @ [backslash] @ lit ''p'') = Some (Folder [(lit ''p.exe'', File [48, 48])])"
    by (cases "Install ?s ?p ?w") auto
  have h: "recordable ?p" "make_version (pkg_version ?p) = Some (version_default\<lparr>major := 2\<rparr>)"
    "weights ?p \<le> BucketWeights (svc_host ?s) (bucket ?p)"
    by code_simp+
  from Install_again [OF i(1) h] i show ?thesis by blast
qed

text \<open>
  When no round brings an archive of the right digest, the archive of the last round is
  expanded all the same and the installation succeeds.
\<close>

lemma Install_expands_mismatch:
  "HashEqual (\<lambda>m. Some (svc_digest example_services m [48, 48])) (lit ''SHA256:ff'') \<noteq> Inr ()"
  "map_option fst (Install example_services ((example_package ''2.0.0'' ''a'' 100)\<lparr>hash := lit ''SHA256:ff''\<rparr>) (example_world [])) = Some True"
  "map_option (\<lambda>r. disk (snd r) (lit ''P'' @ [backslash] @ lit ''p''))
     (Install example_services ((example_package ''2.0.0'' ''a'' 100)\<lparr>hash := lit ''SHA256:ff''\<rparr>) (example_world []))
   = Some (Some (Folder [(lit ''p.exe'', File [48, 48])]))"
  by code_simp+

end
