(* ===== verification/Bela_Time.thy ===== *)
theory Bela_Time
  imports Bela_Base "HOL-Library.Signed_Division"
begin

text \<open>
  Points in time (\<^verbatim>\<open>bela/time.hpp\<close>, \<^verbatim>\<open>belatime/dos.cc\<close>): the representation as seconds
  since 1970 and quarters of nanoseconds, the conversions the archive readers use, and the
  decoding of the date and time words of MS-DOS, with the proof that it counts the days of
  the calendar.
\<close>

section \<open>The representation\<close>

record Time =
  rep_hi :: int
  rep_lo :: u32

definition UnixEpoch :: Time where
  "UnixEpoch = \<lparr>rep_hi = 0, rep_lo = 0\<rparr>"

definition kTicksPerNanosecond :: int where "kTicksPerNanosecond = 4"
definition kTicksPerSecond :: int where "kTicksPerSecond = 1000 * 1000 * 1000 * kTicksPerNanosecond"

definition MakeDuration :: "int \<Rightarrow> int \<Rightarrow> Time" where
  "MakeDuration hi lo = \<lparr>rep_hi = hi, rep_lo = word_of_int lo\<rparr>"

definition MakeNormalizedDuration :: "int \<Rightarrow> int \<Rightarrow> Time" where
  "MakeNormalizedDuration sec ticks =
     (if ticks < 0 then MakeDuration (sec - 1) (ticks + kTicksPerSecond) else MakeDuration sec ticks)"

text \<open>The division of C rounds towards zero.\<close>

definition FromInt64 :: "int \<Rightarrow> int \<Rightarrow> Time" where
  "FromInt64 v N = MakeNormalizedDuration (v sdiv N) (((v smod N) * kTicksPerNanosecond * 1000 * 1000 * 1000) sdiv N)"

definition FromUnixSeconds :: "int \<Rightarrow> Time" where
  "FromUnixSeconds s = FromInt64 s 1"

definition FromUnixMicros :: "int \<Rightarrow> Time" where
  "FromUnixMicros us = FromInt64 us 1000000"

definition FromUnix :: "int \<Rightarrow> int \<Rightarrow> Time" where
  "FromUnix s ns = MakeDuration s (uint (word_of_int ns :: u32) * kTicksPerNanosecond)"

definition ToUnixSeconds :: "Time \<Rightarrow> int" where
  "ToUnixSeconds t = rep_hi t"

definition FromWindowsPreciseTime :: "u64 \<Rightarrow> Time" where
  "FromWindowsPreciseTime tick = FromUnixMicros (sint ((tick - 116444736000000000) div 10))"

section \<open>Dates of MS-DOS\<close>

definition Months :: "int list" where "Months = [31, 28, 31, 30, 31, 30, 31, 31, 30, 31, 30, 31]"
definition LeapMonths :: "int list" where "LeapMonths = [31, 29, 31, 30, 31, 30, 31, 31, 30, 31, 30, 31]"

definition WindowsEpochDays :: int where
  "WindowsEpochDays = (1601 - 1) * 365 + (1601 - 1) div 4 - (1601 - 1) div 100 + (1601 - 1) div 400"

definition UnixEpochStart :: int where "UnixEpochStart = 11644473600"

definition secondsPerDay :: int where "secondsPerDay = 24 * (60 * 60)"

definition IsLeapYear :: "int \<Rightarrow> bool" where
  "IsLeapYear Y \<longleftrightarrow> Y mod 4 = 0 \<and> (Y mod 100 \<noteq> 0 \<or> Y mod 400 = 0)"

definition sinceWindowsEpochDays :: "int \<Rightarrow> int" where
  "sinceWindowsEpochDays Y = (let Y = Y - 1 in Y * 365 + Y div 4 - Y div 100 + Y div 400 - WindowsEpochDays)"

definition FromDosDateTime :: "u16 \<Rightarrow> u16 \<Rightarrow> Time" where
  "FromDosDateTime dosDate dosTime =
     (let year = uint (drop_bit 9 dosDate) + 1980;
          mon = uint (drop_bit 5 dosDate AND 0xf);
          day = uint (dosDate AND 0x1f);
          hour = uint (drop_bit 11 dosTime);
          minute = uint (drop_bit 5 dosTime AND 0x3f);
          sec = uint (dosTime AND 0x1f) * 2
      in if sec < 0 \<or> sec > 59 \<or> minute > 59 \<or> minute < 0 \<or> hour < 0 \<or> hour > 23 \<or> mon < 1 \<or> mon > 12 \<or> year < 1601
         then UnixEpoch
         else
           (let leapYear = IsLeapYear year;
                mondays = (if leapYear then LeapMonths else Months) ! nat (mon - 1)
            in if day < 1 \<or> day > mondays then UnixEpoch
               else
                 (let days = sinceWindowsEpochDays year + sum_list (take (nat (mon - 1)) Months);
                      days = (if mon > 2 \<and> leapYear then days + 1 else days) + (day - 1)
                  in FromUnixSeconds (days * secondsPerDay + hour * 3600 + minute * 60 + sec - UnixEpochStart))))"

lemma FromUnixSeconds_rep: "FromUnixSeconds s = \<lparr>rep_hi = s, rep_lo = 0\<rparr>"
  by (simp add: FromUnixSeconds_def FromInt64_def MakeNormalizedDuration_def MakeDuration_def signed_divide_int_def signed_modulo_int_def
      sgn_mult_abs)

lemma ToUnixSeconds_simps [simp]: "ToUnixSeconds UnixEpoch = 0" "ToUnixSeconds (FromUnixSeconds s) = s"
  by (simp_all add: ToUnixSeconds_def UnixEpoch_def FromUnixSeconds_rep)

section \<open>The calendar\<close>

text \<open>The reference: count the days of the years, the months and the days before a date.\<close>

definition month_days :: "nat \<Rightarrow> nat \<Rightarrow> int" where
  "month_days y m = (if m = 2 then if IsLeapYear (int y) then 29 else 28 else if m \<in> {4, 6, 9, 11} then 30 else 31)"

definition year_days :: "nat \<Rightarrow> int" where
  "year_days y = (\<Sum>m\<in>{1..<13}. month_days y m)"

definition civil_days :: "nat \<Rightarrow> nat \<Rightarrow> nat \<Rightarrow> int" where
  "civil_days y m d = (\<Sum>y'\<in>{1970..<y}. year_days y') + (\<Sum>m'\<in>{1..<m}. month_days y m') + int d - 1"

definition dos_date :: "nat \<Rightarrow> nat \<Rightarrow> nat \<Rightarrow> u16" where
  "dos_date y m d = of_nat ((y - 1980) * 512 + m * 32 + d)"

definition dos_time :: "nat \<Rightarrow> nat \<Rightarrow> nat \<Rightarrow> u16" where
  "dos_time h mi s = of_nat (h * 2048 + mi * 32 + s div 2)"

lemma months_set: "{1..<13 :: nat} = {1, 2, 3, 4, 5, 6, 7, 8, 9, 10, 11, 12}"
  by (rule set_eqI) (simp, presburger)

lemma year_days_leap: "year_days y = (if IsLeapYear (int y) then 366 else 365)"
  unfolding year_days_def months_set by (simp add: month_days_def)

lemma div_step:
  assumes "k > 1"
  shows "(n + 1) div k - n div k = (if (n + 1) mod k = 0 then 1 else (0 :: int))"
proof -
  define q r where "q = (n + 1) div k" and "r = (n + 1) mod k"
  have n: "n + 1 = k * q + r" "0 \<le> r" "r < k" using assms by (simp_all add: q_def r_def)
  show ?thesis
  proof (cases "r = 0")
    case True
    have "n div k = q - 1" using n True assms by (intro int_div_pos_eq [of n k "q - 1" "k - 1"]) (simp_all add: algebra_simps)
    then show ?thesis using True by (simp add: q_def [symmetric] r_def [symmetric])
  next
    case False
    have "n div k = q" using n False by (intro int_div_pos_eq [of n k q "r - 1"]) simp_all
    then show ?thesis using False by (simp add: q_def [symmetric] r_def [symmetric])
  qed
qed

lemma IsLeapYear_count:
  "(if IsLeapYear Y then 366 else 365 :: int)
    = 365 + (if Y mod 4 = 0 then 1 else 0) - (if Y mod 100 = 0 then 1 else 0) + (if Y mod 400 = 0 then 1 else 0)"
proof -
  have count: "(if p \<and> (\<not> q \<or> r) then 366 else 365 :: int) = 365 + (if p then 1 else 0) - (if q then 1 else 0) + (if r then 1 else 0)"
    if "q \<Longrightarrow> p" "r \<Longrightarrow> q" for p q r
    using that by (cases p; cases q; cases r; simp)
  have "(4 :: int) dvd 100" "(100 :: int) dvd 400" by simp_all
  from count [OF dvd_trans [OF this(1), of Y] dvd_trans [OF this(2), of Y]] show ?thesis unfolding IsLeapYear_def dvd_eq_mod_eq_0 .
qed

lemma sinceWindowsEpochDays_step:
  "sinceWindowsEpochDays (int (Suc y)) = sinceWindowsEpochDays (int y) + year_days y"
proof -
  define Y where "Y = int y"
  have step: "Y div k = (Y - 1) div k + (if Y mod k = 0 then 1 else 0)" if "k > 1" for k
    using div_step [OF that, of "Y - 1"] by simp
  have "sinceWindowsEpochDays (Y + 1) = sinceWindowsEpochDays Y
      + (365 + (if Y mod 4 = 0 then 1 else 0) - (if Y mod 100 = 0 then 1 else 0) + (if Y mod 400 = 0 then 1 else 0))"
    unfolding sinceWindowsEpochDays_def Let_def add_diff_cancel_right' step [of 4, simplified] step [of 100, simplified]
      step [of 400, simplified] by (simp only: algebra_simps)
  moreover have "int (Suc y) = Y + 1" by (simp add: Y_def)
  ultimately show ?thesis by (simp only: year_days_leap IsLeapYear_count Y_def)
qed

lemma sinceWindowsEpochDays_sum:
  "1970 \<le> y \<Longrightarrow> sinceWindowsEpochDays (int y) * 86400 - UnixEpochStart = (\<Sum>y'\<in>{1970..<y}. year_days y') * 86400"
proof (induction y rule: nat_induct_at_least)
  case base
  then show ?case by (simp add: sinceWindowsEpochDays_def WindowsEpochDays_def UnixEpochStart_def)
next
  case (Suc y)
  then show ?case by (simp only: sinceWindowsEpochDays_step) (simp add: atLeastLessThanSuc algebra_simps)
qed

lemma month_cases: "1 \<le> m \<Longrightarrow> m \<le> 12 \<Longrightarrow> m \<in> {1, 2, 3, 4, 5, 6, 7, 8, 9, 10, 11, 12 :: nat}"
  unfolding months_set [symmetric] by simp

lemma Months_sum:
  assumes "1 \<le> m" "m \<le> 12"
  shows "sum_list (take (m - 1) Months) + (if 2 < m \<and> IsLeapYear (int y) then 1 else 0) = (\<Sum>m'\<in>{1..<m}. month_days y m')"
    and "(if IsLeapYear (int y) then LeapMonths else Months) ! (m - 1) = month_days y m"
  using month_cases [OF assms]
  by (auto simp: Months_def LeapMonths_def month_days_def numeral_eq_Suc atLeastLessThanSuc)

lemma u16_field:
  assumes "N < 2 ^ 16"
  shows "uint (drop_bit k (of_nat N :: u16)) = int (N div 2 ^ k)"
    and "uint (drop_bit k (of_nat N :: u16) AND mask j) = int (N div 2 ^ k mod 2 ^ j)"
proof -
  have N: "unat (of_nat N :: u16) = N" using assms by (simp add: unat_of_nat)
  have d: "unat (drop_bit k (of_nat N :: u16)) = N div 2 ^ k" by (metis N drop_bit_eq_div unat_drop_bit_eq)
  show "uint (drop_bit k (of_nat N :: u16)) = int (N div 2 ^ k)" by (metis d uint_nat)
  have "unat (drop_bit k (of_nat N :: u16) AND mask j) = take_bit j (unat (drop_bit k (of_nat N :: u16)))"
    by (metis take_bit_eq_mask unsigned_take_bit_eq)
  then show "uint (drop_bit k (of_nat N :: u16) AND mask j) = int (N div 2 ^ k mod 2 ^ j)"
    by (metis d take_bit_eq_mod uint_nat)
qed

lemma packed:
  assumes "b < k" "c < (32 :: nat)"
  shows "(a * (k * 32) + b * 32 + c) div (k * 32) = a" "(a * (k * 32) + b * 32 + c) div 32 mod k = b"
    "(a * (k * 32) + b * 32 + c) mod 32 = c"
proof -
  have "b * 32 + c < k * 32" using assms mult_le_mono1 [of "b + 1" k 32] by simp
  then show "(a * (k * 32) + b * 32 + c) div (k * 32) = a" using assms by (simp add: add.assoc)
  have N: "a * (k * 32) + b * 32 + c = (a * k + b) * 32 + c" by (simp add: algebra_simps)
  have "(a * (k * 32) + b * 32 + c) div 32 = a * k + b" unfolding N using assms by simp
  then show "(a * (k * 32) + b * 32 + c) div 32 mod k = b" using assms by simp
  show "(a * (k * 32) + b * 32 + c) mod 32 = c" unfolding N by (simp only: mod_mult_self3) (simp add: assms)
qed

lemma dos_date_fields:
  assumes "1980 \<le> y" "y < 2108" "m \<le> 12" "d < 32"
  shows "uint (drop_bit 9 (dos_date y m d)) + 1980 = int y" "uint (drop_bit 5 (dos_date y m d) AND 0xf) = int m"
    "uint (dos_date y m d AND 0x1f) = int d"
proof -
  define N where "N = (y - 1980) * 512 + m * 32 + d"
  have N: "N < 2 ^ 16" "N div 512 = y - 1980" "N div 32 mod 16 = m" "N mod 32 = d"
    using assms packed [of m 16 d "y - 1980"] by (simp_all add: N_def)
  have m: "mask 4 = (0xf :: u16)" "mask 5 = (0x1f :: u16)" by (simp_all add: mask_eq_exp_minus_1)
  note f = u16_field [OF N(1), unfolded N_def, folded dos_date_def, folded N_def]
  show "uint (drop_bit 9 (dos_date y m d)) + 1980 = int y" using f(1) [of 9] N(2) assms(1) by simp
  show "uint (drop_bit 5 (dos_date y m d) AND 0xf) = int m" using f(2) [of 5 4] N(3) by (simp add: m)
  show "uint (dos_date y m d AND 0x1f) = int d" using f(2) [of 0 5] N(4) by (simp add: m)
qed

lemma dos_time_fields:
  assumes "h < 24" "mi < 60" "s < 60"
  shows "uint (drop_bit 11 (dos_time h mi s)) = int h" "uint (drop_bit 5 (dos_time h mi s) AND 0x3f) = int mi"
    "uint (dos_time h mi s AND 0x1f) = int (s div 2)"
proof -
  define N where "N = h * 2048 + mi * 32 + s div 2"
  have N: "N < 2 ^ 16" "N div 2048 = h" "N div 32 mod 64 = mi" "N mod 32 = s div 2"
    using assms packed [of mi 64 "s div 2" h] by (simp_all add: N_def)
  have m: "mask 6 = (0x3f :: u16)" "mask 5 = (0x1f :: u16)" by (simp_all add: mask_eq_exp_minus_1)
  note f = u16_field [OF N(1), unfolded N_def, folded dos_time_def, folded N_def]
  show "uint (drop_bit 11 (dos_time h mi s)) = int h" using f(1) [of 11] N(2) by simp
  show "uint (drop_bit 5 (dos_time h mi s) AND 0x3f) = int mi" using f(2) [of 5 6] N(3) by (simp add: m)
  show "uint (dos_time h mi s AND 0x1f) = int (s div 2)" using f(2) [of 0 5] N(4) by (simp add: m)
qed

text \<open>
  The date and time words of MS-DOS are decoded by the calendar. Every date of the years
  1980 to 2107 and every time of day with even seconds, packed into the two words, is
  decoded to the number of seconds since 1970 that counting the days of the years and the
  months before it gives.
\<close>

theorem FromDosDateTime_calendar:
  assumes "1980 \<le> y" "y < 2108" "1 \<le> m" "m \<le> 12" "1 \<le> d" "int d \<le> month_days y m"
    and "h < 24" "mi < 60" "s < 60" "even s"
  shows "ToUnixSeconds (FromDosDateTime (dos_date y m d) (dos_time h mi s))
    = civil_days y m d * 86400 + int (h * 3600 + mi * 60 + s)"
proof -
  have d31: "d < 32" using assms(6) by (auto simp: month_days_def split: if_splits)
  note F = dos_date_fields [OF assms(1,2,4) d31] dos_time_fields [OF assms(7-9)]
  have s: "int (s div 2) * 2 = int s" using assms(10) by (simp add: zdiv_int)
  have m: "nat (int m - 1) = m - 1" by simp
  have "FromDosDateTime (dos_date y m d) (dos_time h mi s) =
      FromUnixSeconds ((sinceWindowsEpochDays (int y) + (sum_list (take (m - 1) Months) +
        (if 2 < m \<and> IsLeapYear (int y) then 1 else 0)) + (int d - 1)) * 86400 + int h * 3600 + int mi * 60 + int s - UnixEpochStart)"
    using assms s Months_sum(2) [of m y] unfolding FromDosDateTime_def F Let_def m secondsPerDay_def by auto
  also have "\<dots> = FromUnixSeconds (civil_days y m d * 86400 + int (h * 3600 + mi * 60 + s))"
    using sinceWindowsEpochDays_sum [of y] assms by (simp only: Months_sum(1) [of m y]) (simp add: civil_days_def algebra_simps)
  finally show ?thesis by simp
qed

theorem FromDosDateTime_calendar_witness:
  "ToUnixSeconds (FromDosDateTime (dos_date 2024 2 29) (dos_time 12 30 58)) = 1709209858"
proof -
  have "civil_days 2024 2 29 = 19782" by code_simp
  with FromDosDateTime_calendar [of 2024 2 29 12 30 58] show ?thesis
    by (simp add: month_days_def IsLeapYear_def)
qed

end
