(* ===== verification/Bela_Io.thy ===== *)
theory Bela_Io
  imports Bela_Base
begin

text \<open>
  Input of the archive readers: reading a file at a position (\<^verbatim>\<open>bela/io.hpp\<close>,
  \<^verbatim>\<open>belawin/io.cc\<close>), the buffered reader (\<^verbatim>\<open>bela/bufio.hpp\<close>), the little-endian reader over a
  piece of memory (\<^verbatim>\<open>bela/endian.hpp\<close>) and the file modes (\<^verbatim>\<open>bela/os.hpp\<close>). The system call
  \<^verbatim>\<open>ReadFile\<close> is taken to succeed; it stops at the end of the file.
\<close>

section \<open>Reading at a position\<close>

text \<open>\<open>ReadAt\<close> seeks, which refuses a negative position, and fails unless the whole buffer is filled.\<close>

definition ReadAt :: "byte list \<Rightarrow> nat \<Rightarrow> int \<Rightarrow> byte list option" where
  "ReadAt contents n p =
     (if p < 0 then None
      else if n = 0 \<or> nat p + n \<le> length contents then Some (bytes_at contents (nat p) n) else None)"

section \<open>The buffered reader\<close>

record bufio =
  br_file :: "byte list"
  br_pos :: nat
  br_data :: "byte list"
  br_w :: nat
  br_r :: nat

definition bufio_size :: nat where "bufio_size = 4096"

definition bufio_init :: "byte list \<Rightarrow> nat \<Rightarrow> bufio" where
  "bufio_init contents p = \<lparr>br_file = contents, br_pos = p, br_data = replicate bufio_size 0, br_w = 0, br_r = 0\<rparr>"

text \<open>
  One \<^verbatim>\<open>ReadFile\<close> into the memory \<open>b\<close>: the bytes behind the end of the file are left as
  they were. The length it reports is the length that was asked for, not the length that
  was read.
\<close>

definition fsread :: "byte list \<Rightarrow> bufio \<Rightarrow> byte list \<times> nat \<times> bufio" where
  "fsread b br =
     (let got = bytes_at (br_file br) (br_pos br) (length b)
      in (got @ drop (length got) b, length b, br\<lparr>br_pos := br_pos br + length got\<rparr>))"

text \<open>A read of at least one byte into the memory \<open>b\<close>: the memory afterwards and how much of it was filled.\<close>

definition bufio_Read :: "byte list \<Rightarrow> bufio \<Rightarrow> byte list \<times> nat \<times> bufio" where
  "bufio_Read b br =
     (if br_r br = br_w br \<and> length b > bufio_size then fsread b br
      else
        (let br = (if br_r br = br_w br
                   then (let (data, w, br) = fsread (br_data br) br in br\<lparr>br_data := data, br_w := w, br_r := 0\<rparr>) else br);
             n = min (br_w br - br_r br) (length b)
         in (bytes_at (br_data br) (br_r br) n @ drop n b, n, br\<lparr>br_r := br_r br + n\<rparr>)))"

partial_function (option) bufio_ReadFull :: "byte list \<Rightarrow> bufio \<Rightarrow> (byte list \<times> bufio) option" where
  "bufio_ReadFull b br =
     (if b = [] then Some ([], br)
      else
        (case bufio_Read b br of (b, n, br) \<Rightarrow>
           do { (rest, br) \<leftarrow> bufio_ReadFull (drop n b) br; Some (take n b @ rest, br) }))"

text \<open>The reader stands at \<open>L\<close>: what is buffered is what the file has there, as far as the file goes.\<close>

definition br_at :: "nat \<Rightarrow> bufio \<Rightarrow> bool" where
  "br_at L br \<longleftrightarrow> length (br_data br) = bufio_size \<and> br_r br \<le> br_w br \<and> br_w br \<le> bufio_size
     \<and> (\<forall>i < br_w br - br_r br. L + i < length (br_file br) \<longrightarrow> br_data br ! (br_r br + i) = br_file br ! (L + i))
     \<and> (L + (br_w br - br_r br) \<le> length (br_file br) \<longrightarrow> br_pos br = L + (br_w br - br_r br))"

lemma br_at_init: "br_at p (bufio_init contents p)"
  by (simp add: br_at_def bufio_init_def)

lemma br_at_fill:
  assumes "br_at L br" and "br_r br = br_w br" and "L \<le> length (br_file br)"
    and "fsread (br_data br) br = (data, w, br')"
  shows "br_at L (br'\<lparr>br_data := data, br_w := w, br_r := 0\<rparr>)" and "w = bufio_size" and "br_file br' = br_file br"
  using assms by (auto simp: br_at_def fsread_def Let_def bytes_at_def bufio_size_def nth_append)

lemma br_at_take:
  assumes "br_at L br" and "n \<le> br_w br - br_r br" and "L + n \<le> length (br_file br)"
  shows "bytes_at (br_data br) (br_r br) n = bytes_at (br_file br) L n" and "br_at (L + n) (br\<lparr>br_r := br_r br + n\<rparr>)"
proof -
  show "bytes_at (br_data br) (br_r br) n = bytes_at (br_file br) L n"
    using assms by (intro nth_equalityI) (auto simp: br_at_def nth_bytes_at)
  show "br_at (L + n) (br\<lparr>br_r := br_r br + n\<rparr>)"
    using assms by (auto simp: br_at_def add.assoc)
qed

lemma bufio_Read_at:
  assumes "br_at L br" and "b \<noteq> []" and "L + length b \<le> length (br_file br)"
  obtains n br' where "bufio_Read b br = (bytes_at (br_file br) L n @ drop n b, n, br')" "0 < n" "n \<le> length b"
    "br_at (L + n) br'" "br_file br' = br_file br"
proof (cases "br_r br = br_w br \<and> length b > bufio_size")
  case True
  have "bufio_Read b br = (bytes_at (br_file br) L (length b) @ drop (length b) b, length b, br\<lparr>br_pos := L + length b\<rparr>)"
    using True assms by (simp add: bufio_Read_def fsread_def Let_def br_at_def min_def)
  moreover have "br_at (L + length b) (br\<lparr>br_pos := L + length b\<rparr>)" using True assms by (simp add: br_at_def)
  ultimately show thesis using assms(2) by (intro that [of "length b" "br\<lparr>br_pos := L + length b\<rparr>"]) simp_all
next
  case False
  define br1 where "br1 = (if br_r br = br_w br
    then (let (data, w, br) = fsread (br_data br) br in br\<lparr>br_data := data, br_w := w, br_r := 0\<rparr>) else br)"
  obtain data w br2 where f: "fsread (br_data br) br = (data, w, br2)" using prod_cases3 by blast
  have at1: "br_at L br1" "br_file br1 = br_file br" "br_r br1 < br_w br1"
    using br_at_fill [OF assms(1) _ _ f] assms by (auto simp: br1_def f bufio_size_def br_at_def)
  define n where "n = min (br_w br1 - br_r br1) (length b)"
  have n: "n \<le> br_w br1 - br_r br1" "L + n \<le> length (br_file br1)" "0 < n" "n \<le> length b"
    using assms at1 by (auto simp: n_def)
  have "bufio_Read b br = (bytes_at (br_file br) L n @ drop n b, n, br1\<lparr>br_r := br_r br1 + n\<rparr>)"
    using False br_at_take(1) [OF at1(1) n(1,2)] at1(2)
    by (auto simp: bufio_Read_def Let_def br1_def [symmetric] n_def [symmetric])
  then show thesis using br_at_take(2) [OF at1(1) n(1,2)] n at1(2) by (intro that [of n "br1\<lparr>br_r := br_r br1 + n\<rparr>"]) simp_all
qed

text \<open>Reading inside the file: \<open>ReadFull\<close> returns, with the bytes of the file.\<close>

lemma bufio_ReadFull_at:
  assumes "br_at L br" and "L + length b \<le> length (br_file br)"
  shows "\<exists>br'. bufio_ReadFull b br = Some (bytes_at (br_file br) L (length b), br') \<and> br_at (L + length b) br'
    \<and> br_file br' = br_file br"
  using assms
proof (induction "length b" arbitrary: b L br rule: less_induct)
  case less
  show ?case
  proof (cases "b = []")
    case True
    then show ?thesis using less.prems by (subst bufio_ReadFull.simps) simp
  next
    case False
    obtain n br1 where R: "bufio_Read b br = (bytes_at (br_file br) L n @ drop n b, n, br1)" "0 < n" "n \<le> length b"
      "br_at (L + n) br1" "br_file br1 = br_file br"
      using bufio_Read_at [OF less.prems(1) False less.prems(2)] by blast
    have len: "length (bytes_at (br_file br) L n) = n" using R(3) less.prems(2) by simp
    obtain br2 where F: "bufio_ReadFull (drop n b) br1 = Some (bytes_at (br_file br) (L + n) (length b - n), br2)"
      "br_at (L + length b) br2" "br_file br2 = br_file br"
      using less.hyps [of "drop n b" "L + n" br1] R less.prems(2) False by auto
    have "bytes_at (br_file br) L n @ bytes_at (br_file br) (L + n) (length b - n) = bytes_at (br_file br) L (length b)"
      using R(3) bytes_at_append [of "br_file br" L n "length b - n"] by simp
    then show ?thesis using False R(1) F len by (subst bufio_ReadFull.simps) simp
  qed
qed

text \<open>
  Behind the end of the file the reader hands out what its buffer held before: here zeros
  that the file does not have.
\<close>

lemma bufio_Read_behind_end:
  assumes "length contents \<le> p"
  shows "fst (bufio_Read [x] (bufio_init contents p)) = [0]"
  using assms by (simp add: bufio_Read_def bufio_init_def fsread_def bytes_at_def bufio_size_def Let_def numeral_eq_Suc)

section \<open>The little-endian reader\<close>

text \<open>
  The reader over a piece of memory: the bytes from its pointer to the end of the object it
  points into, and the size it believes is left. A null pointer has no bytes. Reading
  behind the end of the object is undefined; the size is not checked by the reader and wraps.
\<close>

record LittenEndian =
  le_data :: "byte list"
  le_size :: u64

fun le_nat :: "byte list \<Rightarrow> nat" where
  "le_nat [] = 0"
| "le_nat (b # bs) = unat b + 256 * le_nat bs"

definition Read_le :: "nat \<Rightarrow> LittenEndian \<Rightarrow> (nat \<times> LittenEndian) option" where
  "Read_le k b =
     (if length (le_data b) < k then None
      else Some (le_nat (take k (le_data b)), \<lparr>le_data = drop k (le_data b), le_size = le_size b - of_nat k\<rparr>))"

definition Discard :: "nat \<Rightarrow> LittenEndian \<Rightarrow> LittenEndian" where
  "Discard n b =
     (if of_nat n \<ge> le_size b then \<lparr>le_data = [], le_size = 0\<rparr>
      else \<lparr>le_data = drop n (le_data b), le_size = le_size b - of_nat n\<rparr>)"

definition Pick :: "LittenEndian \<Rightarrow> (byte \<times> LittenEndian) option" where
  "Pick b = (case le_data b of [] \<Rightarrow> None | c # rest \<Rightarrow> Some (c, \<lparr>le_data = rest, le_size = le_size b - 1\<rparr>))"

text \<open>\<open>Sub\<close> adds to the size of the reader what it takes away from it.\<close>

definition Sub :: "nat \<Rightarrow> LittenEndian \<Rightarrow> LittenEndian \<times> LittenEndian" where
  "Sub n b = (\<lparr>le_data = le_data b, le_size = of_nat n\<rparr>, \<lparr>le_data = drop n (le_data b), le_size = le_size b + of_nat n\<rparr>)"

text \<open>The bytes up to the first zero, at most \<open>n\<close>; without a zero, all \<open>n\<close> have to be there.\<close>

definition cstring_view :: "byte list \<Rightarrow> nat \<Rightarrow> byte list option" where
  "cstring_view p n =
     (if length p < n \<and> 0 \<notin> set p then None else Some (takeWhile (\<lambda>c. c \<noteq> 0) (take n p)))"

definition le_bytes :: "nat \<Rightarrow> nat \<Rightarrow> byte list" where
  "le_bytes k v = map (\<lambda>i. of_nat (v div 256 ^ i)) [0..<k]"

lemma length_le_bytes [simp]: "length (le_bytes k v) = k"
  by (simp add: le_bytes_def)

lemma le_bytes_Suc: "le_bytes (Suc k) v = of_nat v # le_bytes k (v div 256)"
  by (simp add: le_bytes_def upt_conv_Cons map_Suc_upt [symmetric] div_mult2_eq del: upt_Suc)

lemma le_nat_le_bytes: "v < 256 ^ k \<Longrightarrow> le_nat (le_bytes k v) = v"
proof (induction k arbitrary: v)
  case 0
  then show ?case by (simp add: le_bytes_def)
next
  case (Suc k)
  have "v div 256 < 256 ^ k" using Suc.prems by (simp add: less_mult_imp_div_less mult.commute)
  then show ?case by (simp add: le_bytes_Suc Suc.IH unat_of_nat)
qed

lemma Read_le_bytes [simp]:
  "v < 256 ^ k \<Longrightarrow> Read_le k \<lparr>le_data = le_bytes k v @ rest, le_size = s\<rparr>
    = Some (v, \<lparr>le_data = rest, le_size = s - of_nat k\<rparr>)"
  by (simp add: Read_le_def le_nat_le_bytes)

lemma cstring_view_enough [simp]: "n \<le> length p \<Longrightarrow> cstring_view p n = Some (takeWhile (\<lambda>c. c \<noteq> 0) (take n p))"
  by (simp add: cstring_view_def)

section \<open>File modes\<close>

definition ModeDir :: u32 where "ModeDir = 2147483648"
definition ModeSymlink :: u32 where "ModeSymlink = 134217728"
definition ModeDevice :: u32 where "ModeDevice = 67108864"
definition ModeNamedPipe :: u32 where "ModeNamedPipe = 33554432"
definition ModeSocket :: u32 where "ModeSocket = 16777216"
definition ModeSetuid :: u32 where "ModeSetuid = 8388608"
definition ModeSetgid :: u32 where "ModeSetgid = 4194304"
definition ModeCharDevice :: u32 where "ModeCharDevice = 4194304"
definition ModeSticky :: u32 where "ModeSticky = 1048576"
definition ModePerm :: u32 where "ModePerm = 511"

lemmas mode_defs = ModeDir_def ModeSymlink_def ModeDevice_def ModeNamedPipe_def ModeSocket_def ModeSetuid_def
  ModeSetgid_def ModeCharDevice_def ModeSticky_def ModePerm_def

lemma or_if_mask: "a AND k = (0 :: u32) \<Longrightarrow> (if c then x OR a else x) AND k = x AND k"
  by (simp add: bit.conj_disj_distrib2)

end
