(* ===== verification/Baulk_Tar.thy ===== *)
theory Baulk_Tar
  imports Bela_Time Bela_Io
begin

text \<open>
  The tar reader: the fields of a header block, the numbers in them, PAX records and sparse
  maps (\<^verbatim>\<open>lib/archive/tar/format.cc\<close>, \<^verbatim>\<open>tarinternal.hpp\<close>) and the reader that walks over the
  entries of an archive (\<^verbatim>\<open>lib/archive/tar/tar.cc\<close>). A value of \<^verbatim>\<open>int64_t\<close> is an integer in
  range. The loop of \<open>Reader::Next\<close> may run forever and is a partial function.
\<close>

section \<open>Numbers\<close>

text \<open>\<^verbatim>\<open>std::from_chars\<close>: an optional sign and the longest run of digits, nothing on overflow.\<close>

definition digit_value :: "byte \<Rightarrow> nat" where
  "digit_value c = unat c - 48"

definition is_digit_of :: "nat \<Rightarrow> byte \<Rightarrow> bool" where
  "is_digit_of base c \<longleftrightarrow> 48 \<le> unat c \<and> unat c < 48 + base"

definition digits_value :: "nat \<Rightarrow> byte list \<Rightarrow> nat" where
  "digits_value base ds = foldl (\<lambda>t c. t * base + digit_value c) 0 ds"

definition from_chars_signed :: "nat \<Rightarrow> nat \<Rightarrow> byte list \<Rightarrow> int option" where
  "from_chars_signed bits base s =
     (let neg = (s \<noteq> [] \<and> hd s = ch CHR ''-'');
          ds = takeWhile (is_digit_of base) (if neg then tl s else s);
          v = (if neg then - int (digits_value base ds) else int (digits_value base ds))
      in if ds = [] \<or> v < - (2 ^ (bits - 1)) \<or> v \<ge> 2 ^ (bits - 1) then None else Some v)"

definition parseNumeric8 :: "byte list \<Rightarrow> int" where
  "parseNumeric8 p = (case from_chars_signed 64 8 p of None \<Rightarrow> 0 | Some v \<Rightarrow> v)"

definition overflow256 :: "bool \<Rightarrow> int" where
  "overflow256 neg = (if neg then - (2 ^ 63) else 2 ^ 63 - 1)"

text \<open>The high-order bytes beyond eight, which have to repeat the sign.\<close>

fun skip_sign :: "byte \<Rightarrow> byte list \<Rightarrow> byte list option" where
  "skip_sign neg [] = Some []"
| "skip_sign neg (c # p) = (if length (c # p) > 8 then if c \<noteq> neg then None else skip_sign neg p else Some (c # p))"

definition parseNumeric256 :: "byte list \<Rightarrow> int" where
  "parseNumeric256 p =
     (let neg = bit (hd p) 6;
          sign = (if neg then 0xFF else 0) :: byte;
          c = (if neg then hd p OR 0x80 else hd p AND 0x7F)
      in case skip_sign sign (c # tl p) of
           None \<Rightarrow> overflow256 neg
         | Some q \<Rightarrow>
             if q = [] \<or> bit (hd q XOR sign) 7 then overflow256 neg
             else sint (foldl (\<lambda>l c. push_bit 8 l OR ucast c) (if neg then -1 else 0 :: 64 word) q))"

definition parseNumeric :: "byte list \<Rightarrow> int" where
  "parseNumeric p = (if bit (hd p) 7 then parseNumeric256 p else parseNumeric8 p)"

definition parseString :: "byte list \<Rightarrow> byte list" where
  "parseString p = takeWhile (\<lambda>c. c \<noteq> 0) p"

section \<open>Header blocks\<close>

definition blockSize :: nat where "blockSize = 512"

definition field :: "nat \<Rightarrow> nat \<Rightarrow> byte list \<Rightarrow> byte list" where
  "field off len blk = take len (drop off blk)"

definition hdr_name where "hdr_name = field 0 100"
definition hdr_mode where "hdr_mode = field 100 8"
definition hdr_uid where "hdr_uid = field 108 8"
definition hdr_gid where "hdr_gid = field 116 8"
definition hdr_size where "hdr_size = field 124 12"
definition hdr_mtime where "hdr_mtime = field 136 12"
definition hdr_chksum where "hdr_chksum = field 148 8"
definition hdr_typeflag where "hdr_typeflag blk = blk ! 156"
definition hdr_linkname where "hdr_linkname = field 157 100"
definition hdr_magic where "hdr_magic = field 257 6"
definition hdr_version where "hdr_version = field 263 2"
definition hdr_uname where "hdr_uname = field 265 32"
definition hdr_gname where "hdr_gname = field 297 32"
definition hdr_devmajor where "hdr_devmajor = field 329 8"
definition hdr_devminor where "hdr_devminor = field 337 8"
definition hdr_prefix where "hdr_prefix = field 345 155"
definition star_prefix where "star_prefix = field 345 131"
definition star_atime where "star_atime = field 476 12"
definition star_ctime where "star_ctime = field 488 12"
definition star_trailer where "star_trailer = field 508 4"
definition gnu_atime where "gnu_atime = field 345 12"
definition gnu_ctime where "gnu_ctime = field 357 12"

definition magicUSTAR :: "byte list" where "magicUSTAR = lit ''ustar'' @ [0]"
definition magicGNU :: "byte list" where "magicGNU = lit ''ustar ''"
definition versionGNU :: "byte list" where "versionGNU = lit '' '' @ [0]"
definition trailerSTAR :: "byte list" where "trailerSTAR = lit ''tar'' @ [0]"

text \<open>The bytes of the block with the checksum field as blanks, summed unsigned and signed.\<close>

definition blanked :: "byte list \<Rightarrow> byte list" where
  "blanked blk = take 148 blk @ replicate 8 (ch CHR '' '') @ drop 156 blk"

definition IsChecksumEqual :: "byte list \<Rightarrow> bool" where
  "IsChecksumEqual blk \<longleftrightarrow>
     (\<forall>c\<in>set (hdr_chksum blk). c = ch CHR '' '' \<or> c = 0 \<or> is_digit_of 8 c) \<and>
     (let sum = parseNumeric (hdr_chksum blk);
          check = sum_list (map uint (blanked blk));
          scheck = sum_list (map sint (blanked blk))
      in check = sum \<or> scheck = sum)"

definition FormatUnknown :: nat where "FormatUnknown = 0"
definition FormatV7 :: nat where "FormatV7 = 1"
definition FormatUSTAR :: nat where "FormatUSTAR = 2"
definition FormatPAX :: nat where "FormatPAX = 4"
definition FormatGNU :: nat where "FormatGNU = 8"
definition FormatSTAR :: nat where "FormatSTAR = 16"

definition getFormat :: "byte list \<Rightarrow> nat" where
  "getFormat blk =
     (if \<not> IsChecksumEqual blk then FormatUnknown
      else if hdr_magic blk = magicUSTAR
      then if star_trailer blk = trailerSTAR then FormatSTAR else FormatUSTAR + FormatPAX
      else if hdr_magic blk = magicGNU \<and> hdr_version blk = versionGNU then FormatGNU
      else FormatV7)"

section \<open>PAX records\<close>

datatype tar_error = ErrEnded | ErrNotTarFile | ErrExtractGeneral | ErrSystem

record Header =
  Name :: "byte list"
  LinkName :: "byte list"
  Uname :: "byte list"
  Gname :: "byte list"
  Size :: int
  SparseSize :: int
  Mode :: int
  ModTime :: Time
  AccessTime :: Time
  ChangeTime :: Time
  Devmajor :: int
  Devminor :: int
  Xattrs :: "(byte list \<times> byte list) list"
  PAXRecords :: "(byte list \<times> byte list) list"
  UID :: int
  GID :: int
  Format :: nat
  Typeflag :: byte

definition Header_default :: Header where
  "Header_default = \<lparr>Name = [], LinkName = [], Uname = [], Gname = [], Size = 0, SparseSize = 0, Mode = 0, ModTime = UnixEpoch,
     AccessTime = UnixEpoch, ChangeTime = UnixEpoch, Devmajor = 0, Devminor = 0, Xattrs = [], PAXRecords = [],
     UID = 0, GID = 0, Format = FormatUnknown, Typeflag = 0\<rparr>"

definition parsePAXTime :: "byte list \<Rightarrow> Time option" where
  "parsePAXTime p =
     (let ss = takeWhile (\<lambda>c. c \<noteq> ch CHR ''.'') p;
          sn = drop (length ss + 1) p
      in case from_chars_signed 64 10 ss of
           None \<Rightarrow> None
         | Some sec \<Rightarrow>
             if sn = [] then Some (FromUnix sec 0)
             else Some (FromUnix sec (case from_chars_signed 64 10 ss of None \<Rightarrow> 0 | Some nsec \<Rightarrow> nsec)))"

text \<open>A 64-bit number taken to \<^verbatim>\<open>int\<close>.\<close>

definition to_int32 :: "int \<Rightarrow> int" where
  "to_int32 i = sint (word_of_int i :: 32 word)"

definition paxSchilyXattr :: "byte list" where "paxSchilyXattr = lit ''SCHILY.xattr.''"

text \<open>
  One record; a malformed number is reported, except for the user: there the code sets the
  error code and goes on with zero, which is all that is left of it, since every caller that
  goes on overwrites or clears the code. On failure the header keeps what the records before
  have set.
\<close>

definition set_number :: "(int \<Rightarrow> Header) \<Rightarrow> Header \<Rightarrow> byte list \<Rightarrow> bool \<times> Header" where
  "set_number upd h v = (case from_chars_signed 64 10 v of None \<Rightarrow> (False, h) | Some i \<Rightarrow> (True, upd i))"

definition set_time :: "(Time \<Rightarrow> Header) \<Rightarrow> Header \<Rightarrow> byte list \<Rightarrow> bool \<times> Header" where
  "set_time upd h v = (case parsePAXTime v of None \<Rightarrow> (False, h) | Some t \<Rightarrow> (True, upd t))"

definition mergePAX_record :: "Header \<Rightarrow> byte list \<times> byte list \<Rightarrow> bool \<times> Header" where
  "mergePAX_record h kv =
     (let (k, v) = kv in
      if v = [] then (True, h)
      else if k = lit ''path'' then (True, h\<lparr>Name := v\<rparr>)
      else if k = lit ''linkpath'' then (True, h\<lparr>LinkName := v\<rparr>)
      else if k = lit ''uname'' then (True, h\<lparr>Uname := v\<rparr>)
      else if k = lit ''gname'' then (True, h\<lparr>Gname := v\<rparr>)
      else if k = lit ''uid''
      then (True, h\<lparr>UID := to_int32 (case from_chars_signed 64 10 v of None \<Rightarrow> 0 | Some i \<Rightarrow> i)\<rparr>)
      else if k = lit ''gid'' then set_number (\<lambda>i. h\<lparr>GID := to_int32 i\<rparr>) h v
      else if k = lit ''atime'' then set_time (\<lambda>t. h\<lparr>AccessTime := t\<rparr>) h v
      else if k = lit ''mtime'' then set_time (\<lambda>t. h\<lparr>ModTime := t\<rparr>) h v
      else if k = lit ''ctime'' then set_time (\<lambda>t. h\<lparr>ChangeTime := t\<rparr>) h v
      else if k = lit ''size'' then set_number (\<lambda>i. h\<lparr>Size := i\<rparr>) h v
      else if take (length paxSchilyXattr) k = paxSchilyXattr
      then (True, h\<lparr>Xattrs := Xattrs h @ [(drop (length paxSchilyXattr) k, v)]\<rparr>)
      else (True, h))"

text \<open>The records in the order of the map.\<close>

fun mergePAX_loop :: "Header \<Rightarrow> (byte list \<times> byte list) list \<Rightarrow> bool \<times> Header" where
  "mergePAX_loop h [] = (True, h)"
| "mergePAX_loop h (kv # kvs) = (case mergePAX_record h kv of (ok, h) \<Rightarrow> if ok then mergePAX_loop h kvs else (False, h))"

definition mergePAX :: "Header \<Rightarrow> (byte list \<times> byte list) list \<Rightarrow> bool \<times> Header" where
  "mergePAX h paxHdrs = (case mergePAX_loop h paxHdrs of (ok, h) \<Rightarrow> if ok then (True, h\<lparr>PAXRecords := paxHdrs\<rparr>) else (False, h))"

definition validPAXRecord :: "byte list \<Rightarrow> byte list \<Rightarrow> bool" where
  "validPAXRecord k v \<longleftrightarrow>
     k \<noteq> [] \<and> ch CHR ''='' \<notin> set k \<and>
     (if k \<in> set [lit ''path'', lit ''linkpath'', lit ''uname'', lit ''gname''] then 0 \<notin> set v else 0 \<notin> set k)"

text \<open>The record at the front of the text: its key, its value and the text behind it.\<close>

definition parsePAXRecord :: "byte list \<Rightarrow> (byte list \<times> byte list \<times> byte list) option" where
  "parsePAXRecord sv = do {
     pos \<leftarrow> find_from (\<lambda>c. c = ch CHR '' '') sv 0;
     n \<leftarrow> from_chars_signed 32 10 (take pos sv);
     if n < 0 \<or> nat n > length sv then None
     else if pos \<ge> nat n then None
     else do {
       let rec = take (nat n - pos - 1) (drop (pos + 1) sv);
       if rec = [] \<or> last rec \<noteq> 10 then None
       else do {
         let rec = butlast rec;
         pos \<leftarrow> find_from (\<lambda>c. c = ch CHR ''='') rec 0;
         let k = take pos rec;
         let v = drop (pos + 1) rec;
         if \<not> validPAXRecord k v then None else Some (k, v, drop (nat n) sv) } } }"

section \<open>Sparse maps\<close>

record sparseEntry =
  Offset :: int
  Length :: int

definition endOffset :: "sparseEntry \<Rightarrow> int" where
  "endOffset e = Offset e + Length e"

fun validate_loop :: "int \<Rightarrow> sparseEntry \<Rightarrow> sparseEntry list \<Rightarrow> bool" where
  "validate_loop sz pre [] = True"
| "validate_loop sz pre (cur # spd) =
     (if Offset cur < 0 \<or> Length cur < 0 then False
      else if Offset cur > (2 ^ 63 - 1) - Length cur then False
      else if endOffset cur > sz then False
      else if endOffset pre > Offset cur then False
      else validate_loop sz cur spd)"

definition validateSparseEntries :: "sparseEntry list \<Rightarrow> int \<Rightarrow> bool" where
  "validateSparseEntries spd sz = (if sz < 0 then False else validate_loop sz \<lparr>Offset = 0, Length = 0\<rparr> spd)"

section \<open>The reader\<close>

text \<open>
  The underlying reader is a file with a position, which may be behind its end; the reader
  keeps what is left of the contents of the entry and of the padding behind it. Positions are
  unbounded here, where the code has 64 bits with a sign, and a single read asks for less than
  \<open>2 ^ 32\<close> bytes, the width \<^verbatim>\<open>ReadFile\<close> takes.
\<close>

record Reader =
  contents :: "byte list"
  position :: int
  remainingSize :: int
  paddingSize :: int
  index :: nat

definition ReadFull :: "int \<Rightarrow> Reader \<Rightarrow> (tar_error + byte list) \<times> Reader" where
  "ReadFull n r =
     (if n \<le> 0 then (Inr [], r)
      else if nat (position r) + nat n \<le> length (contents r)
      then (Inr (take (nat n) (drop (nat (position r)) (contents r))), r\<lparr>position := position r + n\<rparr>)
      else (Inl ErrEnded, r\<lparr>position := max (position r) (int (length (contents r)))\<rparr>))"

text \<open>\<open>SetFilePointerEx\<close> refuses a position before the start of the file.\<close>

definition discard :: "int \<Rightarrow> Reader \<Rightarrow> bool \<times> Reader" where
  "discard n r = (if position r + n < 0 then (False, r) else (True, r\<lparr>position := position r + n\<rparr>))"

definition isZeroBlock :: "byte list \<Rightarrow> bool" where
  "isZeroBlock blk \<longleftrightarrow> (\<forall>c\<in>set blk. c = 0)"

text \<open>\<^verbatim>\<open>-offset & (blockSize - 1)\<close> in 64 bits.\<close>

definition blockPadding :: "int \<Rightarrow> int" where
  "blockPadding off = uint ((- word_of_int off :: 64 word) AND word_of_nat (blockSize - 1))"

definition TypeReg :: byte where "TypeReg = ch CHR ''0''"
definition TypeRegA :: byte where "TypeRegA = 0"
definition TypeLink :: byte where "TypeLink = ch CHR ''1''"
definition TypeSymlink :: byte where "TypeSymlink = ch CHR ''2''"
definition TypeChar :: byte where "TypeChar = ch CHR ''3''"
definition TypeBlock :: byte where "TypeBlock = ch CHR ''4''"
definition TypeDir :: byte where "TypeDir = ch CHR ''5''"
definition TypeFifo :: byte where "TypeFifo = ch CHR ''6''"
definition TypeXHeader :: byte where "TypeXHeader = ch CHR ''x''"
definition TypeXGlobalHeader :: byte where "TypeXGlobalHeader = ch CHR ''g''"
definition TypeGNULongName :: byte where "TypeGNULongName = ch CHR ''L''"
definition TypeGNULongLink :: byte where "TypeGNULongLink = ch CHR ''K''"

definition isHeaderOnlyType :: "byte \<Rightarrow> bool" where
  "isHeaderOnlyType flag \<longleftrightarrow> flag \<in> set [TypeLink, TypeSymlink, TypeChar, TypeBlock, TypeDir, TypeFifo]"

definition handleRegularFile :: "Header \<Rightarrow> int option" where
  "handleRegularFile h =
     (let nb = (if isHeaderOnlyType (Typeflag h) then 0 else Size h)
      in if nb < 0 then None else Some (blockPadding nb))"

text \<open>The header in a block whose format is known.\<close>

definition decode_header :: "byte list \<Rightarrow> nat \<Rightarrow> Header" where
  "decode_header blk fmt =
     (let h = Header_default\<lparr>Format := fmt, Typeflag := hdr_typeflag blk, Name := parseString (hdr_name blk),
            LinkName := parseString (hdr_linkname blk), Size := parseNumeric (hdr_size blk),
            Mode := parseNumeric (hdr_mode blk), UID := to_int32 (parseNumeric (hdr_uid blk)),
            GID := to_int32 (parseNumeric (hdr_gid blk)), ModTime := FromUnix (parseNumeric (hdr_mtime blk)) 0\<rparr>
      in if fmt \<le> FormatV7 then h
         else let h = h\<lparr>Uname := parseString (hdr_uname blk), Gname := parseString (hdr_gname blk),
                    Devmajor := parseNumeric (hdr_devmajor blk), Devminor := parseNumeric (hdr_devminor blk)\<rparr>;
                  (prefix, h) =
                    (if fmt AND (FormatUSTAR OR FormatPAX) \<noteq> 0 then (parseString (hdr_prefix blk), h)
                     else if fmt AND FormatSTAR \<noteq> 0
                     then (parseString (star_prefix blk), h\<lparr>AccessTime := FromUnix (parseNumeric (star_atime blk)) 0,
                             ChangeTime := FromUnix (parseNumeric (star_ctime blk)) 0\<rparr>)
                     else if fmt AND FormatGNU \<noteq> 0
                     then ([], h\<lparr>AccessTime := if gnu_atime blk ! 0 \<noteq> 0 then FromUnix (parseNumeric (gnu_atime blk)) 0 else UnixEpoch,
                             ChangeTime := if gnu_ctime blk ! 0 \<noteq> 0 then FromUnix (parseNumeric (gnu_ctime blk)) 0 else UnixEpoch\<rparr>)
                     else ([], h))
              in if prefix \<noteq> [] then h\<lparr>Name := prefix @ lit ''/'' @ Name h\<rparr> else h)"

definition readHeader :: "Reader \<Rightarrow> (tar_error + Header) \<times> Reader" where
  "readHeader r =
     (case ReadFull (int blockSize) r of
        (Inl e, r) \<Rightarrow> (Inl e, r)
      | (Inr blk, r) \<Rightarrow>
          if isZeroBlock blk then
            (case ReadFull (int blockSize) r of
               (Inl e, r) \<Rightarrow> (Inl e, r)
             | (Inr blk, r) \<Rightarrow> (Inl (if isZeroBlock blk then ErrEnded else ErrNotTarFile), r))
          else if getFormat blk = FormatUnknown then (Inl ErrNotTarFile, r)
          else (Inr (decode_header blk (getFormat blk)), r))"

definition paxGNUSparseOffset :: "byte list" where "paxGNUSparseOffset = lit ''GNU.sparse.offset''"
definition paxGNUSparseNumBytes :: "byte list" where "paxGNUSparseNumBytes = lit ''GNU.sparse.numbytes''"
definition paxGNUSparseMap :: "byte list" where "paxGNUSparseMap = lit ''GNU.sparse.map''"

text \<open>\<open>emplace\<close> keeps the value that is there.\<close>

definition pax_emplace :: "byte list \<Rightarrow> byte list \<Rightarrow> (byte list \<times> byte list) list \<Rightarrow> (byte list \<times> byte list) list" where
  "pax_emplace k v m = (if map_of m k = None then m @ [(k, v)] else m)"

fun StrJoin :: "byte list \<Rightarrow> byte list list \<Rightarrow> byte list" where
  "StrJoin sep [] = []"
| "StrJoin sep [p] = p"
| "StrJoin sep (p # q # ps) = p @ sep @ StrJoin sep (q # ps)"

lemma from_chars_take_bound: "find_from P sv 0 = Some pos \<Longrightarrow> pos < length sv"
  by (drule find_from_SomeD) simp

lemma parsePAXRecord_shorter:
  assumes "parsePAXRecord sv = Some (k, v, rest)"
  shows "length rest < length sv"
  using assms by (auto simp: parsePAXRecord_def bind_eq_Some_conv Let_def split: if_splits dest!: from_chars_take_bound)

function parsePAX_loop :: "byte list \<Rightarrow> byte list list \<Rightarrow> (byte list \<times> byte list) list \<Rightarrow>
    (tar_error + (byte list list \<times> (byte list \<times> byte list) list))" where
  "parsePAX_loop sv sparseMap paxHdrs =
     (if sv = [] then Inr (sparseMap, paxHdrs)
      else case parsePAXRecord sv of
        None \<Rightarrow> Inl ErrExtractGeneral
      | Some (k, v, sv') \<Rightarrow>
          if k = paxGNUSparseOffset \<or> k = paxGNUSparseNumBytes then
            if length sparseMap mod 2 = 0 \<and> k \<noteq> paxGNUSparseOffset
               \<or> length sparseMap mod 2 = 1 \<and> k \<noteq> paxGNUSparseNumBytes \<or> ch CHR ''.'' \<in> set v
            then Inl ErrNotTarFile
            else parsePAX_loop sv' (sparseMap @ [v]) paxHdrs
          else parsePAX_loop sv' sparseMap (pax_emplace k v paxHdrs))"
  by pat_completeness auto
termination
  by (relation "measure (\<lambda>(sv, sparseMap, paxHdrs). length sv)") (auto dest: parsePAXRecord_shorter [OF sym] parsePAXRecord_shorter)

declare parsePAX_loop.simps [simp del]

definition parsePAX :: "int \<Rightarrow> (byte list \<times> byte list) list \<Rightarrow> Reader \<Rightarrow> (tar_error + (byte list \<times> byte list) list) \<times> Reader" where
  "parsePAX paxSize paxHdrs r =
     (case ReadFull paxSize r of
        (Inl e, r) \<Rightarrow> (Inl e, r)
      | (Inr sv, r) \<Rightarrow>
          (case parsePAX_loop sv [] paxHdrs of
             Inl e \<Rightarrow> (Inl e, r)
           | Inr (sparseMap, paxHdrs) \<Rightarrow>
               (Inr (if sparseMap \<noteq> [] then pax_emplace paxGNUSparseMap (StrJoin (lit '','') sparseMap) paxHdrs else paxHdrs), r)))"

text \<open>The state of the loop of \<open>Next\<close>: the records and the long names seen so far.\<close>

record next_state =
  st_pax :: "(byte list \<times> byte list) list"
  st_name :: "byte list"
  st_link :: "byte list"

text \<open>The end of \<open>Next\<close> for an entry of its own.\<close>

definition finish_entry :: "Header \<Rightarrow> next_state \<Rightarrow> Reader \<Rightarrow> (tar_error + Header) \<times> Reader" where
  "finish_entry h st r =
     (case mergePAX h (st_pax st) of
        (False, h) \<Rightarrow> (Inl ErrExtractGeneral, r)
      | (True, h) \<Rightarrow>
          (let h = (if st_name st \<noteq> [] then h\<lparr>Name := st_name st\<rparr> else h);
               h = (if st_link st \<noteq> [] then h\<lparr>LinkName := st_link st\<rparr> else h);
               h = (if Typeflag h = TypeRegA
                    then h\<lparr>Typeflag := if Name h \<noteq> [] \<and> last (Name h) = ch CHR ''/'' then TypeDir else TypeReg\<rparr> else h)
           in case handleRegularFile h of
                None \<Rightarrow> (Inl ErrNotTarFile, r)
              | Some padding \<Rightarrow>
                  (let h = (if Format h AND (FormatUSTAR OR FormatPAX) \<noteq> 0 then h\<lparr>Format := FormatUSTAR\<rparr> else h)
                   in (Inr h, r\<lparr>paddingSize := padding, remainingSize := Size h, index := index r + 1\<rparr>))))"

text \<open>One round of the loop: the result of \<open>Next\<close>, or the state for the next round.\<close>

definition next_round :: "next_state \<Rightarrow> Reader \<Rightarrow> ((tar_error + Header) + next_state) \<times> Reader" where
  "next_round st r =
     (let (ok, r) = discard (remainingSize r) r in if \<not> ok then (Inl (Inl ErrSystem), r) else
      let (ok, r) = discard (paddingSize r) r in if \<not> ok then (Inl (Inl ErrSystem), r) else
      case readHeader r of
        (Inl e, r) \<Rightarrow> (Inl (Inl e), r)
      | (Inr h, r) \<Rightarrow>
          (case handleRegularFile h of
             None \<Rightarrow> (Inl (Inl ErrNotTarFile), r)
           | Some padding \<Rightarrow>
               (let r = r\<lparr>paddingSize := padding\<rparr> in
                if Typeflag h = TypeXHeader \<or> Typeflag h = TypeXGlobalHeader then
                  (let h = h\<lparr>Format := Format h AND FormatPAX\<rparr> in
                   case parsePAX (Size h) (st_pax st) r of
                     (Inl e, r) \<Rightarrow> (Inl (Inl e), r)
                   | (Inr pax, r) \<Rightarrow>
                       if Typeflag h = TypeXGlobalHeader
                       then (let g = snd (mergePAX h pax)
                             in (Inl (Inr (Header_default\<lparr>Name := Name g, Xattrs := Xattrs g, PAXRecords := PAXRecords g,
                                    Format := Format g, Typeflag := Typeflag g\<rparr>)), r))
                       else (Inr (st\<lparr>st_pax := pax\<rparr>), r))
                else if Typeflag h = TypeGNULongName \<or> Typeflag h = TypeGNULongLink then
                  (case ReadFull (Size h) r of
                     (Inl e, r) \<Rightarrow> (Inl (Inl e), r)
                   | (Inr realname, r) \<Rightarrow>
                       if Typeflag h = TypeGNULongName then (Inr (st\<lparr>st_name := parseString realname\<rparr>), r)
                       else (Inr (st\<lparr>st_link := parseString realname\<rparr>), r))
                else (case finish_entry h st r of (res, r) \<Rightarrow> (Inl res, r)))))"

partial_function (option) next_loop :: "next_state \<Rightarrow> Reader \<Rightarrow> ((tar_error + Header) \<times> Reader) option" where
  "next_loop st r =
     (case next_round st r of (Inl res, r) \<Rightarrow> Some (res, r) | (Inr st, r) \<Rightarrow> next_loop st r)"

definition Next :: "Reader \<Rightarrow> ((tar_error + Header) \<times> Reader) option" where
  "Next r = next_loop \<lparr>st_pax = [], st_name = [], st_link = []\<rparr> r"

text \<open>Reading contents: at most what the file has, counted off what is left of the entry.\<close>

definition Read :: "nat \<Rightarrow> Reader \<Rightarrow> byte list \<times> Reader" where
  "Read n r =
     (let b = take n (drop (nat (position r)) (contents r)); r = r\<lparr>position := position r + int (length b)\<rparr>
      in (b, if b \<noteq> [] \<and> remainingSize r > 0 then r\<lparr>remainingSize := remainingSize r - int (length b)\<rparr> else r))"

text \<open>
  Writing the contents of an entry out, in pieces of 8192 bytes. The writer \<open>w\<close> is the
  callback of the caller, with a state of its own; \<open>ReadFile\<close> at the end of the file
  succeeds with no bytes. \<open>WriteTo\<close> clears the error code before it starts; the code is part
  of the state \<open>s\<close>, so the caller hands a cleared one in.
\<close>

partial_function (option) FileReader_WriteTo ::
    "('s \<Rightarrow> byte list \<Rightarrow> bool \<times> 's) \<Rightarrow> int \<Rightarrow> int \<Rightarrow> 's \<Rightarrow> Reader \<Rightarrow> (bool \<times> int \<times> 's \<times> Reader) option" where
  "FileReader_WriteTo w filesize extracted s r =
     (if filesize \<le> 0 then Some (True, extracted, s, r)
      else
        (let b = take (nat (min 8192 filesize)) (drop (nat (position r)) (contents r));
             r = r\<lparr>position := position r + int (length b)\<rparr>
         in if \<not> fst (w s b) then Some (False, extracted + int (length b), snd (w s b), r)
            else FileReader_WriteTo w (filesize - int (length b)) (extracted + int (length b)) (snd (w s b)) r))"

definition WriteTo :: "('s \<Rightarrow> byte list \<Rightarrow> bool \<times> 's) \<Rightarrow> int \<Rightarrow> 's \<Rightarrow> Reader \<Rightarrow> (bool \<times> 's \<times> Reader) option" where
  "WriteTo w filesize s r =
     map_option (\<lambda>(ret, extracted, s, r).
         (ret, s, if remainingSize r > 0 then r\<lparr>remainingSize := remainingSize r - extracted\<rparr> else r))
       (FileReader_WriteTo w filesize 0 s r)"

section \<open>Padding\<close>

lemma blockPadding_mod: "blockPadding off = (- off) mod 512"
proof -
  have "blockPadding off = uint (take_bit 9 (- word_of_int off :: 64 word))"
    by (simp add: blockPadding_def blockSize_def take_bit_eq_mask mask_eq_exp_minus_1)
  also have "(- word_of_int off :: 64 word) = word_of_int (- off)" by simp
  also have "uint (take_bit 9 (word_of_int (- off) :: 64 word)) = take_bit 9 (take_bit 64 (- off))"
    by (simp only: unsigned_take_bit_eq uint_word_of_int_eq) simp
  also have "\<dots> = (- off) mod 512"
    by (simp add: take_bit_take_bit min_def) (simp add: take_bit_eq_mod)
  finally show ?thesis .
qed

lemma blockPadding_range: "0 \<le> blockPadding off" "blockPadding off < 512" "512 dvd off + blockPadding off"
proof -
  have "(off + (- off) mod 512) mod 512 = 0" by (simp only: mod_add_right_eq) simp
  then show "512 dvd off + blockPadding off" by (simp only: blockPadding_mod dvd_eq_mod_eq_0)
qed (simp_all add: blockPadding_mod)

section \<open>Every call returns\<close>

lemma ReadFull_frame:
  assumes "ReadFull n r = (res, r')" and "0 \<le> position r"
  shows "contents r' = contents r \<and> remainingSize r' = remainingSize r \<and> paddingSize r' = paddingSize r \<and> index r' = index r
    \<and> position r \<le> position r' \<and> (\<not> isl res \<longrightarrow> n \<le> 0 \<or> position r' = position r + n \<and> position r' \<le> int (length (contents r)))"
  using assms by (auto simp: ReadFull_def split: if_splits)

lemma readHeader_frame:
  assumes "readHeader r = (res, r')" and "0 \<le> position r"
  shows "contents r' = contents r \<and> remainingSize r' = remainingSize r \<and> paddingSize r' = paddingSize r \<and> index r' = index r
    \<and> position r \<le> position r' \<and> (\<not> isl res \<longrightarrow> position r' = position r + 512 \<and> position r' \<le> int (length (contents r)))"
proof -
  obtain x r1 where 1: "ReadFull (int blockSize) r = (x, r1)" by (cases "ReadFull (int blockSize) r")
  obtain y r2 where 2: "ReadFull (int blockSize) r1 = (y, r2)" by (cases "ReadFull (int blockSize) r1")
  note f1 = ReadFull_frame [OF 1 assms(2)]
  then have "0 \<le> position r1" using assms(2) by simp
  note f2 = ReadFull_frame [OF 2 this]
  show ?thesis
  proof (cases x)
    case (Inl e)
    with assms(1) 1 f1 show ?thesis by (auto simp: readHeader_def)
  next
    case (Inr blk)
    with assms(1) 1 2 f1 f2 show ?thesis
      by (auto simp: readHeader_def blockSize_def split: if_splits sum.splits)
  qed
qed

lemma parsePAX_frame:
  assumes "parsePAX n m r = (res, r')" and "0 \<le> position r"
  shows "contents r' = contents r \<and> remainingSize r' = remainingSize r \<and> paddingSize r' = paddingSize r \<and> position r \<le> position r'"
proof -
  obtain x r1 where 1: "ReadFull n r = (x, r1)" by (cases "ReadFull n r")
  with assms(1) have "r' = r1" by (auto simp: parsePAX_def split: sum.splits prod.splits)
  with ReadFull_frame [OF 1 assms(2)] show ?thesis by simp
qed

text \<open>A round that does not end the loop has consumed a block.\<close>

lemma handleRegularFile_SomeD: "handleRegularFile h = Some p \<Longrightarrow> 0 \<le> p \<and> p < 512"
  using blockPadding_range by (auto simp: handleRegularFile_def Let_def split: if_splits)

lemma next_round_continues:
  assumes "next_round st r = (Inr st', r')" and "0 \<le> position r" and "0 \<le> remainingSize r" and "0 \<le> paddingSize r"
  shows "contents r' = contents r \<and> remainingSize r' = remainingSize r \<and> 0 \<le> paddingSize r'
    \<and> position r + 512 \<le> position r' \<and> position r + 512 \<le> int (length (contents r))"
proof -
  define r2 where "r2 = r\<lparr>position := position r + remainingSize r + paddingSize r\<rparr>"
  have d: "discard (remainingSize r) r = (True, r\<lparr>position := position r + remainingSize r\<rparr>)"
    "discard (paddingSize r) (r\<lparr>position := position r + remainingSize r\<rparr>) = (True, r2)"
    using assms(2-4) by (simp_all add: discard_def r2_def)
  obtain x r3 where 3: "readHeader r2 = (x, r3)" by (cases "readHeader r2")
  have f3: "contents r3 = contents r" "remainingSize r3 = remainingSize r" "position r2 \<le> position r3"
    "\<not> isl x \<Longrightarrow> position r3 = position r2 + 512 \<and> position r3 \<le> int (length (contents r))"
    using readHeader_frame [OF 3] assms(2-4) by (simp_all add: r2_def)
  from assms(1) obtain h where h: "x = Inr h" by (cases x) (simp_all add: next_round_def d 3)
  obtain p where p: "handleRegularFile h = Some p"
    using assms(1) by (cases "handleRegularFile h") (simp_all add: next_round_def d 3 h)
  note p' = handleRegularFile_SomeD [OF p]
  define r4 where "r4 = r3\<lparr>paddingSize := p\<rparr>"
  have f4: "contents r4 = contents r" "remainingSize r4 = remainingSize r" "paddingSize r4 = p" "0 \<le> position r4"
    "position r + 512 \<le> position r4" "position r4 \<le> int (length (contents r))"
    using f3 h assms(2-4) by (simp_all add: r4_def r2_def)
  obtain y r5 where 5: "parsePAX (Size h) (st_pax st) r4 = (y, r5)" by (cases "parsePAX (Size h) (st_pax st) r4")
  obtain z r6 where 6: "ReadFull (Size h) r4 = (z, r6)" by (cases "ReadFull (Size h) r4")
  have "r' = r5 \<or> r' = r6"
    using assms(1) 5 6 by (auto simp: next_round_def d 3 h p r4_def [symmetric] Let_def split: sum.splits if_splits prod.splits)
  then show ?thesis
    using parsePAX_frame [OF 5] ReadFull_frame [OF 6] f4 p' by auto
qed

text \<open>
  C28: Every call of \<open>Next\<close> returns, with an entry or with an error, as long as what is left
  of the entry before is not negative: the loop over PAX headers and long names reads a
  block of the archive in every round.
\<close>

theorem Next_returns:
  assumes "0 \<le> position r" and "0 \<le> remainingSize r" and "0 \<le> paddingSize r"
  shows "\<exists>res r'. Next r = Some (res, r')"
proof -
  have "\<exists>res r'. next_loop st r = Some (res, r')" for st
    using assms
  proof (induction "nat (int (length (contents r)) - position r)" arbitrary: st r rule: less_induct)
    case less
    obtain x r' where x: "next_round st r = (x, r')" by (cases "next_round st r")
    show ?case
    proof (cases x)
      case (Inl res)
      with x show ?thesis by (subst next_loop.simps) simp
    next
      case (Inr st')
      note n = next_round_continues [OF x [unfolded Inr] less.prems]
      then have "nat (int (length (contents r')) - position r') < nat (int (length (contents r)) - position r)" by simp
      then have "\<exists>res r''. next_loop st' r' = Some (res, r'')" using less.hyps n less.prems by simp
      with x Inr show ?thesis by (subst next_loop.simps) simp
    qed
  qed
  then show ?thesis by (simp add: Next_def)
qed

theorem Next_returns_witness:
  "\<exists>res r'. Next \<lparr>contents = [1, 2, 3], position = 0, remainingSize = 0, paddingSize = 0, index = 0\<rparr> = Some (res, r')"
  by (rule Next_returns) simp_all

section \<open>Sparse maps\<close>

lemma validate_loop_spec:
  "validate_loop sz pre spd \<longleftrightarrow>
     (\<forall>e\<in>set spd. 0 \<le> Offset e \<and> 0 \<le> Length e \<and> endOffset e \<le> 2 ^ 63 - 1 \<and> endOffset e \<le> sz)
     \<and> (spd = [] \<or> endOffset pre \<le> Offset (hd spd)) \<and> (\<forall>i. Suc i < length spd \<longrightarrow> endOffset (spd ! i) \<le> Offset (spd ! Suc i))"
proof (induction spd arbitrary: pre)
  case (Cons a spd)
  have "(\<forall>i. Suc i < length (a # spd) \<longrightarrow> endOffset ((a # spd) ! i) \<le> Offset ((a # spd) ! Suc i)) \<longleftrightarrow>
      (spd = [] \<or> endOffset a \<le> Offset (hd spd)) \<and> (\<forall>i. Suc i < length spd \<longrightarrow> endOffset (spd ! i) \<le> Offset (spd ! Suc i))"
    by (cases spd) (auto simp: nth_Cons split: nat.splits)
  with Cons.IH [of a] show ?case by (auto simp: endOffset_def)
qed simp

lemma ordered_disjoint:
  assumes "\<forall>i. Suc i < length spd \<longrightarrow> endOffset (spd ! i) \<le> Offset (spd ! Suc i)" and "\<forall>e\<in>set spd. 0 \<le> Length e"
    and "i < j" and "j < length spd"
  shows "endOffset (spd ! i) \<le> Offset (spd ! j)"
  using assms(3,4)
proof (induction j)
  case (Suc j)
  show ?case
  proof (cases "i = j")
    case False
    then have "endOffset (spd ! i) \<le> Offset (spd ! j)" using Suc by simp
    also have "\<dots> \<le> endOffset (spd ! j)" using assms(2) Suc.prems by (simp add: endOffset_def)
    also have "\<dots> \<le> Offset (spd ! Suc j)" using assms(1) Suc.prems by simp
    finally show ?thesis .
  qed (use assms(1) Suc.prems in simp)
qed simp

text \<open>
  \<open>validateSparseEntries\<close> accepts a map of data fragments exactly when every fragment
  lies inside the file, none starts before another has ended, in the order of the map, and
  no offset overflows.
\<close>

theorem validateSparseEntries_sound_complete:
  "validateSparseEntries spd sz \<longleftrightarrow> 0 \<le> sz \<and>
     (\<forall>e\<in>set spd. 0 \<le> Offset e \<and> 0 \<le> Length e \<and> endOffset e \<le> 2 ^ 63 - 1 \<and> endOffset e \<le> sz) \<and>
     (\<forall>i j. i < j \<longrightarrow> j < length spd \<longrightarrow> endOffset (spd ! i) \<le> Offset (spd ! j))"
proof -
  have "(\<forall>e\<in>set spd. 0 \<le> Offset e) \<Longrightarrow> spd = [] \<or> 0 \<le> Offset (hd spd)" by (cases spd) simp_all
  then show ?thesis
    unfolding validateSparseEntries_def validate_loop_spec
    using ordered_disjoint [of spd] by (auto simp: endOffset_def [of "\<lparr>Offset = 0, Length = 0\<rparr>"])
qed

theorem validateSparseEntries_sound_complete_witness:
  "validateSparseEntries [\<lparr>Offset = 0, Length = 5\<rparr>, \<lparr>Offset = 8, Length = 2\<rparr>] 10
   \<and> \<not> validateSparseEntries [\<lparr>Offset = 0, Length = 9\<rparr>, \<lparr>Offset = 8, Length = 2\<rparr>] 10"
  using validateSparseEntries_sound_complete [of "[\<lparr>Offset = 0, Length = 9\<rparr>, \<lparr>Offset = 8, Length = 2\<rparr>]" 10]
  by (auto simp: validateSparseEntries_def endOffset_def)

section \<open>PAX records\<close>

fun decimal :: "nat \<Rightarrow> byte list" where
  "decimal n = (if n < 10 then [of_nat (48 + n)] else decimal (n div 10) @ [of_nat (48 + n mod 10)])"

declare decimal.simps [simp del]

text \<open>A record with a length in front that counts the whole record, itself included.\<close>

definition pax_record :: "nat \<Rightarrow> byte list \<Rightarrow> byte list \<Rightarrow> byte list" where
  "pax_record n k v = decimal n @ lit '' '' @ k @ lit ''='' @ v @ [10]"

lemma digit_byte:
  assumes "d < 10"
  shows "is_digit_of 10 (of_nat (48 + d))" and "digit_value (of_nat (48 + d)) = d"
proof -
  have "unat (of_nat (48 + d) :: byte) = 48 + d" unfolding unat_of_nat using assms by simp
  then show "is_digit_of 10 (of_nat (48 + d))" "digit_value (of_nat (48 + d)) = d"
    using assms by (simp_all add: is_digit_of_def digit_value_def)
qed

lemma decimal_digits: "c \<in> set (decimal n) \<Longrightarrow> is_digit_of 10 c"
proof (induction n rule: decimal.induct)
  case (1 n)
  show ?case
  proof (cases "n < 10")
    case True
    with "1.prems" digit_byte(1) [OF True] show ?thesis by (simp add: decimal.simps [of n])
  next
    case False
    have "n mod 10 < 10" by simp
    from False "1.prems" "1.IH" [OF False] digit_byte(1) [OF this] show ?thesis by (auto simp: decimal.simps [of n])
  qed
qed

lemma decimal_value: "digits_value 10 (decimal n) = n"
proof (induction n rule: decimal.induct)
  case (1 n)
  show ?case
  proof (cases "n < 10")
    case True
    with digit_byte(2) [OF True] show ?thesis by (simp add: decimal.simps [of n] digits_value_def)
  next
    case False
    have "n mod 10 < 10" by simp
    from False "1.IH" [OF False] digit_byte(2) [OF this] show ?thesis by (simp add: decimal.simps [of n] digits_value_def)
  qed
qed

lemma decimal_not_Nil [simp]: "decimal n \<noteq> []"
  by (simp add: decimal.simps [of n])

lemma takeWhile_all: "(\<And>c. c \<in> set xs \<Longrightarrow> P c) \<Longrightarrow> takeWhile P xs = xs"
  by (simp add: takeWhile_eq_all_conv)

lemma from_chars_decimal:
  assumes "n < 2 ^ (bits - 1)"
  shows "from_chars_signed bits 10 (decimal n) = Some (int n)"
proof -
  have "hd (decimal n) \<noteq> ch CHR ''-''"
    using decimal_digits [of "hd (decimal n)" n] by (auto simp: is_digit_of_def ch_def)
  moreover have tw: "takeWhile (is_digit_of 10) (decimal n) = decimal n" using decimal_digits by (rule takeWhile_all)
  moreover have "int n < 2 ^ (bits - 1)" using assms by (metis of_nat_less_iff of_nat_numeral of_nat_power)
  moreover have "\<not> int n < - (2 ^ (bits - 1))" by (smt (verit) of_nat_0_le_iff zero_le_power)
  ultimately show ?thesis
    unfolding from_chars_signed_def Let_def by (simp add: tw decimal_value del: takeWhile_eq_all_conv)
qed

text \<open>
  A PAX record with a valid key and value, whose length counts the whole record, is
  parsed to its key and its value, and the text behind it is left to be parsed.
\<close>

theorem parsePAXRecord_roundtrip:
  assumes "validPAXRecord k v" and "length (pax_record n k v) = n" and "n < 2 ^ 31"
  shows "parsePAXRecord (pax_record n k v @ rest) = Some (k, v, rest)"
proof -
  let ?d = "decimal n" and ?s = "pax_record n k v @ rest"
  have s: "?s = ?d @ ch CHR '' '' # (k @ ch CHR ''='' # v @ [10]) @ rest" by (simp add: pax_record_def)
  have "c \<noteq> ch CHR '' ''" if "c \<in> set ?d" for c
    using decimal_digits [OF that] by (auto simp: is_digit_of_def ch_def)
  then have pos: "find_from (\<lambda>c. c = ch CHR '' '') ?s 0 = Some (length ?d)" unfolding s by (intro find_from_first) auto
  have num: "from_chars_signed 32 10 ?d = Some (int n)" using assms(3) by (intro from_chars_decimal) simp
  have n: "n = length ?d + 1 + length (k @ ch CHR ''='' # v @ [10])" using assms(2) by (simp add: pax_record_def)
  have "ch CHR ''='' \<notin> set k" using assms(1) by (simp add: validPAXRecord_def)
  then have eq: "find_from (\<lambda>c. c = ch CHR ''='') (k @ ch CHR ''='' # v) 0 = Some (length k)" by (intro find_from_first) auto
  have "n - Suc (length ?d) = length (k @ ch CHR ''='' # v @ [10])" using n by linarith
  moreover have "drop (Suc (length ?d)) ?s = (k @ ch CHR ''='' # v @ [10]) @ rest" unfolding s by simp
  ultimately have rec: "take (n - Suc (length ?d)) (drop (Suc (length ?d)) ?s) = k @ ch CHR ''='' # v @ [10]"
    by (simp only: append_eq_conv_conj [THEN iffD1, OF refl, THEN conjunct1] append_take_drop_id take_append) simp
  have rst: "drop n ?s = rest" using assms(2) by simp
  have tk: "take (length ?d) ?s = ?d" unfolding s by simp
  have bl: "butlast (k @ ch CHR ''='' # v @ [10]) = k @ ch CHR ''='' # v" "last (k @ ch CHR ''='' # v @ [10]) = 10"
    by (simp_all add: butlast_append)
  show ?thesis
    unfolding parsePAXRecord_def pos
    using assms(1,2) n by (simp add: tk num rec rst bl eq Let_def del: take_append drop_append) simp
qed

theorem parsePAXRecord_roundtrip_witness:
  "parsePAXRecord (lit ''12 path=a/b'' @ [10] @ lit ''x'') = Some (lit ''path'', lit ''a/b'', lit ''x'')"
proof -
  have r: "lit ''12 path=a/b'' @ [10] = pax_record 12 (lit ''path'') (lit ''a/b'')"
    by (simp add: pax_record_def decimal.simps ch_def)
  have h: "validPAXRecord (lit ''path'') (lit ''a/b'')" "length (pax_record 12 (lit ''path'') (lit ''a/b'')) = 12" "(12::nat) < 2 ^ 31"
    by (simp_all add: pax_record_def decimal.simps validPAXRecord_def ch_def)
  have "parsePAXRecord ((lit ''12 path=a/b'' @ [10]) @ lit ''x'') = Some (lit ''path'', lit ''a/b'', lit ''x'')"
    unfolding r by (rule parsePAXRecord_roundtrip [OF h])
  then show ?thesis by simp
qed

section \<open>Numeric fields\<close>

text \<open>A number in octal, with leading zeros and a terminator, and in base 256.\<close>

fun octal :: "nat \<Rightarrow> nat \<Rightarrow> byte list" where
  "octal 0 n = []"
| "octal (Suc k) n = octal k (n div 8) @ [of_nat (48 + n mod 8)]"

definition base256 :: "int \<Rightarrow> byte list" where
  "base256 v = map (\<lambda>i. word_of_int (drop_bit (8 * i) v)) (rev [0..<11])"

definition octal_field :: "nat \<Rightarrow> byte list" where
  "octal_field n = octal 11 n @ [0]"

definition base256_field :: "int \<Rightarrow> byte list" where
  "base256_field v = (if v < 0 then 0xFF else 0x80) # base256 v"

lemma octal_byte:
  assumes "d < 8"
  shows "is_digit_of 8 (of_nat (48 + d))" and "digit_value (of_nat (48 + d)) = d"
proof -
  have "unat (of_nat (48 + d) :: byte) = 48 + d" unfolding unat_of_nat using assms by simp
  then show "is_digit_of 8 (of_nat (48 + d))" "digit_value (of_nat (48 + d)) = d"
    using assms by (simp_all add: is_digit_of_def digit_value_def)
qed

lemma octal_digits: "c \<in> set (octal k n) \<Longrightarrow> is_digit_of 8 c"
proof (induction k arbitrary: n)
  case (Suc k)
  have "n mod 8 < 8" by simp
  from Suc octal_byte(1) [OF this] show ?case by auto
qed simp

lemma octal_value: "n < 8 ^ k \<Longrightarrow> digits_value 8 (octal k n) = n"
proof (induction k arbitrary: n)
  case (Suc k)
  have "n div 8 < 8 ^ k" using Suc.prems by (simp add: less_mult_imp_div_less mult.commute)
  moreover have "n mod 8 < 8" by simp
  ultimately show ?case using Suc.IH octal_byte(2) [of "n mod 8"] by (simp add: digits_value_def)
qed (simp add: digits_value_def)

lemma parseNumeric_octal:
  assumes "n < 8 ^ 11"
  shows "parseNumeric (octal_field n) = int n"
proof -
  define ds where "ds = octal 11 n"
  have dig: "c \<in> set ds \<Longrightarrow> is_digit_of 8 c" for c using octal_digits by (simp add: ds_def)
  have ne: "ds \<noteq> []" using octal.simps(2) [of 10 n] unfolding ds_def by (simp only: eval_nat_numeral) simp
  have hd: "is_digit_of 8 (hd ds)" using dig ne by simp
  have "\<not> bit (unat (hd ds)) 7" using hd by (simp add: is_digit_of_def bit_iff_odd)
  then have "\<not> bit (hd ds) 7" by (simp add: bit_unsigned_iff)
  moreover have "hd ds \<noteq> ch CHR ''-''" using hd by (auto simp: is_digit_of_def ch_def)
  moreover have tw: "takeWhile (is_digit_of 8) (ds @ [0]) = ds"
    using dig by (simp add: takeWhile_append is_digit_of_def)
  moreover have "int n < 2 ^ 63" using assms by simp
  moreover have "digits_value 8 ds = n" using octal_value [OF assms] by (simp add: ds_def)
  ultimately show ?thesis
    using ne by (simp add: parseNumeric_def octal_field_def ds_def [symmetric] parseNumeric8_def from_chars_signed_def tw Let_def)
qed

text \<open>The high bits of a 64-bit value repeat its sign.\<close>

lemma sign_bits:
  assumes "- (2 ^ 63) \<le> v" and "v < 2 ^ 63" and "m \<ge> 63"
  shows "bit (v :: int) m \<longleftrightarrow> v < 0"
proof -
  have v: "signed_take_bit 63 v = v" using assms(1,2) by (intro signed_take_bit_int_eq_self) simp_all
  have "bit v m \<longleftrightarrow> bit (signed_take_bit 63 v) m" by (simp only: v)
  also have "\<dots> \<longleftrightarrow> bit v 63" using assms(3) by (simp add: bit_signed_take_bit_iff min_def)
  also have "\<dots> \<longleftrightarrow> v < 0" using signed_take_bit_negative_iff [of 63 v] by (simp only: v)
  finally show ?thesis .
qed

lemma accumulate_bits:
  assumes "n < 64"
  shows "bit (foldl (\<lambda>l c. push_bit 8 l OR ucast (c :: byte)) init (map (\<lambda>i. word_of_int (drop_bit (8 * i) v)) (rev [0..<k])) :: 64 word) n
    \<longleftrightarrow> (if n < 8 * k then bit v n else bit init (n - 8 * k))"
proof (induction k arbitrary: init)
  case (Suc k)
  have "bit (push_bit 8 init OR ucast (word_of_int (drop_bit (8 * k) v) :: byte) :: 64 word) (n - 8 * k) \<longleftrightarrow>
      (if n < 8 * Suc k then bit v n else bit init (n - 8 * Suc k))" if "\<not> n < 8 * k"
    using that assms by (auto simp: bit_simps bit_word_of_int_iff algebra_simps)
  with Suc.IH [of "push_bit 8 init OR ucast (word_of_int (drop_bit (8 * k) v) :: byte)"] show ?case by simp
qed simp

lemma skip_sign_repeat:
  "length q = 8 \<Longrightarrow> skip_sign neg (replicate k neg @ q) = Some q"
proof (induction k)
  case 0
  then show ?case by (cases q) simp_all
qed simp

lemma parseNumeric_base256:
  assumes v: "- (2 ^ 63) \<le> v" "v < 2 ^ 63"
  shows "parseNumeric (base256_field v) = v"
proof -
  define B where "B i = (word_of_int (drop_bit (8 * i) v) :: byte)" for i
  define neg where "neg \<longleftrightarrow> v < 0"
  define sign where "sign = (if neg then 0xFF else 0 :: byte)"
  have high: "B i = sign" if "i \<ge> 8" for i
  proof (rule bit_word_eqI)
    fix n assume "n < LENGTH(8)"
    then have "bit (B i) n \<longleftrightarrow> neg" using sign_bits [OF v, of "8 * i + n"] that by (simp add: B_def neg_def bit_simps bit_word_of_int_iff)
    moreover have "bit sign n \<longleftrightarrow> neg" using \<open>n < LENGTH(8)\<close> by (auto simp: sign_def byte_bits less_Suc_eq numeral_eq_Suc)
    ultimately show "bit (B i) n \<longleftrightarrow> bit sign n" by simp
  qed
  define q where "q = map B (rev [0..<8])"
  have "rev [0..<11] = [10, 9, 8] @ rev [0..<8 :: nat]" by (simp add: upt_rec)
  then have f: "base256_field v = (if neg then 0xFF else 0x80) # [sign, sign, sign] @ q"
    using high [of 10] high [of 9] high [of 8] by (simp add: base256_field_def base256_def neg_def q_def B_def)
  have c: "(if neg then hd (base256_field v) OR 0x80 else hd (base256_field v) AND 0x7F) = sign"
    by (simp add: f sign_def)
  have "skip_sign sign (replicate 4 sign @ q) = Some q" by (rule skip_sign_repeat) (simp add: q_def)
  then have skip: "skip_sign sign (sign # tl (base256_field v)) = Some q" by (simp add: f numeral_eq_Suc)
  have "hd q = B 7" "q \<noteq> []" by (simp_all add: q_def hd_rev last_map hd_map last_upt)
  then have hdq: "q \<noteq> []" "\<not> bit (hd q XOR sign) 7"
    using sign_bits [OF v, of 63] by (simp_all add: B_def sign_def neg_def bit_simps bit_word_of_int_iff)
  have "foldl (\<lambda>l c. push_bit 8 l OR ucast c) init q = (word_of_int v :: 64 word)" for init
    by (rule bit_word_eqI) (simp add: q_def B_def [abs_def] accumulate_bits bit_word_of_int_iff)
  then have val: "sint (foldl (\<lambda>l c. push_bit 8 l OR ucast c) (if neg then -1 else 0 :: 64 word) q) = v"
    using signed_take_bit_int_eq_self [of 63 v] v by (simp add: sint_uint uint_word_of_int_eq signed_take_bit_take_bit)
  have b: "bit (hd (base256_field v)) 7 = True" "bit (hd (base256_field v)) 6 = neg" by (simp_all add: f)
  have "parseNumeric256 (base256_field v) = v"
    unfolding parseNumeric256_def Let_def b sign_def [symmetric] c skip option.case by (simp only: hdq simp_thms if_False val)
  then show ?thesis by (simp only: parseNumeric_def b if_True)
qed

text \<open>
  The twelve-byte numeric fields keep their value: a size or time below two to the 33 in
  octal with a terminator, and every 64-bit value in the base-256 form.
\<close>

theorem parseNumeric_roundtrip:
  "(n < 2 ^ 33 \<longrightarrow> parseNumeric (octal_field n) = int n)
   \<and> (- (2 ^ 63) \<le> v \<longrightarrow> v < 2 ^ 63 \<longrightarrow> parseNumeric (base256_field v) = v)"
  using parseNumeric_octal [of n] parseNumeric_base256 [of v] by simp

theorem parseNumeric_roundtrip_witness:
  "parseNumeric (octal_field 1234) = 1234 \<and> parseNumeric (base256_field (- 5)) = - 5"
  using parseNumeric_roundtrip [of 1234 "- 5"] by simp

section \<open>Checksums\<close>

lemma uint_sint_byte: "uint (c :: byte) = sint c + 256 * of_bool (bit c 7)"
  by (simp add: sint_uint signed_take_bit_eq_take_bit_minus bit_uint_iff take_bit_int_eq_self uint_lt2p [of c, simplified])

lemma sums_differ: "sum_list (map uint (bs :: byte list)) = sum_list (map sint bs) + 256 * int (length (filter (\<lambda>c. bit c 7) bs))"
  by (induction bs) (simp_all add: uint_sint_byte algebra_simps)

lemma sum_list_update_int:
  "i < length xs \<Longrightarrow> sum_list (map f (xs[i := c])) = sum_list (map f xs) - f (xs ! i) + (f c :: int)"
  by (induction xs arbitrary: i) (auto split: nat.split)

lemma changed_sums:
  fixes u u' v v' :: int
  assumes "u = v + 256 * int x" and "u' = v' + 256 * int y" and "u' = u - a + a'" and "v' = v - b + b'"
    and "a \<noteq> a'" and "b \<noteq> b'" and "0 \<le> a" "a < 256" "0 \<le> a'" "a' < 256" and "u = m \<or> v = m"
  shows "u' \<noteq> m \<and> v' \<noteq> m"
proof -
  have far: "a - a' \<noteq> 256 * int z" "a' - a \<noteq> 256 * int z" for z
    using assms(5,7-10) by (cases z; simp)+
  from assms(11) show ?thesis
  proof
    assume "u = m"
    with far(2) [of y] assms show ?thesis by auto
  next
    assume "v = m"
    with far(1) [of x] assms show ?thesis by auto
  qed
qed

lemma blanked_update:
  assumes "length blk = 512" and "i < 512" and "\<not> (148 \<le> i \<and> i < 156)"
  shows "blanked (blk[i := c]) = (blanked blk)[i := c]" "i < length (blanked blk)" "blanked blk ! i = blk ! i"
    "hdr_chksum (blk[i := c]) = hdr_chksum blk"
proof -
  have l: "length (take 148 blk) = 148" using assms(1) by simp
  show "blanked (blk[i := c]) = (blanked blk)[i := c]" "i < length (blanked blk)" "blanked blk ! i = blk ! i"
    using assms l by (auto simp: blanked_def list_update_append nth_append take_update_swap drop_update_swap list_update_beyond)
  show "hdr_chksum (blk[i := c]) = hdr_chksum blk"
    using assms(2,3) by (cases "i < 148") (simp_all add: hdr_chksum_def field_def drop_update_swap)
qed

text \<open>
  C32: A change of a single byte of a header block, outside the checksum field, is always
  noticed: a block whose format is recognised is not recognised any more.
\<close>

theorem getFormat_detects_corruption:
  assumes "length blk = 512" and "getFormat blk \<noteq> FormatUnknown" and "i < 512" and "\<not> (148 \<le> i \<and> i < 156)" and "c \<noteq> blk ! i"
  shows "getFormat (blk[i := c]) = FormatUnknown"
proof -
  let ?u = "sum_list (map uint (blanked blk))" and ?s = "sum_list (map sint (blanked blk))"
  let ?b = "blanked (blk[i := c])"
  note up = blanked_update [OF assms(1,3,4)]
  have u: "sum_list (map uint ?b) = ?u - uint (blk ! i) + uint c" "sum_list (map sint ?b) = ?s - sint (blk ! i) + sint c"
    using up by (simp_all add: sum_list_update_int)
  define x y where "x = length (filter (\<lambda>c. bit c 7) (blanked blk))" and "y = length (filter (\<lambda>c. bit c 7) ?b)"
  have d: "?u = ?s + 256 * int x" "sum_list (map uint ?b) = sum_list (map sint ?b) + 256 * int y"
    unfolding x_def y_def by (rule sums_differ)+
  have ne: "uint (blk ! i) \<noteq> uint c" "sint (blk ! i) \<noteq> sint c"
    using assms(5) by (metis word_eq_iff_unsigned, metis signed_word_eqI)
  have rng: "0 \<le> uint (blk ! i)" "uint (blk ! i) < 256" "0 \<le> uint c" "uint c < 256"
    using uint_lt2p [of "blk ! i"] uint_lt2p [of c] by simp_all
  have "IsChecksumEqual blk" using assms(2) by (auto simp: getFormat_def split: if_splits)
  then have "?u = parseNumeric (hdr_chksum blk) \<or> ?s = parseNumeric (hdr_chksum blk)" by (simp add: IsChecksumEqual_def Let_def)
  then have "sum_list (map uint ?b) \<noteq> parseNumeric (hdr_chksum blk) \<and> sum_list (map sint ?b) \<noteq> parseNumeric (hdr_chksum blk)"
    by (rule changed_sums [OF d u ne rng])
  then have "\<not> IsChecksumEqual (blk[i := c])" by (simp add: IsChecksumEqual_def Let_def up(4))
  then show ?thesis by (simp add: getFormat_def)
qed

section \<open>Walking over an archive\<close>

text \<open>The header that \<open>Next\<close> returns for an entry without extension records in front.\<close>

definition entry_header :: "byte list \<Rightarrow> Header" where
  "entry_header blk =
     (let h = decode_header blk (getFormat blk);
          h = (if Typeflag h = TypeRegA
               then h\<lparr>Typeflag := if Name h \<noteq> [] \<and> last (Name h) = ch CHR ''/'' then TypeDir else TypeReg\<rparr> else h)
      in if Format h AND (FormatUSTAR OR FormatPAX) \<noteq> 0 then h\<lparr>Format := FormatUSTAR\<rparr> else h)"

text \<open>
  An archive is a list of members: the extension blocks in front, a header block and the
  contents. An extension is a PAX header of type \<^verbatim>\<open>x\<close> or a GNU long name or link, each with a
  payload; the state of \<open>Next\<close> keeps what the extensions say until the header they belong
  to. (A global header of type \<^verbatim>\<open>g\<close> is returned like an entry and is not a member.)
\<close>

type_synonym extension = "byte list \<times> byte list"
type_synonym member = "extension list \<times> byte list \<times> byte list"

definition fresh_state :: next_state where
  "fresh_state = \<lparr>st_pax = [], st_name = [], st_link = []\<rparr>"

definition known_block :: "byte list \<Rightarrow> bool" where
  "known_block blk \<longleftrightarrow> length blk = 512 \<and> \<not> isZeroBlock blk \<and> getFormat blk \<noteq> FormatUnknown"

definition pax_of :: "byte list \<Rightarrow> (byte list \<times> byte list) list \<Rightarrow> (byte list \<times> byte list) list option" where
  "pax_of payload paxHdrs =
     (case parsePAX_loop payload [] paxHdrs of
        Inl _ \<Rightarrow> None
      | Inr (sparseMap, paxHdrs) \<Rightarrow>
          Some (if sparseMap \<noteq> [] then pax_emplace paxGNUSparseMap (StrJoin (lit '','') sparseMap) paxHdrs else paxHdrs))"

definition apply_extension :: "extension \<Rightarrow> next_state \<Rightarrow> next_state option" where
  "apply_extension x st =
     (let (blk, payload) = x; h = decode_header blk (getFormat blk) in
      if \<not> known_block blk \<or> Size h \<noteq> int (length payload) then None
      else if Typeflag h = TypeXHeader then map_option (\<lambda>pax. st\<lparr>st_pax := pax\<rparr>) (pax_of payload (st_pax st))
      else if Typeflag h = TypeGNULongName then Some (st\<lparr>st_name := parseString payload\<rparr>)
      else if Typeflag h = TypeGNULongLink then Some (st\<lparr>st_link := parseString payload\<rparr>)
      else None)"

fun extensions :: "extension list \<Rightarrow> next_state \<Rightarrow> next_state option" where
  "extensions [] st = Some st"
| "extensions (x # xs) st = Option.bind (apply_extension x st) (extensions xs)"

text \<open>The header of a member: the block with what the extensions in front say.\<close>

definition adorned :: "next_state \<Rightarrow> Header \<Rightarrow> Header option" where
  "adorned st h =
     (case mergePAX h (st_pax st) of
        (False, _) \<Rightarrow> None
      | (True, h) \<Rightarrow>
          (let h = (if st_name st \<noteq> [] then h\<lparr>Name := st_name st\<rparr> else h);
               h = (if st_link st \<noteq> [] then h\<lparr>LinkName := st_link st\<rparr> else h);
               h = (if Typeflag h = TypeRegA
                    then h\<lparr>Typeflag := if Name h \<noteq> [] \<and> last (Name h) = ch CHR ''/'' then TypeDir else TypeReg\<rparr> else h)
           in Some (if Format h AND (FormatUSTAR OR FormatPAX) \<noteq> 0 then h\<lparr>Format := FormatUSTAR\<rparr> else h)))"

definition member_header :: "member \<Rightarrow> Header option" where
  "member_header m = (case m of (xs, blk, _) \<Rightarrow>
     Option.bind (extensions xs fresh_state) (\<lambda>st. adorned st (decode_header blk (getFormat blk))))"

text \<open>
  Blocks and contents that belong together: the blocks are recognised, the extensions can be
  read, the size the header ends up with is the length of the contents, and members of a type
  that has no contents have none.
\<close>

definition member_ok :: "member \<Rightarrow> bool" where
  "member_ok m = (case m of (xs, blk, data) \<Rightarrow>
     known_block blk
     \<and> Typeflag (decode_header blk (getFormat blk)) \<notin> set [TypeXHeader, TypeXGlobalHeader, TypeGNULongName, TypeGNULongLink]
     \<and> handleRegularFile (decode_header blk (getFormat blk)) \<noteq> None
     \<and> (case member_header m of
          None \<Rightarrow> False
        | Some h \<Rightarrow> Size h = int (length data) \<and> (isHeaderOnlyType (Typeflag h) \<longrightarrow> data = [])))"

abbreviation header_of :: "member \<Rightarrow> Header" where
  "header_of m \<equiv> the (member_header m)"

definition encode_entry :: "byte list \<times> byte list \<Rightarrow> byte list" where
  "encode_entry e = fst e @ snd e @ replicate (nat (blockPadding (int (length (snd e))))) 0"

definition encode_member :: "member \<Rightarrow> byte list" where
  "encode_member m = concat (map encode_entry (fst m)) @ encode_entry (snd m)"

definition archive :: "member list \<Rightarrow> byte list" where
  "archive ms = concat (map encode_member ms) @ replicate 1024 0"

text \<open>The position of the next header block.\<close>

definition next_header_at :: "nat \<Rightarrow> Reader \<Rightarrow> bool" where
  "next_header_at p r \<longleftrightarrow> 0 \<le> position r \<and> 0 \<le> remainingSize r \<and> 0 \<le> paddingSize r
     \<and> position r + remainingSize r + paddingSize r = int p"

text \<open>The same for a reader that moves back, as long as it stays in the file.\<close>

definition seeks_to :: "nat \<Rightarrow> Reader \<Rightarrow> bool" where
  "seeks_to p r \<longleftrightarrow> 0 \<le> position r + remainingSize r \<and> position r + remainingSize r + paddingSize r = int p"

lemma next_header_seeks: "next_header_at p r \<Longrightarrow> seeks_to p r"
  by (simp add: next_header_at_def seeks_to_def)

lemma discards_to_header:
  assumes "seeks_to p r"
  shows "discard (remainingSize r) r = (True, r\<lparr>position := position r + remainingSize r\<rparr>)"
    "discard (paddingSize r) (r\<lparr>position := position r + remainingSize r\<rparr>) = (True, r\<lparr>position := int p\<rparr>)"
  using assms by (simp_all add: discard_def seeks_to_def)

lemma ReadFull_block:
  assumes "contents r = pre @ blk @ post" and "length blk = 512"
  shows "ReadFull (int blockSize) (r\<lparr>position := int (length pre)\<rparr>) = (Inr blk, r\<lparr>position := int (length pre + 512)\<rparr>)"
  using assms by (simp add: ReadFull_def blockSize_def)

lemma decode_header_PAXRecords [simp]: "PAXRecords (decode_header blk fmt) = []"
  by (simp add: decode_header_def Header_default_def Let_def split: prod.splits)

lemma mergePAX_Nil: "PAXRecords h = [] \<Longrightarrow> mergePAX h [] = (True, h)"
  by (simp add: mergePAX_def)

text \<open>An entry of its own: what \<open>Next\<close> returns and where it leaves the reader.\<close>

lemma Next_plain:
  fixes blk
  defines "h \<equiv> decode_header blk (getFormat blk)"
  assumes at: "seeks_to (length pre) r" and cts: "contents r = pre @ blk @ post"
    and ok: "length blk = 512" "\<not> isZeroBlock blk" "getFormat blk \<noteq> FormatUnknown"
      "Typeflag h \<notin> set [TypeXHeader, TypeXGlobalHeader, TypeGNULongName, TypeGNULongLink]"
    and pad: "handleRegularFile h \<noteq> None" "handleRegularFile (entry_header blk) = Some pad"
  shows "Next r = Some (Inr (entry_header blk), r\<lparr>position := int (length pre + 512), remainingSize := Size h,
    paddingSize := pad, index := index r + 1\<rparr>)"
proof -
  define h' where "h' = (if Typeflag h = TypeRegA
     then h\<lparr>Typeflag := if Name h \<noteq> [] \<and> last (Name h) = ch CHR ''/'' then TypeDir else TypeReg\<rparr> else h)"
  have eh: "entry_header blk = (if Format h' AND (FormatUSTAR OR FormatPAX) \<noteq> 0 then h'\<lparr>Format := FormatUSTAR\<rparr> else h')"
    by (simp only: entry_header_def h_def [symmetric] h'_def [symmetric] Let_def)
  then have pad': "handleRegularFile h' = Some pad" using pad(2) by (simp add: handleRegularFile_def split: if_splits)
  obtain pad0 where pad0: "handleRegularFile h = Some pad0" using pad(1) by blast
  have rd: "readHeader (r\<lparr>position := int (length pre)\<rparr>) = (Inr h, r\<lparr>position := int (length pre + 512)\<rparr>)"
    using ReadFull_block [OF cts ok(1)] ok(2,3) by (simp add: readHeader_def h_def)
  define st where "st = \<lparr>st_pax = [], st_name = [], st_link = []\<rparr>"
  have "Size h' = Size h" by (simp add: h'_def)
  moreover have "mergePAX h [] = (True, h)" by (intro mergePAX_Nil) (simp add: h_def)
  ultimately have fin: "finish_entry h st q = (Inr (entry_header blk), q\<lparr>paddingSize := pad, remainingSize := Size h, index := index q + 1\<rparr>)" for q
    using pad' by (simp add: finish_entry_def st_def h'_def [symmetric] eh [symmetric] Let_def) (simp add: eh)
  have "next_round st r = (Inl (Inr (entry_header blk)), r\<lparr>position := int (length pre + 512), remainingSize := Size h,
      paddingSize := pad, index := index r + 1\<rparr>)"
    using ok by (simp add: next_round_def discards_to_header [OF at] rd pad0 fin)
  then show ?thesis unfolding Next_def st_def [symmetric] by (subst next_loop.simps) simp
qed

text \<open>
  A round over an extension block takes in what it says and leaves the reader behind it, but
  with the contents of the entry before still to be skipped.
\<close>

lemma next_round_extension:
  assumes at: "next_header_at (length pre) r" and cts: "contents r = pre @ encode_entry x @ post"
    and ok: "apply_extension x st = Some st'"
  shows "\<exists>r'. next_round st r = (Inr st', r') \<and> next_header_at (length (pre @ encode_entry x) + nat (remainingSize r)) r'
    \<and> remainingSize r' = remainingSize r \<and> contents r' = contents r \<and> index r' = index r"
proof -
  obtain blk payload where x: "x = (blk, payload)" by (cases x)
  define h where "h = decode_header blk (getFormat blk)"
  have k: "known_block blk" "length blk = 512" "Size h = int (length payload)" "h = decode_header blk (getFormat blk)"
    "Typeflag h = TypeXHeader \<or> Typeflag h = TypeGNULongName \<or> Typeflag h = TypeGNULongLink"
    using ok by (auto simp: x apply_extension_def h_def known_block_def Let_def split: if_splits)
  have c: "contents r = pre @ blk @ payload @ replicate (nat (blockPadding (int (length payload)))) 0 @ post"
    using cts by (simp add: x encode_entry_def)
  have rd: "readHeader (r\<lparr>position := int (length pre)\<rparr>) = (Inr h, r\<lparr>position := int (length pre) + 512\<rparr>)"
    using ReadFull_block [OF c k(2)] k(1) by (simp add: readHeader_def h_def known_block_def)
  define r1 where "r1 = r\<lparr>position := int (length pre) + 512, paddingSize := blockPadding (int (length payload))\<rparr>"
  define r2 where "r2 = r1\<lparr>position := int (length pre + 512 + length payload)\<rparr>"
  have pad: "handleRegularFile h = Some (blockPadding (int (length payload)))"
    using k(3,5) by (auto simp: handleRegularFile_def isHeaderOnlyType_def TypeXHeader_def TypeGNULongName_def TypeGNULongLink_def
      TypeLink_def TypeSymlink_def TypeChar_def TypeBlock_def TypeDir_def TypeFifo_def ch_def)
  have "nat (int (length pre) + 512) = length pre + 512" by simp
  then have RF: "ReadFull (int (length payload)) r1 = (Inr payload, r2)" using c k(2) by (simp add: ReadFull_def r1_def r2_def)
  then have P: "parsePAX (int (length payload)) (st_pax st) r1 = (Inr pax, r2)" if "pax_of payload (st_pax st) = Some pax" for pax
    using that by (auto simp: parsePAX_def pax_of_def split: sum.splits prod.splits)
  have "next_round st r = (Inr st', r2)"
    using ok k(1,3) by (auto simp: next_round_def discards_to_header [OF next_header_seeks [OF at]] rd pad r1_def [symmetric] RF P
      x apply_extension_def h_def [symmetric] Let_def TypeXHeader_def TypeGNULongName_def TypeGNULongLink_def TypeXGlobalHeader_def ch_def
      split: if_splits)
  moreover have "next_header_at (length (pre @ encode_entry x) + nat (remainingSize r)) r2"
    using at k(2) blockPadding_range(1) [of "int (length payload)"]
    by (simp add: next_header_at_def r2_def r1_def x encode_entry_def)
  ultimately show ?thesis by (auto simp: r2_def r1_def)
qed

lemma next_round_member:
  assumes at: "next_header_at (length pre) r" and cts: "contents r = pre @ encode_entry (blk, data) @ post"
    and ok: "known_block blk" "Typeflag h \<notin> set [TypeXHeader, TypeXGlobalHeader, TypeGNULongName, TypeGNULongLink]"
      "handleRegularFile h \<noteq> None" and h: "h = decode_header blk (getFormat blk)"
    and h': "adorned st h = Some h'" "Size h' = int (length data)" "isHeaderOnlyType (Typeflag h') \<longrightarrow> data = []"
  shows "next_round st r = (Inl (Inr h'), r\<lparr>position := int (length pre + 512), remainingSize := int (length data),
    paddingSize := blockPadding (int (length data)), index := index r + 1\<rparr>)"
proof -
  have c: "contents r = pre @ blk @ data @ replicate (nat (blockPadding (int (length data)))) 0 @ post"
    using cts by (simp add: encode_entry_def)
  have rd: "readHeader (r\<lparr>position := int (length pre)\<rparr>) = (Inr h, r\<lparr>position := int (length pre + 512)\<rparr>)"
    using ReadFull_block [OF c] ok(1) by (simp add: readHeader_def h known_block_def)
  have pad: "handleRegularFile h' = Some (blockPadding (int (length data)))" using h'(2,3) by (auto simp: handleRegularFile_def)
  obtain g where g: "mergePAX h (st_pax st) = (True, g)" using h'(1) by (auto simp: adorned_def split: prod.splits bool.splits)
  define g1 where "g1 = (if st_name st \<noteq> [] then g\<lparr>Name := st_name st\<rparr> else g)"
  define g2 where "g2 = (if st_link st \<noteq> [] then g1\<lparr>LinkName := st_link st\<rparr> else g1)"
  define g3 where "g3 = (if Typeflag g2 = TypeRegA
     then g2\<lparr>Typeflag := if Name g2 \<noteq> [] \<and> last (Name g2) = ch CHR ''/'' then TypeDir else TypeReg\<rparr> else g2)"
  have e: "h' = (if Format g3 AND (FormatUSTAR OR FormatPAX) \<noteq> 0 then g3\<lparr>Format := FormatUSTAR\<rparr> else g3)"
    using h'(1) by (simp add: adorned_def g g1_def [symmetric] g2_def [symmetric] g3_def [symmetric] del: if_image_distrib)
  have "handleRegularFile g3 = Some (blockPadding (int (length data)))" using pad by (simp add: e handleRegularFile_def split: if_splits)
  then have "finish_entry h st q = (Inr h', q\<lparr>paddingSize := blockPadding (int (length data)), remainingSize := int (length data), index := index q + 1\<rparr>)" for q
    using h'(2) by (simp only: finish_entry_def g g1_def [symmetric] g2_def [symmetric] g3_def [symmetric] e [symmetric] Let_def prod.case bool.case option.case)
  moreover obtain pad0 where "handleRegularFile h = Some pad0" using ok(3) by blast
  ultimately show ?thesis using ok(2) by (simp add: next_round_def discards_to_header [OF next_header_seeks [OF at]] rd)
qed

lemma next_loop_member:
  assumes "next_header_at (length pre) r" and "contents r = pre @ concat (map encode_entry xs) @ encode_entry (blk, data) @ post"
    and "xs = [] \<or> remainingSize r = 0" and "extensions xs st = Some st'"
    and ok: "known_block blk" "Typeflag h \<notin> set [TypeXHeader, TypeXGlobalHeader, TypeGNULongName, TypeGNULongLink]"
      "handleRegularFile h \<noteq> None" and h: "h = decode_header blk (getFormat blk)"
    and h': "adorned st' h = Some h'" "Size h' = int (length data)" "isHeaderOnlyType (Typeflag h') \<longrightarrow> data = []"
  shows "next_loop st r = Some (Inr h', r\<lparr>position := int (length (pre @ concat (map encode_entry xs)) + 512),
    remainingSize := int (length data), paddingSize := blockPadding (int (length data)), index := index r + 1\<rparr>)"
  using assms(1-4)
proof (induction xs arbitrary: pre r st)
  case Nil
  then show ?case using next_round_member [OF Nil.prems(1) _ ok h, of data post st h'] h' by (subst next_loop.simps) simp
next
  case (Cons x xs)
  obtain st1 where st1: "apply_extension x st = Some st1" "extensions xs st1 = Some st'"
    using Cons.prems(4) by (auto simp: bind_eq_Some_conv)
  have c: "contents r = pre @ encode_entry x @ (concat (map encode_entry xs) @ encode_entry (blk, data) @ post)"
    using Cons.prems(2) by simp
  obtain r' where r': "next_round st r = (Inr st1, r')" "next_header_at (length (pre @ encode_entry x)) r'"
    "remainingSize r' = 0" "contents r' = contents r" "index r' = index r"
    using next_round_extension [OF Cons.prems(1) c st1(1)] Cons.prems(3) by auto
  have "r'\<lparr>position := p, remainingSize := q, paddingSize := u, index := index r' + 1\<rparr>
      = r\<lparr>position := p, remainingSize := q, paddingSize := u, index := index r + 1\<rparr>" for p q u
    using r'(4,5) by (cases r; cases r') simp
  then show ?case
    using Cons.IH [OF r'(2) _ _ st1(2)] c r'(1,3,4) by (subst next_loop.simps) simp
qed

text \<open>
  The next member: what \<open>Next\<close> returns and where it leaves the reader. Unless there are no
  extensions in front, the member before has to be read completely.
\<close>

lemma Next_member:
  assumes at: "next_header_at (length pre) r" and cts: "contents r = pre @ encode_member (xs, blk, data) @ post"
    and ok: "member_ok (xs, blk, data)" and whole: "xs = [] \<or> remainingSize r = 0"
  shows "Next r = Some (Inr (header_of (xs, blk, data)), r\<lparr>position := int (length (pre @ concat (map encode_entry xs)) + 512),
    remainingSize := int (length data), paddingSize := blockPadding (int (length data)), index := index r + 1\<rparr>)"
proof -
  obtain h' where h': "member_header (xs, blk, data) = Some h'" "Size h' = int (length data)" "isHeaderOnlyType (Typeflag h') \<longrightarrow> data = []"
    using ok by (auto simp: member_ok_def split: option.splits)
  then obtain st' where st': "extensions xs fresh_state = Some st'" "adorned st' (decode_header blk (getFormat blk)) = Some h'"
    by (auto simp: member_header_def bind_eq_Some_conv)
  have c: "contents r = pre @ concat (map encode_entry xs) @ encode_entry (blk, data) @ post"
    using cts by (simp add: encode_member_def)
  have k: "known_block blk" "Typeflag (decode_header blk (getFormat blk)) \<notin> set [TypeXHeader, TypeXGlobalHeader, TypeGNULongName, TypeGNULongLink]"
      "handleRegularFile (decode_header blk (getFormat blk)) \<noteq> None"
    using ok by (auto simp: member_ok_def)
  show ?thesis
    using next_loop_member [OF at c whole st'(1) k refl st'(2) h'(2,3)] h'(1) by (simp add: Next_def fresh_state_def)
qed

lemma Next_end:
  assumes at: "next_header_at (length pre) r" and cts: "contents r = pre @ replicate 1024 0"
  shows "\<exists>r'. Next r = Some (Inl ErrEnded, r')"
proof -
  define z where "z = replicate 512 (0 :: byte)"
  have z: "length z = 512" "isZeroBlock z" by (simp_all add: z_def isZeroBlock_def)
  have c1: "contents r = pre @ z @ z" using cts by (simp add: z_def replicate_add [symmetric])
  then have c2: "contents r = (pre @ z) @ z @ []" by simp
  have "readHeader (r\<lparr>position := int (length pre)\<rparr>) = (Inl ErrEnded, r\<lparr>position := int (length (pre @ z) + 512)\<rparr>)"
    using ReadFull_block [OF c1 z(1)] ReadFull_block [OF c2 z(1)] z by (simp add: readHeader_def)
  then have "next_round st r = (Inl (Inl ErrEnded), r\<lparr>position := int (length (pre @ z) + 512)\<rparr>)" for st
    by (simp add: next_round_def discards_to_header [OF next_header_seeks [OF at]])
  then show ?thesis unfolding Next_def by (subst next_loop.simps) simp
qed

lemma Read_entry:
  assumes "contents r = pre @ data @ post" and "position r = int (length pre)" and "remainingSize r = int (length data)" and "n \<le> length data"
    and "next_header_at p r"
  shows "\<exists>r'. Read n r = (take n data, r') \<and> next_header_at p r' \<and> contents r' = contents r \<and> remainingSize r' = int (length data - n)"
  using assms by (auto simp: Read_def next_header_at_def Let_def min_def)

text \<open>A client that reads some of the contents of every entry before it goes on.\<close>

fun walk :: "nat list \<Rightarrow> Reader \<Rightarrow> (Header \<times> byte list) list \<times> tar_error option" where
  "walk [] r = ([], None)"
| "walk (n # ns) r =
     (case Next r of
        None \<Rightarrow> ([], None)
      | Some (Inl e, r) \<Rightarrow> ([], Some e)
      | Some (Inr h, r) \<Rightarrow>
          (let (b, r) = Read n r; (es, e) = walk ns r in ((h, b) # es, e)))"

text \<open>Where the reader is after the header of a member.\<close>

lemma at_member:
  assumes "contents r = pre @ encode_member (xs, blk, data) @ post" and "length blk = 512"
    and r1: "r1 = r\<lparr>position := int (length (pre @ concat (map encode_entry xs)) + 512), remainingSize := int (length data),
      paddingSize := blockPadding (int (length data)), index := index r + 1\<rparr>"
  shows "contents r1 = (pre @ concat (map encode_entry xs) @ blk) @ data @ replicate (nat (blockPadding (int (length data)))) 0 @ post"
    "position r1 = int (length (pre @ concat (map encode_entry xs) @ blk))" "remainingSize r1 = int (length data)"
    "next_header_at (length (pre @ encode_member (xs, blk, data))) r1"
  using assms blockPadding_range(1) [of "int (length data)"] by (simp_all add: encode_member_def encode_entry_def next_header_at_def)

lemma walk_archive:
  assumes "list_all2 (\<lambda>n m. member_ok m \<and> n \<le> length (snd (snd m))) ns ms"
    and "\<forall>i. Suc i < length ms \<and> ns ! i < length (snd (snd (ms ! i))) \<longrightarrow> fst (ms ! Suc i) = []"
    and "next_header_at (length pre) r" and "contents r = pre @ archive ms" and "ms = [] \<or> fst (hd ms) = [] \<or> remainingSize r = 0"
  shows "walk (ns @ [0]) r = (map (\<lambda>(n, m). (header_of m, take n (snd (snd m)))) (zip ns ms), Some ErrEnded)"
  using assms
proof (induction ns ms arbitrary: pre r rule: list_all2_induct)
  case Nil
  then obtain r' where "Next r = Some (Inl ErrEnded, r')" using Next_end [of pre r] by (auto simp: archive_def)
  then show ?case by simp
next
  case (Cons n ns m ms)
  obtain xs blk data where m: "m = (xs, blk, data)" by (cases m)
  have ok: "member_ok (xs, blk, data)" "n \<le> length data" "length blk = 512"
    using Cons.hyps m by (auto simp: member_ok_def known_block_def)
  have c: "contents r = pre @ encode_member (xs, blk, data) @ archive ms" using Cons.prems(3) m by (simp add: archive_def)
  have "xs = [] \<or> remainingSize r = 0" using Cons.prems(4) m by simp
  note N = Next_member [OF Cons.prems(2) c ok(1) this]
  note at = at_member [OF c ok(3) refl]
  obtain r2 where R: "Read n (r\<lparr>position := int (length (pre @ concat (map encode_entry xs)) + 512), remainingSize := int (length data),
      paddingSize := blockPadding (int (length data)), index := index r + 1\<rparr>) = (take n data, r2)"
    "next_header_at (length (pre @ encode_member (xs, blk, data))) r2" "contents r2 = contents r" "remainingSize r2 = int (length data - n)"
    using Read_entry [OF at(1-3) ok(2) at(4)] by auto
  have "ms = [] \<or> fst (hd ms) = [] \<or> remainingSize r2 = 0"
    using Cons.prems(1) [rule_format, of 0] R(4) by (cases ms) (auto simp: m)
  moreover have "\<forall>i. Suc i < length ms \<and> ns ! i < length (snd (snd (ms ! i))) \<longrightarrow> fst (ms ! Suc i) = []"
    using Cons.prems(1) by (metis Suc_less_eq length_Cons nth_Cons_Suc)
  moreover have "contents r2 = (pre @ encode_member (xs, blk, data)) @ archive ms" using R(3) c by simp
  ultimately show ?case using Cons.IH [OF _ R(2)] N R(1) by (simp add: m)
qed

text \<open>
  C12: Reading an archive gives its members. For every archive of recognised header blocks
  with contents of the stated size, PAX headers of type \<^verbatim>\<open>x\<close> and GNU long names and links in
  front of them where the archive has them, padded to blocks and closed by two zero blocks,
  the reader returns the headers in their order, each with what its extensions say, and then
  the end of the archive, and the contents read of each member are its own. The client may
  stop reading the contents of a member anywhere and ask for the next one, unless extensions
  come next: then it has to read the contents to their end, because a round over an extension
  block skips what was left of them once more. Archives with global headers of type \<^verbatim>\<open>g\<close> are
  not covered.
\<close>

theorem tar_reads_entries:
  assumes "list_all2 (\<lambda>n m. member_ok m \<and> n \<le> length (snd (snd m))) ns ms"
    and "\<forall>i. Suc i < length ms \<and> ns ! i < length (snd (snd (ms ! i))) \<longrightarrow> fst (ms ! Suc i) = []"
  shows "walk (ns @ [0]) \<lparr>contents = archive ms, position = 0, remainingSize = 0, paddingSize = 0, index = 0\<rparr>
    = (map (\<lambda>(n, m). (header_of m, take n (snd (snd m)))) (zip ns ms), Some ErrEnded)"
  using walk_archive [OF assms, of "[]"] by (simp add: next_header_at_def)

text \<open>A regular file \<open>a\<close> with three bytes, in a block of the ustar format, and a block of type \<^verbatim>\<open>L\<close> that names it \<open>long\<close>.\<close>

definition example_block :: "byte list" where
  "example_block = lit ''a'' @ replicate 123 0 @ octal_field 3 @ replicate 12 0 @ lit ''003063'' @ [0] @ lit '' '' @ lit ''0''
     @ replicate 100 0 @ magicUSTAR @ lit ''00'' @ replicate 247 0"

definition example_long_name :: extension where
  "example_long_name = (lit ''@'' @ replicate 123 0 @ octal_field 5 @ replicate 12 0 @ lit ''003020'' @ [0] @ lit '' '' @ lit ''L''
     @ replicate 100 0 @ magicGNU @ versionGNU @ replicate 247 0, lit ''long'' @ [0])"

text \<open>The header of a member when no PAX record speaks about it.\<close>

lemma adorned_no_pax:
  assumes "PAXRecords h = []" and "st_pax st = []" and "Typeflag h \<noteq> TypeRegA"
  shows "\<exists>h'. adorned st h = Some h' \<and> Size h' = Size h \<and> Typeflag h' = Typeflag h
    \<and> Name h' = (if st_name st \<noteq> [] then st_name st else Name h)"
  using assms by (auto simp: adorned_def mergePAX_Nil Let_def)

lemma member_header_plain: "member_header ([], blk, data) = Some (entry_header blk)"
  by (simp add: member_header_def adorned_def mergePAX_Nil fresh_state_def entry_header_def Let_def)

lemma example_block_known: "known_block example_block" "Typeflag (decode_header example_block (getFormat example_block)) = TypeReg"
    "Size (decode_header example_block (getFormat example_block)) = 3" "Name (decode_header example_block (getFormat example_block)) = lit ''a''"
  by code_simp+

lemma example_long_name_applies: "apply_extension example_long_name fresh_state = Some (fresh_state\<lparr>st_name := lit ''long''\<rparr>)"
proof -
  have "known_block (fst example_long_name)"
    "Typeflag (decode_header (fst example_long_name) (getFormat (fst example_long_name))) = TypeGNULongName"
    "Size (decode_header (fst example_long_name) (getFormat (fst example_long_name))) = 5"
    "parseString (snd example_long_name) = lit ''long''" "length (snd example_long_name) = 5"
    by code_simp+
  then show ?thesis by (simp add: apply_extension_def split_beta Let_def TypeGNULongName_def TypeXHeader_def ch_def)
qed

lemma example_member:
  fixes xs st
  assumes "extensions xs fresh_state = Some st" and "st_pax st = []"
  shows "member_ok (xs, example_block, [1, 2, 3])" "Typeflag (header_of (xs, example_block, [1, 2, 3])) = TypeReg"
    "Name (header_of (xs, example_block, [1, 2, 3])) = (if st_name st \<noteq> [] then st_name st else lit ''a'')"
  using adorned_no_pax [of "decode_header example_block (getFormat example_block)" st] assms example_block_known
  by (auto simp: member_ok_def member_header_def handleRegularFile_def isHeaderOnlyType_def TypeReg_def TypeRegA_def TypeLink_def TypeSymlink_def
    TypeChar_def TypeBlock_def TypeDir_def TypeFifo_def TypeXHeader_def TypeXGlobalHeader_def TypeGNULongName_def TypeGNULongLink_def ch_def)

lemma fresh_state_simps [simp]: "st_pax fresh_state = []" "st_name fresh_state = []" "st_link fresh_state = []"
  by (simp_all add: fresh_state_def)

lemma example_extensions: "extensions [example_long_name] fresh_state = Some (fresh_state\<lparr>st_name := lit ''long''\<rparr>)"
  by (simp add: example_long_name_applies)

lemma lit_long: "lit ''long'' \<noteq> []"
  by code_simp

lemmas example_plain_member = example_member [OF extensions.simps(1)]
lemmas example_long_member = example_member [OF example_extensions]

theorem tar_reads_entries_witness:
  "\<exists>h1 h2 h3. walk [2, 3, 3, 0] \<lparr>contents = archive [([], example_block, [1, 2, 3]), ([], example_block, [1, 2, 3]),
        ([example_long_name], example_block, [1, 2, 3])], position = 0, remainingSize = 0, paddingSize = 0, index = 0\<rparr>
      = ([(h1, [1, 2]), (h2, [1, 2, 3]), (h3, [1, 2, 3])], Some ErrEnded)
    \<and> Name h1 = lit ''a'' \<and> Name h3 = lit ''long''"
proof -
  let ?m = "([], example_block, [1, 2, 3]) :: member" and ?x = "([example_long_name], example_block, [1, 2, 3]) :: member"
  have "list_all2 (\<lambda>n m. member_ok m \<and> n \<le> length (snd (snd m))) [2, 3, 3] [?m, ?m, ?x]"
    using example_plain_member(1) example_long_member(1) by simp
  moreover have "\<forall>i. Suc i < length [?m, ?m, ?x] \<and> [2, 3, 3] ! i < length (snd (snd ([?m, ?m, ?x] ! i))) \<longrightarrow> fst ([?m, ?m, ?x] ! Suc i) = []"
    by (auto simp: less_Suc_eq)
  ultimately have "walk ([2, 3, 3] @ [0]) \<lparr>contents = archive [?m, ?m, ?x], position = 0, remainingSize = 0, paddingSize = 0, index = 0\<rparr>
      = (map (\<lambda>(n, m). (header_of m, take n (snd (snd m)))) (zip [2, 3, 3] [?m, ?m, ?x]), Some ErrEnded)"
    by (rule tar_reads_entries)
  moreover have "Name (header_of ?m) = lit ''a''" "Name (header_of ?x) = lit ''long''"
    using example_plain_member(3) example_long_member(3) lit_long by simp_all
  ultimately show ?thesis by auto
qed

text \<open>
  What happens otherwise: an extension block behind contents that were not read to their end
  is read, but the next header is then looked for that much too far behind it.
\<close>

lemma Next_skips_twice:
  assumes "next_header_at (length pre) r" and "contents r = pre @ encode_entry x @ post"
    and "apply_extension x fresh_state = Some st" and "0 < remainingSize r"
  shows "\<exists>r'. Next r = next_loop st r' \<and> contents r' = contents r \<and> next_header_at (length (pre @ encode_entry x) + nat (remainingSize r)) r'"
  using next_round_extension [OF assms(1-3)] by (auto simp: Next_def fresh_state_def next_loop.simps [of _ r])

theorem getFormat_detects_corruption_witness:
  "getFormat (example_block[0 := 98]) = FormatUnknown"
proof -
  have l: "length example_block = 512" "getFormat example_block \<noteq> FormatUnknown" using example_block_known(1) by (simp_all add: known_block_def)
  have "(98 :: byte) \<noteq> example_block ! 0" by (simp add: example_block_def ch_def)
  from getFormat_detects_corruption [OF l _ _ this] show ?thesis by simp
qed

section \<open>Writing the contents out\<close>

text \<open>What is left of the file behind the position of the reader.\<close>

definition available :: "Reader \<Rightarrow> int" where
  "available r = int (length (drop (nat (position r)) (contents r)))"

text \<open>The writer that keeps everything and never fails.\<close>

definition append_all :: "byte list \<Rightarrow> byte list \<Rightarrow> bool \<times> byte list" where
  "append_all s b = (True, s @ b)"

text \<open>
  With enough in the file, a writer that accepts every piece gets the bytes in their order:
  any relation between its state and the bytes so far that every piece keeps is kept.
\<close>

lemma FileReader_WriteTo_keeps:
  assumes step: "\<And>s c b. R s c \<Longrightarrow> length b \<le> 8192 \<Longrightarrow> fst (w s b) \<and> R (snd (w s b)) (c @ b)"
    and "0 \<le> position r" and "filesize \<le> available r" and "R s c"
  shows "\<exists>s'. FileReader_WriteTo w filesize extracted s r =
      Some (True, extracted + max 0 filesize, s', r\<lparr>position := position r + max 0 filesize\<rparr>)
    \<and> R s' (c @ take (nat filesize) (drop (nat (position r)) (contents r)))"
  using assms(2-)
proof (induction "nat filesize" arbitrary: filesize extracted s c r rule: less_induct)
  case less
  show ?case
  proof (cases "filesize \<le> 0")
    case True
    then show ?thesis using less.prems(3) by (subst FileReader_WriteTo.simps) simp
  next
    case False
    define n where "n = min 8192 filesize"
    define b where "b = take (nat n) (drop (nat (position r)) (contents r))"
    define r1 where "r1 = r\<lparr>position := position r + n\<rparr>"
    have n: "0 < n" "n \<le> filesize" "int (length b) = n" "length b \<le> 8192"
      using False less.prems by (auto simp: n_def b_def available_def)
    have r1: "0 \<le> position r1" "filesize - n \<le> available r1" "contents r1 = contents r"
      using n less.prems by (auto simp: r1_def available_def)
    have split: "b @ take (nat (filesize - n)) (drop (nat (position r1)) (contents r))
        = take (nat filesize) (drop (nat (position r)) (contents r))"
    proof -
      have "nat filesize = nat n + nat (filesize - n)" "nat (position r1) = nat n + nat (position r)"
        using n less.prems(1) by (simp_all add: r1_def nat_add_distrib [symmetric])
      then show ?thesis by (simp add: b_def take_add drop_drop del: nat_add_distrib)
    qed
    note w = step [OF less.prems(3) n(4)]
    have "FileReader_WriteTo w filesize extracted s r
        = FileReader_WriteTo w (filesize - n) (extracted + n) (snd (w s b)) r1"
      using False n(3) w by (subst FileReader_WriteTo.simps) (simp add: Let_def n_def [symmetric] b_def [symmetric] r1_def)
    moreover obtain s' where "FileReader_WriteTo w (filesize - n) (extracted + n) (snd (w s b)) r1
        = Some (True, extracted + n + max 0 (filesize - n), s', r1\<lparr>position := position r1 + max 0 (filesize - n)\<rparr>)"
      "R s' ((c @ b) @ take (nat (filesize - n)) (drop (nat (position r1)) (contents r1)))"
      using less.hyps [OF _ r1(1,2), of "snd (w s b)" "c @ b" "extracted + n"] n w by auto
    ultimately show ?thesis using n split r1(3) by (auto simp: r1_def)
  qed
qed

lemma FileReader_WriteTo_enough:
  assumes "0 \<le> position r" and "filesize \<le> available r"
  shows "FileReader_WriteTo append_all filesize extracted s r =
    Some (True, extracted + max 0 filesize, s @ take (nat filesize) (drop (nat (position r)) (contents r)),
      r\<lparr>position := position r + max 0 filesize\<rparr>)"
  using FileReader_WriteTo_keeps [of "(=)" append_all r filesize s s extracted] assms by (auto simp: append_all_def)

lemma available_moved:
  assumes "0 \<le> position r" and "filesize - int m \<le> available (r\<lparr>position := position r + int m\<rparr>)"
    and "int m \<le> available r"
  shows "filesize \<le> available r"
proof -
  have "nat (position r + int m) = nat (position r) + m" using assms(1) by (simp add: nat_add_distrib)
  then show ?thesis using assms(2,3) by (simp add: available_def split: nat_diff_split)
qed

lemma FileReader_WriteTo_returns:
  assumes "FileReader_WriteTo w filesize extracted s r = Some y" and "0 \<le> position r"
    and "\<And>s b. fst (w s b)"
  shows "filesize \<le> available r"
proof -
  have "0 \<le> position r \<longrightarrow> (\<forall>s b. fst (w s b)) \<longrightarrow> filesize \<le> available r"
    using assms(1)
  proof (rule FileReader_WriteTo.raw_induct [rotated])
    fix W w filesize extracted s r y
    assume IH: "\<And>w filesize extracted s r y. W w filesize extracted s r = Some y \<Longrightarrow>
        0 \<le> position r \<longrightarrow> (\<forall>s b. fst (w s b)) \<longrightarrow> filesize \<le> available r"
      and step: "(if filesize \<le> 0 then Some (True, extracted, s, r)
      else
        (let b = take (nat (min 8192 filesize)) (drop (nat (position r)) (contents r));
             r = r\<lparr>position := position r + int (length b)\<rparr>
         in if \<not> fst (w s b) then Some (False, extracted + int (length b), snd (w s b), r)
            else W w (filesize - int (length b)) (extracted + int (length b)) (snd (w s b)) r)) = Some y"
    show "0 \<le> position r \<longrightarrow> (\<forall>s b. fst (w s b)) \<longrightarrow> filesize \<le> available r"
    proof (cases "filesize \<le> 0 \<or> \<not> 0 \<le> position r \<or> \<not> (\<forall>s b. fst (w s b))")
      case True
      then show ?thesis by (auto simp: available_def)
    next
      case False
      define b where "b = take (nat (min 8192 filesize)) (drop (nat (position r)) (contents r))"
      have "filesize - int (length b) \<le> available (r\<lparr>position := position r + int (length b)\<rparr>)"
        using step False by (auto simp: Let_def b_def [symmetric] dest!: IH)
      moreover have "int (length b) \<le> available r" by (simp add: b_def available_def)
      ultimately show ?thesis using False available_moved by blast
    qed
  qed
  then show ?thesis using assms by blast
qed

text \<open>
  Writing an entry out copies it, if the file has all of it. With a writer that never
  fails, \<open>WriteTo\<close> hands over exactly the next \<open>filesize\<close> bytes in their order, moves the
  reader behind them and counts them off what is left of the entry; if the file ends before
  that, the loop never returns, as reading at the end of a file succeeds with no bytes.
\<close>

theorem WriteTo_copies:
  assumes "0 \<le> position r"
  shows "WriteTo append_all filesize s r =
    (if filesize \<le> available r
     then Some (True, s @ take (nat filesize) (drop (nat (position r)) (contents r)),
       r\<lparr>position := position r + max 0 filesize,
         remainingSize := if remainingSize r > 0 then remainingSize r - max 0 filesize else remainingSize r\<rparr>)
     else None)"
proof (cases "filesize \<le> available r")
  case True
  then show ?thesis using FileReader_WriteTo_enough [OF assms True] by (simp add: WriteTo_def)
next
  case False
  then have "FileReader_WriteTo append_all filesize 0 s r = None"
    using FileReader_WriteTo_returns [OF _ assms, of append_all filesize 0 s]
    by (metis append_all_def fst_conv not_None_eq)
  then show ?thesis using False by (simp add: WriteTo_def)
qed

theorem WriteTo_copies_witness:
  "WriteTo append_all 2 [] \<lparr>contents = [1, 2, 3], position = 0, remainingSize = 3, paddingSize = 0, index = 1\<rparr>
    = Some (True, [1, 2], \<lparr>contents = [1, 2, 3], position = 2, remainingSize = 1, paddingSize = 0, index = 1\<rparr>)
   \<and> WriteTo append_all 4 [] \<lparr>contents = [1, 2, 3], position = 0, remainingSize = 4, paddingSize = 0, index = 1\<rparr> = None"
  by (simp add: WriteTo_copies available_def)

section \<open>The kind of an entry\<close>

definition IsDir :: "Header \<Rightarrow> bool" where
  "IsDir h \<longleftrightarrow> Typeflag h = TypeDir"

definition IsRegular :: "Header \<Rightarrow> bool" where
  "IsRegular h \<longleftrightarrow> Typeflag h = TypeReg \<or> Typeflag h = TypeRegA"

definition IsSymlink :: "Header \<Rightarrow> bool" where
  "IsSymlink h \<longleftrightarrow> Typeflag h = TypeSymlink"

definition FileMode :: "Header \<Rightarrow> u32" where
  "FileMode h =
     (let M = word_of_int (Mode h) :: u32;
          mode = M AND ModePerm;
          mode = (if M AND 0x800 \<noteq> 0 then mode OR ModeSetuid else mode);
          mode = (if M AND 0x400 \<noteq> 0 then mode OR ModeSetgid else mode);
          mode = (if M AND 0x200 \<noteq> 0 then mode OR ModeSticky else mode);
          m = M AND NOT 0xfff;
          mode = (if m = 0x4000 then mode OR ModeDir
                  else if m = 0x1000 then mode OR ModeNamedPipe
                  else if m = 0xa000 then mode OR ModeSymlink
                  else if m = 0x6000 then mode OR ModeDevice
                  else if m = 0x2000 then mode OR ModeDevice OR ModeCharDevice
                  else if m = 0xc000 then mode OR ModeSocket
                  else mode)
      in if Typeflag h = TypeSymlink then mode OR ModeSymlink
         else if Typeflag h = TypeChar then mode OR ModeDevice OR ModeCharDevice
         else if Typeflag h = TypeBlock then mode OR ModeDevice
         else if Typeflag h = TypeDir then mode OR ModeDir
         else if Typeflag h = TypeFifo then mode OR ModeNamedPipe
         else mode)"

text \<open>The two switches, each for any mode it starts from.\<close>

lemma type_switch:
  fixes x :: u32 and t :: byte
  defines "y \<equiv> (if t = TypeSymlink then x OR ModeSymlink else if t = TypeChar then x OR ModeDevice OR ModeCharDevice
     else if t = TypeBlock then x OR ModeDevice else if t = TypeDir then x OR ModeDir
     else if t = TypeFifo then x OR ModeNamedPipe else x)"
  shows "y AND ModeSymlink \<noteq> 0 \<longleftrightarrow> t = TypeSymlink \<or> x AND ModeSymlink \<noteq> 0"
    "y AND ModeDir \<noteq> 0 \<longleftrightarrow> t = TypeDir \<or> x AND ModeDir \<noteq> 0" "y AND ModePerm = x AND ModePerm"
  unfolding y_def
  by (auto simp: mode_defs bit.conj_disj_distrib2 TypeSymlink_def TypeChar_def TypeBlock_def TypeDir_def TypeFifo_def ch_def)

lemma mode_switch:
  fixes x m :: u32
  defines "y \<equiv> (if m = 0x4000 then x OR ModeDir else if m = 0x1000 then x OR ModeNamedPipe
     else if m = 0xa000 then x OR ModeSymlink else if m = 0x6000 then x OR ModeDevice
     else if m = 0x2000 then x OR ModeDevice OR ModeCharDevice else if m = 0xc000 then x OR ModeSocket else x)"
  shows "y AND ModeSymlink \<noteq> 0 \<longleftrightarrow> m = 0xa000 \<or> x AND ModeSymlink \<noteq> 0"
    "y AND ModeDir \<noteq> 0 \<longleftrightarrow> m = 0x4000 \<or> x AND ModeDir \<noteq> 0" "y AND ModePerm = x AND ModePerm"
  unfolding y_def by (auto simp: mode_defs bit.conj_disj_distrib2)

lemma FileMode_kind:
  "FileMode h AND ModeSymlink \<noteq> 0 \<longleftrightarrow> IsSymlink h \<or> (word_of_int (Mode h) :: u32) AND NOT 0xfff = 0xa000"
  "FileMode h AND ModeDir \<noteq> 0 \<longleftrightarrow> IsDir h \<or> (word_of_int (Mode h) :: u32) AND NOT 0xfff = 0x4000"
  "FileMode h AND ModePerm = word_of_int (Mode h) AND ModePerm"
  unfolding FileMode_def Let_def IsSymlink_def IsDir_def type_switch mode_switch
  by (simp_all add: or_if_mask mode_defs and.assoc)

section \<open>Entries that mislead the reader\<close>

text \<open>
  For a directory or a link the contents are skipped by the size in the header although
  there are none, and a negative size moves the reader back: an entry of size minus one
  block is returned again and again.
\<close>

lemma entry_header_TypeDir:
  "Typeflag (decode_header blk (getFormat blk)) = TypeDir \<Longrightarrow> Typeflag (entry_header blk) = TypeDir"
  by (simp add: entry_header_def Let_def TypeDir_def TypeRegA_def ch_def)

lemma Next_header_only_size:
  assumes "seeks_to (length pre) r" and "contents r = pre @ blk @ post" and "length blk = 512" and "\<not> isZeroBlock blk"
    and "getFormat blk \<noteq> FormatUnknown" and dir: "Typeflag (decode_header blk (getFormat blk)) = TypeDir"
  shows "Next r = Some (Inr (entry_header blk), r\<lparr>position := int (length pre + 512),
    remainingSize := Size (decode_header blk (getFormat blk)), paddingSize := 0, index := index r + 1\<rparr>)"
proof -
  have "handleRegularFile (decode_header blk (getFormat blk)) \<noteq> None" "handleRegularFile (entry_header blk) = Some 0"
    using dir entry_header_TypeDir [OF dir] by (simp_all add: handleRegularFile_def isHeaderOnlyType_def blockPadding_mod)
  from Next_plain [OF assms(1-5) _ this] dir show ?thesis
    by (simp add: TypeDir_def TypeXHeader_def TypeXGlobalHeader_def TypeGNULongName_def TypeGNULongLink_def ch_def)
qed

lemma Next_repeats:
  assumes "contents r = pre @ blk @ post" and "length blk = 512" and "\<not> isZeroBlock blk"
    and "getFormat blk \<noteq> FormatUnknown" and "Typeflag (decode_header blk (getFormat blk)) = TypeDir"
    and "Size (decode_header blk (getFormat blk)) = - 512"
    and "position r = int (length pre + 512)" "remainingSize r = - 512" "paddingSize r = 0"
  shows "Next r = Some (Inr (entry_header blk), r\<lparr>index := index r + 1\<rparr>)"
proof -
  have "seeks_to (length pre) r" using assms by (simp add: seeks_to_def)
  note Next_header_only_size [OF this assms(1-5)]
  also have "r\<lparr>position := int (length pre + 512), remainingSize := Size (decode_header blk (getFormat blk)), paddingSize := 0,
      index := index r + 1\<rparr> = r\<lparr>index := index r + 1\<rparr>"
    using assms(6-9) by (cases r) simp
  finally show ?thesis .
qed

text \<open>The fraction of a PAX time is read from the seconds, and a malformed user is taken for zero.\<close>

lemma parsePAXTime_fraction: "parsePAXTime (lit ''5.25'') = Some (FromUnix 5 5)"
  by code_simp

lemma mergePAX_malformed_uid: "fst (mergePAX Header_default [(lit ''uid'', lit ''x'')])" "\<not> fst (mergePAX Header_default [(lit ''gid'', lit ''x'')])"
  by code_simp+

end
