(* ===== verification/Baulk_Disk.thy ===== *)
theory Baulk_Disk
  imports Bela_Path Bela_Time
begin

text \<open>
  What extracting an archive does to the disk: \<^verbatim>\<open>lib/archive/archive.cc\<close> (the class \<open>File\<close>,
  \<open>NewSymlink\<close>, \<open>Chtimes\<close>), \<open>MakeDirectories\<close> of \<^verbatim>\<open>include/baulk/archive.hpp\<close> and the
  \<open>create_symlink\<close> of both extractors. The operating system is a parameter: it answers every
  call from the calls before, so that each of them may fail. The state is the trace of the
  calls with their outcomes; what a file holds afterwards is read off the trace.
\<close>

section \<open>The operating system\<close>

datatype effect =
    CreateDirectories wstr
  | CreateFileAlways wstr
  | OpenExisting wstr
  | SetFileTime wstr Time
  | WriteBytes wstr "byte list"
  | DisposeFile wstr bool
  | RemoveAll wstr
  | CreateSymlink wstr wstr

type_synonym trace = "(effect \<times> bool) list"

text \<open>
  \<open>os_written\<close> is the number of bytes a successful \<open>WriteFile\<close> reports for a request of a
  length; \<open>os_absolute\<close> and \<open>os_relative\<close> are \<open>fs::absolute\<close> and \<open>fs::relative\<close>.
\<close>

record os =
  os_exists :: "trace \<Rightarrow> wstr \<Rightarrow> bool"
  os_ok :: "trace \<Rightarrow> effect \<Rightarrow> bool"
  os_written :: "trace \<Rightarrow> nat \<Rightarrow> nat"
  os_absolute :: "wstr \<Rightarrow> wstr option"
  os_relative :: "trace \<Rightarrow> wstr \<Rightarrow> wstr \<Rightarrow> wstr option"

definition sys :: "os \<Rightarrow> effect \<Rightarrow> trace \<Rightarrow> bool \<times> trace" where
  "sys os e t = (os_ok os t e, t @ [(e, os_ok os t e)])"

text \<open>
  The error codes of the extractors; \<open>ErrReader\<close> carries the errors of the reader of the
  archive, and \<open>ErrOS\<close> stands for the codes of the system.
\<close>

datatype 'e err = ErrGeneral | ErrCanceled | ErrAnotherWay | ErrOS | ErrReader 'e

section \<open>Files\<close>

definition chtimes :: "os \<Rightarrow> wstr \<Rightarrow> Time \<Rightarrow> trace \<Rightarrow> 'e err option \<times> trace" where
  "chtimes os path tm t = (case sys os (SetFileTime path tm) t of (ok, t) \<Rightarrow> (if ok then None else Some ErrOS, t))"

text \<open>Deleting the open file, with the newer interface first.\<close>

definition discard_fd :: "os \<Rightarrow> wstr \<Rightarrow> trace \<Rightarrow> bool \<times> trace" where
  "discard_fd os path t =
     (case sys os (DisposeFile path True) t of
        (True, t) \<Rightarrow> (True, t)
      | (False, t) \<Rightarrow> sys os (DisposeFile path False) t)"

text \<open>
  The loop of \<open>WriteFull\<close>, entered at least once. The count of bytes is 32 bits wide. A
  successful \<open>WriteFile\<close> writes at least one byte of a request that has any.
\<close>

definition written :: "os \<Rightarrow> trace \<Rightarrow> byte list \<Rightarrow> nat" where
  "written os t data = min (length data) (max 1 (os_written os t (length data)))"

function WriteFull_loop :: "os \<Rightarrow> wstr \<Rightarrow> byte list \<Rightarrow> trace \<Rightarrow> 'e err option \<times> trace" where
  "WriteFull_loop os path data t =
     (let n = written os t data in
      case sys os (WriteBytes path (take n data)) t of
        (False, t) \<Rightarrow> (Some ErrOS, t)
      | (True, t) \<Rightarrow> if n < length data then WriteFull_loop os path (drop n data) t else (None, t))"
  by pat_completeness auto
termination
  by (relation "measure (\<lambda>(os, path, data, t). length data)") (auto simp: written_def)

declare WriteFull_loop.simps [simp del]

definition WriteFull :: "os \<Rightarrow> wstr \<Rightarrow> byte list \<Rightarrow> trace \<Rightarrow> 'e err option \<times> trace" where
  "WriteFull os path data t = WriteFull_loop os path (take (length data mod 2 ^ 32) data) t"

definition NewFile :: "os \<Rightarrow> wstr \<Rightarrow> Time \<Rightarrow> bool \<Rightarrow> trace \<Rightarrow> 'e err option \<times> trace" where
  "NewFile os path modified overwrite_mode t =
     (let (ec, t) = (if os_exists os t path then (if overwrite_mode then None else Some ErrGeneral, t)
                     else case sys os (CreateDirectories (path_parent path)) t of
                            (ok, t) \<Rightarrow> (if ok then None else Some ErrOS, t))
      in if ec \<noteq> None then (ec, t)
         else case sys os (CreateFileAlways path) t of
           (False, t) \<Rightarrow> (Some ErrOS, t)
         | (True, t) \<Rightarrow>
             (case chtimes os path modified t of
                (None, t) \<Rightarrow> (None, t)
              | (Some e, t) \<Rightarrow> (Some e, snd (discard_fd os path t))))"

section \<open>Directories and links\<close>

definition Chtimes :: "os \<Rightarrow> wstr \<Rightarrow> Time \<Rightarrow> trace \<Rightarrow> 'e err option \<times> trace" where
  "Chtimes os path tm t =
     (case sys os (OpenExisting path) t of (False, t) \<Rightarrow> (Some ErrOS, t) | (True, t) \<Rightarrow> chtimes os path tm t)"

definition MakeDirectories :: "os \<Rightarrow> wstr \<Rightarrow> Time \<Rightarrow> trace \<Rightarrow> 'e err option \<times> trace" where
  "MakeDirectories os path modified t =
     (case sys os (CreateDirectories path) t of (False, t) \<Rightarrow> (Some ErrOS, t) | (True, t) \<Rightarrow> Chtimes os path modified t)"

text \<open>What removing an old file answers is not looked at.\<close>

definition NewSymlink :: "os \<Rightarrow> wstr \<Rightarrow> wstr \<Rightarrow> bool \<Rightarrow> trace \<Rightarrow> 'e err option \<times> trace" where
  "NewSymlink os path source overwrite_mode t =
     (let (ec, t) = (if os_exists os t path
                     then if overwrite_mode then (None, snd (sys os (RemoveAll path) t)) else (Some ErrGeneral, t)
                     else case sys os (CreateDirectories (path_parent path)) t of
                            (ok, t) \<Rightarrow> (if ok then None else Some ErrOS, t))
      in if ec \<noteq> None then (ec, t)
         else case sys os (CreateSymlink source path) t of (ok, t) \<Rightarrow> (if ok then None else Some ErrOS, t))"

definition StrContains :: "wstr \<Rightarrow> wstr \<Rightarrow> bool" where
  "StrContains haystack needle = list_ex (\<lambda>k. take (length needle) (drop k haystack) = needle) [0..<Suc (length haystack)]"

definition create_symlink ::
    "os \<Rightarrow> (byte list \<Rightarrow> wstr) \<Rightarrow> wstr \<Rightarrow> bool \<Rightarrow> wstr \<Rightarrow> byte list \<Rightarrow> bool \<Rightarrow> trace \<Rightarrow> 'e err option \<times> trace" where
  "create_symlink os codepage destination overwrite_mode new_symlink linkname always_utf8 t =
     (let nativeLinkName = encode_into_native codepage linkname always_utf8 in
      case os_absolute os (path_append (path_parent new_symlink) nativeLinkName) of
        None \<Rightarrow> (Some ErrOS, t)
      | Some linkPath \<Rightarrow>
          (case os_relative os t linkPath destination of
             None \<Rightarrow> (Some ErrOS, t)
           | Some relativePath \<Rightarrow>
               if StrContains relativePath (lit ''..'' @ [backslash]) then (Some ErrGeneral, t)
               else NewSymlink os new_symlink nativeLinkName overwrite_mode t))"

record ExtractorOptions =
  ignore_error :: bool
  overwrite_mode :: bool

text \<open>The callbacks of the caller may be absent; the answer of \<open>OnProgress\<close> may depend on what happened before.\<close>

type_synonym OnProgress = "(trace \<Rightarrow> nat \<Rightarrow> bool) option"

definition refuses :: "OnProgress \<Rightarrow> trace \<Rightarrow> nat \<Rightarrow> bool" where
  "refuses progress t len \<longleftrightarrow> (case progress of None \<Rightarrow> False | Some f \<Rightarrow> \<not> f t len)"

section \<open>What an operation touches\<close>

fun target :: "effect \<Rightarrow> wstr" where
  "target (CreateDirectories p) = p"
| "target (CreateFileAlways p) = p"
| "target (OpenExisting p) = p"
| "target (SetFileTime p _) = p"
| "target (WriteBytes p _) = p"
| "target (DisposeFile p _) = p"
| "target (RemoveAll p) = p"
| "target (CreateSymlink _ p) = p"

text \<open>An operation adds to the trace, and what it adds is of a kind.\<close>

definition grows :: "(effect \<Rightarrow> bool) \<Rightarrow> trace \<Rightarrow> trace \<Rightarrow> bool" where
  "grows P t t' \<longleftrightarrow> (\<exists>fx. t' = t @ fx \<and> (\<forall>x\<in>set fx. P (fst x)))"

named_theorems grows

lemma grows_refl [grows]: "grows P t t"
  by (simp add: grows_def)

lemma grows_trans: "grows P t t' \<Longrightarrow> grows P t' t'' \<Longrightarrow> grows P t t''"
  by (auto simp: grows_def)

lemma grows_weaken: "grows Q t t' \<Longrightarrow> (\<And>e. Q e \<Longrightarrow> P e) \<Longrightarrow> grows P t t'"
  by (auto simp: grows_def)

lemma grows_sys: "sys os e t = (ok, t') \<Longrightarrow> P e \<Longrightarrow> grows P t t'"
  by (auto simp: sys_def grows_def)

lemma grows_sys_snd: "P e \<Longrightarrow> grows P t (snd (sys os e t))"
  by (auto simp: sys_def grows_def)

lemma chtimes_grows:
  assumes "\<And>e. target e = path \<Longrightarrow> e \<noteq> RemoveAll path \<Longrightarrow> P e"
  shows "grows P t (snd (chtimes os path tm t))"
  using grows_sys [of os "SetFileTime path tm" t _ _ P] assms by (auto simp: chtimes_def split: prod.splits)

lemma discard_fd_grows:
  assumes "\<And>e. target e = path \<Longrightarrow> e \<noteq> RemoveAll path \<Longrightarrow> P e"
  shows "grows P t (snd (discard_fd os path t))"
proof -
  obtain ok t1 where s: "sys os (DisposeFile path True) t = (ok, t1)" by fastforce
  have "grows P t t1" using s by (rule grows_sys) (simp add: assms)
  moreover have "grows P t1 (snd (sys os (DisposeFile path False) t1))" by (rule grows_sys_snd) (simp add: assms)
  ultimately show ?thesis using s by (auto simp: discard_fd_def split: bool.splits intro: grows_trans)
qed

lemma WriteFull_loop_grows:
  assumes "\<And>e. target e = path \<Longrightarrow> e \<noteq> RemoveAll path \<Longrightarrow> P e"
  shows "grows P t (snd (WriteFull_loop os path data t :: 'e err option \<times> trace))"
  using assms
proof (induction os path data t rule: WriteFull_loop.induct)
  case (1 os path data t)
  define n where "n = written os t data"
  obtain ok t1 where s: "sys os (WriteBytes path (take n data)) t = (ok, t1)" by fastforce
  have g: "grows P t t1" using s by (rule grows_sys) (simp add: "1.prems")
  show ?case
  proof (cases "ok \<and> n < length data")
    case True
    then have "grows P t1 (snd (WriteFull_loop os path (drop n data) t1 :: 'e err option \<times> trace))"
      using "1.IH" [OF n_def s [symmetric]] "1.prems" by blast
    then show ?thesis using True s g by (subst WriteFull_loop.simps) (auto simp: n_def [symmetric] Let_def intro: grows_trans)
  next
    case False
    then show ?thesis using s g by (subst WriteFull_loop.simps) (auto simp: n_def [symmetric] Let_def split: bool.splits)
  qed
qed

lemma WriteFull_grows:
  assumes "\<And>e. target e = path \<Longrightarrow> e \<noteq> RemoveAll path \<Longrightarrow> P e"
  shows "grows P t (snd (WriteFull os path data t))"
  using WriteFull_loop_grows [of path P] assms by (simp add: WriteFull_def)

lemma NewFile_grows:
  assumes "\<And>e. target e = path \<Longrightarrow> e \<noteq> RemoveAll path \<Longrightarrow> P e" and "P (CreateDirectories (path_parent path))"
  shows "grows P t (snd (NewFile os path tm overwrite t))"
proof -
  obtain ec1 t1 where 1: "(if os_exists os t path then (if overwrite then None else Some (ErrGeneral :: 'a err), t)
       else case sys os (CreateDirectories (path_parent path)) t of (ok, t) \<Rightarrow> (if ok then None else Some ErrOS, t)) = (ec1, t1)"
    by fastforce
  have g1: "grows P t t1" using 1 assms(2) by (auto split: if_splits prod.splits intro: grows_refl grows_sys)
  obtain ok t2 where 2: "sys os (CreateFileAlways path) t1 = (ok, t2)" by fastforce
  have g2: "grows P t1 t2" using 2 by (rule grows_sys) (simp add: assms(1))
  obtain ec3 t3 where 3: "chtimes os path tm t2 = (ec3 :: 'a err option, t3)" by fastforce
  have g3: "grows P t2 t3" using chtimes_grows [of path P t2 os tm] assms(1) 3 by (metis snd_conv)
  note g = g1 grows_trans [OF g1 g2] grows_trans [OF grows_trans [OF g1 g2] g3]
    grows_trans [OF grows_trans [OF grows_trans [OF g1 g2] g3] discard_fd_grows [of path P t3 os]]
  show ?thesis using g assms(1) 2 3 unfolding NewFile_def 1
    by (auto simp: Let_def split: bool.splits option.splits)
qed

lemma MakeDirectories_grows:
  assumes "\<And>e. target e = path \<Longrightarrow> e \<noteq> RemoveAll path \<Longrightarrow> P e"
  shows "grows P t (snd (MakeDirectories os path tm t))"
proof -
  obtain ok t1 where 1: "sys os (CreateDirectories path) t = (ok, t1)" by fastforce
  obtain ok2 t2 where 2: "sys os (OpenExisting path) t1 = (ok2, t2)" by fastforce
  have g1: "grows P t t1" using 1 by (rule grows_sys) (simp add: assms)
  have g2: "grows P t t2" using grows_trans [OF g1 grows_sys [OF 2]] assms by simp
  have "grows P t2 (snd (chtimes os path tm t2))" using chtimes_grows assms by blast
  then show ?thesis using g1 g2 grows_trans [OF g2] 1 2
    by (auto simp: MakeDirectories_def Chtimes_def split: bool.splits)
qed

lemma NewSymlink_grows:
  assumes "\<And>e. target e = path \<Longrightarrow> P e" and "P (CreateDirectories (path_parent path))"
  shows "grows P t (snd (NewSymlink os path source overwrite t))"
proof -
  obtain ec1 t1 where 1: "(if os_exists os t path
       then if overwrite then (None, snd (sys os (RemoveAll path) t)) else (Some (ErrGeneral :: 'a err), t)
       else case sys os (CreateDirectories (path_parent path)) t of (ok, t) \<Rightarrow> (if ok then None else Some ErrOS, t)) = (ec1, t1)"
    by fastforce
  have g1: "grows P t t1" using 1 assms by (auto split: if_splits prod.splits intro: grows_refl grows_sys grows_sys_snd)
  obtain ok t2 where 2: "sys os (CreateSymlink source path) t1 = (ok, t2)" by fastforce
  have "grows P t1 t2" using 2 by (rule grows_sys) (simp add: assms(1))
  with g1 have "grows P t t2" by (rule grows_trans)
  then show ?thesis using g1 2 unfolding NewSymlink_def 1 by (auto simp: Let_def)
qed

lemma create_symlink_grows:
  assumes "\<And>e. target e = path \<Longrightarrow> P e" and "P (CreateDirectories (path_parent path))"
  shows "grows P t (snd (create_symlink os codepage destination overwrite path linkname utf8 t))"
  using NewSymlink_grows [of path P] assms by (auto simp: create_symlink_def Let_def split: option.splits intro: grows_refl)

section \<open>What a file holds afterwards\<close>

text \<open>
  Replaying the calls that succeeded; paths are compared as they are spelled. Removing a
  directory removes what is below it.
\<close>

fun after :: "wstr \<Rightarrow> effect \<times> bool \<Rightarrow> byte list option \<Rightarrow> byte list option" where
  "after p (e, False) v = v"
| "after p (CreateFileAlways q, True) v = (if q = p then Some [] else v)"
| "after p (WriteBytes q b, True) v = (if q = p then map_option (\<lambda>c. c @ b) v else v)"
| "after p (DisposeFile q _, True) v = (if q = p then None else v)"
| "after p (CreateSymlink _ q, True) v = (if q = p then None else v)"
| "after p (RemoveAll q, True) v = (if take (length (components q)) (components p) = components q then None else v)"
| "after p (_, True) v = v"

definition holds :: "wstr \<Rightarrow> trace \<Rightarrow> byte list option" where
  "holds p t = fold (after p) t None"

lemma holds_snoc [simp]: "holds p (t @ [x]) = after p x (holds p t)"
  by (simp add: holds_def)

lemma holds_append: "holds p (t @ fx) = fold (after p) fx (holds p t)"
  by (simp add: holds_def)

text \<open>The calls that leave the contents of a file alone.\<close>

definition spares :: "wstr \<Rightarrow> effect \<Rightarrow> bool" where
  "spares p e \<longleftrightarrow> (case e of CreateFileAlways q \<Rightarrow> q \<noteq> p | WriteBytes q _ \<Rightarrow> q \<noteq> p | DisposeFile q _ \<Rightarrow> q \<noteq> p
     | CreateSymlink _ q \<Rightarrow> q \<noteq> p | RemoveAll q \<Rightarrow> take (length (components q)) (components p) \<noteq> components q | _ \<Rightarrow> True)"

lemma after_spares: "spares p e \<Longrightarrow> after p (e, ok) v = v"
  by (cases ok; cases e) (simp_all add: spares_def)

lemma holds_grows: "grows (spares p) t t' \<Longrightarrow> holds p t' = holds p t"
proof -
  have "fold (after p) fx v = v" if "\<forall>x\<in>set fx. spares p (fst x)" for fx v
    using that by (induction fx arbitrary: v) (auto simp: after_spares)
  then show "grows (spares p) t t' \<Longrightarrow> holds p t' = holds p t" by (auto simp: grows_def holds_append)
qed

lemma holds_sys: "sys os e t = (ok, t') \<Longrightarrow> holds p t' = after p (e, ok) (holds p t)"
  by (auto simp: sys_def)

lemma WriteFull_loop_holds:
  assumes "WriteFull_loop os path data t = (None :: 'e err option, t')" and "holds path t = Some c"
  shows "holds path t' = Some (c @ data)"
  using assms
proof (induction os path data t arbitrary: c rule: WriteFull_loop.induct)
  case (1 os path data t)
  define n where "n = written os t data"
  obtain ok t1 where s: "sys os (WriteBytes path (take n data)) t = (ok, t1)" by fastforce
  have ok: ok using "1.prems"(1) s by (subst (asm) WriteFull_loop.simps) (auto simp: n_def [symmetric] Let_def split: bool.splits)
  have h: "holds path t1 = Some (c @ take n data)" using holds_sys [OF s] ok "1.prems"(2) by simp
  show ?case
  proof (cases "n < length data")
    case True
    then have "WriteFull_loop os path (drop n data) t1 = (None :: 'e err option, t')"
      using "1.prems"(1) s ok by (subst (asm) WriteFull_loop.simps) (simp add: n_def [symmetric] Let_def)
    from "1.IH" [OF n_def s [symmetric] _ True this h] ok show ?thesis by simp
  next
    case False
    then show ?thesis
      using "1.prems"(1) s ok h by (subst (asm) WriteFull_loop.simps) (auto simp: n_def [symmetric] Let_def)
  qed
qed

text \<open>\<open>WriteFull\<close> that succeeds has appended the data, if their length fits into 32 bits.\<close>

lemma WriteFull_holds:
  assumes "WriteFull os path data t = (None :: 'e err option, t')" and "length data < 2 ^ 32" and "holds path t = Some c"
  shows "holds path t' = Some (c @ data)"
proof -
  have "WriteFull_loop os path data t = (None :: 'e err option, t')" using assms(1,2) by (simp add: WriteFull_def)
  from WriteFull_loop_holds [OF this assms(3)] show ?thesis .
qed

lemma NewFile_holds:
  assumes "NewFile os path tm overwrite t = (None :: 'e err option, t')"
  shows "holds path t' = Some []"
proof -
  obtain ec1 t1 where "(if os_exists os t path then (if overwrite then None else Some (ErrGeneral :: 'e err), t)
       else case sys os (CreateDirectories (path_parent path)) t of (ok, t) \<Rightarrow> (if ok then None else Some ErrOS, t)) = (ec1, t1)"
    by fastforce
  then have 1: "NewFile os path tm overwrite t = (if ec1 \<noteq> None then (ec1, t1)
         else case sys os (CreateFileAlways path) t1 of
           (False, t) \<Rightarrow> (Some ErrOS, t)
         | (True, t) \<Rightarrow>
             (case chtimes os path tm t of
                (None, t) \<Rightarrow> (None, t)
              | (Some e, t) \<Rightarrow> (Some e, snd (discard_fd os path t))))"
    by (simp add: NewFile_def)
  obtain ok t2 where 2: "sys os (CreateFileAlways path) t1 = (ok, t2)" by fastforce
  have ok: ok using assms 1 2 by (auto split: bool.splits if_splits)
  have "chtimes os path tm t2 = (None :: 'e err option, t')" using assms 1 2 ok by (auto split: prod.splits option.splits if_splits)
  then have "grows (\<lambda>e. e = SetFileTime path tm) t2 t'"
    by (auto simp: chtimes_def split: prod.splits if_splits intro: grows_sys)
  then have "holds path t' = holds path t2" by (intro holds_grows) (auto elim!: grows_weaken simp: spares_def)
  then show ?thesis using holds_sys [OF 2, of path] ok by simp
qed

section \<open>A system that does not fail\<close>

definition willing :: "os \<Rightarrow> bool" where
  "willing os \<longleftrightarrow> (\<forall>t e. os_ok os t e)"

lemma willing_sys: "willing os \<Longrightarrow> sys os e t = (True, t @ [(e, True)])"
  by (simp add: willing_def sys_def)

lemma willing_chtimes: "willing os \<Longrightarrow> chtimes os path tm t = (None, t @ [(SetFileTime path tm, True)])"
  by (simp add: chtimes_def willing_sys)

lemma willing_WriteFull_loop: "willing os \<Longrightarrow> \<exists>t'. WriteFull_loop os path data t = (None :: 'e err option, t')"
proof (induction os path data t rule: WriteFull_loop.induct)
  case (1 os path data t)
  define n where "n = written os t data"
  have s: "sys os (WriteBytes path (take n data)) t = (True, t @ [(WriteBytes path (take n data), True)])"
    using "1.prems" by (rule willing_sys)
  show ?case
  proof (cases "n < length data")
    case True
    from "1.IH" [OF n_def s [symmetric] refl True "1.prems"] show ?thesis
      using True s by (subst WriteFull_loop.simps) (simp add: n_def [symmetric] Let_def)
  next
    case False
    then show ?thesis using s by (subst WriteFull_loop.simps) (simp add: n_def [symmetric] Let_def)
  qed
qed

lemma willing_WriteFull: "willing os \<Longrightarrow> \<exists>t'. WriteFull os path data t = (None :: 'e err option, t')"
  using willing_WriteFull_loop by (simp add: WriteFull_def)

lemma willing_NewFile: "willing os \<Longrightarrow> overwrite \<or> \<not> os_exists os t path \<Longrightarrow> \<exists>t'. NewFile os path tm overwrite t = (None :: 'e err option, t')"
  by (auto simp: NewFile_def willing_sys willing_chtimes Let_def)

lemma willing_MakeDirectories: "willing os \<Longrightarrow> \<exists>t'. MakeDirectories os path tm t = (None :: 'e err option, t')"
  by (simp add: MakeDirectories_def Chtimes_def willing_sys willing_chtimes)

section \<open>The places of entries\<close>

text \<open>A name in well formed UTF-8 without a leading separator.\<close>

definition clean :: "byte list \<Rightarrow> bool" where
  "clean name \<longleftrightarrow> (\<exists>w. name = encode_into_8 w \<and> paired w \<and> w \<noteq> [] \<and> \<not> is_sep (hd w))"

lemma clean_within:
  assumes "JoinSanitizeFsPath codepage destination name True = Some (out, enc)" and "path_is_absolute destination" and "clean name"
  shows "within destination out \<and> within destination (path_parent out)"
proof -
  obtain w where w: "name = encode_into_8 w" "paired w" "w \<noteq> []" "\<not> is_sep (hd w)" using \<open>clean name\<close> by (auto simp: clean_def)
  note j = JoinSanitizeFsPath_within [OF w(2-4) assms(2) assms(1) [unfolded w(1)]]
  then obtain rest where "out = destination @ rest" by blast
  then show ?thesis using j(1) within_parent [of destination rest] assms(2) by auto
qed

text \<open>The effects of entries on a set of places: nothing is removed, and files only change there.\<close>

definition quiet :: "wstr set \<Rightarrow> effect \<Rightarrow> bool" where
  "quiet S e \<longleftrightarrow> (case e of CreateDirectories _ \<Rightarrow> True | RemoveAll _ \<Rightarrow> False | _ \<Rightarrow> target e \<in> S)"

lemma quiet_spares: "quiet S e \<Longrightarrow> p \<notin> S \<Longrightarrow> spares p e"
  by (cases e) (auto simp: quiet_def spares_def)

lemma quiet_mono: "quiet S e \<Longrightarrow> S \<subseteq> S' \<Longrightarrow> quiet S' e"
  by (cases e) (auto simp: quiet_def)

lemma quiet_here: "target e = out \<Longrightarrow> e \<noteq> RemoveAll out \<Longrightarrow> quiet {out} e"
  by (cases e) (auto simp: quiet_def)

lemma quiet_parent: "quiet S (CreateDirectories p)"
  by (simp add: quiet_def)

lemma quiet_grows:
  "grows (quiet {out}) t (snd (NewFile os out tm overwrite t))"
  "grows (quiet {out}) t (snd (MakeDirectories os out tm t))"
  "grows (quiet {out}) t (snd (WriteFull os out data t))"
  by (auto intro!: NewFile_grows MakeDirectories_grows WriteFull_grows quiet_here quiet_parent)

text \<open>A system without failures, on which no file exists before.\<close>

definition example_os :: os where
  "example_os = \<lparr>os_exists = \<lambda>t p. False, os_ok = \<lambda>t e. True, os_written = \<lambda>t n. n, os_absolute = Some,
     os_relative = \<lambda>t p base. Some (if p = base @ [backslash] @ lit ''..'' then lit ''..'' else lit ''a'')\<rparr>"

definition example_destination :: wstr where
  "example_destination = lit ''C:'' @ [backslash] @ lit ''dest''"

lemma example_os_willing: "willing example_os"
  by (simp add: willing_def example_os_def)

end
