(* ===== verification/Baulk_Tar_Extract.thy ===== *)
theory Baulk_Tar_Extract
  imports Baulk_Tar Baulk_Disk
begin

text \<open>
  The extractor of tar archives in \<^verbatim>\<open>include/baulk/archive/extractor.hpp\<close>, over the reader of
  \<^verbatim>\<open>lib/archive/tar/tar.cc\<close> and the disk. A call that sets no error leaves the error code as
  it was, and \<open>Extract\<close> looks at the code after its loop: the model passes the code along.
  \<open>WriteTo\<close> of the reader clears it before it calls the callback.
\<close>

type_synonym ec = "tar_error err option"
type_synonym Filter = "(Header \<Rightarrow> wstr \<Rightarrow> bool) option"

definition InitializeExtractor :: "os \<Rightarrow> wstr \<Rightarrow> Reader option \<Rightarrow> tar_error err + wstr" where
  "InitializeExtractor os dest reader =
     (case os_absolute os dest of
        None \<Rightarrow> Inl ErrOS
      | Some destination \<Rightarrow> if reader = None then Inl ErrGeneral else Inr destination)"

definition tar_create_symlink :: "os \<Rightarrow> ExtractorOptions \<Rightarrow> wstr \<Rightarrow> wstr \<Rightarrow> byte list \<Rightarrow> trace \<Rightarrow> ec \<times> trace" where
  "tar_create_symlink os opts destination new_symlink linkname t =
     create_symlink os (\<lambda>_. []) destination (overwrite_mode opts) new_symlink linkname True t"

text \<open>The callback that \<open>WriteTo\<close> hands every piece to; a refusal sets no error.\<close>

definition on_data :: "os \<Rightarrow> OnProgress \<Rightarrow> wstr \<Rightarrow> trace \<times> ec \<Rightarrow> byte list \<Rightarrow> bool \<times> trace \<times> ec" where
  "on_data os progress path s data =
     (case s of (t, ec) \<Rightarrow>
        if refuses progress t (length data) then (False, t, ec)
        else case WriteFull os path data t of (None, t) \<Rightarrow> (True, t, ec) | (Some e, t) \<Rightarrow> (False, t, Some e))"

definition finish :: "Reader \<Rightarrow> ec \<Rightarrow> ec \<times> trace \<Rightarrow> bool \<times> Reader \<times> trace \<times> ec" where
  "finish r ec res = (case res of (None, t) \<Rightarrow> (True, r, t, ec) | (Some e, t) \<Rightarrow> (False, r, t, Some e))"

definition extract_entry ::
    "os \<Rightarrow> ExtractorOptions \<Rightarrow> Filter \<Rightarrow> OnProgress \<Rightarrow> wstr \<Rightarrow> Header \<Rightarrow> Reader \<Rightarrow> trace \<Rightarrow> ec
      \<Rightarrow> (bool \<times> Reader \<times> trace \<times> ec) option" where
  "extract_entry os opts flt progress destination fh r t ec =
     (case JoinSanitizeFsPath (\<lambda>_. []) destination (Name fh) True of
        None \<Rightarrow> Some (False, r, t, Some ErrGeneral)
      | Some (out, encoded_path) \<Rightarrow>
          if (case flt of None \<Rightarrow> False | Some f \<Rightarrow> \<not> f fh encoded_path) then Some (False, r, t, Some ErrCanceled)
          else if IsDir fh then Some (finish r ec (MakeDirectories os out (ModTime fh) t))
          else if IsSymlink fh then Some (finish r ec (tar_create_symlink os opts destination out (LinkName fh) t))
          else if \<not> IsRegular fh then Some (True, r, t, ec)
          else case NewFile os out (ModTime fh) True t of
            (Some e, t) \<Rightarrow> Some (False, r, t, Some e)
          | (None, t) \<Rightarrow>
              (case WriteTo (on_data os progress out) (Size fh) (t, None) r of
                 None \<Rightarrow> None
               | Some (ok, (t, ec), r) \<Rightarrow>
                   if ok then Some (True, r, t, ec) else Some (False, r, snd (discard_fd os out t), ec)))"

text \<open>The loop of \<open>Extract\<close>; the first component of the result says that it returned from inside the loop.\<close>

partial_function (option) extract_loop ::
    "os \<Rightarrow> ExtractorOptions \<Rightarrow> Filter \<Rightarrow> OnProgress \<Rightarrow> wstr \<Rightarrow> Reader \<Rightarrow> trace \<Rightarrow> ec \<Rightarrow> (bool \<times> Reader \<times> trace \<times> ec) option" where
  "extract_loop os opts flt progress destination r t ec = do {
     (fh, r) \<leftarrow> Next r;
     (case fh of
        Inl e \<Rightarrow> Some (False, r, t, Some (ErrReader e))
      | Inr fh \<Rightarrow> do {
          (ok, r, t, ec) \<leftarrow> extract_entry os opts flt progress destination fh r t ec;
          if ok then extract_loop os opts flt progress destination r t ec
          else if ec = Some ErrCanceled then Some (True, r, t, ec)
          else if ec = Some (ErrReader ErrNotTarFile) \<or> ec = Some (ErrReader ErrExtractGeneral) \<or> \<not> ignore_error opts
          then Some (False, r, t, ec)
          else extract_loop os opts flt progress destination r t ec
        })
   }"

definition after_loop :: "bool \<times> Reader \<times> trace \<times> ec \<Rightarrow> bool \<times> ec \<times> trace" where
  "after_loop res =
     (case res of (returned, r, t, ec) \<Rightarrow>
        if returned then (False, ec, t)
        else if index r = 0 \<and> ec = Some (ErrReader ErrNotTarFile) then (False, Some ErrAnotherWay, t)
        else if ec \<noteq> None \<and> ec \<noteq> Some (ErrReader ErrEnded) then (False, ec, t)
        else (True, None, t))"

definition Extract ::
    "os \<Rightarrow> ExtractorOptions \<Rightarrow> Filter \<Rightarrow> OnProgress \<Rightarrow> wstr \<Rightarrow> Reader \<Rightarrow> ec \<Rightarrow> trace \<Rightarrow> (bool \<times> ec \<times> trace) option" where
  "Extract os opts flt progress destination r ec t =
     (case sys os (CreateDirectories destination) t of
        (False, t) \<Rightarrow> Some (False, Some ErrOS, t)
      | (True, t) \<Rightarrow> map_option after_loop (extract_loop os opts flt progress destination r t ec))"

section \<open>The states of the loop\<close>

text \<open>
  The loop goes on after an entry that succeeded, and after one that failed if errors are
  ignored and the error is neither a cancellation nor one of the archive itself. \<open>reaches\<close>
  relates the state of the loop at its start to its states before later entries, and
  \<open>entry_read\<close> holds of the headers the reader returns in such a state.
\<close>

definition goes_on :: "ExtractorOptions \<Rightarrow> bool \<Rightarrow> ec \<Rightarrow> bool" where
  "goes_on opts ok ec \<longleftrightarrow> ok \<or> ignore_error opts
     \<and> ec \<notin> {Some ErrCanceled, Some (ErrReader ErrNotTarFile), Some (ErrReader ErrExtractGeneral)}"

inductive reaches ::
    "os \<Rightarrow> ExtractorOptions \<Rightarrow> Filter \<Rightarrow> OnProgress \<Rightarrow> wstr \<Rightarrow> Reader \<times> trace \<times> ec \<Rightarrow> Reader \<times> trace \<times> ec \<Rightarrow> bool"
  for os opts flt progress destination where
  reaches_here: "reaches os opts flt progress destination s s"
| reaches_later: "Next r = Some (Inr fh, r1) \<Longrightarrow> extract_entry os opts flt progress destination fh r1 t ec = Some (ok, r2, t2, ec2)
    \<Longrightarrow> goes_on opts ok ec2 \<Longrightarrow> reaches os opts flt progress destination (r2, t2, ec2) s
    \<Longrightarrow> reaches os opts flt progress destination (r, t, ec) s"

definition entry_read :: "os \<Rightarrow> ExtractorOptions \<Rightarrow> Filter \<Rightarrow> OnProgress \<Rightarrow> wstr \<Rightarrow> Reader \<times> trace \<times> ec \<Rightarrow> Header \<Rightarrow> bool" where
  "entry_read os opts flt progress destination s fh \<longleftrightarrow>
     (\<exists>r t ec r1. reaches os opts flt progress destination s (r, t, ec) \<and> Next r = Some (Inr fh, r1))"

lemma entry_read_here: "Next r = Some (Inr fh, r1) \<Longrightarrow> entry_read os opts flt progress destination (r, t, ec) fh"
  unfolding entry_read_def using reaches_here by blast

lemma entry_read_later:
  assumes "Next r = Some (Inr fh, r1)" and "extract_entry os opts flt progress destination fh r1 t ec = Some (ok, r2, t2, ec2)"
    and "goes_on opts ok ec2" and "entry_read os opts flt progress destination (r2, t2, ec2) fh'"
  shows "entry_read os opts flt progress destination (r, t, ec) fh'"
  using assms reaches_later unfolding entry_read_def by blast

text \<open>One entry of the loop, and that the loop comes through every state it reaches.\<close>

lemma extract_loop_step:
  assumes "Next r = Some (Inr fh, r1)" and "extract_entry os opts flt progress destination fh r1 t ec = Some (ok, r2, t2, ec2)"
  shows "extract_loop os opts flt progress destination r t ec =
    (if goes_on opts ok ec2 then extract_loop os opts flt progress destination r2 t2 ec2
     else Some (ec2 = Some ErrCanceled, r2, t2, ec2))"
  using assms by (subst extract_loop.simps) (auto simp: goes_on_def)


section \<open>Where an extraction writes\<close>

text \<open>
  An effect of an extraction with headers in the set \<open>N\<close>: it makes the destination, or it
  concerns the place the sanitizer made from the name in one of the headers, or the directory
  this place is in.
\<close>

definition placed :: "(Header \<Rightarrow> bool) \<Rightarrow> wstr \<Rightarrow> effect \<Rightarrow> bool" where
  "placed N destination e \<longleftrightarrow> e = CreateDirectories destination
     \<or> (\<exists>fh out enc. N fh \<and> JoinSanitizeFsPath (\<lambda>_. []) destination (Name fh) True = Some (out, enc)
          \<and> (target e = out \<or> e = CreateDirectories (path_parent out))
          \<and> (path_is_absolute destination \<and> clean (Name fh) \<longrightarrow> within destination (target e)))"

lemma placed_mono: "placed N destination e \<Longrightarrow> (\<And>fh. N fh \<Longrightarrow> M fh) \<Longrightarrow> placed M destination e"
  unfolding placed_def by blast

lemma placed_out:
  assumes "JoinSanitizeFsPath (\<lambda>_. []) destination (Name fh) True = Some (out, enc)" and "N fh"
  shows "target e = out \<Longrightarrow> placed N destination e" and "placed N destination (CreateDirectories (path_parent out))"
proof -
  have "within destination out \<and> within destination (path_parent out)" if "path_is_absolute destination" "clean (Name fh)"
    using clean_within [OF assms(1) that] .
  then show "target e = out \<Longrightarrow> placed N destination e" "placed N destination (CreateDirectories (path_parent out))"
    using assms unfolding placed_def by fastforce+
qed

lemma on_data_grows:
  assumes "\<And>e. target e = out \<Longrightarrow> e \<noteq> RemoveAll out \<Longrightarrow> P e"
  shows "grows P (fst s) (fst (snd (on_data os progress out s data)))"
proof (cases s)
  case (Pair t ec)
  have "grows P t (snd (WriteFull os out data t :: ec \<times> trace))" using WriteFull_grows assms by blast
  then show ?thesis using Pair by (auto simp: on_data_def intro: grows_refl split: prod.splits option.splits)
qed

lemma FileReader_WriteTo_invariant:
  assumes "FileReader_WriteTo w filesize extracted s r = Some (ok, n, s', r')"
    and "I s" and "\<And>s b. I s \<Longrightarrow> I (snd (w s b))"
  shows "I s'"
proof -
  have "\<forall>ok n s' r'. y = (ok, n, s', r') \<longrightarrow> I s \<longrightarrow> (\<forall>s b. I s \<longrightarrow> I (snd (w s b))) \<longrightarrow> I s'"
    if "FileReader_WriteTo w filesize extracted s r = Some y" for y
    using that
  proof (rule FileReader_WriteTo.raw_induct [rotated])
    fix W w filesize extracted s r y
    assume IH: "\<And>w filesize extracted s r y. W w filesize extracted s r = Some y \<Longrightarrow>
        \<forall>ok n s' r'. y = (ok, n, s', r') \<longrightarrow> I s \<longrightarrow> (\<forall>s b. I s \<longrightarrow> I (snd (w s b))) \<longrightarrow> I s'"
      and step: "(if filesize \<le> 0 then Some (True, extracted, s, r)
      else
        (let b = take (nat (min 8192 filesize)) (drop (nat (Reader.position r)) (contents r));
             r = r\<lparr>position := position r + int (length b)\<rparr>
         in if \<not> fst (w s b) then Some (False, extracted + int (length b), snd (w s b), r)
            else W w (filesize - int (length b)) (extracted + int (length b)) (snd (w s b)) r)) = Some y"
    show "\<forall>ok n s' r'. y = (ok, n, s', r') \<longrightarrow> I s \<longrightarrow> (\<forall>s b. I s \<longrightarrow> I (snd (w s b))) \<longrightarrow> I s'"
      using step by (auto simp: Let_def split: if_splits dest!: IH)
  qed
  then show ?thesis using assms by blast
qed

lemma WriteTo_invariant:
  assumes "WriteTo w filesize s r = Some (ok, s', r')" and "I s" and "\<And>s b. I s \<Longrightarrow> I (snd (w s b))"
  shows "I s'"
  using FileReader_WriteTo_invariant [of w filesize 0 s r _ _ _ _ I] assms by (auto simp: WriteTo_def)

lemma extract_entry_grows:
  assumes "extract_entry os opts flt progress destination fh r t ec = Some (ok, r', t', ec')" and "N fh"
  shows "grows (placed N destination) t t'"
proof (cases "JoinSanitizeFsPath (\<lambda>_. []) destination (Name fh) True")
  case None
  then show ?thesis using assms by (simp add: extract_entry_def grows_refl)
next
  case (Some oe)
  obtain out enc where oe: "oe = (out, enc)" by fastforce
  note P = placed_out [where N = N, OF Some [unfolded oe] assms(2)]
  have g: "grows (placed N destination) t (snd (MakeDirectories os out (ModTime fh) t :: ec \<times> trace))"
    "grows (placed N destination) t (snd (tar_create_symlink os opts destination out (LinkName fh) t))"
    "grows (placed N destination) t (snd (NewFile os out (ModTime fh) True t :: ec \<times> trace))"
    by (auto simp: tar_create_symlink_def intro!: MakeDirectories_grows create_symlink_grows NewFile_grows P)
  show ?thesis
  proof (cases "(case flt of None \<Rightarrow> False | Some f \<Rightarrow> \<not> f fh enc) \<or> IsDir fh \<or> IsSymlink fh \<or> \<not> IsRegular fh
      \<or> fst (NewFile os out (ModTime fh) True t :: ec \<times> trace) \<noteq> None")
    case True
    then show ?thesis using assms(1) Some oe g
      by (auto simp: extract_entry_def finish_def grows_refl split: if_splits option.splits prod.splits)
  next
    case False
    then obtain t1 where t1: "NewFile os out (ModTime fh) True t = (None :: ec, t1)" by (metis prod.collapse)
    have g1: "grows (placed N destination) t t1" using g(3) t1 by simp
    obtain ok2 t2 ec2 r2 where W: "WriteTo (on_data os progress out) (Size fh) (t1, None) r = Some (ok2, (t2, ec2), r2)"
      using assms(1) Some oe False t1 by (auto simp: extract_entry_def split: option.splits prod.splits)
    have "grows (placed N destination) t (fst (t2, ec2))"
      by (rule WriteTo_invariant [OF W, where I = "\<lambda>s. grows (placed N destination) t (fst s)"])
        (use g1 P on_data_grows [of out "placed N destination"] grows_trans in \<open>force+\<close>)
    moreover have "grows (placed N destination) t2 (snd (discard_fd os out t2))" using discard_fd_grows P by blast
    ultimately show ?thesis using assms(1) Some oe False t1 W grows_trans
      by (auto simp: extract_entry_def split: if_splits)
  qed
qed

lemma extract_loop_grows:
  assumes "extract_loop os opts flt progress destination r t ec = Some y"
  shows "grows (placed (entry_read os opts flt progress destination (r, t, ec)) destination) t (fst (snd (snd y)))"
  using assms
proof (rule extract_loop.raw_induct [rotated])
  fix L os opts flt progress destination r t ec y
  let ?N = "\<lambda>r t ec. entry_read os opts flt progress destination (r, t, ec)"
  assume IH: "\<And>os opts flt progress destination r t ec y. L os opts flt progress destination r t ec = Some y \<Longrightarrow>
      grows (placed (entry_read os opts flt progress destination (r, t, ec)) destination) t (fst (snd (snd y)))"
    and step: "do {
     (fh, r) \<leftarrow> Next r;
     (case fh of
        Inl e \<Rightarrow> Some (False, r, t, Some (ErrReader e))
      | Inr fh \<Rightarrow> do {
          (ok, r, t, ec) \<leftarrow> extract_entry os opts flt progress destination fh r t ec;
          if ok then L os opts flt progress destination r t ec
          else if ec = Some ErrCanceled then Some (True, r, t, ec)
          else if ec = Some (ErrReader ErrNotTarFile) \<or> ec = Some (ErrReader ErrExtractGeneral) \<or> \<not> ignore_error opts
          then Some (False, r, t, ec)
          else L os opts flt progress destination r t ec
        })
   } = Some y"
  obtain res r1 where N: "Next r = Some (res, r1)" using step by (auto simp: bind_eq_Some_conv)
  show "grows (placed (?N r t ec) destination) t (fst (snd (snd y)))"
  proof (cases res)
    case (Inl e)
    then show ?thesis using step N by (auto simp: grows_refl)
  next
    case (Inr fh)
    then obtain ok r2 t2 ec2 where E: "extract_entry os opts flt progress destination fh r1 t ec = Some (ok, r2, t2, ec2)"
      using step N by (auto simp: bind_eq_Some_conv)
    have g: "grows (placed (?N r t ec) destination) t t2"
      by (rule extract_entry_grows [where N = "?N r t ec", OF E entry_read_here [OF N [unfolded Inr]]])
    have "y = (True, r2, t2, ec2) \<or> y = (False, r2, t2, ec2)
        \<or> goes_on opts ok ec2 \<and> L os opts flt progress destination r2 t2 ec2 = Some y"
      using step N Inr E by (auto simp: goes_on_def split: if_splits)
    then show ?thesis
    proof (elim disjE conjE)
      assume "goes_on opts ok ec2" and L: "L os opts flt progress destination r2 t2 ec2 = Some y"
      then have "?N r t ec fh'" if "?N r2 t2 ec2 fh'" for fh' using entry_read_later [OF N [unfolded Inr] E _ that] by simp
      then have "grows (placed (?N r t ec) destination) t2 (fst (snd (snd y)))"
        by (intro grows_weaken [OF IH [OF L]]) (rule placed_mono)
      then show ?thesis by (rule grows_trans [OF g])
    qed (use g in simp_all)
  qed
qed

text \<open>
  C3: Whatever the archive holds, whatever the callbacks answer and wherever the system
  fails, extracting a tar archive only adds to what happened before, and every change it
  makes to the disk concerns the destination, the place the sanitizer made from the name of an
  entry the reader returned during this extraction, or the directory of such a place; an entry
  whose name the sanitizer refuses changes nothing. If the destination is absolute and the
  name is well formed UTF-8 without a leading separator, the place lies within the destination.
\<close>

theorem tar_Extract_confined:
  assumes "Extract os opts flt progress destination r ec t = Some (ok, ec', t')"
  shows "\<exists>fx. t' = t @ fx \<and> (\<forall>(e, b)\<in>set fx. e = CreateDirectories destination
     \<or> (\<exists>fh out enc. entry_read os opts flt progress destination (r, t @ [(CreateDirectories destination, True)], ec) fh
          \<and> JoinSanitizeFsPath (\<lambda>_. []) destination (Name fh) True = Some (out, enc)
          \<and> (target e = out \<or> e = CreateDirectories (path_parent out))
          \<and> (path_is_absolute destination \<and> clean (Name fh) \<longrightarrow> within destination (target e))))"
proof -
  let ?P = "placed (entry_read os opts flt progress destination (r, t @ [(CreateDirectories destination, True)], ec)) destination"
  obtain b t1 where s: "sys os (CreateDirectories destination) t = (b, t1)" by fastforce
  have g1: "grows ?P t t1" using s by (rule grows_sys) (simp add: placed_def)
  have "grows ?P t t'"
  proof (cases b)
    case True
    then obtain y where y: "extract_loop os opts flt progress destination r t1 ec = Some y" "after_loop y = (ok, ec', t')"
      using assms s by (auto simp: Extract_def)
    have "t1 = t @ [(CreateDirectories destination, True)]" using s True by (auto simp: sys_def)
    moreover have "fst (snd (snd y)) = t'" using y(2) by (auto simp: after_loop_def split: prod.splits if_splits)
    ultimately show ?thesis using grows_trans [OF g1] extract_loop_grows [OF y(1)] by simp
  next
    case False
    then show ?thesis using assms s g1 by (simp add: Extract_def)
  qed
  then show ?thesis by (fastforce simp: grows_def placed_def)
qed

section \<open>Extracting a whole archive\<close>

text \<open>The place of a member, and the members that are extracted without looking at links.\<close>

definition out_of :: "wstr \<Rightarrow> member \<Rightarrow> wstr" where
  "out_of destination m =
     (case JoinSanitizeFsPath (\<lambda>_. []) destination (Name (header_of m)) True of None \<Rightarrow> [] | Some (out, _) \<Rightarrow> out)"

definition plain_member :: "member \<Rightarrow> bool" where
  "plain_member m \<longleftrightarrow> member_ok m \<and> \<not> is_harmful_path (Name (header_of m)) \<and> \<not> IsSymlink (header_of m)"

lemma out_of_eq:
  assumes "plain_member m"
  shows "\<exists>enc. JoinSanitizeFsPath (\<lambda>_. []) destination (Name (header_of m)) True = Some (out_of destination m, enc)"
  using assms by (auto simp: plain_member_def out_of_def JoinSanitizeFsPath_def Let_def)

lemma member_Size: "member_ok (xs, blk, data) \<Longrightarrow> Size (header_of (xs, blk, data)) = int (length data)"
  by (auto simp: member_ok_def split: option.splits)

definition accepting :: "Filter \<Rightarrow> OnProgress \<Rightarrow> bool" where
  "accepting flt progress \<longleftrightarrow> (case flt of None \<Rightarrow> True | Some f \<Rightarrow> \<forall>h p. f h p) \<and> (\<forall>t n. \<not> refuses progress t n)"

lemma on_data_accepts:
  assumes "willing os" and "accepting flt progress" and "length b \<le> 8192"
    and "ec' = ec \<and> holds out t' = Some c \<and> grows (quiet {out}) t t'"
  shows "\<exists>t''. on_data os progress out (t', ec') b = (True, t'', ec) \<and> holds out t'' = Some (c @ b) \<and> grows (quiet {out}) t t''"
proof -
  obtain t'' where w: "WriteFull os out b t' = (None :: ec, t'')" using willing_WriteFull assms(1) by blast
  have "grows (quiet {out}) t' (snd (WriteFull os out b t' :: ec \<times> trace))" by (rule quiet_grows)
  then have "grows (quiet {out}) t t''" using assms(4) w grows_trans by fastforce
  moreover have "holds out t'' = Some (c @ b)" using assms(3,4) by (intro WriteFull_holds [OF w]) auto
  ultimately show ?thesis using w assms by (auto simp: on_data_def accepting_def)
qed

lemma WriteTo_file:
  assumes "willing os" and "accepting flt progress" and "0 \<le> position r" and "filesize \<le> available r"
    and "holds out t = Some []"
  shows "\<exists>t'. WriteTo (on_data os progress out) filesize (t, ec) r =
      Some (True, (t', ec), r\<lparr>position := position r + max 0 filesize,
         remainingSize := if remainingSize r > 0 then remainingSize r - max 0 filesize else remainingSize r\<rparr>)
    \<and> holds out t' = Some (take (nat filesize) (drop (nat (position r)) (contents r))) \<and> grows (quiet {out}) t t'"
proof -
  let ?R = "\<lambda>s c. snd s = ec \<and> holds out (fst s) = Some c \<and> grows (quiet {out}) t (fst s)"
  have "fst (on_data os progress out s b) \<and> ?R (snd (on_data os progress out s b)) (c @ b)" if "?R s c" "length b \<le> 8192" for s c b
    using on_data_accepts [OF assms(1,2) that(2), of "snd s" ec out "fst s" c t] that(1) by auto
  from FileReader_WriteTo_keeps [where R = ?R and w = "on_data os progress out" and s = "(t, ec)" and c = "[]" and extracted = 0, OF this assms(3,4)] assms(5)
  obtain s' where s': "FileReader_WriteTo (on_data os progress out) filesize 0 (t, ec) r =
      Some (True, max 0 filesize, s', r\<lparr>position := position r + max 0 filesize\<rparr>)"
    "?R s' (take (nat filesize) (drop (nat (position r)) (contents r)))"
    by (auto simp: grows_refl)
  obtain t' where t': "s' = (t', ec)" using s'(2) by (cases s') auto
  have "WriteTo (on_data os progress out) filesize (t, ec) r =
      Some (True, (t', ec), r\<lparr>position := position r + max 0 filesize,
         remainingSize := if remainingSize r > 0 then remainingSize r - max 0 filesize else remainingSize r\<rparr>)"
    using s'(1) t' by (simp add: WriteTo_def)
  then show ?thesis using s'(2) t' by auto
qed

lemma extract_entry_plain:
  assumes "willing os" and "accepting flt progress" and e: "plain_member m" "m = (xs, blk, data)"
    and r: "contents r = pre @ data @ post" "position r = int (length pre)" "remainingSize r = int (length data)"
    and at: "next_header_at p r"
  shows "\<exists>r' t' ec'. extract_entry os opts flt progress destination (header_of m) r t ec = Some (True, r', t', ec')
    \<and> next_header_at p r' \<and> contents r' = contents r \<and> grows (quiet {out_of destination m}) t t'
    \<and> (IsRegular (header_of m) \<longrightarrow> holds (out_of destination m) t' = Some data)
    \<and> (IsRegular (header_of m) \<longrightarrow> remainingSize r' = 0) \<and> (\<not> IsRegular (header_of m) \<longrightarrow> remainingSize r' = remainingSize r)"
proof -
  let ?h = "header_of m" and ?out = "out_of destination m"
  obtain enc where out: "JoinSanitizeFsPath (\<lambda>_. []) destination (Name ?h) True = Some (?out, enc)"
    using out_of_eq [OF e(1), of destination] by auto
  have sz: "Size ?h = int (length data)" using e member_Size by (simp add: plain_member_def)
  have f: "\<not> (case flt of None \<Rightarrow> False | Some f \<Rightarrow> \<not> f ?h enc)" using assms(2) by (auto simp: accepting_def split: option.splits)
  consider (dir) "IsDir ?h" | (regular) "\<not> IsDir ?h" "IsRegular ?h" | (none) "\<not> IsDir ?h" "\<not> IsRegular ?h" by blast
  then show ?thesis
  proof cases
    case dir
    obtain t' where m: "MakeDirectories os ?out (ModTime ?h) t = (None :: ec, t')" using willing_MakeDirectories assms(1) by blast
    have "grows (quiet {?out}) t (snd (MakeDirectories os ?out (ModTime ?h) t :: ec \<times> trace))" by (rule quiet_grows)
    moreover have "\<not> IsRegular ?h"
      using dir by (auto simp: IsDir_def IsRegular_def TypeDir_def TypeReg_def TypeRegA_def ch_def)
    ultimately show ?thesis using out f dir m at by (simp add: extract_entry_def finish_def)
  next
    case regular
    obtain t1 where n: "NewFile os ?out (ModTime ?h) True t = (None :: ec, t1)" using willing_NewFile [of os True] assms(1) by blast
    have g1: "grows (quiet {?out}) t (snd (NewFile os ?out (ModTime ?h) True t :: ec \<times> trace))" by (rule quiet_grows)
    have a: "Size ?h \<le> available r" "0 \<le> position r" using r sz by (auto simp: available_def)
    from WriteTo_file [OF assms(1,2) a(2,1) NewFile_holds [OF n], of None] obtain t' where
      t': "WriteTo (on_data os progress ?out) (Size ?h) (t1, None) r =
        Some (True, (t', None), r\<lparr>position := position r + max 0 (Size ?h),
         remainingSize := if remainingSize r > 0 then remainingSize r - max 0 (Size ?h) else remainingSize r\<rparr>)"
      "holds ?out t' = Some (take (nat (Size ?h)) (drop (nat (position r)) (contents r)))" "grows (quiet {?out}) t1 t'"
      by blast
    have "grows (quiet {?out}) t t'" using grows_trans [OF g1 [unfolded n snd_conv] t'(3)] .
    moreover have "holds ?out t' = Some data" using t'(2) r sz by simp
    moreover have "\<not> IsSymlink ?h" using e(1) by (simp add: plain_member_def)
    ultimately show ?thesis using out f regular n t'(1) at sz r(3) by (auto simp: extract_entry_def next_header_at_def)
  next
    case none
    moreover have "\<not> IsSymlink ?h" using e(1) by (simp add: plain_member_def)
    ultimately show ?thesis using out f at by (auto simp: extract_entry_def grows_refl)
  qed
qed

text \<open>The last member for a place decides what is there.\<close>

definition lands :: "wstr \<Rightarrow> member list \<Rightarrow> nat \<Rightarrow> bool" where
  "lands destination es i \<longleftrightarrow> i < length es \<and> IsRegular (header_of (es ! i))
     \<and> (\<forall>j<length es. i < j \<longrightarrow> out_of destination (es ! j) \<noteq> out_of destination (es ! i))"

lemma lands_Cons:
  "lands destination (e # es) 0 \<Longrightarrow> IsRegular (header_of e) \<and> out_of destination e \<notin> out_of destination ` set es"
  "lands destination (e # es) (Suc i) \<Longrightarrow> lands destination es i"
proof -
  assume l: "lands destination (e # es) 0"
  have "out_of destination (es ! k) \<noteq> out_of destination e" if "k < length es" for k
    using l that unfolding lands_def by (metis Suc_less_eq length_Cons nth_Cons_0 nth_Cons_Suc zero_less_Suc)
  then show "IsRegular (header_of e) \<and> out_of destination e \<notin> out_of destination ` set es"
    using l by (fastforce simp: lands_def in_set_conv_nth)
next
  assume l: "lands destination (e # es) (Suc i)"
  have "out_of destination (es ! j) \<noteq> out_of destination (es ! i)" if "j < length es" "i < j" for j
    using l that unfolding lands_def by (metis Suc_less_eq length_Cons nth_Cons_Suc)
  then show "lands destination es i" using l by (simp add: lands_def)
qed

text \<open>The members behind contents that the extraction does not read have no extensions in front.\<close>

definition well_placed :: "member list \<Rightarrow> bool" where
  "well_placed ms \<longleftrightarrow> (\<forall>i. Suc i < length ms \<and> \<not> IsRegular (header_of (ms ! i)) \<and> snd (snd (ms ! i)) \<noteq> [] \<longrightarrow> fst (ms ! Suc i) = [])"

lemma well_placed_Cons:
  assumes "well_placed (m # ms)"
  shows "well_placed ms" and "IsRegular (header_of m) \<or> snd (snd m) = [] \<or> ms = [] \<or> fst (hd ms) = []"
proof -
  show "well_placed ms" using assms unfolding well_placed_def by (metis Suc_less_eq length_Cons nth_Cons_Suc)
  show "IsRegular (header_of m) \<or> snd (snd m) = [] \<or> ms = [] \<or> fst (hd ms) = []"
    using assms [unfolded well_placed_def, rule_format, of 0] by (cases ms) auto
qed

lemma extract_loop_archive:
  assumes "willing os" and "accepting flt progress" and "\<forall>m\<in>set ms. plain_member m" and "well_placed ms"
    and "next_header_at (length pre) r" and "contents r = pre @ archive ms" and "ms = [] \<or> fst (hd ms) = [] \<or> remainingSize r = 0"
  shows "\<exists>r' t'. extract_loop os opts flt progress destination r t ec = Some (False, r', t', Some (ErrReader ErrEnded))
    \<and> grows (quiet (out_of destination ` set ms)) t t'
    \<and> (\<forall>i. lands destination ms i \<longrightarrow> holds (out_of destination (ms ! i)) t' = Some (snd (snd (ms ! i))))"
  using assms(3-)
proof (induction ms arbitrary: pre r t ec)
  case Nil
  then obtain r' where "Next r = Some (Inl ErrEnded, r')" using Next_end [of pre r] by (auto simp: archive_def)
  then show ?case by (subst extract_loop.simps) (simp add: grows_refl lands_def)
next
  case (Cons m ms)
  obtain xs blk data where m: "m = (xs, blk, data)" by (cases m)
  let ?out = "out_of destination m"
  define r1 where "r1 = r\<lparr>position := int (length (pre @ concat (map encode_entry xs)) + 512), remainingSize := int (length data),
    paddingSize := blockPadding (int (length data)), index := index r + 1\<rparr>"
  have pe: "plain_member m" "member_ok (xs, blk, data)" "length blk = 512"
    using Cons.prems(1) m by (auto simp: plain_member_def member_ok_def known_block_def)
  have c: "contents r = pre @ encode_member (xs, blk, data) @ archive ms" using Cons.prems(4) m by (simp add: archive_def)
  have "xs = [] \<or> remainingSize r = 0" using Cons.prems(5) m by simp
  from Next_member [OF Cons.prems(3) c pe(2) this] have N: "Next r = Some (Inr (header_of m), r1)" by (simp add: r1_def m)
  note at = at_member [OF c pe(3) r1_def]
  obtain r2 t2 ec2 where E: "extract_entry os opts flt progress destination (header_of m) r1 t ec = Some (True, r2, t2, ec2)"
    "next_header_at (length (pre @ encode_member m)) r2" "contents r2 = contents r1"
    "grows (quiet {?out}) t t2" "IsRegular (header_of m) \<longrightarrow> holds ?out t2 = Some data"
    "IsRegular (header_of m) \<longrightarrow> remainingSize r2 = 0" "\<not> IsRegular (header_of m) \<longrightarrow> remainingSize r2 = int (length data)"
    using extract_entry_plain [OF assms(1,2) pe(1) m at, of opts destination t ec] at(3) m by auto
  have "contents r2 = (pre @ encode_member m) @ archive ms" using E(3) c m by (simp add: r1_def)
  moreover have "ms = [] \<or> fst (hd ms) = [] \<or> remainingSize r2 = 0"
    using well_placed_Cons(2) [OF Cons.prems(2)] E(6,7) m by auto
  ultimately obtain r' t' where
    L: "extract_loop os opts flt progress destination r2 t2 ec2 = Some (False, r', t', Some (ErrReader ErrEnded))"
    "grows (quiet (out_of destination ` set ms)) t2 t'"
    "\<forall>i. lands destination ms i \<longrightarrow> holds (out_of destination (ms ! i)) t' = Some (snd (snd (ms ! i)))"
    using Cons.IH [OF _ well_placed_Cons(1) [OF Cons.prems(2)] E(2), of t2 ec2] Cons.prems(1) by auto
  have "grows (quiet (out_of destination ` set (m # ms))) t t'"
    by (rule grows_trans [OF grows_weaken [OF E(4)] grows_weaken [OF L(2)]]) (auto elim: quiet_mono)
  moreover have "holds ?out t' = Some data" if l: "lands destination (m # ms) 0"
  proof -
    have "grows (spares ?out) t2 t'" by (rule grows_weaken [OF L(2)]) (use lands_Cons(1) [OF l] quiet_spares in blast)
    then show ?thesis using holds_grows E(5) lands_Cons(1) [OF l] by simp
  qed
  moreover have "extract_loop os opts flt progress destination r t ec = Some (False, r', t', Some (ErrReader ErrEnded))"
    using extract_loop_step [OF N E(1)] L(1) by (simp add: goes_on_def)
  moreover have "holds (out_of destination ((m # ms) ! i)) t' = Some (snd (snd ((m # ms) ! i)))" if "lands destination (m # ms) i" for i
    using that calculation(2) L(3) lands_Cons(2) m by (cases i) auto
  ultimately show ?case by blast
qed

lemma Extract_archive:
  assumes "willing os" and "accepting flt progress" and "\<forall>m\<in>set ms. plain_member m" and "well_placed ms"
  shows "\<exists>t'. Extract os opts flt progress destination
        \<lparr>contents = archive ms, position = 0, remainingSize = 0, paddingSize = 0, index = 0\<rparr> ec t = Some (True, None, t')
    \<and> (\<forall>i<length ms. IsRegular (header_of (ms ! i))
          \<and> (\<forall>j<length ms. i < j \<longrightarrow> out_of destination (ms ! j) \<noteq> out_of destination (ms ! i))
        \<longrightarrow> holds (out_of destination (ms ! i)) t' = Some (snd (snd (ms ! i))))"
proof -
  let ?r = "\<lparr>contents = archive ms, position = 0, remainingSize = 0, paddingSize = 0, index = 0\<rparr>"
  have "next_header_at (length []) ?r" "contents ?r = [] @ archive ms" "ms = [] \<or> fst (hd ms) = [] \<or> remainingSize ?r = 0"
    by (simp_all add: next_header_at_def)
  from extract_loop_archive [OF assms this, of opts destination "t @ [(CreateDirectories destination, True)]" ec]
  obtain r' t' where L: "extract_loop os opts flt progress destination ?r (t @ [(CreateDirectories destination, True)]) ec
      = Some (False, r', t', Some (ErrReader ErrEnded))"
    "\<forall>i. lands destination ms i \<longrightarrow> holds (out_of destination (ms ! i)) t' = Some (snd (snd (ms ! i)))"
    by blast
  have "Extract os opts flt progress destination ?r ec t = Some (True, None, t')"
    using L(1) by (simp add: Extract_def willing_sys [OF assms(1)] after_loop_def)
  then show ?thesis using L(2) by (auto simp: lands_def)
qed

text \<open>
  C6: Extracting an archive puts its files in place. For every archive of recognised header
  blocks with their contents and, in front of them, PAX headers of type \<^verbatim>\<open>x\<close> and GNU long names
  and links, where no member is a link or has a harmful name, on a disk where no call fails
  and with callbacks that accept everything, the extraction returns and succeeds, and every
  regular member that is the last for its place is there with exactly its contents. A member
  that has contents but is no regular file, and so is skipped, must not be followed by a
  member with extensions (the reader would skip its contents twice), and archives with global
  headers of type \<^verbatim>\<open>g\<close> are not covered.
\<close>

theorem tar_Extract_contents:
  assumes "willing os" and "accepting flt progress" and "\<forall>m\<in>set ms. plain_member m"
    and "\<forall>i. Suc i < length ms \<and> \<not> IsRegular (header_of (ms ! i)) \<and> snd (snd (ms ! i)) \<noteq> [] \<longrightarrow> fst (ms ! Suc i) = []"
  shows "\<exists>t'. Extract os opts flt progress destination
        \<lparr>contents = archive ms, position = 0, remainingSize = 0, paddingSize = 0, index = 0\<rparr> ec t = Some (True, None, t')
    \<and> (\<forall>i<length ms. IsRegular (header_of (ms ! i))
          \<and> (\<forall>j<length ms. i < j \<longrightarrow> out_of destination (ms ! j) \<noteq> out_of destination (ms ! i))
        \<longrightarrow> holds (out_of destination (ms ! i)) t' = Some (snd (snd (ms ! i))))"
  using Extract_archive [OF assms(1-3)] assms(4) by (simp add: well_placed_def)

lemma example_plain:
  fixes st xs
  assumes "extensions xs fresh_state = Some st" and "st_pax st = []" and "\<not> is_harmful_path (if st_name st \<noteq> [] then st_name st else lit ''a'')"
  shows "plain_member (xs, example_block, [1, 2, 3])" "IsRegular (header_of (xs, example_block, [1, 2, 3]))"
  using example_member [OF assms(1,2)] assms(3) by (simp_all add: plain_member_def IsSymlink_def IsRegular_def TypeReg_def TypeSymlink_def ch_def)

lemma example_names: "\<not> is_harmful_path (lit ''a'')" "\<not> is_harmful_path (lit ''long'')"
  by code_simp+

abbreviation example_a :: member where "example_a \<equiv> ([], example_block, [1, 2, 3])"
abbreviation example_long :: member where "example_long \<equiv> ([example_long_name], example_block, [1, 2, 3])"

lemma example_members:
  "plain_member example_a" "plain_member example_long" "IsRegular (header_of example_a)" "IsRegular (header_of example_long)"
  using example_plain [OF extensions.simps(1)] example_plain [OF example_extensions] example_names by simp_all

lemma example_places:
  "out_of example_destination example_a = lit ''C:'' @ [backslash] @ lit ''dest'' @ [backslash] @ lit ''a''"
  "out_of example_destination example_long = lit ''C:'' @ [backslash] @ lit ''dest'' @ [backslash] @ lit ''long''"
proof -
  have "Name (header_of example_a) = lit ''a''" "Name (header_of example_long) = lit ''long''"
    using example_plain_member(3) example_long_member(3) by simp_all
  moreover have
    "(case JoinSanitizeFsPath (\<lambda>_. []) example_destination (lit ''a'') True of None \<Rightarrow> [] | Some (out, _) \<Rightarrow> out)
      = lit ''C:'' @ [backslash] @ lit ''dest'' @ [backslash] @ lit ''a''"
    "(case JoinSanitizeFsPath (\<lambda>_. []) example_destination (lit ''long'') True of None \<Rightarrow> [] | Some (out, _) \<Rightarrow> out)
      = lit ''C:'' @ [backslash] @ lit ''dest'' @ [backslash] @ lit ''long''"
    by code_simp+
  ultimately show "out_of example_destination example_a = lit ''C:'' @ [backslash] @ lit ''dest'' @ [backslash] @ lit ''a''"
    "out_of example_destination example_long = lit ''C:'' @ [backslash] @ lit ''dest'' @ [backslash] @ lit ''long''"
    by (simp_all add: out_of_def)
qed

lemma accepting_None: "accepting None None"
  by (simp add: accepting_def refuses_def)

theorem tar_Extract_contents_witness:
  "\<exists>t'. Extract example_os \<lparr>ignore_error = False, overwrite_mode = True\<rparr> None None example_destination
        \<lparr>contents = archive [example_a, example_long], position = 0, remainingSize = 0, paddingSize = 0, index = 0\<rparr> None []
      = Some (True, None, t')
    \<and> holds (lit ''C:'' @ [backslash] @ lit ''dest'' @ [backslash] @ lit ''a'') t' = Some [1, 2, 3]
    \<and> holds (lit ''C:'' @ [backslash] @ lit ''dest'' @ [backslash] @ lit ''long'') t' = Some [1, 2, 3]"
proof -
  have p: "\<forall>m\<in>set [example_a, example_long]. plain_member m"
    "\<forall>i. Suc i < length [example_a, example_long] \<and> \<not> IsRegular (header_of ([example_a, example_long] ! i))
        \<and> snd (snd ([example_a, example_long] ! i)) \<noteq> [] \<longrightarrow> fst ([example_a, example_long] ! Suc i) = []"
    using example_members by (auto simp: less_Suc_eq)
  have "out_of example_destination example_long \<noteq> out_of example_destination example_a" unfolding example_places by code_simp
  then show ?thesis
    using tar_Extract_contents [OF example_os_willing accepting_None p, of "\<lparr>ignore_error = False, overwrite_mode = True\<rparr>" example_destination None "[]"]
      example_members(3,4) unfolding example_places [symmetric] by (auto simp: less_Suc_eq)
qed

theorem tar_Extract_confined_witness:
  "\<exists>t'. Extract example_os \<lparr>ignore_error = False, overwrite_mode = True\<rparr> None None example_destination
        \<lparr>contents = archive [example_a], position = 0, remainingSize = 0, paddingSize = 0, index = 0\<rparr> None []
      = Some (True, None, t')
    \<and> (\<forall>(e, b)\<in>set t'. e = CreateDirectories example_destination
     \<or> (\<exists>fh out enc. entry_read example_os \<lparr>ignore_error = False, overwrite_mode = True\<rparr> None None example_destination
            (\<lparr>contents = archive [example_a], position = 0, remainingSize = 0, paddingSize = 0, index = 0\<rparr>,
              [] @ [(CreateDirectories example_destination, True)], None) fh
          \<and> JoinSanitizeFsPath (\<lambda>_. []) example_destination (Name fh) True = Some (out, enc)
          \<and> (target e = out \<or> e = CreateDirectories (path_parent out))
          \<and> (path_is_absolute example_destination \<and> clean (Name fh) \<longrightarrow> within example_destination (target e))))"
proof -
  have "\<forall>m\<in>set [example_a]. plain_member m" "well_placed [example_a]" using example_members(1) by (simp_all add: well_placed_def)
  from Extract_archive [OF example_os_willing accepting_None this, of "\<lparr>ignore_error = False, overwrite_mode = True\<rparr>" example_destination None "[]"]
  obtain t' where E: "Extract example_os \<lparr>ignore_error = False, overwrite_mode = True\<rparr> None None example_destination
        \<lparr>contents = archive [example_a], position = 0, remainingSize = 0, paddingSize = 0, index = 0\<rparr> None []
      = Some (True, None, t')" by blast
  from tar_Extract_confined [OF this] E show ?thesis by simp
qed

section \<open>Cancelling\<close>







section \<open>Links\<close>

text \<open>
  A link is only made when the relative path of its target is known and has no step to a
  parent followed by a separator; the parent of the destination itself passes this test.
\<close>

lemma create_symlink_checked:
  assumes "create_symlink os codepage destination overwrite new_symlink linkname utf8 t = (None :: 'e err option, t')"
  shows "\<exists>linkPath rel. os_absolute os (path_append (path_parent new_symlink) (encode_into_native codepage linkname utf8)) = Some linkPath
    \<and> os_relative os t linkPath destination = Some rel \<and> \<not> StrContains rel (lit ''..'' @ [backslash])"
  using assms by (auto simp: create_symlink_def Let_def split: option.splits if_splits)

lemma create_symlink_to_parent:
  "tar_create_symlink example_os \<lparr>ignore_error = False, overwrite_mode = True\<rparr> example_destination
     (example_destination @ [backslash] @ lit ''a'') (lit ''..'') []
   = (None, [(CreateDirectories example_destination, True),
       (CreateSymlink (lit ''..'') (example_destination @ [backslash] @ lit ''a''), True)])"
  by code_simp

end
