(* ===== verification/Baulk_Format.thy ===== *)
theory Baulk_Format
  imports Baulk_Tar
begin

text \<open>
  The detection of archive formats in \<^verbatim>\<open>lib/archive/format.cc\<close>, over the views of bytes of
  \<^verbatim>\<open>bela/bytes_view.hpp\<close>. The reader of PE files is a parameter of \<open>CheckFormat\<close>: it gives the
  length and the offset of what is behind the last section, or fails.
\<close>

section \<open>Formats\<close>

datatype file_format_t =
    FNone | FEpub | FZip | FTar | FRar | FGz | FBz2 | FZstd | F7z | FXz | FEot | FCrx | FDeb | FLz | FRpm | FCab | FMsi | FDmg
  | FXar | FWim | FNsis | FZ | FBrotli | FExe

definition mime_table :: "(file_format_t \<times> string) list" where
  "mime_table =
     [(FEpub, ''application/epub''), (FZip, ''application/zip''), (FTar, ''application/x-tar''), (FRar, ''application/vnd.rar''),
      (FGz, ''application/gzip''), (FBz2, ''application/x-bzip2''), (FZstd, ''application/x-zstd''),
      (F7z, ''application/x-7z-compressed''), (FXz, ''application/x-xz''), (FEot, ''application/octet-stream''),
      (FCrx, ''application/x-google-chrome-extension''), (FDeb, ''application/vnd.debian.binary-package''),
      (FLz, ''application/x-lzip''), (FRpm, ''application/x-rpm''), (FCab, ''application/vnd.ms-cab-compressed''),
      (FMsi, ''application/x-msi''), (FDmg, ''application/x-apple-diskimage''), (FXar, ''application/x-xar''),
      (FWim, ''application/x-ms-wim''), (FZ, ''application/x-compress'')]"

definition FormatToMIME :: "file_format_t \<Rightarrow> string" where
  "FormatToMIME t = (case find (\<lambda>m. fst m = t) mime_table of Some m \<Rightarrow> snd m | None \<Rightarrow> ''application/octet-stream'')"

section \<open>Views of bytes\<close>

definition starts_bytes_with :: "byte list \<Rightarrow> byte list \<Rightarrow> bool" where
  "starts_bytes_with bv sig \<longleftrightarrow> length sig \<le> length bv \<and> take (length sig) bv = sig"

definition match_with :: "byte list \<Rightarrow> nat \<Rightarrow> byte list \<Rightarrow> bool" where
  "match_with bv pos sig \<longleftrightarrow> length sig + pos \<le> length bv \<and> take (length sig) (drop pos bv) = sig"

definition subview :: "byte list \<Rightarrow> nat \<Rightarrow> byte list" where
  "subview bv pos = (if pos \<ge> length bv then [] else drop pos bv)"

definition byte_of :: "byte list \<Rightarrow> nat \<Rightarrow> byte" where
  "byte_of bv i = (if i \<ge> length bv then 0xFF else bv ! i)"

definition cast_fromle32 :: "byte list \<Rightarrow> nat \<Rightarrow> u32" where
  "cast_fromle32 bv i = (if i + 4 > length bv then 0 else read32le bv i)"

section \<open>Signatures\<close>

definition k7zSignature :: "byte list" where "k7zSignature = [0x37, 0x7A, 0xBC, 0xAF, 0x27, 0x1C]"
definition PEMagic :: "byte list" where "PEMagic = [0x50, 0x45, 0, 0]"
definition rarSignature :: "byte list" where "rarSignature = [0x52, 0x61, 0x72, 0x21, 0x1A, 0x07, 0x01, 0x00]"
definition rar4Signature :: "byte list" where "rar4Signature = [0x52, 0x61, 0x72, 0x21, 0x1A, 0x07, 0x00]"
definition dmgSignature :: "byte list" where "dmgSignature = lit ''koly''"
definition wimMagic :: "byte list" where "wimMagic = lit ''MSWIM'' @ [0, 0, 0]"
definition cabMagic :: "byte list" where "cabMagic = lit ''MSCF'' @ [0, 0, 0, 0]"
definition debMagic :: "byte list" where
  "debMagic = [0x21, 0x3C, 0x61, 0x72, 0x63, 0x68, 0x3E, 0x0A, 0x64, 0x65, 0x62, 0x69, 0x61, 0x6E, 0x2D, 0x62, 0x69, 0x6E, 0x61, 0x72, 0x79]"
definition xzMagic :: "byte list" where "xzMagic = [0xFD, 0x37, 0x7A, 0x58, 0x5A, 0x00]"
definition gzMagic :: "byte list" where "gzMagic = [0x1F, 0x8B, 0x8]"
definition bz2Magic :: "byte list" where "bz2Magic = [0x42, 0x5A, 0x68]"
definition lzMagic :: "byte list" where "lzMagic = [0x4C, 0x5A, 0x49, 0x50]"
definition nsisSignature :: "byte list" where "nsisSignature = [0xEF, 0xBE, 0xAD, 0xDE] @ lit ''NullsoftInst''"
definition msoleMagic :: "byte list" where "msoleMagic = [0xD0, 0xCF, 0x11, 0xE0, 0xA1, 0xB1, 0x1A, 0xE1]"

lemmas signature_defs = k7zSignature_def PEMagic_def rarSignature_def rar4Signature_def dmgSignature_def wimMagic_def cabMagic_def
  debMagic_def xzMagic_def gzMagic_def bz2Magic_def lzMagic_def nsisSignature_def msoleMagic_def

definition is_zip_magic :: "byte list \<Rightarrow> bool" where
  "is_zip_magic buf \<longleftrightarrow> length buf > 3 \<and> buf ! 0 = 0x50 \<and> buf ! 1 = 0x4B \<and> (buf ! 2 = 0x3 \<or> buf ! 2 = 0x5 \<or> buf ! 2 = 0x7)
     \<and> (buf ! 3 = 0x4 \<or> buf ! 3 = 0x6 \<or> buf ! 3 = 0x8)"

definition is_msi_archive :: "byte list \<Rightarrow> bool" where
  "is_msi_archive bv \<longleftrightarrow>
     (if \<not> starts_bytes_with bv msoleMagic \<or> length bv < 520 then False
      else if byte_of bv 512 = 0xEC \<and> byte_of bv 513 = 0xA5 then False
      else if byte_of bv 512 = 0x09 \<and> byte_of bv 513 = 0x08 then False
      else if byte_of bv 512 = 0xA0 \<and> byte_of bv 513 = 0x46 then False
      else True)"

definition analyze_format_internal :: "byte list \<Rightarrow> file_format_t" where
  "analyze_format_internal bv =
     (let zstdmagic = cast_fromle32 bv 0 in
      if is_zip_magic bv then FZip
      else if starts_bytes_with bv xzMagic then FXz
      else if starts_bytes_with bv gzMagic then FGz
      else if starts_bytes_with bv bz2Magic then FBz2
      else if starts_bytes_with bv lzMagic then FLz
      else if zstdmagic = 0xFD2FB528 \<or> zstdmagic AND 0xFFFFFFF0 = 0x184D2A50 then FZstd
      else if starts_bytes_with bv (lit ''MZ'') \<and> length bv \<ge> 0x3c + 4
        \<and> starts_bytes_with (subview bv (unat (read32le bv 0x3c))) PEMagic then FExe
      else if starts_bytes_with bv k7zSignature then F7z
      else if starts_bytes_with bv rarSignature \<or> starts_bytes_with bv rar4Signature then FRar
      else if starts_bytes_with bv wimMagic then FWim
      else if starts_bytes_with bv cabMagic then FCab
      else if starts_bytes_with bv dmgSignature then FDmg
      else if starts_bytes_with bv debMagic then FDeb
      else if match_with bv 4 nsisSignature then FNsis
      else if length bv \<ge> 512 \<and> getFormat (take 512 bv) \<noteq> FormatUnknown then FTar
      else if is_msi_archive bv then FMsi
      else FNone)"

definition magic_size :: nat where "magic_size = 1024"

text \<open>A read of at most \<open>magic_size\<close> bytes at an offset; before the start of the file it fails.\<close>

definition magic_bytes :: "byte list \<Rightarrow> int \<Rightarrow> byte list option" where
  "magic_bytes bytes offset = (if offset < 0 then None else Some (bytes_at bytes (nat offset) magic_size))"

definition CheckFormat :: "(byte list \<Rightarrow> (int \<times> int) option) \<Rightarrow> byte list \<Rightarrow> int \<Rightarrow> (file_format_t \<times> int) option" where
  "CheckFormat overlay bytes offset = do {
     bv \<leftarrow> magic_bytes bytes 0;
     let afmt = analyze_format_internal bv;
     if afmt \<noteq> FExe then Some (afmt, offset)
     else do {
       (overlayLength, overlayOffset) \<leftarrow> overlay bytes;
       if overlayLength < int magic_size then Some (afmt, offset)
       else do {
         bv \<leftarrow> magic_bytes bytes overlayOffset;
         let nfmt = analyze_format_internal bv;
         Some (if nfmt \<noteq> FNone then nfmt else afmt, overlayOffset)
       }
     }
   }"

section \<open>Signatures are recognised\<close>

text \<open>The formats that have a signature at the start of the file.\<close>

definition signatures :: "(byte list \<times> file_format_t) list" where
  "signatures =
     [([0x50, 0x4B, 0x03, 0x04], FZip), ([0x50, 0x4B, 0x05, 0x06], FZip), ([0x50, 0x4B, 0x07, 0x08], FZip),
      (xzMagic, FXz), (gzMagic, FGz), (bz2Magic, FBz2), (lzMagic, FLz), ([0x28, 0xB5, 0x2F, 0xFD], FZstd), (k7zSignature, F7z),
      (rarSignature, FRar), (rar4Signature, FRar), (wimMagic, FWim), (cabMagic, FCab), (dmgSignature, FDmg), (debMagic, FDeb)]"

lemma starts_bytes_with_iff: "starts_bytes_with bv sig \<longleftrightarrow> (\<exists>rest. bv = sig @ rest)"
  unfolding starts_bytes_with_def by (metis append_eq_conv_conj append_take_drop_id length_append le_add1)

lemma starts_bytes_with_Cons:
  "starts_bytes_with bv []"
  "\<not> starts_bytes_with [] (c # sig)"
  "starts_bytes_with (b # bv) (c # sig) \<longleftrightarrow> b = c \<and> starts_bytes_with bv sig"
  by (auto simp: starts_bytes_with_def)

lemmas format_simps = analyze_format_internal_def starts_bytes_with_Cons signature_defs is_zip_magic_def cast_fromle32_def
  read32le_def ch_def of_char_def Let_def

lemma signature_analyzed:
  "analyze_format_internal (0x50 # 0x4B # 0x03 # 0x04 # rest) = FZip"
  "analyze_format_internal (0x50 # 0x4B # 0x05 # 0x06 # rest) = FZip"
  "analyze_format_internal (0x50 # 0x4B # 0x07 # 0x08 # rest) = FZip"
  "analyze_format_internal (xzMagic @ rest) = FXz"
  "analyze_format_internal (gzMagic @ rest) = FGz"
  "analyze_format_internal (bz2Magic @ rest) = FBz2"
  "analyze_format_internal (lzMagic @ rest) = FLz"
  "analyze_format_internal (0x28 # 0xB5 # 0x2F # 0xFD # rest) = FZstd"
  "analyze_format_internal (k7zSignature @ rest) = F7z"
  "analyze_format_internal (rarSignature @ rest) = FRar"
  "analyze_format_internal (rar4Signature @ rest) = FRar"
  "analyze_format_internal (wimMagic @ rest) = FWim"
  "analyze_format_internal (cabMagic @ rest) = FCab"
  "analyze_format_internal (dmgSignature @ rest) = FDmg"
  "analyze_format_internal (debMagic @ rest) = FDeb"
  by (simp_all add: format_simps)

lemma list_consE: "x \<in> set (y # ys) \<Longrightarrow> (x = y \<Longrightarrow> P) \<Longrightarrow> (x \<in> set ys \<Longrightarrow> P) \<Longrightarrow> P"
  by auto

lemma signatures_analyzed:
  assumes "(sig, fmt) \<in> set signatures"
  shows "analyze_format_internal (sig @ rest) = fmt"
  using assms unfolding signatures_def by (elim list_consE) (simp_all add: signature_analyzed)

text \<open>
  C23: The signatures do not get in each other's way: whatever follows it, a file that starts with
  the signature of a zip, xz, gzip, bzip2, lzip, Zstandard, 7z, RAR, WIM, cabinet, disk image
  or Debian archive is detected as an archive of this format, although the tests are made
  one after the other and stop at the first that holds.
\<close>

theorem analyze_format_signatures:
  assumes "(sig, fmt) \<in> set signatures" and "starts_bytes_with bv sig"
  shows "analyze_format_internal bv = fmt"
proof -
  obtain rest where "bv = sig @ rest" using assms(2) starts_bytes_with_iff by blast
  then show ?thesis using signatures_analyzed [OF assms(1)] by simp
qed

theorem analyze_format_signatures_witness:
  "analyze_format_internal (gzMagic @ [1, 2, 3]) = FGz \<and> analyze_format_internal (rar4Signature @ [0]) = FRar"
  using analyze_format_signatures [of gzMagic FGz] analyze_format_signatures [of rar4Signature FRar]
  by (simp add: signatures_def starts_bytes_with_iff)

text \<open>Some formats have a name but no test.\<close>

lemma never_detected: "analyze_format_internal bv \<notin> {FEpub, FEot, FCrx, FRpm, FXar, FZ, FBrotli}"
  by (simp add: analyze_format_internal_def Let_def)

text \<open>
  What is behind the sections of a self-extracting file decides its format, when there is
  enough of it; without a known signature there it stays an executable, at the new offset.
\<close>

lemma CheckFormat_overlay:
  assumes "analyze_format_internal (take magic_size bytes) = FExe" and "overlay bytes = Some (len, off)"
    and "int magic_size \<le> len" "0 \<le> off" and "(sig, fmt) \<in> set signatures" and "starts_bytes_with (bytes_at bytes (nat off) magic_size) sig"
  shows "CheckFormat overlay bytes offset = Some (fmt, off)"
proof -
  obtain rest where "bytes_at bytes (nat off) magic_size = sig @ rest" using assms(6) starts_bytes_with_iff by blast
  then have "analyze_format_internal (bytes_at bytes (nat off) magic_size) = fmt"
    using signatures_analyzed [OF assms(5)] by simp
  moreover have "fmt \<noteq> FNone" using assms(5) by (auto simp: signatures_def)
  ultimately show ?thesis using assms(1-4) by (simp add: CheckFormat_def magic_bytes_def bytes_at_def Let_def)
qed

end
