(* ===== verification/Baulk_Codecs.thy ===== *)
theory Baulk_Codecs
  imports Prelude
begin

text \<open>
  The decoders of third-party libraries that the archive library drives: zlib, bzip2,
  Zstandard, brotli, liblzma, \<^verbatim>\<open>infback9\<close> and PPMd. They are machines that are parameters of the
  model: a step takes the input it has and gives output, the input it has left and a new
  state; of the output no more is taken than the buffer of the loop has room for.
\<close>

section \<open>The decoders\<close>

datatype ret = RET_OK | RET_STREAM_END | RET_NEED_DICT | RET_DATA_ERROR | RET_MEM_ERROR | RET_OTHER

datatype brotli_result = BROTLI_ERROR | BROTLI_SUCCESS | BROTLI_NEEDS_MORE_INPUT | BROTLI_NEEDS_MORE_OUTPUT

text \<open>
  \<open>inflateBack9\<close> calls back for input and for output; \<open>Ppmd8_DecodeSymbol\<close> calls back for
  one byte at a time and returns a symbol, which is negative at the end or on an error.
  \<open>fresh\<close> is the memory the allocator hands out, with whatever it holds.
\<close>

datatype 'z back_call = Get "byte list \<Rightarrow> 'z" | Put "byte list" "bool \<Rightarrow> 'z" | Return ret
datatype 'z ppmd_call = ReadByte "byte \<Rightarrow> 'z" | Symbol int 'z

record 'z machines =
  fresh :: "nat \<Rightarrow> byte list"
  gzip_init :: "'z option"
  inflate_init :: "'z option"
  inflate :: "'z \<Rightarrow> byte list \<Rightarrow> ret \<times> byte list \<times> byte list \<times> 'z"
  bz_init :: "'z option"
  bz_decompress :: "'z \<Rightarrow> byte list \<Rightarrow> ret \<times> byte list \<times> byte list \<times> 'z"
  zstd_init :: "'z option"
  zstd_stream :: "'z \<Rightarrow> byte list \<Rightarrow> bool \<times> byte list \<times> byte list \<times> 'z"
  brotli_init :: "'z option"
  brotli_stream :: "'z \<Rightarrow> byte list \<Rightarrow> brotli_result \<times> byte list \<times> byte list \<times> 'z"
  xz_init :: "'z option"
  lzma_init :: "'z option"
  lzma_step :: "'z \<Rightarrow> bool \<Rightarrow> byte list \<Rightarrow> nat \<Rightarrow> ret \<times> byte list \<times> byte list \<times> 'z"
  back9_init :: "'z option"
  back9 :: "'z \<Rightarrow> 'z back_call"
  ppmd_alloc :: "nat \<Rightarrow> 'z option"
  ppmd_rangedec :: "'z \<Rightarrow> 'z ppmd_call"
  ppmd_model :: "nat \<Rightarrow> nat \<Rightarrow> 'z \<Rightarrow> 'z"
  ppmd_decode :: "'z \<Rightarrow> 'z ppmd_call"

definition ZSTD_DStreamOutSize :: nat where "ZSTD_DStreamOutSize = 2 ^ 17"
definition ZSTD_DStreamInSize :: nat where "ZSTD_DStreamInSize = 2 ^ 17 + 3"

text \<open>What fits into an output buffer.\<close>

definition room :: "nat \<Rightarrow> byte list \<Rightarrow> byte list" where
  "room n out = take n out"

end
