(* ===== verification/Baulk_Stream.thy ===== *)
theory Baulk_Stream
  imports Baulk_Format Baulk_Codecs
begin

text \<open>
  The readers below a tar archive: the interface \<open>ExtractReader\<close> of
  \<^verbatim>\<open>include/baulk/archive/tar.hpp\<close>, the plain file and the readers that decompress while they
  read (\<^verbatim>\<open>lib/archive/tar/gzip.cc\<close>, \<^verbatim>\<open>bzip.cc\<close>, \<^verbatim>\<open>zstd.cc\<close>, \<^verbatim>\<open>xz.cc\<close>, \<^verbatim>\<open>brotli.cc\<close>), and
  \<open>MakeReader\<close> of \<^verbatim>\<open>decompressor.cc\<close>. The file below a decompressing reader is what is left of
  it; its reads do not fail. An error code of \<open>None\<close> stands for one that is left as it was.
\<close>

section \<open>Reading through a buffer\<close>

text \<open>
  What all decompressing readers have: the file, the decoder with the input it has not taken
  yet, and the output that has not been handed out.
\<close>

record 'z stream =
  src :: "byte list"
  zst :: 'z
  inb :: "byte list"
  outb :: "byte list"
  pickBytes :: nat

type_synonym 's decompress = "'s \<Rightarrow> (bool \<times> tar_error option \<times> 's) option"

definition more_output :: "('z, 'a) stream_scheme decompress \<Rightarrow> ('z, 'a) stream_scheme decompress" where
  "more_output d s = (if outb s = [] then d s else Some (True, None, s))"

definition stream_Read ::
    "('z, 'a) stream_scheme decompress \<Rightarrow> nat \<Rightarrow> ('z, 'a) stream_scheme
      \<Rightarrow> ((tar_error option + byte list) \<times> ('z, 'a) stream_scheme) option" where
  "stream_Read d len s = do {
     (ok, e, s) \<leftarrow> more_output d s;
     Some (if ok then (Inr (take len (outb s)), s\<lparr>outb := drop len (outb s)\<rparr>) else (Inl e, s))
   }"

partial_function (option) stream_Discard ::
    "('z, 'a) stream_scheme decompress \<Rightarrow> int \<Rightarrow> ('z, 'a) stream_scheme \<Rightarrow> (bool \<times> tar_error option \<times> ('z, 'a) stream_scheme) option" where
  "stream_Discard d len s =
     (if len \<le> 0 then Some (True, None, s)
      else do {
        (ok, e, s) \<leftarrow> more_output d s;
        if \<not> ok then Some (False, e, s)
        else let minsize = min (nat len) (length (outb s))
             in stream_Discard d (len - int minsize) (s\<lparr>outb := drop minsize (outb s)\<rparr>)
      })"

partial_function (option) stream_WriteTo ::
    "('z, 'a) stream_scheme decompress \<Rightarrow> ('w \<Rightarrow> byte list \<Rightarrow> bool \<times> 'w) \<Rightarrow> int \<Rightarrow> int \<Rightarrow> 'w \<Rightarrow> ('z, 'a) stream_scheme
      \<Rightarrow> (bool \<times> tar_error option \<times> int \<times> 'w \<times> ('z, 'a) stream_scheme) option" where
  "stream_WriteTo d w filesize extracted ws s =
     (if filesize \<le> 0 then Some (True, None, extracted, ws, s)
      else do {
        (ok, e, s) \<leftarrow> more_output d s;
        if \<not> ok then Some (False, e, extracted, ws, s)
        else let minsize = min (nat filesize) (length (outb s));
                 p = take minsize (outb s);
                 s = s\<lparr>outb := drop minsize (outb s)\<rparr>
             in if fst (w ws p)
                then stream_WriteTo d w (filesize - int minsize) (extracted + int minsize) (snd (w ws p)) s
                else Some (False, None, extracted + int minsize, snd (w ws p), s)
      })"

definition tar_outsize :: nat where "tar_outsize = 64 * 1024"
definition tar_insize :: nat where "tar_insize = 32 * 1024"

text \<open>A read of the file below into the input buffer.\<close>

definition pick :: "nat \<Rightarrow> ('z, 'a) stream_scheme \<Rightarrow> ('z, 'a) stream_scheme" where
  "pick n s = s\<lparr>inb := take n (src s), src := drop n (src s), pickBytes := pickBytes s + length (take n (src s))\<rparr>"

section \<open>gzip\<close>

record 'z gzip = "'z stream" + zs_avail_out :: nat

definition gzip_Initialize :: "'z machines \<Rightarrow> byte list \<Rightarrow> tar_error + 'z gzip" where
  "gzip_Initialize m packed =
     (case gzip_init m of
        None \<Rightarrow> Inl ErrExtractGeneral
      | Some z \<Rightarrow> Inr \<lparr>src = packed, zst = z, inb = [], outb = [], pickBytes = 0, zs_avail_out = 0\<rparr>)"

text \<open>
  The loop that the gzip and the bzip2 reader share, word for word: a step of the decoder, the
  return codes that are errors, and what the reader notes of the code.
\<close>

partial_function (option) pump ::
    "('z \<Rightarrow> byte list \<Rightarrow> ret \<times> byte list \<times> byte list \<times> 'z) \<Rightarrow> (ret \<Rightarrow> bool)
      \<Rightarrow> (ret \<Rightarrow> ('z, 'a) gzip_scheme \<Rightarrow> ('z, 'a) gzip_scheme) \<Rightarrow> ('z, 'a) gzip_scheme decompress" where
  "pump code fails note_ret s =
     (if (zs_avail_out s \<noteq> 0 \<or> pickBytes s = 0) \<and> src s = [] then Some (False, None, s)
      else let s = (if zs_avail_out s \<noteq> 0 \<or> pickBytes s = 0 then pick tar_insize s else s) in
           case code (zst s) (inb s) of (ret, out, inp, z) \<Rightarrow>
             let out = room tar_outsize out; s = note_ret ret (s\<lparr>zst := z, inb := inp, zs_avail_out := tar_outsize - length out\<rparr>) in
             if fails ret then Some (False, Some ErrExtractGeneral, s)
             else let s = s\<lparr>outb := out\<rparr> in if out \<noteq> [] then Some (True, None, s) else pump code fails note_ret s)"

definition gzip_fails :: "ret \<Rightarrow> bool" where
  "gzip_fails ret \<longleftrightarrow> ret = RET_NEED_DICT \<or> ret = RET_DATA_ERROR \<or> ret = RET_MEM_ERROR"

definition gzip_decompress :: "'z machines \<Rightarrow> 'z gzip decompress" where
  "gzip_decompress m = pump (inflate m) gzip_fails (\<lambda>ret s. s)"

definition gzip_Read where "gzip_Read m = stream_Read (gzip_decompress m)"
definition gzip_Discard where "gzip_Discard m = stream_Discard (gzip_decompress m)"
definition gzip_WriteTo where "gzip_WriteTo m = stream_WriteTo (gzip_decompress m)"

section \<open>bzip2\<close>

record 'z bzip = "'z gzip" + bz_ret :: ret

definition bzip_Initialize :: "'z machines \<Rightarrow> byte list \<Rightarrow> tar_error + 'z bzip" where
  "bzip_Initialize m packed =
     (case bz_init m of
        None \<Rightarrow> Inl ErrExtractGeneral
      | Some z \<Rightarrow> Inr \<lparr>src = packed, zst = z, inb = [], outb = [], pickBytes = 0, zs_avail_out = 0, bz_ret = RET_OK\<rparr>)"

definition bzip_fails :: "ret \<Rightarrow> bool" where
  "bzip_fails ret \<longleftrightarrow> ret = RET_DATA_ERROR \<or> ret = RET_MEM_ERROR"

definition bzip_decompress :: "'z machines \<Rightarrow> 'z bzip decompress" where
  "bzip_decompress m s =
     (if bz_ret s = RET_STREAM_END then Some (False, Some ErrEnded, s)
      else pump (bz_decompress m) bzip_fails (\<lambda>ret s. s\<lparr>bz_ret := ret\<rparr>) s)"

definition bzip_Read where "bzip_Read m = stream_Read (bzip_decompress m)"
definition bzip_Discard where "bzip_Discard m = stream_Discard (bzip_decompress m)"
definition bzip_WriteTo where "bzip_WriteTo m = stream_WriteTo (bzip_decompress m)"

section \<open>Zstandard\<close>

definition zstd_Initialize :: "'z machines \<Rightarrow> byte list \<Rightarrow> tar_error + 'z stream" where
  "zstd_Initialize m packed =
     (case zstd_init m of
        None \<Rightarrow> Inl ErrExtractGeneral
      | Some z \<Rightarrow> Inr \<lparr>src = packed, zst = z, inb = [], outb = [], pickBytes = 0\<rparr>)"

partial_function (option) zstd_decompress :: "'z machines \<Rightarrow> 'z stream decompress" where
  "zstd_decompress m s =
     (if inb s = [] \<and> src s = [] then Some (False, None, s)
      else let s = (if inb s = [] then pick ZSTD_DStreamInSize s else s) in
           case zstd_stream m (zst s) (inb s) of (is_error, out, inp, z) \<Rightarrow>
             let out = room ZSTD_DStreamOutSize out; s = s\<lparr>zst := z, inb := inp\<rparr> in
             if is_error then Some (False, Some ErrExtractGeneral, s)
             else let s = s\<lparr>outb := out\<rparr> in if out \<noteq> [] then Some (True, None, s) else zstd_decompress m s)"

definition zstd_Read where "zstd_Read m = stream_Read (zstd_decompress m)"
definition zstd_Discard where "zstd_Discard m = stream_Discard (zstd_decompress m)"
definition zstd_WriteTo where "zstd_WriteTo m = stream_WriteTo (zstd_decompress m)"

section \<open>xz\<close>

text \<open>The output buffer is filled over several steps; \<open>filled\<close> is what it holds so far.\<close>

definition tar_xzoutsize :: nat where "tar_xzoutsize = 256 * 1024"
definition tar_xzinsize :: nat where "tar_xzinsize = 256 * 1024"

record 'z xz = "'z stream" +
  filled :: "byte list"
  xz_total_in :: nat
  xz_ret :: ret

definition xz_Initialize :: "'z machines \<Rightarrow> byte list \<Rightarrow> tar_error + 'z xz" where
  "xz_Initialize m packed =
     (case xz_init m of
        None \<Rightarrow> Inl ErrExtractGeneral
      | Some z \<Rightarrow> Inr \<lparr>src = packed, zst = z, inb = [], outb = [], pickBytes = 0, filled = [], xz_total_in = 0, xz_ret = RET_OK\<rparr>)"

partial_function (option) xz_loop :: "'z machines \<Rightarrow> 'z xz decompress" where
  "xz_loop m s =
     (let s = (if inb s = [] \<or> xz_total_in s = 0 then pick tar_xzinsize s else s) in
      case lzma_step m (zst s) (inb s = []) (inb s) (tar_xzoutsize - length (filled s)) of (ret, out, inp, z) \<Rightarrow>
        let out = room tar_xzoutsize (filled s @ out);
            s = s\<lparr>zst := z, inb := inp, xz_total_in := xz_total_in s + (length (inb s) - length inp), xz_ret := ret\<rparr> in
        if length out = tar_xzoutsize \<or> ret = RET_STREAM_END then Some (True, None, s\<lparr>outb := out, filled := []\<rparr>)
        else let s = s\<lparr>filled := out\<rparr> in
             if ret \<noteq> RET_OK then Some (False, Some ErrExtractGeneral, s) else xz_loop m s)"

definition xz_decompress :: "'z machines \<Rightarrow> 'z xz decompress" where
  "xz_decompress m s = (if xz_ret s = RET_STREAM_END then Some (False, Some ErrExtractGeneral, s) else xz_loop m s)"

definition xz_Read where "xz_Read m = stream_Read (xz_decompress m)"
definition xz_Discard where "xz_Discard m = stream_Discard (xz_decompress m)"
definition xz_WriteTo where "xz_WriteTo m = stream_WriteTo (xz_decompress m)"

section \<open>Brotli\<close>

text \<open>
  The result of the last step starts with the value zero, which is the value of
  \<open>BROTLI_DECODER_RESULT_ERROR\<close>. \<open>WriteTo\<close> does not count its pieces off the size.
\<close>

record 'z brotli = "'z stream" + result :: brotli_result

definition brotli_Initialize :: "'z machines \<Rightarrow> byte list \<Rightarrow> tar_error + 'z brotli" where
  "brotli_Initialize m packed =
     (case brotli_init m of
        None \<Rightarrow> Inl ErrExtractGeneral
      | Some z \<Rightarrow> Inr \<lparr>src = packed, zst = z, inb = [], outb = [], pickBytes = 0, result = BROTLI_ERROR\<rparr>)"

partial_function (option) brotli_loop :: "'z machines \<Rightarrow> 'z brotli decompress" where
  "brotli_loop m s =
     (if (result s = BROTLI_NEEDS_MORE_INPUT \<or> pickBytes s = 0) \<and> src s = [] then Some (False, None, s)
      else let s = (if result s = BROTLI_NEEDS_MORE_INPUT \<or> pickBytes s = 0 then pick tar_insize s else s) in
           case brotli_stream m (zst s) (inb s) of (res, out, inp, z) \<Rightarrow>
             let s = s\<lparr>zst := z, inb := inp, result := res\<rparr>; out = room tar_outsize out in
             if out \<noteq> [] then Some (True, None, s\<lparr>outb := out\<rparr>) else brotli_loop m s)"

definition brotli_decompress :: "'z machines \<Rightarrow> 'z brotli decompress" where
  "brotli_decompress m s = (if result s = BROTLI_ERROR then Some (False, Some ErrExtractGeneral, s) else brotli_loop m s)"

definition brotli_Read where "brotli_Read m = stream_Read (brotli_decompress m)"
definition brotli_Discard where "brotli_Discard m = stream_Discard (brotli_decompress m)"

partial_function (option) brotli_WriteTo ::
    "'z machines \<Rightarrow> ('w \<Rightarrow> byte list \<Rightarrow> bool \<times> 'w) \<Rightarrow> int \<Rightarrow> int \<Rightarrow> 'w \<Rightarrow> 'z brotli
      \<Rightarrow> (bool \<times> tar_error option \<times> int \<times> 'w \<times> 'z brotli) option" where
  "brotli_WriteTo m w filesize extracted ws s =
     (if filesize \<le> 0 then Some (True, None, extracted, ws, s)
      else do {
        (ok, e, s) \<leftarrow> more_output (brotli_decompress m) s;
        if \<not> ok then Some (False, e, extracted, ws, s)
        else let minsize = min (nat filesize) (length (outb s));
                 p = take minsize (outb s);
                 s = s\<lparr>outb := drop minsize (outb s)\<rparr>
             in if fst (w ws p) then brotli_WriteTo m w filesize (extracted + int minsize) (snd (w ws p)) s
                else Some (False, None, extracted + int minsize, snd (w ws p), s)
      })"

section \<open>Choosing a reader\<close>

text \<open>
  The reader for a detected format. Whatever goes wrong behind the positioning of the file, the
  code of the error becomes \<open>ErrNoFilter\<close>.
\<close>

datatype 'z ExtractReader =
    GzipReader "'z gzip" | BzipReader "'z bzip" | ZstdReader "'z stream" | XzReader "'z xz" | BrotliReader "'z brotli"

datatype make_error = ErrNoFilter | ErrSeek

definition with_filter :: "('r \<Rightarrow> 'z ExtractReader) \<Rightarrow> tar_error + 'r \<Rightarrow> make_error + 'z ExtractReader" where
  "with_filter f res = (case res of Inl e \<Rightarrow> Inl ErrNoFilter | Inr r \<Rightarrow> Inr (f r))"

definition MakeReader :: "'z machines \<Rightarrow> byte list \<Rightarrow> int \<Rightarrow> file_format_t \<Rightarrow> make_error + 'z ExtractReader" where
  "MakeReader m bytes offset afmt =
     (if offset < 0 then Inl ErrSeek
      else let packed = drop (nat offset) bytes in
           case afmt of
             FGz \<Rightarrow> with_filter GzipReader (gzip_Initialize m packed)
           | FBz2 \<Rightarrow> with_filter BzipReader (bzip_Initialize m packed)
           | FZstd \<Rightarrow> with_filter ZstdReader (zstd_Initialize m packed)
           | FXz \<Rightarrow> with_filter XzReader (xz_Initialize m packed)
           | FBrotli \<Rightarrow> with_filter BrotliReader (brotli_Initialize m packed)
           | _ \<Rightarrow> Inl ErrNoFilter)"

section \<open>The interface\<close>

text \<open>
  What a client may expect of an \<open>ExtractReader\<close>: there is a stream of bytes still to come;
  a read gives a non-empty piece of it as long as there is one, discarding drops what it is
  told to, and writing hands out just what it is told to, in order and in pieces.
\<close>

locale extract_reader =
  fixes ok :: "'s \<Rightarrow> bool" and rest :: "'s \<Rightarrow> byte list"
    and read :: "nat \<Rightarrow> 's \<Rightarrow> ((tar_error option + byte list) \<times> 's) option"
    and skip :: "int \<Rightarrow> 's \<Rightarrow> (bool \<times> tar_error option \<times> 's) option"
    and put :: "int \<Rightarrow> byte list \<Rightarrow> 's \<Rightarrow> (bool \<times> byte list \<times> 's) option"
  assumes read: "ok s \<Longrightarrow> 0 < len \<Longrightarrow> rest s \<noteq> [] \<Longrightarrow>
      \<exists>b s'. read len s = Some (Inr b, s') \<and> b \<noteq> [] \<and> length b \<le> len \<and> rest s = b @ rest s' \<and> ok s'"
    and skip: "ok s \<Longrightarrow> n \<le> length (rest s) \<Longrightarrow>
      \<exists>s'. skip (int n) s = Some (True, None, s') \<and> rest s' = drop n (rest s) \<and> ok s'"
    and put: "ok s \<Longrightarrow> n \<le> length (rest s) \<Longrightarrow>
      \<exists>s'. put (int n) acc s = Some (True, acc @ take n (rest s), s') \<and> rest s' = drop n (rest s) \<and> ok s'"

text \<open>\<open>Reader::ReadFull\<close> of \<^verbatim>\<open>tar.cc\<close> over any reader below it.\<close>

partial_function (option) ReadFull_over ::
    "(nat \<Rightarrow> 's \<Rightarrow> ((tar_error option + byte list) \<times> 's) option) \<Rightarrow> nat \<Rightarrow> byte list \<Rightarrow> 's \<Rightarrow> ((tar_error option + byte list) \<times> 's) option" where
  "ReadFull_over read len got s =
     (if len = 0 then Some (Inr got, s)
      else do {
        (res, s) \<leftarrow> read len s;
        (case res of
           Inl e \<Rightarrow> Some (Inl e, s)
         | Inr b \<Rightarrow> if b = [] then Some (Inl (Some ErrEnded), s) else ReadFull_over read (len - length b) (got @ b) s)
      })"

text \<open>
  What a tar reader asks of the reader below it, in any order: blocks, gaps and contents.
  \<open>serve\<close> answers from a list of bytes, \<open>session\<close> by a reader.
\<close>

datatype request = Block nat | Gap nat | Contents nat

fun serve :: "request list \<Rightarrow> byte list \<Rightarrow> byte list list" where
  "serve [] bs = []"
| "serve (Block n # rs) bs = take n bs # serve rs (drop n bs)"
| "serve (Gap n # rs) bs = serve rs (drop n bs)"
| "serve (Contents n # rs) bs = take n bs # serve rs (drop n bs)"

fun amount :: "request \<Rightarrow> nat" where
  "amount (Block n) = n"
| "amount (Gap n) = n"
| "amount (Contents n) = n"

fun session ::
    "(nat \<Rightarrow> 's \<Rightarrow> ((tar_error option + byte list) \<times> 's) option) \<Rightarrow> (int \<Rightarrow> 's \<Rightarrow> (bool \<times> tar_error option \<times> 's) option)
      \<Rightarrow> (int \<Rightarrow> byte list \<Rightarrow> 's \<Rightarrow> (bool \<times> byte list \<times> 's) option) \<Rightarrow> request list \<Rightarrow> 's \<Rightarrow> byte list list option" where
  "session read skip put [] s = Some []"
| "session read skip put (Block n # rs) s = do {
     (res, s) \<leftarrow> ReadFull_over read n [] s;
     (case res of Inl e \<Rightarrow> None | Inr b \<Rightarrow> map_option ((#) b) (session read skip put rs s))
   }"
| "session read skip put (Gap n # rs) s = do {
     (ok, e, s) \<leftarrow> skip (int n) s;
     if ok then session read skip put rs s else None
   }"
| "session read skip put (Contents n # rs) s = do {
     (ok, b, s) \<leftarrow> put (int n) [] s;
     if ok then map_option ((#) b) (session read skip put rs s) else None
   }"

context extract_reader
begin

lemma read_full:
  "ok s \<Longrightarrow> n \<le> length (rest s) \<Longrightarrow>
    \<exists>s'. ReadFull_over read n got s = Some (Inr (got @ take n (rest s)), s') \<and> rest s' = drop n (rest s) \<and> ok s'"
proof (induction n arbitrary: got s rule: less_induct)
  case (less n)
  show ?case
  proof (cases "n = 0")
    case True
    then show ?thesis using less.prems by (simp add: ReadFull_over.simps)
  next
    case False
    then obtain b s1 where b: "read n s = Some (Inr b, s1)" "b \<noteq> []" "length b \<le> n" "rest s = b @ rest s1" "ok s1"
      using read [of s n] less.prems by force
    have "n - length b < n" "n - length b \<le> length (rest s1)" using b less.prems False by auto
    from less.IH [OF this(1) b(5) this(2), of "got @ b"] obtain s' where
      s': "ReadFull_over read (n - length b) (got @ b) s1 = Some (Inr ((got @ b) @ take (n - length b) (rest s1)), s')"
      "rest s' = drop (n - length b) (rest s1)" "ok s'" by blast
    then show ?thesis using b False by (subst ReadFull_over.simps) simp
  qed
qed

lemma session_serves:
  "ok s \<Longrightarrow> sum_list (map amount rs) \<le> length (rest s) \<Longrightarrow> session read skip put rs s = Some (serve rs (rest s))"
proof (induction rs arbitrary: s)
  case (Cons r rs)
  show ?case
  proof (cases r)
    case (Block n)
    then obtain s' where "ReadFull_over read n [] s = Some (Inr (take n (rest s)), s')" "rest s' = drop n (rest s)" "ok s'"
      using read_full [of s n "[]"] Cons.prems by auto
    then show ?thesis using Block Cons.IH [of s'] Cons.prems by simp
  next
    case (Gap n)
    then obtain s' where "skip (int n) s = Some (True, None, s')" "rest s' = drop n (rest s)" "ok s'"
      using skip [of s n] Cons.prems by auto
    then show ?thesis using Gap Cons.IH [of s'] Cons.prems by simp
  next
    case (Contents n)
    then obtain s' where "put (int n) [] s = Some (True, take n (rest s), s')" "rest s' = drop n (rest s)" "ok s'"
      using put [of s n "[]"] Cons.prems by auto
    then show ?thesis using Contents Cons.IH [of s'] Cons.prems by simp
  qed
qed simp

end

section \<open>The plain file\<close>

definition FileReader_Read :: "nat \<Rightarrow> Reader \<Rightarrow> ((tar_error option + byte list) \<times> Reader) option" where
  "FileReader_Read len r =
     (let b = take len (drop (nat (position r)) (contents r)) in Some (Inr b, r\<lparr>position := position r + int (length b)\<rparr>))"

definition FileReader_Discard :: "int \<Rightarrow> Reader \<Rightarrow> (bool \<times> tar_error option \<times> Reader) option" where
  "FileReader_Discard n r = (case discard n r of (ok, r) \<Rightarrow> Some (ok, if ok then None else Some ErrSystem, r))"

definition FileReader_put :: "int \<Rightarrow> byte list \<Rightarrow> Reader \<Rightarrow> (bool \<times> byte list \<times> Reader) option" where
  "FileReader_put n acc r = map_option (\<lambda>(ok, extracted, acc, r). (ok, acc, r)) (FileReader_WriteTo append_all n 0 acc r)"

definition file_rest :: "Reader \<Rightarrow> byte list" where
  "file_rest r = drop (nat (position r)) (contents r)"

interpretation plain: extract_reader "\<lambda>r. 0 \<le> position r" file_rest FileReader_Read FileReader_Discard FileReader_put
proof
  fix r :: Reader and n len acc
  assume pos: "0 \<le> position r"
  have shift: "drop (nat (position r + int k)) (contents r) = drop k (file_rest r)" for k
    using pos by (simp add: file_rest_def nat_add_distrib add.commute)
  show "\<exists>b s'. FileReader_Read len r = Some (Inr b, s') \<and> b \<noteq> [] \<and> length b \<le> len \<and> file_rest r = b @ file_rest s' \<and> 0 \<le> position s'"
    if "0 < len" "file_rest r \<noteq> []"
  proof -
    let ?b = "take len (file_rest r)"
    have "FileReader_Read len r = Some (Inr ?b, r\<lparr>position := position r + int (length ?b)\<rparr>)"
      by (simp add: FileReader_Read_def file_rest_def Let_def)
    moreover have "file_rest (r\<lparr>position := position r + int (length ?b)\<rparr>) = drop (length ?b) (file_rest r)"
      unfolding file_rest_def [of "r\<lparr>position := _\<rparr>"] using shift [of "length ?b"] by simp
    moreover have "drop (length ?b) (file_rest r) = drop len (file_rest r)" by (simp add: min_def)
    ultimately show ?thesis
      using that pos by (intro exI [of _ ?b] exI [of _ "r\<lparr>position := position r + int (length ?b)\<rparr>"]) simp
  qed
  assume n: "n \<le> length (file_rest r)"
  have rest: "file_rest (r\<lparr>position := position r + int n\<rparr>) = drop n (file_rest r)"
    unfolding file_rest_def [of "r\<lparr>position := _\<rparr>"] using shift by simp
  then show "\<exists>s'. FileReader_Discard (int n) r = Some (True, None, s') \<and> file_rest s' = drop n (file_rest r) \<and> 0 \<le> position s'"
    using pos by (auto simp: FileReader_Discard_def discard_def)
  have "fst (append_all s b) \<and> snd (append_all s b) = c @ b" if "s = c" for s c b :: "byte list"
    using that by (simp add: append_all_def)
  from FileReader_WriteTo_keeps [where R = "\<lambda>s c. s = c" and w = append_all and s = acc and c = acc and filesize = "int n" and extracted = 0,
      OF this pos] n
  have "FileReader_WriteTo append_all (int n) 0 acc r = Some (True, int n, acc @ take n (file_rest r), r\<lparr>position := position r + int n\<rparr>)"
    by (auto simp: available_def file_rest_def)
  then show "\<exists>s'. FileReader_put (int n) acc r = Some (True, acc @ take n (file_rest r), s') \<and> file_rest s' = drop n (file_rest r) \<and> 0 \<le> position s'"
    using rest pos by (simp add: FileReader_put_def)
qed

section \<open>Readers that decompress\<close>

text \<open>
  What \<open>decompress\<close> has to do for its reader: with an empty buffer and something still to
  come, it returns with some of it in the buffer.
\<close>

definition provides :: "('z, 'a) stream_scheme decompress \<Rightarrow> (('z, 'a) stream_scheme \<Rightarrow> bool) \<Rightarrow> (('z, 'a) stream_scheme \<Rightarrow> byte list) \<Rightarrow> bool" where
  "provides d ok coming \<longleftrightarrow>
     (\<forall>s. ok s \<longrightarrow> outb s = [] \<longrightarrow> coming s \<noteq> [] \<longrightarrow>
        (\<exists>s'. d s = Some (True, None, s') \<and> ok s' \<and> outb s' \<noteq> [] \<and> outb s' @ coming s' = coming s))
     \<and> (\<forall>s b. ok (s\<lparr>outb := b\<rparr>) = ok s \<and> coming (s\<lparr>outb := b\<rparr>) = coming s)"

definition stream_put :: "('z, 'a) stream_scheme decompress \<Rightarrow> int \<Rightarrow> byte list \<Rightarrow> ('z, 'a) stream_scheme
    \<Rightarrow> (bool \<times> byte list \<times> ('z, 'a) stream_scheme) option" where
  "stream_put d n acc s = map_option (\<lambda>(ok, e, extracted, acc, s). (ok, acc, s)) (stream_WriteTo d append_all n 0 acc s)"

lemma more_output_provides:
  assumes "provides d ok coming" and "ok s" and "outb s @ coming s \<noteq> []"
  obtains s' where "more_output d s = Some (True, None, s')" "ok s'" "outb s' \<noteq> []" "outb s' @ coming s' = outb s @ coming s"
proof (cases "outb s = []")
  case True
  then show ?thesis using assms that by (auto simp: provides_def more_output_def)
next
  case False
  then show ?thesis using assms that by (simp add: more_output_def)
qed

lemma stream_Discard_provides:
  assumes d: "provides d ok coming"
  shows "ok s \<Longrightarrow> n \<le> length (outb s @ coming s) \<Longrightarrow>
    \<exists>s'. stream_Discard d (int n) s = Some (True, None, s') \<and> outb s' @ coming s' = drop n (outb s @ coming s) \<and> ok s'"
proof (induction n arbitrary: s rule: less_induct)
  case (less n)
  show ?case
  proof (cases "n = 0")
    case True
    then show ?thesis using less.prems by (simp add: stream_Discard.simps)
  next
    case False
    then have "outb s @ coming s \<noteq> []" using less.prems(2) by auto
    from more_output_provides [OF d less.prems(1) this] obtain s1 where
      s1: "more_output d s = Some (True, None, s1)" "ok s1" "outb s1 \<noteq> []" "outb s1 @ coming s1 = outb s @ coming s" .
    let ?m = "min n (length (outb s1))" and ?s2 = "s1\<lparr>outb := drop (min n (length (outb s1))) (outb s1)\<rparr>"
    have s2: "ok ?s2" "coming ?s2 = coming s1" using d s1(2) by (simp_all add: provides_def)
    have all: "outb ?s2 @ coming ?s2 = drop ?m (outb s @ coming s)" using s2(2) s1(4) [symmetric] by simp
    have "n - ?m < n" using s1(3) False by simp
    moreover have "n - ?m \<le> length (outb ?s2 @ coming ?s2)" unfolding all using less.prems(2) by auto
    ultimately obtain s' where s': "stream_Discard d (int (n - ?m)) ?s2 = Some (True, None, s')"
      "outb s' @ coming s' = drop (n - ?m) (outb ?s2 @ coming ?s2)" "ok s'"
      using less.IH s2(1) by blast
    have "int n - int ?m = int (n - ?m)" by simp
    then have "stream_Discard d (int n) s = stream_Discard d (int (n - ?m)) ?s2"
      using s1(1) False by (subst stream_Discard.simps) (simp add: Let_def)
    moreover have "outb s' @ coming s' = drop n (outb s @ coming s)" unfolding s'(2) all by (simp del: drop_append)
    ultimately show ?thesis using s' by simp
  qed
qed

lemma stream_WriteTo_provides:
  assumes d: "provides d ok coming"
  shows "ok s \<Longrightarrow> n \<le> length (outb s @ coming s) \<Longrightarrow>
    \<exists>s'. stream_WriteTo d append_all (int n) extracted acc s = Some (True, None, extracted + int n, acc @ take n (outb s @ coming s), s')
      \<and> outb s' @ coming s' = drop n (outb s @ coming s) \<and> ok s'"
proof (induction n arbitrary: s extracted acc rule: less_induct)
  case (less n)
  show ?case
  proof (cases "n = 0")
    case True
    then show ?thesis using less.prems by (simp add: stream_WriteTo.simps)
  next
    case False
    then have "outb s @ coming s \<noteq> []" using less.prems(2) by auto
    from more_output_provides [OF d less.prems(1) this] obtain s1 where
      s1: "more_output d s = Some (True, None, s1)" "ok s1" "outb s1 \<noteq> []" "outb s1 @ coming s1 = outb s @ coming s" .
    let ?m = "min n (length (outb s1))" and ?s2 = "s1\<lparr>outb := drop (min n (length (outb s1))) (outb s1)\<rparr>"
    let ?p = "take ?m (outb s1)"
    have s2: "ok ?s2" "coming ?s2 = coming s1" using d s1(2) by (simp_all add: provides_def)
    have all: "outb ?s2 @ coming ?s2 = drop ?m (outb s @ coming s)" using s2(2) s1(4) [symmetric] by simp
    have p: "?p = take ?m (outb s @ coming s)" using s1(4) [symmetric] by simp
    have "n - ?m < n" using s1(3) False by simp
    moreover have "n - ?m \<le> length (outb ?s2 @ coming ?s2)" unfolding all using less.prems(2) by auto
    ultimately obtain s' where s': "stream_WriteTo d append_all (int (n - ?m)) (extracted + int ?m) (acc @ ?p) ?s2
        = Some (True, None, extracted + int ?m + int (n - ?m), (acc @ ?p) @ take (n - ?m) (outb ?s2 @ coming ?s2), s')"
      "outb s' @ coming s' = drop (n - ?m) (outb ?s2 @ coming ?s2)" "ok s'"
      using less.IH s2(1) by blast
    have "int n - int ?m = int (n - ?m)" by simp
    then have "stream_WriteTo d append_all (int n) extracted acc s = stream_WriteTo d append_all (int (n - ?m)) (extracted + int ?m) (acc @ ?p) ?s2"
      using s1(1) False by (subst stream_WriteTo.simps) (simp add: Let_def append_all_def)
    moreover have "outb s' @ coming s' = drop n (outb s @ coming s)" unfolding s'(2) all by (simp del: drop_append)
    moreover have "?p @ take (n - ?m) (outb ?s2 @ coming ?s2) = take n (outb s @ coming s)"
      unfolding all p using take_add [of ?m "n - ?m" "outb s @ coming s"] by simp
    ultimately show ?thesis using s' by (intro exI [of _ s']) (simp del: take_append)
  qed
qed

lemma provides_reader:
  assumes d: "provides d ok coming"
  shows "extract_reader ok (\<lambda>s. outb s @ coming s) (stream_Read d) (stream_Discard d) (stream_put d)"
proof
  fix s and len :: nat
  assume "ok s" "0 < len" "outb s @ coming s \<noteq> []"
  from more_output_provides [OF d this(1,3)] obtain s1 where
    s1: "more_output d s = Some (True, None, s1)" "ok s1" "outb s1 \<noteq> []" "outb s1 @ coming s1 = outb s @ coming s" .
  let ?s2 = "s1\<lparr>outb := drop len (outb s1)\<rparr>"
  have "outb s @ coming s = take len (outb s1) @ outb ?s2 @ coming ?s2"
    using d s1(4) by (simp add: provides_def append_assoc [symmetric] del: append_assoc)
  moreover have "ok ?s2" using d s1(2) by (simp add: provides_def)
  moreover have "stream_Read d len s = Some (Inr (take len (outb s1)), ?s2)" using s1(1) by (simp add: stream_Read_def)
  moreover have "take len (outb s1) \<noteq> []" using s1(3) \<open>0 < len\<close> by simp
  moreover have "length (take len (outb s1)) \<le> len" by simp
  ultimately show "\<exists>b s'. stream_Read d len s = Some (Inr b, s') \<and> b \<noteq> [] \<and> length b \<le> len
      \<and> outb s @ coming s = b @ outb s' @ coming s' \<and> ok s'"
    by blast
next
  fix s n
  assume "ok s" "n \<le> length (outb s @ coming s)"
  note s = stream_Discard_provides [OF d this] stream_WriteTo_provides [OF d this, of 0]
  show "\<exists>s'. stream_Discard d (int n) s = Some (True, None, s') \<and> outb s' @ coming s' = drop n (outb s @ coming s) \<and> ok s'"
    by (rule s(1))
  show "\<exists>s'. stream_put d (int n) acc s = Some (True, acc @ take n (outb s @ coming s), s')
      \<and> outb s' @ coming s' = drop n (outb s @ coming s) \<and> ok s'" for acc
    using s(2) [of acc] by (auto simp: stream_put_def)
qed

section \<open>Decoders that decode\<close>

text \<open>
  What the libraries document of a streaming decoder: \<open>D z bs\<close> is what the decoder gives from a
  state for all of its input to come. As long as this is not empty, a step does not fail, its
  output fits into the buffer and is the start of it, and the rest comes from the new
  state and the input that is left. A step that leaves room in the buffer has taken all of its
  input, and then what is still to come needs more.
\<close>

definition decodes :: "('z \<Rightarrow> byte list \<Rightarrow> ret \<times> byte list \<times> byte list \<times> 'z) \<Rightarrow> (ret \<Rightarrow> bool) \<Rightarrow> ('z \<Rightarrow> byte list \<Rightarrow> byte list) \<Rightarrow> bool" where
  "decodes code fails D \<longleftrightarrow> (\<forall>z inp more ret out inp' z'. code z inp = (ret, out, inp', z') \<longrightarrow> D z (inp @ more) \<noteq> [] \<longrightarrow>
     \<not> fails ret \<and> length out \<le> tar_outsize \<and> D z (inp @ more) = out @ D z' (inp' @ more)
     \<and> (D z' (inp' @ more) \<noteq> [] \<longrightarrow> ret \<noteq> RET_STREAM_END \<and> (length out < tar_outsize \<longrightarrow> inp' = [] \<and> more \<noteq> [])))"

definition coming :: "('z \<Rightarrow> byte list \<Rightarrow> byte list) \<Rightarrow> ('z, 'a) stream_scheme \<Rightarrow> byte list" where
  "coming D s = D (zst s) (inb s @ src s)"

text \<open>When the reader is about to read, it has no input left that it would overwrite.\<close>

definition reads_next :: "('z, 'a) gzip_scheme \<Rightarrow> bool" where
  "reads_next s \<longleftrightarrow> zs_avail_out s \<noteq> 0 \<or> pickBytes s = 0"

definition pump_ok :: "('z \<Rightarrow> byte list \<Rightarrow> byte list) \<Rightarrow> ('z, 'a) gzip_scheme \<Rightarrow> bool" where
  "pump_ok D s \<longleftrightarrow> (reads_next s \<longrightarrow> coming D s \<noteq> [] \<longrightarrow> inb s = [] \<and> src s \<noteq> [])"

lemma handing_out [simp]: "coming D (s\<lparr>outb := b\<rparr>) = coming D s" "pump_ok D (s'\<lparr>outb := b\<rparr>) = pump_ok D s'"
  by (simp_all add: coming_def pump_ok_def reads_next_def)

lemma pump_provides:
  assumes dec: "decodes code fails D"
    and note_ret: "\<And>ret s. src (note_ret ret s) = src s" "\<And>ret s. zst (note_ret ret s) = zst s" "\<And>ret s. inb (note_ret ret s) = inb s"
      "\<And>ret s. zs_avail_out (note_ret ret s) = zs_avail_out s" "\<And>ret s. pickBytes (note_ret ret s) = pickBytes s"
    and "pump_ok D s" "coming D s \<noteq> []"
  shows "\<exists>s' ret s0. pump code fails note_ret s = Some (True, None, s') \<and> s' = note_ret ret s0\<lparr>outb := outb s'\<rparr> \<and> pump_ok D s' \<and> outb s' \<noteq> []
    \<and> outb s' @ coming D s' = coming D s \<and> (coming D s' \<noteq> [] \<longrightarrow> ret \<noteq> RET_STREAM_END)"
  using assms(7,8)
proof (induction "length (src s) + (if reads_next s then 0 else 1)" arbitrary: s rule: less_induct)
  case less
  define s1 where "s1 = (if reads_next s then pick tar_insize s else s)"
  have s1: "coming D s1 = coming D s" "reads_next s \<Longrightarrow> length (src s1) < length (src s)" "\<not> reads_next s \<Longrightarrow> src s1 = src s"
    "pickBytes s1 \<noteq> 0" "\<not> (reads_next s \<and> src s = [])"
    using less.prems by (auto simp: s1_def pick_def coming_def pump_ok_def reads_next_def tar_insize_def)
  obtain ret out inp z where c: "code (zst s1) (inb s1) = (ret, out, inp, z)" by (metis prod_cases4)
  have law: "\<not> fails ret" "length out \<le> tar_outsize" "coming D s1 = out @ D z (inp @ src s1)"
    "D z (inp @ src s1) \<noteq> [] \<Longrightarrow> ret \<noteq> RET_STREAM_END \<and> (length out < tar_outsize \<longrightarrow> inp = [] \<and> src s1 \<noteq> [])"
    using dec c less.prems(2) s1(1) unfolding decodes_def coming_def by metis+
  define s2 where "s2 = (note_ret ret (s1\<lparr>zst := z, inb := inp, zs_avail_out := tar_outsize - length out\<rparr>))\<lparr>outb := out\<rparr>"
  have s2: "coming D s2 = D z (inp @ src s1)" "src s2 = src s1" "inb s2 = inp" "outb s2 = out"
    "reads_next s2 \<longleftrightarrow> length out < tar_outsize"
    using s1(4) law(2) by (auto simp: s2_def coming_def reads_next_def note_ret)
  have ok2: "pump_ok D s2" using s2 law(4) by (simp add: pump_ok_def)
  have unf: "pump code fails note_ret s = (if out \<noteq> [] then Some (True, None, s2) else pump code fails note_ret s2)"
    using law(1,2) c
    by (subst pump.simps, unfold reads_next_def [symmetric] s1_def [symmetric] if_not_P [OF s1(5)])
      (simp add: s2_def room_def Let_def tar_outsize_def)
  show ?case
  proof (cases "out = []")
    case True
    have "reads_next s2" using s2(5) True by (simp add: tar_outsize_def)
    then have "length (src s2) + (if reads_next s2 then 0 else 1) < length (src s) + (if reads_next s then 0 else 1)"
      using s2(2) s1(2,3) by auto
    moreover have "coming D s2 = coming D s" using s1(1) law(3) s2(1) True by simp
    ultimately show ?thesis using less.hyps [of s2] ok2 less.prems(2) unf True by auto
  next
    case False
    have "s2 = note_ret ret (s1\<lparr>zst := z, inb := inp, zs_avail_out := tar_outsize - length out\<rparr>)\<lparr>outb := outb s2\<rparr>"
      by (simp add: s2_def)
    moreover have "outb s2 @ coming D s2 = coming D s" using s1(1) law(3) s2(1,4) by simp
    ultimately show ?thesis using unf False ok2 s2(1,4) law(4) by (intro exI [of _ s2]) auto
  qed
qed

lemma gzip_provides:
  assumes "decodes (inflate m) gzip_fails D"
  shows "provides (gzip_decompress m) (pump_ok D) (coming D)"
  unfolding provides_def gzip_decompress_def using pump_provides [OF assms, of "\<lambda>ret s. s"] by fastforce

definition bzip_ok :: "('z \<Rightarrow> byte list \<Rightarrow> byte list) \<Rightarrow> 'z bzip \<Rightarrow> bool" where
  "bzip_ok D s \<longleftrightarrow> pump_ok D s \<and> (coming D s \<noteq> [] \<longrightarrow> bz_ret s \<noteq> RET_STREAM_END)"

lemma bzip_provides:
  assumes "decodes (bz_decompress m) bzip_fails D"
  shows "provides (bzip_decompress m) (bzip_ok D) (coming D)"
proof -
  have "\<exists>s'. bzip_decompress m s = Some (True, None, s') \<and> bzip_ok D s' \<and> outb s' \<noteq> [] \<and> outb s' @ coming D s' = coming D s"
    if s: "bzip_ok D s" "coming D s \<noteq> []" for s
  proof -
    obtain s' ret s0 where s': "pump (bz_decompress m) bzip_fails (\<lambda>ret s. s\<lparr>bz_ret := ret\<rparr>) s = Some (True, None, s')"
      "s' = s0\<lparr>bz_ret := ret\<rparr>\<lparr>outb := outb s'\<rparr>" "pump_ok D s'" "outb s' \<noteq> []" "outb s' @ coming D s' = coming D s"
      "coming D s' \<noteq> [] \<longrightarrow> ret \<noteq> RET_STREAM_END"
      using pump_provides [OF assms, of "\<lambda>ret s. s\<lparr>bz_ret := ret\<rparr>" s] s by (auto simp: bzip_ok_def)
    have "bz_ret s' = ret" by (subst s'(2)) simp
    then show ?thesis using s s' by (auto simp: bzip_decompress_def bzip_ok_def)
  qed
  then show ?thesis by (simp add: provides_def bzip_ok_def)
qed

text \<open>
  The same for Zstandard, whose reader asks for more input when there is none left: what is
  still to come must need some.
\<close>

definition zstd_decodes :: "'z machines \<Rightarrow> ('z \<Rightarrow> byte list \<Rightarrow> byte list) \<Rightarrow> bool" where
  "zstd_decodes m D \<longleftrightarrow> (\<forall>z inp more e out inp' z'. zstd_stream m z inp = (e, out, inp', z') \<longrightarrow> inp \<noteq> [] \<longrightarrow> D z (inp @ more) \<noteq> [] \<longrightarrow>
     \<not> e \<and> length out \<le> ZSTD_DStreamOutSize \<and> D z (inp @ more) = out @ D z' (inp' @ more)
     \<and> (length inp' < length inp \<or> out \<noteq> []) \<and> (D z' (inp' @ more) \<noteq> [] \<longrightarrow> inp' @ more \<noteq> []))"

definition zstd_ok :: "('z \<Rightarrow> byte list \<Rightarrow> byte list) \<Rightarrow> 'z stream \<Rightarrow> bool" where
  "zstd_ok D s \<longleftrightarrow> (coming D s \<noteq> [] \<longrightarrow> inb s @ src s \<noteq> [])"

lemma zstd_decompress_provides:
  assumes dec: "zstd_decodes m D"
  shows "zstd_ok D s \<Longrightarrow> coming D s \<noteq> [] \<Longrightarrow>
    \<exists>s'. zstd_decompress m s = Some (True, None, s') \<and> zstd_ok D s' \<and> outb s' \<noteq> [] \<and> outb s' @ coming D s' = coming D s"
proof (induction "length (inb s @ src s)" arbitrary: s rule: less_induct)
  case less
  define s1 where "s1 = (if inb s = [] then pick ZSTD_DStreamInSize s else s)"
  have s1: "coming D s1 = coming D s" "inb s1 @ src s1 = inb s @ src s" "inb s1 \<noteq> []" "\<not> (inb s = [] \<and> src s = [])"
    using less.prems by (auto simp: s1_def pick_def coming_def zstd_ok_def ZSTD_DStreamInSize_def)
  obtain e out inp z where c: "zstd_stream m (zst s1) (inb s1) = (e, out, inp, z)" by (metis prod_cases4)
  have law: "\<not> e" "length out \<le> ZSTD_DStreamOutSize" "coming D s1 = out @ D z (inp @ src s1)"
    "length inp < length (inb s1) \<or> out \<noteq> []" "D z (inp @ src s1) \<noteq> [] \<longrightarrow> inp @ src s1 \<noteq> []"
    using dec c less.prems(2) s1(1,3) unfolding zstd_decodes_def coming_def by metis+
  define s2 where "s2 = s1\<lparr>zst := z, inb := inp, outb := out\<rparr>"
  have s2: "coming D s2 = D z (inp @ src s1)" "zstd_ok D s2" "outb s2 = out" "inb s2 @ src s2 = inp @ src s1"
    using law(5) by (simp_all add: s2_def coming_def zstd_ok_def)
  have unf: "zstd_decompress m s = (if out \<noteq> [] then Some (True, None, s2) else zstd_decompress m s2)"
    using law(1,2) c
    by (subst zstd_decompress.simps, unfold s1_def [symmetric] if_not_P [OF s1(4)])
      (simp add: s2_def room_def Let_def ZSTD_DStreamOutSize_def)
  show ?case
  proof (cases "out = []")
    case True
    have "length (inb s2 @ src s2) < length (inb s @ src s)"
      using law(4) True unfolding s2(4) s1(2) [symmetric] by simp
    moreover have "coming D s2 = coming D s" using s1(1) law(3) s2(1) True by simp
    ultimately show ?thesis using less.hyps [of s2] s2(2) less.prems(2) unf True by auto
  next
    case False
    then show ?thesis using unf s2 s1(1) law(3) by (intro exI [of _ s2]) simp
  qed
qed

lemma zstd_provides:
  assumes "zstd_decodes m D"
  shows "provides (zstd_decompress m) (zstd_ok D) (coming D)"
proof -
  have "zstd_ok D (s\<lparr>outb := b\<rparr>) = zstd_ok D s" for s b by (simp add: zstd_ok_def)
  then show ?thesis using zstd_decompress_provides [OF assms] by (simp add: provides_def)
qed

text \<open>
  The xz decoder is driven to the end of its stream, so that its law is about valid streams: a
  step gives output within the room it has, and takes some input or gives some output unless
  it ends the stream; from its initial state it takes some input.
\<close>

definition xz_decodes :: "'z machines \<Rightarrow> ('z \<Rightarrow> byte list \<Rightarrow> bool) \<Rightarrow> ('z \<Rightarrow> byte list \<Rightarrow> byte list) \<Rightarrow> bool" where
  "xz_decodes m V D \<longleftrightarrow> (\<forall>z inp more avail ret out inp' z'. lzma_step m z (inp = []) inp avail = (ret, out, inp', z') \<longrightarrow>
     V z (inp @ more) \<longrightarrow> (inp = [] \<longrightarrow> more = []) \<longrightarrow> 0 < avail \<longrightarrow>
     V z' (inp' @ more) \<and> length out \<le> avail \<and> D z (inp @ more) = out @ D z' (inp' @ more) \<and> length inp' \<le> length inp
     \<and> (ret = RET_STREAM_END \<and> D z' (inp' @ more) = [] \<or> ret = RET_OK \<and> (length inp' < length inp \<or> out \<noteq> []))
     \<and> (xz_init m = Some z \<longrightarrow> inp \<noteq> [] \<and> length inp' < length inp))"

definition xz_coming :: "('z \<Rightarrow> byte list \<Rightarrow> byte list) \<Rightarrow> 'z xz \<Rightarrow> byte list" where
  "xz_coming D s = filled s @ coming D s"

definition xz_ok :: "'z machines \<Rightarrow> ('z \<Rightarrow> byte list \<Rightarrow> bool) \<Rightarrow> ('z \<Rightarrow> byte list \<Rightarrow> byte list) \<Rightarrow> 'z xz \<Rightarrow> bool" where
  "xz_ok m V D s \<longleftrightarrow> V (zst s) (inb s @ src s) \<and> length (filled s) < tar_xzoutsize \<and> (xz_coming D s \<noteq> [] \<longrightarrow> xz_ret s \<noteq> RET_STREAM_END)
     \<and> (xz_total_in s = 0 \<longrightarrow> inb s = [] \<and> xz_init m = Some (zst s))"

lemma xz_loop_provides:
  assumes dec: "xz_decodes m V D"
  shows "xz_ok m V D s \<Longrightarrow> xz_coming D s \<noteq> [] \<Longrightarrow>
    \<exists>s'. xz_loop m s = Some (True, None, s') \<and> xz_ok m V D s' \<and> outb s' \<noteq> [] \<and> outb s' @ xz_coming D s' = xz_coming D s"
proof (induction "length (inb s @ src s) + (tar_xzoutsize - length (filled s))" arbitrary: s rule: less_induct)
  case less
  define s1 where "s1 = (if inb s = [] \<or> xz_total_in s = 0 then pick tar_xzinsize s else s)"
  have s1: "inb s1 @ src s1 = inb s @ src s" "zst s1 = zst s" "filled s1 = filled s" "inb s1 = [] \<longrightarrow> src s1 = []"
    "coming D s1 = coming D s" "xz_total_in s1 = xz_total_in s"
    using less.prems(1) by (auto simp: s1_def pick_def coming_def xz_ok_def tar_xzinsize_def)
  obtain ret out inp z where c: "lzma_step m (zst s1) (inb s1 = []) (inb s1) (tar_xzoutsize - length (filled s1)) = (ret, out, inp, z)"
    by (metis prod_cases4)
  have ok: "V (zst s1) (inb s1 @ src s1)" "0 < tar_xzoutsize - length (filled s1)" using less.prems(1) s1 by (auto simp: xz_ok_def)
  have law: "V z (inp @ src s1)" "length out \<le> tar_xzoutsize - length (filled s1)" "coming D s1 = out @ D z (inp @ src s1)"
    "length inp \<le> length (inb s1)"
    "ret = RET_STREAM_END \<and> D z (inp @ src s1) = [] \<or> ret = RET_OK \<and> (length inp < length (inb s1) \<or> out \<noteq> [])"
    "xz_init m = Some (zst s1) \<longrightarrow> inb s1 \<noteq> [] \<and> length inp < length (inb s1)"
    using dec [unfolded xz_decodes_def, rule_format, OF c ok(1) _ ok(2)] s1(4) unfolding coming_def by blast+
  define s2 where "s2 = s1\<lparr>zst := z, inb := inp, xz_total_in := xz_total_in s1 + (length (inb s1) - length inp), xz_ret := ret\<rparr>"
  have total: "xz_total_in s2 \<noteq> 0" using law(4,6) less.prems(1) s1(2,6) by (auto simp: s2_def xz_ok_def)
  have s2: "coming D s2 = D z (inp @ src s1)" "V (zst s2) (inb s2 @ src s2)" "xz_ret s2 = ret"
    "length (inb s2 @ src s2) + (length (inb s1) - length inp) = length (inb s @ src s)"
    using law(1,4) s1(1) by (simp_all add: s2_def coming_def flip: s1(1))
  let ?out = "filled s @ out"
  have room: "room tar_xzoutsize (filled s1 @ out) = ?out" using law(2) s1(3) ok(2) by (simp add: room_def)
  have whole: "?out @ coming D s2 = xz_coming D s" using law(3) s1(5) s2(1) by (simp add: xz_coming_def)
  have unf: "xz_loop m s = (if length ?out = tar_xzoutsize \<or> ret = RET_STREAM_END then Some (True, None, s2\<lparr>outb := ?out, filled := []\<rparr>)
      else if ret \<noteq> RET_OK then Some (False, Some ErrExtractGeneral, s2\<lparr>filled := ?out\<rparr>) else xz_loop m (s2\<lparr>filled := ?out\<rparr>))"
    using c room by (subst xz_loop.simps, unfold s1_def [symmetric]) (simp add: s2_def Let_def)
  show ?case
  proof (cases "length ?out = tar_xzoutsize \<or> ret = RET_STREAM_END")
    case True
    let ?s = "s2\<lparr>outb := ?out, filled := []\<rparr>"
    have coming: "xz_coming D ?s = coming D s2" by (simp add: xz_coming_def coming_def)
    have "xz_ok m V D ?s" using s2 law(5) total coming by (auto simp: xz_ok_def tar_xzoutsize_def)
    moreover have "?out \<noteq> []" using True law(5) s2(1) whole less.prems(2) by (auto simp: tar_xzoutsize_def)
    ultimately show ?thesis using unf True coming whole by (intro exI [of _ ?s]) simp
  next
    case False
    let ?s = "s2\<lparr>filled := ?out\<rparr>"
    have ret: "ret = RET_OK" "length inp < length (inb s1) \<or> out \<noteq> []" using False law(5) by auto
    have len: "length ?out < tar_xzoutsize" using False law(2) s1(3) ok(2) by auto
    have coming: "xz_coming D ?s = xz_coming D s" using whole by (simp add: xz_coming_def coming_def)
    have "xz_ok m V D ?s" using s2 len total ret(1) by (auto simp: xz_ok_def)
    moreover have "length (inb ?s @ src ?s) + (tar_xzoutsize - length (filled ?s)) < length (inb s @ src s) + (tar_xzoutsize - length (filled s))"
    proof -
      have "length inp < length (inb s1) \<or> 0 < length out" using ret(2) by simp
      then show ?thesis using s2(4) len law(4) by (simp del: length_greater_0_conv) linarith
    qed
    ultimately obtain s' where "xz_loop m ?s = Some (True, None, s') \<and> xz_ok m V D s' \<and> outb s' \<noteq> [] \<and> outb s' @ xz_coming D s' = xz_coming D ?s"
      using less.hyps [of ?s] less.prems(2) coming by auto
    then show ?thesis using unf False ret(1) coming by auto
  qed
qed

lemma xz_provides:
  assumes "xz_decodes m V D"
  shows "provides (xz_decompress m) (xz_ok m V D) (xz_coming D)"
proof -
  have "\<exists>s'. xz_decompress m s = Some (True, None, s') \<and> xz_ok m V D s' \<and> outb s' \<noteq> [] \<and> outb s' @ xz_coming D s' = xz_coming D s"
    if "xz_ok m V D s" "xz_coming D s \<noteq> []" for s
    using xz_loop_provides [OF assms that] that by (simp add: xz_decompress_def xz_ok_def)
  then show ?thesis by (simp add: provides_def xz_ok_def xz_coming_def coming_def)
qed

section \<open>Compressed archives read like plain ones\<close>

text \<open>
  A file holds the data in a format when the decoder of the format behaves as its library
  documents it and gives the data for the file.
\<close>

definition holds_data :: "'z machines \<Rightarrow> file_format_t \<Rightarrow> byte list \<Rightarrow> byte list \<Rightarrow> bool" where
  "holds_data m afmt packed data \<longleftrightarrow>
     (case afmt of
        FGz \<Rightarrow> \<exists>z D. gzip_init m = Some z \<and> decodes (inflate m) gzip_fails D \<and> D z [] = [] \<and> D z packed = data
      | FBz2 \<Rightarrow> \<exists>z D. bz_init m = Some z \<and> decodes (bz_decompress m) bzip_fails D \<and> D z [] = [] \<and> D z packed = data
      | FZstd \<Rightarrow> \<exists>z D. zstd_init m = Some z \<and> zstd_decodes m D \<and> D z [] = [] \<and> D z packed = data
      | FXz \<Rightarrow> \<exists>z V D. xz_init m = Some z \<and> xz_decodes m V D \<and> V z packed \<and> D z packed = data
      | _ \<Rightarrow> False)"

fun reader_session :: "'z machines \<Rightarrow> request list \<Rightarrow> 'z ExtractReader \<Rightarrow> byte list list option" where
  "reader_session m rs (GzipReader s) = session (gzip_Read m) (gzip_Discard m) (stream_put (gzip_decompress m)) rs s"
| "reader_session m rs (BzipReader s) = session (bzip_Read m) (bzip_Discard m) (stream_put (bzip_decompress m)) rs s"
| "reader_session m rs (ZstdReader s) = session (zstd_Read m) (zstd_Discard m) (stream_put (zstd_decompress m)) rs s"
| "reader_session m rs (XzReader s) = session (xz_Read m) (xz_Discard m) (stream_put (xz_decompress m)) rs s"
| "reader_session m rs (BrotliReader s) = session (brotli_Read m) (brotli_Discard m)
     (\<lambda>n acc s. map_option (\<lambda>(ok, e, extracted, acc, s). (ok, acc, s)) (brotli_WriteTo m append_all n 0 acc s)) rs s"

lemmas served = provides_reader [THEN extract_reader.session_serves]

lemma MakeReader_serves:
  assumes "holds_data m afmt (drop (nat offset) bytes) data" and "0 \<le> offset" and "sum_list (map amount rs) \<le> length data"
  shows "\<exists>r. MakeReader m bytes offset afmt = Inr r \<and> reader_session m rs r = Some (serve rs data)"
proof -
  let ?p = "drop (nat offset) bytes"
  consider (gz) z D where "afmt = FGz" "gzip_init m = Some z" "decodes (inflate m) gzip_fails D" "D z [] = []" "D z ?p = data"
    | (bz) z D where "afmt = FBz2" "bz_init m = Some z" "decodes (bz_decompress m) bzip_fails D" "D z [] = []" "D z ?p = data"
    | (zs) z D where "afmt = FZstd" "zstd_init m = Some z" "zstd_decodes m D" "D z [] = []" "D z ?p = data"
    | (xz) z V D where "afmt = FXz" "xz_init m = Some z" "xz_decodes m V D" "V z ?p" "D z ?p = data"
    using assms(1) by (auto simp: holds_data_def split: file_format_t.splits)
  then show ?thesis
  proof cases
    case gz
    let ?s = "\<lparr>src = ?p, zst = z, inb = [], outb = [], pickBytes = 0, zs_avail_out = 0\<rparr>"
    have "pump_ok D ?s" "outb ?s @ coming D ?s = data" using gz by (auto simp: pump_ok_def coming_def)
    from served [OF gzip_provides [OF gz(3)] this(1)] this(2) assms(3) show ?thesis
      using gz assms(2) by (simp add: MakeReader_def with_filter_def gzip_Initialize_def gzip_Read_def gzip_Discard_def)
  next
    case bz
    let ?s = "\<lparr>src = ?p, zst = z, inb = [], outb = [], pickBytes = 0, zs_avail_out = 0, bz_ret = RET_OK\<rparr>"
    have "bzip_ok D ?s" "outb ?s @ coming D ?s = data" using bz by (auto simp: bzip_ok_def pump_ok_def coming_def)
    from served [OF bzip_provides [OF bz(3)] this(1)] this(2) assms(3) show ?thesis
      using bz assms(2) by (simp add: MakeReader_def with_filter_def bzip_Initialize_def bzip_Read_def bzip_Discard_def)
  next
    case zs
    let ?s = "\<lparr>src = ?p, zst = z, inb = [], outb = [], pickBytes = 0\<rparr>"
    have "zstd_ok D ?s" "outb ?s @ coming D ?s = data" using zs by (auto simp: zstd_ok_def coming_def)
    from served [OF zstd_provides [OF zs(3)] this(1)] this(2) assms(3) show ?thesis
      using zs assms(2) by (simp add: MakeReader_def with_filter_def zstd_Initialize_def zstd_Read_def zstd_Discard_def)
  next
    case xz
    let ?s = "\<lparr>src = ?p, zst = z, inb = [], outb = [], pickBytes = 0, filled = [], xz_total_in = 0, xz_ret = RET_OK\<rparr>"
    have "xz_ok m V D ?s" "outb ?s @ xz_coming D ?s = data" using xz by (auto simp: xz_ok_def xz_coming_def coming_def tar_xzoutsize_def)
    from served [OF xz_provides [OF xz(3)] this(1)] this(2) assms(3) show ?thesis
      using xz assms(2) by (simp add: MakeReader_def with_filter_def xz_Initialize_def xz_Read_def xz_Discard_def)
  qed
qed

text \<open>
  C5: A compressed archive reads like the archive itself. If a file holds data in gzip, bzip2,
  Zstandard or xz format from an offset on, \<open>MakeReader\<close> gives a reader for it, and every sequence
  of requests for blocks, gaps and contents, in any order and as long as the data last, is
  answered with the same bytes as by the reader of a plain file that holds the data.
\<close>

theorem MakeReader_refines_file:
  assumes "holds_data m afmt (drop (nat offset) bytes) data" and "0 \<le> offset" and "sum_list (map amount rs) \<le> length data"
  shows "\<exists>r answers. MakeReader m bytes offset afmt = Inr r \<and> reader_session m rs r = Some answers
    \<and> session FileReader_Read FileReader_Discard FileReader_put rs
        \<lparr>contents = data, position = 0, remainingSize = 0, paddingSize = 0, index = 0\<rparr> = Some answers"
proof -
  let ?r = "\<lparr>contents = data, position = 0, remainingSize = 0, paddingSize = 0, index = 0\<rparr>"
  have "0 \<le> position ?r" "file_rest ?r = data" by (simp_all add: file_rest_def)
  from plain.session_serves [OF this(1), of rs] this(2) assms(3) show ?thesis using MakeReader_serves [OF assms] by auto
qed

text \<open>A decoder of data that are not compressed, behind three bytes that it skips.\<close>

definition skipping :: "nat machines" where
  "skipping = \<lparr>fresh = (\<lambda>n. replicate n 0), gzip_init = Some 3, inflate_init = None,
     inflate = (\<lambda>z inp. (RET_OK, take tar_outsize (drop z inp), drop tar_outsize (drop z inp), z - length inp)),
     bz_init = None, bz_decompress = (\<lambda>z inp. (RET_OK, [], [], z)),
     zstd_init = None, zstd_stream = (\<lambda>z inp. (False, [], [], z)),
     brotli_init = Some 0, brotli_stream = (\<lambda>z inp. (BROTLI_NEEDS_MORE_INPUT, inp, [], z)),
     xz_init = None, lzma_init = None, lzma_step = (\<lambda>z action inp n. (RET_OK, [], [], z)),
     back9_init = None, back9 = (\<lambda>z. Return RET_OK),
     ppmd_alloc = (\<lambda>n. None), ppmd_rangedec = (\<lambda>z. Symbol 1 z), ppmd_model = (\<lambda>ord mem z. z), ppmd_decode = (\<lambda>z. Symbol (-1) z)\<rparr>"

lemma drop_pieces: "drop z (inp @ ys) = take k (drop z inp) @ drop (z - length inp) (drop k (drop z inp) @ ys)"
  by (cases "z \<le> length inp") (simp_all add: append_assoc [symmetric] del: append_assoc drop_drop)

lemma skipping_decodes: "decodes (inflate skipping) gzip_fails drop"
  unfolding decodes_def
proof (intro allI impI)
  fix z inp ys ret out inp' z'
  assume "inflate skipping z inp = (ret, out, inp', z')"
  then have e: "ret = RET_OK" "out = take tar_outsize (drop z inp)" "inp' = drop tar_outsize (drop z inp)" "z' = z - length inp"
    by (simp_all add: skipping_def)
  show "\<not> gzip_fails ret \<and> length out \<le> tar_outsize \<and> drop z (inp @ ys) = out @ drop z' (inp' @ ys)
     \<and> (drop z' (inp' @ ys) \<noteq> [] \<longrightarrow> ret \<noteq> RET_STREAM_END \<and> (length out < tar_outsize \<longrightarrow> inp' = [] \<and> ys \<noteq> []))"
    unfolding e using drop_pieces [of z inp ys tar_outsize] by (auto simp: gzip_fails_def)
qed

theorem MakeReader_refines_file_witness:
  "\<exists>r. MakeReader skipping (1 # gzMagic @ [5, 6, 7, 8]) 1 FGz = Inr r \<and> reader_session skipping [Block 1, Gap 1, Contents 2] r = Some [[5], [7, 8]]"
proof -
  have "holds_data skipping FGz (drop (nat 1) (1 # gzMagic @ [5, 6, 7, 8])) [5, 6, 7, 8]"
    using skipping_decodes by (auto simp: holds_data_def gzMagic_def skipping_def intro!: exI [of _ drop])
  from MakeReader_refines_file [OF this, of "[Block 1, Gap 1, Contents 2]"]
  obtain r answers where r: "MakeReader skipping (1 # gzMagic @ [5, 6, 7, 8]) 1 FGz = Inr r"
    "reader_session skipping [Block 1, Gap 1, Contents 2] r = Some answers"
    "session FileReader_Read FileReader_Discard FileReader_put [Block 1, Gap 1, Contents 2]
       \<lparr>contents = [5, 6, 7, 8], position = 0, remainingSize = 0, paddingSize = 0, index = 0\<rparr> = Some answers" by auto
  have "answers = [[5], [7, 8]]"
    using r(3) plain.session_serves [of "\<lparr>contents = [5, 6, 7, 8], position = 0, remainingSize = 0, paddingSize = 0, index = 0\<rparr>"
      "[Block 1, Gap 1, Contents 2]"] by (simp add: file_rest_def)
  then show ?thesis using r(1,2) by blast
qed

section \<open>Where the readers fail\<close>

lemma brotli_WriteTo_never:
  assumes "brotli_WriteTo m w filesize extracted ws s = Some (ok, e, n, ws', s')" and "0 < filesize"
  shows "\<not> ok"
proof -
  have "0 < filesize \<longrightarrow> \<not> fst y" if "brotli_WriteTo m w filesize extracted ws s = Some y" for y
    using that
  proof (rule brotli_WriteTo.raw_induct [rotated])
    fix L m w filesize extracted ws s y
    assume IH: "\<And>m w filesize extracted ws s y. L m w filesize extracted ws s = Some y \<Longrightarrow> 0 < filesize \<longrightarrow> \<not> fst y"
      and step: "(if filesize \<le> 0 then Some (True, None, extracted, ws, s)
      else do {
        (ok, e, s) \<leftarrow> more_output (brotli_decompress m) s;
        if \<not> ok then Some (False, e, extracted, ws, s)
        else let minsize = min (nat filesize) (length (outb s));
                 p = take minsize (outb s);
                 s = s\<lparr>outb := drop minsize (outb s)\<rparr>
             in if fst (w ws p) then L m w filesize (extracted + int minsize) (snd (w ws p)) s
                else Some (False, None, extracted + int minsize, snd (w ws p), s)
      }) = Some y"
    show "0 < filesize \<longrightarrow> \<not> fst y"
      using step by (auto simp: bind_eq_Some_conv Let_def split: if_splits dest: IH)
  qed
  then show ?thesis using assms by fastforce
qed

text \<open>
  C24: A brotli archive cannot be read. Whatever the file holds and whatever the decoder would
  do, the reader that \<open>MakeReader\<close> gives answers its first read with an error, because the result
  of the last step starts out as the code of an error; and from no state does \<open>WriteTo\<close>
  ever succeed for a file that is not empty, because it never counts down the size.
\<close>

theorem brotli_reader_fails:
  assumes "MakeReader m bytes offset FBrotli = Inr (BrotliReader s)"
  shows "brotli_Read m len s = Some (Inl (Some ErrExtractGeneral), s)
    \<and> (0 < filesize \<longrightarrow> brotli_WriteTo m w filesize extracted ws s1 \<noteq> Some (True, e, n, ws', s'))"
proof -
  have "result s = BROTLI_ERROR" "outb s = []"
    using assms by (auto simp: MakeReader_def with_filter_def brotli_Initialize_def Let_def split: if_splits option.splits)
  then have "brotli_Read m len s = Some (Inl (Some ErrExtractGeneral), s)"
    by (simp add: brotli_Read_def stream_Read_def more_output_def brotli_decompress_def)
  then show ?thesis using brotli_WriteTo_never [of m w filesize extracted ws s1 True] by auto
qed

theorem brotli_reader_fails_witness:
  "\<exists>s. MakeReader skipping [1, 2, 3] 0 FBrotli = Inr (BrotliReader s)
     \<and> brotli_Read skipping 512 s = Some (Inl (Some ErrExtractGeneral), s)
     \<and> brotli_WriteTo skipping append_all 3 0 [] s \<noteq> Some (True, None, 3, [1, 2, 3], s)"
proof -
  let ?s = "\<lparr>src = [1, 2, 3], zst = 0, inb = [], outb = [], pickBytes = 0, result = BROTLI_ERROR\<rparr>"
  have "MakeReader skipping [1, 2, 3] 0 FBrotli = Inr (BrotliReader ?s)"
    by (simp add: MakeReader_def with_filter_def brotli_Initialize_def skipping_def)
  from this brotli_reader_fails [OF this, of 512 3 append_all 0 "[]" ?s] show ?thesis by auto
qed

text \<open>
  A gzip file that ends before its data do: the reader fails without an error code, so that
  nothing tells the end of the archive from a truncated one.
\<close>

lemma gzip_truncated:
  assumes "reads_next s" "src s = []" "outb s = []"
  shows "gzip_Read m len s = Some (Inl None, s)" and "0 < n \<Longrightarrow> gzip_WriteTo m w n extracted ws s = Some (False, None, extracted, ws, s)"
proof -
  have "gzip_decompress m s = Some (False, None, s)"
    unfolding gzip_decompress_def using assms(1,2) by (subst pump.simps) (simp add: reads_next_def)
  then show "gzip_Read m len s = Some (Inl None, s)" "0 < n \<Longrightarrow> gzip_WriteTo m w n extracted ws s = Some (False, None, extracted, ws, s)"
    using assms(3) by (simp_all add: gzip_Read_def stream_Read_def more_output_def gzip_WriteTo_def stream_WriteTo.simps)
qed

end
