(* ===== verification/Baulk_Zip.thy ===== *)
theory Baulk_Zip
  imports Bela_Io Bela_Time
begin

text \<open>
  The reader of zip archives (\<^verbatim>\<open>lib/archive/zip/zip.cc\<close>, \<^verbatim>\<open>filemode.cc\<close>,
  \<^verbatim>\<open>baulk/archive/zip.hpp\<close>): the search for the end of the central directory, with its zip64
  variant, the decoding of the entries with their extra fields, and the opening of an
  archive. A result \<open>None\<close> is a read outside of the memory of the program, an error of the
  code is \<open>Inl\<close>. The theorems show that opening an archive gives back the entries that were
  written into it, and where the memory behind the extra fields gets into the result.
\<close>

section \<open>Data\<close>

datatype zip_error = ErrNotZip | ErrCommentLength | ErrImpossible | ErrRead

definition directoryHeaderSignature :: nat where "directoryHeaderSignature = 0x02014b50"
definition directory64LocSignature :: nat where "directory64LocSignature = 0x07064b50"
definition directory64EndSignature :: nat where "directory64EndSignature = 0x06064b50"
definition fileHeaderLen :: nat where "fileHeaderLen = 30"
definition directoryHeaderLen :: nat where "directoryHeaderLen = 46"
definition directoryEndLen :: nat where "directoryEndLen = 22"
definition directory64LocLen :: nat where "directory64LocLen = 20"
definition directory64EndLen :: nat where "directory64EndLen = 56"

definition zip64ExtraID :: nat where "zip64ExtraID = 0x0001"
definition ntfsExtraID :: nat where "ntfsExtraID = 0x000a"
definition unixExtraID :: nat where "unixExtraID = 0x000d"
definition extTimeExtraID :: nat where "extTimeExtraID = 0x5455"
definition infoZipUnixExtraID :: nat where "infoZipUnixExtraID = 0x5855"
definition infoZipUnicodeCommentExtraID :: nat where "infoZipUnicodeCommentExtraID = 0x6375"
definition infoZipUnicodePathID :: nat where "infoZipUnicodePathID = 0x7075"
definition winzipAesExtraID :: nat where "winzipAesExtraID = 0x9901"

record directoryEnd =
  diskNbr :: u32
  dirDiskNbr :: u32
  dirRecordsThisDisk :: u64
  directoryRecords :: u64
  directorySize :: u64
  directoryOffset :: u64

record File =
  name :: "byte list"
  comment :: "byte list"
  linkname :: "byte list"
  compressed_size :: u64
  uncompressed_size :: u64
  position :: u64
  time :: Time
  crc32_value :: u32
  mode :: u32
  version_madeby :: u16
  version_needed :: u16
  flags :: u16
  zip_method :: u16
  aes_version :: u16
  aes_strength :: byte

definition File_default :: File where
  "File_default = \<lparr>name = [], comment = [], linkname = [], compressed_size = 0, uncompressed_size = 0, position = 0,
     time = UnixEpoch, crc32_value = 0, mode = 0, version_madeby = 0, version_needed = 0, flags = 0, zip_method = 0,
     aes_version = 0, aes_strength = 0\<rparr>"

text \<open>The reader: the file it has open, its size or \<open>- 1\<close> before it is known, and what it has read.\<close>

record Reader =
  fd :: "byte list"
  fd_size :: int
  baseOffset :: int
  total_uncompressed :: int
  total_compressed :: int
  archive_comment :: "byte list"
  files :: "File list"

section \<open>File modes\<close>

definition unixModeToFileMode :: "u32 \<Rightarrow> u32" where
  "unixModeToFileMode m =
     (let mode = m AND 511;
          t = m AND 0xf000;
          mode = (if t = 0x6000 then mode OR ModeDevice
                  else if t = 0x2000 then mode OR (ModeDevice OR ModeCharDevice)
                  else if t = 0x4000 then mode OR ModeDir
                  else if t = 0x1000 then mode OR ModeNamedPipe
                  else if t = 0xa000 then mode OR ModeSymlink
                  else if t = 0x8000 then mode
                  else if t = 0xc000 then mode OR ModeSocket
                  else mode);
          mode = (if m AND 0x400 \<noteq> 0 then mode OR ModeSetgid else mode);
          mode = (if m AND 0x800 \<noteq> 0 then mode OR ModeSetuid else mode)
      in if m AND 0x200 \<noteq> 0 then mode OR ModeSticky else mode)"

definition msdosModeToFileMode :: "u32 \<Rightarrow> u32" where
  "msdosModeToFileMode m =
     (let mode = (if m AND 0x10 \<noteq> 0 then ModeDir OR 511 else 438)
      in if m AND 0x01 \<noteq> 0 then mode AND NOT 146 else mode)"

definition ends_with :: "byte list \<Rightarrow> byte \<Rightarrow> bool" where
  "ends_with s c \<longleftrightarrow> s \<noteq> [] \<and> last s = c"

definition resolveFileMode :: "File \<Rightarrow> u32 \<Rightarrow> u32" where
  "resolveFileMode file externalAttrs =
     (let n = drop_bit 8 (version_madeby file);
          mode = (if n = 3 \<or> n = 19 then unixModeToFileMode (drop_bit 16 externalAttrs)
                  else if n = 11 \<or> n = 14 \<or> n = 0 then msdosModeToFileMode externalAttrs else 0)
      in if ends_with (name file) (ch CHR ''/'') \<or> ends_with (name file) (ch (CHR 0x5C)) then mode OR ModeDir else mode)"

definition IsDir :: "File \<Rightarrow> bool" where
  "IsDir file \<longleftrightarrow> mode file AND ModeDir \<noteq> 0"

definition IsSymlink :: "File \<Rightarrow> bool" where
  "IsSymlink file \<longleftrightarrow> mode file AND ModeSymlink \<noteq> 0"

section \<open>The end of the central directory\<close>

text \<open>The signature, with a comment that ends inside the block.\<close>

definition signature_at :: "byte list \<Rightarrow> nat \<Rightarrow> bool" where
  "signature_at b i \<longleftrightarrow>
     b ! i = ch CHR ''P'' \<and> b ! (i + 1) = ch CHR ''K'' \<and> b ! (i + 2) = 0x05 \<and> b ! (i + 3) = 0x06
     \<and> unat (b ! (i + directoryEndLen - 2)) + 256 * unat (b ! (i + directoryEndLen - 1)) + directoryEndLen + i \<le> length b"

fun signature_loop :: "byte list \<Rightarrow> nat \<Rightarrow> int" where
  "signature_loop b 0 = - 1"
| "signature_loop b (Suc i) = (if signature_at b i then int i else signature_loop b i)"

definition findSignatureInBlock :: "byte list \<Rightarrow> int" where
  "findSignatureInBlock b = signature_loop b (length b + 1 - directoryEndLen)"

definition readDirectory64End :: "Reader \<Rightarrow> int \<Rightarrow> directoryEnd \<Rightarrow> (zip_error + directoryEnd) option" where
  "readDirectory64End r p d =
     (case ReadAt (fd r) directory64EndLen p of
        None \<Rightarrow> Some (Inl ErrRead)
      | Some buffer \<Rightarrow> do {
          (sig, b) \<leftarrow> Read_le 4 \<lparr>le_data = buffer, le_size = of_nat directory64EndLen\<rparr>;
          if sig \<noteq> directory64EndSignature then Some (Inl ErrNotZip)
          else do {
            let b = Discard 12 b;
            (disk, b) \<leftarrow> Read_le 4 b;
            (dirDisk, b) \<leftarrow> Read_le 4 b;
            (recordsThisDisk, b) \<leftarrow> Read_le 8 b;
            (records, b) \<leftarrow> Read_le 8 b;
            (dirSize, b) \<leftarrow> Read_le 8 b;
            (dirOffset, b) \<leftarrow> Read_le 8 b;
            Some (Inr \<lparr>diskNbr = of_nat disk, dirDiskNbr = of_nat dirDisk, dirRecordsThisDisk = of_nat recordsThisDisk,
              directoryRecords = of_nat records, directorySize = of_nat dirSize, directoryOffset = of_nat dirOffset\<rparr>)
          }
        })"

text \<open>The position of the zip64 record, \<open>- 1\<close> if there is none; a failing read is an error of its own.\<close>

definition findDirectory64End :: "Reader \<Rightarrow> int \<Rightarrow> (zip_error + int) option" where
  "findDirectory64End r directoryEndOffset =
     (let locOffset = directoryEndOffset - int directory64LocLen
      in if locOffset < 0 then Some (Inr (- 1))
         else case ReadAt (fd r) directory64LocLen locOffset of
           None \<Rightarrow> Some (Inl ErrRead)
         | Some buffer \<Rightarrow> do {
             (sig, b) \<leftarrow> Read_le 4 \<lparr>le_data = buffer, le_size = of_nat directory64LocLen\<rparr>;
             if sig \<noteq> directory64LocSignature then Some (Inr (- 1))
             else do {
               (disk, b) \<leftarrow> Read_le 4 b;
               if disk \<noteq> 0 then Some (Inr (- 1))
               else do {
                 (p, b) \<leftarrow> Read_le 8 b;
                 (disks, b) \<leftarrow> Read_le 4 b;
                 Some (Inr (if disks \<noteq> 1 then - 1 else sint (of_nat p :: u64)))
               }
             }
           })"

text \<open>The loop over the two block sizes: the block with the record in front and its position.\<close>

fun locate_end :: "Reader \<Rightarrow> nat list \<Rightarrow> zip_error + (byte list \<times> int)" where
  "locate_end r [] = Inl ErrNotZip"
| "locate_end r (n # ns) =
     (let blen = min n (nat (fd_size r))
      in case ReadAt (fd r) blen (fd_size r - int blen) of
           None \<Rightarrow> Inl ErrRead
         | Some buffer \<Rightarrow>
             (let p = findSignatureInBlock buffer
              in if p \<ge> 0 then Inr (drop (nat p) buffer, fd_size r - int blen + p)
                 else if ns = [] \<or> int blen = fd_size r then Inl ErrNotZip
                 else locate_end r ns))"

definition readDirectoryEnd :: "Reader \<Rightarrow> (zip_error + (directoryEnd \<times> byte list)) option" where
  "readDirectoryEnd r =
     (case locate_end r [1024, 65 * 1024] of
        Inl e \<Rightarrow> Some (Inl e)
      | Inr (block, directoryEndOffset) \<Rightarrow>
          (let b = Discard 4 \<lparr>le_data = block, le_size = of_nat (length block)\<rparr>
           in if le_size b < 18 then Some (Inl ErrNotZip)
              else do {
                (disk, b) \<leftarrow> Read_le 2 b;
                (dirDisk, b) \<leftarrow> Read_le 2 b;
                (recordsThisDisk, b) \<leftarrow> Read_le 2 b;
                (records, b) \<leftarrow> Read_le 2 b;
                (dirSize, b) \<leftarrow> Read_le 4 b;
                (dirOffset, b) \<leftarrow> Read_le 4 b;
                (commentLen, b) \<leftarrow> Read_le 2 b;
                if of_nat commentLen > le_size b then Some (Inl ErrCommentLength)
                else do {
                  cm \<leftarrow> cstring_view (le_data b) commentLen;
                  let d = \<lparr>diskNbr = of_nat disk, dirDiskNbr = of_nat dirDisk, dirRecordsThisDisk = of_nat recordsThisDisk,
                    directoryRecords = of_nat records, directorySize = of_nat dirSize, directoryOffset = of_nat dirOffset\<rparr>;
                  res \<leftarrow> (if records = 0xFFFF \<or> dirSize = 0xFFFF \<or> dirOffset = 0xFFFFFFFF
                    then do {
                      loc \<leftarrow> findDirectory64End r directoryEndOffset;
                      (case loc of
                         Inl e \<Rightarrow> Some (Inl e)
                       | Inr p \<Rightarrow> if p > 0 then readDirectory64End r p d else Some (Inr d))
                    }
                    else Some (Inr d));
                  Some (case res of
                    Inl e \<Rightarrow> Inl e
                  | Inr d \<Rightarrow>
                      if sint (directoryOffset d) < 0 \<or> 0 \<ge> fd_size r then Inl ErrNotZip else Inr (d, cm))
                }
              }))"

section \<open>The extra fields of an entry\<close>

text \<open>What the loop over the extra fields changes: the entry, what it still looks for, and a better time.\<close>

record extra_state =
  xs_file :: File
  needUSize :: bool
  needSize :: bool
  needOffset :: bool
  modified :: Time

text \<open>One of the three numbers of a zip64 field, read if it is needed.\<close>

definition zip64_next :: "bool \<Rightarrow> LittenEndian \<Rightarrow> (zip_error + (u64 option \<times> LittenEndian)) option" where
  "zip64_next need fb =
     (if \<not> need then Some (Inr (None, fb))
      else if le_size fb < 8 then Some (Inl ErrNotZip)
      else do { (v, fb) \<leftarrow> Read_le 8 fb; Some (Inr (Some (of_nat v), fb)) })"

definition extra_zip64 :: "LittenEndian \<Rightarrow> extra_state \<Rightarrow> (zip_error + extra_state) option" where
  "extra_zip64 fb st =
     (case zip64_next (needUSize st) fb of
        None \<Rightarrow> None | Some (Inl e) \<Rightarrow> Some (Inl e)
      | Some (Inr (usize, fb)) \<Rightarrow>
          (case zip64_next (needSize st) fb of
             None \<Rightarrow> None | Some (Inl e) \<Rightarrow> Some (Inl e)
           | Some (Inr (csize, fb)) \<Rightarrow>
               (case zip64_next (needOffset st) fb of
                  None \<Rightarrow> None | Some (Inl e) \<Rightarrow> Some (Inl e)
                | Some (Inr (off, fb)) \<Rightarrow>
                    (let f = xs_file st;
                         f = f\<lparr>uncompressed_size := case_option (uncompressed_size f) id usize,
                           compressed_size := case_option (compressed_size f) id csize,
                           position := case_option (position f) id off\<rparr>
                     in Some (Inr (st\<lparr>xs_file := f, needUSize := False, needSize := False, needOffset := False\<rparr>))))))"

lemma Read_le_shorter: "Read_le k b = Some (v, b') \<Longrightarrow> length (le_data b') + k = length (le_data b)"
  by (auto simp: Read_le_def split: if_splits)

function ntfs_loop :: "LittenEndian \<Rightarrow> Time \<Rightarrow> Time option" where
  "ntfs_loop fb t =
     (if le_size fb < 4 then Some t
      else case Read_le 2 fb of
        None \<Rightarrow> None
      | Some (attrTag, fb1) \<Rightarrow>
          (case Read_le 2 fb1 of
             None \<Rightarrow> None
           | Some (attrSize, fb2) \<Rightarrow>
               if le_size fb2 < of_nat attrSize then Some t
               else if attrTag \<noteq> 1 \<or> attrSize \<noteq> 24 then Some t
               else case Read_le 8 (fst (Sub attrSize fb2)) of
                 None \<Rightarrow> None
               | Some (tick, _) \<Rightarrow> ntfs_loop (snd (Sub attrSize fb2)) (FromWindowsPreciseTime (of_nat tick))))"
  by pat_completeness auto
termination
  by (relation "measure (\<lambda>(fb, t). length (le_data fb))") (auto simp: Sub_def dest!: Read_le_shorter)

definition extra_ntfs :: "LittenEndian \<Rightarrow> extra_state \<Rightarrow> extra_state option" where
  "extra_ntfs fb st =
     (if le_size fb < 4 then Some st
      else map_option (\<lambda>t. st\<lparr>modified := t\<rparr>) (ntfs_loop (Discard 4 fb) (modified st)))"

definition extra_unix :: "nat \<Rightarrow> LittenEndian \<Rightarrow> extra_state \<Rightarrow> extra_state option" where
  "extra_unix fieldTag fb st =
     (if le_size fb < 8 then Some st
      else do {
        (mtime, fb) \<leftarrow> Read_le 4 (Discard 4 fb);
        let fb = Discard 4 fb;
        let f = (xs_file st)\<lparr>time := FromUnixSeconds (int mtime)\<rparr>;
        if le_size fb > 0 \<and> fieldTag = unixExtraID
        then do { l \<leftarrow> cstring_view (drop 4 (le_data fb)) (unat (le_size fb)); Some (st\<lparr>xs_file := f\<lparr>linkname := l\<rparr>\<rparr>) }
        else Some (st\<lparr>xs_file := f\<rparr>)
      })"

definition extra_time :: "LittenEndian \<Rightarrow> extra_state \<Rightarrow> extra_state option" where
  "extra_time fb st =
     (if le_size fb < 5 then Some st
      else do {
        (fl, fb) \<leftarrow> Pick fb;
        if fl AND 0x1 \<noteq> 0
        then do { (t, fb) \<leftarrow> Read_le 4 fb; Some (st\<lparr>modified := FromUnixSeconds (int t)\<rparr>) }
        else Some st
      })"

definition extra_name :: "LittenEndian \<Rightarrow> extra_state \<Rightarrow> extra_state option" where
  "extra_name fb st =
     (if le_size fb < 5 \<or> flags (xs_file st) AND 0x800 \<noteq> 0 then Some st
      else do {
        (_, fb) \<leftarrow> Pick fb;
        (_, fb) \<leftarrow> Read_le 4 fb;
        n \<leftarrow> cstring_view (le_data fb) (unat (le_size fb));
        Some (st\<lparr>xs_file := (xs_file st)\<lparr>flags := flags (xs_file st) OR 0x800, name := n\<rparr>\<rparr>)
      })"

definition extra_comment :: "LittenEndian \<Rightarrow> extra_state \<Rightarrow> extra_state option" where
  "extra_comment fb st =
     (if le_size fb < 5 then Some st
      else do {
        (_, fb) \<leftarrow> Pick fb;
        (_, fb) \<leftarrow> Read_le 4 fb;
        c \<leftarrow> cstring_view (le_data fb) (unat (le_size fb));
        Some (st\<lparr>xs_file := (xs_file st)\<lparr>comment := c\<rparr>\<rparr>)
      })"

definition extra_aes :: "LittenEndian \<Rightarrow> extra_state \<Rightarrow> extra_state option" where
  "extra_aes fb st =
     (if le_size fb < 7 then Some st
      else do {
        (v, fb) \<leftarrow> Read_le 2 fb;
        (s, fb) \<leftarrow> Pick (Discard 2 fb);
        (m, fb) \<leftarrow> Read_le 2 fb;
        Some (st\<lparr>xs_file := (xs_file st)\<lparr>aes_version := of_nat v, aes_strength := s, zip_method := of_nat m\<rparr>\<rparr>)
      })"

definition extra_field :: "nat \<Rightarrow> LittenEndian \<Rightarrow> extra_state \<Rightarrow> (zip_error + extra_state) option" where
  "extra_field fieldTag fb st =
     (if fieldTag = zip64ExtraID then extra_zip64 fb st
      else if fieldTag = ntfsExtraID then map_option Inr (extra_ntfs fb st)
      else if fieldTag = unixExtraID \<or> fieldTag = infoZipUnixExtraID then map_option Inr (extra_unix fieldTag fb st)
      else if fieldTag = extTimeExtraID then map_option Inr (extra_time fb st)
      else if fieldTag = infoZipUnicodePathID then map_option Inr (extra_name fb st)
      else if fieldTag = infoZipUnicodeCommentExtraID then map_option Inr (extra_comment fb st)
      else if fieldTag = winzipAesExtraID then map_option Inr (extra_aes fb st)
      else Some (Inr st))"

function extra_loop :: "LittenEndian \<Rightarrow> extra_state \<Rightarrow> (zip_error + extra_state) option" where
  "extra_loop extra st =
     (if le_size extra < 4 then Some (Inr st)
      else case Read_le 2 extra of
        None \<Rightarrow> None
      | Some (fieldTag, e1) \<Rightarrow>
          (case Read_le 2 e1 of
             None \<Rightarrow> None
           | Some (fieldSize, e2) \<Rightarrow>
               if le_size e2 < of_nat fieldSize then Some (Inr st)
               else case extra_field fieldTag (fst (Sub fieldSize e2)) st of
                 None \<Rightarrow> None
               | Some (Inl e) \<Rightarrow> Some (Inl e)
               | Some (Inr st) \<Rightarrow> extra_loop (snd (Sub fieldSize e2)) st))"
  by pat_completeness auto
termination
  by (relation "measure (\<lambda>(extra, st). length (le_data extra))") (auto simp: Sub_def dest!: Read_le_shorter)

declare ntfs_loop.simps [simp del] extra_loop.simps [simp del]

section \<open>The entries\<close>

text \<open>The fixed part of an entry: the entry so far, its time and date, the lengths behind it and its attributes.\<close>

definition read_fixed :: "byte list \<Rightarrow> (zip_error + (File \<times> u16 \<times> u16 \<times> nat \<times> nat \<times> nat \<times> u32)) option" where
  "read_fixed buf = do {
     (sig, b) \<leftarrow> Read_le 4 \<lparr>le_data = buf, le_size = of_nat directoryHeaderLen\<rparr>;
     if sig \<noteq> directoryHeaderSignature then Some (Inl ErrNotZip)
     else do {
       (madeby, b) \<leftarrow> Read_le 2 b;
       (needed, b) \<leftarrow> Read_le 2 b;
       (fl, b) \<leftarrow> Read_le 2 b;
       (meth, b) \<leftarrow> Read_le 2 b;
       (dosTime, b) \<leftarrow> Read_le 2 b;
       (dosDate, b) \<leftarrow> Read_le 2 b;
       (crc, b) \<leftarrow> Read_le 4 b;
       (csize, b) \<leftarrow> Read_le 4 b;
       (usize, b) \<leftarrow> Read_le 4 b;
       (filenameLen, b) \<leftarrow> Read_le 2 b;
       (extraLen, b) \<leftarrow> Read_le 2 b;
       (commentLen, b) \<leftarrow> Read_le 2 b;
       let b = Discard 4 b;
       (externalAttrs, b) \<leftarrow> Read_le 4 b;
       (pos, b) \<leftarrow> Read_le 4 b;
       Some (Inr (File_default\<lparr>version_madeby := of_nat madeby, version_needed := of_nat needed, flags := of_nat fl,
           zip_method := of_nat meth, crc32_value := of_nat crc, compressed_size := of_nat csize,
           uncompressed_size := of_nat usize, position := of_nat pos\<rparr>,
         of_nat dosTime, of_nat dosDate, filenameLen, extraLen, commentLen, of_nat externalAttrs))
     }
   }"

text \<open>
  The buffer grows into fresh memory, which \<open>malloc\<close> hands out with whatever it holds; its
  size field stays zero, so nothing is copied.
\<close>

definition grow :: "(nat \<Rightarrow> byte list) \<Rightarrow> nat \<Rightarrow> byte list \<Rightarrow> byte list" where
  "grow malloc new_capacity buffer = (if new_capacity \<le> length buffer then buffer else malloc new_capacity)"

definition finish_header :: "u16 \<Rightarrow> u16 \<Rightarrow> extra_state \<Rightarrow> zip_error + File" where
  "finish_header dosDate dosTime st =
     (let f = (xs_file st)\<lparr>time := FromDosDateTime dosDate dosTime\<rparr>;
          f = (if ToUnixSeconds (modified st) \<noteq> 0 then f\<lparr>time := modified st\<rparr> else f)
      in if needSize st \<or> needOffset st then Inl ErrNotZip else Inr f)"

definition readDirectoryHeader ::
    "(nat \<Rightarrow> byte list) \<Rightarrow> bufio \<Rightarrow> byte list \<Rightarrow> ((zip_error + File) \<times> bufio \<times> byte list) option" where
  "readDirectoryHeader malloc br buffer = do {
     (buf, br) \<leftarrow> bufio_ReadFull (replicate directoryHeaderLen 0) br;
     fixed \<leftarrow> read_fixed buf;
     (case fixed of
        Inl e \<Rightarrow> Some (Inl e, br, buffer)
      | Inr (file, dosTime, dosDate, filenameLen, extraLen, commentLen, externalAttrs) \<Rightarrow> do {
          let totallen = filenameLen + extraLen + commentLen;
          let buffer = grow malloc totallen buffer;
          (bytes, br) \<leftarrow> bufio_ReadFull (take totallen buffer) br;
          let buffer = bytes @ drop totallen buffer;
          nm \<leftarrow> cstring_view buffer filenameLen;
          cm \<leftarrow> (if commentLen \<noteq> 0 then cstring_view (drop (filenameLen + extraLen) buffer) commentLen else Some []);
          let file = file\<lparr>name := nm, comment := cm\<rparr>;
          let file = file\<lparr>mode := resolveFileMode file externalAttrs\<rparr>;
          res \<leftarrow> extra_loop \<lparr>le_data = drop filenameLen buffer, le_size = of_nat extraLen\<rparr>
            \<lparr>xs_file = file, needUSize = uncompressed_size file = 0xFFFFFFFF, needSize = compressed_size file = 0xFFFFFFFF,
             needOffset = position file = 0xFFFFFFFF, modified = UnixEpoch\<rparr>;
          Some (case res of Inl e \<Rightarrow> Inl e | Inr st \<Rightarrow> finish_header dosDate dosTime st, br, buffer)
        })
   }"

text \<open>The sums of the sizes are kept in 64 bits with a sign.\<close>

definition to_int64 :: "int \<Rightarrow> int" where
  "to_int64 i = sint (word_of_int i :: u64)"

fun read_entries :: "(nat \<Rightarrow> byte list) \<Rightarrow> nat \<Rightarrow> bufio \<Rightarrow> byte list \<Rightarrow> Reader \<Rightarrow> (zip_error + Reader) option" where
  "read_entries malloc 0 br buffer r = Some (Inr r)"
| "read_entries malloc (Suc n) br buffer r =
     (case readDirectoryHeader malloc br buffer of
        None \<Rightarrow> None
      | Some (Inl e, br, buffer) \<Rightarrow> Some (Inl e)
      | Some (Inr file, br, buffer) \<Rightarrow>
          read_entries malloc n br buffer
            (r\<lparr>total_uncompressed := to_int64 (total_uncompressed r + uint (uncompressed_size file)),
               total_compressed := to_int64 (total_compressed r + uint (compressed_size file)),
               files := files r @ [file]\<rparr>))"

definition Initialize :: "(nat \<Rightarrow> byte list) \<Rightarrow> Reader \<Rightarrow> (zip_error + Reader) option" where
  "Initialize malloc r =
     (let r = (if fd_size r = - 1 then r\<lparr>fd_size := int (length (fd r))\<rparr> else r)
      in case readDirectoryEnd r of
           None \<Rightarrow> None
         | Some (Inl e) \<Rightarrow> Some (Inl e)
         | Some (Inr (d, cm)) \<Rightarrow>
             (let r = r\<lparr>archive_comment := cm\<rparr>;
                  start = sint (directoryOffset d + word_of_int (baseOffset r))
              in if unat (directoryRecords d) > nat (fd_size r) div fileHeaderLen then Some (Inl ErrImpossible)
                 else if start < 0 then Some (Inl ErrRead)
                 else read_entries malloc (unat (directoryRecords d)) (bufio_init (fd r) (nat start))
                        (malloc (64 * 1024)) r))"

definition OpenReader :: "(nat \<Rightarrow> byte list) \<Rightarrow> byte list \<Rightarrow> int \<Rightarrow> int \<Rightarrow> (zip_error + Reader) option" where
  "OpenReader malloc nfd sz offs =
     Initialize malloc \<lparr>fd = nfd, fd_size = sz, baseOffset = offs, total_uncompressed = 0, total_compressed = 0,
       archive_comment = [], files = []\<rparr>"

section \<open>Finding the end of the central directory\<close>

lemma signature_loop_last:
  "(if \<exists>i<k. signature_at b i
    then \<exists>i<k. signature_loop b k = int i \<and> signature_at b i \<and> (\<forall>j<k. i < j \<longrightarrow> \<not> signature_at b j)
    else signature_loop b k = - 1)"
  by (induction k) (auto simp: less_Suc_eq split: if_splits)

lemma findSignatureInBlock_cases:
  obtains "findSignatureInBlock b = - 1" "\<And>i. i + 22 \<le> length b \<Longrightarrow> \<not> signature_at b i"
  | i where "findSignatureInBlock b = int i" "signature_at b i" "i + 22 \<le> length b"
      "\<And>j. i < j \<Longrightarrow> j + 22 \<le> length b \<Longrightarrow> \<not> signature_at b j"
proof -
  have "i < length b + 1 - directoryEndLen \<longleftrightarrow> i + 22 \<le> length b" for i by (auto simp: directoryEndLen_def)
  then show thesis using that signature_loop_last [of "length b + 1 - directoryEndLen" b]
    by (fastforce simp: findSignatureInBlock_def split: if_splits)
qed

text \<open>
  The search takes the last record of the block. \<open>findSignatureInBlock\<close> answers with the
  greatest offset at which the block has a complete end record, its comment inside the
  block, and with minus one exactly if there is no such offset.
\<close>

theorem findSignatureInBlock_last:
  "(findSignatureInBlock b = int i \<longleftrightarrow>
     i + 22 \<le> length b \<and> signature_at b i \<and> (\<forall>j>i. j + 22 \<le> length b \<longrightarrow> \<not> signature_at b j))
   \<and> (findSignatureInBlock b = - 1 \<longleftrightarrow> (\<forall>i. i + 22 \<le> length b \<longrightarrow> \<not> signature_at b i))"
  by (cases rule: findSignatureInBlock_cases [of b]) (auto, meson linorder_neqE_nat)

definition example_end :: "byte list" where
  "example_end = [0x50, 0x4b, 0x05, 0x06] @ replicate 18 0"

theorem findSignatureInBlock_last_witness:
  "findSignatureInBlock (example_end @ example_end) = 22"
proof -
  have "signature_at (example_end @ example_end) 22" "length (example_end @ example_end) = 44" by code_simp+
  with findSignatureInBlock_last [of "example_end @ example_end" 22] show ?thesis by auto
qed

lemma signature_at_append:
  assumes "i + 22 \<le> length ys"
  shows "signature_at (xs @ ys) (length xs + i) \<longleftrightarrow> signature_at ys i"
proof -
  have "(xs @ ys) ! (length xs + i + k) = ys ! (i + k)" "(xs @ ys) ! (k + (length xs + i)) = ys ! (k + i)" for k
    by (simp_all add: nth_append add.assoc)
  from this(1) [of 0] this(1) [of 1] this(1) [of 2] this(1) [of 3] this(2) [of 20] this(2) [of 21] show ?thesis
    by (simp add: signature_at_def directoryEndLen_def add.assoc)
qed

lemma findSignatureInBlock_suffix:
  assumes "findSignatureInBlock b = 0" and "b = xs @ ys" and "xs \<noteq> []"
  shows "findSignatureInBlock ys = - 1"
proof (cases rule: findSignatureInBlock_cases [of ys])
  case (2 i)
  have "signature_at b (length xs + i)" using 2 assms(2) signature_at_append [OF 2(3)] by simp
  moreover have "\<not> signature_at b (length xs + i)"
    using assms 2(3) by (cases rule: findSignatureInBlock_cases [of b]) auto
  ultimately show ?thesis by blast
qed auto

lemma findSignatureInBlock_prefix:
  assumes "findSignatureInBlock b = 0"
  shows "findSignatureInBlock (xs @ b) = int (length xs)"
proof -
  have 0: "signature_at b 0" "22 \<le> length b" "\<And>j. 0 < j \<Longrightarrow> j + 22 \<le> length b \<Longrightarrow> \<not> signature_at b j"
    using assms by (cases rule: findSignatureInBlock_cases [of b]; auto)+
  have here: "signature_at (xs @ b) (length xs)" using signature_at_append [of 0 b xs] 0(1,2) by simp
  have later: "\<not> signature_at (xs @ b) j" if "length xs < j" "j + 22 \<le> length (xs @ b)" for j
    using signature_at_append [of "j - length xs" b xs] 0(3) [of "j - length xs"] that by simp
  show ?thesis
  proof (cases rule: findSignatureInBlock_cases [of "xs @ b"])
    case 1
    then show ?thesis using here 0(2) by auto
  next
    case (2 i)
    then have "\<not> length xs < i" "\<not> i < length xs" using here later 0(2) by auto
    then show ?thesis using 2 by simp
  qed
qed

lemma ReadAt_tail:
  "n \<le> length contents \<Longrightarrow> ReadAt contents n (int (length contents) - int n) = Some (drop (length contents - n) contents)"
  by (auto simp: ReadAt_def bytes_at_def nat_diff_distrib)

lemma locate_end_step:
  assumes "fd_size r = int (length (fd r))" and "blen = min n (length (fd r))"
    and "block = drop (length (fd r) - blen) (fd r)"
  shows "locate_end r (n # ns) =
    (if findSignatureInBlock block \<ge> 0
     then Inr (drop (nat (findSignatureInBlock block)) block, int (length (fd r) - blen) + findSignatureInBlock block)
     else if ns = [] \<or> blen = length (fd r) then Inl ErrNotZip else locate_end r ns)"
proof -
  have "blen \<le> length (fd r)" using assms(2) by simp
  from ReadAt_tail [OF this] this show ?thesis using assms by (simp add: Let_def of_nat_diff)
qed

lemma locate_end_found:
  assumes "fd r = pre @ b" and s: "fd_size r = int (length (fd r))" and "findSignatureInBlock b = 0" and "length b \<le> 65557"
  shows "locate_end r [1024, 65 * 1024] = Inr (b, int (length pre))"
proof -
  have found: "locate_end r (n # ns) = Inr (b, int (length pre))" if n: "length b \<le> n" for n ns
  proof -
    define blen where "blen = min n (length (fd r))"
    define xs where "xs = drop (length (fd r) - blen) pre"
    have len: "length b \<le> blen" "length (fd r) - blen + length xs = length pre"
      using n assms(1) by (auto simp: blen_def xs_def)
    have "xs @ b = drop (length (fd r) - blen) (fd r)" using len assms(1) by (simp add: xs_def)
    from locate_end_step [OF s blen_def this] show ?thesis
      using findSignatureInBlock_prefix [OF assms(3), of xs] len(2) by simp
  qed
  show ?thesis
  proof (cases "length b \<le> 1024")
    case True
    then show ?thesis by (rule found)
  next
    case False
    have len: "1024 = min 1024 (length (fd r))" "1024 \<noteq> length (fd r)" using False assms(1) by simp_all
    have e: "drop (length b - 1024) b = drop (length (fd r) - 1024) (fd r)" using False assms(1) by simp
    have "findSignatureInBlock (drop (length b - 1024) b) = - 1"
      using False by (intro findSignatureInBlock_suffix [OF assms(3), of "take (length b - 1024) b"]) auto
    with locate_end_step [OF s len(1) e] len(2) have "locate_end r [1024, 65 * 1024] = locate_end r [65 * 1024]" by simp
    also have "\<dots> = Inr (b, int (length pre))" using assms(4) by (intro found) simp
    finally show ?thesis .
  qed
qed

section \<open>Archives as they are written\<close>

text \<open>The record at the end of the central directory, and an entry of it.\<close>

definition encode_end :: "nat \<Rightarrow> nat \<Rightarrow> nat \<Rightarrow> byte list \<Rightarrow> byte list" where
  "encode_end records dirSize dirOffset cm =
     [0x50, 0x4b, 0x05, 0x06] @ le_bytes 2 0 @ le_bytes 2 0 @ le_bytes 2 records @ le_bytes 2 records
       @ le_bytes 4 dirSize @ le_bytes 4 dirOffset @ le_bytes 2 (length cm) @ cm"

record zip_entry =
  e_madeby :: u16
  e_needed :: u16
  e_flags :: u16
  e_method :: u16
  e_time :: u16
  e_date :: u16
  e_crc :: u32
  e_csize :: u32
  e_usize :: u32
  e_attrs :: u32
  e_position :: u32
  e_name :: "byte list"
  e_extra :: "byte list"
  e_comment :: "byte list"

definition encode_fixed :: "zip_entry \<Rightarrow> byte list" where
  "encode_fixed e =
     le_bytes 4 directoryHeaderSignature @ le_bytes 2 (unat (e_madeby e)) @ le_bytes 2 (unat (e_needed e))
       @ le_bytes 2 (unat (e_flags e)) @ le_bytes 2 (unat (e_method e)) @ le_bytes 2 (unat (e_time e))
       @ le_bytes 2 (unat (e_date e)) @ le_bytes 4 (unat (e_crc e)) @ le_bytes 4 (unat (e_csize e))
       @ le_bytes 4 (unat (e_usize e)) @ le_bytes 2 (length (e_name e)) @ le_bytes 2 (length (e_extra e))
       @ le_bytes 2 (length (e_comment e)) @ replicate 4 0 @ le_bytes 4 (unat (e_attrs e))
       @ le_bytes 4 (unat (e_position e))"

definition encode_entry :: "zip_entry \<Rightarrow> byte list" where
  "encode_entry e = encode_fixed e @ e_name e @ e_extra e @ e_comment e"

text \<open>An entry without extra fields, with sizes and a position that need no zip64 field.\<close>

definition entry_ok :: "zip_entry \<Rightarrow> bool" where
  "entry_ok e \<longleftrightarrow> length (e_name e) < 65536 \<and> length (e_extra e) < 4 \<and> length (e_comment e) < 65536
     \<and> e_csize e \<noteq> 0xFFFFFFFF \<and> e_position e \<noteq> 0xFFFFFFFF"

text \<open>Names and comments end at a zero byte.\<close>

definition cstring :: "byte list \<Rightarrow> byte list" where
  "cstring s = takeWhile (\<lambda>c. c \<noteq> 0) s"

text \<open>What an entry stands for.\<close>

definition entry_file :: "zip_entry \<Rightarrow> File" where
  "entry_file e =
     (let f = File_default\<lparr>name := cstring (e_name e), comment := cstring (e_comment e),
            compressed_size := ucast (e_csize e), uncompressed_size := ucast (e_usize e), position := ucast (e_position e),
            time := FromDosDateTime (e_date e) (e_time e), crc32_value := e_crc e, version_madeby := e_madeby e,
            version_needed := e_needed e, flags := e_flags e, zip_method := e_method e\<rparr>
      in f\<lparr>mode := resolveFileMode f (e_attrs e)\<rparr>)"

lemma unat_u16 [simp]: "unat (w :: u16) < 65536"
  using unsigned_less [of w] by simp

lemma unat_u32 [simp]: "unat (w :: u32) < 4294967296"
  using unsigned_less [of w] by simp

lemma Read_le_bytes_end [simp]:
  "v < 256 ^ k \<Longrightarrow> Read_le k \<lparr>le_data = le_bytes k v, le_size = s\<rparr> = Some (v, \<lparr>le_data = [], le_size = s - of_nat k\<rparr>)"
  using Read_le_bytes [of v k "[]"] by simp

lemma sint_of_nat_small: "n < 2 ^ 63 \<Longrightarrow> sint (of_nat n :: u64) = int n"
  by (simp add: signed_of_nat signed_take_bit_int_eq_self)

lemma le_bytes_small:
  "le_bytes 2 v = [of_nat v, of_nat (v div 256)]"
  "le_bytes 4 v = [of_nat v, of_nat (v div 256), of_nat (v div 65536), of_nat (v div 16777216)]"
  by (simp_all add: le_bytes_def upt_rec)

lemma length_encode_fixed [simp]: "length (encode_fixed e) = 46"
  by (simp add: encode_fixed_def)

lemma read_fixed_encode:
  assumes "entry_ok e"
  shows "read_fixed (encode_fixed e) = Some (Inr (File_default\<lparr>version_madeby := e_madeby e, version_needed := e_needed e,
      flags := e_flags e, zip_method := e_method e, crc32_value := e_crc e, compressed_size := ucast (e_csize e),
      uncompressed_size := ucast (e_usize e), position := ucast (e_position e)\<rparr>, e_time e, e_date e,
      length (e_name e), length (e_extra e), length (e_comment e), e_attrs e))"
  using assms
  by (simp add: read_fixed_def encode_fixed_def directoryHeaderLen_def directoryHeaderSignature_def Discard_def entry_ok_def)

lemma end_size:
  assumes "n < 65536"
  shows "\<not> (22 + of_nat n :: u64) \<le> 4" "\<not> (18 + of_nat n :: u64) < 18"
proof -
  have "unat (of_nat (k + n) :: u64) = k + n" if "k < 100" for k using assms that by (simp add: unat_of_nat del: of_nat_add)
  from this [of 22] this [of 18] show "\<not> (22 + of_nat n :: u64) \<le> 4" "\<not> (18 + of_nat n :: u64) < 18"
    by (simp_all add: word_le_nat_alt word_less_nat_alt)
qed

lemma readDirectoryEnd_encode:
  assumes "fd r = pre @ encode_end records dirSize dirOffset cm" and "fd_size r = int (length (fd r))"
    and "findSignatureInBlock (encode_end records dirSize dirOffset cm) = 0"
    and "records < 65535" "dirSize < 4294967296" "dirSize \<noteq> 65535" "dirOffset < 4294967295" "length cm < 65536"
  shows "readDirectoryEnd r = Some (Inr (\<lparr>diskNbr = 0, dirDiskNbr = 0, dirRecordsThisDisk = of_nat records,
    directoryRecords = of_nat records, directorySize = of_nat dirSize, directoryOffset = of_nat dirOffset\<rparr>, cstring cm))"
proof -
  have "length (encode_end records dirSize dirOffset cm) \<le> 65557" using assms(8) by (simp add: encode_end_def)
  note locate = locate_end_found [OF assms(1-3) this]
  have pos: "\<not> 0 \<ge> fd_size r" using assms(1,2) by (simp add: encode_end_def)
  have off: "\<not> sint (of_nat dirOffset :: u64) < 0" using assms(7) by (simp add: sint_of_nat_small)
  show ?thesis
    unfolding readDirectoryEnd_def locate
    using assms(4-8) pos off end_size [OF assms(8)]
    by (simp add: encode_end_def Discard_def cstring_def Let_def)
qed

section \<open>Reading what was written\<close>

lemma length_grow:
  assumes "\<And>n. length (malloc n) = n"
  shows "n \<le> length (grow malloc n buffer)"
  using assms by (simp add: grow_def)

lemma extra_loop_none: "n < 4 \<Longrightarrow> extra_loop \<lparr>le_data = p, le_size = of_nat n\<rparr> st = Some (Inr st)"
  by (subst extra_loop.simps) (simp add: word_less_nat_alt unat_of_nat)

lemma ucast_u32_max: "(ucast (w :: u32) :: u64) = 0xFFFFFFFF \<longleftrightarrow> w = 0xFFFFFFFF"
proof -
  have "unat (ucast w :: u64) = unat w" by (rule unat_ucast_up) simp
  then show ?thesis by (auto simp: word_unat_eq_iff)
qed

lemma readDirectoryHeader_encode:
  assumes "br_at L br" and "br_file br = pre @ encode_entry e @ post" and "L = length pre"
    and "entry_ok e" and "\<And>n. length (malloc n) = n"
  shows "\<exists>br' buffer'. readDirectoryHeader malloc br buffer = Some (Inr (entry_file e), br', buffer')
    \<and> br_at (L + length (encode_entry e)) br' \<and> br_file br' = br_file br"
proof -
  define t where "t = length (e_name e) + length (e_extra e) + length (e_comment e)"
  define buf where "buf = grow malloc t buffer"
  have t: "length (take t buf) = t" using length_grow [OF assms(5), of t buffer] by (simp add: buf_def)
  have len: "length (encode_entry e) = 46 + t" by (simp add: encode_entry_def t_def)
  have c: "bytes_at (br_file br) L 46 = encode_fixed e" "bytes_at (br_file br) (L + 46) t = e_name e @ e_extra e @ e_comment e"
    by (simp_all add: assms(2,3) bytes_at_def encode_entry_def t_def)
  obtain br1 where R1: "bufio_ReadFull (replicate directoryHeaderLen 0) br = Some (encode_fixed e, br1)" "br_at (L + 46) br1"
    "br_file br1 = br_file br"
    using bufio_ReadFull_at [OF assms(1), of "replicate directoryHeaderLen 0"] assms(2,3) c len by (auto simp: directoryHeaderLen_def)
  obtain br2 where R2: "bufio_ReadFull (take t buf) br1 = Some (e_name e @ e_extra e @ e_comment e, br2)"
    "br_at (L + 46 + t) br2" "br_file br2 = br_file br"
    using bufio_ReadFull_at [OF R1(2), of "take t buf"] assms(2,3) c len t R1(3) by auto
  have ok: "length (e_extra e) < 4" "(ucast (e_csize e) :: u64) \<noteq> 0xFFFFFFFF" "(ucast (e_position e) :: u64) \<noteq> 0xFFFFFFFF"
    using assms(4) by (auto simp: entry_ok_def ucast_u32_max)
  have cm: "(if length (e_comment e) \<noteq> 0
      then cstring_view (drop (length (e_name e) + length (e_extra e)) ((e_name e @ e_extra e @ e_comment e) @ drop t buf)) (length (e_comment e))
      else Some []) = Some (cstring (e_comment e))"
    by (simp add: cstring_def)
  have nm: "cstring_view ((e_name e @ e_extra e @ e_comment e) @ drop t buf) (length (e_name e)) = Some (cstring (e_name e))"
    by (simp add: cstring_def)
  have "readDirectoryHeader malloc br buffer
      = Some (Inr (entry_file e), br2, (e_name e @ e_extra e @ e_comment e) @ drop t buf)"
    unfolding readDirectoryHeader_def R1(1) bind.bind_lunit
    by (simp only: read_fixed_encode [OF assms(4)] bind.bind_lunit sum.case prod.case Let_def t_def [symmetric] buf_def [symmetric]
        R2(1) nm cm extra_loop_none [OF ok(1)])
       (simp add: entry_file_def finish_header_def Let_def ok resolveFileMode_def)
  then show ?thesis using R2 len by (simp add: add.assoc)
qed

lemma to_int64_small: "0 \<le> i \<Longrightarrow> i < 2 ^ 63 \<Longrightarrow> to_int64 i = i"
  by (simp add: to_int64_def signed_of_int signed_take_bit_int_eq_self)

lemma uint_ucast_u32: "uint (ucast (w :: u32) :: u64) = uint w"
proof -
  have "unat (ucast w :: u64) = unat w" by (rule unat_ucast_up) simp
  then show ?thesis by (simp only: uint_nat)
qed

lemma entry_file_sizes [simp]:
  "uint (uncompressed_size (entry_file e)) = uint (e_usize e)" "uint (compressed_size (entry_file e)) = uint (e_csize e)"
  by (simp_all add: entry_file_def Let_def uint_ucast_u32)

lemma read_entries_encode:
  assumes "\<And>n. length (malloc n) = n" and "\<forall>e\<in>set es. entry_ok e"
    and "br_at L br" and "br_file br = pre @ concat (map encode_entry es) @ post" and "L = length pre"
    and "0 \<le> total_uncompressed r" "total_uncompressed r + (\<Sum>e\<leftarrow>es. uint (e_usize e)) < 2 ^ 63"
    and "0 \<le> total_compressed r" "total_compressed r + (\<Sum>e\<leftarrow>es. uint (e_csize e)) < 2 ^ 63"
  shows "read_entries malloc (length es) br buffer r =
    Some (Inr (r\<lparr>total_uncompressed := total_uncompressed r + (\<Sum>e\<leftarrow>es. uint (e_usize e)),
      total_compressed := total_compressed r + (\<Sum>e\<leftarrow>es. uint (e_csize e)), files := files r @ map entry_file es\<rparr>))"
  using assms(2-)
proof (induction es arbitrary: L br pre buffer r)
  case Nil
  then show ?case by simp
next
  case (Cons e es)
  obtain br1 buffer1 where H: "readDirectoryHeader malloc br buffer = Some (Inr (entry_file e), br1, buffer1)"
    "br_at (L + length (encode_entry e)) br1" "br_file br1 = br_file br"
    using readDirectoryHeader_encode [OF Cons.prems(2) _ Cons.prems(4), of e "concat (map encode_entry es) @ post" malloc buffer]
      Cons.prems(1,3) assms(1) by auto
  define r1 where "r1 = r\<lparr>total_uncompressed := total_uncompressed r + uint (e_usize e),
    total_compressed := total_compressed r + uint (e_csize e), files := files r @ [entry_file e]\<rparr>"
  have nonneg: "0 \<le> (\<Sum>e\<leftarrow>es. uint (e_usize e))" "0 \<le> (\<Sum>e\<leftarrow>es. uint (e_csize e))"
    by (auto intro!: sum_list_nonneg)
  have small: "to_int64 (total_uncompressed r + uint (e_usize e)) = total_uncompressed r + uint (e_usize e)"
    "to_int64 (total_compressed r + uint (e_csize e)) = total_compressed r + uint (e_csize e)"
    using Cons.prems(5-8) nonneg by (auto intro!: to_int64_small)
  have "read_entries malloc (length (e # es)) br buffer r = read_entries malloc (length es) br1 buffer1 r1"
    by (simp add: H(1) small r1_def)
  also have "\<dots> = Some (Inr (r1\<lparr>total_uncompressed := total_uncompressed r1 + (\<Sum>e\<leftarrow>es. uint (e_usize e)),
      total_compressed := total_compressed r1 + (\<Sum>e\<leftarrow>es. uint (e_csize e)), files := files r1 @ map entry_file es\<rparr>))"
    using Cons.prems nonneg H(3)
    by (intro Cons.IH [OF _ H(2), where pre = "pre @ encode_entry e"]) (auto simp: r1_def add.assoc)
  finally show ?case by (simp add: r1_def add.assoc)
qed

lemma sum_u32_bound: "(\<Sum>e\<leftarrow>es. uint (f e :: u32)) \<le> int (length es) * 4294967296"
proof (induction es)
  case (Cons e es)
  then show ?case using uint_bounded [of "f e"] by (simp add: algebra_simps)
qed simp

lemma length_directory: "46 * length es \<le> length (concat (map encode_entry es))"
  by (induction es) (simp_all add: encode_entry_def)

text \<open>
  C13: Opening an archive gives back what was written. For every archive with a central
  directory of entries without extra fields, and an end record whose comment hides no other
  end record, \<open>OpenReader\<close> stays inside its memory and returns exactly the entries in their
  order, each with its own name, comment, sizes, position, time and mode, the comment of the
  archive and the exact sums of the sizes, whatever precedes the directory and whatever the
  allocator hands out.
\<close>

theorem OpenReader_reads_directory:
  assumes "\<And>n. length (malloc n) = n" and "\<forall>e\<in>set es. entry_ok e"
    and "d = concat (map encode_entry es)" and "b = encode_end (length es) (length d) (length pre) cm"
    and "findSignatureInBlock b = 0" and "length es < 65535" "length d < 4294967296" "length d \<noteq> 65535"
    and "length pre < 4294967295" "length cm < 65536"
  shows "OpenReader malloc (pre @ d @ b) (- 1) 0 =
    Some (Inr \<lparr>fd = pre @ d @ b, fd_size = int (length (pre @ d @ b)), baseOffset = 0,
      total_uncompressed = (\<Sum>e\<leftarrow>es. uint (e_usize e)), total_compressed = (\<Sum>e\<leftarrow>es. uint (e_csize e)),
      archive_comment = cstring cm, files = map entry_file es\<rparr>)"
proof -
  define r where "r = \<lparr>fd = pre @ d @ b, fd_size = int (length (pre @ d @ b)), baseOffset = 0, total_uncompressed = 0,
    total_compressed = 0, archive_comment = [], files = []\<rparr>"
  have E: "readDirectoryEnd r = Some (Inr (\<lparr>diskNbr = 0, dirDiskNbr = 0, dirRecordsThisDisk = of_nat (length es),
      directoryRecords = of_nat (length es), directorySize = of_nat (length d), directoryOffset = of_nat (length pre)\<rparr>, cstring cm))"
    using assms(5-10) by (intro readDirectoryEnd_encode [where pre = "pre @ d"]) (simp_all add: r_def assms(4))
  have n: "unat (of_nat (length es) :: u64) = length es" using assms(6) by (simp add: unat_of_nat)
  have room: "\<not> length es > nat (fd_size r) div fileHeaderLen"
    using length_directory [of es] by (simp add: r_def fileHeaderLen_def assms(3) less_eq_div_iff_mult_less_eq)
  have start: "sint (of_nat (length pre) :: u64) = int (length pre)" using assms(9) by (intro sint_of_nat_small) simp
  have sums: "(\<Sum>e\<leftarrow>es. uint (f e)) < 2 ^ 63" for f :: "zip_entry \<Rightarrow> u32" using sum_u32_bound [of f es] assms(6) by simp
  have "read_entries malloc (length es) (bufio_init (fd r) (length pre)) (malloc 65536) (r\<lparr>archive_comment := cstring cm\<rparr>)
      = Some (Inr (r\<lparr>archive_comment := cstring cm, total_uncompressed := (\<Sum>e\<leftarrow>es. uint (e_usize e)),
          total_compressed := (\<Sum>e\<leftarrow>es. uint (e_csize e)), files := map entry_file es\<rparr>))"
    using read_entries_encode [OF assms(1,2) br_at_init [of "length pre" "fd r"], where pre = pre and post = b
      and r = "r\<lparr>archive_comment := cstring cm\<rparr>" and buffer = "malloc 65536"] sums
    by (simp add: r_def assms(3) bufio_init_def)
  then show ?thesis
    using room n start E by (simp add: OpenReader_def Initialize_def r_def [symmetric] Let_def) (simp add: r_def)
qed

definition example_entry :: zip_entry where
  "example_entry = \<lparr>e_madeby = 0x0314, e_needed = 20, e_flags = 0, e_method = 8, e_time = 0, e_date = 0x21, e_crc = 1,
     e_csize = 10, e_usize = 20, e_attrs = 0x81A40000, e_position = 0, e_name = lit ''a/b'', e_extra = [], e_comment = []\<rparr>"

definition example_folder :: zip_entry where
  "example_folder = example_entry\<lparr>e_name := lit ''c/'', e_comment := lit ''hi''\<rparr>"

theorem OpenReader_reads_directory_witness:
  "\<exists>r. OpenReader (\<lambda>n. replicate n 0) ([1, 2, 3] @ (encode_entry example_entry @ encode_entry example_folder)
      @ encode_end 2 99 3 (lit ''x'')) (- 1) 0 = Some (Inr r)
    \<and> map name (files r) = [lit ''a/b'', lit ''c/''] \<and> map IsDir (files r) = [False, True]
    \<and> archive_comment r = lit ''x'' \<and> total_uncompressed r = 40"
proof -
  have es: "\<forall>e\<in>set [example_entry, example_folder]. entry_ok e"
    by (simp add: entry_ok_def example_entry_def example_folder_def)
  have d: "encode_entry example_entry @ encode_entry example_folder = concat (map encode_entry [example_entry, example_folder])" by simp
  have len: "length (encode_entry example_entry @ encode_entry example_folder) = 99"
    by (simp add: encode_entry_def example_entry_def example_folder_def)
  have n: "length [example_entry, example_folder] = 2" "length [1, 2, 3 :: byte] = 3" by simp_all
  have e: "encode_end 2 99 3 (lit ''x'') = [0x50, 0x4b, 5, 6, 0, 0, 0, 0, 2, 0, 2, 0, 99, 0, 0, 0, 3, 0, 0, 0, 1, 0, 0x78]"
    by (simp add: encode_end_def le_bytes_small ch_def)
  have b: "findSignatureInBlock (encode_end 2 99 3 (lit ''x'')) = 0"
    unfolding e by (simp add: findSignatureInBlock_def signature_at_def directoryEndLen_def numeral_2_eq_2 ch_def)
  have f: "map name (map entry_file [example_entry, example_folder]) = [lit ''a/b'', lit ''c/'']"
    "map IsDir (map entry_file [example_entry, example_folder]) = [False, True]" "cstring (lit ''x'') = lit ''x''"
    "(\<Sum>e\<leftarrow>[example_entry, example_folder]. uint (e_usize e)) = 40"
    by (simp_all add: entry_file_def example_entry_def example_folder_def cstring_def IsDir_def resolveFileMode_def
        unixModeToFileMode_def mode_defs ends_with_def Let_def ch_def)
  have "OpenReader (\<lambda>n. replicate n 0) ([1, 2, 3] @ (encode_entry example_entry @ encode_entry example_folder)
      @ encode_end 2 99 3 (lit ''x'')) (- 1) 0 = Some (Inr \<lparr>fd = [1, 2, 3] @ (encode_entry example_entry @ encode_entry example_folder)
      @ encode_end 2 99 3 (lit ''x''), fd_size = int (length ([1, 2, 3] @ (encode_entry example_entry @ encode_entry example_folder)
      @ encode_end 2 99 3 (lit ''x''))), baseOffset = 0,
      total_uncompressed = (\<Sum>e\<leftarrow>[example_entry, example_folder]. uint (e_usize e)),
      total_compressed = (\<Sum>e\<leftarrow>[example_entry, example_folder]. uint (e_csize e)),
      archive_comment = cstring (lit ''x''), files = map entry_file [example_entry, example_folder]\<rparr>)"
    by (rule OpenReader_reads_directory [OF _ es d _ b])
      (simp_all only: len n, simp_all)
  then show ?thesis
    by (intro exI conjI) (assumption, simp_all only: Reader.select_convs f)
qed

section \<open>The kind of an entry\<close>

definition name_of_folder :: "File \<Rightarrow> bool" where
  "name_of_folder file \<longleftrightarrow> ends_with (name file) (ch CHR ''/'') \<or> ends_with (name file) (ch (CHR 0x5C))"

lemma unixModeToFileMode_kind:
  "unixModeToFileMode m AND ModeSymlink \<noteq> 0 \<longleftrightarrow> m AND 0xf000 = 0xa000"
  "unixModeToFileMode m AND ModeDir \<noteq> 0 \<longleftrightarrow> m AND 0xf000 = 0x4000"
  "unixModeToFileMode m AND ModePerm = m AND ModePerm"
  unfolding unixModeToFileMode_def Let_def
  by (simp_all add: or_if_mask mode_defs bit.conj_disj_distrib2 and.assoc)

lemma msdosModeToFileMode_kind:
  "msdosModeToFileMode m AND ModeSymlink = 0"
  "msdosModeToFileMode m AND ModeDir \<noteq> 0 \<longleftrightarrow> m AND 0x10 \<noteq> 0"
  by (simp_all add: msdosModeToFileMode_def Let_def mode_defs)

text \<open>
  What an entry is follows from who made it. For an archive made on Unix or macOS an
  entry is a symbolic link exactly if its mode says so, and a folder exactly if its mode
  says so or its name ends with a separator; the permissions are those of the mode. For one
  made on Windows it is never a link, and a folder by its attribute or its name. For other
  makers only the name counts.
\<close>

theorem resolveFileMode_kind:
  defines "n f \<equiv> drop_bit 8 (version_madeby f)"
  shows "(resolveFileMode f a AND ModeSymlink \<noteq> 0 \<longleftrightarrow> n f \<in> {3, 19} \<and> drop_bit 16 a AND 0xf000 = 0xa000)
    \<and> (resolveFileMode f a AND ModeDir \<noteq> 0 \<longleftrightarrow> name_of_folder f \<or> n f \<in> {3, 19} \<and> drop_bit 16 a AND 0xf000 = 0x4000
        \<or> n f \<in> {0, 11, 14} \<and> a AND 0x10 \<noteq> 0)
    \<and> (n f \<in> {3, 19} \<longrightarrow> resolveFileMode f a AND ModePerm = drop_bit 16 a AND ModePerm)"
proof -
  have k: "(if c then x OR ModeDir else x) AND ModeSymlink = x AND ModeSymlink"
    "(if c then x OR ModeDir else x) AND ModePerm = x AND ModePerm"
    "(if c then x OR ModeDir else x) AND ModeDir \<noteq> 0 \<longleftrightarrow> c \<or> x AND ModeDir \<noteq> 0" for c x
    by (simp_all add: or_if_mask mode_defs bit.conj_disj_distrib2)
  show ?thesis
    unfolding resolveFileMode_def Let_def name_of_folder_def [symmetric] k n_def
    by (auto simp: unixModeToFileMode_kind msdosModeToFileMode_kind)
qed

theorem resolveFileMode_kind_witness:
  "resolveFileMode (File_default\<lparr>version_madeby := 0x0314, name := lit ''a''\<rparr>) 0xA1FF0000 AND ModeSymlink \<noteq> 0"
  using resolveFileMode_kind [of "File_default\<lparr>version_madeby := 0x0314, name := lit ''a''\<rparr>" "0xA1FF0000"] by simp

section \<open>What the extra fields let in\<close>

definition example_state :: extra_state where
  "example_state = \<lparr>xs_file = File_default\<lparr>name := lit ''a''\<rparr>, needUSize = False, needSize = False, needOffset = False,
     modified = UnixEpoch\<rparr>"

text \<open>
  As \<open>Sub\<close> enlarges the reader, the loop runs over the end of the extra fields: the bytes
  behind an unknown field of nine bytes, which belong to the comment of the entry, are taken
  for another field, and that one renames the entry.
\<close>

lemma extra_loop_reads_comment:
  "map_option (map_sum (\<lambda>e. e) (\<lambda>st. name (xs_file st)))
     (extra_loop \<lparr>le_data = [0xAA, 0xAA, 9, 0, 0, 0, 0, 0, 0, 0, 0, 0, 0] @ [0x75, 0x70, 6, 0, 0, 0, 0, 0, 0, 0x78]
          @ [0, 0, 0, 0, 0, 0, 0, 0, 0, 0, 0, 0, 0, 0, 0, 0, 0, 0, 0, 0],
        le_size = 13\<rparr> example_state)
   = Some (Inr [0x78])"
  by (simp add: extra_loop.simps Read_le_def Sub_def extra_field_def zip64ExtraID_def ntfsExtraID_def unixExtraID_def
      infoZipUnixExtraID_def extTimeExtraID_def infoZipUnicodePathID_def infoZipUnicodeCommentExtraID_def winzipAesExtraID_def
      extra_name_def Pick_def cstring_view_def example_state_def File_default_def)

text \<open>The target of a link in a Unix field is taken from four bytes behind its start.\<close>

lemma extra_unix_linkname_shifted:
  "map_option (\<lambda>st. linkname (xs_file st))
     (extra_unix unixExtraID \<lparr>le_data = replicate 12 0 @ lit ''target'' @ lit ''next'' @ replicate 4 0, le_size = 18\<rparr> example_state)
   = Some (lit ''etnext'')"
  by code_simp

text \<open>A set-group-id file has the mode bit of a character device.\<close>

lemma setgid_is_CharDevice: "unixModeToFileMode 0x8400 AND ModeCharDevice \<noteq> 0"
  by code_simp

end
