(* ===== verification/Baulk_Crc32.thy ===== *)
theory Baulk_Crc32
  imports Baulk_Crc32_Table
begin

text \<open>
  The CRC32 of the archive library, \<^verbatim>\<open>lib/archive/crc32.cc\<close>: eight ways to compute it, of which
  \<open>crc32_fast\<close> uses the one that takes sixteen bytes at a time four times over, the
  combination of two sums, and the \<open>Summator\<close> of \<^verbatim>\<open>include/baulk/archive/crc32.hpp\<close> the readers
  of zip members check their output with. All are compared with the bit by bit definition;
  the machine is little-endian. A read outside the buffer has no value.
\<close>

section \<open>Without tables\<close>

definition Polynomial :: u32 where "Polynomial = 0xEDB88320"

definition bitwise_step :: "u32 \<Rightarrow> u32" where
  "bitwise_step crc = drop_bit 1 crc XOR ((- (crc AND 1)) AND Polynomial)"

definition crc32_bitwise :: "byte list \<Rightarrow> u32 \<Rightarrow> u32" where
  "crc32_bitwise data previousCrc32 =
     NOT (fold (\<lambda>b crc. (bitwise_step ^^ 8) (crc XOR ucast b)) data (NOT previousCrc32))"

definition Crc32Lookup16 :: "u32 list" where
  "Crc32Lookup16 = [0x00000000, 0x1DB71064, 0x3B6E20C8, 0x26D930AC, 0x76DC4190, 0x6B6B51F4, 0x4DB26158, 0x5005713C,
     0xEDB88320, 0xF00F9344, 0xD6D6A3E8, 0xCB61B38C, 0x9B64C2B0, 0x86D3D2D4, 0xA00AE278, 0xBDBDF21C]"

definition halfbyte :: "byte \<Rightarrow> u32 \<Rightarrow> u32" where
  "halfbyte b crc =
     (let crc = Crc32Lookup16 ! unat ((crc XOR ucast b) AND 0x0F) XOR drop_bit 4 crc
      in Crc32Lookup16 ! unat ((crc XOR ucast (drop_bit 4 b)) AND 0x0F) XOR drop_bit 4 crc)"

definition crc32_halfbyte :: "byte list \<Rightarrow> u32 \<Rightarrow> u32" where
  "crc32_halfbyte data previousCrc32 = NOT (fold halfbyte data (NOT previousCrc32))"

definition tableless :: "byte \<Rightarrow> u32 \<Rightarrow> u32" where
  "tableless b crc =
     (let s = ucast crc XOR b :: byte;
          low = (ucast s XOR push_bit 6 (ucast s)) AND 0xFF :: u32;
          a = low * (push_bit 23 1 + push_bit 14 1 + push_bit 2 1)
      in drop_bit 8 crc XOR (low * (push_bit 24 1 + push_bit 16 1 + push_bit 8 1)) XOR a XOR drop_bit 1 a
         XOR (low * (push_bit 20 1 + push_bit 12 1)) XOR push_bit 19 low XOR push_bit 17 low XOR drop_bit 2 low)"

definition crc32_1byte_tableless :: "byte list \<Rightarrow> u32 \<Rightarrow> u32" where
  "crc32_1byte_tableless data previousCrc32 = NOT (fold tableless data (NOT previousCrc32))"

text \<open>The shifts to the right are on a signed number and keep its sign.\<close>

definition tableless2 :: "byte \<Rightarrow> u32 \<Rightarrow> u32" where
  "tableless2 b crc =
     (let crc = crc XOR ucast b;
          c = (signed_drop_bit 31 (push_bit 31 crc) AND (drop_bit 7 Polynomial XOR drop_bit 1 Polynomial))
            XOR (signed_drop_bit 31 (push_bit 30 crc) AND (drop_bit 6 Polynomial XOR Polynomial))
            XOR (signed_drop_bit 31 (push_bit 29 crc) AND drop_bit 5 Polynomial)
            XOR (signed_drop_bit 31 (push_bit 28 crc) AND drop_bit 4 Polynomial)
            XOR (signed_drop_bit 31 (push_bit 27 crc) AND drop_bit 3 Polynomial)
            XOR (signed_drop_bit 31 (push_bit 26 crc) AND drop_bit 2 Polynomial)
            XOR (signed_drop_bit 31 (push_bit 25 crc) AND drop_bit 1 Polynomial)
            XOR (signed_drop_bit 31 (push_bit 24 crc) AND Polynomial)
      in drop_bit 8 crc XOR c)"

definition crc32_1byte_tableless2 :: "byte list \<Rightarrow> u32 \<Rightarrow> u32" where
  "crc32_1byte_tableless2 data previousCrc32 = NOT (fold tableless2 data (NOT previousCrc32))"

section \<open>With tables\<close>

definition byte_step :: "byte \<Rightarrow> u32 \<Rightarrow> u32" where
  "byte_step b crc = drop_bit 8 crc XOR Crc32Lookup ! 0 ! unat ((crc AND 0xFF) XOR ucast b)"

definition crc32_1byte :: "byte list \<Rightarrow> u32 \<Rightarrow> u32" where
  "crc32_1byte data previousCrc32 = NOT (fold byte_step data (NOT previousCrc32))"

text \<open>The four lookups of a word, in the rows from \<open>s\<close> on.\<close>

definition lookup4 :: "nat \<Rightarrow> u32 \<Rightarrow> u32" where
  "lookup4 s w = Crc32Lookup ! s ! unat (drop_bit 24 w AND 0xFF) XOR Crc32Lookup ! (s + 1) ! unat (drop_bit 16 w AND 0xFF)
     XOR Crc32Lookup ! (s + 2) ! unat (drop_bit 8 w AND 0xFF) XOR Crc32Lookup ! (s + 3) ! unat (w AND 0xFF)"

text \<open>
  The loop over the blocks of the buffer: as long as \<open>while_length\<close> bytes are left, a block of
  \<open>n\<close> bytes goes through the register. The rest of the buffer is left for the byte loop.
\<close>

function block_loop :: "nat \<Rightarrow> nat \<Rightarrow> (byte list \<Rightarrow> u32 \<Rightarrow> u32) \<Rightarrow> byte list \<Rightarrow> u32 \<Rightarrow> (byte list \<times> u32) option" where
  "block_loop while_length n block data crc =
     (if while_length \<le> length data
      then if length data < n \<or> n = 0 then None
           else block_loop while_length n block (drop n data) (block data crc)
      else Some (data, crc))"
  by pat_completeness auto
termination
  by (relation "measure (\<lambda>(while_length, n, block, data, crc). length data)") auto

declare block_loop.simps [simp del]

definition finish_bytes :: "(byte list \<times> u32) option \<Rightarrow> u32 option" where
  "finish_bytes res = map_option (\<lambda>(data, crc). NOT (fold byte_step data crc)) res"

definition block4 :: "byte list \<Rightarrow> u32 \<Rightarrow> u32" where
  "block4 data crc = (let one = read32le data 0 XOR crc in lookup4 0 one)"

definition crc32_4bytes :: "byte list \<Rightarrow> u32 \<Rightarrow> u32 option" where
  "crc32_4bytes data previousCrc32 = finish_bytes (block_loop 4 4 block4 data (NOT previousCrc32))"

definition block8 :: "byte list \<Rightarrow> u32 \<Rightarrow> u32" where
  "block8 data crc = (let one = read32le data 0 XOR crc; two = read32le data 4 in lookup4 0 two XOR lookup4 4 one)"

definition crc32_8bytes :: "byte list \<Rightarrow> u32 \<Rightarrow> u32 option" where
  "crc32_8bytes data previousCrc32 = finish_bytes (block_loop 8 8 block8 data (NOT previousCrc32))"

text \<open>The inner loop that is unrolled four times.\<close>

definition unrolled :: "nat \<Rightarrow> (byte list \<Rightarrow> u32 \<Rightarrow> u32) \<Rightarrow> byte list \<Rightarrow> u32 \<Rightarrow> u32" where
  "unrolled n block data crc = fold (\<lambda>unrolling crc. block (drop (n * unrolling) data) crc) [0..<4] crc"

definition crc32_4x8bytes :: "byte list \<Rightarrow> u32 \<Rightarrow> u32 option" where
  "crc32_4x8bytes data previousCrc32 = finish_bytes (block_loop 32 32 (unrolled 8 block8) data (NOT previousCrc32))"

definition block16 :: "byte list \<Rightarrow> u32 \<Rightarrow> u32" where
  "block16 data crc =
     (let one = read32le data 0 XOR crc; two = read32le data 4; three = read32le data 8; four = read32le data 12
      in lookup4 0 four XOR lookup4 4 three XOR lookup4 8 two XOR lookup4 12 one)"

definition crc32_16bytes :: "byte list \<Rightarrow> u32 \<Rightarrow> u32 option" where
  "crc32_16bytes data previousCrc32 = finish_bytes (block_loop 64 64 (unrolled 16 block16) data (NOT previousCrc32))"

text \<open>The bound of the loop is a sum in 64 bits.\<close>

definition crc32_16bytes_prefetch :: "byte list \<Rightarrow> u32 \<Rightarrow> u64 \<Rightarrow> u32 option" where
  "crc32_16bytes_prefetch data previousCrc32 prefetchAhead =
     finish_bytes (block_loop (unat (64 + prefetchAhead)) 64 (unrolled 16 block16) data (NOT previousCrc32))"

definition crc32_fast :: "byte list \<Rightarrow> u32 \<Rightarrow> u32" where
  "crc32_fast data previousCrc32 = the (crc32_16bytes data previousCrc32)"

section \<open>Combining two sums\<close>

text \<open>The sum of the rows of a matrix that the bits of a vector choose.\<close>

function matrix_times :: "u32 list \<Rightarrow> nat \<Rightarrow> u32 \<Rightarrow> u32 \<Rightarrow> u32" where
  "matrix_times mat i vec acc =
     (if vec = 0 then acc
      else matrix_times mat (i + 1) (drop_bit 1 vec) (if vec AND 1 \<noteq> 0 then acc XOR mat ! i else acc))"
  by pat_completeness auto
termination
proof (relation "measure (\<lambda>(mat, i, vec, acc). unat vec)")
  fix vec :: u32 assume "vec \<noteq> 0"
  then have "unat vec div 2 < unat vec" by (simp add: unat_eq_0 [symmetric] del: unat_eq_0)
  then show "((mat, i + 1, drop_bit 1 vec, s'), mat, i, vec, s) \<in> measure (\<lambda>(mat, i, vec, acc). unat vec)" for mat i s s'
    by (simp add: unat_div drop_bit_eq_div)
qed simp

declare matrix_times.simps [simp del]

definition matrix_square :: "u32 list \<Rightarrow> u32 list" where
  "matrix_square mat = map (\<lambda>vec. matrix_times mat 0 vec 0) mat"

definition one_zero_bit :: "u32 list" where
  "one_zero_bit = Polynomial # map (\<lambda>i. push_bit (i - 1) 1) [1..<32]"

fun combine_loop :: "nat \<Rightarrow> u32 list \<Rightarrow> u32 \<Rightarrow> u32" where
  "combine_loop lengthB b crcA =
     (if lengthB > 0
      then let a = matrix_square b;
               crcA = (if odd lengthB then matrix_times a 0 crcA 0 else crcA)
           in combine_loop (lengthB div 2) a crcA
      else crcA)"

declare combine_loop.simps [simp del]

definition crc32_combine :: "u32 \<Rightarrow> u32 \<Rightarrow> nat \<Rightarrow> u32" where
  "crc32_combine crcA crcB lengthB =
     (if lengthB = 0 then crcA
      else let odd = one_zero_bit; even = matrix_square odd; odd = matrix_square even
           in combine_loop lengthB odd crcA XOR crcB)"

section \<open>The sum of a member\<close>

record Summator =
  crc32_target_val :: u32
  current :: u32

definition Summator_init :: "u32 \<Rightarrow> Summator" where
  "Summator_init val = \<lparr>crc32_target_val = val, current = 0\<rparr>"

definition Update :: "byte list \<Rightarrow> Summator \<Rightarrow> Summator" where
  "Update data s = (if crc32_target_val s = 0 then s else s\<lparr>current := crc32_fast data (current s)\<rparr>)"

definition Valid :: "Summator \<Rightarrow> bool" where
  "Valid s \<longleftrightarrow> (if crc32_target_val s = 0 then True else current s = crc32_target_val s)"

section \<open>One byte at a time\<close>

lemma Polynomial_eq: "Polynomial = poly32"
  by (simp add: Polynomial_def poly32_def)

lemma bitwise_step_eq: "bitwise_step crc = drop_bit 1 crc XOR (if bit crc 0 then poly32 else 0)"
proof -
  have "crc AND 1 = of_bool (bit crc 0)" by (simp only: and_one_eq mod_2_eq_odd bit_0)
  then show ?thesis by (simp only: bitwise_step_def Polynomial_eq) (cases "bit crc 0"; simp)
qed

lemma bitwise_steps: "(bitwise_step ^^ n) crc = crc_shift poly32 n crc"
  by (induction n arbitrary: crc)
    (simp_all add: crc_shift_Suc bitwise_step_eq funpow_Suc_right del: crc_shift.simps(2) funpow.simps(2))

lemma byte_step_eq: "byte_step = crc_ref_byte poly32"
proof (intro ext)
  fix b :: byte and crc :: u32
  have "(crc AND 0xFF) XOR ucast b = ucast (b XOR crc_A crc)"
    by (rule bit_word_eqI) (auto simp: bit_simps crc_A_eq and_FF dest: bit_imp_le_length)
  then have "unat ((crc AND 0xFF) XOR ucast b) = unat (b XOR crc_A crc)" by (simp add: unat_ucast_up del: unsigned_ucast_eq)
  then have "byte_step b crc = crc32_table 0 (b XOR crc_A crc) XOR crc_S8 crc"
    by (simp add: byte_step_def Crc32Lookup_entry crc_S8_def xor.commute del: crc32_table.simps)
  then show "byte_step b crc = crc_ref_byte poly32 b crc"
    using crc32_byte_eq by (simp add: crc32_byte_def fun_eq_iff del: crc32_table.simps)
qed

text \<open>The table as a function of the bits of the byte.\<close>

lemma byte_as_bits:
  "(ucast (b :: byte) :: u32) = (if bit b 0 then push_bit 0 1 else 0) XOR (if bit b 1 then push_bit 1 1 else 0)
     XOR (if bit b 2 then push_bit 2 1 else 0) XOR (if bit b 3 then push_bit 3 1 else 0) XOR (if bit b 4 then push_bit 4 1 else 0)
     XOR (if bit b 5 then push_bit 5 1 else 0) XOR (if bit b 6 then push_bit 6 1 else 0) XOR (if bit b 7 then push_bit 7 1 else 0)"
  by (simp add: u32_bits bit_simps)

lemma table0_bits:
  "crc32_table 0 b = (if bit b 0 then 0x77073096 else 0) XOR (if bit b 1 then 0xEE0E612C else 0)
     XOR (if bit b 2 then 0x076DC419 else 0) XOR (if bit b 3 then 0x0EDB8832 else 0) XOR (if bit b 4 then 0x1DB71064 else 0)
     XOR (if bit b 5 then 0x3B6E20C8 else 0) XOR (if bit b 6 then 0x76DC4190 else 0) XOR (if bit b 7 then 0xEDB88320 else 0)"
proof -
  let ?f = "crc_shift poly32 8"
  have v: "?f (push_bit 0 1) = 0x77073096" "?f (push_bit 1 1) = 0xEE0E612C" "?f (push_bit 2 1) = 0x076DC419"
    "?f (push_bit 3 1) = 0x0EDB8832" "?f (push_bit 4 1) = 0x1DB71064" "?f (push_bit 5 1) = 0x3B6E20C8"
    "?f (push_bit 6 1) = 0x76DC4190" "?f (push_bit 7 1) = 0xEDB88320"
    by (simp_all add: crc_steps del: crc_shift.simps(2))
  show ?thesis
    unfolding crc32_table.simps(1) byte_as_bits by (simp only: crc_shift_xor if_distrib [of ?f] v crc_shift_0)
qed

lemma signed_mask: "k < 32 \<Longrightarrow> signed_drop_bit 31 (push_bit (31 - k) (x :: u32)) = (if bit x k then - 1 else 0)"
  by (rule bit_word_eqI) (auto simp: bit_signed_drop_bit_iff bit_simps Suc_le_eq)

lemma tableless2_eq: "tableless2 = crc_ref_byte poly32"
proof (intro ext)
  fix b :: byte and crc :: u32
  define r where "r = crc XOR ucast b"
  have m: "signed_drop_bit 31 (push_bit 31 r) = (if bit r 0 then - 1 else 0)"
    "signed_drop_bit 31 (push_bit 30 r) = (if bit r 1 then - 1 else 0)"
    "signed_drop_bit 31 (push_bit 29 r) = (if bit r 2 then - 1 else 0)"
    "signed_drop_bit 31 (push_bit 28 r) = (if bit r 3 then - 1 else 0)"
    "signed_drop_bit 31 (push_bit 27 r) = (if bit r 4 then - 1 else 0)"
    "signed_drop_bit 31 (push_bit 26 r) = (if bit r 5 then - 1 else 0)"
    "signed_drop_bit 31 (push_bit 25 r) = (if bit r 6 then - 1 else 0)"
    "signed_drop_bit 31 (push_bit 24 r) = (if bit r 7 then - 1 else 0)"
    using signed_mask [of 0 r] signed_mask [of 1 r] signed_mask [of 2 r] signed_mask [of 3 r] signed_mask [of 4 r]
      signed_mask [of 5 r] signed_mask [of 6 r] signed_mask [of 7 r] by simp_all
  have c: "((if P then - 1 else 0) AND x) = (if P then x else 0)" for P and x :: u32 by simp
  have rr: "bit (ucast r :: byte) 0 = bit r 0" "bit (ucast r :: byte) 1 = bit r 1" "bit (ucast r :: byte) 2 = bit r 2"
    "bit (ucast r :: byte) 3 = bit r 3" "bit (ucast r :: byte) 4 = bit r 4" "bit (ucast r :: byte) 5 = bit r 5"
    "bit (ucast r :: byte) 6 = bit r 6" "bit (ucast r :: byte) 7 = bit r 7"
    by (simp_all add: bit_simps)
  have "crc_ref_byte poly32 b crc = crc_shift poly32 8 (take_bit 8 r) XOR drop_bit 8 r"
    by (simp only: crc_ref_byte_def r_def [symmetric] crc_shift_split [of poly32 8 r])
  also have "take_bit 8 r = ucast (ucast r :: byte)" by (rule bit_word_eqI) (auto simp: bit_simps)
  also have "crc_shift poly32 8 (ucast (ucast r :: byte)) = crc32_table 0 (ucast r)" by (simp del: crc_shift.simps)
  also have "crc32_table 0 (ucast r) XOR drop_bit 8 r = tableless2 b crc"
    unfolding tableless2_def Let_def r_def [symmetric] m c table0_bits rr
    by (simp add: Polynomial_def xor.commute [of "drop_bit 8 r"])
  finally show "tableless2 b crc = crc_ref_byte poly32 b crc" by (rule sym)
qed

lemma low_byte_lookup:
  assumes "\<And>s. f s = crc32_table 0 s"
  shows "drop_bit 8 crc XOR f (ucast crc XOR b) = crc_ref_byte poly32 b crc"
proof -
  have "ucast crc XOR b = b XOR crc_A crc" by (simp add: crc_A_eq xor.commute)
  then show ?thesis using assms crc32_byte_eq
    by (simp add: crc32_byte_def fun_eq_iff crc_S8_def xor.commute del: crc32_table.simps)
qed

text \<open>The part of \<open>tableless\<close> that depends on the byte, compared with the table byte by byte.\<close>

definition tableless_byte :: "byte \<Rightarrow> u32" where
  "tableless_byte s =
     (let low = (ucast s XOR push_bit 6 (ucast s)) AND 0xFF :: u32;
          a = low * (push_bit 23 1 + push_bit 14 1 + push_bit 2 1)
      in (low * (push_bit 24 1 + push_bit 16 1 + push_bit 8 1)) XOR a XOR drop_bit 1 a
         XOR (low * (push_bit 20 1 + push_bit 12 1)) XOR push_bit 19 low XOR push_bit 17 low XOR drop_bit 2 low)"

lemma tableless_row: "map (\<lambda>i. tableless_byte (of_nat i)) [0..<256] = Crc32Lookup_0"
  by (simp add: tableless_byte_def Crc32Lookup_0_def upt_rec [of 0] upt_rec [of "Suc 0"] numeral_2_eq_2 [symmetric])

lemma tableless_byte_eq: "tableless_byte b = crc32_table 0 b"
proof -
  have "unat b < 2 ^ LENGTH(8)" by (rule unsigned_less)
  then have "tableless_byte b = Crc32Lookup_0 ! unat b" by (simp add: tableless_row [symmetric])
  then show ?thesis using Crc32Lookup_entry [of 0 b] by (simp add: Crc32Lookup_def del: crc32_table.simps)
qed

lemma tableless_eq: "tableless = crc_ref_byte poly32"
proof (intro ext)
  fix b crc
  have "tableless b crc = drop_bit 8 crc XOR tableless_byte (ucast crc XOR b)"
    by (simp add: tableless_def tableless_byte_def Let_def xor.assoc)
  then show "tableless b crc = crc_ref_byte poly32 b crc" using low_byte_lookup [OF tableless_byte_eq] by simp
qed

section \<open>Half a byte at a time\<close>

lemma Crc32Lookup16_row: "Crc32Lookup16 = map (\<lambda>i. crc_shift poly32 4 (of_nat i)) [0..<16]"
  by (simp add: Crc32Lookup16_def crc_steps upt_rec [of 0] upt_rec [of "Suc 0"] numeral_2_eq_2 [symmetric] del: crc_shift.simps(2))

lemma halfbyte_lookup: "Crc32Lookup16 ! unat (r AND 0x0F) = crc_shift poly32 4 (take_bit 4 r)"
proof -
  have m: "r AND 0x0F = take_bit 4 r" by (simp add: u32_bits bit_simps)
  have "unat (take_bit 4 r) < 2 ^ 4" using take_bit_nat_less_exp [of 4 "unat r"] by (simp add: unsigned_take_bit_eq)
  then show ?thesis by (simp add: m Crc32Lookup16_row del: crc_shift.simps)
qed

lemma halfbyte_eq: "halfbyte = crc_ref_byte poly32"
proof (intro ext)
  fix b :: byte and crc :: u32
  define lo where "lo = (ucast (take_bit 4 b) :: u32)"
  define hi where "hi = (ucast (drop_bit 4 b) :: u32)"
  define crc1 where "crc1 = crc_shift poly32 4 (crc XOR lo)"
  have "Crc32Lookup16 ! unat ((crc XOR ucast b) AND 0x0F) XOR drop_bit 4 crc = crc1"
  proof -
    have "take_bit 4 (crc XOR ucast b) = take_bit 4 (crc XOR lo)" "drop_bit 4 (crc XOR lo) = drop_bit 4 crc"
      by (rule bit_word_eqI; auto simp: lo_def bit_simps)+
    then show ?thesis using crc_shift_split [of poly32 4 "crc XOR lo"] by (simp add: crc1_def halfbyte_lookup del: crc_shift.simps)
  qed
  moreover have "Crc32Lookup16 ! unat ((crc1 XOR hi) AND 0x0F) XOR drop_bit 4 crc1 = crc_shift poly32 4 (crc1 XOR hi)"
  proof -
    have "drop_bit 4 (crc1 XOR hi) = drop_bit 4 crc1" by (rule bit_word_eqI) (auto simp: hi_def bit_simps)
    then show ?thesis using crc_shift_split [of poly32 4 "crc1 XOR hi"] by (simp add: halfbyte_lookup del: crc_shift.simps)
  qed
  moreover have "crc_shift poly32 4 (crc1 XOR hi) = crc_ref_byte poly32 b crc"
  proof -
    have "drop_bit 4 (push_bit 4 hi) = hi" by (rule bit_word_eqI) (auto simp: hi_def bit_simps dest: bit_imp_le_length)
    then have h: "crc_shift poly32 4 (push_bit 4 hi) = hi" using crc_shift_push_bit [of 4 hi poly32 0] by simp
    have "crc_shift poly32 4 (crc XOR lo XOR push_bit 4 hi) = crc1 XOR hi" by (simp only: crc1_def crc_shift_xor h xor.assoc)
    moreover have "crc XOR lo XOR push_bit 4 hi = crc XOR ucast b"
      by (rule bit_word_eqI) (auto simp: lo_def hi_def bit_simps)
    ultimately show ?thesis using crc_shift_add [of poly32 4 4 "crc XOR ucast b"] by (simp add: crc_ref_byte_def del: crc_shift.simps)
  qed
  ultimately show "halfbyte b crc = crc_ref_byte poly32 b crc" by (simp add: halfbyte_def Let_def hi_def [symmetric])
qed

section \<open>Several bytes at a time\<close>

lemma lookup4_eq: "s < 13 \<Longrightarrow> lookup4 s w = crc_shift poly32 (32 + 8 * s) w"
proof -
  assume s: "s < 13"
  have u: "unat (x AND 0xFF) = unat (ucast x :: byte)" for x :: u32
  proof -
    have "x AND 0xFF = ucast (ucast x :: byte)" by (rule bit_word_eqI) (auto simp: and_FF bit_simps)
    then show ?thesis by (simp add: unat_ucast_up del: unsigned_ucast_eq)
  qed
  have "lookup4 s w = crc32_table s (crc_D w) XOR crc32_table (s + 1) (crc_C w) XOR crc32_table (s + 2) (crc_B w)
      XOR crc32_table (s + 3) (crc_A w)"
    using s by (simp add: lookup4_def u Crc32Lookup_entry crc_bytes del: crc32_table.simps)
  then show ?thesis using crc32_lookup_4 [of s w] by (simp add: add.commute ac_simps del: crc32_table.simps crc_shift.simps)
qed

lemma read32le_drop: "4 + p \<le> length data \<Longrightarrow> read32le data p = read32le (drop p data) 0"
  by (simp add: read32le_def)

lemma crc_ref_block4:
  assumes "4 \<le> length data"
  shows "crc_shift poly32 32 (read32le data 0 XOR crc) = fold (crc_ref_byte poly32) (take 4 data) crc"
  using crc_ref_4 [of poly32 "data ! 0" "data ! 1" "data ! 2" "data ! 3" crc] assms
  by (simp add: take_4_nth read32le_word_of_4 xor.commute del: crc_shift.simps)

lemma fold_take_add: "fold f (take (m + n) xs) a = fold f (take n (drop m xs)) (fold f (take m xs) a)"
  by (simp add: take_add)

lemma block4_eq: "4 \<le> length data \<Longrightarrow> block4 data crc = fold (crc_ref_byte poly32) (take 4 data) crc"
  by (simp add: block4_def Let_def lookup4_eq crc_ref_block4 del: crc_shift.simps)

text \<open>A block and the word behind it: the block has gone through four more bytes.\<close>

lemma shift_xor_word:
  assumes "4 + n \<le> length data"
  shows "crc_shift poly32 32 (fold (crc_ref_byte poly32) (take n data) crc) XOR crc_shift poly32 32 (read32le data n)
    = fold (crc_ref_byte poly32) (take (n + 4) data) crc"
proof -
  let ?c = "fold (crc_ref_byte poly32) (take n data) crc"
  have "fold (crc_ref_byte poly32) (take (n + 4) data) crc = crc_shift poly32 32 (read32le (drop n data) 0 XOR ?c)"
    using assms crc_ref_block4 [of "drop n data" ?c] by (simp add: fold_take_add del: crc_shift.simps)
  then show ?thesis using assms by (simp only: crc_shift_xor read32le_drop xor.commute)
qed

lemma crc_shift_32: "crc_shift poly32 (32 + n) x = crc_shift poly32 32 (crc_shift poly32 n x)"
  using crc_shift_add [of poly32 n 32 x] by (simp add: add.commute del: crc_shift.simps)

lemma block8_eq:
  assumes "8 \<le> length data"
  shows "block8 data crc = fold (crc_ref_byte poly32) (take 8 data) crc"
proof -
  have "block8 data crc = crc_shift poly32 32 (crc_shift poly32 32 (read32le data 0 XOR crc)) XOR crc_shift poly32 32 (read32le data 4)"
    using crc_shift_32 [of 32] by (simp add: block8_def Let_def lookup4_eq xor.commute del: crc_shift.simps)
  then show ?thesis using assms shift_xor_word [of 4 data crc] by (simp add: crc_ref_block4 del: crc_shift.simps)
qed

lemma block16_eq:
  assumes "16 \<le> length data"
  shows "block16 data crc = fold (crc_ref_byte poly32) (take 16 data) crc"
proof -
  let ?s = "crc_shift poly32 32"
  have "block16 data crc = ?s (?s (?s (?s (read32le data 0 XOR crc)) XOR ?s (read32le data 4)) XOR ?s (read32le data 8))
      XOR ?s (read32le data 12)"
    using crc_shift_32 [of 32] crc_shift_32 [of 64] crc_shift_32 [of 96]
    by (simp add: block16_def Let_def lookup4_eq crc_shift_xor ac_simps del: crc_shift.simps)
  then show ?thesis
    using assms shift_xor_word [of 4 data crc] shift_xor_word [of 8 data crc] shift_xor_word [of 12 data crc]
    by (simp add: crc_ref_block4 del: crc_shift.simps)
qed

lemma unrolled_eq:
  assumes "\<And>data crc. n \<le> length data \<Longrightarrow> block data crc = fold (crc_ref_byte poly32) (take n data) crc" and "4 * n \<le> length data"
  shows "unrolled n block data crc = fold (crc_ref_byte poly32) (take (4 * n) data) crc"
proof -
  have "fold (\<lambda>unrolling crc. block (drop (n * unrolling) data) crc) [0..<k] crc = fold (crc_ref_byte poly32) (take (n * k) data) crc"
    if "n * k \<le> length data" for k
    using that
  proof (induction k)
    case (Suc k)
    then show ?case using assms(1) [of "drop (n * k) data"]
      by (simp add: fold_take_add add.commute [of n])
  qed simp
  from this [of 4] assms(2) show ?thesis by (simp add: unrolled_def mult.commute)
qed

lemma block_loop_eq:
  assumes "\<And>data crc. n \<le> length data \<Longrightarrow> block data crc = fold (crc_ref_byte poly32) (take n data) crc" and "0 < n" and "n \<le> m"
  shows "finish_bytes (block_loop m n block data crc) = Some (NOT (fold (crc_ref_byte poly32) data crc))"
proof (induction "length data" arbitrary: data crc rule: less_induct)
  case less
  show ?case
  proof (cases "m \<le> length data")
    case True
    then have n: "n \<le> length data" using assms(3) by simp
    have "finish_bytes (block_loop m n block data crc) = finish_bytes (block_loop m n block (drop n data) (block data crc))"
      using True n assms(2) by (subst block_loop.simps) auto
    also have "\<dots> = Some (NOT (fold (crc_ref_byte poly32) (drop n data) (block data crc)))"
      using n assms(2) by (intro less) simp
    finally show ?thesis using n by (simp add: assms(1) fold_take_drop)
  next
    case False
    then show ?thesis by (subst block_loop.simps) (simp add: finish_bytes_def byte_step_eq)
  qed
qed

lemma unrolled16_eq: "64 \<le> length data \<Longrightarrow> unrolled 16 block16 data crc = fold (crc_ref_byte poly32) (take 64 data) crc"
  using unrolled_eq [of 16 block16 data crc] block16_eq by simp

lemma unrolled8_eq: "32 \<le> length data \<Longrightarrow> unrolled 8 block8 data crc = fold (crc_ref_byte poly32) (take 32 data) crc"
  using unrolled_eq [of 8 block8 data crc] block8_eq by simp

lemma crc32_16bytes_eq: "crc32_16bytes data c = Some (crc_ref poly32 data c)"
  using block_loop_eq [of 64 "unrolled 16 block16" 64] unrolled16_eq by (simp add: crc32_16bytes_def crc_ref_def)

lemma crc32_fast_eq: "crc32_fast data c = crc_ref poly32 data c"
  by (simp add: crc32_fast_def crc32_16bytes_eq)

text \<open>
  C18: The eight ways to compute the CRC32 agree with the bit by bit definition of the
  reflected CRC with the polynomial of zlib, for every buffer and every previous sum: bit by
  bit, half a byte, one byte with and without the table, and four, eight, four times eight
  and four times sixteen bytes at a time, with the table of the source. The prefetching
  variant does so as long as the sum of its bound does not wrap around.
\<close>

theorem crc32_variants_agree:
  "crc32_bitwise data c = crc_ref poly32 data c
   \<and> crc32_halfbyte data c = crc_ref poly32 data c
   \<and> crc32_1byte data c = crc_ref poly32 data c
   \<and> crc32_1byte_tableless data c = crc_ref poly32 data c
   \<and> crc32_1byte_tableless2 data c = crc_ref poly32 data c
   \<and> crc32_4bytes data c = Some (crc_ref poly32 data c)
   \<and> crc32_8bytes data c = Some (crc_ref poly32 data c)
   \<and> crc32_4x8bytes data c = Some (crc_ref poly32 data c)
   \<and> crc32_16bytes data c = Some (crc_ref poly32 data c)
   \<and> (64 \<le> unat (64 + prefetchAhead) \<longrightarrow> crc32_16bytes_prefetch data c prefetchAhead = Some (crc_ref poly32 data c))"
proof (intro conjI impI)
  show "crc32_bitwise data c = crc_ref poly32 data c"
    by (simp add: crc32_bitwise_def crc_ref_def bitwise_steps crc_ref_byte_def [abs_def] del: crc_shift.simps funpow.simps)
  show "crc32_halfbyte data c = crc_ref poly32 data c" by (simp add: crc32_halfbyte_def crc_ref_def halfbyte_eq)
  show "crc32_1byte data c = crc_ref poly32 data c" by (simp add: crc32_1byte_def crc_ref_def byte_step_eq)
  show "crc32_1byte_tableless data c = crc_ref poly32 data c" by (simp add: crc32_1byte_tableless_def crc_ref_def tableless_eq)
  show "crc32_1byte_tableless2 data c = crc_ref poly32 data c" by (simp add: crc32_1byte_tableless2_def crc_ref_def tableless2_eq)
  show "crc32_4bytes data c = Some (crc_ref poly32 data c)"
    using block_loop_eq [of 4 block4 4] block4_eq by (simp add: crc32_4bytes_def crc_ref_def)
  show "crc32_8bytes data c = Some (crc_ref poly32 data c)"
    using block_loop_eq [of 8 block8 8] block8_eq by (simp add: crc32_8bytes_def crc_ref_def)
  show "crc32_4x8bytes data c = Some (crc_ref poly32 data c)"
    using block_loop_eq [of 32 "unrolled 8 block8" 32] unrolled8_eq by (simp add: crc32_4x8bytes_def crc_ref_def)
  show "crc32_16bytes data c = Some (crc_ref poly32 data c)" by (rule crc32_16bytes_eq)
  show "crc32_16bytes_prefetch data c prefetchAhead = Some (crc_ref poly32 data c)" if "64 \<le> unat (64 + prefetchAhead)"
    using block_loop_eq [of 64 "unrolled 16 block16" "unat (64 + prefetchAhead)"] unrolled16_eq that
    by (simp add: crc32_16bytes_prefetch_def crc_ref_def)
qed

text \<open>The check value of the standard.\<close>

theorem crc32_variants_agree_witness:
  "crc32_bitwise (map (\<lambda>i. of_nat i + 48) [1..<10]) 0 = crc_ref poly32 (map (\<lambda>i. of_nat i + 48) [1..<10]) 0
   \<and> crc32_16bytes_prefetch [49] 0 256 = Some (crc_ref poly32 [49] 0)"
  using crc32_variants_agree [of _ 0 256] by simp


interpretation fast: checksum crc32_fast
  by unfold_locales (simp_all add: crc32_fast_eq crc_ref_append, simp add: crc_ref_def)

section \<open>The combination of two sums\<close>

text \<open>The rows of the matrix of a linear function.\<close>

definition rows_of :: "(u32 \<Rightarrow> u32) \<Rightarrow> u32 list" where
  "rows_of f = map (\<lambda>i. f (push_bit i 1)) [0..<32]"

lemma matrix_times_linear:
  assumes "\<And>x y. f (x XOR y) = f x XOR f (y :: u32)" and "f 0 = 0"
  shows "i \<le> 32 \<Longrightarrow> drop_bit (32 - i) v = 0 \<Longrightarrow> matrix_times (rows_of f) i v acc = acc XOR f (push_bit i v)"
proof (induction "rows_of f" i v acc rule: matrix_times.induct)
  case (1 i v acc)
  show ?case
  proof (cases "v = 0")
    case True
    then show ?thesis using assms(2) by (subst matrix_times.simps) simp
  next
    case False
    have i: "i < 32" using False "1.prems" by (cases "i = 32") auto
    have d: "drop_bit (32 - (i + 1)) (drop_bit 1 v) = 0" using "1.prems" i Suc_diff_le [of i 31] by (simp add: drop_bit_drop_bit)
    let ?acc = "if v AND 1 \<noteq> 0 then acc XOR rows_of f ! i else acc"
    have s: "push_bit i v = (if bit v 0 then push_bit i 1 else 0) XOR push_bit (i + 1) (drop_bit 1 v)"
    proof (rule bit_word_eqI)
      fix n assume "n < LENGTH(32)"
      then show "bit (push_bit i v) n = bit ((if bit v 0 then push_bit i 1 else 0) XOR push_bit (i + 1) (drop_bit 1 v)) n"
        by (cases "n < i"; cases "n = i") (auto simp: bit_simps Suc_diff_Suc simp del: push_bit_Suc)
    qed
    have r: "rows_of f ! i = f (push_bit i 1)" using i by (simp add: rows_of_def)
    have "matrix_times (rows_of f) i v acc = matrix_times (rows_of f) (i + 1) (drop_bit 1 v) ?acc"
      using False by (subst matrix_times.simps) simp
    also have "\<dots> = ?acc XOR f (push_bit (i + 1) (drop_bit 1 v))" using "1.hyps" [OF False] i d by simp
    also have "\<dots> = acc XOR f (push_bit i v)"
      unfolding s assms(1) and_1_iff r by (simp add: xor.assoc assms(2))
    finally show ?thesis .
  qed
qed

lemma matrix_times_eq: "matrix_times (rows_of (crc_shift poly32 n)) 0 v 0 = crc_shift poly32 n v"
  using matrix_times_linear [of "crc_shift poly32 n" 0 v 0] by (simp add: crc_shift_xor del: crc_shift.simps)

lemma matrix_square_eq: "matrix_square (rows_of (crc_shift poly32 n)) = rows_of (crc_shift poly32 (2 * n))"
proof -
  let ?f = "crc_shift poly32 n"
  have d: "crc_shift poly32 (2 * n) x = ?f (?f x)" for x by (simp add: mult_2 crc_shift_add)
  have "matrix_square (rows_of ?f) = map (\<lambda>v. matrix_times (rows_of ?f) 0 v 0) (map (\<lambda>i. ?f (push_bit i 1)) [0..<32])"
    unfolding matrix_square_def by (subst (2) rows_of_def) (rule refl)
  then show ?thesis by (simp only: matrix_times_eq map_map comp_def rows_of_def [of "crc_shift poly32 (2 * n)"] d)
qed

lemma rows_of_Cons: "rows_of f = f (push_bit 0 1) # map (\<lambda>i. f (push_bit i 1)) [1..<32]"
  by (simp add: rows_of_def upt_conv_Cons)

lemma one_zero_bit_eq: "one_zero_bit = rows_of (crc_shift poly32 1)"
proof -
  have step: "crc_shift poly32 1 r = drop_bit 1 r XOR (if bit r 0 then poly32 else 0)" for r
    using crc_shift_Suc [of poly32 0 r] by simp
  have "crc_shift poly32 1 (push_bit i 1) = push_bit (i - 1) 1" if "0 < i" "i < 32" for i
  proof -
    have "drop_bit 1 (push_bit i 1 :: u32) = push_bit (i - 1) 1"
      using that by (intro bit_word_eqI) (auto simp: bit_simps)
    moreover have "\<not> bit (push_bit i 1 :: u32) 0" using that by (simp add: bit_simps)
    ultimately show ?thesis by (simp only: step if_False xor.right_neutral)
  qed
  then have "map (\<lambda>i. crc_shift poly32 1 (push_bit i 1)) [1..<32] = map (\<lambda>i. push_bit (i - 1) 1) [1..<32]"
    by (intro map_cong) auto
  moreover have "crc_shift poly32 1 (push_bit 0 1) = Polynomial" by (simp only: step Polynomial_eq) simp
  ultimately show ?thesis by (simp only: one_zero_bit_def rows_of_Cons)
qed

lemma combine_loop_eq:
  "combine_loop k (rows_of (crc_shift poly32 n)) c = crc_shift poly32 (2 * n * k) c"
proof (induction k arbitrary: n c rule: less_induct)
  case (less k)
  show ?case
  proof (cases "k = 0")
    case True
    then show ?thesis by (subst combine_loop.simps) simp
  next
    case False
    let ?a = "rows_of (crc_shift poly32 (2 * n))"
    define c1 where "c1 = (if odd k then crc_shift poly32 (2 * n) c else c)"
    have "combine_loop k (rows_of (crc_shift poly32 n)) c = combine_loop (k div 2) ?a c1"
      using False by (subst combine_loop.simps) (simp add: matrix_square_eq matrix_times_eq c1_def Let_def del: crc_shift.simps)
    also have "\<dots> = crc_shift poly32 (2 * (2 * n) * (k div 2)) c1" using False by (intro less) simp
    also have "\<dots> = crc_shift poly32 (2 * n * k) c"
    proof (cases "odd k")
      case True
      then have "2 * n * k = 2 * n + 2 * (2 * n) * (k div 2)" by (auto elim!: oddE simp: algebra_simps)
      then show ?thesis using True by (simp only: c1_def if_True crc_shift_add not_False_eq_True)
    next
      case False
      then have "2 * (2 * n) * (k div 2) = 2 * n * k" by auto
      then show ?thesis using False by (simp only: c1_def if_False)
    qed
    finally show ?thesis .
  qed
qed

lemma fold_crc_linear:
  "fold (crc_ref_byte poly32) data (x XOR y) = crc_shift poly32 (8 * length data) x XOR fold (crc_ref_byte poly32) data y"
proof (induction data arbitrary: x y)
  case (Cons b data)
  have "crc_ref_byte poly32 b (x XOR y) = crc_shift poly32 8 x XOR crc_ref_byte poly32 b y"
    by (simp only: crc_ref_byte_def xor.assoc crc_shift_xor)
  moreover have "crc_shift poly32 (8 * length (b # data)) x = crc_shift poly32 (8 * length data) (crc_shift poly32 8 x)"
    using crc_shift_add [of poly32 8 "8 * length data" x] by simp
  ultimately show ?case using Cons by simp
qed simp

text \<open>
  C19: Two sums combine to the sum of the concatenation: from the sum of a first buffer, the
  sum of a second one and the length of the second one alone, \<open>crc32_combine\<close> computes the sum
  that \<open>crc32_fast\<close> computes over both.
\<close>

theorem crc32_combine_concat:
  "crc32_combine (crc32_fast A p) (crc32_fast B 0) (length B) = crc32_fast (A @ B) p"
proof (cases "B = []")
  case True
  then show ?thesis by (simp add: crc32_combine_def)
next
  case False
  let ?c = "crc32_fast A p" and ?s = "crc_shift poly32 (8 * length B)"
  have "matrix_square (matrix_square one_zero_bit) = rows_of (crc_shift poly32 4)"
    using matrix_square_eq [of 1] matrix_square_eq [of 2] by (simp add: one_zero_bit_eq del: crc_shift.simps)
  then have main: "crc32_combine ?c (crc32_fast B 0) (length B) = ?s ?c XOR crc32_fast B 0"
    using False combine_loop_eq [of "length B" 4 ?c] by (simp add: crc32_combine_def Let_def del: crc_shift.simps)
  have "NOT ?c = ?c XOR NOT 0" by (rule bit_word_eqI) (simp add: bit_simps)
  then have "fold (crc_ref_byte poly32) B (NOT ?c) = ?s ?c XOR fold (crc_ref_byte poly32) B (NOT 0)"
    by (simp only: fold_crc_linear)
  moreover have "NOT (x XOR y) = x XOR NOT y" for x y :: u32 by (rule bit_word_eqI) (auto simp: bit_simps)
  ultimately have "crc32_fast B ?c = ?s ?c XOR crc32_fast B 0" by (simp only: crc32_fast_eq crc_ref_def)
  then show ?thesis using main fast.update_append by simp
qed

section \<open>The sum of a member\<close>

text \<open>With a target other than zero, the sum is that of all the pieces, and it is compared.\<close>

lemma Update_pieces:
  assumes "val \<noteq> 0"
  shows "fold Update pieces (Summator_init val) = \<lparr>crc32_target_val = val, current = crc32_fast (concat pieces) 0\<rparr>"
proof -
  have "fold Update pieces \<lparr>crc32_target_val = val, current = c\<rparr> = \<lparr>crc32_target_val = val, current = crc32_fast (concat pieces) c\<rparr>" for c
    using assms by (induction pieces arbitrary: c) (simp_all add: Update_def fast.update_Nil fast.update_append)
  then show ?thesis by (simp add: Summator_init_def)
qed

lemma Summator_Valid:
  "Valid (fold Update pieces (Summator_init val)) \<longleftrightarrow> val = 0 \<or> crc32_fast (concat pieces) 0 = val"
proof (cases "val = 0")
  case True
  have "fold Update pieces (Summator_init 0) = Summator_init 0"
    by (induction pieces) (simp_all add: Update_def Summator_init_def)
  then show ?thesis using True by (simp add: Valid_def Summator_init_def)
next
  case False
  then show ?thesis by (simp add: Update_pieces Valid_def)
qed

end
