(* ===== verification/Baulk_Zip_Decode.thy ===== *)
theory Baulk_Zip_Decode
  imports Baulk_Zip Baulk_Crc32 Baulk_Disk Baulk_Codecs
begin

text \<open>
  The contents of zip members: \<open>Reader::Decompress\<close> of \<^verbatim>\<open>lib/archive/zip/decompress.cc\<close> with the
  copying of stored members and the loops that drive a decoder for each method
  (\<^verbatim>\<open>deflate.cc\<close>, \<^verbatim>\<open>deflate64.cc\<close>, \<^verbatim>\<open>bzip.cc\<close>, \<^verbatim>\<open>zstd.cc\<close>, \<^verbatim>\<open>brotli.cc\<close>, \<^verbatim>\<open>xz.cc\<close>, \<^verbatim>\<open>ppmd.cc\<close>). The
  decoders themselves are the machines of \<open>Baulk_Codecs\<close>. The writer is the callback of the caller
  with a state of its own. A loop may run forever when a decoder does.
\<close>

section \<open>Outcomes\<close>

text \<open>
  What a decompression ends with: success, or a failure with the error code it sets; the
  callback of a stored member sets none.
\<close>

datatype outcome = Done | Failed "zip_error err option"

type_synonym 's writer = "'s \<Rightarrow> byte list \<Rightarrow> bool \<times> 's"

definition outsize :: nat where "outsize = 64 * 1024"
definition insize :: nat where "insize = 16 * 1024"

text \<open>\<open>FD::ReadFull\<close> at a position of the file.\<close>

definition read_full :: "byte list \<Rightarrow> nat \<Rightarrow> nat \<Rightarrow> byte list option" where
  "read_full contents pos n = (if n = 0 \<or> pos + n \<le> length contents then Some (bytes_at contents pos n) else None)"

text \<open>The output of a step goes through the sum and to the writer.\<close>

definition emit :: "'s writer \<Rightarrow> byte list \<Rightarrow> 's \<Rightarrow> Summator \<Rightarrow> bool \<times> 's \<times> Summator" where
  "emit w out s sm = (case w s out of (ok, s) \<Rightarrow> (ok, s, Update out sm))"

definition check_sum :: "'s \<times> (zip_error err + Summator) \<Rightarrow> 's \<times> outcome" where
  "check_sum res = (case res of
       (s, Inl e) \<Rightarrow> (s, Failed (Some e))
     | (s, Inr sm) \<Rightarrow> (s, if Valid sm then Done else Failed (Some ErrGeneral)))"

section \<open>Stored members\<close>

function store_loop :: "'s writer \<Rightarrow> byte list \<Rightarrow> nat \<Rightarrow> nat \<Rightarrow> 's \<Rightarrow> 's \<times> outcome" where
  "store_loop w contents pos csize s =
     (if csize \<noteq> 0
      then let minsize = min csize 4096 in
           case read_full contents pos minsize of
             None \<Rightarrow> (s, Failed (Some (ErrReader ErrRead)))
           | Some buffer \<Rightarrow>
               (case w s buffer of
                  (False, s) \<Rightarrow> (s, Failed None)
                | (True, s) \<Rightarrow> store_loop w contents (pos + minsize) (csize - minsize) s)
      else (s, Done))"
  by pat_completeness auto
termination
  by (relation "measure (\<lambda>(w, contents, pos, csize, s). csize)") auto

declare store_loop.simps [simp del]

section \<open>Feeding a decoder\<close>

text \<open>
  The outer loop of the deflate, bzip2, Zstandard and brotli members: the input is read in
  pieces of at most \<open>n\<close> bytes, and each goes through the inner loop, which says whether the
  decoder has reached the end of its stream.
\<close>

partial_function (option) feed_loop ::
    "nat \<Rightarrow> ('z \<Rightarrow> byte list \<Rightarrow> 's \<Rightarrow> Summator \<Rightarrow> ('s \<times> (zip_error err + bool \<times> 'z \<times> Summator)) option) \<Rightarrow> byte list \<Rightarrow> nat \<Rightarrow> nat
      \<Rightarrow> 'z \<Rightarrow> 's \<Rightarrow> Summator \<Rightarrow> ('s \<times> (zip_error err + Summator)) option" where
  "feed_loop n inner contents pos csize z s sm =
     (if csize = 0 then Some (s, Inr sm)
      else let minsize = min csize n in
           case read_full contents pos minsize of
             None \<Rightarrow> Some (s, Inl (ErrReader ErrRead))
           | Some inp \<Rightarrow> do {
               (s, res) \<leftarrow> inner z inp s sm;
               (case res of
                  Inl e \<Rightarrow> Some (s, Inl e)
                | Inr (ended, z, sm) \<Rightarrow>
                    if ended then Some (s, Inr sm)
                    else feed_loop n inner contents (pos + minsize) (csize - minsize) z s sm)
             })"

section \<open>Deflate and bzip2\<close>

text \<open>
  The inner loop runs until a step leaves room in the output buffer; what is left of the
  input then is given up.
\<close>

partial_function (option) pump_inner ::
    "('z \<Rightarrow> byte list \<Rightarrow> ret \<times> byte list \<times> byte list \<times> 'z) \<Rightarrow> (ret \<Rightarrow> bool) \<Rightarrow> 's writer \<Rightarrow> 'z \<Rightarrow> byte list
      \<Rightarrow> 's \<Rightarrow> Summator \<Rightarrow> ('s \<times> (zip_error err + bool \<times> 'z \<times> Summator)) option" where
  "pump_inner code fails w z inp s sm =
     (case code z inp of (ret, out, inp, z) \<Rightarrow>
        if fails ret then Some (s, Inl ErrGeneral)
        else case emit w (room outsize out) s sm of (ok, s, sm) \<Rightarrow>
          if \<not> ok then Some (s, Inl ErrCanceled)
          else if length (room outsize out) = outsize then pump_inner code fails w z inp s sm
          else Some (s, Inr (ret = RET_STREAM_END, z, sm)))"

definition decompressDeflate :: "'z machines \<Rightarrow> File \<Rightarrow> 's writer \<Rightarrow> byte list \<Rightarrow> nat \<Rightarrow> 's \<Rightarrow> ('s \<times> outcome) option" where
  "decompressDeflate m f w contents pos s =
     (case inflate_init m of
        None \<Rightarrow> Some (s, Failed (Some ErrGeneral))
      | Some z \<Rightarrow> map_option check_sum
          (feed_loop insize (pump_inner (inflate m) (\<lambda>ret. ret = RET_NEED_DICT \<or> ret = RET_DATA_ERROR \<or> ret = RET_MEM_ERROR) w) contents pos
            (unat (compressed_size f)) z s (Summator_init (crc32_value f))))"

definition decompressBz2 :: "'z machines \<Rightarrow> File \<Rightarrow> 's writer \<Rightarrow> byte list \<Rightarrow> nat \<Rightarrow> 's \<Rightarrow> ('s \<times> outcome) option" where
  "decompressBz2 m f w contents pos s =
     (case bz_init m of
        None \<Rightarrow> Some (s, Failed (Some ErrGeneral))
      | Some z \<Rightarrow> map_option check_sum
          (feed_loop insize (pump_inner (bz_decompress m) (\<lambda>ret. ret = RET_DATA_ERROR \<or> ret = RET_MEM_ERROR) w) contents pos
            (unat (compressed_size f)) z s (Summator_init (crc32_value f))))"

section \<open>Zstandard\<close>

partial_function (option) zstd_inner ::
    "'z machines \<Rightarrow> 's writer \<Rightarrow> 'z \<Rightarrow> byte list \<Rightarrow> 's \<Rightarrow> Summator \<Rightarrow> ('s \<times> (zip_error err + bool \<times> 'z \<times> Summator)) option" where
  "zstd_inner m w z inp s sm =
     (if inp = [] then Some (s, Inr (False, z, sm))
      else case zstd_stream m z inp of (is_error, out, inp, z) \<Rightarrow>
        if is_error then Some (s, Inl ErrGeneral)
        else case emit w (room ZSTD_DStreamOutSize out) s sm of (ok, s, sm) \<Rightarrow>
          if \<not> ok then Some (s, Inl ErrCanceled) else zstd_inner m w z inp s sm)"

definition decompressZstd :: "'z machines \<Rightarrow> File \<Rightarrow> 's writer \<Rightarrow> byte list \<Rightarrow> nat \<Rightarrow> 's \<Rightarrow> ('s \<times> outcome) option" where
  "decompressZstd m f w contents pos s =
     (case zstd_init m of
        None \<Rightarrow> Some (s, Failed (Some ErrGeneral))
      | Some z \<Rightarrow> map_option check_sum
          (feed_loop ZSTD_DStreamInSize (zstd_inner m w) contents pos (unat (compressed_size f)) z s (Summator_init (crc32_value f))))"

section \<open>Brotli\<close>

partial_function (option) brotli_inner ::
    "'z machines \<Rightarrow> 's writer \<Rightarrow> 'z \<Rightarrow> byte list \<Rightarrow> 's \<Rightarrow> Summator
      \<Rightarrow> ('s \<times> (zip_error err + bool \<times> 'z \<times> Summator)) option" where
  "brotli_inner m w z inp s sm =
     (case brotli_stream m z inp of (result, out, inp, z) \<Rightarrow>
        case (if out \<noteq> [] then emit w (room outsize out) s sm else (True, s, sm)) of (ok, s, sm) \<Rightarrow>
          if \<not> ok then Some (s, Inl ErrCanceled)
          else if result = BROTLI_NEEDS_MORE_INPUT then Some (s, Inr (result = BROTLI_SUCCESS, z, sm))
          else if result = BROTLI_ERROR then Some (s, Inl ErrGeneral)
          else if result = BROTLI_SUCCESS then Some (s, Inr (result = BROTLI_SUCCESS, z, sm))
          else brotli_inner m w z inp s sm)"

definition decompressBrotli :: "'z machines \<Rightarrow> File \<Rightarrow> 's writer \<Rightarrow> byte list \<Rightarrow> nat \<Rightarrow> 's \<Rightarrow> ('s \<times> outcome) option" where
  "decompressBrotli m f w contents pos s =
     (case brotli_init m of
        None \<Rightarrow> Some (s, Failed (Some ErrGeneral))
      | Some z \<Rightarrow> map_option check_sum
          (feed_loop insize (brotli_inner m w) contents pos (unat (compressed_size f)) z s (Summator_init (crc32_value f))))"

section \<open>XZ and LZMA\<close>

definition xzoutsize :: nat where "xzoutsize = 256 * 1024"
definition xzinsize :: nat where "xzinsize = 128 * 1024"

text \<open>The refill at the top of the loop: the input, what is left of the member, and whether it is the last.\<close>

definition refill :: "byte list \<Rightarrow> byte list \<times> nat \<times> nat \<times> bool \<Rightarrow> (byte list \<times> nat \<times> nat \<times> bool) option" where
  "refill contents st =
     (case st of (inp, pos, csize, action) \<Rightarrow>
        if inp = [] \<and> csize \<noteq> 0
        then let minsize = min csize xzinsize in
             map_option (\<lambda>b. (b, pos + minsize, csize - minsize, if csize - minsize = 0 then True else action))
               (read_full contents pos minsize)
        else Some st)"

text \<open>The output buffer goes out when it is full or the stream ends.\<close>

definition xz_emit :: "'s writer \<Rightarrow> ret \<Rightarrow> byte list \<Rightarrow> 's \<Rightarrow> Summator \<Rightarrow> bool \<times> byte list \<times> 's \<times> Summator" where
  "xz_emit w ret outbuf s sm =
     (if length outbuf = xzoutsize \<or> ret = RET_STREAM_END
      then case emit w outbuf s sm of (ok, s, sm) \<Rightarrow> (ok, [], s, sm)
      else (True, outbuf, s, sm))"

partial_function (option) xz_loop ::
    "'z machines \<Rightarrow> 's writer \<Rightarrow> byte list \<Rightarrow> byte list \<times> nat \<times> nat \<times> bool \<Rightarrow> 'z \<Rightarrow> byte list \<Rightarrow> 's \<Rightarrow> Summator
      \<Rightarrow> ('s \<times> (zip_error err + Summator)) option" where
  "xz_loop m w contents st z outbuf s sm =
     (case refill contents st of
        None \<Rightarrow> Some (s, Inl (ErrReader ErrRead))
      | Some (inp, pos, csize, action) \<Rightarrow>
          (case lzma_step m z action inp (xzoutsize - length outbuf) of (ret, out, inp, z) \<Rightarrow>
             case xz_emit w ret (room xzoutsize (outbuf @ out)) s sm of (ok, outbuf, s, sm) \<Rightarrow>
               if \<not> ok then Some (s, Inl ErrCanceled)
               else if ret = RET_STREAM_END then Some (s, Inr sm)
               else if ret \<noteq> RET_OK then Some (s, Inl ErrGeneral)
               else xz_loop m w contents (inp, pos, csize, action) z outbuf s sm))"

definition decompressXz :: "'z machines \<Rightarrow> File \<Rightarrow> 's writer \<Rightarrow> byte list \<Rightarrow> nat \<Rightarrow> 's \<Rightarrow> ('s \<times> outcome) option" where
  "decompressXz m f w contents pos s =
     (case xz_init m of
        None \<Rightarrow> Some (s, Failed (Some ErrGeneral))
      | Some z \<Rightarrow> map_option check_sum
          (xz_loop m w contents ([], pos, unat (compressed_size f), False) z [] s (Summator_init (crc32_value f))))"

text \<open>
  An LZMA member starts with nine bytes that are turned into the header of an LZMA file of
  unknown size. The subtraction of nine is in 64 bits without a sign.
\<close>

definition decompressLZMA :: "'z machines \<Rightarrow> File \<Rightarrow> 's writer \<Rightarrow> byte list \<Rightarrow> nat \<Rightarrow> 's \<Rightarrow> ('s \<times> outcome) option" where
  "decompressLZMA m f w contents pos s =
     (case lzma_init m of
        None \<Rightarrow> Some (s, Failed (Some ErrGeneral))
      | Some z \<Rightarrow>
          (case read_full contents pos 9 of
             None \<Rightarrow> Some (s, Failed (Some (ErrReader ErrRead)))
           | Some d \<Rightarrow>
               if d ! 2 \<noteq> 0x05 \<or> d ! 3 \<noteq> 0x00 then Some (s, Failed (Some ErrGeneral))
               else case lzma_step m z False (take 5 (drop 4 d) @ replicate 8 0xFF) xzoutsize of (ret, out, inp, z) \<Rightarrow>
                 if ret \<noteq> RET_OK then Some (s, Failed (Some ErrGeneral))
                 else map_option check_sum
                   (xz_loop m w contents (inp, pos + 9, unat (compressed_size f - 9), False) z out s
                     (Summator_init (crc32_value f)))))"

section \<open>Deflate64\<close>

definition CHUNK :: nat where "CHUNK = 131072"

record inflate64Reader =
  chunk :: "byte list"
  rd_offset :: int
  rd_size :: int
  rd_pos :: nat

text \<open>
  The input callback. It reads what is wanted of the file into its buffer and answers with
  \<open>CHUNK\<close> less what it could not read, also when it wanted less than a chunk.
\<close>

definition back9_get :: "byte list \<Rightarrow> inflate64Reader \<Rightarrow> byte list \<times> inflate64Reader" where
  "back9_get contents r =
     (let want = min CHUNK (nat ((rd_size r - rd_offset r) mod 2 ^ 32)) in
      if want = 0 then ([], r)
      else let got = bytes_at contents (rd_pos r) want;
               buf = got @ drop (length got) (chunk r);
               len = CHUNK - (want - length got)
           in (take len buf, r\<lparr>chunk := buf, rd_offset := rd_offset r + int len, rd_pos := rd_pos r + length got\<rparr>))"

partial_function (option) back9_loop ::
    "'z machines \<Rightarrow> 's writer \<Rightarrow> byte list \<Rightarrow> 'z \<Rightarrow> inflate64Reader \<Rightarrow> 's \<Rightarrow> Summator \<Rightarrow> bool \<Rightarrow> ('s \<times> Summator \<times> bool \<times> ret) option" where
  "back9_loop m w contents z r s sm canceled =
     (case back9 m z of
        Return ret \<Rightarrow> Some (s, sm, canceled, ret)
      | Get k \<Rightarrow> (case back9_get contents r of (data, r) \<Rightarrow> back9_loop m w contents (k data) r s sm canceled)
      | Put data k \<Rightarrow>
          (case emit w (room 65536 data) s sm of (ok, s, sm) \<Rightarrow> back9_loop m w contents (k ok) r s sm (canceled \<or> \<not> ok)))"

definition decompressDeflate64 :: "'z machines \<Rightarrow> File \<Rightarrow> 's writer \<Rightarrow> byte list \<Rightarrow> nat \<Rightarrow> 's \<Rightarrow> ('s \<times> outcome) option" where
  "decompressDeflate64 m f w contents pos s =
     (case back9_init m of
        None \<Rightarrow> Some (s, Failed (Some ErrGeneral))
      | Some z \<Rightarrow> do {
          (s, sm, canceled, ret) \<leftarrow> back9_loop m w contents z
            \<lparr>chunk = fresh m CHUNK, rd_offset = 0, rd_size = sint (compressed_size f), rd_pos = pos\<rparr> s
            (Summator_init (crc32_value f)) False;
          Some (s, if canceled then Failed (Some ErrCanceled)
                   else if ret \<noteq> RET_STREAM_END then Failed (Some ErrGeneral)
                   else if \<not> Valid sm then Failed (Some ErrGeneral) else Done)
        })"

section \<open>PPMd\<close>

definition BufferSize :: nat where "BufferSize = 2 ^ 20"

record SectionReader =
  cacheb :: "byte list"
  sr_size :: int
  sr_offset :: int
  sr_pos :: nat
  sr_w :: nat
  sr_r :: nat

definition section_capacity :: nat where "section_capacity = 32 * 1024"

definition AvailableBytes :: "SectionReader \<Rightarrow> int" where
  "AvailableBytes sr = sr_size sr - sr_offset sr"

definition Buffered :: "SectionReader \<Rightarrow> nat" where
  "Buffered sr = sr_w sr - sr_r sr"

text \<open>
  A read of at most \<open>len\<close> bytes, where \<open>len\<close> is one or two, through the buffer. What the
  buffer is filled with is taken to be as long as what was asked for.
\<close>

definition section_Read :: "byte list \<Rightarrow> nat \<Rightarrow> SectionReader \<Rightarrow> byte list option \<times> SectionReader" where
  "section_Read contents len sr =
     (let refilled =
        (if sr_r sr = sr_w sr
         then let dwRead = min section_capacity (nat ((sr_size sr - sr_offset sr) mod 2 ^ 64)) in
              if dwRead = 0 then None
              else let got = bytes_at contents (sr_pos sr) dwRead
                   in Some (sr\<lparr>cacheb := got @ drop (length got) (cacheb sr), sr_w := dwRead, sr_r := 0,
                        sr_offset := sr_offset sr + int dwRead, sr_pos := sr_pos sr + length got\<rparr>)
         else Some sr)
      in case refilled of
           None \<Rightarrow> (None, sr\<lparr>sr_w := 0, sr_r := 0\<rparr>)
         | Some sr \<Rightarrow> let n = min (sr_w sr - sr_r sr) len in (Some (bytes_at (cacheb sr) (sr_r sr) n), sr\<lparr>sr_r := sr_r sr + n\<rparr>))"

definition ppmd_read :: "byte list \<Rightarrow> SectionReader \<Rightarrow> byte \<times> SectionReader" where
  "ppmd_read contents sr = (case section_Read contents 1 sr of (None, sr) \<Rightarrow> (0, sr) | (Some b, sr) \<Rightarrow> (b ! 0, sr))"

text \<open>Two bytes, read one after the other when the buffer runs out between them.\<close>

definition section_Read2 :: "byte list \<Rightarrow> SectionReader \<Rightarrow> byte list option \<times> SectionReader" where
  "section_Read2 contents sr =
     (case section_Read contents 2 sr of
        (None, sr) \<Rightarrow> (None, sr)
      | (Some b, sr) \<Rightarrow>
          if length b < 2 then case section_Read contents (2 - length b) sr of (b2, sr) \<Rightarrow> (map_option ((@) b) b2, sr)
          else (Some b, sr))"

partial_function (option) ppmd_run :: "('z \<Rightarrow> 'z ppmd_call) \<Rightarrow> byte list \<Rightarrow> 'z \<Rightarrow> SectionReader \<Rightarrow> (int \<times> 'z \<times> SectionReader) option" where
  "ppmd_run f contents z sr =
     (case f z of
        Symbol code z \<Rightarrow> Some (code, z, sr)
      | ReadByte k \<Rightarrow> (case ppmd_read contents sr of (b, sr) \<Rightarrow> ppmd_run f contents (k b) sr))"

text \<open>Symbols up to a negative one or a full buffer.\<close>

fun ppmd_fill :: "'z machines \<Rightarrow> byte list \<Rightarrow> nat \<Rightarrow> byte list \<Rightarrow> 'z \<Rightarrow> SectionReader \<Rightarrow> (byte list \<times> 'z \<times> SectionReader) option" where
  "ppmd_fill m contents 0 ob z sr = Some (ob, z, sr)"
| "ppmd_fill m contents (Suc n) ob z sr =
     (case ppmd_run (ppmd_decode m) contents z sr of
        None \<Rightarrow> None
      | Some (code, z, sr) \<Rightarrow>
          if code < 0 then Some (ob, z, sr) else ppmd_fill m contents n (ob @ [word_of_int code]) z sr)"

partial_function (option) ppmd_loop ::
    "'z machines \<Rightarrow> 's writer \<Rightarrow> byte list \<Rightarrow> 'z \<Rightarrow> SectionReader \<Rightarrow> 's \<Rightarrow> Summator \<Rightarrow> ('s \<times> (zip_error err + Summator)) option" where
  "ppmd_loop m w contents z sr s sm = do {
     (ob, z, sr) \<leftarrow> ppmd_fill m contents BufferSize [] z sr;
     if ob = [] then Some (s, Inr sm)
     else case emit w ob s sm of (ok, s, sm) \<Rightarrow>
       if \<not> ok then Some (s, Inl ErrCanceled)
       else if AvailableBytes sr = 0 \<and> Buffered sr = 0 then Some (s, Inr sm)
       else ppmd_loop m w contents z sr s sm
   }"

definition decompressPpmd :: "'z machines \<Rightarrow> File \<Rightarrow> 's writer \<Rightarrow> byte list \<Rightarrow> nat \<Rightarrow> 's \<Rightarrow> ('s \<times> outcome) option" where
  "decompressPpmd m f w contents pos s =
     (case section_Read2 contents \<lparr>cacheb = fresh m section_capacity, sr_size = sint (compressed_size f), sr_offset = 0,
         sr_pos = pos, sr_w = 0, sr_r = 0\<rparr> of
        (None, sr) \<Rightarrow> Some (s, Failed (Some (ErrReader ErrRead)))
      | (Some buf, sr) \<Rightarrow>
          (let val = le_nat buf; order = val mod 16 + 1; mem = val div 16 mod 256 + 1; restor = val div 4096 in
           if order < 2 \<or> restor > 2 then Some (s, Failed (Some ErrGeneral))
           else case ppmd_alloc m (mem * 2 ^ 20) of
             None \<Rightarrow> Some (s, Failed (Some ErrGeneral))
           | Some z \<Rightarrow> do {
               (ok, z, sr) \<leftarrow> ppmd_run (ppmd_rangedec m) contents z sr;
               if ok = 0 then Some (s, Failed (Some ErrGeneral))
               else map_option check_sum
                 (ppmd_loop m w contents (ppmd_model m order restor z) sr s (Summator_init (crc32_value f)))
             }))"

section \<open>Members\<close>

definition fileHeaderSignature :: nat where "fileHeaderSignature = 0x04034b50"

definition decompress_by_method ::
    "'z machines \<Rightarrow> File \<Rightarrow> 's writer \<Rightarrow> byte list \<Rightarrow> nat \<Rightarrow> 's \<Rightarrow> ('s \<times> outcome) option" where
  "decompress_by_method m f w contents pos s =
     (if zip_method f = 0 then Some (store_loop w contents pos (unat (compressed_size f)) s)
      else if zip_method f = 8 then decompressDeflate m f w contents pos s
      else if zip_method f = 9 then decompressDeflate64 m f w contents pos s
      else if zip_method f = 20 \<or> zip_method f = 93 then decompressZstd m f w contents pos s
      else if zip_method f = 14 then decompressLZMA m f w contents pos s
      else if zip_method f = 95 then decompressXz m f w contents pos s
      else if zip_method f = 12 then decompressBz2 m f w contents pos s
      else if zip_method f = 98 then decompressPpmd m f w contents pos s
      else if zip_method f = 121 then decompressBrotli m f w contents pos s
      else Some (s, Failed (Some ErrGeneral)))"

text \<open>The offset of the data of a member, from its local header; positions are 64 bits wide.\<close>

definition data_position :: "Reader \<Rightarrow> File \<Rightarrow> (zip_error err + nat) option" where
  "data_position r f =
     (let realPosition = File.position f + word_of_int (baseOffset r) in
      case ReadAt (fd r) fileHeaderLen (sint realPosition) of
        None \<Rightarrow> Some (Inl (ErrReader ErrRead))
      | Some buf \<Rightarrow> do {
          (sig, b) \<leftarrow> Read_le 4 \<lparr>le_data = buf, le_size = of_nat fileHeaderLen\<rparr>;
          if sig \<noteq> fileHeaderSignature then Some (Inl ErrGeneral)
          else do {
            (filenameLen, b) \<leftarrow> Read_le 2 (Discard 22 b);
            (extraLen, b) \<leftarrow> Read_le 2 b;
            let pos = sint (realPosition + of_nat fileHeaderLen + of_nat filenameLen + of_nat extraLen);
            Some (if pos < 0 then Inl ErrOS else Inr (nat pos))
          }
        })"

definition Decompress :: "'z machines \<Rightarrow> Reader \<Rightarrow> File \<Rightarrow> 's writer \<Rightarrow> 's \<Rightarrow> ('s \<times> outcome) option" where
  "Decompress m r f w s = do {
     res \<leftarrow> data_position r f;
     (case res of
        Inl e \<Rightarrow> Some (s, Failed (Some e))
      | Inr pos \<Rightarrow> decompress_by_method m f w (fd r) pos s)
   }"

definition ResolveLinkName :: "'z machines \<Rightarrow> Reader \<Rightarrow> File \<Rightarrow> (byte list \<times> zip_error err option) option" where
  "ResolveLinkName m r f =
     (if linkname f \<noteq> [] then Some (linkname f, None)
      else do {
        (link, outcome) \<leftarrow> Decompress m r f (\<lambda>s data. (True, s @ data)) [];
        Some (case outcome of Done \<Rightarrow> (link, None) | Failed e \<Rightarrow> ([], e))
      })"

section \<open>What reaches the writer\<close>

text \<open>Pieces handed to a writer that accepts each of them.\<close>

fun relay :: "'s writer \<Rightarrow> byte list list \<Rightarrow> 's \<Rightarrow> 's option" where
  "relay w [] s = Some s"
| "relay w (p # ps) s = (case w s p of (True, s) \<Rightarrow> relay w ps s | (False, s) \<Rightarrow> None)"

lemma relay_append: "relay w (ps @ qs) s = (case relay w ps s of None \<Rightarrow> None | Some s \<Rightarrow> relay w qs s)"
  by (induction ps arbitrary: s) (auto split: prod.splits bool.splits)

definition good :: "'s writer \<Rightarrow> 's \<times> Summator \<Rightarrow> 's \<times> Summator \<Rightarrow> bool" where
  "good w st st' \<longleftrightarrow> (\<exists>ps. relay w ps (fst st) = Some (fst st') \<and> snd st' = fold Update ps (snd st)
     \<and> (\<forall>p\<in>set ps. length p \<le> BufferSize))"

lemma good_refl: "good w st st"
  by (auto simp: good_def intro: exI [of _ "[]"])

lemma good_trans: "good w a b \<Longrightarrow> good w b c \<Longrightarrow> good w a c"
  unfolding good_def by (elim exE conjE, rule_tac x = "ps @ psa" in exI) (auto simp: relay_append)

lemma good_emit: "emit w out s sm = (True, s', sm') \<Longrightarrow> length out \<le> BufferSize \<Longrightarrow> good w (s, sm) (s', sm')"
  by (auto simp: good_def emit_def split: prod.splits intro!: exI [of _ "[out]"])

lemma buffer_sizes: "outsize \<le> BufferSize" "ZSTD_DStreamOutSize \<le> BufferSize" "xzoutsize \<le> BufferSize" "65536 \<le> BufferSize"
  by (simp_all add: outsize_def ZSTD_DStreamOutSize_def xzoutsize_def BufferSize_def)

text \<open>
  A run of a loop, whatever it ends with, has only called the writer; one that succeeds has
  handed it pieces that it accepted and that went through the sum.
\<close>

definition calls :: "'s writer \<Rightarrow> 's \<Rightarrow> 's \<Rightarrow> bool" where
  "calls w = rtranclp (\<lambda>s s'. \<exists>p. s' = snd (w s p))"

definition fares :: "'s writer \<Rightarrow> 's \<times> Summator \<Rightarrow> 's \<times> (zip_error err + Summator) \<Rightarrow> bool" where
  "fares w st res \<longleftrightarrow> calls w (fst st) (fst res) \<and> (\<forall>sm. snd res = Inr sm \<longrightarrow> good w st (fst res, sm))"

lemma calls_refl: "calls w s s"
  by (simp add: calls_def)

lemma calls_trans: "calls w s s1 \<Longrightarrow> calls w s1 s2 \<Longrightarrow> calls w s s2"
  by (simp add: calls_def)

lemma calls_invariant: "calls w s s' \<Longrightarrow> I s \<Longrightarrow> (\<And>s p. I s \<Longrightarrow> I (snd (w s p))) \<Longrightarrow> I s'"
  unfolding calls_def by (induction rule: rtranclp_induct) auto

lemma calls_emit: "emit w out s sm = (ok, s', sm') \<Longrightarrow> calls w s s'"
  by (auto simp: calls_def emit_def split: prod.splits intro!: r_into_rtranclp) (metis snd_conv)

lemma fares_end: "fares w (s, sm) (s, Inr sm)" "fares w (s, sm) (s, Inl e)"
  by (simp_all add: fares_def calls_refl good_refl)

lemma fares_fails: "emit w out s sm = (ok, s', sm') \<Longrightarrow> fares w (s, sm) (s', Inl e)"
  by (auto simp: fares_def dest: calls_emit)

lemma fares_trans: "fares w (s, sm) (s1, Inr sm1) \<Longrightarrow> fares w (s1, sm1) y \<Longrightarrow> fares w (s, sm) y"
  by (auto simp: fares_def intro: calls_trans good_trans)

lemma fares_or: "y = (s1, Inr sm1) \<or> fares w (s1, sm1) y \<Longrightarrow> fares w (s, sm) (s1, Inr sm1) \<Longrightarrow> fares w (s, sm) y"
  by (erule disjE) (simp, erule fares_trans)

lemma fares_weaken: "fares w (s, sm) (s1, Inr sm1) \<Longrightarrow> fares w (s, sm) (s1, Inl e)"
  by (simp add: fares_def)

lemma fares_emit: "emit w out s sm = (True, s', sm') \<Longrightarrow> length out \<le> BufferSize \<Longrightarrow> fares w (s, sm) (s', Inr sm')"
  by (auto simp: fares_def dest: calls_emit good_emit)

lemma fares_emit_room: "emit w (room n out) s sm = (True, s', sm') \<Longrightarrow> n \<le> BufferSize \<Longrightarrow> fares w (s, sm) (s', Inr sm')"
  by (erule fares_emit) (simp add: room_def)

lemmas fares_steps = buffer_sizes [THEN fares_emit_room [rotated]]

lemma pump_inner_fares:
  assumes "pump_inner code fails w z inp s sm = Some (s', res)"
  shows "fares w (s, sm) (s', map_sum id (snd \<circ> snd) res)"
proof -
  have "fares w (s, sm) (fst y, map_sum id (snd \<circ> snd) (snd y))" if "pump_inner code fails w z inp s sm = Some y" for y
    using that
    by (rule pump_inner.raw_induct [rotated])
      (auto split: prod.splits if_splits dest: fares_steps intro: fares_end fares_fails fares_trans fares_weaken)
  then show ?thesis using assms by fastforce
qed

lemma zstd_inner_fares:
  assumes "zstd_inner m w z inp s sm = Some (s', res)"
  shows "fares w (s, sm) (s', map_sum id (snd \<circ> snd) res)"
proof -
  have "fares w (s, sm) (fst y, map_sum id (snd \<circ> snd) (snd y))" if "zstd_inner m w z inp s sm = Some y" for y
    using that
    by (rule zstd_inner.raw_induct [rotated])
      (auto split: prod.splits if_splits dest: fares_steps intro: fares_end fares_fails fares_trans fares_weaken)
  then show ?thesis using assms by fastforce
qed

lemma brotli_inner_fares:
  assumes "brotli_inner m w z inp s sm = Some (s', res)"
  shows "fares w (s, sm) (s', map_sum id (snd \<circ> snd) res)"
proof -
  have "fares w (s, sm) (fst y, map_sum id (snd \<circ> snd) (snd y))" if "brotli_inner m w z inp s sm = Some y" for y
    using that
    by (rule brotli_inner.raw_induct [rotated])
      (auto split: prod.splits if_splits dest: fares_steps intro: fares_end fares_fails fares_trans fares_weaken)
  then show ?thesis using assms by fastforce
qed

lemma feed_loop_fares:
  assumes inner: "\<And>z inp s sm s' res. inner z inp s sm = Some (s', res) \<Longrightarrow> fares w (s, sm) (s', map_sum id (snd \<circ> snd) res)"
    and n: "0 < n"
  shows "feed_loop n inner contents pos csize z s sm = Some y \<Longrightarrow> fares w (s, sm) y"
proof (induction csize arbitrary: pos z s sm rule: less_induct)
  case (less csize)
  show ?case
  proof (cases "csize = 0 \<or> read_full contents pos (min csize n) = None")
    case True
    then show ?thesis
      using less.prems by (auto simp: feed_loop.simps [of n inner contents pos csize] Let_def fares_end split: if_splits)
  next
    case False
    then obtain inp where inp: "read_full contents pos (min csize n) = Some inp" by auto
    obtain s1 res where i: "inner z inp s sm = Some (s1, res)"
      using less.prems False inp by (auto simp: feed_loop.simps [of n inner contents pos csize] Let_def bind_eq_Some_conv)
    note f = inner [OF i]
    show ?thesis
    proof (cases res)
      case (Inl e)
      then show ?thesis using less.prems False inp i f by (auto simp: feed_loop.simps [of n inner contents pos csize] Let_def)
    next
      case (Inr r)
      obtain ended z1 sm1 where r: "r = (ended, z1, sm1)" by (metis prod_cases3)
      have "y = (s1, Inr sm1) \<or> feed_loop n inner contents (pos + min csize n) (csize - min csize n) z1 s1 sm1 = Some y"
        using less.prems False inp i Inr r by (auto simp: feed_loop.simps [of n inner contents pos csize] Let_def split: if_splits)
      moreover have "csize - min csize n < csize" using False n by auto
      ultimately have "y = (s1, Inr sm1) \<or> fares w (s1, sm1) y" using less.IH by blast
      moreover have "fares w (s, sm) (s1, Inr sm1)" using f Inr r by simp
      ultimately show ?thesis by (rule fares_or)
    qed
  qed
qed

text \<open>The feeding of a decoder ends when every piece of it does.\<close>

lemma feed_loop_returns:
  assumes inner: "\<And>z inp s sm. \<exists>res. inner z inp s sm = Some res" and n: "0 < n"
  shows "\<exists>res. feed_loop n inner contents pos csize z s sm = Some res"
proof (induction csize arbitrary: pos z s sm rule: less_induct)
  case (less csize)
  show ?case
  proof (cases "csize = 0 \<or> read_full contents pos (min csize n) = None")
    case True
    then show ?thesis by (auto simp: feed_loop.simps)
  next
    case False
    then obtain inp where inp: "read_full contents pos (min csize n) = Some inp" by auto
    obtain s1 res where i: "inner z inp s sm = Some (s1, res)" using inner by (metis surj_pair)
    have IH: "\<exists>res. feed_loop n inner contents (pos + min csize n) (csize - min csize n) z1 s1 sm1 = Some res" for z1 sm1
      using False n by (intro less) simp
    show ?thesis
      using False inp i IH by (cases res) (auto simp: feed_loop.simps [of n inner contents pos csize] Let_def)
  qed
qed

lemma xz_emit_fares:
  assumes "xz_emit w ret (room xzoutsize out) s sm = (ok, outbuf, s', sm')"
  shows "fares w (s, sm) (s', if ok then Inr sm' else Inl e)"
  using assms by (auto simp: xz_emit_def split: if_splits prod.splits dest: fares_steps intro: fares_end fares_fails)

lemma xz_loop_fares:
  assumes "xz_loop m w contents st z outbuf s sm = Some y"
  shows "fares w (s, sm) y"
  using assms
proof (rule xz_loop.raw_induct [rotated])
  fix L m w contents st z outbuf s sm y
  assume IH: "\<And>m w contents st z outbuf s sm y. L m w contents st z outbuf s sm = Some y \<Longrightarrow> fares w (s, sm) y"
    and step: "(case refill contents st of
        None \<Rightarrow> Some (s, Inl (ErrReader ErrRead))
      | Some (inp, pos, csize, action) \<Rightarrow>
          (case lzma_step m z action inp (xzoutsize - length outbuf) of (ret, out, inp, z) \<Rightarrow>
             case xz_emit w ret (room xzoutsize (outbuf @ out)) s sm of (ok, outbuf, s, sm) \<Rightarrow>
               if \<not> ok then Some (s, Inl ErrCanceled)
               else if ret = RET_STREAM_END then Some (s, Inr sm)
               else if ret \<noteq> RET_OK then Some (s, Inl ErrGeneral)
               else L m w contents (inp, pos, csize, action) z outbuf s sm)) = Some y"
  show "fares w (s, sm) y"
  proof (cases "refill contents st")
    case None
    then show ?thesis using step by (auto simp: fares_end)
  next
    case (Some st')
    obtain inp pos csize action where st': "st' = (inp, pos, csize, action)" by (metis prod_cases4)
    obtain ret out inp1 z1 where c: "lzma_step m z action inp (xzoutsize - length outbuf) = (ret, out, inp1, z1)" by (metis prod_cases4)
    obtain ok outbuf1 s1 sm1 where e: "xz_emit w ret (room xzoutsize (outbuf @ out)) s sm = (ok, outbuf1, s1, sm1)" by (metis prod_cases4)
    note f = xz_emit_fares [OF e, of ErrCanceled]
    have "(\<exists>res. y = (s1, res) \<and> (res = Inr sm1 \<longrightarrow> ok) \<and> (\<forall>sm'. res = Inr sm' \<longrightarrow> sm' = sm1))
        \<or> ok \<and> L m w contents (inp1, pos, csize, action) z1 outbuf1 s1 sm1 = Some y"
      using step Some st' c e by (auto split: if_splits)
    then show ?thesis
    proof
      assume "\<exists>res. y = (s1, res) \<and> (res = Inr sm1 \<longrightarrow> ok) \<and> (\<forall>sm'. res = Inr sm' \<longrightarrow> sm' = sm1)"
      then show ?thesis using f by (auto simp: fares_def split: if_splits)
    next
      assume L: "ok \<and> L m w contents (inp1, pos, csize, action) z1 outbuf1 s1 sm1 = Some y"
      then show ?thesis using fares_trans [OF _ IH] f by (metis (full_types))
    qed
  qed
qed

lemma back9_loop_fares:
  assumes "back9_loop m w contents z r s sm canceled = Some (s', sm', canceled', ret)"
  shows "(canceled \<longrightarrow> canceled') \<and> fares w (s, sm) (s', if canceled' then Inl e else Inr sm')"
proof -
  have "(canceled \<longrightarrow> fst (snd (snd y))) \<and> fares w (s, sm) (fst y, if fst (snd (snd y)) then Inl e else Inr (fst (snd y)))"
    if "back9_loop m w contents z r s sm canceled = Some y" for y
    using that
  proof (rule back9_loop.raw_induct [rotated])
    fix L m w contents z r s sm canceled y
    assume IH: "\<And>m w contents z r s sm canceled y. L m w contents z r s sm canceled = Some y \<Longrightarrow>
        (canceled \<longrightarrow> fst (snd (snd y))) \<and> fares w (s, sm) (fst y, if fst (snd (snd y)) then Inl e else Inr (fst (snd y)))"
      and step: "(case back9 m z of
        Return ret \<Rightarrow> Some (s, sm, canceled, ret)
      | Get k \<Rightarrow> (case back9_get contents r of (data, r) \<Rightarrow> L m w contents (k data) r s sm canceled)
      | Put data k \<Rightarrow>
          (case emit w (room 65536 data) s sm of (ok, s, sm) \<Rightarrow> L m w contents (k ok) r s sm (canceled \<or> \<not> ok))) = Some y"
    show "(canceled \<longrightarrow> fst (snd (snd y))) \<and> fares w (s, sm) (fst y, if fst (snd (snd y)) then Inl e else Inr (fst (snd y)))"
    proof (cases "back9 m z")
      case (Get k)
      then show ?thesis using step by (auto split: prod.splits dest: IH)
    next
      case (Put data k)
      obtain ok s1 sm1 where em: "emit w (room 65536 data) s sm = (ok, s1, sm1)" by (metis prod_cases3)
      have L: "L m w contents (k ok) r s1 sm1 (canceled \<or> \<not> ok) = Some y" using step Put em by simp
      have "calls w s (fst y)" using calls_trans [OF calls_emit [OF em]] IH [OF L] by (simp add: fares_def)
      then show ?thesis using IH [OF L] em fares_steps(4) [of w data s sm s1 sm1] fares_trans by (cases ok) (auto simp: fares_def intro: good_trans)
    next
      case (Return ret)
      then show ?thesis using step by (auto simp: fares_end)
    qed
  qed
  then show ?thesis using assms by fastforce
qed

lemma ppmd_fill_length: "ppmd_fill m contents n ob z sr = Some (ob', z', sr') \<Longrightarrow> length ob' \<le> length ob + n"
proof (induction n arbitrary: ob z sr)
  case (Suc n)
  obtain code z1 sr1 where run: "ppmd_run (ppmd_decode m) contents z sr = Some (code, z1, sr1)"
    using Suc.prems by (auto split: option.splits)
  then have "(ob', z', sr') = (ob, z1, sr1) \<or> ppmd_fill m contents n (ob @ [word_of_int code]) z1 sr1 = Some (ob', z', sr')"
    using Suc.prems by (auto split: if_splits)
  then show ?case using Suc.IH by fastforce
qed simp

lemma ppmd_loop_fares:
  assumes "ppmd_loop m w contents z sr s sm = Some y"
  shows "fares w (s, sm) y"
  using assms
proof (rule ppmd_loop.raw_induct [rotated])
  fix L m w contents z sr s sm y
  assume IH: "\<And>m w contents z sr s sm y. L m w contents z sr s sm = Some y \<Longrightarrow> fares w (s, sm) y"
    and step: "(do {
     (ob, z, sr) \<leftarrow> ppmd_fill m contents BufferSize [] z sr;
     if ob = [] then Some (s, Inr sm)
     else case emit w ob s sm of (ok, s, sm) \<Rightarrow>
       if \<not> ok then Some (s, Inl ErrCanceled)
       else if AvailableBytes sr = 0 \<and> Buffered sr = 0 then Some (s, Inr sm)
       else L m w contents z sr s sm
   }) = Some y"
  obtain ob z1 sr1 where fill: "ppmd_fill m contents BufferSize [] z sr = Some (ob, z1, sr1)"
    using step by (auto simp: bind_eq_Some_conv)
  have len: "length ob \<le> BufferSize" using ppmd_fill_length [OF fill] by simp
  obtain ok s1 sm1 where e: "emit w ob s sm = (ok, s1, sm1)" by (metis prod_cases3)
  show "fares w (s, sm) y"
  proof (cases "ob = [] \<or> \<not> ok")
    case True
    then show ?thesis using step fill e by (auto simp: fares_end intro: fares_fails split: if_splits)
  next
    case False
    then have "y = (s1, Inr sm1) \<or> L m w contents z1 sr1 s1 sm1 = Some y" using step fill e by (auto split: if_splits)
    then have "y = (s1, Inr sm1) \<or> fares w (s1, sm1) y" using IH by blast
    moreover have "fares w (s, sm) (s1, Inr sm1)" using fares_emit [OF _ len] e False by simp
    ultimately show ?thesis by (rule fares_or)
  qed
qed

section \<open>Decoders check the sum\<close>

text \<open>
  The contract of a decoder of a member: it only calls the writer, and when it succeeds, the writer has accepted every
  piece it was handed, no piece is longer than the largest buffer, and the pieces together
  have the sum that the directory gives, if it gives one.
\<close>

locale member_decoder =
  fixes dec :: "File \<Rightarrow> 's writer \<Rightarrow> byte list \<Rightarrow> nat \<Rightarrow> 's \<Rightarrow> ('s \<times> outcome) option"
  assumes sound: "dec f w contents pos s = Some (s', Done) \<Longrightarrow>
    \<exists>ps. relay w ps s = Some s' \<and> (\<forall>p\<in>set ps. length p \<le> BufferSize)
      \<and> (crc32_value f = 0 \<or> crc32_fast (concat ps) 0 = crc32_value f)"
    and only_calls: "dec f w contents pos s = Some (s', outcome) \<Longrightarrow> calls w s s'"
begin

lemma keeps:
  assumes "dec f w contents pos s = Some (s', outcome)" and "I s" and "\<And>s p. I s \<Longrightarrow> I (snd (w s p))"
  shows "I s'"
  using calls_invariant [OF only_calls [OF assms(1)], of I] assms(2,3) by blast

lemma refused: "dec f (\<lambda>s p. (False, s)) contents pos s = Some (s', Done) \<Longrightarrow> s' = s \<and> crc32_value f = 0"
proof -
  assume "dec f (\<lambda>s p. (False, s)) contents pos s = Some (s', Done)"
  then obtain ps where ps: "relay (\<lambda>s p. (False, s)) ps s = Some s'"
    "crc32_value f = 0 \<or> crc32_fast (concat ps) 0 = crc32_value f" using sound by blast
  then have "ps = []" by (cases ps) auto
  then show ?thesis using ps fast.update_Nil by auto
qed

end

lemma check_sum_Done:
  assumes "check_sum (s, res) = (s', Done)"
  obtains sm where "res = Inr sm" "s' = s" "Valid sm"
  using assms by (auto simp: check_sum_def split: sum.splits if_splits)

lemma good_sound:
  assumes "good w (s, Summator_init (crc32_value f)) (s', sm)" and "Valid sm"
  shows "\<exists>ps. relay w ps s = Some s' \<and> (\<forall>p\<in>set ps. length p \<le> BufferSize)
      \<and> (crc32_value f = 0 \<or> crc32_fast (concat ps) 0 = crc32_value f)"
  using assms Summator_Valid by (fastforce simp: good_def)

lemma checked_sound:
  assumes "check_sum (a, res) = (s', Done)" and "fares w (s, Summator_init (crc32_value f)) (a, res)"
  shows "\<exists>ps. relay w ps s = Some s' \<and> (\<forall>p\<in>set ps. length p \<le> BufferSize)
      \<and> (crc32_value f = 0 \<or> crc32_fast (concat ps) 0 = crc32_value f)"
  using assms(1)
proof (rule check_sum_Done)
  fix sm assume "res = Inr sm" "s' = a" "Valid sm"
  then show ?thesis using assms(2) by (intro good_sound [of w s f s' sm]) (auto simp: fares_def)
qed

lemma checked_calls: "check_sum (a, res) = (s', outcome) \<Longrightarrow> fares w (s, sm) (a, res) \<Longrightarrow> calls w s s'"
  by (auto simp: check_sum_def fares_def split: sum.splits)

lemma input_sizes: "0 < insize" "0 < ZSTD_DStreamInSize"
  by (simp_all add: insize_def ZSTD_DStreamInSize_def)

lemmas loops_fare =
  feed_loop_fares [OF pump_inner_fares input_sizes(1)]
  feed_loop_fares [OF zstd_inner_fares input_sizes(2)]
  feed_loop_fares [OF brotli_inner_fares input_sizes(1)]
  xz_loop_fares ppmd_loop_fares

lemmas outcomes = checked_sound checked_calls

interpretation deflate: member_decoder "decompressDeflate m" for m
  by unfold_locales (auto simp: decompressDeflate_def calls_refl split: option.splits elim!: outcomes intro: loops_fare)

interpretation bzip2: member_decoder "decompressBz2 m" for m
  by unfold_locales (auto simp: decompressBz2_def calls_refl split: option.splits elim!: outcomes intro: loops_fare)

interpretation zstd: member_decoder "decompressZstd m" for m
  by unfold_locales (auto simp: decompressZstd_def calls_refl split: option.splits elim!: outcomes intro: loops_fare)

interpretation brotli: member_decoder "decompressBrotli m" for m
  by unfold_locales (auto simp: decompressBrotli_def calls_refl split: option.splits elim!: outcomes intro: loops_fare)

interpretation xz: member_decoder "decompressXz m" for m
  by unfold_locales (auto simp: decompressXz_def calls_refl split: option.splits elim!: outcomes intro: loops_fare)

interpretation lzma: member_decoder "decompressLZMA m" for m
  by unfold_locales
    (auto simp: decompressLZMA_def calls_refl split: option.splits prod.splits if_splits elim!: outcomes intro: loops_fare)

interpretation deflate64: member_decoder "decompressDeflate64 m" for m
proof
  fix f w contents pos s s'
  show "calls w s s'" if "decompressDeflate64 m f w contents pos s = Some (s', outcome)" for outcome
    using that by (auto simp: decompressDeflate64_def bind_eq_Some_conv fares_def calls_refl split: option.splits dest!: back9_loop_fares)
  show "\<exists>ps. relay w ps s = Some s' \<and> (\<forall>p\<in>set ps. length p \<le> BufferSize)
      \<and> (crc32_value f = 0 \<or> crc32_fast (concat ps) 0 = crc32_value f)"
    if "decompressDeflate64 m f w contents pos s = Some (s', Done)"
    using that
    by (auto simp: decompressDeflate64_def bind_eq_Some_conv fares_def split: option.splits if_splits dest!: back9_loop_fares intro: good_sound)
qed

interpretation ppmd: member_decoder "decompressPpmd m" for m
  by unfold_locales
    (auto simp: decompressPpmd_def bind_eq_Some_conv Let_def calls_refl split: option.splits prod.splits if_splits
      elim!: outcomes intro: loops_fare)

section \<open>Stored members\<close>

lemma read_full_min: "pos + csize \<le> length contents \<Longrightarrow> read_full contents pos (min csize n) = Some (bytes_at contents pos (min csize n))"
  by (auto simp: read_full_def min_def)

lemma store_loop_relays:
  "store_loop w contents pos csize s = (s', Done) \<Longrightarrow>
    \<exists>ps. relay w ps s = Some s' \<and> (\<forall>p\<in>set ps. length p \<le> 4096) \<and> concat ps = bytes_at contents pos csize
      \<and> length (concat ps) = csize"
proof (induction w contents pos csize s rule: store_loop.induct)
  case (1 w contents pos csize s)
  show ?case
  proof (cases "csize = 0")
    case True
    then show ?thesis using 1(2) by (auto simp: store_loop.simps intro!: exI [of _ "[]"])
  next
    case False
    let ?n = "min csize 4096"
    obtain b where b: "read_full contents pos ?n = Some b"
      using 1(2) False by (cases "read_full contents pos ?n") (simp_all add: store_loop.simps)
    then have b': "b = bytes_at contents pos ?n" "length b = ?n" using False by (auto simp: read_full_def split: if_splits)
    obtain ok s1 where w: "w s b = (ok, s1)" by (metis surj_pair)
    then have ok: "ok" using 1(2) False b by (cases ok) (simp_all add: store_loop.simps [of w contents pos csize])
    then have "store_loop w contents (pos + ?n) (csize - ?n) s1 = (s', Done)"
      using 1(2) False b w by (simp add: store_loop.simps [of w contents pos csize] Let_def)
    then obtain ps where ps: "relay w ps s1 = Some s'" "\<forall>p\<in>set ps. length p \<le> 4096"
      "concat ps = bytes_at contents (pos + ?n) (csize - ?n)" "length (concat ps) = csize - ?n"
      using 1(1) [OF False refl b w [symmetric, unfolded ok [THEN eqTrueI]]] by blast
    have "concat (b # ps) = bytes_at contents pos csize"
      using ps(3) b'(1) bytes_at_append [of contents pos ?n "csize - ?n"] by simp
    moreover have "length (concat (b # ps)) = csize" using ps(4) b'(2) by simp
    ultimately show ?thesis using ps b' w ok by (intro exI [of _ "b # ps"]) simp
  qed
qed

lemma store_loop_accepted:
  "pos + csize \<le> length contents \<Longrightarrow> store_loop (\<lambda>s p. (True, s @ p)) contents pos csize s = (s @ bytes_at contents pos csize, Done)"
proof (induction csize arbitrary: pos s rule: less_induct)
  case (less csize)
  let ?n = "min csize 4096"
  show ?case
  proof (cases "csize = 0")
    case False
    then have "store_loop (\<lambda>s p. (True, s @ p)) contents (pos + ?n) (csize - ?n) (s @ bytes_at contents pos ?n)
        = (s @ bytes_at contents pos ?n @ bytes_at contents (pos + ?n) (csize - ?n), Done)"
      using less.prems less.IH [of "csize - ?n" "pos + ?n"] by simp
    then show ?thesis
      using False less.prems
      by (simp add: store_loop.simps [of _ contents pos csize] read_full_min Let_def bytes_at_append)
  qed (simp add: store_loop.simps)
qed

text \<open>The local header of a member with its name and extra fields; \<open>fixed\<close> holds what is skipped.\<close>

definition encode_local :: "byte list \<Rightarrow> byte list \<Rightarrow> byte list \<Rightarrow> byte list" where
  "encode_local fixed nm ex = le_bytes 4 fileHeaderSignature @ fixed @ le_bytes 2 (length nm) @ le_bytes 2 (length ex) @ nm @ ex"

lemma data_position_encode:
  assumes "fd r = pre @ encode_local fixed nm ex @ rest" "length fixed = 22" "length nm < 65536" "length ex < 65536"
    and "length (fd r) < 2 ^ 63" and "File.position f + word_of_int (baseOffset r) = of_nat (length pre)"
  shows "data_position r f = Some (Inr (length pre + length (encode_local fixed nm ex)))"
proof -
  let ?h = "le_bytes 4 fileHeaderSignature @ fixed @ le_bytes 2 (length nm) @ le_bytes 2 (length ex)"
  have sint: "sint (of_nat n :: u64) = int n" if "n \<le> length (fd r)" for n
    using that assms(5) by (intro sint_of_nat_small) simp
  have "ReadAt (fd r) fileHeaderLen (int (length pre)) = Some ?h"
    using assms(1,2) by (simp add: ReadAt_def encode_local_def fileHeaderLen_def bytes_at_def)
  moreover have "of_nat (length pre) + of_nat fileHeaderLen + of_nat (length nm) + of_nat (length ex)
      = (of_nat (length pre + length (encode_local fixed nm ex)) :: u64)"
    using assms(2) by (simp add: encode_local_def fileHeaderLen_def)
  moreover have "length pre + length (encode_local fixed nm ex) \<le> length (fd r)" using assms(1) by simp
  ultimately show ?thesis
    using assms(2,3,4) sint [of "length pre"] sint [of "length pre + length (encode_local fixed nm ex)"] assms(1)
    by (simp add: data_position_def assms(6) fileHeaderLen_def fileHeaderSignature_def Discard_def Let_def del: of_nat_add)
qed

section \<open>Decoders that make progress\<close>

text \<open>
  A Zstandard member is decompressed, with one outcome or another, when every step of the
  decoder takes some of its input.
\<close>

lemma zstd_inner_returns:
  assumes progress: "\<And>z inp e out inp' z'. inp \<noteq> [] \<Longrightarrow> zstd_stream m z inp = (e, out, inp', z') \<Longrightarrow> length inp' < length inp"
  shows "\<exists>res. zstd_inner m w z inp s sm = Some res"
proof (induction "length inp" arbitrary: z inp s sm rule: less_induct)
  case less
  show ?case
  proof (cases "inp = []")
    case False
    obtain e out inp1 z1 where st: "zstd_stream m z inp = (e, out, inp1, z1)" by (metis prod_cases4)
    obtain ok s1 sm1 where em: "emit w (room ZSTD_DStreamOutSize out) s sm = (ok, s1, sm1)" by (metis prod_cases3)
    have "\<exists>res. zstd_inner m w z1 inp1 s1 sm1 = Some res" using less progress [OF False st] by blast
    then show ?thesis using st em by (simp add: zstd_inner.simps [of m w z inp])
  qed (simp add: zstd_inner.simps)
qed

lemma decompressZstd_returns:
  assumes "\<And>z inp e out inp' z'. inp \<noteq> [] \<Longrightarrow> zstd_stream m z inp = (e, out, inp', z') \<Longrightarrow> length inp' < length inp"
  shows "\<exists>res. decompressZstd m f w contents pos s = Some res"
proof (cases "zstd_init m")
  case (Some z)
  obtain res where "feed_loop ZSTD_DStreamInSize (zstd_inner m w) contents pos (unat (compressed_size f)) z s (Summator_init (crc32_value f)) = Some res"
    using feed_loop_returns [where inner = "zstd_inner m w", OF zstd_inner_returns input_sizes(2)] assms by blast
  then show ?thesis using Some by (simp add: decompressZstd_def)
qed (simp add: decompressZstd_def)

text \<open>
  The input callback of Deflate64 answers with a whole chunk when less than one is left and
  the file has it, and then counts past the end of the member.
\<close>

lemma back9_get_short:
  assumes "rd_offset r < rd_size r" "rd_size r - rd_offset r < int CHUNK" "length (chunk r) = CHUNK"
    and "rd_pos r + nat (rd_size r - rd_offset r) \<le> length contents"
    and "back9_get contents r = (data, r')"
  shows "length data = CHUNK \<and> rd_offset r' > rd_size r"
proof -
  let ?d = "rd_size r - rd_offset r"
  have d: "0 < ?d" "?d < 131072" using assms(1,2) by (simp_all add: CHUNK_def)
  then have "?d mod 2 ^ 32 = ?d" by (intro mod_pos_pos_trivial) simp_all
  then have want: "min CHUNK (nat (?d mod 2 ^ 32)) = nat ?d" using d by (simp add: CHUNK_def)
  have "length (bytes_at contents (rd_pos r) (nat ?d)) = nat ?d" using assms(4) by simp
  then show ?thesis
    using assms(5) d assms(3) unfolding back9_get_def want by (auto simp: Let_def CHUNK_def)
qed

section \<open>The contents of a member\<close>

lemmas decoders_sound = deflate.sound bzip2.sound zstd.sound brotli.sound xz.sound lzma.sound deflate64.sound ppmd.sound

lemma decompress_by_method_sound:
  assumes "decompress_by_method m f w contents pos s = Some (s', Done)"
  shows "\<exists>ps. relay w ps s = Some s' \<and> (\<forall>p\<in>set ps. length p \<le> BufferSize)
    \<and> (if zip_method f = 0 then concat ps = bytes_at contents pos (unat (compressed_size f)) \<and> length (concat ps) = unat (compressed_size f)
       else crc32_value f = 0 \<or> crc32_fast (concat ps) 0 = crc32_value f)"
proof (cases "zip_method f = 0")
  case True
  then obtain ps where "relay w ps s = Some s'" "\<forall>p\<in>set ps. length p \<le> 4096"
    "concat ps = bytes_at contents pos (unat (compressed_size f))" "length (concat ps) = unat (compressed_size f)"
    using assms store_loop_relays [of w contents pos "unat (compressed_size f)" s s'] by (auto simp: decompress_by_method_def)
  then show ?thesis using True by (intro exI [of _ ps]) (auto simp: BufferSize_def)
next
  case False
  then show ?thesis
    using assms by (auto simp: decompress_by_method_def split: if_splits dest!: decoders_sound)
qed

lemma store_loop_calls: "store_loop w contents pos csize s = (s', outcome) \<Longrightarrow> calls w s s'"
proof (induction w contents pos csize s rule: store_loop.induct)
  case (1 w contents pos csize s)
  show ?case
  proof (cases "csize = 0 \<or> read_full contents pos (min csize 4096) = None")
    case True
    then show ?thesis using "1.prems" by (auto simp: store_loop.simps [of w contents pos csize] calls_refl split: if_splits)
  next
    case False
    then obtain b where b: "read_full contents pos (min csize 4096) = Some b" by auto
    obtain ok s1 where w: "w s b = (ok, s1)" by (metis surj_pair)
    then have c: "calls w s s1" by (auto simp: calls_def intro!: r_into_rtranclp exI [of _ b])
    show ?thesis
    proof (cases ok)
      case True
      then have "store_loop w contents (pos + min csize 4096) (csize - min csize 4096) s1 = (s', outcome)"
        using "1.prems" False b w by (simp add: store_loop.simps [of w contents pos csize] Let_def)
      then show ?thesis using calls_trans [OF c] 1(1) b w True False by auto
    next
      case ok: False
      then show ?thesis using "1.prems" False b w c by (simp add: store_loop.simps [of w contents pos csize] Let_def)
    qed
  qed
qed

lemma Decompress_calls:
  assumes "Decompress m r f w s = Some (s', outcome)"
  shows "calls w s s'"
proof -
  obtain res where res: "data_position r f = Some res" using assms by (auto simp: Decompress_def bind_eq_Some_conv)
  show ?thesis
  proof (cases res)
    case (Inl e)
    then show ?thesis using assms res by (simp add: Decompress_def calls_refl)
  next
    case (Inr pos)
    then have "decompress_by_method m f w (fd r) pos s = Some (s', outcome)" using assms res by (simp add: Decompress_def)
    then show ?thesis
      by (auto simp: decompress_by_method_def calls_refl split: if_splits dest: store_loop_calls deflate.only_calls bzip2.only_calls
        zstd.only_calls brotli.only_calls xz.only_calls lzma.only_calls deflate64.only_calls ppmd.only_calls)
  qed
qed

text \<open>
  A member that is extracted with success is complete: the writer has accepted every piece
  it was handed, no piece is longer than the largest buffer, and together they are the
  bytes of the archive for a stored member, and have the sum that the directory gives for
  every other method, where zero stands for no sum.
\<close>

lemma Decompress_sound:
  assumes "Decompress m r f w s = Some (s', Done)"
  shows "\<exists>ps pos. relay w ps s = Some s' \<and> (\<forall>p\<in>set ps. length p \<le> BufferSize) \<and> data_position r f = Some (Inr pos)
    \<and> (if zip_method f = 0 then concat ps = bytes_at (fd r) pos (unat (compressed_size f)) \<and> length (concat ps) = unat (compressed_size f)
       else crc32_value f = 0 \<or> crc32_fast (concat ps) 0 = crc32_value f)"
proof -
  obtain res where res: "data_position r f = Some res" using assms by (auto simp: Decompress_def bind_eq_Some_conv)
  then obtain pos where "res = Inr pos" "decompress_by_method m f w (fd r) pos s = Some (s', Done)"
    using assms by (cases res) (simp_all add: Decompress_def)
  with res show ?thesis using decompress_by_method_sound [of m f w "fd r" pos s s'] by auto
qed

definition local_A :: "byte list" where
  "local_A = encode_local (replicate 22 0) [0x61] [] @ [0x41]"

definition reader_A :: Reader where
  "reader_A = \<lparr>fd = local_A, fd_size = 32, baseOffset = 0, total_uncompressed = 0, total_compressed = 0, archive_comment = [], files = []\<rparr>"

definition copying :: "unit machines" where
  "copying = \<lparr>fresh = (\<lambda>n. replicate n 0), gzip_init = None, inflate_init = Some (), inflate = (\<lambda>z inp. (RET_STREAM_END, inp, [], ())),
     bz_init = None, bz_decompress = (\<lambda>z inp. (RET_STREAM_END, inp, [], ())),
     zstd_init = None, zstd_stream = (\<lambda>z inp. (False, inp, [], ())),
     brotli_init = None, brotli_stream = (\<lambda>z inp. (BROTLI_SUCCESS, inp, [], ())),
     xz_init = None, lzma_init = None, lzma_step = (\<lambda>z action inp n. (RET_STREAM_END, inp, [], ())),
     back9_init = None, back9 = (\<lambda>z. Return RET_STREAM_END),
     ppmd_alloc = (\<lambda>n. None), ppmd_rangedec = (\<lambda>z. Symbol 1 ()), ppmd_model = (\<lambda>ord mem z. ()), ppmd_decode = (\<lambda>z. Symbol (-1) ())\<rparr>"

definition file_A :: "u16 \<Rightarrow> File" where
  "file_A method = File_default\<lparr>name := [0x61], compressed_size := 1, crc32_value := 0xD3D99E8B, zip_method := method\<rparr>"

lemma position_A: "data_position reader_A (file_A k) = Some (Inr 31)"
proof -
  have "data_position reader_A (file_A k) = Some (Inr (length ([] :: byte list) + length (encode_local (replicate 22 0) [0x61] [])))"
    by (rule data_position_encode [of _ _ _ _ _ "[0x41]"])
      (simp_all add: reader_A_def local_A_def encode_local_def file_A_def File_default_def)
  then show ?thesis by (simp add: encode_local_def)
qed

lemma sum_A: "crc32_fast [0x41] 0 = 0xD3D99E8B"
  by code_simp

text \<open>A compressed member goes through its decoder and its sum.\<close>

lemma Decompress_deflated_A: "Decompress copying reader_A (file_A 8) (\<lambda>s p. (True, s @ p)) [] = Some ([0x41], Done)"
  by (simp add: Decompress_def position_A decompress_by_method_def)
     (simp add: reader_A_def local_A_def encode_local_def file_A_def File_default_def copying_def decompressDeflate_def
      feed_loop.simps pump_inner.simps read_full_def bytes_at_def insize_def outsize_def room_def emit_def check_sum_def
      Update_def Summator_init_def Valid_def sum_A)

text \<open>
  C22: A stored member round-trips: when the archive holds, where the directory says, the local
  header of a member with a name and extra fields and then its data, decompressing the
  member into memory succeeds and gives exactly the data.
\<close>

theorem Decompress_stored:
  assumes "fd r = pre @ encode_local fixed nm ex @ data @ post" "length fixed = 22" "length nm < 65536" "length ex < 65536"
    and "length (fd r) < 2 ^ 63" and "File.position f + word_of_int (baseOffset r) = of_nat (length pre)"
    and "zip_method f = 0" "compressed_size f = of_nat (length data)"
  shows "Decompress m r f (\<lambda>s p. (True, s @ p)) [] = Some (data, Done)"
proof -
  let ?pos = "length pre + length (encode_local fixed nm ex)"
  have "unat (compressed_size f) = length data" using assms(1,5,8) by (simp add: unat_of_nat)
  moreover have "bytes_at (fd r) ?pos (length data) = data" using assms(1) by (simp add: bytes_at_def)
  moreover have "?pos + length data \<le> length (fd r)" using assms(1) by simp
  ultimately show ?thesis
    using assms(7) store_loop_accepted [of ?pos "length data" "fd r" "[]"]
    by (simp add: Decompress_def data_position_encode [OF assms(1-6)] decompress_by_method_def)
qed

theorem Decompress_stored_witness:
  "Decompress copying reader_A (file_A 0) (\<lambda>s p. (True, s @ p)) [] = Some ([0x41], Done)"
  by (rule Decompress_stored [of _ "[]" "replicate 22 0" "[0x61]" "[]" "[0x41]" "[]"])
    (simp_all add: reader_A_def local_A_def encode_local_def file_A_def File_default_def)

end
