(* ===== verification/Baulk_Zip_Extract.thy ===== *)
theory Baulk_Zip_Extract
  imports Baulk_Zip_Decode
begin

text \<open>
  The extractor of zip archives in \<^verbatim>\<open>include/baulk/archive/extractor.hpp\<close>, over the reader of
  \<^verbatim>\<open>lib/archive/zip\<close> and the disk. As in the code, an operation that sets no error leaves the
  error code as it was.
\<close>

type_synonym ec = "zip_error err option"
type_synonym Filter = "(File \<Rightarrow> wstr \<Rightarrow> bool) option"

definition IsFileNameUTF8 :: "File \<Rightarrow> bool" where
  "IsFileNameUTF8 file \<longleftrightarrow> flags file AND 0x800 \<noteq> 0"

text \<open>The callback that the decoders hand every piece to; the code of a failed write is lost.\<close>

definition on_data :: "os \<Rightarrow> OnProgress \<Rightarrow> wstr \<Rightarrow> trace writer" where
  "on_data os progress path t data =
     (if refuses progress t (length data) then (False, t)
      else case WriteFull os path data t of (writeEc :: ec, t) \<Rightarrow> (writeEc = None, t))"

definition finish :: "ec \<Rightarrow> ec \<times> trace \<Rightarrow> bool \<times> trace \<times> ec" where
  "finish ec res = (case res of (None, t) \<Rightarrow> (True, t, ec) | (Some e, t) \<Rightarrow> (False, t, Some e))"

definition settle :: "ec \<Rightarrow> trace \<times> outcome \<Rightarrow> bool \<times> trace \<times> ec" where
  "settle ec res =
     (case res of
        (t, Done) \<Rightarrow> (True, t, ec)
      | (t, Failed None) \<Rightarrow> (False, t, ec)
      | (t, Failed (Some e)) \<Rightarrow> (False, t, Some e))"

definition extract_entry ::
    "'z machines \<Rightarrow> os \<Rightarrow> (byte list \<Rightarrow> wstr) \<Rightarrow> ExtractorOptions \<Rightarrow> Filter \<Rightarrow> OnProgress \<Rightarrow> wstr \<Rightarrow> Reader \<Rightarrow> File \<Rightarrow> trace \<Rightarrow> ec
      \<Rightarrow> (bool \<times> trace \<times> ec) option" where
  "extract_entry m os codepage opts flt progress destination r f t ec =
     (case JoinSanitizeFsPath codepage destination (name f) (IsFileNameUTF8 f) of
        None \<Rightarrow> Some (False, t, Some ErrGeneral)
      | Some (out, encoded_path) \<Rightarrow>
          if (case flt of None \<Rightarrow> False | Some p \<Rightarrow> \<not> p f encoded_path) then Some (False, t, Some ErrCanceled)
          else if IsDir f then Some (finish ec (MakeDirectories os out (time f) t))
          else if IsSymlink f
          then do {
            (link, e) \<leftarrow> ResolveLinkName m r f;
            Some (finish (if e = None then ec else e)
              (create_symlink os codepage destination (overwrite_mode opts) out link (IsFileNameUTF8 f) t))
          }
          else case NewFile os out (time f) (overwrite_mode opts) t of
            (Some e, t) \<Rightarrow> Some (False, t, Some e)
          | (None, t) \<Rightarrow> map_option (settle ec) (Decompress m r f (on_data os progress out) t))"

text \<open>The loop over the members; the first component of the result is what \<open>Extract\<close> returns.\<close>

fun extract_loop ::
    "'z machines \<Rightarrow> os \<Rightarrow> (byte list \<Rightarrow> wstr) \<Rightarrow> ExtractorOptions \<Rightarrow> Filter \<Rightarrow> OnProgress \<Rightarrow> wstr \<Rightarrow> Reader \<Rightarrow> File list \<Rightarrow> trace \<Rightarrow> ec
      \<Rightarrow> (bool \<times> trace \<times> ec) option" where
  "extract_loop m os codepage opts flt progress destination r [] t ec = Some (True, t, ec)"
| "extract_loop m os codepage opts flt progress destination r (f # fs) t ec = do {
     (ok, t, ec) \<leftarrow> extract_entry m os codepage opts flt progress destination r f t ec;
     if \<not> ok \<and> (ec = Some ErrCanceled \<or> \<not> ignore_error opts) then Some (False, t, ec)
     else extract_loop m os codepage opts flt progress destination r fs t ec
   }"

definition Extract ::
    "'z machines \<Rightarrow> os \<Rightarrow> (byte list \<Rightarrow> wstr) \<Rightarrow> ExtractorOptions \<Rightarrow> Filter \<Rightarrow> OnProgress \<Rightarrow> wstr \<Rightarrow> Reader \<Rightarrow> ec \<Rightarrow> trace
      \<Rightarrow> (bool \<times> trace \<times> ec) option" where
  "Extract m os codepage opts flt progress destination r ec t =
     (case sys os (CreateDirectories destination) t of
        (False, t) \<Rightarrow> Some (False, t, Some ErrOS)
      | (True, t) \<Rightarrow> extract_loop m os codepage opts flt progress destination r (files r) t ec)"

text \<open>Opening: \<open>fs::absolute\<close> of the destination, \<open>fs::canonical\<close> of the archive, then the reader.\<close>

definition Extractor_OpenReader ::
    "os \<Rightarrow> (wstr \<Rightarrow> wstr option) \<Rightarrow> (wstr \<Rightarrow> (zip_error err + Reader) option) \<Rightarrow> wstr \<Rightarrow> wstr \<Rightarrow> (zip_error err + wstr \<times> Reader) option" where
  "Extractor_OpenReader os canonical open_reader path dest =
     (case os_absolute os dest of
        None \<Rightarrow> Some (Inl ErrOS)
      | Some destination \<Rightarrow>
          (case canonical path of
             None \<Rightarrow> Some (Inl ErrOS)
           | Some zipfile \<Rightarrow> map_option (map_sum id (Pair destination)) (open_reader zipfile)))"

section \<open>Where an extraction writes\<close>

lemma settle_eq: "settle ec (t, outcome) = (ok, t', ec') \<Longrightarrow> t' = t \<and> (ok \<longleftrightarrow> outcome = Done)"
  by (cases outcome) (auto simp: settle_def split: option.splits)

lemma finish_trace: "fst (snd (finish ec res)) = snd res"
  by (auto simp: finish_def split: prod.splits option.splits)

definition placed :: "(byte list \<Rightarrow> wstr) \<Rightarrow> wstr \<Rightarrow> File list \<Rightarrow> effect \<Rightarrow> bool" where
  "placed codepage destination fs e \<longleftrightarrow> e = CreateDirectories destination
     \<or> (\<exists>f\<in>set fs. \<exists>out enc. JoinSanitizeFsPath codepage destination (name f) (IsFileNameUTF8 f) = Some (out, enc)
          \<and> (target e = out \<or> e = CreateDirectories (path_parent out))
          \<and> (path_is_absolute destination \<and> IsFileNameUTF8 f \<and> clean (name f) \<longrightarrow> within destination (target e)))"

lemma zip_placed_out:
  assumes "JoinSanitizeFsPath codepage destination (name f) (IsFileNameUTF8 f) = Some (out, enc)" and "f \<in> set fs"
  shows "target e = out \<Longrightarrow> placed codepage destination fs e" and "placed codepage destination fs (CreateDirectories (path_parent out))"
proof -
  have "within destination out \<and> within destination (path_parent out)"
    if "path_is_absolute destination" "IsFileNameUTF8 f" "clean (name f)"
    using clean_within [of codepage destination "name f" out enc] assms(1) that by simp
  then show "target e = out \<Longrightarrow> placed codepage destination fs e" "placed codepage destination fs (CreateDirectories (path_parent out))"
    using assms unfolding placed_def by fastforce+
qed

lemma zip_on_data_grows:
  assumes "\<And>e. target e = out \<Longrightarrow> e \<noteq> RemoveAll out \<Longrightarrow> P e"
  shows "grows P t (snd (on_data os progress out t data))"
proof -
  have "grows P t (snd (WriteFull os out data t :: ec \<times> trace))" using WriteFull_grows assms by blast
  then show ?thesis by (auto simp: on_data_def intro: grows_refl split: prod.splits)
qed

lemma Decompress_grows:
  assumes "Decompress m r f (on_data os progress out) t = Some (t', outcome)"
    and "\<And>e. target e = out \<Longrightarrow> e \<noteq> RemoveAll out \<Longrightarrow> P e"
  shows "grows P t t'"
  using calls_invariant [OF Decompress_calls [OF assms(1)], where I = "grows P t"] grows_refl grows_trans zip_on_data_grows [of out P] assms(2)
  by blast

lemma zip_extract_entry_grows:
  assumes "extract_entry m os codepage opts flt progress destination r f t ec = Some (ok, t', ec')"
    and "\<And>out enc e. JoinSanitizeFsPath codepage destination (name f) (IsFileNameUTF8 f) = Some (out, enc) \<Longrightarrow> target e = out
      \<Longrightarrow> e \<noteq> RemoveAll out \<or> IsSymlink f \<Longrightarrow> P e"
    and "\<And>out enc. JoinSanitizeFsPath codepage destination (name f) (IsFileNameUTF8 f) = Some (out, enc)
      \<Longrightarrow> P (CreateDirectories (path_parent out))"
  shows "grows P t t'"
proof (cases "JoinSanitizeFsPath codepage destination (name f) (IsFileNameUTF8 f)")
  case None
  then show ?thesis using assms(1) by (simp add: extract_entry_def grows_refl)
next
  case (Some oe)
  obtain out enc where oe: "oe = (out, enc)" by fastforce
  note P = assms(2) [OF Some [unfolded oe]] assms(3) [OF Some [unfolded oe]]
  have g: "grows P t (snd (MakeDirectories os out (time f) t :: ec \<times> trace))"
    "grows P t (snd (NewFile os out (time f) (overwrite_mode opts) t :: ec \<times> trace))"
    by (auto intro!: MakeDirectories_grows NewFile_grows P)
  show ?thesis
  proof (cases "(case flt of None \<Rightarrow> False | Some p \<Rightarrow> \<not> p f enc) \<or> IsDir f \<or>
      \<not> IsSymlink f \<and> fst (NewFile os out (time f) (overwrite_mode opts) t :: ec \<times> trace) \<noteq> None")
    case True
    then show ?thesis using assms(1) Some oe g
      by (auto simp: extract_entry_def finish_def grows_refl split: if_splits option.splits prod.splits)
  next
    case rest: False
    show ?thesis
    proof (cases "IsSymlink f")
      case True
      obtain link e where link: "ResolveLinkName m r f = Some (link, e)"
        using assms(1) Some oe rest True by (auto simp: extract_entry_def bind_eq_Some_conv)
      have "(ok, t', ec') = finish (if e = None then ec else e)
          (create_symlink os codepage destination (overwrite_mode opts) out link (IsFileNameUTF8 f) t)"
        using assms(1) Some oe rest True link by (simp add: extract_entry_def)
      then have t': "t' = snd (create_symlink os codepage destination (overwrite_mode opts) out link (IsFileNameUTF8 f) t :: ec \<times> trace)"
        using finish_trace by (metis fst_conv snd_conv)
      show ?thesis unfolding t' using True by (intro create_symlink_grows P) auto
    next
      case False
      then obtain t1 where t1: "NewFile os out (time f) (overwrite_mode opts) t = (None :: ec, t1)" using rest by (metis prod.collapse)
      then obtain outcome where D: "Decompress m r f (on_data os progress out) t1 = Some (t', outcome)"
        using assms(1) Some oe rest False by (auto simp: extract_entry_def split: option.splits dest: settle_eq)
      have "grows P t1 t'" by (rule Decompress_grows [OF D]) (simp add: P)
      then show ?thesis using g(2) t1 grows_trans by fastforce
    qed
  qed
qed

lemma zip_extract_loop_grows:
  assumes "extract_loop m os codepage opts flt progress destination r fs t ec = Some (ok, t', ec')" and "set fs \<subseteq> F"
    and "\<And>f out enc e. f \<in> F \<Longrightarrow> JoinSanitizeFsPath codepage destination (name f) (IsFileNameUTF8 f) = Some (out, enc)
      \<Longrightarrow> target e = out \<Longrightarrow> e \<noteq> RemoveAll out \<or> IsSymlink f \<Longrightarrow> P e"
    and "\<And>f out enc. f \<in> F \<Longrightarrow> JoinSanitizeFsPath codepage destination (name f) (IsFileNameUTF8 f) = Some (out, enc)
      \<Longrightarrow> P (CreateDirectories (path_parent out))"
  shows "grows P t t'"
  using assms(1,2)
proof (induction fs arbitrary: t ec)
  case (Cons f fs)
  obtain ok1 t1 ec1 where E: "extract_entry m os codepage opts flt progress destination r f t ec = Some (ok1, t1, ec1)"
    using Cons.prems(1) by (auto simp: bind_eq_Some_conv)
  have "f \<in> F" using Cons.prems(2) by simp
  then have g: "grows P t t1" by (intro zip_extract_entry_grows [OF E] assms(3,4))
  have "t' = t1 \<or> extract_loop m os codepage opts flt progress destination r fs t1 ec1 = Some (ok, t', ec')"
    using Cons.prems(1) E by (auto split: if_splits)
  then show ?case using Cons.IH [of t1 ec1] Cons.prems(2) g grows_trans [OF g] by auto
qed (simp add: grows_refl)

text \<open>
  C20: Whatever the archive and its decoders do, whatever the callbacks answer and wherever the
  system fails, extracting a zip archive only adds to what happened before, and every
  change it makes to the disk concerns the destination, the place the sanitizer made from
  the name of a member of the archive, or the directory of such a place. If the destination
  is absolute and the name is well formed UTF-8, marked so and without a leading separator,
  the place lies within the destination.
\<close>

theorem zip_Extract_confined:
  assumes "Extract m os codepage opts flt progress destination r ec t = Some (ok, t', ec')"
  shows "\<exists>fx. t' = t @ fx \<and> (\<forall>(e, b)\<in>set fx. e = CreateDirectories destination
     \<or> (\<exists>f\<in>set (files r). \<exists>out enc. JoinSanitizeFsPath codepage destination (name f) (IsFileNameUTF8 f) = Some (out, enc)
          \<and> (target e = out \<or> e = CreateDirectories (path_parent out))
          \<and> (path_is_absolute destination \<and> IsFileNameUTF8 f \<and> clean (name f) \<longrightarrow> within destination (target e))))"
proof -
  let ?P = "placed codepage destination (files r)"
  obtain b t1 where s: "sys os (CreateDirectories destination) t = (b, t1)" by fastforce
  have g1: "grows ?P t t1" using s by (rule grows_sys) (simp add: placed_def)
  have "grows ?P t t'"
  proof (cases b)
    case True
    then have "extract_loop m os codepage opts flt progress destination r (files r) t1 ec = Some (ok, t', ec')"
      using assms s by (simp add: Extract_def)
    then have "grows ?P t1 t'" by (rule zip_extract_loop_grows [OF _ subset_refl]) (auto intro: zip_placed_out)
    with g1 show ?thesis by (rule grows_trans)
  next
    case False
    then show ?thesis using assms s g1 by (simp add: Extract_def)
  qed
  then show ?thesis by (fastforce simp: grows_def placed_def)
qed

section \<open>What is extracted\<close>

text \<open>
  The place of a member, and the data that a member may stand for: a stored member the bytes
  of the archive, whose sum is never looked at, and any other member the data with the sum of
  the directory. The class \<open>Summator\<close> takes the sum zero for \<open>no sum\<close>: then every data pass.
\<close>

definition out_of :: "(byte list \<Rightarrow> wstr) \<Rightarrow> wstr \<Rightarrow> File \<Rightarrow> wstr" where
  "out_of codepage destination f =
     (case JoinSanitizeFsPath codepage destination (name f) (IsFileNameUTF8 f) of None \<Rightarrow> [] | Some (out, _) \<Rightarrow> out)"

definition genuine :: "Reader \<Rightarrow> File \<Rightarrow> byte list \<Rightarrow> bool" where
  "genuine r f data \<longleftrightarrow>
     (if zip_method f = 0 then \<exists>pos. data_position r f = Some (Inr pos) \<and> data = bytes_at (fd r) pos (unat (compressed_size f))
        \<and> length data = unat (compressed_size f)
      else crc32_value f \<noteq> 0 \<longrightarrow> crc32_fast data 0 = crc32_value f)"

lemma on_data_holds:
  assumes "on_data os progress out t p = (True, t')" and "length p \<le> BufferSize" and "holds out t = Some c"
  shows "holds out t' = Some (c @ p)"
  using assms WriteFull_holds [of os out p t t' c]
  by (auto simp: on_data_def BufferSize_def split: if_splits prod.splits)

lemma relay_holds:
  assumes "relay (on_data os progress out) ps t = Some t'" and "\<forall>p\<in>set ps. length p \<le> BufferSize" and "holds out t = Some c"
  shows "holds out t' = Some (c @ concat ps)"
  using assms
proof (induction ps arbitrary: t c)
  case (Cons p ps)
  obtain ok t1 where w: "on_data os progress out t p = (ok, t1)" by fastforce
  then have "ok" "relay (on_data os progress out) ps t1 = Some t'" using Cons.prems(1) by (cases ok; simp)+
  moreover from this have "holds out t1 = Some (c @ p)" using on_data_holds w Cons.prems(2,3) by auto
  ultimately show ?case using Cons.IH [of t1 "c @ p"] Cons.prems(2) by simp
qed simp

lemma extract_entry_holds:
  assumes "extract_entry m os codepage opts flt progress destination r f t ec = Some (True, t', ec')"
    and "\<not> IsDir f" "\<not> IsSymlink f"
  shows "\<exists>data. holds (out_of codepage destination f) t' = Some data \<and> genuine r f data"
proof -
  let ?out = "out_of codepage destination f"
  obtain enc where J: "JoinSanitizeFsPath codepage destination (name f) (IsFileNameUTF8 f) = Some (?out, enc)"
    using assms(1) by (cases "JoinSanitizeFsPath codepage destination (name f) (IsFileNameUTF8 f)") (auto simp: extract_entry_def out_of_def)
  have flt: "\<not> (case flt of None \<Rightarrow> False | Some p \<Rightarrow> \<not> p f enc)" using assms(1) J by (auto simp: extract_entry_def split: if_splits)
  obtain t1 where n: "NewFile os ?out (time f) (overwrite_mode opts) t = (None :: ec, t1)"
    using assms J flt by (auto simp: extract_entry_def split: prod.splits option.splits)
  have "Decompress m r f (on_data os progress ?out) t1 = Some (t', Done)"
    using assms J flt n by (auto simp: extract_entry_def dest: settle_eq)
  from Decompress_sound [OF this] obtain ps where ps: "relay (on_data os progress ?out) ps t1 = Some t'"
    "\<forall>p\<in>set ps. length p \<le> BufferSize" "genuine r f (concat ps)"
    by (auto simp: genuine_def split: if_splits)
  show ?thesis using relay_holds [OF ps(1,2) NewFile_holds [OF n]] ps(3) by auto
qed

text \<open>No member behind a place removes anything or has the same place.\<close>

definition undisturbed :: "(byte list \<Rightarrow> wstr) \<Rightarrow> wstr \<Rightarrow> wstr \<Rightarrow> File list \<Rightarrow> bool" where
  "undisturbed codepage destination out fs \<longleftrightarrow> (\<forall>f\<in>set fs. \<not> IsSymlink f \<and> out_of codepage destination f \<noteq> out)"

lemma extract_loop_undisturbed:
  assumes "extract_loop m os codepage opts flt progress destination r fs t ec = Some (ok, t', ec')"
    and "undisturbed codepage destination out fs"
  shows "holds out t' = holds out t"
proof -
  have "grows (spares out) t t'"
  proof (rule zip_extract_loop_grows [OF assms(1) subset_refl])
    fix f out' enc e
    assume f: "f \<in> set fs" "JoinSanitizeFsPath codepage destination (name f) (IsFileNameUTF8 f) = Some (out', enc)"
    then have ne: "out' \<noteq> out" "\<not> IsSymlink f" using assms(2) by (auto simp: undisturbed_def out_of_def)
    show "spares out e" if "target e = out'" "e \<noteq> RemoveAll out' \<or> IsSymlink f"
      using that ne quiet_here [of e out'] quiet_spares [of "{out'}" e out] by auto
    show "spares out (CreateDirectories (path_parent out'))" by (simp add: spares_def)
  qed
  then show ?thesis by (rule holds_grows)
qed

lemma extract_loop_intact:
  assumes "extract_loop m os codepage opts flt progress destination r (pre @ f # post) t ec = Some (True, t', ec')"
    and "\<not> ignore_error opts" "\<not> IsDir f" "\<not> IsSymlink f" and "undisturbed codepage destination (out_of codepage destination f) post"
  shows "\<exists>data. holds (out_of codepage destination f) t' = Some data \<and> genuine r f data"
  using assms(1)
proof (induction pre arbitrary: t ec)
  case Nil
  then obtain ok1 t1 ec1 where E: "extract_entry m os codepage opts flt progress destination r f t ec = Some (ok1, t1, ec1)"
    by (auto simp: bind_eq_Some_conv)
  have ok1 using Nil E assms(2) by (auto split: if_splits)
  then have "extract_loop m os codepage opts flt progress destination r post t1 ec1 = Some (True, t', ec')" using Nil E by simp
  from extract_loop_undisturbed [OF this assms(5)] show ?case using extract_entry_holds E \<open>ok1\<close> assms(3,4) by metis
next
  case (Cons g pre)
  then obtain ok1 t1 ec1 where E: "extract_entry m os codepage opts flt progress destination r g t ec = Some (ok1, t1, ec1)"
    by (auto simp: bind_eq_Some_conv)
  have "extract_loop m os codepage opts flt progress destination r (pre @ f # post) t1 ec1 = Some (True, t', ec')"
    using Cons.prems E by (auto split: if_splits)
  then show ?case by (rule Cons.IH)
qed

text \<open>
  C4: An extraction of a zip archive that reports success, and was not told to ignore errors,
  has put every member in place: for every member that is neither a directory nor a link
  and is not disturbed by a later one (no later member is a link or has the same place), a
  file is at its place. If the member is stored, the file holds exactly the bytes the archive
  has for it; if it is compressed and the directory gives a sum other than zero, the file holds
  data with this sum. A compressed member for which the directory gives the sum zero is not
  checked by the code, and nothing is said about its data. This holds for every behaviour of
  the decoders, of the callbacks and of the system.
\<close>

theorem zip_Extract_intact:
  assumes "Extract m os codepage opts flt progress destination r ec t = Some (True, t', ec')" and "\<not> ignore_error opts"
    and "files r = pre @ f # post" and "\<not> IsDir f" "\<not> IsSymlink f"
    and "\<forall>g\<in>set post. \<not> IsSymlink g \<and> out_of codepage destination g \<noteq> out_of codepage destination f"
  shows "\<exists>data. holds (out_of codepage destination f) t' = Some data
    \<and> (if zip_method f = 0 then \<exists>pos. data_position r f = Some (Inr pos) \<and> data = bytes_at (fd r) pos (unat (compressed_size f))
         \<and> length data = unat (compressed_size f)
       else crc32_value f \<noteq> 0 \<longrightarrow> crc32_fast data 0 = crc32_value f)"
proof -
  obtain b t1 where s: "sys os (CreateDirectories destination) t = (b, t1)" by fastforce
  have "extract_loop m os codepage opts flt progress destination r (pre @ f # post) t1 ec = Some (True, t', ec')"
    using assms(1,3) s by (cases b) (simp_all add: Extract_def)
  then show ?thesis
    using extract_loop_intact [OF _ assms(2,4,5)] assms(6) unfolding genuine_def undisturbed_def by blast
qed

section \<open>Stored archives\<close>

text \<open>
  A disk on which no call fails, callbacks that accept everything, and members that are
  directories or stored with all their bytes in the archive: the extraction returns with success.
\<close>

definition accepting :: "Filter \<Rightarrow> OnProgress \<Rightarrow> bool" where
  "accepting flt progress \<longleftrightarrow> (case flt of None \<Rightarrow> True | Some f \<Rightarrow> \<forall>h p. f h p) \<and> (\<forall>t n. \<not> refuses progress t n)"

definition stored :: "Reader \<Rightarrow> File \<Rightarrow> bool" where
  "stored r f \<longleftrightarrow> \<not> is_harmful_path (name f) \<and> \<not> IsSymlink f \<and> (IsDir f \<or> zip_method f = 0
     \<and> (\<exists>pos. data_position r f = Some (Inr pos) \<and> pos + unat (compressed_size f) \<le> length (fd r)))"

lemma zip_on_data_accepts:
  assumes "willing os" and "accepting flt progress"
  shows "\<exists>t'. on_data os progress out t p = (True, t')"
proof -
  obtain t' where "WriteFull os out p t = (None :: ec, t')" using willing_WriteFull assms(1) by blast
  then show ?thesis using assms(2) by (auto simp: on_data_def accepting_def)
qed

lemma store_loop_accepts:
  assumes "\<And>s p. \<exists>s'. w s p = (True, s')"
  shows "pos + csize \<le> length contents \<Longrightarrow> \<exists>s'. store_loop w contents pos csize s = (s', Done)"
proof (induction csize arbitrary: pos s rule: less_induct)
  case (less csize)
  show ?case
  proof (cases "csize = 0")
    case False
    obtain s1 where "w s (bytes_at contents pos (min csize 4096)) = (True, s1)" using assms by blast
    moreover obtain s' where "store_loop w contents (pos + min csize 4096) (csize - min csize 4096) s1 = (s', Done)"
      using less.IH [of "csize - min csize 4096" "pos + min csize 4096"] less.prems False by auto
    ultimately show ?thesis
      using False less.prems by (simp add: store_loop.simps [of w contents pos csize] read_full_min Let_def)
  qed (simp add: store_loop.simps)
qed

lemma extract_entry_stored:
  assumes "willing os" and "accepting flt progress" and "overwrite_mode opts" and "stored r f"
  shows "\<exists>t'. extract_entry m os codepage opts flt progress destination r f t ec = Some (True, t', ec)"
proof -
  obtain out enc where J: "JoinSanitizeFsPath codepage destination (name f) (IsFileNameUTF8 f) = Some (out, enc)"
    using assms(4) by (auto simp: stored_def JoinSanitizeFsPath_def Let_def)
  have flt: "\<not> (case flt of None \<Rightarrow> False | Some p \<Rightarrow> \<not> p f enc)" using assms(2) by (auto simp: accepting_def split: option.splits)
  show ?thesis
  proof (cases "IsDir f")
    case True
    obtain t' where "MakeDirectories os out (time f) t = (None :: ec, t')" using willing_MakeDirectories assms(1) by blast
    then show ?thesis using J flt True by (simp add: extract_entry_def finish_def)
  next
    case False
    obtain t1 where n: "NewFile os out (time f) (overwrite_mode opts) t = (None :: ec, t1)"
      using willing_NewFile [of os "overwrite_mode opts"] assms(1,3) by blast
    obtain pos where pos: "zip_method f = 0" "data_position r f = Some (Inr pos)" "pos + unat (compressed_size f) \<le> length (fd r)"
      using assms(4) False by (auto simp: stored_def)
    obtain t' where "store_loop (on_data os progress out) (fd r) pos (unat (compressed_size f)) t1 = (t', Done)"
      using store_loop_accepts [where w = "on_data os progress out", OF zip_on_data_accepts [OF assms(1,2)] pos(3)] by blast
    then have "Decompress m r f (on_data os progress out) t1 = Some (t', Done)"
      using pos by (simp add: Decompress_def decompress_by_method_def)
    then show ?thesis using J flt False assms(4) n by (simp add: extract_entry_def settle_def stored_def)
  qed
qed

lemma extract_loop_stored:
  assumes "willing os" and "accepting flt progress" and "overwrite_mode opts" and "\<forall>f\<in>set fs. stored r f"
  shows "\<exists>t'. extract_loop m os codepage opts flt progress destination r fs t ec = Some (True, t', ec)"
  using assms(4)
proof (induction fs arbitrary: t)
  case (Cons f fs)
  obtain t1 where "extract_entry m os codepage opts flt progress destination r f t ec = Some (True, t1, ec)"
    using extract_entry_stored [OF assms(1-3)] Cons.prems by fastforce
  then show ?case using Cons by simp
qed simp

lemma Extract_stored:
  assumes "willing os" and "accepting flt progress" and "overwrite_mode opts" and "\<forall>f\<in>set (files r). stored r f"
  shows "\<exists>t'. Extract m os codepage opts flt progress destination r ec t = Some (True, t', ec)"
  using extract_loop_stored [OF assms] by (simp add: Extract_def willing_sys [OF assms(1)])

definition reader_B :: Reader where
  "reader_B = reader_A\<lparr>files := [file_A 0\<lparr>flags := 0x800\<rparr>]\<rparr>"

lemma stored_B: "\<forall>f\<in>set (files reader_B). stored reader_B f" "\<not> IsDir (file_A 0\<lparr>flags := 0x800\<rparr>)"
  "\<not> IsSymlink (file_A 0\<lparr>flags := 0x800\<rparr>)"
proof -
  have p: "data_position reader_B (file_A 0\<lparr>flags := 0x800\<rparr>) = Some (Inr 31)"
    using position_A [of 0] by (simp add: data_position_def reader_B_def reader_A_def)
  have h: "\<not> is_harmful_path [0x61]" by code_simp
  show k: "\<not> IsDir (file_A 0\<lparr>flags := 0x800\<rparr>)" "\<not> IsSymlink (file_A 0\<lparr>flags := 0x800\<rparr>)"
    by (simp_all add: IsDir_def IsSymlink_def file_A_def File_default_def)
  show "\<forall>f\<in>set (files reader_B). stored reader_B f"
    using p k h by (simp add: stored_def reader_B_def reader_A_def local_A_def encode_local_def file_A_def File_default_def)
qed

lemma zip_accepting_None: "accepting None None"
  by (simp add: accepting_def refuses_def)

lemma out_B: "out_of (\<lambda>_. []) example_destination (file_A 0\<lparr>flags := 0x800\<rparr>) = lit ''C:'' @ [backslash] @ lit ''dest'' @ [backslash] @ lit ''a''"
  by code_simp

abbreviation run_B :: "trace \<Rightarrow> bool" where
  "run_B t' \<equiv> Extract copying example_os (\<lambda>_. []) \<lparr>ignore_error = False, overwrite_mode = True\<rparr> None None example_destination reader_B None []
     = Some (True, t', None)"

lemma run_B_returns: "\<exists>t'. run_B t'"
  by (rule Extract_stored [OF example_os_willing zip_accepting_None _ stored_B(1)]) simp

theorem zip_Extract_confined_witness:
  "\<exists>t'. run_B t' \<and> (\<forall>(e, b)\<in>set t'. e = CreateDirectories example_destination
     \<or> (\<exists>f\<in>set (files reader_B). \<exists>out enc. JoinSanitizeFsPath (\<lambda>_. []) example_destination (name f) (IsFileNameUTF8 f) = Some (out, enc)
          \<and> (target e = out \<or> e = CreateDirectories (path_parent out))
          \<and> (path_is_absolute example_destination \<and> IsFileNameUTF8 f \<and> clean (name f) \<longrightarrow> within example_destination (target e))))"
proof -
  obtain t' where E: "run_B t'" using run_B_returns by blast
  from zip_Extract_confined [OF this] E show ?thesis by simp
qed

text \<open>An archive with a stored member \<open>a\<close> and a compressed member \<open>b\<close>, both with the byte behind the local header.\<close>

definition reader_C :: Reader where
  "reader_C = reader_A\<lparr>files := [file_A 0\<lparr>flags := 0x800\<rparr>, file_A 8\<lparr>flags := 0x800, name := [0x62]\<rparr>]\<rparr>"

abbreviation stored_C :: File where "stored_C \<equiv> file_A 0\<lparr>flags := 0x800\<rparr>"
abbreviation deflated_C :: File where "deflated_C \<equiv> file_A 8\<lparr>flags := 0x800, name := [0x62]\<rparr>"

lemma position_C: "data_position reader_C stored_C = Some (Inr 31)" "data_position reader_C deflated_C = Some (Inr 31)"
  using position_A [of 0] position_A [of 8] by (simp_all add: data_position_def reader_C_def reader_A_def)

lemma kind_C: "\<not> IsDir stored_C" "\<not> IsSymlink stored_C" "\<not> IsDir deflated_C" "\<not> IsSymlink deflated_C"
  by (simp_all add: IsDir_def IsSymlink_def file_A_def File_default_def)

lemma out_C: "out_of (\<lambda>_. []) example_destination stored_C = lit ''C:'' @ [backslash] @ lit ''dest'' @ [backslash] @ lit ''a''"
  "out_of (\<lambda>_. []) example_destination deflated_C = lit ''C:'' @ [backslash] @ lit ''dest'' @ [backslash] @ lit ''b''"
  by code_simp+

lemma Decompress_deflated_C:
  assumes "w s [0x41] = (True, s')"
  shows "Decompress copying reader_C deflated_C w s = Some (s', Done)"
  using assms by (simp add: Decompress_def position_C decompress_by_method_def)
    (simp add: reader_C_def reader_A_def local_A_def encode_local_def file_A_def File_default_def copying_def decompressDeflate_def
      feed_loop.simps pump_inner.simps read_full_def bytes_at_def insize_def outsize_def room_def emit_def check_sum_def
      Update_def Summator_init_def Valid_def sum_A)

abbreviation run_C :: "trace \<Rightarrow> bool" where
  "run_C t' \<equiv> Extract copying example_os (\<lambda>_. []) \<lparr>ignore_error = False, overwrite_mode = True\<rparr> None None example_destination reader_C None []
     = Some (True, t', None)"

lemma run_C_returns: "\<exists>t'. run_C t'"
proof -
  let ?o = "\<lparr>ignore_error = False, overwrite_mode = True\<rparr>"
  have h: "\<not> is_harmful_path [0x61]" "\<not> is_harmful_path [0x62]" by code_simp+
  have "stored reader_C stored_C" using position_C(1) kind_C h(1)
    by (simp add: stored_def reader_C_def reader_A_def local_A_def encode_local_def file_A_def File_default_def)
  then obtain t1 where 1: "extract_entry copying example_os (\<lambda>_. []) ?o None None example_destination reader_C stored_C
      [(CreateDirectories example_destination, True)] None = Some (True, t1, None)"
    using extract_entry_stored [OF example_os_willing zip_accepting_None, of ?o reader_C stored_C] by (simp, blast)
  obtain out enc where J: "JoinSanitizeFsPath (\<lambda>_. []) example_destination (name deflated_C) (IsFileNameUTF8 deflated_C) = Some (out, enc)"
    using h(2) by (auto simp: JoinSanitizeFsPath_def Let_def)
  obtain t2 where n: "NewFile example_os out (time deflated_C) True t1 = (None :: ec, t2)"
    using willing_NewFile [of example_os True] example_os_willing by blast
  obtain t3 where "on_data example_os None out t2 [0x41] = (True, t3)"
    using zip_on_data_accepts [OF example_os_willing zip_accepting_None] by blast
  then have "Decompress copying reader_C deflated_C (on_data example_os None out) t2 = Some (t3, Done)" by (rule Decompress_deflated_C)
  then have "extract_entry copying example_os (\<lambda>_. []) ?o None None example_destination reader_C deflated_C t1 None = Some (True, t3, None)"
    using J n kind_C by (simp add: extract_entry_def settle_def)
  moreover have "files reader_C = [stored_C, deflated_C]" by (simp add: reader_C_def)
  ultimately show ?thesis using 1 by (simp add: Extract_def willing_sys [OF example_os_willing])
qed

theorem zip_Extract_intact_witness:
  "\<exists>t' data. run_C t' \<and> holds (lit ''C:'' @ [backslash] @ lit ''dest'' @ [backslash] @ lit ''a'') t' = Some [0x41]
    \<and> holds (lit ''C:'' @ [backslash] @ lit ''dest'' @ [backslash] @ lit ''b'') t' = Some data \<and> crc32_fast data 0 = 0xD3D99E8B"
proof -
  obtain t' where E: "run_C t'" using run_C_returns by blast
  have ne: "out_of (\<lambda>_. []) example_destination deflated_C \<noteq> out_of (\<lambda>_. []) example_destination stored_C"
    unfolding out_C by code_simp
  have fs: "files reader_C = [] @ stored_C # [deflated_C]" "files reader_C = [stored_C] @ deflated_C # []" by (simp_all add: reader_C_def)
  have st: "zip_method stored_C = 0" "unat (compressed_size stored_C) = 1" "bytes_at (fd reader_C) 31 1 = [0x41]"
    by (simp_all add: file_A_def reader_C_def reader_A_def local_A_def encode_local_def bytes_at_def)
  have df: "zip_method deflated_C \<noteq> 0" "crc32_value deflated_C = 0xD3D99E8B" by (simp_all add: file_A_def)
  have "holds (out_of (\<lambda>_. []) example_destination stored_C) t' = Some [0x41]"
    using zip_Extract_intact [OF E _ fs(1) kind_C(1,2)] st position_C(1) ne kind_C(4) by auto
  moreover obtain data where "holds (out_of (\<lambda>_. []) example_destination deflated_C) t' = Some data" "crc32_fast data 0 = 0xD3D99E8B"
    using zip_Extract_intact [OF E _ fs(2) kind_C(3,4)] df by auto
  ultimately show ?thesis using E unfolding out_C by blast
qed

end
