(* ===== verification/Baulk_Extractor.thy ===== *)
theory Baulk_Extractor
  imports Baulk_Stream Baulk_Zip_Extract
begin

text \<open>
  The extractors of the command line, \<^verbatim>\<open>tools/baulk/extractor.cc\<close>: the choice of an extractor from
  the detected format, the universal extractor that reads tar archives or single files
  through the readers of \<open>Baulk_Stream\<close>, and the search for \<^verbatim>\<open>7z.exe\<close>. What is printed is left out.
\<close>

section \<open>Choosing an extractor\<close>

datatype extractor = ZipExtractor Baulk_Zip.Reader | UniversalExtractor int file_format_t | SevenZipExtractor file_format_t | MsiExtractor

datatype make_extractor_error = OpenFailed | NotDetected | ZipFailed zip_error | NoOverlayArchive | NotSupported

definition MakeExtractor ::
    "(byte list \<Rightarrow> (int \<times> int) option) \<Rightarrow> (nat \<Rightarrow> byte list) \<Rightarrow> byte list \<Rightarrow> (make_extractor_error + extractor) option" where
  "MakeExtractor overlay malloc bytes =
     (case CheckFormat overlay bytes 0 of
        None \<Rightarrow> Some (Inl OpenFailed)
      | Some (afmt, offset) \<Rightarrow>
          (case afmt of
             FNone \<Rightarrow> Some (Inl NotDetected)
           | FZip \<Rightarrow> map_option (map_sum ZipFailed ZipExtractor) (OpenReader malloc bytes (- 1) offset)
           | FXz \<Rightarrow> Some (Inr (UniversalExtractor offset afmt))
           | FZstd \<Rightarrow> Some (Inr (UniversalExtractor offset afmt))
           | FGz \<Rightarrow> Some (Inr (UniversalExtractor offset afmt))
           | FBz2 \<Rightarrow> Some (Inr (UniversalExtractor offset afmt))
           | FTar \<Rightarrow> Some (Inr (UniversalExtractor offset afmt))
           | FCab \<Rightarrow> Some (Inr (SevenZipExtractor afmt))
           | FDeb \<Rightarrow> Some (Inr (SevenZipExtractor afmt))
           | FDmg \<Rightarrow> Some (Inr (SevenZipExtractor afmt))
           | FRpm \<Rightarrow> Some (Inr (SevenZipExtractor afmt))
           | FWim \<Rightarrow> Some (Inr (SevenZipExtractor afmt))
           | FRar \<Rightarrow> Some (Inr (SevenZipExtractor afmt))
           | FNsis \<Rightarrow> Some (Inr (SevenZipExtractor afmt))
           | F7z \<Rightarrow> Some (Inr (SevenZipExtractor afmt))
           | FMsi \<Rightarrow> Some (Inr MsiExtractor)
           | FExe \<Rightarrow> Some (Inl NoOverlayArchive)
           | _ \<Rightarrow> Some (Inl NotSupported)))"

text \<open>
  The search for \<^verbatim>\<open>7z.exe\<close>: the installed one, the one in the directory of links, the one on the path.
  The second is taken when there is no such file.
\<close>

definition lookup_sevenzip :: "wstr option \<Rightarrow> wstr \<Rightarrow> (wstr \<Rightarrow> bool) \<Rightarrow> wstr option \<Rightarrow> wstr option" where
  "lookup_sevenzip find7z app_links path_exists look_path =
     (case find7z of
        Some ps7z \<Rightarrow> Some ps7z
      | None \<Rightarrow>
          (let s7z = app_links @ [backslash] @ lit ''7z.exe'' in
           if \<not> path_exists s7z then Some s7z else look_path))"

section \<open>The reader below a tar archive\<close>

datatype 'z below = Compressed "'z ExtractReader" | Plain int

definition tar_reader :: "'z machines \<Rightarrow> byte list \<Rightarrow> int \<Rightarrow> file_format_t \<Rightarrow> make_error + 'z below" where
  "tar_reader m bytes offset afmt =
     (case MakeReader m bytes offset afmt of
        Inr wr \<Rightarrow> Inr (Compressed wr)
      | Inl e \<Rightarrow> if e \<noteq> ErrNoFilter then Inl e else Inr (Plain offset))"

section \<open>Single files\<close>



text \<open>
  The loop that copies a stream into a file. It ends with success when a read gives nothing,
  whether the stream has ended or the decoder has failed.
\<close>

partial_function (option) copy_loop ::
    "os \<Rightarrow> wstr \<Rightarrow> (nat \<Rightarrow> 's \<Rightarrow> ((tar_error option + byte list) \<times> 's) option) \<Rightarrow> 's \<Rightarrow> trace \<Rightarrow> (bool \<times> trace) option" where
  "copy_loop os target_file read s t = do {
     (res, s) \<leftarrow> read 8192 s;
     (case res of
        Inl e \<Rightarrow> Some (True, t)
      | Inr b \<Rightarrow>
          if b = [] then Some (True, t)
          else case WriteFull os target_file b t of
            (None :: tar_error err option, t) \<Rightarrow> copy_loop os target_file read s t
          | (Some e, t) \<Rightarrow> Some (False, t))
   }"


section \<open>A single file is decompressed\<close>



text \<open>The reader drops input that is left when it reads on; only the end of the stream leaves any.\<close>

definition drained :: "('z \<Rightarrow> byte list \<Rightarrow> byte list) \<Rightarrow> ('z \<Rightarrow> byte list \<Rightarrow> bool) \<Rightarrow> ('z, 'a) gzip_scheme \<Rightarrow> bool" where
  "drained D V s \<longleftrightarrow> V (zst s) (inb s @ src s)
     \<and> (reads_next s \<longrightarrow> inb s = [] \<or> (\<forall>bs. V (zst s) bs \<and> D (zst s) bs = []))"

lemma drained_outb [simp]: "drained D V (s\<lparr>outb := b\<rparr>) = drained D V s"
  by (simp add: drained_def reads_next_def)



















text \<open>
  A damaged file is reported as extracted: a read that fails ends the copy like the end of
  the stream does.
\<close>

lemma single_file_damaged:
  assumes "read 8192 s = Some (Inl (Some ErrExtractGeneral), s')"
  shows "copy_loop os path read s t = Some (True, t)"
  using assms by (subst copy_loop.simps) simp

text \<open>The second place for \<^verbatim>\<open>7z.exe\<close> is answered only when nothing is there.\<close>

lemma lookup_sevenzip_links:
  assumes "lookup_sevenzip None links exists None = Some p"
  shows "\<not> exists p"
  using assms by (auto simp: lookup_sevenzip_def Let_def split: if_splits)

text \<open>Formats with a signature are given to an extractor, whatever else the file holds.\<close>

lemma MakeExtractor_compressed:
  assumes "(sig, fmt) \<in> set signatures" and "starts_bytes_with (take magic_size bytes) sig" and "fmt \<in> {FGz, FBz2, FXz, FZstd}"
  shows "MakeExtractor overlay malloc bytes = Some (Inr (UniversalExtractor 0 fmt))"
proof -
  obtain rest where "take magic_size bytes = sig @ rest" using assms(2) starts_bytes_with_iff by blast
  then have "CheckFormat overlay bytes 0 = Some (fmt, 0)"
    using signatures_analyzed [OF assms(1)] assms(3) by (auto simp: CheckFormat_def magic_bytes_def bytes_at_def Let_def)
  then show ?thesis using assms(3) by (auto simp: MakeExtractor_def)
qed

end
