(* ===== verification/Spec2Isabelle.thy ===== *)
theory Spec2Isabelle
  imports Lzma_Rc_Roundtrip Lzma_Encoder Lzma_Decoder_Safe Lzma_Vli Lzma_Crc Lzma_Stream_Flags Lzma_Delta Lzma_Simple_Coder Lzma_X86 Lzma_Check
    Bela_Codecvt Baulk_Install Baulk_Tar_Extract Baulk_Extractor
begin

text \<open>
  A verification development for Baulk, a package manager for Windows, and for the parts of
  its libraries that decide what is installed and where.

  \<^bold>\<open>The program.\<close> A package is described by a manifest in a bucket. \<open>Install\<close> looks the
  package up, compares its version with the installed one, downloads its archive, checks
  the digest and expands the archive into the place of the package. Archives are tar or zip
  files, possibly compressed, read by readers of the program's own on top of third-party
  decoders, of which parts of liblzma are modelled here. The format of an archive is found
  from its first bytes; an extractor goes over the members, joins their names to the
  destination by two functions that have to keep them below it, and writes what the decoder
  of the member gives it.

  \<^bold>\<open>The theories\<close>, with the sources under \<^verbatim>\<open>src/\<close> they model:

  \<^item> \<open>Prelude\<close>: words, buffers and the named collections the other theories share.
  \<^item> \<open>Bela_Base\<close>, \<open>Bela_Semver\<close>, \<open>Bela_Codecvt\<close>, \<open>Bela_Path\<close>, \<open>Bela_Time\<close>, \<open>Bela_Io\<close>: the
    base library (\<^verbatim>\<open>vendor/bela\<close>) and the path functions of \<^verbatim>\<open>lib/archive/ced.cc\<close>. Versions
    are parsed, printed and compared; text goes between UTF-8 and UTF-16; paths are split,
    joined and checked; times are decoded; files are read through a buffer.
  \<^item> \<open>Baulk_Package\<close>: manifests, the record of an installed package, the choice among the
    buckets, updates, mirrors and digests (\<^verbatim>\<open>tools/baulk/metadata.cc\<close>, \<^verbatim>\<open>bucket.cc\<close>,
    \<^verbatim>\<open>lib/misc/hash.cc\<close>, \<^verbatim>\<open>lib/net/speed.cc\<close>).
  \<^item> \<open>Baulk_Install\<close>: installation over a disk on which every operation may fail
    (\<^verbatim>\<open>tools/baulk/pkg.cc\<close>, \<^verbatim>\<open>extractor.cc\<close>, \<^verbatim>\<open>lib/misc/fs.cc\<close>).
  \<^item> \<open>Baulk_Tar\<close> and \<open>Baulk_Zip\<close>: the archive readers (\<^verbatim>\<open>lib/archive/tar\<close>,
    \<^verbatim>\<open>lib/archive/zip\<close>).
  \<^item> \<open>Baulk_Disk\<close>: the calls an extraction makes of the system (\<^verbatim>\<open>lib/archive/fs.cc\<close>), and
    \<open>Baulk_Tar_Extract\<close> and \<open>Baulk_Zip_Extract\<close>: the extractors of
    \<^verbatim>\<open>include/baulk/archive/extractor.hpp\<close> on top of the readers.
  \<^item> \<open>Baulk_Crc32_Table\<close> and \<open>Baulk_Crc32\<close>: the sums of zip members, by one byte or up to
    sixteen bytes a step (\<^verbatim>\<open>lib/archive/crc32.cc\<close>). \<open>Baulk_Zip_Decode\<close>: the decoders of zip
    members (\<^verbatim>\<open>lib/archive/zip\<close>).
  \<^item> \<open>Baulk_Codecs\<close> and \<open>Baulk_Stream\<close>: compressed tar archives, read through the decoders
    (\<^verbatim>\<open>lib/archive/tar/gzip.cc\<close> and its neighbours). \<open>Baulk_Format\<close>: the recognition of formats
    (\<^verbatim>\<open>lib/archive/format.cc\<close>). \<open>Baulk_Extractor\<close>: the choice of an extractor and the files that
    hold a single compressed file (\<^verbatim>\<open>tools/baulk/extractor.cc\<close>).
  \<^item> \<open>Lzma_Base\<close> (\<open>lzma_code\<close> over any coder), \<open>Lzma_Vli\<close>, \<open>Lzma_Crc\<close>, \<open>Lzma_Check\<close>,
    \<open>Lzma_Stream_Flags\<close>, \<open>Lzma_Delta\<close>, \<open>Lzma_Simple\<close>, \<open>Lzma_Simple_Coder\<close>, \<open>Lzma_X86\<close>: the
    integers, checks, headers and filters of \<^verbatim>\<open>lib/archive/xz/src/liblzma\<close>.
  \<^item> \<open>Lzma_Rc\<close>, \<open>Lzma_Rc_Encoder\<close>, \<open>Lzma_Rc_Decoder\<close>, \<open>Lzma_Rc_Roundtrip\<close>: the range coder of
    LZMA (\<^verbatim>\<open>liblzma/rangecoder\<close>) with an interval coder over unbounded numbers as its specification.
    \<open>Lzma_Lz_Dict\<close>: the dictionary of the decoders (\<^verbatim>\<open>liblzma/lz/lz_decoder.h\<close>). \<open>Lzma_Common\<close>,
    \<open>Lzma_Encoder\<close>, \<open>Lzma_Decoder\<close>: the LZMA coders on top of them (\<^verbatim>\<open>liblzma/lzma\<close>).
    \<open>Lzma_Decoder_Modes\<close>: the fast mode of the decoder against its resumable mode, symbol by symbol.
    \<open>Lzma_Decoder_Input\<close>: how many bytes of input a symbol can take. \<open>Lzma_Decoder_Safe\<close>: the
    invariant of the decoder and the properties of every call.

  \<^bold>\<open>How the code is modelled.\<close> A struct is a record with the fields of the source, an
  enumeration a datatype, an integer a word of its width or an integer with the wrap-around
  written out. A string is the list of its code units. Errors are values: \<open>Inl\<close> of a sum for
  an error the code reports, \<open>None\<close> of an option for undefined behaviour or for a call that
  never returns, so that a result \<open>Some x\<close> always says that the code is defined on that
  input. Loops are recursive functions with a termination proof, or partial functions with a
  proof of where they return: \<open>next_loop\<close> and \<open>FileReader_WriteTo\<close> of the tar reader and
  \<open>bufio_ReadFull\<close>, the loops of the decoders and of the extractors. Fuel is used
  for one loop, over the eight bits of a literal with a match byte in \<open>Lzma_Encoder\<close>, where eight
  rounds always suffice. What is not part of the sources is an argument: the
  system's code page conversion in \<open>Bela_Path\<close>, the parsed JSON and the digests in the record
  \<open>host\<close>, downloads, links and extraction in the record \<open>services\<close>, the memory the allocator
  hands out in \<open>Baulk_Zip\<close>, the writer of an extraction in \<open>Baulk_Tar\<close>. An extraction is
  modelled by the trace of the system calls it makes; the parameter \<open>os\<close> answers a call from
  the trace so far, so that every call may fail at any time. The decoders of third-party
  libraries are machines, the record \<open>machines\<close>; where a theorem needs them to decode, the
  documented behaviour of a step is its hypothesis (\<open>decodes\<close>, \<open>zstd_decodes\<close>, \<open>xz_decodes\<close>,
  \<open>finishes\<close>): in the states it is in while it decodes a sound file it takes input or gives output, and
  what it gives now and later is the contents. Nothing is asked of it on damaged data or behind the end
  of the data. Three simplifications of the installation are parameters too: the links (\<open>NewLinks\<close>)
  only answer whether they were made and lie outside of the modelled disk, the extraction of an
  archive changes the entry of its destination only, and \<open>fs_remove_all\<close> is one step.

  \<^bold>\<open>The interfaces.\<close> The locale \<open>lzma_coder\<close> is the contract between \<open>lzma_code\<close> and a coder,
  interpreted on the delta filter and the filter coder; \<open>checksum\<close>, \<open>bcj_block\<close> and
  \<open>simple_filter\<close> are those of the checks and the filters, interpreted on every one of them;
  \<open>ranking\<close> is what the choice of a package relies on, interpreted on versions and weights;
  \<open>member_decoder\<close> is what the extractor of zip archives relies on, interpreted on the
  decoders of the eight methods; \<open>extract_reader\<close> is what the tar reader relies on,
  interpreted on the plain file and shown of the decompressing readers.

  \<^bold>\<open>What is shown.\<close> Members of an archive stay below the destination (\<open>JoinSanitizePath\<close>,
  \<open>JoinSanitizeFsPath\<close> for names that are well formed and marked UTF-8 without a leading separator). The
  best package is chosen where the parts of versions are below two to the 31, and an installed package
  is not lost whatever fails; flattening takes the files out of their wrapping folders and
  changes nothing else. Tar and zip archives are read as they were written, tar archives with their
  PAX and long name blocks where the entry in front of them was read or has no contents; damaged
  headers are refused; reading always returns or is shown where it does not. Both extractors
  touch only the places the sanitizer makes of the destination and the names of the members that the
  reader returned, which are below an absolute destination for the names above. The tar
  extractor writes the contents of the entries and stops where the caller refuses to go on. A
  compressed zip member that is reported as extracted has the sum its directory entry gives, unless that is
  zero, which the code takes for no sum; stored members are not summed. A compressed tar archive
  reads like the plain one, and a single compressed file is extracted whole, whatever lies behind
  its compressed data. The variants of the
  zip sum agree and sums of pieces combine. Formats are recognised by their signatures. Versions, text, dates, records and numbers survive
  their round trips. In liblzma the coding loop makes progress and keeps its books, the
  optimised checksums compute their mathematical definition, and the filters are inverted by
  their decoders. The range decoder reads back what the range encoder was given, however its
  output was cut into buffers, and the dictionary stands for all the output so far: a copy
  appends what lies at its distance and never leaves the buffer. The LZMA decoder stays inside its buffers
  on any input and whatever it is fed in, and its fast mode does what its resumable mode does. The remarks at the end of the theories show where the code does something
  else than it means to, each with a lemma on a concrete input or a condition.

  \<^bold>\<open>Not modelled.\<close> The vendored decoders other than the parts of liblzma above (zlib, zstd,
  brotli, bzip2, deflate64, ppmd), the search for matches of the LZMA encoder, which decides
  what is coded and not how, the chunks of LZMA2 and the filter chains, the detection of encodings,
  the allocator, the JSON and XML libraries and the network client are third-party code or
  calls into the system. The reader of executables behind which an archive may lie, the
  installer packages and 7-Zip run as other programs, the command line, launchers, the layout
  of directories and the other tools are not modelled. In the modelled parts, messages on
  the terminal have no counterpart, system calls that only read are taken to succeed, and
  the functions for sparse files that the tar reader never calls are left out.
\<close>

section \<open>The public coding loop over the coders of the library\<close>

text \<open>
  C27: \<open>lzma_code\<close> keeps its books. Over any coder that keeps the coder contract, every
  call, whatever its action and its outcome, leaves a well-formed stream: \<open>next_in\<close> has
  moved by exactly the input used, \<open>avail_in\<close>, \<open>avail_out\<close>, \<open>total_in\<close> and \<open>total_out\<close>
  agree with it, the bytes produced are only appended to, and the coder keeps its
  invariant.
\<close>

theorem lzma_code_accounts:
  assumes "lzma_coder code cinv" and "strm_ok code cinv s" and "lzma_code s action = (ret, s')"
  shows "strm_ok code cinv s' \<and> strm_accounts s s'"
  using lzma_coder.lzma_code_ok [OF assms] .

text \<open>A stream whose only coder is a delta encoder with nothing behind it.\<close>

definition delta_stream :: "byte list \<Rightarrow> nat \<Rightarrow> unit lzma_delta_coder lzma_stream" where
  "delta_stream input n =
     \<lparr>next_in = Some input, avail_in = length input, total_in = 0,
      next_out = Some (replicate n 0), avail_out = n, total_out = 0,
      internal = Some \<lparr>next_coder = Some (\<lparr>delta_next = None, distance = 1, pos = 0,
          history = replicate 256 0\<rparr>, delta_encode), sequence = ISEQ_RUN,
          internal_avail_in = 0, supported_actions = (\<lambda>_. True), allow_buf_error = False\<rparr>,
      reserved_zero = True, produced = []\<rparr>"

lemma delta_stream_ok: "strm_ok delta_encode (\<lambda>c. delta_next c = None) (delta_stream input n)"
  by (simp add: strm_ok_def delta_stream_def)

theorem lzma_code_accounts_witness:
  "strm_accounts (delta_stream [1, 2, 3] 2) (snd (lzma_code (delta_stream [1, 2, 3] 2) LZMA_RUN))"
  using lzma_code_accounts [OF delta_copy.lzma_coder_axioms delta_stream_ok prod.collapse [symmetric]]
  by blast

text \<open>
  C26: The coding loop cannot be fed in circles. If two calls in a row answer \<open>LZMA_OK\<close>,
  with the application free to change the buffers in between, at least one of them has
  consumed input or produced output: a second call without progress is answered with
  \<open>LZMA_BUF_ERROR\<close> or another code, for every coder that keeps the contract and has no
  timeout.
\<close>

theorem lzma_code_makes_progress:
  assumes "lzma_coder code cinv" and "strm_ok code cinv s" and "lzma_code s action = (LZMA_OK, s1)"
    and "strm_ok code cinv s1'" and "internal s1' = internal s1"
    and "lzma_code s1' action' = (LZMA_OK, s2)"
    and "\<And>c inb ip is out op os a. cinv c \<Longrightarrow> fst (code c inb ip is out op os a) \<noteq> LZMA_TIMED_OUT"
  shows "consumed s s1 > 0 \<or> Lzma_Base.written s s1 > 0 \<or> consumed s1' s2 > 0 \<or> Lzma_Base.written s1' s2 > 0"
  using lzma_coder.lzma_code_two_calls [OF assms] .

lemma delta_encode_no_timeout:
  "delta_next c = None \<Longrightarrow> fst (delta_encode c buf ip is out op os a) \<noteq> LZMA_TIMED_OUT"
  by (simp add: delta_encode_def Let_def split: prod.splits)

theorem lzma_code_makes_progress_witness:
  "let s = delta_stream [1, 2, 3] 2; s1 = snd (lzma_code s LZMA_RUN);
       s1' = s1\<lparr>next_out := Some [0, 0], avail_out := 2\<rparr>; s2 = snd (lzma_code s1' LZMA_RUN)
   in consumed s s1 > 0 \<or> Lzma_Base.written s s1 > 0 \<or> consumed s1' s2 > 0 \<or> Lzma_Base.written s1' s2 > 0"
proof -
  let ?s = "delta_stream [1, 2, 3] 2"
  let ?s1 = "snd (lzma_code ?s LZMA_RUN)"
  let ?s1' = "?s1\<lparr>next_out := Some [0, 0], avail_out := 2\<rparr>"
  let ?s2 = "snd (lzma_code ?s1' LZMA_RUN)"
  have "fst (lzma_code ?s LZMA_RUN) = LZMA_OK" "fst (lzma_code ?s1' LZMA_RUN) = LZMA_OK"
    by code_simp+
  then have r1: "lzma_code ?s LZMA_RUN = (LZMA_OK, ?s1)" and r2: "lzma_code ?s1' LZMA_RUN = (LZMA_OK, ?s2)"
    by (metis prod.collapse)+
  have ok1: "strm_ok delta_encode (\<lambda>c. delta_next c = None) ?s1"
    using lzma_coder.lzma_code_ok [OF delta_copy.lzma_coder_axioms delta_stream_ok r1] by blast
  then have ok1': "strm_ok delta_encode (\<lambda>c. delta_next c = None) ?s1'" by (simp add: strm_ok_def)
  have "internal ?s1' = internal ?s1" by simp
  from lzma_code_makes_progress [OF delta_copy.lzma_coder_axioms delta_stream_ok r1 ok1' this r2
      delta_encode_no_timeout]
  show ?thesis unfolding Let_def .
qed

end
